(* ===== verification/Prelude.thy ===== *)
theory Prelude
  imports Main "HOL-Library.Word" "HOL-Library.Monad_Syntax"
begin

text \<open>
  Shared vocabulary of the development.  C integer types are named after the
  source (\<open>types.h\<close>): \<open>u8\<close>, \<open>u16\<close>, \<open>u32\<close>, \<open>u64\<close> are machine words; a C \<open>int\<close> is a
  HOL \<open>int\<close> whose arithmetic is wrapped by \<open>wrap32\<close> where the source can overflow it.
  A kernel panic never returns, so a function that may panic yields an \<open>option\<close> and
  \<open>panic msg\<close> is \<open>None\<close>; the do-notation of the option monad then reads like the
  source.  A function that may block returns a \<open>blocking\<close> value: either it is done, or
  it has gone to sleep on a channel and is re-entered after the wakeup.
\<close>

section \<open>Integers\<close>

type_synonym u8 = "8 word"
type_synonym u16 = "16 word"
type_synonym u32 = "32 word"
type_synonym u64 = "64 word"

definition wrap32 :: "int \<Rightarrow> int" where
  "wrap32 i = signed_take_bit 31 i"

definition wrap16 :: "int \<Rightarrow> int" where
  "wrap16 i = signed_take_bit 15 i"

definition int32 :: "u64 \<Rightarrow> int" where
  "int32 w = signed_take_bit 31 (uint w)"

section \<open>Panic and blocking\<close>

definition panic :: "string \<Rightarrow> 'a option" where
  "panic msg = None"

datatype ('a, 'c) blocking = Done 'a | Sleep 'c

named_theorems panic_simps \<open>unfolding of panics\<close>
named_theorems inv_intros \<open>invariant preservation rules\<close>

declare panic_def [panic_simps]

section \<open>Words\<close>

lemma wrap32_id [simp]: "- (2 ^ 31) \<le> i \<Longrightarrow> i < 2 ^ 31 \<Longrightarrow> wrap32 i = i"
  unfolding wrap32_def by (rule signed_take_bit_int_eq_self) auto

lemma wrap32_range: "- (2 ^ 31) \<le> wrap32 i \<and> wrap32 i < 2 ^ 31"
  unfolding wrap32_def
  using signed_take_bit_int_greater_eq_minus_exp [of 31 i] signed_take_bit_int_less_exp [of 31 i]
  by auto

section \<open>Lists\<close>

lemma list_update_take_drop:
  "i < length xs \<Longrightarrow> xs[i := x] = take i xs @ x # drop (Suc i) xs"
  by (rule upd_conv_take_nth_drop)

lemma take_Suc_update [simp]:
  "i < length xs \<Longrightarrow> take (Suc i) (xs[i := x]) = take i xs @ [x]"
  by (simp add: take_Suc_conv_app_nth)

lemma nth_map_upt [simp]: "i < n \<Longrightarrow> map f [0..<n] ! i = f i"
  by simp

lemma nth_list_update_in [simp]:
  "j < length xs \<Longrightarrow> xs[i := x] ! j = (if i = j then x else xs ! j)"
  by (cases "i = j") auto

lemma drop_eq_ConsD:
  "x # xs = drop i ys \<Longrightarrow> i < length ys \<and> x = ys ! i \<and> xs = drop (Suc i) ys"
  by (metis drop_all drop_Suc list.distinct(1) list.sel(1,3) not_le hd_drop_conv_nth tl_drop)

lemma sum_list_map_update_less:
  assumes "i < length xs" and "f y < (f (xs ! i) :: nat)"
  shows "sum_list (map f (xs[i := y])) < sum_list (map f xs)"
proof -
  have "f (xs ! i) \<le> sum_list (map f xs)"
    using assms(1) by (metis length_map nth_map elem_le_sum_list)
  then show ?thesis using assms by (simp add: map_update sum_list_update)
qed

lemma takeWhile_length_le: "length (takeWhile P xs) \<le> length xs"
  by (rule length_takeWhile_le)

lemma set_takeWhile_sat: "x \<in> set (takeWhile P xs) \<Longrightarrow> P x"
  by (rule set_takeWhileD [THEN conjunct2])

lemma takeWhile_all [simp]: "\<forall>x \<in> set xs. P x \<Longrightarrow> takeWhile P xs = xs"
  by (simp add: takeWhile_eq_all_conv)

end
