(* ===== verification/Cstring.thy ===== *)
theory Cstring
  imports Prelude
begin

text \<open>
  The kernel's C string library (\<open>kernel/string.c\<close>) and the two comparison helpers of
  \<open>kernel/agentcmd.c\<close>.

  A \<open>char\<close> of the source (8 bits, unsigned on RISC-V) is a HOL \<open>char\<close>.  A pointer into a
  character array is the list of the characters from that position on: \<open>*s\<close> is
  \<open>deref s\<close>, \<open>s + 1\<close> is \<open>tl s\<close> and \<open>s[i]\<close> is \<open>deref (drop i s)\<close>.  The end of the list
  reads as the terminating NUL.  A function that writes through its destination pointer
  takes the old array and returns the new one, so bytes it leaves alone are kept.
  \<open>memmove\<close> is modelled over one flat memory, because its two loops exist only for
  overlapping regions.
\<close>

section \<open>Reading strings\<close>

abbreviation NUL :: char where
  "NUL \<equiv> CHR 0x00"

definition deref :: "string \<Rightarrow> char" where
  "deref s = (case s of [] \<Rightarrow> NUL | c # _ \<Rightarrow> c)"

definition cstr :: "string \<Rightarrow> string" where
  "cstr s = takeWhile (\<lambda>c. c \<noteq> NUL) s"

definition byte_of :: "char \<Rightarrow> int" where
  "byte_of c = int (of_char c)"

fun strlen_from :: "string \<Rightarrow> nat \<Rightarrow> nat" where
  "strlen_from [] n = n"
| "strlen_from (c # s) n = (if c = NUL then n else strlen_from s (Suc n))"

definition strlen :: "string \<Rightarrow> nat" where
  "strlen s = strlen_from s 0"

fun strncmp :: "string \<Rightarrow> string \<Rightarrow> nat \<Rightarrow> int" where
  "strncmp p q 0 = 0"
| "strncmp p q (Suc n) =
     (if deref p \<noteq> NUL \<and> deref p = deref q then strncmp (tl p) (tl q) n
      else byte_of (deref p) - byte_of (deref q))"

fun memcmp :: "string \<Rightarrow> string \<Rightarrow> nat \<Rightarrow> int" where
  "memcmp s1 s2 0 = 0"
| "memcmp s1 s2 (Suc n) =
     (if deref s1 \<noteq> deref s2 then byte_of (deref s1) - byte_of (deref s2)
      else memcmp (tl s1) (tl s2) n)"

fun str_eq :: "string \<Rightarrow> string \<Rightarrow> bool" where
  "str_eq [] b = (deref b = NUL)"
| "str_eq (x # a) b =
     (if x \<noteq> NUL \<and> deref b \<noteq> NUL then (if x \<noteq> deref b then False else str_eq a (tl b))
      else x = deref b)"

fun str_starts :: "string \<Rightarrow> string \<Rightarrow> bool" where
  "str_starts s [] = True"
| "str_starts s (p # ps) =
     (if p = NUL then True else if deref s \<noteq> p then False else str_starts (tl s) ps)"

section \<open>Writing strings\<close>

fun memset_loop :: "string \<Rightarrow> char \<Rightarrow> nat \<Rightarrow> nat \<Rightarrow> string" where
  "memset_loop dst c i 0 = dst"
| "memset_loop dst c i (Suc k) = memset_loop (dst[i := c]) c (Suc i) k"

definition memset :: "string \<Rightarrow> char \<Rightarrow> nat \<Rightarrow> string" where
  "memset dst c n = memset_loop dst c 0 n"

fun strncpy_fill :: "string \<Rightarrow> nat \<Rightarrow> string" where
  "strncpy_fill s 0 = s"
| "strncpy_fill s (Suc n) = NUL # strncpy_fill (tl s) n"

fun strncpy :: "string \<Rightarrow> string \<Rightarrow> nat \<Rightarrow> string" where
  "strncpy s t 0 = s"
| "strncpy s t (Suc n) =
     (if deref t \<noteq> NUL then deref t # strncpy (tl s) (tl t) n
      else NUL # strncpy_fill (tl s) n)"

fun safestrcpy_loop :: "string \<Rightarrow> string \<Rightarrow> nat \<Rightarrow> string" where
  "safestrcpy_loop s t 0 = NUL # tl s"
| "safestrcpy_loop s t (Suc k) =
     (if deref t \<noteq> NUL then deref t # safestrcpy_loop (tl s) (tl t) k
      else NUL # NUL # tl (tl s))"

definition safestrcpy :: "string \<Rightarrow> string \<Rightarrow> int \<Rightarrow> string" where
  "safestrcpy s t n = (if n \<le> 0 then s else safestrcpy_loop s t (nat n - 1))"

type_synonym memory = "nat \<Rightarrow> char"

fun copy_up :: "memory \<Rightarrow> nat \<Rightarrow> nat \<Rightarrow> nat \<Rightarrow> memory" where
  "copy_up m d s 0 = m"
| "copy_up m d s (Suc n) = copy_up (m(d := m s)) (d + 1) (s + 1) n"

fun copy_down :: "memory \<Rightarrow> nat \<Rightarrow> nat \<Rightarrow> nat \<Rightarrow> memory" where
  "copy_down m d s 0 = m"
| "copy_down m d s (Suc n) = copy_down (m(d - 1 := m (s - 1))) (d - 1) (s - 1) n"

definition memmove :: "memory \<Rightarrow> nat \<Rightarrow> nat \<Rightarrow> nat \<Rightarrow> memory" where
  "memmove m dst src n =
     (if n = 0 then m
      else if src < dst \<and> src + n > dst then copy_down m (dst + n) (src + n) n
      else copy_up m dst src n)"

definition memcpy :: "memory \<Rightarrow> nat \<Rightarrow> nat \<Rightarrow> nat \<Rightarrow> memory" where
  "memcpy m dst src n = memmove m dst src n"

section \<open>Facts about strings\<close>

lemma deref_Nil [simp]: "deref [] = NUL"
  and deref_Cons [simp]: "deref (c # s) = c"
  by (simp_all add: deref_def)

lemma cstr_Nil [simp]: "cstr [] = []"
  and cstr_Cons [simp]: "cstr (c # s) = (if c = NUL then [] else c # cstr s)"
  by (simp_all add: cstr_def)

lemma cstr_no_NUL [simp]: "NUL \<notin> set (cstr s)"
  by (auto simp: cstr_def dest: set_takeWhileD)

lemma cstr_id: "NUL \<notin> set s \<Longrightarrow> cstr s = s"
  by (induction s) auto

lemma cstr_cstr [simp]: "cstr (cstr s) = cstr s"
  by (simp add: cstr_id)

lemma cstr_empty_iff: "cstr s = [] \<longleftrightarrow> deref s = NUL"
  by (cases s) auto

lemma cstr_unfold: "cstr s = (if deref s = NUL then [] else deref s # cstr (tl s))"
  by (cases s) auto

lemma cstr_append_NUL [simp]: "NUL \<notin> set s \<Longrightarrow> cstr (s @ NUL # t) = s"
  by (induction s) auto

lemma byte_of_inj [simp]: "byte_of c = byte_of d \<longleftrightarrow> c = d"
  by (simp add: byte_of_def)

lemma byte_of_range: "0 \<le> byte_of c \<and> byte_of c < 256"
proof -
  have "(of_char c :: nat) < 256" by (rule nat_of_char_less_256)
  then show ?thesis by (simp add: byte_of_def)
qed

lemma strlen_from_eq: "strlen_from s n = n + length (cstr s)"
  by (induction s arbitrary: n) auto

lemma strlen_eq: "strlen s = length (cstr s)"
  by (simp add: strlen_def strlen_from_eq)

lemma str_eq_iff: "str_eq a b \<longleftrightarrow> cstr a = cstr b"
proof (induction a arbitrary: b)
  case Nil
  then show ?case by (cases b) auto
next
  case (Cons x a)
  then show ?case by (cases b) auto
qed

lemma str_starts_iff: "NUL \<notin> set p \<Longrightarrow> str_starts s p \<longleftrightarrow> take (length p) (cstr s) = p"
proof (induction p arbitrary: s)
  case Nil
  then show ?case by simp
next
  case (Cons c p)
  then show ?case by (cases s) auto
qed

lemma strncmp_eq_0: "strncmp p q n = 0 \<longleftrightarrow> take n (cstr p) = take n (cstr q)"
proof (induction n arbitrary: p q)
  case 0
  then show ?case by simp
next
  case (Suc n)
  then show ?case by (cases p; cases q) auto
qed

lemma strncmp_eq_0_short:
  assumes "length (cstr p) < n"
  shows "strncmp p q n = 0 \<longleftrightarrow> cstr p = cstr q"
proof -
  have "cstr q = cstr p" if eq: "take n (cstr q) = cstr p"
  proof -
    have "min (length (cstr q)) n = length (cstr p)"
      using arg_cong [OF eq, of length] by simp
    with assms have "length (cstr q) \<le> n" by linarith
    with eq show ?thesis by simp
  qed
  moreover have "take n (cstr p) = cstr p" using assms by simp
  ultimately show ?thesis using strncmp_eq_0 [of p q n] by auto
qed

lemma memcmp_eq_0:
  "n \<le> length s1 \<Longrightarrow> n \<le> length s2 \<Longrightarrow> memcmp s1 s2 n = 0 \<longleftrightarrow> take n s1 = take n s2"
proof (induction n arbitrary: s1 s2)
  case 0
  then show ?case by simp
next
  case (Suc n)
  then show ?case by (cases s1; cases s2) auto
qed

lemma length_memset_loop [simp]: "length (memset_loop dst c i k) = length dst"
  by (induction dst c i k rule: memset_loop.induct) auto

lemma memset_loop_eq:
  "i + k \<le> length dst \<Longrightarrow>
   memset_loop dst c i k = take i dst @ replicate k c @ drop (i + k) dst"
proof (induction k arbitrary: dst i)
  case 0
  then show ?case by simp
next
  case (Suc k)
  have "memset_loop dst c i (Suc k) =
      take (Suc i) (dst[i := c]) @ replicate k c @ drop (Suc i + k) (dst[i := c])"
    using Suc.IH [of "Suc i" "dst[i := c]"] Suc.prems by simp
  also have "\<dots> = take i dst @ replicate (Suc k) c @ drop (i + Suc k) dst"
    using Suc.prems by simp
  finally show ?case .
qed

lemma memset_eq: "n \<le> length dst \<Longrightarrow> memset dst c n = replicate n c @ drop n dst"
  by (simp add: memset_def memset_loop_eq)

lemma strncpy_fill_eq: "n \<le> length s \<Longrightarrow> strncpy_fill s n = replicate n NUL @ drop n s"
  by (induction s n rule: strncpy_fill.induct) (auto simp: drop_Suc)

lemma strncpy_eq:
  "n \<le> length s \<Longrightarrow>
   strncpy s t n = take n (cstr t @ replicate (n - length (cstr t)) NUL) @ drop n s"
proof (induction n arbitrary: s t)
  case 0
  then show ?case by simp
next
  case (Suc n)
  from Suc.prems obtain x xs where s: "s = x # xs" and "n \<le> length xs"
    by (cases s) auto
  show ?case
  proof (cases "deref t = NUL")
    case True
    then have "cstr t = []" by (simp add: cstr_empty_iff)
    with True s \<open>n \<le> length xs\<close> show ?thesis by (simp add: strncpy_fill_eq)
  next
    case False
    then have "cstr t = deref t # cstr (tl t)" by (subst cstr_unfold) simp
    with False s Suc.IH [OF \<open>n \<le> length xs\<close>, of "tl t"] show ?thesis by simp
  qed
qed

lemma length_safestrcpy_loop:
  "k < length s \<Longrightarrow> length (safestrcpy_loop s t k) = length s"
proof (induction k arbitrary: s t)
  case 0
  then show ?case by (cases s) auto
next
  case (Suc k)
  then show ?case
    by (cases s; cases "tl s") auto
qed

lemma cstr_safestrcpy_loop: "cstr (safestrcpy_loop s t k) = take k (cstr t)"
proof (induction k arbitrary: s t)
  case 0
  then show ?case by simp
next
  case (Suc k)
  then show ?case by (subst (2) cstr_unfold) auto
qed

lemma length_safestrcpy [simp]: "n \<le> int (length s) \<Longrightarrow> length (safestrcpy s t n) = length s"
  by (auto simp: safestrcpy_def intro!: length_safestrcpy_loop)

lemma cstr_safestrcpy: "0 < n \<Longrightarrow> cstr (safestrcpy s t n) = take (nat n - 1) (cstr t)"
  by (simp add: safestrcpy_def cstr_safestrcpy_loop)

lemma copy_up_eq:
  "d \<le> s \<or> s + n \<le> d \<Longrightarrow>
   copy_up m d s n = (\<lambda>a. if d \<le> a \<and> a < d + n then m (s + (a - d)) else m a)"
proof (induction n arbitrary: m d s)
  case 0
  then show ?case by (auto simp: fun_eq_iff)
next
  case (Suc n)
  let ?m = "m(d := m s)"
  have "copy_up m d s (Suc n) =
      (\<lambda>a. if d + 1 \<le> a \<and> a < d + 1 + n then ?m (s + 1 + (a - (d + 1))) else ?m a)"
  proof -
    have "d + 1 \<le> s + 1 \<or> s + 1 + n \<le> d + 1" using Suc.prems by linarith
    then show ?thesis using Suc.IH [of "d + 1" "s + 1" ?m] by (simp only: copy_up.simps)
  qed
  also have "\<dots> = (\<lambda>a. if d \<le> a \<and> a < d + Suc n then m (s + (a - d)) else m a)"
  proof
    fix a
    consider "a = d" | "d < a" "a < d + Suc n" | "a < d \<or> d + Suc n \<le> a" by linarith
    then show "(if d + 1 \<le> a \<and> a < d + 1 + n then ?m (s + 1 + (a - (d + 1))) else ?m a) =
        (if d \<le> a \<and> a < d + Suc n then m (s + (a - d)) else m a)"
    proof cases
      case 2
      then have "s + 1 + (a - (d + 1)) = s + (a - d)" by simp
      moreover have "s + (a - d) \<noteq> d" using Suc.prems 2 by linarith
      ultimately show ?thesis using 2 by simp
    qed auto
  qed
  finally show ?case .
qed

lemma copy_down_eq:
  "s \<le> d \<Longrightarrow>
   copy_down m (d + n) (s + n) n = (\<lambda>a. if d \<le> a \<and> a < d + n then m (s + (a - d)) else m a)"
proof (induction n arbitrary: m)
  case 0
  then show ?case by (auto simp: fun_eq_iff)
next
  case (Suc n)
  let ?m = "m(d + n := m (s + n))"
  have "copy_down m (d + Suc n) (s + Suc n) (Suc n) = copy_down ?m (d + n) (s + n) n"
    by simp
  also have "\<dots> = (\<lambda>a. if d \<le> a \<and> a < d + n then ?m (s + (a - d)) else ?m a)"
    using Suc by simp
  also have "\<dots> = (\<lambda>a. if d \<le> a \<and> a < d + Suc n then m (s + (a - d)) else m a)"
    using Suc.prems by (auto simp: fun_eq_iff)
  finally show ?case .
qed

section \<open>Properties\<close>

text \<open>
  \<open>memmove\<close> moves \<open>n\<close> bytes correctly for every position of source and destination,
  overlapping or not: afterwards the destination range holds what the source range held
  before the call, and no other byte of memory has changed.
\<close>

theorem memmove_correct:
  "memmove m dst src n a =
     (if dst \<le> a \<and> a < dst + n then m (src + (a - dst)) else m a)"
proof (cases "src < dst \<and> src + n > dst")
  case True
  then show ?thesis by (simp add: memmove_def copy_down_eq)
next
  case False
  then have "dst \<le> src \<or> src + n \<le> dst" by linarith
  then have "copy_up m dst src n a =
      (if dst \<le> a \<and> a < dst + n then m (src + (a - dst)) else m a)"
    by (simp add: copy_up_eq)
  moreover have "memmove m dst src n = copy_up m dst src n"
    using False by (auto simp: memmove_def)
  ultimately show ?thesis by (simp only:)
qed

text \<open>
  \<open>safestrcpy\<close> into a buffer of \<open>n > 0\<close> bytes always leaves a NUL-terminated string
  inside the buffer: the first \<open>n - 1\<close> characters of the source, whatever its length, and
  the buffer keeps its size.
\<close>

theorem safestrcpy_correct:
  assumes "0 < n" and "n \<le> int (length s)"
  shows "cstr (safestrcpy s t n) = take (nat n - 1) (cstr t) \<and>
    length (safestrcpy s t n) = length s \<and> length (cstr (safestrcpy s t n)) < nat n"
  using assms by (auto simp: cstr_safestrcpy)

theorem safestrcpy_correct_witness:
  "cstr (safestrcpy ''......'' ''KILLER'' 5) = ''KILL'' \<and>
   length (safestrcpy ''......'' ''KILLER'' 5) = 6"
  using safestrcpy_correct [of 5 "''......''" "''KILLER''"] by simp

end
