(* ===== verification/Denylist.thy ===== *)
theory Denylist
  imports Cstring
begin

text \<open>
  The command deny list: \<open>struct denylist\<close> and \<open>deny_*\<close> of \<open>kernel/agentcmd.c\<close>, with the
  limits of \<open>kernel/deny.h\<close>.  The names are fixed 24-byte buffers, kept with whatever bytes
  earlier names left in them; \<open>deny_names\<close> reads off the list of names they stand for.
  The locale \<open>command_filter\<close> states what the dispatcher and the \<open>set_deny\<close> system call
  rely on; it is interpreted on the model at the end.
\<close>

section \<open>State and operations\<close>

definition DENY_MAX :: nat where "DENY_MAX = 16"
definition DENY_NAMELEN :: nat where "DENY_NAMELEN = 24"

record denylist =
  dl_names :: "string list"
  dl_count :: nat

definition deny_default :: "string list" where
  "deny_default = [''KILL'', ''EXEC'']"

text \<open>The search loop shared by the functions below: index of the first name equal to \<open>cmd\<close>.\<close>

fun deny_index :: "string list \<Rightarrow> string \<Rightarrow> nat option" where
  "deny_index [] cmd = None"
| "deny_index (n # ns) cmd =
     (if strncmp n cmd DENY_NAMELEN = 0 then Some 0 else map_option Suc (deny_index ns cmd))"

definition deny_find :: "denylist \<Rightarrow> string \<Rightarrow> nat option" where
  "deny_find dl cmd = deny_index (take (dl_count dl) (dl_names dl)) cmd"

definition deny_append :: "string \<Rightarrow> denylist \<Rightarrow> denylist" where
  "deny_append cmd dl =
     dl\<lparr>dl_names := (dl_names dl)[dl_count dl :=
          safestrcpy (dl_names dl ! dl_count dl) cmd (int DENY_NAMELEN)],
        dl_count := dl_count dl + 1\<rparr>"

definition deny_clear :: "denylist \<Rightarrow> denylist" where
  "deny_clear dl = dl\<lparr>dl_count := 0\<rparr>"

definition deny_reset :: "denylist \<Rightarrow> denylist" where
  "deny_reset dl = fold deny_append (take DENY_MAX deny_default) (dl\<lparr>dl_count := 0\<rparr>)"

definition deny_add :: "string \<Rightarrow> denylist \<Rightarrow> int \<times> denylist" where
  "deny_add cmd dl =
     (case deny_find dl cmd of
        Some i \<Rightarrow> (0, dl)
      | None \<Rightarrow> if dl_count dl \<ge> DENY_MAX then (- 1, dl) else (0, deny_append cmd dl))"

fun deny_shift :: "string list \<Rightarrow> nat \<Rightarrow> nat \<Rightarrow> string list" where
  "deny_shift ns j 0 = ns"
| "deny_shift ns j (Suc k) =
     deny_shift (ns[j := safestrcpy (ns ! j) (ns ! (j + 1)) (int DENY_NAMELEN)]) (j + 1) k"

definition deny_remove :: "string \<Rightarrow> denylist \<Rightarrow> int \<times> denylist" where
  "deny_remove cmd dl =
     (case deny_find dl cmd of
        None \<Rightarrow> (- 1, dl)
      | Some i \<Rightarrow> (0, dl\<lparr>dl_names := deny_shift (dl_names dl) i (dl_count dl - 1 - i),
                         dl_count := dl_count dl - 1\<rparr>))"

definition deny_listed :: "denylist \<Rightarrow> string \<Rightarrow> bool" where
  "deny_listed dl cmd \<longleftrightarrow> deny_find dl cmd \<noteq> None"

text \<open>
  \<open>deny_snapshot\<close> writes its buffer from left to right: \<open>out\<close> is what has been written so
  far, \<open>length out\<close> the \<open>n\<close> of the source.
\<close>

fun snapshot_name :: "string \<Rightarrow> string \<Rightarrow> int \<Rightarrow> string" where
  "snapshot_name out [] mx = out"
| "snapshot_name out (c # s) mx =
     (if c \<noteq> NUL \<and> int (length out) < mx - 2 then snapshot_name (out @ [c]) s mx else out)"

fun snapshot_loop :: "string \<Rightarrow> string list \<Rightarrow> int \<Rightarrow> string" where
  "snapshot_loop out [] mx = out"
| "snapshot_loop out (s # ss) mx =
     (let out1 = snapshot_name out s mx;
          out2 = (if int (length out1) < mx - 1 then out1 @ [CHR 0x0A] else out1)
      in snapshot_loop out2 ss mx)"

definition deny_snapshot :: "string \<Rightarrow> int \<Rightarrow> denylist \<Rightarrow> int \<times> string" where
  "deny_snapshot buf mx dl =
     (let out = snapshot_loop [] (take (dl_count dl) (dl_names dl)) mx;
          n = length out
      in (int n, out @ (if int n < mx then NUL # drop (n + 1) buf else drop n buf)))"

section \<open>Abstraction and invariant\<close>

definition deny_names :: "denylist \<Rightarrow> string list" where
  "deny_names dl = map cstr (take (dl_count dl) (dl_names dl))"

definition deny_inv :: "denylist \<Rightarrow> bool" where
  "deny_inv dl \<longleftrightarrow>
     length (dl_names dl) = DENY_MAX \<and> (\<forall>n \<in> set (dl_names dl). length n = DENY_NAMELEN) \<and>
     dl_count dl \<le> DENY_MAX \<and> (\<forall>n \<in> set (deny_names dl). length n < DENY_NAMELEN) \<and>
     distinct (deny_names dl)"

text \<open>The state at boot: zeroed buffers, filled by \<open>deny_reset\<close> from \<open>agentcmd_init\<close>.\<close>

definition denylist_boot :: denylist where
  "denylist_boot = deny_reset \<lparr>dl_names = replicate 16 (replicate 24 NUL), dl_count = 0\<rparr>"

section \<open>The interface\<close>

datatype filter_op = Filter_Add string | Filter_Remove string | Filter_Reset | Filter_Clear

fun abs_filter_op :: "nat \<Rightarrow> string list \<Rightarrow> filter_op \<Rightarrow> string list \<Rightarrow> string list" where
  "abs_filter_op cap ds (Filter_Add c) ns =
     (if c \<in> set ns \<or> length ns \<ge> cap then ns else ns @ [c])"
| "abs_filter_op cap ds (Filter_Remove c) ns = remove1 c ns"
| "abs_filter_op cap ds Filter_Reset ns = ds"
| "abs_filter_op cap ds Filter_Clear ns = []"

locale command_filter =
  fixes listed :: "'d \<Rightarrow> string \<Rightarrow> bool"
    and add remove :: "string \<Rightarrow> 'd \<Rightarrow> int \<times> 'd"
    and reset clear :: "'d \<Rightarrow> 'd"
    and names :: "'d \<Rightarrow> string list"
    and inv :: "'d \<Rightarrow> bool"
    and cap :: nat
    and defaults :: "string list"
    and wf_name :: "string \<Rightarrow> bool"
  assumes listed_iff: "inv d \<Longrightarrow> wf_name c \<Longrightarrow> listed d c \<longleftrightarrow> c \<in> set (names d)"
    and add_ok: "inv d \<Longrightarrow> wf_name c \<Longrightarrow> c \<notin> set (names d) \<Longrightarrow> length (names d) < cap \<Longrightarrow>
        names (snd (add c d)) = names d @ [c] \<and> fst (add c d) = 0"
    and add_known: "inv d \<Longrightarrow> wf_name c \<Longrightarrow> c \<in> set (names d) \<Longrightarrow> add c d = (0, d)"
    and add_full: "inv d \<Longrightarrow> wf_name c \<Longrightarrow> c \<notin> set (names d) \<Longrightarrow> length (names d) \<ge> cap \<Longrightarrow>
        add c d = (- 1, d)"
    and remove_names: "inv d \<Longrightarrow> wf_name c \<Longrightarrow> names (snd (remove c d)) = remove1 c (names d)"
    and remove_result: "inv d \<Longrightarrow> wf_name c \<Longrightarrow>
        fst (remove c d) = (if c \<in> set (names d) then 0 else - 1)"
    and reset_names: "inv d \<Longrightarrow> names (reset d) = defaults"
    and clear_names: "inv d \<Longrightarrow> names (clear d) = []"
    and distinct_names: "inv d \<Longrightarrow> distinct (names d)"
    and inv_add: "inv d \<Longrightarrow> wf_name c \<Longrightarrow> inv (snd (add c d))"
    and inv_remove: "inv d \<Longrightarrow> wf_name c \<Longrightarrow> inv (snd (remove c d))"
    and inv_reset: "inv d \<Longrightarrow> inv (reset d)"
    and inv_clear: "inv d \<Longrightarrow> inv (clear d)"
begin

fun op_wf :: "filter_op \<Rightarrow> bool" where
  "op_wf (Filter_Add c) = wf_name c"
| "op_wf (Filter_Remove c) = wf_name c"
| "op_wf _ = True"

fun apply_op :: "filter_op \<Rightarrow> 'd \<Rightarrow> 'd" where
  "apply_op (Filter_Add c) d = snd (add c d)"
| "apply_op (Filter_Remove c) d = snd (remove c d)"
| "apply_op Filter_Reset d = reset d"
| "apply_op Filter_Clear d = clear d"

lemma add_names:
  assumes "inv d" "wf_name c"
  shows "names (snd (add c d)) = abs_filter_op cap defaults (Filter_Add c) (names d)"
  using assms add_ok [of d c] add_known [of d c] add_full [of d c]
  by (cases "c \<in> set (names d)"; cases "length (names d) < cap") auto

lemma step_refines:
  "inv d \<Longrightarrow> op_wf x \<Longrightarrow>
   names (apply_op x d) = abs_filter_op cap defaults x (names d) \<and> inv (apply_op x d)"
  by (cases x) (auto simp: add_names remove_names reset_names clear_names
      intro: inv_add inv_remove inv_reset inv_clear simp del: abs_filter_op.simps(1))

lemma run_refines:
  "inv d \<Longrightarrow> \<forall>x \<in> set xs. op_wf x \<Longrightarrow>
   names (fold apply_op xs d) = fold (abs_filter_op cap defaults) xs (names d) \<and>
   inv (fold apply_op xs d)"
  by (induction xs arbitrary: d) (auto simp: step_refines)

lemma listed_after_add:
  "inv d \<Longrightarrow> wf_name c \<Longrightarrow> fst (add c d) = 0 \<Longrightarrow> listed (snd (add c d)) c"
  using add_ok [of d c] add_known [of d c] add_full [of d c]
  by (cases "c \<in> set (names d)"; cases "length (names d) < cap")
    (auto simp: listed_iff inv_add)

lemma unlisted_after_remove: "inv d \<Longrightarrow> wf_name c \<Longrightarrow> \<not> listed (snd (remove c d)) c"
  using distinct_names [of d] by (simp add: listed_iff inv_remove remove_names)

lemma remove_keeps_others:
  "inv d \<Longrightarrow> wf_name c \<Longrightarrow> wf_name e \<Longrightarrow> e \<noteq> c \<Longrightarrow>
   listed (snd (remove c d)) e \<longleftrightarrow> listed d e"
  by (simp add: listed_iff inv_remove remove_names in_set_remove1)

end

section \<open>Facts about the operations\<close>

lemma deny_find_none:
  assumes "deny_inv dl"
  shows "deny_find dl cmd = None \<longleftrightarrow> cstr cmd \<notin> set (deny_names dl)"
proof -
  have "deny_index ns cmd = None \<longleftrightarrow> cstr cmd \<notin> cstr ` set ns"
    if "\<forall>n \<in> set ns. length (cstr n) < DENY_NAMELEN" for ns
    using that by (induction ns) (auto simp: strncmp_eq_0_short)
  with assms show ?thesis by (simp add: deny_inv_def deny_names_def deny_find_def)
qed

lemma deny_index_some:
  assumes "\<forall>n \<in> set ns. length (cstr n) < DENY_NAMELEN" and "deny_index ns cmd = Some i"
  shows "i < length ns \<and> cstr (ns ! i) = cstr cmd \<and> cstr cmd \<notin> cstr ` set (take i ns)"
  using assms
proof (induction ns arbitrary: i)
  case (Cons n ns)
  then show ?case by (cases i) (auto simp: strncmp_eq_0_short split: if_splits)
qed simp

lemma remove1_at:
  "i < length xs \<Longrightarrow> xs ! i = x \<Longrightarrow> x \<notin> set (take i xs) \<Longrightarrow>
   remove1 x xs = take i xs @ drop (Suc i) xs"
proof (induction xs arbitrary: i)
  case (Cons y ys)
  then show ?case by (cases i) auto
qed simp

lemma deny_append_names:
  assumes "deny_inv dl" and "dl_count dl < DENY_MAX"
  shows "deny_names (deny_append cmd dl) = deny_names dl @ [take (DENY_NAMELEN - 1) (cstr cmd)]"
  using assms
  by (simp add: deny_append_def deny_names_def deny_inv_def map_update take_map [symmetric]
      cstr_safestrcpy DENY_NAMELEN_def)

lemma deny_append_inv:
  assumes "deny_inv dl" and "dl_count dl < DENY_MAX"
    and "length (cstr cmd) < DENY_NAMELEN" and "cstr cmd \<notin> set (deny_names dl)"
  shows "deny_inv (deny_append cmd dl)"
proof -
  let ?d = "deny_append cmd dl"
  have "length (dl_names dl ! dl_count dl) = DENY_NAMELEN"
    using assms(1,2) by (simp add: deny_inv_def)
  then have "\<forall>n \<in> set (dl_names ?d). length n = DENY_NAMELEN"
    using assms(1) set_update_subset_insert [of "dl_names dl" "dl_count dl"]
    by (fastforce simp: deny_append_def deny_inv_def)
  moreover have "deny_names ?d = deny_names dl @ [cstr cmd]"
    using assms by (simp add: deny_append_names)
  ultimately show ?thesis
    using assms by (simp add: deny_inv_def) (simp add: deny_append_def)
qed

lemma length_deny_shift [simp]: "length (deny_shift ns j k) = length ns"
  by (induction ns j k rule: deny_shift.induct) auto

lemma deny_shift_lengths:
  "\<forall>n \<in> set ns. length n = DENY_NAMELEN \<Longrightarrow> j + k < length ns \<Longrightarrow>
   \<forall>n \<in> set (deny_shift ns j k). length n = DENY_NAMELEN"
proof (induction ns j k rule: deny_shift.induct)
  case (2 ns j k)
  let ?x = "safestrcpy (ns ! j) (ns ! (j + 1)) (int DENY_NAMELEN)"
  have "length ?x = DENY_NAMELEN" using 2 by simp
  then have "\<forall>n \<in> set (ns[j := ?x]). length n = DENY_NAMELEN"
    using 2 set_update_subset_insert [of ns j ?x] by auto
  with 2 show ?case by simp
qed simp

lemma deny_shift_cstr:
  "j + k < length ns \<Longrightarrow> \<forall>i \<in> {j..j + k}. length (cstr (ns ! i)) < DENY_NAMELEN \<Longrightarrow>
   map cstr (take (j + k) (deny_shift ns j k)) =
   map cstr (take j ns) @ map cstr (take k (drop (Suc j) ns))"
proof (induction ns j k rule: deny_shift.induct)
  case (2 ns j k)
  let ?x = "safestrcpy (ns ! j) (ns ! (j + 1)) (int DENY_NAMELEN)"
  let ?ns = "ns[j := ?x]"
  have "j + 1 \<in> {j..j + Suc k}" by simp
  with 2(3) have "length (cstr (ns ! (j + 1))) < DENY_NAMELEN" by blast
  then have x: "cstr ?x = cstr (ns ! (j + 1))"
    by (subst cstr_safestrcpy) (auto simp: DENY_NAMELEN_def)
  have "\<forall>i \<in> {j + 1..j + 1 + k}. length (cstr (?ns ! i)) < DENY_NAMELEN"
    using 2(3) by auto
  then have "map cstr (take (j + Suc k) (deny_shift ns j (Suc k))) =
      map cstr (take (j + 1) ?ns) @ map cstr (take k (drop (Suc (j + 1)) ?ns))"
    using 2(1,2) by simp
  also have "map cstr (take (j + 1) ?ns) = map cstr (take j ns) @ [cstr (ns ! (j + 1))]"
    using 2(2) x by simp
  also have "take k (drop (Suc (j + 1)) ?ns) = take k (drop (Suc (Suc j)) ns)"
    by simp
  also have "(map cstr (take j ns) @ [cstr (ns ! (j + 1))]) @ map cstr (take k (drop (Suc (Suc j)) ns)) =
      map cstr (take j ns) @ map cstr (take (Suc k) (drop (Suc j) ns))"
    using 2(2) by (simp add: Cons_nth_drop_Suc [symmetric, of "Suc j"])
  finally show ?case .
qed simp

lemma deny_remove_found:
  assumes inv: "deny_inv dl" and i: "deny_find dl cmd = Some i"
  defines "d \<equiv> snd (deny_remove cmd dl)"
  shows "deny_names d = remove1 (cstr cmd) (deny_names dl) \<and> deny_inv d"
proof -
  let ?ns = "dl_names dl" and ?c = "dl_count dl"
  have len: "length ?ns = DENY_MAX" "?c \<le> DENY_MAX"
    and short: "\<forall>n \<in> set (take ?c ?ns). length (cstr n) < DENY_NAMELEN"
    using inv by (auto simp: deny_inv_def deny_names_def)
  have ix: "i < ?c" "cstr (?ns ! i) = cstr cmd" "cstr cmd \<notin> cstr ` set (take i ?ns)"
    using deny_index_some [OF short, of cmd i] i len by (auto simp: deny_find_def)
  have short': "\<forall>j \<in> {i..i + (?c - 1 - i)}. length (cstr (?ns ! j)) < DENY_NAMELEN"
  proof
    fix j
    assume "j \<in> {i..i + (?c - 1 - i)}"
    then have "j < ?c" using ix(1) by auto
    then have "?ns ! j \<in> set (take ?c ?ns)" using len by (auto simp: in_set_conv_nth)
    with short show "length (cstr (?ns ! j)) < DENY_NAMELEN" by blast
  qed
  have d: "d = dl\<lparr>dl_names := deny_shift ?ns i (?c - 1 - i), dl_count := ?c - 1\<rparr>"
    using i by (simp add: d_def deny_remove_def)
  have c: "i + (?c - 1 - i) = ?c - 1" using ix(1) by simp
  have "deny_names d = map cstr (take i ?ns) @ map cstr (take (?c - 1 - i) (drop (Suc i) ?ns))"
    using deny_shift_cstr [OF _ short'] ix(1) len c by (simp add: d deny_names_def)
  also have "\<dots> = take i (deny_names dl) @ drop (Suc i) (deny_names dl)"
    using ix(1) by (simp add: deny_names_def take_map [symmetric] drop_map [symmetric] min_def drop_take)
  also have "\<dots> = remove1 (cstr cmd) (deny_names dl)"
    by (rule remove1_at [symmetric]) (use ix len in \<open>auto simp: deny_names_def take_map min_def\<close>)
  finally have names: "deny_names d = remove1 (cstr cmd) (deny_names dl)" .
  have "\<forall>n \<in> set (dl_names d). length n = DENY_NAMELEN"
    using inv deny_shift_lengths [of ?ns i "?c - 1 - i"] ix(1) len by (simp add: d deny_inv_def)
  moreover have "set (deny_names d) \<subseteq> set (deny_names dl)"
    unfolding names by (rule set_remove1_subset)
  ultimately show ?thesis
    using inv names len by (auto simp: deny_inv_def d distinct_remove1)
qed

lemma length_deny_names: "deny_inv dl \<Longrightarrow> length (deny_names dl) = dl_count dl"
  by (simp add: deny_inv_def deny_names_def)

lemma deny_clear_inv: "deny_inv dl \<Longrightarrow> deny_inv (deny_clear dl) \<and> deny_names (deny_clear dl) = []"
  by (simp add: deny_inv_def deny_clear_def deny_names_def)

lemma deny_reset_inv:
  assumes "deny_inv dl"
  shows "deny_inv (deny_reset dl) \<and> deny_names (deny_reset dl) = deny_default"
proof -
  let ?d0 = "deny_clear dl" and ?d1 = "deny_append ''KILL'' (deny_clear dl)"
  note lim = DENY_MAX_def DENY_NAMELEN_def
  have 0: "deny_inv ?d0" "deny_names ?d0 = []" "dl_count ?d0 = 0"
    using deny_clear_inv [OF assms] by (auto simp: deny_clear_def)
  have 1: "deny_inv ?d1" "deny_names ?d1 = [''KILL'']"
    using 0 deny_append_inv [of ?d0 "''KILL''"] deny_append_names [of ?d0 "''KILL''"] by (auto simp: lim)
  then have "dl_count ?d1 = 1" using length_deny_names [of ?d1] by simp
  then have "deny_inv (deny_append ''EXEC'' ?d1)"
    "deny_names (deny_append ''EXEC'' ?d1) = [''KILL'', ''EXEC'']"
    using 1 deny_append_inv [of ?d1 "''EXEC''"] deny_append_names [of ?d1 "''EXEC''"] by (auto simp: lim)
  then show ?thesis
    by (simp add: deny_reset_def deny_default_def deny_clear_def lim)
qed

lemma denylist_boot_inv: "deny_inv denylist_boot \<and> deny_names denylist_boot = deny_default"
  unfolding denylist_boot_def
  by (rule deny_reset_inv) (simp add: deny_inv_def deny_names_def DENY_MAX_def DENY_NAMELEN_def)

definition deny_wf :: "string \<Rightarrow> bool" where
  "deny_wf c \<longleftrightarrow> NUL \<notin> set c \<and> length c < DENY_NAMELEN"

lemma deny_add_cases:
  assumes "deny_inv dl"
  shows "deny_add cmd dl =
    (if cstr cmd \<in> set (deny_names dl) then (0, dl)
     else if length (deny_names dl) \<ge> DENY_MAX then (- 1, dl)
     else (0, deny_append cmd dl))"
  using deny_find_none [OF assms, of cmd] length_deny_names [OF assms]
  by (auto simp: deny_add_def split: option.splits)

lemma deny_remove_cases:
  assumes "deny_inv dl"
  shows "deny_names (snd (deny_remove cmd dl)) = remove1 (cstr cmd) (deny_names dl) \<and>
    deny_inv (snd (deny_remove cmd dl)) \<and>
    fst (deny_remove cmd dl) = (if cstr cmd \<in> set (deny_names dl) then 0 else - 1)"
proof (cases "deny_find dl cmd")
  case None
  then show ?thesis using assms deny_find_none [OF assms, of cmd]
    by (simp add: deny_remove_def remove1_idem)
next
  case (Some i)
  then have "cstr cmd \<in> set (deny_names dl)" using deny_find_none [OF assms, of cmd] by auto
  with Some deny_remove_found [OF assms Some] show ?thesis by (simp add: deny_remove_def)
qed

interpretation deny: command_filter deny_listed deny_add deny_remove deny_reset deny_clear
  deny_names deny_inv DENY_MAX deny_default deny_wf
proof
  fix d c
  assume inv: "deny_inv d" and wf: "deny_wf c"
  then have c: "cstr c = c" "length c < DENY_NAMELEN" by (auto simp: deny_wf_def cstr_id)
  show "deny_listed d c = (c \<in> set (deny_names d))"
    using deny_find_none [OF inv, of c] c by (auto simp: deny_listed_def)
  show "c \<in> set (deny_names d) \<Longrightarrow> deny_add c d = (0, d)"
    using c by (simp add: deny_add_cases [OF inv])
  show "c \<notin> set (deny_names d) \<Longrightarrow> DENY_MAX \<le> length (deny_names d) \<Longrightarrow> deny_add c d = (- 1, d)"
    using c by (simp add: deny_add_cases [OF inv])
  show "deny_inv (snd (deny_add c d))"
    using c inv length_deny_names [OF inv]
    by (auto simp: deny_add_cases [OF inv] intro: deny_append_inv)
  show "deny_names (snd (deny_remove c d)) = remove1 c (deny_names d)"
    "fst (deny_remove c d) = (if c \<in> set (deny_names d) then 0 else - 1)"
    "deny_inv (snd (deny_remove c d))"
    using deny_remove_cases [OF inv, of c] c by auto
next
  fix d c
  assume inv: "deny_inv d" and wf: "deny_wf c" and new: "c \<notin> set (deny_names d)"
    and room: "length (deny_names d) < DENY_MAX"
  have "cstr c = c" "length c < DENY_NAMELEN" using wf by (auto simp: deny_wf_def cstr_id)
  then show "deny_names (snd (deny_add c d)) = deny_names d @ [c] \<and> fst (deny_add c d) = 0"
    using new room length_deny_names [OF inv] deny_append_names [OF inv]
    by (auto simp: deny_add_cases [OF inv])
next
  fix d
  assume inv: "deny_inv d"
  show "deny_names (deny_reset d) = deny_default" "deny_inv (deny_reset d)"
    using deny_reset_inv [OF inv] by auto
  show "deny_names (deny_clear d) = []" "deny_inv (deny_clear d)"
    using deny_clear_inv [OF inv] by auto
  show "distinct (deny_names d)" using inv by (simp add: deny_inv_def)
qed

section \<open>Properties\<close>

text \<open>One request of \<open>set_deny\<close>, as \<open>sys_set_deny\<close> selects it by its operation code.\<close>

fun deny_op :: "filter_op \<Rightarrow> denylist \<Rightarrow> denylist" where
  "deny_op (Filter_Add c) d = snd (deny_add c d)"
| "deny_op (Filter_Remove c) d = snd (deny_remove c d)"
| "deny_op Filter_Reset d = deny_reset d"
| "deny_op Filter_Clear d = deny_clear d"

lemma deny_op_apply: "deny_op = deny.apply_op"
proof (intro ext)
  fix x d
  show "deny_op x d = deny.apply_op x d" by (cases x) auto
qed

text \<open>
  C8: the deny list is a bounded set of names.  After boot and any sequence of add, remove,
  reset and clear requests with names of fewer than 24 characters, the fixed 16 by 24 byte
  table answers \<open>deny_listed\<close> exactly as the abstract list does on which the requests act as
  ordered-set insertion (dropped when 16 names are held), deletion, default and empty; and the
  table's invariant (distinct, NUL-terminated, at most 16 names) holds throughout.
\<close>

theorem deny_table_refines_list:
  assumes "\<forall>x \<in> set ops. deny.op_wf x" and "deny_wf c"
  shows "deny_inv (fold deny_op ops denylist_boot) \<and>
    (deny_listed (fold deny_op ops denylist_boot) c \<longleftrightarrow>
       c \<in> set (fold (abs_filter_op DENY_MAX deny_default) ops deny_default))"
  using deny.run_refines [of denylist_boot ops] denylist_boot_inv assms deny.listed_iff
  by (simp add: deny_op_apply)

theorem deny_table_refines_list_witness:
  "deny_listed (fold deny_op [Filter_Add ''LS'', Filter_Remove ''KILL''] denylist_boot) ''LS'' \<and>
   \<not> deny_listed (fold deny_op [Filter_Add ''LS'', Filter_Remove ''KILL''] denylist_boot) ''KILL''"
  using deny_table_refines_list [of "[Filter_Add ''LS'', Filter_Remove ''KILL'']" "''LS''"]
    deny_table_refines_list [of "[Filter_Add ''LS'', Filter_Remove ''KILL'']" "''KILL''"]
  by (simp add: deny_wf_def DENY_NAMELEN_def DENY_MAX_def deny_default_def)

end
