(* ===== verification/Minhash.thy ===== *)
theory Minhash
  imports Cstring
begin

text \<open>
  The pure part of \<open>kernel/cache.c\<close>: the FNV-1a key hash, the word splitter with its stop
  words, the MinHash signature of a key and the match count of two signatures.  The reference
  definition of a signature is the pointwise minimum over the \<^emph>\<open>set\<close> of content words.
\<close>

unbundle bit_operations_syntax

section \<open>Hashing\<close>

text \<open>The bytes \<open>p[0], ..., p[n-1]\<close> of a C buffer.\<close>

definition mem_bytes :: "string \<Rightarrow> int \<Rightarrow> char list" where
  "mem_bytes p n = map (\<lambda>i. deref (drop i p)) [0..<nat n]"

definition fnv_step :: "u64 \<Rightarrow> char \<Rightarrow> u64" where
  "fnv_step h c = (h XOR of_char c) * 0x100000001b3"

definition fnv1a_64 :: "string \<Rightarrow> int \<Rightarrow> u64" where
  "fnv1a_64 data len =
     (let h = foldl fnv_step 0xcbf29ce484222325 (mem_bytes data len)
      in if h = 0 then 1 else h)"

definition fnv1a_64_pair :: "string \<Rightarrow> int \<Rightarrow> u64 \<times> u64" where
  "fnv1a_64_pair s n =
     (let a = foldl fnv_step 0xcbf29ce484222325 (mem_bytes s n);
          b = foldl fnv_step 0x84222325cbf29ce4 (mem_bytes s n)
      in (if a = 0 then 1 else a, if b = 0 then 1 else b))"

section \<open>Words\<close>

definition WORD_MAX :: nat where "WORD_MAX = 32"
definition SIG_K :: nat where "SIG_K = 64"
definition MIN_WORDS_FOR_SEMANTIC :: nat where "MIN_WORDS_FOR_SEMANTIC = 3"

definition is_wordbyte :: "char \<Rightarrow> bool" where
  "is_wordbyte c \<longleftrightarrow> (let b = of_char c :: nat in
     (48 \<le> b \<and> b \<le> 57) \<or> (65 \<le> b \<and> b \<le> 90) \<or> (97 \<le> b \<and> b \<le> 122) \<or> b \<ge> 0x80)"

definition stopwords :: "string list" where
  "stopwords = [
     ''the'', ''a'', ''an'', ''is'', ''are'', ''was'', ''of'', ''to'', ''in'', ''on'', ''at'',
     ''for'', ''and'', ''or'', ''what'', ''how'', ''why'', ''do'', ''does'', ''did'',
     ''i'', ''you'', ''it'', ''this'', ''that'', ''me'', ''my'', ''please'', ''can'']"

fun stop_match :: "string \<Rightarrow> string \<Rightarrow> bool" where
  "stop_match s [] = (deref s = NUL)"
| "stop_match [] (c # w) = False"
| "stop_match (d # s) (c # w) = (d \<noteq> NUL \<and> d = c \<and> stop_match s w)"

definition is_stopword :: "string \<Rightarrow> bool" where
  "is_stopword w = list_ex (\<lambda>s. stop_match s w) stopwords"

text \<open>ASCII lower case, \<open>if(c >= 'A' && c <= 'Z') c += 32\<close>.\<close>

definition lower :: "char \<Rightarrow> char" where
  "lower c = (let b = of_char c :: nat in if 65 \<le> b \<and> b \<le> 90 then char_of (b + 32) else c)"

text \<open>The inner loop that collects one word, from the current position of the key on.\<close>

fun read_word :: "char list \<Rightarrow> string \<Rightarrow> string \<times> char list" where
  "read_word [] w = (w, [])"
| "read_word (c # cs) w =
     (if is_wordbyte c
      then read_word cs (if length w < WORD_MAX then w @ [lower c] else w)
      else (w, c # cs))"

section \<open>Signatures\<close>

definition word_hash :: "string \<Rightarrow> nat \<Rightarrow> u64" where
  "word_hash w k =
     (let (h1, h2) = fnv1a_64_pair w (int (length w));
          g = h1 + of_nat k * h2
      in if g = 0 then 1 else g)"

definition sig_add :: "string \<Rightarrow> u64 list \<Rightarrow> u64 list" where
  "sig_add w sig = map (\<lambda>(k, s). if word_hash w k < s then word_hash w k else s) (enumerate 0 sig)"

lemma read_word_rest: "snd (read_word cs w) = dropWhile is_wordbyte cs"
  by (induction cs arbitrary: w) auto

lemma read_word_shorter:
  assumes "dropWhile (\<lambda>c. \<not> is_wordbyte c) cs = c # cs'"
  shows "length (snd (read_word (c # cs') w)) < length cs"
proof -
  have c: "is_wordbyte c" using assms by (metis dropWhile_eq_Cons_conv)
  have "length (c # cs') \<le> length cs" using assms by (metis length_dropWhile_le)
  moreover have "length (dropWhile is_wordbyte cs') \<le> length cs'" by (rule length_dropWhile_le)
  ultimately show ?thesis using c by (simp add: read_word_rest del: read_word.simps)
qed

function build_loop :: "char list \<Rightarrow> nat \<Rightarrow> u64 list \<Rightarrow> nat \<times> u64 list" where
  "build_loop cs n_word sig =
     (case dropWhile (\<lambda>c. \<not> is_wordbyte c) cs of
        [] \<Rightarrow> (n_word, sig)
      | c # cs' \<Rightarrow>
          let (w, rest) = read_word (c # cs') []
          in if is_stopword w then build_loop rest n_word sig
             else build_loop rest (n_word + 1) (sig_add w sig))"
  by pat_completeness auto

termination
  by (relation "measure (\<lambda>(cs, n, sig). length cs)")
    (simp, (metis (no_types, lifting) read_word_shorter snd_conv in_measure case_prod_conv)+)

definition build_signature :: "string \<Rightarrow> int \<Rightarrow> nat \<times> u64 list" where
  "build_signature key klen =
     (let (n_word, sig) = build_loop (mem_bytes key klen) 0 (replicate SIG_K (NOT 0))
      in (if n_word < MIN_WORDS_FOR_SEMANTIC then 0 else n_word, sig))"

definition jaccard_match_count :: "u64 list \<Rightarrow> u64 list \<Rightarrow> nat" where
  "jaccard_match_count a b = length (filter (\<lambda>k. a ! k = b ! k) [0..<SIG_K])"

section \<open>Reference: the content words of a key\<close>

definition norm_word :: "char list \<Rightarrow> string" where
  "norm_word w = take WORD_MAX (map lower w)"

function word_runs :: "char list \<Rightarrow> char list list" where
  "word_runs cs =
     (case dropWhile (\<lambda>c. \<not> is_wordbyte c) cs of
        [] \<Rightarrow> []
      | c # cs' \<Rightarrow> takeWhile is_wordbyte (c # cs') # word_runs (dropWhile is_wordbyte (c # cs')))"
  by pat_completeness auto

termination
  by (relation "measure length") (simp, metis in_measure read_word_rest read_word_shorter)

declare build_loop.simps [simp del] word_runs.simps [simp del]

definition content_words :: "char list \<Rightarrow> string list" where
  "content_words cs = filter (\<lambda>w. w \<notin> set stopwords) (map norm_word (word_runs cs))"

definition minhash :: "string set \<Rightarrow> u64 list" where
  "minhash ws = map (\<lambda>k. Min (insert (NOT 0) ((\<lambda>w. word_hash w k) ` ws))) [0..<SIG_K]"

section \<open>Facts\<close>

lemma deref_drop: "deref (drop i p) = (if i < length p then p ! i else NUL)"
proof (cases "i < length p")
  case True
  then have "drop i p = p ! i # drop (Suc i) p" by (simp add: Cons_nth_drop_Suc)
  with True show ?thesis by (simp add: deref_def)
qed (simp add: deref_def)

lemma stop_match_iff: "NUL \<notin> set s \<Longrightarrow> stop_match s w \<longleftrightarrow> s = w"
  by (induction s w rule: stop_match.induct) (auto simp: deref_def split: list.splits)

lemma is_stopword_iff: "is_stopword w \<longleftrightarrow> w \<in> set stopwords"
proof -
  have "\<forall>s \<in> set stopwords. NUL \<notin> set s" by (simp add: stopwords_def)
  then show ?thesis by (auto simp: is_stopword_def list_ex_iff stop_match_iff)
qed

lemma read_word_acc:
  "length w \<le> WORD_MAX \<Longrightarrow>
   fst (read_word cs w) = take WORD_MAX (w @ map lower (takeWhile is_wordbyte cs))"
  by (induction cs arbitrary: w) (auto simp: take_Cons')

lemma read_word_eq: "read_word cs [] = (norm_word (takeWhile is_wordbyte cs), dropWhile is_wordbyte cs)"
  by (simp add: prod_eq_iff read_word_acc read_word_rest norm_word_def)

lemma build_loop_fold:
  "build_loop cs n sig = (n + length (content_words cs), fold sig_add (content_words cs) sig)"
proof (induction cs n sig rule: build_loop.induct)
  case (1 cs n sig)
  show ?case
  proof (cases "dropWhile (\<lambda>c. \<not> is_wordbyte c) cs")
    case Nil
    have "build_loop cs n sig = (n, sig)"
      by (subst build_loop.simps) (simp only: Nil list.case)
    moreover have "word_runs cs = []"
      by (subst word_runs.simps) (simp only: Nil list.case)
    ultimately show ?thesis by (simp add: content_words_def)
  next
    case (Cons c cs')
    let ?w = "norm_word (takeWhile is_wordbyte (c # cs'))"
    let ?rest = "dropWhile is_wordbyte (c # cs')"
    have runs: "word_runs cs = takeWhile is_wordbyte (c # cs') # word_runs ?rest"
      by (subst word_runs.simps) (simp only: Cons list.case)
    have "build_loop cs n sig =
        (if is_stopword ?w then build_loop ?rest n sig else build_loop ?rest (n + 1) (sig_add ?w sig))"
      by (subst build_loop.simps) (simp only: Cons list.case read_word_eq Let_def prod.case)
    moreover have "is_stopword ?w \<Longrightarrow> build_loop ?rest n sig =
        (n + length (content_words ?rest), fold sig_add (content_words ?rest) sig)"
      using 1(1) [OF Cons, of "(?w, ?rest)" ?w ?rest] by (simp only: read_word_eq)
    moreover have "\<not> is_stopword ?w \<Longrightarrow> build_loop ?rest (n + 1) (sig_add ?w sig) =
        (n + 1 + length (content_words ?rest), fold sig_add (content_words ?rest) (sig_add ?w sig))"
      using 1(2) [OF Cons, of "(?w, ?rest)" ?w ?rest] by (simp only: read_word_eq simp_thms)
    ultimately show ?thesis
      by (simp add: content_words_def runs is_stopword_iff del: takeWhile.simps dropWhile.simps)
  qed
qed

lemma length_sig_add [simp]: "length (sig_add w sig) = length sig"
  by (simp add: sig_add_def)

lemma sig_add_nth: "k < length sig \<Longrightarrow> sig_add w sig ! k = min (word_hash w k) (sig ! k)"
  by (auto simp: sig_add_def nth_enumerate_eq min_def)

lemma length_fold_sig_add [simp]: "length (fold sig_add ws sig) = length sig"
  by (induction ws arbitrary: sig) auto

lemma fold_sig_add_nth:
  "k < length sig \<Longrightarrow>
   fold sig_add ws sig ! k = Min (insert (sig ! k) ((\<lambda>w. word_hash w k) ` set ws))"
proof (induction ws arbitrary: sig)
  case (Cons w ws)
  then have "fold sig_add (w # ws) sig ! k =
      Min (insert (min (word_hash w k) (sig ! k)) ((\<lambda>w. word_hash w k) ` set ws))"
    by (simp add: sig_add_nth)
  also have "\<dots> = Min (insert (sig ! k) ((\<lambda>w. word_hash w k) ` set (w # ws)))"
    by (cases "ws = []") (auto simp: Min_insert min.assoc min.commute min.left_commute)
  finally show ?case .
qed simp

lemma fold_sig_add_minhash: "fold sig_add ws (replicate SIG_K (- 1)) = minhash (set ws)"
  by (rule nth_equalityI) (simp_all add: minhash_def fold_sig_add_nth del: Min_insert)

lemma build_signature_eq:
  "build_signature key klen =
     (let ws = content_words (mem_bytes key klen)
      in (if length ws < 3 then 0 else length ws, minhash (set ws)))"
  by (simp add: build_signature_def build_loop_fold fold_sig_add_minhash MIN_WORDS_FOR_SEMANTIC_def
      Let_def)

lemma mem_bytes_full: "mem_bytes key (int (length key)) = key"
  by (rule nth_equalityI) (simp_all add: mem_bytes_def deref_drop)

lemma is_wordbyte_lower [simp]: "is_wordbyte (lower c) = is_wordbyte c"
  by (auto simp: is_wordbyte_def lower_def Let_def)

lemma lower_idem [simp]: "lower (lower c) = lower c"
  by (auto simp: lower_def Let_def)

lemma word_runs_nil: "\<forall>c \<in> set cs. \<not> is_wordbyte c \<Longrightarrow> word_runs cs = []"
  by (subst word_runs.simps, subst dropWhile_eq_Nil_conv [THEN iffD2]) simp_all

lemma word_runs_skip: "\<not> is_wordbyte c \<Longrightarrow> word_runs (c # cs) = word_runs cs"
  by (subst (1 2) word_runs.simps) simp

lemma word_runs_word:
  "is_wordbyte c \<Longrightarrow> word_runs (c # cs) =
     (c # takeWhile is_wordbyte cs) # word_runs (dropWhile is_wordbyte cs)"
  by (subst word_runs.simps) simp

lemma word_runs_lower: "word_runs (map lower cs) = map (map lower) (word_runs cs)"
proof (induction "length cs" arbitrary: cs rule: less_induct)
  case less
  show ?case
  proof (cases cs)
    case Nil
    then show ?thesis by (simp add: word_runs_nil)
  next
    case (Cons c cs')
    have w: "takeWhile is_wordbyte (map lower cs') = map lower (takeWhile is_wordbyte cs')"
      "dropWhile is_wordbyte (map lower cs') = map lower (dropWhile is_wordbyte cs')"
      by (simp_all add: takeWhile_map dropWhile_map comp_def)
    have "length (dropWhile is_wordbyte cs') < length cs"
      using length_dropWhile_le [of is_wordbyte cs'] Cons by simp
    then show ?thesis using less [of cs'] less [of "dropWhile is_wordbyte cs'"] Cons w
      by (cases "is_wordbyte c") (simp_all add: word_runs_word word_runs_skip)
  qed
qed

lemma word_runs_append:
  "\<not> is_wordbyte sep \<Longrightarrow> word_runs (a @ sep # b) = word_runs a @ word_runs b"
proof (induction "length a" arbitrary: a rule: less_induct)
  case less
  show ?case
  proof (cases a)
    case Nil
    then show ?thesis using less.prems by (simp add: word_runs_nil word_runs_skip)
  next
    case (Cons c a')
    have w: "takeWhile is_wordbyte (a' @ sep # b) = takeWhile is_wordbyte a'"
      "dropWhile is_wordbyte (a' @ sep # b) = dropWhile is_wordbyte a' @ sep # b"
      using less.prems by (induction a') auto
    have "length (dropWhile is_wordbyte a') < length a"
      using length_dropWhile_le [of is_wordbyte a'] Cons by simp
    then show ?thesis
      using less.hyps [of a'] less.hyps [of "dropWhile is_wordbyte a'"] less.prems Cons w
      by (cases "is_wordbyte c") (simp_all add: word_runs_word word_runs_skip)
  qed
qed

lemma norm_word_lower [simp]: "norm_word (map lower w) = norm_word w"
  by (simp add: norm_word_def comp_def)

lemma content_words_lower: "content_words (map lower cs) = content_words cs"
  by (simp add: content_words_def word_runs_lower comp_def)

lemma content_words_append:
  "\<not> is_wordbyte sep \<Longrightarrow> content_words (a @ sep # b) = content_words a @ content_words b"
  by (simp add: content_words_def word_runs_append)

lemma length_build_signature [simp]: "length (snd (build_signature key klen)) = SIG_K"
  by (simp add: build_signature_eq Let_def minhash_def)

lemma jaccard_same [simp]: "jaccard_match_count a a = SIG_K"
  by (simp add: jaccard_match_count_def)

lemma fnv1a_64_nonzero [simp]: "fnv1a_64 key n \<noteq> 0"
  by (simp add: fnv1a_64_def Let_def)

section \<open>Properties\<close>

text \<open>
  C26: the one-pass signature loop computes the MinHash of the key's set of content words.
  For every key, \<open>build_signature\<close> yields in each of its 64 slots the least slot hash over the
  distinct words (maximal runs of word bytes, lower-cased, cut at 32 bytes, stop words
  removed), or all ones when there is none, and it reports the number of content words, or 0
  when there are fewer than three.
\<close>

theorem build_signature_minhash:
  "build_signature key klen =
     (let ws = content_words (mem_bytes key klen)
      in (if length ws < 3 then 0 else length ws,
          map (\<lambda>k. Min (insert (NOT 0) ((\<lambda>w. word_hash w k) ` set ws))) [0..<64]))"
  by (simp add: build_signature_eq minhash_def SIG_K_def Let_def)

text \<open>
  A signature does not see word order, repetition, letter case, punctuation or function
  words.  Keys with the same set of content words have equal signatures, matching in all 64
  slots; lower-casing a key does not change its content words; and putting any separator
  between two texts gives just the content words of both.
\<close>

theorem signature_insensitive:
  assumes "set (content_words (mem_bytes k1 n1)) = set (content_words (mem_bytes k2 n2))"
    and "\<not> is_wordbyte sep"
  shows "snd (build_signature k1 n1) = snd (build_signature k2 n2) \<and>
    jaccard_match_count (snd (build_signature k1 n1)) (snd (build_signature k2 n2)) = SIG_K \<and>
    content_words (map lower cs) = content_words cs \<and>
    content_words (a @ sep # b) = content_words a @ content_words b"
  using assms by (simp add: build_signature_eq Let_def content_words_lower content_words_append)

theorem signature_insensitive_witness:
  "snd (build_signature ''The list, files sort'' 20) = snd (build_signature ''sort FILES list'' 15)"
proof -
  have "content_words (mem_bytes ''The list, files sort'' 20) = [''list'', ''files'', ''sort'']"
    "content_words (mem_bytes ''sort FILES list'' 15) = [''sort'', ''files'', ''list'']"
    by code_simp+
  then show ?thesis using signature_insensitive [of "''The list, files sort''" 20 "''sort FILES list''" 15 "CHR '' ''"]
    by (auto simp: is_wordbyte_def)
qed

end
