(* ===== verification/Kernel.thy ===== *)
theory Kernel
  imports Denylist Minhash
begin

text \<open>
  The kernel's data: the structs of \<open>kernel/*.h\<close> and the file-scope variables of
  \<open>kernel/*.c\<close>, collected in one record \<open>kernel\<close> that the components transform.

  A pointer to an entry of a static table is the entry's index (\<open>struct proc *\<close> into
  \<open>proc[NPROC]\<close>, \<open>struct inode *\<close> into \<open>itable.inode\<close>, \<open>struct file *\<close> into
  \<open>ftable.file\<close>); a null pointer is \<open>None\<close>.  A sleep channel of the source is the address
  of some variable; here each such variable has a constructor of \<open>wchan\<close>.  Physical memory
  is a byte map indexed by address.  Disk blocks are held as the buffer layer presents
  them (their current contents, whether cached or on disk), together with the header of
  the running log transaction.  \<open>k_cur\<close> is \<open>myproc()\<close> on the CPU whose execution is
  modelled; console output is the character sequence sent to the UART.
\<close>

section \<open>Limits: \<open>param.h\<close>, \<open>fs.h\<close>, \<open>riscv.h\<close>, \<open>memlayout.h\<close>\<close>

definition NPROC :: nat where "NPROC = 64"
definition NOFILE :: nat where "NOFILE = 16"
definition NFILE :: nat where "NFILE = 100"
definition NINODE :: nat where "NINODE = 50"
definition NDEV :: int where "NDEV = 10"
definition MAXARG :: nat where "MAXARG = 32"
definition MAXOPBLOCKS :: nat where "MAXOPBLOCKS = 10"
definition LOGBLOCKS :: nat where "LOGBLOCKS = MAXOPBLOCKS * 3"
definition MAXPATH :: int where "MAXPATH = 128"
definition ROOTDEV :: u32 where "ROOTDEV = 1"
definition ROOTINO :: u32 where "ROOTINO = 1"
definition BSIZE :: nat where "BSIZE = 1024"
definition NDIRECT :: nat where "NDIRECT = 12"
definition NINDIRECT :: nat where "NINDIRECT = BSIZE div 4"
definition MAXFILE :: nat where "MAXFILE = NDIRECT + NINDIRECT"
definition DIRSIZ :: nat where "DIRSIZ = 14"
definition PGSIZE :: u64 where "PGSIZE = 4096"
definition MAXVA :: u64 where "MAXVA = 2 ^ 38"
definition TRAMPOLINE :: u64 where "TRAMPOLINE = MAXVA - PGSIZE"
definition TRAPFRAME :: u64 where "TRAPFRAME = TRAMPOLINE - PGSIZE"
definition KERNBASE :: u64 where "KERNBASE = 0x80000000"
definition PHYSTOP :: u64 where "PHYSTOP = KERNBASE + 128 * 1024 * 1024"
definition KSTACK_PAGES :: u64 where "KSTACK_PAGES = 8"

definition KSTACK :: "nat \<Rightarrow> u64" where
  "KSTACK p = TRAMPOLINE - (of_nat p + 1) * (KSTACK_PAGES + 1) * PGSIZE"

section \<open>Processes: \<open>proc.h\<close>, \<open>procinfo.h\<close>\<close>

datatype procstate = UNUSED | USED | SLEEPING | RUNNABLE | RUNNING | ZOMBIE

datatype wchan =
    Ch_ticks            \<comment> \<open>\<open>&ticks\<close>, trap.c\<close>
  | Ch_agentq           \<comment> \<open>\<open>&agentq\<close>, agentcmd.c\<close>
  | Ch_confirm          \<comment> \<open>\<open>&confirm_wait_chan\<close>, confirm.c\<close>
  | Ch_cons_r           \<comment> \<open>\<open>&cons.r\<close>, console.c\<close>
  | Ch_log              \<comment> \<open>\<open>&log\<close>, log.c\<close>
  | Ch_proc nat         \<comment> \<open>a \<open>struct proc *\<close>, in \<open>kwait\<close>\<close>
  | Ch_pipe_read u64    \<comment> \<open>\<open>&pi->nread\<close>\<close>
  | Ch_pipe_write u64   \<comment> \<open>\<open>&pi->nwrite\<close>\<close>

datatype tfreg =
    tf_kernel_satp | tf_kernel_sp | tf_kernel_trap | tf_epc | tf_kernel_hartid
  | tf_ra | tf_sp | tf_gp | tf_tp | tf_t0 | tf_t1 | tf_t2 | tf_s0 | tf_s1
  | tf_a0 | tf_a1 | tf_a2 | tf_a3 | tf_a4 | tf_a5 | tf_a6 | tf_a7
  | tf_s2 | tf_s3 | tf_s4 | tf_s5 | tf_s6 | tf_s7 | tf_s8 | tf_s9 | tf_s10 | tf_s11
  | tf_t3 | tf_t4 | tf_t5 | tf_t6

type_synonym trapframe = "tfreg \<Rightarrow> u64"

datatype ctxreg =
    cx_ra | cx_sp | cx_s0 | cx_s1 | cx_s2 | cx_s3 | cx_s4 | cx_s5 | cx_s6 | cx_s7
  | cx_s8 | cx_s9 | cx_s10 | cx_s11

type_synonym context_regs = "ctxreg \<Rightarrow> u64"

text \<open>
  \<open>p_trapframe\<close> is the address of the trapframe page (0 for none) and \<open>p_tf\<close> the registers
  stored in it; \<open>p_pagetable\<close> is the physical address of the root page-table page.
\<close>

record proc =
  p_state :: procstate
  p_chan :: "wchan option"
  p_killed :: bool
  p_xstate :: int
  p_pid :: int
  p_parent :: "nat option"
  p_kstack :: u64
  p_sz :: u64
  p_pagetable :: u64
  p_trapframe :: u64
  p_tf :: trapframe
  p_context :: context_regs
  p_ofile :: "nat option list"
  p_cwd :: "nat option"
  p_name :: string
  p_priority :: int
  p_vruntime :: u64
  p_creation_tick :: u32
  p_is_agent :: bool
  p_jail_root :: "nat option"

record procinfo =
  pi_pid :: int
  pi_state :: int
  pi_priority :: int
  pi_is_agent :: int
  pi_name :: string

section \<open>Files: \<open>fs.h\<close>, \<open>file.h\<close>, \<open>stat.h\<close>\<close>

definition T_DIR :: int where "T_DIR = 1"
definition T_FILE :: int where "T_FILE = 2"
definition T_DEVICE :: int where "T_DEVICE = 3"

record superblock =
  sb_magic :: u32
  sb_size :: u32
  sb_nblocks :: u32
  sb_ninodes :: u32
  sb_nlog :: u32
  sb_logstart :: u32
  sb_inodestart :: u32
  sb_bmapstart :: u32

record inode =
  i_dev :: u32
  i_inum :: u32
  i_ref :: int
  i_locked :: bool
  i_valid :: bool
  i_type :: int
  i_major :: int
  i_minor :: int
  i_nlink :: int
  i_size :: u32
  i_addrs :: "u32 list"

record dirent =
  de_inum :: u16
  de_name :: string

datatype ftype = FD_NONE | FD_PIPE | FD_INODE | FD_DEVICE

record openfile =
  f_type :: ftype
  f_ref :: int
  f_readable :: bool
  f_writable :: bool
  f_pipe :: u64
  f_ip :: "nat option"
  f_off :: u32
  f_major :: int

text \<open>A \<open>struct pipe\<close> fills one page; \<open>k_pipes\<close> finds it by the address of that page.\<close>

definition PIPESIZE :: nat where "PIPESIZE = 512"

record pipe =
  pp_data :: string
  pp_nread :: u32
  pp_nwrite :: u32
  pp_readopen :: bool
  pp_writeopen :: bool

section \<open>Agent command path: \<open>agentcmd.c\<close>, \<open>confirm.c\<close>, \<open>cache.c\<close>, \<open>console.c\<close>\<close>

definition AGENT_LINE_MAX :: nat where "AGENT_LINE_MAX = 1280"
definition AGENT_Q_LEN :: nat where "AGENT_Q_LEN = 8"
definition AGENTQ_N :: nat where "AGENTQ_N = 16"
definition AGENTQ_LEN :: nat where "AGENTQ_LEN = 256"

text \<open>The stage-1 intake ring: \<open>agent_q\<close>, \<open>agent_q_head\<close>, \<open>agent_q_tail\<close>.\<close>

record intake_queue =
  iq_buf :: "string list"
  iq_head :: nat
  iq_tail :: nat

text \<open>The stage-2 ring \<open>agentq\<close>.\<close>

record agentd_queue =
  aq_buf :: "string list"
  aq_r :: nat
  aq_w :: nat
  aq_count :: nat

record pending_llm =
  pend_prompt :: string
  pend_len :: int

text \<open>\<open>confirm_pending_pid\<close> (0 = idle) and \<open>confirm_result\<close> (-1 pending, 1 allow, 0 deny).\<close>

record confirm_state =
  cf_pending_pid :: int
  cf_result :: int

definition CACHE_SLOTS :: nat where "CACHE_SLOTS = 16"
definition CACHE_VAL :: nat where "CACHE_VAL = 1024"

record cache_entry =
  ce_hash :: u64
  ce_last_access :: u32
  ce_vlen :: nat
  ce_has_sig :: bool
  ce_sig :: "u64 list"
  ce_val :: string

definition INPUT_BUF_SIZE :: nat where "INPUT_BUF_SIZE = 2048"
definition AGENT_BUF_SIZE :: nat where "AGENT_BUF_SIZE = 2048"

record console =
  cons_buf :: string
  cons_r :: u32
  cons_w :: u32
  cons_e :: u32
  cons_agent_buf :: string
  cons_agent_len :: nat

section \<open>The kernel\<close>

record log_state =
  lg_outstanding :: int
  lg_committing :: bool
  lg_blocks :: "u32 list"

record kernel =
  k_procs :: "proc list"
  k_cur :: "nat option"
  k_nextpid :: int
  k_initproc :: "nat option"
  k_cfs_min :: u64
  k_ticks :: u32
  k_out :: string
  k_mem :: memory
  k_freelist :: u64
  k_end :: u64
  k_etext :: u64
  k_trampoline :: u64
  k_forkret :: u64
  k_kpgtbl :: u64
  k_ftable :: "openfile list"
  k_pipes :: "u64 \<rightharpoonup> pipe"
  k_blocks :: "u32 \<Rightarrow> string"
  k_sb :: superblock
  k_log :: log_state
  k_itable :: "inode list"
  k_cons :: console
  k_intake :: intake_queue
  k_agentq :: agentd_queue
  k_pending :: pending_llm
  k_deny :: denylist
  k_confirm :: confirm_state
  k_cache :: "cache_entry list"
  k_rec_buf :: string

text \<open>
  The state before initialisation: static data is zero, \<open>nextpid\<close> is 1, no page is free and
  every disk block reads as zeros.  \<open>k_end\<close>, \<open>k_etext\<close>, \<open>k_trampoline\<close> and \<open>k_forkret\<close> are the
  linker's symbols \<open>end\<close>, \<open>etext\<close>, \<open>trampoline\<close> and \<open>forkret\<close>: no function changes them, and the values here are
  sample values that no theorem depends on.
\<close>

definition proc_boot :: "nat \<Rightarrow> proc" where
  "proc_boot i =
     \<lparr>p_state = UNUSED, p_chan = None, p_killed = False, p_xstate = 0, p_pid = 0,
      p_parent = None, p_kstack = KSTACK i, p_sz = 0, p_pagetable = 0, p_trapframe = 0,
      p_tf = (\<lambda>_. 0), p_context = (\<lambda>_. 0), p_ofile = replicate NOFILE None, p_cwd = None,
      p_name = replicate 16 NUL, p_priority = 0, p_vruntime = 0, p_creation_tick = 0,
      p_is_agent = False, p_jail_root = None\<rparr>"

definition inode_boot :: inode where
  "inode_boot =
     \<lparr>i_dev = 0, i_inum = 0, i_ref = 0, i_locked = False, i_valid = False, i_type = 0, i_major = 0,
      i_minor = 0, i_nlink = 0, i_size = 0, i_addrs = replicate (NDIRECT + 1) 0\<rparr>"

definition file_boot :: openfile where
  "file_boot =
     \<lparr>f_type = FD_NONE, f_ref = 0, f_readable = False, f_writable = False, f_pipe = 0, f_ip = None,
      f_off = 0, f_major = 0\<rparr>"

definition cache_entry_boot :: cache_entry where
  "cache_entry_boot =
     \<lparr>ce_hash = 0, ce_last_access = 0, ce_vlen = 0, ce_has_sig = False,
      ce_sig = replicate SIG_K 0, ce_val = replicate CACHE_VAL NUL\<rparr>"

definition kernel_boot :: kernel where
  "kernel_boot =
     \<lparr>k_procs = map proc_boot [0..<NPROC], k_cur = None, k_nextpid = 1, k_initproc = None,
      k_cfs_min = 0, k_ticks = 0, k_out = [], k_mem = (\<lambda>_. NUL), k_freelist = 0,
      k_end = KERNBASE + 0x40000, k_etext = KERNBASE + 0x10000, k_trampoline = KERNBASE + 0xF000, k_forkret = KERNBASE + 0x2000,
      k_kpgtbl = 0, k_ftable = replicate NFILE file_boot, k_pipes = Map.empty,
      k_blocks = (\<lambda>_. replicate BSIZE NUL),
      k_sb = \<lparr>sb_magic = 0, sb_size = 0, sb_nblocks = 0, sb_ninodes = 0, sb_nlog = 0,
              sb_logstart = 0, sb_inodestart = 0, sb_bmapstart = 0\<rparr>,
      k_log = \<lparr>lg_outstanding = 0, lg_committing = False, lg_blocks = []\<rparr>,
      k_itable = replicate NINODE inode_boot,
      k_cons = \<lparr>cons_buf = replicate INPUT_BUF_SIZE NUL, cons_r = 0, cons_w = 0, cons_e = 0,
                cons_agent_buf = replicate AGENT_BUF_SIZE NUL, cons_agent_len = 0\<rparr>,
      k_intake = \<lparr>iq_buf = replicate AGENT_Q_LEN (replicate AGENT_LINE_MAX NUL),
                  iq_head = 0, iq_tail = 0\<rparr>,
      k_agentq = \<lparr>aq_buf = replicate AGENTQ_N (replicate AGENTQ_LEN NUL),
                  aq_r = 0, aq_w = 0, aq_count = 0\<rparr>,
      k_pending = \<lparr>pend_prompt = replicate AGENT_LINE_MAX NUL, pend_len = 0\<rparr>,
      k_deny = \<lparr>dl_names = replicate DENY_MAX (replicate DENY_NAMELEN NUL), dl_count = 0\<rparr>,
      k_confirm = \<lparr>cf_pending_pid = 0, cf_result = 0\<rparr>,
      k_cache = replicate CACHE_SLOTS cache_entry_boot, k_rec_buf = replicate 1040 NUL\<rparr>"

text \<open>Field update of one entry of the process table, and access to the current process.\<close>

definition upd_proc :: "nat \<Rightarrow> (proc \<Rightarrow> proc) \<Rightarrow> kernel \<Rightarrow> kernel" where
  "upd_proc i f k = k\<lparr>k_procs := (k_procs k)[i := f (k_procs k ! i)]\<rparr>"

text \<open>
  \<open>me k p\<close> holds when \<open>p\<close> is the current process: \<open>myproc()\<close> in process context.
\<close>

definition me :: "kernel \<Rightarrow> nat \<Rightarrow> bool" where
  "me k p \<longleftrightarrow> k_cur k = Some p \<and> p < length (k_procs k)"

lemma upd_proc_same [simp]: "i < length (k_procs k) \<Longrightarrow> k_procs (upd_proc i f k) ! i = f (k_procs k ! i)"
  by (simp add: upd_proc_def)

lemma upd_proc_other [simp]: "i \<noteq> j \<Longrightarrow> k_procs (upd_proc i f k) ! j = k_procs k ! j"
  by (simp add: upd_proc_def)

lemma length_upd_proc [simp]: "length (k_procs (upd_proc i f k)) = length (k_procs k)"
  by (simp add: upd_proc_def)

lemma upd_proc_frame [simp]:
  "k_cur (upd_proc i f k) = k_cur k" "k_nextpid (upd_proc i f k) = k_nextpid k"
  "k_initproc (upd_proc i f k) = k_initproc k" "k_cfs_min (upd_proc i f k) = k_cfs_min k"
  "k_ticks (upd_proc i f k) = k_ticks k" "k_out (upd_proc i f k) = k_out k"
  "k_mem (upd_proc i f k) = k_mem k" "k_freelist (upd_proc i f k) = k_freelist k"
  "k_end (upd_proc i f k) = k_end k" "k_etext (upd_proc i f k) = k_etext k"
  "k_trampoline (upd_proc i f k) = k_trampoline k" "k_forkret (upd_proc i f k) = k_forkret k" "k_kpgtbl (upd_proc i f k) = k_kpgtbl k"
  "k_ftable (upd_proc i f k) = k_ftable k" "k_pipes (upd_proc i f k) = k_pipes k"
  "k_blocks (upd_proc i f k) = k_blocks k" "k_sb (upd_proc i f k) = k_sb k"
  "k_log (upd_proc i f k) = k_log k" "k_itable (upd_proc i f k) = k_itable k"
  "k_cons (upd_proc i f k) = k_cons k" "k_intake (upd_proc i f k) = k_intake k"
  "k_agentq (upd_proc i f k) = k_agentq k" "k_pending (upd_proc i f k) = k_pending k"
  "k_deny (upd_proc i f k) = k_deny k" "k_confirm (upd_proc i f k) = k_confirm k"
  "k_cache (upd_proc i f k) = k_cache k" "k_rec_buf (upd_proc i f k) = k_rec_buf k"
  by (simp_all add: upd_proc_def)

end
