(* ===== verification/Bytes.thy ===== *)
theory Bytes
  imports Cstring
begin

text \<open>
  Little-endian integers in byte memory and in byte buffers, as the hart and the compiler
  lay them out: the \<open>uint64\<close> cells of page tables and of the free list, and the \<open>uint\<close> and
  \<open>ushort\<close> fields of on-disk structures.  The laws a client uses (a store is read back, a
  store elsewhere does not matter) are the locale \<open>cell_store\<close>, interpreted for memory
  cells and for block fields.
\<close>

lemma unat_lt_pow: "unat (w :: 'a :: len word) < 2 ^ LENGTH('a)"
  by (rule unsigned_less)

fun le_val :: "char list \<Rightarrow> nat" where
  "le_val [] = 0"
| "le_val (c # cs) = of_char c + 256 * le_val cs"

fun le_bytes :: "nat \<Rightarrow> nat \<Rightarrow> char list" where
  "le_bytes 0 v = []"
| "le_bytes (Suc n) v = char_of (v mod 256) # le_bytes n (v div 256)"

lemma length_le_bytes [simp]: "length (le_bytes n v) = n"
  by (induction n arbitrary: v) auto

lemma le_val_bytes: "le_val (le_bytes n v) = v mod 256 ^ n"
proof (induction n arbitrary: v)
  case (Suc n)
  have "v mod 256 ^ Suc n = 256 * (v div 256 mod 256 ^ n) + v mod 256"
    by (simp add: mod_mult2_eq)
  then show ?case by (simp add: Suc of_char_of)
qed simp

lemma le_bytes_val: "le_bytes (length bs) (le_val bs) = bs"
proof (induction bs)
  case (Cons c cs)
  have "(of_char c :: nat) < 256" by simp
  then show ?case using Cons by simp
qed simp

section \<open>Memory\<close>

definition read_bytes :: "memory \<Rightarrow> nat \<Rightarrow> nat \<Rightarrow> char list" where
  "read_bytes m a n = map (\<lambda>i. m (a + i)) [0..<n]"

definition write_bytes :: "memory \<Rightarrow> nat \<Rightarrow> char list \<Rightarrow> memory" where
  "write_bytes m a bs = (\<lambda>x. if a \<le> x \<and> x < a + length bs then bs ! (x - a) else m x)"

definition load64 :: "memory \<Rightarrow> u64 \<Rightarrow> u64" where
  "load64 m a = of_nat (le_val (read_bytes m (unat a) 8))"

definition store64 :: "memory \<Rightarrow> u64 \<Rightarrow> u64 \<Rightarrow> memory" where
  "store64 m a w = write_bytes m (unat a) (le_bytes 8 (unat w))"

text \<open>\<open>memset(p, c, n)\<close> on memory.\<close>

definition mem_fill :: "memory \<Rightarrow> u64 \<Rightarrow> char \<Rightarrow> nat \<Rightarrow> memory" where
  "mem_fill m p c n = write_bytes m (unat p) (replicate n c)"

lemma length_read_bytes [simp]: "length (read_bytes m a n) = n"
  by (simp add: read_bytes_def)

lemma read_write_same [simp]: "length bs = n \<Longrightarrow> read_bytes (write_bytes m a bs) a n = bs"
  by (rule nth_equalityI) (simp_all add: read_bytes_def write_bytes_def)

lemma write_bytes_out: "x < a \<or> a + length bs \<le> x \<Longrightarrow> write_bytes m a bs x = m x"
  by (auto simp: write_bytes_def)

lemma read_write_other:
  "a + length bs \<le> b \<or> b + n \<le> a \<Longrightarrow> read_bytes (write_bytes m a bs) b n = read_bytes m b n"
  by (rule nth_equalityI) (auto simp: read_bytes_def write_bytes_def)

lemma read_fill:
  assumes "unat p \<le> a" "a + n \<le> unat p + l"
  shows "read_bytes (mem_fill m p c l) a n = replicate n c"
  using assms by (intro nth_equalityI) (auto simp: read_bytes_def write_bytes_def mem_fill_def)

lemma read_fill_other:
  "unat p + l \<le> b \<or> b + n \<le> unat p \<Longrightarrow> read_bytes (mem_fill m p c l) b n = read_bytes m b n"
  by (simp add: mem_fill_def read_write_other)

section \<open>Buffers\<close>

text \<open>An integer of \<open>n\<close> bytes at an offset of a buffer, e.g. a field of a disk block.\<close>

definition get_le :: "nat \<Rightarrow> nat \<Rightarrow> string \<Rightarrow> nat" where
  "get_le n off bs = le_val (take n (drop off bs))"

definition put_le :: "nat \<Rightarrow> nat \<Rightarrow> nat \<Rightarrow> string \<Rightarrow> string" where
  "put_le n off v bs = take off bs @ le_bytes n v @ drop (off + n) bs"

lemma length_put_le [simp]: "off + n \<le> length bs \<Longrightarrow> length (put_le n off v bs) = length bs"
  by (simp add: put_le_def)

lemma get_put_same: "off + n \<le> length bs \<Longrightarrow> get_le n off (put_le n off v bs) = v mod 256 ^ n"
  by (simp add: get_le_def put_le_def le_val_bytes)

lemma get_put_other:
  assumes "off + n \<le> length bs" "off + n \<le> off' \<or> off' + n' \<le> off"
  shows "get_le n' off' (put_le n off v bs) = get_le n' off' bs"
  using assms(2)
proof
  assume "off + n \<le> off'"
  then have "drop off' (put_le n off v bs) = drop off' bs"
    using assms(1) by (simp add: put_le_def)
  then show ?thesis by (simp add: get_le_def)
next
  assume le: "off' + n' \<le> off"
  have "take n' (drop off' (put_le n off v bs)) = take n' (drop off' (take off bs))"
    using assms(1) le by (simp add: put_le_def)
  also have "\<dots> = take n' (drop off' bs)" using le by (simp add: drop_take)
  finally show ?thesis by (simp add: get_le_def)
qed

section \<open>The interface\<close>

locale cell_store =
  fixes load :: "'m \<Rightarrow> 'a \<Rightarrow> 'w" and store :: "'m \<Rightarrow> 'a \<Rightarrow> 'w \<Rightarrow> 'm"
    and ok :: "'m \<Rightarrow> 'a \<Rightarrow> bool" and apart :: "'a \<Rightarrow> 'a \<Rightarrow> bool"
  assumes load_store: "ok m a \<Longrightarrow> load (store m a w) a = w"
    and load_other: "ok m a \<Longrightarrow> apart a b \<Longrightarrow> load (store m a w) b = load m b"
    and store_ok: "ok m a \<Longrightarrow> ok m b \<Longrightarrow> ok (store m a w) b"
begin

definition store_all :: "('a \<times> 'w) list \<Rightarrow> 'm \<Rightarrow> 'm" where
  "store_all = fold (\<lambda>(a, w) m. store m a w)"

lemma store_all_ok: "\<forall>(a, w) \<in> set xs. ok m a \<Longrightarrow> ok m b \<Longrightarrow> ok (store_all xs m) b"
proof (induction xs arbitrary: m)
  case (Cons x xs)
  obtain a w where x: "x = (a, w)" by force
  have "ok (store_all xs (store m a w)) b"
    using Cons.prems x by (intro Cons.IH) (auto simp: store_ok)
  then show ?case using x by (simp add: store_all_def)
qed (simp add: store_all_def)

lemma load_store_all_other:
  "\<forall>(a, w) \<in> set xs. ok m a \<and> apart a b \<Longrightarrow> load (store_all xs m) b = load m b"
proof (induction xs arbitrary: m)
  case (Cons x xs)
  obtain a w where x: "x = (a, w)" by force
  have "load (store_all xs (store m a w)) b = load (store m a w) b"
    using Cons x by (intro Cons.IH) (auto simp: store_ok)
  then show ?case using Cons.prems x by (simp add: store_all_def load_other)
qed (simp add: store_all_def)

end

lemma load_store64: "load64 (store64 m a w) a = w"
proof -
  have "unat w < 256 ^ 8" using unat_lt_pow [of w] by simp
  then show ?thesis by (simp add: load64_def store64_def le_val_bytes)
qed

definition apart64 :: "u64 \<Rightarrow> u64 \<Rightarrow> bool" where
  "apart64 a b \<longleftrightarrow> unat a + 8 \<le> unat b \<or> unat b + 8 \<le> unat a"

interpretation cell64: cell_store load64 store64 "\<lambda>m a. True" apart64
  by standard (rule load_store64, auto simp: load64_def store64_def apart64_def read_write_other)

definition load32 :: "string \<Rightarrow> nat \<Rightarrow> u32" where
  "load32 bs off = of_nat (get_le 4 off bs)"

definition store32 :: "string \<Rightarrow> nat \<Rightarrow> u32 \<Rightarrow> string" where
  "store32 bs off w = put_le 4 off (unat w) bs"

interpretation cell32: cell_store load32 store32 "\<lambda>bs off. off + 4 \<le> length bs"
  "\<lambda>a b. a + 4 \<le> b \<or> b + 4 \<le> a"
proof
  fix bs :: string and off :: nat and w :: u32
  assume ok: "off + 4 \<le> length bs"
  have "unat w < 256 ^ 4" using unat_lt_pow [of w] by simp
  then show "load32 (store32 bs off w) off = w"
    using ok by (simp add: load32_def store32_def get_put_same)
  show "\<And>b. off + 4 \<le> b \<or> b + 4 \<le> off \<Longrightarrow> load32 (store32 bs off w) b = load32 bs b"
    using ok by (simp add: load32_def store32_def get_put_other)
  show "\<And>b. b + 4 \<le> length bs \<Longrightarrow> b + 4 \<le> length (store32 bs off w)"
    using ok by (simp add: store32_def)
qed

definition load16 :: "string \<Rightarrow> nat \<Rightarrow> u16" where
  "load16 bs off = of_nat (get_le 2 off bs)"

definition store16 :: "string \<Rightarrow> nat \<Rightarrow> u16 \<Rightarrow> string" where
  "store16 bs off w = put_le 2 off (unat w) bs"

interpretation cell16: cell_store load16 store16 "\<lambda>bs off. off + 2 \<le> length bs"
  "\<lambda>a b. a + 2 \<le> b \<or> b + 2 \<le> a"
proof
  fix bs :: string and off :: nat and w :: u16
  assume ok: "off + 2 \<le> length bs"
  have "unat w < 256 ^ 2" using unat_lt_pow [of w] by simp
  then show "load16 (store16 bs off w) off = w"
    using ok by (simp add: load16_def store16_def get_put_same)
  show "\<And>b. off + 2 \<le> b \<or> b + 2 \<le> off \<Longrightarrow> load16 (store16 bs off w) b = load16 bs b"
    using ok by (simp add: load16_def store16_def get_put_other)
  show "\<And>b. b + 2 \<le> length bs \<Longrightarrow> b + 2 \<le> length (store16 bs off w)"
    using ok by (simp add: store16_def)
qed

end
