(* ===== verification/Kalloc.thy ===== *)
theory Kalloc
  imports Kernel Bytes
begin

text \<open>
  The physical page allocator, \<open>kernel/kalloc.c\<close>.  The free list is the linked list of the
  source: \<open>k_freelist\<close> is its head and the first eight bytes of each free page hold the link.
  The interface \<open>page_allocator\<close> speaks of the list of free pages instead, and \<open>kmem_inv\<close> ties
  the two together.
\<close>

unbundle bit_operations_syntax

section \<open>Operations\<close>

definition PGROUNDUP :: "u64 \<Rightarrow> u64" where
  "PGROUNDUP sz = (sz + PGSIZE - 1) AND NOT (PGSIZE - 1)"

definition PGROUNDDOWN :: "u64 \<Rightarrow> u64" where
  "PGROUNDDOWN a = a AND NOT (PGSIZE - 1)"

definition kfree :: "u64 \<Rightarrow> kernel \<Rightarrow> kernel option" where
  "kfree pa k =
     (if pa mod PGSIZE \<noteq> 0 \<or> pa < k_end k \<or> pa \<ge> PHYSTOP then panic ''kfree''
      else
        let m = mem_fill (k_mem k) pa (CHR 0x01) 4096;
            m = store64 m pa (k_freelist k)
        in Some (k\<lparr>k_mem := m, k_freelist := pa\<rparr>))"

definition kalloc :: "kernel \<Rightarrow> u64 \<times> kernel" where
  "kalloc k =
     (let r = k_freelist k;
          k = (if r \<noteq> 0 then k\<lparr>k_freelist := load64 (k_mem k) r\<rparr> else k);
          k = (if r \<noteq> 0 then k\<lparr>k_mem := mem_fill (k_mem k) r (CHR 0x05) 4096\<rparr> else k)
      in (r, k))"

lemma page_step: "p < PHYSTOP \<Longrightarrow> unat (p + PGSIZE) = unat p + 4096"
  by (simp add: PHYSTOP_def KERNBASE_def PGSIZE_def word_less_nat_alt unat_word_ariths)

lemma kfree_range: "kfree p k = Some k' \<Longrightarrow> p < PHYSTOP"
  by (simp add: kfree_def panic_simps not_le split: if_splits)

function freerange_loop :: "u64 \<Rightarrow> u64 \<Rightarrow> kernel \<Rightarrow> kernel option" where
  "freerange_loop p pa_end k =
     (if p + PGSIZE \<le> pa_end
      then (case kfree p k of None \<Rightarrow> None | Some k' \<Rightarrow> freerange_loop (p + PGSIZE) pa_end k')
      else Some k)"
  by pat_completeness auto

termination
proof (relation "measure (\<lambda>(p, pa_end, k). 2 ^ 64 - unat p)")
  fix p pa_end k k'
  assume "kfree p k = Some k'"
  then have "unat (p + PGSIZE) = unat p + 4096" by (simp add: kfree_range page_step)
  moreover have "unat p < 2 ^ 64" using unat_lt_pow [of p] by simp
  ultimately show "((p + PGSIZE, pa_end, k'), (p, pa_end, k)) \<in> measure (\<lambda>(p, pa_end, k). 2 ^ 64 - unat p)"
    by simp
qed simp

declare freerange_loop.simps [simp del]

definition freerange :: "u64 \<Rightarrow> u64 \<Rightarrow> kernel \<Rightarrow> kernel option" where
  "freerange pa_start pa_end k = freerange_loop (PGROUNDUP pa_start) pa_end k"

definition kinit :: "kernel \<Rightarrow> kernel option" where
  "kinit k = freerange (k_end k) PHYSTOP k"

section \<open>Page arithmetic\<close>

lemma aligned_gap:
  assumes "a mod 4096 = 0" "b mod 4096 = 0" "a < (b :: nat)"
  shows "a + 4096 \<le> b"
proof -
  obtain x y where "a = 4096 * x" "b = 4096 * y"
    using assms(1,2) by (metis dvdE mod_0_imp_dvd)
  with assms(3) show ?thesis by simp
qed

lemma aligned_unat: "p mod PGSIZE = 0 \<longleftrightarrow> unat p mod 4096 = 0"
  by (simp add: PGSIZE_def unat_mod flip: unat_eq_0)

lemma PGROUNDDOWN_mod: "PGROUNDDOWN a = a - a mod PGSIZE"
proof -
  have m: "PGSIZE - 1 = mask 12" by (simp add: PGSIZE_def mask_eq_exp_minus_1)
  have "(a AND NOT (mask 12)) + (a AND mask 12) = (a AND NOT (mask 12)) OR (a AND mask 12)"
    by (rule disjunctive_add_eq_or) (simp add: bit_eq_iff bit_simps)
  also have "\<dots> = a" by (rule bit_eqI) (auto simp: bit_simps)
  finally have "(a AND NOT (mask 12)) + take_bit 12 a = a" by (simp add: take_bit_eq_mask)
  moreover have "PGROUNDDOWN a = a AND NOT (mask 12)" by (simp only: PGROUNDDOWN_def m)
  moreover have "take_bit 12 a = a mod PGSIZE" by (simp add: take_bit_eq_mod PGSIZE_def)
  ultimately show ?thesis by (simp add: eq_diff_eq)
qed

lemma unat_PGROUNDDOWN: "unat (PGROUNDDOWN a) = 4096 * (unat a div 4096)"
proof -
  have "a mod PGSIZE \<le> a" by (simp add: word_le_nat_alt unat_mod)
  then have "unat (PGROUNDDOWN a) = unat a - unat a mod 4096"
    by (simp add: PGROUNDDOWN_mod unat_sub unat_mod PGSIZE_def)
  then show ?thesis by (simp add: minus_mod_eq_mult_div)
qed

lemma PGROUNDUP_down: "PGROUNDUP a = PGROUNDDOWN (a + 4095)"
  by (simp add: PGROUNDUP_def PGROUNDDOWN_def PGSIZE_def add.commute)

lemma unat_PGROUNDUP:
  "unat a + 4095 < 2 ^ 64 \<Longrightarrow> unat (PGROUNDUP a) = 4096 * ((unat a + 4095) div 4096)"
  by (simp add: PGROUNDUP_down unat_PGROUNDDOWN unat_word_ariths)

section \<open>The interface\<close>

datatype page_op = PAlloc | PFree u64 | PWrite u64 nat char

text \<open>
  A client's history: it owns a set of pages, allocates, frees pages it owns (any other free
  is skipped) and writes bytes at offsets below 4096 of pages it owns.
\<close>

fun page_run ::
    "('s \<Rightarrow> u64 \<times> 's) \<Rightarrow> (u64 \<Rightarrow> 's \<Rightarrow> 's option) \<Rightarrow> (u64 \<Rightarrow> nat \<Rightarrow> char \<Rightarrow> 's \<Rightarrow> 's) \<Rightarrow>
     page_op list \<Rightarrow> 's \<times> u64 set \<Rightarrow> ('s \<times> u64 set) option" where
  "page_run alloc free wr [] sH = Some sH"
| "page_run alloc free wr (PAlloc # xs) (s, H) =
     (let (p, s') = alloc s in page_run alloc free wr xs (s', if p = 0 then H else insert p H))"
| "page_run alloc free wr (PFree p # xs) (s, H) =
     (if p \<in> H
      then (case free p s of None \<Rightarrow> None | Some s' \<Rightarrow> page_run alloc free wr xs (s', H - {p}))
      else page_run alloc free wr xs (s, H))"
| "page_run alloc free wr (PWrite p off c # xs) (s, H) =
     page_run alloc free wr xs (if p \<in> H \<and> off < 4096 then wr p off c s else s, H)"

locale page_allocator =
  fixes alloc :: "'s \<Rightarrow> u64 \<times> 's" and free :: "u64 \<Rightarrow> 's \<Rightarrow> 's option"
    and wr :: "u64 \<Rightarrow> nat \<Rightarrow> char \<Rightarrow> 's \<Rightarrow> 's"
    and inv :: "'s \<Rightarrow> u64 list \<Rightarrow> bool" and ok :: "'s \<Rightarrow> u64 \<Rightarrow> bool"
  assumes alloc_empty: "inv s [] \<Longrightarrow> alloc s = (0, s)"
    and alloc_page: "inv s (p # ps) \<Longrightarrow> \<exists>s'. alloc s = (p, s') \<and> inv s' ps \<and> ok s' = ok s"
    and free_page: "inv s ps \<Longrightarrow> ok s p \<Longrightarrow> p \<notin> set ps \<Longrightarrow>
        \<exists>s'. free p s = Some s' \<and> inv s' (p # ps) \<and> ok s' = ok s"
    and write_page: "inv s ps \<Longrightarrow> ok s p \<Longrightarrow> p \<notin> set ps \<Longrightarrow> off < 4096 \<Longrightarrow>
        inv (wr p off c s) ps \<and> ok (wr p off c s) = ok s"
    and inv_distinct: "inv s ps \<Longrightarrow> distinct ps"
    and inv_pages: "inv s ps \<Longrightarrow> p \<in> set ps \<Longrightarrow> ok s p \<and> p \<noteq> 0"
begin

lemma run_conserves:
  "\<lbrakk>inv s ps; \<forall>p \<in> H. ok s p; H \<inter> set ps = {}\<rbrakk> \<Longrightarrow>
   \<exists>s' H' ps'. page_run alloc free wr xs (s, H) = Some (s', H') \<and> inv s' ps' \<and>
     H' \<inter> set ps' = {} \<and> H' \<union> set ps' = H \<union> set ps \<and> distinct ps'"
proof (induction xs arbitrary: s H ps)
  case Nil
  then show ?case using inv_distinct by auto
next
  case (Cons x xs)
  show ?case
  proof (cases x)
    case PAlloc
    show ?thesis
    proof (cases ps)
      case Nil
      then show ?thesis using Cons.IH [of s "[]" H] Cons.prems PAlloc alloc_empty by simp
    next
      case (Cons p ps')
      then obtain s' where s': "alloc s = (p, s')" "inv s' ps'" "ok s' = ok s"
        using alloc_page Cons.prems(1) by blast
      have "ok s p" "p \<noteq> 0" "p \<notin> set ps'"
        using inv_pages [of s ps p] inv_distinct [of s ps] Cons.prems(1) Cons by auto
      then have "\<exists>s'' H' ps''. page_run alloc free wr xs (s', insert p H) = Some (s'', H') \<and> inv s'' ps'' \<and>
          H' \<inter> set ps'' = {} \<and> H' \<union> set ps'' = insert p H \<union> set ps' \<and> distinct ps''"
        using s' Cons.prems Cons by (intro Cons.IH) auto
      then show ?thesis using PAlloc s' \<open>p \<noteq> 0\<close> Cons by simp
    qed
  next
    case (PFree p)
    show ?thesis
    proof (cases "p \<in> H")
      case True
      then obtain s' where s': "free p s = Some s'" "inv s' (p # ps)" "ok s' = ok s"
        using free_page Cons.prems by blast
      have "\<exists>s'' H' ps''. page_run alloc free wr xs (s', H - {p}) = Some (s'', H') \<and> inv s'' ps'' \<and>
          H' \<inter> set ps'' = {} \<and> H' \<union> set ps'' = (H - {p}) \<union> set (p # ps) \<and> distinct ps''"
        using s' Cons.prems by (intro Cons.IH) auto
      moreover have "(H - {p}) \<union> set (p # ps) = H \<union> set ps" using True by auto
      ultimately show ?thesis using PFree s' True by simp
    next
      case False
      then show ?thesis using Cons.IH [OF Cons.prems] PFree by simp
    qed
  next
    case (PWrite p off c)
    show ?thesis
    proof (cases "p \<in> H \<and> off < 4096")
      case True
      then have "inv (wr p off c s) ps \<and> ok (wr p off c s) = ok s"
        using Cons.prems by (intro write_page) auto
      then show ?thesis using Cons.IH [of "wr p off c s" ps H] Cons.prems PWrite True by simp
    next
      case False
      then show ?thesis using Cons.IH [OF Cons.prems] PWrite by auto
    qed
  qed
qed

end

section \<open>The free list\<close>

fun free_chain :: "memory \<Rightarrow> u64 \<Rightarrow> u64 list \<Rightarrow> bool" where
  "free_chain m h [] = (h = 0)"
| "free_chain m h (p # ps) = (h = p \<and> free_chain m (load64 m p) ps)"

definition page_ok :: "kernel \<Rightarrow> u64 \<Rightarrow> bool" where
  "page_ok k p \<longleftrightarrow> p mod PGSIZE = 0 \<and> k_end k \<le> p \<and> p < PHYSTOP"

definition kmem_inv :: "kernel \<Rightarrow> u64 list \<Rightarrow> bool" where
  "kmem_inv k ps \<longleftrightarrow> free_chain (k_mem k) (k_freelist k) ps \<and> distinct ps \<and>
     (\<forall>p \<in> set ps. page_ok k p) \<and> KERNBASE \<le> k_end k"

definition page_write :: "u64 \<Rightarrow> nat \<Rightarrow> char \<Rightarrow> kernel \<Rightarrow> kernel" where
  "page_write p off c k = k\<lparr>k_mem := (k_mem k)(unat p + off := c)\<rparr>"

lemma page_apart:
  assumes "p mod PGSIZE = 0" "q mod PGSIZE = 0" "p \<noteq> q"
  shows "unat p + 4096 \<le> unat q \<or> unat q + 4096 \<le> unat p"
proof -
  have "unat p mod 4096 = 0" "unat q mod 4096 = 0"
    using assms(1,2) by (simp_all add: PGSIZE_def unat_mod flip: unat_eq_0)
  moreover have "unat p < unat q \<or> unat q < unat p"
    using assms(3) by (metis unsigned_word_eqI linorder_neqE_nat)
  ultimately show ?thesis
    using aligned_gap [of "unat p" "unat q"] aligned_gap [of "unat q" "unat p"] by metis
qed

lemma free_chain_cong:
  "(\<And>p. p \<in> set ps \<Longrightarrow> load64 m' p = load64 m p) \<Longrightarrow> free_chain m' h ps = free_chain m h ps"
  by (induction ps arbitrary: h) auto

text \<open>Changes inside one page do not disturb the links in other pages.\<close>

lemma load64_other_page:
  assumes "p mod PGSIZE = 0" "q mod PGSIZE = 0" "p \<noteq> q"
    and "\<And>x. x < unat p \<or> unat p + 4096 \<le> x \<Longrightarrow> m' x = m x"
  shows "load64 m' q = load64 m q"
proof -
  have "read_bytes m' (unat q) 8 = read_bytes m (unat q) 8"
    using page_apart [OF assms(1-3)] assms(4)
    by (intro nth_equalityI) (auto simp: read_bytes_def)
  then show ?thesis by (simp add: load64_def)
qed

lemma free_chain_other:
  assumes "free_chain m h ps" "\<forall>q \<in> set ps. page_ok k q" "page_ok k p" "p \<notin> set ps"
    and "\<And>x. x < unat p \<or> unat p + 4096 \<le> x \<Longrightarrow> m' x = m x"
  shows "free_chain m' h ps"
  using assms free_chain_cong [of ps m' m h] load64_other_page [of p _ m' m]
  by (metis page_ok_def)

lemma mem_fill_out: "x < unat p \<or> unat p + n \<le> x \<Longrightarrow> mem_fill m p c n x = m x"
  by (simp add: mem_fill_def write_bytes_out)

lemma store64_out: "x < unat p \<or> unat p + 8 \<le> x \<Longrightarrow> store64 m p w x = m x"
  by (simp add: store64_def write_bytes_out)

lemma page_ok_nonzero: "page_ok k p \<Longrightarrow> KERNBASE \<le> k_end k \<Longrightarrow> p \<noteq> 0"
  by (auto simp: page_ok_def KERNBASE_def)

lemma kalloc_empty: "kmem_inv k [] \<Longrightarrow> kalloc k = (0, k)"
  by (simp add: kmem_inv_def kalloc_def)

lemma kalloc_page:
  assumes "kmem_inv k (p # ps)"
  shows "kalloc k = (p, k\<lparr>k_freelist := load64 (k_mem k) p, k_mem := mem_fill (k_mem k) p (CHR 0x05) 4096\<rparr>)"
    and "kmem_inv (snd (kalloc k)) ps"
proof -
  have p: "p \<noteq> 0" "page_ok k p" "p \<notin> set ps"
    using assms page_ok_nonzero [of k p] by (auto simp: kmem_inv_def)
  have inv: "free_chain (k_mem k) (load64 (k_mem k) p) ps" "\<forall>q \<in> set ps. page_ok k q"
    using assms by (simp_all add: kmem_inv_def)
  show eq: "kalloc k =
      (p, k\<lparr>k_freelist := load64 (k_mem k) p, k_mem := mem_fill (k_mem k) p (CHR 0x05) 4096\<rparr>)"
    using assms p by (simp add: kmem_inv_def kalloc_def)
  have "free_chain (mem_fill (k_mem k) p (CHR 0x05) 4096) (load64 (k_mem k) p) ps"
    by (rule free_chain_other [OF inv p(2,3)]) (rule mem_fill_out)
  then show "kmem_inv (snd (kalloc k)) ps"
    using assms by (auto simp: eq kmem_inv_def page_ok_def)
qed

lemma kfree_page:
  assumes "kmem_inv k ps" "page_ok k p" "p \<notin> set ps"
  shows "kfree p k = Some (k\<lparr>k_mem := store64 (mem_fill (k_mem k) p (CHR 0x01) 4096) p (k_freelist k),
      k_freelist := p\<rparr>)"
    and "kmem_inv (the (kfree p k)) (p # ps)"
proof -
  show eq: "kfree p k = Some (k\<lparr>k_mem := store64 (mem_fill (k_mem k) p (CHR 0x01) 4096) p (k_freelist k),
      k_freelist := p\<rparr>)"
    using assms(2) by (auto simp: kfree_def page_ok_def Let_def)
  have "free_chain (store64 (mem_fill (k_mem k) p (CHR 0x01) 4096) p (k_freelist k)) (k_freelist k) ps"
  proof (rule free_chain_other [OF _ _ assms(2,3)])
    show "free_chain (k_mem k) (k_freelist k) ps" "\<forall>q \<in> set ps. page_ok k q"
      using assms(1) by (simp_all add: kmem_inv_def)
    show "\<And>x. x < unat p \<or> unat p + 4096 \<le> x \<Longrightarrow>
        store64 (mem_fill (k_mem k) p (CHR 0x01) 4096) p (k_freelist k) x = k_mem k x"
      by (subst store64_out, linarith, rule mem_fill_out)
  qed
  then show "kmem_inv (the (kfree p k)) (p # ps)"
    using assms by (auto simp: eq kmem_inv_def page_ok_def load_store64)
qed

interpretation kmem: page_allocator kalloc kfree page_write kmem_inv page_ok
proof
  fix k ps p
  assume "kmem_inv k ps" "page_ok k p" "p \<notin> set ps"
  note f = kfree_page [OF this]
  then show "\<exists>s'. kfree p k = Some s' \<and> kmem_inv s' (p # ps) \<and> page_ok s' = page_ok k"
    by (intro exI [of _ "the (kfree p k)"]) (auto simp: page_ok_def)
next
  fix k ps p
  assume "kmem_inv k (p # ps)"
  note f = kalloc_page [OF this]
  then show "\<exists>s'. kalloc k = (p, s') \<and> kmem_inv s' ps \<and> page_ok s' = page_ok k"
    by (intro exI [of _ "snd (kalloc k)"]) (auto simp: page_ok_def)
next
  fix k ps p off c
  assume a: "kmem_inv k ps" "page_ok k p" "p \<notin> set ps" and off: "off < (4096 :: nat)"
  have "free_chain ((k_mem k)(unat p + off := c)) (k_freelist k) ps"
  proof (rule free_chain_other [OF _ _ a(2,3)])
    show "free_chain (k_mem k) (k_freelist k) ps" "\<forall>q \<in> set ps. page_ok k q"
      using a(1) by (simp_all add: kmem_inv_def)
    show "\<And>x. x < unat p \<or> unat p + 4096 \<le> x \<Longrightarrow> ((k_mem k)(unat p + off := c)) x = k_mem k x"
      using off by (auto simp: fun_upd_def)
  qed
  then show "kmem_inv (page_write p off c k) ps \<and> page_ok (page_write p off c k) = page_ok k"
    using a by (auto simp: kmem_inv_def page_write_def page_ok_def)
next
  fix k ps p
  assume "kmem_inv k ps" "p \<in> set ps"
  then show "page_ok k p \<and> p \<noteq> 0" using page_ok_nonzero by (auto simp: kmem_inv_def)
qed (auto simp: kalloc_empty kmem_inv_def)

section \<open>Initialisation\<close>

lemma page_ok_unat:
  "page_ok k p \<longleftrightarrow> unat p mod 4096 = 0 \<and> unat (k_end k) \<le> unat p \<and> unat p < unat PHYSTOP"
  by (simp add: page_ok_def word_le_nat_alt word_less_nat_alt PGSIZE_def unat_mod flip: unat_eq_0)

lemma unat_PHYSTOP: "unat PHYSTOP = 0x88000000"
  by (simp add: PHYSTOP_def KERNBASE_def)

lemma freerange_loop_inv:
  assumes "kmem_inv k ps" "set ps = {q. page_ok k q \<and> q < p}" "p mod PGSIZE = 0"
    "k_end k \<le> p" "p \<le> PHYSTOP"
  shows "\<exists>k' ps'. freerange_loop p PHYSTOP k = Some k' \<and> kmem_inv k' ps' \<and>
    set ps' = {q. page_ok k q} \<and> k_end k' = k_end k"
  using assms
proof (induction p PHYSTOP k arbitrary: ps rule: freerange_loop.induct)
  case (1 p k)
  have p4: "unat p mod 4096 = 0"
    using "1.prems"(3) by (simp add: PGSIZE_def unat_mod flip: unat_eq_0)
  show ?case
  proof (cases "p < PHYSTOP")
    case True
    then have up: "unat (p + PGSIZE) = unat p + 4096" by (rule page_step)
    have lt: "unat p < 0x88000000" using True by (simp add: word_less_nat_alt unat_PHYSTOP)
    then have go: "p + PGSIZE \<le> PHYSTOP"
      using p4 aligned_gap [of "unat p" "0x88000000"] by (simp add: word_le_nat_alt up unat_PHYSTOP)
    have okp: "page_ok k p" using True "1.prems" by (simp add: page_ok_def)
    have "p \<notin> set ps" using "1.prems"(2) by simp
    note f = kfree_page [OF "1.prems"(1) okp this]
    then obtain k1 where kf: "kfree p k = Some k1" and inv1: "kmem_inv k1 (p # ps)"
      by (metis option.sel)
    have e: "k_end k1 = k_end k" using f(1) kf by auto
    have same: "page_ok k1 = page_ok k" by (auto simp: page_ok_def e)
    have A: "set (p # ps) = {q. page_ok k1 q \<and> q < p + PGSIZE}"
    proof -
      have "q < p + PGSIZE \<longleftrightarrow> q = p \<or> q < p" if "page_ok k q" for q
      proof -
        have "unat q mod 4096 = 0" using that by (simp add: page_ok_unat)
        then have "unat q < unat p + 4096 \<longleftrightarrow> unat q = unat p \<or> unat q < unat p"
          using p4 aligned_gap [of "unat p" "unat q"] by linarith
        then show ?thesis by (metis up word_less_nat_alt unsigned_word_eqI)
      qed
      then show ?thesis using "1.prems"(2) okp same by auto
    qed
    have B: "(p + PGSIZE) mod PGSIZE = 0" using p4 by (simp add: aligned_unat up)
    have C: "k_end k1 \<le> p + PGSIZE"
      using "1.prems"(4) by (simp add: word_le_nat_alt up e)
    have "\<exists>k' ps'. freerange_loop (p + PGSIZE) PHYSTOP k1 = Some k' \<and> kmem_inv k' ps' \<and>
        set ps' = {q. page_ok k1 q} \<and> k_end k' = k_end k1"
      by (rule "1.hyps" [OF go kf inv1 A B C go])
    then show ?thesis
      using kf go e same by (subst freerange_loop.simps) simp
  next
    case False
    then have p: "p = PHYSTOP" using "1.prems"(5) by simp
    have "\<not> PHYSTOP + PGSIZE \<le> PHYSTOP" by (simp add: PHYSTOP_def KERNBASE_def PGSIZE_def)
    then have "freerange_loop p PHYSTOP k = Some k" by (subst freerange_loop.simps) (simp add: p)
    moreover have "set ps = {q. page_ok k q}" using "1.prems"(2) by (auto simp: p page_ok_def)
    ultimately show ?thesis using "1.prems"(1) by blast
  qed
qed

section \<open>Properties\<close>

text \<open>
  \<open>kinit\<close> puts exactly the usable pages on the free list.  From any memory contents and a
  kernel image ending between KERNBASE and PHYSTOP, initialisation does not panic, and the
  linked list it builds in the pages themselves holds each page-aligned address from the end
  of the kernel up to PHYSTOP once, and nothing else.
\<close>

theorem kinit_free_pages:
  assumes "KERNBASE \<le> k_end k" "k_end k \<le> PHYSTOP" "k_freelist k = 0"
  shows "\<exists>k' ps. kinit k = Some k' \<and> free_chain (k_mem k') (k_freelist k') ps \<and> distinct ps \<and>
    set ps = {p. p mod PGSIZE = 0 \<and> k_end k \<le> p \<and> p < PHYSTOP}"
proof -
  let ?p = "PGROUNDUP (k_end k)"
  have e: "unat (k_end k) \<le> 0x88000000" using assms(2) by (simp add: word_le_nat_alt unat_PHYSTOP)
  then have p: "unat ?p = 4096 * ((unat (k_end k) + 4095) div 4096)" by (simp add: unat_PGROUNDUP)
  have up: "unat ?p \<le> unat (k_end k) + 4095" "unat (k_end k) \<le> unat ?p" "unat ?p mod 4096 = 0"
    using mult_div_mod_eq [of 4096 "unat (k_end k) + 4095"]
      mod_less_divisor [of 4096 "unat (k_end k) + 4095"] by (simp_all add: p del: mult_div_mod_eq)
  have "unat ?p \<le> 0x88000000"
    using e up aligned_gap [of "0x88000000" "unat ?p"] by (cases "0x88000000 < unat ?p") simp_all
  then have range: "k_end k \<le> ?p" "?p \<le> PHYSTOP"
    using up by (simp_all add: word_le_nat_alt unat_PHYSTOP)
  have "unat q < unat (k_end k)" if "unat q mod 4096 = 0" "unat q < unat ?p" for q :: u64
    using that up aligned_gap [of "unat q" "unat ?p"] by linarith
  then have "{q. page_ok k q \<and> q < ?p} = {}"
    by (auto simp: page_ok_unat word_less_nat_alt simp flip: not_less)
  moreover have "kmem_inv k []" using assms by (simp add: kmem_inv_def)
  moreover have "?p mod PGSIZE = 0" using up(3) by (simp add: PGSIZE_def unat_mod flip: unat_eq_0)
  ultimately obtain k' ps where "freerange_loop ?p PHYSTOP k = Some k'" "kmem_inv k' ps"
    "set ps = {q. page_ok k q}"
    using freerange_loop_inv [of k "[]" ?p] range by auto
  then show ?thesis by (auto simp: kinit_def freerange_def kmem_inv_def page_ok_def)
qed

theorem kinit_free_pages_witness:
  "\<exists>k' ps. kinit kernel_boot = Some k' \<and> free_chain (k_mem k') (k_freelist k') ps \<and> distinct ps \<and>
    set ps = {p. p mod PGSIZE = 0 \<and> k_end kernel_boot \<le> p \<and> p < PHYSTOP}"
  by (rule kinit_free_pages) (simp_all add: kernel_boot_def KERNBASE_def PHYSTOP_def)

text \<open>
  C22: no page is ever handed out twice and none is lost.  However a client allocates, frees
  pages it holds and writes into pages it holds, \<open>kfree\<close> never panics, the pages held and the
  pages on the free list stay disjoint, and together they are always the same set.
\<close>

theorem kalloc_conserves_pages:
  assumes "kmem_inv k ps" "\<forall>p \<in> H. page_ok k p" "H \<inter> set ps = {}"
  shows "\<exists>k' H' ps'. page_run kalloc kfree page_write xs (k, H) = Some (k', H') \<and> kmem_inv k' ps' \<and>
     H' \<inter> set ps' = {} \<and> H' \<union> set ps' = H \<union> set ps"
  using kmem.run_conserves [OF assms] by blast

theorem kalloc_conserves_pages_witness:
  "\<exists>k ps. kmem_inv k ps \<and> {} \<union> set ps = {p. page_ok kernel_boot p} \<and>
     (\<exists>k' H' ps'. page_run kalloc kfree page_write [PAlloc, PWrite 0x80040000 8 NUL, PFree 0x80040000] (k, {}) =
          Some (k', H') \<and> kmem_inv k' ps' \<and> H' \<inter> set ps' = {} \<and> H' \<union> set ps' = {} \<union> set ps)"
proof -
  have b: "k_end kernel_boot = 0x80040000" "k_freelist kernel_boot = 0"
    by (simp_all add: kernel_boot_def KERNBASE_def)
  have "kmem_inv kernel_boot []" by (simp add: kmem_inv_def b KERNBASE_def)
  moreover have "{q. page_ok kernel_boot q \<and> q < 0x80040000} = {}" by (auto simp: page_ok_def b)
  ultimately obtain k ps where k: "kmem_inv k ps" "set ps = {p. page_ok kernel_boot p}"
    using freerange_loop_inv [of kernel_boot "[]" "0x80040000"]
    by (auto simp: b PHYSTOP_def KERNBASE_def PGSIZE_def)
  with kalloc_conserves_pages [OF k(1), of "{}" "[PAlloc, PWrite 0x80040000 8 NUL, PFree 0x80040000]"]
  show ?thesis by (intro exI [of _ k] exI [of _ ps]) simp
qed

end
