(* ===== verification/Vm.thy ===== *)
theory Vm
  imports Kalloc
begin

text \<open>
  Virtual memory, \<open>kernel/vm.c\<close>: Sv39 page tables as they lie in physical memory, 512
  little-endian 64-bit entries per page, walked, extended, copied and freed by the functions
  of the source.  A page-table pointer is a physical address; the null pointer is 0.  Where a
  loop of the source steps through addresses, the panic of \<open>walk\<close> at MAXVA bounds it.
\<close>

unbundle bit_operations_syntax

section \<open>Page-table entries: \<open>riscv.h\<close>\<close>

definition PTE_V :: u64 where "PTE_V = push_bit 0 1"
definition PTE_R :: u64 where "PTE_R = push_bit 1 1"
definition PTE_W :: u64 where "PTE_W = push_bit 2 1"
definition PTE_X :: u64 where "PTE_X = push_bit 3 1"
definition PTE_U :: u64 where "PTE_U = push_bit 4 1"

definition PA2PTE :: "u64 \<Rightarrow> u64" where
  "PA2PTE pa = push_bit 10 (drop_bit 12 pa)"

definition PTE2PA :: "u64 \<Rightarrow> u64" where
  "PTE2PA pte = push_bit 12 (drop_bit 10 pte)"

definition PTE_FLAGS :: "u64 \<Rightarrow> u64" where
  "PTE_FLAGS pte = pte AND 0x3FF"

definition PX :: "nat \<Rightarrow> u64 \<Rightarrow> u64" where
  "PX level va = drop_bit (12 + 9 * level) va AND 0x1FF"

definition pte_addr :: "u64 \<Rightarrow> u64 \<Rightarrow> u64" where
  "pte_addr pagetable i = pagetable + 8 * i"

section \<open>Walking and mapping\<close>

fun walk_loop :: "nat \<Rightarrow> u64 \<Rightarrow> u64 \<Rightarrow> bool \<Rightarrow> kernel \<Rightarrow> u64 \<times> kernel" where
  "walk_loop 0 pagetable va alloc k = (pte_addr pagetable (PX 0 va), k)"
| "walk_loop (Suc level) pagetable va alloc k =
     (let pte = pte_addr pagetable (PX (Suc level) va);
          v = load64 (k_mem k) pte
      in if v AND PTE_V \<noteq> 0 then walk_loop level (PTE2PA v) va alloc k
         else if \<not> alloc then (0, k)
         else
           let (page, k) = kalloc k
           in if page = 0 then (0, k)
              else
                let m = mem_fill (k_mem k) page NUL 4096;
                    m = store64 m pte (PA2PTE page OR PTE_V)
                in walk_loop level page va alloc (k\<lparr>k_mem := m\<rparr>))"

definition walk :: "u64 \<Rightarrow> u64 \<Rightarrow> bool \<Rightarrow> kernel \<Rightarrow> (u64 \<times> kernel) option" where
  "walk pagetable va alloc k =
     (if va \<ge> MAXVA then panic ''walk'' else Some (walk_loop 2 pagetable va alloc k))"

definition walkaddr :: "u64 \<Rightarrow> u64 \<Rightarrow> kernel \<Rightarrow> u64" where
  "walkaddr pagetable va k =
     (if va \<ge> MAXVA then 0
      else
        let pte = fst (walk_loop 2 pagetable va False k); v = load64 (k_mem k) pte
        in if pte = 0 then 0
           else if v AND PTE_V = 0 then 0
           else if v AND PTE_U = 0 then 0
           else PTE2PA v)"

definition ismapped :: "u64 \<Rightarrow> u64 \<Rightarrow> kernel \<Rightarrow> bool option" where
  "ismapped pagetable va k =
     do { (pte, k') \<leftarrow> walk pagetable va False k;
          Some (pte \<noteq> 0 \<and> load64 (k_mem k') pte AND PTE_V \<noteq> 0) }"

lemma walk_range: "walk pt a al k = Some r \<Longrightarrow> a < MAXVA"
  by (simp add: walk_def panic_simps not_le split: if_splits)

lemma va_step: "a < MAXVA \<Longrightarrow> unat (a + PGSIZE) = unat a + 4096"
  by (simp add: MAXVA_def PGSIZE_def word_less_nat_alt unat_word_ariths)

definition va_left :: "u64 \<Rightarrow> nat" where
  "va_left a = 2 ^ 64 - unat a"

lemma va_left_step: "a < MAXVA \<Longrightarrow> va_left (a + PGSIZE) < va_left a"
  using unat_lt_pow [of a] by (simp add: va_step va_left_def)

function mappages_loop :: "u64 \<Rightarrow> u64 \<Rightarrow> u64 \<Rightarrow> u64 \<Rightarrow> u64 \<Rightarrow> kernel \<Rightarrow> (int \<times> kernel) option" where
  "mappages_loop pagetable a final pa perm k =
     (case walk pagetable a True k of
        None \<Rightarrow> None
      | Some (pte, k') \<Rightarrow>
          if pte = 0 then Some (- 1, k')
          else if load64 (k_mem k') pte AND PTE_V \<noteq> 0 then panic ''mappages: remap''
          else
            let k2 = k'\<lparr>k_mem := store64 (k_mem k') pte (PA2PTE pa OR perm OR PTE_V)\<rparr>
            in if a = final then Some (0, k2)
               else mappages_loop pagetable (a + PGSIZE) final (pa + PGSIZE) perm k2)"
  by pat_completeness auto

termination
  by (relation "measure (\<lambda>(pt, a, _). va_left a)") (auto intro: va_left_step walk_range)

declare mappages_loop.simps [simp del]

definition mappages :: "u64 \<Rightarrow> u64 \<Rightarrow> u64 \<Rightarrow> u64 \<Rightarrow> u64 \<Rightarrow> kernel \<Rightarrow> (int \<times> kernel) option" where
  "mappages pagetable va sz pa perm k =
     (if va mod PGSIZE \<noteq> 0 then panic ''mappages: va not aligned''
      else if sz mod PGSIZE \<noteq> 0 then panic ''mappages: size not aligned''
      else if sz = 0 then panic ''mappages: size''
      else mappages_loop pagetable va (va + sz - PGSIZE) pa perm k)"

definition kvmmap :: "u64 \<Rightarrow> u64 \<Rightarrow> u64 \<Rightarrow> u64 \<Rightarrow> u64 \<Rightarrow> kernel \<Rightarrow> kernel option" where
  "kvmmap kpgtbl va pa sz perm k =
     do { (r, k) \<leftarrow> mappages kpgtbl va sz pa perm k;
          if r \<noteq> 0 then panic ''kvmmap'' else Some k }"

section \<open>User address spaces\<close>

definition zero_page :: "u64 \<Rightarrow> kernel \<Rightarrow> kernel" where
  "zero_page p k = k\<lparr>k_mem := mem_fill (k_mem k) p NUL 4096\<rparr>"

definition uvmcreate :: "kernel \<Rightarrow> u64 \<times> kernel" where
  "uvmcreate k =
     (let (pagetable, k) = kalloc k
      in if pagetable = 0 then (0, k) else (pagetable, zero_page pagetable k))"

text \<open>The loop of \<open>uvmunmap\<close>; \<open>stop\<close> is \<open>va + npages * PGSIZE\<close>.\<close>

function unmap_loop :: "u64 \<Rightarrow> u64 \<Rightarrow> u64 \<Rightarrow> bool \<Rightarrow> kernel \<Rightarrow> kernel option" where
  "unmap_loop pagetable a stop do_free k =
     (if \<not> a < stop then Some k
      else case walk pagetable a False k of
        None \<Rightarrow> None
      | Some (pte, _) \<Rightarrow>
          if pte = 0 then unmap_loop pagetable (a + PGSIZE) stop do_free k
          else
            let v = load64 (k_mem k) pte
            in if v AND PTE_V = 0 then unmap_loop pagetable (a + PGSIZE) stop do_free k
               else case (if do_free then kfree (PTE2PA v) k else Some k) of
                 None \<Rightarrow> None
               | Some k' \<Rightarrow>
                   unmap_loop pagetable (a + PGSIZE) stop do_free
                     (k'\<lparr>k_mem := store64 (k_mem k') pte 0\<rparr>))"
  by pat_completeness auto

termination
  by (relation "measure (\<lambda>(pt, a, _). va_left a)") (auto intro: va_left_step walk_range)

declare unmap_loop.simps [simp del]

definition uvmunmap :: "u64 \<Rightarrow> u64 \<Rightarrow> u64 \<Rightarrow> bool \<Rightarrow> kernel \<Rightarrow> kernel option" where
  "uvmunmap pagetable va npages do_free k =
     (if va mod PGSIZE \<noteq> 0 then panic ''uvmunmap: not aligned''
      else unmap_loop pagetable va (va + npages * PGSIZE) do_free k)"

definition uvmdealloc :: "u64 \<Rightarrow> u64 \<Rightarrow> u64 \<Rightarrow> kernel \<Rightarrow> (u64 \<times> kernel) option" where
  "uvmdealloc pagetable oldsz newsz k =
     (if newsz \<ge> oldsz then Some (oldsz, k)
      else if PGROUNDUP newsz < PGROUNDUP oldsz
      then
        let npages = int32 ((PGROUNDUP oldsz - PGROUNDUP newsz) div PGSIZE)
        in do { k \<leftarrow> uvmunmap pagetable (PGROUNDUP newsz) (of_int npages) True k; Some (newsz, k) }
      else Some (newsz, k))"

lemma mappages_range: "mappages pt a sz pa perm k = Some r \<Longrightarrow> a < MAXVA"
  by (auto simp: mappages_def mappages_loop.simps [of pt a] panic_simps
      split: if_splits option.splits dest: walk_range)

function uvmalloc_loop :: "u64 \<Rightarrow> u64 \<Rightarrow> u64 \<Rightarrow> u64 \<Rightarrow> u64 \<Rightarrow> kernel \<Rightarrow> (u64 \<times> kernel) option" where
  "uvmalloc_loop pagetable a oldsz newsz xperm k =
     (if \<not> a < newsz then Some (newsz, k)
      else
        let (page, k1) = kalloc k
        in if page = 0
           then do { (_, k2) \<leftarrow> uvmdealloc pagetable a oldsz k1; Some (0, k2) }
           else case mappages pagetable a PGSIZE page (PTE_R OR PTE_U OR xperm) (zero_page page k1) of
             None \<Rightarrow> None
           | Some (r, k2) \<Rightarrow>
               if r \<noteq> 0
               then do { k3 \<leftarrow> kfree page k2; (_, k4) \<leftarrow> uvmdealloc pagetable a oldsz k3; Some (0, k4) }
               else uvmalloc_loop pagetable (a + PGSIZE) oldsz newsz xperm k2)"
  by pat_completeness auto

termination
  by (relation "measure (\<lambda>(pt, a, _). va_left a)") (auto intro: va_left_step mappages_range)

declare uvmalloc_loop.simps [simp del]

definition uvmalloc :: "u64 \<Rightarrow> u64 \<Rightarrow> u64 \<Rightarrow> u64 \<Rightarrow> kernel \<Rightarrow> (u64 \<times> kernel) option" where
  "uvmalloc pagetable oldsz newsz xperm k =
     (if newsz < oldsz then Some (oldsz, k)
      else uvmalloc_loop pagetable (PGROUNDUP oldsz) (PGROUNDUP oldsz) newsz xperm k)"

text \<open>
  \<open>freewalk\<close> recurses as deep as the table in memory is; the fuel counts the levels, and a
  three-level table needs fuel 3.
\<close>

fun iter_option :: "('a \<Rightarrow> 's \<Rightarrow> 's option) \<Rightarrow> 'a list \<Rightarrow> 's \<Rightarrow> 's option" where
  "iter_option f [] s = Some s"
| "iter_option f (x # xs) s = do { s \<leftarrow> f x s; iter_option f xs s }"

fun freewalk :: "nat \<Rightarrow> u64 \<Rightarrow> kernel \<Rightarrow> kernel option" where
  "freewalk 0 pagetable k = None"
| "freewalk (Suc fuel) pagetable k =
     do { k \<leftarrow> iter_option (\<lambda>i k.
            let pte = load64 (k_mem k) (pte_addr pagetable (of_nat i))
            in if pte AND PTE_V \<noteq> 0 \<and> pte AND (PTE_R OR PTE_W OR PTE_X) = 0
               then do { k \<leftarrow> freewalk fuel (PTE2PA pte) k;
                         Some (k\<lparr>k_mem := store64 (k_mem k) (pte_addr pagetable (of_nat i)) 0\<rparr>) }
               else if pte AND PTE_V \<noteq> 0 then panic ''freewalk: leaf''
               else Some k) [0..<512] k;
          kfree pagetable k }"

definition uvmfree :: "u64 \<Rightarrow> u64 \<Rightarrow> kernel \<Rightarrow> kernel option" where
  "uvmfree pagetable sz k =
     do { k \<leftarrow> (if sz > 0 then uvmunmap pagetable 0 (PGROUNDUP sz div PGSIZE) True k else Some k);
          freewalk 3 pagetable k }"

text \<open>The loop of \<open>uvmcopy\<close>; the source's \<open>goto err\<close> is the unmapping of what was copied so far.\<close>

definition uvmcopy_err :: "u64 \<Rightarrow> u64 \<Rightarrow> kernel \<Rightarrow> (int \<times> kernel) option" where
  "uvmcopy_err new i k = do { k \<leftarrow> uvmunmap new 0 (i div PGSIZE) True k; Some (- 1, k) }"

function uvmcopy_loop :: "u64 \<Rightarrow> u64 \<Rightarrow> u64 \<Rightarrow> u64 \<Rightarrow> kernel \<Rightarrow> (int \<times> kernel) option" where
  "uvmcopy_loop old new i sz k =
     (if \<not> i < sz then Some (0, k)
      else case walk old i False k of
        None \<Rightarrow> None
      | Some (pte, _) \<Rightarrow>
          if pte = 0 then uvmcopy_loop old new (i + PGSIZE) sz k
          else
            let v = load64 (k_mem k) pte
            in if v AND PTE_V = 0 then uvmcopy_loop old new (i + PGSIZE) sz k
               else
                 let (page, k1) = kalloc k
                 in if page = 0 then uvmcopy_err new i k1
                    else
                      let k2 = k1\<lparr>k_mem := write_bytes (k_mem k1) (unat page)
                                 (read_bytes (k_mem k1) (unat (PTE2PA v)) 4096)\<rparr>
                      in case mappages new i PGSIZE page (PTE_FLAGS v) k2 of
                           None \<Rightarrow> None
                         | Some (r, k3) \<Rightarrow>
                             if r \<noteq> 0 then do { k4 \<leftarrow> kfree page k3; uvmcopy_err new i k4 }
                             else uvmcopy_loop old new (i + PGSIZE) sz k3)"
  by pat_completeness auto

termination
  by (relation "measure (\<lambda>(old, new, a, _). va_left a)") (auto intro: va_left_step walk_range)

declare uvmcopy_loop.simps [simp del]

definition uvmcopy :: "u64 \<Rightarrow> u64 \<Rightarrow> u64 \<Rightarrow> kernel \<Rightarrow> (int \<times> kernel) option" where
  "uvmcopy old new sz k = uvmcopy_loop old new 0 sz k"

definition uvmclear :: "u64 \<Rightarrow> u64 \<Rightarrow> kernel \<Rightarrow> kernel option" where
  "uvmclear pagetable va k =
     do { (pte, k) \<leftarrow> walk pagetable va False k;
          if pte = 0 then panic ''uvmclear''
          else Some (k\<lparr>k_mem := store64 (k_mem k) pte (load64 (k_mem k) pte AND NOT PTE_U)\<rparr>) }"

section \<open>Copying between kernel and user\<close>

definition vmfault :: "u64 \<Rightarrow> u64 \<Rightarrow> kernel \<Rightarrow> (u64 \<times> kernel) option" where
  "vmfault pagetable va k =
     do { p \<leftarrow> k_cur k;
          if va \<ge> p_sz (k_procs k ! p) then Some (0, k)
          else do {
            let va = PGROUNDDOWN va;
            mapped \<leftarrow> ismapped pagetable va k;
            if mapped then Some (0, k)
            else do {
              let (page, k) = kalloc k;
              if page = 0 then Some (0, k)
              else do {
                (r, k) \<leftarrow> mappages (p_pagetable (k_procs k ! p)) va PGSIZE page (PTE_W OR PTE_U OR PTE_R)
                           (zero_page page k);
                if r \<noteq> 0 then do { k \<leftarrow> kfree page k; Some (0, k) } else Some (page, k) } } } }"

text \<open>The physical address of a user page, faulting it in if needed: 0 when there is none.\<close>

definition user_page :: "u64 \<Rightarrow> u64 \<Rightarrow> kernel \<Rightarrow> (u64 \<times> kernel) option" where
  "user_page pagetable va0 k =
     (let pa0 = walkaddr pagetable va0 k
      in if pa0 = 0 then vmfault pagetable va0 k else Some (pa0, k))"

text \<open>How much of a copy falls into the page of its start address.\<close>

definition chunk :: "u64 \<Rightarrow> u64 \<Rightarrow> u64" where
  "chunk va len =
     (let n = PGSIZE - (va - PGROUNDDOWN va) in if n > len then len else n)"

lemma unat_page_offset: "unat (va - PGROUNDDOWN va) = unat va mod 4096"
  by (simp add: PGROUNDDOWN_mod PGSIZE_def unat_mod)

lemma unat_chunk: "unat (chunk va len) = min (4096 - unat va mod 4096) (unat len)"
proof -
  have le: "va - PGROUNDDOWN va \<le> PGSIZE"
    by (simp add: word_le_nat_alt unat_page_offset PGSIZE_def)
  have "unat (PGSIZE - (va - PGROUNDDOWN va)) = 4096 - unat va mod 4096"
    by (simp add: unat_sub [OF le] unat_page_offset) (simp add: PGSIZE_def)
  then show ?thesis by (simp add: chunk_def Let_def word_less_nat_alt)
qed

lemma chunk_decreases: "len > 0 \<Longrightarrow> unat (len - chunk va len) < unat len"
proof -
  assume "len > 0"
  then have "0 < unat len" by (simp add: word_less_nat_alt)
  have "chunk va len \<le> len" by (simp add: word_le_nat_alt unat_chunk)
  then have "unat (len - chunk va len) = unat len - unat (chunk va len)" by (rule unat_sub)
  moreover have "0 < unat (chunk va len)" using \<open>0 < unat len\<close> by (simp add: unat_chunk)
  ultimately show ?thesis using \<open>0 < unat len\<close> by simp
qed

function copyout :: "u64 \<Rightarrow> u64 \<Rightarrow> string \<Rightarrow> u64 \<Rightarrow> kernel \<Rightarrow> (int \<times> kernel) option" where
  "copyout pagetable dstva src len k =
     (if \<not> len > 0 then Some (0, k)
      else
        let va0 = PGROUNDDOWN dstva
        in if va0 \<ge> MAXVA then Some (- 1, k)
           else case user_page pagetable va0 k of
             None \<Rightarrow> None
           | Some (pa0, k1) \<Rightarrow>
               if pa0 = 0 then Some (- 1, k1)
               else case walk pagetable va0 False k1 of
                 None \<Rightarrow> None
               | Some (pte, _) \<Rightarrow>
                   if load64 (k_mem k1) pte AND PTE_W = 0 then Some (- 1, k1)
                   else
                     let n = chunk dstva len;
                         k2 = k1\<lparr>k_mem := write_bytes (k_mem k1) (unat (pa0 + (dstva - va0)))
                                   (mem_bytes src (uint n))\<rparr>
                     in copyout pagetable (va0 + PGSIZE) (drop (unat n) src) (len - n) k2)"
  by pat_completeness auto

termination
  by (relation "measure (\<lambda>(pt, va, src, len, k). unat len)") (auto simp: chunk_decreases)

declare copyout.simps [simp del]

text \<open>\<open>copyin\<close> and \<open>copyinstr\<close> return, besides the status, the bytes they stored at \<open>dst\<close>.\<close>

function copyin :: "u64 \<Rightarrow> u64 \<Rightarrow> u64 \<Rightarrow> kernel \<Rightarrow> (int \<times> char list \<times> kernel) option" where
  "copyin pagetable srcva len k =
     (if \<not> len > 0 then Some (0, [], k)
      else
        let va0 = PGROUNDDOWN srcva
        in case user_page pagetable va0 k of
             None \<Rightarrow> None
           | Some (pa0, k1) \<Rightarrow>
               if pa0 = 0 then Some (- 1, [], k1)
               else
                 let n = chunk srcva len;
                     bs = read_bytes (k_mem k1) (unat (pa0 + (srcva - va0))) (unat n)
                 in do { (r, rest, k2) \<leftarrow> copyin pagetable (va0 + PGSIZE) (len - n) k1;
                         Some (r, bs @ rest, k2) })"
  by pat_completeness auto

termination
  by (relation "measure (\<lambda>(pt, va, len, k). unat len)") (auto simp: chunk_decreases)

declare copyin.simps [simp del]

fun copy_nul :: "char list \<Rightarrow> char list \<times> bool" where
  "copy_nul [] = ([], False)"
| "copy_nul (c # cs) =
     (if c = NUL then ([NUL], True) else let (bs, got_null) = copy_nul cs in (c # bs, got_null))"

function copyinstr :: "u64 \<Rightarrow> u64 \<Rightarrow> u64 \<Rightarrow> kernel \<Rightarrow> int \<times> char list" where
  "copyinstr pagetable srcva mx k =
     (if \<not> mx > 0 then (- 1, [])
      else
        let va0 = PGROUNDDOWN srcva; pa0 = walkaddr pagetable va0 k
        in if pa0 = 0 then (- 1, [])
           else
             let n = chunk srcva mx;
                 (bs, got_null) = copy_nul (read_bytes (k_mem k) (unat (pa0 + (srcva - va0))) (unat n))
             in if got_null then (0, bs)
                else
                  let (r, rest) = copyinstr pagetable (va0 + PGSIZE) (mx - n) k
                  in (r, bs @ rest))"
  by pat_completeness auto

termination
  by (relation "measure (\<lambda>(pt, va, mx, k). unat mx)") (auto simp: chunk_decreases)

declare copyinstr.simps [simp del]

end
