(* ===== verification/Pagetable.thy ===== *)
theory Pagetable
  imports Vm
begin

text \<open>
  What a page table in memory means.  \<open>tab\<close> follows a path of indices from the root,
  \<open>leaf_pte\<close> is the entry that translates an address (0 when a table on the way is missing),
  and \<open>pt_wf\<close> says that the tables reached on different paths are different pages and none of
  them is free.  Under it \<open>walk\<close> and \<open>mappages\<close> act on \<open>leaf_pte\<close> as on a finite map.
\<close>

unbundle bit_operations_syntax

definition entry :: "memory \<Rightarrow> u64 \<Rightarrow> u64 \<Rightarrow> u64" where
  "entry m t i = load64 m (pte_addr t i)"

definition child :: "memory \<Rightarrow> u64 \<Rightarrow> u64 \<Rightarrow> u64 option" where
  "child m t i = (if entry m t i AND PTE_V \<noteq> 0 then Some (PTE2PA (entry m t i)) else None)"

fun tab :: "memory \<Rightarrow> u64 \<Rightarrow> u64 list \<Rightarrow> u64 option" where
  "tab m t [] = Some t"
| "tab m t (i # xs) = (case child m t i of None \<Rightarrow> None | Some p \<Rightarrow> tab m p xs)"

definition leaf :: "memory \<Rightarrow> u64 \<Rightarrow> u64 \<Rightarrow> u64 option" where
  "leaf m R va = map_option (\<lambda>t. pte_addr t (PX 0 va)) (tab m R [PX 2 va, PX 1 va])"

definition leaf_pte :: "kernel \<Rightarrow> u64 \<Rightarrow> u64 \<Rightarrow> u64" where
  "leaf_pte k R va =
     (case tab (k_mem k) R [PX 2 va, PX 1 va] of None \<Rightarrow> 0 | Some t \<Rightarrow> entry (k_mem k) t (PX 0 va))"

definition path :: "u64 list \<Rightarrow> bool" where
  "path xs \<longleftrightarrow> length xs \<le> 2 \<and> (\<forall>i \<in> set xs. i < 512)"

definition pt_wf :: "kernel \<Rightarrow> u64 list \<Rightarrow> u64 \<Rightarrow> bool" where
  "pt_wf k ps R \<longleftrightarrow>
     (\<forall>xs p. path xs \<longrightarrow> tab (k_mem k) R xs = Some p \<longrightarrow> page_ok k p \<and> p \<notin> set ps) \<and>
     (\<forall>xs ys p. path xs \<longrightarrow> path ys \<longrightarrow> tab (k_mem k) R xs = Some p \<longrightarrow>
        tab (k_mem k) R ys = Some p \<longrightarrow> xs = ys)"

section \<open>Bits\<close>

lemma PX_take_bit: "PX l va = take_bit 9 (drop_bit (9 * l) (drop_bit 12 va))"
  by (simp add: PX_def take_bit_eq_mask mask_eq_exp_minus_1 add.commute)

lemma PX_less [simp]: "PX l va < 512"
proof -
  have "unat (PX l va) < 2 ^ 9" unfolding PX_take_bit unsigned_take_bit_eq by (rule take_bit_nat_less_exp)
  then show ?thesis by (simp add: word_less_nat_alt)
qed

lemma bit_PX: "bit (PX l va) n \<longleftrightarrow> n < 9 \<and> bit va (n + 12 + 9 * l)"
  by (auto simp: PX_take_bit bit_take_bit_iff bit_drop_bit_eq ac_simps)

lemma bit_less_pow: "unat w < 2 ^ m \<Longrightarrow> m \<le> n \<Longrightarrow> \<not> bit w n"
proof -
  assume "unat w < 2 ^ m" "m \<le> n"
  then have "unat w < 2 ^ n" by (meson less_le_trans one_le_numeral power_increasing)
  then have "unat (drop_bit n w) = 0"
    unfolding unat_drop_bit_eq by (simp add: drop_bit_eq_div)
  then have "drop_bit n w = 0" by (metis unsigned_0 unsigned_word_eqI)
  then show ?thesis by (simp add: bit_iff_odd_drop_bit)
qed

lemma bit_aligned: "p mod PGSIZE = 0 \<Longrightarrow> n < 12 \<Longrightarrow> \<not> bit p n"
proof -
  assume "p mod PGSIZE = 0" "n < 12"
  then have "take_bit 12 p = 0" by (simp add: take_bit_eq_mod PGSIZE_def)
  then have "\<not> bit (take_bit 12 p) n" by simp
  then show ?thesis using \<open>n < 12\<close> by (simp add: bit_take_bit_iff)
qed

lemma bit_small: "f < 1024 \<Longrightarrow> 10 \<le> n \<Longrightarrow> \<not> bit (f :: u64) n"
  by (rule bit_less_pow [of f 10]) (simp_all add: word_less_nat_alt)

lemma PTE2PA_PA2PTE:
  assumes "p mod PGSIZE = 0" "f < 1024"
  shows "PTE2PA (PA2PTE p OR f) = p"
proof (rule bit_eqI)
  fix n
  assume "possible_bit TYPE(u64) n"
  then have n: "n < 64" by simp
  show "bit (PTE2PA (PA2PTE p OR f)) n = bit p n"
  proof (cases "n < 12")
    case True
    then show ?thesis using bit_aligned [OF assms(1) True]
      by (simp add: PTE2PA_def bit_simps)
  next
    case False
    then obtain m where m: "n = m + 12" by (metis add.commute le_iff_add not_less)
    then have "\<not> bit f (m + 10)" using bit_small [OF assms(2), of "m + 10"] by simp
    then show ?thesis using n unfolding m
      by (simp add: PTE2PA_def PA2PTE_def bit_push_bit_iff bit_drop_bit_eq bit_or_iff add.commute)
  qed
qed

lemma PA2PTE_valid [simp]: "(PA2PTE p OR PTE_V) AND PTE_V \<noteq> 0" "(PA2PTE p OR f OR PTE_V) AND PTE_V \<noteq> 0"
proof -
  have "bit ((PA2PTE p OR PTE_V) AND PTE_V) 0" "bit ((PA2PTE p OR f OR PTE_V) AND PTE_V) 0"
    by (simp_all add: PTE_V_def bit_simps)
  then show "(PA2PTE p OR PTE_V) AND PTE_V \<noteq> 0" "(PA2PTE p OR f OR PTE_V) AND PTE_V \<noteq> 0" by auto
qed

lemma PTE_V_less [simp]: "PTE_V < 1024" "PTE_V \<noteq> 0"
  by (simp_all add: PTE_V_def)

lemma bit_MAXVA: "va < MAXVA \<Longrightarrow> 38 \<le> n \<Longrightarrow> \<not> bit va n"
  by (rule bit_less_pow [of va 38]) (simp_all add: word_less_nat_alt MAXVA_def)

lemma PX_inj:
  assumes "a < MAXVA" "b < MAXVA"
  shows "(PX 2 a = PX 2 b \<and> PX 1 a = PX 1 b \<and> PX 0 a = PX 0 b) \<longleftrightarrow> drop_bit 12 a = drop_bit 12 b"
proof
  assume "drop_bit 12 a = drop_bit 12 b"
  then have "PX l a = PX l b" for l by (simp only: PX_take_bit)
  then show "PX 2 a = PX 2 b \<and> PX 1 a = PX 1 b \<and> PX 0 a = PX 0 b" by blast
next
  assume eq: "PX 2 a = PX 2 b \<and> PX 1 a = PX 1 b \<and> PX 0 a = PX 0 b"
  show "drop_bit 12 a = drop_bit 12 b"
  proof (rule bit_eqI)
    fix n
    have "bit a (n + 12) = bit b (n + 12)"
    proof -
      consider "n < 9" | "9 \<le> n" "n < 18" | "18 \<le> n" "n < 27" | "27 \<le> n" by linarith
      then show ?thesis
      proof cases
        case 1
        then show ?thesis using eq bit_PX [of 0 a n] bit_PX [of 0 b n] by simp
      next
        case 2
        define m where "m = n - 9"
        with 2 have "n = m + 9" "m < 9" by linarith+
        then show ?thesis using eq bit_PX [of 1 a m] bit_PX [of 1 b m] by (simp add: ac_simps)
      next
        case 3
        define m where "m = n - 18"
        with 3 have "n = m + 18" "m < 9" by linarith+
        then show ?thesis using eq bit_PX [of 2 a m] bit_PX [of 2 b m] by (simp add: ac_simps)
      next
        case 4
        then show ?thesis using bit_MAXVA [OF assms(1)] bit_MAXVA [OF assms(2)] by simp
      qed
    qed
    then show "bit (drop_bit 12 a) n = bit (drop_bit 12 b) n"
      by (simp add: bit_drop_bit_eq add.commute)
  qed
qed

section \<open>Entries of distinct pages\<close>

lemma unat_pte_addr:
  assumes "page_ok k t" "i < 512"
  shows "unat (pte_addr t i) = unat t + 8 * unat i"
proof -
  have "unat t < 0x88000000" using assms(1) by (simp add: page_ok_unat unat_PHYSTOP)
  moreover have "unat i < 512" using assms(2) by (simp add: word_less_nat_alt)
  ultimately show ?thesis by (simp add: pte_addr_def unat_word_ariths)
qed

lemma pte_addr_apart:
  assumes "page_ok k t" "page_ok k t'" "i < 512" "j < 512" "t \<noteq> t' \<or> i \<noteq> j"
  shows "apart64 (pte_addr t i) (pte_addr t' j)"
proof -
  have ij: "unat i < 512" "unat j < 512" using assms(3,4) by (simp_all add: word_less_nat_alt)
  show ?thesis
  proof (cases "t = t'")
    case True
    then have "unat i \<noteq> unat j" using assms(5) by (metis unsigned_word_eqI)
    then show ?thesis using True assms by (auto simp: apart64_def unat_pte_addr)
  next
    case False
    then have "unat t + 4096 \<le> unat t' \<or> unat t' + 4096 \<le> unat t"
      using assms(1,2) by (intro page_apart) (simp_all add: page_ok_def)
    then show ?thesis using ij assms by (auto simp: apart64_def unat_pte_addr)
  qed
qed

lemma entry_store:
  assumes "page_ok k t" "page_ok k t'" "i < 512" "j < 512"
  shows "entry (store64 m (pte_addr t i) v) t' j = (if t = t' \<and> i = j then v else entry m t' j)"
  using assms pte_addr_apart [OF assms]
  by (auto simp: entry_def load_store64 cell64.load_other)

lemma entry_cong_page:
  assumes "page_ok k t" "i < 512" "\<And>x. unat t \<le> x \<Longrightarrow> x < unat t + 4096 \<Longrightarrow> m' x = m x"
  shows "entry m' t i = entry m t i"
proof -
  have "unat i < 512" using assms(2) by (simp add: word_less_nat_alt)
  then have "read_bytes m' (unat (pte_addr t i)) 8 = read_bytes m (unat (pte_addr t i)) 8"
    using assms by (intro nth_equalityI) (auto simp: read_bytes_def unat_pte_addr)
  then show ?thesis by (simp add: entry_def load64_def)
qed

lemma entry_fill:
  assumes "page_ok k t" "page_ok k g" "i < 512"
  shows "entry (mem_fill m g NUL 4096) t i = (if t = g then 0 else entry m t i)"
proof (cases "t = g")
  case True
  have "unat i < 512" using assms(3) by (simp add: word_less_nat_alt)
  then have "read_bytes (mem_fill m g NUL 4096) (unat (pte_addr g i)) 8 = replicate 8 NUL"
    using assms by (intro read_fill) (simp_all add: unat_pte_addr)
  then show ?thesis using True by (simp add: entry_def load64_def numeral_eq_Suc)
next
  case False
  then have "unat t + 4096 \<le> unat g \<or> unat g + 4096 \<le> unat t"
    using assms(1,2) by (intro page_apart) (simp_all add: page_ok_def)
  then have "entry (mem_fill m g NUL 4096) t i = entry m t i"
    using assms by (intro entry_cong_page [of k]) (auto simp: mem_fill_out)
  then show ?thesis using False by simp
qed

section \<open>Paths\<close>

lemma tab_append: "tab m t (xs @ ys) = (case tab m t xs of None \<Rightarrow> None | Some p \<Rightarrow> tab m p ys)"
  by (induction xs arbitrary: t) (auto split: option.splits)

lemma path_butlast: "path (xs @ ys) \<Longrightarrow> path xs"
  by (simp add: path_def)

lemma path_snocI: "path xs \<Longrightarrow> length xs < 2 \<Longrightarrow> i < 512 \<Longrightarrow> path (xs @ [i])"
  by (simp add: path_def)

lemma path_Nil [simp]: "path []"
  by (simp add: path_def)

lemma path_leaf [simp]: "path [PX 2 va, PX 1 va]" "path [PX 2 va]"
  by (simp_all add: path_def)

lemma pt_wf_ok: "pt_wf k ps R \<Longrightarrow> path xs \<Longrightarrow> tab (k_mem k) R xs = Some p \<Longrightarrow> page_ok k p \<and> p \<notin> set ps"
  by (simp add: pt_wf_def)

lemma pt_wf_inj:
  "pt_wf k ps R \<Longrightarrow> path xs \<Longrightarrow> path ys \<Longrightarrow> tab (k_mem k) R xs = Some p \<Longrightarrow> tab (k_mem k) R ys = Some p \<Longrightarrow> xs = ys"
  unfolding pt_wf_def by blast

text \<open>Memory that keeps the entries of all tables but one keeps every path that avoids it.\<close>

lemma tab_cong:
  assumes "\<And>ys j zs t. xs = ys @ j # zs \<Longrightarrow> tab m R ys = Some t \<Longrightarrow> child m' t j = child m t j"
  shows "tab m' R xs = tab m R xs"
  using assms
proof (induction xs rule: rev_induct)
  case (snoc x xs)
  have "tab m' R xs = tab m R xs" using snoc.prems by (intro snoc.IH) (metis append.assoc append_Cons)
  then show ?case using snoc.prems [of xs x "[]"] by (auto simp: tab_append split: option.splits)
qed simp

lemma walk_loop_find:
  "walk_loop 2 R va False k = (case leaf (k_mem k) R va of None \<Rightarrow> 0 | Some a \<Rightarrow> a, k)"
  by (auto simp: numeral_2_eq_2 leaf_def child_def entry_def Let_def split: option.splits)

lemma leaf_pte_walk:
  assumes "pt_wf k ps R"
  shows "leaf (k_mem k) R va = Some a \<Longrightarrow> load64 (k_mem k) a = leaf_pte k R va"
    and "leaf (k_mem k) R va = None \<Longrightarrow> leaf_pte k R va = 0"
  by (auto simp: leaf_def leaf_pte_def entry_def split: option.splits)

text \<open>A leaf entry is never at address 0.\<close>

lemma leaf_nonzero:
  assumes "pt_wf k ps R" "kmem_inv k ps" "leaf (k_mem k) R va = Some a"
  shows "a \<noteq> 0"
proof -
  obtain t where t: "tab (k_mem k) R [PX 2 va, PX 1 va] = Some t" "a = pte_addr t (PX 0 va)"
    using assms(3) by (auto simp: leaf_def)
  then have ok: "page_ok k t" using pt_wf_ok [OF assms(1) path_leaf(1)] by blast
  then have "t \<noteq> 0" using assms(2) page_ok_nonzero by (auto simp: kmem_inv_def)
  then have "0 < unat t" by (metis gr0I unsigned_0 unsigned_word_eqI)
  then have "unat a \<noteq> 0" using t(2) unat_pte_addr [OF ok PX_less] by simp
  then show ?thesis by auto
qed

section \<open>Adding a table\<close>

text \<open>
  The effect of \<open>walk\<close> when it links a fresh zeroed page \<open>g\<close> into an invalid entry: one more
  path exists, every translation is unchanged.
\<close>

lemma add_table:
  assumes wf: "pt_wf k (g # ps) R" and g: "page_ok k g" "g \<notin> set ps"
    and xs: "path xs" "length xs < 2" "tab (k_mem k) R xs = Some t" and i: "i < 512"
    and free: "child (k_mem k) t i = None"
    and same: "page_ok k' = page_ok k"
    and ent: "\<And>t' j. page_ok k t' \<Longrightarrow> j < 512 \<Longrightarrow> entry (k_mem k') t' j =
        (if t' = t \<and> j = i then PA2PTE g OR PTE_V else if t' = g then 0 else entry (k_mem k) t' j)"
  shows "path ys \<Longrightarrow> tab (k_mem k') R ys = (if ys = xs @ [i] then Some g else tab (k_mem k) R ys)" (is "_ \<Longrightarrow> ?tab ys")
    and "pt_wf k' ps R" (is ?wf)
    and "leaf_pte k' R va = leaf_pte k R va" (is ?leaf)
proof -
  have gt: "g \<noteq> t" and okt: "page_ok k t" using pt_wf_ok [OF wf xs(1,3)] by auto
  have ch: "child (k_mem k') t' j = (if t' = t \<and> j = i then Some g else if t' = g then None else child (k_mem k) t' j)"
    if "page_ok k t'" "j < 512" for t' j
    using ent [OF that] g PTE2PA_PA2PTE [of g PTE_V] gt by (auto simp: child_def page_ok_def)
  have old: "tab (k_mem k') R ys = tab (k_mem k) R ys" if "path ys" "\<And>zs. ys \<noteq> xs @ i # zs" for ys
  proof (rule tab_cong)
    fix zs j ws t'
    assume z: "ys = zs @ j # ws" "tab (k_mem k) R zs = Some t'"
    have pz: "path (zs @ [j])" using that(1) z(1) by (simp add: path_def)
    then have ok: "page_ok k t'" "t' \<noteq> g" using pt_wf_ok [OF wf path_butlast [OF pz] z(2)] by auto
    have "\<not> (t' = t \<and> j = i)"
    proof
      assume "t' = t \<and> j = i"
      then have "zs = xs" using pt_wf_inj [OF wf path_butlast [OF pz] xs(1)] z(2) xs(3) by blast
      then show False using that(2) [of ws] z(1) \<open>t' = t \<and> j = i\<close> by simp
    qed
    then show "child (k_mem k') t' j = child (k_mem k) t' j"
      using ch [OF ok(1), of j] pz ok(2) by (auto simp: path_def)
  qed
  have "tab (k_mem k') R xs = tab (k_mem k) R xs" using xs by (intro old) auto
  then have new: "tab (k_mem k') R (xs @ [i]) = Some g" using xs(3) ch [OF okt i] by (simp add: tab_append)
  have gone: "tab (k_mem k) R (xs @ i # zs) = None" for zs using xs(3) free by (simp add: tab_append)
  have below: "tab (k_mem k') R (xs @ i # zs) = (if zs = [] then Some g else None)"
    if "path (xs @ i # zs)" for zs
  proof (cases zs)
    case (Cons j zs')
    have "j < 512" using that Cons by (simp add: path_def)
    then have "child (k_mem k') g j = None" using ch [OF g(1)] gt by simp
    then show ?thesis using new Cons tab_append [of "k_mem k'" R "xs @ [i]" zs] by simp
  qed (use new in simp)
  have tab': "?tab ys" if "path ys" for ys
    using old [OF that] below gone that by (cases "\<exists>zs. ys = xs @ i # zs") (auto split: if_splits)
  then show "path ys \<Longrightarrow> ?tab ys" .
  have gnew: "tab (k_mem k) R ys \<noteq> Some g" if "path ys" for ys
    using pt_wf_ok [OF wf that] by auto
  show ?wf unfolding pt_wf_def same
    using tab' gnew g wf unfolding pt_wf_def by (auto split: if_splits)
  show ?leaf
  proof (cases "[PX 2 va, PX 1 va] = xs @ [i]")
    case True
    then have "tab (k_mem k) R [PX 2 va, PX 1 va] = None" using gone [of "[]"] by (simp only: True)
    moreover have "entry (k_mem k') g (PX 0 va) = 0" using ent [OF g(1) PX_less] gt by simp
    moreover have "tab (k_mem k') R [PX 2 va, PX 1 va] = Some g"
      using new by (simp only: True)
    ultimately show ?thesis by (simp only: leaf_pte_def option.case)
  next
    case False
    have "entry (k_mem k') t' (PX 0 va) = entry (k_mem k) t' (PX 0 va)"
      if "tab (k_mem k) R [PX 2 va, PX 1 va] = Some t'" for t'
    proof -
      have "page_ok k t'" "t' \<noteq> g" using pt_wf_ok [OF wf path_leaf(1) that] by auto
      moreover have "t' \<noteq> t" using pt_wf_inj [OF wf path_leaf(1) xs(1) that] xs(2,3) by auto
      ultimately show ?thesis using ent [OF _ PX_less] by simp
    qed
    moreover have "tab (k_mem k') R [PX 2 va, PX 1 va] = tab (k_mem k) R [PX 2 va, PX 1 va]"
      using tab' [OF path_leaf(1), of va] by (simp only: False if_False)
    ultimately show ?thesis
      by (cases "tab (k_mem k) R [PX 2 va, PX 1 va]") (simp_all only: leaf_pte_def option.case)
  qed
qed

section \<open>\<open>walk\<close> with allocation\<close>

definition is_table :: "kernel \<Rightarrow> u64 \<Rightarrow> u64 \<Rightarrow> bool" where
  "is_table k R q \<longleftrightarrow> (\<exists>xs. path xs \<and> tab (k_mem k) R xs = Some q)"

text \<open>
  What an operation on the table rooted at \<open>R\<close> leaves alone: everything but memory and the
  free list, and the contents of every page that was neither free nor a table.
\<close>

definition vm_frame :: "kernel \<Rightarrow> u64 list \<Rightarrow> u64 \<Rightarrow> kernel \<Rightarrow> u64 list \<Rightarrow> bool" where
  "vm_frame k ps R k' ps' \<longleftrightarrow>
     k' = k\<lparr>k_mem := k_mem k', k_freelist := k_freelist k'\<rparr> \<and> set ps' \<subseteq> set ps \<and>
     (\<forall>q. page_ok k q \<longrightarrow> q \<notin> set ps \<longrightarrow> \<not> is_table k R q \<longrightarrow>
        \<not> is_table k' R q \<and> (\<forall>x. unat q \<le> x \<longrightarrow> x < unat q + 4096 \<longrightarrow> k_mem k' x = k_mem k x))"

lemma vm_frame_refl: "vm_frame k ps R k ps"
  unfolding vm_frame_def by simp

lemma vm_upd_upd:
  "k'\<lparr>k_mem := m, k_freelist := f\<rparr> = k\<lparr>k_mem := m, k_freelist := f\<rparr>"
  if "k' = k\<lparr>k_mem := m', k_freelist := f'\<rparr>"
  using that by simp

lemma vm_frame_page_ok: "vm_frame k ps R k' ps' \<Longrightarrow> page_ok k' = page_ok k"
proof -
  assume "vm_frame k ps R k' ps'"
  then have "k_end k' = k_end (k\<lparr>k_mem := k_mem k', k_freelist := k_freelist k'\<rparr>)"
    unfolding vm_frame_def by metis
  then show ?thesis by (auto simp: page_ok_def)
qed

lemma vm_frame_trans:
  assumes "vm_frame k ps R k' ps'" "vm_frame k' ps' R k2 ps2"
  shows "vm_frame k ps R k2 ps2"
proof -
  have "page_ok k' = page_ok k" by (rule vm_frame_page_ok [OF assms(1)])
  moreover have "k2 = k\<lparr>k_mem := k_mem k2, k_freelist := k_freelist k2\<rparr>"
    using assms unfolding vm_frame_def by (metis vm_upd_upd)
  ultimately show ?thesis using assms unfolding vm_frame_def by (metis subset_iff)
qed

lemma walk_new_table:
  assumes inv: "kmem_inv k (g # ps)" and wf: "pt_wf k (g # ps) R"
    and xs: "path xs" "length xs < 2" "tab (k_mem k) R xs = Some t" and i: "i < 512"
    and free: "child (k_mem k) t i = None"
    and k': "k' = k\<lparr>k_freelist := load64 (k_mem k) g,
        k_mem := store64 (mem_fill (mem_fill (k_mem k) g (CHR 0x05) 4096) g NUL 4096) (pte_addr t i)
                   (PA2PTE g OR PTE_V)\<rparr>"
  shows "kmem_inv k' ps" "pt_wf k' ps R" "tab (k_mem k') R (xs @ [i]) = Some g"
    "leaf_pte k' R va = leaf_pte k R va" "vm_frame k (g # ps) R k' ps"
    "path ys \<Longrightarrow> tab (k_mem k') R ys = (if ys = xs @ [i] then Some g else tab (k_mem k) R ys)"
proof -
  have g: "page_ok k g" "g \<notin> set ps" using inv by (auto simp: kmem_inv_def)
  have t: "page_ok k t" "t \<notin> set (g # ps)" using pt_wf_ok [OF wf xs(1,3)] by auto
  have ok: "page_ok k' = page_ok k" by (auto simp: page_ok_def k')
  have ent: "entry (k_mem k') t' j =
      (if t' = t \<and> j = i then PA2PTE g OR PTE_V else if t' = g then 0 else entry (k_mem k) t' j)"
    if "page_ok k t'" "j < 512" for t' j
  proof -
    have "unat g + 4096 \<le> unat t' \<or> unat t' + 4096 \<le> unat g" if "t' \<noteq> g"
      using page_apart [of g t'] that g(1) \<open>page_ok k t'\<close> by (auto simp: page_ok_def)
    then have "entry (mem_fill (k_mem k) g (CHR 0x05) 4096) t' j = entry (k_mem k) t' j" if "t' \<noteq> g"
      using that \<open>page_ok k t'\<close> \<open>j < 512\<close> by (intro entry_cong_page [of k]) (auto simp: mem_fill_out)
    then show ?thesis using that t(1) g(1) i by (auto simp: k' entry_store entry_fill)
  qed
  have add1: "path ys \<Longrightarrow> tab (k_mem k') R ys = (if ys = xs @ [i] then Some g else tab (k_mem k) R ys)" for ys
    by (rule add_table(1) [OF wf g xs i free ok]) (use ent in auto)
  show "path ys \<Longrightarrow> tab (k_mem k') R ys = (if ys = xs @ [i] then Some g else tab (k_mem k) R ys)" by (rule add1)
  show "pt_wf k' ps R" by (rule add_table(2) [OF wf g xs i free ok]) (use ent in auto)
  show "leaf_pte k' R va = leaf_pte k R va"
    by (rule add_table(3) [OF wf g xs i free ok]) (use ent in auto)
  show "tab (k_mem k') R (xs @ [i]) = Some g" using add1 [OF path_snocI [OF xs(1,2) i]] by simp
  have i512: "unat i < 512" using i by (simp add: word_less_nat_alt)
  have out: "k_mem k' x = k_mem k x"
    if "x < unat g \<or> unat g + 4096 \<le> x" "x < unat t \<or> unat t + 4096 \<le> x" for x
  proof -
    have "x < unat (pte_addr t i) \<or> unat (pte_addr t i) + 8 \<le> x"
      using that(2) i512 unat_pte_addr [OF t(1) i] by linarith
    then show ?thesis using that(1) by (simp add: k' store64_out mem_fill_out)
  qed
  have c: "free_chain (k_mem k) (load64 (k_mem k) g) ps" "\<forall>q \<in> set ps. page_ok k q"
    using inv by (simp_all add: kmem_inv_def)
  have "free_chain (mem_fill (mem_fill (k_mem k) g (CHR 0x05) 4096) g NUL 4096) (load64 (k_mem k) g) ps"
    by (rule free_chain_other [OF c g]) (simp add: mem_fill_out)
  then have "free_chain (k_mem k') (load64 (k_mem k) g) ps"
    by (rule free_chain_other [OF _ c(2) t(1)])
      (use t(2) i512 unat_pte_addr [OF t(1) i] in \<open>auto simp: k' store64_out\<close>)
  then show "kmem_inv k' ps" using inv unfolding kmem_inv_def ok by (auto simp: k')
  show "vm_frame k (g # ps) R k' ps"
    unfolding vm_frame_def
  proof (intro conjI allI impI)
    show "k' = k\<lparr>k_mem := k_mem k', k_freelist := k_freelist k'\<rparr>" by (simp add: k')
  next
    fix q
    assume q: "page_ok k q" "q \<notin> set (g # ps)" "\<not> is_table k R q"
    have ap: "unat g + 4096 \<le> unat q \<or> unat q + 4096 \<le> unat g" "unat t + 4096 \<le> unat q \<or> unat q + 4096 \<le> unat t"
      using page_apart [of g q] page_apart [of t q] q g(1) t(1) xs(1,3)
      by (auto simp: page_ok_def is_table_def)
    show "k_mem k' x = k_mem k x" if "unat q \<le> x" "x < unat q + 4096" for x
      using ap that by (intro out) linarith+
    show "\<not> is_table k' R q"
    proof
      assume "is_table k' R q"
      then obtain ys where ys: "path ys" "tab (k_mem k') R ys = Some q" by (auto simp: is_table_def)
      have "tab (k_mem k') R ys = (if ys = xs @ [i] then Some g else tab (k_mem k) R ys)"
        by (rule add1 [OF ys(1)])
      then show False using ys q by (auto simp: is_table_def split: if_splits)
    qed
  qed auto
qed

text \<open>
  \<open>walk\<close> with \<open>alloc\<close>, from any level: it keeps the allocator, the table's shape and every
  translation, and returns the leaf entry's address, or 0 only when memory has run out.
\<close>

lemma walk_loop_alloc:
  assumes "kmem_inv k ps" "pt_wf k ps R" "xs = take (2 - l) [PX 2 va, PX 1 va]" "l \<le> 2"
    "tab (k_mem k) R xs = Some t"
  shows "\<exists>a k' ps'. walk_loop l t va True k = (a, k') \<and> kmem_inv k' ps' \<and> pt_wf k' ps' R \<and>
    vm_frame k ps R k' ps' \<and> (\<forall>x. leaf_pte k' R x = leaf_pte k R x) \<and>
    (if a = 0 then ps' = [] else leaf (k_mem k') R va = Some a)"
  using assms
proof (induction l arbitrary: k ps xs t)
  case 0
  then have leaf: "leaf (k_mem k) R va = Some (pte_addr t (PX 0 va))" by (simp add: leaf_def)
  then show ?case using 0 leaf_nonzero [OF "0.prems"(2,1) leaf] vm_frame_refl by auto
next
  case (Suc l)
  let ?i = "PX (Suc l) va"
  from Suc.prems(4) consider "l = 0" | "l = 1" by linarith
  then have xs: "path xs" "length xs < 2" "xs @ [?i] = take (2 - l) [PX 2 va, PX 1 va]"
    using Suc.prems(3) by (cases; simp add: path_def numeral_2_eq_2)+
  note t = Suc.prems(5)
  show ?case
  proof (cases "child (k_mem k) t ?i")
    case (Some p)
    then have "tab (k_mem k) R (xs @ [?i]) = Some p" using t by (simp add: tab_append)
    then have "\<exists>a k' ps'. walk_loop l p va True k = (a, k') \<and> kmem_inv k' ps' \<and> pt_wf k' ps' R \<and>
        vm_frame k ps R k' ps' \<and> (\<forall>x. leaf_pte k' R x = leaf_pte k R x) \<and>
        (if a = 0 then ps' = [] else leaf (k_mem k') R va = Some a)"
      using Suc.prems(4) by (intro Suc.IH [OF Suc.prems(1,2) xs(3)]) simp_all
    moreover have "walk_loop (Suc l) t va True k = walk_loop l p va True k"
      using Some by (simp add: child_def entry_def Let_def split: if_splits)
    ultimately show ?thesis by simp
  next
    case None
    then have inval: "load64 (k_mem k) (pte_addr t ?i) AND PTE_V = 0"
      by (simp add: child_def entry_def split: if_splits)
    show ?thesis
    proof (cases ps)
      case Nil
      then have "walk_loop (Suc l) t va True k = (0, k)"
        using inval kalloc_empty Suc.prems(1) by (simp add: Let_def)
      then show ?thesis using Nil Suc.prems(1,2) vm_frame_refl by auto
    next
      case (Cons g ps1)
      define k1 where "k1 = k\<lparr>k_freelist := load64 (k_mem k) g,
        k_mem := store64 (mem_fill (mem_fill (k_mem k) g (CHR 0x05) 4096) g NUL 4096) (pte_addr t ?i)
                   (PA2PTE g OR PTE_V)\<rparr>"
      note new = walk_new_table [OF Suc.prems(1,2) [unfolded Cons] xs(1,2) t PX_less None k1_def]
      have g0: "g \<noteq> 0" using Suc.prems(1) Cons kmem.inv_pages by auto
      have "walk_loop (Suc l) t va True k = walk_loop l g va True k1"
        using inval g0 kalloc_page(1) [OF Suc.prems(1) [unfolded Cons]]
        by (simp add: Let_def k1_def)
      moreover obtain a k' ps' where r: "walk_loop l g va True k1 = (a, k')" "kmem_inv k' ps'"
        "pt_wf k' ps' R" "vm_frame k1 ps1 R k' ps'" "\<forall>x. leaf_pte k' R x = leaf_pte k1 R x"
        "if a = 0 then ps' = [] else leaf (k_mem k') R va = Some a"
        using Suc.prems(4) Suc.IH [OF new(1,2) xs(3) _ new(3)] by auto
      moreover have "vm_frame k ps R k' ps'" using vm_frame_trans [OF new(5) r(4)] Cons by simp
      ultimately show ?thesis using new(4) by (intro exI [of _ a] exI [of _ k'] exI [of _ ps']) simp
    qed
  qed
qed

section \<open>Storing a leaf entry\<close>

lemma store_leaf:
  assumes inv: "kmem_inv k ps" and wf: "pt_wf k ps R" and a: "leaf (k_mem k) R va = Some a"
    and va: "va < MAXVA" and k': "k' = k\<lparr>k_mem := store64 (k_mem k) a v\<rparr>"
  shows "kmem_inv k' ps" "pt_wf k' ps R" "vm_frame k ps R k' ps"
    "x < MAXVA \<Longrightarrow> leaf_pte k' R x = (if drop_bit 12 x = drop_bit 12 va then v else leaf_pte k R x)"
    "path ys \<Longrightarrow> tab (k_mem k') R ys = tab (k_mem k) R ys"
proof -
  obtain t where t: "tab (k_mem k) R [PX 2 va, PX 1 va] = Some t" and at: "a = pte_addr t (PX 0 va)"
    using a by (auto simp: leaf_def)
  have okt: "page_ok k t" "t \<notin> set ps" using pt_wf_ok [OF wf path_leaf(1) t] by auto
  have ok: "page_ok k' = page_ok k" by (auto simp: page_ok_def k')
  have ent: "entry (k_mem k') t' j = (if t' = t \<and> j = PX 0 va then v else entry (k_mem k) t' j)"
    if "page_ok k t'" "j < 512" for t' j
    using entry_store [OF okt(1) that(1) PX_less that(2)] by (simp add: k' at)
  have tab: "tab (k_mem k') R ys = tab (k_mem k) R ys" if "path ys" for ys
  proof (rule tab_cong)
    fix zs j ws t'
    assume z: "ys = zs @ j # ws" "tab (k_mem k) R zs = Some t'"
    have pz: "path zs" "length zs < 2" "j < 512" using that z(1) by (auto simp: path_def)
    then have "page_ok k t'" "t' \<noteq> t"
      using pt_wf_ok [OF wf pz(1) z(2)] pt_wf_inj [OF wf pz(1) path_leaf(1) z(2)] t by fastforce+
    then show "child (k_mem k') t' j = child (k_mem k) t' j" using ent pz(3) by (simp add: child_def)
  qed
  show "path ys \<Longrightarrow> tab (k_mem k') R ys = tab (k_mem k) R ys" by (rule tab)
  show "pt_wf k' ps R" using wf tab unfolding pt_wf_def ok by simp
  have out: "k_mem k' y = k_mem k y" if "y < unat t \<or> unat t + 4096 \<le> y" for y
  proof -
    have "unat (PX 0 va) < 512" using PX_less [of 0 va] by (simp add: word_less_nat_alt)
    then have "y < unat a \<or> unat a + 8 \<le> y"
      using that unat_pte_addr [OF okt(1) PX_less] at by force
    then show ?thesis by (simp add: k' store64_out)
  qed
  have c: "free_chain (k_mem k) (k_freelist k) ps" "\<forall>q \<in> set ps. page_ok k q"
    using inv by (simp_all add: kmem_inv_def)
  have "free_chain (k_mem k') (k_freelist k) ps" by (rule free_chain_other [OF c okt]) (rule out)
  then show "kmem_inv k' ps" using inv unfolding kmem_inv_def ok by (simp add: k')
  show "vm_frame k ps R k' ps" unfolding vm_frame_def
  proof (intro conjI allI impI)
    fix q y
    assume q: "page_ok k q" "\<not> is_table k R q" "unat q \<le> y" "y < unat q + 4096"
    have "t \<noteq> q" using q(2) t path_leaf(1) unfolding is_table_def by blast
    then have "unat t + 4096 \<le> unat q \<or> unat q + 4096 \<le> unat t"
      using page_apart [of t q] okt(1) q(1) by (auto simp: page_ok_def)
    then show "k_mem k' y = k_mem k y" using q by (intro out) linarith
  next
    fix q
    assume "\<not> is_table k R q"
    then show "\<not> is_table k' R q" using tab unfolding is_table_def by auto
  qed (auto simp: k')
  show "leaf_pte k' R x = (if drop_bit 12 x = drop_bit 12 va then v else leaf_pte k R x)"
    if x: "x < MAXVA"
  proof (cases "tab (k_mem k) R [PX 2 x, PX 1 x]")
    case None
    moreover have "\<not> drop_bit 12 x = drop_bit 12 va" using PX_inj [OF x va] t None by (metis option.distinct(1))
    ultimately show ?thesis using tab [OF path_leaf(1), of x] by (simp add: leaf_pte_def del: tab.simps)
  next
    case (Some u)
    have oku: "page_ok k u" using pt_wf_ok [OF wf path_leaf(1) Some] by blast
    have "u = t \<and> PX 0 x = PX 0 va \<longleftrightarrow> drop_bit 12 x = drop_bit 12 va"
      using PX_inj [OF x va] Some t pt_wf_inj [OF wf path_leaf(1) path_leaf(1) Some, of va]
      by (metis list.inject option.inject)
    then show ?thesis using tab [OF path_leaf(1), of x] Some ent [OF oku PX_less]
      by (auto simp: leaf_pte_def simp del: tab.simps)
  qed
qed

section \<open>\<open>mappages\<close>\<close>

definition map_step :: "kernel \<Rightarrow> u64 list \<Rightarrow> u64 \<Rightarrow> u64 \<Rightarrow> u64 \<Rightarrow> kernel \<Rightarrow> bool" where
  "map_step k ps R va pte k2 \<longleftrightarrow>
     (\<exists>ps2. kmem_inv k2 ps2 \<and> pt_wf k2 ps2 R \<and> vm_frame k ps R k2 ps2 \<and>
        (\<forall>x < MAXVA. leaf_pte k2 R x = (if drop_bit 12 x = drop_bit 12 va then pte else leaf_pte k R x)))"

lemma mappages_one:
  assumes inv: "kmem_inv k ps" and wf: "pt_wf k ps R" and a: "a < MAXVA"
    and unmapped: "leaf_pte k R a AND PTE_V = 0"
  shows "(\<exists>k' ps'. walk R a True k = Some (0, k') \<and> ps' = [] \<and> kmem_inv k' ps' \<and> pt_wf k' ps' R \<and>
           vm_frame k ps R k' ps' \<and> (\<forall>x. leaf_pte k' R x = leaf_pte k R x)) \<or>
    (\<exists>pte k'. walk R a True k = Some (pte, k') \<and> pte \<noteq> 0 \<and> load64 (k_mem k') pte AND PTE_V = 0 \<and>
       map_step k ps R a v (k'\<lparr>k_mem := store64 (k_mem k') pte v\<rparr>))"
proof -
  obtain p k' ps' where w: "walk_loop 2 R a True k = (p, k')" and i: "kmem_inv k' ps'" "pt_wf k' ps' R"
    and f: "vm_frame k ps R k' ps'" and l: "\<forall>x. leaf_pte k' R x = leaf_pte k R x"
    and r: "if p = 0 then ps' = [] else leaf (k_mem k') R a = Some p"
    using walk_loop_alloc [OF inv wf, of "[]" 2 a R] by auto
  have walk: "walk R a True k = Some (p, k')" using a w by (simp add: walk_def not_le [symmetric])
  show ?thesis
  proof (cases "p = 0")
    case True
    then show ?thesis using walk i f l r by auto
  next
    case False
    then have leaf: "leaf (k_mem k') R a = Some p" using r by simp
    let ?k = "k'\<lparr>k_mem := store64 (k_mem k') p v\<rparr>"
    have "leaf_pte ?k R x = (if drop_bit 12 x = drop_bit 12 a then v else leaf_pte k R x)"
      if "x < MAXVA" for x using store_leaf(4) [OF i leaf a refl that] l by simp
    moreover have "kmem_inv ?k ps'" by (rule store_leaf(1) [OF i leaf a refl])
    moreover have "pt_wf ?k ps' R" by (rule store_leaf(2) [OF i leaf a refl])
    moreover have "vm_frame k ps R ?k ps'" by (rule vm_frame_trans [OF f store_leaf(3) [OF i leaf a refl]])
    ultimately have "map_step k ps R a v ?k" unfolding map_step_def by blast
    moreover have "load64 (k_mem k') p AND PTE_V = 0"
      using leaf_pte_walk(1) [OF i(2) leaf] l unmapped by simp
    ultimately show ?thesis using walk False by blast
  qed
qed

lemma unat_MAXVA: "unat MAXVA = 2 ^ 38"
  by (simp add: MAXVA_def)

lemma unat_page_number: "unat (drop_bit 12 x) = unat x div 4096"
  unfolding unat_drop_bit_eq by (simp add: drop_bit_eq_div)

lemma page_number_eq:
  assumes "a mod PGSIZE = 0" "a < MAXVA"
  shows "drop_bit 12 x = drop_bit 12 a \<longleftrightarrow> unat a \<le> unat x \<and> unat x < unat a + 4096"
proof -
  have "unat (drop_bit 12 x) = unat x div 4096" "unat (drop_bit 12 a) = unat a div 4096"
    by (rule unat_page_number)+
  then have "drop_bit 12 x = drop_bit 12 a \<longleftrightarrow> unat x div 4096 = unat a div 4096"
    by (metis unsigned_word_eqI)
  moreover obtain c where "unat a = 4096 * c"
    using assms(1) unfolding aligned_unat by (metis dvdE mod_0_imp_dvd)
  moreover obtain q r where "unat x = 4096 * q + r" "r < 4096" "unat x div 4096 = q"
    using mult_div_mod_eq [of 4096 "unat x"] mod_less_divisor [of 4096 "unat x"] by (metis zero_less_numeral)
  ultimately show ?thesis by auto
qed

text \<open>The entry that \<open>mappages\<close> puts at the page of \<open>x\<close> when it maps \<open>va\<close> to \<open>pa\<close>.\<close>

definition mapped_pte :: "u64 \<Rightarrow> u64 \<Rightarrow> u64 \<Rightarrow> u64 \<Rightarrow> u64" where
  "mapped_pte va pa perm x = PA2PTE (pa + (PGROUNDDOWN x - va)) OR perm OR PTE_V"

lemma mapped_pte_page:
  assumes "a mod PGSIZE = 0" "drop_bit 12 x = drop_bit 12 a"
  shows "mapped_pte a pa perm x = PA2PTE pa OR perm OR PTE_V"
proof -
  have "unat (drop_bit 12 x) = unat x div 4096" "unat (drop_bit 12 a) = unat a div 4096"
    by (rule unat_page_number)+
  then have "unat x div 4096 = unat a div 4096" using assms(2) by simp
  then have "unat (PGROUNDDOWN x) = unat (PGROUNDDOWN a)" by (simp add: unat_PGROUNDDOWN)
  then have "PGROUNDDOWN x = a" using assms(1)
    by (metis PGROUNDDOWN_mod diff_zero unsigned_word_eqI)
  then show ?thesis by (simp add: mapped_pte_def)
qed

definition map_range :: "kernel \<Rightarrow> u64 list \<Rightarrow> u64 \<Rightarrow> u64 \<Rightarrow> nat \<Rightarrow> u64 \<Rightarrow> u64 \<Rightarrow> int \<times> kernel \<Rightarrow> bool" where
  "map_range k ps R a n pa perm rk \<longleftrightarrow>
     (\<exists>ps'. kmem_inv (snd rk) ps' \<and> pt_wf (snd rk) ps' R \<and> vm_frame k ps R (snd rk) ps' \<and>
        (fst rk = 0 \<and> (\<forall>x < MAXVA. leaf_pte (snd rk) R x =
            (if unat a \<le> unat x \<and> unat x < unat a + 4096 * n then mapped_pte a pa perm x
             else leaf_pte k R x)) \<or>
         fst rk = - 1 \<and> ps' = []))"

lemma map_range_fail:
  assumes "kmem_inv k' []" "pt_wf k' [] R" "vm_frame k ps R k' []"
  shows "map_range k ps R a n pa perm (- 1, k')"
  using assms unfolding map_range_def by (intro exI [of _ "[]"]) simp

lemma map_range_one:
  assumes st: "map_step k ps R a (PA2PTE pa OR perm OR PTE_V) k2" and a: "a mod PGSIZE = 0" "a < MAXVA"
  shows "map_range k ps R a (Suc 0) pa perm (0, k2)"
proof -
  obtain ps2 where p: "kmem_inv k2 ps2" "pt_wf k2 ps2 R" "vm_frame k ps R k2 ps2"
    "\<forall>x < MAXVA. leaf_pte k2 R x = (if drop_bit 12 x = drop_bit 12 a then PA2PTE pa OR perm OR PTE_V else leaf_pte k R x)"
    using st by (auto simp: map_step_def)
  have "leaf_pte k2 R x = (if unat a \<le> unat x \<and> unat x < unat a + 4096 * Suc 0 then mapped_pte a pa perm x
      else leaf_pte k R x)" if "x < MAXVA" for x
    using p(4) that page_number_eq [OF a, of x] mapped_pte_page [OF a(1), of x] by simp
  then show ?thesis using p(1-3) unfolding map_range_def by auto
qed

lemma map_range_step:
  assumes st: "map_step k ps R a (PA2PTE pa OR perm OR PTE_V) k2" and a: "a mod PGSIZE = 0" "a < MAXVA"
    and rest: "\<And>ps2. kmem_inv k2 ps2 \<Longrightarrow> pt_wf k2 ps2 R \<Longrightarrow> map_range k2 ps2 R (a + PGSIZE) n (pa + PGSIZE) perm rk"
  shows "map_range k ps R a (Suc n) pa perm rk"
proof -
  obtain ps2 where p: "kmem_inv k2 ps2" "pt_wf k2 ps2 R" "vm_frame k ps R k2 ps2"
    "\<forall>x < MAXVA. leaf_pte k2 R x = (if drop_bit 12 x = drop_bit 12 a then PA2PTE pa OR perm OR PTE_V else leaf_pte k R x)"
    using st by (auto simp: map_step_def)
  obtain ps' where q: "kmem_inv (snd rk) ps'" "pt_wf (snd rk) ps' R" "vm_frame k2 ps2 R (snd rk) ps'"
    "fst rk = 0 \<and> (\<forall>x < MAXVA. leaf_pte (snd rk) R x =
            (if unat (a + PGSIZE) \<le> unat x \<and> unat x < unat (a + PGSIZE) + 4096 * n
             then mapped_pte (a + PGSIZE) (pa + PGSIZE) perm x else leaf_pte k2 R x)) \<or>
     fst rk = - 1 \<and> ps' = []"
    using rest [OF p(1,2)] unfolding map_range_def by blast
  have shift: "mapped_pte (a + PGSIZE) (pa + PGSIZE) perm x = mapped_pte a pa perm x" for x
    by (simp add: mapped_pte_def)
  have "leaf_pte (snd rk) R x = (if unat a \<le> unat x \<and> unat x < unat a + 4096 * Suc n
      then mapped_pte a pa perm x else leaf_pte k R x)" if "x < MAXVA" "fst rk = 0" for x
  proof -
    have "leaf_pte (snd rk) R x =
            (if unat a + 4096 \<le> unat x \<and> unat x < unat a + 4096 + 4096 * n
             then mapped_pte a pa perm x else leaf_pte k2 R x)"
      using q(4) that by (simp add: va_step [OF a(2)] shift)
    then show ?thesis
      using p(4) that(1) page_number_eq [OF a, of x] mapped_pte_page [OF a(1), of x] by auto
  qed
  then show ?thesis using q vm_frame_trans [OF p(3) q(3)] unfolding map_range_def by blast
qed

lemma mappages_loop_spec:
  assumes "kmem_inv k ps" "pt_wf k ps R" "a mod PGSIZE = 0"
    "unat a + 4096 * Suc n \<le> unat MAXVA" "final = a + of_nat n * PGSIZE"
    "\<And>x. unat a \<le> unat x \<Longrightarrow> unat x < unat a + 4096 * Suc n \<Longrightarrow> leaf_pte k R x AND PTE_V = 0"
  shows "\<exists>rk. mappages_loop R a final pa perm k = Some rk \<and> map_range k ps R a (Suc n) pa perm rk"
  using assms
proof (induction n arbitrary: k ps a pa)
  case 0
  then have a: "a < MAXVA" by (simp add: word_less_nat_alt)
  have "leaf_pte k R a AND PTE_V = 0" using "0.prems"(6) [of a] by simp
  from mappages_one [OF "0.prems"(1,2) a this, of "PA2PTE pa OR perm OR PTE_V"]
  show ?case
  proof (elim disjE exE conjE)
    fix k' ps'
    assume w: "walk R a True k = Some (0, k')" "ps' = []" "kmem_inv k' ps'" "pt_wf k' ps' R"
      "vm_frame k ps R k' ps'"
    have "mappages_loop R a final pa perm k = Some (- 1, k')"
      by (subst mappages_loop.simps) (simp add: w(1))
    then show ?thesis using map_range_fail w by blast
  next
    fix pte k'
    assume w: "walk R a True k = Some (pte, k')" "pte \<noteq> 0" "load64 (k_mem k') pte AND PTE_V = 0"
      and st: "map_step k ps R a (PA2PTE pa OR perm OR PTE_V)
        (k'\<lparr>k_mem := store64 (k_mem k') pte (PA2PTE pa OR perm OR PTE_V)\<rparr>)"
    have "final = a" using "0.prems"(5) by simp
    then have "mappages_loop R a final pa perm k =
        Some (0, k'\<lparr>k_mem := store64 (k_mem k') pte (PA2PTE pa OR perm OR PTE_V)\<rparr>)"
      by (subst mappages_loop.simps) (simp add: w Let_def)
    then show ?thesis using map_range_one [OF st "0.prems"(3) a] by blast
  qed
next
  case (Suc n)
  then have a: "a < MAXVA" by (simp add: word_less_nat_alt)
  have "leaf_pte k R a AND PTE_V = 0" using Suc.prems(6) [of a] by simp
  from mappages_one [OF Suc.prems(1,2) a this, of "PA2PTE pa OR perm OR PTE_V"]
  show ?case
  proof (elim disjE exE conjE)
    fix k' ps'
    assume w: "walk R a True k = Some (0, k')" "ps' = []" "kmem_inv k' ps'" "pt_wf k' ps' R"
      "vm_frame k ps R k' ps'"
    have "mappages_loop R a final pa perm k = Some (- 1, k')"
      by (subst mappages_loop.simps) (simp add: w(1))
    then show ?thesis using map_range_fail w by blast
  next
    fix pte k'
    assume w: "walk R a True k = Some (pte, k')" "pte \<noteq> 0" "load64 (k_mem k') pte AND PTE_V = 0"
    let ?k = "k'\<lparr>k_mem := store64 (k_mem k') pte (PA2PTE pa OR perm OR PTE_V)\<rparr>"
    assume st: "map_step k ps R a (PA2PTE pa OR perm OR PTE_V) ?k"
    have up: "unat (a + PGSIZE) = unat a + 4096" by (rule va_step [OF a])
    obtain ps2 where i: "kmem_inv ?k ps2" "pt_wf ?k ps2 R"
      and l: "\<forall>x < MAXVA. leaf_pte ?k R x =
        (if drop_bit 12 x = drop_bit 12 a then PA2PTE pa OR perm OR PTE_V else leaf_pte k R x)"
      using st by (auto simp: map_step_def)
    have free: "leaf_pte ?k R x AND PTE_V = 0"
      if "unat (a + PGSIZE) \<le> unat x" "unat x < unat (a + PGSIZE) + 4096 * Suc n" for x
    proof -
      have "x < MAXVA" using that(2) up Suc.prems(4) by (simp add: word_less_nat_alt)
      moreover have "drop_bit 12 x \<noteq> drop_bit 12 a"
        using page_number_eq [OF Suc.prems(3) a, of x] that(1) up by simp
      ultimately show ?thesis using l that up Suc.prems(6) [of x] by simp
    qed
    have fin: "final = (a + PGSIZE) + of_nat n * PGSIZE" using Suc.prems(5) by (simp add: algebra_simps)
    have al: "(a + PGSIZE) mod PGSIZE = 0" using Suc.prems(3) by (simp add: aligned_unat up)
    have le: "unat (a + PGSIZE) + 4096 * Suc n \<le> unat MAXVA" using Suc.prems(4) up by simp
    have "a \<noteq> final"
    proof
      assume "a = final"
      then have "of_nat (Suc n) * PGSIZE = 0" using Suc.prems(5) by simp
      then have "(of_nat (4096 * Suc n) :: u64) = 0" by (simp add: PGSIZE_def algebra_simps)
      moreover have "unat (of_nat (4096 * Suc n) :: u64) = 4096 * Suc n"
        unfolding unat_of_nat using Suc.prems(4) by (simp add: unat_MAXVA)
      ultimately show False by simp
    qed
    then have step: "mappages_loop R a final pa perm k = mappages_loop R (a + PGSIZE) final (pa + PGSIZE) perm ?k"
      by (subst mappages_loop.simps) (simp add: w Let_def)
    have IH: "\<exists>rk. mappages_loop R (a + PGSIZE) final (pa + PGSIZE) perm ?k = Some rk \<and>
        map_range ?k ps3 R (a + PGSIZE) (Suc n) (pa + PGSIZE) perm rk"
      if "kmem_inv ?k ps3" "pt_wf ?k ps3 R" for ps3
      by (rule Suc.IH [OF that al le fin]) (use free in auto)
    then obtain rk where "mappages_loop R (a + PGSIZE) final (pa + PGSIZE) perm ?k = Some rk"
      using i by blast
    then show ?thesis using IH step map_range_step [OF st Suc.prems(3) a, of "Suc n" rk] by fastforce
  qed
qed

lemma mappages_maps:
  assumes "kmem_inv k ps" "pt_wf k ps R" "va mod PGSIZE = 0" "sz mod PGSIZE = 0" "sz \<noteq> 0"
    "unat va + unat sz \<le> unat MAXVA"
    "\<And>x. va \<le> x \<Longrightarrow> x < va + sz \<Longrightarrow> leaf_pte k R x AND PTE_V = 0"
  shows "\<exists>r k' ps'. mappages R va sz pa perm k = Some (r, k') \<and>
    kmem_inv k' ps' \<and> pt_wf k' ps' R \<and> vm_frame k ps R k' ps' \<and>
    (r = 0 \<and> (\<forall>x < MAXVA. leaf_pte k' R x =
        (if va \<le> x \<and> x < va + sz then PA2PTE (pa + (PGROUNDDOWN x - va)) OR perm OR PTE_V
         else leaf_pte k R x)) \<or>
     r = - 1 \<and> ps' = [])"
proof -
  have "unat sz mod 4096 = 0" using assms(4) by (simp only: aligned_unat)
  moreover have "unat sz \<noteq> 0" using assms(5) by (metis unsigned_0 unsigned_word_eqI)
  ultimately obtain n where n: "unat sz = 4096 * Suc n"
    by (metis dvdE mod_0_imp_dvd mult_0_right not0_implies_Suc)
  have add: "unat (va + sz) = unat va + unat sz" using assms(6) by (simp add: unat_word_ariths unat_MAXVA)
  have in_range: "va \<le> x \<and> x < va + sz \<longleftrightarrow> unat va \<le> unat x \<and> unat x < unat va + 4096 * Suc n" for x
    by (simp add: word_le_nat_alt word_less_nat_alt add n)
  have "sz = of_nat (unat sz)" by simp
  then have "sz = of_nat (4096 * Suc n)" by (simp only: n)
  then have fin: "va + sz - PGSIZE = va + of_nat n * PGSIZE" by (simp add: PGSIZE_def algebra_simps)
  have "\<exists>rk. mappages_loop R va (va + sz - PGSIZE) pa perm k = Some rk \<and>
      map_range k ps R va (Suc n) pa perm rk"
  proof (rule mappages_loop_spec [OF assms(1-3) _ fin])
    show "unat va + 4096 * Suc n \<le> unat MAXVA" using assms(6) n by simp
  qed (use assms(7) in_range in blast)
  then obtain r k' where "mappages R va sz pa perm k = Some (r, k')"
    "map_range k ps R va (Suc n) pa perm (r, k')"
    using assms(3-5) by (auto simp: mappages_def)
  then show ?thesis unfolding map_range_def in_range mapped_pte_def by auto
qed

section \<open>Properties\<close>

text \<open>
  C13: \<open>mappages\<close> installs exactly the requested mapping.  On a well-formed table and allocator,
  for page-aligned \<open>va\<close> and size inside the 38-bit address space none of which is mapped,
  \<open>mappages\<close> does not panic; it returns 0, and then the entry of every address in the range
  points to the corresponding physical page with the given permission bits while the entry of
  every other address is what it was; or it returns -1, and then no free page is left.  In both
  cases table and allocator stay well-formed and no byte of a page that was neither free nor a
  table of this address space changes.
\<close>

theorem mappages_correct:
  assumes "kmem_inv k ps" "pt_wf k ps R" "va mod PGSIZE = 0" "sz mod PGSIZE = 0" "sz \<noteq> 0"
    "unat va + unat sz \<le> unat MAXVA"
    "\<And>x. va \<le> x \<Longrightarrow> x < va + sz \<Longrightarrow> leaf_pte k R x AND PTE_V = 0"
  shows "\<exists>r k' ps'. mappages R va sz pa perm k = Some (r, k') \<and>
    kmem_inv k' ps' \<and> pt_wf k' ps' R \<and> vm_frame k ps R k' ps' \<and>
    (r = 0 \<and> (\<forall>x < MAXVA. leaf_pte k' R x =
        (if va \<le> x \<and> x < va + sz then PA2PTE (pa + (PGROUNDDOWN x - va)) OR perm OR PTE_V
         else leaf_pte k R x)) \<or>
     r = - 1 \<and> ps' = [])"
  using assms by (rule mappages_maps)

text \<open>A sample state: one empty root table and two free pages.\<close>

definition vm_sample :: kernel where
  "vm_sample = kernel_boot\<lparr>k_mem := store64 (\<lambda>_. NUL) 0x80060000 0x80061000, k_freelist := 0x80060000\<rparr>"

lemma load64_zero [simp]: "load64 (\<lambda>_. NUL) a = 0"
proof -
  have "read_bytes (\<lambda>_. NUL) (unat a) 8 = replicate 8 NUL"
    by (rule nth_equalityI) (simp_all add: read_bytes_def)
  then show ?thesis by (simp add: load64_def numeral_eq_Suc)
qed

lemma vm_sample_page_ok: "page_ok vm_sample p \<longleftrightarrow> p mod 4096 = 0 \<and> 0x80040000 \<le> p \<and> p < 0x88000000"
  by (simp add: page_ok_def vm_sample_def kernel_boot_def PGSIZE_def PHYSTOP_def KERNBASE_def)

lemma vm_sample_kmem: "kmem_inv vm_sample [0x80060000, 0x80061000]"
proof -
  have "load64 (k_mem vm_sample) 0x80061000 = 0"
    by (simp add: vm_sample_def cell64.load_other apart64_def)
  then show ?thesis
    by (simp add: kmem_inv_def vm_sample_page_ok)
      (simp add: vm_sample_def load_store64 kernel_boot_def KERNBASE_def)
qed

lemma vm_sample_entry: "i < 512 \<Longrightarrow> entry (k_mem vm_sample) 0x80050000 i = 0"
proof -
  assume i: "i < 512"
  have "unat (pte_addr 0x80050000 i) = 0x80050000 + 8 * unat i"
    using unat_pte_addr [of vm_sample "0x80050000" i] i by (simp add: vm_sample_page_ok)
  moreover have "unat i < 512" using i by (simp add: word_less_nat_alt)
  ultimately have "apart64 0x80060000 (pte_addr 0x80050000 i)" by (simp add: apart64_def)
  then show ?thesis by (simp add: entry_def vm_sample_def cell64.load_other)
qed

lemma vm_sample_wf: "pt_wf vm_sample [0x80060000, 0x80061000] 0x80050000"
proof -
  have "xs = [] \<and> p = 0x80050000" if "path xs" "tab (k_mem vm_sample) 0x80050000 xs = Some p" for xs p
    using that vm_sample_entry by (cases xs) (auto simp: path_def child_def)
  moreover have "page_ok vm_sample 0x80050000" by (simp add: vm_sample_page_ok)
  moreover have "(0x80050000 :: u64) \<notin> set [0x80060000, 0x80061000]" by simp
  ultimately show ?thesis unfolding pt_wf_def by metis
qed

lemma vm_sample_unmapped: "leaf_pte vm_sample 0x80050000 x = 0"
  by (simp add: leaf_pte_def child_def vm_sample_entry)

theorem mappages_correct_witness:
  "\<exists>r k' ps'. mappages 0x80050000 0x1000 0x2000 0x80070000 (PTE_R OR PTE_U) vm_sample = Some (r, k') \<and>
    kmem_inv k' ps' \<and> pt_wf k' ps' 0x80050000 \<and>
    vm_frame vm_sample [0x80060000, 0x80061000] 0x80050000 k' ps' \<and>
    (r = 0 \<and> (\<forall>x < MAXVA. leaf_pte k' 0x80050000 x =
        (if 0x1000 \<le> x \<and> x < 0x1000 + 0x2000
         then PA2PTE (0x80070000 + (PGROUNDDOWN x - 0x1000)) OR (PTE_R OR PTE_U) OR PTE_V
         else leaf_pte vm_sample 0x80050000 x)) \<or>
     r = - 1 \<and> ps' = [])"
  by (rule mappages_correct [OF vm_sample_kmem vm_sample_wf])
    (simp_all add: PGSIZE_def unat_MAXVA vm_sample_unmapped)

text \<open>
  User addresses translate only through user-accessible entries.  \<open>walkaddr\<close> returns the
  page that the table in memory holds for the address exactly when that entry is valid and has
  its U bit; otherwise, and for every address at or above MAXVA, it returns 0.
\<close>

theorem walkaddr_correct:
  assumes "kmem_inv k ps" "pt_wf k ps R"
  shows "walkaddr R va k =
    (if va < MAXVA \<and> leaf_pte k R va AND PTE_V \<noteq> 0 \<and> leaf_pte k R va AND PTE_U \<noteq> 0
     then PTE2PA (leaf_pte k R va) else 0)"
proof (cases "leaf (k_mem k) R va")
  case None
  then show ?thesis using leaf_pte_walk(2) [OF assms(2) None]
    by (simp add: walkaddr_def walk_loop_find)
next
  case (Some a)
  then show ?thesis using leaf_pte_walk(1) [OF assms(2) Some] leaf_nonzero [OF assms(2,1) Some]
    by (simp add: walkaddr_def walk_loop_find Let_def not_le [symmetric])
qed

theorem walkaddr_correct_witness: "walkaddr 0x80050000 0x1000 vm_sample = 0"
  using walkaddr_correct [OF vm_sample_kmem vm_sample_wf, of "0x1000"] by (simp add: vm_sample_unmapped)

end
