(* ===== verification/Ring.thy ===== *)
theory Ring
  imports Kernel
begin

text \<open>
  The two ring buffers of \<open>kernel/agentcmd.c\<close> as bounded first-in-first-out queues.  The
  stage-1 intake ring (\<open>agent_q\<close>, head and tail, one slot kept free) and the stage-2 ring
  (\<open>agentq\<close>, read and write index and a count) have different representations and one
  contract, the locale \<open>bounded_queue\<close>: a put appends the clipped line or, when the queue is
  full, drops it; a get removes the oldest line.
\<close>

section \<open>The interface\<close>

datatype 'a queue_op = QPut 'a | QGet

locale bounded_queue =
  fixes put :: "'a \<Rightarrow> 'q \<Rightarrow> 'q" and get :: "'q \<Rightarrow> ('a \<times> 'q) option"
    and contents :: "'q \<Rightarrow> 'a list" and inv :: "'q \<Rightarrow> bool" and cap :: nat and clip :: "'a \<Rightarrow> 'a"
  assumes put_room: "inv q \<Longrightarrow> length (contents q) < cap \<Longrightarrow> contents (put x q) = contents q @ [clip x]"
    and put_full: "inv q \<Longrightarrow> length (contents q) \<ge> cap \<Longrightarrow> put x q = q"
    and put_inv: "inv q \<Longrightarrow> inv (put x q)"
    and get_empty: "inv q \<Longrightarrow> contents q = [] \<Longrightarrow> get q = None"
    and get_next: "inv q \<Longrightarrow> contents q = x # xs \<Longrightarrow> \<exists>q'. get q = Some (x, q') \<and> contents q' = xs \<and> inv q'"
    and within_cap: "inv q \<Longrightarrow> length (contents q) \<le> cap"
begin

text \<open>A history of puts and gets: the lines delivered, the lines accepted and the final queue.\<close>

fun run :: "'a queue_op list \<Rightarrow> 'q \<Rightarrow> 'a list \<times> 'a list \<times> 'q" where
  "run [] q = ([], [], q)"
| "run (QPut x # ops) q =
     (let (outs, ins, q') = run ops (put x q)
      in (outs, (if length (contents q) < cap then clip x # ins else ins), q'))"
| "run (QGet # ops) q =
     (case get q of
        None \<Rightarrow> run ops q
      | Some (x, q1) \<Rightarrow> let (outs, ins, q') = run ops q1 in (x # outs, ins, q'))"

lemma run_fifo:
  "inv q \<Longrightarrow> run ops q = (outs, ins, q') \<Longrightarrow> contents q @ ins = outs @ contents q' \<and> inv q'"
proof (induction ops arbitrary: q outs ins q')
  case Nil
  then show ?case by simp
next
  case (Cons x ops)
  show ?case
  proof (cases x)
    case (QPut y)
    obtain o1 i1 q1 where r: "run ops (put y q) = (o1, i1, q1)" by (metis prod_cases3)
    have "contents (put y q) @ i1 = o1 @ contents q1 \<and> inv q1"
      by (rule Cons.IH [OF put_inv [OF Cons.prems(1)] r])
    then show ?thesis using Cons.prems QPut r put_room [of q y] put_full [of q y]
      by (cases "length (contents q) < cap") auto
  next
    case QGet
    show ?thesis
    proof (cases "contents q")
      case Nil
      then show ?thesis
        using Cons.IH [OF Cons.prems(1), of outs ins q'] Cons.prems QGet get_empty by simp
    next
      case (Cons y ys)
      then obtain q1 where q1: "get q = Some (y, q1)" "contents q1 = ys" "inv q1"
        using get_next Cons.prems(1) by blast
      obtain o1 i1 q2 where r: "run ops q1 = (o1, i1, q2)" by (metis prod_cases3)
      show ?thesis using Cons.IH [OF q1(3) r] Cons.prems(2) QGet q1 r Cons by auto
    qed
  qed
qed

end

section \<open>The stage-2 ring\<close>

text \<open>The copying loops of \<open>forward_to_agentd\<close> and \<open>agentq_get\<close>: at most \<open>n\<close> characters and a NUL.\<close>

fun copy_trunc :: "string \<Rightarrow> string \<Rightarrow> nat \<Rightarrow> string" where
  "copy_trunc (c # s) old (Suc n) =
     (if c = NUL then NUL # tl old else c # copy_trunc s (tl old) n)"
| "copy_trunc s old n = NUL # tl old"

definition aq_put :: "string \<Rightarrow> agentd_queue \<Rightarrow> agentd_queue" where
  "aq_put line q =
     (if aq_count q = AGENTQ_N then q
      else q\<lparr>aq_buf := (aq_buf q)[aq_w q := copy_trunc line (aq_buf q ! aq_w q) (AGENTQ_LEN - 1)],
             aq_w := (aq_w q + 1) mod AGENTQ_N, aq_count := aq_count q + 1\<rparr>)"

definition aq_get :: "agentd_queue \<Rightarrow> (string \<times> agentd_queue) option" where
  "aq_get q =
     (if aq_count q = 0 then None
      else Some (cstr (copy_trunc (aq_buf q ! aq_r q) (replicate AGENTQ_LEN NUL) (AGENTQ_LEN - 1)),
                 q\<lparr>aq_r := (aq_r q + 1) mod AGENTQ_N, aq_count := aq_count q - 1\<rparr>))"

definition aq_inv :: "agentd_queue \<Rightarrow> bool" where
  "aq_inv q \<longleftrightarrow> length (aq_buf q) = AGENTQ_N \<and> (\<forall>l \<in> set (aq_buf q). length l = AGENTQ_LEN) \<and>
     aq_r q < AGENTQ_N \<and> aq_count q \<le> AGENTQ_N \<and> aq_w q = (aq_r q + aq_count q) mod AGENTQ_N \<and>
     (\<forall>i < aq_count q. length (cstr (aq_buf q ! ((aq_r q + i) mod AGENTQ_N))) < AGENTQ_LEN)"

definition aq_lines :: "agentd_queue \<Rightarrow> string list" where
  "aq_lines q = map (\<lambda>i. cstr (aq_buf q ! ((aq_r q + i) mod AGENTQ_N))) [0..<aq_count q]"

definition aq_clip :: "string \<Rightarrow> string" where
  "aq_clip line = take (AGENTQ_LEN - 1) (cstr line)"

lemma cstr_copy_trunc: "cstr (copy_trunc s old n) = take n (cstr s)"
  by (induction s old n rule: copy_trunc.induct) (auto simp: cstr_def)

lemma length_copy_trunc: "n < length old \<Longrightarrow> length (copy_trunc s old n) = length old"
  by (induction s old n rule: copy_trunc.induct) auto

lemma ring_distinct: "i < j \<Longrightarrow> j < n \<Longrightarrow> (r + i) mod n \<noteq> (r + j) mod (n :: nat)"
proof
  assume "i < j" "j < n" "(r + i) mod n = (r + j) mod n"
  then have "(r + j - (r + i)) mod n = 0" by (metis add_left_mono less_imp_le mod_eq_dvd_iff_nat mod_0_imp_dvd mod_eq_0_iff_dvd)
  then show False using \<open>i < j\<close> \<open>j < n\<close> by simp
qed

lemma ring_shift: "((r + 1) mod n + i) mod n = (r + Suc i) mod (n :: nat)"
  by (metis add_Suc_shift mod_add_left_eq plus_1_eq_Suc add.commute)

lemma ring_used: "t < n \<Longrightarrow> h < n \<Longrightarrow> (t + n - h) mod n = (if h \<le> t then t - h else t + n - h)" for n :: nat
  by (cases "h \<le> t") (auto simp: mod_if)

lemma ring_used_step:
  fixes n :: nat
  assumes "t < n" "h < n" "(t + n - h) mod n = Suc c"
  shows "(t + n - (h + 1) mod n) mod n = c"
proof -
  have "(h + 1) mod n = (if h + 1 = n then 0 else h + 1)" using assms(2) by auto
  moreover have "(if h \<le> t then t - h else t + n - h) = Suc c" using assms by (simp add: ring_used)
  ultimately show ?thesis
    using assms(1,2) by (auto simp: ring_used split: if_splits)
qed

lemma tl_map_upt: "tl (map f [0..<n]) = map (\<lambda>i. f (Suc i)) [0..<n - 1]"
  by (rule nth_equalityI) (simp_all add: nth_tl)

lemma aq_lines_length [simp]: "length (aq_lines q) = aq_count q"
  by (simp add: aq_lines_def)

lemma aq_put_room:
  assumes "aq_inv q" "aq_count q < AGENTQ_N"
  shows "aq_lines (aq_put line q) = aq_lines q @ [aq_clip line]" "aq_inv (aq_put line q)"
proof -
  let ?n = "aq_count q" and ?r = "aq_r q"
  let ?l = "copy_trunc line (aq_buf q ! aq_w q) (AGENTQ_LEN - 1)"
  have w: "aq_w q = (?r + ?n) mod AGENTQ_N" "aq_w q < length (aq_buf q)"
    using assms by (auto simp: aq_inv_def AGENTQ_N_def)
  have put: "aq_put line q = q\<lparr>aq_buf := (aq_buf q)[aq_w q := ?l], aq_w := (aq_w q + 1) mod AGENTQ_N, aq_count := ?n + 1\<rparr>"
    using assms(2) by (simp add: aq_put_def)
  have cl: "cstr ?l = aq_clip line" by (simp add: cstr_copy_trunc aq_clip_def)
  have old: "(aq_buf q)[aq_w q := ?l] ! ((?r + i) mod AGENTQ_N) = aq_buf q ! ((?r + i) mod AGENTQ_N)"
    if "i < ?n" for i
    using ring_distinct [OF that assms(2), of ?r] w(1) by (intro nth_list_update_neq) simp
  have new: "(aq_buf q)[aq_w q := ?l] ! ((?r + ?n) mod AGENTQ_N) = ?l"
    using w by (simp flip: w(1))
  show "aq_lines (aq_put line q) = aq_lines q @ [aq_clip line]"
    unfolding put aq_lines_def using old new cl by simp
  have "length (aq_buf q ! aq_w q) = AGENTQ_LEN" using assms(1) w(2) by (simp add: aq_inv_def)
  then have "length ?l = AGENTQ_LEN" by (subst length_copy_trunc) (simp_all add: AGENTQ_LEN_def)
  then have "\<forall>l \<in> set ((aq_buf q)[aq_w q := ?l]). length l = AGENTQ_LEN"
    using assms(1) set_update_subset_insert [of "aq_buf q" "aq_w q" ?l] by (auto simp: aq_inv_def)
  moreover have "length (cstr ((aq_buf q)[aq_w q := ?l] ! ((?r + i) mod AGENTQ_N))) < AGENTQ_LEN"
    if "i < ?n + 1" for i
    using that old new cl assms(1) by (cases "i = ?n") (auto simp: aq_inv_def aq_clip_def AGENTQ_LEN_def)
  moreover have "(aq_w q + 1) mod AGENTQ_N = (?r + (?n + 1)) mod AGENTQ_N"
    using w(1) by (simp add: mod_Suc_eq)
  ultimately show "aq_inv (aq_put line q)"
    using assms unfolding put by (simp add: aq_inv_def)
qed

lemma aq_get_next:
  assumes "aq_inv q" "aq_lines q = x # xs"
  shows "\<exists>q'. aq_get q = Some (x, q') \<and> aq_lines q' = xs \<and> aq_inv q'"
proof -
  let ?n = "aq_count q" and ?r = "aq_r q"
  let ?q = "q\<lparr>aq_r := (?r + 1) mod AGENTQ_N, aq_count := ?n - 1\<rparr>"
  have n: "?n = Suc (length xs)" using arg_cong [OF assms(2), of length] by simp
  have r: "?r < AGENTQ_N" using assms(1) by (simp add: aq_inv_def)
  have x: "x = cstr (aq_buf q ! ?r)"
    using arg_cong [OF assms(2), of "\<lambda>l. l ! 0"] n r by (simp add: aq_lines_def del: upt_Suc)
  have "length (cstr (aq_buf q ! ((?r + 0) mod AGENTQ_N))) < AGENTQ_LEN"
    using assms(1) n unfolding aq_inv_def by (metis zero_less_Suc)
  then have "length x < AGENTQ_LEN" using x r by simp
  then have "cstr (copy_trunc (aq_buf q ! ?r) (replicate AGENTQ_LEN NUL) (AGENTQ_LEN - 1)) = x"
    by (simp add: cstr_copy_trunc flip: x)
  then have g: "aq_get q = Some (x, ?q)" using n by (simp add: aq_get_def)
  have shift: "((?r + 1) mod AGENTQ_N + i) mod AGENTQ_N = (?r + Suc i) mod AGENTQ_N" for i
    by (rule ring_shift)
  have "aq_lines ?q = tl (aq_lines q)"
    unfolding aq_lines_def by (subst tl_map_upt) (simp add: ring_shift [unfolded Suc_eq_plus1 [symmetric]])
  moreover have "length (cstr (aq_buf q ! ((?r + Suc i) mod AGENTQ_N))) < AGENTQ_LEN" if "i < ?n - 1" for i
    using assms(1) that n unfolding aq_inv_def by (metis Suc_less_eq diff_Suc_1)
  ultimately show ?thesis
    using g assms n by (intro exI [of _ ?q]) (auto simp: aq_inv_def shift mod_add_left_eq AGENTQ_N_def)
qed

interpretation agentq: bounded_queue aq_put aq_get aq_lines aq_inv AGENTQ_N aq_clip
proof
  show "\<And>q x. aq_inv q \<Longrightarrow> length (aq_lines q) < AGENTQ_N \<Longrightarrow> aq_lines (aq_put x q) = aq_lines q @ [aq_clip x]"
    by (simp add: aq_put_room)
  show "\<And>q x. aq_inv q \<Longrightarrow> AGENTQ_N \<le> length (aq_lines q) \<Longrightarrow> aq_put x q = q"
    by (simp add: aq_put_def aq_inv_def)
  show "\<And>q x. aq_inv q \<Longrightarrow> aq_inv (aq_put x q)"
    using aq_put_room(2) by (metis aq_inv_def aq_put_def le_neq_implies_less)
  show "\<And>q. aq_inv q \<Longrightarrow> aq_lines q = [] \<Longrightarrow> aq_get q = None"
    by (simp add: aq_get_def aq_lines_def)
  show "\<And>q x xs. aq_inv q \<Longrightarrow> aq_lines q = x # xs \<Longrightarrow>
      \<exists>q'. aq_get q = Some (x, q') \<and> aq_lines q' = xs \<and> aq_inv q'"
    by (rule aq_get_next)
  show "\<And>q. aq_inv q \<Longrightarrow> length (aq_lines q) \<le> AGENTQ_N" by (simp add: aq_inv_def)
qed

section \<open>The stage-1 intake ring\<close>

definition iq_put :: "string \<Rightarrow> intake_queue \<Rightarrow> intake_queue" where
  "iq_put line q =
     (let nxt = (iq_tail q + 1) mod AGENT_Q_LEN
      in if nxt \<noteq> iq_head q
         then q\<lparr>iq_buf := (iq_buf q)[iq_tail q := safestrcpy (iq_buf q ! iq_tail q) line (int AGENT_LINE_MAX)],
                iq_tail := nxt\<rparr>
         else q)"

definition iq_get :: "intake_queue \<Rightarrow> (string \<times> intake_queue) option" where
  "iq_get q =
     (if iq_head q = iq_tail q then None
      else Some (cstr (safestrcpy (replicate AGENT_LINE_MAX NUL) (iq_buf q ! iq_head q) (int AGENT_LINE_MAX)),
                 q\<lparr>iq_head := (iq_head q + 1) mod AGENT_Q_LEN\<rparr>))"

definition iq_count :: "intake_queue \<Rightarrow> nat" where
  "iq_count q = (iq_tail q + AGENT_Q_LEN - iq_head q) mod AGENT_Q_LEN"

definition iq_lines :: "intake_queue \<Rightarrow> string list" where
  "iq_lines q = map (\<lambda>i. cstr (iq_buf q ! ((iq_head q + i) mod AGENT_Q_LEN))) [0..<iq_count q]"

definition iq_inv :: "intake_queue \<Rightarrow> bool" where
  "iq_inv q \<longleftrightarrow> length (iq_buf q) = AGENT_Q_LEN \<and> (\<forall>l \<in> set (iq_buf q). length l = AGENT_LINE_MAX) \<and>
     iq_head q < AGENT_Q_LEN \<and> iq_tail q < AGENT_Q_LEN \<and>
     (\<forall>i < iq_count q. length (cstr (iq_buf q ! ((iq_head q + i) mod AGENT_Q_LEN))) < AGENT_LINE_MAX)"

definition iq_clip :: "string \<Rightarrow> string" where
  "iq_clip line = take (AGENT_LINE_MAX - 1) (cstr line)"

lemma iq_lines_length [simp]: "length (iq_lines q) = iq_count q"
  by (simp add: iq_lines_def)

lemma iq_count_less: "iq_count q < AGENT_Q_LEN"
  by (simp add: iq_count_def AGENT_Q_LEN_def)

lemma iq_tail_count:
  "iq_inv q \<Longrightarrow> iq_tail q = (iq_head q + iq_count q) mod AGENT_Q_LEN"
  by (simp add: iq_count_def iq_inv_def mod_add_right_eq)

lemma iq_full: "iq_inv q \<Longrightarrow> (iq_tail q + 1) mod AGENT_Q_LEN = iq_head q \<longleftrightarrow> iq_count q = AGENT_Q_LEN - 1"
  by (auto simp: iq_count_def iq_inv_def AGENT_Q_LEN_def mod_if split: if_splits)

lemma iq_empty: "iq_inv q \<Longrightarrow> iq_head q = iq_tail q \<longleftrightarrow> iq_count q = 0"
  by (auto simp: iq_count_def iq_inv_def AGENT_Q_LEN_def mod_if split: if_splits)

lemma iq_put_room:
  assumes "iq_inv q" "iq_count q < AGENT_Q_LEN - 1"
  shows "iq_lines (iq_put line q) = iq_lines q @ [iq_clip line]" "iq_inv (iq_put line q)"
proof -
  let ?n = "iq_count q" and ?h = "iq_head q"
  let ?l = "safestrcpy (iq_buf q ! iq_tail q) line (int AGENT_LINE_MAX)"
  let ?q = "q\<lparr>iq_buf := (iq_buf q)[iq_tail q := ?l], iq_tail := (iq_tail q + 1) mod AGENT_Q_LEN\<rparr>"
  have put: "iq_put line q = ?q" using assms iq_full [OF assms(1)] by (simp add: iq_put_def)
  have t: "iq_tail q < length (iq_buf q)" using assms(1) by (simp add: iq_inv_def)
  have cl: "cstr ?l = iq_clip line" by (simp add: cstr_safestrcpy iq_clip_def AGENT_LINE_MAX_def)
  have n: "iq_count ?q = Suc ?n"
    using assms by (auto simp: iq_count_def iq_inv_def AGENT_Q_LEN_def mod_if split: if_splits)
  have old: "(iq_buf q)[iq_tail q := ?l] ! ((?h + i) mod AGENT_Q_LEN) = iq_buf q ! ((?h + i) mod AGENT_Q_LEN)"
    if "i < ?n" for i
    using ring_distinct [OF that, of AGENT_Q_LEN ?h] iq_tail_count [OF assms(1)] iq_count_less [of q]
    by (intro nth_list_update_neq) simp
  have new: "(iq_buf q)[iq_tail q := ?l] ! ((?h + ?n) mod AGENT_Q_LEN) = ?l"
    using t by (simp flip: iq_tail_count [OF assms(1)])
  show "iq_lines (iq_put line q) = iq_lines q @ [iq_clip line]"
    unfolding put iq_lines_def n using old new cl by simp
  have "length (iq_buf q ! iq_tail q) = AGENT_LINE_MAX" using assms(1) t by (simp add: iq_inv_def)
  then have "\<forall>l \<in> set ((iq_buf q)[iq_tail q := ?l]). length l = AGENT_LINE_MAX"
    using assms(1) set_update_subset_insert [of "iq_buf q" "iq_tail q" ?l] by (auto simp: iq_inv_def)
  moreover have "length (cstr ((iq_buf q)[iq_tail q := ?l] ! ((?h + i) mod AGENT_Q_LEN))) < AGENT_LINE_MAX"
    if "i < Suc ?n" for i
    using that old new cl assms(1)
    by (cases "i = ?n") (auto simp: iq_inv_def iq_clip_def AGENT_LINE_MAX_def)
  ultimately show "iq_inv (iq_put line q)"
    using assms(1) n unfolding put iq_inv_def by (simp add: AGENT_Q_LEN_def)
qed

lemma iq_get_next:
  assumes "iq_inv q" "iq_lines q = x # xs"
  shows "\<exists>q'. iq_get q = Some (x, q') \<and> iq_lines q' = xs \<and> iq_inv q'"
proof -
  let ?h = "iq_head q"
  let ?q = "q\<lparr>iq_head := (?h + 1) mod AGENT_Q_LEN\<rparr>"
  have n: "iq_count q = Suc (length xs)" using arg_cong [OF assms(2), of length] by simp
  have h: "?h < AGENT_Q_LEN" using assms(1) by (simp add: iq_inv_def)
  have x: "x = cstr (iq_buf q ! ?h)"
    using arg_cong [OF assms(2), of "\<lambda>l. l ! 0"] n h by (simp add: iq_lines_def del: upt_Suc)
  have "length (cstr (iq_buf q ! ((?h + 0) mod AGENT_Q_LEN))) < AGENT_LINE_MAX"
    using assms(1) n unfolding iq_inv_def by (metis zero_less_Suc)
  then have "length x < AGENT_LINE_MAX" using x h by simp
  then have "cstr (safestrcpy (replicate AGENT_LINE_MAX NUL) (iq_buf q ! ?h) (int AGENT_LINE_MAX)) = x"
    by (simp add: cstr_safestrcpy AGENT_LINE_MAX_def flip: x)
  then have g: "iq_get q = Some (x, ?q)" using n iq_empty [OF assms(1)] by (simp add: iq_get_def)
  have c: "iq_count ?q = length xs"
  proof -
    have "iq_tail q < AGENT_Q_LEN" using assms(1) by (simp add: iq_inv_def)
    then show ?thesis using ring_used_step h n by (simp add: iq_count_def)
  qed
  have shift: "((?h + 1) mod AGENT_Q_LEN + i) mod AGENT_Q_LEN = (?h + Suc i) mod AGENT_Q_LEN" for i
    by (rule ring_shift)
  have "iq_lines ?q = tl (iq_lines q)"
    unfolding iq_lines_def c n by (subst tl_map_upt) (simp add: ring_shift [unfolded Suc_eq_plus1 [symmetric]])
  moreover have "length (cstr (iq_buf q ! ((?h + Suc i) mod AGENT_Q_LEN))) < AGENT_LINE_MAX" if "i < length xs" for i
    using assms(1) that n unfolding iq_inv_def by (metis Suc_less_eq)
  moreover have "(?h + 1) mod AGENT_Q_LEN < AGENT_Q_LEN" by (simp add: AGENT_Q_LEN_def)
  ultimately have "iq_inv ?q" "iq_lines ?q = xs"
    using assms unfolding iq_inv_def c by (simp_all add: ring_shift [unfolded Suc_eq_plus1 [symmetric]])
  with g show ?thesis by blast
qed

interpretation intake: bounded_queue iq_put iq_get iq_lines iq_inv "AGENT_Q_LEN - 1" iq_clip
proof
  show "\<And>q x. iq_inv q \<Longrightarrow> length (iq_lines q) < AGENT_Q_LEN - 1 \<Longrightarrow> iq_lines (iq_put x q) = iq_lines q @ [iq_clip x]"
    by (simp add: iq_put_room)
  show full: "\<And>q x. iq_inv q \<Longrightarrow> AGENT_Q_LEN - 1 \<le> length (iq_lines q) \<Longrightarrow> iq_put x q = q"
    using iq_full iq_count_less by (simp add: iq_put_def Let_def) (metis Suc_pred le_antisym less_Suc_eq_le
        less_nat_zero_code not_gr_zero)
  show "\<And>q x. iq_inv q \<Longrightarrow> iq_inv (iq_put x q)"
    using iq_put_room(2) full by (metis iq_lines_length not_le)
  show "\<And>q. iq_inv q \<Longrightarrow> iq_lines q = [] \<Longrightarrow> iq_get q = None"
    using iq_empty by (simp add: iq_get_def iq_lines_def)
  show "\<And>q x xs. iq_inv q \<Longrightarrow> iq_lines q = x # xs \<Longrightarrow>
      \<exists>q'. iq_get q = Some (x, q') \<and> iq_lines q' = xs \<and> iq_inv q'"
    by (rule iq_get_next)
  show "\<And>q. iq_inv q \<Longrightarrow> length (iq_lines q) \<le> AGENT_Q_LEN - 1"
    using iq_count_less by (metis iq_lines_length less_Suc_eq_le Suc_diff_1 AGENT_Q_LEN_def zero_less_numeral)
qed

section \<open>Properties\<close>

text \<open>The queues as the kernel starts them.\<close>

lemma aq_boot_inv: "aq_inv (k_agentq kernel_boot) \<and> aq_lines (k_agentq kernel_boot) = []"
  by (simp add: aq_inv_def aq_lines_def kernel_boot_def AGENTQ_N_def)

lemma iq_boot_inv: "iq_inv (k_intake kernel_boot) \<and> iq_lines (k_intake kernel_boot) = []"
  by (simp add: iq_inv_def iq_lines_def iq_count_def kernel_boot_def AGENT_Q_LEN_def)

text \<open>
  C23: both command queues are lossless in order.  For every history of puts and gets on either
  ring, the lines delivered followed by the lines still queued are exactly the lines queued at
  the start followed by the lines accepted (clipped to 255 and 1279 characters), in order and
  without duplication; a line is rejected only when 16, respectively 7, lines are queued.
\<close>

theorem agent_queues_fifo:
  assumes "aq_inv q" "iq_inv q1"
    "agentq.run ops q = (outs, ins, q')" "intake.run ops1 q1 = (outs1, ins1, q1')"
  shows "aq_lines q @ ins = outs @ aq_lines q' \<and> aq_inv q' \<and>
    iq_lines q1 @ ins1 = outs1 @ iq_lines q1' \<and> iq_inv q1'"
  using agentq.run_fifo [OF assms(1,3)] intake.run_fifo [OF assms(2,4)] by blast

theorem agent_queues_fifo_witness:
  "\<exists>outs ins q' outs1 ins1 q1'.
    agentq.run [QPut ''REQ|PS'', QGet] (k_agentq kernel_boot) = (outs, ins, q') \<and>
    intake.run [QPut ''REQ|PS'', QGet] (k_intake kernel_boot) = (outs1, ins1, q1') \<and>
    aq_lines (k_agentq kernel_boot) @ ins = outs @ aq_lines q' \<and> aq_inv q' \<and>
    iq_lines (k_intake kernel_boot) @ ins1 = outs1 @ iq_lines q1' \<and> iq_inv q1'"
proof -
  obtain outs ins q' where r: "agentq.run [QPut ''REQ|PS'', QGet] (k_agentq kernel_boot) = (outs, ins, q')"
    by (metis prod_cases3)
  obtain outs1 ins1 q1' where r1: "intake.run [QPut ''REQ|PS'', QGet] (k_intake kernel_boot) = (outs1, ins1, q1')"
    by (metis prod_cases3)
  from agent_queues_fifo [OF _ _ r r1] aq_boot_inv iq_boot_inv r r1 show ?thesis by auto
qed

end
