(* ===== verification/Printf.thy ===== *)
theory Printf
  imports Kernel
begin

text \<open>
  Formatted console output: \<open>kernel/printf.c\<close> and \<open>consputc\<close> of \<open>kernel/console.c\<close>.  The
  variadic arguments are a list of values; reading one with a conversion of another type
  reinterprets its bits, and reading past the list yields 0, where C leaves both undefined.
  \<open>printf_out\<close> is the character sequence a call sends to \<open>consputc\<close>; \<open>printf\<close> appends it to
  the console output of the kernel state.  The \<open>pr.lock\<close> critical section makes the whole
  sequence one step.
\<close>

section \<open>Definitions\<close>

datatype va = VInt int | VLong u64 | VStr "string option"

definition va_hd :: "va list \<Rightarrow> va" where
  "va_hd ap = (case ap of [] \<Rightarrow> VInt 0 | a # _ \<Rightarrow> a)"

fun va_int :: "va \<Rightarrow> int" where
  "va_int (VInt i) = i"
| "va_int (VLong w) = int32 w"
| "va_int (VStr s) = 0"

fun va_u64 :: "va \<Rightarrow> u64" where
  "va_u64 (VInt i) = of_int i"
| "va_u64 (VLong w) = w"
| "va_u64 (VStr s) = 0"

fun va_str :: "va \<Rightarrow> string" where
  "va_str (VStr (Some s)) = cstr s"
| "va_str _ = ''(null)''"

definition digit_char :: "nat \<Rightarrow> char" where
  "digit_char d = ''0123456789abcdef'' ! d"

text \<open>
  The \<open>do ... while\<close> loop of \<open>printint\<close> fills \<open>buf\<close> with the digits, least significant
  first.  It is called with base 10 or 16.
\<close>

function digits_rev :: "nat \<Rightarrow> nat \<Rightarrow> string" where
  "digits_rev base x =
     digit_char (x mod base) #
     (if x div base \<noteq> 0 \<and> 2 \<le> base then digits_rev base (x div base) else [])"
  by pat_completeness auto
termination
proof (relation "measure snd")
  fix base x :: nat
  assume "x div base \<noteq> 0 \<and> 2 \<le> base"
  then have "0 < x" by (cases x) auto
  with \<open>x div base \<noteq> 0 \<and> 2 \<le> base\<close> show "((base, x div base), base, x) \<in> measure snd"
    by (simp add: div_less_dividend)
qed simp

declare digits_rev.simps [simp del]

definition printint_buf :: "int \<Rightarrow> nat \<Rightarrow> bool \<Rightarrow> string" where
  "printint_buf xx base sign =
     (let neg = (sign \<and> xx < 0);
          x = (if neg then nat (- xx) else nat (xx mod 2 ^ 64))
      in digits_rev base x @ (if neg then ''-'' else []))"

definition printint :: "int \<Rightarrow> nat \<Rightarrow> bool \<Rightarrow> string" where
  "printint xx base sign = rev (printint_buf xx base sign)"

fun printptr_loop :: "nat \<Rightarrow> u64 \<Rightarrow> string" where
  "printptr_loop 0 x = []"
| "printptr_loop (Suc n) x = digit_char (unat (drop_bit 60 x)) # printptr_loop n (push_bit 4 x)"

definition printptr :: "u64 \<Rightarrow> string" where
  "printptr x = ''0x'' @ printptr_loop 16 x"

text \<open>
  One \<open>%\<close> conversion: the characters it prints, how many characters of the format it
  takes after the \<open>%\<close>, and the remaining arguments; \<open>None\<close> at the end of the format.
\<close>

definition printf_conv :: "string \<Rightarrow> va list \<Rightarrow> (string \<times> nat \<times> va list) option" where
  "printf_conv f ap =
     (let c0 = deref f;
          c1 = (if c0 \<noteq> NUL then deref (tl f) else NUL);
          c2 = (if c1 \<noteq> NUL then deref (drop 2 f) else NUL);
          i = va_int (va_hd ap); w = va_u64 (va_hd ap)
      in if c0 = CHR ''d'' then Some (printint i 10 True, 1, tl ap)
         else if c0 = CHR ''l'' \<and> c1 = CHR ''d'' then Some (printint (sint w) 10 True, 2, tl ap)
         else if c0 = CHR ''l'' \<and> c1 = CHR ''l'' \<and> c2 = CHR ''d'' then
           Some (printint (sint w) 10 True, 3, tl ap)
         else if c0 = CHR ''u'' then Some (printint (i mod 2 ^ 32) 10 False, 1, tl ap)
         else if c0 = CHR ''l'' \<and> c1 = CHR ''u'' then Some (printint (sint w) 10 False, 2, tl ap)
         else if c0 = CHR ''l'' \<and> c1 = CHR ''l'' \<and> c2 = CHR ''u'' then
           Some (printint (sint w) 10 False, 3, tl ap)
         else if c0 = CHR ''x'' then Some (printint (i mod 2 ^ 32) 16 False, 1, tl ap)
         else if c0 = CHR ''l'' \<and> c1 = CHR ''x'' then Some (printint (sint w) 16 False, 2, tl ap)
         else if c0 = CHR ''l'' \<and> c1 = CHR ''l'' \<and> c2 = CHR ''x'' then
           Some (printint (sint w) 16 False, 3, tl ap)
         else if c0 = CHR ''p'' then Some (printptr w, 1, tl ap)
         else if c0 = CHR ''c'' then Some ([char_of (unat w mod 256)], 1, tl ap)
         else if c0 = CHR ''s'' then Some (va_str (va_hd ap), 1, tl ap)
         else if c0 = CHR ''%'' then Some (''%'', 1, ap)
         else if c0 = NUL then None
         else Some ([CHR ''%'', c0], 1, ap))"

fun printf_out :: "string \<Rightarrow> va list \<Rightarrow> string" where
  "printf_out [] ap = []"
| "printf_out (cx # f) ap =
     (if cx = NUL then []
      else if cx \<noteq> CHR ''%'' then cx # printf_out f ap
      else case printf_conv f ap of
             None \<Rightarrow> []
           | Some (s, n, ap') \<Rightarrow> s @ printf_out (drop n f) ap')"

text \<open>\<open>consputc\<close> with the source's \<open>BACKSPACE\<close> code 0x100: erase the last output character.\<close>

definition BACKSPACE :: int where "BACKSPACE = 0x100"

definition consputc :: "int \<Rightarrow> kernel \<Rightarrow> kernel" where
  "consputc c k =
     (if c = BACKSPACE then k\<lparr>k_out := k_out k @ [CHR 0x08, CHR 0x20, CHR 0x08]\<rparr>
      else k\<lparr>k_out := k_out k @ [char_of (nat (c mod 256))]\<rparr>)"

definition printf :: "string \<Rightarrow> va list \<Rightarrow> kernel \<Rightarrow> kernel" where
  "printf fmt ap k = k\<lparr>k_out := k_out k @ printf_out fmt ap\<rparr>"

section \<open>Facts\<close>

lemma printf_frame [simp]:
  "k_procs (printf f ap k) = k_procs k" "k_cur (printf f ap k) = k_cur k"
  "k_nextpid (printf f ap k) = k_nextpid k" "k_initproc (printf f ap k) = k_initproc k"
  "k_cfs_min (printf f ap k) = k_cfs_min k" "k_ticks (printf f ap k) = k_ticks k"
  "k_mem (printf f ap k) = k_mem k" "k_freelist (printf f ap k) = k_freelist k"
  "k_end (printf f ap k) = k_end k" "k_etext (printf f ap k) = k_etext k"
  "k_trampoline (printf f ap k) = k_trampoline k" "k_forkret (printf f ap k) = k_forkret k" "k_kpgtbl (printf f ap k) = k_kpgtbl k"
  "k_ftable (printf f ap k) = k_ftable k" "k_pipes (printf f ap k) = k_pipes k"
  "k_blocks (printf f ap k) = k_blocks k" "k_sb (printf f ap k) = k_sb k"
  "k_log (printf f ap k) = k_log k" "k_itable (printf f ap k) = k_itable k"
  "k_cons (printf f ap k) = k_cons k" "k_intake (printf f ap k) = k_intake k"
  "k_agentq (printf f ap k) = k_agentq k" "k_pending (printf f ap k) = k_pending k"
  "k_deny (printf f ap k) = k_deny k" "k_confirm (printf f ap k) = k_confirm k"
  "k_cache (printf f ap k) = k_cache k" "k_rec_buf (printf f ap k) = k_rec_buf k"
  by (simp_all add: printf_def)

lemma length_digits_rev: "2 \<le> base \<Longrightarrow> x < base ^ Suc n \<Longrightarrow> length (digits_rev base x) \<le> Suc n"
proof (induction n arbitrary: x)
  case 0
  then show ?case by (simp add: digits_rev.simps [of base x])
next
  case (Suc n)
  have "x div base < base ^ Suc n"
    using Suc.prems by (simp add: less_mult_imp_div_less mult.commute)
  then show ?case using Suc by (simp add: digits_rev.simps [of base x])
qed

text \<open>Reading a digit sequence back, least significant digit first.\<close>

definition digit_val :: "char \<Rightarrow> nat" where
  "digit_val c = of_char c - 48"

fun value_rev :: "string \<Rightarrow> nat" where
  "value_rev [] = 0"
| "value_rev (c # cs) = digit_val c + 10 * value_rev cs"

lemma less_10_cases:
  "(d :: nat) < 10 \<Longrightarrow> d = 0 \<or> d = 1 \<or> d = 2 \<or> d = 3 \<or> d = 4 \<or> d = 5 \<or> d = 6 \<or> d = 7 \<or> d = 8 \<or> d = 9"
  by arith

lemma digit_char_of_char: "d < 10 \<Longrightarrow> (of_char (digit_char d) :: nat) = 48 + d"
  by (drule less_10_cases) (auto simp: digit_char_def)

lemma digits_rev_dec: "c \<in> set (digits_rev 10 x) \<Longrightarrow> 48 \<le> (of_char c :: nat) \<and> of_char c \<le> (57 :: nat)"
proof (induction x rule: less_induct)
  case (less x)
  have d: "x mod 10 < 10" by simp
  from less.prems consider "c = digit_char (x mod 10)"
    | "x div 10 \<noteq> 0" "c \<in> set (digits_rev 10 (x div 10))"
    by (subst (asm) digits_rev.simps) (auto split: if_splits)
  then show ?case
  proof cases
    case 1
    then show ?thesis using digit_char_of_char [OF d] d by simp
  next
    case 2
    then show ?thesis using less.IH [of "x div 10"] by simp
  qed
qed

lemma value_digits_rev: "value_rev (digits_rev 10 x) = x"
proof (induction x rule: less_induct)
  case (less x)
  have "value_rev (digits_rev 10 x) = x mod 10 + 10 * (x div 10)"
  proof (cases "x div 10 = 0")
    case True
    then show ?thesis
      using digit_char_of_char [of "x mod 10"]
      by (subst digits_rev.simps) (simp add: digit_val_def)
  next
    case False
    then have "value_rev (digits_rev 10 (x div 10)) = x div 10" using less.IH by simp
    with False show ?thesis
      using digit_char_of_char [of "x mod 10"]
      by (subst digits_rev.simps) (simp add: digit_val_def)
  qed
  then show ?case by simp
qed

section \<open>Properties\<close>

text \<open>
  C28: \<open>printint\<close> never overruns its \<open>char buf[20]\<close>: for every 64-bit argument, both bases
  and with or without sign, it stores at most 20 characters.
\<close>

theorem printint_buf_bound:
  assumes "- (2 ^ 63) \<le> xx" and "xx < 2 ^ 64" and "base = 10 \<or> base = 16"
  shows "length (printint_buf xx base sign) \<le> 20"
proof -
  have dec: "length (digits_rev base (nat (- xx))) \<le> 19" if "xx < 0"
    using that assms length_digits_rev [of base "nat (- xx)" 18] by auto
  have "xx mod 2 ^ 64 < 2 ^ 64" by simp
  then have "nat (xx mod 2 ^ 64) < base ^ Suc 19" using assms(3) by auto
  then have "length (digits_rev base (nat (xx mod 2 ^ 64))) \<le> 20"
    using assms(3) length_digits_rev [of base "nat (xx mod 2 ^ 64)" 19] by auto
  with dec show ?thesis by (auto simp: printint_buf_def Let_def)
qed

theorem printint_buf_bound_witness: "length (printint_buf (- 9223372036854775808) 10 True) \<le> 20"
  by (rule printint_buf_bound) simp_all

end
