(* ===== verification/Sched.thy ===== *)
theory Sched
  imports Printf
begin

text \<open>
  The CFS scheduler and process state changes of \<open>kernel/proc.c\<close>: load weights, the global
  minimum vruntime, the scheduler's choice, \<open>sched\<close>, \<open>yield\<close>, \<open>sleep\<close>, \<open>wakeup\<close>, \<open>kkill\<close>,
  and the charge of one timer tick from \<open>kernel/trap.c\<close>.

  Each function runs under the locks the source takes, so it is one transition of the
  kernel state.  \<open>swtch\<close> splits a function in two: \<open>scheduler\<close> is one pass of its loop up
  to the switch into the chosen process; \<open>sched\<close> hands the CPU back (\<open>c->proc = 0\<close>); what
  \<open>sleep\<close> does after its switch returns is \<open>sleep_resume\<close>.
\<close>

section \<open>CFS accounting\<close>

definition NICE_0_LOAD :: u64 where "NICE_0_LOAD = 1024"
definition CFS_WMULT :: u64 where "CFS_WMULT = push_bit 20 1"
definition CFS_WAKEUP_BONUS :: u64 where "CFS_WAKEUP_BONUS = 1000000"

definition cfs_weight :: "nat list" where
  "cfs_weight = [
     88761, 71755, 56483, 46273, 36291,
     29154, 23254, 18705, 14949, 11916,
      9548,  7620,  6100,  4904,  3906,
      3121,  2501,  1991,  1586,  1277,
      1024,   820,   655,   526,   423,
       335,   272,   215,   172,   137,
       110,    87,    70,    56,    45,
        36,    29,    23,    18,    15,
        12]"

definition cfs_vdelta :: "int \<Rightarrow> u64" where
  "cfs_vdelta priority =
     (let idx = wrap32 (priority + 20);
          idx = (if idx < 0 then 0 else idx);
          idx = (if idx > 40 then 40 else idx)
      in CFS_WMULT * NICE_0_LOAD div of_nat (cfs_weight ! nat idx))"

definition cfs_min :: "kernel \<Rightarrow> u64" where
  "cfs_min k = k_cfs_min k"

definition cfs_advance_min :: "u64 \<Rightarrow> kernel \<Rightarrow> kernel" where
  "cfs_advance_min v k = (if v > k_cfs_min k then k\<lparr>k_cfs_min := v\<rparr> else k)"

section \<open>The scheduler\<close>

definition procinit :: "kernel \<Rightarrow> kernel" where
  "procinit k =
     k\<lparr>k_procs := map (\<lambda>(i, p). p\<lparr>p_state := UNUSED, p_kstack := KSTACK i\<rparr>)
         (enumerate 0 (k_procs k))\<rparr>"

definition allocpid :: "kernel \<Rightarrow> int \<times> kernel" where
  "allocpid k = (k_nextpid k, k\<lparr>k_nextpid := wrap32 (k_nextpid k + 1)\<rparr>)"

definition cfs_better :: "proc \<Rightarrow> (nat \<times> u64 \<times> u32) option \<Rightarrow> bool" where
  "cfs_better p best =
     (case best of
        None \<Rightarrow> True
      | Some (b, best_vr, best_ct) \<Rightarrow>
          p_vruntime p < best_vr \<or> (p_vruntime p = best_vr \<and> p_creation_tick p < best_ct))"

fun cfs_scan :: "proc list \<Rightarrow> nat \<Rightarrow> (nat \<times> u64 \<times> u32) option \<Rightarrow> (nat \<times> u64 \<times> u32) option" where
  "cfs_scan [] i best = best"
| "cfs_scan (p # ps) i best =
     cfs_scan ps (Suc i)
       (if p_state p = RUNNABLE \<and> cfs_better p best
        then Some (i, p_vruntime p, p_creation_tick p) else best)"

definition scheduler :: "kernel \<Rightarrow> kernel" where
  "scheduler k =
     (case cfs_scan (k_procs k) 0 None of
        None \<Rightarrow> k\<lparr>k_cur := None\<rparr>
      | Some (best, best_vr, best_ct) \<Rightarrow>
          (upd_proc best (\<lambda>p. p\<lparr>p_state := RUNNING\<rparr>) (cfs_advance_min best_vr k))
            \<lparr>k_cur := Some best\<rparr>)"

definition sched :: "kernel \<Rightarrow> kernel option" where
  "sched k =
     (case k_cur k of
        None \<Rightarrow> panic ''sched p->lock''
      | Some p \<Rightarrow>
          if p_state (k_procs k ! p) = RUNNING then panic ''sched RUNNING''
          else Some (k\<lparr>k_cur := None\<rparr>))"

definition yield :: "kernel \<Rightarrow> kernel option" where
  "yield k =
     (case k_cur k of
        None \<Rightarrow> panic ''yield''
      | Some p \<Rightarrow> sched (upd_proc p (\<lambda>q. q\<lparr>p_state := RUNNABLE\<rparr>) k))"

definition sleep :: "wchan \<Rightarrow> kernel \<Rightarrow> kernel option" where
  "sleep chan k =
     (case k_cur k of
        None \<Rightarrow> panic ''sleep''
      | Some p \<Rightarrow> sched (upd_proc p (\<lambda>q. q\<lparr>p_chan := Some chan, p_state := SLEEPING\<rparr>) k))"

definition sleep_resume :: "kernel \<Rightarrow> kernel" where
  "sleep_resume k =
     (case k_cur k of None \<Rightarrow> k | Some p \<Rightarrow> upd_proc p (\<lambda>q. q\<lparr>p_chan := None\<rparr>) k)"

definition wake_vruntime :: "u64 \<Rightarrow> u64 \<Rightarrow> u64" where
  "wake_vruntime mvr v =
     (let base = (if v > mvr then v else mvr)
      in if base > CFS_WAKEUP_BONUS then base - CFS_WAKEUP_BONUS else 0)"

definition wake_proc :: "wchan \<Rightarrow> u64 \<Rightarrow> proc \<Rightarrow> proc" where
  "wake_proc chan mvr p =
     (if p_state p = SLEEPING \<and> p_chan p = Some chan
      then p\<lparr>p_state := RUNNABLE, p_vruntime := wake_vruntime mvr (p_vruntime p)\<rparr>
      else p)"

definition wakeup :: "wchan \<Rightarrow> kernel \<Rightarrow> kernel" where
  "wakeup chan k =
     k\<lparr>k_procs := map (\<lambda>(i, p). if Some i \<noteq> k_cur k then wake_proc chan (cfs_min k) p else p)
         (enumerate 0 (k_procs k))\<rparr>"

text \<open>The search of the process table by pid, as in \<open>kkill\<close>, \<open>sys_setpriority\<close>, \<open>sys_getpriority\<close>.\<close>

fun find_pid :: "proc list \<Rightarrow> int \<Rightarrow> nat option" where
  "find_pid [] pid = None"
| "find_pid (p # ps) pid =
     (if p_pid p = pid then Some 0 else map_option Suc (find_pid ps pid))"

definition kkill :: "int \<Rightarrow> kernel \<Rightarrow> int \<times> kernel" where
  "kkill pid k =
     (case find_pid (k_procs k) pid of
        None \<Rightarrow> (- 1, k)
      | Some i \<Rightarrow>
          (0, upd_proc i (\<lambda>p. p\<lparr>p_killed := True,
                p_state := (if p_state p = SLEEPING then RUNNABLE else p_state p)\<rparr>) k))"

definition setkilled :: "nat \<Rightarrow> kernel \<Rightarrow> kernel" where
  "setkilled i k = upd_proc i (\<lambda>p. p\<lparr>p_killed := True\<rparr>) k"

definition killed :: "nat \<Rightarrow> kernel \<Rightarrow> bool" where
  "killed i k = p_killed (k_procs k ! i)"

text \<open>The charge of a timer tick to the running process, in \<open>usertrap\<close> and \<open>kerneltrap\<close>.\<close>

definition charge_tick :: "kernel \<Rightarrow> kernel" where
  "charge_tick k =
     (case k_cur k of
        None \<Rightarrow> k
      | Some p \<Rightarrow> upd_proc p (\<lambda>q. q\<lparr>p_vruntime := p_vruntime q + cfs_vdelta (p_priority q)\<rparr>) k)"

section \<open>The process listing\<close>

fun state_name :: "procstate \<Rightarrow> string" where
  "state_name UNUSED = ''unused''"
| "state_name USED = ''used''"
| "state_name SLEEPING = ''sleep ''"
| "state_name RUNNABLE = ''runble''"
| "state_name RUNNING = ''run   ''"
| "state_name ZOMBIE = ''zombie''"

definition procdump_line :: "proc \<Rightarrow> kernel \<Rightarrow> kernel" where
  "procdump_line p k =
     (if p_state p = UNUSED then k
      else printf [CHR 0x0A] []
        (printf ''%d %s %s prio=%d%s%s''
           [VInt (p_pid p), VStr (Some (state_name (p_state p))), VStr (Some (p_name p)),
            VInt (p_priority p), VStr (Some (if p_priority p < 0 then '' [K]'' else [])),
            VStr (Some (if p_is_agent p then '' [A]'' else []))] k))"

definition procdump :: "kernel \<Rightarrow> kernel" where
  "procdump k = fold procdump_line (k_procs k) (printf [CHR 0x0A] [] k)"

section \<open>Facts about the choice\<close>

definition cfs_le :: "proc \<Rightarrow> proc \<Rightarrow> bool" where
  "cfs_le p q \<longleftrightarrow> p_vruntime p < p_vruntime q \<or>
     (p_vruntime p = p_vruntime q \<and> p_creation_tick p \<le> p_creation_tick q)"

lemma cfs_le_refl [simp]: "cfs_le p p"
  by (simp add: cfs_le_def)

lemma cfs_le_trans: "cfs_le p q \<Longrightarrow> cfs_le q r \<Longrightarrow> cfs_le p r"
  by (auto simp: cfs_le_def)

lemma cfs_le_total: "cfs_le p q \<or> cfs_le q p"
  by (auto simp: cfs_le_def)

definition scan_key :: "proc list \<Rightarrow> nat \<Rightarrow> nat \<times> u64 \<times> u32" where
  "scan_key ps i = (i, p_vruntime (ps ! i), p_creation_tick (ps ! i))"

lemma cfs_scan_spec:
  assumes "best = None \<longleftrightarrow> (\<forall>j < i. p_state (ps ! j) \<noteq> RUNNABLE)"
    and "\<And>b. best = Some b \<Longrightarrow> \<exists>m < i. b = scan_key ps m \<and> p_state (ps ! m) = RUNNABLE \<and>
        (\<forall>j < i. p_state (ps ! j) = RUNNABLE \<longrightarrow> cfs_le (ps ! m) (ps ! j))"
    and "i + length rest = length ps" and "rest = drop i ps"
  shows "(cfs_scan rest i best = None \<longleftrightarrow> (\<forall>j < length ps. p_state (ps ! j) \<noteq> RUNNABLE)) \<and>
    (\<forall>b. cfs_scan rest i best = Some b \<longrightarrow>
       (\<exists>m < length ps. b = scan_key ps m \<and> p_state (ps ! m) = RUNNABLE \<and>
          (\<forall>j < length ps. p_state (ps ! j) = RUNNABLE \<longrightarrow> cfs_le (ps ! m) (ps ! j))))"
  using assms
proof (induction rest arbitrary: i best)
  case Nil
  then have "i = length ps" by simp
  with Nil.prems(1,2) show ?case by simp
next
  case (Cons p rest)
  from Cons.prems(3,4) have i: "i < length ps" and p: "p = ps ! i" and rest: "rest = drop (Suc i) ps"
    using drop_eq_ConsD by metis+
  let ?best = "if p_state p = RUNNABLE \<and> cfs_better p best
      then Some (i, p_vruntime p, p_creation_tick p) else best"
  have 1: "?best = None \<longleftrightarrow> (\<forall>j < Suc i. p_state (ps ! j) \<noteq> RUNNABLE)"
    using Cons.prems(1) p by (auto simp: less_Suc_eq cfs_better_def split: option.splits)
  have 2: "\<exists>m < Suc i. b = scan_key ps m \<and> p_state (ps ! m) = RUNNABLE \<and>
        (\<forall>j < Suc i. p_state (ps ! j) = RUNNABLE \<longrightarrow> cfs_le (ps ! m) (ps ! j))"
    if b: "?best = Some b" for b
  proof (cases "p_state p = RUNNABLE \<and> cfs_better p best")
    case True
    have "cfs_le p (ps ! j)" if j: "j < i" "p_state (ps ! j) = RUNNABLE" for j
    proof -
      obtain c where c: "best = Some c" using Cons.prems(1) j by (cases best) auto
      from Cons.prems(2) [OF c] obtain m where m: "m < i" "c = scan_key ps m"
        "\<forall>j < i. p_state (ps ! j) = RUNNABLE \<longrightarrow> cfs_le (ps ! m) (ps ! j)" by blast
      have "cfs_le p (ps ! m)" using True c m(2) by (auto simp: cfs_better_def scan_key_def cfs_le_def)
      with m(3) j show ?thesis by (blast intro: cfs_le_trans)
    qed
    with True b p show ?thesis by (intro exI [of _ i]) (auto simp: scan_key_def less_Suc_eq)
  next
    case False
    then have c: "best = Some b" using b by auto
    from Cons.prems(2) [OF c] obtain m where m: "m < i" "b = scan_key ps m" "p_state (ps ! m) = RUNNABLE"
      "\<forall>j < i. p_state (ps ! j) = RUNNABLE \<longrightarrow> cfs_le (ps ! m) (ps ! j)" by blast
    have "p_state p = RUNNABLE \<Longrightarrow> cfs_le (ps ! m) p"
      using False c m(2) by (auto simp: cfs_better_def scan_key_def cfs_le_def not_less)
    with m p show ?thesis by (intro exI [of _ m]) (auto simp: less_Suc_eq)
  qed
  show ?case using Cons.IH [OF 1 2] Cons.prems(3) rest by simp
qed

lemma cfs_scan_none: "cfs_scan ps 0 None = None \<longleftrightarrow> (\<forall>j < length ps. p_state (ps ! j) \<noteq> RUNNABLE)"
  using cfs_scan_spec [of None 0 ps ps] by simp

lemma cfs_scan_some:
  "cfs_scan ps 0 None = Some (b, vr, ct) \<Longrightarrow>
   b < length ps \<and> vr = p_vruntime (ps ! b) \<and> ct = p_creation_tick (ps ! b) \<and>
   p_state (ps ! b) = RUNNABLE \<and>
   (\<forall>j < length ps. p_state (ps ! j) = RUNNABLE \<longrightarrow> cfs_le (ps ! b) (ps ! j))"
  using cfs_scan_spec [of None 0 ps ps] by (auto simp: scan_key_def)

lemma scheduler_cur:
  assumes "k_cur (scheduler k) = Some b"
  shows "b < length (k_procs k) \<and> p_state (k_procs k ! b) = RUNNABLE \<and>
    (\<forall>j < length (k_procs k). p_state (k_procs k ! j) = RUNNABLE \<longrightarrow>
        cfs_le (k_procs k ! b) (k_procs k ! j)) \<and>
    k_procs (scheduler k) = (k_procs k)[b := (k_procs k ! b)\<lparr>p_state := RUNNING\<rparr>]"
  using assms cfs_scan_some [of "k_procs k"]
  by (auto simp: scheduler_def cfs_advance_min_def upd_proc_def split: option.splits if_splits)

lemma scheduler_idle:
  "k_cur (scheduler k) = None \<longleftrightarrow> (\<forall>j < length (k_procs k). p_state (k_procs k ! j) \<noteq> RUNNABLE)"
  using cfs_scan_none [of "k_procs k"] by (auto simp: scheduler_def split: option.splits)

section \<open>Facts about wakeup\<close>

lemma length_wakeup [simp]: "length (k_procs (wakeup c k)) = length (k_procs k)"
  by (simp add: wakeup_def)

lemma wakeup_nth:
  "i < length (k_procs k) \<Longrightarrow>
   k_procs (wakeup c k) ! i =
     (if k_cur k \<noteq> Some i then wake_proc c (k_cfs_min k) (k_procs k ! i) else k_procs k ! i)"
  by (auto simp: wakeup_def nth_enumerate_eq cfs_min_def)

lemma wakeup_frame [simp]:
  "k_cur (wakeup c k) = k_cur k" "k_nextpid (wakeup c k) = k_nextpid k"
  "k_initproc (wakeup c k) = k_initproc k" "k_cfs_min (wakeup c k) = k_cfs_min k"
  "k_ticks (wakeup c k) = k_ticks k" "k_out (wakeup c k) = k_out k"
  "k_mem (wakeup c k) = k_mem k" "k_freelist (wakeup c k) = k_freelist k"
  "k_end (wakeup c k) = k_end k" "k_etext (wakeup c k) = k_etext k"
  "k_trampoline (wakeup c k) = k_trampoline k" "k_kpgtbl (wakeup c k) = k_kpgtbl k"
  "k_ftable (wakeup c k) = k_ftable k" "k_pipes (wakeup c k) = k_pipes k"
  "k_blocks (wakeup c k) = k_blocks k" "k_sb (wakeup c k) = k_sb k"
  "k_log (wakeup c k) = k_log k" "k_itable (wakeup c k) = k_itable k"
  "k_cons (wakeup c k) = k_cons k" "k_intake (wakeup c k) = k_intake k"
  "k_agentq (wakeup c k) = k_agentq k" "k_pending (wakeup c k) = k_pending k"
  "k_deny (wakeup c k) = k_deny k" "k_confirm (wakeup c k) = k_confirm k"
  "k_cache (wakeup c k) = k_cache k" "k_rec_buf (wakeup c k) = k_rec_buf k"
  by (simp_all add: wakeup_def)

lemma find_pid_some:
  "find_pid ps pid = Some i \<Longrightarrow> i < length ps \<and> p_pid (ps ! i) = pid \<and> (\<forall>j < i. p_pid (ps ! j) \<noteq> pid)"
proof (induction ps arbitrary: i)
  case (Cons p ps)
  then show ?case by (cases i) (auto simp: less_Suc_eq_0_disj split: if_splits)
qed simp

lemma find_pid_none: "find_pid ps pid = None \<longleftrightarrow> (\<forall>p \<in> set ps. p_pid p \<noteq> pid)"
  by (induction ps) auto

lemma procs_wakeup_keep:
  assumes "i < length (k_procs k)"
  shows "p_pid (k_procs (wakeup c k) ! i) = p_pid (k_procs k ! i)"
    "p_is_agent (k_procs (wakeup c k) ! i) = p_is_agent (k_procs k ! i)"
    "p_priority (k_procs (wakeup c k) ! i) = p_priority (k_procs k ! i)"
    "p_killed (k_procs (wakeup c k) ! i) = p_killed (k_procs k ! i)"
    "p_jail_root (k_procs (wakeup c k) ! i) = p_jail_root (k_procs k ! i)"
  using assms by (auto simp: wakeup_nth wake_proc_def)

section \<open>Rounds of one tick\<close>

text \<open>
  One round: the scheduler picks a process, it runs for exactly one timer tick, which is
  charged to it, and yields.
\<close>

definition cfs_round :: "kernel \<Rightarrow> kernel option" where
  "cfs_round k = yield (charge_tick (scheduler k))"

fun cfs_rounds :: "nat \<Rightarrow> kernel \<Rightarrow> kernel option" where
  "cfs_rounds 0 k = Some k"
| "cfs_rounds (Suc n) k = Option.bind (cfs_round k) (cfs_rounds n)"

definition wait_bound :: "kernel \<Rightarrow> nat \<Rightarrow> nat" where
  "wait_bound k p =
     sum_list (map (\<lambda>q. if p_state q = RUNNABLE
       then Suc (unat (p_vruntime (k_procs k ! p))) - unat (p_vruntime q) else 0) (k_procs k))"

lemma length_cfs_weight [simp]: "length cfs_weight = 41"
  by (simp add: cfs_weight_def)

lemma cfs_weight_range: "i < 41 \<Longrightarrow> 12 \<le> cfs_weight ! i \<and> cfs_weight ! i \<le> 88761"
proof -
  have "\<forall>w \<in> set cfs_weight. 12 \<le> w \<and> w \<le> 88761" by (simp add: cfs_weight_def)
  then show "i < 41 \<Longrightarrow> 12 \<le> cfs_weight ! i \<and> cfs_weight ! i \<le> 88761" by simp
qed

definition cfs_slot :: "int \<Rightarrow> nat" where
  "cfs_slot priority = nat (min 40 (max 0 (wrap32 (priority + 20))))"

lemma cfs_slot_less [simp]: "cfs_slot priority < 41"
  by (auto simp: cfs_slot_def)

lemma unat_cfs_vdelta: "unat (cfs_vdelta priority) = 2 ^ 30 div cfs_weight ! cfs_slot priority"
proof -
  let ?w = "cfs_weight ! cfs_slot priority"
  have w: "unat (of_nat ?w :: u64) = ?w"
    using cfs_weight_range [OF cfs_slot_less, of priority] by (simp add: unat_of_nat)
  have "cfs_vdelta priority = 2 ^ 30 div of_nat ?w"
    by (auto simp: cfs_vdelta_def cfs_slot_def Let_def CFS_WMULT_def NICE_0_LOAD_def max_def min_def)
  then show ?thesis by (simp add: unat_div w)
qed

lemma cfs_vdelta_range: "12097 \<le> unat (cfs_vdelta priority) \<and> unat (cfs_vdelta priority) \<le> 89478485"
proof -
  have w: "12 \<le> cfs_weight ! cfs_slot priority" "cfs_weight ! cfs_slot priority \<le> 88761"
    using cfs_weight_range [OF cfs_slot_less] by auto
  have "2 ^ 30 div cfs_weight ! cfs_slot priority \<le> 2 ^ 30 div 12"
    using w(1) by (intro div_le_mono2) auto
  moreover have "2 ^ 30 div 88761 \<le> 2 ^ 30 div cfs_weight ! cfs_slot priority"
    using w by (intro div_le_mono2) auto
  ultimately show ?thesis by (simp add: unat_cfs_vdelta)
qed

lemma cfs_delta_steps: "sorted_wrt (<) (map (\<lambda>w. 2 ^ 30 div w) cfs_weight)"
  by (simp add: cfs_weight_def)

lemma charge_round:
  assumes "k_cur (scheduler k) = Some b"
  shows "\<exists>k'. cfs_round k = Some k' \<and>
    k_procs k' = (k_procs k)[b := (k_procs k ! b)\<lparr>p_vruntime :=
        p_vruntime (k_procs k ! b) + cfs_vdelta (p_priority (k_procs k ! b))\<rparr>]"
proof -
  let ?ps = "k_procs k"
  have b: "b < length ?ps" "p_state (?ps ! b) = RUNNABLE"
    and ps: "k_procs (scheduler k) = ?ps[b := (?ps ! b)\<lparr>p_state := RUNNING\<rparr>]"
    using scheduler_cur [OF assms] by auto
  have same: "(?ps ! b)\<lparr>p_vruntime := v, p_state := RUNNABLE\<rparr> = (?ps ! b)\<lparr>p_vruntime := v\<rparr>" for v
    using b(2) by (cases "?ps ! b") simp
  show ?thesis
    using assms b ps by (simp add: same cfs_round_def charge_tick_def yield_def sched_def upd_proc_def)
qed

lemma wait_bound_step:
  assumes p: "p < length (k_procs k)" "unat (p_vruntime (k_procs k ! p)) + 89478485 < 2 ^ 64"
    and cur: "k_cur (scheduler k) = Some b" "b \<noteq> p" and run: "p_state (k_procs k ! p) = RUNNABLE"
  shows "\<exists>k'. cfs_round k = Some k' \<and> k_procs k' ! p = k_procs k ! p \<and>
    length (k_procs k') = length (k_procs k) \<and> wait_bound k' p < wait_bound k p"
proof -
  let ?ps = "k_procs k" and ?v = "\<lambda>i. unat (p_vruntime (k_procs k ! i))"
  have b: "b < length ?ps" "p_state (?ps ! b) = RUNNABLE" and "cfs_le (?ps ! b) (?ps ! p)"
    using scheduler_cur [OF cur(1)] p(1) run by auto
  then have le: "?v b \<le> ?v p" by (auto simp: cfs_le_def word_le_nat_alt word_less_nat_alt)
  let ?d = "cfs_vdelta (p_priority (?ps ! b))"
  obtain k' where k': "cfs_round k = Some k'"
    and ps': "k_procs k' = ?ps[b := (?ps ! b)\<lparr>p_vruntime := p_vruntime (?ps ! b) + ?d\<rparr>]"
    using charge_round [OF cur(1)] by blast
  have "?v b + unat ?d < 2 ^ 64" using le p(2) cfs_vdelta_range [of "p_priority (?ps ! b)"] by linarith
  then have add: "unat (p_vruntime (?ps ! b) + ?d) = ?v b + unat ?d"
    by (simp add: unat_word_ariths)
  have p': "k_procs k' ! p = ?ps ! p" using ps' cur(2) by simp
  let ?f = "\<lambda>q. if p_state q = RUNNABLE then Suc (?v p) - unat (p_vruntime q) else 0"
  have "sum_list (map ?f (k_procs k')) < sum_list (map ?f ?ps)"
    unfolding ps' using b le add cfs_vdelta_range [of "p_priority (?ps ! b)"]
    by (intro sum_list_map_update_less) auto
  then have "wait_bound k' p < wait_bound k p" unfolding wait_bound_def p' .
  with k' p' ps' show ?thesis by auto
qed

lemma cfs_chosen:
  assumes "p < length (k_procs k)" and "p_state (k_procs k ! p) = RUNNABLE"
    and "unat (p_vruntime (k_procs k ! p)) + 89478485 < 2 ^ 64"
  shows "\<exists>n k'. n \<le> wait_bound k p \<and> cfs_rounds n k = Some k' \<and> k_cur (scheduler k') = Some p"
  using assms
proof (induction "wait_bound k p" arbitrary: k rule: less_induct)
  case less
  obtain b where b: "k_cur (scheduler k) = Some b"
    using scheduler_idle [of k] less.prems by (cases "k_cur (scheduler k)") auto
  show ?case
  proof (cases "b = p")
    case True
    with b show ?thesis by (intro exI [of _ 0] exI [of _ k]) simp
  next
    case False
    obtain k1 where k1: "cfs_round k = Some k1" "k_procs k1 ! p = k_procs k ! p"
      "length (k_procs k1) = length (k_procs k)" "wait_bound k1 p < wait_bound k p"
      using wait_bound_step [OF less.prems(1,3) b False less.prems(2)] by blast
    then obtain n k' where "n \<le> wait_bound k1 p" "cfs_rounds n k1 = Some k'" "k_cur (scheduler k') = Some p"
      using less.hyps [OF k1(4)] less.prems by auto
    with k1 show ?thesis by (intro exI [of _ "Suc n"] exI [of _ k']) simp
  qed
qed

section \<open>Properties\<close>

text \<open>
  C7: the scheduler is a correct CFS pick.  If it leaves the CPU idle then no process is
  RUNNABLE; otherwise the process it starts was RUNNABLE, has the least (vruntime, creation
  tick) of all RUNNABLE processes, is now RUNNING, and nothing else in the table changed.
\<close>

theorem scheduler_picks_leftmost:
  "case k_cur (scheduler k) of
     None \<Rightarrow> \<forall>j < length (k_procs k). p_state (k_procs k ! j) \<noteq> RUNNABLE
   | Some b \<Rightarrow> b < length (k_procs k) \<and> p_state (k_procs k ! b) = RUNNABLE \<and>
       (\<forall>j < length (k_procs k). p_state (k_procs k ! j) = RUNNABLE \<longrightarrow>
          p_vruntime (k_procs k ! b) < p_vruntime (k_procs k ! j) \<or>
          p_vruntime (k_procs k ! b) = p_vruntime (k_procs k ! j) \<and>
          p_creation_tick (k_procs k ! b) \<le> p_creation_tick (k_procs k ! j)) \<and>
       k_procs (scheduler k) = (k_procs k)[b := (k_procs k ! b)\<lparr>p_state := RUNNING\<rparr>]"
  using scheduler_cur [of k] scheduler_idle [of k] by (auto simp: cfs_le_def split: option.splits)

theorem scheduler_picks_leftmost_witness:
  "k_cur (scheduler (kernel_boot\<lparr>k_procs :=
      [(proc_boot 0)\<lparr>p_state := RUNNABLE, p_vruntime := 7\<rparr>,
       (proc_boot 1)\<lparr>p_state := RUNNABLE, p_vruntime := 5\<rparr>]\<rparr>)) = Some 1"
  (is "k_cur (scheduler ?k) = _")
  using scheduler_picks_leftmost [of ?k]
  by (auto simp: proc_boot_def less_Suc_eq nth_Cons' split: option.splits if_splits)

text \<open>
  C6: no RUNNABLE process starves.  When every chosen process runs for one tick and yields,
  a RUNNABLE process \<open>p\<close> (whose vruntime is not within one tick of 64-bit overflow) is chosen
  after at most \<open>wait_bound k p\<close> rounds: the sum over the RUNNABLE processes of how far their
  vruntime lags behind that of \<open>p\<close>.
\<close>

theorem cfs_no_starvation:
  assumes "p < length (k_procs k)" and "p_state (k_procs k ! p) = RUNNABLE"
    and "unat (p_vruntime (k_procs k ! p)) + 89478485 < 2 ^ 64"
  shows "\<exists>n k'. n \<le> wait_bound k p \<and> cfs_rounds n k = Some k' \<and> k_cur (scheduler k') = Some p"
  by (rule cfs_chosen [OF assms])

theorem cfs_no_starvation_witness:
  "\<exists>n k'. n \<le> 3 \<and> cfs_rounds n (kernel_boot\<lparr>k_procs :=
      [(proc_boot 0)\<lparr>p_state := RUNNABLE\<rparr>, (proc_boot 1)\<lparr>p_state := RUNNABLE, p_vruntime := 1\<rparr>]\<rparr>)
      = Some k' \<and> k_cur (scheduler k') = Some 1"
  (is "\<exists>n k'. n \<le> 3 \<and> cfs_rounds n ?k = Some k' \<and> _ k'")
proof -
  have "wait_bound ?k 1 = 3" by (simp add: wait_bound_def proc_boot_def)
  moreover have "\<exists>n k'. n \<le> wait_bound ?k 1 \<and> cfs_rounds n ?k = Some k' \<and> k_cur (scheduler k') = Some 1"
    by (rule cfs_no_starvation) (simp_all add: proc_boot_def)
  ultimately show ?thesis by (simp only:)
qed

text \<open>
  A lower nice value always gets more CPU.  Over the whole range -20..20 the vruntime
  charged for one tick is strictly increasing in the priority, and it lies between 12097
  and 89478485, so every tick makes progress and none is charged more than that.
\<close>

theorem cfs_vdelta_strict_mono:
  assumes "- 20 \<le> a" and "a < b" and "b \<le> 20"
  shows "12097 \<le> unat (cfs_vdelta a) \<and> cfs_vdelta a < cfs_vdelta b \<and> unat (cfs_vdelta b) \<le> 89478485"
proof -
  have "cfs_slot a < cfs_slot b" using assms by (simp add: cfs_slot_def)
  then have "2 ^ 30 div cfs_weight ! cfs_slot a < 2 ^ 30 div cfs_weight ! cfs_slot b"
    using sorted_wrt_nth_less [OF cfs_delta_steps, of "cfs_slot a" "cfs_slot b"] by simp
  then have "cfs_vdelta a < cfs_vdelta b" by (simp add: word_less_nat_alt unat_cfs_vdelta)
  then show ?thesis using cfs_vdelta_range [of a] cfs_vdelta_range [of b] by simp
qed

theorem cfs_vdelta_strict_mono_witness: "cfs_vdelta (- 5) < cfs_vdelta 10"
  using cfs_vdelta_strict_mono [of "- 5" 10] by simp



end
