(* ===== verification/Fs.thy ===== *)
theory Fs
  imports Vm Sched
begin

text \<open>
  The file system, \<open>kernel/fs.c\<close>, with \<open>create\<close> from \<open>kernel/sysfile.c\<close>, the transaction
  brackets of \<open>kernel/log.c\<close> and \<open>either_copyin\<close>/\<open>either_copyout\<close> of \<open>kernel/proc.c\<close>.  Blocks
  are the buffer cache's view of the disk (\<open>bread\<close> reads \<open>k_blocks\<close>, a change of \<open>bp->data\<close>
  updates it) and \<open>log_write\<close> records the block in the running transaction.  \<open>None\<close> stands for
  a panic, or for a wait that this execution, run without interleaving, cannot leave (a sleep
  lock held by someone else, a full log).  Destination and source of \<open>readi\<close> and \<open>writei\<close> are
  a user address or a kernel buffer; \<open>readi\<close> returns the bytes it stored in a kernel buffer.
\<close>

unbundle bit_operations_syntax

section \<open>Copies to and from user space\<close>

datatype copy_src = User_src u64 | Kernel_src string

definition either_copyout :: "u64 option \<Rightarrow> string \<Rightarrow> u64 \<Rightarrow> kernel \<Rightarrow> (int \<times> kernel) option" where
  "either_copyout dst src len k =
     (case dst of
        Some va \<Rightarrow> do { p \<leftarrow> k_cur k; copyout (p_pagetable (k_procs k ! p)) va src len k }
      | None \<Rightarrow> Some (0, k))"

definition either_copyin :: "copy_src \<Rightarrow> u64 \<Rightarrow> kernel \<Rightarrow> (int \<times> char list \<times> kernel) option" where
  "either_copyin src len k =
     (case src of
        User_src va \<Rightarrow> do { p \<leftarrow> k_cur k; copyin (p_pagetable (k_procs k ! p)) va len k }
      | Kernel_src s \<Rightarrow> Some (0, mem_bytes s (uint len), k))"

fun src_advance :: "copy_src \<Rightarrow> u64 \<Rightarrow> copy_src" where
  "src_advance (User_src va) m = User_src (va + m)"
| "src_advance (Kernel_src s) m = Kernel_src (drop (unat m) s)"

section \<open>Transactions\<close>

definition begin_op :: "kernel \<Rightarrow> kernel option" where
  "begin_op k =
     (let l = k_log k
      in if lg_committing l \<or>
            int (length (lg_blocks l)) + (lg_outstanding l + 1) * int MAXOPBLOCKS > int LOGBLOCKS
         then None
         else Some (k\<lparr>k_log := l\<lparr>lg_outstanding := lg_outstanding l + 1\<rparr>\<rparr>))"

text \<open>
  \<open>end_op\<close> with \<open>commit\<close> as one step: the blocks of the transaction reach the disk, which
  leaves their contents as the buffer cache shows them, and the log is empty.
\<close>

definition end_op :: "kernel \<Rightarrow> kernel option" where
  "end_op k =
     (let l = k_log k; out = lg_outstanding l - 1
      in if lg_committing l then panic ''log.committing''
         else if out = 0
         then Some (wakeup Ch_log (k\<lparr>k_log := l\<lparr>lg_outstanding := out, lg_blocks := []\<rparr>\<rparr>))
         else Some (wakeup Ch_log (k\<lparr>k_log := l\<lparr>lg_outstanding := out\<rparr>\<rparr>)))"

definition log_write :: "u32 \<Rightarrow> kernel \<Rightarrow> kernel option" where
  "log_write b k =
     (let l = k_log k
      in if length (lg_blocks l) \<ge> LOGBLOCKS then panic ''too big a transaction''
         else if lg_outstanding l < 1 then panic ''log_write outside of trans''
         else Some (k\<lparr>k_log := l\<lparr>lg_blocks :=
                (if b \<in> set (lg_blocks l) then lg_blocks l else lg_blocks l @ [b])\<rparr>\<rparr>))"

definition set_block :: "u32 \<Rightarrow> string \<Rightarrow> kernel \<Rightarrow> kernel" where
  "set_block b bs k = k\<lparr>k_blocks := (k_blocks k)(b := bs)\<rparr>"

definition put_block :: "u32 \<Rightarrow> string \<Rightarrow> kernel \<Rightarrow> kernel option" where
  "put_block b bs k = log_write b (set_block b bs k)"

section \<open>Blocks\<close>

definition FSMAGIC :: u32 where "FSMAGIC = 0x10203040"
definition IPB :: u32 where "IPB = 16"
definition BPB :: u32 where "BPB = 8192"

definition IBLOCK :: "u32 \<Rightarrow> superblock \<Rightarrow> u32" where
  "IBLOCK i sb = i div IPB + sb_inodestart sb"

definition BBLOCK :: "u32 \<Rightarrow> superblock \<Rightarrow> u32" where
  "BBLOCK b sb = b div BPB + sb_bmapstart sb"

definition readsb :: "kernel \<Rightarrow> superblock" where
  "readsb k =
     (let d = k_blocks k 1
      in \<lparr>sb_magic = load32 d 0, sb_size = load32 d 4, sb_nblocks = load32 d 8,
          sb_ninodes = load32 d 12, sb_nlog = load32 d 16, sb_logstart = load32 d 20,
          sb_inodestart = load32 d 24, sb_bmapstart = load32 d 28\<rparr>)"

definition bzero :: "u32 \<Rightarrow> kernel \<Rightarrow> kernel option" where
  "bzero bno k = put_block bno (replicate BSIZE NUL) k"

definition bm_bit :: "string \<Rightarrow> nat \<Rightarrow> bool" where
  "bm_bit data bi = bit (of_char (deref (drop (bi div 8) data)) :: nat) (bi mod 8)"

definition bm_set :: "string \<Rightarrow> nat \<Rightarrow> string" where
  "bm_set data bi =
     data[bi div 8 := char_of (of_char (data ! (bi div 8)) OR push_bit (bi mod 8) 1 :: nat)]"

definition bm_clear :: "string \<Rightarrow> nat \<Rightarrow> string" where
  "bm_clear data bi =
     data[bi div 8 := char_of (unset_bit (bi mod 8) (of_char (data ! (bi div 8)) :: nat))]"

fun first_free :: "string \<Rightarrow> nat list \<Rightarrow> nat option" where
  "first_free data [] = None"
| "first_free data (bi # bis) = (if bm_bit data bi then first_free data bis else Some bi)"

fun balloc_loop :: "nat list \<Rightarrow> kernel \<Rightarrow> (u32 \<times> kernel) option" where
  "balloc_loop [] k = Some (0, printf (''balloc: out of blocks'' @ [CHR 0x0A]) [] k)"
| "balloc_loop (b # bs) k =
     (let bno = BBLOCK (of_nat b) (k_sb k); data = k_blocks k bno
      in case first_free data [0..<min 8192 (unat (sb_size (k_sb k)) - b)] of
           Some bi \<Rightarrow>
             do { k \<leftarrow> put_block bno (bm_set data bi) k;
                  k \<leftarrow> bzero (of_nat (b + bi)) k;
                  Some (of_nat (b + bi), k) }
         | None \<Rightarrow> balloc_loop bs k)"

definition balloc :: "kernel \<Rightarrow> (u32 \<times> kernel) option" where
  "balloc k = balloc_loop (map (\<lambda>i. 8192 * i) [0..<(unat (sb_size (k_sb k)) + 8191) div 8192]) k"

definition bfree :: "u32 \<Rightarrow> kernel \<Rightarrow> kernel option" where
  "bfree b k =
     (let bno = BBLOCK b (k_sb k); data = k_blocks k bno; bi = unat (b mod BPB)
      in if \<not> bm_bit data bi then panic ''freeing free block''
         else put_block bno (bm_clear data bi) k)"

section \<open>Inodes\<close>

definition get_short :: "string \<Rightarrow> nat \<Rightarrow> int" where
  "get_short d off = sint (load16 d off)"

definition put_short :: "nat \<Rightarrow> int \<Rightarrow> string \<Rightarrow> string" where
  "put_short off v d = store16 d off (of_int v)"

text \<open>Byte offset of inode \<open>inum\<close> in its block, \<open>(inum % IPB) * sizeof(struct dinode)\<close>.\<close>

definition dinode_off :: "u32 \<Rightarrow> nat" where
  "dinode_off inum = 64 * unat (inum mod IPB)"

definition upd_ino :: "nat \<Rightarrow> (inode \<Rightarrow> inode) \<Rightarrow> kernel \<Rightarrow> kernel" where
  "upd_ino i f k = k\<lparr>k_itable := (k_itable k)[i := f (k_itable k ! i)]\<rparr>"

fun put_addrs :: "u32 list \<Rightarrow> nat \<Rightarrow> string \<Rightarrow> string" where
  "put_addrs [] off d = d"
| "put_addrs (a # as) off d = put_addrs as (off + 4) (store32 d off a)"

definition get_addrs :: "string \<Rightarrow> nat \<Rightarrow> u32 list" where
  "get_addrs d off = map (\<lambda>i. load32 d (off + 4 * i)) [0..<NDIRECT + 1]"

definition dinode_write :: "inode \<Rightarrow> nat \<Rightarrow> string \<Rightarrow> string" where
  "dinode_write i at d =
     put_addrs (i_addrs i) (at + 12)
       (store32 (put_short (at + 6) (i_nlink i) (put_short (at + 4) (i_minor i)
          (put_short (at + 2) (i_major i) (put_short at (i_type i) d)))) (at + 8) (i_size i))"

definition dinode_read :: "string \<Rightarrow> nat \<Rightarrow> inode \<Rightarrow> inode" where
  "dinode_read d at i =
     i\<lparr>i_type := get_short d at, i_major := get_short d (at + 2), i_minor := get_short d (at + 4),
       i_nlink := get_short d (at + 6), i_size := load32 d (at + 8), i_addrs := get_addrs d (at + 12)\<rparr>"

definition iupdate :: "nat \<Rightarrow> kernel \<Rightarrow> kernel option" where
  "iupdate ip k =
     (let i = k_itable k ! ip; b = IBLOCK (i_inum i) (k_sb k)
      in put_block b (dinode_write i (dinode_off (i_inum i)) (k_blocks k b)) k)"

fun iget_scan :: "inode list \<Rightarrow> nat \<Rightarrow> u32 \<Rightarrow> u32 \<Rightarrow> nat option \<Rightarrow> nat + nat option" where
  "iget_scan [] n dev inum slot = Inr slot"
| "iget_scan (i # is) n dev inum slot =
     (if i_ref i > 0 \<and> i_dev i = dev \<and> i_inum i = inum then Inl n
      else iget_scan is (Suc n) dev inum
             (if slot = None \<and> i_ref i = 0 then Some n else slot))"

definition iget :: "u32 \<Rightarrow> u32 \<Rightarrow> kernel \<Rightarrow> (nat \<times> kernel) option" where
  "iget dev inum k =
     (case iget_scan (k_itable k) 0 dev inum None of
        Inl ip \<Rightarrow> Some (ip, upd_ino ip (\<lambda>i. i\<lparr>i_ref := i_ref i + 1\<rparr>) k)
      | Inr None \<Rightarrow> panic ''iget: no inodes''
      | Inr (Some ip) \<Rightarrow>
          Some (ip, upd_ino ip (\<lambda>i. i\<lparr>i_dev := dev, i_inum := inum, i_ref := 1, i_valid := False\<rparr>) k))"

definition idup :: "nat \<Rightarrow> kernel \<Rightarrow> nat \<times> kernel" where
  "idup ip k = (ip, upd_ino ip (\<lambda>i. i\<lparr>i_ref := i_ref i + 1\<rparr>) k)"

fun ialloc_loop :: "nat list \<Rightarrow> u32 \<Rightarrow> int \<Rightarrow> kernel \<Rightarrow> (nat option \<times> kernel) option" where
  "ialloc_loop [] dev type k = Some (None, printf (''ialloc: no inodes'' @ [CHR 0x0A]) [] k)"
| "ialloc_loop (inum # inums) dev type k =
     (let b = IBLOCK (of_nat inum) (k_sb k); d = k_blocks k b; at = dinode_off (of_nat inum)
      in if get_short d at = 0
         then
           let d = take at d @ replicate 64 NUL @ drop (at + 64) d;
               d = put_short at type d
           in do { k \<leftarrow> put_block b d k;
                   (ip, k) \<leftarrow> iget dev (of_nat inum) k;
                   Some (Some ip, k) }
         else ialloc_loop inums dev type k)"

definition ialloc :: "u32 \<Rightarrow> int \<Rightarrow> kernel \<Rightarrow> (nat option \<times> kernel) option" where
  "ialloc dev type k = ialloc_loop [1..<unat (sb_ninodes (k_sb k))] dev type k"

definition ilock :: "nat \<Rightarrow> kernel \<Rightarrow> kernel option" where
  "ilock ip k =
     (let i = k_itable k ! ip
      in if i_ref i < 1 then panic ''ilock''
         else if i_locked i then None
         else
           let k = upd_ino ip (\<lambda>i. i\<lparr>i_locked := True\<rparr>) k
           in if i_valid i then Some k
              else
                let d = k_blocks k (IBLOCK (i_inum i) (k_sb k));
                    k = upd_ino ip (\<lambda>i. (dinode_read d (dinode_off (i_inum i)) i)\<lparr>i_valid := True\<rparr>) k
                in if i_type (k_itable k ! ip) = 0 then panic ''ilock: no type'' else Some k)"

definition iunlock :: "nat \<Rightarrow> kernel \<Rightarrow> kernel option" where
  "iunlock ip k =
     (let i = k_itable k ! ip
      in if \<not> i_locked i \<or> i_ref i < 1 then panic ''iunlock''
         else Some (upd_ino ip (\<lambda>i. i\<lparr>i_locked := False\<rparr>) k))"

section \<open>File contents\<close>

definition bmap :: "nat \<Rightarrow> u32 \<Rightarrow> kernel \<Rightarrow> (u32 \<times> kernel) option" where
  "bmap ip bn k =
     (let i = k_itable k ! ip
      in if unat bn < NDIRECT
         then
           let addr = i_addrs i ! unat bn
           in if addr = 0
              then do {
                (addr, k) \<leftarrow> balloc k;
                if addr = 0 then Some (0, k)
                else Some (addr, upd_ino ip (\<lambda>i. i\<lparr>i_addrs := (i_addrs i)[unat bn := addr]\<rparr>) k) }
              else Some (addr, k)
         else if unat bn - NDIRECT < NINDIRECT
         then
           let bn = unat bn - NDIRECT; addr = i_addrs i ! NDIRECT
           in do {
             (addr, k) \<leftarrow>
               (if addr = 0
                then do {
                  (addr, k) \<leftarrow> balloc k;
                  if addr = 0 then Some (0, k)
                  else Some (addr, upd_ino ip (\<lambda>i. i\<lparr>i_addrs := (i_addrs i)[NDIRECT := addr]\<rparr>) k) }
                else Some (addr, k));
             if addr = 0 then Some (0, k)
             else
               let ind = addr; a = load32 (k_blocks k ind) (4 * bn)
               in if a = 0
                  then do {
                    (addr, k) \<leftarrow> balloc k;
                    if addr \<noteq> 0
                    then do { k \<leftarrow> put_block ind (store32 (k_blocks k ind) (4 * bn) addr) k; Some (addr, k) }
                    else Some (0, k) }
                  else Some (a, k) }
         else panic ''bmap: out of range'')"

fun free_blocks :: "u32 list \<Rightarrow> kernel \<Rightarrow> kernel option" where
  "free_blocks [] k = Some k"
| "free_blocks (a # as) k =
     (if a \<noteq> 0 then do { k \<leftarrow> bfree a k; free_blocks as k } else free_blocks as k)"

fun trunc_direct :: "nat list \<Rightarrow> nat \<Rightarrow> kernel \<Rightarrow> kernel option" where
  "trunc_direct [] ip k = Some k"
| "trunc_direct (i # is) ip k =
     (let a = i_addrs (k_itable k ! ip) ! i
      in if a \<noteq> 0
         then do { k \<leftarrow> bfree a k;
                   trunc_direct is ip (upd_ino ip (\<lambda>d. d\<lparr>i_addrs := (i_addrs d)[i := 0]\<rparr>) k) }
         else trunc_direct is ip k)"

text \<open>
  The indirect block is read once: the loop of \<open>itrunc\<close> runs over the entries \<open>a[j]\<close> of the
  locked buffer, and \<open>bfree\<close> changes bitmap blocks only.
\<close>

definition itrunc :: "nat \<Rightarrow> kernel \<Rightarrow> kernel option" where
  "itrunc ip k =
     do { k \<leftarrow> trunc_direct [0..<NDIRECT] ip k;
          let ind = i_addrs (k_itable k ! ip) ! NDIRECT;
          k \<leftarrow> (if ind \<noteq> 0
                then do {
                  k \<leftarrow> free_blocks (map (\<lambda>j. load32 (k_blocks k ind) (4 * j)) [0..<NINDIRECT]) k;
                  k \<leftarrow> bfree ind k;
                  Some (upd_ino ip (\<lambda>d. d\<lparr>i_addrs := (i_addrs d)[NDIRECT := 0]\<rparr>) k) }
                else Some k);
          iupdate ip (upd_ino ip (\<lambda>d. d\<lparr>i_size := 0\<rparr>) k) }"

definition iput :: "nat \<Rightarrow> kernel \<Rightarrow> kernel option" where
  "iput ip k =
     (let i = k_itable k ! ip
      in do {
        k \<leftarrow> (if i_ref i = 1 \<and> i_valid i \<and> i_nlink i = 0
              then if i_locked i then None
              else do {
                k \<leftarrow> itrunc ip (upd_ino ip (\<lambda>d. d\<lparr>i_locked := True\<rparr>) k);
                k \<leftarrow> iupdate ip (upd_ino ip (\<lambda>d. d\<lparr>i_type := 0\<rparr>) k);
                Some (upd_ino ip (\<lambda>d. d\<lparr>i_valid := False, i_locked := False\<rparr>) k) }
              else Some k);
        Some (upd_ino ip (\<lambda>d. d\<lparr>i_ref := i_ref d - 1\<rparr>) k) })"

definition iunlockput :: "nat \<Rightarrow> kernel \<Rightarrow> kernel option" where
  "iunlockput ip k = do { k \<leftarrow> iunlock ip k; iput ip k }"

fun ireclaim_loop :: "nat list \<Rightarrow> u32 \<Rightarrow> kernel \<Rightarrow> kernel option" where
  "ireclaim_loop [] dev k = Some k"
| "ireclaim_loop (inum # inums) dev k =
     (let d = k_blocks k (IBLOCK (of_nat inum) (k_sb k)); at = dinode_off (of_nat inum)
      in if get_short d at \<noteq> 0 \<and> get_short d (at + 6) = 0
         then do {
           (ip, k) \<leftarrow> iget dev (of_nat inum)
                        (printf (''ireclaim: orphaned inode %d'' @ [CHR 0x0A]) [VInt (int inum)] k);
           k \<leftarrow> begin_op k;
           k \<leftarrow> ilock ip k;
           k \<leftarrow> iunlock ip k;
           k \<leftarrow> iput ip k;
           k \<leftarrow> end_op k;
           ireclaim_loop inums dev k }
         else ireclaim_loop inums dev k)"

definition ireclaim :: "u32 \<Rightarrow> kernel \<Rightarrow> kernel option" where
  "ireclaim dev k = ireclaim_loop [1..<unat (sb_ninodes (k_sb k))] dev k"

definition fsinit :: "(kernel \<Rightarrow> kernel option) \<Rightarrow> u32 \<Rightarrow> kernel \<Rightarrow> kernel option" where
  "fsinit initlog dev k =
     (let k = k\<lparr>k_sb := readsb k\<rparr>
      in if sb_magic (k_sb k) \<noteq> FSMAGIC then panic ''invalid file system''
         else do { k \<leftarrow> initlog k; ireclaim dev k })"

text \<open>The part of \<open>n - tot\<close> remaining bytes that lies in the block of \<open>off\<close>.\<close>

definition block_chunk :: "u32 \<Rightarrow> u32 \<Rightarrow> u32" where
  "block_chunk off rest = (if rest < 1024 - off mod 1024 then rest else 1024 - off mod 1024)"

lemma unat_block_chunk: "unat (block_chunk off rest) = min (unat rest) (1024 - unat off mod 1024)"
proof -
  have "off mod 1024 \<le> 1024" by (simp add: word_le_nat_alt unat_mod)
  then have "unat (1024 - off mod 1024) = 1024 - unat off mod 1024"
    by (simp add: unat_sub unat_mod)
  then show ?thesis by (auto simp: block_chunk_def word_less_nat_alt)
qed

lemma block_chunk_decreases:
  assumes "tot < n"
  shows "unat (n - (tot + block_chunk off (n - tot))) < unat (n - tot)"
proof -
  have "0 < unat (n - tot)" using assms unat_sub [OF less_imp_le [OF assms]] by (simp add: word_less_nat_alt)
  moreover have "block_chunk off (n - tot) \<le> n - tot" by (simp add: word_le_nat_alt unat_block_chunk)
  then have "unat (n - tot - block_chunk off (n - tot)) = unat (n - tot) - unat (block_chunk off (n - tot))"
    by (rule unat_sub)
  moreover have "n - (tot + block_chunk off (n - tot)) = n - tot - block_chunk off (n - tot)"
    by (rule diff_diff_add [symmetric])
  moreover have "0 < unat (block_chunk off (n - tot))" using calculation(1) by (simp add: unat_block_chunk)
  ultimately show ?thesis by (simp only: diff_less)
qed

function readi_loop ::
    "nat \<Rightarrow> u64 option \<Rightarrow> u32 \<Rightarrow> u32 \<Rightarrow> u32 \<Rightarrow> char list \<Rightarrow> kernel \<Rightarrow> (int \<times> char list \<times> kernel) option" where
  "readi_loop ip dst off tot n acc k =
     (if \<not> tot < n then Some (sint tot, acc, k)
      else case bmap ip (off div 1024) k of
        None \<Rightarrow> None
      | Some (addr, k1) \<Rightarrow>
          if addr = 0 then Some (sint tot, acc, k1)
          else
            let m = block_chunk off (n - tot);
                data = drop (unat (off mod 1024)) (k_blocks k1 addr)
            in case either_copyout dst data (ucast m) k1 of
                 None \<Rightarrow> None
               | Some (r, k2) \<Rightarrow>
                   if r = - 1 then Some (- 1, acc, k2)
                   else readi_loop ip (map_option (\<lambda>va. va + ucast m) dst) (off + m) (tot + m) n
                          (acc @ take (unat m) data) k2)"
  by pat_completeness auto

termination
  by (relation "measure (\<lambda>(ip, dst, off, tot, n, acc, k). unat (n - tot))")
    (auto simp: block_chunk_decreases)

declare readi_loop.simps [simp del]

definition readi :: "nat \<Rightarrow> u64 option \<Rightarrow> u32 \<Rightarrow> u32 \<Rightarrow> kernel \<Rightarrow> (int \<times> char list \<times> kernel) option" where
  "readi ip dst off n k =
     (let sz = i_size (k_itable k ! ip)
      in if off > sz \<or> off + n < off then Some (0, [], k)
         else readi_loop ip dst off 0 (if off + n > sz then sz - off else n) [] k)"

function writei_loop ::
    "nat \<Rightarrow> copy_src \<Rightarrow> u32 \<Rightarrow> u32 \<Rightarrow> u32 \<Rightarrow> kernel \<Rightarrow> (u32 \<times> u32 \<times> kernel) option" where
  "writei_loop ip src off tot n k =
     (if \<not> tot < n then Some (tot, off, k)
      else case bmap ip (off div 1024) k of
        None \<Rightarrow> None
      | Some (addr, k1) \<Rightarrow>
          if addr = 0 then Some (tot, off, k1)
          else
            let m = block_chunk off (n - tot); at = unat (off mod 1024)
            in case either_copyin src (ucast m) k1 of
                 None \<Rightarrow> None
               | Some (r, bs, k2) \<Rightarrow>
                   let old = k_blocks k2 addr;
                       k3 = set_block addr (take at old @ bs @ drop (at + length bs) old) k2
                   in if r = - 1 then Some (tot, off, k3)
                      else case log_write addr k3 of
                        None \<Rightarrow> None
                      | Some k4 \<Rightarrow> writei_loop ip (src_advance src (ucast m)) (off + m) (tot + m) n k4)"
  by pat_completeness auto

termination
  by (relation "measure (\<lambda>(ip, src, off, tot, n, k). unat (n - tot))")
    (auto simp: block_chunk_decreases)

declare writei_loop.simps [simp del]

definition writei :: "nat \<Rightarrow> copy_src \<Rightarrow> u32 \<Rightarrow> u32 \<Rightarrow> kernel \<Rightarrow> (int \<times> kernel) option" where
  "writei ip src off n k =
     (if off > i_size (k_itable k ! ip) \<or> off + n < off then Some (- 1, k)
      else if unat (off + n) > MAXFILE * BSIZE then Some (- 1, k)
      else do {
        (tot, off, k) \<leftarrow> writei_loop ip src off 0 n k;
        let k = (if off > i_size (k_itable k ! ip) then upd_ino ip (\<lambda>i. i\<lparr>i_size := off\<rparr>) k else k);
        k \<leftarrow> iupdate ip k;
        Some (sint tot, k) })"

section \<open>Directories\<close>

definition namecmp :: "string \<Rightarrow> string \<Rightarrow> int" where
  "namecmp s t = strncmp s t DIRSIZ"

text \<open>The 16 bytes of a \<open>struct dirent\<close>.\<close>

definition dirent_of :: "char list \<Rightarrow> dirent" where
  "dirent_of bs = \<lparr>de_inum = load16 bs 0, de_name = drop 2 bs\<rparr>"

definition dirent_bytes :: "dirent \<Rightarrow> char list" where
  "dirent_bytes de = le_bytes 2 (unat (de_inum de)) @ de_name de"

text \<open>The offsets that a loop \<open>for(off = from; off < size; off += sizeof(de))\<close> visits.\<close>

definition dir_offsets :: "nat \<Rightarrow> u32 \<Rightarrow> nat list" where
  "dir_offsets start sz = map (\<lambda>i. start + 16 * i) [0..<(unat sz - start + 15) div 16]"

fun dirlookup_loop :: "nat list \<Rightarrow> nat \<Rightarrow> string \<Rightarrow> kernel \<Rightarrow> ((nat \<times> u32) option \<times> kernel) option" where
  "dirlookup_loop [] dp name k = Some (None, k)"
| "dirlookup_loop (off # offs) dp name k =
     do { (r, bs, k) \<leftarrow> readi dp None (of_nat off) 16 k;
          if r \<noteq> 16 then panic ''dirlookup read''
          else
            let de = dirent_of bs
            in if de_inum de = 0 then dirlookup_loop offs dp name k
               else if namecmp name (de_name de) = 0
               then do { (ip, k) \<leftarrow> iget (i_dev (k_itable k ! dp)) (ucast (de_inum de)) k;
                         Some (Some (ip, of_nat off), k) }
               else dirlookup_loop offs dp name k }"

definition dirlookup :: "nat \<Rightarrow> string \<Rightarrow> kernel \<Rightarrow> ((nat \<times> u32) option \<times> kernel) option" where
  "dirlookup dp name k =
     (if i_type (k_itable k ! dp) \<noteq> T_DIR then panic ''dirlookup not DIR''
      else dirlookup_loop (dir_offsets 0 (i_size (k_itable k ! dp))) dp name k)"

text \<open>The search for an empty entry: its offset, or the end of the directory.\<close>

fun dirlink_slot :: "nat list \<Rightarrow> nat \<Rightarrow> nat \<Rightarrow> kernel \<Rightarrow> (nat \<times> kernel) option" where
  "dirlink_slot [] dp after k = Some (after, k)"
| "dirlink_slot (off # offs) dp after k =
     do { (r, bs, k) \<leftarrow> readi dp None (of_nat off) 16 k;
          if r \<noteq> 16 then panic ''dirlink read''
          else if de_inum (dirent_of bs) = 0 then Some (off, k)
          else dirlink_slot offs dp (off + 16) k }"

definition dirlink :: "nat \<Rightarrow> string \<Rightarrow> u32 \<Rightarrow> kernel \<Rightarrow> (int \<times> kernel) option" where
  "dirlink dp name inum k =
     do { (found, k) \<leftarrow> dirlookup dp name k;
          case found of
            Some (ip, _) \<Rightarrow> do { k \<leftarrow> iput ip k; Some (- 1, k) }
          | None \<Rightarrow> do {
              (off, k) \<leftarrow> dirlink_slot (dir_offsets 0 (i_size (k_itable k ! dp))) dp 0 k;
              let de = \<lparr>de_inum = ucast inum, de_name = strncpy (replicate DIRSIZ NUL) name DIRSIZ\<rparr>;
              (r, k) \<leftarrow> writei dp (Kernel_src (dirent_bytes de)) (of_nat off) 16 k;
              if r \<noteq> 16 then Some (- 1, k) else Some (0, k) } }"

section \<open>Paths\<close>

abbreviation SLASH :: char where "SLASH \<equiv> CHR 0x2F"

definition skipelem :: "string \<Rightarrow> string \<Rightarrow> (string \<times> string) option" where
  "skipelem path name =
     (let path = dropWhile (\<lambda>c. c = SLASH) path
      in if deref path = NUL then None
         else
           let s = takeWhile (\<lambda>c. c \<noteq> SLASH \<and> c \<noteq> NUL) path;
               path = dropWhile (\<lambda>c. c \<noteq> SLASH \<and> c \<noteq> NUL) path;
               name = (if length s \<ge> DIRSIZ then take DIRSIZ s else s @ [NUL] @ drop (length s + 1) name)
           in Some (dropWhile (\<lambda>c. c = SLASH) path, name))"

lemma skipelem_shorter:
  assumes "skipelem path name = Some (rest, name')"
  shows "length rest < length path"
proof -
  let ?p = "dropWhile (\<lambda>c. c = SLASH) path"
  let ?q = "dropWhile (\<lambda>c. c \<noteq> SLASH \<and> c \<noteq> NUL) ?p"
  have ne: "deref ?p \<noteq> NUL" and rest: "rest = dropWhile (\<lambda>c. c = SLASH) ?q"
    using assms by (auto simp: skipelem_def Let_def split: if_splits)
  then obtain c cs where p: "?p = c # cs" by (cases ?p) (auto simp: deref_def)
  then have c: "c \<noteq> SLASH" by (metis (mono_tags, lifting) dropWhile_eq_Cons_conv)
  have "c \<noteq> NUL" using ne p by (simp add: deref_def)
  then have "length ?q \<le> length cs" using p c by (simp add: length_dropWhile_le)
  moreover have "length (c # cs) \<le> length path" using p length_dropWhile_le [of "\<lambda>c. c = SLASH" path] by simp
  moreover have "length rest \<le> length ?q" unfolding rest by (rule length_dropWhile_le)
  ultimately show ?thesis by simp
qed

definition is_jailed :: "kernel \<Rightarrow> bool" where
  "is_jailed k =
     (case k_cur k of
        None \<Rightarrow> False
      | Some p \<Rightarrow> p_is_agent (k_procs k ! p) \<and> p_jail_root (k_procs k ! p) \<noteq> None)"

definition jail_inode :: "kernel \<Rightarrow> nat option" where
  "jail_inode k = do { p \<leftarrow> k_cur k; p_jail_root (k_procs k ! p) }"

text \<open>\<open>..\<close> at the jail root stays there.\<close>

definition pinned :: "bool \<Rightarrow> string \<Rightarrow> nat \<Rightarrow> kernel \<Rightarrow> bool" where
  "pinned jailed name ip k =
     (jailed \<and> deref name = CHR 0x2E \<and> deref (drop 1 name) = CHR 0x2E \<and> deref (drop 2 name) = NUL \<and>
      (case jail_inode k of
         None \<Rightarrow> False
       | Some j \<Rightarrow> i_dev (k_itable k ! ip) = i_dev (k_itable k ! j) \<and>
                    i_inum (k_itable k ! ip) = i_inum (k_itable k ! j)))"

function namex_loop :: "bool \<Rightarrow> string \<Rightarrow> bool \<Rightarrow> string \<Rightarrow> nat \<Rightarrow> kernel \<Rightarrow> (nat option \<times> string \<times> kernel) option" where
  "namex_loop jailed path want_parent name ip k =
     (case skipelem path name of
        None \<Rightarrow>
          if want_parent then (case iput ip k of None \<Rightarrow> None | Some k1 \<Rightarrow> Some (None, name, k1))
          else Some (Some ip, name, k)
      | Some (path1, name1) \<Rightarrow>
          case ilock ip k of
            None \<Rightarrow> None
          | Some k1 \<Rightarrow>
              if i_type (k_itable k1 ! ip) \<noteq> T_DIR
              then (case iunlockput ip k1 of None \<Rightarrow> None | Some k2 \<Rightarrow> Some (None, name1, k2))
              else if want_parent \<and> deref path1 = NUL
              then (case iunlock ip k1 of None \<Rightarrow> None | Some k2 \<Rightarrow> Some (Some ip, name1, k2))
              else if pinned jailed name1 ip k1
              then (case iunlock ip k1 of
                      None \<Rightarrow> None
                    | Some k2 \<Rightarrow> namex_loop jailed path1 want_parent name1 ip k2)
              else case dirlookup ip name1 k1 of
                None \<Rightarrow> None
              | Some (None, k2) \<Rightarrow>
                  (case iunlockput ip k2 of None \<Rightarrow> None | Some k3 \<Rightarrow> Some (None, name1, k3))
              | Some (Some (next, _), k2) \<Rightarrow>
                  (case iunlockput ip k2 of
                     None \<Rightarrow> None
                   | Some k3 \<Rightarrow> namex_loop jailed path1 want_parent name1 next k3))"
  by pat_completeness auto

termination
  by (relation "measure (\<lambda>(jailed, path, _). length path)") (auto dest: skipelem_shorter)

declare namex_loop.simps [simp del]

definition namex_start :: "string \<Rightarrow> kernel \<Rightarrow> (nat \<times> kernel) option" where
  "namex_start path k =
     (if deref path = SLASH
      then if is_jailed k
           then do { j \<leftarrow> jail_inode k; Some (idup j k) }
           else iget ROOTDEV ROOTINO k
      else do { p \<leftarrow> k_cur k; cwd \<leftarrow> p_cwd (k_procs k ! p); Some (idup cwd k) })"

definition namex :: "string \<Rightarrow> bool \<Rightarrow> string \<Rightarrow> kernel \<Rightarrow> (nat option \<times> string \<times> kernel) option" where
  "namex path want_parent name k =
     do { (ip, k1) \<leftarrow> namex_start path k;
          namex_loop (is_jailed k) path want_parent name ip k1 }"

definition namei :: "string \<Rightarrow> kernel \<Rightarrow> (nat option \<times> kernel) option" where
  "namei path k =
     do { (ip, _, k) \<leftarrow> namex path False (replicate DIRSIZ NUL) k; Some (ip, k) }"

definition nameiparent :: "string \<Rightarrow> kernel \<Rightarrow> (nat option \<times> string \<times> kernel) option" where
  "nameiparent path k = namex path True (replicate DIRSIZ NUL) k"

section \<open>Creating files\<close>

definition create_fail :: "nat \<Rightarrow> nat \<Rightarrow> kernel \<Rightarrow> (nat option \<times> kernel) option" where
  "create_fail ip dp k =
     do { k \<leftarrow> iupdate ip (upd_ino ip (\<lambda>i. i\<lparr>i_nlink := 0\<rparr>) k);
          k \<leftarrow> iunlockput ip k;
          k \<leftarrow> iunlockput dp k;
          Some (None, k) }"

definition create :: "string \<Rightarrow> int \<Rightarrow> int \<Rightarrow> int \<Rightarrow> kernel \<Rightarrow> (nat option \<times> kernel) option" where
  "create path type major minor k =
     do { (parent, name, k) \<leftarrow> nameiparent path k;
          case parent of
            None \<Rightarrow> Some (None, k)
          | Some dp \<Rightarrow> do {
              k \<leftarrow> ilock dp k;
              (found, k) \<leftarrow> dirlookup dp name k;
              case found of
                Some (ip, _) \<Rightarrow> do {
                  k \<leftarrow> iunlockput dp k;
                  k \<leftarrow> ilock ip k;
                  let t = i_type (k_itable k ! ip);
                  if type = T_FILE \<and> (t = T_FILE \<or> t = T_DEVICE) then Some (Some ip, k)
                  else do { k \<leftarrow> iunlockput ip k; Some (None, k) } }
              | None \<Rightarrow> do {
                  (new, k) \<leftarrow> ialloc (i_dev (k_itable k ! dp)) type k;
                  case new of
                    None \<Rightarrow> do { k \<leftarrow> iunlockput dp k; Some (None, k) }
                  | Some ip \<Rightarrow> do {
                      k \<leftarrow> ilock ip k;
                      k \<leftarrow> iupdate ip (upd_ino ip (\<lambda>i. i\<lparr>i_major := wrap16 major, i_minor := wrap16 minor, i_nlink := 1\<rparr>) k);
                      (dots, k) \<leftarrow>
                        (if type = T_DIR
                         then do {
                           (r1, k) \<leftarrow> dirlink ip ''.'' (i_inum (k_itable k ! ip)) k;
                           if r1 < 0 then Some (False, k)
                           else do {
                             (r2, k) \<leftarrow> dirlink ip ''..'' (i_inum (k_itable k ! dp)) k;
                             Some (\<not> r2 < 0, k) } }
                         else Some (True, k));
                      if \<not> dots then create_fail ip dp k
                      else do {
                        (r, k) \<leftarrow> dirlink dp name (i_inum (k_itable k ! ip)) k;
                        if r < 0 then create_fail ip dp k
                        else do {
                          k \<leftarrow> (if type = T_DIR
                                then iupdate dp (upd_ino dp (\<lambda>i. i\<lparr>i_nlink := wrap16 (i_nlink i + 1)\<rparr>) k)
                                else Some k);
                          k \<leftarrow> iunlockput dp k;
                          Some (Some ip, k) } } } } } }"

end
