(* ===== verification/Fs_Frame.thy ===== *)
theory Fs_Frame
  imports Fs
begin

text \<open>
  What the file system, the virtual-memory functions and the page allocator never touch: the
  agent command path, the cache, the console, the clock, the pipes, the file table and the
  processes, of which they may only wake sleepers.
  One rewrite rule per operation, collected in \<open>agent_part_facts\<close>.
\<close>

text \<open>A process up to a wakeup, which makes a sleeper RUNNABLE and adjusts its vruntime.\<close>

definition proc_id :: "proc \<Rightarrow> proc" where
  "proc_id p = p\<lparr>p_state := (if p_state p = SLEEPING then RUNNABLE else p_state p), p_vruntime := 0\<rparr>"

definition agent_part :: "kernel \<Rightarrow>
    (cache_entry list \<times> agentd_queue \<times> intake_queue \<times> pending_llm \<times> denylist \<times> confirm_state) \<times>
    (console \<times> u32 \<times> nat option \<times> int \<times> nat option \<times> u64 \<times> u64) \<times>
    ((u64 \<rightharpoonup> pipe) \<times> openfile list) \<times>
    proc list" where
  "agent_part k =
     ((k_cache k, k_agentq k, k_intake k, k_pending k, k_deny k, k_confirm k),
      (k_cons k, k_ticks k, k_cur k, k_nextpid k, k_initproc k, k_cfs_min k, k_end k),
      (k_pipes k, k_ftable k),
      map proc_id (k_procs k))"

named_theorems agent_part_facts \<open>operations that leave \<open>agent_part\<close> alone\<close>

lemma map_wakeup:
  assumes "\<And>c m p. f (wake_proc c m p) = f p"
  shows "map f (k_procs (wakeup c k)) = map f (k_procs k)"
  using assms by (intro nth_equalityI) (auto simp: wakeup_nth)

lemma proc_id_fields [simp]:
  "p_chan (proc_id p) = p_chan p" "p_killed (proc_id p) = p_killed p" "p_xstate (proc_id p) = p_xstate p"
  "p_pid (proc_id p) = p_pid p" "p_parent (proc_id p) = p_parent p" "p_kstack (proc_id p) = p_kstack p"
  "p_sz (proc_id p) = p_sz p" "p_pagetable (proc_id p) = p_pagetable p" "p_trapframe (proc_id p) = p_trapframe p"
  "p_tf (proc_id p) = p_tf p" "p_context (proc_id p) = p_context p" "p_ofile (proc_id p) = p_ofile p"
  "p_cwd (proc_id p) = p_cwd p" "p_name (proc_id p) = p_name p" "p_priority (proc_id p) = p_priority p"
  "p_creation_tick (proc_id p) = p_creation_tick p" "p_is_agent (proc_id p) = p_is_agent p"
  "p_jail_root (proc_id p) = p_jail_root p"
  by (simp_all add: proc_id_def)

lemma proc_id_wake [simp]: "proc_id (wake_proc c m p) = proc_id p"
  by (simp add: proc_id_def wake_proc_def)

lemma map_proc_id:
  assumes "map proc_id ps = map proc_id qs" and "\<And>p. f (proc_id p) = f p"
  shows "map f ps = map f qs"
proof -
  have "map f (map proc_id ps) = map f (map proc_id qs)" by (simp only: assms(1))
  then show ?thesis by (simp add: assms(2) comp_def)
qed

lemma ap_simps [simp]:
  "agent_part (upd_ino i f k) = agent_part k"
  "agent_part (set_block b bs k) = agent_part k"
  "agent_part (wakeup c k) = agent_part k"
  "agent_part (printf fmt ap k) = agent_part k"
  "agent_part (k\<lparr>k_mem := m\<rparr>) = agent_part k"
  "agent_part (k\<lparr>k_freelist := h\<rparr>) = agent_part k"
  "agent_part (k\<lparr>k_log := l\<rparr>) = agent_part k"
  "agent_part (k\<lparr>k_rec_buf := rb\<rparr>) = agent_part k"
  "agent_part (k\<lparr>k_sb := sb\<rparr>) = agent_part k"
  "agent_part (zero_page p k) = agent_part k"
  by (simp_all add: agent_part_def upd_ino_def set_block_def zero_page_def map_wakeup)

lemma agent_partD:
  assumes "agent_part k' = agent_part k"
  shows "k_cache k' = k_cache k" "k_agentq k' = k_agentq k" "k_intake k' = k_intake k"
    "k_pending k' = k_pending k" "k_deny k' = k_deny k" "k_confirm k' = k_confirm k"
    "k_cons k' = k_cons k" "k_ticks k' = k_ticks k" "k_cur k' = k_cur k" "k_end k' = k_end k"
    "k_pipes k' = k_pipes k" "k_ftable k' = k_ftable k"
    "map p_pid (k_procs k') = map p_pid (k_procs k)" "map p_is_agent (k_procs k') = map p_is_agent (k_procs k)"
    "map p_priority (k_procs k') = map p_priority (k_procs k)"
    "map p_jail_root (k_procs k') = map p_jail_root (k_procs k)"
    "map proc_id (k_procs k') = map proc_id (k_procs k)"
  using assms by (auto simp: agent_part_def intro: map_proc_id)

section \<open>Memory\<close>

lemma kalloc_ap [agent_part_facts]: "agent_part (snd (kalloc k)) = agent_part k"
  by (simp add: kalloc_def Let_def)

lemma kalloc_ap' [agent_part_facts]: "kalloc k = (p, k') \<Longrightarrow> agent_part k' = agent_part k"
  using kalloc_ap [of k] by simp

lemma kfree_ap [agent_part_facts]: "kfree p k = Some k' \<Longrightarrow> agent_part k' = agent_part k"
  by (auto simp: kfree_def panic_simps Let_def split: if_splits)

lemma walk_loop_ap: "agent_part (snd (walk_loop l pt va al k)) = agent_part k"
  by (induction l arbitrary: pt k) (auto simp: Let_def agent_part_facts split: prod.splits)

lemma walk_ap [agent_part_facts]: "walk pt va al k = Some (p, k') \<Longrightarrow> agent_part k' = agent_part k"
  using walk_loop_ap [of 2 pt va al k] by (auto simp: walk_def panic_simps split: if_splits)

lemma mappages_loop_ap: "mappages_loop pt a fin pa perm k = Some (r, k') \<Longrightarrow> agent_part k' = agent_part k"
proof (induction pt a fin pa perm k rule: mappages_loop.induct)
  case (1 pt a fin pa perm k)
  obtain p k1 where w: "walk pt a True k = Some (p, k1)"
    using 1(2) by (subst (asm) mappages_loop.simps) (auto split: option.splits)
  show ?case
    using 1(2) 1(1) [OF w refl] w walk_ap [OF w]
    by (subst (asm) mappages_loop.simps) (auto simp: panic_simps Let_def split: if_splits)
qed

lemma mappages_ap [agent_part_facts]: "mappages pt va sz pa perm k = Some (r, k') \<Longrightarrow> agent_part k' = agent_part k"
  by (auto simp: mappages_def panic_simps mappages_loop_ap split: if_splits)

lemma vmfault_ap [agent_part_facts]: "vmfault pt va k = Some (r, k') \<Longrightarrow> agent_part k' = agent_part k"
  by (auto simp: vmfault_def Let_def split: bind_splits if_splits prod.splits
      dest!: kalloc_ap' mappages_ap kfree_ap)

lemma user_page_ap [agent_part_facts]: "user_page pt va k = Some (r, k') \<Longrightarrow> agent_part k' = agent_part k"
  by (auto simp: user_page_def Let_def vmfault_ap split: if_splits)

lemma copyout_ap [agent_part_facts]: "copyout pt va src len k = Some (r, k') \<Longrightarrow> agent_part k' = agent_part k"
proof (induction "unat len" arbitrary: va src len k rule: less_induct)
  case less
  show ?case
    using less.prems by (subst (asm) copyout.simps)
      (auto simp: Let_def split: if_splits option.splits dest!: user_page_ap less.hyps [OF chunk_decreases, rotated])
qed

lemma copyin_ap [agent_part_facts]: "copyin pt va len k = Some (r, bs, k') \<Longrightarrow> agent_part k' = agent_part k"
proof (induction "unat len" arbitrary: va len k bs rule: less_induct)
  case less
  show ?case
    using less.prems by (subst (asm) copyin.simps)
      (auto simp: Let_def split: if_splits option.splits bind_splits dest!: user_page_ap less.hyps [OF chunk_decreases, rotated])
qed

lemma either_copyout_ap [agent_part_facts]:
  "either_copyout dst src len k = Some (r, k') \<Longrightarrow> agent_part k' = agent_part k"
  by (auto simp: either_copyout_def copyout_ap split: option.splits bind_splits)

lemma either_copyin_ap [agent_part_facts]:
  "either_copyin src len k = Some (r, bs, k') \<Longrightarrow> agent_part k' = agent_part k"
  by (auto simp: either_copyin_def copyin_ap split: copy_src.splits bind_splits)

section \<open>Blocks and inodes\<close>

lemma begin_op_ap [agent_part_facts]: "begin_op k = Some k' \<Longrightarrow> agent_part k' = agent_part k"
  by (auto simp: begin_op_def Let_def split: if_splits)

lemma end_op_ap [agent_part_facts]: "end_op k = Some k' \<Longrightarrow> agent_part k' = agent_part k"
  by (auto simp: end_op_def Let_def panic_simps split: if_splits)

lemma log_write_ap [agent_part_facts]: "log_write b k = Some k' \<Longrightarrow> agent_part k' = agent_part k"
  by (auto simp: log_write_def Let_def panic_simps split: if_splits)

lemma put_block_ap [agent_part_facts]: "put_block b bs k = Some k' \<Longrightarrow> agent_part k' = agent_part k"
  by (auto simp: put_block_def dest: log_write_ap)

lemma bzero_ap [agent_part_facts]: "bzero b k = Some k' \<Longrightarrow> agent_part k' = agent_part k"
  by (auto simp: bzero_def dest: put_block_ap)

lemma balloc_loop_ap: "balloc_loop bs k = Some (b, k') \<Longrightarrow> agent_part k' = agent_part k"
  by (induction bs arbitrary: k)
    (auto simp: Let_def split: option.splits bind_splits dest!: put_block_ap bzero_ap)

lemma balloc_ap [agent_part_facts]: "balloc k = Some (b, k') \<Longrightarrow> agent_part k' = agent_part k"
  by (simp add: balloc_def balloc_loop_ap)

lemma bfree_ap [agent_part_facts]: "bfree b k = Some k' \<Longrightarrow> agent_part k' = agent_part k"
  by (auto simp: bfree_def Let_def panic_simps split: if_splits dest: put_block_ap)

lemma iupdate_ap [agent_part_facts]: "iupdate ip k = Some k' \<Longrightarrow> agent_part k' = agent_part k"
  by (auto simp: iupdate_def Let_def dest: put_block_ap)

lemma iget_ap [agent_part_facts]: "iget dev inum k = Some (ip, k') \<Longrightarrow> agent_part k' = agent_part k"
  by (auto simp: iget_def panic_simps split: sum.splits option.splits)

lemma idup_ap [agent_part_facts]: "idup ip k = (i, k') \<Longrightarrow> agent_part k' = agent_part k"
  by (auto simp: idup_def)

lemma ialloc_loop_ap: "ialloc_loop is dev t k = Some (ip, k') \<Longrightarrow> agent_part k' = agent_part k"
  by (induction "is" dev t k rule: ialloc_loop.induct)
    (auto simp: Let_def split: if_splits bind_splits dest!: put_block_ap iget_ap)

lemma ialloc_ap [agent_part_facts]: "ialloc dev t k = Some (ip, k') \<Longrightarrow> agent_part k' = agent_part k"
  by (simp add: ialloc_def ialloc_loop_ap)

lemma ilock_ap [agent_part_facts]: "ilock ip k = Some k' \<Longrightarrow> agent_part k' = agent_part k"
  by (auto simp: ilock_def Let_def panic_simps split: if_splits)

lemma iunlock_ap [agent_part_facts]: "iunlock ip k = Some k' \<Longrightarrow> agent_part k' = agent_part k"
  by (auto simp: iunlock_def Let_def panic_simps split: if_splits)

lemma bmap_ap [agent_part_facts]: "bmap ip bn k = Some (a, k') \<Longrightarrow> agent_part k' = agent_part k"
  by (auto simp: bmap_def Let_def panic_simps split: if_splits bind_splits dest!: balloc_ap put_block_ap)

lemma free_blocks_ap: "free_blocks as k = Some k' \<Longrightarrow> agent_part k' = agent_part k"
  by (induction as arbitrary: k) (auto split: if_splits bind_splits dest!: bfree_ap)

lemma trunc_direct_ap: "trunc_direct is ip k = Some k' \<Longrightarrow> agent_part k' = agent_part k"
  by (induction "is" ip k rule: trunc_direct.induct) (auto simp: Let_def split: if_splits bind_splits dest!: bfree_ap)

lemma itrunc_ap [agent_part_facts]: "itrunc ip k = Some k' \<Longrightarrow> agent_part k' = agent_part k"
  by (auto simp: itrunc_def Let_def split: if_splits bind_splits
      dest!: trunc_direct_ap free_blocks_ap bfree_ap iupdate_ap)

lemma iput_ap [agent_part_facts]: "iput ip k = Some k' \<Longrightarrow> agent_part k' = agent_part k"
  by (auto simp: iput_def Let_def split: if_splits bind_splits dest!: itrunc_ap iupdate_ap)

lemma iunlockput_ap [agent_part_facts]: "iunlockput ip k = Some k' \<Longrightarrow> agent_part k' = agent_part k"
  by (auto simp: iunlockput_def split: bind_splits dest!: iunlock_ap iput_ap)

section \<open>Contents, directories and paths\<close>

lemma readi_loop_ap: "readi_loop ip dst off tot n acc k = Some (r, bs, k') \<Longrightarrow> agent_part k' = agent_part k"
proof (induction "unat (n - tot)" arbitrary: dst off tot acc k rule: less_induct)
  case less
  show ?case
    using less.prems by (subst (asm) readi_loop.simps)
      (auto simp: Let_def split: if_splits option.splits dest!: bmap_ap either_copyout_ap
        less.hyps [OF block_chunk_decreases, rotated])
qed

lemma readi_ap [agent_part_facts]: "readi ip dst off n k = Some (r, bs, k') \<Longrightarrow> agent_part k' = agent_part k"
  by (auto simp: readi_def Let_def readi_loop_ap split: if_splits)

lemma writei_loop_ap: "writei_loop ip src off tot n k = Some (r, f, k') \<Longrightarrow> agent_part k' = agent_part k"
proof (induction "unat (n - tot)" arbitrary: src off tot k rule: less_induct)
  case less
  show ?case
    using less.prems by (subst (asm) writei_loop.simps)
      (auto simp: Let_def split: if_splits option.splits
        dest!: bmap_ap either_copyin_ap log_write_ap less.hyps [OF block_chunk_decreases, rotated])
qed

lemma writei_ap [agent_part_facts]: "writei ip src off n k = Some (r, k') \<Longrightarrow> agent_part k' = agent_part k"
  by (auto simp: writei_def Let_def split: if_splits bind_splits dest!: writei_loop_ap iupdate_ap)

lemma dirlookup_loop_ap: "dirlookup_loop offs dp name k = Some (r, k') \<Longrightarrow> agent_part k' = agent_part k"
  by (induction offs dp name k rule: dirlookup_loop.induct)
    (auto simp: Let_def panic_simps split: if_splits bind_splits dest!: readi_ap iget_ap)

lemma dirlookup_ap [agent_part_facts]: "dirlookup dp name k = Some (r, k') \<Longrightarrow> agent_part k' = agent_part k"
  by (auto simp: dirlookup_def panic_simps dirlookup_loop_ap split: if_splits)

lemma dirlink_slot_ap: "dirlink_slot offs dp e k = Some (r, k') \<Longrightarrow> agent_part k' = agent_part k"
  by (induction offs dp e k rule: dirlink_slot.induct)
    (auto simp: panic_simps split: if_splits bind_splits dest!: readi_ap)

lemma dirlink_ap [agent_part_facts]: "dirlink dp name inum k = Some (r, k') \<Longrightarrow> agent_part k' = agent_part k"
  by (auto simp: dirlink_def Let_def split: if_splits bind_splits option.splits
      dest!: dirlookup_ap iput_ap dirlink_slot_ap writei_ap)

lemma namex_loop_ap: "namex_loop j path wp name ip k = Some (r, n, k') \<Longrightarrow> agent_part k' = agent_part k"
proof (induction "length path" arbitrary: path name ip k rule: less_induct)
  case less
  show ?case
    using less.prems by (subst (asm) namex_loop.simps)
      (auto split: if_splits option.splits prod.splits
        dest!: iput_ap ilock_ap iunlock_ap iunlockput_ap dirlookup_ap less.hyps [OF skipelem_shorter])
qed

lemma namex_ap [agent_part_facts]: "namex path wp name k = Some (r, n, k') \<Longrightarrow> agent_part k' = agent_part k"
  by (auto simp: namex_def namex_start_def idup_def split: if_splits bind_splits
      dest!: namex_loop_ap iget_ap)

lemma namei_ap [agent_part_facts]: "namei path k = Some (r, k') \<Longrightarrow> agent_part k' = agent_part k"
  by (auto simp: namei_def split: bind_splits dest!: namex_ap)

lemma nameiparent_ap [agent_part_facts]: "nameiparent path k = Some (r, n, k') \<Longrightarrow> agent_part k' = agent_part k"
  by (simp add: nameiparent_def namex_ap)

lemma create_fail_ap: "create_fail ip dp k = Some (r, k') \<Longrightarrow> agent_part k' = agent_part k"
  by (auto simp: create_fail_def split: bind_splits dest!: iupdate_ap iunlockput_ap)

lemma create_ap [agent_part_facts]: "create path t ma mi k = Some (r, k') \<Longrightarrow> agent_part k' = agent_part k"
  by (auto simp: create_def Let_def split: if_splits bind_splits option.splits
      dest!: nameiparent_ap ilock_ap dirlookup_ap iunlockput_ap ialloc_ap iupdate_ap dirlink_ap create_fail_ap)

end
