(* ===== verification/Pipe.thy ===== *)
theory Pipe
  imports Ring Fs_Frame
begin

text \<open>
  Pipes, \<open>kernel/pipe.c\<close>.  A \<open>struct pipe\<close> lives in a page of its own; \<open>k_pipes\<close> finds it by the
  page's address, and using an address that holds no pipe has no result (\<open>None\<close>).  The ring of
  512 bytes is an instance of the interface \<open>bounded_queue\<close>: storing a byte and taking one out
  are \<open>pipe_put\<close> and \<open>pipe_get\<close>, the steps of the loops of \<open>pipewrite\<close> and \<open>piperead\<close>.
\<close>

section \<open>The ring\<close>

definition pipe_put :: "char \<Rightarrow> pipe \<Rightarrow> pipe" where
  "pipe_put ch pp =
     (if pp_nwrite pp = pp_nread pp + of_nat PIPESIZE then pp
      else pp\<lparr>pp_data := (pp_data pp)[unat (pp_nwrite pp) mod PIPESIZE := ch], pp_nwrite := pp_nwrite pp + 1\<rparr>)"

definition pipe_get :: "pipe \<Rightarrow> (char \<times> pipe) option" where
  "pipe_get pp =
     (if pp_nread pp = pp_nwrite pp then None
      else Some (pp_data pp ! (unat (pp_nread pp) mod PIPESIZE), pp\<lparr>pp_nread := pp_nread pp + 1\<rparr>))"

section \<open>Closing\<close>

definition upd_pipe :: "u64 \<Rightarrow> pipe \<Rightarrow> kernel \<Rightarrow> kernel" where
  "upd_pipe pi pp k = k\<lparr>k_pipes := (k_pipes k)(pi \<mapsto> pp)\<rparr>"

definition pipeclose :: "u64 \<Rightarrow> bool \<Rightarrow> kernel \<Rightarrow> kernel option" where
  "pipeclose pi writable k =
     do {
       pp \<leftarrow> k_pipes k pi;
       let (pp, ch) = (if writable then (pp\<lparr>pp_writeopen := False\<rparr>, Ch_pipe_read pi)
                       else (pp\<lparr>pp_readopen := False\<rparr>, Ch_pipe_write pi));
       let k = wakeup ch (upd_pipe pi pp k);
       if \<not> pp_readopen pp \<and> \<not> pp_writeopen pp
       then kfree pi (k\<lparr>k_pipes := (k_pipes k)(pi := None)\<rparr>)
       else Some k }"

section \<open>Writing\<close>

text \<open>
  \<open>i\<close> bytes have been written and \<open>rem\<close> are left.  A writer that finds the ring full wakes the
  readers and sleeps; it is re-entered with what \<open>Sleep\<close> records.
\<close>

fun pipewrite_loop :: "u64 \<Rightarrow> u64 \<Rightarrow> nat \<Rightarrow> nat \<Rightarrow> kernel \<Rightarrow> ((int, nat \<times> nat) blocking \<times> kernel) option" where
  "pipewrite_loop pi addr i 0 k = Some (Done (int i), wakeup (Ch_pipe_read pi) k)"
| "pipewrite_loop pi addr i (Suc rem) k =
     do {
       p \<leftarrow> k_cur k;
       pp \<leftarrow> k_pipes k pi;
       if \<not> pp_readopen pp \<or> killed p k then Some (Done (- 1), k)
       else if pp_nwrite pp = pp_nread pp + of_nat PIPESIZE
       then do { k \<leftarrow> sleep (Ch_pipe_write pi) (wakeup (Ch_pipe_read pi) k); Some (Sleep (i, Suc rem), k) }
       else do {
         (r, bs, k) \<leftarrow> copyin (p_pagetable (k_procs k ! p)) (addr + of_nat i) 1 k;
         if r = - 1 then Some (Done (int i), wakeup (Ch_pipe_read pi) k)
         else pipewrite_loop pi addr (Suc i) rem (upd_pipe pi (pipe_put (deref bs) pp) k) } }"

definition pipewrite :: "u64 \<Rightarrow> u64 \<Rightarrow> int \<Rightarrow> kernel \<Rightarrow> ((int, nat \<times> nat) blocking \<times> kernel) option" where
  "pipewrite pi addr n k = pipewrite_loop pi addr 0 (nat n) k"

section \<open>Reading\<close>

fun piperead_loop :: "u64 \<Rightarrow> u64 \<Rightarrow> nat \<Rightarrow> nat \<Rightarrow> kernel \<Rightarrow> (int \<times> kernel) option" where
  "piperead_loop pi addr i 0 k = Some (int i, k)"
| "piperead_loop pi addr i (Suc rem) k =
     do {
       p \<leftarrow> k_cur k;
       pp \<leftarrow> k_pipes k pi;
       case pipe_get pp of
         None \<Rightarrow> Some (int i, k)
       | Some (ch, pp') \<Rightarrow> do {
           (r, k) \<leftarrow> copyout (p_pagetable (k_procs k ! p)) (addr + of_nat i) [ch] 1 k;
           if r = - 1 then Some (if i = 0 then - 1 else int i, k)
           else piperead_loop pi addr (Suc i) rem (upd_pipe pi pp' k) } }"

definition piperead :: "u64 \<Rightarrow> u64 \<Rightarrow> int \<Rightarrow> kernel \<Rightarrow> ((int, unit) blocking \<times> kernel) option" where
  "piperead pi addr n k =
     do {
       p \<leftarrow> k_cur k;
       pp \<leftarrow> k_pipes k pi;
       if pp_nread pp = pp_nwrite pp \<and> pp_writeopen pp
       then (if killed p k then Some (Done (- 1), k)
             else do { k \<leftarrow> sleep (Ch_pipe_read pi) k; Some (Sleep (), k) })
       else do {
         (r, k) \<leftarrow> piperead_loop pi addr 0 (nat n) k;
         Some (Done r, wakeup (Ch_pipe_write pi) k) } }"

section \<open>The ring is a bounded queue\<close>

definition pipe_bytes :: "pipe \<Rightarrow> string" where
  "pipe_bytes pp = map (\<lambda>i. pp_data pp ! (unat (pp_nread pp + of_nat i) mod PIPESIZE)) [0..<unat (pp_nwrite pp - pp_nread pp)]"

definition pipe_inv :: "pipe \<Rightarrow> bool" where
  "pipe_inv pp \<longleftrightarrow> length (pp_data pp) = PIPESIZE \<and> unat (pp_nwrite pp - pp_nread pp) \<le> PIPESIZE"

lemma length_pipe_bytes [simp]: "length (pipe_bytes pp) = unat (pp_nwrite pp - pp_nread pp)"
  by (simp add: pipe_bytes_def)

lemma pipe_index:
  assumes "i \<le> 512"
  shows "unat ((a :: u32) + of_nat i) mod PIPESIZE = (unat a + i) mod PIPESIZE"
proof -
  have "unat (a + of_nat i) = (unat a + i) mod 2 ^ 32"
    using assms by (simp add: unat_word_ariths unat_of_nat)
  moreover have "(n mod 2 ^ 32) mod 512 = n mod (512 :: nat)" for n
    by (rule mod_mod_cancel) (simp add: dvd_def)
  ultimately show ?thesis by (simp add: PIPESIZE_def)
qed

lemma pipe_full: "pipe_inv pp \<Longrightarrow> pp_nwrite pp = pp_nread pp + of_nat PIPESIZE \<longleftrightarrow> length (pipe_bytes pp) = 512"
proof -
  have "pp_nwrite pp = pp_nread pp + 512 \<longleftrightarrow> pp_nwrite pp - pp_nread pp = 512" by (auto simp: algebra_simps)
  also have "\<dots> \<longleftrightarrow> unat (pp_nwrite pp - pp_nread pp) = 512" by (simp add: word_unat_eq_iff)
  finally show ?thesis by (simp add: PIPESIZE_def)
qed

lemma pipe_put_room:
  assumes "pipe_inv pp" "length (pipe_bytes pp) < 512"
  shows "pipe_bytes (pipe_put ch pp) = pipe_bytes pp @ [ch]" "pipe_inv (pipe_put ch pp)"
proof -
  let ?n = "unat (pp_nwrite pp - pp_nread pp)" and ?r = "pp_nread pp"
  let ?pp = "pp\<lparr>pp_data := (pp_data pp)[unat (pp_nwrite pp) mod PIPESIZE := ch], pp_nwrite := pp_nwrite pp + 1\<rparr>"
  have n: "?n < 512" using assms(2) by simp
  have put: "pipe_put ch pp = ?pp" using assms pipe_full [OF assms(1)] by (simp add: pipe_put_def)
  have w: "unat (pp_nwrite pp) mod PIPESIZE = unat (?r + of_nat ?n) mod PIPESIZE" by simp
  have "unat (pp_nwrite pp - ?r + 1) = ?n + 1"
    using n unat_add_lem [of "pp_nwrite pp - ?r" 1] by simp
  then have s: "unat (pp_nwrite pp + 1 - ?r) = ?n + 1" by (simp add: algebra_simps)
  have old: "(pp_data pp)[unat (pp_nwrite pp) mod PIPESIZE := ch] ! (unat (?r + of_nat i) mod PIPESIZE) =
      pp_data pp ! (unat (?r + of_nat i) mod PIPESIZE)" if "i < ?n" for i
  proof (rule nth_list_update_neq)
    have "unat (pp_nwrite pp) mod PIPESIZE = (unat ?r + ?n) mod 512"
      unfolding w using n by (subst pipe_index) (simp_all add: PIPESIZE_def)
    moreover have "unat (?r + of_nat i) mod PIPESIZE = (unat ?r + i) mod 512"
      using that n by (subst pipe_index) (simp_all add: PIPESIZE_def)
    ultimately show "unat (pp_nwrite pp) mod PIPESIZE \<noteq> unat (?r + of_nat i) mod PIPESIZE"
      using ring_distinct [OF that n, of "unat ?r"] by simp
  qed
  have "unat (pp_nwrite pp) mod PIPESIZE < length (pp_data pp)"
    using assms(1) by (simp add: pipe_inv_def PIPESIZE_def)
  then have new: "(pp_data pp)[unat (pp_nwrite pp) mod PIPESIZE := ch] ! (unat (?r + of_nat ?n) mod PIPESIZE) = ch"
    by simp
  show "pipe_bytes (pipe_put ch pp) = pipe_bytes pp @ [ch]"
    unfolding put pipe_bytes_def using s old new by simp
  show "pipe_inv (pipe_put ch pp)"
    unfolding put using assms(1) s n by (simp add: pipe_inv_def PIPESIZE_def)
qed

lemma pipe_get_next:
  assumes "pipe_inv pp" "pipe_bytes pp = x # xs"
  shows "\<exists>pp'. pipe_get pp = Some (x, pp') \<and> pipe_bytes pp' = xs \<and> pipe_inv pp'"
proof -
  let ?n = "unat (pp_nwrite pp - pp_nread pp)" and ?pp = "pp\<lparr>pp_nread := pp_nread pp + 1\<rparr>"
  have n: "?n = Suc (length xs)" using arg_cong [OF assms(2), of length] by simp
  then have ne: "pp_nwrite pp - pp_nread pp \<noteq> 0" by (metis unat_0 nat.distinct(1))
  have "unat (pp_nwrite pp - pp_nread pp - 1) = ?n - 1" using unat_minus_one [OF ne] .
  then have s: "unat (pp_nwrite pp - (pp_nread pp + 1)) = length xs" using n by (simp add: algebra_simps)
  have "x = pp_data pp ! (unat (pp_nread pp) mod PIPESIZE)"
    using arg_cong [OF assms(2), of "\<lambda>l. l ! 0"] n by (simp add: pipe_bytes_def del: upt_Suc)
  then have "pipe_get pp = Some (x, ?pp)" using ne by (auto simp: pipe_get_def)
  moreover have "pipe_bytes ?pp = tl (pipe_bytes pp)"
  proof -
    have "pp_nread pp + 1 + of_nat i = pp_nread pp + of_nat (Suc i)" for i :: nat by simp
    then show ?thesis unfolding pipe_bytes_def n by (subst tl_map_upt) (simp add: s add.assoc)
  qed
  ultimately show ?thesis
    using assms s n by (intro exI [of _ ?pp]) (simp add: pipe_inv_def)
qed

interpretation pipeq: bounded_queue pipe_put pipe_get pipe_bytes pipe_inv 512 "\<lambda>ch. ch"
proof
  show "\<And>q x. pipe_inv q \<Longrightarrow> length (pipe_bytes q) < 512 \<Longrightarrow> pipe_bytes (pipe_put x q) = pipe_bytes q @ [x]"
    by (rule pipe_put_room)
  show full: "\<And>q x. pipe_inv q \<Longrightarrow> 512 \<le> length (pipe_bytes q) \<Longrightarrow> pipe_put x q = q"
    using pipe_full by (simp add: pipe_put_def pipe_inv_def PIPESIZE_def)
  show "\<And>q x. pipe_inv q \<Longrightarrow> pipe_inv (pipe_put x q)"
    using pipe_put_room(2) full by (metis not_le)
  show "\<And>q. pipe_inv q \<Longrightarrow> pipe_bytes q = [] \<Longrightarrow> pipe_get q = None"
    by (simp add: pipe_get_def pipe_bytes_def unat_eq_zero)
  show "\<And>q x xs. pipe_inv q \<Longrightarrow> pipe_bytes q = x # xs \<Longrightarrow>
      \<exists>q'. pipe_get q = Some (x, q') \<and> pipe_bytes q' = xs \<and> pipe_inv q'"
    by (rule pipe_get_next)
  show "\<And>q. pipe_inv q \<Longrightarrow> length (pipe_bytes q) \<le> 512" by (simp add: pipe_inv_def PIPESIZE_def)
qed

section \<open>The loops\<close>

lemma sleep_pipes: "sleep ch k = Some k' \<Longrightarrow> k_pipes k' = k_pipes k"
  by (auto simp: sleep_def sched_def panic_simps split: option.splits if_splits)

lemma wakeup_pipes [simp]: "k_pipes (wakeup ch k) = k_pipes k"
  by (simp add: wakeup_def)

lemma upd_pipe_pipes [simp]: "k_pipes (upd_pipe pi pp k) = (k_pipes k)(pi \<mapsto> pp)"
  by (simp add: upd_pipe_def)

text \<open>The pipe after an operation: only \<open>pi\<close> changed, and it is well formed.\<close>

definition pipe_to :: "u64 \<Rightarrow> kernel \<Rightarrow> kernel \<Rightarrow> pipe \<Rightarrow> bool" where
  "pipe_to pi k k' pp' \<longleftrightarrow> k_pipes k' = (k_pipes k)(pi \<mapsto> pp') \<and> pipe_inv pp'"

lemma pipewrite_loop_spec:
  assumes "k_pipes k pi = Some pp" "pipe_inv pp" "pipewrite_loop pi addr i rem k = Some (res, k')"
  shows "\<exists>pp' ws. pipe_to pi k k' pp' \<and> pipe_bytes pp' = pipe_bytes pp @ ws \<and>
    (case res of Done r \<Rightarrow> r = - 1 \<or> (r = int (i + length ws) \<and> length ws \<le> rem)
     | Sleep (i', rem') \<Rightarrow> i' = i + length ws \<and> i' + rem' = i + rem \<and> length (pipe_bytes pp') = 512)"
  using assms
proof (induction rem arbitrary: i k pp)
  case 0
  then show ?case by (intro exI [of _ pp] exI [of _ "[]"]) (auto simp: pipe_to_def)
next
  case (Suc rem)
  obtain p where p: "k_cur k = Some p" using Suc.prems by (auto split: bind_splits)
  show ?case
  proof (cases "\<not> pp_readopen pp \<or> killed p k \<or> pp_nwrite pp = pp_nread pp + of_nat PIPESIZE")
    case True
    then show ?thesis
      using Suc.prems p pipe_full [OF Suc.prems(2)] sleep_pipes
      by (intro exI [of _ pp] exI [of _ "[]"])
        (auto simp: pipe_to_def split: if_splits bind_splits)
  next
    case False
    then obtain r bs k1 where c: "copyin (p_pagetable (k_procs k ! p)) (addr + of_nat i) 1 k = Some (r, bs, k1)"
      using Suc.prems p by (auto split: bind_splits)
    have k1: "k_pipes k1 = k_pipes k" using agent_partD(11) [OF copyin_ap [OF c]] .
    show ?thesis
    proof (cases "r = - 1")
      case True
      then show ?thesis
        using Suc.prems p False c k1 by (intro exI [of _ pp] exI [of _ "[]"]) (auto simp: pipe_to_def)
    next
      case r: False
      let ?pp = "pipe_put (deref bs) pp" and ?k = "upd_pipe pi (pipe_put (deref bs) pp) k1"
      have "length (pipe_bytes pp) \<noteq> 512" using False pipe_full [OF Suc.prems(2)] by blast
      then have "length (pipe_bytes pp) < 512" using pipeq.within_cap [OF Suc.prems(2)] by simp
      note put = pipe_put_room [OF Suc.prems(2) this, of "deref bs"]
      have "pipewrite_loop pi addr (Suc i) rem ?k = Some (res, k')"
        using Suc.prems p False c r by simp
      from Suc.IH [OF _ put(2) this] obtain pp' ws where w: "pipe_to pi ?k k' pp'" "pipe_bytes pp' = pipe_bytes ?pp @ ws"
        "case res of Done r \<Rightarrow> r = - 1 \<or> (r = int (Suc i + length ws) \<and> length ws \<le> rem)
         | Sleep (i', rem') \<Rightarrow> i' = Suc i + length ws \<and> i' + rem' = Suc i + rem \<and> length (pipe_bytes pp') = 512"
        by auto
      then show ?thesis
        using put(1) k1 by (intro exI [of _ pp'] exI [of _ "deref bs # ws"])
          (auto simp: pipe_to_def split: blocking.splits)
    qed
  qed
qed

lemma pipe_get_some:
  assumes "pipe_inv pp" "pipe_get pp = Some (ch, pp')"
  shows "pipe_bytes pp = ch # pipe_bytes pp'" "pipe_inv pp'"
proof -
  obtain x xs where "pipe_bytes pp = x # xs"
    using pipeq.get_empty [OF assms(1)] assms(2) by (cases "pipe_bytes pp") auto
  with pipe_get_next [OF assms(1) this] assms(2) show "pipe_bytes pp = ch # pipe_bytes pp'" "pipe_inv pp'" by auto
qed

lemma piperead_loop_spec:
  assumes "k_pipes k pi = Some pp" "pipe_inv pp" "piperead_loop pi addr i rem k = Some (r, k')"
  shows "\<exists>pp' bs. pipe_to pi k k' pp' \<and> pipe_bytes pp = bs @ pipe_bytes pp' \<and> length bs \<le> rem \<and>
    (r = int (i + length bs) \<or> (r = - 1 \<and> i = 0 \<and> bs = []))"
  using assms
proof (induction rem arbitrary: i k pp)
  case 0
  then show ?case by (intro exI [of _ pp] exI [of _ "[]"]) (auto simp: pipe_to_def)
next
  case (Suc rem)
  obtain p where p: "k_cur k = Some p" using Suc.prems by (auto split: bind_splits)
  show ?case
  proof (cases "pipe_get pp")
    case None
    then show ?thesis using Suc.prems p by (intro exI [of _ pp] exI [of _ "[]"]) (auto simp: pipe_to_def)
  next
    case (Some cp)
    obtain ch pp1 where cp: "cp = (ch, pp1)" by fastforce
    note g = pipe_get_some [OF Suc.prems(2) Some [unfolded cp]]
    obtain r1 k1 where c: "copyout (p_pagetable (k_procs k ! p)) (addr + of_nat i) [ch] 1 k = Some (r1, k1)"
      using Suc.prems p Some cp by (auto split: bind_splits)
    have k1: "k_pipes k1 = k_pipes k" using agent_partD(11) [OF copyout_ap [OF c]] .
    show ?thesis
    proof (cases "r1 = - 1")
      case True
      then show ?thesis using Suc.prems p Some cp c k1
        by (intro exI [of _ pp] exI [of _ "[]"]) (auto simp: pipe_to_def split: if_splits)
    next
      case False
      have "piperead_loop pi addr (Suc i) rem (upd_pipe pi pp1 k1) = Some (r, k')"
        using Suc.prems p Some cp c False by simp
      from Suc.IH [OF _ g(2) this] obtain pp' bs where "pipe_to pi (upd_pipe pi pp1 k1) k' pp'"
        "pipe_bytes pp1 = bs @ pipe_bytes pp'" "length bs \<le> rem" "r = int (Suc i + length bs)"
        by auto
      then show ?thesis using g(1) k1
        by (intro exI [of _ pp'] exI [of _ "ch # bs"]) (auto simp: pipe_to_def)
    qed
  qed
qed

section \<open>Properties\<close>

text \<open>
  Whatever the buffer of the caller is, the pipe keeps the order of bytes.  A completed write that
  returns \<open>r\<close> has appended exactly \<open>r\<close> bytes to the pipe's contents (after an error, some
  prefix); a completed read that returns \<open>r\<close> has removed exactly the first \<open>r\<close> bytes, at most \<open>n\<close>;
  no other pipe is touched, and the contents never exceed 512 bytes.  A writer goes to sleep
  only when the pipe is full, a reader only when it is empty and can still be written.
\<close>

theorem pipe_order:
  assumes "k_pipes k pi = Some pp" "pipe_inv pp"
  shows "(\<forall>res k'. pipewrite pi addr n k = Some (res, k') \<longrightarrow>
      (\<exists>pp' ws. pipe_to pi k k' pp' \<and> pipe_bytes pp' = pipe_bytes pp @ ws \<and> length (pipe_bytes pp') \<le> 512 \<and>
        (case res of Done r \<Rightarrow> r = - 1 \<or> r = int (length ws) | Sleep _ \<Rightarrow> length (pipe_bytes pp') = 512))) \<and>
    (\<forall>res k'. piperead pi addr n k = Some (res, k') \<longrightarrow>
      (\<exists>pp' bs. pipe_to pi k k' pp' \<and> pipe_bytes pp = bs @ pipe_bytes pp' \<and>
        (case res of Done r \<Rightarrow> (r = int (length bs) \<and> length bs \<le> nat n) \<or> (r = - 1 \<and> bs = [])
         | Sleep _ \<Rightarrow> pipe_bytes pp = [] \<and> pp_writeopen pp)))"
proof (intro conjI allI impI)
  fix res k'
  assume "pipewrite pi addr n k = Some (res, k')"
  then obtain pp' ws where w: "pipe_to pi k k' pp'" "pipe_bytes pp' = pipe_bytes pp @ ws"
    "case res of Done r \<Rightarrow> r = - 1 \<or> (r = int (0 + length ws) \<and> length ws \<le> nat n)
     | Sleep (i', rem') \<Rightarrow> i' = 0 + length ws \<and> i' + rem' = 0 + nat n \<and> length (pipe_bytes pp') = 512"
    using pipewrite_loop_spec [OF assms] unfolding pipewrite_def by blast
  moreover have "length (pipe_bytes pp') \<le> 512" using w(1) pipeq.within_cap by (simp add: pipe_to_def)
  ultimately show "\<exists>pp' ws. pipe_to pi k k' pp' \<and> pipe_bytes pp' = pipe_bytes pp @ ws \<and> length (pipe_bytes pp') \<le> 512 \<and>
        (case res of Done r \<Rightarrow> r = - 1 \<or> r = int (length ws) | Sleep _ \<Rightarrow> length (pipe_bytes pp') = 512)"
    by (intro exI [of _ pp'] exI [of _ ws]) (auto split: blocking.splits)
next
  fix res k'
  assume r: "piperead pi addr n k = Some (res, k')"
  then obtain p where p: "k_cur k = Some p" by (auto simp: piperead_def split: bind_splits)
  show "\<exists>pp' bs. pipe_to pi k k' pp' \<and> pipe_bytes pp = bs @ pipe_bytes pp' \<and>
        (case res of Done r \<Rightarrow> (r = int (length bs) \<and> length bs \<le> nat n) \<or> (r = - 1 \<and> bs = [])
         | Sleep _ \<Rightarrow> pipe_bytes pp = [] \<and> pp_writeopen pp)"
  proof (cases "pp_nread pp = pp_nwrite pp \<and> pp_writeopen pp")
    case True
    then show ?thesis using r p assms sleep_pipes
      by (intro exI [of _ pp] exI [of _ "[]"])
        (auto simp: piperead_def pipe_to_def pipe_bytes_def split: if_splits bind_splits)
  next
    case False
    then obtain r1 k1 where l: "piperead_loop pi addr 0 (nat n) k = Some (r1, k1)"
      "res = Done r1" "k' = wakeup (Ch_pipe_write pi) k1"
      using r p assms by (auto simp: piperead_def split: bind_splits)
    from piperead_loop_spec [OF assms l(1)] show ?thesis
      unfolding l(2,3) by (auto simp: pipe_to_def)
  qed
qed

end
