(* ===== verification/Confirm.thy ===== *)
theory Confirm
  imports Sched
begin

text \<open>
  Confirm-Escape, \<open>kernel/confirm.c\<close>: a dangerous system call of an agent process waits
  for the host's answer.  \<open>confirm_request\<close> is split at its lock regions: \<open>confirm_claim\<close>
  takes the single pending slot, \<open>confirm_announce\<close> prints the request and samples the
  clock, \<open>confirm_poll\<close> is one turn of the waiting loop, ending in a return value or in a
  sleep; the regions interleave with the host's answers in the step relation \<open>cstep\<close>.
\<close>

section \<open>Operations\<close>

definition CONFIRM_TIMEOUT_TICKS :: u32 where "CONFIRM_TIMEOUT_TICKS = 150"

definition confirminit :: "kernel \<Rightarrow> kernel" where
  "confirminit k = k\<lparr>k_confirm := \<lparr>cf_pending_pid = 0, cf_result = - 1\<rparr>\<rparr>"

definition confirm_claim :: "nat \<Rightarrow> kernel \<Rightarrow> kernel option" where
  "confirm_claim p k =
     (if cf_pending_pid (k_confirm k) \<noteq> 0 then None
      else Some (k\<lparr>k_confirm := \<lparr>cf_pending_pid = p_pid (k_procs k ! p), cf_result = - 1\<rparr>\<rparr>))"

definition confirm_announce :: "nat \<Rightarrow> int \<Rightarrow> string option \<Rightarrow> kernel \<Rightarrow> u32 \<times> kernel" where
  "confirm_announce p call_num summary k =
     (let k = printf (''CONFIRM_REQ|%d|%d|%s'' @ [CHR 0x0A])
                [VInt (p_pid (k_procs k ! p)), VInt call_num,
                 VStr (Some (case summary of None \<Rightarrow> [] | Some s \<Rightarrow> s))] k
      in (k_ticks k, k))"

definition confirm_idle :: "kernel \<Rightarrow> kernel" where
  "confirm_idle k = k\<lparr>k_confirm := \<lparr>cf_pending_pid = 0, cf_result = - 1\<rparr>\<rparr>"

text \<open>
  A turn of the loop that sleeps returns \<open>Sleep t0\<close>: the loop is re-entered, after
  \<open>sleep_resume\<close>, with the same \<open>t0\<close>.
\<close>

definition confirm_poll :: "u32 \<Rightarrow> kernel \<Rightarrow> ((int, u32) blocking \<times> kernel) option" where
  "confirm_poll t0 k =
     (if cf_result (k_confirm k) \<noteq> - 1
      then Some (Done (if cf_result (k_confirm k) = 1 then 1 else 0), confirm_idle k)
      else if k_ticks k - t0 \<ge> CONFIRM_TIMEOUT_TICKS then Some (Done 0, confirm_idle k)
      else do { k \<leftarrow> sleep Ch_confirm k; Some (Sleep t0, k) })"

definition confirm_request ::
    "nat \<Rightarrow> int \<Rightarrow> string option \<Rightarrow> kernel \<Rightarrow> ((int, u32) blocking \<times> kernel) option" where
  "confirm_request p call_num summary k =
     (case confirm_claim p k of
        None \<Rightarrow> Some (Done 0, k)
      | Some k \<Rightarrow>
          let (t0, k) = confirm_announce p call_num summary k in confirm_poll t0 k)"

definition confirm_tick :: "kernel \<Rightarrow> kernel" where
  "confirm_tick k = (if cf_pending_pid (k_confirm k) \<noteq> 0 then wakeup Ch_confirm k else k)"

definition confirm_resolve :: "int \<Rightarrow> int \<Rightarrow> kernel \<Rightarrow> kernel" where
  "confirm_resolve pid allow k =
     (let c = k_confirm k;
          c = (if cf_pending_pid c = pid \<and> cf_result c = - 1
               then c\<lparr>cf_result := (if allow \<noteq> 0 then 1 else 0)\<rparr> else c)
      in wakeup Ch_confirm (k\<lparr>k_confirm := c\<rparr>))"

section \<open>The interleaved protocol\<close>

text \<open>
  Where each process stands inside \<open>confirm_request\<close>.  The environment step stands for
  everything else the kernel does (scheduling, ticks, other system calls): it may change
  the whole kernel except the two variables of confirm.c, which are static to that file,
  and the pid of a process that is inside \<open>confirm_request\<close>.
\<close>

datatype cphase = C_out | C_claimed | C_waiting u32

record csys =
  cs_k :: kernel
  cs_phase :: "nat \<Rightarrow> cphase"

datatype clabel =
    A_claim nat int
  | A_reject nat
  | A_announce nat
  | A_sleep nat
  | A_return nat int
  | A_host int int
  | A_tick
  | A_env

inductive cstep :: "csys \<Rightarrow> clabel \<Rightarrow> csys \<Rightarrow> bool" where
  claim: "\<lbrakk>cs_phase s p = C_out; p < length (k_procs (cs_k s)); p_pid (k_procs (cs_k s) ! p) \<noteq> 0; confirm_claim p (cs_k s) = Some k'\<rbrakk> \<Longrightarrow>
     cstep s (A_claim p (p_pid (k_procs (cs_k s) ! p))) \<lparr>cs_k = k', cs_phase = (cs_phase s)(p := C_claimed)\<rparr>"
| reject: "\<lbrakk>cs_phase s p = C_out; confirm_claim p (cs_k s) = None\<rbrakk> \<Longrightarrow> cstep s (A_reject p) s"
| announce: "\<lbrakk>cs_phase s p = C_claimed; confirm_announce p call_num summary (cs_k s) = (t0, k')\<rbrakk> \<Longrightarrow>
     cstep s (A_announce p) \<lparr>cs_k = k', cs_phase = (cs_phase s)(p := C_waiting t0)\<rparr>"
| asleep: "\<lbrakk>cs_phase s p = C_waiting t0; k_cur (cs_k s) = Some p; confirm_poll t0 (cs_k s) = Some (Sleep t1, k')\<rbrakk> \<Longrightarrow>
     cstep s (A_sleep p) \<lparr>cs_k = k', cs_phase = (cs_phase s)(p := C_waiting t1)\<rparr>"
| return: "\<lbrakk>cs_phase s p = C_waiting t0; k_cur (cs_k s) = Some p; confirm_poll t0 (cs_k s) = Some (Done rc, k')\<rbrakk> \<Longrightarrow>
     cstep s (A_return p rc) \<lparr>cs_k = k', cs_phase = (cs_phase s)(p := C_out)\<rparr>"
| host: "cstep s (A_host pid allow) (s\<lparr>cs_k := confirm_resolve pid allow (cs_k s)\<rparr>)"
| tick: "cstep s A_tick (s\<lparr>cs_k := confirm_tick (cs_k s)\<rparr>)"
| env: "\<lbrakk>k_confirm k' = k_confirm (cs_k s); length (k_procs k') = length (k_procs (cs_k s));
         \<And>p. cs_phase s p \<noteq> C_out \<Longrightarrow> p_pid (k_procs k' ! p) = p_pid (k_procs (cs_k s) ! p)\<rbrakk> \<Longrightarrow>
     cstep s A_env (s\<lparr>cs_k := k'\<rparr>)"

inductive_simps cstep_return: "cstep s (A_return p rc) s'"

inductive cexec :: "csys \<Rightarrow> clabel list \<Rightarrow> csys \<Rightarrow> bool" where
  cexec_nil: "cexec s [] s"
| cexec_snoc: "\<lbrakk>cexec s tr s'; cstep s' l s''\<rbrakk> \<Longrightarrow> cexec s (tr @ [l]) s''"

inductive_cases cexec_snocE: "cexec s (tr @ [l]) s''"

text \<open>The host's first answer for a pid in a stretch of the trace.\<close>

fun first_answer :: "int \<Rightarrow> clabel list \<Rightarrow> int option" where
  "first_answer pid [] = None"
| "first_answer pid (A_host q allow # tr) = (if q = pid then Some allow else first_answer pid tr)"
| "first_answer pid (l # tr) = first_answer pid tr"

definition verdict :: "int option \<Rightarrow> int" where
  "verdict a = (case a of None \<Rightarrow> - 1 | Some allow \<Rightarrow> if allow \<noteq> 0 then 1 else 0)"

definition is_claim :: "clabel \<Rightarrow> bool" where
  "is_claim l = (case l of A_claim _ _ \<Rightarrow> True | _ \<Rightarrow> False)"

definition confirm_inv :: "clabel list \<Rightarrow> csys \<Rightarrow> bool" where
  "confirm_inv tr s \<longleftrightarrow>
     (cf_pending_pid (k_confirm (cs_k s)) = 0 \<longrightarrow> (\<forall>p. cs_phase s p = C_out)) \<and>
     (\<forall>p q. cs_phase s p \<noteq> C_out \<longrightarrow> cs_phase s q \<noteq> C_out \<longrightarrow> p = q) \<and>
     (\<forall>p. cs_phase s p \<noteq> C_out \<longrightarrow>
        p < length (k_procs (cs_k s)) \<and>
        p_pid (k_procs (cs_k s) ! p) = cf_pending_pid (k_confirm (cs_k s)) \<and>
        (\<exists>before after. tr = before @ A_claim p (cf_pending_pid (k_confirm (cs_k s))) # after \<and>
           (\<forall>l \<in> set after. \<not> is_claim l) \<and>
           cf_result (k_confirm (cs_k s)) =
             verdict (first_answer (cf_pending_pid (k_confirm (cs_k s))) after)))"

lemma first_answer_snoc:
  "first_answer pid (tr @ [l]) =
     (case first_answer pid tr of
        Some a \<Rightarrow> Some a
      | None \<Rightarrow> (case l of A_host q allow \<Rightarrow> if q = pid then Some allow else None | _ \<Rightarrow> None))"
  by (induction pid tr rule: first_answer.induct) (auto split: clabel.splits)

lemma verdict_pending [simp]: "verdict a = - 1 \<longleftrightarrow> a = None"
  by (auto simp: verdict_def split: option.splits)

text \<open>
  Only the confirm variables and the pids matter to the invariant; a label that is neither
  a claim nor a host answer leaves the recorded answer as it was.
\<close>

definition silent :: "clabel \<Rightarrow> bool" where
  "silent l = (case l of A_claim _ _ \<Rightarrow> False | A_host _ _ \<Rightarrow> False | _ \<Rightarrow> True)"

lemma first_answer_silent [simp]: "silent l \<Longrightarrow> first_answer pid (tr @ [l]) = first_answer pid tr"
  by (auto simp: first_answer_snoc silent_def split: option.splits clabel.splits)

lemma confirm_inv_extend:
  assumes "confirm_inv tr s"
    and "cf_pending_pid (k_confirm (cs_k s')) = cf_pending_pid (k_confirm (cs_k s))"
    and "\<And>p. cs_phase s' p \<noteq> C_out \<longleftrightarrow> cs_phase s p \<noteq> C_out"
    and "length (k_procs (cs_k s')) = length (k_procs (cs_k s))"
    and "\<And>p. \<lbrakk>cs_phase s p \<noteq> C_out; p < length (k_procs (cs_k s))\<rbrakk> \<Longrightarrow>
           p_pid (k_procs (cs_k s') ! p) = p_pid (k_procs (cs_k s) ! p)"
    and "\<not> is_claim l"
    and "\<And>after. cf_result (k_confirm (cs_k s)) =
             verdict (first_answer (cf_pending_pid (k_confirm (cs_k s))) after) \<Longrightarrow>
           cf_result (k_confirm (cs_k s')) =
             verdict (first_answer (cf_pending_pid (k_confirm (cs_k s))) (after @ [l]))"
  shows "confirm_inv (tr @ [l]) s'"
proof -
  have "\<exists>before after'. tr @ [l] = before @ A_claim p (cf_pending_pid (k_confirm (cs_k s'))) # after' \<and>
           (\<forall>l \<in> set after'. \<not> is_claim l) \<and>
           cf_result (k_confirm (cs_k s')) =
             verdict (first_answer (cf_pending_pid (k_confirm (cs_k s'))) after')"
    if "cs_phase s' p \<noteq> C_out" for p
  proof -
    from that assms(3) have "cs_phase s p \<noteq> C_out" by blast
    with assms(1) obtain before after where
      "tr = before @ A_claim p (cf_pending_pid (k_confirm (cs_k s))) # after"
      "\<forall>l \<in> set after. \<not> is_claim l"
      "cf_result (k_confirm (cs_k s)) =
             verdict (first_answer (cf_pending_pid (k_confirm (cs_k s))) after)"
      unfolding confirm_inv_def by blast
    then show ?thesis
      using assms(2,6,7) by (intro exI [of _ before] exI [of _ "after @ [l]"]) auto
  qed
  moreover have "cf_pending_pid (k_confirm (cs_k s')) = 0 \<longrightarrow> (\<forall>p. cs_phase s' p = C_out)"
    using assms(1,2,3) unfolding confirm_inv_def by metis
  moreover have "p = q" if "cs_phase s' p \<noteq> C_out" "cs_phase s' q \<noteq> C_out" for p q
    using assms(1,3) that unfolding confirm_inv_def by blast
  moreover have "p < length (k_procs (cs_k s')) \<and>
      p_pid (k_procs (cs_k s') ! p) = cf_pending_pid (k_confirm (cs_k s'))"
    if "cs_phase s' p \<noteq> C_out" for p
    using assms(1-5) that unfolding confirm_inv_def by metis
  ultimately show ?thesis unfolding confirm_inv_def by blast
qed

lemma wakeup_pid [simp]:
  "p < length (k_procs k) \<Longrightarrow> p_pid (k_procs (wakeup c k) ! p) = p_pid (k_procs k ! p)"
  by (simp add: wakeup_nth wake_proc_def)

lemma sleep_facts:
  assumes "sleep c k = Some k'"
  shows "k_confirm k' = k_confirm k" "length (k_procs k') = length (k_procs k)"
    "p < length (k_procs k) \<Longrightarrow> p_pid (k_procs k' ! p) = p_pid (k_procs k ! p)"
  using assms
  by (auto simp: sleep_def sched_def upd_proc_def panic_simps split: option.splits if_splits)

lemma confirm_inv_out:
  assumes "\<And>p. cs_phase s p = C_out"
  shows "confirm_inv tr s"
  using assms unfolding confirm_inv_def by simp

lemma confirm_inv_only:
  assumes "confirm_inv tr s" and "cs_phase s p \<noteq> C_out"
  shows "cs_phase s q = (if q = p then cs_phase s p else C_out)"
  using assms unfolding confirm_inv_def by auto

lemma confirm_inv_host:
  assumes "confirm_inv tr s"
  shows "confirm_inv (tr @ [A_host pid allow]) (s\<lparr>cs_k := confirm_resolve pid allow (cs_k s)\<rparr>)"
proof (rule confirm_inv_extend [OF assms])
  fix after
  assume r: "cf_result (k_confirm (cs_k s)) =
      verdict (first_answer (cf_pending_pid (k_confirm (cs_k s))) after)"
  show "cf_result (k_confirm (cs_k (s\<lparr>cs_k := confirm_resolve pid allow (cs_k s)\<rparr>))) =
      verdict (first_answer (cf_pending_pid (k_confirm (cs_k s))) (after @ [A_host pid allow]))"
  proof (cases "first_answer (cf_pending_pid (k_confirm (cs_k s))) after")
    case None
    then show ?thesis using r
      by (auto simp: confirm_resolve_def first_answer_snoc verdict_def Let_def)
  next
    case (Some a)
    with r have "cf_result (k_confirm (cs_k s)) \<noteq> - 1" by simp
    then show ?thesis using r Some
      by (simp add: confirm_resolve_def first_answer_snoc Let_def)
  qed
qed (auto simp: confirm_resolve_def Let_def is_claim_def)

lemma confirm_inv_claim:
  assumes "confirm_inv tr s" and "p < length (k_procs (cs_k s))" and "p_pid (k_procs (cs_k s) ! p) \<noteq> 0"
    and "confirm_claim p (cs_k s) = Some k'"
  shows "confirm_inv (tr @ [A_claim p (p_pid (k_procs (cs_k s) ! p))])
           \<lparr>cs_k = k', cs_phase = (cs_phase s)(p := C_claimed)\<rparr>"
proof -
  from assms(4) have idle: "cf_pending_pid (k_confirm (cs_k s)) = 0"
    and k': "k' = (cs_k s)\<lparr>k_confirm := \<lparr>cf_pending_pid = p_pid (k_procs (cs_k s) ! p), cf_result = - 1\<rparr>\<rparr>"
    by (auto simp: confirm_claim_def split: if_splits)
  from idle assms(1) have "\<And>q. cs_phase s q = C_out" unfolding confirm_inv_def by blast
  moreover have "\<exists>before after. tr @ [A_claim p pid] = before @ A_claim p pid # after \<and>
      (\<forall>l \<in> set after. \<not> is_claim l) \<and> - 1 = verdict (first_answer pid after)" for pid
    by (rule exI [of _ tr], rule exI [of _ "[]"]) (simp add: verdict_def)
  ultimately show ?thesis using assms(2,3) unfolding confirm_inv_def k' by auto
qed

lemma confirm_inv_step:
  assumes "confirm_inv tr s" and "cstep s l s'"
  shows "confirm_inv (tr @ [l]) s'"
  using assms(2)
proof cases
  case (claim p k')
  then show ?thesis using confirm_inv_claim [OF assms(1)] by simp
next
  case (host pid allow)
  then show ?thesis using confirm_inv_host [OF assms(1)] by simp
next
  case (return p t0 rc k')
  then have "cs_phase s' q = C_out" for q using confirm_inv_only [OF assms(1), of p q] by auto
  then show ?thesis by (rule confirm_inv_out)
next
  case (asleep p t0 t1 k')
  then have "sleep Ch_confirm (cs_k s) = Some k'"
    by (auto simp: confirm_poll_def split: if_splits bind_splits)
  then show ?thesis using asleep assms(1)
    by (intro confirm_inv_extend [OF assms(1)]) (auto simp: sleep_facts is_claim_def silent_def)
qed (rule confirm_inv_extend [OF assms(1)],
     auto simp: is_claim_def silent_def confirm_announce_def confirm_tick_def Let_def)+

lemma confirm_inv_exec:
  assumes "cexec s tr s'" and "\<And>p. cs_phase s p = C_out"
  shows "confirm_inv tr s'"
  using assms
  by (induction rule: cexec.induct) (auto intro: confirm_inv_out confirm_inv_step)

section \<open>Properties\<close>

text \<open>
  C5: an agent's dangerous call is let through exactly on the host's word.  In every
  interleaving of any number of requesters, host answers, timer ticks and other kernel
  activity, a \<open>confirm_request\<close> returns 1 if and only if the first answer the host gave for
  the pid after that request was announced as pending is an allow; a deny, or no answer,
  always returns 0.
\<close>

theorem confirm_only_on_host_word:
  assumes "cexec s (tr @ [A_return p rc]) s'" and "\<And>p. cs_phase s p = C_out"
  shows "\<exists>before pid after. tr = before @ A_claim p pid # after \<and> (\<forall>l \<in> set after. \<not> is_claim l) \<and>
           rc = (case first_answer pid after of Some allow \<Rightarrow> if allow \<noteq> 0 then 1 else 0 | None \<Rightarrow> 0)"
proof -
  from assms(1) obtain s1 where ex: "cexec s tr s1" and st: "cstep s1 (A_return p rc) s'"
    by (rule cexec_snocE) auto
  have inv: "confirm_inv tr s1" by (rule confirm_inv_exec [OF ex assms(2)])
  from st obtain t0 k' where ph: "cs_phase s1 p = C_waiting t0"
    and poll: "confirm_poll t0 (cs_k s1) = Some (Done rc, k')"
    by (auto simp: cstep_return)
  from inv ph obtain before after where
    tr: "tr = before @ A_claim p (cf_pending_pid (k_confirm (cs_k s1))) # after"
      "\<forall>l \<in> set after. \<not> is_claim l"
    and r: "cf_result (k_confirm (cs_k s1)) =
             verdict (first_answer (cf_pending_pid (k_confirm (cs_k s1))) after)"
    unfolding confirm_inv_def by (metis cphase.distinct(3))
  from poll r have "rc = (case first_answer (cf_pending_pid (k_confirm (cs_k s1))) after of
      Some allow \<Rightarrow> if allow \<noteq> 0 then 1 else 0 | None \<Rightarrow> 0)"
    by (auto simp: confirm_poll_def verdict_def split: if_splits option.splits bind_splits)
  with tr show ?thesis by blast
qed

theorem confirm_only_on_host_word_witness:
  "\<exists>s s' before pid after.
     cexec s ([A_claim 0 1, A_announce 0, A_host 1 7, A_env] @ [A_return 0 1]) s' \<and>
     [A_claim 0 1, A_announce 0, A_host 1 7, A_env] = before @ A_claim 0 pid # after \<and>
     1 = (case first_answer pid after of Some allow \<Rightarrow> if allow \<noteq> 0 then 1 else 0 | None \<Rightarrow> (0 :: int))"
proof -
  define k0 where "k0 = confirminit (kernel_boot\<lparr>k_cur := Some 0,
      k_procs := [(proc_boot 0)\<lparr>p_state := RUNNING, p_pid := 1\<rparr>]\<rparr>)"
  define k1 where "k1 = the (confirm_claim 0 k0)"
  define k2 where "k2 = snd (confirm_announce 0 7 None k1)"
  define k3 where "k3 = confirm_resolve 1 7 k2"
  define k4 where "k4 = k3\<lparr>k_ticks := 9\<rparr>"
  define s0 where "s0 = \<lparr>cs_k = k0, cs_phase = (\<lambda>_. C_out)\<rparr>"
  define s1 where "s1 = \<lparr>cs_k = k1, cs_phase = (\<lambda>_. C_out)(0 := C_claimed)\<rparr>"
  define s2 where "s2 = \<lparr>cs_k = k2, cs_phase = (\<lambda>_. C_out)(0 := C_waiting 0)\<rparr>"
  define s5 where "s5 = \<lparr>cs_k = confirm_idle k4, cs_phase = (\<lambda>_. C_out)(0 := C_out)\<rparr>"
  note defs = k0_def k1_def k2_def k3_def k4_def
  have k1: "confirm_claim 0 k0 = Some k1" and pid: "p_pid (k_procs k0 ! 0) = 1" "length (k_procs k0) = 1"
    by (auto simp: defs confirm_claim_def confirminit_def)
  have c3: "k_confirm k3 = \<lparr>cf_pending_pid = 1, cf_result = 1\<rparr>"
    by (simp add: defs confirm_claim_def confirminit_def confirm_announce_def confirm_resolve_def)
  have cur: "k_cur k4 = Some 0"
    by (simp add: defs confirm_claim_def confirminit_def confirm_announce_def confirm_resolve_def)
  have "cstep s0 (A_claim 0 1) s1"
    using cstep.claim [of s0 0 k1] k1 pid by (simp add: s0_def s1_def)
  moreover have "cstep s1 (A_announce 0) s2"
    using cstep.announce [of s1 0 7 None 0 k2]
    by (simp add: s1_def s2_def k2_def confirm_announce_def k1_def confirm_claim_def k0_def
        confirminit_def kernel_boot_def)
  moreover have "cstep s2 (A_host 1 7) (s2\<lparr>cs_k := k3\<rparr>)"
    using cstep.host [of s2 1 7] by (simp add: s2_def k3_def)
  moreover have "cstep (s2\<lparr>cs_k := k3\<rparr>) A_env (s2\<lparr>cs_k := k4\<rparr>)"
    using cstep.env [of k4 "s2\<lparr>cs_k := k3\<rparr>"] by (simp add: s2_def k4_def)
  moreover have "cstep (s2\<lparr>cs_k := k4\<rparr>) (A_return 0 1) s5"
    using cstep.return [of "s2\<lparr>cs_k := k4\<rparr>" 0 0 1 "confirm_idle k4"] c3 cur
    by (simp add: s2_def s5_def confirm_poll_def k4_def)
  ultimately have ex: "cexec s0 ([A_claim 0 1, A_announce 0, A_host 1 7, A_env] @ [A_return 0 1]) s5"
    using cexec_nil [of s0] cexec_snoc [of s0 "[]"] cexec_snoc [of s0 "[A_claim 0 1]"]
      cexec_snoc [of s0 "[A_claim 0 1, A_announce 0]"]
      cexec_snoc [of s0 "[A_claim 0 1, A_announce 0, A_host 1 7]"]
      cexec_snoc [of s0 "[A_claim 0 1, A_announce 0, A_host 1 7, A_env]"] by (simp, blast)
  then show ?thesis
    using confirm_only_on_host_word [OF ex] by (auto simp: s0_def)
qed

end
