(* ===== verification/Cache.thy ===== *)
theory Cache
  imports Fs_Frame
begin

text \<open>
  The LLM response cache, \<open>kernel/cache.c\<close>: the RAM table \<open>k_cache\<close> of 16 slots (hash 0 marks
  a free slot) with its LRU eviction to the disk overlay \<open>/cache.bin\<close>, exact lookup with
  promotion from disk, and semantic lookup by MinHash signatures.  \<open>k_rec_buf\<close> is the static
  \<open>rec_buf\<close>; a lookup returns its result code and the bytes it stored in \<open>valbuf\<close>.
\<close>

section \<open>The disk overlay\<close>

definition DISK_MAX_BYTES :: nat where "DISK_MAX_BYTES = 4 * 1024 * 1024"

text \<open>\<open>sizeof(struct disk_record)\<close>: hash, vlen and val take 1034 bytes, padded to 1040.\<close>

definition REC_SIZE :: nat where "REC_SIZE = 1040"

definition rec_hash :: "string \<Rightarrow> u64" where
  "rec_hash r = of_nat (get_le 8 0 r)"

definition rec_vlen :: "string \<Rightarrow> nat" where
  "rec_vlen r = get_le 2 8 r"

definition rec_val :: "string \<Rightarrow> string" where
  "rec_val r = take CACHE_VAL (drop 10 r)"

text \<open>Filling \<open>rec_buf\<close> in \<open>disk_append\<close>; the padding keeps what it held.\<close>

definition rec_fill :: "u64 \<Rightarrow> string \<Rightarrow> nat \<Rightarrow> string \<Rightarrow> string" where
  "rec_fill hash val vlen r =
     le_bytes 8 (unat hash) @ le_bytes 2 vlen @ mem_bytes val (int vlen) @
     replicate (CACHE_VAL - vlen) NUL @ drop (10 + CACHE_VAL) r"

abbreviation cache_path :: string where "cache_path \<equiv> ''/cache.bin''"

fun disk_scan_loop :: "nat list \<Rightarrow> nat \<Rightarrow> u64 \<Rightarrow> int \<Rightarrow> kernel \<Rightarrow> (int \<times> char list \<times> kernel) option" where
  "disk_scan_loop [] ip hash vbuflen k = Some (- 1, [], k)"
| "disk_scan_loop (off # offs) ip hash vbuflen k =
     do { (r, bs, k) \<leftarrow> readi ip None (of_nat off) (of_nat REC_SIZE) k;
          let k = k\<lparr>k_rec_buf := bs @ drop (length bs) (k_rec_buf k)\<rparr>;
          if r \<noteq> int REC_SIZE then Some (- 1, [], k)
          else if rec_hash (k_rec_buf k) = hash
          then
            let vlen = int (rec_vlen (k_rec_buf k));
                vlen = (if vlen > int CACHE_VAL then int CACHE_VAL else vlen);
                n = (if vlen < vbuflen then vlen else vbuflen)
            in Some (vlen, take (nat n) (rec_val (k_rec_buf k)), k)
          else disk_scan_loop offs ip hash vbuflen k }"

definition disk_scan :: "u64 \<Rightarrow> int \<Rightarrow> kernel \<Rightarrow> (int \<times> char list \<times> kernel) option" where
  "disk_scan hash vbuflen k =
     do { k \<leftarrow> begin_op k;
          (found, k) \<leftarrow> namei cache_path k;
          case found of
            None \<Rightarrow> do { k \<leftarrow> end_op k; Some (- 1, [], k) }
          | Some ip \<Rightarrow> do {
              k \<leftarrow> ilock ip k;
              let sz = unat (i_size (k_itable k ! ip));
              (r, bs, k) \<leftarrow> disk_scan_loop (map (\<lambda>i. REC_SIZE * i) [0..<sz div REC_SIZE]) ip hash vbuflen k;
              k \<leftarrow> iunlockput ip k;
              k \<leftarrow> end_op k;
              Some (r, bs, k) } }"

definition disk_append :: "u64 \<Rightarrow> string \<Rightarrow> nat \<Rightarrow> kernel \<Rightarrow> (int \<times> kernel) option" where
  "disk_append hash val vlen k =
     (if vlen > CACHE_VAL then Some (- 1, k)
      else do {
        k \<leftarrow> begin_op (k\<lparr>k_rec_buf := rec_fill hash val vlen (k_rec_buf k)\<rparr>);
        (found, k) \<leftarrow> namei cache_path k;
        (got, k) \<leftarrow>
          (case found of
             None \<Rightarrow> create cache_path T_FILE 0 0 k
           | Some ip \<Rightarrow> do { k \<leftarrow> ilock ip k; Some (Some ip, k) });
        case got of
          None \<Rightarrow> do { k \<leftarrow> end_op k; Some (- 1, k) }
        | Some ip \<Rightarrow>
            let sz = i_size (k_itable k ! ip)
            in if unat sz + REC_SIZE > DISK_MAX_BYTES
               then do { k \<leftarrow> iunlockput ip k; k \<leftarrow> end_op k; Some (- 1, k) }
               else do {
                 (n, k) \<leftarrow> writei ip (Kernel_src (k_rec_buf k)) sz (of_nat REC_SIZE) k;
                 k \<leftarrow> iunlockput ip k;
                 k \<leftarrow> end_op k;
                 Some (if n = int REC_SIZE then 0 else - 1, k) } })"

section \<open>The RAM table\<close>

fun ram_scan :: "cache_entry list \<Rightarrow> nat \<Rightarrow> u64 \<Rightarrow> nat option" where
  "ram_scan [] i hash = None"
| "ram_scan (e # es) i hash = (if ce_hash e = hash then Some i else ram_scan es (Suc i) hash)"

definition ram_find :: "u64 \<Rightarrow> kernel \<Rightarrow> nat option" where
  "ram_find hash k = ram_scan (k_cache k) 0 hash"

fun lru_scan :: "cache_entry list \<Rightarrow> nat \<Rightarrow> nat \<Rightarrow> u32 \<Rightarrow> nat" where
  "lru_scan [] j lru lru_tick = lru"
| "lru_scan (e # es) j lru lru_tick =
     (if ce_last_access e < lru_tick then lru_scan es (Suc j) j (ce_last_access e)
      else lru_scan es (Suc j) lru lru_tick)"

text \<open>The slot that \<open>cache_set\<close> fills, and the entry it evicts.\<close>

definition pick_slot :: "u64 \<Rightarrow> cache_entry list \<Rightarrow> nat \<times> (u64 \<times> string \<times> nat) option" where
  "pick_slot hash es =
     (case ram_scan es 0 hash of
        Some i \<Rightarrow> (i, None)
      | None \<Rightarrow>
          (case ram_scan es 0 0 of
             Some i \<Rightarrow> (i, None)
           | None \<Rightarrow>
               let lru = lru_scan (tl es) 1 0 (ce_last_access (hd es)); e = es ! lru
               in (lru, Some (ce_hash e, take (ce_vlen e) (ce_val e), ce_vlen e))))"

definition cache_entry_new :: "u64 \<Rightarrow> string \<Rightarrow> int \<Rightarrow> string \<Rightarrow> nat \<Rightarrow> u32 \<Rightarrow> cache_entry \<Rightarrow> cache_entry" where
  "cache_entry_new hash key klen val vlen now e =
     (let (ns, sig) = build_signature key klen
      in \<lparr>ce_hash = hash, ce_last_access = now, ce_vlen = vlen, ce_has_sig = (ns > 0), ce_sig = sig,
          ce_val = mem_bytes val (int vlen) @ drop vlen (ce_val e)\<rparr>)"

definition cache_set :: "string \<Rightarrow> int \<Rightarrow> string \<Rightarrow> int \<Rightarrow> kernel \<Rightarrow> (int \<times> kernel) option" where
  "cache_set key klen val vlen k =
     (if klen \<le> 0 \<or> vlen < 0 \<or> vlen > int CACHE_VAL then Some (- 1, k)
      else
        let hash = fnv1a_64 key klen;
            (i, evict) = pick_slot hash (k_cache k);
            k = k\<lparr>k_cache := (k_cache k)[i := cache_entry_new hash key klen val (nat vlen) (k_ticks k) (k_cache k ! i)]\<rparr>
        in case evict of
             None \<Rightarrow> Some (0, k)
           | Some (evict_hash, evict_val, evict_vlen) \<Rightarrow>
               do { (_, k) \<leftarrow> disk_append evict_hash evict_val evict_vlen k; Some (0, k) })"

text \<open>A hit touches the slot and copies out at most \<open>vbuflen\<close> bytes of the value.\<close>

definition ram_hit :: "nat \<Rightarrow> int \<Rightarrow> kernel \<Rightarrow> int \<times> char list \<times> kernel" where
  "ram_hit i vbuflen k =
     (let e = k_cache k ! i;
          n = (if int (ce_vlen e) < vbuflen then int (ce_vlen e) else vbuflen)
      in (int (ce_vlen e), take (nat n) (ce_val e),
          k\<lparr>k_cache := (k_cache k)[i := e\<lparr>ce_last_access := k_ticks k\<rparr>]\<rparr>))"

definition ram_promote :: "u64 \<Rightarrow> string \<Rightarrow> int \<Rightarrow> kernel \<Rightarrow> kernel" where
  "ram_promote hash bs vlen k =
     (let copy_vlen = nat (if vlen > int CACHE_VAL then int CACHE_VAL else vlen)
      in case ram_find hash k of
           Some _ \<Rightarrow> k
         | None \<Rightarrow>
             (case ram_find 0 k of
                None \<Rightarrow> k
              | Some j \<Rightarrow>
                  k\<lparr>k_cache := (k_cache k)[j := (k_cache k ! j)\<lparr>ce_hash := hash, ce_vlen := copy_vlen,
                       ce_last_access := k_ticks k, ce_has_sig := False,
                       ce_val := mem_bytes bs (int copy_vlen) @ drop copy_vlen (ce_val (k_cache k ! j))\<rparr>]\<rparr>))"

definition cache_get_exact :: "string \<Rightarrow> int \<Rightarrow> int \<Rightarrow> kernel \<Rightarrow> (int \<times> char list \<times> kernel) option" where
  "cache_get_exact key klen vbuflen k =
     (if klen \<le> 0 \<or> vbuflen \<le> 0 then Some (- 1, [], k)
      else
        let hash = fnv1a_64 key klen
        in case ram_find hash k of
             Some i \<Rightarrow> Some (ram_hit i vbuflen k)
           | None \<Rightarrow>
               do { (vlen, bs, k) \<leftarrow> disk_scan hash (int CACHE_VAL) k;
                    if vlen < 0 then Some (- 1, [], k)
                    else
                      let n = (if vlen < vbuflen then vlen else vbuflen)
                      in Some (vlen, take (nat n) bs, ram_promote hash bs vlen k) })"

fun semantic_scan :: "u64 list \<Rightarrow> cache_entry list \<Rightarrow> nat \<Rightarrow> nat option \<Rightarrow> int \<Rightarrow> u32 \<Rightarrow> nat option \<times> int" where
  "semantic_scan qsig [] j best best_match best_tick = (best, best_match)"
| "semantic_scan qsig (e # es) j best best_match best_tick =
     (if ce_hash e = 0 \<or> \<not> ce_has_sig e then semantic_scan qsig es (Suc j) best best_match best_tick
      else
        let m = int (jaccard_match_count qsig (ce_sig e))
        in if m > best_match \<or> (m = best_match \<and> ce_last_access e > best_tick)
           then semantic_scan qsig es (Suc j) (Some j) m (ce_last_access e)
           else semantic_scan qsig es (Suc j) best best_match best_tick)"

definition SEMANTIC_MATCH_NUM :: int where "SEMANTIC_MATCH_NUM = 2"
definition SEMANTIC_MATCH_DEN :: int where "SEMANTIC_MATCH_DEN = 5"

text \<open>Besides the result code, the bytes and the state, the value of \<open>*out_score\<close>.\<close>

definition cache_get_semantic :: "string \<Rightarrow> int \<Rightarrow> int \<Rightarrow> kernel \<Rightarrow> int \<times> char list \<times> int \<times> kernel" where
  "cache_get_semantic key klen vbuflen k =
     (if klen \<le> 0 \<or> vbuflen \<le> 0 then (- 1, [], 0, k)
      else
        let (n_shingle, qsig) = build_signature key klen
        in if n_shingle = 0 then (- 1, [], 0, k)
           else
             case semantic_scan qsig (k_cache k) 0 None (- 1) 0 of
               (None, _) \<Rightarrow> (- 1, [], 0, k)
             | (Some best, best_match) \<Rightarrow>
                 if best_match * SEMANTIC_MATCH_DEN < SEMANTIC_MATCH_NUM * int SIG_K then (- 1, [], 0, k)
                 else
                   let (vlen, bs, k) = ram_hit best vbuflen k in (vlen, bs, best_match, k))"

definition cache_get :: "string \<Rightarrow> int \<Rightarrow> int \<Rightarrow> kernel \<Rightarrow> (int \<times> char list \<times> kernel) option" where
  "cache_get key klen vbuflen k =
     do { (v, bs, k) \<leftarrow> cache_get_exact key klen vbuflen k;
          if v \<ge> 0 then Some (v, bs, k)
          else
            let (v, bs, score, k) = cache_get_semantic key klen vbuflen k in Some (v, bs, k) }"

section \<open>Invariant\<close>

definition entry_ok :: "cache_entry \<Rightarrow> bool" where
  "entry_ok e \<longleftrightarrow> length (ce_val e) = CACHE_VAL \<and> ce_vlen e \<le> CACHE_VAL \<and> length (ce_sig e) = SIG_K"

definition cache_inv :: "cache_entry list \<Rightarrow> bool" where
  "cache_inv es \<longleftrightarrow> length es = CACHE_SLOTS \<and> (\<forall>e \<in> set es. entry_ok e) \<and>
     (\<forall>i j. i < length es \<longrightarrow> j < length es \<longrightarrow> ce_hash (es ! i) \<noteq> 0 \<longrightarrow>
        ce_hash (es ! i) = ce_hash (es ! j) \<longrightarrow> i = j)"

lemma ram_scan_some:
  "ram_scan es n hash = Some i \<Longrightarrow> n \<le> i \<and> i < n + length es \<and> ce_hash (es ! (i - n)) = hash \<and>
     (\<forall>j < i - n. ce_hash (es ! j) \<noteq> hash)"
proof (induction es arbitrary: n)
  case (Cons e es)
  show ?case
  proof (cases "ce_hash e = hash")
    case False
    then have "ram_scan es (Suc n) hash = Some i" using Cons.prems by simp
    from Cons.IH [OF this] have "Suc n \<le> i" "i < Suc n + length es" "ce_hash (es ! (i - Suc n)) = hash"
      "\<forall>j < i - Suc n. ce_hash (es ! j) \<noteq> hash" by auto
    moreover have "i - n = Suc (i - Suc n)" using \<open>Suc n \<le> i\<close> by simp
    ultimately show ?thesis using False by (auto simp: less_Suc_eq_0_disj)
  qed (use Cons.prems in auto)
qed simp

lemma ram_scan_none: "ram_scan es n hash = None \<longleftrightarrow> (\<forall>e \<in> set es. ce_hash e \<noteq> hash)"
  by (induction es arbitrary: n) auto

lemma ram_scan_unique:
  assumes "cache_inv es" "i < length es" "ce_hash (es ! i) = hash" "hash \<noteq> 0"
  shows "ram_scan es 0 hash = Some i"
proof (cases "ram_scan es 0 hash")
  case None
  then show ?thesis using assms by (auto simp: ram_scan_none)
next
  case (Some j)
  then show ?thesis using ram_scan_some [OF Some] assms by (auto simp: cache_inv_def)
qed

lemma cache_inv_update:
  assumes "cache_inv es" "i < length es" "entry_ok e"
    and "\<And>j. j < length es \<Longrightarrow> j \<noteq> i \<Longrightarrow> ce_hash e \<noteq> 0 \<Longrightarrow> ce_hash (es ! j) \<noteq> ce_hash e"
  shows "cache_inv (es[i := e])"
  using assms set_update_subset_insert [of es i e]
  unfolding cache_inv_def by (auto simp: nth_list_update) blast

lemma cache_inv_touch:
  assumes "cache_inv es" "i < length es" "ce_hash e = ce_hash (es ! i)" "entry_ok e"
  shows "cache_inv (es[i := e])"
  using assms by (intro cache_inv_update) (auto simp: cache_inv_def)

lemma cache_inv_length: "cache_inv es \<Longrightarrow> length es = 16"
  by (simp add: cache_inv_def CACHE_SLOTS_def)

lemma cache_inv_nth: "cache_inv es \<Longrightarrow> i < length es \<Longrightarrow> entry_ok (es ! i)"
  by (simp add: cache_inv_def)

section \<open>Least recently used\<close>

lemma lru_scan_spec:
  assumes "lru < j" "lru_tick = ce_last_access (es ! lru)" "rest = drop j es" "j \<le> length es"
    "\<forall>i < j. ce_last_access (es ! lru) \<le> ce_last_access (es ! i)"
  shows "lru_scan rest j lru lru_tick < length es \<and>
    (\<forall>i < length es. ce_last_access (es ! lru_scan rest j lru lru_tick) \<le> ce_last_access (es ! i))"
  using assms
proof (induction rest arbitrary: j lru lru_tick)
  case Nil
  then show ?case by simp
next
  case (Cons e rest)
  then have j: "j < length es" "e = es ! j" "rest = drop (Suc j) es" using drop_eq_ConsD by metis+
  show ?case
  proof (cases "ce_last_access e < lru_tick")
    case True
    then have "\<forall>i < Suc j. ce_last_access (es ! j) \<le> ce_last_access (es ! i)"
      using Cons.prems j by (auto simp: less_Suc_eq intro: order.strict_implies_order order_less_le_trans)
    then show ?thesis using True Cons.IH [of j "Suc j" "ce_last_access e"] j by simp
  next
    case False
    then have "\<forall>i < Suc j. ce_last_access (es ! lru) \<le> ce_last_access (es ! i)"
      using Cons.prems j by (auto simp: less_Suc_eq)
    then show ?thesis using False Cons.IH [of lru "Suc j" lru_tick] Cons.prems(1,2) j by simp
  qed
qed

definition lru_slot :: "cache_entry list \<Rightarrow> nat" where
  "lru_slot es = lru_scan (tl es) 1 0 (ce_last_access (hd es))"

lemma lru_slot_spec:
  assumes "es \<noteq> []"
  shows "lru_slot es < length es" "i < length es \<Longrightarrow> ce_last_access (es ! lru_slot es) \<le> ce_last_access (es ! i)"
proof -
  have "lru_slot es < length es \<and> (\<forall>i < length es. ce_last_access (es ! lru_slot es) \<le> ce_last_access (es ! i))"
    unfolding lru_slot_def using assms
    by (intro lru_scan_spec) (auto simp: hd_conv_nth drop_Suc Suc_le_eq)
  then show "lru_slot es < length es"
    "i < length es \<Longrightarrow> ce_last_access (es ! lru_slot es) \<le> ce_last_access (es ! i)" by auto
qed

section \<open>Setting\<close>

lemma pick_slot_fresh:
  assumes "cache_inv es" "pick_slot hash es = (i, ev)" "hash \<noteq> 0"
  shows "i < length es" "j < length es \<Longrightarrow> j \<noteq> i \<Longrightarrow> ce_hash (es ! j) \<noteq> hash"
proof -
  have ne: "es \<noteq> []" using cache_inv_length [OF assms(1)] by auto
  have "i < length es \<and> (\<forall>j < length es. j \<noteq> i \<longrightarrow> ce_hash (es ! j) \<noteq> hash)"
  proof (cases "ram_scan es 0 hash")
    case (Some n)
    then have "i = n" using assms(2) by (simp add: pick_slot_def)
    then show ?thesis using ram_scan_some [OF Some] assms by (auto simp: cache_inv_def)
  next
    case None
    then have "\<forall>j < length es. ce_hash (es ! j) \<noteq> hash" by (simp add: ram_scan_none)
    moreover have "i < length es"
      using assms(2) None ram_scan_some [of es 0 0] lru_slot_spec(1) [OF ne]
      by (auto simp: pick_slot_def Let_def lru_slot_def split: option.splits)
    ultimately show ?thesis by blast
  qed
  then show "i < length es" "j < length es \<Longrightarrow> j \<noteq> i \<Longrightarrow> ce_hash (es ! j) \<noteq> hash" by auto
qed

lemma length_mem_bytes [simp]: "length (mem_bytes s n) = nat n"
  by (simp add: mem_bytes_def)

lemma entry_new_ok:
  "entry_ok e \<Longrightarrow> vlen \<le> CACHE_VAL \<Longrightarrow> entry_ok (cache_entry_new hash key klen val vlen now e)"
  by (auto simp: entry_ok_def cache_entry_new_def Let_def build_signature_eq minhash_def split: prod.splits)

lemma entry_new_fields [simp]:
  "ce_hash (cache_entry_new hash key klen val vlen now e) = hash"
  "ce_vlen (cache_entry_new hash key klen val vlen now e) = vlen"
  "ce_last_access (cache_entry_new hash key klen val vlen now e) = now"
  "ce_sig (cache_entry_new hash key klen val vlen now e) = snd (build_signature key klen)"
  "ce_has_sig (cache_entry_new hash key klen val vlen now e) = (fst (build_signature key klen) > 0)"
  "ce_val (cache_entry_new hash key klen val vlen now e) = mem_bytes val (int vlen) @ drop vlen (ce_val e)"
  by (simp_all add: cache_entry_new_def split: prod.splits)

lemma disk_append_cache: "disk_append h v n k = Some (r, k') \<Longrightarrow> agent_part k' = agent_part k"
  by (auto simp: disk_append_def Let_def split: if_splits bind_splits option.splits
      dest!: begin_op_ap namei_ap create_ap ilock_ap iunlockput_ap end_op_ap writei_ap)

lemma cache_set_table:
  assumes "cache_inv (k_cache k)" "cache_set key klen val vlen k = Some (r, k')"
    "0 < klen" "0 \<le> vlen" "vlen \<le> int CACHE_VAL"
  obtains i where "i < length (k_cache k)" "cache_inv (k_cache k')" "k_ticks k' = k_ticks k" "r = 0"
    "k_cache k' = (k_cache k)[i := cache_entry_new (fnv1a_64 key klen) key klen val (nat vlen) (k_ticks k) (k_cache k ! i)]"
proof -
  obtain i ev where p: "pick_slot (fnv1a_64 key klen) (k_cache k) = (i, ev)" by fastforce
  let ?e = "cache_entry_new (fnv1a_64 key klen) key klen val (nat vlen) (k_ticks k) (k_cache k ! i)"
  note fresh = pick_slot_fresh [OF assms(1) p fnv1a_64_nonzero]
  have tab: "k_cache k' = (k_cache k)[i := ?e] \<and> k_ticks k' = k_ticks k \<and> r = 0"
    using assms(2-5) p by (auto simp: cache_set_def Let_def agent_part_def split: option.splits bind_splits
        dest!: disk_append_cache)
  moreover have "cache_inv ((k_cache k)[i := ?e])"
    using fresh assms by (intro cache_inv_update) (auto simp: entry_new_ok cache_inv_nth)
  ultimately show thesis using that fresh(1) by metis
qed

lemma cache_set_hit:
  assumes "cache_inv (k_cache k)" "0 < klen" "0 \<le> vlen" "vlen \<le> 1024" "0 < vbuflen"
    "cache_set key klen val vlen k = Some (r, k')"
  obtains i where "\<And>k2 key2. k_cache k2 = k_cache k' \<Longrightarrow> mem_bytes key2 klen = mem_bytes key klen \<Longrightarrow>
    cache_get_exact key2 klen vbuflen k2 = Some (vlen, take (nat (min vlen vbuflen)) (mem_bytes val vlen),
      k2\<lparr>k_cache := (k_cache k2)[i := (k_cache k2 ! i)\<lparr>ce_last_access := k_ticks k2\<rparr>]\<rparr>)"
proof -
  have vlen: "vlen \<le> int CACHE_VAL" using assms(4) by (simp add: CACHE_VAL_def)
  obtain i where i: "i < length (k_cache k)" "cache_inv (k_cache k')"
    "k_cache k' = (k_cache k)[i := cache_entry_new (fnv1a_64 key klen) key klen val (nat vlen) (k_ticks k) (k_cache k ! i)]"
    using cache_set_table [OF assms(1,6,2,3) vlen] by blast
  have f: "ram_find (fnv1a_64 key klen) k' = Some i"
    unfolding ram_find_def using i by (intro ram_scan_unique) simp_all
  show thesis
  proof (rule that [of i])
    fix k2 :: kernel and key2
    assume k2: "k_cache k2 = k_cache k'" and "mem_bytes key2 klen = mem_bytes key klen"
    then have "fnv1a_64 key2 klen = fnv1a_64 key klen" by (simp add: fnv1a_64_def)
    then have "ram_find (fnv1a_64 key2 klen) k2 = Some i" using f k2 by (simp add: ram_find_def)
    then show "cache_get_exact key2 klen vbuflen k2 = Some (vlen, take (nat (min vlen vbuflen)) (mem_bytes val vlen),
      k2\<lparr>k_cache := (k_cache k2)[i := (k_cache k2 ! i)\<lparr>ce_last_access := k_ticks k2\<rparr>]\<rparr>)"
      using assms(2,3,5) i k2 by (simp add: cache_get_exact_def ram_hit_def Let_def min_def)
  qed
qed

lemma cache_set_found:
  assumes "cache_inv (k_cache k)" "0 < klen" "0 \<le> vlen" "vlen \<le> 1024" "0 < vbuflen"
    "cache_set key klen val vlen k = Some (r, k')"
  shows "\<exists>k''. cache_get_exact key klen vbuflen k' =
    Some (vlen, take (nat (min vlen vbuflen)) (mem_bytes val vlen), k'')"
proof (rule cache_set_hit [OF assms], goal_cases)
  case (1 i)
  show ?case by (rule exI, rule 1 [OF refl refl])
qed

section \<open>Properties\<close>

text \<open>
  C16: what is cached is found again.  In any consistent cache, whatever was cached before and
  whatever \<open>/cache.bin\<close> contains, after a successful \<open>cache_set\<close> the exact lookup of the same
  key returns the value's length and its leading bytes (all of it, if the buffer is large
  enough), without going to disk.
\<close>

theorem cache_set_get:
  assumes "cache_inv (k_cache k)" "0 < klen" "0 \<le> vlen" "vlen \<le> 1024" "0 < vbuflen"
    "cache_set key klen val vlen k = Some (r, k')"
  shows "\<exists>k''. cache_get_exact key klen vbuflen k' =
    Some (vlen, take (nat (min vlen vbuflen)) (mem_bytes val vlen), k'')"
  by (rule cache_set_found [OF assms])

text \<open>A cache state with one entry, for the instances below.\<close>

definition cache_sample :: kernel where
  "cache_sample = kernel_boot\<lparr>k_ticks := 7\<rparr>"

lemma entry_boot_ok: "entry_ok cache_entry_boot"
  by (simp add: entry_ok_def cache_entry_boot_def)

lemma cache_boot_inv: "cache_inv (replicate CACHE_SLOTS cache_entry_boot)"
  by (simp add: cache_inv_def entry_boot_ok nth_replicate cache_entry_boot_def)
    (simp add: entry_boot_ok flip: cache_entry_boot_def)

lemma cache_sample_inv: "cache_inv (k_cache cache_sample)"
  using cache_boot_inv by (simp add: cache_sample_def kernel_boot_def)

lemma cache_sample_set_pending:
  assumes "0 < klen" "0 \<le> vlen" "vlen \<le> 1024"
  shows "\<exists>k'. cache_set key klen val vlen (cache_sample\<lparr>k_pending := pe\<rparr>) = Some (0, k')"
proof -
  have "ram_scan (k_cache cache_sample) 0 (fnv1a_64 key klen) = None"
    by (simp add: ram_scan_none cache_sample_def kernel_boot_def cache_entry_boot_def)
  moreover have "ram_scan (k_cache cache_sample) 0 0 = Some 0"
    by (simp add: cache_sample_def kernel_boot_def cache_entry_boot_def CACHE_SLOTS_def numeral_eq_Suc)
  ultimately show ?thesis using assms
    by (simp add: cache_set_def pick_slot_def Let_def CACHE_VAL_def)
qed

lemma cache_sample_set:
  assumes "0 < klen" "0 \<le> vlen" "vlen \<le> 1024"
  shows "\<exists>k'. cache_set key klen val vlen cache_sample = Some (0, k')"
  using cache_sample_set_pending [OF assms, of key val "k_pending cache_sample"] by simp

theorem cache_set_get_witness:
  "\<exists>k' k''. cache_set ''list my files'' 13 ''LS'' 2 cache_sample = Some (0, k') \<and>
     cache_get_exact ''list my files'' 13 64 k' =
       Some (2, take (nat (min 2 64)) (mem_bytes ''LS'' 2), k'')"
proof -
  obtain k' where k': "cache_set ''list my files'' 13 ''LS'' 2 cache_sample = Some (0, k')"
    using cache_sample_set [of 13 2] by auto
  then show ?thesis using cache_set_get [OF cache_sample_inv _ _ _ _ k', of 64] by auto
qed

text \<open>
  C18: a full table evicts the least recently used entry.  When no slot is free and the key is
  new, the slot that \<open>cache_set\<close> takes has the smallest access time of all 16, every other slot
  keeps its entry, and exactly the old hash and value of that slot are handed to the disk
  overlay.
\<close>

theorem cache_evicts_lru:
  assumes "cache_inv (k_cache k)" "\<forall>e \<in> set (k_cache k). ce_hash e \<noteq> 0 \<and> ce_hash e \<noteq> fnv1a_64 key klen"
    "0 < klen" "0 \<le> vlen" "vlen \<le> 1024"
  shows "\<exists>i < 16. (\<forall>j < 16. ce_last_access (k_cache k ! i) \<le> ce_last_access (k_cache k ! j)) \<and>
    (let k1 = k\<lparr>k_cache := (k_cache k)[i := cache_entry_new (fnv1a_64 key klen) key klen val (nat vlen) (k_ticks k) (k_cache k ! i)]\<rparr>;
         e = k_cache k ! i
     in cache_set key klen val vlen k =
        map_option (\<lambda>(_, k2). (0, k2)) (disk_append (ce_hash e) (take (ce_vlen e) (ce_val e)) (ce_vlen e) k1))"
proof -
  let ?i = "lru_slot (k_cache k)"
  have len: "length (k_cache k) = 16" by (rule cache_inv_length [OF assms(1)])
  then have ne: "k_cache k \<noteq> []" by auto
  have "ram_scan (k_cache k) 0 (fnv1a_64 key klen) = None" "ram_scan (k_cache k) 0 0 = None"
    using assms(2) by (auto simp: ram_scan_none)
  then have "pick_slot (fnv1a_64 key klen) (k_cache k) = (?i, Some (ce_hash (k_cache k ! ?i),
      take (ce_vlen (k_cache k ! ?i)) (ce_val (k_cache k ! ?i)), ce_vlen (k_cache k ! ?i)))"
    by (simp add: pick_slot_def lru_slot_def Let_def)
  then have "let k1 = k\<lparr>k_cache := (k_cache k)[?i := cache_entry_new (fnv1a_64 key klen) key klen val (nat vlen) (k_ticks k) (k_cache k ! ?i)]\<rparr>;
         e = k_cache k ! ?i
     in cache_set key klen val vlen k =
        map_option (\<lambda>(_, k2). (0, k2)) (disk_append (ce_hash e) (take (ce_vlen e) (ce_val e)) (ce_vlen e) k1)"
    using assms(3-5) by (auto simp: cache_set_def CACHE_VAL_def Let_def split: bind_splits)
  then show ?thesis using lru_slot_spec [OF ne] len by (intro exI [of _ ?i]) auto
qed

definition cache_full :: kernel where
  "cache_full = kernel_boot\<lparr>k_cache := map (\<lambda>i. cache_entry_boot\<lparr>ce_hash := of_nat (Suc i), ce_last_access := 100 - of_nat i\<rparr>) [0..<16]\<rparr>"

lemma cache_full_inv: "cache_inv (k_cache cache_full)"
proof -
  have "unat (of_nat (Suc i) :: u64) = Suc i" if "i < 16" for i
    unfolding unat_of_nat using that by simp
  then have "i = j" if "i < 16" "j < 16" "(of_nat (Suc i) :: u64) = of_nat (Suc j)" for i j
    using that by (metis Suc_inject)
  then show ?thesis
    by (auto simp: cache_inv_def cache_full_def CACHE_SLOTS_def entry_ok_def cache_entry_boot_def
        simp del: of_nat_Suc)
qed

theorem cache_evicts_lru_witness:
  "\<exists>i < 16. (\<forall>j < 16. ce_last_access (k_cache cache_full ! i) \<le> ce_last_access (k_cache cache_full ! j)) \<and>
    (let k1 = cache_full\<lparr>k_cache := (k_cache cache_full)[i := cache_entry_new (fnv1a_64 ''q'' 1) ''q'' 1 ''LS'' (nat 2) (k_ticks cache_full) (k_cache cache_full ! i)]\<rparr>;
         e = k_cache cache_full ! i
     in cache_set ''q'' 1 ''LS'' 2 cache_full =
        map_option (\<lambda>(_, k2). (0, k2)) (disk_append (ce_hash e) (take (ce_vlen e) (ce_val e)) (ce_vlen e) k1))"
proof -
  have "fnv1a_64 ''q'' 1 \<notin> {1, 2, 3, 4, 5, 6, 7, 8, 9, 10, 11, 12, 13, 14, 15, 16}"
    by code_simp
  then have "\<forall>e \<in> set (k_cache cache_full). ce_hash e \<noteq> 0 \<and> ce_hash e \<noteq> fnv1a_64 ''q'' 1"
    by (simp add: cache_full_def upt_rec)
  then show ?thesis by (intro cache_evicts_lru [OF cache_full_inv]) simp_all
qed

lemma ram_hit_cache:
  assumes "cache_inv (k_cache k)" "i < length (k_cache k)" "ram_hit i vbuflen k = (v, bs, k')"
  shows "cache_inv (k_cache k')" "0 \<le> v" "v \<le> 1024" "length bs \<le> nat vbuflen" "length bs \<le> 1024"
proof -
  have e: "entry_ok (k_cache k ! i)" by (rule cache_inv_nth [OF assms(1,2)])
  then have "entry_ok ((k_cache k ! i)\<lparr>ce_last_access := t\<rparr>)" for t by (simp add: entry_ok_def)
  then show "cache_inv (k_cache k')"
    using assms by (auto simp: ram_hit_def Let_def intro!: cache_inv_touch)
  show "0 \<le> v" "v \<le> 1024" "length bs \<le> nat vbuflen" "length bs \<le> 1024"
    using assms(3) e by (auto simp: ram_hit_def Let_def entry_ok_def CACHE_VAL_def)
qed

lemma semantic_scan_some:
  assumes "semantic_scan qsig es n best bm bt = (Some i, m)" "best = None \<or> (\<exists>b. best = Some b \<and> b < n)"
  shows "i < n + length es"
  using assms
proof (induction es arbitrary: n best bm bt)
  case (Cons e es)
  then show ?case
    by (auto simp: Let_def split: if_splits dest!: Cons.IH)
qed auto

lemma length_rec_val [simp]: "length (rec_val r) \<le> 1024"
  by (simp add: rec_val_def CACHE_VAL_def)

lemma disk_scan_loop_bound:
  assumes "disk_scan_loop offs ip hash vb k = Some (v, bs, k')"
  shows "- 1 \<le> v" "v \<le> 1024" "length bs \<le> nat vb" "length bs \<le> 1024" "agent_part k' = agent_part k"
proof -
  have "- 1 \<le> v \<and> v \<le> 1024 \<and> length bs \<le> nat vb \<and> length bs \<le> 1024 \<and> agent_part k' = agent_part k"
    using assms
  proof (induction offs arbitrary: k)
    case (Cons off offs)
    obtain r b1 k1 where rd: "readi ip None (of_nat off) (of_nat REC_SIZE) k = Some (r, b1, k1)"
      using Cons.prems by (auto split: bind_splits)
    let ?k = "k1\<lparr>k_rec_buf := b1 @ drop (length b1) (k_rec_buf k1)\<rparr>"
    have ap: "agent_part ?k = agent_part k" using readi_ap [OF rd] by simp
    consider "r \<noteq> int REC_SIZE" | "r = int REC_SIZE" "rec_hash (k_rec_buf ?k) = hash"
      | "r = int REC_SIZE" "rec_hash (k_rec_buf ?k) \<noteq> hash" by blast
    then show ?case
    proof cases
      case 1
      then show ?thesis using Cons.prems rd ap by (auto simp: Let_def)
    next
      case 2
      then show ?thesis using Cons.prems rd ap
        by (auto simp: Let_def CACHE_VAL_def min_le_iff_disj split: if_splits
            intro: order_trans [OF length_rec_val])
    next
      case 3
      then have "disk_scan_loop offs ip hash vb ?k = Some (v, bs, k')" using Cons.prems rd by (simp add: Let_def)
      then show ?thesis using Cons.IH ap by simp
    qed
  qed simp
  then show "- 1 \<le> v" "v \<le> 1024" "length bs \<le> nat vb" "length bs \<le> 1024" "agent_part k' = agent_part k" by auto
qed

lemma disk_scan_bound:
  assumes "disk_scan hash vb k = Some (v, bs, k')"
  shows "- 1 \<le> v" "v \<le> 1024" "length bs \<le> 1024" "agent_part k' = agent_part k"
proof -
  have "- 1 \<le> v \<and> v \<le> 1024 \<and> length bs \<le> 1024 \<and> agent_part k' = agent_part k"
    using assms disk_scan_loop_bound
    by (auto simp: disk_scan_def Let_def split: bind_splits option.splits
        dest!: begin_op_ap namei_ap ilock_ap iunlockput_ap end_op_ap)
  then show "- 1 \<le> v" "v \<le> 1024" "length bs \<le> 1024" "agent_part k' = agent_part k" by auto
qed

lemma ram_promote_cache:
  assumes "cache_inv (k_cache k)" "hash \<noteq> 0" "0 \<le> vlen"
  shows "cache_inv (k_cache (ram_promote hash bs vlen k))"
proof (cases "ram_find hash k = None \<and> ram_find 0 k \<noteq> None")
  case True
  then obtain j where j: "ram_scan (k_cache k) 0 0 = Some j" "ram_scan (k_cache k) 0 hash = None"
    by (auto simp: ram_find_def)
  have jl: "j < length (k_cache k)" using ram_scan_some [OF j(1)] by simp
  let ?n = "nat (if vlen > int CACHE_VAL then int CACHE_VAL else vlen)"
  let ?e = "(k_cache k ! j)\<lparr>ce_hash := hash, ce_vlen := ?n, ce_last_access := k_ticks k, ce_has_sig := False,
      ce_val := mem_bytes bs (int ?n) @ drop ?n (ce_val (k_cache k ! j))\<rparr>"
  have "entry_ok ?e" using cache_inv_nth [OF assms(1) jl] by (auto simp: entry_ok_def)
  then have "cache_inv ((k_cache k)[j := ?e])"
    using j(2) by (intro cache_inv_update [OF assms(1) jl]) (auto simp: ram_scan_none)
  then show ?thesis using True j by (simp add: ram_promote_def ram_find_def Let_def)
next
  case False
  then show ?thesis using assms(1) by (auto simp: ram_promote_def Let_def split: option.splits)
qed

lemma cache_get_exact_inv:
  assumes "cache_inv (k_cache k)" "cache_get_exact key klen vb k = Some (v, bs, k')"
  shows "cache_inv (k_cache k') \<and> - 1 \<le> v \<and> v \<le> 1024 \<and> length bs \<le> nat vb \<and> length bs \<le> 1024"
proof (cases "klen \<le> 0 \<or> vb \<le> 0")
  case True
  then show ?thesis using assms by (auto simp: cache_get_exact_def)
next
  case args: False
  show ?thesis
  proof (cases "ram_find (fnv1a_64 key klen) k")
    case (Some i)
    then have "i < length (k_cache k)" using ram_scan_some unfolding ram_find_def by fastforce
    moreover have "ram_hit i vb k = (v, bs, k')" using args Some assms(2) by (simp add: cache_get_exact_def Let_def)
    ultimately show ?thesis using ram_hit_cache [OF assms(1)] by fastforce
  next
    case None
    then obtain v1 b1 k1 where d: "disk_scan (fnv1a_64 key klen) (int CACHE_VAL) k = Some (v1, b1, k1)"
      using args assms(2) by (auto simp: cache_get_exact_def Let_def split: bind_splits)
    note bound = disk_scan_bound [OF d]
    have inv1: "cache_inv (k_cache k1)" using assms(1) agent_partD(1) [OF bound(4)] by simp
    show ?thesis
    proof (cases "v1 < 0")
      case True
      then show ?thesis using args None d assms(2) inv1 by (auto simp: cache_get_exact_def Let_def)
    next
      case False
      then have "v = v1" "k' = ram_promote (fnv1a_64 key klen) b1 v1 k1"
        "bs = take (nat (if v1 < vb then v1 else vb)) b1"
        using args None d assms(2) by (auto simp: cache_get_exact_def Let_def)
      moreover have "cache_inv (k_cache (ram_promote (fnv1a_64 key klen) b1 v1 k1))"
        using False by (intro ram_promote_cache [OF inv1]) simp_all
      ultimately show ?thesis using bound by auto
    qed
  qed
qed

lemma cache_get_semantic_inv:
  assumes "cache_inv (k_cache k)" "cache_get_semantic key klen vb k = (v, bs, score, k')"
  shows "cache_inv (k_cache k') \<and> - 1 \<le> v \<and> v \<le> 1024 \<and> length bs \<le> nat vb \<and> length bs \<le> 1024"
proof (cases "\<exists>i m. semantic_scan (snd (build_signature key klen)) (k_cache k) 0 None (- 1) 0 = (Some i, m) \<and>
    (v, bs, k') = ram_hit i vb k")
  case True
  then obtain i m where i: "semantic_scan (snd (build_signature key klen)) (k_cache k) 0 None (- 1) 0 = (Some i, m)"
    "ram_hit i vb k = (v, bs, k')" by auto
  then have "i < length (k_cache k)" using semantic_scan_some [OF i(1)] by simp
  then show ?thesis using ram_hit_cache [OF assms(1) _ i(2)] by simp
next
  case False
  then have "(v, bs, k') = (- 1, [], k)"
    using assms(2) by (auto simp: cache_get_semantic_def Let_def split: if_splits prod.splits option.splits)
  then show ?thesis using assms(1) by simp
qed

text \<open>
  C19: no cache operation can corrupt the table or overrun a buffer.  Whatever bytes
  \<open>/cache.bin\<close> holds (it is writable by user programs) and for all arguments, \<open>cache_set\<close>,
  \<open>cache_get\<close>, and so exact and semantic lookup, keep the table's invariant (16 slots, values and
  signatures of fixed size, no two slots with the same nonzero hash), and a lookup's length
  lies between -1 and 1024 and it stores at most \<open>vbuflen\<close> bytes.
\<close>

theorem cache_operations_safe:
  assumes "cache_inv (k_cache k)"
  shows "(\<forall>r k'. cache_set key klen val vlen k = Some (r, k') \<longrightarrow> cache_inv (k_cache k')) \<and>
    (\<forall>v bs k'. cache_get key klen vbuflen k = Some (v, bs, k') \<longrightarrow>
       cache_inv (k_cache k') \<and> - 1 \<le> v \<and> v \<le> 1024 \<and> length bs \<le> nat vbuflen)"
proof (intro conjI allI impI)
  fix r k'
  assume s: "cache_set key klen val vlen k = Some (r, k')"
  show "cache_inv (k_cache k')"
  proof (cases "klen \<le> 0 \<or> vlen < 0 \<or> vlen > int CACHE_VAL")
    case True
    then show ?thesis using s assms by (auto simp: cache_set_def)
  next
    case False
    then show ?thesis using cache_set_table [OF assms s] by (metis not_le not_less)
  qed
next
  fix v bs k'
  assume "cache_get key klen vbuflen k = Some (v, bs, k')"
  then obtain v1 b1 k1 where e: "cache_get_exact key klen vbuflen k = Some (v1, b1, k1)"
    and r: "(v1 \<ge> 0 \<and> (v, bs, k') = (v1, b1, k1)) \<or> (\<exists>sc. cache_get_semantic key klen vbuflen k1 = (v, bs, sc, k'))"
    by (auto simp: cache_get_def Let_def split: bind_splits if_splits prod.splits)
  note inv1 = cache_get_exact_inv [OF assms e]
  show "cache_inv (k_cache k')" "- 1 \<le> v" "v \<le> 1024" "length bs \<le> nat vbuflen"
    using r inv1 cache_get_semantic_inv [of k1 key klen vbuflen v bs _ k'] by auto
qed

theorem cache_operations_safe_witness:
  "\<exists>k' v bs k''. cache_set ''list my files'' 13 ''LS'' 2 cache_sample = Some (0, k') \<and> cache_inv (k_cache k') \<and>
     cache_get ''list my files'' 13 64 k' = Some (v, bs, k'') \<and>
     cache_inv (k_cache k'') \<and> - 1 \<le> v \<and> v \<le> 1024 \<and> length bs \<le> 64"
proof -
  obtain k' where k': "cache_set ''list my files'' 13 ''LS'' 2 cache_sample = Some (0, k')"
    using cache_sample_set [of 13 2] by auto
  have args: "0 < (13 :: int)" "0 \<le> (2 :: int)" "(2 :: int) \<le> 1024" "0 < (64 :: int)" by simp_all
  have safe: "cache_inv (k_cache k')" using cache_operations_safe [OF cache_sample_inv] k' by blast
  obtain k'' where "cache_get_exact ''list my files'' 13 64 k' = Some (2, take (nat (min 2 64)) (mem_bytes ''LS'' 2), k'')"
    using cache_set_found [OF cache_sample_inv args k'] by blast
  then have g: "cache_get ''list my files'' 13 64 k' = Some (2, take (nat (min 2 64)) (mem_bytes ''LS'' 2), k'')"
    by (simp add: cache_get_def)
  have "cache_inv (k_cache k'') \<and> - 1 \<le> (2 :: int) \<and> (2 :: int) \<le> 1024 \<and>
      length (take (nat (min 2 64)) (mem_bytes ''LS'' 2)) \<le> nat 64"
    using cache_operations_safe [OF safe] g by blast
  then show ?thesis using k' safe g by auto
qed

section \<open>Semantic lookup\<close>

definition sem_slot :: "cache_entry list \<Rightarrow> nat \<Rightarrow> bool" where
  "sem_slot es j \<longleftrightarrow> j < length es \<and> ce_hash (es ! j) \<noteq> 0 \<and> ce_has_sig (es ! j)"

lemma semantic_scan_spec:
  assumes "rest = drop n es" "n \<le> length es"
    "best = None \<longrightarrow> bm = - 1 \<and> (\<forall>j < n. \<not> sem_slot es j)"
    "\<forall>b. best = Some b \<longrightarrow> b < n \<and> sem_slot es b \<and> bm = int (jaccard_match_count qsig (ce_sig (es ! b))) \<and>
       bt = ce_last_access (es ! b) \<and>
       (\<forall>j < n. sem_slot es j \<longrightarrow> int (jaccard_match_count qsig (ce_sig (es ! j))) \<le> bm)"
    "semantic_scan qsig rest n best bm bt = (r, m)"
  shows "(r = None \<longrightarrow> (\<forall>j < length es. \<not> sem_slot es j)) \<and>
    (\<forall>b. r = Some b \<longrightarrow> sem_slot es b \<and> m = int (jaccard_match_count qsig (ce_sig (es ! b))) \<and>
       (\<forall>j < length es. sem_slot es j \<longrightarrow> int (jaccard_match_count qsig (ce_sig (es ! j))) \<le> m))"
  using assms
proof (induction rest arbitrary: n best bm bt)
  case Nil
  then have "n = length es" by simp
  then show ?case using Nil by auto
next
  case (Cons e rest)
  from Cons.prems(1) have n: "n < length es" and e: "e = es ! n" and rest: "rest = drop (Suc n) es"
    using drop_eq_ConsD by metis+
  let ?m = "int (jaccard_match_count qsig (ce_sig e))"
  show ?case
  proof (cases "sem_slot es n")
    case False
    then have skip: "semantic_scan qsig (e # rest) n best bm bt = semantic_scan qsig rest (Suc n) best bm bt"
      using n by (simp add: sem_slot_def e)
    show ?thesis
    proof (rule Cons.IH [OF rest])
      show "semantic_scan qsig rest (Suc n) best bm bt = (r, m)" using Cons.prems(5) skip by simp
    qed (use n Cons.prems(3,4) False in \<open>auto simp: less_Suc_eq\<close>)
  next
    case True
    then have ne: "\<not> (ce_hash e = 0 \<or> \<not> ce_has_sig e)" by (simp add: sem_slot_def e)
    show ?thesis
    proof (cases "?m > bm \<or> (?m = bm \<and> ce_last_access e > bt)")
      case take: True
      then have le: "int (jaccard_match_count qsig (ce_sig (es ! j))) \<le> ?m" if "j < n" "sem_slot es j" for j
        using Cons.prems(3,4) that by (cases best) fastforce+
      show ?thesis
      proof (rule Cons.IH [OF rest])
        show "semantic_scan qsig rest (Suc n) (Some n) ?m (ce_last_access e) = (r, m)"
          using Cons.prems(5) ne take by (simp add: Let_def)
      qed (use n True le e in \<open>auto simp: less_Suc_eq\<close>)
    next
      case keep: False
      then obtain b where b: "best = Some b" using Cons.prems(3) by (cases best) auto
      show ?thesis
      proof (rule Cons.IH [OF rest])
        show "semantic_scan qsig rest (Suc n) best bm bt = (r, m)"
          using Cons.prems(5) ne keep by (simp add: Let_def)
      qed (use n b Cons.prems(4) keep e in \<open>auto simp: less_Suc_eq\<close>)
    qed
  qed
qed

lemma semantic_scan_best:
  assumes "semantic_scan qsig es 0 None (- 1) 0 = (r, m)"
  shows "r = None \<Longrightarrow> j < length es \<Longrightarrow> \<not> sem_slot es j"
    and "r = Some b \<Longrightarrow> sem_slot es b \<and> m = int (jaccard_match_count qsig (ce_sig (es ! b)))"
    and "r = Some b \<Longrightarrow> sem_slot es j \<Longrightarrow> int (jaccard_match_count qsig (ce_sig (es ! j))) \<le> m"
  using semantic_scan_spec [OF _ _ _ _ assms, of es] by (auto simp: sem_slot_def)

text \<open>
  C20: a semantic hit is the best match and a good one.  When \<open>cache_get_semantic\<close> returns a
  length, the value is that of an occupied slot with a signature, at least 26 of whose 64
  signature entries agree with the query's, no other slot agrees in more, and the reported
  score is that number; when it returns -1 for a query with at least three content words,
  every slot with a signature agrees in fewer than 26.
\<close>

theorem cache_semantic_best_match:
  assumes "0 < klen" "0 < vbuflen" "fst (build_signature key klen) > 0"
    "cache_get_semantic key klen vbuflen k = (v, bs, score, k')"
  shows "(v = - 1 \<and> k' = k \<and> (\<forall>j < length (k_cache k). sem_slot (k_cache k) j \<longrightarrow>
            jaccard_match_count (snd (build_signature key klen)) (ce_sig (k_cache k ! j)) < 26)) \<or>
    (\<exists>b. sem_slot (k_cache k) b \<and> v = int (ce_vlen (k_cache k ! b)) \<and>
       bs = take (nat (min v vbuflen)) (ce_val (k_cache k ! b)) \<and> 26 \<le> score \<and>
       score = int (jaccard_match_count (snd (build_signature key klen)) (ce_sig (k_cache k ! b))) \<and>
       (\<forall>j < length (k_cache k). sem_slot (k_cache k) j \<longrightarrow>
          int (jaccard_match_count (snd (build_signature key klen)) (ce_sig (k_cache k ! j))) \<le> score))"
proof -
  obtain r m where s: "semantic_scan (snd (build_signature key klen)) (k_cache k) 0 None (- 1) 0 = (r, m)"
    by fastforce
  note best = semantic_scan_best [OF s]
  show ?thesis
  proof (cases r)
    case None
    then have "v = - 1" "k' = k" using assms s
      by (auto simp: cache_get_semantic_def Let_def split: if_splits prod.splits)
    then show ?thesis using best(1) [OF None] by auto
  next
    case (Some b)
    show ?thesis
    proof (cases "m * 5 < 2 * 64")
      case True
      then have "v = - 1" "k' = k" using assms s Some
        by (auto simp: cache_get_semantic_def Let_def SEMANTIC_MATCH_NUM_def SEMANTIC_MATCH_DEN_def
            SIG_K_def split: if_splits prod.splits)
      then show ?thesis using best(3) [OF Some] True by fastforce
    next
      case False
      then have "v = int (ce_vlen (k_cache k ! b))" "score = m"
        "bs = take (nat (min v vbuflen)) (ce_val (k_cache k ! b))" using assms s Some
        by (auto simp: cache_get_semantic_def ram_hit_def Let_def min_def SEMANTIC_MATCH_NUM_def
            SEMANTIC_MATCH_DEN_def SIG_K_def split: if_splits prod.splits)
      then show ?thesis using best(2,3) [OF Some] False by (intro disjI2 exI [of _ b]) auto
    qed
  qed
qed

theorem cache_semantic_best_match_witness:
  "\<exists>v bs score k'. cache_get_semantic ''sort files list'' 15 64 cache_sample = (v, bs, score, k') \<and> v = - 1"
proof -
  obtain v bs score k' where g: "cache_get_semantic ''sort files list'' 15 64 cache_sample = (v, bs, score, k')"
    by (metis prod_cases4)
  have "content_words (mem_bytes ''sort files list'' 15) = [''sort'', ''files'', ''list'']" by code_simp
  then have "fst (build_signature ''sort files list'' 15) > 0" by (simp add: build_signature_eq)
  moreover have "\<not> sem_slot (k_cache cache_sample) b" for b
    by (auto simp: sem_slot_def cache_sample_def kernel_boot_def cache_entry_boot_def)
  ultimately show ?thesis using cache_semantic_best_match [OF _ _ _ g] g by fastforce
qed

text \<open>
  A reworded prompt hits the cache.  If a key has at least three content words, then right
  after caching it, every key with the same set of content words (another order, other
  punctuation, other case, other function words) is a semantic hit with the full score 64.
\<close>

theorem cache_semantic_rephrase:
  assumes "cache_inv (k_cache k)" "0 < klen" "0 \<le> vlen" "vlen \<le> 1024" "0 < klen2" "0 < vbuflen"
    "set (content_words (mem_bytes key2 klen2)) = set (content_words (mem_bytes key klen))"
    "3 \<le> length (content_words (mem_bytes key klen))" "3 \<le> length (content_words (mem_bytes key2 klen2))"
    "cache_set key klen val vlen k = Some (r, k')"
  shows "\<exists>v bs k''. cache_get_semantic key2 klen2 vbuflen k' = (v, bs, 64, k'') \<and> 0 \<le> v"
proof -
  have vlen: "vlen \<le> int CACHE_VAL" using assms(4) by (simp add: CACHE_VAL_def)
  obtain i where i: "i < length (k_cache k)"
    "k_cache k' = (k_cache k)[i := cache_entry_new (fnv1a_64 key klen) key klen val (nat vlen) (k_ticks k) (k_cache k ! i)]"
    using cache_set_table [OF assms(1,10,2,3) vlen] by blast
  let ?q = "snd (build_signature key2 klen2)"
  have "?q = snd (build_signature key klen)" using assms(7) by (simp add: build_signature_eq Let_def)
  then have slot: "sem_slot (k_cache k') i" "jaccard_match_count ?q (ce_sig (k_cache k' ! i)) = 64"
    using i assms(8) by (auto simp: sem_slot_def build_signature_eq Let_def SIG_K_def)
  obtain b m where s: "semantic_scan ?q (k_cache k') 0 None (- 1) 0 = (b, m)" by fastforce
  then obtain b' where b: "b = Some b'" using semantic_scan_best(1) [OF s] slot(1)
    by (cases b) (auto simp: sem_slot_def)
  have "64 \<le> m" using semantic_scan_best(3) [OF s b slot(1)] slot(2) by simp
  moreover have "m = int (jaccard_match_count ?q (ce_sig (k_cache k' ! b')))"
    using semantic_scan_best(2) [OF s b] by simp
  moreover have "jaccard_match_count ?q (ce_sig (k_cache k' ! b')) \<le> 64"
    unfolding jaccard_match_count_def SIG_K_def by (rule order_trans [OF length_filter_le]) simp
  ultimately have "m = 64" by simp
  moreover have "fst (build_signature key2 klen2) \<noteq> 0"
    using assms(9) by (auto simp: build_signature_eq Let_def)
  ultimately show ?thesis using s b assms(5,6)
    by (auto simp: cache_get_semantic_def ram_hit_def Let_def SEMANTIC_MATCH_NUM_def
        SEMANTIC_MATCH_DEN_def SIG_K_def split: prod.splits)
qed

theorem cache_semantic_rephrase_witness:
  "\<exists>k' v bs k''. cache_set ''The list, files sort'' 20 ''LS'' 2 cache_sample = Some (0, k') \<and>
     cache_get_semantic ''sort FILES list'' 15 64 k' = (v, bs, 64, k'') \<and> 0 \<le> v"
proof -
  have w: "content_words (mem_bytes ''The list, files sort'' 20) = [''list'', ''files'', ''sort'']"
    "content_words (mem_bytes ''sort FILES list'' 15) = [''sort'', ''files'', ''list'']"
    by code_simp+
  obtain k' where k': "cache_set ''The list, files sort'' 20 ''LS'' 2 cache_sample = Some (0, k')"
    using cache_sample_set [of 20 2] by auto
  have "\<exists>v bs k''. cache_get_semantic ''sort FILES list'' 15 64 k' = (v, bs, 64, k'') \<and> 0 \<le> v"
    by (rule cache_semantic_rephrase [OF cache_sample_inv _ _ _ _ _ _ _ _ k']) (auto simp: w)
  then show ?thesis using k' by blast
qed

end
