(* ===== verification/Agentcmd.thy ===== *)
theory Agentcmd
  imports Ring Confirm Cache
begin

text \<open>
  The command dispatcher of \<open>kernel/agentcmd.c\<close>: wire lines \<open>REQ|[agent:<role>|]<CMD>|<arg>\<close>
  enter the intake ring in interrupt context (\<open>agent_dispatch\<close>), are drained in process
  context (\<open>agent_drain\<close>) and routed (\<open>agent_dispatch_now\<close>): the meta commands run in the
  kernel, every other command is checked against the deny list and forwarded to \<open>agentd\<close>.

  The handlers call the response cache, whose disk overlay may panic: they return an option.
  A \<open>char *\<close> argument is the list of characters from the pointer on; a prefix of a local
  buffer that the source terminates with a NUL is that prefix.
\<close>

section \<open>Queues\<close>

definition agentcmd_init :: "kernel \<Rightarrow> kernel" where
  "agentcmd_init k =
     k\<lparr>k_agentq := (k_agentq k)\<lparr>aq_r := 0, aq_w := 0, aq_count := 0\<rparr>,
       k_intake := (k_intake k)\<lparr>iq_head := 0, iq_tail := 0\<rparr>,
       k_pending := (k_pending k)\<lparr>pend_len := 0\<rparr>,
       k_deny := deny_reset (k_deny k)\<rparr>"

definition forward_to_agentd :: "string \<Rightarrow> kernel \<Rightarrow> kernel" where
  "forward_to_agentd line k =
     (if aq_count (k_agentq k) = AGENTQ_N
      then printf (''[agent] queue full, dropping line'' @ [CHR 0x0A]) [] k
      else wakeup Ch_agentq (k\<lparr>k_agentq := aq_put line (k_agentq k)\<rparr>))"

definition forward_wire_to_agentd :: "string \<Rightarrow> kernel \<Rightarrow> kernel" where
  "forward_wire_to_agentd wire k =
     forward_to_agentd (''REQ|'' @ take (AGENTQ_LEN - 5) (cstr wire)) k"

text \<open>
  A caller that finds the queue empty and is not killed sleeps; the call is re-entered at the
  top of its loop after the wakeup.
\<close>

definition agentq_get :: "kernel \<Rightarrow> ((int \<times> string, unit) blocking \<times> kernel) option" where
  "agentq_get k =
     (case aq_get (k_agentq k) of
        None \<Rightarrow>
          (case k_cur k of
             None \<Rightarrow> None
           | Some p \<Rightarrow>
               if killed p k then Some (Done (- 1, []), k)
               else do { k \<leftarrow> sleep Ch_agentq k; Some (Sleep (), k) })
      | Some (line, q) \<Rightarrow> Some (Done (int (length line), line), k\<lparr>k_agentq := q\<rparr>))"

section \<open>Meta-command handlers\<close>

definition handle_ask :: "string \<Rightarrow> kernel \<Rightarrow> kernel option" where
  "handle_ask arg k =
     (let plen = int (strlen arg)
      in if plen = 0 then Some k
         else do {
           (clen, cached, k) \<leftarrow> cache_get_exact arg plen 1024 k;
           if clen \<ge> 0
           then
             let clen = (if clen \<ge> 1025 then 1024 else clen);
                 k = printf (''[cache] HIT'' @ [CHR 0x0A]) [] k
             in Some (forward_wire_to_agentd (take (nat clen) cached) k)
           else
             let (clen, cached, score, k) = cache_get_semantic arg plen 1024 k;
                 clen = (if clen \<ge> 1025 then 1024 else clen);
                 cached = take (nat clen) cached
             in if clen \<ge> 0 \<and> (str_starts cached ''CHAT|'' \<or> str_starts cached ''PRINT|'')
                then Some (forward_wire_to_agentd cached
                       (printf (''[cache] SEMANTIC HIT score=%d/64'' @ [CHR 0x0A]) [VInt score] k))
                else Some (printf (''LLM_REQ|%s'' @ [CHR 0x0A]) [VStr (Some arg)]
                       (k\<lparr>k_pending := \<lparr>pend_prompt = safestrcpy (pend_prompt (k_pending k)) arg (int AGENT_LINE_MAX),
                                       pend_len = plen\<rparr>\<rparr>)) })"

definition handle_llm_resp :: "string \<Rightarrow> kernel \<Rightarrow> kernel option" where
  "handle_llm_resp arg k =
     (let alen = int (strlen arg);
          klen = pend_len (k_pending k);
          fits = (klen > 0 \<and> klen < 256);
          key = (if fits then safestrcpy (replicate 256 NUL) (pend_prompt (k_pending k)) 256 else replicate 256 NUL);
          klen = (if fits then klen else 0);
          k = k\<lparr>k_pending := (k_pending k)\<lparr>pend_len := 0\<rparr>\<rparr>
      in do {
        k \<leftarrow> (if klen > 0
             then do {
               (rc, k) \<leftarrow> cache_set key klen arg alen k;
               Some (if rc < 0 then printf (''[cache] DROP (oversized %d B)'' @ [CHR 0x0A]) [VInt alen] k else k) }
             else Some k);
        Some (forward_wire_to_agentd arg k) })"

definition handle_cache_get :: "string \<Rightarrow> kernel \<Rightarrow> kernel option" where
  "handle_cache_get arg k =
     (let klen = int (strlen arg)
      in if klen = 0 then Some (printf (''RESP|MISS'' @ [CHR 0x0A]) [] k)
         else do {
           (vlen, valbuf, k) \<leftarrow> cache_get arg klen 1024 k;
           if vlen < 0 then Some (printf (''RESP|MISS'' @ [CHR 0x0A]) [] k)
           else
             let vlen = (if vlen \<ge> 1024 then 1023 else vlen)
             in Some (printf (''RESP|HIT|%s'' @ [CHR 0x0A]) [VStr (Some (take (nat vlen) valbuf))] k) })"

text \<open>The decimal prefix that three of the handlers parse: its value and the rest of the string.\<close>

definition is_digit :: "char \<Rightarrow> bool" where
  "is_digit c \<longleftrightarrow> 48 \<le> byte_of c \<and> byte_of c \<le> 57"

fun parse_dec :: "string \<Rightarrow> int \<Rightarrow> int \<times> string" where
  "parse_dec [] n = (n, [])"
| "parse_dec (c # p) n = (if is_digit c then parse_dec p (wrap32 (n * 10 + (byte_of c - 48))) else (n, c # p))"

definition handle_cache_set :: "string \<Rightarrow> kernel \<Rightarrow> kernel option" where
  "handle_cache_set arg k =
     (let (klen, p) = parse_dec arg 0
      in if deref p \<noteq> CHR '':'' \<or> klen \<le> 0 then Some (printf (''RESP|ERR'' @ [CHR 0x0A]) [] k)
         else
           let p = tl p; rem = int (strlen p)
           in if rem < klen then Some (printf (''RESP|ERR'' @ [CHR 0x0A]) [] k)
              else do {
                (rc, k) \<leftarrow> cache_set p klen (drop (nat klen) p) (rem - klen) k;
                Some (printf (''%s'' @ [CHR 0x0A]) [VStr (Some (if rc = 0 then ''RESP|OK'' else ''RESP|ERR''))] k) })"

definition handle_confirm_res :: "string \<Rightarrow> kernel \<Rightarrow> kernel" where
  "handle_confirm_res arg k =
     (let (pid, p) = parse_dec arg 0
      in if deref p \<noteq> CHR ''|'' \<or> pid \<le> 0 then k
         else
           let c = deref (tl p)
           in confirm_resolve pid (if c = CHR ''y'' \<or> c = CHR ''Y'' then 1 else 0) k)"

section \<open>Routing\<close>

text \<open>
  The optional role prefix \<open>agent:<role>|\<close>: \<open>None\<close> when it is malformed, otherwise the string
  from the command name on.
\<close>

fun find_bar :: "string \<Rightarrow> string" where
  "find_bar [] = []"
| "find_bar (c # s) = (if c = NUL \<or> c = CHR ''|'' then c # s else find_bar s)"

definition skip_role :: "string \<Rightarrow> string option" where
  "skip_role cmd =
     (if str_starts cmd ''agent:''
      then
        let bar = find_bar (drop 6 cmd)
        in if deref bar \<noteq> CHR ''|'' then None else Some (tl bar)
      else Some cmd)"

definition try_inline_confirm_res :: "string \<Rightarrow> kernel \<Rightarrow> bool \<times> kernel" where
  "try_inline_confirm_res line k =
     (if \<not> str_starts line ''REQ|'' then (False, k)
      else
        case skip_role (drop 4 line) of
          None \<Rightarrow> (False, k)
        | Some cmd \<Rightarrow>
            if \<not> str_starts cmd ''CONFIRM_RES|'' then (False, k)
            else
              let (pid, arg) = parse_dec (drop 12 cmd) 0
              in if deref arg \<noteq> CHR ''|'' \<or> pid \<le> 0 then (True, k)
                 else
                   let c = deref (tl arg)
                   in (True, confirm_resolve pid (if c = CHR ''y'' \<or> c = CHR ''Y'' then 1 else 0) k))"

definition agent_dispatch :: "string \<Rightarrow> kernel \<Rightarrow> kernel" where
  "agent_dispatch line k =
     (let (consumed, k) = try_inline_confirm_res line k
      in if consumed then k else k\<lparr>k_intake := iq_put line (k_intake k)\<rparr>)"

definition agent_dispatch_now :: "string \<Rightarrow> kernel \<Rightarrow> kernel option" where
  "agent_dispatch_now line k =
     (if \<not> str_starts line ''REQ|'' then Some k
      else
        case skip_role (drop 4 line) of
          None \<Rightarrow> Some (printf (''[agent] malformed role prefix'' @ [CHR 0x0A]) [] k)
        | Some cmd_start \<Rightarrow>
            let bar = find_bar cmd_start;
                cmd = take (length cmd_start - length bar) cmd_start;
                arg = (if deref bar = CHR ''|'' then tl bar else bar)
            in if str_eq cmd ''ASK'' then handle_ask arg k
               else if str_eq cmd ''LLM_RESP'' then handle_llm_resp arg k
               else if str_eq cmd ''CACHE_GET'' then handle_cache_get arg k
               else if str_eq cmd ''CACHE_SET'' then handle_cache_set arg k
               else if str_eq cmd ''CONFIRM_RES'' then Some (handle_confirm_res arg k)
               else if deny_listed (k_deny k) cmd
               then Some (printf (''[agent] DENY '' @ [CHR 0x27] @ ''%s'' @ [CHR 0x27] @
                       '' (sandboxed: never reaches the agent)'' @ [CHR 0x0A]) [VStr (Some cmd)] k)
               else Some (forward_wire_to_agentd cmd_start k))"

section \<open>Draining the intake ring\<close>

text \<open>
  \<open>agent_drain_locked\<close> releases the lock of the ring after every line it takes, so lines may
  arrive between two turns of its loop: the console interrupt calls \<open>agent_dispatch\<close>, on this CPU
  or another.  The arrivals are an argument of the model, the lines that came in before the first
  turn, before the second turn and so on.  The second argument bounds the number of turns.
  \<open>agent_drain\<close> is the run in which nothing arrives: it takes at most as many lines as the ring
  holds, since no handler adds one, and \<open>AGENT_Q_LEN\<close> turns are always enough (\<open>drain_returns\<close> below).
\<close>

definition arrive :: "string list list \<Rightarrow> kernel \<Rightarrow> kernel" where
  "arrive ars k = fold agent_dispatch (case ars of [] \<Rightarrow> [] | ls # _ \<Rightarrow> ls) k"

fun agent_drain_locked :: "string list list \<Rightarrow> nat \<Rightarrow> kernel \<Rightarrow> kernel option" where
  "agent_drain_locked ars 0 k = None"
| "agent_drain_locked ars (Suc fuel) k =
     (let k = arrive ars k
      in case iq_get (k_intake k) of
           None \<Rightarrow> Some k
         | Some (local, q) \<Rightarrow>
             do { k \<leftarrow> agent_dispatch_now local (k\<lparr>k_intake := q\<rparr>); agent_drain_locked (tl ars) fuel k })"

definition agent_drain :: "kernel \<Rightarrow> kernel option" where
  "agent_drain k =
     (if iq_head (k_intake k) = iq_tail (k_intake k) then Some k else agent_drain_locked [] AGENT_Q_LEN k)"

section \<open>What the handlers leave alone\<close>

definition cmd_part :: "kernel \<Rightarrow> agentd_queue \<times> intake_queue \<times> denylist" where
  "cmd_part k = (k_agentq k, k_intake k, k_deny k)"

lemma cmd_part_ap: "agent_part k' = agent_part k \<Longrightarrow> cmd_part k' = cmd_part k"
  by (simp add: cmd_part_def agent_part_def)

lemma cmd_part_simps [simp]:
  "cmd_part (printf f ap k) = cmd_part k" "cmd_part (wakeup c k) = cmd_part k"
  "cmd_part (k\<lparr>k_cache := es\<rparr>) = cmd_part k" "cmd_part (k\<lparr>k_pending := pe\<rparr>) = cmd_part k"
  "cmd_part (k\<lparr>k_confirm := cf\<rparr>) = cmd_part k"
  by (simp_all add: cmd_part_def wakeup_def)

lemma cmd_part_ram [simp]: "cmd_part (ram_promote h bs v k) = cmd_part k"
  by (simp add: ram_promote_def Let_def split: option.splits)

lemma cmd_part_hit: "ram_hit i vb k = (v, bs, k') \<Longrightarrow> cmd_part k' = cmd_part k"
  by (auto simp: ram_hit_def Let_def)

lemma cmd_part_set: "cache_set key klen val vlen k = Some (r, k') \<Longrightarrow> cmd_part k' = cmd_part k"
  by (auto simp: cache_set_def Let_def split: if_splits prod.splits option.splits bind_splits
      dest!: disk_append_cache [THEN cmd_part_ap])

lemma cmd_part_exact: "cache_get_exact key klen vb k = Some (v, bs, k') \<Longrightarrow> cmd_part k' = cmd_part k"
  by (auto simp: cache_get_exact_def Let_def split: if_splits option.splits bind_splits
      dest!: disk_scan_bound(4) [THEN cmd_part_ap] cmd_part_hit)

lemma cmd_part_semantic: "cache_get_semantic key klen vb k = (v, bs, sc, k') \<Longrightarrow> cmd_part k' = cmd_part k"
  by (auto simp: cache_get_semantic_def Let_def split: if_splits option.splits prod.splits
      dest!: cmd_part_hit)

lemma cmd_part_get: "cache_get key klen vb k = Some (v, bs, k') \<Longrightarrow> cmd_part k' = cmd_part k"
  by (auto simp: cache_get_def Let_def split: if_splits bind_splits prod.splits
      dest!: cmd_part_exact cmd_part_semantic)

lemma cmd_part_resolve [simp]: "cmd_part (confirm_resolve pid a k) = cmd_part k"
  by (simp add: confirm_resolve_def Let_def)

lemma cmd_part_confirm_res [simp]: "cmd_part (handle_confirm_res arg k) = cmd_part k"
  by (simp add: handle_confirm_res_def Let_def split: prod.splits)

section \<open>The wire format\<close>

text \<open>
  The specification of a wire line: what follows \<open>REQ|\<close> and the role prefix, and the command
  name in it.
\<close>

definition line_wire :: "string \<Rightarrow> string option" where
  "line_wire line = (if str_starts line ''REQ|'' then skip_role (drop 4 line) else None)"

definition wire_cmd :: "string \<Rightarrow> string" where
  "wire_cmd w = takeWhile (\<lambda>c. c \<noteq> CHR ''|'') (cstr w)"

definition wire_arg :: "string \<Rightarrow> string" where
  "wire_arg w = (let bar = find_bar w in if deref bar = CHR ''|'' then tl bar else bar)"

definition wire_line :: "string \<Rightarrow> string" where
  "wire_line w = ''REQ|'' @ take 251 (cstr w)"

lemma find_bar_dropWhile: "find_bar s = dropWhile (\<lambda>c. c \<noteq> NUL \<and> c \<noteq> CHR ''|'') s"
  by (induction s) auto

lemma cmd_before_bar: "take (length s - length (find_bar s)) s = wire_cmd s"
proof -
  have "take (length s - length (find_bar s)) s = takeWhile (\<lambda>c. c \<noteq> NUL \<and> c \<noteq> CHR ''|'') s"
    unfolding find_bar_dropWhile by (induction s) (auto simp: Suc_diff_le length_dropWhile_le)
  also have "\<dots> = wire_cmd s"
    unfolding wire_cmd_def cstr_def by (induction s) auto
  finally show ?thesis .
qed

lemma NUL_wire_cmd [simp]: "NUL \<notin> set (wire_cmd w)"
  unfolding wire_cmd_def by (metis cstr_no_NUL set_takeWhileD)

lemma cstr_wire_cmd [simp]: "cstr (wire_cmd w) = wire_cmd w"
  by (simp add: cstr_id)

lemma cstr_wire_line: "take 255 (cstr (wire_line w)) = wire_line w"
  unfolding wire_line_def by (subst cstr_id) (auto dest: in_set_takeD)

lemma forward_wire_lines:
  assumes "aq_inv (k_agentq k)"
  shows "aq_inv (k_agentq (forward_wire_to_agentd w k))"
    "aq_lines (k_agentq (forward_wire_to_agentd w k)) =
       aq_lines (k_agentq k) @ (if aq_count (k_agentq k) < AGENTQ_N then [wire_line w] else [])"
    "k_intake (forward_wire_to_agentd w k) = k_intake k" "k_deny (forward_wire_to_agentd w k) = k_deny k"
proof -
  have c: "aq_count (k_agentq k) \<le> AGENTQ_N" using assms by (simp add: aq_inv_def)
  have clip: "aq_clip (wire_line w) = wire_line w"
    using cstr_wire_line by (simp add: aq_clip_def AGENTQ_LEN_def)
  have w: "''REQ|'' @ take (AGENTQ_LEN - 5) (cstr w) = wire_line w"
    by (simp add: wire_line_def AGENTQ_LEN_def)
  show "aq_inv (k_agentq (forward_wire_to_agentd w k))"
    "k_intake (forward_wire_to_agentd w k) = k_intake k" "k_deny (forward_wire_to_agentd w k) = k_deny k"
    using assms agentq.put_inv by (simp_all add: forward_wire_to_agentd_def forward_to_agentd_def wakeup_def)
  show "aq_lines (k_agentq (forward_wire_to_agentd w k)) =
       aq_lines (k_agentq k) @ (if aq_count (k_agentq k) < AGENTQ_N then [wire_line w] else [])"
    unfolding forward_wire_to_agentd_def forward_to_agentd_def w
    using c agentq.put_room [OF assms, of "wire_line w"] clip by (auto simp: wakeup_def)
qed

text \<open>The lines a handler may add: none, or one produced by \<open>forward_wire_to_agentd\<close>.\<close>

definition added :: "kernel \<Rightarrow> kernel \<Rightarrow> string \<Rightarrow> bool" where
  "added k k' w \<longleftrightarrow> aq_inv (k_agentq k') \<and> k_intake k' = k_intake k \<and> k_deny k' = k_deny k \<and>
     aq_lines (k_agentq k') = aq_lines (k_agentq k) @ (if aq_count (k_agentq k) < AGENTQ_N then [wire_line w] else [])"

definition unchanged :: "kernel \<Rightarrow> kernel \<Rightarrow> bool" where
  "unchanged k k' \<longleftrightarrow> cmd_part k' = cmd_part k"

lemma added_forward:
  assumes "aq_inv (k_agentq k)" "cmd_part k1 = cmd_part k"
  shows "added k (forward_wire_to_agentd w k1) w"
  using forward_wire_lines [of k1 w] assms by (simp add: added_def cmd_part_def)

definition may_add :: "kernel \<Rightarrow> kernel \<Rightarrow> bool" where
  "may_add k k' \<longleftrightarrow> unchanged k k' \<or> (\<exists>w. added k k' w)"

lemma may_addI:
  "cmd_part k' = cmd_part k \<Longrightarrow> may_add k k'"
  "added k k' w \<Longrightarrow> may_add k k'"
  "aq_inv (k_agentq k) \<Longrightarrow> cmd_part k1 = cmd_part k \<Longrightarrow> may_add k (forward_wire_to_agentd w k1)"
  using added_forward by (auto simp: may_add_def unchanged_def)

lemma handle_ask_added:
  assumes "aq_inv (k_agentq k)" "handle_ask arg k = Some k'"
  shows "may_add k k'"
  using assms by (auto simp: handle_ask_def Let_def split: if_splits bind_splits prod.splits
      dest!: cmd_part_exact cmd_part_semantic intro: may_addI)

lemma handle_llm_resp_added:
  assumes "aq_inv (k_agentq k)" "handle_llm_resp arg k = Some k'"
  shows "added k k' arg"
  using assms by (auto simp: handle_llm_resp_def Let_def split: if_splits bind_splits prod.splits
      dest!: cmd_part_set intro!: added_forward)

lemma handle_cache_unchanged:
  "handle_cache_get arg k = Some k' \<Longrightarrow> unchanged k k'"
  "handle_cache_set arg k = Some k' \<Longrightarrow> unchanged k k'"
  by (auto simp: handle_cache_get_def handle_cache_set_def Let_def unchanged_def
      split: if_splits bind_splits prod.splits dest!: cmd_part_get cmd_part_set)

text \<open>
  What the kernel sends on for a line that is not an \<open>ASK\<close>: an answer of the LLM is sent on unchecked,
  a command that the kernel handles itself or that is on the deny list is not sent, every other command is.
\<close>

definition forwarded :: "denylist \<Rightarrow> string \<Rightarrow> string option" where
  "forwarded dl line =
     (case line_wire line of
        None \<Rightarrow> None
      | Some w \<Rightarrow>
          if wire_cmd w = ''LLM_RESP'' then Some (wire_line (wire_arg w))
          else if wire_cmd w \<in> {''CACHE_GET'', ''CACHE_SET'', ''CONFIRM_RES''} \<or> deny_listed dl (wire_cmd w)
          then None else Some (wire_line w))"

definition line_cmd :: "string \<Rightarrow> string option" where
  "line_cmd line = map_option wire_cmd (line_wire line)"

definition asks_llm :: "string \<Rightarrow> bool" where
  "asks_llm line \<longleftrightarrow> line_cmd line = Some ''ASK''"

text \<open>Line \<open>l\<close> of agentd's queue stems from \<open>line\<close>; for an \<open>ASK\<close> it is an answer found in the cache.\<close>

definition sent_for :: "denylist \<Rightarrow> string \<Rightarrow> string \<Rightarrow> bool" where
  "sent_for dl line l \<longleftrightarrow> (if asks_llm line then \<exists>v. l = wire_line v else forwarded dl line = Some l)"

definition opt_list :: "'a option \<Rightarrow> 'a list" where
  "opt_list x = (case x of None \<Rightarrow> [] | Some y \<Rightarrow> [y])"

lemma dispatch_now_wire:
  assumes "line_wire line = Some w"
  shows "agent_dispatch_now line k =
    (if wire_cmd w = ''ASK'' then handle_ask (wire_arg w) k
     else if wire_cmd w = ''LLM_RESP'' then handle_llm_resp (wire_arg w) k
     else if wire_cmd w = ''CACHE_GET'' then handle_cache_get (wire_arg w) k
     else if wire_cmd w = ''CACHE_SET'' then handle_cache_set (wire_arg w) k
     else if wire_cmd w = ''CONFIRM_RES'' then Some (handle_confirm_res (wire_arg w) k)
     else if deny_listed (k_deny k) (wire_cmd w)
     then Some (printf (''[agent] DENY '' @ [CHR 0x27] @ ''%s'' @ [CHR 0x27] @
             '' (sandboxed: never reaches the agent)'' @ [CHR 0x0A]) [VStr (Some (wire_cmd w))] k)
     else Some (forward_wire_to_agentd w k))"
proof -
  have r: "str_starts line ''REQ|''" "skip_role (drop 4 line) = Some w"
    using assms by (auto simp: line_wire_def split: if_splits)
  have eq: "str_eq (wire_cmd w) c \<longleftrightarrow> wire_cmd w = cstr c" for c by (simp add: str_eq_iff)
  show ?thesis
    by (simp only: agent_dispatch_now_def r if_False not_True_eq_False option.case Let_def cmd_before_bar wire_arg_def eq)
      (simp add: cstr_id)
qed

lemma dispatch_now_no_wire:
  "line_wire line = None \<Longrightarrow> agent_dispatch_now line k = Some k' \<Longrightarrow> unchanged k k'"
  by (auto simp: agent_dispatch_now_def line_wire_def unchanged_def split: if_splits)

lemma dispatch_now_exact:
  assumes "aq_inv (k_agentq k)" "agent_dispatch_now line k = Some k'" "\<not> asks_llm line"
  shows "aq_inv (k_agentq k') \<and> k_intake k' = k_intake k \<and> k_deny k' = k_deny k \<and>
    aq_lines (k_agentq k') = aq_lines (k_agentq k) @
      take (AGENTQ_N - aq_count (k_agentq k)) (opt_list (forwarded (k_deny k) line))"
proof (cases "forwarded (k_deny k) line")
  case None
  have "unchanged k k'"
  proof (cases "line_wire line")
    case None
    then show ?thesis using dispatch_now_no_wire assms(2) by blast
  next
    case (Some w)
    then show ?thesis
      using \<open>forwarded (k_deny k) line = None\<close> assms(2,3) handle_cache_unchanged
      by (auto simp: dispatch_now_wire forwarded_def asks_llm_def line_cmd_def unchanged_def split: if_splits)
  qed
  then show ?thesis using None assms(1) by (simp add: unchanged_def cmd_part_def opt_list_def)
next
  case (Some l)
  then obtain w where w: "line_wire line = Some w" by (auto simp: forwarded_def split: option.splits)
  have "\<exists>v. l = wire_line v \<and> added k k' v"
    using Some w assms handle_llm_resp_added [OF assms(1)] added_forward [OF assms(1) refl, of w]
    by (auto simp: dispatch_now_wire forwarded_def asks_llm_def line_cmd_def split: if_splits)
  then show ?thesis using Some by (auto simp: added_def opt_list_def)
qed

lemma dispatch_now_sent:
  assumes "aq_inv (k_agentq k)" "agent_dispatch_now line k = Some k'"
  shows "aq_inv (k_agentq k') \<and> k_intake k' = k_intake k \<and> k_deny k' = k_deny k \<and>
    (\<exists>new. aq_lines (k_agentq k') = aq_lines (k_agentq k) @ new \<and> (\<forall>l \<in> set new. sent_for (k_deny k) line l))"
proof (cases "asks_llm line")
  case True
  then obtain w where "line_wire line = Some w" "wire_cmd w = ''ASK''"
    by (auto simp: asks_llm_def line_cmd_def)
  then have "may_add k k'" using handle_ask_added assms by (simp add: dispatch_now_wire)
  then show ?thesis using True assms(1)
    by (auto simp: may_add_def unchanged_def cmd_part_def added_def sent_for_def)
next
  case False
  then show ?thesis
    using dispatch_now_exact [OF assms False]
    by (auto simp: sent_for_def opt_list_def dest!: in_set_takeD split: option.splits)
qed

section \<open>The lines a drain takes\<close>

text \<open>
  An answer to a confirmation is handled in the interrupt and bypasses the ring; every other line enters
  it, cut to 1279 characters, while fewer than 7 lines wait.  \<open>taken ars n ls\<close> are the lines that a drain of
  at most \<open>n\<close> turns takes when \<open>ls\<close> wait at its start.
\<close>

definition inline_answer :: "string \<Rightarrow> bool" where
  "inline_answer line = (case line_wire line of None \<Rightarrow> False | Some w \<Rightarrow> str_starts w ''CONFIRM_RES|'')"

definition accepted :: "string list list \<Rightarrow> string list" where
  "accepted ars = map iq_clip (filter (\<lambda>l. \<not> inline_answer l) (case ars of [] \<Rightarrow> [] | ls # _ \<Rightarrow> ls))"

fun taken :: "string list list \<Rightarrow> nat \<Rightarrow> string list \<Rightarrow> string list" where
  "taken ars 0 ls = []"
| "taken ars (Suc n) ls =
     (case take 7 (ls @ accepted ars) of [] \<Rightarrow> [] | l # ls \<Rightarrow> l # taken (tl ars) n ls)"

lemma inline_iff: "fst (try_inline_confirm_res line k) \<longleftrightarrow> inline_answer line"
  by (auto simp: try_inline_confirm_res_def inline_answer_def line_wire_def Let_def split: option.splits prod.splits)

lemma agent_dispatch_other:
  assumes "\<not> inline_answer line"
  shows "agent_dispatch line k = k\<lparr>k_intake := iq_put line (k_intake k)\<rparr>"
proof -
  have n: "\<not> fst (try_inline_confirm_res line k)" using assms by (simp add: inline_iff)
  then have "snd (try_inline_confirm_res line k) = k"
    by (auto simp: try_inline_confirm_res_def Let_def split: option.splits prod.splits if_splits)
  then show ?thesis using n by (cases "try_inline_confirm_res line k") (auto simp: agent_dispatch_def)
qed

lemma agent_dispatch_inline: "inline_answer line \<Longrightarrow> cmd_part (agent_dispatch line k) = cmd_part k"
proof -
  assume "inline_answer line"
  moreover have "cmd_part (snd (try_inline_confirm_res line k)) = cmd_part k"
    by (simp add: try_inline_confirm_res_def Let_def del: str_starts.simps split: option.splits prod.splits)
  ultimately show ?thesis
    using inline_iff [of line k] by (cases "try_inline_confirm_res line k") (simp add: agent_dispatch_def)
qed

lemma iq_put_take:
  assumes "iq_inv q"
  shows "iq_lines (iq_put line q) = take 7 (iq_lines q @ [iq_clip line])"
  using intake.put_room [OF assms, of line] intake.put_full [OF assms, of line] intake.within_cap [OF assms]
  by (cases "iq_count q < 7") (auto simp: AGENT_Q_LEN_def)

lemma dispatch_fold:
  assumes "iq_inv (k_intake k)"
  shows "iq_inv (k_intake (fold agent_dispatch ls k)) \<and> k_agentq (fold agent_dispatch ls k) = k_agentq k \<and>
    k_deny (fold agent_dispatch ls k) = k_deny k \<and>
    iq_lines (k_intake (fold agent_dispatch ls k)) =
      take 7 (iq_lines (k_intake k) @ map iq_clip (filter (\<lambda>l. \<not> inline_answer l) ls))"
  using assms
proof (induction ls arbitrary: k)
  case Nil
  then show ?case using intake.within_cap [OF Nil] by (simp add: AGENT_Q_LEN_def)
next
  case (Cons l ls)
  show ?case
  proof (cases "inline_answer l")
    case True
    then show ?thesis using Cons.IH [of "agent_dispatch l k"] Cons.prems agent_dispatch_inline [OF True, of k]
      by (simp add: cmd_part_def)
  next
    case False
    let ?k = "agent_dispatch l k" and ?ms = "map iq_clip (filter (\<lambda>l. \<not> inline_answer l) ls)"
    have k: "?k = k\<lparr>k_intake := iq_put l (k_intake k)\<rparr>" by (rule agent_dispatch_other [OF False])
    have i: "iq_inv (k_intake ?k)" using intake.put_inv [OF Cons.prems] by (simp add: k)
    have t: "take 7 (take 7 xs @ ?ms) = take 7 (xs @ ?ms)" for xs by (cases "length xs < 7") simp_all
    have "iq_lines (k_intake ?k) = take 7 (iq_lines (k_intake k) @ [iq_clip l])"
      using iq_put_take [OF Cons.prems, of l] by (simp add: k)
    then show ?thesis using Cons.IH [OF i] False t [of "iq_lines (k_intake k) @ [iq_clip l]"] by (simp add: k)
  qed
qed

lemma arrive_facts:
  assumes "iq_inv (k_intake k)"
  shows "iq_inv (k_intake (arrive ars k))" "k_agentq (arrive ars k) = k_agentq k" "k_deny (arrive ars k) = k_deny k"
    "iq_lines (k_intake (arrive ars k)) = take 7 (iq_lines (k_intake k) @ accepted ars)"
  using dispatch_fold [OF assms] by (simp_all add: arrive_def accepted_def split: list.splits)

lemma arrive_none [simp]: "arrive [] k = k"
  by (simp add: arrive_def)

text \<open>One turn: the loop ends on an empty ring, or takes the first line and routes it.\<close>

lemma turn_cases:
  assumes "iq_inv (k_intake k)"
  obtains (stop) "iq_get (k_intake (arrive ars k)) = None" "take 7 (iq_lines (k_intake k) @ accepted ars) = []"
  | (take) l q ls where "iq_get (k_intake (arrive ars k)) = Some (l, q)" "iq_inv q" "iq_lines q = ls"
      "take 7 (iq_lines (k_intake k) @ accepted ars) = l # ls"
proof (cases "take 7 (iq_lines (k_intake k) @ accepted ars)")
  case Nil
  then show ?thesis using stop intake.get_empty [OF arrive_facts(1) [OF assms]] arrive_facts(4) [OF assms] by metis
next
  case (Cons l ls)
  then show ?thesis
    using take intake.get_next [OF arrive_facts(1) [OF assms], of ars l ls] arrive_facts(4) [OF assms, of ars] by auto
qed

lemma drain_turn:
  assumes "iq_get (k_intake (arrive ars k)) = Some (l, q)"
  shows "agent_drain_locked ars (Suc n) k =
    do { k1 \<leftarrow> agent_dispatch_now l ((arrive ars k)\<lparr>k_intake := q\<rparr>); agent_drain_locked (tl ars) n k1 }"
  using assms by (simp add: Let_def)

lemma drain_sent:
  assumes "aq_inv (k_agentq k)" "iq_inv (k_intake k)" "agent_drain_locked ars n k = Some k'"
  shows "iq_lines (k_intake k') = [] \<and> aq_inv (k_agentq k') \<and> k_deny k' = k_deny k \<and>
    (\<exists>new. aq_lines (k_agentq k') = aq_lines (k_agentq k) @ new \<and>
       (\<forall>l \<in> set new. \<exists>line \<in> set (taken ars n (iq_lines (k_intake k))). sent_for (k_deny k) line l))"
  using assms
proof (induction n arbitrary: ars k)
  case (Suc n)
  note a = arrive_facts [OF Suc.prems(2), of ars]
  show ?case
  proof (cases rule: turn_cases [OF Suc.prems(2), of ars, case_names stop take])
    case stop
    then have "k' = arrive ars k" using Suc.prems(3) by (simp add: Let_def)
    then show ?thesis using a(2-4) stop(2) Suc.prems(1) by simp
  next
    case (take l q ls)
    have t: "taken ars (Suc n) (iq_lines (k_intake k)) = l # taken (tl ars) n ls"
      by (simp only: taken.simps take(4) list.case)
    obtain k1 where k1: "agent_dispatch_now l ((arrive ars k)\<lparr>k_intake := q\<rparr>) = Some k1"
      "agent_drain_locked (tl ars) n k1 = Some k'"
      using Suc.prems(3) drain_turn [OF take(1)] by (auto split: bind_splits)
    obtain xs where e: "aq_inv (k_agentq k1)" "k_intake k1 = q" "k_deny k1 = k_deny k"
      "aq_lines (k_agentq k1) = aq_lines (k_agentq k) @ xs" "\<forall>x \<in> set xs. sent_for (k_deny k) l x"
      using dispatch_now_sent [OF _ k1(1)] Suc.prems(1) a by auto
    obtain ys where "iq_lines (k_intake k') = []" "aq_inv (k_agentq k')" "k_deny k' = k_deny k1"
      "aq_lines (k_agentq k') = aq_lines (k_agentq k1) @ ys"
      "\<forall>l \<in> set ys. \<exists>line \<in> set (taken (tl ars) n ls). sent_for (k_deny k1) line l"
      using Suc.IH [OF e(1) _ k1(2)] e(2) take(2,3) by auto
    then show ?thesis unfolding t using e by (auto intro!: exI [of _ "xs @ ys"])
  qed
qed simp

lemma drain_exact:
  assumes "aq_inv (k_agentq k)" "iq_inv (k_intake k)" "agent_drain_locked ars n k = Some k'"
    "\<forall>l \<in> set (taken ars n (iq_lines (k_intake k))). \<not> asks_llm l"
  shows "aq_lines (k_agentq k') = aq_lines (k_agentq k) @
      take (AGENTQ_N - aq_count (k_agentq k)) (List.map_filter (forwarded (k_deny k)) (taken ars n (iq_lines (k_intake k))))"
  using assms
proof (induction n arbitrary: ars k)
  case (Suc n)
  note a = arrive_facts [OF Suc.prems(2), of ars]
  show ?case
  proof (cases rule: turn_cases [OF Suc.prems(2), of ars, case_names stop take])
    case stop
    then have "k' = arrive ars k" using Suc.prems(3) by (simp add: Let_def)
    moreover have "taken ars (Suc n) (iq_lines (k_intake k)) = []" by (simp only: taken.simps stop(2) list.case)
    ultimately show ?thesis using a(2) by (simp add: map_filter_simps)
  next
    case (take l q ls)
    obtain k1 where k1: "agent_dispatch_now l ((arrive ars k)\<lparr>k_intake := q\<rparr>) = Some k1"
      "agent_drain_locked (tl ars) n k1 = Some k'"
      using Suc.prems(3) drain_turn [OF take(1)] by (auto split: bind_splits)
    let ?r = "AGENTQ_N - aq_count (k_agentq k)" and ?x = "opt_list (forwarded (k_deny k) l)"
    have t: "taken ars (Suc n) (iq_lines (k_intake k)) = l # taken (tl ars) n ls"
      by (simp only: taken.simps take(4) list.case)
    note prems = Suc.prems(4) [unfolded t]
    then have "\<not> asks_llm l" by simp
    then have e: "aq_inv (k_agentq k1)" "k_intake k1 = q" "k_deny k1 = k_deny k"
      "aq_lines (k_agentq k1) = aq_lines (k_agentq k) @ take ?r ?x"
      using dispatch_now_exact [OF _ k1(1)] Suc.prems(1) a(2,3) by auto
    have "AGENTQ_N - aq_count (k_agentq k1) = ?r - length ?x"
      using arg_cong [OF e(4), of length] by (auto simp: opt_list_def split: option.splits)
    moreover have "List.map_filter f (x # xs) = opt_list (f x) @ List.map_filter f xs" for f :: "string \<Rightarrow> string option" and x xs
      by (simp add: map_filter_simps opt_list_def split: option.splits)
    ultimately show ?thesis
      using Suc.IH [OF e(1) _ k1(2)] e take(2,3) prems unfolding t by simp
  qed
qed simp

section \<open>The drain returns\<close>

text \<open>The only way not to return: a turn of the loop routes a line whose handler panics.\<close>

inductive drain_panics :: "string list list \<Rightarrow> kernel \<Rightarrow> bool" where
  panics_now: "iq_get (k_intake (arrive ars k)) = Some (l, q) \<Longrightarrow>
     agent_dispatch_now l ((arrive ars k)\<lparr>k_intake := q\<rparr>) = None \<Longrightarrow> drain_panics ars k"
| panics_later: "iq_get (k_intake (arrive ars k)) = Some (l, q) \<Longrightarrow>
     agent_dispatch_now l ((arrive ars k)\<lparr>k_intake := q\<rparr>) = Some k1 \<Longrightarrow> drain_panics (tl ars) k1 \<Longrightarrow> drain_panics ars k"

inductive_simps drain_panics_unfold: "drain_panics ars k"

lemma length_accepted: "length (accepted ars) + length (concat (tl ars)) \<le> length (concat ars)"
  by (auto simp: accepted_def split: list.splits)

lemma turn_fuel:
  assumes "take 7 (xs @ accepted ars) = l # ls" "length xs + length (concat ars) < Suc n"
  shows "length ls + length (concat (tl ars)) < n"
proof -
  have "Suc (length ls) \<le> length xs + length (accepted ars)"
    using arg_cong [OF assms(1), of length] by simp
  then show ?thesis using assms(2) length_accepted [of ars] by linarith
qed

lemma drain_returns:
  assumes "aq_inv (k_agentq k)" "iq_inv (k_intake k)" "iq_count (k_intake k) + length (concat ars) < n"
  shows "agent_drain_locked ars n k = None \<longleftrightarrow> drain_panics ars k"
  using assms
proof (induction n arbitrary: ars k)
  case (Suc n)
  note a = arrive_facts [OF Suc.prems(2), of ars]
  show ?case
  proof (cases rule: turn_cases [OF Suc.prems(2), of ars, case_names stop take])
    case stop
    then show ?thesis by (simp add: Let_def drain_panics_unfold [of ars k])
  next
    case (take l q ls)
    have fuel: "iq_count q + length (concat (tl ars)) < n"
      using turn_fuel [OF take(4)] Suc.prems(3) take(3) iq_lines_length by metis
    show ?thesis
    proof (cases "agent_dispatch_now l ((arrive ars k)\<lparr>k_intake := q\<rparr>)")
      case None
      then show ?thesis using take(1) drain_panics_unfold [of ars k] by (simp add: Let_def)
    next
      case (Some k1)
      have "aq_inv (k_agentq k1)" "k_intake k1 = q"
        using dispatch_now_sent [OF _ Some] Suc.prems(1) a by auto
      then show ?thesis
        using Suc.IH [of k1 "tl ars"] fuel take(1,2) Some drain_panics_unfold [of ars k] by (auto simp: Let_def)
    qed
  qed
qed simp

lemma agent_drain_eq:
  assumes "iq_inv (k_intake k)"
  shows "agent_drain k = agent_drain_locked [] AGENT_Q_LEN k"
proof (cases "iq_head (k_intake k) = iq_tail (k_intake k)")
  case True
  have "agent_drain_locked [] (Suc 7) k = Some k" using True by (simp only: agent_drain_locked.simps) (simp add: iq_get_def)
  then show ?thesis using True by (simp add: agent_drain_def AGENT_Q_LEN_def)
qed (simp add: agent_drain_def)

lemma taken_all: "length ls \<le> 7 \<Longrightarrow> length ls < n \<Longrightarrow> taken [] n ls = ls"
  by (induction n arbitrary: ls) (auto simp: accepted_def split: list.splits)

text \<open>A command that does not use the cache is always routed.\<close>

definition uses_cache :: "string \<Rightarrow> bool" where
  "uses_cache line \<longleftrightarrow> line_cmd line \<in> Some ` {''ASK'', ''LLM_RESP'', ''CACHE_GET'', ''CACHE_SET''}"

lemma dispatch_now_plain:
  assumes "\<not> uses_cache line"
  shows "\<exists>k'. agent_dispatch_now line k = Some k'"
proof (cases "line_wire line")
  case None
  then show ?thesis by (auto simp: agent_dispatch_now_def line_wire_def split: if_splits)
next
  case (Some w)
  then show ?thesis using assms by (auto simp: dispatch_now_wire uses_cache_def line_cmd_def)
qed

lemma drain_plain:
  assumes "aq_inv (k_agentq k)" "iq_inv (k_intake k)" "iq_count (k_intake k) + length (concat ars) < n"
    "\<forall>l \<in> set (taken ars n (iq_lines (k_intake k))). \<not> uses_cache l"
  shows "\<exists>k'. agent_drain_locked ars n k = Some k'"
proof -
  have "\<not> drain_panics ars k" if "aq_inv (k_agentq k)" "iq_inv (k_intake k)" "iq_count (k_intake k) + length (concat ars) < n"
    "\<forall>l \<in> set (taken ars n (iq_lines (k_intake k))). \<not> uses_cache l" for ars k n
    using that
  proof (induction n arbitrary: ars k)
    case (Suc n)
    note a = arrive_facts [OF Suc.prems(2), of ars]
    show ?case
    proof (cases rule: turn_cases [OF Suc.prems(2), of ars, case_names stop take])
      case stop
      then show ?thesis by (simp add: drain_panics_unfold [of ars k])
    next
      case (take l q ls)
      have fuel: "iq_count q + length (concat (tl ars)) < n"
        using turn_fuel [OF take(4)] Suc.prems(3) take(3) iq_lines_length by metis
      obtain k1 where k1: "agent_dispatch_now l ((arrive ars k)\<lparr>k_intake := q\<rparr>) = Some k1"
        using dispatch_now_plain [of l] Suc.prems(4) take(4) by fastforce
      have "aq_inv (k_agentq k1)" "k_intake k1 = q"
        using dispatch_now_sent [OF _ k1] Suc.prems(1) a by auto
      then have "\<not> drain_panics (tl ars) k1"
        using Suc.prems(4) take fuel by (intro Suc.IH) auto
      then show ?thesis using k1 take(1) drain_panics_unfold [of ars k] by auto
    qed
  qed simp
  then show ?thesis using drain_returns [OF assms(1-3)] assms by blast
qed

section \<open>Properties\<close>


text \<open>Two lines in the intake ring of a booted kernel, one of them denied by default.\<close>

definition agent_sample :: kernel where
  "agent_sample = agent_dispatch ''REQ|KILL|3'' (agent_dispatch ''REQ|agent:ops|PS'' (agentcmd_init kernel_boot))"

lemma agent_sample_facts:
  "aq_inv (k_agentq agent_sample)" "aq_lines (k_agentq agent_sample) = []" "iq_inv (k_intake agent_sample)"
  "iq_lines (k_intake agent_sample) = [''REQ|agent:ops|PS'', ''REQ|KILL|3'']"
  "k_deny agent_sample = deny_reset (k_deny kernel_boot)"
proof -
  let ?k = "agentcmd_init kernel_boot"
  have i0: "iq_inv (k_intake ?k)" "iq_lines (k_intake ?k) = []"
    using iq_boot_inv by (simp_all add: agentcmd_init_def kernel_boot_def)
  let ?q = "iq_put ''REQ|agent:ops|PS'' (k_intake ?k)"
  have s: "agent_sample = ?k\<lparr>k_intake := iq_put ''REQ|KILL|3'' ?q\<rparr>"
    unfolding agent_sample_def
    by (simp add: agent_dispatch_other inline_answer_def line_wire_def skip_role_def Let_def deref_def)
  have 1: "iq_inv ?q" "iq_lines ?q = [''REQ|agent:ops|PS'']"
    using intake.put_inv [OF i0(1)] intake.put_room [OF i0(1), of "''REQ|agent:ops|PS''"] i0(2)
    by (simp_all add: AGENT_Q_LEN_def iq_clip_def cstr_id AGENT_LINE_MAX_def)
  show "iq_inv (k_intake agent_sample)"
    "iq_lines (k_intake agent_sample) = [''REQ|agent:ops|PS'', ''REQ|KILL|3'']"
    using intake.put_inv [OF 1(1)] intake.put_room [OF 1(1), of "''REQ|KILL|3''"] 1(2)
    by (simp_all add: s AGENT_Q_LEN_def iq_clip_def cstr_id AGENT_LINE_MAX_def)
  show "aq_inv (k_agentq agent_sample)" "aq_lines (k_agentq agent_sample) = []"
    "k_deny agent_sample = deny_reset (k_deny kernel_boot)"
    using aq_boot_inv by (simp_all add: s agentcmd_init_def kernel_boot_def)
qed

lemma sample_wires:
  "line_wire ''REQ|agent:ops|PS'' = Some ''PS''" "line_wire ''REQ|KILL|3'' = Some ''KILL|3''" "line_wire ''REQ|LS|.'' = Some ''LS|.''"
  "wire_cmd ''PS'' = ''PS''" "wire_cmd ''KILL|3'' = ''KILL''" "wire_line ''PS'' = ''REQ|PS''"
  "wire_cmd ''LS|.'' = ''LS''" "wire_line ''LS|.'' = ''REQ|LS|.''"
  by (simp_all add: line_wire_def skip_role_def wire_cmd_def wire_line_def deref_def cstr_def)

lemma sample_denied:
  "deny_listed (deny_reset (k_deny kernel_boot)) ''KILL''" "\<not> deny_listed (deny_reset (k_deny kernel_boot)) ''PS''"
  "\<not> deny_listed (deny_reset (k_deny kernel_boot)) ''LS''"
  by (simp_all add: deny_listed_def deny_find_def deny_reset_def deny_append_def deny_default_def kernel_boot_def
      DENY_MAX_def DENY_NAMELEN_def safestrcpy_def numeral_eq_Suc deref_def)

lemma sample_taken:
  "taken [[], [''REQ|LS|.'']] 4 (iq_lines (k_intake agent_sample)) = [''REQ|agent:ops|PS'', ''REQ|KILL|3'', ''REQ|LS|.'']"
proof -
  have "\<not> inline_answer ''REQ|LS|.''" "iq_clip ''REQ|LS|.'' = ''REQ|LS|.''"
    by (simp_all add: inline_answer_def sample_wires iq_clip_def cstr_id AGENT_LINE_MAX_def)
  then show ?thesis by (simp add: agent_sample_facts accepted_def numeral_eq_Suc)
qed

lemma sample_plain:
  "l \<in> {''REQ|agent:ops|PS'', ''REQ|KILL|3'', ''REQ|LS|.''} \<Longrightarrow> \<not> uses_cache l \<and> \<not> asks_llm l"
  by (auto simp: uses_cache_def asks_llm_def line_cmd_def sample_wires)

lemma sample_count: "iq_count (k_intake agent_sample) = 2"
  using agent_sample_facts(4) by (metis iq_lines_length length_Cons list.size(3) numeral_2_eq_2)

lemma sample_drain: "\<exists>k'. agent_drain_locked [[], [''REQ|LS|.'']] 4 agent_sample = Some k'"
  by (rule drain_plain [OF agent_sample_facts(1,3)]) (use sample_plain in \<open>auto simp: sample_taken sample_count\<close>)


text \<open>
  C25: the drain loop returns.  Started on any well-formed ring, with any finite number of lines arriving while it
  runs, the loop ends after at most one turn for each line that waits or arrives, with an empty ring,
  unless one of its turns routes a line whose handler panics; this can only be a line that uses the response
  cache, so with other lines it always returns.  \<open>agent_drain\<close> in particular fails only by such a panic.
\<close>

theorem agent_drain_terminates:
  assumes "aq_inv (k_agentq k)" "iq_inv (k_intake k)" "iq_count (k_intake k) + length (concat ars) < n"
  shows "(agent_drain_locked ars n k = None \<longleftrightarrow> drain_panics ars k) \<and>
    (\<not> drain_panics ars k \<longrightarrow> (\<exists>k'. agent_drain_locked ars n k = Some k' \<and> iq_lines (k_intake k') = [])) \<and>
    ((\<forall>l \<in> set (taken ars n (iq_lines (k_intake k))). \<not> uses_cache l) \<longrightarrow> \<not> drain_panics ars k) \<and>
    (agent_drain k = None \<longleftrightarrow> drain_panics [] k)"
proof -
  have r: "agent_drain_locked ars n k = None \<longleftrightarrow> drain_panics ars k" by (rule drain_returns [OF assms])
  moreover have "agent_drain k = None \<longleftrightarrow> drain_panics [] k"
    unfolding agent_drain_eq [OF assms(2)] using iq_count_less by (intro drain_returns [OF assms(1,2)]) simp
  moreover have "iq_lines (k_intake k') = []" if "agent_drain_locked ars n k = Some k'" for k'
    using drain_sent [OF assms(1,2) that] by blast
  ultimately show ?thesis using drain_plain [OF assms] by (metis option.exhaust option.distinct(1))
qed

theorem agent_drain_terminates_witness:
  "\<exists>k'. agent_drain_locked [[], [''REQ|LS|.'']] 4 agent_sample = Some k' \<and> iq_lines (k_intake k') = []"
proof -
  have "iq_count (k_intake agent_sample) + length (concat [[], [''REQ|LS|.'']]) < 4" by (simp add: sample_count)
  from agent_drain_terminates [OF agent_sample_facts(1,3) this] show ?thesis
    using sample_plain unfolding sample_taken by (metis (no_types, lifting) set_simps(1,2))
qed

lemma parse_dec_digits:
  assumes "\<forall>c \<in> set xs. is_digit c" "\<not> is_digit c" "0 \<le> n"
    "n * 10 ^ length xs + int (value_rev (rev xs)) < 2 ^ 31"
  shows "parse_dec (xs @ c # rest) n = (n * 10 ^ length xs + int (value_rev (rev xs)), c # rest)"
  using assms
proof (induction xs arbitrary: n)
  case (Cons x xs)
  have app: "value_rev (ys @ [y]) = value_rev ys + digit_val y * 10 ^ length ys" for ys y
    by (induction ys) (simp_all add: algebra_simps)
  let ?d = "byte_of x - 48"
  have x: "?d = int (digit_val x)" "0 \<le> ?d"
    using Cons.prems(1) by (auto simp: is_digit_def digit_val_def byte_of_def)
  have eq: "(n * 10 + ?d) * 10 ^ length xs + int (value_rev (rev xs)) =
      n * 10 ^ length (x # xs) + int (value_rev (rev (x # xs)))"
    using x by (simp add: app algebra_simps)
  have "n * 10 + ?d \<le> (n * 10 + ?d) * 10 ^ length xs"
    using Cons.prems(3) x(2) by (simp add: mult_le_cancel_left1)
  then have "wrap32 (n * 10 + ?d) = n * 10 + ?d"
    using Cons.prems(3,4) x(2) eq by (intro wrap32_id) linarith+
  then show ?case
    using Cons.IH [of "n * 10 + ?d"] Cons.prems eq x(2) by simp
qed simp

lemma parse_dec_print:
  assumes "0 \<le> pid" "pid < 2 ^ 31" "\<not> is_digit c"
  shows "parse_dec (printint pid 10 sign @ c # rest) 0 = (pid, c # rest)"
proof -
  have p: "printint pid 10 sign = rev (digits_rev 10 (nat pid))"
    using assms(1,2) by (simp add: printint_def printint_buf_def)
  have "\<forall>c \<in> set (rev (digits_rev 10 (nat pid))). is_digit c"
    using digits_rev_dec [of _ "nat pid"] by (auto simp: is_digit_def byte_of_def)
  then show ?thesis
    using parse_dec_digits [of "rev (digits_rev 10 (nat pid))" c 0 rest] assms p
    by (simp add: value_digits_rev)
qed

text \<open>
  C24: the host's answer reaches the request it names.  A request is announced with the pid
  printed in decimal; the line \<open>REQ|CONFIRM_RES|<pid>|<a>\<close> with that printout, with or without a
  role prefix, resolves the request of exactly that pid, as allowed if and only if the answer
  begins with \<open>y\<close> or \<open>Y\<close>, already in interrupt context and without entering the queue; the
  queued handler parses it in the same way.
\<close>

theorem confirm_answer_roundtrip:
  assumes "0 < pid" "pid < 2 ^ 31" "CHR ''|'' \<notin> set role" "NUL \<notin> set role"
  shows "agent_dispatch (''REQ|CONFIRM_RES|'' @ printint pid 10 sign @ CHR ''|'' # a # rest) k =
      confirm_resolve pid (if a = CHR ''y'' \<or> a = CHR ''Y'' then 1 else 0) k \<and>
    agent_dispatch (''REQ|agent:'' @ role @ ''|CONFIRM_RES|'' @ printint pid 10 sign @ CHR ''|'' # a # rest) k =
      confirm_resolve pid (if a = CHR ''y'' \<or> a = CHR ''Y'' then 1 else 0) k \<and>
    handle_confirm_res (printint pid 10 sign @ CHR ''|'' # a # rest) k =
      confirm_resolve pid (if a = CHR ''y'' \<or> a = CHR ''Y'' then 1 else 0) k"
proof -
  have d: "\<not> is_digit (CHR ''|'')" by (simp add: is_digit_def byte_of_def)
  note pd = parse_dec_print [OF less_imp_le [OF assms(1)] assms(2) d]
  have bar: "find_bar (role @ CHR ''|'' # s) = CHR ''|'' # s" for s
    using assms(3,4) by (induction role) auto
  show ?thesis using assms(1)
    by (simp add: agent_dispatch_def try_inline_confirm_res_def handle_confirm_res_def skip_role_def
        pd bar Let_def deref_def)
qed

theorem confirm_answer_roundtrip_witness:
  "agent_dispatch (''REQ|CONFIRM_RES|'' @ printint 42 10 True @ ''|y'') kernel_boot =
     confirm_resolve 42 1 kernel_boot"
  using confirm_answer_roundtrip [of 42 "''ops''" True "CHR ''y''" "[]" kernel_boot] by simp

lemma mem_bytes_cstr:
  assumes "0 \<le> n" "n \<le> int (length (cstr s))"
  shows "mem_bytes s n = take (nat n) (cstr s)"
proof (rule nth_equalityI)
  fix i
  assume "i < length (mem_bytes s n)"
  then have i: "i < nat n" "i < length (cstr s)" using assms by auto
  moreover have "i < length s" using i(2) length_takeWhile_le unfolding cstr_def by (metis order.strict_trans2)
  ultimately show "mem_bytes s n ! i = take (nat n) (cstr s) ! i"
    by (simp add: mem_bytes_def deref_drop cstr_def takeWhile_nth)
qed (use assms in auto)

lemma strlen_str: "NUL \<notin> set s \<Longrightarrow> strlen s = length s"
  by (simp add: strlen_eq cstr_id)

text \<open>
  C17: an answered question is not asked again.  When \<open>ASK\<close> has recorded a prompt of 1 to 255
  characters as pending and the host answers with \<open>LLM_RESP\<close> and a wire of at most 1024
  characters, then asking the same prompt again prints no \<open>LLM_REQ\<close>: it reports a cache hit and
  forwards exactly the wire that was answered.
\<close>

theorem ask_answered_from_cache:
  assumes "cache_inv (k_cache k)" "prompt \<noteq> []" "length prompt < 256" "NUL \<notin> set prompt"
    "length w \<le> 1024" "NUL \<notin> set w"
    "k_pending k = \<lparr>pend_prompt = safestrcpy b prompt 1280, pend_len = int (length prompt)\<rparr>"
    "handle_llm_resp w k = Some k1"
  shows "\<exists>k2. handle_ask prompt k1 = Some (forward_wire_to_agentd w (printf (''[cache] HIT'' @ [CHR 0x0A]) [] k2)) \<and>
    cmd_part k2 = cmd_part k1 \<and> k_out k2 = k_out k1 \<and> k_pending k2 = k_pending k1"
proof -
  let ?n = "int (length prompt)" and ?k = "k\<lparr>k_pending := (k_pending k)\<lparr>pend_len := 0\<rparr>\<rparr>"
  let ?key = "safestrcpy (replicate 256 NUL) (safestrcpy b prompt 1280) 256"
  have "0 < ?n" "?n < 256" using assms(2,3) by auto
  have key: "cstr ?key = prompt" using assms(3,4) by (simp add: cstr_safestrcpy cstr_id)
  have mem: "mem_bytes ?key ?n = prompt"
    using mem_bytes_cstr [of ?n ?key] key by simp
  obtain rc k' where set: "cache_set ?key ?n w (int (length w)) ?k = Some (rc, k')"
    and k1: "k1 = forward_wire_to_agentd w (if rc < 0 then printf (''[cache] DROP (oversized %d B)'' @ [CHR 0x0A]) [VInt (int (length w))] k' else k')"
    using assms(6-8) \<open>0 < ?n\<close> \<open>?n < 256\<close> by (auto simp: handle_llm_resp_def Let_def strlen_str split: bind_splits)
  have m: "mem_bytes prompt ?n = mem_bytes ?key ?n" using mem by (simp add: mem_bytes_full)
  have c: "k_cache k1 = k_cache k'"
    by (simp add: k1 forward_wire_to_agentd_def forward_to_agentd_def wakeup_def)
  have inv: "cache_inv (k_cache ?k)" "0 \<le> int (length w)" "int (length w) \<le> 1024" "(0 :: int) < 1024"
    using assms(1,5) by simp_all
  obtain i where hit: "\<And>k2 key2. k_cache k2 = k_cache k' \<Longrightarrow> mem_bytes key2 ?n = mem_bytes ?key ?n \<Longrightarrow>
    cache_get_exact key2 ?n 1024 k2 = Some (int (length w), take (nat (min (int (length w)) 1024)) (mem_bytes w (int (length w))),
      k2\<lparr>k_cache := (k_cache k2)[i := (k_cache k2 ! i)\<lparr>ce_last_access := k_ticks k2\<rparr>]\<rparr>)"
    using cache_set_hit [OF inv(1) \<open>0 < ?n\<close> inv(2,3,4) set] by metis
  have "cache_get_exact prompt ?n 1024 k1 = Some (int (length w), w,
      k1\<lparr>k_cache := (k_cache k1)[i := (k_cache k1 ! i)\<lparr>ce_last_access := k_ticks k1\<rparr>]\<rparr>)"
    using hit [OF c m] assms(5) by (simp add: mem_bytes_full)
  then show ?thesis
    using assms(2,4,5)
    by (intro exI [of _ "k1\<lparr>k_cache := (k_cache k1)[i := (k_cache k1 ! i)\<lparr>ce_last_access := k_ticks k1\<rparr>]\<rparr>"])
      (simp add: handle_ask_def strlen_str Let_def)
qed

theorem ask_answered_from_cache_witness:
  "\<exists>k1 k2. handle_llm_resp ''PRINT|hi'' (cache_sample\<lparr>k_pending :=
       \<lparr>pend_prompt = safestrcpy (replicate 1280 NUL) ''say hi'' 1280, pend_len = 6\<rparr>\<rparr>) = Some k1 \<and>
     handle_ask ''say hi'' k1 = Some (forward_wire_to_agentd ''PRINT|hi'' (printf (''[cache] HIT'' @ [CHR 0x0A]) [] k2)) \<and>
     cmd_part k2 = cmd_part k1 \<and> k_out k2 = k_out k1 \<and> k_pending k2 = k_pending k1"
proof -
  let ?k = "cache_sample\<lparr>k_pending := \<lparr>pend_prompt = safestrcpy (replicate 1280 NUL) ''say hi'' 1280, pend_len = 6\<rparr>\<rparr>"
  have "\<exists>k'. cache_set key 6 ''PRINT|hi'' 8 (?k\<lparr>k_pending := pe\<rparr>) = Some (0, k')" for key pe
    using cache_sample_set_pending [of 6 8] by simp
  then obtain k' where "cache_set (safestrcpy (replicate 256 NUL) (safestrcpy (replicate 1280 NUL) ''say hi'' 1280) 256) 6
      ''PRINT|hi'' 8 (?k\<lparr>k_pending := (k_pending ?k)\<lparr>pend_len := 0\<rparr>\<rparr>) = Some (0, k')" by blast
  then obtain k1 where k1: "handle_llm_resp ''PRINT|hi'' ?k = Some k1"
    by (simp add: handle_llm_resp_def strlen_str Let_def)
  show ?thesis
    using ask_answered_from_cache [of ?k "''say hi''" "''PRINT|hi''" "replicate 1280 NUL" k1] k1 cache_sample_inv
    by auto
qed

end
