(* ===== verification/Console.thy ===== *)
theory Console
  imports Agentcmd
begin

text \<open>
  The console driver, \<open>kernel/console.c\<close>, with \<open>uartwrite\<close> and \<open>uartintr\<close> of
  \<open>kernel/uart.c\<close>.  The input interrupt edits the current line, mirrors it in \<open>agent_buf\<close> and
  diverts lines that begin with \<open>REQ|\<close> to the agent dispatcher; \<open>consoleread\<close> hands complete
  lines to readers and drains the dispatcher's intake ring while it waits.

  The section on refinement shows that the ring of raw indices and the mirror buffer implement
  a line editor on two strings.
\<close>

section \<open>Output\<close>

text \<open>Every character is transmitted once the UART is ready for it, in order.\<close>

definition uartwrite :: "char list \<Rightarrow> kernel \<Rightarrow> kernel" where
  "uartwrite bs k = k\<lparr>k_out := k_out k @ bs\<rparr>"

text \<open>\<open>consolewrite\<close> copies batches of 32 bytes; \<open>i\<close> is the number of bytes written so far.\<close>

function consolewrite_loop :: "copy_src \<Rightarrow> int \<Rightarrow> int \<Rightarrow> kernel \<Rightarrow> (int \<times> kernel) option" where
  "consolewrite_loop src i n k =
     (if i < n
      then
        let nn = (if 32 > n - i then n - i else 32)
        in do {
          (r, bs, k) \<leftarrow> either_copyin src (of_int nn) k;
          if r = - 1 then Some (i, k)
          else consolewrite_loop (src_advance src (of_int nn)) (i + nn) n (uartwrite bs k) }
      else Some (i, k))"
  by pat_completeness auto
termination by (relation "measure (\<lambda>(src, i, n, k). nat (n - i))") auto

declare consolewrite_loop.simps [simp del]

definition consolewrite :: "copy_src \<Rightarrow> int \<Rightarrow> kernel \<Rightarrow> (int \<times> kernel) option" where
  "consolewrite src n k = consolewrite_loop src 0 n k"

section \<open>Reading\<close>

definition ctrl :: "char \<Rightarrow> char" where
  "ctrl c = char_of (of_char c - (64 :: nat))"

definition cons_at :: "console \<Rightarrow> u32 \<Rightarrow> char" where
  "cons_at c i = cons_buf c ! (unat i mod INPUT_BUF_SIZE)"

text \<open>
  The loop of \<open>consoleread\<close>: \<open>n\<close> bytes are still wanted of \<open>target\<close>, \<open>got\<close> are the bytes
  delivered so far.  A reader that finds no input drains the agent queue and goes to sleep; it
  is re-entered with what \<open>Sleep\<close> records.
\<close>

fun consoleread_loop :: "u64 option \<Rightarrow> nat \<Rightarrow> int \<Rightarrow> string \<Rightarrow> kernel \<Rightarrow>
    ((int \<times> string, u64 option \<times> nat \<times> string) blocking \<times> kernel) option" where
  "consoleread_loop dst 0 target got k = Some (Done (target, got), k)"
| "consoleread_loop dst (Suc n) target got k =
     do {
       p \<leftarrow> k_cur k;
       let waits = (cons_r (k_cons k) = cons_w (k_cons k));
       if waits \<and> killed p k then Some (Done (- 1, got), k)
       else do {
         k \<leftarrow> (if waits then agent_drain k else Some k);
         if cons_r (k_cons k) = cons_w (k_cons k)
         then do { k \<leftarrow> sleep Ch_cons_r k; Some (Sleep (dst, Suc n, got), k) }
         else
           let c = cons_at (k_cons k) (cons_r (k_cons k));
               k1 = k\<lparr>k_cons := (k_cons k)\<lparr>cons_r := cons_r (k_cons k) + 1\<rparr>\<rparr>
           in if c = ctrl (CHR ''D'')
              then Some (Done (target - int (Suc n), got), if int (Suc n) < target then k else k1)
              else do {
                (r, k2) \<leftarrow> either_copyout dst [c] 1 k1;
                if r = - 1 then Some (Done (target - int (Suc n), got), k2)
                else if c = CHR 0x0A then Some (Done (target - int n, got @ [c]), k2)
                else consoleread_loop (map_option (\<lambda>a. a + 1) dst) n target (got @ [c]) k2 } } }"

definition consoleread :: "u64 option \<Rightarrow> int \<Rightarrow> kernel \<Rightarrow>
    ((int \<times> string, u64 option \<times> nat \<times> string) blocking \<times> kernel) option" where
  "consoleread dst n k =
     (if n > 0 then consoleread_loop dst (nat n) n [] k else Some (Done (0, []), k))"

section \<open>The input interrupt\<close>

text \<open>Erasing back to the last newline; the loop makes at most \<open>e - w\<close> turns.\<close>

fun kill_line :: "nat \<Rightarrow> kernel \<Rightarrow> kernel" where
  "kill_line 0 k = k"
| "kill_line (Suc n) k =
     (let c = k_cons k
      in if cons_e c \<noteq> cons_w c \<and> cons_at c (cons_e c - 1) \<noteq> CHR 0x0A
         then kill_line n (consputc BACKSPACE (k\<lparr>k_cons := c\<lparr>cons_e := cons_e c - 1\<rparr>\<rparr>))
         else k)"

definition is_req :: "string \<Rightarrow> bool" where
  "is_req b \<longleftrightarrow> b ! 0 = CHR ''R'' \<and> b ! 1 = CHR ''E'' \<and> b ! 2 = CHR ''Q'' \<and> b ! 3 = CHR ''|''"

definition cons_store :: "char \<Rightarrow> console \<Rightarrow> console" where
  "cons_store ch c =
     (let c = c\<lparr>cons_buf := (cons_buf c)[unat (cons_e c) mod INPUT_BUF_SIZE := ch], cons_e := cons_e c + 1\<rparr>
      in if cons_agent_len c < AGENT_BUF_SIZE - 1
         then c\<lparr>cons_agent_buf := (cons_agent_buf c)[cons_agent_len c := ch], cons_agent_len := cons_agent_len c + 1\<rparr>
         else c)"

definition cons_echo :: "char \<Rightarrow> kernel \<Rightarrow> kernel" where
  "cons_echo ch k =
     (let c = k_cons k; req = (cons_agent_len c \<ge> 4 \<and> is_req (cons_agent_buf c))
      in if \<not> req then consputc (of_char ch) k
         else if cons_agent_len c \<le> 4 \<or> ch = CHR 0x0A then consputc (of_char ch) k
         else k)"

definition cons_line_end :: "kernel \<Rightarrow> kernel" where
  "cons_line_end k =
     (let c = k_cons k
      in if cons_agent_len c > 4 \<and> is_req (cons_agent_buf c)
         then
           let n = (if cons_agent_buf c ! (cons_agent_len c - 1) = CHR 0x0A then cons_agent_len c - 1 else cons_agent_len c);
               buf = (cons_agent_buf c)[n := NUL];
               k = agent_dispatch buf (k\<lparr>k_cons := c\<lparr>cons_agent_len := n, cons_agent_buf := buf, cons_e := cons_w c\<rparr>\<rparr>)
           in wakeup Ch_cons_r (k\<lparr>k_cons := (k_cons k)\<lparr>cons_agent_len := 0\<rparr>\<rparr>)
         else wakeup Ch_cons_r (k\<lparr>k_cons := c\<lparr>cons_agent_len := 0, cons_w := cons_e c\<rparr>\<rparr>))"

definition consoleintr :: "char \<Rightarrow> kernel \<Rightarrow> kernel" where
  "consoleintr ch k =
     (let c = k_cons k
      in if ch = ctrl (CHR ''P'') then procdump k
         else if ch = ctrl (CHR ''U'')
         then
           let k = kill_line (unat (cons_e c - cons_w c)) k
           in k\<lparr>k_cons := (k_cons k)\<lparr>cons_agent_len := 0\<rparr>\<rparr>
         else if ch = ctrl (CHR ''H'') \<or> ch = CHR 0x7F
         then
           if cons_e c \<noteq> cons_w c
           then
             let k = consputc BACKSPACE (k\<lparr>k_cons := c\<lparr>cons_e := cons_e c - 1\<rparr>\<rparr>)
             in k\<lparr>k_cons := (k_cons k)\<lparr>cons_agent_len := cons_agent_len (k_cons k) - 1\<rparr>\<rparr>
           else k
         else if ch \<noteq> NUL \<and> cons_e c - cons_r c < of_nat INPUT_BUF_SIZE
         then
           let ch = (if ch = CHR 0x0D then CHR 0x0A else ch);
               k = cons_echo ch (k\<lparr>k_cons := cons_store ch c\<rparr>)
           in if ch = CHR 0x0A \<or> ch = ctrl (CHR ''D'') \<or>
                 cons_e (k_cons k) - cons_r (k_cons k) = of_nat INPUT_BUF_SIZE
              then cons_line_end k
              else k
         else k)"

text \<open>The received characters are those that the UART holds when the interrupt is served.\<close>

definition uartintr :: "string \<Rightarrow> kernel \<Rightarrow> kernel" where
  "uartintr rx k = fold consoleintr rx k"

section \<open>The line editor\<close>

text \<open>
  The text held by the ring from \<open>r\<close> to \<open>e\<close>: its first part, up to \<open>w\<close>, is ready for readers,
  the rest is the line being edited.
\<close>

definition cons_idx :: "u32 \<Rightarrow> nat \<Rightarrow> nat" where
  "cons_idx a i = unat (a + of_nat i) mod INPUT_BUF_SIZE"

definition cons_text :: "console \<Rightarrow> string" where
  "cons_text c = map (\<lambda>i. cons_buf c ! cons_idx (cons_r c) i) [0..<unat (cons_e c - cons_r c)]"

definition cons_ready :: "console \<Rightarrow> string" where
  "cons_ready c = take (unat (cons_w c - cons_r c)) (cons_text c)"

definition cons_line :: "console \<Rightarrow> string" where
  "cons_line c = drop (unat (cons_w c - cons_r c)) (cons_text c)"

definition cons_inv :: "console \<Rightarrow> bool" where
  "cons_inv c \<longleftrightarrow> length (cons_buf c) = INPUT_BUF_SIZE \<and> length (cons_agent_buf c) = AGENT_BUF_SIZE \<and>
     unat (cons_w c - cons_r c) \<le> unat (cons_e c - cons_r c) \<and> unat (cons_e c - cons_r c) \<le> INPUT_BUF_SIZE \<and>
     (cons_line c = [] \<or> unat (cons_e c - cons_r c) < INPUT_BUF_SIZE) \<and>
     cons_agent_len c = length (cons_line c) \<and> take (cons_agent_len c) (cons_agent_buf c) = cons_line c \<and>
     CHR 0x0A \<notin> set (cons_line c) \<and> NUL \<notin> set (cons_line c)"

text \<open>
  One key stroke on the editor: the new ready text and line, and the command line that is sent
  to the agent dispatcher instead of the readers.
\<close>

definition ed_flush :: "string \<Rightarrow> string \<Rightarrow> (string \<times> string) \<times> string option" where
  "ed_flush ready line =
     (let m = take 2047 line
      in if length m > 4 \<and> take 4 m = ''REQ|''
         then ((ready, []), Some (if m ! (length m - 1) = CHR 0x0A then butlast m else m))
         else ((ready @ line, []), None))"

definition ed_step :: "char \<Rightarrow> string \<times> string \<Rightarrow> (string \<times> string) \<times> string option" where
  "ed_step ch st =
     (let (ready, line) = st
      in if ch = ctrl (CHR ''P'') then ((ready, line), None)
         else if ch = ctrl (CHR ''U'') then ((ready, []), None)
         else if ch = ctrl (CHR ''H'') \<or> ch = CHR 0x7F then ((ready, butlast line), None)
         else if ch = NUL \<or> length ready + length line \<ge> 2048 then ((ready, line), None)
         else
           let ch = (if ch = CHR 0x0D then CHR 0x0A else ch); line = line @ [ch]
           in if ch = CHR 0x0A \<or> ch = ctrl (CHR ''D'') \<or> length ready + length line = 2048
              then ed_flush ready line
              else ((ready, line), None))"

section \<open>The ring\<close>

lemma cons_idx_eq: "i \<le> 2048 \<Longrightarrow> cons_idx a i = (unat a + i) mod INPUT_BUF_SIZE"
proof -
  assume "i \<le> 2048"
  then have "unat (a + of_nat i) = (unat a + i) mod 2 ^ 32"
    by (simp add: unat_word_ariths unat_of_nat)
  moreover have "(n mod 2 ^ 32) mod 2048 = n mod (2048 :: nat)" for n
    by (rule mod_mod_cancel) (simp add: dvd_def)
  ultimately show ?thesis by (simp add: cons_idx_def INPUT_BUF_SIZE_def)
qed

lemma cons_idx_distinct: "i < j \<Longrightarrow> j < 2048 \<Longrightarrow> cons_idx a i \<noteq> cons_idx a j"
  using ring_distinct [of i j 2048 "unat a"] by (simp add: cons_idx_eq INPUT_BUF_SIZE_def)

lemma cons_idx_less: "cons_idx a i < INPUT_BUF_SIZE"
  by (simp add: cons_idx_def INPUT_BUF_SIZE_def)

lemma length_cons_text [simp]: "length (cons_text c) = unat (cons_e c - cons_r c)"
  by (simp add: cons_text_def)

lemma cons_text_parts: "cons_text c = cons_ready c @ cons_line c"
  by (simp add: cons_ready_def cons_line_def)

lemma cons_invD:
  assumes "cons_inv c"
  shows "length (cons_ready c) = unat (cons_w c - cons_r c)"
    "unat (cons_e c - cons_r c) = length (cons_ready c) + length (cons_line c)"
    "length (cons_ready c) + length (cons_line c) \<le> 2048" "length (cons_line c) < 2048"
    "cons_e c = cons_w c \<longleftrightarrow> cons_line c = []"
proof -
  show 1: "length (cons_ready c) = unat (cons_w c - cons_r c)"
    using assms by (simp add: cons_ready_def cons_inv_def)
  show 2: "unat (cons_e c - cons_r c) = length (cons_ready c) + length (cons_line c)"
    by (metis cons_text_parts length_append length_cons_text)
  show "length (cons_ready c) + length (cons_line c) \<le> 2048" "length (cons_line c) < 2048"
    using assms 2 by (auto simp: cons_inv_def INPUT_BUF_SIZE_def)
  have "cons_e c = cons_w c \<longleftrightarrow> cons_e c - cons_r c = cons_w c - cons_r c" by auto
  also have "\<dots> \<longleftrightarrow> unat (cons_e c - cons_r c) = unat (cons_w c - cons_r c)" by (simp add: word_unat_eq_iff)
  finally show "cons_e c = cons_w c \<longleftrightarrow> cons_line c = []" using 1 2 by simp
qed

lemma cons_line_length:
  assumes "cons_inv c"
  shows "unat (cons_e c - cons_w c) = length (cons_line c)"
proof -
  note d = cons_invD [OF assms]
  have "cons_w c - cons_r c \<le> cons_e c - cons_r c" using assms by (simp add: cons_inv_def word_le_nat_alt)
  then have "unat (cons_e c - cons_r c - (cons_w c - cons_r c)) = unat (cons_e c - cons_r c) - unat (cons_w c - cons_r c)"
    by (rule unat_sub)
  then show ?thesis using d(1,2) by simp
qed

lemma unat_diff_pred: "(x :: u32) \<noteq> y \<Longrightarrow> unat (x - 1 - y) = unat (x - y) - 1"
proof -
  assume "x \<noteq> y"
  then have "x - y \<noteq> 0" by simp
  then show ?thesis using unat_minus_one [of "x - y"] by (simp add: algebra_simps)
qed

lemma unat_diff_Suc: "unat ((x :: u32) - y) \<le> 2048 \<Longrightarrow> unat (x + 1 - y) = unat (x - y) + 1"
proof -
  assume "unat (x - y) \<le> 2048"
  then have "unat (x - y) + unat (1 :: u32) < 2 ^ 32" by simp
  then have "unat (x - y + 1) = unat (x - y) + 1" using unat_add_lem [of "x - y" 1] by simp
  then show ?thesis by (simp add: algebra_simps)
qed

lemma cons_text_retract:
  assumes "cons_e c \<noteq> cons_r c"
  shows "cons_text (c\<lparr>cons_e := cons_e c - 1\<rparr>) = butlast (cons_text c)"
    "cons_at c (cons_e c - 1) = last (cons_text c)"
proof -
  let ?n = "unat (cons_e c - cons_r c)"
  have n: "?n > 0" using assms by (simp add: unat_gt_0)
  show "cons_text (c\<lparr>cons_e := cons_e c - 1\<rparr>) = butlast (cons_text c)"
    using unat_diff_pred [OF assms] n
    by (cases ?n) (simp_all add: cons_text_def)
  have "cons_r c + of_nat (?n - 1) = cons_e c - 1"
    using n by (simp add: of_nat_diff unat_gt_0 Suc_leI algebra_simps)
  then show "cons_at c (cons_e c - 1) = last (cons_text c)"
    using n by (simp add: last_conv_nth cons_text_def cons_at_def cons_idx_def)
qed

lemma cons_text_store:
  assumes "length (cons_buf c) = INPUT_BUF_SIZE" "unat (cons_e c - cons_r c) < 2048"
  shows "cons_text (c\<lparr>cons_buf := (cons_buf c)[unat (cons_e c) mod INPUT_BUF_SIZE := ch], cons_e := cons_e c + 1\<rparr>) =
    cons_text c @ [ch]"
proof -
  let ?n = "unat (cons_e c - cons_r c)"
  have e: "unat (cons_e c) mod INPUT_BUF_SIZE = cons_idx (cons_r c) ?n" by (simp add: cons_idx_def)
  have "(cons_buf c)[cons_idx (cons_r c) ?n := ch] ! cons_idx (cons_r c) i = cons_buf c ! cons_idx (cons_r c) i" if "i < ?n" for i
    using cons_idx_distinct [OF that, of "cons_r c"] assms(2) by simp
  moreover have "(cons_buf c)[cons_idx (cons_r c) ?n := ch] ! cons_idx (cons_r c) ?n = ch"
    using cons_idx_less [of "cons_r c" ?n] assms(1) by simp
  ultimately show ?thesis
    unfolding e using unat_diff_Suc [of "cons_e c" "cons_r c"] assms(2) by (simp add: cons_text_def)
qed

section \<open>Refinement\<close>

lemma consputc_frame [simp]:
  "k_cons (consputc c k) = k_cons k" "k_intake (consputc c k) = k_intake k" "k_confirm (consputc c k) = k_confirm k"
  by (simp_all add: consputc_def)

lemma procdump_frame [simp]:
  "k_cons (procdump k) = k_cons k" "k_intake (procdump k) = k_intake k" "k_confirm (procdump k) = k_confirm k"
proof -
  have "k_cons (fold procdump_line ps k1) = k_cons k1 \<and> k_intake (fold procdump_line ps k1) = k_intake k1 \<and>
      k_confirm (fold procdump_line ps k1) = k_confirm k1" for ps k1
    by (induction ps arbitrary: k1) (simp_all add: procdump_line_def)
  then show "k_cons (procdump k) = k_cons k" "k_intake (procdump k) = k_intake k" "k_confirm (procdump k) = k_confirm k"
    by (simp_all add: procdump_def)
qed

lemma cons_echo_frame [simp]:
  "k_cons (cons_echo ch k) = k_cons k" "k_intake (cons_echo ch k) = k_intake k" "k_confirm (cons_echo ch k) = k_confirm k"
  by (simp_all add: cons_echo_def Let_def)

lemma cons_retract:
  assumes "cons_inv c" "cons_line c \<noteq> []"
  shows "cons_ready (c\<lparr>cons_e := cons_e c - 1\<rparr>) = cons_ready c"
    "cons_line (c\<lparr>cons_e := cons_e c - 1\<rparr>) = butlast (cons_line c)"
    "cons_at c (cons_e c - 1) = last (cons_line c)"
    "cons_inv (c\<lparr>cons_e := cons_e c - 1, cons_agent_len := cons_agent_len c - 1\<rparr>)"
proof -
  let ?c = "c\<lparr>cons_e := cons_e c - 1\<rparr>"
  note d = cons_invD [OF assms(1)]
  have ne: "cons_e c \<noteq> cons_r c"
  proof
    assume "cons_e c = cons_r c"
    then show False using d(2) assms(2) by simp
  qed
  note t = cons_text_retract [OF ne]
  have "unat (cons_w c - cons_r c) < length (cons_text c)" using d(1,2) assms(2) by simp
  then have "take (unat (cons_w c - cons_r c)) (butlast (cons_text c)) = take (unat (cons_w c - cons_r c)) (cons_text c)"
    by (rule take_butlast)
  then show r: "cons_ready ?c = cons_ready c"
    using t(1) by (simp add: cons_ready_def)
  show l: "cons_line ?c = butlast (cons_line c)"
    using t(1) by (simp add: cons_line_def drop_butlast)
  show "cons_at c (cons_e c - 1) = last (cons_line c)"
    using t(2) assms(2) by (simp add: cons_text_parts)
  have "cons_line (?c\<lparr>cons_agent_len := n\<rparr>) = cons_line ?c" for n
    by (simp add: cons_line_def cons_text_def)
  then have l': "cons_line (c\<lparr>cons_e := cons_e c - 1, cons_agent_len := n\<rparr>) = butlast (cons_line c)" for n
    using l by simp
  have "unat (cons_e c - 1 - cons_r c) = unat (cons_e c - cons_r c) - 1" by (rule unat_diff_pred [OF ne])
  moreover have "take (length (cons_line c) - 1) (cons_agent_buf c) = butlast (cons_line c)"
  proof -
    have "length (cons_line c) \<le> length (cons_agent_buf c)"
      using assms(1) d(4) by (simp add: cons_inv_def AGENT_BUF_SIZE_def)
    from butlast_take [OF this] show ?thesis using assms(1) by (metis cons_inv_def)
  qed
  moreover obtain m where m: "length (cons_line c) = Suc m" using assms(2) by (cases "cons_line c") auto
  ultimately show "cons_inv (c\<lparr>cons_e := cons_e c - 1, cons_agent_len := cons_agent_len c - 1\<rparr>)"
    using assms d by (auto simp: cons_inv_def l' INPUT_BUF_SIZE_def dest: in_set_butlastD)
qed

lemma cons_agent_len_irrelevant [simp]:
  "cons_line (c\<lparr>cons_agent_len := n\<rparr>) = cons_line c" "cons_ready (c\<lparr>cons_agent_len := n\<rparr>) = cons_ready c"
  by (simp_all add: cons_line_def cons_ready_def cons_text_def)

lemma kill_line_all:
  assumes "cons_inv ((k_cons k)\<lparr>cons_agent_len := n\<rparr>)"
  shows "k_cons (kill_line n k) = (k_cons k)\<lparr>cons_e := cons_w (k_cons k)\<rparr> \<and>
    k_intake (kill_line n k) = k_intake k \<and> k_confirm (kill_line n k) = k_confirm k"
  using assms
proof (induction n arbitrary: k)
  case 0
  then have "cons_e (k_cons k) = cons_w (k_cons k)" using cons_invD(5) [OF 0] by (simp add: cons_inv_def)
  then show ?case by simp
next
  case (Suc n)
  let ?c = "k_cons k"
  let ?k = "consputc BACKSPACE (k\<lparr>k_cons := ?c\<lparr>cons_e := cons_e ?c - 1\<rparr>\<rparr>)"
  have ne: "cons_line ?c \<noteq> []" using Suc.prems by (auto simp: cons_inv_def)
  note r = cons_retract [OF Suc.prems, simplified, OF ne]
  have "last (cons_line ?c) \<noteq> CHR 0x0A"
    using Suc.prems last_in_set [OF ne] unfolding cons_inv_def cons_agent_len_irrelevant by metis
  moreover have "cons_e ?c \<noteq> cons_w ?c" using cons_invD(5) [OF Suc.prems] ne by simp
  moreover have "cons_at ?c (cons_e ?c - 1) = last (cons_line ?c)" using r(3) by (simp add: cons_at_def)
  ultimately have step: "kill_line (Suc n) k = kill_line n ?k" by (simp add: Let_def)
  have "cons_inv ((k_cons ?k)\<lparr>cons_agent_len := n\<rparr>)"
    using r(4) by simp
  from Suc.IH [OF this] show ?case unfolding step by simp
qed

text \<open>The state between storing a character and the end-of-line test.\<close>

definition cons_stored :: "console \<Rightarrow> bool" where
  "cons_stored c \<longleftrightarrow> length (cons_buf c) = INPUT_BUF_SIZE \<and> length (cons_agent_buf c) = AGENT_BUF_SIZE \<and>
     unat (cons_w c - cons_r c) \<le> unat (cons_e c - cons_r c) \<and> unat (cons_e c - cons_r c) \<le> INPUT_BUF_SIZE \<and>
     cons_agent_len c = min 2047 (length (cons_line c)) \<and>
     take (cons_agent_len c) (cons_agent_buf c) = take 2047 (cons_line c) \<and> NUL \<notin> set (cons_line c)"

lemma cons_store_spec:
  assumes "cons_inv c" "unat (cons_e c - cons_r c) < 2048" "ch \<noteq> NUL"
  shows "cons_ready (cons_store ch c) = cons_ready c" "cons_line (cons_store ch c) = cons_line c @ [ch]"
    "cons_stored (cons_store ch c)" "cons_r (cons_store ch c) = cons_r c" "cons_w (cons_store ch c) = cons_w c"
    "unat (cons_e (cons_store ch c) - cons_r c) = length (cons_ready c) + length (cons_line c) + 1"
proof -
  note d = cons_invD [OF assms(1)]
  have len: "length (cons_buf c) = INPUT_BUF_SIZE" "length (cons_agent_buf c) = 2048"
    "cons_agent_len c = length (cons_line c)" "take (cons_agent_len c) (cons_agent_buf c) = cons_line c"
    "NUL \<notin> set (cons_line c)" using assms(1) by (auto simp: cons_inv_def AGENT_BUF_SIZE_def)
  let ?c = "c\<lparr>cons_buf := (cons_buf c)[unat (cons_e c) mod INPUT_BUF_SIZE := ch], cons_e := cons_e c + 1\<rparr>"
  have same: "cons_text (cons_store ch c) = cons_text ?c" by (simp add: cons_store_def Let_def cons_text_def)
  have t: "cons_text (cons_store ch c) = cons_ready c @ cons_line c @ [ch]"
    unfolding same cons_text_store [OF len(1) assms(2)] by (simp add: cons_text_parts)
  show rw: "cons_r (cons_store ch c) = cons_r c" "cons_w (cons_store ch c) = cons_w c"
    by (simp_all add: cons_store_def Let_def)
  show e: "unat (cons_e (cons_store ch c) - cons_r c) = length (cons_ready c) + length (cons_line c) + 1"
    using arg_cong [OF t, of length] rw by simp
  show r: "cons_ready (cons_store ch c) = cons_ready c" and l: "cons_line (cons_store ch c) = cons_line c @ [ch]"
    unfolding cons_ready_def [of "cons_store ch c"] cons_line_def [of "cons_store ch c"] rw t
    using d(1) by simp_all
  have "cons_agent_len (cons_store ch c) = min 2047 (length (cons_line c) + 1)"
    "take (cons_agent_len (cons_store ch c)) (cons_agent_buf (cons_store ch c)) = take 2047 (cons_line c @ [ch])"
    using d(4) len by (auto simp: cons_store_def Let_def AGENT_BUF_SIZE_def)
  then show "cons_stored (cons_store ch c)"
    unfolding cons_stored_def l rw using e d len assms
    by (simp add: cons_store_def Let_def INPUT_BUF_SIZE_def AGENT_BUF_SIZE_def)
qed

lemma is_req_take: "length b \<ge> 4 \<Longrightarrow> is_req b \<longleftrightarrow> take 4 b = ''REQ|''"
  by (cases b; cases "tl b"; cases "tl (tl b)"; cases "tl (tl (tl b))")
    (auto simp: is_req_def numeral_eq_Suc)

lemma cons_stored_emptied:
  assumes "cons_stored c"
  shows "cons_inv (c\<lparr>cons_agent_buf := b, cons_e := cons_w c, cons_agent_len := 0\<rparr>) \<longleftrightarrow> length b = 2048"
    "cons_ready (c\<lparr>cons_agent_buf := b, cons_e := cons_w c, cons_agent_len := 0\<rparr>) = cons_ready c"
    "cons_line (c\<lparr>cons_agent_buf := b, cons_e := cons_w c, cons_agent_len := 0\<rparr>) = []"
    "cons_inv (c\<lparr>cons_agent_len := 0, cons_w := cons_e c\<rparr>)"
    "cons_ready (c\<lparr>cons_agent_len := 0, cons_w := cons_e c\<rparr>) = cons_ready c @ cons_line c"
    "cons_line (c\<lparr>cons_agent_len := 0, cons_w := cons_e c\<rparr>) = []"
proof -
  let ?n = "unat (cons_w c - cons_r c)" and ?m = "unat (cons_e c - cons_r c)"
  have nm: "?n \<le> ?m" "?m \<le> INPUT_BUF_SIZE" "length (cons_buf c) = INPUT_BUF_SIZE"
    "length (cons_agent_buf c) = AGENT_BUF_SIZE" using assms by (simp_all add: cons_stored_def)
  let ?a = "c\<lparr>cons_agent_buf := b, cons_e := cons_w c, cons_agent_len := 0\<rparr>"
  let ?b = "c\<lparr>cons_agent_len := 0, cons_w := cons_e c\<rparr>"
  have ta: "cons_text ?a = take ?n (cons_text c)" "cons_text ?b = cons_text c"
    using nm(1) by (simp_all add: cons_text_def take_map)
  show "cons_ready ?a = cons_ready c" and la: "cons_line ?a = []"
    using nm(1) unfolding cons_ready_def cons_line_def ta by simp_all
  show "cons_ready ?b = cons_ready c @ cons_line c" and lb: "cons_line ?b = []"
    unfolding cons_ready_def [of ?b] cons_line_def [of ?b] ta by (simp_all add: cons_text_parts [symmetric])
  show "cons_inv ?a \<longleftrightarrow> length b = 2048" "cons_inv ?b"
    unfolding cons_inv_def la lb using nm by (simp_all add: AGENT_BUF_SIZE_def)
qed

lemma agent_dispatch_cons [simp]: "k_cons (agent_dispatch l k) = k_cons k"
  by (auto simp: agent_dispatch_def try_inline_confirm_res_def confirm_resolve_def wakeup_def Let_def
      split: prod.splits option.splits)

lemma agent_dispatch_parts:
  assumes "k_intake k1 = k_intake k" "k_confirm k1 = k_confirm k"
  shows "k_intake (agent_dispatch l k1) = k_intake (agent_dispatch l k)"
    "k_confirm (agent_dispatch l k1) = k_confirm (agent_dispatch l k)"
  using assms by (auto simp: agent_dispatch_def try_inline_confirm_res_def confirm_resolve_def wakeup_def Let_def
      split: prod.splits option.splits)

text \<open>What a keystroke may do to the dispatcher: nothing, or hand it one line.\<close>

definition dispatched :: "string option \<Rightarrow> kernel \<Rightarrow> kernel \<Rightarrow> bool" where
  "dispatched sent k k' \<longleftrightarrow>
     (case sent of
        None \<Rightarrow> k_intake k' = k_intake k \<and> k_confirm k' = k_confirm k
      | Some l \<Rightarrow> \<exists>b. cstr b = l \<and> k_intake k' = k_intake (agent_dispatch b k) \<and> k_confirm k' = k_confirm (agent_dispatch b k))"

lemma cstr_terminated: "n < length b \<Longrightarrow> NUL \<notin> set (take n b) \<Longrightarrow> cstr (b[n := NUL]) = take n b"
  by (simp add: upd_conv_take_nth_drop)

lemma cons_line_end_spec:
  assumes "cons_stored (k_cons k)"
  shows "cons_inv (k_cons (cons_line_end k)) \<and>
    (cons_ready (k_cons (cons_line_end k)), cons_line (k_cons (cons_line_end k))) =
      fst (ed_flush (cons_ready (k_cons k)) (cons_line (k_cons k))) \<and>
    dispatched (snd (ed_flush (cons_ready (k_cons k)) (cons_line (k_cons k)))) k (cons_line_end k)"
proof -
  let ?c = "k_cons k"
  define m where "m = take 2047 (cons_line (k_cons k))"
  have f: "length (cons_agent_buf ?c) = 2048" "cons_agent_len ?c = length m"
    "take (length m) (cons_agent_buf ?c) = m" "NUL \<notin> set m" "length m \<le> 2047"
    unfolding m_def using assms by (auto simp: cons_stored_def AGENT_BUF_SIZE_def min.commute dest: in_set_takeD)
  have req: "cons_agent_len ?c > 4 \<and> is_req (cons_agent_buf ?c) \<longleftrightarrow> length m > 4 \<and> take 4 m = ''REQ|''"
  proof -
    have "take 4 (cons_agent_buf ?c) = take 4 m" if "length m > 4"
      using that f(3) by (metis less_imp_le min.absorb1 take_take)
    then show ?thesis using f(1,2) is_req_take [of "cons_agent_buf ?c"] by auto
  qed
  note em = cons_stored_emptied [OF assms]
  show ?thesis
  proof (cases "length m > 4 \<and> take 4 m = ''REQ|''")
    case False
    then have "cons_line_end k = wakeup Ch_cons_r (k\<lparr>k_cons := ?c\<lparr>cons_agent_len := 0, cons_w := cons_e ?c\<rparr>\<rparr>)"
      by (simp only: cons_line_end_def Let_def req if_False)
    moreover have "ed_flush (cons_ready ?c) (cons_line ?c) = ((cons_ready ?c @ cons_line ?c, []), None)"
      using False unfolding m_def by (simp only: ed_flush_def Let_def if_False)
    ultimately show ?thesis using em(4-6) by (simp add: dispatched_def wakeup_def)
  next
    case True
    let ?l = "if m ! (length m - 1) = CHR 0x0A then butlast m else m"
    let ?n = "if cons_agent_buf ?c ! (cons_agent_len ?c - 1) = CHR 0x0A then cons_agent_len ?c - 1 else cons_agent_len ?c"
    let ?b = "(cons_agent_buf ?c)[?n := NUL]"
    let ?k = "k\<lparr>k_cons := ?c\<lparr>cons_agent_len := ?n, cons_agent_buf := ?b, cons_e := cons_w ?c\<rparr>\<rparr>"
    have le: "cons_line_end k = wakeup Ch_cons_r ((agent_dispatch ?b ?k)\<lparr>k_cons :=
        ?c\<lparr>cons_agent_buf := ?b, cons_e := cons_w ?c, cons_agent_len := 0\<rparr>\<rparr>)"
      using True by (simp only: cons_line_end_def Let_def req if_True) simp
    have "cons_agent_buf ?c ! (length m - 1) = m ! (length m - 1)"
      using True f(3) by (metis diff_less less_trans zero_less_numeral zero_less_one nth_take)
    then have n: "take ?n (cons_agent_buf ?c) = ?l" "?n < length (cons_agent_buf ?c)"
      using f butlast_take [of "length m" "cons_agent_buf ?c"] by (auto simp del: take_eq_Nil)
    have "NUL \<notin> set ?l" using f(4) by (auto dest: in_set_butlastD)
    then have b: "cstr ?b = ?l" using cstr_terminated [OF n(2)] n(1) by simp
    have fl: "ed_flush (cons_ready ?c) (cons_line ?c) = ((cons_ready ?c, []), Some ?l)"
      using True unfolding m_def by (simp only: ed_flush_def Let_def if_True simp_thms)
    have "cons_inv (k_cons (cons_line_end k))"
      "(cons_ready (k_cons (cons_line_end k)), cons_line (k_cons (cons_line_end k))) = (cons_ready ?c, [])"
      unfolding le using em(1-3) f(1) by (simp_all add: wakeup_def)
    moreover have "dispatched (Some ?l) k (cons_line_end k)"
      unfolding dispatched_def option.case le
      using b agent_dispatch_parts [of ?k k ?b] by (intro exI [of _ ?b]) (simp add: wakeup_def)
    ultimately show ?thesis unfolding fl by simp
  qed
qed

lemma consoleintr_char:
  assumes "cons_inv (k_cons k)" "ch \<noteq> NUL" "length (cons_ready (k_cons k)) + length (cons_line (k_cons k)) < 2048"
    "k1 = cons_echo ch (k\<lparr>k_cons := cons_store ch (k_cons k)\<rparr>)"
    "flush \<longleftrightarrow> ch = CHR 0x0A \<or> ch = ctrl (CHR ''D'') \<or> length (cons_ready (k_cons k)) + length (cons_line (k_cons k)) + 1 = 2048"
    "k' = (if flush then cons_line_end k1 else k1)"
    "ed = (if flush then ed_flush (cons_ready (k_cons k)) (cons_line (k_cons k) @ [ch])
           else ((cons_ready (k_cons k), cons_line (k_cons k) @ [ch]), None))"
  shows "cons_inv (k_cons k') \<and> (cons_ready (k_cons k'), cons_line (k_cons k')) = fst ed \<and> dispatched (snd ed) k k'"
proof -
  have lt: "unat (cons_e (k_cons k) - cons_r (k_cons k)) < 2048" using cons_invD(2) [OF assms(1)] assms(3) by simp
  note st = cons_store_spec [OF assms(1) lt assms(2)]
  have k1: "k_cons k1 = cons_store ch (k_cons k)" "k_intake k1 = k_intake k" "k_confirm k1 = k_confirm k"
    by (simp_all add: assms(4))
  show ?thesis
  proof (cases flush)
    case True
    have "dispatched sent k1 x \<longleftrightarrow> dispatched sent k x" for sent x
      using agent_dispatch_parts [OF k1(2,3)] k1(2,3) by (simp add: dispatched_def split: option.splits)
    then show ?thesis using cons_line_end_spec [of k1] st(1-3) k1(1) True by (simp add: assms(6,7))
  next
    case False
    then have f: "ch \<noteq> CHR 0x0A" "length (cons_ready (k_cons k)) + length (cons_line (k_cons k)) + 1 < 2048"
      using assms(3,5) by auto
    have "cons_inv (cons_store ch (k_cons k))"
      using st(3) f assms(1) unfolding cons_inv_def cons_stored_def st(2,4,5,6)
      by (auto simp: INPUT_BUF_SIZE_def)
    then show ?thesis using False st(1,2) k1 by (simp add: assms(6,7) dispatched_def)
  qed
qed

text \<open>A keystroke moves the editor to \<open>ed\<close> and hands the dispatcher what \<open>ed\<close> sends.\<close>

definition edited :: "((string \<times> string) \<times> string option) \<Rightarrow> kernel \<Rightarrow> kernel \<Rightarrow> bool" where
  "edited ed k k' \<longleftrightarrow> cons_inv (k_cons k') \<and>
     (cons_ready (k_cons k'), cons_line (k_cons k')) = fst ed \<and> dispatched (snd ed) k k'"

lemma edited_none:
  "edited (s, None) k k' \<longleftrightarrow> cons_inv (k_cons k') \<and> (cons_ready (k_cons k'), cons_line (k_cons k')) = s \<and>
     k_intake k' = k_intake k \<and> k_confirm k' = k_confirm k"
  by (auto simp: edited_def dispatched_def)

lemma consoleintr_kill:
  assumes "cons_inv (k_cons k)" "ch = ctrl (CHR ''U'')" "ch \<noteq> ctrl (CHR ''P'')"
  shows "edited (ed_step ch (cons_ready (k_cons k), cons_line (k_cons k))) k (consoleintr ch k)"
proof -
  let ?c = "k_cons k"
  note d = cons_invD [OF assms(1)]
  let ?k = "kill_line (unat (cons_e ?c - cons_w ?c)) k"
  have "unat (cons_e ?c - cons_w ?c) = length (cons_line ?c)" by (rule cons_line_length [OF assms(1)])
  then have n: "?c\<lparr>cons_agent_len := unat (cons_e ?c - cons_w ?c)\<rparr> = ?c" using assms(1) by (simp add: cons_inv_def)
  have "k_cons ?k = ?c\<lparr>cons_e := cons_w ?c\<rparr> \<and> k_intake ?k = k_intake k \<and> k_confirm ?k = k_confirm k"
    by (rule kill_line_all) (simp only: n assms(1))
  moreover have "cons_stored ?c" using assms(1) d by (auto simp: cons_inv_def cons_stored_def)
  ultimately show ?thesis
    using assms(2,3) cons_stored_emptied(1-3) [of ?c "cons_agent_buf ?c"] assms(1)
    by (simp add: consoleintr_def ed_step_def edited_none Let_def cons_inv_def AGENT_BUF_SIZE_def)
qed

lemma consoleintr_erase:
  assumes "cons_inv (k_cons k)" "ch = ctrl (CHR ''H'') \<or> ch = CHR 0x7F" "ch \<noteq> ctrl (CHR ''P'')" "ch \<noteq> ctrl (CHR ''U'')"
  shows "edited (ed_step ch (cons_ready (k_cons k), cons_line (k_cons k))) k (consoleintr ch k)"
proof -
  let ?c = "k_cons k"
  note d = cons_invD [OF assms(1)]
  show ?thesis
  proof (cases "cons_line ?c = []")
    case True
    then show ?thesis using assms d(5) by (auto simp: consoleintr_def ed_step_def edited_none Let_def)
  next
    case False
    then show ?thesis using assms(2-4) d(5) cons_retract [OF assms(1) False]
      by (simp add: consoleintr_def ed_step_def edited_none Let_def)
  qed
qed

lemma consoleintr_type:
  assumes "cons_inv (k_cons k)" "ch \<noteq> ctrl (CHR ''P'')" "ch \<noteq> ctrl (CHR ''U'')" "\<not> (ch = ctrl (CHR ''H'') \<or> ch = CHR 0x7F)"
  shows "edited (ed_step ch (cons_ready (k_cons k), cons_line (k_cons k))) k (consoleintr ch k)"
proof -
  let ?c = "k_cons k"
  note d = cons_invD [OF assms(1)]
  have room: "cons_e ?c - cons_r ?c < of_nat INPUT_BUF_SIZE \<longleftrightarrow> length (cons_ready ?c) + length (cons_line ?c) < 2048"
    using d(2) by (simp add: word_less_nat_alt INPUT_BUF_SIZE_def)
  show ?thesis
  proof (cases "ch \<noteq> NUL \<and> length (cons_ready ?c) + length (cons_line ?c) < 2048")
    case False
    have "consoleintr ch k = k"
      using assms(2-4) False room by (simp only: consoleintr_def Let_def if_False simp_thms)
    moreover have "ed_step ch (cons_ready ?c, cons_line ?c) = ((cons_ready ?c, cons_line ?c), None)"
      using assms(2-4) False by (auto simp: ed_step_def)
    ultimately show ?thesis using assms(1) by (simp add: edited_none)
  next
    case True
    let ?ch = "if ch = CHR 0x0D then CHR 0x0A else ch"
    let ?k = "cons_echo ?ch (k\<lparr>k_cons := cons_store ?ch ?c\<rparr>)"
    let ?flush = "?ch = CHR 0x0A \<or> ?ch = ctrl (CHR ''D'') \<or> length (cons_ready ?c) + length (cons_line ?c) + 1 = 2048"
    have ch: "?ch \<noteq> NUL" using True by auto
    have lt: "unat (cons_e ?c - cons_r ?c) < 2048" using d(2) True by simp
    have "unat (cons_e (k_cons ?k) - cons_r (k_cons ?k)) = length (cons_ready ?c) + length (cons_line ?c) + 1"
      using cons_store_spec(4,6) [OF assms(1) lt ch] by simp
    then have full: "cons_e (k_cons ?k) - cons_r (k_cons ?k) = of_nat INPUT_BUF_SIZE \<longleftrightarrow>
        length (cons_ready ?c) + length (cons_line ?c) + 1 = 2048"
      by (simp add: word_unat_eq_iff INPUT_BUF_SIZE_def)
    have ci: "consoleintr ch k = (if ?flush then cons_line_end ?k else ?k)"
      using assms(2-4) True room full by (simp only: consoleintr_def Let_def if_True if_False simp_thms)
    have ed: "ed_step ch (cons_ready ?c, cons_line ?c) = (if ?flush then ed_flush (cons_ready ?c) (cons_line ?c @ [?ch])
         else ((cons_ready ?c, cons_line ?c @ [?ch]), None))"
      using assms(2-4) True by (simp add: ed_step_def)
    have lt2: "length (cons_ready ?c) + length (cons_line ?c) < 2048" using True by simp
    show ?thesis unfolding ci ed edited_def by (rule consoleintr_char [OF assms(1) ch lt2 refl refl refl refl])
  qed
qed

section \<open>Properties\<close>

text \<open>
  C15: the console interrupt handler implements a line editor.  For every input character, the
  ring indices and the mirror buffer of \<open>consoleintr\<close> change exactly as the two strings of
  \<open>ed_step\<close> do (characters ready for readers, line being edited), including erase, kill and a
  full buffer.  A finished line that begins with \<open>REQ|\<close> never becomes readable: it is handed,
  without its newline, to the agent dispatcher, which is otherwise untouched.
\<close>

theorem consoleintr_line_editor:
  assumes "cons_inv (k_cons k)"
  shows "cons_inv (k_cons (consoleintr ch k)) \<and>
    (cons_ready (k_cons (consoleintr ch k)), cons_line (k_cons (consoleintr ch k))) =
      fst (ed_step ch (cons_ready (k_cons k), cons_line (k_cons k))) \<and>
    dispatched (snd (ed_step ch (cons_ready (k_cons k), cons_line (k_cons k)))) k (consoleintr ch k)"
proof -
  have "edited (ed_step ch (cons_ready (k_cons k), cons_line (k_cons k))) k (consoleintr ch k)"
  proof (cases "ch = ctrl (CHR ''P'')")
    case True
    then show ?thesis using assms by (simp add: consoleintr_def ed_step_def edited_none)
  next
    case False
    note keys = consoleintr_kill [OF assms _ False] consoleintr_erase [OF assms _ False] consoleintr_type [OF assms False]
    show ?thesis
      by (cases "ch = ctrl (CHR ''U'')", erule keys(1), cases "ch = ctrl (CHR ''H'') \<or> ch = CHR 0x7F", erule (1) keys(2), erule (1) keys(3))
  qed
  then show ?thesis by (simp only: edited_def)
qed

lemma cons_boot_inv: "cons_inv (k_cons kernel_boot)"
  by (simp add: cons_inv_def cons_line_def cons_text_def kernel_boot_def)

lemma cons_boot_text: "cons_ready (k_cons kernel_boot) = []" "cons_line (k_cons kernel_boot) = []"
  by (simp_all add: cons_ready_def cons_line_def cons_text_def kernel_boot_def)

lemma ctrl_codes:
  "ctrl (CHR ''P'') = CHR 0x10" "ctrl (CHR ''U'') = CHR 0x15" "ctrl (CHR ''H'') = CHR 0x08" "ctrl (CHR ''D'') = CHR 0x04"
  by code_simp+

theorem consoleintr_line_editor_witness:
  "cons_inv (k_cons (consoleintr (CHR ''R'') kernel_boot)) \<and>
    (cons_ready (k_cons (consoleintr (CHR ''R'') kernel_boot)), cons_line (k_cons (consoleintr (CHR ''R'') kernel_boot))) =
      ([], ''R'')"
  using consoleintr_line_editor [OF cons_boot_inv, of "CHR ''R''"] unfolding cons_boot_text
  by (simp add: ed_step_def ctrl_codes)

end
