(* ===== verification/File.thy ===== *)
theory File
  imports Pipe Console
begin

text \<open>
  Open files, \<open>kernel/file.c\<close>: the table of \<open>struct file\<close> with reference counts, the dispatch of
  reads and writes to pipes, devices and inodes, \<open>pipealloc\<close> of \<open>kernel/pipe.c\<close> and \<open>stati\<close> of
  \<open>kernel/fs.c\<close>.  The device switch has the one entry that \<open>consoleinit\<close> installs.
\<close>

definition CONSOLE :: int where "CONSOLE = 1"

definition upd_file :: "nat \<Rightarrow> (openfile \<Rightarrow> openfile) \<Rightarrow> kernel \<Rightarrow> kernel" where
  "upd_file f g k = k\<lparr>k_ftable := (k_ftable k)[f := g (k_ftable k ! f)]\<rparr>"

section \<open>References\<close>

fun file_scan :: "openfile list \<Rightarrow> nat option" where
  "file_scan [] = None"
| "file_scan (f # fs) = (if f_ref f = 0 then Some 0 else map_option Suc (file_scan fs))"

definition filealloc :: "kernel \<Rightarrow> nat option \<times> kernel" where
  "filealloc k =
     (case file_scan (k_ftable k) of
        None \<Rightarrow> (None, k)
      | Some f \<Rightarrow> (Some f, upd_file f (\<lambda>x. x\<lparr>f_ref := 1\<rparr>) k))"

definition filedup :: "nat \<Rightarrow> kernel \<Rightarrow> kernel option" where
  "filedup f k =
     (if f_ref (k_ftable k ! f) < 1 then panic ''filedup''
      else Some (upd_file f (\<lambda>x. x\<lparr>f_ref := f_ref x + 1\<rparr>) k))"

definition fileclose :: "nat \<Rightarrow> kernel \<Rightarrow> kernel option" where
  "fileclose f k =
     (if f_ref (k_ftable k ! f) < 1 then panic ''fileclose''
      else if f_ref (k_ftable k ! f) - 1 > 0
      then Some (upd_file f (\<lambda>x. x\<lparr>f_ref := f_ref x - 1\<rparr>) k)
      else
        let ff = k_ftable k ! f;
            k = upd_file f (\<lambda>x. x\<lparr>f_ref := 0, f_type := FD_NONE\<rparr>) k
        in if f_type ff = FD_PIPE then pipeclose (f_pipe ff) (f_writable ff) k
           else if f_type ff = FD_INODE \<or> f_type ff = FD_DEVICE
           then do {
             ip \<leftarrow> f_ip ff;
             k \<leftarrow> begin_op k;
             k \<leftarrow> iput ip k;
             end_op k }
           else Some k)"

section \<open>Pipes as files\<close>

definition pipe_bad :: "u64 \<Rightarrow> nat option \<Rightarrow> nat option \<Rightarrow> kernel \<Rightarrow> ((nat \<times> nat) option \<times> kernel) option" where
  "pipe_bad pi f0 f1 k =
     do {
       k \<leftarrow> (if pi \<noteq> 0 then kfree pi k else Some k);
       k \<leftarrow> (case f0 of None \<Rightarrow> Some k | Some f \<Rightarrow> fileclose f k);
       k \<leftarrow> (case f1 of None \<Rightarrow> Some k | Some f \<Rightarrow> fileclose f k);
       Some (None, k) }"

text \<open>\<open>kalloc\<close> fills the page with 5, and \<open>pipealloc\<close> leaves the data bytes as they are.\<close>

definition pipealloc :: "kernel \<Rightarrow> ((nat \<times> nat) option \<times> kernel) option" where
  "pipealloc k =
     (case filealloc k of
        (None, k) \<Rightarrow> pipe_bad 0 None None k
      | (Some f0, k) \<Rightarrow>
          (case filealloc k of
             (None, k) \<Rightarrow> pipe_bad 0 (Some f0) None k
           | (Some f1, k) \<Rightarrow>
               let (pi, k) = kalloc k
               in if pi = 0 then pipe_bad 0 (Some f0) (Some f1) k
                  else
                    let k = upd_pipe pi \<lparr>pp_data = replicate PIPESIZE (CHR 0x05), pp_nread = 0, pp_nwrite = 0,
                                        pp_readopen = True, pp_writeopen = True\<rparr> k;
                        k = upd_file f0 (\<lambda>x. x\<lparr>f_type := FD_PIPE, f_readable := True, f_writable := False, f_pipe := pi\<rparr>) k;
                        k = upd_file f1 (\<lambda>x. x\<lparr>f_type := FD_PIPE, f_readable := False, f_writable := True, f_pipe := pi\<rparr>) k
                    in Some (Some (f0, f1), k)))"

section \<open>Metadata\<close>

text \<open>
  The 24 bytes of a \<open>struct stat\<close>: \<open>dev\<close>, \<open>ino\<close>, \<open>type\<close>, \<open>nlink\<close>, four bytes of padding and \<open>size\<close>.
  The padding is whatever the kernel stack held; it is shown here as zeros.
\<close>

definition stati :: "inode \<Rightarrow> char list" where
  "stati i = le_bytes 4 (unat (i_dev i)) @ le_bytes 4 (unat (i_inum i)) @
     le_bytes 2 (nat (i_type i mod 2 ^ 16)) @ le_bytes 2 (nat (i_nlink i mod 2 ^ 16)) @
     replicate 4 NUL @ le_bytes 8 (unat (i_size i))"

definition filestat :: "nat \<Rightarrow> u64 \<Rightarrow> kernel \<Rightarrow> (int \<times> kernel) option" where
  "filestat f addr k =
     (if f_type (k_ftable k ! f) = FD_INODE \<or> f_type (k_ftable k ! f) = FD_DEVICE
      then do {
        p \<leftarrow> k_cur k;
        ip \<leftarrow> f_ip (k_ftable k ! f);
        k \<leftarrow> ilock ip k;
        let st = stati (k_itable k ! ip);
        k \<leftarrow> iunlock ip k;
        (r, k) \<leftarrow> copyout (p_pagetable (k_procs k ! p)) addr st 24 k;
        Some (if r < 0 then - 1 else 0, k) }
      else Some (- 1, k))"

section \<open>Reading and writing\<close>

text \<open>What a call that went to sleep inside a read or a write was waiting for.\<close>

datatype io_wait =
    Wait_pipe_read
  | Wait_pipe_write nat nat
  | Wait_console "u64 option" nat string

fun to_io :: "('a \<Rightarrow> int) \<Rightarrow> ('b \<Rightarrow> io_wait) \<Rightarrow> (('a, 'b) blocking \<times> kernel) \<Rightarrow> ((int, io_wait) blocking \<times> kernel)" where
  "to_io f w (Done a, k) = (Done (f a), k)"
| "to_io f w (Sleep b, k) = (Sleep (w b), k)"

definition fileread :: "nat \<Rightarrow> u64 \<Rightarrow> int \<Rightarrow> kernel \<Rightarrow> ((int, io_wait) blocking \<times> kernel) option" where
  "fileread f addr n k =
     (let ff = k_ftable k ! f
      in if \<not> f_readable ff then Some (Done (- 1), k)
         else case f_type ff of
           FD_PIPE \<Rightarrow> map_option (to_io id (\<lambda>_. Wait_pipe_read)) (piperead (f_pipe ff) addr n k)
         | FD_DEVICE \<Rightarrow>
             if f_major ff < 0 \<or> f_major ff \<ge> NDEV \<or> f_major ff \<noteq> CONSOLE then Some (Done (- 1), k)
             else map_option (to_io fst (\<lambda>(d, m, s). Wait_console d m s)) (consoleread (Some addr) n k)
         | FD_INODE \<Rightarrow> do {
             ip \<leftarrow> f_ip ff;
             k \<leftarrow> ilock ip k;
             (r, _, k) \<leftarrow> readi ip (Some addr) (f_off ff) (of_int n) k;
             let k = (if r > 0 then upd_file f (\<lambda>x. x\<lparr>f_off := f_off x + of_int r\<rparr>) k else k);
             k \<leftarrow> iunlock ip k;
             Some (Done r, k) }
         | FD_NONE \<Rightarrow> panic ''fileread'')"

text \<open>Writes to an inode go in pieces of at most \<open>((MAXOPBLOCKS-1-1-2)/2)*BSIZE\<close> bytes, one transaction each.\<close>

definition write_max :: int where
  "write_max = (int MAXOPBLOCKS - 1 - 1 - 2) div 2 * int BSIZE"

function filewrite_loop :: "nat \<Rightarrow> nat \<Rightarrow> u64 \<Rightarrow> int \<Rightarrow> int \<Rightarrow> kernel \<Rightarrow> (int \<times> kernel) option" where
  "filewrite_loop f ip addr i n k =
     (if \<not> i < n then Some (i, k)
      else
        let n1 = (if n - i > write_max then write_max else n - i)
        in case begin_op k of
             None \<Rightarrow> None
           | Some k1 \<Rightarrow>
               (case ilock ip k1 of
                  None \<Rightarrow> None
                | Some k2 \<Rightarrow>
                    (case writei ip (User_src (addr + of_int i)) (f_off (k_ftable k2 ! f)) (of_int n1) k2 of
                       None \<Rightarrow> None
                     | Some (r, k3) \<Rightarrow>
                         let k4 = (if r > 0 then upd_file f (\<lambda>x. x\<lparr>f_off := f_off x + of_int r\<rparr>) k3 else k3)
                         in case iunlock ip k4 of
                              None \<Rightarrow> None
                            | Some k5 \<Rightarrow>
                                (case end_op k5 of
                                   None \<Rightarrow> None
                                 | Some k6 \<Rightarrow>
                                     if r \<noteq> n1 then Some (i, k6) else filewrite_loop f ip addr (i + n1) n k6))))"
  by pat_completeness auto
termination
  by (relation "measure (\<lambda>(f, ip, addr, i, n, k). nat (n - i))")
    (auto simp: write_max_def MAXOPBLOCKS_def BSIZE_def split: if_splits)

declare filewrite_loop.simps [simp del]

definition filewrite :: "nat \<Rightarrow> u64 \<Rightarrow> int \<Rightarrow> kernel \<Rightarrow> ((int, io_wait) blocking \<times> kernel) option" where
  "filewrite f addr n k =
     (let ff = k_ftable k ! f
      in if \<not> f_writable ff then Some (Done (- 1), k)
         else case f_type ff of
           FD_PIPE \<Rightarrow> map_option (to_io id (\<lambda>(i, m). Wait_pipe_write i m)) (pipewrite (f_pipe ff) addr n k)
         | FD_DEVICE \<Rightarrow>
             if f_major ff < 0 \<or> f_major ff \<ge> NDEV \<or> f_major ff \<noteq> CONSOLE then Some (Done (- 1), k)
             else do { (r, k) \<leftarrow> consolewrite (User_src addr) n k; Some (Done r, k) }
         | FD_INODE \<Rightarrow> do {
             ip \<leftarrow> f_ip ff;
             (i, k) \<leftarrow> filewrite_loop f ip addr 0 n k;
             Some (Done (if i = n then n else - 1), k) }
         | FD_NONE \<Rightarrow> panic ''filewrite'')"

end
