(* ===== verification/Refs.thy ===== *)
theory Refs
  imports File
begin

text \<open>
  Reference counting of the two shared tables: \<open>struct file\<close> (\<open>filealloc\<close>, \<open>filedup\<close>,
  \<open>fileclose\<close>) and the in-memory inodes (\<open>iget\<close>, \<open>idup\<close>, \<open>iput\<close>).  Both follow one contract, the
  locale \<open>ref_table\<close>: obtaining, duplicating and dropping a handle change the count of exactly
  that handle by one.  From it, the count of every slot is the number of live handles, whatever
  the clients do.
\<close>

section \<open>The interface\<close>

datatype 'a ref_op = RGet 'a | RDup nat | RDrop nat

locale ref_table =
  fixes refs :: "'s \<Rightarrow> nat \<Rightarrow> int" and get :: "'a \<Rightarrow> 's \<Rightarrow> (nat \<times> 's) option"
    and dup :: "nat \<Rightarrow> 's \<Rightarrow> 's option" and drp :: "nat \<Rightarrow> 's \<Rightarrow> 's option" and inv :: "'s \<Rightarrow> bool"
  assumes get_refs: "inv s \<Longrightarrow> get a s = Some (h, s') \<Longrightarrow> refs s' = (refs s)(h := refs s h + 1) \<and> inv s'"
    and dup_refs: "inv s \<Longrightarrow> refs s h > 0 \<Longrightarrow> dup h s = Some s' \<Longrightarrow> refs s' = (refs s)(h := refs s h + 1) \<and> inv s'"
    and drp_refs: "inv s \<Longrightarrow> refs s h > 0 \<Longrightarrow> drp h s = Some s' \<Longrightarrow> refs s' = (refs s)(h := refs s h - 1) \<and> inv s'"
begin

text \<open>A history of clients that only use handles they hold: the state and the handles held.\<close>

fun run :: "'a ref_op list \<Rightarrow> 's \<Rightarrow> nat list \<Rightarrow> ('s \<times> nat list) option" where
  "run [] s hs = Some (s, hs)"
| "run (RGet a # ops) s hs = do { (h, s) \<leftarrow> get a s; run ops s (h # hs) }"
| "run (RDup h # ops) s hs = (if h \<in> set hs then do { s \<leftarrow> dup h s; run ops s (h # hs) } else None)"
| "run (RDrop h # ops) s hs = (if h \<in> set hs then do { s \<leftarrow> drp h s; run ops s (remove1 h hs) } else None)"

lemma count_remove1: "h \<in> set hs \<Longrightarrow> int (count_list (remove1 h hs) x) = int (count_list hs x) - (if x = h then 1 else 0)"
  by (induction hs) (auto simp: count_list_0_iff)

lemma held_positive: "refs s = (\<lambda>h. int (count_list hs h)) \<Longrightarrow> h \<in> set hs \<Longrightarrow> refs s h > 0"
  by (simp add: count_list_0_iff flip: neq0_conv)

lemma run_exact:
  assumes "inv s" "refs s = (\<lambda>h. int (count_list hs h))" "run ops s hs = Some (s', hs')"
  shows "refs s' = (\<lambda>h. int (count_list hs' h)) \<and> inv s'"
  using assms
proof (induction ops arbitrary: s hs)
  case Nil
  then show ?case by simp
next
  case (Cons x ops)
  show ?case
  proof (cases x)
    case (RGet a)
    then obtain h s1 where g: "get a s = Some (h, s1)" "run ops s1 (h # hs) = Some (s', hs')"
      using Cons.prems(3) by (auto split: bind_splits)
    note r = get_refs [OF Cons.prems(1) g(1)]
    have "refs s1 = (\<lambda>x. int (count_list (h # hs) x))" using r Cons.prems(2) by (auto simp: fun_eq_iff)
    then show ?thesis using Cons.IH [OF _ _ g(2)] r by blast
  next
    case (RDup h)
    then obtain s1 where g: "h \<in> set hs" "dup h s = Some s1" "run ops s1 (h # hs) = Some (s', hs')"
      using Cons.prems(3) by (auto split: bind_splits if_splits)
    note r = dup_refs [OF Cons.prems(1) held_positive [OF Cons.prems(2) g(1)] g(2)]
    have "refs s1 = (\<lambda>x. int (count_list (h # hs) x))" using r Cons.prems(2) by (auto simp: fun_eq_iff)
    then show ?thesis using Cons.IH [OF _ _ g(3)] r by blast
  next
    case (RDrop h)
    then obtain s1 where g: "h \<in> set hs" "drp h s = Some s1" "run ops s1 (remove1 h hs) = Some (s', hs')"
      using Cons.prems(3) by (auto split: bind_splits if_splits)
    note r = drp_refs [OF Cons.prems(1) held_positive [OF Cons.prems(2) g(1)] g(2)]
    have "refs s1 = (\<lambda>x. int (count_list (remove1 h hs) x))"
      using r Cons.prems(2) count_remove1 [OF g(1)] by (auto simp: fun_eq_iff)
    then show ?thesis using Cons.IH [OF _ _ g(3)] r by blast
  qed
qed

end

section \<open>Open files\<close>

definition file_refs :: "kernel \<Rightarrow> nat \<Rightarrow> int" where
  "file_refs k f = (if f < length (k_ftable k) then f_ref (k_ftable k ! f) else 0)"

definition file_get :: "unit \<Rightarrow> kernel \<Rightarrow> (nat \<times> kernel) option" where
  "file_get u k = (case filealloc k of (None, _) \<Rightarrow> None | (Some f, k) \<Rightarrow> Some (f, k))"

lemma file_scan_some: "file_scan fs = Some f \<Longrightarrow> f < length fs \<and> f_ref (fs ! f) = 0"
  by (induction fs arbitrary: f) (auto split: if_splits)

lemma file_refs_upd:
  "f < length (k_ftable k) \<Longrightarrow> file_refs (upd_file f g k) = (file_refs k)(f := f_ref (g (k_ftable k ! f)))"
  by (auto simp: file_refs_def upd_file_def fun_eq_iff)

lemma file_refs_cong: "k_ftable k' = k_ftable k \<Longrightarrow> file_refs k' = file_refs k"
  by (simp add: file_refs_def fun_eq_iff)

lemma pipeclose_ftable: "pipeclose pi w k = Some k' \<Longrightarrow> k_ftable k' = k_ftable k"
proof -
  have w: "k_ftable (wakeup c k1) = k_ftable k1" "k_ftable (upd_pipe pi pp k1) = k_ftable k1" for c k1 pp
    by (simp_all add: wakeup_def upd_pipe_def)
  show "pipeclose pi w k = Some k' \<Longrightarrow> k_ftable k' = k_ftable k"
    by (auto simp: pipeclose_def Let_def w split: if_splits bind_splits dest!: kfree_ap agent_partD(12))
qed

lemma fileclose_ftable:
  assumes "fileclose f k = Some k'" "f < length (k_ftable k)"
  shows "file_refs k' = (file_refs k)(f := file_refs k f - 1)" "file_refs k f \<ge> 1"
proof -
  let ?r = "f_ref (k_ftable k ! f)"
  have r: "?r \<ge> 1" using assms(1) by (auto simp: fileclose_def panic_simps split: if_splits)
  then show "file_refs k f \<ge> 1" using assms(2) by (simp add: file_refs_def)
  show "file_refs k' = (file_refs k)(f := file_refs k f - 1)"
  proof (cases "?r - 1 > 0")
    case True
    then show ?thesis using assms r by (auto simp: fileclose_def file_refs_upd) (simp add: file_refs_def)
  next
    case False
    let ?k = "upd_file f (\<lambda>x. x\<lparr>f_ref := 0, f_type := FD_NONE\<rparr>) k"
    have "k_ftable k' = k_ftable ?k"
      using assms r False
      by (auto simp: fileclose_def Let_def split: if_splits bind_splits
          dest!: pipeclose_ftable begin_op_ap iput_ap end_op_ap agent_partD(12))
    then have "file_refs k' = file_refs ?k" by (rule file_refs_cong)
    then show ?thesis using assms(2) r False by (simp add: file_refs_upd) (simp add: file_refs_def)
  qed
qed

interpretation files: ref_table file_refs file_get filedup fileclose "\<lambda>k. True"
proof
  fix k k' f u
  show "file_get u k = Some (f, k') \<Longrightarrow> file_refs k' = (file_refs k)(f := file_refs k f + 1) \<and> True"
    by (auto simp: file_get_def filealloc_def file_refs_upd file_refs_def dest!: file_scan_some split: option.splits)
  show "file_refs k f > 0 \<Longrightarrow> filedup f k = Some k' \<Longrightarrow> file_refs k' = (file_refs k)(f := file_refs k f + 1) \<and> True"
    by (auto simp: filedup_def file_refs_upd file_refs_def panic_simps split: if_splits)
  show "file_refs k f > 0 \<Longrightarrow> fileclose f k = Some k' \<Longrightarrow> file_refs k' = (file_refs k)(f := file_refs k f - 1) \<and> True"
    using fileclose_ftable by (auto simp: file_refs_def split: if_splits)
qed

section \<open>In-memory inodes\<close>

definition ino_refs :: "kernel \<Rightarrow> nat \<Rightarrow> int" where
  "ino_refs k i = (if i < length (k_itable k) then i_ref (k_itable k ! i) else 0)"

text \<open>No reference count is negative, and an inode has at most one referenced in-memory copy.\<close>

definition itable_inv :: "kernel \<Rightarrow> bool" where
  "itable_inv k \<longleftrightarrow> (\<forall>i. ino_refs k i \<ge> 0) \<and>
     (\<forall>i j. i < length (k_itable k) \<longrightarrow> j < length (k_itable k) \<longrightarrow> ino_refs k i > 0 \<longrightarrow> ino_refs k j > 0 \<longrightarrow>
        i_dev (k_itable k ! i) = i_dev (k_itable k ! j) \<longrightarrow> i_inum (k_itable k ! i) = i_inum (k_itable k ! j) \<longrightarrow> i = j)"

definition ino_ids :: "kernel \<Rightarrow> (int \<times> u32 \<times> u32) list" where
  "ino_ids k = map (\<lambda>i. (i_ref i, i_dev i, i_inum i)) (k_itable k)"

lemma ino_ids_nth: "i < length (k_itable k) \<Longrightarrow> ino_ids k ! i = (ino_refs k i, i_dev (k_itable k ! i), i_inum (k_itable k ! i))"
  by (simp add: ino_ids_def ino_refs_def)

lemma length_ino_ids [simp]: "length (ino_ids k) = length (k_itable k)"
  by (simp add: ino_ids_def)

lemma ino_ids_upd [simp]:
  assumes "\<And>d. i_ref (f d) = i_ref d" "\<And>d. i_dev (f d) = i_dev d" "\<And>d. i_inum (f d) = i_inum d"
  shows "ino_ids (upd_ino i f k) = ino_ids k"
  using assms by (intro nth_equalityI) (auto simp: ino_ids_def upd_ino_def nth_list_update)

lemma ino_ids_log_write: "log_write b k = Some k' \<Longrightarrow> k_itable k' = k_itable k"
  by (auto simp: log_write_def Let_def panic_simps split: if_splits)

lemma ino_ids_put_block: "put_block b bs k = Some k' \<Longrightarrow> k_itable k' = k_itable k"
  by (auto simp: put_block_def set_block_def dest!: ino_ids_log_write)

lemma ino_ids_bfree: "bfree b k = Some k' \<Longrightarrow> k_itable k' = k_itable k"
  by (auto simp: bfree_def Let_def panic_simps split: if_splits dest!: ino_ids_put_block)

lemma ino_ids_iupdate: "iupdate ip k = Some k' \<Longrightarrow> k_itable k' = k_itable k"
  by (auto simp: iupdate_def Let_def dest!: ino_ids_put_block)

lemma ino_ids_cong: "k_itable k' = k_itable k \<Longrightarrow> ino_ids k' = ino_ids k"
  by (simp add: ino_ids_def)

lemma ino_ids_free_blocks: "free_blocks as k = Some k' \<Longrightarrow> k_itable k' = k_itable k"
  by (induction as arbitrary: k) (auto split: if_splits bind_splits dest!: ino_ids_bfree)

lemma ino_ids_trunc_direct: "trunc_direct is ip k = Some k' \<Longrightarrow> ino_ids k' = ino_ids k"
proof (induction "is" arbitrary: k)
  case (Cons i "is")
  then show ?case
    by (auto simp: Let_def split: if_splits bind_splits dest!: ino_ids_bfree [THEN ino_ids_cong])
qed simp

lemma ino_ids_itrunc: "itrunc ip k = Some k' \<Longrightarrow> ino_ids k' = ino_ids k"
  by (auto simp: itrunc_def Let_def split: if_splits bind_splits
      dest!: ino_ids_trunc_direct ino_ids_free_blocks [THEN ino_ids_cong] ino_ids_bfree [THEN ino_ids_cong]
        ino_ids_iupdate [THEN ino_ids_cong])

lemma ino_refs_ids:
  assumes "ino_ids k' = (ino_ids k)[h := (r, d, n)]" "h < length (k_itable k)"
  shows "ino_refs k' = (ino_refs k)(h := r)" "length (k_itable k') = length (k_itable k)"
    "i < length (k_itable k) \<Longrightarrow> i_dev (k_itable k' ! i) = (if i = h then d else i_dev (k_itable k ! i))"
    "i < length (k_itable k) \<Longrightarrow> i_inum (k_itable k' ! i) = (if i = h then n else i_inum (k_itable k ! i))"
proof -
  show len: "length (k_itable k') = length (k_itable k)" using arg_cong [OF assms(1), of length] by simp
  have nth: "(ino_refs k' i, i_dev (k_itable k' ! i), i_inum (k_itable k' ! i)) =
      (if i = h then (r, d, n) else (ino_refs k i, i_dev (k_itable k ! i), i_inum (k_itable k ! i)))"
    if "i < length (k_itable k)" for i
    using arg_cong [OF assms(1), of "\<lambda>l. l ! i"] that len by (simp add: ino_ids_nth split: if_splits)
  show "ino_refs k' = (ino_refs k)(h := r)"
  proof
    fix i
    show "ino_refs k' i = ((ino_refs k)(h := r)) i"
      using nth [of i] len assms(2) by (cases "i < length (k_itable k)") (auto simp: ino_refs_def split: if_splits)
  qed
  show "i < length (k_itable k) \<Longrightarrow> i_dev (k_itable k' ! i) = (if i = h then d else i_dev (k_itable k ! i))"
    "i < length (k_itable k) \<Longrightarrow> i_inum (k_itable k' ! i) = (if i = h then n else i_inum (k_itable k ! i))"
    using nth [of i] by (auto split: if_splits)
qed

text \<open>A change of one count keeps the invariant, as long as a slot in use keeps its identity.\<close>

lemma itable_inv_step:
  assumes "itable_inv k" "ino_ids k' = (ino_ids k)[h := (r, d, n)]" "h < length (k_itable k)" "0 \<le> r"
    and "\<And>i. i < length (k_itable k) \<Longrightarrow> i \<noteq> h \<Longrightarrow> 0 < r \<Longrightarrow> ino_refs k i > 0 \<Longrightarrow>
      (i_dev (k_itable k ! i), i_inum (k_itable k ! i)) \<noteq> (d, n)"
  shows "itable_inv k'" "ino_refs k' = (ino_refs k)(h := r)"
proof -
  note f = ino_refs_ids [OF assms(2,3)]
  show "ino_refs k' = (ino_refs k)(h := r)" by (rule f(1))
  show "itable_inv k'"
    using assms(1,4) assms(5) unfolding itable_inv_def f(1,2)
    by (auto simp: f(3,4))
qed

lemma ino_ids_upd_at:
  assumes "h < length (k_itable k)"
  shows "ino_ids (upd_ino h f k) = (ino_ids k)[h := (\<lambda>d. (i_ref d, i_dev d, i_inum d)) (f (k_itable k ! h))]"
  using assms by (simp add: ino_ids_def upd_ino_def map_update)

lemma iget_scan_cases:
  "case iget_scan xs n dev inum slot of
     Inl j \<Rightarrow> n \<le> j \<and> j < n + length xs \<and> i_ref (xs ! (j - n)) > 0 \<and> i_dev (xs ! (j - n)) = dev \<and> i_inum (xs ! (j - n)) = inum
   | Inr r \<Rightarrow> (\<forall>i \<in> set xs. \<not> (i_ref i > 0 \<and> i_dev i = dev \<and> i_inum i = inum)) \<and>
       (case r of None \<Rightarrow> True | Some j \<Rightarrow> slot = Some j \<or> (n \<le> j \<and> j < n + length xs \<and> i_ref (xs ! (j - n)) = 0))"
proof (induction xs arbitrary: n slot)
  case (Cons i xs)
  show ?case
  proof (cases "i_ref i > 0 \<and> i_dev i = dev \<and> i_inum i = inum")
    case False
    let ?s = "if slot = None \<and> i_ref i = 0 then Some n else slot"
    have step: "iget_scan (i # xs) n dev inum slot = iget_scan xs (Suc n) dev inum ?s" using False by auto
    have nth: "(i # xs) ! (j - n) = xs ! (j - Suc n)" if "Suc n \<le> j" for j
      using that by (simp add: Suc_diff_le [symmetric] nth_Cons')
    show ?thesis
      unfolding step using Cons.IH [of "Suc n" ?s] False nth
      by (auto split: sum.splits option.splits if_splits)
  qed simp
qed (simp split: option.splits)

lemma iget_spec:
  assumes "itable_inv k" "iget dev inum k = Some (ip, k')"
  shows "ip < length (k_itable k)" "itable_inv k'" "ino_refs k' = (ino_refs k)(ip := ino_refs k ip + 1)"
    "i_dev (k_itable k' ! ip) = dev" "i_inum (k_itable k' ! ip) = inum"
proof -
  note sc = iget_scan_cases [where xs = "k_itable k" and n = 0 and dev = dev and inum = inum and slot = None]
  have "ip < length (k_itable k) \<and> itable_inv k' \<and> ino_refs k' = (ino_refs k)(ip := ino_refs k ip + 1) \<and>
      i_dev (k_itable k' ! ip) = dev \<and> i_inum (k_itable k' ! ip) = inum"
  proof (cases "iget_scan (k_itable k) 0 dev inum None")
    case (Inl j)
    then have j: "j = ip" "k' = upd_ino ip (\<lambda>i. i\<lparr>i_ref := i_ref i + 1\<rparr>) k"
      using assms(2) by (auto simp: iget_def)
    have h: "ip < length (k_itable k)" "i_ref (k_itable k ! ip) > 0" "i_dev (k_itable k ! ip) = dev" "i_inum (k_itable k ! ip) = inum"
      using sc Inl j(1) by auto
    have ids: "ino_ids k' = (ino_ids k)[ip := (ino_refs k ip + 1, dev, inum)]"
      unfolding j(2) using ino_ids_upd_at [OF h(1)] h by (simp add: ino_refs_def)
    have "itable_inv k'" "ino_refs k' = (ino_refs k)(ip := ino_refs k ip + 1)"
      using assms(1) h by (auto intro!: itable_inv_step [OF assms(1) ids h(1)]) (auto simp: itable_inv_def ino_refs_def)
    then show ?thesis using h ino_refs_ids(3,4) [OF ids h(1) h(1)] by simp
  next
    case (Inr r)
    then obtain j where j: "r = Some ip" "k' = upd_ino ip (\<lambda>i. i\<lparr>i_dev := dev, i_inum := inum, i_ref := 1, i_valid := False\<rparr>) k"
      using assms(2) by (cases r) (auto simp: iget_def panic_simps)
    have h: "ip < length (k_itable k)" "i_ref (k_itable k ! ip) = 0"
      "\<forall>i \<in> set (k_itable k). \<not> (i_ref i > 0 \<and> i_dev i = dev \<and> i_inum i = inum)"
      using sc Inr j(1) by auto
    have z: "ino_refs k ip + 1 = 1" using h by (simp add: ino_refs_def)
    have ids: "ino_ids k' = (ino_ids k)[ip := (ino_refs k ip + 1, dev, inum)]"
      unfolding j(2) z using ino_ids_upd_at [OF h(1)] by simp
    have "(i_dev (k_itable k ! i), i_inum (k_itable k ! i)) \<noteq> (dev, inum)"
      if "i < length (k_itable k)" "ino_refs k i > 0" for i
      using h(3) that by (auto simp: ino_refs_def)
    then have "itable_inv k'" "ino_refs k' = (ino_refs k)(ip := ino_refs k ip + 1)"
      using itable_inv_step [OF assms(1) ids h(1)] z by auto
    then show ?thesis using h ino_refs_ids(3,4) [OF ids h(1) h(1)] by simp
  qed
  then show "ip < length (k_itable k)" "itable_inv k'" "ino_refs k' = (ino_refs k)(ip := ino_refs k ip + 1)"
    "i_dev (k_itable k' ! ip) = dev" "i_inum (k_itable k' ! ip) = inum" by auto
qed

lemma iput_ids:
  assumes "iput ip k = Some k'" "ip < length (k_itable k)"
  shows "ino_ids k' = (ino_ids k)[ip := (ino_refs k ip - 1, i_dev (k_itable k ! ip), i_inum (k_itable k ! ip))]"
proof -
  have "\<exists>k1. k' = upd_ino ip (\<lambda>d. d\<lparr>i_ref := i_ref d - 1\<rparr>) k1 \<and> ino_ids k1 = ino_ids k"
    using assms(1) by (auto simp: iput_def Let_def split: if_splits bind_splits
        dest!: ino_ids_itrunc ino_ids_iupdate [THEN ino_ids_cong] intro!: exI conjI [OF refl])
  then obtain k1 where k1: "ino_ids k1 = ino_ids k" "k' = upd_ino ip (\<lambda>d. d\<lparr>i_ref := i_ref d - 1\<rparr>) k1" by blast
  have "length (k_itable k1) = length (k_itable k)" using arg_cong [OF k1(1), of length] by simp
  then show ?thesis
    using assms(2) ino_ids_upd_at [of ip k1] ino_ids_nth [of ip k1] ino_ids_nth [of ip k] k1
    by (simp add: ino_refs_def)
qed

lemma positive_ref_in_range: "ino_refs k i > 0 \<Longrightarrow> i < length (k_itable k)"
  by (simp add: ino_refs_def split: if_splits)

lemma itable_inv_same_id:
  assumes "itable_inv k" "ino_refs k h > 0" "0 \<le> r"
    "ino_ids k' = (ino_ids k)[h := (r, i_dev (k_itable k ! h), i_inum (k_itable k ! h))]"
  shows "ino_refs k' = (ino_refs k)(h := r) \<and> itable_inv k'"
proof -
  note h = positive_ref_in_range [OF assms(2)]
  have "(i_dev (k_itable k ! i), i_inum (k_itable k ! i)) \<noteq> (i_dev (k_itable k ! h), i_inum (k_itable k ! h))"
    if "i < length (k_itable k)" "i \<noteq> h" "ino_refs k i > 0" for i
    using assms(1,2) h that unfolding itable_inv_def by blast
  then show ?thesis using itable_inv_step [OF assms(1,4) h assms(3)] by blast
qed

definition ino_get :: "u32 \<times> u32 \<Rightarrow> kernel \<Rightarrow> (nat \<times> kernel) option" where
  "ino_get di k = iget (fst di) (snd di) k"

definition ino_dup :: "nat \<Rightarrow> kernel \<Rightarrow> kernel option" where
  "ino_dup ip k = Some (snd (idup ip k))"

interpretation inodes: ref_table ino_refs ino_get ino_dup iput itable_inv
proof
  fix k k' ip and a :: "u32 \<times> u32"
  assume inv: "itable_inv k"
  show "ino_get a k = Some (ip, k') \<Longrightarrow> ino_refs k' = (ino_refs k)(ip := ino_refs k ip + 1) \<and> itable_inv k'"
    using iget_spec [OF inv] unfolding ino_get_def by blast
  assume pos: "ino_refs k ip > 0"
  note h = positive_ref_in_range [OF pos]
  have p: "i_ref (k_itable k ! ip) = ino_refs k ip" using h by (simp add: ino_refs_def)
  show "ino_refs k' = (ino_refs k)(ip := ino_refs k ip + 1) \<and> itable_inv k'" if "ino_dup ip k = Some k'"
  proof (rule itable_inv_same_id [OF inv pos])
    show "ino_ids k' = (ino_ids k)[ip := (ino_refs k ip + 1, i_dev (k_itable k ! ip), i_inum (k_itable k ! ip))]"
      using that ino_ids_upd_at [OF h] p by (auto simp: ino_dup_def idup_def)
  qed (use pos in simp)
  show "ino_refs k' = (ino_refs k)(ip := ino_refs k ip - 1) \<and> itable_inv k'" if "iput ip k = Some k'"
    using itable_inv_same_id [OF inv pos _ iput_ids [OF that h]] pos by simp
qed

section \<open>Properties\<close>

text \<open>
  C30: reference counts are exact.  Starting from tables whose counts equal the handles held,
  and for every history in which clients open, duplicate and close files (respectively look up,
  duplicate and put inodes) through handles they hold, each slot's count is at the end exactly
  the number of handles held on it, and an inode never has two referenced in-memory copies.
  A slot that \<open>filealloc\<close> hands out was not referenced by anyone.
\<close>

theorem reference_counts_exact:
  assumes "file_refs k = (\<lambda>h. int (count_list fs h))" "files.run ops k fs = Some (k1, fs1)"
    "itable_inv k" "ino_refs k = (\<lambda>h. int (count_list is h))" "inodes.run iops k is = Some (k2, is2)"
  shows "file_refs k1 = (\<lambda>h. int (count_list fs1 h)) \<and>
    ino_refs k2 = (\<lambda>h. int (count_list is2 h)) \<and> itable_inv k2 \<and>
    (\<forall>f k3. filealloc k1 = (Some f, k3) \<longrightarrow> f \<notin> set fs1)"
proof -
  have f: "file_refs k1 = (\<lambda>h. int (count_list fs1 h))"
    using files.run_exact [OF _ assms(1,2)] by simp
  have "f \<notin> set fs1" if "filealloc k1 = (Some f, k3)" for f k3
  proof -
    have "f < length (k_ftable k1)" "f_ref (k_ftable k1 ! f) = 0"
      using that file_scan_some [of "k_ftable k1"] by (auto simp: filealloc_def split: option.splits)
    then have "int (count_list fs1 f) = 0" using fun_cong [OF f, of f] by (simp add: file_refs_def)
    then show ?thesis by (simp add: count_list_0_iff)
  qed
  with f inodes.run_exact [OF assms(3,4,5)] show ?thesis by blast
qed

lemma boot_refs:
  "file_refs kernel_boot = (\<lambda>h. int (count_list [] h))" "ino_refs kernel_boot = (\<lambda>h. int (count_list [] h))"
  "itable_inv kernel_boot"
proof -
  show "file_refs kernel_boot = (\<lambda>h. int (count_list [] h))" and r: "ino_refs kernel_boot = (\<lambda>h. int (count_list [] h))"
    by (auto simp: fun_eq_iff file_refs_def ino_refs_def kernel_boot_def file_boot_def inode_boot_def)
  show "itable_inv kernel_boot" unfolding itable_inv_def r by simp
qed

theorem reference_counts_exact_witness:
  "\<exists>k1 fs1 k2 is2. files.run [RGet (), RDup 0] kernel_boot [] = Some (k1, fs1) \<and> fs1 = [0, 0] \<and>
     inodes.run [RGet (1, 1), RDup 0] kernel_boot [] = Some (k2, is2) \<and> is2 = [0, 0] \<and>
     file_refs k1 = (\<lambda>h. int (count_list fs1 h)) \<and> ino_refs k2 = (\<lambda>h. int (count_list is2 h))"
proof -
  have a: "file_scan (k_ftable kernel_boot) = Some 0"
    by (simp add: kernel_boot_def NFILE_def file_boot_def numeral_eq_Suc)
  have l: "0 < length (k_ftable kernel_boot)" by (simp add: kernel_boot_def NFILE_def)
  have f: "\<exists>k1. files.run [RGet (), RDup 0] kernel_boot [] = Some (k1, [0, 0])"
    using l by (simp add: file_get_def filealloc_def a filedup_def upd_file_def)
  have b: "iget_scan (k_itable kernel_boot) 0 1 1 None = Inr (Some 0)"
    by (simp add: kernel_boot_def NINODE_def inode_boot_def numeral_eq_Suc)
  have i: "\<exists>k2. inodes.run [RGet (1, 1), RDup 0] kernel_boot [] = Some (k2, [0, 0])"
    by (simp add: ino_get_def iget_def b ino_dup_def idup_def)
  from f i obtain k1 k2 where "files.run [RGet (), RDup 0] kernel_boot [] = Some (k1, [0, 0])"
    "inodes.run [RGet (1, 1), RDup 0] kernel_boot [] = Some (k2, [0, 0])" by blast
  with reference_counts_exact [OF boot_refs(1) this(1) boot_refs(3,2) this(2)] show ?thesis by blast
qed

end
