(* ===== verification/Proc.thy ===== *)
theory Proc
  imports Refs
begin

unbundle bit_operations_syntax

text \<open>
  Processes, \<open>kernel/proc.c\<close>: creation, exit and wait.  \<open>p_tf\<close> are the registers stored in the
  trapframe page, whose address is \<open>p_trapframe\<close>; a context is the saved registers of the
  process's kernel thread.  Functions that take and release \<open>p->lock\<close> and \<open>wait_lock\<close> run as one
  step; \<open>kwait\<close> sleeps between its scans of the table.
\<close>

section \<open>Allocation\<close>

definition proc_pagetable :: "nat \<Rightarrow> kernel \<Rightarrow> (u64 \<times> kernel) option" where
  "proc_pagetable p k =
     (let (pagetable, k) = uvmcreate k
      in if pagetable = 0 then Some (0, k)
         else do {
           (r, k) \<leftarrow> mappages pagetable TRAMPOLINE PGSIZE (k_trampoline k) (PTE_R OR PTE_X) k;
           if r < 0 then do { k \<leftarrow> uvmfree pagetable 0 k; Some (0, k) }
           else do {
             (r, k) \<leftarrow> mappages pagetable TRAPFRAME PGSIZE (p_trapframe (k_procs k ! p)) (PTE_R OR PTE_W) k;
             if r < 0
             then do {
               k \<leftarrow> uvmunmap pagetable TRAMPOLINE 1 False k;
               k \<leftarrow> uvmfree pagetable 0 k;
               Some (0, k) }
             else Some (pagetable, k) } })"

definition proc_freepagetable :: "u64 \<Rightarrow> u64 \<Rightarrow> kernel \<Rightarrow> kernel option" where
  "proc_freepagetable pagetable sz k =
     do {
       k \<leftarrow> uvmunmap pagetable TRAMPOLINE 1 False k;
       k \<leftarrow> uvmunmap pagetable TRAPFRAME 1 False k;
       uvmfree pagetable sz k }"

definition freeproc :: "nat \<Rightarrow> kernel \<Rightarrow> kernel option" where
  "freeproc p k =
     do {
       k \<leftarrow> (if p_trapframe (k_procs k ! p) \<noteq> 0 then kfree (p_trapframe (k_procs k ! p)) k else Some k);
       k \<leftarrow> (if p_pagetable (k_procs k ! p) \<noteq> 0
             then proc_freepagetable (p_pagetable (k_procs k ! p)) (p_sz (k_procs k ! p)) k else Some k);
       Some (upd_proc p (\<lambda>q. q\<lparr>p_trapframe := 0, p_pagetable := 0, p_sz := 0, p_pid := 0, p_parent := None,
          p_name := (p_name q)[0 := NUL], p_chan := None, p_killed := False, p_xstate := 0, p_state := UNUSED,
          p_priority := 0, p_vruntime := 0, p_creation_tick := 0, p_is_agent := False, p_jail_root := None\<rparr>) k) }"

fun proc_scan :: "proc list \<Rightarrow> nat option" where
  "proc_scan [] = None"
| "proc_scan (p # ps) = (if p_state p = UNUSED then Some 0 else map_option Suc (proc_scan ps))"

definition allocproc :: "kernel \<Rightarrow> (nat option \<times> kernel) option" where
  "allocproc k =
     (case proc_scan (k_procs k) of
        None \<Rightarrow> Some (None, k)
      | Some p \<Rightarrow>
          let (pid, k) = allocpid k;
              k = upd_proc p (\<lambda>q. q\<lparr>p_pid := pid, p_state := USED, p_priority := 10, p_vruntime := cfs_min k,
                    p_creation_tick := k_ticks k, p_is_agent := False, p_jail_root := None\<rparr>) k;
              (tf, k) = kalloc k;
              k = upd_proc p (\<lambda>q. q\<lparr>p_trapframe := tf\<rparr>) k
          in if tf = 0 then do { k \<leftarrow> freeproc p k; Some (None, k) }
             else do {
               (pt, k) \<leftarrow> proc_pagetable p k;
               let k = upd_proc p (\<lambda>q. q\<lparr>p_pagetable := pt\<rparr>) k;
               if pt = 0 then do { k \<leftarrow> freeproc p k; Some (None, k) }
               else Some (Some p, upd_proc p (\<lambda>q. q\<lparr>p_context :=
                      ((\<lambda>_. 0)(cx_ra := k_forkret k, cx_sp := p_kstack q + KSTACK_PAGES * PGSIZE))\<rparr>) k) })"

definition userinit :: "kernel \<Rightarrow> kernel option" where
  "userinit k =
     do {
       (got, k) \<leftarrow> allocproc k;
       p \<leftarrow> got;
       let k = k\<lparr>k_initproc := Some p\<rparr>;
       (cwd, k) \<leftarrow> namei ''/'' k;
       Some (upd_proc p (\<lambda>q. q\<lparr>p_cwd := cwd, p_priority := - 5, p_state := RUNNABLE\<rparr>) k) }"

definition growproc :: "int \<Rightarrow> kernel \<Rightarrow> (int \<times> kernel) option" where
  "growproc n k =
     do {
       p \<leftarrow> k_cur k;
       let sz = p_sz (k_procs k ! p);
       let pt = p_pagetable (k_procs k ! p);
       if n > 0
       then
         if sz + of_int n > TRAPFRAME then Some (- 1, k)
         else do {
           (sz, k) \<leftarrow> uvmalloc pt sz (sz + of_int n) PTE_W k;
           if sz = 0 then Some (- 1, k) else Some (0, upd_proc p (\<lambda>q. q\<lparr>p_sz := sz\<rparr>) k) }
       else if n < 0
       then do {
         (sz, k) \<leftarrow> uvmdealloc pt sz (sz + of_int n) k;
         Some (0, upd_proc p (\<lambda>q. q\<lparr>p_sz := sz\<rparr>) k) }
       else Some (0, upd_proc p (\<lambda>q. q\<lparr>p_sz := sz\<rparr>) k) }"

section \<open>Fork\<close>

fun dup_files :: "nat list \<Rightarrow> nat \<Rightarrow> nat \<Rightarrow> kernel \<Rightarrow> kernel option" where
  "dup_files [] p np k = Some k"
| "dup_files (i # is) p np k =
     (case p_ofile (k_procs k ! p) ! i of
        None \<Rightarrow> dup_files is p np k
      | Some f \<Rightarrow> do {
          k \<leftarrow> filedup f k;
          dup_files is p np (upd_proc np (\<lambda>q. q\<lparr>p_ofile := (p_ofile q)[i := Some f]\<rparr>) k) })"

definition kfork :: "kernel \<Rightarrow> (int \<times> kernel) option" where
  "kfork k =
     do {
       p \<leftarrow> k_cur k;
       (got, k) \<leftarrow> allocproc k;
       case got of
         None \<Rightarrow> Some (- 1, k)
       | Some np \<Rightarrow> do {
           (r, k) \<leftarrow> uvmcopy (p_pagetable (k_procs k ! p)) (p_pagetable (k_procs k ! np)) (p_sz (k_procs k ! p)) k;
           if r < 0 then do { k \<leftarrow> freeproc np k; Some (- 1, k) }
           else do {
             let k = upd_proc np (\<lambda>q. q\<lparr>p_sz := p_sz (k_procs k ! p), p_tf := (p_tf (k_procs k ! p))(tf_a0 := 0)\<rparr>) k;
             k \<leftarrow> dup_files [0..<NOFILE] p np k;
             cwd \<leftarrow> p_cwd (k_procs k ! p);
             let (cwd, k) = idup cwd k;
             let par = k_procs k ! p;
             let k = upd_proc np (\<lambda>q. q\<lparr>p_cwd := Some cwd, p_name := safestrcpy (p_name q) (p_name par) 16,
                       p_priority := (if p_priority par < 0 then 10 else p_priority par),
                       p_vruntime := p_vruntime par, p_is_agent := p_is_agent par\<rparr>) k;
             let k = (case p_jail_root par of
                        None \<Rightarrow> k
                      | Some j \<Rightarrow> let (j, k) = idup j k in upd_proc np (\<lambda>q. q\<lparr>p_jail_root := Some j\<rparr>) k);
             let pid = p_pid (k_procs k ! np);
             Some (pid, upd_proc np (\<lambda>q. q\<lparr>p_parent := Some p, p_state := RUNNABLE\<rparr>) k) } } }"

section \<open>Exit and wait\<close>

definition wakeup_proc :: "nat option \<Rightarrow> kernel \<Rightarrow> kernel" where
  "wakeup_proc p k = (case p of None \<Rightarrow> k | Some i \<Rightarrow> wakeup (Ch_proc i) k)"

definition reparent :: "nat \<Rightarrow> kernel \<Rightarrow> kernel" where
  "reparent p k =
     fold (\<lambda>i k. if p_parent (k_procs k ! i) = Some p
                 then wakeup_proc (k_initproc k) (upd_proc i (\<lambda>q. q\<lparr>p_parent := k_initproc k\<rparr>) k) else k)
       [0..<length (k_procs k)] k"

fun close_files :: "nat list \<Rightarrow> nat \<Rightarrow> kernel \<Rightarrow> kernel option" where
  "close_files [] p k = Some k"
| "close_files (fd # fds) p k =
     (case p_ofile (k_procs k ! p) ! fd of
        None \<Rightarrow> close_files fds p k
      | Some f \<Rightarrow> do {
          k \<leftarrow> fileclose f k;
          close_files fds p (upd_proc p (\<lambda>q. q\<lparr>p_ofile := (p_ofile q)[fd := None]\<rparr>) k) })"

definition kexit :: "int \<Rightarrow> kernel \<Rightarrow> kernel option" where
  "kexit status k =
     do {
       p \<leftarrow> k_cur k;
       if Some p = k_initproc k then panic ''init exiting''
       else do {
         k \<leftarrow> close_files [0..<NOFILE] p k;
         k \<leftarrow> begin_op k;
         cwd \<leftarrow> p_cwd (k_procs k ! p);
         k \<leftarrow> iput cwd k;
         k \<leftarrow> (case p_jail_root (k_procs k ! p) of None \<Rightarrow> Some k | Some j \<Rightarrow> iput j k);
         k \<leftarrow> end_op k;
         let k = upd_proc p (\<lambda>q. q\<lparr>p_cwd := None, p_jail_root := None\<rparr>) k;
         let k = reparent p k;
         let k = wakeup_proc (p_parent (k_procs k ! p)) k;
         sched (upd_proc p (\<lambda>q. q\<lparr>p_xstate := status, p_state := ZOMBIE\<rparr>) k) } }"

text \<open>One scan of the table: whether there are children, and the first exited one.\<close>

fun wait_scan :: "proc list \<Rightarrow> nat \<Rightarrow> nat \<Rightarrow> bool \<Rightarrow> bool \<times> nat option" where
  "wait_scan [] i p havekids = (havekids, None)"
| "wait_scan (q # qs) i p havekids =
     (if p_parent q = Some p
      then if p_state q = ZOMBIE then (True, Some i) else wait_scan qs (Suc i) p True
      else wait_scan qs (Suc i) p havekids)"

definition kwait :: "u64 \<Rightarrow> kernel \<Rightarrow> ((int, unit) blocking \<times> kernel) option" where
  "kwait addr k =
     do {
       p \<leftarrow> k_cur k;
       case wait_scan (k_procs k) 0 p False of
         (_, Some c) \<Rightarrow> do {
           let pid = p_pid (k_procs k ! c);
           (r, k) \<leftarrow> (if addr \<noteq> 0
                      then copyout (p_pagetable (k_procs k ! p)) addr (le_bytes 4 (nat (p_xstate (k_procs k ! c) mod 2 ^ 32))) 4 k
                      else Some (0, k));
           if r < 0 then Some (Done (- 1), k)
           else do { k \<leftarrow> freeproc c k; Some (Done pid, k) } }
       | (havekids, None) \<Rightarrow>
           if \<not> havekids \<or> killed p k then Some (Done (- 1), k)
           else do { k \<leftarrow> sleep (Ch_proc p) k; Some (Sleep (), k) } }"

end
