(* ===== verification/Sysproc.thy ===== *)
theory Sysproc
  imports Proc
begin

text \<open>
  System-call arguments (\<open>fetchaddr\<close> to \<open>argstr\<close> of \<open>kernel/syscall.c\<close>) and the handlers of
  \<open>kernel/sysproc.c\<close>.  A handler returns the value for register \<open>a0\<close> or goes to sleep; a call that
  slept is re-entered where \<open>sys_wait\<close> says.  \<open>W_exited\<close> marks a process that is never re-entered.
\<close>

datatype sys_wait =
    W_io io_wait
  | W_child
  | W_ticks u32 u32
  | W_agentq
  | W_confirm u32
  | W_exited

type_synonym sys_result = "((u64, sys_wait) blocking \<times> kernel) option"

abbreviation ret :: "int \<Rightarrow> kernel \<Rightarrow> sys_result" where
  "ret r k \<equiv> Some (Done (of_int r), k)"

fun to_sys :: "('b \<Rightarrow> sys_wait) \<Rightarrow> ((int, 'b) blocking \<times> kernel) \<Rightarrow> (u64, sys_wait) blocking \<times> kernel" where
  "to_sys w (Done r, k) = (Done (of_int r), k)"
| "to_sys w (Sleep b, k) = (Sleep (w b), k)"

section \<open>Arguments\<close>

definition myproc :: "kernel \<Rightarrow> proc option" where
  "myproc k = (case k_cur k of None \<Rightarrow> None | Some p \<Rightarrow> Some (k_procs k ! p))"

definition fetchaddr :: "u64 \<Rightarrow> kernel \<Rightarrow> (int \<times> u64 \<times> kernel) option" where
  "fetchaddr addr k =
     do {
       p \<leftarrow> myproc k;
       if addr \<ge> p_sz p \<or> addr + 8 > p_sz p then Some (- 1, 0, k)
       else do {
         (r, bs, k) \<leftarrow> copyin (p_pagetable p) addr 8 k;
         if r \<noteq> 0 then Some (- 1, 0, k) else Some (0, of_nat (le_val bs), k) } }"

definition fetchstr :: "u64 \<Rightarrow> u64 \<Rightarrow> kernel \<Rightarrow> (int \<times> string) option" where
  "fetchstr addr mx k =
     do {
       p \<leftarrow> myproc k;
       let (r, buf) = copyinstr (p_pagetable p) addr mx k;
       Some (if r < 0 then (- 1, buf) else (int (strlen buf), buf)) }"

definition argraw :: "nat \<Rightarrow> kernel \<Rightarrow> u64 option" where
  "argraw n k =
     do {
       p \<leftarrow> myproc k;
       case n of
         0 \<Rightarrow> Some (p_tf p tf_a0)
       | Suc 0 \<Rightarrow> Some (p_tf p tf_a1)
       | Suc (Suc 0) \<Rightarrow> Some (p_tf p tf_a2)
       | Suc (Suc (Suc 0)) \<Rightarrow> Some (p_tf p tf_a3)
       | Suc (Suc (Suc (Suc 0))) \<Rightarrow> Some (p_tf p tf_a4)
       | Suc (Suc (Suc (Suc (Suc 0)))) \<Rightarrow> Some (p_tf p tf_a5)
       | _ \<Rightarrow> panic ''argraw'' }"

definition argint :: "nat \<Rightarrow> kernel \<Rightarrow> int option" where
  "argint n k = map_option int32 (argraw n k)"

definition argaddr :: "nat \<Rightarrow> kernel \<Rightarrow> u64 option" where
  "argaddr n k = argraw n k"

definition argstr :: "nat \<Rightarrow> int \<Rightarrow> kernel \<Rightarrow> (int \<times> string) option" where
  "argstr n mx k = do { addr \<leftarrow> argaddr n k; fetchstr addr (of_int mx) k }"

section \<open>Processes\<close>

definition sys_exit :: "kernel \<Rightarrow> sys_result" where
  "sys_exit k = do { n \<leftarrow> argint 0 k; k \<leftarrow> kexit n k; Some (Sleep W_exited, k) }"

definition sys_getpid :: "kernel \<Rightarrow> sys_result" where
  "sys_getpid k = do { p \<leftarrow> myproc k; ret (p_pid p) k }"

definition sys_fork :: "kernel \<Rightarrow> sys_result" where
  "sys_fork k = do { (r, k) \<leftarrow> kfork k; ret r k }"

definition sys_wait_call :: "kernel \<Rightarrow> sys_result" where
  "sys_wait_call k = do { p \<leftarrow> argaddr 0 k; map_option (to_sys (\<lambda>_. W_child)) (kwait p k) }"

definition SBRK_EAGER :: int where "SBRK_EAGER = 1"

definition sys_sbrk :: "kernel \<Rightarrow> sys_result" where
  "sys_sbrk k =
     do {
       n \<leftarrow> argint 0 k;
       t \<leftarrow> argint 1 k;
       p \<leftarrow> k_cur k;
       let addr = p_sz (k_procs k ! p);
       if t = SBRK_EAGER \<or> n < 0
       then do { (r, k) \<leftarrow> growproc n k; if r < 0 then ret (- 1) k else Some (Done addr, k) }
       else if addr + of_int n < addr then ret (- 1) k
       else if addr + of_int n > TRAPFRAME then ret (- 1) k
       else Some (Done addr, upd_proc p (\<lambda>q. q\<lparr>p_sz := p_sz q + of_int n\<rparr>) k) }"

text \<open>One turn of the waiting loop of \<open>sys_pause\<close>; a turn that sleeps is re-entered with the same arguments.\<close>

definition pause_poll :: "u32 \<Rightarrow> u32 \<Rightarrow> kernel \<Rightarrow> sys_result" where
  "pause_poll ticks0 n k =
     (if k_ticks k - ticks0 < n
      then do {
        p \<leftarrow> k_cur k;
        if killed p k then ret (- 1) k
        else do { k \<leftarrow> sleep Ch_ticks k; Some (Sleep (W_ticks ticks0 n), k) } }
      else ret 0 k)"

definition sys_pause :: "kernel \<Rightarrow> sys_result" where
  "sys_pause k =
     do {
       n \<leftarrow> argint 0 k;
       pause_poll (k_ticks k) (of_int (if n < 0 then 0 else n)) k }"

definition sys_kill :: "kernel \<Rightarrow> sys_result" where
  "sys_kill k = do { pid \<leftarrow> argint 0 k; let (r, k) = kkill pid k; ret r k }"

definition sys_uptime :: "kernel \<Rightarrow> sys_result" where
  "sys_uptime k = Some (Done (ucast (k_ticks k)), k)"

section \<open>Priorities\<close>

definition sys_setpriority :: "kernel \<Rightarrow> sys_result" where
  "sys_setpriority k =
     do {
       pid \<leftarrow> argint 0 k;
       priority \<leftarrow> argint 1 k;
       me \<leftarrow> myproc k;
       if priority < - 20 \<or> priority > 20 then ret (- 1) k
       else if priority < 0 \<and> p_priority me \<ge> 0 then ret (- 1) k
       else if p_is_agent me \<and> pid \<noteq> p_pid me then ret (- 1) k
       else
         let caller_kernel = (p_priority me < 0)
         in case find_pid (k_procs k) pid of
              None \<Rightarrow> ret (- 1) k
            | Some i \<Rightarrow>
                if p_priority (k_procs k ! i) < 0 \<and> \<not> caller_kernel then ret (- 1) k
                else ret 0 (upd_proc i (\<lambda>q. q\<lparr>p_priority := priority\<rparr>) k) }"

definition sys_getpriority :: "kernel \<Rightarrow> sys_result" where
  "sys_getpriority k =
     do {
       pid \<leftarrow> argint 0 k;
       case find_pid (k_procs k) pid of
         None \<Rightarrow> ret (- 1) k
       | Some i \<Rightarrow> ret (p_priority (k_procs k ! i)) k }"

section \<open>The agent runtime\<close>

definition sys_agent_recv :: "kernel \<Rightarrow> sys_result" where
  "sys_agent_recv k =
     do {
       uaddr \<leftarrow> argaddr 0 k;
       p \<leftarrow> myproc k;
       if \<not> p_is_agent p then ret (- 1) k
       else do {
         (res, k) \<leftarrow> agentq_get k;
         case res of
           Sleep _ \<Rightarrow> Some (Sleep W_agentq, k)
         | Done (n, kbuf) \<Rightarrow>
             if n < 0 then ret (- 1) k
             else do {
               (r, k) \<leftarrow> copyout (p_pagetable p) uaddr (kbuf @ [NUL]) (of_int (n + 1)) k;
               if r < 0 then ret (- 1) k else ret n k } } }"

definition DENY_ADD :: int where "DENY_ADD = 0"
definition DENY_REMOVE :: int where "DENY_REMOVE = 1"
definition DENY_RESET :: int where "DENY_RESET = 2"
definition DENY_CLEAR :: int where "DENY_CLEAR = 3"

definition sys_set_deny :: "kernel \<Rightarrow> sys_result" where
  "sys_set_deny k =
     do {
       p \<leftarrow> myproc k;
       if p_is_agent p then ret (- 1) k
       else do {
         oper \<leftarrow> argint 0 k;
         if oper = DENY_RESET then ret 0 (k\<lparr>k_deny := deny_reset (k_deny k)\<rparr>)
         else if oper = DENY_CLEAR then ret 0 (k\<lparr>k_deny := deny_clear (k_deny k)\<rparr>)
         else do {
           (len, cmd) \<leftarrow> argstr 1 (int DENY_NAMELEN) k;
           if len < 0 then ret (- 1) k
           else if oper = DENY_ADD
           then (let (r, dl) = deny_add cmd (k_deny k) in ret r (k\<lparr>k_deny := dl\<rparr>))
           else if oper = DENY_REMOVE
           then (let (r, dl) = deny_remove cmd (k_deny k) in ret r (k\<lparr>k_deny := dl\<rparr>))
           else ret (- 1) k } } }"

definition sys_get_deny :: "kernel \<Rightarrow> sys_result" where
  "sys_get_deny k =
     do {
       uaddr \<leftarrow> argaddr 0 k;
       mx \<leftarrow> argint 1 k;
       p \<leftarrow> myproc k;
       if mx \<le> 0 then ret (- 1) k
       else do {
         let mx = (if mx > int (DENY_MAX * DENY_NAMELEN) then int (DENY_MAX * DENY_NAMELEN) else mx);
         let (n, kbuf) = deny_snapshot (replicate (DENY_MAX * DENY_NAMELEN) NUL) mx (k_deny k);
         (r, k) \<leftarrow> copyout (p_pagetable p) uaddr kbuf (of_int (n + 1)) k;
         if r < 0 then ret (- 1) k else ret n k } }"

text \<open>The 32 bytes of a \<open>struct procinfo\<close>.\<close>

fun state_code :: "procstate \<Rightarrow> int" where
  "state_code UNUSED = 0"
| "state_code USED = 1"
| "state_code SLEEPING = 2"
| "state_code RUNNABLE = 3"
| "state_code RUNNING = 4"
| "state_code ZOMBIE = 5"

definition procinfo_of :: "proc \<Rightarrow> procinfo" where
  "procinfo_of p =
     \<lparr>pi_pid = p_pid p, pi_state = state_code (p_state p), pi_priority = p_priority p,
      pi_is_agent = (if p_is_agent p then 1 else 0),
      pi_name = safestrcpy (replicate 16 NUL) (p_name p) 16\<rparr>"

definition procinfo_bytes :: "procinfo \<Rightarrow> char list" where
  "procinfo_bytes pi =
     le_bytes 4 (nat (pi_pid pi mod 2 ^ 32)) @ le_bytes 4 (nat (pi_state pi mod 2 ^ 32)) @
     le_bytes 4 (nat (pi_priority pi mod 2 ^ 32)) @ le_bytes 4 (nat (pi_is_agent pi mod 2 ^ 32)) @ pi_name pi"

fun procinfo_loop :: "nat list \<Rightarrow> int \<Rightarrow> int \<Rightarrow> u64 \<Rightarrow> u64 \<Rightarrow> kernel \<Rightarrow> sys_result" where
  "procinfo_loop [] n mx pt uaddr k = ret n k"
| "procinfo_loop (i # is) n mx pt uaddr k =
     (if \<not> n < mx then ret n k
      else if p_state (k_procs k ! i) = UNUSED then procinfo_loop is n mx pt uaddr k
      else do {
        (r, k) \<leftarrow> copyout pt (uaddr + of_int n * 32) (procinfo_bytes (procinfo_of (k_procs k ! i))) 32 k;
        if r < 0 then ret (- 1) k else procinfo_loop is (n + 1) mx pt uaddr k })"

definition sys_procinfo :: "kernel \<Rightarrow> sys_result" where
  "sys_procinfo k =
     do {
       uaddr \<leftarrow> argaddr 0 k;
       mx \<leftarrow> argint 1 k;
       if mx \<le> 0 then ret (- 1) k
       else do { self \<leftarrow> myproc k; procinfo_loop [0..<NPROC] 0 mx (p_pagetable self) uaddr k } }"

definition MAX_KEY_LEN :: int where "MAX_KEY_LEN = 1024"
definition MAX_VAL_LEN :: int where "MAX_VAL_LEN = 256"
definition MAX_DISPATCH_LEN :: int where "MAX_DISPATCH_LEN = 1024"

definition sys_set_cache :: "kernel \<Rightarrow> sys_result" where
  "sys_set_cache k =
     do {
       key_addr \<leftarrow> argaddr 0 k;
       klen \<leftarrow> argint 1 k;
       val_addr \<leftarrow> argaddr 2 k;
       vlen \<leftarrow> argint 3 k;
       p \<leftarrow> myproc k;
       if klen \<le> 0 \<or> klen > MAX_KEY_LEN then ret (- 1) k
       else if vlen < 0 \<or> vlen > MAX_VAL_LEN then ret (- 1) k
       else do {
         (r, key_buf, k) \<leftarrow> copyin (p_pagetable p) key_addr (of_int klen) k;
         if r < 0 then ret (- 1) k
         else do {
           (r, val_buf, k) \<leftarrow> (if vlen > 0 then copyin (p_pagetable p) val_addr (of_int vlen) k else Some (0, [], k));
           if r < 0 then ret (- 1) k
           else do { (r, k) \<leftarrow> cache_set key_buf klen val_buf vlen k; ret r k } } } }"

definition sys_get_cache :: "kernel \<Rightarrow> sys_result" where
  "sys_get_cache k =
     do {
       key_addr \<leftarrow> argaddr 0 k;
       klen \<leftarrow> argint 1 k;
       vbuf_addr \<leftarrow> argaddr 2 k;
       vbuflen \<leftarrow> argint 3 k;
       p \<leftarrow> myproc k;
       if klen \<le> 0 \<or> klen > MAX_KEY_LEN then ret (- 1) k
       else if vbuflen \<le> 0 then ret (- 1) k
       else do {
         (r, key_buf, k) \<leftarrow> copyin (p_pagetable p) key_addr (of_int klen) k;
         if r < 0 then ret (- 1) k
         else do {
           (vlen, val_buf, k) \<leftarrow> cache_get key_buf klen MAX_VAL_LEN k;
           if vlen < 0 then ret (- 1) k
           else do {
             let avail = (if vlen < MAX_VAL_LEN then vlen else MAX_VAL_LEN);
             let n = (if avail < vbuflen then avail else vbuflen);
             (r, k) \<leftarrow> (if n > 0 then copyout (p_pagetable p) vbuf_addr val_buf (of_int n) k else Some (0, k));
             if r < 0 then ret (- 1) k else ret vlen k } } } }"

definition sys_dispatch :: "kernel \<Rightarrow> sys_result" where
  "sys_dispatch k =
     do {
       addr \<leftarrow> argaddr 0 k;
       p \<leftarrow> myproc k;
       if p_is_agent p then ret (- 1) k
       else do {
         let (r, buf) = copyinstr (p_pagetable p) addr (of_int MAX_DISPATCH_LEN) k;
         if r < 0 then ret (- 1) k
         else do { k \<leftarrow> agent_dispatch_now buf k; ret 0 k } } }"

end
