(* ===== verification/Sysfile.thy ===== *)
theory Sysfile
  imports Sysproc
begin

text \<open>
  The file system calls of \<open>kernel/sysfile.c\<close>, with \<open>sys_jail\<close>, which confines the calling
  process.  \<open>sys_exec\<close> is in the theory of \<open>kexec\<close>.
\<close>

section \<open>Descriptors\<close>

definition argfd :: "nat \<Rightarrow> kernel \<Rightarrow> (nat \<times> nat) option option" where
  "argfd n k =
     do {
       fd \<leftarrow> argint n k;
       p \<leftarrow> myproc k;
       Some (if fd < 0 \<or> fd \<ge> int NOFILE then None
             else case p_ofile p ! nat fd of None \<Rightarrow> None | Some f \<Rightarrow> Some (nat fd, f)) }"

fun fd_scan :: "nat option list \<Rightarrow> nat option" where
  "fd_scan [] = None"
| "fd_scan (f # fs) = (if f = None then Some 0 else map_option Suc (fd_scan fs))"

definition set_fd :: "nat \<Rightarrow> nat option \<Rightarrow> kernel \<Rightarrow> kernel option" where
  "set_fd fd f k = do { p \<leftarrow> k_cur k; Some (upd_proc p (\<lambda>q. q\<lparr>p_ofile := (p_ofile q)[fd := f]\<rparr>) k) }"

definition fdalloc :: "nat \<Rightarrow> kernel \<Rightarrow> (nat option \<times> kernel) option" where
  "fdalloc f k =
     do {
       p \<leftarrow> myproc k;
       case fd_scan (take NOFILE (p_ofile p)) of
         None \<Rightarrow> Some (None, k)
       | Some fd \<Rightarrow> do { k \<leftarrow> set_fd fd (Some f) k; Some (Some fd, k) } }"

definition sys_dup :: "kernel \<Rightarrow> sys_result" where
  "sys_dup k =
     do {
       a \<leftarrow> argfd 0 k;
       case a of
         None \<Rightarrow> ret (- 1) k
       | Some (_, f) \<Rightarrow> do {
           (fd, k) \<leftarrow> fdalloc f k;
           case fd of
             None \<Rightarrow> ret (- 1) k
           | Some fd \<Rightarrow> do { k \<leftarrow> filedup f k; ret (int fd) k } } }"

definition sys_read :: "kernel \<Rightarrow> sys_result" where
  "sys_read k =
     do {
       p \<leftarrow> argaddr 1 k;
       n \<leftarrow> argint 2 k;
       a \<leftarrow> argfd 0 k;
       case a of None \<Rightarrow> ret (- 1) k | Some (_, f) \<Rightarrow> map_option (to_sys W_io) (fileread f p n k) }"

definition sys_write :: "kernel \<Rightarrow> sys_result" where
  "sys_write k =
     do {
       p \<leftarrow> argaddr 1 k;
       n \<leftarrow> argint 2 k;
       a \<leftarrow> argfd 0 k;
       case a of None \<Rightarrow> ret (- 1) k | Some (_, f) \<Rightarrow> map_option (to_sys W_io) (filewrite f p n k) }"

definition sys_close :: "kernel \<Rightarrow> sys_result" where
  "sys_close k =
     do {
       a \<leftarrow> argfd 0 k;
       case a of
         None \<Rightarrow> ret (- 1) k
       | Some (fd, f) \<Rightarrow> do { k \<leftarrow> set_fd fd None k; k \<leftarrow> fileclose f k; ret 0 k } }"

definition sys_fstat :: "kernel \<Rightarrow> sys_result" where
  "sys_fstat k =
     do {
       st \<leftarrow> argaddr 1 k;
       a \<leftarrow> argfd 0 k;
       case a of None \<Rightarrow> ret (- 1) k | Some (_, f) \<Rightarrow> do { (r, k) \<leftarrow> filestat f st k; ret r k } }"

section \<open>Links\<close>

definition link_bad :: "nat \<Rightarrow> kernel \<Rightarrow> sys_result" where
  "link_bad ip k =
     do {
       k \<leftarrow> ilock ip k;
       k \<leftarrow> iupdate ip (upd_ino ip (\<lambda>i. i\<lparr>i_nlink := wrap16 (i_nlink i - 1)\<rparr>) k);
       k \<leftarrow> iunlockput ip k;
       k \<leftarrow> end_op k;
       ret (- 1) k }"

definition sys_link :: "kernel \<Rightarrow> sys_result" where
  "sys_link k =
     do {
       (l1, old) \<leftarrow> argstr 0 MAXPATH k;
       (l2, new) \<leftarrow> argstr 1 MAXPATH k;
       if l1 < 0 \<or> l2 < 0 then ret (- 1) k
       else do {
         k \<leftarrow> begin_op k;
         (found, k) \<leftarrow> namei old k;
         case found of
           None \<Rightarrow> do { k \<leftarrow> end_op k; ret (- 1) k }
         | Some ip \<Rightarrow> do {
             k \<leftarrow> ilock ip k;
             if i_type (k_itable k ! ip) = T_DIR
             then do { k \<leftarrow> iunlockput ip k; k \<leftarrow> end_op k; ret (- 1) k }
             else do {
               k \<leftarrow> iupdate ip (upd_ino ip (\<lambda>i. i\<lparr>i_nlink := wrap16 (i_nlink i + 1)\<rparr>) k);
               k \<leftarrow> iunlock ip k;
               (parent, name, k) \<leftarrow> nameiparent new k;
               case parent of
                 None \<Rightarrow> link_bad ip k
               | Some dp \<Rightarrow> do {
                   k \<leftarrow> ilock dp k;
                   (r, k) \<leftarrow> (if i_dev (k_itable k ! dp) \<noteq> i_dev (k_itable k ! ip) then Some (- 1, k)
                              else dirlink dp name (i_inum (k_itable k ! ip)) k);
                   k \<leftarrow> iunlockput dp k;
                   if r < 0 then link_bad ip k
                   else do { k \<leftarrow> iput ip k; k \<leftarrow> end_op k; ret 0 k } } } } } }"

fun dir_empty_loop :: "nat list \<Rightarrow> nat \<Rightarrow> kernel \<Rightarrow> (bool \<times> kernel) option" where
  "dir_empty_loop [] dp k = Some (True, k)"
| "dir_empty_loop (off # offs) dp k =
     do {
       (r, bs, k) \<leftarrow> readi dp None (of_nat off) 16 k;
       if r \<noteq> 16 then panic ''isdirempty: readi''
       else if de_inum (dirent_of bs) \<noteq> 0 then Some (False, k)
       else dir_empty_loop offs dp k }"

definition isdirempty :: "nat \<Rightarrow> kernel \<Rightarrow> (bool \<times> kernel) option" where
  "isdirempty dp k = dir_empty_loop (dir_offsets 32 (i_size (k_itable k ! dp))) dp k"

definition unlink_bad :: "nat \<Rightarrow> kernel \<Rightarrow> sys_result" where
  "unlink_bad dp k = do { k \<leftarrow> iunlockput dp k; k \<leftarrow> end_op k; ret (- 1) k }"

definition sys_unlink :: "kernel \<Rightarrow> sys_result" where
  "sys_unlink k =
     do {
       (l, path) \<leftarrow> argstr 0 MAXPATH k;
       if l < 0 then ret (- 1) k
       else do {
         k \<leftarrow> begin_op k;
         (parent, name, k) \<leftarrow> nameiparent path k;
         case parent of
           None \<Rightarrow> do { k \<leftarrow> end_op k; ret (- 1) k }
         | Some dp \<Rightarrow> do {
             k \<leftarrow> ilock dp k;
             if namecmp name ''.'' = 0 \<or> namecmp name ''..'' = 0 then unlink_bad dp k
             else do {
               (found, k) \<leftarrow> dirlookup dp name k;
               case found of
                 None \<Rightarrow> unlink_bad dp k
               | Some (ip, off) \<Rightarrow> do {
                   k \<leftarrow> ilock ip k;
                   if i_nlink (k_itable k ! ip) < 1 then panic ''unlink: nlink < 1''
                   else do {
                     (clear, k) \<leftarrow> (if i_type (k_itable k ! ip) = T_DIR then isdirempty ip k else Some (True, k));
                     if \<not> clear then do { k \<leftarrow> iunlockput ip k; unlink_bad dp k }
                     else do {
                       (n, k) \<leftarrow> writei dp (Kernel_src (replicate 16 NUL)) off 16 k;
                       if n \<noteq> 16 then panic ''unlink: writei''
                       else do {
                         k \<leftarrow> (if i_type (k_itable k ! ip) = T_DIR
                               then iupdate dp (upd_ino dp (\<lambda>i. i\<lparr>i_nlink := wrap16 (i_nlink i - 1)\<rparr>) k)
                               else Some k);
                         k \<leftarrow> iunlockput dp k;
                         k \<leftarrow> iupdate ip (upd_ino ip (\<lambda>i. i\<lparr>i_nlink := wrap16 (i_nlink i - 1)\<rparr>) k);
                         k \<leftarrow> iunlockput ip k;
                         k \<leftarrow> end_op k;
                         ret 0 k } } } } } } } }"

section \<open>Opening\<close>

definition O_RDONLY :: u32 where "O_RDONLY = 0x000"
definition O_WRONLY :: u32 where "O_WRONLY = 0x001"
definition O_RDWR :: u32 where "O_RDWR = 0x002"
definition O_CREATE :: u32 where "O_CREATE = 0x200"
definition O_TRUNC :: u32 where "O_TRUNC = 0x400"

text \<open>The inode a call of \<open>open\<close> works on, locked; the transaction has ended when there is none.\<close>

definition open_inode :: "string \<Rightarrow> u32 \<Rightarrow> kernel \<Rightarrow> (nat option \<times> kernel) option" where
  "open_inode path omode k =
     (if omode AND O_CREATE \<noteq> 0
      then do {
        (made, k) \<leftarrow> create path T_FILE 0 0 k;
        case made of None \<Rightarrow> do { k \<leftarrow> end_op k; Some (None, k) } | Some ip \<Rightarrow> Some (Some ip, k) }
      else do {
        (found, k) \<leftarrow> namei path k;
        case found of
          None \<Rightarrow> do { k \<leftarrow> end_op k; Some (None, k) }
        | Some ip \<Rightarrow> do {
            k \<leftarrow> ilock ip k;
            if i_type (k_itable k ! ip) = T_DIR \<and> omode \<noteq> O_RDONLY
            then do { k \<leftarrow> iunlockput ip k; k \<leftarrow> end_op k; Some (None, k) }
            else Some (Some ip, k) } })"

definition open_fail :: "nat \<Rightarrow> kernel \<Rightarrow> sys_result" where
  "open_fail ip k = do { k \<leftarrow> iunlockput ip k; k \<leftarrow> end_op k; ret (- 1) k }"

definition sys_open :: "kernel \<Rightarrow> sys_result" where
  "sys_open k =
     do {
       mode \<leftarrow> argint 1 k;
       (n, path) \<leftarrow> argstr 0 MAXPATH k;
       let omode = (of_int mode :: u32);
       if n < 0 then ret (- 1) k
       else do {
         k \<leftarrow> begin_op k;
         (got, k) \<leftarrow> open_inode path omode k;
         case got of
           None \<Rightarrow> ret (- 1) k
         | Some ip \<Rightarrow>
             let i = k_itable k ! ip
             in if i_type i = T_DEVICE \<and> (i_major i < 0 \<or> i_major i \<ge> NDEV) then open_fail ip k
                else
                  (case filealloc k of
                     (None, k) \<Rightarrow> open_fail ip k
                   | (Some f, k) \<Rightarrow> do {
                       (fd, k) \<leftarrow> fdalloc f k;
                       case fd of
                         None \<Rightarrow> do { k \<leftarrow> fileclose f k; open_fail ip k }
                       | Some fd \<Rightarrow> do {
                           let k = upd_file f (\<lambda>x. (if i_type i = T_DEVICE
                                then x\<lparr>f_type := FD_DEVICE, f_major := i_major i\<rparr>
                                else x\<lparr>f_type := FD_INODE, f_off := 0\<rparr>)
                                  \<lparr>f_ip := Some ip, f_readable := (omode AND O_WRONLY = 0),
                                   f_writable := (omode AND O_WRONLY \<noteq> 0 \<or> omode AND O_RDWR \<noteq> 0)\<rparr>) k;
                           k \<leftarrow> (if omode AND O_TRUNC \<noteq> 0 \<and> i_type i = T_FILE then itrunc ip k else Some k);
                           k \<leftarrow> iunlock ip k;
                           k \<leftarrow> end_op k;
                           ret (int fd) k } }) } }"

definition sys_mkdir :: "kernel \<Rightarrow> sys_result" where
  "sys_mkdir k =
     do {
       k \<leftarrow> begin_op k;
       (l, path) \<leftarrow> argstr 0 MAXPATH k;
       (made, k) \<leftarrow> (if l < 0 then Some (None, k) else create path T_DIR 0 0 k);
       case made of
         None \<Rightarrow> do { k \<leftarrow> end_op k; ret (- 1) k }
       | Some ip \<Rightarrow> do { k \<leftarrow> iunlockput ip k; k \<leftarrow> end_op k; ret 0 k } }"

definition sys_mknod :: "kernel \<Rightarrow> sys_result" where
  "sys_mknod k =
     do {
       k \<leftarrow> begin_op k;
       major \<leftarrow> argint 1 k;
       minor \<leftarrow> argint 2 k;
       (l, path) \<leftarrow> argstr 0 MAXPATH k;
       (made, k) \<leftarrow> (if l < 0 then Some (None, k) else create path T_DEVICE major minor k);
       case made of
         None \<Rightarrow> do { k \<leftarrow> end_op k; ret (- 1) k }
       | Some ip \<Rightarrow> do { k \<leftarrow> iunlockput ip k; k \<leftarrow> end_op k; ret 0 k } }"

text \<open>The directory that \<open>sys_chdir\<close> and \<open>sys_jail\<close> move to; on failure the transaction has ended.\<close>

definition enter_dir :: "kernel \<Rightarrow> (nat option \<times> kernel) option" where
  "enter_dir k =
     do {
       p \<leftarrow> k_cur k;
       k \<leftarrow> begin_op k;
       (l, path) \<leftarrow> argstr 0 MAXPATH k;
       (found, k) \<leftarrow> (if l < 0 then Some (None, k) else namei path k);
       case found of
         None \<Rightarrow> do { k \<leftarrow> end_op k; Some (None, k) }
       | Some ip \<Rightarrow> do {
           k \<leftarrow> ilock ip k;
           if i_type (k_itable k ! ip) \<noteq> T_DIR
           then do { k \<leftarrow> iunlockput ip k; k \<leftarrow> end_op k; Some (None, k) }
           else do {
             k \<leftarrow> iunlock ip k;
             cwd \<leftarrow> p_cwd (k_procs k ! p);
             k \<leftarrow> iput cwd k;
             k \<leftarrow> end_op k;
             Some (Some ip, k) } } }"

definition sys_chdir :: "kernel \<Rightarrow> sys_result" where
  "sys_chdir k =
     do {
       p \<leftarrow> k_cur k;
       (got, k) \<leftarrow> enter_dir k;
       case got of
         None \<Rightarrow> ret (- 1) k
       | Some ip \<Rightarrow> ret 0 (upd_proc p (\<lambda>q. q\<lparr>p_cwd := Some ip\<rparr>) k) }"

definition sys_jail :: "kernel \<Rightarrow> sys_result" where
  "sys_jail k =
     do {
       p \<leftarrow> k_cur k;
       (got, k) \<leftarrow> enter_dir k;
       case got of
         None \<Rightarrow> ret (- 1) k
       | Some ip \<Rightarrow>
           let (j, k) = idup ip k
           in ret 0 (upd_proc p (\<lambda>q. q\<lparr>p_jail_root := Some j, p_cwd := Some ip, p_is_agent := True\<rparr>) k) }"

section \<open>Pipes\<close>

definition pipe_undo :: "nat list \<Rightarrow> nat \<Rightarrow> nat \<Rightarrow> kernel \<Rightarrow> sys_result" where
  "pipe_undo fds rf wfd k =
     do {
       k \<leftarrow> iter_option (\<lambda>fd. set_fd fd None) fds k;
       k \<leftarrow> fileclose rf k;
       k \<leftarrow> fileclose wfd k;
       ret (- 1) k }"

definition sys_pipe :: "kernel \<Rightarrow> sys_result" where
  "sys_pipe k =
     do {
       fdarray \<leftarrow> argaddr 0 k;
       p \<leftarrow> myproc k;
       (made, k) \<leftarrow> pipealloc k;
       case made of
         None \<Rightarrow> ret (- 1) k
       | Some (rf, wfd) \<Rightarrow> do {
           (a, k) \<leftarrow> fdalloc rf k;
           case a of
             None \<Rightarrow> pipe_undo [] rf wfd k
           | Some fd0 \<Rightarrow> do {
               (b, k) \<leftarrow> fdalloc wfd k;
               case b of
                 None \<Rightarrow> pipe_undo [fd0] rf wfd k
               | Some fd1 \<Rightarrow> do {
                   (r, k) \<leftarrow> copyout (p_pagetable p) fdarray (le_bytes 4 fd0) 4 k;
                   (r, k) \<leftarrow> (if r < 0 then Some (r, k)
                              else copyout (p_pagetable p) (fdarray + 4) (le_bytes 4 fd1) 4 k);
                   if r < 0 then pipe_undo [fd0, fd1] rf wfd k else ret 0 k } } } }"

end
