(* ===== verification/Exec.thy ===== *)
theory Exec
  imports Sysfile
begin

text \<open>
  \<open>kernel/exec.c\<close> and \<open>sys_exec\<close> of \<open>kernel/sysfile.c\<close>: loading an ELF file into a new page table,
  building the argument stack and replacing the image of the current process.
\<close>

section \<open>ELF headers\<close>

definition ELF_MAGIC :: u32 where "ELF_MAGIC = 0x464C457F"
definition ELF_PROG_LOAD :: u32 where "ELF_PROG_LOAD = 1"
definition USERSTACK :: u64 where "USERSTACK = 1"

definition load64_at :: "char list \<Rightarrow> nat \<Rightarrow> u64" where
  "load64_at bs off = of_nat (le_val (take 8 (drop off bs)))"

record elfhdr =
  e_magic :: u32
  e_entry :: u64
  e_phoff :: u64
  e_phnum :: u16

definition elf_of :: "char list \<Rightarrow> elfhdr" where
  "elf_of bs = \<lparr>e_magic = load32 bs 0, e_entry = load64_at bs 24, e_phoff = load64_at bs 32, e_phnum = load16 bs 56\<rparr>"

record proghdr =
  ph_type :: u32
  ph_flags :: u32
  ph_off :: u64
  ph_vaddr :: u64
  ph_filesz :: u64
  ph_memsz :: u64

definition ph_of :: "char list \<Rightarrow> proghdr" where
  "ph_of bs =
     \<lparr>ph_type = load32 bs 0, ph_flags = load32 bs 4, ph_off = load64_at bs 8, ph_vaddr = load64_at bs 16,
      ph_filesz = load64_at bs 32, ph_memsz = load64_at bs 40\<rparr>"

definition flags2perm :: "u32 \<Rightarrow> u64" where
  "flags2perm flags =
     (let perm = (if flags AND 1 \<noteq> 0 then PTE_X else 0)
      in if flags AND 2 \<noteq> 0 then perm OR PTE_W else perm)"

section \<open>Loading\<close>

text \<open>
  The page offsets \<open>i\<close> of the loop.  The source's 32-bit counter could only wrap for a segment of
  four gigabytes, whose pages are not mapped: the loop panics before.
\<close>

fun loadseg_loop :: "nat list \<Rightarrow> u64 \<Rightarrow> u64 \<Rightarrow> nat \<Rightarrow> u32 \<Rightarrow> u32 \<Rightarrow> kernel \<Rightarrow> (int \<times> kernel) option" where
  "loadseg_loop [] pagetable va ip offset sz k = Some (0, k)"
| "loadseg_loop (i # is) pagetable va ip offset sz k =
     (let pa = walkaddr pagetable (va + of_nat i) k
      in if pa = 0 then panic ''loadseg: address should exist''
         else
           let n = (if unat sz - i < 4096 then unat sz - i else 4096)
           in do {
             (r, bs, k) \<leftarrow> readi ip None (offset + of_nat i) (of_nat n) k;
             let k = k\<lparr>k_mem := write_bytes (k_mem k) (unat pa) bs\<rparr>;
             if r \<noteq> int n then Some (- 1, k) else loadseg_loop is pagetable va ip offset sz k })"

definition loadseg :: "u64 \<Rightarrow> u64 \<Rightarrow> nat \<Rightarrow> u32 \<Rightarrow> u32 \<Rightarrow> kernel \<Rightarrow> (int \<times> kernel) option" where
  "loadseg pagetable va ip offset sz k =
     loadseg_loop (map (\<lambda>j. 4096 * j) [0..<(unat sz + 4095) div 4096]) pagetable va ip offset sz k"

text \<open>
  The loop over the program headers: the size reached, and whether every segment was loaded
  (\<open>False\<close> is the source's \<open>goto bad\<close>).
\<close>

fun load_segments :: "nat \<Rightarrow> u32 \<Rightarrow> u64 \<Rightarrow> nat \<Rightarrow> u64 \<Rightarrow> kernel \<Rightarrow> (bool \<times> u64 \<times> kernel) option" where
  "load_segments 0 off pagetable ip sz k = Some (True, sz, k)"
| "load_segments (Suc n) off pagetable ip sz k =
     do {
       (r, bs, k) \<leftarrow> readi ip None off 56 k;
       let ph = ph_of bs;
       if r \<noteq> 56 then Some (False, sz, k)
       else if ph_type ph \<noteq> ELF_PROG_LOAD then load_segments n (off + 56) pagetable ip sz k
       else if ph_memsz ph < ph_filesz ph then Some (False, sz, k)
       else if ph_vaddr ph + ph_memsz ph < ph_vaddr ph then Some (False, sz, k)
       else if ph_vaddr ph mod PGSIZE \<noteq> 0 then Some (False, sz, k)
       else do {
         (sz1, k) \<leftarrow> uvmalloc pagetable sz (ph_vaddr ph + ph_memsz ph) (flags2perm (ph_flags ph)) k;
         if sz1 = 0 then Some (False, sz, k)
         else do {
           (r, k) \<leftarrow> loadseg pagetable (ph_vaddr ph) ip (ucast (ph_off ph)) (ucast (ph_filesz ph)) k;
           if r < 0 then Some (False, sz1, k)
           else load_segments n (off + 56) pagetable ip sz1 k } } }"

section \<open>The argument stack\<close>

definition align16 :: "u64 \<Rightarrow> u64" where
  "align16 sp = sp - sp mod 16"

text \<open>The argument strings, pushed downwards: the new \<open>sp\<close> and their addresses, or \<open>None\<close> for \<open>goto bad\<close>.\<close>

fun push_args :: "string list \<Rightarrow> u64 \<Rightarrow> u64 \<Rightarrow> u64 \<Rightarrow> u64 list \<Rightarrow> kernel \<Rightarrow> ((u64 \<times> u64 list) option \<times> kernel) option" where
  "push_args [] pagetable sp stackbase ustack k = Some (Some (sp, ustack), k)"
| "push_args (a # as) pagetable sp stackbase ustack k =
     (if length ustack \<ge> MAXARG then Some (None, k)
      else
        let sp = align16 (sp - of_nat (strlen a + 1))
        in if sp < stackbase then Some (None, k)
           else do {
             (r, k) \<leftarrow> copyout pagetable sp (cstr a @ [NUL]) (of_nat (strlen a + 1)) k;
             if r < 0 then Some (None, k)
             else push_args as pagetable sp stackbase (ustack @ [sp]) k })"

definition push_ustack :: "u64 \<Rightarrow> u64 \<Rightarrow> u64 \<Rightarrow> u64 list \<Rightarrow> kernel \<Rightarrow> (u64 option \<times> kernel) option" where
  "push_ustack pagetable sp stackbase ustack k =
     (let sp = align16 (sp - of_nat (8 * (length ustack + 1)))
      in if sp < stackbase then Some (None, k)
         else do {
           (r, k) \<leftarrow> copyout pagetable sp (concat (map (\<lambda>a. le_bytes 8 (unat a)) (ustack @ [0])))
                       (of_nat (8 * (length ustack + 1))) k;
           Some (if r < 0 then None else Some sp, k) })"

fun last_elem :: "string \<Rightarrow> string \<Rightarrow> string" where
  "last_elem [] e = e"
| "last_elem (c # s) e = (if c = NUL then e else last_elem s (if c = CHR ''/'' then s else e))"

section \<open>exec\<close>

definition exec_bad :: "u64 \<Rightarrow> u64 \<Rightarrow> nat option \<Rightarrow> kernel \<Rightarrow> (int \<times> kernel) option" where
  "exec_bad pagetable sz ip k =
     do {
       k \<leftarrow> (if pagetable \<noteq> 0 then proc_freepagetable pagetable sz k else Some k);
       k \<leftarrow> (case ip of None \<Rightarrow> Some k | Some i \<Rightarrow> do { k \<leftarrow> iunlockput i k; end_op k });
       Some (- 1, k) }"

text \<open>The second half, after the file has been closed: stack, arguments and the switch of images.\<close>

definition exec_commit :: "nat \<Rightarrow> string \<Rightarrow> string list \<Rightarrow> u64 \<Rightarrow> u64 \<Rightarrow> u64 \<Rightarrow> kernel \<Rightarrow> (int \<times> kernel) option" where
  "exec_commit p path argv entry pagetable sz k =
     do {
       let oldsz = p_sz (k_procs k ! p);
       let sz = PGROUNDUP sz;
       (sz1, k) \<leftarrow> uvmalloc pagetable sz (sz + (USERSTACK + 1) * PGSIZE) PTE_W k;
       if sz1 = 0 then exec_bad pagetable sz None k
       else do {
         let sz = sz1;
         k \<leftarrow> uvmclear pagetable (sz - (USERSTACK + 1) * PGSIZE) k;
         let stackbase = sz - USERSTACK * PGSIZE;
         (args, k) \<leftarrow> push_args argv pagetable sz stackbase [] k;
         case args of
           None \<Rightarrow> exec_bad pagetable sz None k
         | Some (sp, ustack) \<Rightarrow> do {
             (top, k) \<leftarrow> push_ustack pagetable sp stackbase ustack k;
             case top of
               None \<Rightarrow> exec_bad pagetable sz None k
             | Some sp \<Rightarrow> do {
                 let oldpagetable = p_pagetable (k_procs k ! p);
                 let k = upd_proc p (\<lambda>q. q\<lparr>p_name := safestrcpy (p_name q) (last_elem path path) 16,
                           p_pagetable := pagetable, p_sz := sz,
                           p_tf := (p_tf q)(tf_a1 := sp, tf_epc := entry, tf_sp := sp)\<rparr>) k;
                 k \<leftarrow> proc_freepagetable oldpagetable oldsz k;
                 Some (int (length ustack), k) } } } }"

definition kexec :: "string \<Rightarrow> string list \<Rightarrow> kernel \<Rightarrow> (int \<times> kernel) option" where
  "kexec path argv k =
     do {
       p \<leftarrow> k_cur k;
       k \<leftarrow> begin_op k;
       (found, k) \<leftarrow> namei path k;
       case found of
         None \<Rightarrow> do { k \<leftarrow> end_op k; Some (- 1, k) }
       | Some ip \<Rightarrow> do {
           k \<leftarrow> ilock ip k;
           (r, bs, k) \<leftarrow> readi ip None 0 64 k;
           let elf = elf_of bs;
           if r \<noteq> 64 \<or> e_magic elf \<noteq> ELF_MAGIC then exec_bad 0 0 (Some ip) k
           else do {
             (pagetable, k) \<leftarrow> proc_pagetable p k;
             if pagetable = 0 then exec_bad 0 0 (Some ip) k
             else do {
               (ok, sz, k) \<leftarrow> load_segments (unat (e_phnum elf)) (ucast (e_phoff elf)) pagetable ip 0 k;
               if \<not> ok then exec_bad pagetable sz (Some ip) k
               else do {
                 k \<leftarrow> iunlockput ip k;
                 k \<leftarrow> end_op k;
                 exec_commit p path argv (e_entry elf) pagetable sz k } } } } }"

text \<open>
  \<open>sys_exec\<close> copies every argument string into a page of its own: the pages in order, the
  strings, and whether the argument array was complete.
\<close>

fun exec_args :: "nat \<Rightarrow> u64 \<Rightarrow> u64 list \<Rightarrow> string list \<Rightarrow> kernel \<Rightarrow> (bool \<times> u64 list \<times> string list \<times> kernel) option" where
  "exec_args 0 uargv pages argv k = Some (False, pages, argv, k)"
| "exec_args (Suc n) uargv pages argv k =
     do {
       (r, uarg, k) \<leftarrow> fetchaddr (uargv + 8 * of_nat (length argv)) k;
       if r < 0 then Some (False, pages, argv, k)
       else if uarg = 0 then Some (True, pages, argv, k)
       else
         let (page, k) = kalloc k
         in if page = 0 then Some (False, pages, argv, k)
            else do {
              (len, s) \<leftarrow> fetchstr uarg PGSIZE k;
              let k = k\<lparr>k_mem := write_bytes (k_mem k) (unat page) s\<rparr>;
              if len < 0 then Some (False, pages @ [page], argv, k)
              else exec_args n uargv (pages @ [page]) (argv @ [s]) k } }"

definition sys_exec :: "kernel \<Rightarrow> sys_result" where
  "sys_exec k =
     do {
       uargv \<leftarrow> argaddr 1 k;
       (l, path) \<leftarrow> argstr 0 MAXPATH k;
       if l < 0 then ret (- 1) k
       else do {
         (ok, pages, argv, k) \<leftarrow> exec_args MAXARG uargv [] [] k;
         (r, k) \<leftarrow> (if ok then kexec path argv k else Some (- 1, k));
         k \<leftarrow> iter_option kfree pages k;
         ret r k } }"

end
