(* ===== verification/Syscall.thy ===== *)
theory Syscall
  imports Exec
begin

text \<open>
  The system-call dispatcher, \<open>kernel/syscall.c\<close>: the table of handlers, the calls an agent
  process may only make with the host's consent, and \<open>syscall\<close> itself.  A call that goes to
  sleep leaves a \<open>sys_wait\<close>; \<open>syscall_resume\<close> is what the process does when it runs again.
\<close>

section \<open>The table\<close>

definition SYS_fork :: int where "SYS_fork = 1"
definition SYS_exit :: int where "SYS_exit = 2"
definition SYS_wait :: int where "SYS_wait = 3"
definition SYS_pipe :: int where "SYS_pipe = 4"
definition SYS_read :: int where "SYS_read = 5"
definition SYS_kill :: int where "SYS_kill = 6"
definition SYS_exec :: int where "SYS_exec = 7"
definition SYS_fstat :: int where "SYS_fstat = 8"
definition SYS_chdir :: int where "SYS_chdir = 9"
definition SYS_dup :: int where "SYS_dup = 10"
definition SYS_getpid :: int where "SYS_getpid = 11"
definition SYS_sbrk :: int where "SYS_sbrk = 12"
definition SYS_pause :: int where "SYS_pause = 13"
definition SYS_uptime :: int where "SYS_uptime = 14"
definition SYS_open :: int where "SYS_open = 15"
definition SYS_write :: int where "SYS_write = 16"
definition SYS_mknod :: int where "SYS_mknod = 17"
definition SYS_unlink :: int where "SYS_unlink = 18"
definition SYS_link :: int where "SYS_link = 19"
definition SYS_mkdir :: int where "SYS_mkdir = 20"
definition SYS_close :: int where "SYS_close = 21"
definition SYS_setpriority :: int where "SYS_setpriority = 22"
definition SYS_getpriority :: int where "SYS_getpriority = 23"
definition SYS_jail :: int where "SYS_jail = 24"
definition SYS_agent_recv :: int where "SYS_agent_recv = 25"
definition SYS_set_deny :: int where "SYS_set_deny = 26"
definition SYS_get_deny :: int where "SYS_get_deny = 27"
definition SYS_procinfo :: int where "SYS_procinfo = 28"
definition SYS_set_cache :: int where "SYS_set_cache = 29"
definition SYS_get_cache :: int where "SYS_get_cache = 30"
definition SYS_dispatch :: int where "SYS_dispatch = 31"

definition NELEM_syscalls :: int where "NELEM_syscalls = SYS_dispatch + 1"

definition syscalls :: "int \<Rightarrow> (kernel \<Rightarrow> sys_result) option" where
  "syscalls = map_of [
     (SYS_fork, sys_fork),
     (SYS_exit, sys_exit),
     (SYS_wait, sys_wait_call),
     (SYS_pipe, sys_pipe),
     (SYS_read, sys_read),
     (SYS_kill, sys_kill),
     (SYS_exec, sys_exec),
     (SYS_fstat, sys_fstat),
     (SYS_chdir, sys_chdir),
     (SYS_dup, sys_dup),
     (SYS_getpid, sys_getpid),
     (SYS_sbrk, sys_sbrk),
     (SYS_pause, sys_pause),
     (SYS_uptime, sys_uptime),
     (SYS_open, sys_open),
     (SYS_write, sys_write),
     (SYS_mknod, sys_mknod),
     (SYS_unlink, sys_unlink),
     (SYS_link, sys_link),
     (SYS_mkdir, sys_mkdir),
     (SYS_close, sys_close),
     (SYS_setpriority, sys_setpriority),
     (SYS_getpriority, sys_getpriority),
     (SYS_jail, sys_jail),
     (SYS_agent_recv, sys_agent_recv),
     (SYS_set_deny, sys_set_deny),
     (SYS_get_deny, sys_get_deny),
     (SYS_procinfo, sys_procinfo),
     (SYS_set_cache, sys_set_cache),
     (SYS_get_cache, sys_get_cache),
     (SYS_dispatch, sys_dispatch)]"

lemmas syscall_numbers =
  SYS_fork_def SYS_exit_def SYS_wait_def SYS_pipe_def SYS_read_def SYS_kill_def SYS_exec_def
  SYS_fstat_def SYS_chdir_def SYS_dup_def SYS_getpid_def SYS_sbrk_def SYS_pause_def SYS_uptime_def
  SYS_open_def SYS_write_def SYS_mknod_def SYS_unlink_def SYS_link_def SYS_mkdir_def SYS_close_def
  SYS_setpriority_def SYS_getpriority_def SYS_jail_def SYS_agent_recv_def SYS_set_deny_def
  SYS_get_deny_def SYS_procinfo_def SYS_set_cache_def SYS_get_cache_def SYS_dispatch_def

section \<open>The agent gate\<close>

definition agent_blocked :: "int \<Rightarrow> bool" where
  "agent_blocked num \<longleftrightarrow> num = SYS_exec \<or> num = SYS_kill \<or> num = SYS_mknod"

definition agent_call_summary :: "int \<Rightarrow> nat \<Rightarrow> string" where
  "agent_call_summary num buflen =
     (let name = (if num = SYS_exec then ''exec'' else if num = SYS_kill then ''kill''
                  else if num = SYS_mknod then ''mknod'' else ''unknown'')
      in copy_trunc name (replicate buflen NUL) (buflen - 1))"

type_synonym trap_result = "((unit, sys_wait) blocking \<times> kernel) option"

definition set_a0 :: "nat \<Rightarrow> u64 \<Rightarrow> kernel \<Rightarrow> kernel" where
  "set_a0 p v k = upd_proc p (\<lambda>q. q\<lparr>p_tf := (p_tf q)(tf_a0 := v)\<rparr>) k"

text \<open>The end of a call of process \<open>p\<close>: the handler's value goes to \<open>a0\<close>, unless the handler sleeps.\<close>

definition sys_finish :: "nat \<Rightarrow> sys_result \<Rightarrow> trap_result" where
  "sys_finish p r =
     do {
       (res, k) \<leftarrow> r;
       Some (case res of Done v \<Rightarrow> (Done (), set_a0 p v k) | Sleep w \<Rightarrow> (Sleep w, k)) }"

definition call_handler :: "nat \<Rightarrow> int \<Rightarrow> kernel \<Rightarrow> trap_result" where
  "call_handler p num k = do { h \<leftarrow> syscalls num; sys_finish p (h k) }"

text \<open>What \<open>syscall\<close> does with the answer of \<open>confirm_request\<close>.\<close>

definition agent_gate :: "nat \<Rightarrow> int \<Rightarrow> (int, u32) blocking \<times> kernel \<Rightarrow> trap_result" where
  "agent_gate p num a =
     (case a of
        (Sleep t0, k) \<Rightarrow> Some (Sleep (W_confirm t0), k)
      | (Done allowed, k) \<Rightarrow>
          if allowed = 0
          then Some (Done (), set_a0 p (- 1)
            (printf (''[sandbox] pid %d (%s): syscall %d denied (confirm-escape)'' @ [CHR 0x0A])
               [VInt (p_pid (k_procs k ! p)), VStr (Some (p_name (k_procs k ! p))), VInt num] k))
          else call_handler p num k)"

definition syscall_num :: "nat \<Rightarrow> kernel \<Rightarrow> int" where
  "syscall_num p k = int32 (p_tf (k_procs k ! p) tf_a7)"

definition syscall :: "kernel \<Rightarrow> trap_result" where
  "syscall k =
     do {
       p \<leftarrow> k_cur k;
       let num = syscall_num p k;
       if num > 0 \<and> num < NELEM_syscalls \<and> syscalls num \<noteq> None
       then
         if p_is_agent (k_procs k ! p) \<and> agent_blocked num
         then do {
           a \<leftarrow> confirm_request p num (Some (agent_call_summary num 32)) k;
           agent_gate p num a }
         else call_handler p num k
       else Some (Done (), set_a0 p (- 1)
         (printf (''%d %s: unknown sys call %d'' @ [CHR 0x0A])
            [VInt (p_pid (k_procs k ! p)), VStr (Some (p_name (k_procs k ! p))), VInt num] k)) }"

section \<open>Running again after a sleep\<close>

text \<open>A read or a write continues on the file, address and count its registers still name.\<close>

definition io_resume :: "io_wait \<Rightarrow> kernel \<Rightarrow> sys_result" where
  "io_resume w k =
     do {
       addr \<leftarrow> argaddr 1 k;
       n \<leftarrow> argint 2 k;
       a \<leftarrow> argfd 0 k;
       (_, f) \<leftarrow> a;
       let pi = f_pipe (k_ftable k ! f);
       map_option (to_sys W_io)
         (case w of
            Wait_pipe_read \<Rightarrow> map_option (to_io id (\<lambda>_. Wait_pipe_read)) (piperead pi addr n k)
          | Wait_pipe_write i m \<Rightarrow> map_option (to_io id (\<lambda>(i, m). Wait_pipe_write i m)) (pipewrite_loop pi addr i m k)
          | Wait_console d m got \<Rightarrow>
              map_option (to_io fst (\<lambda>(d, m, got). Wait_console d m got)) (consoleread_loop d m n got k)) }"

definition syscall_resume :: "sys_wait \<Rightarrow> kernel \<Rightarrow> trap_result" where
  "syscall_resume w k0 =
     do {
       p \<leftarrow> k_cur k0;
       let k = sleep_resume k0;
       case w of
         W_io io \<Rightarrow> sys_finish p (io_resume io k)
       | W_child \<Rightarrow> sys_finish p (sys_wait_call k)
       | W_ticks ticks0 n \<Rightarrow> sys_finish p (pause_poll ticks0 n k)
       | W_agentq \<Rightarrow> sys_finish p (sys_agent_recv k)
       | W_confirm t0 \<Rightarrow> do { a \<leftarrow> confirm_poll t0 k; agent_gate p (syscall_num p k) a }
       | W_exited \<Rightarrow> panic ''zombie exit'' }"

section \<open>What a blocked call of an agent can lead to\<close>

text \<open>
  \<open>asks\<close>: the process sleeps until the host answers or a tick passes.  \<open>denied\<close>: the call returned
  -1.  In both, only the console output and the two variables of \<open>confirm.c\<close> have changed besides.
\<close>

definition asks :: "kernel \<Rightarrow> kernel \<Rightarrow> bool" where
  "asks k k' \<longleftrightarrow> (\<exists>out cf. sleep Ch_confirm (k\<lparr>k_out := out, k_confirm := cf\<rparr>) = Some k')"

definition denied :: "nat \<Rightarrow> kernel \<Rightarrow> kernel \<Rightarrow> bool" where
  "denied p k k' \<longleftrightarrow> (\<exists>out cf. k' = set_a0 p (- 1) (k\<lparr>k_out := out, k_confirm := cf\<rparr>))"

text \<open>The host's first answer for the pending request of process \<open>p\<close> in the trace is an allow.\<close>

definition consented :: "nat \<Rightarrow> clabel list \<Rightarrow> bool" where
  "consented p tr \<longleftrightarrow>
     (\<exists>before pid after allow. tr = before @ A_claim p pid # after \<and> (\<forall>l \<in> set after. \<not> is_claim l) \<and>
        first_answer pid after = Some allow \<and> allow \<noteq> 0)"

lemma record_same [simp]: "k\<lparr>k_out := k_out k\<rparr> = (k :: kernel)" "k\<lparr>k_confirm := k_confirm k\<rparr> = k"
  by simp_all

lemma asksI: "sleep Ch_confirm (k\<lparr>k_confirm := cf, k_out := out\<rparr>) = Some k' \<Longrightarrow> asks k k'"
proof -
  assume "sleep Ch_confirm (k\<lparr>k_confirm := cf, k_out := out\<rparr>) = Some k'"
  moreover have "k\<lparr>k_confirm := cf, k_out := out\<rparr> = k\<lparr>k_out := out, k_confirm := cf\<rparr>" by simp
  ultimately show ?thesis unfolding asks_def by metis
qed

lemma agent_gate_cases:
  assumes "agent_gate p num (res, k\<lparr>k_out := out, k_confirm := cf\<rparr>) = Some (r, k')" "res = Done 0"
  shows "r = Done () \<and> denied p k k'"
proof -
  have "k' = set_a0 p (- 1) (k\<lparr>k_out := k_out k', k_confirm := cf\<rparr>)"
    using assms by (auto simp: agent_gate_def printf_def set_a0_def upd_proc_def)
  then show ?thesis using assms by (auto simp: agent_gate_def denied_def)
qed

lemma agent_blocked_handled:
  "agent_blocked num \<Longrightarrow> num > 0 \<and> num < NELEM_syscalls \<and> syscalls num \<noteq> None"
  by (auto simp: agent_blocked_def NELEM_syscalls_def syscalls_def syscall_numbers)

lemma agent_syscall_entry:
  assumes "k_cur k = Some p" "p_is_agent (k_procs k ! p)" "agent_blocked (syscall_num p k)"
    and "syscall k = Some (res, k')"
  shows "((\<exists>t0. res = Sleep (W_confirm t0)) \<and> asks k k') \<or> (res = Done () \<and> denied p k k')"
proof (cases "cf_pending_pid (k_confirm k) = 0")
  case False
  then have "agent_gate p (syscall_num p k) (Done 0, k\<lparr>k_out := k_out k, k_confirm := k_confirm k\<rparr>) = Some (res, k')"
    using assms agent_blocked_handled [OF assms(3)]
    by (simp add: syscall_def confirm_request_def confirm_claim_def Let_def)
  from agent_gate_cases [OF this] show ?thesis by simp
next
  case True
  then show ?thesis
    using assms agent_blocked_handled [OF assms(3)]
    by (auto simp: syscall_def confirm_request_def confirm_claim_def confirm_announce_def confirm_poll_def
        CONFIRM_TIMEOUT_TICKS_def agent_gate_def printf_def Let_def split: bind_splits intro: asksI)
qed

lemma agent_syscall_resume:
  assumes "k_cur k = Some p" "syscall_resume (W_confirm t0) k = Some (res, k')"
  shows "(res = Sleep (W_confirm t0) \<and> asks (sleep_resume k) k') \<or>
    (res = Done () \<and> denied p (sleep_resume k) k') \<or>
    (cf_result (k_confirm k) = 1 \<and>
     call_handler p (syscall_num p (sleep_resume k)) (confirm_idle (sleep_resume k)) = Some (res, k'))"
proof -
  define k1 where "k1 = sleep_resume k"
  have conf: "k_confirm k1 = k_confirm k" by (simp add: k1_def sleep_resume_def split: option.splits)
  have idle: "confirm_idle k1 = k1\<lparr>k_out := k_out k1, k_confirm := \<lparr>cf_pending_pid = 0, cf_result = - 1\<rparr>\<rparr>"
    by (simp add: confirm_idle_def)
  obtain a k2 where a: "confirm_poll t0 k1 = Some (a, k2)"
    and g: "agent_gate p (syscall_num p k1) (a, k2) = Some (res, k')"
    using assms by (auto simp: syscall_resume_def k1_def Let_def split: bind_splits)
  show ?thesis
  proof (cases a)
    case (Sleep t)
    then have "res = Sleep (W_confirm t0)" "sleep Ch_confirm (k1\<lparr>k_out := k_out k1, k_confirm := k_confirm k1\<rparr>) = Some k'"
      using a g by (auto simp: confirm_poll_def agent_gate_def split: if_splits bind_splits)
    then show ?thesis unfolding k1_def [symmetric] asks_def by blast
  next
    case (Done rc)
    then have k2: "k2 = confirm_idle k1" and rc: "rc = 0 \<or> rc = 1 \<and> cf_result (k_confirm k) = 1"
      using a conf by (auto simp: confirm_poll_def split: if_splits bind_splits)
    show ?thesis
    proof (cases "rc = 0")
      case True
      then show ?thesis using agent_gate_cases [OF g [unfolded k2 idle]] Done by (simp add: k1_def)
    next
      case False
      then show ?thesis using rc g k2 Done by (simp add: agent_gate_def k1_def)
    qed
  qed
qed

text \<open>
  C2: an agent's \<open>exec\<close>, \<open>kill\<close> or \<open>mknod\<close> runs only with the host's consent.  In every
  interleaving of requesters, host answers, ticks and other kernel activity: entering such a
  call never runs its handler, it either puts the process to sleep with a request pending or
  returns -1; and when the waiting process runs again, the handler is reached only if the
  host's first answer to this very request was an allow.  In every other case nothing but
  console output, the confirm variables and \<open>a0\<close> changes.
\<close>

theorem agent_call_needs_consent:
  assumes "cexec s tr s'" "\<And>p. cs_phase s p = C_out"
    and "k_cur (cs_k s') = Some p" "p_is_agent (k_procs (cs_k s') ! p)" "agent_blocked (syscall_num p (cs_k s'))"
  shows "(\<forall>res k'. syscall (cs_k s') = Some (res, k') \<longrightarrow>
      ((\<exists>t0. res = Sleep (W_confirm t0)) \<and> asks (cs_k s') k') \<or> (res = Done () \<and> denied p (cs_k s') k')) \<and>
    (\<forall>t0 res k'. cs_phase s' p = C_waiting t0 \<longrightarrow> syscall_resume (W_confirm t0) (cs_k s') = Some (res, k') \<longrightarrow>
      (res = Sleep (W_confirm t0) \<and> asks (sleep_resume (cs_k s')) k') \<or>
      (res = Done () \<and> denied p (sleep_resume (cs_k s')) k') \<or>
      (consented p tr \<and>
       call_handler p (syscall_num p (sleep_resume (cs_k s'))) (confirm_idle (sleep_resume (cs_k s'))) = Some (res, k')))"
proof -
  have "consented p tr" if ph: "cs_phase s' p = C_waiting t0" and r: "cf_result (k_confirm (cs_k s')) = 1" for t0
  proof -
    from confirm_inv_exec [OF assms(1,2)] ph obtain before after where
      "tr = before @ A_claim p (cf_pending_pid (k_confirm (cs_k s'))) # after" "\<forall>l \<in> set after. \<not> is_claim l"
      and v: "cf_result (k_confirm (cs_k s')) = verdict (first_answer (cf_pending_pid (k_confirm (cs_k s'))) after)"
      unfolding confirm_inv_def by (metis cphase.distinct(3))
    moreover obtain allow where "first_answer (cf_pending_pid (k_confirm (cs_k s'))) after = Some allow" "allow \<noteq> 0"
      using v r by (auto simp: verdict_def split: option.splits if_splits)
    ultimately show ?thesis unfolding consented_def by blast
  qed
  then show ?thesis
    using agent_syscall_entry [OF assms(3-5)] agent_syscall_resume [OF assms(3)] by blast
qed

text \<open>An agent with pid 1 that calls \<open>kill(1)\<close>, and the host's answer.\<close>

definition agent_kill_sample :: kernel where
  "agent_kill_sample = confirminit (kernel_boot\<lparr>k_cur := Some 0,
      k_procs := [(proc_boot 0)\<lparr>p_state := RUNNING, p_pid := 1, p_is_agent := True,
        p_tf := (\<lambda>_. 0)(tf_a7 := 6, tf_a0 := 1)\<rparr>]\<rparr>)"

theorem agent_call_needs_consent_witness:
  "\<exists>s s' k'. cexec s [A_claim 0 1, A_announce 0, A_host 1 1] s' \<and>
     cs_phase s' 0 = C_waiting 0 \<and> p_is_agent (k_procs (cs_k s') ! 0) \<and> agent_blocked (syscall_num 0 (cs_k s')) \<and>
     syscall_resume (W_confirm 0) (cs_k s') = Some (Done (), k') \<and> p_killed (k_procs k' ! 0) \<and>
     consented 0 [A_claim 0 1, A_announce 0, A_host 1 1]"
proof -
  define k0 where "k0 = agent_kill_sample"
  define k1 where "k1 = k0\<lparr>k_confirm := \<lparr>cf_pending_pid = 1, cf_result = - 1\<rparr>\<rparr>"
  define k2 where "k2 = snd (confirm_announce 0 6 None k1)"
  define k3 where "k3 = confirm_resolve 1 1 k2"
  define s0 where "s0 = \<lparr>cs_k = k0, cs_phase = (\<lambda>_. C_out)\<rparr>"
  define s1 where "s1 = \<lparr>cs_k = k1, cs_phase = (\<lambda>_. C_out)(0 := C_claimed)\<rparr>"
  define s2 where "s2 = \<lparr>cs_k = k2, cs_phase = (\<lambda>_. C_out)(0 := C_waiting 0)\<rparr>"
  define s3 where "s3 = s2\<lparr>cs_k := k3\<rparr>"
  let ?p = "(proc_boot 0)\<lparr>p_state := RUNNING, p_pid := 1, p_is_agent := True,
        p_tf := (\<lambda>_. 0)(tf_a7 := 6, tf_a0 := 1)\<rparr>"
  have k0: "k_procs k0 = [?p]" "k_cur k0 = Some 0" "k_confirm k0 = \<lparr>cf_pending_pid = 0, cf_result = - 1\<rparr>" "k_ticks k0 = 0"
    by (simp_all add: k0_def agent_kill_sample_def confirminit_def kernel_boot_def)
  have k2: "k_procs k2 = [?p]" "k_cur k2 = Some 0" "k_confirm k2 = \<lparr>cf_pending_pid = 1, cf_result = - 1\<rparr>" "k_ticks k2 = 0"
    by (simp_all add: k2_def k1_def confirm_announce_def k0)
  have k3: "k_procs k3 = [?p]" "k_cur k3 = Some 0" "k_confirm k3 = \<lparr>cf_pending_pid = 1, cf_result = 1\<rparr>" "k_ticks k3 = 0"
    by (simp_all add: k3_def k2 confirm_resolve_def wakeup_def)
  have "cstep s0 (A_claim 0 1) s1"
    using cstep.claim [of s0 0 k1] k0 by (simp add: s0_def s1_def confirm_claim_def k1_def)
  moreover have "cstep s1 (A_announce 0) s2"
    using cstep.announce [of s1 0 6 None 0 k2]
    by (simp add: s1_def s2_def k2_def confirm_announce_def k1_def k0)
  moreover have "cstep s2 (A_host 1 1) s3"
    using cstep.host [of s2 1 1] by (simp add: s2_def s3_def k3_def)
  ultimately have ex: "cexec s0 [A_claim 0 1, A_announce 0, A_host 1 1] s3"
    using cexec_nil [of s0] cexec_snoc [of s0 "[]"] cexec_snoc [of s0 "[A_claim 0 1]"]
      cexec_snoc [of s0 "[A_claim 0 1, A_announce 0]"] by (simp, blast)
  have num: "syscall_num 0 k3 = 6" by (simp add: syscall_num_def k3 int32_def signed_take_bit_eq_if_positive bit_numeral_rec)
  then have bl: "agent_blocked (syscall_num 0 (cs_k s3))" by (simp add: s3_def agent_blocked_def syscall_numbers)
  define k4 where "k4 = confirm_idle (sleep_resume k3)"
  define k5 where "k5 = set_a0 0 0 (snd (kkill 1 k4))"
  have k4: "k_procs k4 = [?p]" "k_cur k4 = Some 0"
    by (simp_all add: k4_def confirm_idle_def sleep_resume_def k3 upd_proc_def proc_boot_def)
  have "syscall_resume (W_confirm 0) k3 = call_handler 0 6 k4"
    by (simp add: syscall_resume_def k3 confirm_poll_def sleep_resume_def k4_def agent_gate_def)
      (simp add: syscall_num_def k3 int32_def)
  also have "\<dots> = Some (Done (), k5)"
    by (simp add: call_handler_def syscalls_def syscall_numbers sys_kill_def argint_def argraw_def myproc_def k4
        int32_def kkill_def sys_finish_def k5_def)
  finally have run: "syscall_resume (W_confirm 0) (cs_k s3) = Some (Done (), k5)" by (simp add: s3_def)
  have k5: "p_killed (k_procs k5 ! 0)" "p_tf (k_procs k5 ! 0) tf_a0 = 0"
    by (simp_all add: k5_def set_a0_def kkill_def k4 upd_proc_def)
  have "\<not> denied 0 (sleep_resume (cs_k s3)) k5"
    using k5(2) by (auto simp: denied_def set_a0_def s3_def sleep_resume_def k3 upd_proc_def)
  then have "consented 0 [A_claim 0 1, A_announce 0, A_host 1 1]"
    using agent_call_needs_consent [OF ex] bl run by (auto simp: s0_def s3_def s2_def k3)
  then show ?thesis using ex bl run k5(1) by (intro exI [of _ s0] exI [of _ s3] exI [of _ k5]) (simp add: s3_def s2_def k3)
qed

end
