(* ===== verification/Trap.thy ===== *)
theory Trap
  imports Syscall
begin

unbundle bit_operations_syntax

text \<open>
  Traps, \<open>kernel/trap.c\<close>: entry from user space, return to user space, traps taken inside the
  kernel, the clock and device interrupts.  The control and status registers and the device
  registers a trap reads are the record \<open>hart\<close>; \<open>hart_syms\<close> are the addresses of the functions
  whose addresses the code stores.

  \<open>usertrap\<close> gives up the CPU inside a system call that sleeps, at a timer tick and in \<open>kexit\<close>; what
  the process does when it runs again is \<open>usertrap_resume\<close>.
\<close>

section \<open>Registers\<close>

record hart =
  h_sstatus :: u64
  h_sepc :: u64
  h_scause :: u64
  h_stval :: u64
  h_stvec :: u64
  h_satp :: u64
  h_tp :: u64
  h_time :: u64
  h_stimecmp :: u64
  h_plic :: u32           \<comment> \<open>what a read of this hart's claim register returns\<close>
  h_plic_done :: "u32 list" \<comment> \<open>what was written to it\<close>
  h_uart_rx :: string     \<comment> \<open>the receive FIFO of the UART\<close>

record hart_syms =
  sym_kernelvec :: u64
  sym_uservec :: u64
  sym_usertrap :: u64

definition SSTATUS_SPP :: u64 where "SSTATUS_SPP = push_bit 8 1"
definition SSTATUS_SPIE :: u64 where "SSTATUS_SPIE = push_bit 5 1"
definition SSTATUS_SIE :: u64 where "SSTATUS_SIE = push_bit 1 1"
definition SATP_SV39 :: u64 where "SATP_SV39 = push_bit 60 8"
definition MAKE_SATP :: "u64 \<Rightarrow> u64" where "MAKE_SATP pagetable = SATP_SV39 OR drop_bit 12 pagetable"
definition UART0_IRQ :: u32 where "UART0_IRQ = 10"
definition VIRTIO0_IRQ :: u32 where "VIRTIO0_IRQ = 1"

definition intr_on :: "hart \<Rightarrow> hart" where
  "intr_on h = h\<lparr>h_sstatus := h_sstatus h OR SSTATUS_SIE\<rparr>"

definition intr_off :: "hart \<Rightarrow> hart" where
  "intr_off h = h\<lparr>h_sstatus := h_sstatus h AND NOT SSTATUS_SIE\<rparr>"

definition intr_get :: "hart \<Rightarrow> bool" where
  "intr_get h \<longleftrightarrow> h_sstatus h AND SSTATUS_SIE \<noteq> 0"

definition trapinithart :: "hart_syms \<Rightarrow> hart \<Rightarrow> hart" where
  "trapinithart S h = h\<lparr>h_stvec := sym_kernelvec S\<rparr>"

section \<open>Interrupts\<close>

definition plic_claim :: "hart \<Rightarrow> u32" where
  "plic_claim h = h_plic h"

definition plic_complete :: "u32 \<Rightarrow> hart \<Rightarrow> hart" where
  "plic_complete irq h = h\<lparr>h_plic_done := h_plic_done h @ [irq]\<rparr>"

text \<open>\<open>cpuid()\<close> is the \<open>tp\<close> register.\<close>

definition clockintr :: "hart \<Rightarrow> kernel \<Rightarrow> hart \<times> kernel" where
  "clockintr h k =
     (let k = (if h_tp h = 0
               then confirm_tick (wakeup Ch_ticks (k\<lparr>k_ticks := k_ticks k + 1\<rparr>)) else k)
      in (h\<lparr>h_stimecmp := h_time h + 1000000\<rparr>, k))"

text \<open>
  A disk interrupt completes requests of the disk driver; the blocks are modelled as the buffer
  layer presents them, so it changes nothing here.
\<close>

definition devintr :: "hart \<Rightarrow> kernel \<Rightarrow> nat \<times> hart \<times> kernel" where
  "devintr h k =
     (if h_scause h = 0x8000000000000009
      then
        let irq = plic_claim h;
            (h, k) =
              (if irq = UART0_IRQ then (h\<lparr>h_uart_rx := []\<rparr>, uartintr (h_uart_rx h) k)
               else if irq = VIRTIO0_IRQ then (h, k)
               else if irq \<noteq> 0
               then (h, printf (''unexpected interrupt irq=%d'' @ [CHR 0x0A]) [VInt (sint irq)] k)
               else (h, k))
        in (1, if irq \<noteq> 0 then plic_complete irq h else h, k)
      else if h_scause h = 0x8000000000000005
      then (let (h, k) = clockintr h k in (2, h, k))
      else (0, h, k))"

section \<open>Return to user space\<close>

definition set_tf :: "nat \<Rightarrow> tfreg \<Rightarrow> u64 \<Rightarrow> kernel \<Rightarrow> kernel" where
  "set_tf p r v k = upd_proc p (\<lambda>q. q\<lparr>p_tf := (p_tf q)(r := v)\<rparr>) k"

definition prepare_return :: "hart_syms \<Rightarrow> hart \<Rightarrow> kernel \<Rightarrow> (hart \<times> kernel) option" where
  "prepare_return S h k =
     do {
       p \<leftarrow> k_cur k;
       let h = intr_off h;
       let h = h\<lparr>h_stvec := TRAMPOLINE + (sym_uservec S - k_trampoline k)\<rparr>;
       let k = set_tf p tf_kernel_satp (h_satp h) k;
       let k = set_tf p tf_kernel_sp (p_kstack (k_procs k ! p) + PGSIZE) k;
       let k = set_tf p tf_kernel_trap (sym_usertrap S) k;
       let k = set_tf p tf_kernel_hartid (h_tp h) k;
       let x = h_sstatus h;
       let x = x AND NOT SSTATUS_SPP;
       let x = x OR SSTATUS_SPIE;
       let h = h\<lparr>h_sstatus := x\<rparr>;
       Some (h\<lparr>h_sepc := p_tf (k_procs k ! p) tf_epc\<rparr>, k) }"

section \<open>Traps from user space\<close>

text \<open>Where a process that is inside \<open>usertrap\<close> stands when it does not have the CPU.\<close>

datatype trap_wait = T_syscall sys_wait | T_yield | T_exited

type_synonym usertrap_result = "((u64, trap_wait) blocking \<times> hart \<times> kernel) option"

text \<open>The end of \<open>usertrap\<close>: the value is the \<open>satp\<close> for the trampoline.\<close>

definition usertrap_finish :: "hart_syms \<Rightarrow> hart \<Rightarrow> kernel \<Rightarrow> usertrap_result" where
  "usertrap_finish S h k =
     do {
       k \<leftarrow> agent_drain k;
       (h, k) \<leftarrow> prepare_return S h k;
       p \<leftarrow> k_cur k;
       Some (Done (MAKE_SATP (p_pagetable (k_procs k ! p))), h, k) }"

definition trap_exit :: "hart \<Rightarrow> kernel \<Rightarrow> usertrap_result" where
  "trap_exit h k = do { k \<leftarrow> kexit (- 1) k; Some (Sleep T_exited, h, k) }"

text \<open>From the second test of \<open>killed\<close> on.\<close>

definition usertrap_tail :: "hart_syms \<Rightarrow> nat \<Rightarrow> nat \<Rightarrow> hart \<Rightarrow> kernel \<Rightarrow> usertrap_result" where
  "usertrap_tail S which_dev p h k =
     (if killed p k then trap_exit h k
      else if which_dev = 2
      then do { k \<leftarrow> yield (charge_tick k); Some (Sleep T_yield, h, k) }
      else usertrap_finish S h k)"

definition usertrap_after :: "hart_syms \<Rightarrow> nat \<Rightarrow> hart \<Rightarrow> trap_result \<Rightarrow> usertrap_result" where
  "usertrap_after S p h r =
     do {
       (res, k) \<leftarrow> r;
       case res of
         Sleep W_exited \<Rightarrow> Some (Sleep T_exited, h, k)
       | Sleep w \<Rightarrow> Some (Sleep (T_syscall w), h, k)
       | Done _ \<Rightarrow> usertrap_tail S 0 p h k }"

text \<open>A page fault on a lazily allocated page; whether it was one.\<close>

definition lazy_fault :: "nat \<Rightarrow> hart \<Rightarrow> kernel \<Rightarrow> (bool \<times> kernel) option" where
  "lazy_fault p h k =
     (if h_scause h = 15 \<or> h_scause h = 13
      then do { (pa, k) \<leftarrow> vmfault (p_pagetable (k_procs k ! p)) (h_stval h) k; Some (pa \<noteq> 0, k) }
      else Some (False, k))"

definition trap_unexpected :: "nat \<Rightarrow> hart \<Rightarrow> kernel \<Rightarrow> kernel" where
  "trap_unexpected p h k =
     (let k = printf (''usertrap(): unexpected scause 0x%lx pid=%d'' @ [CHR 0x0A])
                [VLong (h_scause h), VInt (p_pid (k_procs k ! p))] k;
          k = printf (''            sepc=0x%lx stval=0x%lx'' @ [CHR 0x0A])
                [VLong (h_sepc h), VLong (h_stval h)] k
      in setkilled p k)"

definition usertrap :: "hart_syms \<Rightarrow> hart \<Rightarrow> kernel \<Rightarrow> usertrap_result" where
  "usertrap S h k =
     (if h_sstatus h AND SSTATUS_SPP \<noteq> 0 then panic ''usertrap: not from user mode''
      else do {
        let h = h\<lparr>h_stvec := sym_kernelvec S\<rparr>;
        p \<leftarrow> k_cur k;
        let k = set_tf p tf_epc (h_sepc h) k;
        if h_scause h = 8
        then
          if killed p k then trap_exit h k
          else
            let k = set_tf p tf_epc (p_tf (k_procs k ! p) tf_epc + 4) k;
                h = intr_on h
            in usertrap_after S p h (syscall k)
        else
          let (which_dev, h, k) = devintr h k
          in if which_dev \<noteq> 0 then usertrap_tail S which_dev p h k
             else do {
               (handled, k) \<leftarrow> lazy_fault p h k;
               usertrap_tail S 0 p h (if handled then k else trap_unexpected p h k) } })"

definition usertrap_resume :: "hart_syms \<Rightarrow> trap_wait \<Rightarrow> hart \<Rightarrow> kernel \<Rightarrow> usertrap_result" where
  "usertrap_resume S w h k =
     do {
       p \<leftarrow> k_cur k;
       case w of
         T_syscall sw \<Rightarrow> usertrap_after S p h (syscall_resume sw k)
       | T_yield \<Rightarrow> usertrap_finish S h k
       | T_exited \<Rightarrow> panic ''zombie exit'' }"

section \<open>Traps from the kernel\<close>

text \<open>
  At a timer tick the kernel thread of the current process yields; its registers are restored
  when it runs again, by \<open>kerneltrap_restore\<close>.
\<close>

definition kerneltrap_restore :: "u64 \<Rightarrow> u64 \<Rightarrow> hart \<Rightarrow> hart" where
  "kerneltrap_restore sepc sstatus h = h\<lparr>h_sepc := sepc, h_sstatus := sstatus\<rparr>"

definition kerneltrap :: "hart \<Rightarrow> kernel \<Rightarrow> ((unit, u64 \<times> u64) blocking \<times> hart \<times> kernel) option" where
  "kerneltrap h k =
     (let sepc = h_sepc h; sstatus = h_sstatus h
      in if sstatus AND SSTATUS_SPP = 0 then panic ''kerneltrap: not from supervisor mode''
         else if intr_get h then panic ''kerneltrap: interrupts enabled''
         else
           let (which_dev, h, k) = devintr h k
           in if which_dev = 0 then panic ''kerneltrap''
              else if which_dev = 2 \<and> k_cur k \<noteq> None
              then do { k \<leftarrow> yield (charge_tick k); Some (Sleep (sepc, sstatus), h, k) }
              else Some (Done (), kerneltrap_restore sepc sstatus h, k))"

end
