(* ===== verification/Proc_Frame.thy ===== *)
theory Proc_Frame
  imports Trap
begin

text \<open>
  What the kernel's functions do to the process table.  Most of them only wake sleepers:
  \<open>proc_part\<close>, the table up to wakeups with the current process and the next pid, is
  unchanged (first sections, collected in \<open>proc_part_facts\<close>).  Functions that sleep or change fields of the current process keep
  \<open>conf_part\<close>, the part that decides identity and confinement of every process (\<open>quiet_facts\<close>).
\<close>

definition proc_part :: "kernel \<Rightarrow> proc list \<times> nat option \<times> int \<times> nat option" where
  "proc_part k = (map proc_id (k_procs k), k_cur k, k_nextpid k, k_initproc k)"

named_theorems proc_part_facts \<open>operations that leave \<open>proc_part\<close> alone\<close>

lemma pp_ap: "agent_part k' = agent_part k \<Longrightarrow> proc_part k' = proc_part k"
  by (simp add: agent_part_def proc_part_def)

declare kalloc_ap [agent_part_facts del]

lemmas pp_of_ap [proc_part_facts] = agent_part_facts [THEN pp_ap]

lemma pp_simps [simp]:
  "proc_part (upd_ino i f k) = proc_part k" "proc_part (wakeup c k) = proc_part k"
  "proc_part (printf fmt ap k) = proc_part k" "proc_part (upd_file fi g k) = proc_part k"
  "proc_part (upd_pipe pi pp k) = proc_part k" "proc_part (k\<lparr>k_mem := m\<rparr>) = proc_part k"
  "proc_part (k\<lparr>k_pipes := pm\<rparr>) = proc_part k" "proc_part (k\<lparr>k_pending := pe\<rparr>) = proc_part k"
  "proc_part (k\<lparr>k_confirm := cf\<rparr>) = proc_part k" "proc_part (k\<lparr>k_cache := es\<rparr>) = proc_part k"
  "proc_part (k\<lparr>k_intake := iq\<rparr>) = proc_part k" "proc_part (k\<lparr>k_agentq := aq\<rparr>) = proc_part k"
  "proc_part (k\<lparr>k_cons := co\<rparr>) = proc_part k" "proc_part (k\<lparr>k_deny := dl\<rparr>) = proc_part k"
  "proc_part (k\<lparr>k_ticks := t\<rparr>) = proc_part k" "proc_part (zero_page p k) = proc_part k"
  by (simp_all add: proc_part_def upd_ino_def upd_file_def upd_pipe_def zero_page_def map_wakeup)

section \<open>Memory\<close>

lemma unmap_loop_ap: "unmap_loop pt a stop df k = Some k' \<Longrightarrow> agent_part k' = agent_part k"
proof (induction "va_left a" arbitrary: a k df rule: less_induct)
  case less
  show ?case
    using less.prems by (subst (asm) unmap_loop.simps)
      (auto simp: Let_def split: if_splits option.splits prod.splits
        dest!: kfree_ap less.hyps [OF va_left_step [OF walk_range], rotated])
qed

lemma uvmunmap_ap: "uvmunmap pt va n df k = Some k' \<Longrightarrow> agent_part k' = agent_part k"
  by (auto simp: uvmunmap_def panic_simps unmap_loop_ap split: if_splits)

lemma uvmdealloc_ap: "uvmdealloc pt a b k = Some (r, k') \<Longrightarrow> agent_part k' = agent_part k"
  by (auto simp: uvmdealloc_def Let_def split: if_splits bind_splits dest!: uvmunmap_ap)

lemma mappages_ap_range:
  "mappages pt a sz pa perm k = Some (r, k') \<Longrightarrow> a < MAXVA \<and> agent_part k' = agent_part k"
  using mappages_range mappages_ap by blast

lemma uvmalloc_loop_ap: "uvmalloc_loop pt a old new xp k = Some (r, k') \<Longrightarrow> agent_part k' = agent_part k"
proof (induction "va_left a" arbitrary: a k rule: less_induct)
  case less
  show ?case
    using less.prems by (subst (asm) uvmalloc_loop.simps)
      (auto simp: Let_def split: if_splits option.splits prod.splits bind_splits
        dest!: kalloc_ap' kfree_ap uvmdealloc_ap mappages_ap_range less.hyps [OF va_left_step, rotated])
qed

lemma uvmalloc_ap: "uvmalloc pt a b xp k = Some (r, k') \<Longrightarrow> agent_part k' = agent_part k"
  by (auto simp: uvmalloc_def uvmalloc_loop_ap split: if_splits)

lemma uvmcreate_ap: "uvmcreate k = (pt, k') \<Longrightarrow> agent_part k' = agent_part k"
  by (auto simp: uvmcreate_def Let_def split: prod.splits if_splits dest!: kalloc_ap')

lemma iter_option_inv:
  assumes "iter_option f xs s = Some s'" and "\<And>x s s'. f x s = Some s' \<Longrightarrow> g s' = g s"
  shows "g s' = g s"
  using assms by (induction xs arbitrary: s) (auto split: bind_splits)

lemma freewalk_ap: "freewalk n pt k = Some k' \<Longrightarrow> agent_part k' = agent_part k"
proof (induction n arbitrary: pt k k')
  case (Suc n)
  from Suc.prems obtain k1 where it: "iter_option (\<lambda>i k.
            let pte = load64 (k_mem k) (pte_addr pt (of_nat i))
            in if pte AND PTE_V \<noteq> 0 \<and> pte AND (PTE_R OR PTE_W OR PTE_X) = 0
               then do { k \<leftarrow> freewalk n (PTE2PA pte) k;
                         Some (k\<lparr>k_mem := store64 (k_mem k) (pte_addr pt (of_nat i)) 0\<rparr>) }
               else if pte AND PTE_V \<noteq> 0 then panic ''freewalk: leaf''
               else Some k) [0..<512] k = Some k1" and kf: "kfree pt k1 = Some k'"
    by (auto simp del: iter_option.simps split: bind_splits)
  have "agent_part k1 = agent_part k"
    by (rule iter_option_inv [OF it])
      (auto simp: Let_def panic_simps split: if_splits bind_splits dest!: Suc.IH)
  with kfree_ap [OF kf] show ?case by simp
qed simp

lemma uvmfree_ap: "uvmfree pt sz k = Some k' \<Longrightarrow> agent_part k' = agent_part k"
  by (auto simp: uvmfree_def split: if_splits bind_splits dest!: uvmunmap_ap freewalk_ap)

lemma uvmcopy_err_ap: "uvmcopy_err new i k = Some (r, k') \<Longrightarrow> agent_part k' = agent_part k"
  by (auto simp: uvmcopy_err_def split: bind_splits dest!: uvmunmap_ap)

lemma uvmcopy_loop_ap: "uvmcopy_loop old new i sz k = Some (r, k') \<Longrightarrow> agent_part k' = agent_part k"
proof (induction "va_left i" arbitrary: i k rule: less_induct)
  case less
  show ?case
    using less.prems by (subst (asm) uvmcopy_loop.simps)
      (auto simp: Let_def split: if_splits option.splits prod.splits bind_splits
        dest!: kalloc_ap' kfree_ap uvmcopy_err_ap mappages_ap less.hyps [OF va_left_step [OF walk_range], rotated])
qed

lemma uvmcopy_ap: "uvmcopy old new sz k = Some (r, k') \<Longrightarrow> agent_part k' = agent_part k"
  by (simp add: uvmcopy_def uvmcopy_loop_ap)

lemma uvmclear_ap: "uvmclear pt va k = Some k' \<Longrightarrow> agent_part k' = agent_part k"
  by (auto simp: uvmclear_def panic_simps split: if_splits bind_splits dest!: walk_ap)

lemma proc_pagetable_ap: "proc_pagetable p k = Some (pt, k') \<Longrightarrow> agent_part k' = agent_part k"
  by (auto simp: proc_pagetable_def Let_def split: if_splits bind_splits prod.splits
      dest!: uvmcreate_ap mappages_ap uvmfree_ap uvmunmap_ap)

lemma proc_freepagetable_ap: "proc_freepagetable pt sz k = Some k' \<Longrightarrow> agent_part k' = agent_part k"
  by (auto simp: proc_freepagetable_def split: bind_splits dest!: uvmfree_ap uvmunmap_ap)

lemmas vm_pp [proc_part_facts] =
  uvmunmap_ap [THEN pp_ap] uvmdealloc_ap [THEN pp_ap] uvmalloc_ap [THEN pp_ap] uvmcreate_ap [THEN pp_ap]
  uvmfree_ap [THEN pp_ap] uvmcopy_ap [THEN pp_ap] uvmclear_ap [THEN pp_ap] proc_pagetable_ap [THEN pp_ap]
  proc_freepagetable_ap [THEN pp_ap]

section \<open>The agent command path\<close>

lemma pp_ram [simp]: "proc_part (ram_promote h bs v k) = proc_part k"
  by (simp add: ram_promote_def Let_def split: option.splits)

lemma pp_hit: "ram_hit i vb k = (v, bs, k') \<Longrightarrow> proc_part k' = proc_part k"
  by (auto simp: ram_hit_def Let_def)

lemma pp_cache_set [proc_part_facts]: "cache_set key klen val vlen k = Some (r, k') \<Longrightarrow> proc_part k' = proc_part k"
  by (auto simp: cache_set_def Let_def split: if_splits prod.splits option.splits bind_splits
      dest!: disk_append_cache [THEN pp_ap])

lemma pp_cache_exact [proc_part_facts]: "cache_get_exact key klen vb k = Some (v, bs, k') \<Longrightarrow> proc_part k' = proc_part k"
  by (auto simp: cache_get_exact_def Let_def split: if_splits option.splits bind_splits
      dest!: disk_scan_bound(4) [THEN pp_ap] pp_hit)

lemma pp_cache_semantic: "cache_get_semantic key klen vb k = (v, bs, sc, k') \<Longrightarrow> proc_part k' = proc_part k"
  by (auto simp: cache_get_semantic_def Let_def split: if_splits option.splits prod.splits
      dest!: pp_hit)

lemma pp_cache_get [proc_part_facts]: "cache_get key klen vb k = Some (v, bs, k') \<Longrightarrow> proc_part k' = proc_part k"
  by (auto simp: cache_get_def Let_def split: if_splits bind_splits prod.splits
      dest!: pp_cache_exact pp_cache_semantic)

lemma pp_agentcmd [simp]:
  "proc_part (confirm_resolve pid a k) = proc_part k"
  "proc_part (forward_to_agentd s k) = proc_part k"
  "proc_part (forward_wire_to_agentd s k) = proc_part k"
  "proc_part (confirm_tick k) = proc_part k"
  by (simp_all add: confirm_resolve_def forward_to_agentd_def forward_wire_to_agentd_def confirm_tick_def Let_def)

lemma pp_confirm_res [simp]: "proc_part (handle_confirm_res arg k) = proc_part k"
  by (simp add: handle_confirm_res_def Let_def split: prod.splits)

lemma pp_inline: "try_inline_confirm_res line k = (b, k') \<Longrightarrow> proc_part k' = proc_part k"
  by (auto simp: try_inline_confirm_res_def Let_def split: if_splits option.splits prod.splits)

lemma pp_dispatch [simp]: "proc_part (agent_dispatch line k) = proc_part k"
  by (auto simp: agent_dispatch_def Let_def split: prod.splits dest!: pp_inline)

lemma pp_ask: "handle_ask arg k = Some k' \<Longrightarrow> proc_part k' = proc_part k"
  by (auto simp: handle_ask_def Let_def split: if_splits bind_splits prod.splits
      dest!: pp_cache_exact pp_cache_semantic)

lemma pp_llm_resp: "handle_llm_resp arg k = Some k' \<Longrightarrow> proc_part k' = proc_part k"
  by (auto simp: handle_llm_resp_def Let_def split: if_splits bind_splits dest!: pp_cache_set)

lemma pp_dispatch_now [proc_part_facts]: "agent_dispatch_now line k = Some k' \<Longrightarrow> proc_part k' = proc_part k"
  by (auto simp: agent_dispatch_now_def handle_cache_get_def handle_cache_set_def Let_def
      split: if_splits option.splits bind_splits prod.splits dest!: pp_ask pp_llm_resp pp_cache_get pp_cache_set)

lemma pp_arrive [simp]: "proc_part (arrive ars k) = proc_part k"
proof -
  have "proc_part (fold agent_dispatch ls k) = proc_part k" for ls by (induction ls arbitrary: k) simp_all
  then show ?thesis by (simp add: arrive_def)
qed

lemma pp_drain_locked: "agent_drain_locked ars n k = Some k' \<Longrightarrow> proc_part k' = proc_part k"
  by (induction n arbitrary: ars k) (auto simp: Let_def split: option.splits prod.splits bind_splits dest!: pp_dispatch_now)

lemma pp_drain [proc_part_facts]: "agent_drain k = Some k' \<Longrightarrow> proc_part k' = proc_part k"
  by (auto simp: agent_drain_def pp_drain_locked split: if_splits)

section \<open>Console\<close>

lemma pp_consputc [simp]: "proc_part (consputc c k) = proc_part k"
  by (simp add: consputc_def proc_part_def)

lemma pp_kill_line [simp]: "proc_part (kill_line n k) = proc_part k"
  by (induction n arbitrary: k) (auto simp: Let_def)

lemma pp_echo [simp]: "proc_part (cons_echo ch k) = proc_part k"
  by (simp add: cons_echo_def Let_def)

lemma pp_line_end [simp]: "proc_part (cons_line_end k) = proc_part k"
  by (simp add: cons_line_end_def Let_def)

lemma pp_procdump [simp]: "proc_part (procdump k) = proc_part k"
proof -
  have "proc_part (fold procdump_line ps k) = proc_part k" for ps k
    by (induction ps arbitrary: k) (auto simp: procdump_line_def)
  then show ?thesis by (simp add: procdump_def)
qed

lemma pp_consoleintr [simp]: "proc_part (consoleintr ch k) = proc_part k"
  by (simp add: consoleintr_def Let_def)

lemma pp_uartintr [simp]: "proc_part (uartintr rx k) = proc_part k"
  unfolding uartintr_def by (induction rx arbitrary: k) auto

lemma pp_uartwrite [simp]: "proc_part (uartwrite bs k) = proc_part k"
  by (simp add: uartwrite_def proc_part_def)

lemma pp_consolewrite_loop: "consolewrite_loop src i n k = Some (r, k') \<Longrightarrow> proc_part k' = proc_part k"
proof (induction "nat (n - i)" arbitrary: src i k rule: less_induct)
  case less
  show ?case
    using less.prems by (subst (asm) consolewrite_loop.simps)
      (auto simp: Let_def split: if_splits option.splits prod.splits bind_splits
        dest!: either_copyin_ap [THEN pp_ap] less.hyps [rotated])
qed

lemma pp_consolewrite [proc_part_facts]: "consolewrite src n k = Some (r, k') \<Longrightarrow> proc_part k' = proc_part k"
  by (simp add: consolewrite_def pp_consolewrite_loop)

section \<open>Files\<close>

lemma pp_pipeclose [proc_part_facts]: "pipeclose pi w k = Some k' \<Longrightarrow> proc_part k' = proc_part k"
  by (auto simp: pipeclose_def Let_def split: if_splits bind_splits dest!: kfree_ap [THEN pp_ap])

lemma pp_filealloc [proc_part_facts]: "filealloc k = (f, k') \<Longrightarrow> proc_part k' = proc_part k"
  by (auto simp: filealloc_def split: option.splits)

lemma pp_filedup [proc_part_facts]: "filedup f k = Some k' \<Longrightarrow> proc_part k' = proc_part k"
  by (auto simp: filedup_def panic_simps split: if_splits)

lemma pp_fileclose [proc_part_facts]: "fileclose f k = Some k' \<Longrightarrow> proc_part k' = proc_part k"
  by (auto simp: fileclose_def panic_simps Let_def split: if_splits bind_splits
      dest!: pp_pipeclose begin_op_ap [THEN pp_ap] iput_ap [THEN pp_ap] end_op_ap [THEN pp_ap])

lemma pp_pipe_bad: "pipe_bad pi f0 f1 k = Some (r, k') \<Longrightarrow> proc_part k' = proc_part k"
  by (auto simp: pipe_bad_def split: if_splits bind_splits option.splits
      dest!: pp_fileclose kfree_ap [THEN pp_ap])

lemma pp_pipealloc [proc_part_facts]: "pipealloc k = Some (r, k') \<Longrightarrow> proc_part k' = proc_part k"
  by (auto simp: pipealloc_def Let_def split: if_splits prod.splits option.splits
      dest!: pp_filealloc pp_pipe_bad kalloc_ap' [THEN pp_ap])

lemma pp_filestat [proc_part_facts]: "filestat f a k = Some (r, k') \<Longrightarrow> proc_part k' = proc_part k"
  by (auto simp: filestat_def Let_def split: if_splits bind_splits
      dest!: ilock_ap [THEN pp_ap] iunlock_ap [THEN pp_ap] copyout_ap [THEN pp_ap])

lemma pp_filewrite_loop [proc_part_facts]: "filewrite_loop f ip a i n k = Some (r, k') \<Longrightarrow> proc_part k' = proc_part k"
proof (induction "nat (n - i)" arbitrary: i k rule: less_induct)
  case less
  show ?case
    using less.prems by (subst (asm) filewrite_loop.simps)
      (auto simp: Let_def write_max_def MAXOPBLOCKS_def BSIZE_def split: if_splits option.splits prod.splits
        dest!: begin_op_ap [THEN pp_ap] ilock_ap [THEN pp_ap] writei_ap [THEN pp_ap] iunlock_ap [THEN pp_ap]
          end_op_ap [THEN pp_ap] less.hyps [rotated])
qed

section \<open>Identity and confinement\<close>

text \<open>Whether a process is free, being made, alive or exited.\<close>

definition live_state :: "procstate \<Rightarrow> procstate" where
  "live_state st = (if st = SLEEPING \<or> st = RUNNING then RUNNABLE else st)"

definition proc_conf :: "proc \<Rightarrow> int \<times> bool \<times> nat option \<times> int \<times> procstate" where
  "proc_conf p = (p_pid p, p_is_agent p, p_jail_root p, p_priority p, live_state (p_state p))"

definition conf_part :: "kernel \<Rightarrow> (int \<times> bool \<times> nat option \<times> int \<times> procstate) list \<times> int" where
  "conf_part k = (map proc_conf (k_procs k), k_nextpid k)"

text \<open>The current process is in the table and RUNNING.\<close>

definition cur_ok :: "kernel \<Rightarrow> bool" where
  "cur_ok k \<longleftrightarrow> (\<forall>p. k_cur k = Some p \<longrightarrow> p < length (k_procs k) \<and> p_state (k_procs k ! p) = RUNNING)"

definition q_part :: "kernel \<Rightarrow> ((int \<times> bool \<times> nat option \<times> int \<times> procstate) list \<times> int) \<times> bool \<times> nat option" where
  "q_part k = (conf_part k, cur_ok k, k_cur k)"

definition quiet :: "kernel \<Rightarrow> kernel \<Rightarrow> bool" where
  "quiet k k' \<longleftrightarrow> (cur_ok k \<longrightarrow> cur_ok k' \<and> conf_part k' = conf_part k)"

named_theorems q_facts \<open>operations that leave \<open>q_part\<close> alone\<close>
named_theorems quiet_facts \<open>operations that may sleep\<close>

lemma proc_id_conf [simp]: "proc_conf (proc_id p) = proc_conf p"
  by (simp add: proc_conf_def proc_id_def live_state_def)

lemma proc_id_running [simp]: "p_state (proc_id p) = RUNNING \<longleftrightarrow> p_state p = RUNNING"
  by (simp add: proc_id_def)

lemma cur_ok_map:
  "cur_ok k \<longleftrightarrow> (\<forall>p. k_cur k = Some p \<longrightarrow> p < length (map (\<lambda>q. p_state q = RUNNING) (k_procs k)) \<and>
     map (\<lambda>q. p_state q = RUNNING) (k_procs k) ! p)"
  by (auto simp: cur_ok_def)

lemma q_pp: "proc_part k' = proc_part k \<Longrightarrow> q_part k' = q_part k"
proof -
  assume pp: "proc_part k' = proc_part k"
  then have ids: "map proc_id (k_procs k') = map proc_id (k_procs k)" and c: "k_cur k' = k_cur k" "k_nextpid k' = k_nextpid k"
    by (simp_all add: proc_part_def)
  have "map proc_conf (k_procs k') = map proc_conf (k_procs k)" by (rule map_proc_id [OF ids]) simp
  moreover have r: "map (\<lambda>p. p_state p = RUNNING) (k_procs k') = map (\<lambda>p. p_state p = RUNNING) (k_procs k)"
    by (rule map_proc_id [OF ids]) simp
  have "cur_ok k' = cur_ok k"
    unfolding cur_ok_map c r ..
  ultimately show ?thesis using c by (simp add: q_part_def conf_part_def)
qed

text \<open>In this form rewriting with equations between \<open>q_part\<close>s decides \<open>quiet\<close>.\<close>

lemma quiet_q_part: "quiet k k' \<longleftrightarrow> (fst (snd (q_part k)) \<longrightarrow> fst (snd (q_part k')) \<and> fst (q_part k') = fst (q_part k))"
  by (simp add: quiet_def q_part_def)

lemma quiet_refl [simp]: "quiet k k"
  by (simp add: quiet_def)

lemma quiet_q: "q_part k' = q_part k \<Longrightarrow> quiet k k'"
  by (simp add: q_part_def quiet_def)

lemma quiet_trans: "quiet k1 k2 \<Longrightarrow> quiet k2 k3 \<Longrightarrow> quiet k1 k3"
  by (simp add: quiet_def)

lemma quiet_after: "quiet k1 k2 \<Longrightarrow> q_part k1 = q_part k \<Longrightarrow> quiet k k2"
  by (simp add: q_part_def quiet_def)

text \<open>An update that changes neither the state nor the confinement of a process.\<close>

definition harmless :: "(proc \<Rightarrow> proc) \<Rightarrow> bool" where
  "harmless f \<longleftrightarrow> (\<forall>q. proc_conf (f q) = proc_conf q \<and> p_state (f q) = p_state q)"

lemma q_upd: "harmless f \<Longrightarrow> q_part (upd_proc p f k) = q_part k"
proof -
  assume f: "harmless f"
  have "map proc_conf (k_procs (upd_proc p f k)) = map proc_conf (k_procs k)"
    using f by (intro nth_equalityI) (auto simp: upd_proc_def harmless_def)
  moreover have "cur_ok (upd_proc p f k) = cur_ok k"
    using f by (simp add: cur_ok_def upd_proc_def nth_list_update harmless_def)
      (metis nth_list_update_eq nth_list_update_neq)
  ultimately show ?thesis by (simp add: q_part_def conf_part_def)
qed

lemma q_harmless [simp]:
  "q_part (upd_proc p (\<lambda>q. q\<lparr>p_ofile := g1 q\<rparr>) k) = q_part k"
  "q_part (upd_proc p (\<lambda>q. q\<lparr>p_cwd := g2 q\<rparr>) k) = q_part k"
  "q_part (upd_proc p (\<lambda>q. q\<lparr>p_sz := g3 q\<rparr>) k) = q_part k"
  "q_part (upd_proc p (\<lambda>q. q\<lparr>p_tf := g4 q\<rparr>) k) = q_part k"
  "q_part (upd_proc p (\<lambda>q. q\<lparr>p_killed := True\<rparr>) k) = q_part k"
  "q_part (upd_proc p (\<lambda>q. q\<lparr>p_chan := None\<rparr>) k) = q_part k"
  "q_part (upd_proc p (\<lambda>q. q\<lparr>p_vruntime := g5 q\<rparr>) k) = q_part k"
  "q_part (upd_proc p (\<lambda>q. q\<lparr>p_name := g6 q, p_pagetable := g7 q, p_sz := g8 q, p_tf := g9 q\<rparr>) k) = q_part k"
  by (rule q_upd, simp add: harmless_def proc_conf_def)+

lemmas q_simps [simp] = pp_simps [THEN q_pp] pp_agentcmd [THEN q_pp] pp_confirm_res [THEN q_pp]
  pp_dispatch [THEN q_pp] pp_uartintr [THEN q_pp] pp_uartwrite [THEN q_pp]

lemmas q_of_pp [q_facts] = proc_part_facts [THEN q_pp]

lemma q_rec_buf [simp]: "q_part (k\<lparr>k_rec_buf := b\<rparr>) = q_part k"
  by (simp add: q_part_def conf_part_def cur_ok_def)

section \<open>Giving up the CPU\<close>

lemma quiet_sched:
  assumes "sched (upd_proc p f k) = Some k'" "k_cur k = Some p"
    and "\<And>q. p_state q = RUNNING \<Longrightarrow> proc_conf (f q) = proc_conf q"
  shows "quiet k k' \<and> k_cur k' = None"
proof -
  have k': "k' = (upd_proc p f k)\<lparr>k_cur := None\<rparr>"
    using assms(1,2) by (auto simp: sched_def panic_simps split: if_splits)
  have "map proc_conf (k_procs (upd_proc p f k)) = map proc_conf (k_procs k)" if "cur_ok k"
    using that assms by (intro nth_equalityI) (auto simp: upd_proc_def cur_ok_def)
  then show ?thesis unfolding k' quiet_def by (simp add: conf_part_def cur_ok_def)
qed

lemma quiet_sleep [quiet_facts]: "sleep c k = Some k' \<Longrightarrow> quiet k k'"
proof -
  assume s: "sleep c k = Some k'"
  then obtain p where p: "k_cur k = Some p" by (auto simp: sleep_def panic_simps split: option.splits)
  show ?thesis
    using s p quiet_sched [of p "\<lambda>q. q\<lparr>p_chan := Some c, p_state := SLEEPING\<rparr>" k k']
    by (simp add: sleep_def proc_conf_def live_state_def)
qed

lemma quiet_yield [quiet_facts]: "yield k = Some k' \<Longrightarrow> quiet k k'"
proof -
  assume s: "yield k = Some k'"
  then obtain p where p: "k_cur k = Some p" by (auto simp: yield_def panic_simps split: option.splits)
  show ?thesis
    using s p quiet_sched [of p "\<lambda>q. q\<lparr>p_state := RUNNABLE\<rparr>" k k']
    by (simp add: yield_def proc_conf_def live_state_def)
qed

lemma quiet_scheduler [quiet_facts]: "quiet k (scheduler k)"
proof (cases "cfs_scan (k_procs k) 0 None")
  case None
  then show ?thesis by (simp add: scheduler_def quiet_def cur_ok_def conf_part_def)
next
  case (Some b)
  obtain i vr ct where b: "b = (i, vr, ct)" by (cases b)
  from cfs_scan_some [OF Some [unfolded b]] have i: "i < length (k_procs k)" "p_state (k_procs k ! i) = RUNNABLE"
    by auto
  have "map proc_conf (k_procs (upd_proc i (\<lambda>p. p\<lparr>p_state := RUNNING\<rparr>) k)) = map proc_conf (k_procs k)"
    using i by (intro nth_equalityI) (auto simp: upd_proc_def proc_conf_def live_state_def)
  then show ?thesis
    using i by (simp add: scheduler_def Some b quiet_def cur_ok_def conf_part_def cfs_advance_min_def upd_proc_def)
qed

lemma q_kkill [q_facts]: "kkill pid k = (r, k') \<Longrightarrow> q_part k' = q_part k"
proof (cases "find_pid (k_procs k) pid")
  case None
  then show "kkill pid k = (r, k') \<Longrightarrow> ?thesis" by (simp add: kkill_def)
next
  case (Some i)
  let ?f = "\<lambda>p. p\<lparr>p_killed := True, p_state := (if p_state p = SLEEPING then RUNNABLE else p_state p)\<rparr>"
  have "map proc_conf (k_procs (upd_proc i ?f k)) = map proc_conf (k_procs k)"
    by (intro nth_equalityI) (auto simp: upd_proc_def proc_conf_def live_state_def)
  moreover have "cur_ok (upd_proc i ?f k) = cur_ok k"
    by (auto simp: cur_ok_def upd_proc_def split: if_splits)
  ultimately show "kkill pid k = (r, k') \<Longrightarrow> ?thesis"
    using Some by (auto simp: kkill_def q_part_def conf_part_def)
qed

end
