(* ===== verification/Confine.thy ===== *)
theory Confine
  imports Proc_Frame
begin

text \<open>
  The kernel as a transition system and its invariants over every history: who may become an
  agent, that an agent stays one and stays jailed until it exits, and that pids are unique.
  The first sections bring every system call under \<open>q_part\<close> or \<open>quiet\<close>; the calls that change identity or
  confinement (\<open>fork\<close>, \<open>exit\<close>, \<open>wait\<close>, \<open>jail\<close>, \<open>setpriority\<close>) are described exactly.
\<close>

section \<open>Calls that leave every process's confinement alone\<close>

lemma q_fetchaddr [q_facts]: "fetchaddr a k = Some (r, v, k') \<Longrightarrow> q_part k' = q_part k"
  by (auto simp: fetchaddr_def split: if_splits bind_splits dest!: q_facts)

lemma q_set_fd [q_facts]: "set_fd fd f k = Some k' \<Longrightarrow> q_part k' = q_part k"
  by (auto simp: set_fd_def split: bind_splits)

lemma q_fdalloc [q_facts]: "fdalloc f k = Some (r, k') \<Longrightarrow> q_part k' = q_part k"
  by (auto simp: fdalloc_def split: bind_splits option.splits dest!: q_set_fd)

lemma q_dir_empty_loop: "dir_empty_loop offs dp k = Some (r, k') \<Longrightarrow> q_part k' = q_part k"
  by (induction offs dp k rule: dir_empty_loop.induct)
    (auto simp: panic_simps split: if_splits bind_splits dest!: readi_ap [THEN pp_ap, THEN q_pp])

lemma q_isdirempty [q_facts]: "isdirempty dp k = Some (r, k') \<Longrightarrow> q_part k' = q_part k"
  by (simp add: isdirempty_def q_dir_empty_loop)

lemma q_open_inode [q_facts]: "open_inode path om k = Some (r, k') \<Longrightarrow> q_part k' = q_part k"
  by (auto simp: open_inode_def split: if_splits bind_splits option.splits dest!: q_facts)

lemma q_enter_dir [q_facts]: "enter_dir k = Some (r, k') \<Longrightarrow> q_part k' = q_part k"
  by (auto simp: enter_dir_def split: if_splits bind_splits option.splits dest!: q_facts)

lemma q_growproc [q_facts]: "growproc n k = Some (r, k') \<Longrightarrow> q_part k' = q_part k"
  by (auto simp: growproc_def Let_def split: if_splits bind_splits dest!: q_facts)

lemma q_loadseg_loop: "loadseg_loop is pt va ip off sz k = Some (r, k') \<Longrightarrow> q_part k' = q_part k"
  by (induction "is" pt va ip off sz k rule: loadseg_loop.induct)
    (auto simp: panic_simps Let_def split: if_splits bind_splits dest!: readi_ap [THEN pp_ap, THEN q_pp])

lemma q_loadseg [q_facts]: "loadseg pt va ip off sz k = Some (r, k') \<Longrightarrow> q_part k' = q_part k"
  by (simp add: loadseg_def q_loadseg_loop)

lemma q_load_segments [q_facts]: "load_segments n off pt ip sz k = Some (ok, sz', k') \<Longrightarrow> q_part k' = q_part k"
  by (induction n off pt ip sz k rule: load_segments.induct)
    (auto simp: Let_def split: if_splits bind_splits dest!: readi_ap [THEN pp_ap, THEN q_pp]
      uvmalloc_ap [THEN pp_ap, THEN q_pp] q_loadseg)

lemma q_push_args [q_facts]: "push_args as pt sp sb us k = Some (r, k') \<Longrightarrow> q_part k' = q_part k"
  by (induction "as" pt sp sb us k rule: push_args.induct)
    (auto simp: Let_def split: if_splits bind_splits dest!: copyout_ap [THEN pp_ap, THEN q_pp])

lemma q_push_ustack [q_facts]: "push_ustack pt sp sb us k = Some (r, k') \<Longrightarrow> q_part k' = q_part k"
  by (auto simp: push_ustack_def Let_def split: if_splits bind_splits dest!: copyout_ap [THEN pp_ap, THEN q_pp])

lemma q_exec_bad [q_facts]: "exec_bad pt sz ip k = Some (r, k') \<Longrightarrow> q_part k' = q_part k"
  by (auto simp: exec_bad_def split: if_splits bind_splits option.splits dest!: q_facts)

lemma q_exec_commit [q_facts]: "exec_commit p path argv e pt sz k = Some (r, k') \<Longrightarrow> q_part k' = q_part k"
  by (auto simp: exec_commit_def Let_def split: if_splits bind_splits option.splits dest!: q_facts)

lemma q_kexec [q_facts]: "kexec path argv k = Some (r, k') \<Longrightarrow> q_part k' = q_part k"
  by (auto simp: kexec_def Let_def split: if_splits bind_splits option.splits dest!: q_facts)

lemma q_exec_args [q_facts]: "exec_args n u ps as k = Some (ok, ps', as', k') \<Longrightarrow> q_part k' = q_part k"
  by (induction n u ps "as" k rule: exec_args.induct)
    (auto simp: Let_def split: if_splits bind_splits prod.splits
      dest!: q_fetchaddr kalloc_ap' [THEN pp_ap, THEN q_pp])

lemma q_kfree_all: "iter_option kfree ps k = Some k' \<Longrightarrow> q_part k' = q_part k"
  by (erule iter_option_inv) (rule kfree_ap [THEN pp_ap, THEN q_pp])

lemma q_procinfo_loop: "procinfo_loop is n mx pt u k = Some (r, k') \<Longrightarrow> q_part k' = q_part k"
  by (induction "is" n mx pt u k rule: procinfo_loop.induct)
    (auto split: if_splits bind_splits dest!: copyout_ap [THEN pp_ap, THEN q_pp])

lemma q_clear_fds: "iter_option (\<lambda>fd. set_fd fd None) fds k = Some k' \<Longrightarrow> q_part k' = q_part k"
  by (erule iter_option_inv) (rule q_set_fd)

lemma q_pipe_undo: "pipe_undo fds rf wfd k = Some (r, k') \<Longrightarrow> q_part k' = q_part k"
  by (auto simp: pipe_undo_def split: bind_splits dest!: q_clear_fds pp_fileclose [THEN q_pp])

lemma q_sys_exec: "sys_exec k = Some (r, k') \<Longrightarrow> q_part k' = q_part k"
  by (auto simp: sys_exec_def split: if_splits bind_splits dest!: q_exec_args q_kexec q_kfree_all)

lemma q_sys_pipe: "sys_pipe k = Some (r, k') \<Longrightarrow> q_part k' = q_part k"
  by (auto simp: sys_pipe_def split: if_splits bind_splits option.splits
      dest!: pp_pipealloc [THEN q_pp] q_fdalloc q_pipe_undo copyout_ap [THEN pp_ap, THEN q_pp])

lemma q_sys_link: "sys_link k = Some (r, k') \<Longrightarrow> q_part k' = q_part k"
  by (auto simp: sys_link_def link_bad_def split: if_splits bind_splits option.splits dest!: q_facts)

lemma q_sys_unlink: "sys_unlink k = Some (r, k') \<Longrightarrow> q_part k' = q_part k"
  by (auto simp: sys_unlink_def unlink_bad_def panic_simps split: if_splits bind_splits option.splits dest!: q_facts)

lemma q_sys_open: "sys_open k = Some (r, k') \<Longrightarrow> q_part k' = q_part k"
  by (auto simp: sys_open_def open_fail_def Let_def split: if_splits bind_splits option.splits prod.splits dest!: q_facts)

lemma q_sys_mkdir: "sys_mkdir k = Some (r, k') \<Longrightarrow> q_part k' = q_part k"
  by (auto simp: sys_mkdir_def split: if_splits bind_splits option.splits dest!: q_facts)

lemma q_sys_mknod: "sys_mknod k = Some (r, k') \<Longrightarrow> q_part k' = q_part k"
  by (auto simp: sys_mknod_def split: if_splits bind_splits option.splits dest!: q_facts)

lemma q_sys_chdir: "sys_chdir k = Some (r, k') \<Longrightarrow> q_part k' = q_part k"
  by (auto simp: sys_chdir_def split: bind_splits option.splits dest!: q_enter_dir)

lemma q_sys_fd:
  "sys_dup k = Some (r, k') \<Longrightarrow> q_part k' = q_part k"
  "sys_close k = Some (r, k') \<Longrightarrow> q_part k' = q_part k"
  "sys_fstat k = Some (r, k') \<Longrightarrow> q_part k' = q_part k"
  by (auto simp: sys_dup_def sys_close_def sys_fstat_def split: bind_splits option.splits
      dest!: q_fdalloc q_set_fd pp_filedup [THEN q_pp] pp_fileclose [THEN q_pp] pp_filestat [THEN q_pp])

lemma q_sys_proc:
  "sys_getpid k = Some (r, k') \<Longrightarrow> q_part k' = q_part k"
  "sys_sbrk k = Some (r, k') \<Longrightarrow> q_part k' = q_part k"
  "sys_kill k = Some (r, k') \<Longrightarrow> q_part k' = q_part k"
  "sys_uptime k = Some (r, k') \<Longrightarrow> q_part k' = q_part k"
  "sys_getpriority k = Some (r, k') \<Longrightarrow> q_part k' = q_part k"
  "sys_procinfo k = Some (r, k') \<Longrightarrow> q_part k' = q_part k"
  by (auto simp: sys_getpid_def sys_sbrk_def sys_kill_def sys_uptime_def sys_getpriority_def sys_procinfo_def Let_def
      split: if_splits bind_splits option.splits prod.splits dest!: q_growproc q_kkill q_procinfo_loop)

lemma q_sys_agent:
  "sys_set_deny k = Some (r, k') \<Longrightarrow> q_part k' = q_part k"
  "sys_get_deny k = Some (r, k') \<Longrightarrow> q_part k' = q_part k"
  "sys_set_cache k = Some (r, k') \<Longrightarrow> q_part k' = q_part k"
  "sys_get_cache k = Some (r, k') \<Longrightarrow> q_part k' = q_part k"
  "sys_dispatch k = Some (r, k') \<Longrightarrow> q_part k' = q_part k"
  by (auto simp: sys_set_deny_def sys_get_deny_def sys_set_cache_def sys_get_cache_def sys_dispatch_def Let_def
      split: if_splits bind_splits option.splits prod.splits
      dest!: copyout_ap [THEN pp_ap, THEN q_pp] copyin_ap [THEN pp_ap, THEN q_pp] pp_cache_set [THEN q_pp]
        pp_cache_get [THEN q_pp] pp_dispatch_now [THEN q_pp])

section \<open>Calls that may sleep\<close>

lemma q_sleep_resume [simp]: "q_part (sleep_resume k) = q_part k"
  by (simp add: sleep_resume_def split: option.splits)

lemma q_piperead_loop: "piperead_loop pi a i n k = Some (r, k') \<Longrightarrow> q_part k' = q_part k"
proof (induction n arbitrary: i k)
  case (Suc n)
  show ?case
    using Suc.prems by (auto split: if_splits bind_splits option.splits
        dest!: copyout_ap [THEN pp_ap, THEN q_pp] Suc.IH)
qed simp

lemmas q_sleep = quiet_sleep [unfolded quiet_q_part]

lemma quiet_piperead: "piperead pi a n k = Some (r, k') \<Longrightarrow> quiet k k'"
  by (auto simp: piperead_def quiet_q_part split: if_splits bind_splits dest!: q_sleep q_piperead_loop)

lemma quiet_pipewrite_loop: "pipewrite_loop pi a i n k = Some (r, k') \<Longrightarrow> quiet k k'"
proof (induction n arbitrary: i k)
  case (Suc n)
  show ?case
    using Suc.prems unfolding quiet_q_part
    by (auto split: if_splits bind_splits
        dest!: q_sleep copyin_ap [THEN pp_ap, THEN q_pp] Suc.IH [unfolded quiet_q_part])
qed (auto simp: quiet_q_part)

lemma quiet_consoleread_loop: "consoleread_loop dst n t got k = Some (r, k') \<Longrightarrow> quiet k k'"
proof (induction n arbitrary: dst got k)
  case (Suc n)
  obtain p where p: "k_cur k = Some p" using Suc.prems by (auto split: bind_splits)
  define waits where "waits = (cons_r (k_cons k) = cons_w (k_cons k))"
  show ?case
  proof (cases "waits \<and> killed p k")
    case True
    then show ?thesis using Suc.prems p by (auto simp: waits_def)
  next
    case False
    then obtain k1 where k1: "(if waits then agent_drain k else Some k) = Some k1"
      using Suc.prems p by (auto simp: waits_def split: if_splits bind_splits)
    then have q: "q_part k1 = q_part k" by (auto split: if_splits dest!: pp_drain [THEN q_pp])
    have "quiet k1 k'"
    proof (cases "cons_r (k_cons k1) = cons_w (k_cons k1)")
      case True
      then show ?thesis
        using Suc.prems p False k1 by (auto simp: waits_def [symmetric] split: bind_splits dest!: quiet_sleep)
    next
      case F2: False
      let ?c = "cons_at (k_cons k1) (cons_r (k_cons k1))"
      let ?k2 = "k1\<lparr>k_cons := (k_cons k1)\<lparr>cons_r := cons_r (k_cons k1) + 1\<rparr>\<rparr>"
      have "(if ?c = ctrl (CHR ''D'')
              then Some (Done (t - int (Suc n), got), if int (Suc n) < t then k1 else ?k2)
              else do {
                (r, k3) \<leftarrow> either_copyout dst [?c] 1 ?k2;
                if r = - 1 then Some (Done (t - int (Suc n), got), k3)
                else if ?c = CHR 0x0A then Some (Done (t - int n, got @ [?c]), k3)
                else consoleread_loop (map_option (\<lambda>a. a + 1) dst) n t (got @ [?c]) k3 }) = Some (r, k')"
        using Suc.prems p False F2 k1 by (simp add: waits_def [symmetric] Let_def)
      then show ?thesis
        unfolding quiet_q_part by (auto split: if_splits bind_splits
            dest!: either_copyout_ap [THEN pp_ap, THEN q_pp] Suc.IH [unfolded quiet_q_part])
    qed
    then show ?thesis using q by (rule quiet_after)
  qed
qed simp

lemma to_io_state: "to_io g w (a, b) = (r, k') \<Longrightarrow> k' = b"
  by (cases a) auto

lemma to_sys_state: "to_sys w (a, b) = (r, k') \<Longrightarrow> k' = b"
  by (cases a) auto

lemma quiet_fileread: "fileread f a n k = Some (r, k') \<Longrightarrow> quiet k k'"
  by (cases "f_type (k_ftable k ! f)")
    (auto simp: fileread_def consoleread_def panic_simps Let_def quiet_q_part split: if_splits bind_splits
      dest!: to_io_state quiet_piperead [unfolded quiet_q_part] quiet_consoleread_loop [unfolded quiet_q_part]
          ilock_ap [THEN pp_ap, THEN q_pp] readi_ap [THEN pp_ap, THEN q_pp] iunlock_ap [THEN pp_ap, THEN q_pp])

lemma quiet_filewrite: "filewrite f a n k = Some (r, k') \<Longrightarrow> quiet k k'"
  by (cases "f_type (k_ftable k ! f)")
    (auto simp: filewrite_def pipewrite_def panic_simps Let_def quiet_q_part split: if_splits bind_splits
      dest!: to_io_state quiet_pipewrite_loop [unfolded quiet_q_part]
          pp_consolewrite [THEN q_pp] pp_filewrite_loop [THEN q_pp])

lemma quiet_sys_io:
  "sys_read k = Some (r, k') \<Longrightarrow> quiet k k'" "sys_write k = Some (r, k') \<Longrightarrow> quiet k k'"
  by (auto simp: sys_read_def sys_write_def split: bind_splits option.splits
      dest!: to_sys_state quiet_fileread quiet_filewrite)

lemma quiet_io_resume: "io_resume w k = Some (r, k') \<Longrightarrow> quiet k k'"
  by (auto simp: io_resume_def Let_def split: bind_splits io_wait.splits
      dest!: to_sys_state to_io_state quiet_piperead quiet_pipewrite_loop quiet_consoleread_loop elim!: to_io.elims)

lemma quiet_pause_poll: "pause_poll t n k = Some (r, k') \<Longrightarrow> quiet k k'"
  by (auto simp: pause_poll_def split: if_splits bind_splits dest!: quiet_sleep)

lemma quiet_sys_pause: "sys_pause k = Some (r, k') \<Longrightarrow> quiet k k'"
  by (auto simp: sys_pause_def split: bind_splits dest!: quiet_pause_poll)

lemma quiet_agentq_get: "agentq_get k = Some (r, k') \<Longrightarrow> quiet k k'"
  by (auto simp: agentq_get_def split: option.splits if_splits bind_splits dest!: quiet_sleep intro: quiet_q)

lemma quiet_agent_recv: "sys_agent_recv k = Some (r, k') \<Longrightarrow> quiet k k'"
  by (auto simp: sys_agent_recv_def quiet_q_part split: bind_splits if_splits blocking.splits
      dest!: quiet_agentq_get [unfolded quiet_q_part] copyout_ap [THEN pp_ap, THEN q_pp])

lemma quiet_confirm_poll: "confirm_poll t0 k = Some (r, k') \<Longrightarrow> quiet k k'"
  by (auto simp: confirm_poll_def confirm_idle_def split: if_splits bind_splits intro: quiet_q dest!: quiet_sleep)

lemma quiet_confirm_request: "confirm_request p num s k = Some (r, k') \<Longrightarrow> quiet k k'"
  by (auto simp: confirm_request_def confirm_claim_def confirm_announce_def quiet_q_part Let_def split: if_splits
      dest!: quiet_confirm_poll [unfolded quiet_q_part])

section \<open>Calls that change identity or confinement\<close>

text \<open>An entry of the table: pid, agent flag, jail root, priority and life cycle.\<close>

type_synonym conf_entry = "int \<times> bool \<times> nat option \<times> int \<times> procstate"

definition free_entry :: conf_entry where
  "free_entry = (0, False, None, 0, UNUSED)"

definition entry_ok :: "int \<Rightarrow> conf_entry \<Rightarrow> bool" where
  "entry_ok n e \<longleftrightarrow> (case e of (pid, ag, jail, prio, st) \<Rightarrow>
     (if st = UNUSED then pid = 0 \<and> \<not> ag else 0 < pid \<and> pid < n) \<and> (ag \<longrightarrow> jail \<noteq> None \<or> st = ZOMBIE))"

definition table_ok :: "conf_entry list \<times> int \<Rightarrow> bool" where
  "table_ok t \<longleftrightarrow> 0 < snd t \<and> snd t < 2 ^ 31 \<and> (\<forall>e \<in> set (fst t). entry_ok (snd t) e) \<and>
     (\<forall>i < length (fst t). \<forall>j < length (fst t). fst (fst t ! i) = fst (fst t ! j) \<longrightarrow> fst (fst t ! i) \<noteq> 0 \<longrightarrow> i = j)"

text \<open>
  Every slot keeps its process, an agent staying an agent, or is freed, or holds a process
  with a new pid.
\<close>

definition table_mono :: "conf_entry list \<times> int \<Rightarrow> conf_entry list \<times> int \<Rightarrow> bool" where
  "table_mono t t' \<longleftrightarrow> snd t \<le> snd t' \<and> length (fst t') = length (fst t) \<and>
     (\<forall>i < length (fst t).
        (fst (fst t' ! i) = fst (fst t ! i) \<and> (fst (snd (fst t ! i)) \<longrightarrow> fst (snd (fst t' ! i)))) \<or>
        fst (fst t' ! i) = 0 \<or> snd t \<le> fst (fst t' ! i))"

lemma table_mono_refl [simp]: "table_mono t t"
  by (simp add: table_mono_def)

lemma table_mono_at:
  "table_mono t t' \<Longrightarrow> i < length (fst t) \<Longrightarrow>
     (fst (fst t' ! i) = fst (fst t ! i) \<and> (fst (snd (fst t ! i)) \<longrightarrow> fst (snd (fst t' ! i)))) \<or>
     fst (fst t' ! i) = 0 \<or> snd t \<le> fst (fst t' ! i)"
  by (simp add: table_mono_def)

lemma table_mono_trans:
  assumes a: "table_mono t1 t2" and b: "table_mono t2 t3"
  shows "table_mono t1 t3"
proof -
  have le: "snd t1 \<le> snd t2" "snd t2 \<le> snd t3" and len: "length (fst t2) = length (fst t1)" "length (fst t3) = length (fst t2)"
    using a b by (simp_all add: table_mono_def)
  have "(fst (fst t3 ! i) = fst (fst t1 ! i) \<and> (fst (snd (fst t1 ! i)) \<longrightarrow> fst (snd (fst t3 ! i)))) \<or>
     fst (fst t3 ! i) = 0 \<or> snd t1 \<le> fst (fst t3 ! i)" if i: "i < length (fst t1)" for i
    using table_mono_at [OF a i] table_mono_at [OF b, of i] i len le by linarith
  then show ?thesis using le len by (simp add: table_mono_def)
qed

lemma table_mono_upd:
  assumes "n \<le> n'" "fst e = 0 \<or> n \<le> fst e \<or> fst e = fst (cs ! i) \<and> (fst (snd (cs ! i)) \<longrightarrow> fst (snd e))"
  shows "table_mono (cs, n) (cs[i := e], n')"
  using assms by (auto simp: table_mono_def nth_list_update)

lemma entry_ok_mono: "entry_ok n e \<Longrightarrow> n \<le> n' \<Longrightarrow> entry_ok n' e"
  by (auto simp: entry_ok_def)

lemma entry_ok_pid: "entry_ok n e \<Longrightarrow> 0 < n \<Longrightarrow> fst e < n"
  by (auto simp: entry_ok_def split: if_splits)

lemma table_ok_upd:
  assumes t: "table_ok (cs, n)" and n: "n \<le> n'" "n' < 2 ^ 31" and e: "entry_ok n' e"
    and pid: "fst e = 0 \<or> n \<le> fst e \<or> fst e = fst (cs ! i)"
  shows "table_ok (cs[i := e], n')"
proof -
  have ent: "\<forall>x \<in> set (cs[i := e]). entry_ok n' x"
    using t e set_update_subset_insert [of cs i e] entry_ok_mono [OF _ n(1)] by (auto simp: table_ok_def)
  have small: "fst (cs ! j) < n" if "j < length cs" for j
    using t that entry_ok_pid by (auto simp: table_ok_def)
  have "a = b" if "a < length cs" "b < length cs" "fst (cs[i := e] ! a) = fst (cs[i := e] ! b)" "fst (cs[i := e] ! a) \<noteq> 0" for a b
  proof -
    have dist: "a = b" if "fst (cs ! a) = fst (cs ! b)" "fst (cs ! a) \<noteq> 0" "a < length cs" "b < length cs" for a b
      using t that by (simp add: table_ok_def)
    show ?thesis
    proof (cases "a = i"; cases "b = i")
      assume "a = i" "b \<noteq> i"
      then show ?thesis using that pid small [OF that(2)] dist [of i b] by simp
    next
      assume "a \<noteq> i" "b = i"
      then show ?thesis using that pid small [OF that(1)] dist [of a i] by simp
    next
      assume "a \<noteq> i" "b \<noteq> i"
      then show ?thesis using that dist by simp
    qed simp
  qed
  moreover have "0 < n'" using t n by (simp add: table_ok_def)
  ultimately show ?thesis unfolding table_ok_def fst_conv snd_conv length_list_update using n(2) ent by blast
qed

lemma conf_upd_proc:
  "conf_part (upd_proc p f k) = ((fst (conf_part k))[p := proc_conf (f (k_procs k ! p))], snd (conf_part k))"
  by (simp add: conf_part_def upd_proc_def map_update)

lemma cur_ok_upd_other: "cur_ok k \<Longrightarrow> k_cur k \<noteq> Some p \<Longrightarrow> cur_ok (upd_proc p f k)"
  by (auto simp: cur_ok_def upd_proc_def)

lemma conf_at: "i < length (k_procs k) \<Longrightarrow> fst (conf_part k) ! i = proc_conf (k_procs k ! i)"
  by (simp add: conf_part_def)

lemma length_conf [simp]: "length (fst (conf_part k)) = length (k_procs k)"
  by (simp add: conf_part_def)

lemma q_partD:
  assumes "q_part k' = q_part k"
  shows "conf_part k' = conf_part k" "cur_ok k' = cur_ok k" "k_cur k' = k_cur k" "length (k_procs k') = length (k_procs k)"
  using assms length_conf [of k] length_conf [of k'] by (auto simp: q_part_def)

lemma freeproc_conf:
  assumes "freeproc p k = Some k'"
  shows "conf_part k' = ((fst (conf_part k))[p := free_entry], snd (conf_part k))"
    "k_cur k' = k_cur k" "cur_ok k \<Longrightarrow> k_cur k \<noteq> Some p \<Longrightarrow> cur_ok k'"
proof -
  let ?f = "\<lambda>q. q\<lparr>p_trapframe := 0, p_pagetable := 0, p_sz := 0, p_pid := 0, p_parent := None,
          p_name := (p_name q)[0 := NUL], p_chan := None, p_killed := False, p_xstate := 0, p_state := UNUSED,
          p_priority := 0, p_vruntime := 0, p_creation_tick := 0, p_is_agent := False, p_jail_root := None\<rparr>"
  obtain k1 where q: "q_part k1 = q_part k" and k': "k' = upd_proc p ?f k1"
    using assms by (auto simp: freeproc_def split: if_splits bind_splits
        dest!: kfree_ap [THEN pp_ap, THEN q_pp] proc_freepagetable_ap [THEN pp_ap, THEN q_pp])
  note c = q_partD [OF q]
  show "conf_part k' = ((fst (conf_part k))[p := free_entry], snd (conf_part k))" "k_cur k' = k_cur k"
    by (simp_all add: k' conf_upd_proc c proc_conf_def free_entry_def live_state_def)
  show "cur_ok k'" if "cur_ok k" "k_cur k \<noteq> Some p"
    unfolding k' by (rule cur_ok_upd_other) (use that c in auto)
qed

lemma proc_scan_some: "proc_scan ps = Some p \<Longrightarrow> p < length ps \<and> p_state (ps ! p) = UNUSED"
  by (induction ps arbitrary: p) (auto split: if_splits)

text \<open>What \<open>allocproc\<close> does to the table: nothing, or a slot that was free stays free, or it is taken.\<close>

lemma allocproc_conf:
  assumes al: "allocproc k = Some (got, k')" and ok: "cur_ok k"
  shows "cur_ok k' \<and> k_cur k' = k_cur k \<and>
    (conf_part k' = conf_part k \<and> got = None \<or>
     (\<exists>p < length (k_procs k). p_state (k_procs k ! p) = UNUSED \<and> k_cur k \<noteq> Some p \<and>
        conf_part k' = ((fst (conf_part k))
          [p := (if got = None then free_entry else (k_nextpid k, False, None, 10, USED))], wrap32 (k_nextpid k + 1)) \<and>
        (got = None \<or> got = Some p)))"
proof (cases "proc_scan (k_procs k)")
  case None
  then show ?thesis using al ok by (auto simp: allocproc_def)
next
  case (Some p)
  then have p: "p < length (k_procs k)" "p_state (k_procs k ! p) = UNUSED" by (auto dest: proc_scan_some)
  have cur: "k_cur k \<noteq> Some p" using ok p by (auto simp: cur_ok_def)
  define k0 where "k0 = k\<lparr>k_nextpid := wrap32 (k_nextpid k + 1)\<rparr>"
  define k1 where "k1 = upd_proc p (\<lambda>q. q\<lparr>p_pid := k_nextpid k, p_state := USED, p_priority := 10, p_vruntime := cfs_min k0,
                    p_creation_tick := k_ticks k0, p_is_agent := False, p_jail_root := None\<rparr>) k0"
  let ?cs = "fst (conf_part k)"
  have k1: "conf_part k1 = (?cs[p := (k_nextpid k, False, None, 10, USED)], wrap32 (k_nextpid k + 1))"
    "k_cur k1 = k_cur k" "cur_ok k1" "p < length (k_procs k1)"
  proof -
    have k0: "conf_part k0 = (?cs, wrap32 (k_nextpid k + 1))" "cur_ok k0" "k_cur k0 = k_cur k" "length (k_procs k0) = length (k_procs k)"
      using ok by (simp_all add: k0_def conf_part_def cur_ok_def)
    then show "conf_part k1 = (?cs[p := (k_nextpid k, False, None, 10, USED)], wrap32 (k_nextpid k + 1))"
      "k_cur k1 = k_cur k" "p < length (k_procs k1)"
      using p by (simp_all add: k1_def conf_upd_proc proc_conf_def live_state_def)
    show "cur_ok k1" unfolding k1_def by (rule cur_ok_upd_other) (use k0 cur in auto)
  qed
  obtain tf k2 where kal: "kalloc k1 = (tf, k2)" by (cases "kalloc k1")
  define k3 where "k3 = upd_proc p (\<lambda>q. q\<lparr>p_trapframe := tf\<rparr>) k2"
  have "q_part k3 = q_part k2" unfolding k3_def by (rule q_upd) (simp add: harmless_def proc_conf_def)
  then have q3: "q_part k3 = q_part k1" using kalloc_ap' [THEN pp_ap, THEN q_pp, OF kal] by simp
  have free: ?thesis if f: "freeproc p k4 = Some k'" and q: "q_part k4 = q_part k1" and g: "got = None" for k4
    using freeproc_conf [OF f] q_partD [OF q] k1 p cur g by auto
  show ?thesis
  proof (cases "tf = 0")
    case True
    then have "freeproc p k3 = Some k'" "got = None"
      using al Some by (auto simp: allocproc_def allocpid_def k0_def [symmetric] k1_def [symmetric] kal k3_def Let_def split: bind_splits)
    then show ?thesis using free q3 by blast
  next
    case False
    then obtain pt k4 where pt: "proc_pagetable p k3 = Some (pt, k4)"
      and rest: "(let k = upd_proc p (\<lambda>q. q\<lparr>p_pagetable := pt\<rparr>) k4
        in if pt = 0 then do { k \<leftarrow> freeproc p k; Some (None, k) }
               else Some (Some p, upd_proc p (\<lambda>q. q\<lparr>p_context :=
                      ((\<lambda>_. 0)(cx_ra := k_forkret k, cx_sp := p_kstack q + KSTACK_PAGES * PGSIZE))\<rparr>) k)) = Some (got, k')"
      using al Some by (auto simp: allocproc_def allocpid_def k0_def [symmetric] k1_def [symmetric] kal k3_def Let_def split: bind_splits)
    define k5 where "k5 = upd_proc p (\<lambda>q. q\<lparr>p_pagetable := pt\<rparr>) k4"
    have "q_part k5 = q_part k4" unfolding k5_def by (rule q_upd) (simp add: harmless_def proc_conf_def)
    then have q5: "q_part k5 = q_part k1" using proc_pagetable_ap [THEN pp_ap, THEN q_pp, OF pt] q3 by simp
    show ?thesis
    proof (cases "pt = 0")
      case True
      then have "freeproc p k5 = Some k'" "got = None"
        using rest unfolding k5_def [symmetric] Let_def by (auto split: bind_splits)
      then show ?thesis using free q5 by blast
    next
      case False
      let ?g = "\<lambda>q. q\<lparr>p_context := ((\<lambda>_. 0)(cx_ra := k_forkret k5, cx_sp := p_kstack q + KSTACK_PAGES * PGSIZE))\<rparr>"
      have k': "k' = upd_proc p ?g k5" "got = Some p" using rest False by (auto simp: k5_def [symmetric] Let_def)
      have "q_part k' = q_part k5" unfolding k' by (rule q_upd) (simp add: harmless_def proc_conf_def)
      then show ?thesis using q_partD [of k' k1] q5 k1 p cur k' by auto
    qed
  qed
qed

text \<open>
  One step of the kernel, as far as identity and confinement go.  Pids are assumed not to run
  out: \<open>nextpid\<close> is a C \<open>int\<close>, positive until 2^31 - 1 processes have been created.
\<close>

definition conf_ok :: "kernel \<Rightarrow> bool" where
  "conf_ok k \<longleftrightarrow> cur_ok k \<and> table_ok (conf_part k)"

definition conf_step :: "kernel \<Rightarrow> kernel \<Rightarrow> bool" where
  "conf_step k k' \<longleftrightarrow> (cur_ok k \<longrightarrow> cur_ok k') \<and>
     (conf_ok k \<longrightarrow> 0 < k_nextpid k' \<longrightarrow> conf_ok k' \<and> table_mono (conf_part k) (conf_part k'))"

lemma conf_step_quiet: "quiet k k' \<Longrightarrow> conf_step k k'"
  by (simp add: quiet_def conf_step_def conf_ok_def)

lemma conf_step_q: "q_part k' = q_part k \<Longrightarrow> conf_step k k'"
  by (intro conf_step_quiet quiet_q)

lemma snd_conf [simp]: "snd (conf_part k) = k_nextpid k"
  by (simp add: conf_part_def)

lemma conf_step_before: "q_part k1 = q_part k \<Longrightarrow> conf_step k1 k' \<Longrightarrow> conf_step k k'"
  using q_partD [of k1 k] by (simp add: conf_step_def conf_ok_def)

lemma conf_step_after: "conf_step k k1 \<Longrightarrow> q_part k' = q_part k1 \<Longrightarrow> conf_step k k'"
  using q_partD [of k' k1] snd_conf [of k1] snd_conf [of k'] by (simp add: conf_step_def conf_ok_def)

lemma conf_step_upd:
  assumes "conf_part k' = ((fst (conf_part k))[i := e], n')" "cur_ok k \<Longrightarrow> cur_ok k'"
    and "table_ok (conf_part k) \<Longrightarrow> cur_ok k \<Longrightarrow> 0 < n' \<Longrightarrow> k_nextpid k \<le> n' \<and> n' < 2 ^ 31 \<and> entry_ok n' e \<and>
      (fst e = 0 \<or> k_nextpid k \<le> fst e \<or>
       fst e = fst (fst (conf_part k) ! i) \<and> (fst (snd (fst (conf_part k) ! i)) \<longrightarrow> fst (snd e)))"
  shows "conf_step k k'"
proof -
  have n': "k_nextpid k' = n'" using assms(1) snd_conf [of k'] by simp
  have c: "conf_part k = (fst (conf_part k), k_nextpid k)" using snd_conf [of k] by (metis prod.collapse)
  show ?thesis
    unfolding conf_step_def conf_ok_def n'
  proof (intro impI conjI)
    show "cur_ok k'" if "cur_ok k" using that assms(2) by blast
    assume ok: "cur_ok k \<and> table_ok (conf_part k)" and pos: "0 < n'"
    note fits = assms(3) [OF conjunct2 [OF ok] conjunct1 [OF ok] pos]
    show "cur_ok k'" using ok assms(2) by blast
    show "table_ok (conf_part k')"
      unfolding assms(1) by (rule table_ok_upd [of _ "k_nextpid k"]) (use ok c fits in auto)
    show "table_mono (conf_part k) (conf_part k')"
      unfolding assms(1) by (subst c, rule table_mono_upd) (use fits in auto)
  qed
qed

lemma wrap32_next: "0 < n \<Longrightarrow> n < 2 ^ 31 \<Longrightarrow> 0 < wrap32 (n + 1) \<Longrightarrow> wrap32 (n + 1) = n + 1 \<and> n + 1 < 2 ^ 31"
proof -
  assume n: "0 < n" "n < 2 ^ 31" and w: "0 < wrap32 (n + 1)"
  have "n + 1 \<noteq> 2 ^ 31" using w by (auto simp: wrap32_def)
  then show ?thesis using n by simp
qed

lemma table_ok_next: "table_ok (conf_part k) \<Longrightarrow> 0 < k_nextpid k \<and> k_nextpid k < 2 ^ 31"
  by (simp add: table_ok_def)

lemma table_ok_entry: "table_ok (conf_part k) \<Longrightarrow> i < length (k_procs k) \<Longrightarrow> entry_ok (k_nextpid k) (proc_conf (k_procs k ! i))"
  using conf_at [of i k] nth_mem [of i "fst (conf_part k)"] by (auto simp: table_ok_def)

lemma entry_ok_free [simp]: "entry_ok n free_entry" "fst free_entry = 0"
  by (simp_all add: entry_ok_def free_entry_def)

subsection \<open>fork\<close>

lemma q_dup_files: "dup_files fds p np k = Some k' \<Longrightarrow> q_part k' = q_part k"
proof (induction fds arbitrary: k)
  case (Cons fd fds)
  show ?case using Cons.prems by (auto split: option.splits bind_splits dest!: pp_filedup [THEN q_pp] Cons.IH)
qed simp

text \<open>The last part of \<open>kfork\<close>, from the copied image on.\<close>

lemma fork_tail_conf:
  assumes c: "conf_part k3 = (cs[np := (pid, False, None, 10, USED)], n)" and np: "np < length cs" "p < length cs" "p \<noteq> np"
    and par: "cs ! p = (ppid, ag, jail, prio, st)"
    and k4: "k4 = upd_proc np (\<lambda>q. q\<lparr>p_cwd := cw, p_name := safestrcpy (p_name q) nm 16,
                p_priority := (if p_priority (k_procs k3 ! p) < 0 then 10 else p_priority (k_procs k3 ! p)),
                p_vruntime := vr, p_is_agent := p_is_agent (k_procs k3 ! p)\<rparr>) k3"
    and k5: "k5 = (case p_jail_root (k_procs k3 ! p) of None \<Rightarrow> k4
               | Some j \<Rightarrow> let (j, k) = idup j k4 in upd_proc np (\<lambda>q. q\<lparr>p_jail_root := Some j\<rparr>) k)"
    and k': "k' = upd_proc np (\<lambda>q. q\<lparr>p_parent := Some p, p_state := RUNNABLE\<rparr>) k5"
  shows "conf_part k' = (cs[np := (pid, ag, jail, if prio < 0 then 10 else prio, RUNNABLE)], n)"
proof -
  have len: "length (k_procs k3) = length cs" using c length_conf [of k3] by simp
  have e3: "proc_conf (k_procs k3 ! np) = (pid, False, None, 10, USED)" "proc_conf (k_procs k3 ! p) = (ppid, ag, jail, prio, st)"
    using conf_at [of np k3] conf_at [of p k3] c np par len by auto
  have f3: "p_pid (k_procs k3 ! np) = pid" "p_jail_root (k_procs k3 ! np) = None" "live_state (p_state (k_procs k3 ! np)) = USED"
    "p_is_agent (k_procs k3 ! p) = ag" "p_jail_root (k_procs k3 ! p) = jail" "p_priority (k_procs k3 ! p) = prio"
    using e3 by (simp_all add: proc_conf_def)
  have c4: "conf_part k4 = (cs[np := (pid, ag, None, if prio < 0 then 10 else prio, USED)], n)"
    using f3 c by (simp add: k4 conf_upd_proc proc_conf_def)
  have c5: "conf_part k5 = (cs[np := (pid, ag, jail, if prio < 0 then 10 else prio, USED)], n)"
  proof (cases jail)
    case None
    then show ?thesis using c4 f3 by (simp add: k5)
  next
    case (Some j)
    obtain j1 k6 where i: "idup j k4 = (j1, k6)" by (cases "idup j k4")
    then have j1: "j1 = j" by (auto simp: idup_def)
    have q6: "conf_part k6 = conf_part k4" using q_partD(1) idup_ap [OF i, THEN pp_ap, THEN q_pp] by blast
    then have "length (k_procs k6) = length cs" using c4 length_conf [of k6] by simp
    then have "proc_conf (k_procs k6 ! np) = (pid, ag, None, if prio < 0 then 10 else prio, USED)"
      using conf_at [of np k6] q6 c4 np by simp
    then show ?thesis using Some f3 q6 c4 by (simp add: k5 i j1 conf_upd_proc proc_conf_def)
  qed
  have "length (k_procs k5) = length cs" using c5 length_conf [of k5] by simp
  then have "proc_conf (k_procs k5 ! np) = (pid, ag, jail, if prio < 0 then 10 else prio, USED)"
    using conf_at [of np k5] c5 np by simp
  then show ?thesis using c5 by (simp add: k' conf_upd_proc proc_conf_def live_state_def)
qed

text \<open>The entry of a new child: agent flag and jail are the parent's, a kernel priority is not passed on.\<close>

definition child_entry :: "int \<Rightarrow> proc \<Rightarrow> conf_entry" where
  "child_entry pid par =
     (pid, p_is_agent par, p_jail_root par, if p_priority par < 0 then 10 else p_priority par, RUNNABLE)"

lemma kfork_conf:
  assumes f: "kfork k = Some (r, k')" and ok: "cur_ok k" and p: "k_cur k = Some p"
  shows "cur_ok k' \<and>
    (r = - 1 \<and> conf_part k' = conf_part k \<or>
     (\<exists>np < length (k_procs k). p_state (k_procs k ! np) = UNUSED \<and> np \<noteq> p \<and>
        (r = - 1 \<and> conf_part k' = ((fst (conf_part k))[np := free_entry], wrap32 (k_nextpid k + 1)) \<or>
         r = k_nextpid k \<and>
         conf_part k' = ((fst (conf_part k))[np := child_entry (k_nextpid k) (k_procs k ! p)], wrap32 (k_nextpid k + 1)))))"
proof -
  obtain got k1 where al: "allocproc k = Some (got, k1)" using f p by (auto simp: kfork_def split: bind_splits)
  note a = allocproc_conf [OF al ok]
  show ?thesis
  proof (cases got)
    case None
    then have "r = - 1" "k' = k1" using f p al by (auto simp: kfork_def)
    then show ?thesis using a None p by auto
  next
    case (Some np)
    let ?cs = "fst (conf_part k)" and ?n = "k_nextpid k"
    from a Some have np: "np < length (k_procs k)" "p_state (k_procs k ! np) = UNUSED" "p \<noteq> np" "cur_ok k1" "k_cur k1 = Some p"
      and c1: "conf_part k1 = (?cs[np := (?n, False, None, 10, USED)], wrap32 (?n + 1))"
      using p by auto
    obtain r2 k2 where uc: "uvmcopy (p_pagetable (k_procs k1 ! p)) (p_pagetable (k_procs k1 ! np)) (p_sz (k_procs k1 ! p)) k1 = Some (r2, k2)"
      using f p al Some by (auto simp: kfork_def split: bind_splits)
    note q2 = q_partD [OF uvmcopy_ap [OF uc, THEN pp_ap, THEN q_pp]]
    show ?thesis
    proof (cases "r2 < 0")
      case True
      then have "freeproc np k2 = Some k'" "r = - 1" using f p al Some uc by (auto simp: kfork_def split: bind_splits)
      then show ?thesis using freeproc_conf [of np k2 k'] q2 c1 np by auto
    next
      case False
      define kc where "kc = upd_proc np (\<lambda>q. q\<lparr>p_sz := p_sz (k_procs k2 ! p), p_tf := (p_tf (k_procs k2 ! p))(tf_a0 := 0)\<rparr>) k2"
      have qc: "q_part kc = q_part k2" unfolding kc_def by (rule q_upd) (simp add: harmless_def proc_conf_def)
      obtain kd where dup: "dup_files [0..<NOFILE] p np kc = Some kd"
        using f p al Some uc False by (auto simp: kfork_def kc_def Let_def split: bind_splits)
      obtain cw where cw: "p_cwd (k_procs kd ! p) = Some cw"
        using f p al Some uc False dup by (auto simp: kfork_def kc_def Let_def split: bind_splits)
      obtain cw1 k3 where du: "idup cw kd = (cw1, k3)" by (cases "idup cw kd")
      have q3: "q_part k3 = q_part k1"
        using idup_ap [OF du, THEN pp_ap, THEN q_pp] q_dup_files [OF dup] qc uvmcopy_ap [OF uc, THEN pp_ap, THEN q_pp] by simp
      define k4 where "k4 = upd_proc np (\<lambda>q. q\<lparr>p_cwd := Some cw1, p_name := safestrcpy (p_name q) (p_name (k_procs k3 ! p)) 16,
                p_priority := (if p_priority (k_procs k3 ! p) < 0 then 10 else p_priority (k_procs k3 ! p)),
                p_vruntime := p_vruntime (k_procs k3 ! p), p_is_agent := p_is_agent (k_procs k3 ! p)\<rparr>) k3"
      define k5 where "k5 = (case p_jail_root (k_procs k3 ! p) of None \<Rightarrow> k4
               | Some j \<Rightarrow> let (j, k) = idup j k4 in upd_proc np (\<lambda>q. q\<lparr>p_jail_root := Some j\<rparr>) k)"
      have "(r, k') = (p_pid (k_procs k5 ! np), upd_proc np (\<lambda>q. q\<lparr>p_parent := Some p, p_state := RUNNABLE\<rparr>) k5)"
        unfolding k5_def k4_def using f p al Some uc False dup cw du
        by (simp add: kfork_def kc_def Let_def split del: if_split)
      then have k': "k' = upd_proc np (\<lambda>q. q\<lparr>p_parent := Some p, p_state := RUNNABLE\<rparr>) k5" and r: "r = p_pid (k_procs k5 ! np)"
        by auto
      note c3 = q_partD [OF q3]
      have pp: "p < length (k_procs k)" using ok p by (simp add: cur_ok_def)
      have par: "?cs ! p = (p_pid (k_procs k ! p), p_is_agent (k_procs k ! p), p_jail_root (k_procs k ! p),
          p_priority (k_procs k ! p), live_state (p_state (k_procs k ! p)))"
        using conf_at [OF pp] by (simp add: proc_conf_def)
      have c': "conf_part k' = (?cs[np := child_entry ?n (k_procs k ! p)], wrap32 (?n + 1))"
        unfolding child_entry_def
        by (rule fork_tail_conf [OF c3(1) [unfolded c1] _ _ np(3) par k4_def k5_def k']) (use np pp in auto)
      have keep: "cur_ok k5 \<and> k_cur k5 = Some p"
      proof -
        have "cur_ok k4 \<and> k_cur k4 = Some p"
          using c3 np by (auto simp: k4_def intro: cur_ok_upd_other)
        moreover have "cur_ok k6 \<and> k_cur k6 = Some p" if "idup j k4 = (j1, k6)" for j j1 k6
          using q_partD [OF idup_ap [OF that, THEN pp_ap, THEN q_pp]] calculation by auto
        ultimately show ?thesis
          using np(3) by (auto simp: k5_def Let_def split: option.splits prod.splits intro: cur_ok_upd_other)
      qed
      have "np < length (k_procs k5)"
        using c' k' np length_conf [of k'] by simp
      then have "p_pid (k_procs k' ! np) = r" by (simp add: k' r)
      moreover have "p_pid (k_procs k' ! np) = ?n"
        using conf_at [of np k'] c' np length_conf [of k'] by (simp add: proc_conf_def child_entry_def)
      moreover have "cur_ok k'" unfolding k' by (rule cur_ok_upd_other) (use keep np in auto)
      ultimately show ?thesis using c' np by auto
    qed
  qed
qed

lemma unused_free: "table_ok (conf_part k) \<Longrightarrow> i < length (k_procs k) \<Longrightarrow> p_state (k_procs k ! i) = UNUSED \<Longrightarrow>
   p_pid (k_procs k ! i) = 0"
  using table_ok_entry [of k i] by (simp add: entry_ok_def proc_conf_def live_state_def)

lemma kfork_step: "kfork k = Some (r, k') \<Longrightarrow> conf_step k k'"
proof (cases "cur_ok k")
  case ok: True
  assume f: "kfork k = Some (r, k')"
  then obtain p where p: "k_cur k = Some p" by (auto simp: kfork_def split: bind_splits)
  have pp: "p < length (k_procs k)" "p_state (k_procs k ! p) = RUNNING" using ok p by (auto simp: cur_ok_def)
  have ch: "entry_ok (k_nextpid k + 1) (child_entry (k_nextpid k) (k_procs k ! p))" if "table_ok (conf_part k)"
    using table_ok_entry [OF that pp(1)] pp(2) table_ok_next [OF that]
    by (auto simp: entry_ok_def child_entry_def proc_conf_def live_state_def)
  from kfork_conf [OF f ok p] consider
      "cur_ok k'" "conf_part k' = conf_part k"
    | np e where "cur_ok k'" "conf_part k' = ((fst (conf_part k))[np := e], wrap32 (k_nextpid k + 1))"
        "e = free_entry \<or> e = child_entry (k_nextpid k) (k_procs k ! p)"
    by blast
  then show ?thesis
  proof cases
    case 1
    then show ?thesis by (simp add: conf_step_def conf_ok_def)
  next
    case 2
    have "fst (child_entry (k_nextpid k) (k_procs k ! p)) = k_nextpid k" by (simp add: child_entry_def)
    then show ?thesis
      using 2 ch wrap32_next [of "k_nextpid k"] table_ok_next [of k] by (intro conf_step_upd [OF 2(2)]) auto
  qed
qed (simp add: conf_step_def conf_ok_def)

subsection \<open>exit, wait, jail and setpriority\<close>

lemma q_close_files: "close_files fds p k = Some k' \<Longrightarrow> q_part k' = q_part k"
proof (induction fds arbitrary: k)
  case (Cons fd fds)
  show ?case using Cons.prems by (auto split: option.splits bind_splits dest!: pp_fileclose [THEN q_pp] Cons.IH)
qed simp

lemma q_wakeup_proc [simp]: "q_part (wakeup_proc p k) = q_part k"
  by (simp add: wakeup_proc_def split: option.splits)

lemma q_parent [simp]: "q_part (upd_proc i (\<lambda>q. q\<lparr>p_parent := g q\<rparr>) k) = q_part k"
  by (rule q_upd) (simp add: harmless_def proc_conf_def)

lemma q_reparent [simp]: "q_part (reparent p k) = q_part k"
proof -
  have "q_part (fold (\<lambda>i k. if p_parent (k_procs k ! i) = Some p
                 then wakeup_proc (k_initproc k) (upd_proc i (\<lambda>q. q\<lparr>p_parent := k_initproc k\<rparr>) k) else k) is k) = q_part k" for "is" k
    by (induction "is" arbitrary: k) auto
  then show ?thesis by (simp add: reparent_def)
qed

lemma kexit_conf:
  assumes x: "kexit status k = Some k'" and ok: "cur_ok k" and p: "k_cur k = Some p"
  shows "k_cur k' = None"
    "conf_part k' = ((fst (conf_part k))[p := (p_pid (k_procs k ! p), p_is_agent (k_procs k ! p), None,
       p_priority (k_procs k ! p), ZOMBIE)], k_nextpid k)"
proof -
  have "\<exists>k1 k2. q_part k1 = q_part k \<and> q_part k2 = q_part (upd_proc p (\<lambda>q. q\<lparr>p_cwd := None, p_jail_root := None\<rparr>) k1) \<and>
      sched (upd_proc p (\<lambda>q. q\<lparr>p_xstate := status, p_state := ZOMBIE\<rparr>) k2) = Some k'"
  proof -
    obtain k1 where q: "q_part k1 = q_part k"
      and sc: "(let k = upd_proc p (\<lambda>q. q\<lparr>p_cwd := None, p_jail_root := None\<rparr>) k1;
         k = reparent p k;
         k = wakeup_proc (p_parent (k_procs k ! p)) k
         in sched (upd_proc p (\<lambda>q. q\<lparr>p_xstate := status, p_state := ZOMBIE\<rparr>) k)) = Some k'"
      using x p by (auto simp: kexit_def panic_simps split: if_splits bind_splits option.splits
          dest!: q_close_files begin_op_ap [THEN pp_ap, THEN q_pp] iput_ap [THEN pp_ap, THEN q_pp] end_op_ap [THEN pp_ap, THEN q_pp])
    define k3 where "k3 = reparent p (upd_proc p (\<lambda>q. q\<lparr>p_cwd := None, p_jail_root := None\<rparr>) k1)"
    show ?thesis
      by (rule exI [of _ k1], rule exI [of _ "wakeup_proc (p_parent (k_procs k3 ! p)) k3"])
        (use q sc in \<open>simp add: k3_def Let_def\<close>)
  qed
  then obtain k1 k2 where q1: "q_part k1 = q_part k"
    and q2: "q_part k2 = q_part (upd_proc p (\<lambda>q. q\<lparr>p_cwd := None, p_jail_root := None\<rparr>) k1)"
    and sc: "sched (upd_proc p (\<lambda>q. q\<lparr>p_xstate := status, p_state := ZOMBIE\<rparr>) k2) = Some k'" by blast
  note d1 = q_partD [OF q1] and d2 = q_partD [OF q2]
  have cur2: "k_cur k2 = Some p" using d1 d2 p by simp
  have k': "k' = (upd_proc p (\<lambda>q. q\<lparr>p_xstate := status, p_state := ZOMBIE\<rparr>) k2)\<lparr>k_cur := None\<rparr>"
    using sc cur2 by (auto simp: sched_def panic_simps split: if_splits)
  then show "k_cur k' = None" by simp
  have pl: "p < length (k_procs k)" using ok p by (simp add: cur_ok_def)
  have "proc_conf (k_procs k1 ! p) = proc_conf (k_procs k ! p)"
    using conf_at [OF pl] conf_at [of p k1] d1 pl by simp
  then have "conf_part k2 = ((fst (conf_part k))[p := (p_pid (k_procs k ! p), p_is_agent (k_procs k ! p), None,
       p_priority (k_procs k ! p), live_state (p_state (k_procs k ! p)))], k_nextpid k)"
    using d1 d2 by (simp add: conf_upd_proc proc_conf_def)
  moreover from this have "proc_conf (k_procs k2 ! p) = (p_pid (k_procs k ! p), p_is_agent (k_procs k ! p), None,
       p_priority (k_procs k ! p), live_state (p_state (k_procs k ! p)))"
    using conf_at [of p k2] pl length_conf [of k2] by simp
  ultimately show "conf_part k' = ((fst (conf_part k))[p := (p_pid (k_procs k ! p), p_is_agent (k_procs k ! p), None,
       p_priority (k_procs k ! p), ZOMBIE)], k_nextpid k)"
    using conf_upd_proc [of p "\<lambda>q. q\<lparr>p_xstate := status, p_state := ZOMBIE\<rparr>" k2]
    by (simp add: k' conf_part_def proc_conf_def live_state_def)
qed

lemma kexit_step: "kexit status k = Some k' \<Longrightarrow> conf_step k k'"
proof (cases "cur_ok k")
  case ok: True
  assume x: "kexit status k = Some k'"
  then obtain p where p: "k_cur k = Some p" by (auto simp: kexit_def split: bind_splits)
  have pl: "p < length (k_procs k)" "p_state (k_procs k ! p) = RUNNING" using ok p by (auto simp: cur_ok_def)
  note c = kexit_conf [OF x ok p]
  show ?thesis
    by (rule conf_step_upd [OF c(2)])
      (use c(1) table_ok_entry [OF _ pl(1)] conf_at [OF pl(1)] pl(2) table_ok_next [of k]
        in \<open>auto simp: cur_ok_def entry_ok_def proc_conf_def live_state_def\<close>)
qed (simp add: conf_step_def conf_ok_def)

lemma wait_scan_zombie:
  "wait_scan qs i p h = (h', Some c) \<Longrightarrow> i \<le> c \<and> c < i + length qs \<and> p_state (qs ! (c - i)) = ZOMBIE \<and> p_parent (qs ! (c - i)) = Some p"
proof (induction qs i p h rule: wait_scan.induct)
  case (2 q qs i p h)
  then show ?case by (force split: if_splits simp: Suc_le_eq nth_Cons')
qed simp

lemma kwait_step: "kwait addr k = Some (r, k') \<Longrightarrow> conf_step k k'"
proof -
  assume w: "kwait addr k = Some (r, k')"
  then obtain p where p: "k_cur k = Some p" by (auto simp: kwait_def split: bind_splits)
  show ?thesis
  proof (cases "wait_scan (k_procs k) 0 p False")
    case (Pair h cc)
    show ?thesis
    proof (cases cc)
      case None
      then show ?thesis using w p Pair by (auto simp: kwait_def split: if_splits bind_splits intro: conf_step_quiet dest!: quiet_sleep)
    next
      case (Some c)
      then have z: "c < length (k_procs k)" "p_state (k_procs k ! c) = ZOMBIE" using wait_scan_zombie Pair by fastforce+
      obtain k1 where q: "q_part k1 = q_part k" and f: "k' = k1 \<or> freeproc c k1 = Some k'"
        using w p Pair Some by (auto simp: kwait_def Let_def split: if_splits bind_splits dest!: copyout_ap [THEN pp_ap, THEN q_pp])
      from f show ?thesis
      proof
        assume f: "freeproc c k1 = Some k'"
        note fc = freeproc_conf [OF f]
        have "conf_step k1 k'"
        proof (rule conf_step_upd [OF fc(1)])
          show "cur_ok k'" if "cur_ok k1"
          proof (rule fc(3) [OF that])
            show "k_cur k1 \<noteq> Some c" using that q_partD [OF q] z by (auto simp: cur_ok_def)
          qed
        qed (auto dest: table_ok_next)
        then show ?thesis using q by (blast intro: conf_step_before)
      qed (use q in \<open>auto intro: conf_step_q\<close>)
    qed
  qed
qed

text \<open>An update of a live process that keeps its pid and state and does not lift its confinement.\<close>

definition confining :: "(proc \<Rightarrow> proc) \<Rightarrow> bool" where
  "confining f \<longleftrightarrow> (\<forall>q. p_pid (f q) = p_pid q \<and> p_state (f q) = p_state q \<and> (p_is_agent q \<longrightarrow> p_is_agent (f q)) \<and>
     (p_is_agent (f q) \<longrightarrow> p_jail_root (f q) \<noteq> None \<or> p_is_agent q \<and> p_jail_root (f q) = p_jail_root q))"

lemma conf_step_confining:
  assumes f: "confining f" and live: "cur_ok k \<Longrightarrow> p < length (k_procs k) \<and> (p_state (k_procs k ! p) = UNUSED \<longrightarrow> p_is_agent (f (k_procs k ! p)) = p_is_agent (k_procs k ! p))"
  shows "conf_step k (upd_proc p f k)"
proof (rule conf_step_upd)
  show "conf_part (upd_proc p f k) = ((fst (conf_part k))[p := proc_conf (f (k_procs k ! p))], k_nextpid k)"
    by (simp add: conf_upd_proc)
  show "cur_ok (upd_proc p f k)" if "cur_ok k"
    using that f by (auto simp: cur_ok_def upd_proc_def confining_def)
  assume t: "table_ok (conf_part k)" and ok: "cur_ok k"
  let ?q = "k_procs k ! p"
  have pl: "p < length (k_procs k)" using live [OF ok] by simp
  have fq: "p_pid (f ?q) = p_pid ?q" "p_state (f ?q) = p_state ?q" "p_is_agent ?q \<Longrightarrow> p_is_agent (f ?q)"
    "p_is_agent (f ?q) \<Longrightarrow> p_jail_root (f ?q) \<noteq> None \<or> p_is_agent ?q \<and> p_jail_root (f ?q) = p_jail_root ?q"
    using f by (auto simp: confining_def)
  have "entry_ok (k_nextpid k) (proc_conf (f ?q))"
    using table_ok_entry [OF t pl] live [OF ok] fq by (auto simp: entry_ok_def proc_conf_def live_state_def split: if_splits)
  then show "k_nextpid k \<le> k_nextpid k \<and> k_nextpid k < 2 ^ 31 \<and> entry_ok (k_nextpid k) (proc_conf (f ?q)) \<and>
      (fst (proc_conf (f ?q)) = 0 \<or> k_nextpid k \<le> fst (proc_conf (f ?q)) \<or>
       fst (proc_conf (f ?q)) = fst (fst (conf_part k) ! p) \<and>
       (fst (snd (fst (conf_part k) ! p)) \<longrightarrow> fst (snd (proc_conf (f ?q)))))"
    using fq conf_at [OF pl] table_ok_next [OF t] by (simp add: proc_conf_def)
qed

lemma sys_jail_step: "sys_jail k = Some (r, k') \<Longrightarrow> conf_step k k'"
proof -
  assume j: "sys_jail k = Some (r, k')"
  then obtain p got k1 where p: "k_cur k = Some p" and e: "enter_dir k = Some (got, k1)" by (auto simp: sys_jail_def split: bind_splits)
  note q1 = q_enter_dir [OF e]
  show ?thesis
  proof (cases got)
    case None
    then show ?thesis using j p e q1 by (auto simp: sys_jail_def intro: conf_step_q)
  next
    case (Some ip)
    obtain d k2 where i: "idup ip k1 = (d, k2)" by (cases "idup ip k1")
    let ?f = "\<lambda>q. q\<lparr>p_jail_root := Some d, p_cwd := Some ip, p_is_agent := True\<rparr>"
    have q2: "q_part k2 = q_part k" using q1 idup_ap [OF i, THEN pp_ap, THEN q_pp] by simp
    have "conf_step k2 (upd_proc p ?f k2)"
      by (rule conf_step_confining) (use q_partD [OF q2] p in \<open>auto simp: confining_def cur_ok_def\<close>)
    moreover have "k' = upd_proc p ?f k2" using j p e Some i by (auto simp: sys_jail_def)
    ultimately show ?thesis using q2 by (blast intro: conf_step_before)
  qed
qed

lemma sys_setpriority_step: "sys_setpriority k = Some (r, k') \<Longrightarrow> conf_step k k'"
proof -
  have "conf_step k (upd_proc i (\<lambda>q. q\<lparr>p_priority := pr\<rparr>) k)" if "find_pid (k_procs k) pid = Some i" for i pr pid
    by (rule conf_step_confining) (use find_pid_some [OF that] in \<open>auto simp: confining_def\<close>)
  then show "sys_setpriority k = Some (r, k') \<Longrightarrow> conf_step k k'"
    by (auto simp: sys_setpriority_def Let_def split: if_splits bind_splits option.splits intro: conf_step_q)
qed

section \<open>Every kernel entry\<close>

lemma fork_exit_wait_step:
  "sys_fork k = Some (r, k') \<Longrightarrow> conf_step k k'"
  "sys_exit k = Some (r, k') \<Longrightarrow> conf_step k k'"
  "sys_wait_call k = Some (r, k') \<Longrightarrow> conf_step k k'"
  by (auto simp: sys_fork_def sys_exit_def sys_wait_call_def split: bind_splits
      dest!: kfork_step kexit_step kwait_step to_sys_state)

lemmas handler_steps =
  fork_exit_wait_step sys_setpriority_step sys_jail_step
  q_sys_pipe [THEN conf_step_q] q_sys_proc [THEN conf_step_q] q_sys_exec [THEN conf_step_q] q_sys_fd [THEN conf_step_q]
  q_sys_chdir [THEN conf_step_q] q_sys_open [THEN conf_step_q] q_sys_mknod [THEN conf_step_q] q_sys_unlink [THEN conf_step_q]
  q_sys_link [THEN conf_step_q] q_sys_mkdir [THEN conf_step_q] q_sys_agent [THEN conf_step_q]
  quiet_sys_io [THEN conf_step_quiet] quiet_sys_pause [THEN conf_step_quiet] quiet_agent_recv [THEN conf_step_quiet]

lemma handler_step:
  assumes "syscalls num = Some h" "h k = Some (r, k')"
  shows "conf_step k k'"
proof -
  have "h \<in> {sys_fork, sys_exit, sys_wait_call, sys_pipe, sys_read, sys_kill, sys_exec, sys_fstat, sys_chdir, sys_dup,
      sys_getpid, sys_sbrk, sys_pause, sys_uptime, sys_open, sys_write, sys_mknod, sys_unlink, sys_link, sys_mkdir, sys_close,
      sys_setpriority, sys_getpriority, sys_jail, sys_agent_recv, sys_set_deny, sys_get_deny, sys_procinfo, sys_set_cache,
      sys_get_cache, sys_dispatch}"
    using assms(1) unfolding syscalls_def by (auto simp: syscall_numbers split: if_splits)
  then show ?thesis
    using assms(2) by (elim insertE emptyE) (simp, erule handler_steps)+
qed

lemma sys_finish_step:
  assumes "sys_finish p x = Some (r, k')" "\<And>r0 k1. x = Some (r0, k1) \<Longrightarrow> conf_step k k1"
  shows "conf_step k k'"
proof -
  obtain r0 k1 where x: "x = Some (r0, k1)" and k': "k' = (case r0 of Done v \<Rightarrow> set_a0 p v k1 | Sleep w \<Rightarrow> k1)"
    using assms(1) by (auto simp: sys_finish_def split: bind_splits blocking.splits)
  have "q_part k' = q_part k1" by (simp add: k' set_a0_def split: blocking.splits)
  then show ?thesis using assms(2) [OF x] by (blast intro: conf_step_after)
qed

lemma call_handler_step: "call_handler p num k = Some (r, k') \<Longrightarrow> conf_step k k'"
  by (auto simp: call_handler_def split: bind_splits elim!: sys_finish_step dest: handler_step)

lemma conf_step_trans:
  assumes "quiet k k1" "conf_step k1 k'"
  shows "conf_step k k'"
  using assms unfolding quiet_def conf_step_def conf_ok_def by metis

lemma agent_gate_step:
  assumes "agent_gate p num (a, k) = Some (r, k')"
  shows "conf_step k k'"
  using assms by (auto simp: agent_gate_def set_a0_def split: blocking.splits if_splits
      intro: conf_step_q call_handler_step)

lemma syscall_step: "syscall k = Some (r, k') \<Longrightarrow> conf_step k k'"
  by (auto simp: syscall_def set_a0_def Let_def split: bind_splits if_splits
      intro: conf_step_q call_handler_step conf_step_trans [OF quiet_confirm_request agent_gate_step])

lemma syscall_resume_step: "syscall_resume w k = Some (r, k') \<Longrightarrow> conf_step k k'"
proof -
  assume s: "syscall_resume w k = Some (r, k')"
  then obtain p where p: "k_cur k = Some p" by (auto simp: syscall_resume_def split: bind_splits)
  have "conf_step (sleep_resume k) k'"
  proof (cases w)
    case (W_confirm t0)
    then show ?thesis using s p by (auto simp: syscall_resume_def Let_def split: bind_splits
        intro: conf_step_trans [OF quiet_confirm_poll agent_gate_step])
  qed (use s p in \<open>auto simp: syscall_resume_def panic_simps elim!: sys_finish_step
      intro: conf_step_quiet [OF quiet_io_resume] conf_step_quiet [OF quiet_pause_poll] conf_step_quiet [OF quiet_agent_recv]\<close>,
      auto simp: sys_wait_call_def split: bind_splits dest!: kwait_step to_sys_state)
  then show ?thesis by (rule conf_step_before [OF q_sleep_resume])
qed

subsection \<open>Traps\<close>

lemma q_set_tf [simp]: "q_part (set_tf p r v k) = q_part k"
  by (simp add: set_tf_def)

lemma q_devintr: "devintr h k = (d, h', k') \<Longrightarrow> q_part k' = q_part k"
  by (auto simp: devintr_def clockintr_def Let_def split: if_splits prod.splits)

lemma q_lazy_fault: "lazy_fault p h k = Some (b, k') \<Longrightarrow> q_part k' = q_part k"
  by (auto simp: lazy_fault_def split: if_splits bind_splits dest!: vmfault_ap [THEN pp_ap, THEN q_pp])

lemma q_trap_unexpected [simp]: "q_part (trap_unexpected p h k) = q_part k"
  by (simp add: trap_unexpected_def setkilled_def Let_def)

lemma q_charge_tick [simp]: "q_part (charge_tick k) = q_part k"
  by (simp add: charge_tick_def split: option.splits)

lemma q_prepare_return: "prepare_return S h k = Some (h', k') \<Longrightarrow> q_part k' = q_part k"
  by (auto simp: prepare_return_def Let_def split: bind_splits)

lemma q_usertrap_finish: "usertrap_finish S h k = Some (r, h', k') \<Longrightarrow> q_part k' = q_part k"
  by (auto simp: usertrap_finish_def split: bind_splits dest!: pp_drain [THEN q_pp] q_prepare_return)

lemma usertrap_tail_step: "usertrap_tail S d p h k = Some (r, h', k') \<Longrightarrow> conf_step k k'"
  by (auto simp: usertrap_tail_def trap_exit_def split: if_splits bind_splits
      intro: conf_step_q conf_step_before [OF q_charge_tick] conf_step_quiet dest!: kexit_step quiet_yield q_usertrap_finish)

lemma usertrap_tail_nextpid: "usertrap_tail S d p h k = Some (r, h', k') \<Longrightarrow> cur_ok k \<Longrightarrow> k_nextpid k' = k_nextpid k"
proof -
  assume t: "usertrap_tail S d p h k = Some (r, h', k')" and ok: "cur_ok k"
  have "k_nextpid k2 = k_nextpid k" if x: "kexit (- 1) k = Some k2" for k2
  proof -
    obtain q where "k_cur k = Some q" using x by (auto simp: kexit_def split: bind_splits)
    from kexit_conf(2) [OF x ok this] show ?thesis using snd_conf [of k2] by simp
  qed
  moreover have "k_nextpid k2 = k_nextpid k" if "quiet k1 k2" "q_part k1 = q_part k" for k1 k2
    using that ok q_partD [of k1 k] snd_conf [of k1] snd_conf [of k2] snd_conf [of k] by (simp add: quiet_def)
  ultimately show ?thesis
    using t by (auto simp: usertrap_tail_def trap_exit_def split: if_splits bind_splits
        dest!: quiet_yield q_usertrap_finish dest: quiet_q)
qed

text \<open>Two steps in one entry: a system call, then the end of the trap.\<close>

lemma conf_step_next:
  assumes a: "conf_step k k1" and b: "conf_step k1 k'" and n: "cur_ok k1 \<Longrightarrow> k_nextpid k' = k_nextpid k1"
  shows "conf_step k k'"
proof -
  have cur: "cur_ok k \<Longrightarrow> cur_ok k1" "cur_ok k1 \<Longrightarrow> cur_ok k'" using a b by (auto simp: conf_step_def)
  have "conf_ok k' \<and> table_mono (conf_part k) (conf_part k')" if ok: "conf_ok k" and pos: "0 < k_nextpid k'"
  proof -
    have "0 < k_nextpid k1" using n cur(1) ok pos by (auto simp: conf_ok_def)
    then have "conf_ok k1" "table_mono (conf_part k) (conf_part k1)" using a ok by (auto simp: conf_step_def)
    then show ?thesis using b pos table_mono_trans by (auto simp: conf_step_def)
  qed
  then show ?thesis using cur by (auto simp: conf_step_def)
qed

lemma usertrap_after_step:
  assumes "usertrap_after S p h x = Some (r, h', k')" "\<And>r0 k1. x = Some (r0, k1) \<Longrightarrow> conf_step k k1"
  shows "conf_step k k'"
proof -
  obtain r0 k1 where x: "x = Some (r0, k1)" and d: "k' = k1 \<or> usertrap_tail S 0 p h k1 = Some (r, h', k')"
    using assms(1) by (auto simp: usertrap_after_def split: bind_splits blocking.splits sys_wait.splits)
  from d show ?thesis
  proof
    assume "usertrap_tail S 0 p h k1 = Some (r, h', k')"
    then show ?thesis by (intro conf_step_next [OF assms(2) [OF x]] usertrap_tail_step usertrap_tail_nextpid)
  qed (use assms(2) [OF x] in simp)
qed

lemma usertrap_step: "usertrap S h k = Some (r, h', k') \<Longrightarrow> conf_step k k'"
proof -
  assume u: "usertrap S h k = Some (r, h', k')"
  then obtain p where p: "k_cur k = Some p" and spp: "h_sstatus h AND SSTATUS_SPP = 0"
    by (cases "k_cur k") (auto simp: usertrap_def panic_simps Let_def split: if_splits)
  define h1 where "h1 = h\<lparr>h_stvec := sym_kernelvec S\<rparr>"
  define k1 where "k1 = set_tf p tf_epc (h_sepc h1) k"
  have q1: "q_part k1 = q_part k" by (simp add: k1_def)
  have "conf_step k1 k'"
  proof (cases "h_scause h1 = 8")
    case True
    show ?thesis
    proof (cases "killed p k1")
      case True
      then show ?thesis using u p spp \<open>h_scause h1 = 8\<close>
        by (auto simp: usertrap_def h1_def [symmetric] k1_def [symmetric] trap_exit_def split: bind_splits dest!: kexit_step)
    next
      case False
      define k2 where "k2 = set_tf p tf_epc (p_tf (k_procs k1 ! p) tf_epc + 4) k1"
      have "usertrap_after S p (intr_on h1) (syscall k2) = Some (r, h', k')"
        using u p spp \<open>h_scause h1 = 8\<close> False by (simp add: usertrap_def h1_def [symmetric] k1_def [symmetric] k2_def Let_def)
      then have "conf_step k2 k'" by (rule usertrap_after_step) (rule syscall_step)
      moreover have "q_part k2 = q_part k1" by (simp add: k2_def)
      ultimately show ?thesis by (blast intro: conf_step_before)
    qed
  next
    case False
    obtain d h2 k2 where dev: "devintr h1 k1 = (d, h2, k2)" by (cases "devintr h1 k1")
    have "\<exists>k3 d'. q_part k3 = q_part k2 \<and> usertrap_tail S d' p h2 k3 = Some (r, h', k')"
    proof (cases "d = 0")
      case True
      then obtain ok k4 where lf: "lazy_fault p h2 k2 = Some (ok, k4)"
        and t: "usertrap_tail S 0 p h2 (if ok then k4 else trap_unexpected p h2 k4) = Some (r, h', k')"
        using u p spp False dev
        by (auto simp: usertrap_def h1_def [symmetric] k1_def [symmetric] Let_def split: bind_splits)
      have "q_part (if ok then k4 else trap_unexpected p h2 k4) = q_part k2" using q_lazy_fault [OF lf] by simp
      then show ?thesis using t by blast
    qed (use u p spp False dev in \<open>auto simp: usertrap_def h1_def [symmetric] k1_def [symmetric] Let_def\<close>)
    then obtain k3 d' where q3: "q_part k3 = q_part k2" and t: "usertrap_tail S d' p h2 k3 = Some (r, h', k')" by blast
    have "q_part k3 = q_part k1" using q3 q_devintr [OF dev] by simp
    then show ?thesis using usertrap_tail_step [OF t] by (blast intro: conf_step_before)
  qed
  then show ?thesis using q1 by (blast intro: conf_step_before)
qed

lemma usertrap_resume_step: "usertrap_resume S w h k = Some (r, h', k') \<Longrightarrow> conf_step k k'"
  by (auto simp: usertrap_resume_def panic_simps split: bind_splits trap_wait.splits
      intro: conf_step_q usertrap_after_step syscall_resume_step dest: q_usertrap_finish)

lemma kerneltrap_step: "kerneltrap h k = Some (r, h', k') \<Longrightarrow> conf_step k k'"
proof -
  assume t: "kerneltrap h k = Some (r, h', k')"
  obtain d h2 k2 where dev: "devintr h k = (d, h2, k2)" by (cases "devintr h k")
  have "k' = k2 \<or> yield (charge_tick k2) = Some k'"
    using t dev by (auto simp: kerneltrap_def panic_simps Let_def split: if_splits bind_splits)
  then have "conf_step k2 k'"
    by (auto intro: conf_step_q conf_step_before [OF q_charge_tick] conf_step_quiet dest!: quiet_yield)
  then show ?thesis using q_devintr [OF dev] by (blast intro: conf_step_before)
qed

lemma userinit_step: "userinit k = Some k' \<Longrightarrow> conf_step k k'"
proof (cases "cur_ok k")
  case ok: True
  assume u: "userinit k = Some k'"
  then obtain p k1 where al: "allocproc k = Some (Some p, k1)" by (auto simp: userinit_def split: bind_splits)
  define k2 where "k2 = k1\<lparr>k_initproc := Some p\<rparr>"
  obtain cwd k3 where nm: "namei ''/'' k2 = Some (cwd, k3)"
    and k': "k' = upd_proc p (\<lambda>q. q\<lparr>p_cwd := cwd, p_priority := - 5, p_state := RUNNABLE\<rparr>) k3"
    using u al by (auto simp: userinit_def k2_def Let_def split: bind_splits)
  have "q_part k2 = q_part k1" by (simp add: k2_def q_part_def conf_part_def cur_ok_def)
  then have q3: "q_part k3 = q_part k1" using namei_ap [OF nm, THEN pp_ap, THEN q_pp] by simp
  note d3 = q_partD [OF q3]
  from allocproc_conf [OF al ok] have p: "p < length (k_procs k)" "k_cur k1 \<noteq> Some p" "cur_ok k1"
    and c: "conf_part k1 = ((fst (conf_part k))[p := (k_nextpid k, False, None, 10, USED)], wrap32 (k_nextpid k + 1))"
    by auto
  have "proc_conf (k_procs k3 ! p) = (k_nextpid k, False, None, 10, USED)"
    using conf_at [of p k3] d3 c p length_conf [of k1] by simp
  then have c': "conf_part k' = ((fst (conf_part k))[p := (k_nextpid k, False, None, - 5, RUNNABLE)], wrap32 (k_nextpid k + 1))"
    using c d3 by (simp add: k' conf_upd_proc proc_conf_def live_state_def)
  have "cur_ok k'" unfolding k' by (rule cur_ok_upd_other) (use d3 p in auto)
  then show ?thesis
    using wrap32_next [of "k_nextpid k"] table_ok_next [of k]
    by (intro conf_step_upd [OF c']) (auto simp: entry_ok_def)
qed (simp add: conf_step_def conf_ok_def)

section \<open>The kernel as a transition system\<close>

text \<open>
  A step is the creation of the first process, a pass of the scheduler on an idle CPU, a trap
  from user space, the continuation of a trap that had given up the CPU, or a trap taken in the
  kernel; \<open>h\<close> is whatever the hardware registers hold.  A history is a sequence of
  steps during which the 31-bit pids do not run out.
\<close>

inductive kstep :: "hart_syms \<Rightarrow> kernel \<Rightarrow> kernel \<Rightarrow> bool" for S where
  k_init: "userinit k = Some k' \<Longrightarrow> kstep S k k'"
| k_schedule: "k_cur k = None \<Longrightarrow> kstep S k (scheduler k)"
| k_trap: "usertrap S h k = Some (r, h', k') \<Longrightarrow> kstep S k k'"
| k_resume: "usertrap_resume S w h k = Some (r, h', k') \<Longrightarrow> kstep S k k'"
| k_ktrap: "kerneltrap h k = Some (b, h', k') \<Longrightarrow> kstep S k k'"

inductive history :: "hart_syms \<Rightarrow> kernel \<Rightarrow> kernel \<Rightarrow> bool" for S where
  h_refl: "history S k k"
| h_step: "history S k k1 \<Longrightarrow> kstep S k1 k' \<Longrightarrow> 0 < k_nextpid k' \<Longrightarrow> history S k k'"

inductive_cases history_stepE: "history S k k'"

lemma kstep_conf: "kstep S k k' \<Longrightarrow> conf_step k k'"
  by (induction rule: kstep.induct)
    (auto intro: userinit_step conf_step_quiet quiet_scheduler usertrap_step usertrap_resume_step kerneltrap_step)

lemma history_conf: "history S k k' \<Longrightarrow> conf_ok k \<Longrightarrow> conf_ok k' \<and> table_mono (conf_part k) (conf_part k')"
  by (induction rule: history.induct) (auto dest!: kstep_conf simp: conf_step_def intro: table_mono_trans)

text \<open>The process table as \<open>procinit\<close> leaves it: every slot free, no process running.\<close>

definition procs_booted :: "kernel \<Rightarrow> bool" where
  "procs_booted k \<longleftrightarrow> k_procs k = map proc_boot [0..<NPROC] \<and> k_cur k = None \<and> k_nextpid k = 1"

lemma procs_booted_ok: "procs_booted k \<Longrightarrow> conf_ok k"
  by (auto simp: procs_booted_def conf_ok_def cur_ok_def table_ok_def conf_part_def proc_boot_def
      proc_conf_def live_state_def entry_ok_def NPROC_def)

section \<open>Properties\<close>

text \<open>
  C31: the process table is consistent in every history since \<open>procinit\<close>: a slot is unused exactly when its pid
  is 0, live pids are positive, below \<open>nextpid\<close> and pairwise different, the process on the CPU
  is RUNNING, the table keeps its size, and every agent that has not exited has a jail root
  (\<open>conf_ok\<close>).
\<close>

theorem process_table_consistent:
  assumes "procs_booted k0" "history S k0 k"
  shows "conf_ok k \<and> length (k_procs k) = NPROC \<and>
    (\<forall>p. k_cur k = Some p \<longrightarrow> p < NPROC \<and> p_state (k_procs k ! p) = RUNNING) \<and>
    (\<forall>i < NPROC. (p_pid (k_procs k ! i) = 0 \<longleftrightarrow> p_state (k_procs k ! i) = UNUSED) \<and>
       0 \<le> p_pid (k_procs k ! i) \<and> p_pid (k_procs k ! i) < k_nextpid k \<and>
       (p_is_agent (k_procs k ! i) \<longrightarrow> p_jail_root (k_procs k ! i) \<noteq> None \<or> p_state (k_procs k ! i) = ZOMBIE)) \<and>
    (\<forall>i < NPROC. \<forall>j < NPROC. p_pid (k_procs k ! i) = p_pid (k_procs k ! j) \<longrightarrow> p_pid (k_procs k ! i) \<noteq> 0 \<longrightarrow> i = j)"
proof -
  note h = history_conf [OF assms(2) procs_booted_ok [OF assms(1)]]
  then have t: "table_ok (conf_part k)" and c: "cur_ok k" by (auto simp: conf_ok_def)
  have len: "length (k_procs k) = NPROC" using h assms(1) by (simp add: table_mono_def procs_booted_def)
  have "(p_pid (k_procs k ! i) = 0 \<longleftrightarrow> p_state (k_procs k ! i) = UNUSED) \<and>
       0 \<le> p_pid (k_procs k ! i) \<and> p_pid (k_procs k ! i) < k_nextpid k \<and>
       (p_is_agent (k_procs k ! i) \<longrightarrow> p_jail_root (k_procs k ! i) \<noteq> None \<or> p_state (k_procs k ! i) = ZOMBIE)"
    if "i < NPROC" for i
    using table_ok_entry [OF t, of i] that len table_ok_next [OF t]
    by (auto simp: entry_ok_def proc_conf_def live_state_def split: if_splits)
  moreover have "i = j" if "i < NPROC" "j < NPROC" "p_pid (k_procs k ! i) = p_pid (k_procs k ! j)" "p_pid (k_procs k ! i) \<noteq> 0" for i j
    using t that len conf_at [of i k] conf_at [of j k] by (auto simp: table_ok_def proc_conf_def)
  ultimately show ?thesis using h len c by (auto simp: cur_ok_def)
qed

theorem process_table_consistent_witness:
  "procs_booted kernel_boot \<and> (\<exists>S. history S kernel_boot (scheduler kernel_boot)) \<and> conf_ok (scheduler kernel_boot)"
proof -
  have b: "procs_booted kernel_boot" by (simp add: procs_booted_def kernel_boot_def)
  have idle: "scheduler kernel_boot = kernel_boot\<lparr>k_cur := None\<rparr>"
  proof -
    have "cfs_scan (k_procs kernel_boot) 0 None = None"
      by (simp add: cfs_scan_none kernel_boot_def proc_boot_def)
    then show ?thesis by (simp add: scheduler_def)
  qed
  have "history S kernel_boot (scheduler kernel_boot)" for S
  proof (rule h_step [OF h_refl k_schedule])
    show "k_cur kernel_boot = None" by (simp add: kernel_boot_def)
    show "0 < k_nextpid (scheduler kernel_boot)" unfolding idle by (simp add: kernel_boot_def)
  qed
  then show ?thesis using b process_table_consistent [OF b] by blast
qed

text \<open>
  C1: confinement is permanent.  From any state that meets the invariant \<open>conf_ok\<close>, which holds
  in every state since boot, a process that is an agent is still an agent after every history
  in which it still exists (its slot holds the same pid), and until it exits it has a
  jail root: no system call, trap, interrupt or scheduling decision gives the flag or the jail
  back.
\<close>

theorem agents_stay_confined:
  assumes "conf_ok k" "history S k k'"
    and "i < length (k_procs k)" "p_is_agent (k_procs k ! i)" "p_pid (k_procs k' ! i) = p_pid (k_procs k ! i)"
  shows "p_is_agent (k_procs k' ! i) \<and> (p_jail_root (k_procs k' ! i) \<noteq> None \<or> p_state (k_procs k' ! i) = ZOMBIE)"
proof -
  have t: "table_ok (conf_part k)" using assms(1) by (simp add: conf_ok_def)
  note h = history_conf [OF assms(2,1)]
  then have t': "table_ok (conf_part k')" and m: "table_mono (conf_part k) (conf_part k')" by (auto simp: conf_ok_def)
  have i': "i < length (k_procs k')" using m assms(3) by (simp add: table_mono_def)
  have "0 < p_pid (k_procs k ! i)" "p_pid (k_procs k ! i) < k_nextpid k"
    using table_ok_entry [OF t assms(3)] assms(4) by (auto simp: entry_ok_def proc_conf_def live_state_def split: if_splits)
  then have "p_is_agent (k_procs k' ! i)"
    using table_mono_at [OF m, of i] conf_at [OF assms(3)] conf_at [OF i'] assms(3-5) by (auto simp: proc_conf_def)
  then show ?thesis
    using table_ok_entry [OF t' i'] by (auto simp: entry_ok_def proc_conf_def live_state_def split: if_splits)
qed

text \<open>An agent that is waiting for the CPU.\<close>

definition agent_waiting_sample :: kernel where
  "agent_waiting_sample = kernel_boot\<lparr>k_nextpid := 2,
     k_procs := [(proc_boot 0)\<lparr>p_state := RUNNABLE, p_pid := 1, p_is_agent := True, p_jail_root := Some 0\<rparr>]\<rparr>"

theorem agents_stay_confined_witness:
  "conf_ok agent_waiting_sample \<and> k_cur (scheduler agent_waiting_sample) = Some 0 \<and>
     p_is_agent (k_procs (scheduler agent_waiting_sample) ! 0) \<and>
     p_jail_root (k_procs (scheduler agent_waiting_sample) ! 0) = Some 0"
proof -
  let ?k = agent_waiting_sample
  have ok: "conf_ok ?k"
    by (simp add: agent_waiting_sample_def kernel_boot_def conf_ok_def cur_ok_def table_ok_def conf_part_def entry_ok_def
        proc_conf_def live_state_def)
  have run: "k_cur (scheduler ?k) = Some 0" "k_nextpid (scheduler ?k) = 2" "p_pid (k_procs (scheduler ?k) ! 0) = 1"
    "p_jail_root (k_procs (scheduler ?k) ! 0) = Some 0"
    by (simp_all add: scheduler_def agent_waiting_sample_def cfs_better_def cfs_advance_min_def upd_proc_def)
  have "history undefined ?k (scheduler ?k)"
    by (rule h_step [OF h_refl k_schedule]) (use run in \<open>simp_all add: agent_waiting_sample_def kernel_boot_def\<close>)
  from agents_stay_confined [OF ok this, of 0] run ok show ?thesis
    by (simp add: agent_waiting_sample_def)
qed

end
