(* ===== verification/Locks.thy ===== *)
theory Locks
  imports Prelude
begin

text \<open>
  Spinlocks, \<open>kernel/spinlock.c\<close>, on several CPUs.  A CPU has its nesting depth \<open>noff\<close>, the
  interrupt state \<open>intena\<close> it had before the first \<open>push_off\<close>, and its interrupt-enable bit.  \<open>acquire\<close> and
  \<open>release\<close> are split at every shared access, and the CPUs interleave in the step relation
  \<open>lstep\<close>; the atomic swap of \<open>acquire\<close> is one step.  Sleep locks, \<open>kernel/sleeplock.c\<close>, run under
  their spinlock, so each of their operations is one step.
\<close>

section \<open>Operations\<close>

record cpu =
  c_noff :: int
  c_intena :: bool
  c_intr :: bool          \<comment> \<open>\<open>SSTATUS_SIE\<close>\<close>

record spinlock =
  lk_locked :: bool
  lk_cpu :: "nat option"

definition initlock :: spinlock where
  "initlock = \<lparr>lk_locked = False, lk_cpu = None\<rparr>"

definition holding :: "nat \<Rightarrow> spinlock \<Rightarrow> bool" where
  "holding c lk \<longleftrightarrow> lk_locked lk \<and> lk_cpu lk = Some c"

definition push_off :: "cpu \<Rightarrow> cpu" where
  "push_off c =
     (let old = c_intr c;
          c = c\<lparr>c_intr := False\<rparr>;
          c = (if c_noff c = 0 then c\<lparr>c_intena := old\<rparr> else c)
      in c\<lparr>c_noff := c_noff c + 1\<rparr>)"

definition pop_off :: "cpu \<Rightarrow> cpu option" where
  "pop_off c =
     (if c_intr c then panic ''pop_off - interruptible''
      else if c_noff c < 1 then panic ''pop_off''
      else
        let c = c\<lparr>c_noff := c_noff c - 1\<rparr>
        in Some (if c_noff c = 0 \<and> c_intena c then c\<lparr>c_intr := True\<rparr> else c))"

text \<open>The entry of \<open>acquire\<close>, one turn of its loop (\<open>None\<close>: the lock was taken), and its end.\<close>

definition acquire_enter :: "nat \<Rightarrow> spinlock \<Rightarrow> cpu \<Rightarrow> cpu option" where
  "acquire_enter i lk c = (let c = push_off c in if holding i lk then panic ''acquire'' else Some c)"

definition test_and_set :: "spinlock \<Rightarrow> bool \<times> spinlock" where
  "test_and_set lk = (lk_locked lk, lk\<lparr>lk_locked := True\<rparr>)"

definition acquire_record :: "nat \<Rightarrow> spinlock \<Rightarrow> spinlock" where
  "acquire_record i lk = lk\<lparr>lk_cpu := Some i\<rparr>"

definition release_enter :: "nat \<Rightarrow> spinlock \<Rightarrow> spinlock option" where
  "release_enter i lk = (if \<not> holding i lk then panic ''release'' else Some (lk\<lparr>lk_cpu := None\<rparr>))"

definition lock_release :: "spinlock \<Rightarrow> spinlock" where
  "lock_release lk = lk\<lparr>lk_locked := False\<rparr>"

section \<open>Interleaving\<close>

text \<open>Where a CPU stands inside \<open>acquire\<close> or \<open>release\<close>, and the locks whose critical sections it is in.\<close>

datatype lphase = L_idle | L_spin nat | L_won nat | L_unset nat | L_free nat

record lsys =
  ls_cpu :: "nat \<Rightarrow> cpu"
  ls_lock :: "nat \<Rightarrow> spinlock"
  ls_phase :: "nat \<Rightarrow> lphase"
  ls_held :: "nat \<Rightarrow> nat list"

inductive lstep :: "lsys \<Rightarrow> lsys \<Rightarrow> bool" where
  l_enter: "ls_phase s i = L_idle \<Longrightarrow> acquire_enter i (ls_lock s l) (ls_cpu s i) = Some c \<Longrightarrow>
     lstep s (s\<lparr>ls_cpu := (ls_cpu s)(i := c), ls_phase := (ls_phase s)(i := L_spin l)\<rparr>)"
| l_busy: "ls_phase s i = L_spin l \<Longrightarrow> test_and_set (ls_lock s l) = (True, lk) \<Longrightarrow>
     lstep s (s\<lparr>ls_lock := (ls_lock s)(l := lk)\<rparr>)"
| l_win: "ls_phase s i = L_spin l \<Longrightarrow> test_and_set (ls_lock s l) = (False, lk) \<Longrightarrow>
     lstep s (s\<lparr>ls_lock := (ls_lock s)(l := lk), ls_phase := (ls_phase s)(i := L_won l)\<rparr>)"
| l_record: "ls_phase s i = L_won l \<Longrightarrow>
     lstep s (s\<lparr>ls_lock := (ls_lock s)(l := acquire_record i (ls_lock s l)), ls_phase := (ls_phase s)(i := L_idle),
       ls_held := (ls_held s)(i := l # ls_held s i)\<rparr>)"
| l_leave: "ls_phase s i = L_idle \<Longrightarrow> l \<in> set (ls_held s i) \<Longrightarrow> release_enter i (ls_lock s l) = Some lk \<Longrightarrow>
     lstep s (s\<lparr>ls_lock := (ls_lock s)(l := lk), ls_phase := (ls_phase s)(i := L_unset l),
       ls_held := (ls_held s)(i := remove1 l (ls_held s i))\<rparr>)"
| l_free: "ls_phase s i = L_unset l \<Longrightarrow>
     lstep s (s\<lparr>ls_lock := (ls_lock s)(l := lock_release (ls_lock s l)), ls_phase := (ls_phase s)(i := L_free l)\<rparr>)"
| l_pop: "ls_phase s i = L_free l \<Longrightarrow> pop_off (ls_cpu s i) = Some c \<Longrightarrow>
     lstep s (s\<lparr>ls_cpu := (ls_cpu s)(i := c), ls_phase := (ls_phase s)(i := L_idle)\<rparr>)"

text \<open>Start: every lock as \<open>initlock\<close> leaves it, no CPU inside the lock code; \<open>e i\<close> is CPU \<open>i\<close>'s interrupt bit.\<close>

definition linit :: "(nat \<Rightarrow> bool) \<Rightarrow> lsys" where
  "linit e = \<lparr>ls_cpu = (\<lambda>i. \<lparr>c_noff = 0, c_intena = False, c_intr = e i\<rparr>), ls_lock = (\<lambda>_. initlock),
     ls_phase = (\<lambda>_. L_idle), ls_held = (\<lambda>_. [])\<rparr>"

inductive lreach :: "(nat \<Rightarrow> bool) \<Rightarrow> lsys \<Rightarrow> bool" for e where
  lreach_init: "lreach e (linit e)"
| lreach_step: "lreach e s \<Longrightarrow> lstep s s' \<Longrightarrow> lreach e s'"

section \<open>The invariant\<close>

definition owns :: "lsys \<Rightarrow> nat \<Rightarrow> nat \<Rightarrow> bool" where
  "owns s i l \<longleftrightarrow> l \<in> set (ls_held s i) \<or> ls_phase s i = L_won l \<or> ls_phase s i = L_unset l"

definition depth :: "lsys \<Rightarrow> nat \<Rightarrow> int" where
  "depth s i = int (length (ls_held s i)) + (if ls_phase s i = L_idle then 0 else 1)"

definition cpu_inv :: "bool \<Rightarrow> int \<Rightarrow> cpu \<Rightarrow> bool" where
  "cpu_inv e d c \<longleftrightarrow> c_noff c = d \<and> (if d = 0 then c_intr c = e else \<not> c_intr c \<and> c_intena c = e)"

definition linv :: "(nat \<Rightarrow> bool) \<Rightarrow> lsys \<Rightarrow> bool" where
  "linv e s \<longleftrightarrow>
     (\<forall>i. cpu_inv (e i) (depth s i) (ls_cpu s i) \<and> distinct (ls_held s i)) \<and>
     (\<forall>i l. ls_phase s i = L_won l \<or> ls_phase s i = L_unset l \<or> ls_phase s i = L_spin l \<longrightarrow> l \<notin> set (ls_held s i)) \<and>
     (\<forall>l. lk_locked (ls_lock s l) \<longleftrightarrow> (\<exists>i. owns s i l)) \<and>
     (\<forall>i j l. owns s i l \<longrightarrow> owns s j l \<longrightarrow> i = j) \<and>
     (\<forall>i l. lk_cpu (ls_lock s l) = Some i \<longleftrightarrow> l \<in> set (ls_held s i))"

lemma linv_init: "linv e (linit e)"
  by (simp add: linv_def linit_def cpu_inv_def depth_def owns_def initlock_def)

lemma push_off_inv: "cpu_inv e d c \<Longrightarrow> 0 \<le> d \<Longrightarrow> cpu_inv e (d + 1) (push_off c)"
  by (auto simp: cpu_inv_def push_off_def Let_def)

lemma pop_off_inv: "cpu_inv e d c \<Longrightarrow> pop_off c = Some c' \<Longrightarrow> cpu_inv e (d - 1) c'"
  by (auto simp: cpu_inv_def pop_off_def panic_simps Let_def split: if_splits)

lemma pop_off_ok: "cpu_inv e d c \<Longrightarrow> 0 < d \<Longrightarrow> \<exists>c'. pop_off c = Some c'"
  by (auto simp: cpu_inv_def pop_off_def Let_def)

lemma depth_nonneg: "0 \<le> depth s i"
  by (simp add: depth_def)

lemma linv_holding:
  assumes "linv e s"
  shows "holding i (ls_lock s l) \<longleftrightarrow> l \<in> set (ls_held s i)"
  using assms unfolding linv_def holding_def owns_def by blast

lemma linvD:
  assumes "linv e s"
  shows "cpu_inv (e i) (depth s i) (ls_cpu s i)" "distinct (ls_held s i)"
    "ls_phase s i = L_won l \<or> ls_phase s i = L_unset l \<or> ls_phase s i = L_spin l \<Longrightarrow> l \<notin> set (ls_held s i)"
    "lk_locked (ls_lock s l) \<longleftrightarrow> (\<exists>i. owns s i l)"
    "owns s i l \<Longrightarrow> owns s j l \<Longrightarrow> i = j"
    "lk_cpu (ls_lock s l) = Some i \<longleftrightarrow> l \<in> set (ls_held s i)"
  using assms unfolding linv_def by blast+

lemma linvI:
  assumes "\<And>i. cpu_inv (e i) (depth s i) (ls_cpu s i)" "\<And>i. distinct (ls_held s i)"
    "\<And>i l. ls_phase s i = L_won l \<or> ls_phase s i = L_unset l \<or> ls_phase s i = L_spin l \<Longrightarrow> l \<notin> set (ls_held s i)"
    "\<And>l. lk_locked (ls_lock s l) \<longleftrightarrow> (\<exists>i. owns s i l)"
    "\<And>i j l. owns s i l \<Longrightarrow> owns s j l \<Longrightarrow> i = j"
    "\<And>i l. lk_cpu (ls_lock s l) = Some i \<longleftrightarrow> l \<in> set (ls_held s i)"
  shows "linv e s"
  using assms unfolding linv_def by blast

lemma linv_step: "lstep s s' \<Longrightarrow> linv e s \<Longrightarrow> linv e s'"
proof (induction rule: lstep.induct)
  case (l_enter s i l c)
  note I = linvD [OF l_enter.prems]
  have c: "c = push_off (ls_cpu s i)" and nh: "l \<notin> set (ls_held s i)"
    using l_enter linv_holding [OF l_enter.prems] by (auto simp: acquire_enter_def panic_simps Let_def split: if_splits)
  let ?s = "s\<lparr>ls_cpu := (ls_cpu s)(i := c), ls_phase := (ls_phase s)(i := L_spin l)\<rparr>"
  have ow: "owns ?s = owns s" using l_enter by (intro ext) (auto simp: owns_def)
  have dp: "depth ?s j = (if j = i then depth s j + 1 else depth s j)" for j using l_enter by (simp add: depth_def)
  show ?case
    by (rule linvI; (unfold ow dp)?)
      (use I push_off_inv [OF I(1) depth_nonneg] nh in \<open>auto simp: c split: if_splits\<close>)
next
  case (l_busy s i l lk)
  have "(ls_lock s)(l := lk) = ls_lock s" using l_busy by (auto simp: test_and_set_def)
  then show ?case using l_busy by simp
next
  case (l_win s i l lk)
  note I = linvD [OF l_win.prems]
  have lk: "lk = (ls_lock s l)\<lparr>lk_locked := True\<rparr>" and fr: "\<not> lk_locked (ls_lock s l)" using l_win by (auto simp: test_and_set_def)
  let ?s = "s\<lparr>ls_lock := (ls_lock s)(l := lk), ls_phase := (ls_phase s)(i := L_won l)\<rparr>"
  have ow: "owns ?s j m \<longleftrightarrow> owns s j m \<or> (j = i \<and> m = l)" for j m using l_win by (auto simp: owns_def)
  have dp: "depth ?s = depth s" using l_win by (intro ext) (simp add: depth_def)
  show ?case
    by (rule linvI; (unfold ow dp)?)
      (use I fr l_win in \<open>auto simp: lk split: if_splits\<close>)
next
  case (l_record s i l)
  note I = linvD [OF l_record.prems]
  let ?s = "s\<lparr>ls_lock := (ls_lock s)(l := acquire_record i (ls_lock s l)), ls_phase := (ls_phase s)(i := L_idle),
       ls_held := (ls_held s)(i := l # ls_held s i)\<rparr>"
  have nh: "l \<notin> set (ls_held s i)" and o: "owns s i l" using I(3) l_record by (auto simp: owns_def)
  have ow: "owns ?s = owns s" using l_record by (intro ext) (auto simp: owns_def)
  have dp: "depth ?s = depth s" using l_record by (intro ext) (auto simp: depth_def)
  have only: "l \<notin> set (ls_held s j)" for j using I(5) [OF o, of j] nh by (cases "j = i") (auto simp: owns_def)
  show ?case
    by (rule linvI; (unfold ow dp)?)
      (use I nh only in \<open>auto simp: acquire_record_def split: if_splits\<close>)
next
  case (l_leave s i l lk)
  note I = linvD [OF l_leave.prems]
  have lk: "lk = (ls_lock s l)\<lparr>lk_cpu := None\<rparr>" using l_leave by (auto simp: release_enter_def panic_simps split: if_splits)
  let ?s = "s\<lparr>ls_lock := (ls_lock s)(l := lk), ls_phase := (ls_phase s)(i := L_unset l),
       ls_held := (ls_held s)(i := remove1 l (ls_held s i))\<rparr>"
  have rm: "set (remove1 l (ls_held s i)) = set (ls_held s i) - {l}" using I(2) by simp
  have o: "owns s i l" using l_leave by (simp add: owns_def)
  have ow: "owns ?s = owns s" using l_leave rm by (intro ext) (auto simp: owns_def)
  have dp: "depth ?s = depth s"
  proof
    fix j
    have "Suc (length (remove1 l (ls_held s i))) = length (ls_held s i)"
      using length_pos_if_in_set [OF l_leave(2)] by (simp add: length_remove1 l_leave(2))
    then show "depth ?s j = depth s j" using l_leave(1) by (auto simp: depth_def)
  qed
  have only: "l \<notin> set (ls_held s j)" if "j \<noteq> i" for j using I(5) [OF o, of j] that by (auto simp: owns_def)
  show ?case
    by (rule linvI; (unfold ow dp)?)
      (use I rm only l_leave in \<open>auto simp: lk split: if_splits\<close>)
next
  case (l_free s i l)
  note I = linvD [OF l_free.prems]
  let ?s = "s\<lparr>ls_lock := (ls_lock s)(l := lock_release (ls_lock s l)), ls_phase := (ls_phase s)(i := L_free l)\<rparr>"
  have o: "owns s i l" and nh: "l \<notin> set (ls_held s i)" using l_free I(3) by (auto simp: owns_def)
  have ow: "owns ?s j m \<longleftrightarrow> owns s j m \<and> \<not> (j = i \<and> m = l)" for j m using l_free nh by (auto simp: owns_def)
  have dp: "depth ?s = depth s" using l_free by (intro ext) (simp add: depth_def)
  have only: "owns s j l \<Longrightarrow> j = i" for j using I(5) [OF _ o] .
  show ?case
    by (rule linvI; (unfold ow dp)?)
      (use I only in \<open>auto simp: lock_release_def split: if_splits\<close>)
next
  case (l_pop s i l c)
  note I = linvD [OF l_pop.prems]
  let ?s = "s\<lparr>ls_cpu := (ls_cpu s)(i := c), ls_phase := (ls_phase s)(i := L_idle)\<rparr>"
  have ow: "owns ?s = owns s" using l_pop by (intro ext) (auto simp: owns_def)
  have dp: "depth ?s j = (if j = i then depth s j - 1 else depth s j)" for j using l_pop by (simp add: depth_def)
  show ?case
    by (rule linvI; (unfold ow dp)?)
      (use I pop_off_inv [OF I(1) l_pop(2)] in \<open>auto split: if_splits\<close>)
qed

lemma lreach_inv: "lreach e s \<Longrightarrow> linv e s"
  by (induction rule: lreach.induct) (auto intro: linv_init linv_step)

section \<open>Sleep locks\<close>

text \<open>
  \<open>acquiresleep\<close> by the process with the given pid: one turn of its loop, \<open>None\<close> when the lock is
  taken and the process sleeps.
\<close>

record sleeplock =
  sl_locked :: bool
  sl_pid :: int

definition initsleeplock :: sleeplock where
  "initsleeplock = \<lparr>sl_locked = False, sl_pid = 0\<rparr>"

definition acquiresleep :: "int \<Rightarrow> sleeplock \<Rightarrow> sleeplock option" where
  "acquiresleep pid lk = (if sl_locked lk then None else Some (lk\<lparr>sl_locked := True, sl_pid := pid\<rparr>))"

definition releasesleep :: "sleeplock \<Rightarrow> sleeplock" where
  "releasesleep lk = lk\<lparr>sl_locked := False, sl_pid := 0\<rparr>"

definition holdingsleep :: "int \<Rightarrow> sleeplock \<Rightarrow> bool" where
  "holdingsleep pid lk \<longleftrightarrow> sl_locked lk \<and> sl_pid lk = pid"

lemma sleeplock_simps [simp]:
  "acquiresleep pid lk = Some lk' \<Longrightarrow> holdingsleep pid lk'"
  "acquiresleep pid (releasesleep lk) = Some (lk\<lparr>sl_locked := True, sl_pid := pid\<rparr>)"
  "\<not> holdingsleep pid (releasesleep lk)"
  by (auto simp: acquiresleep_def releasesleep_def holdingsleep_def split: if_splits)

section \<open>Properties\<close>

text \<open>
  C33: spinlocks exclude each other.  In every interleaving of any number of CPUs acquiring and
  releasing any number of locks: at most one CPU is in the critical section of a lock; \<open>holding\<close> is
  true exactly for that CPU; its interrupts are off from before the acquisition until after the
  release; releasing a held lock and the \<open>pop_off\<close> that follows never panic; and a CPU that
  has released all its locks has its interrupts back as they were.
\<close>

theorem spinlock_mutual_exclusion:
  assumes "lreach e s"
  shows "(l \<in> set (ls_held s i) \<longrightarrow> l \<in> set (ls_held s j) \<longrightarrow> i = j) \<and>
    (holding i (ls_lock s l) \<longleftrightarrow> l \<in> set (ls_held s i)) \<and>
    (ls_held s i \<noteq> [] \<or> ls_phase s i \<noteq> L_idle \<longrightarrow> \<not> c_intr (ls_cpu s i)) \<and>
    (l \<in> set (ls_held s i) \<longrightarrow> (\<exists>lk. release_enter i (ls_lock s l) = Some lk)) \<and>
    (ls_phase s i = L_free l \<longrightarrow> (\<exists>c. pop_off (ls_cpu s i) = Some c)) \<and>
    (ls_held s i = [] \<longrightarrow> ls_phase s i = L_idle \<longrightarrow> c_intr (ls_cpu s i) = e i)"
proof -
  note inv = lreach_inv [OF assms]
  note I = linvD [OF inv] and h = linv_holding [OF inv]
  have "depth s i \<noteq> 0" if "ls_held s i \<noteq> [] \<or> ls_phase s i \<noteq> L_idle"
    using that by (auto simp: depth_def)
  then have off: "\<not> c_intr (ls_cpu s i)" if "ls_held s i \<noteq> [] \<or> ls_phase s i \<noteq> L_idle"
    using that I(1) [of i] by (auto simp: cpu_inv_def split: if_splits)
  have "i = j" if "l \<in> set (ls_held s i)" "l \<in> set (ls_held s j)"
    using I(5) [of i l j] that by (simp add: owns_def)
  moreover have "\<exists>lk. release_enter i (ls_lock s l) = Some lk" if "l \<in> set (ls_held s i)"
    using that h by (simp add: release_enter_def)
  moreover have "\<exists>c. pop_off (ls_cpu s i) = Some c" if "ls_phase s i = L_free l"
    by (rule pop_off_ok [OF I(1)]) (simp add: depth_def that)
  moreover have "c_intr (ls_cpu s i) = e i" if "ls_held s i = []" "ls_phase s i = L_idle"
    using I(1) [of i] that by (simp add: cpu_inv_def depth_def)
  ultimately show ?thesis using off h by blast
qed

theorem spinlock_mutual_exclusion_witness:
  "\<exists>s. lreach (\<lambda>_. True) s \<and> ls_held s 0 = [7] \<and> ls_phase s 1 = L_spin 7 \<and>
     holding 0 (ls_lock s 7) \<and> \<not> holding 1 (ls_lock s 7) \<and> \<not> c_intr (ls_cpu s 0) \<and> \<not> c_intr (ls_cpu s 1)"
proof -
  let ?e = "\<lambda>_ :: nat. True"
  define s0 where "s0 = linit ?e"
  define c where "c = push_off \<lparr>c_noff = 0, c_intena = False, c_intr = True\<rparr>"
  define s1 where "s1 = s0\<lparr>ls_cpu := (ls_cpu s0)(0 := c), ls_phase := (ls_phase s0)(0 := L_spin 7)\<rparr>"
  define s2 where "s2 = s1\<lparr>ls_lock := (ls_lock s1)(7 := \<lparr>lk_locked = True, lk_cpu = None\<rparr>), ls_phase := (ls_phase s1)(0 := L_won 7)\<rparr>"
  define s3 where "s3 = s2\<lparr>ls_lock := (ls_lock s2)(7 := acquire_record 0 (ls_lock s2 7)), ls_phase := (ls_phase s2)(0 := L_idle),
       ls_held := (ls_held s2)(0 := 7 # ls_held s2 0)\<rparr>"
  define s4 where "s4 = s3\<lparr>ls_cpu := (ls_cpu s3)(1 := c), ls_phase := (ls_phase s3)(1 := L_spin 7)\<rparr>"
  note d = s0_def linit_def initlock_def acquire_enter_def holding_def test_and_set_def c_def acquire_record_def
  have "lstep s0 s1" unfolding s1_def by (rule l_enter) (simp_all add: d)
  moreover have "lstep s1 s2" unfolding s2_def by (rule l_win) (simp_all add: s1_def d)
  moreover have "lstep s2 s3" unfolding s3_def by (rule l_record) (simp add: s2_def)
  moreover have "lstep s3 s4" unfolding s4_def by (rule l_enter) (simp_all add: s3_def s2_def s1_def d)
  ultimately have r: "lreach ?e s4" using lreach_init [of ?e] unfolding s0_def by (blast intro: lreach_step)
  have h: "ls_held s4 0 = [7]" "ls_phase s4 1 = L_spin 7" "ls_held s4 1 = []"
    by (simp_all add: s4_def s3_def s2_def s1_def d)
  then show ?thesis
    using r spinlock_mutual_exclusion [OF r, of 7 0 1] spinlock_mutual_exclusion [OF r, of 7 1 0] by auto
qed

end
