(* ===== verification/Bio.thy ===== *)
theory Bio
  imports Kernel Locks
begin

text \<open>
  The buffer cache, \<open>kernel/bio.c\<close>: \<open>NBUF\<close> buffers in a list kept in order of use, with reference
  counts and a sleep lock each.  The disk is a map from block numbers to contents; a call of the
  disk driver is one synchronous read or write of a block, and \<open>bc_writes\<close> records the writes in
  order.  The operations are those of the process with the given pid.

  \<open>binv\<close> is the invariant, with the set of buffers the process holds and the set of blocks
  pinned in the cache; \<open>view\<close> is the contents of a block as \<open>bread\<close> delivers it.  The rest of the
  kernel's model (\<open>k_blocks\<close>) works on that view.
\<close>

section \<open>Operations\<close>

definition NBUF :: nat where "NBUF = MAXOPBLOCKS * 3"

record buf =
  b_valid :: bool
  b_dev :: u32
  b_blockno :: u32
  b_lock :: sleeplock
  b_refcnt :: u32
  b_data :: string

record bcache =
  bc_buf :: "buf list"
  bc_lru :: "nat list"        \<comment> \<open>from \<open>head.next\<close> to \<open>head.prev\<close>\<close>
  bc_disk :: "u32 \<Rightarrow> string"
  bc_writes :: "(u32 \<times> string) list"

definition upd_buf :: "nat \<Rightarrow> (buf \<Rightarrow> buf) \<Rightarrow> bcache \<Rightarrow> bcache" where
  "upd_buf i f s = s\<lparr>bc_buf := (bc_buf s)[i := f (bc_buf s ! i)]\<rparr>"

text \<open>Static storage is zero; \<open>binit\<close> inserts every buffer at the head of the list.\<close>

definition buf_boot :: buf where
  "buf_boot = \<lparr>b_valid = False, b_dev = 0, b_blockno = 0, b_lock = initsleeplock, b_refcnt = 0, b_data = replicate BSIZE NUL\<rparr>"

definition binit :: "(u32 \<Rightarrow> string) \<Rightarrow> bcache" where
  "binit disk = \<lparr>bc_buf = replicate NBUF buf_boot, bc_lru = fold (\<lambda>b l. b # l) [0..<NBUF] [], bc_disk = disk, bc_writes = []\<rparr>"

definition b_is :: "u32 \<Rightarrow> u32 \<Rightarrow> buf \<Rightarrow> bool" where
  "b_is dev blockno b \<longleftrightarrow> b_dev b = dev \<and> b_blockno b = blockno"

definition bget :: "int \<Rightarrow> u32 \<Rightarrow> u32 \<Rightarrow> bcache \<Rightarrow> (nat \<times> bcache) option" where
  "bget pid dev blockno s =
     (case find (\<lambda>i. b_is dev blockno (bc_buf s ! i)) (bc_lru s) of
        Some i \<Rightarrow> do {
          lk \<leftarrow> acquiresleep pid (b_lock (bc_buf s ! i));
          Some (i, upd_buf i (\<lambda>b. b\<lparr>b_refcnt := b_refcnt b + 1, b_lock := lk\<rparr>) s) }
      | None \<Rightarrow>
          (case find (\<lambda>i. b_refcnt (bc_buf s ! i) = 0) (rev (bc_lru s)) of
             Some i \<Rightarrow> do {
               lk \<leftarrow> acquiresleep pid (b_lock (bc_buf s ! i));
               Some (i, upd_buf i (\<lambda>b. b\<lparr>b_dev := dev, b_blockno := blockno, b_valid := False, b_refcnt := 1, b_lock := lk\<rparr>) s) }
           | None \<Rightarrow> panic ''bget: no buffers''))"

text \<open>\<open>virtio_disk_rw\<close>, reading and writing.\<close>

definition disk_read :: "nat \<Rightarrow> bcache \<Rightarrow> bcache" where
  "disk_read i s = upd_buf i (\<lambda>b. b\<lparr>b_data := bc_disk s (b_blockno b)\<rparr>) s"

definition disk_write :: "nat \<Rightarrow> bcache \<Rightarrow> bcache" where
  "disk_write i s =
     (let b = bc_buf s ! i
      in s\<lparr>bc_disk := (bc_disk s)(b_blockno b := b_data b), bc_writes := bc_writes s @ [(b_blockno b, b_data b)]\<rparr>)"

definition bread :: "int \<Rightarrow> u32 \<Rightarrow> u32 \<Rightarrow> bcache \<Rightarrow> (nat \<times> bcache) option" where
  "bread pid dev blockno s =
     do {
       (i, s) \<leftarrow> bget pid dev blockno s;
       Some (i, if \<not> b_valid (bc_buf s ! i) then upd_buf i (\<lambda>b. b\<lparr>b_valid := True\<rparr>) (disk_read i s) else s) }"

definition bwrite :: "int \<Rightarrow> nat \<Rightarrow> bcache \<Rightarrow> bcache option" where
  "bwrite pid i s =
     (if \<not> holdingsleep pid (b_lock (bc_buf s ! i)) then panic ''bwrite'' else Some (disk_write i s))"

definition brelse :: "int \<Rightarrow> nat \<Rightarrow> bcache \<Rightarrow> bcache option" where
  "brelse pid i s =
     (if \<not> holdingsleep pid (b_lock (bc_buf s ! i)) then panic ''brelse''
      else
        let s = upd_buf i (\<lambda>b. b\<lparr>b_lock := releasesleep (b_lock b), b_refcnt := b_refcnt b - 1\<rparr>) s
        in Some (if b_refcnt (bc_buf s ! i) = 0 then s\<lparr>bc_lru := i # remove1 i (bc_lru s)\<rparr> else s))"

definition bpin :: "nat \<Rightarrow> bcache \<Rightarrow> bcache" where
  "bpin i s = upd_buf i (\<lambda>b. b\<lparr>b_refcnt := b_refcnt b + 1\<rparr>) s"

definition bunpin :: "nat \<Rightarrow> bcache \<Rightarrow> bcache" where
  "bunpin i s = upd_buf i (\<lambda>b. b\<lparr>b_refcnt := b_refcnt b - 1\<rparr>) s"

definition set_data :: "nat \<Rightarrow> string \<Rightarrow> bcache \<Rightarrow> bcache" where
  "set_data i bs s = upd_buf i (\<lambda>b. b\<lparr>b_data := bs\<rparr>) s"

section \<open>Invariant\<close>

abbreviation bf :: "bcache \<Rightarrow> nat \<Rightarrow> buf" where
  "bf s i \<equiv> bc_buf s ! i"

text \<open>Buffer \<open>i\<close> holds block \<open>b\<close> of the root device.\<close>

definition caches :: "bcache \<Rightarrow> nat \<Rightarrow> u32 \<Rightarrow> bool" where
  "caches s i b \<longleftrightarrow> i < NBUF \<and> b_is ROOTDEV b (bf s i)"

definition view :: "bcache \<Rightarrow> u32 \<Rightarrow> string" where
  "view s b = (case find (\<lambda>i. caches s i b \<and> b_valid (bf s i)) [0..<NBUF] of None \<Rightarrow> bc_disk s b | Some i \<Rightarrow> b_data (bf s i))"

definition binv :: "int \<Rightarrow> nat set \<Rightarrow> u32 set \<Rightarrow> bcache \<Rightarrow> bool" where
  "binv pid H P s \<longleftrightarrow>
     length (bc_buf s) = NBUF \<and> distinct (bc_lru s) \<and> set (bc_lru s) = {..<NBUF} \<and> H \<subseteq> {..<NBUF} \<and>
     (\<forall>i < NBUF. sl_locked (b_lock (bf s i)) \<longleftrightarrow> i \<in> H) \<and>
     (\<forall>i \<in> H. sl_pid (b_lock (bf s i)) = pid \<and> b_dev (bf s i) = ROOTDEV \<and> b_valid (bf s i)) \<and>
     (\<forall>i j b. caches s i b \<longrightarrow> caches s j b \<longrightarrow> i = j) \<and>
     (\<forall>i < NBUF. unat (b_refcnt (bf s i)) =
        (if i \<in> H then 1 else 0) + (if b_dev (bf s i) = ROOTDEV \<and> b_blockno (bf s i) \<in> P then 1 else 0)) \<and>
     (\<forall>i b. caches s i b \<longrightarrow> b_valid (bf s i) \<longrightarrow> b_refcnt (bf s i) = 0 \<longrightarrow> b_data (bf s i) = bc_disk s b) \<and>
     (\<forall>b \<in> P. \<exists>i. caches s i b \<and> b_valid (bf s i))"

lemma binvD:
  assumes "binv pid H P s"
  shows "length (bc_buf s) = NBUF" "distinct (bc_lru s)" "set (bc_lru s) = {..<NBUF}" "H \<subseteq> {..<NBUF}"
    "i < NBUF \<Longrightarrow> sl_locked (b_lock (bf s i)) \<longleftrightarrow> i \<in> H"
    "i \<in> H \<Longrightarrow> sl_pid (b_lock (bf s i)) = pid" "i \<in> H \<Longrightarrow> b_dev (bf s i) = ROOTDEV" "i \<in> H \<Longrightarrow> b_valid (bf s i)"
    "caches s i b \<Longrightarrow> caches s j b \<Longrightarrow> i = j"
    "i < NBUF \<Longrightarrow> unat (b_refcnt (bf s i)) =
        (if i \<in> H then 1 else 0) + (if b_dev (bf s i) = ROOTDEV \<and> b_blockno (bf s i) \<in> P then 1 else 0)"
    "caches s i b \<Longrightarrow> b_valid (bf s i) \<Longrightarrow> b_refcnt (bf s i) = 0 \<Longrightarrow> b_data (bf s i) = bc_disk s b"
    "b \<in> P \<Longrightarrow> \<exists>i. caches s i b \<and> b_valid (bf s i)"
  using assms unfolding binv_def by blast+

lemma binvI:
  assumes "length (bc_buf s) = NBUF" "distinct (bc_lru s)" "set (bc_lru s) = {..<NBUF}" "H \<subseteq> {..<NBUF}"
    "\<And>i. i < NBUF \<Longrightarrow> sl_locked (b_lock (bf s i)) \<longleftrightarrow> i \<in> H"
    "\<And>i. i \<in> H \<Longrightarrow> sl_pid (b_lock (bf s i)) = pid \<and> b_dev (bf s i) = ROOTDEV \<and> b_valid (bf s i)"
    "\<And>i j b. caches s i b \<Longrightarrow> caches s j b \<Longrightarrow> i = j"
    "\<And>i. i < NBUF \<Longrightarrow> unat (b_refcnt (bf s i)) =
        (if i \<in> H then 1 else 0) + (if b_dev (bf s i) = ROOTDEV \<and> b_blockno (bf s i) \<in> P then 1 else 0)"
    "\<And>i b. caches s i b \<Longrightarrow> b_valid (bf s i) \<Longrightarrow> b_refcnt (bf s i) = 0 \<Longrightarrow> b_data (bf s i) = bc_disk s b"
    "\<And>b. b \<in> P \<Longrightarrow> \<exists>i. caches s i b \<and> b_valid (bf s i)"
  shows "binv pid H P s"
  using assms unfolding binv_def by blast

lemma length_upd_buf [simp]: "length (bc_buf (upd_buf i f s)) = length (bc_buf s)"
  by (simp add: upd_buf_def)

lemma upd_buf_frame [simp]:
  "bc_lru (upd_buf i f s) = bc_lru s" "bc_disk (upd_buf i f s) = bc_disk s" "bc_writes (upd_buf i f s) = bc_writes s"
  by (simp_all add: upd_buf_def)

lemma bf_upd [simp]: "i < length (bc_buf s) \<Longrightarrow> bf (upd_buf i f s) j = (if j = i then f (bf s i) else bf s j)"
  by (simp add: upd_buf_def)

lemma caches_other: "i < length (bc_buf s) \<Longrightarrow> j \<noteq> i \<Longrightarrow> caches (upd_buf i f s) j b \<longleftrightarrow> caches s j b"
  by (simp add: caches_def)

lemma view_hit:
  assumes "binv pid H P s" "caches s i b" "b_valid (bf s i)"
  shows "view s b = b_data (bf s i)"
proof -
  let ?Q = "\<lambda>i. caches s i b \<and> b_valid (bf s i)"
  have "i \<in> set [0..<NBUF]" using assms(2) by (simp add: caches_def)
  then obtain j where j: "find ?Q [0..<NBUF] = Some j" using assms(2,3) by (cases "find ?Q [0..<NBUF]") (auto simp: find_None_iff)
  then have "?Q j" by (auto simp: find_Some_iff)
  then have "j = i" using binvD(9) [OF assms(1)] assms(2) by blast
  then show ?thesis using j by (simp add: view_def)
qed

lemma view_miss: "\<forall>i. \<not> (caches s i b \<and> b_valid (bf s i)) \<Longrightarrow> view s b = bc_disk s b"
proof -
  assume "\<forall>i. \<not> (caches s i b \<and> b_valid (bf s i))"
  then have "find (\<lambda>i. caches s i b \<and> b_valid (bf s i)) [0..<NBUF] = None" by (simp add: find_None_iff)
  then show ?thesis by (simp add: view_def)
qed

lemma view_cases:
  assumes "binv pid H P s"
  obtains i where "caches s i b" "b_valid (bf s i)" "view s b = b_data (bf s i)"
  | "\<forall>i. \<not> (caches s i b \<and> b_valid (bf s i))" "view s b = bc_disk s b"
  using view_hit [OF assms] view_miss by metis

text \<open>Two states that agree on what is cached and on the disk have the same view.\<close>

lemma view_cong:
  assumes "binv pid H P s" "binv pid' H' P' s'"
    and "\<And>i. caches s i b \<and> b_valid (bf s i) \<longleftrightarrow> caches s' i b \<and> b_valid (bf s' i)"
    and "\<And>i. caches s i b \<Longrightarrow> b_valid (bf s i) \<Longrightarrow> b_data (bf s i) = b_data (bf s' i)"
    and "bc_disk s b = bc_disk s' b"
  shows "view s b = view s' b"
  using view_cases [OF assms(1), of b]
proof cases
  case (1 i)
  then show ?thesis using assms(3,4) view_hit [OF assms(2), of i b] by metis
next
  case 2
  then show ?thesis using assms(3,5) view_miss [of s' b] by metis
qed

section \<open>Contracts of the operations\<close>

definition held_buf :: "int \<Rightarrow> u32 \<Rightarrow> u32 \<Rightarrow> string \<Rightarrow> buf" where
  "held_buf pid b r d = \<lparr>b_valid = True, b_dev = ROOTDEV, b_blockno = b, b_lock = \<lparr>sl_locked = True, sl_pid = pid\<rparr>, b_refcnt = r, b_data = d\<rparr>"

lemma held_buf_sel [simp]:
  "b_valid (held_buf pid b r d)" "b_dev (held_buf pid b r d) = ROOTDEV" "b_blockno (held_buf pid b r d) = b"
  "sl_locked (b_lock (held_buf pid b r d))" "sl_pid (b_lock (held_buf pid b r d)) = pid"
  "b_refcnt (held_buf pid b r d) = r" "b_data (held_buf pid b r d) = d"
  "b_is ROOTDEV b' (held_buf pid b r d) \<longleftrightarrow> b' = b"
  by (auto simp: held_buf_def b_is_def)

text \<open>Taking buffer \<open>i\<close> for block \<open>b\<close>, which it caches already or for which a free buffer is recycled.\<close>

lemma take_buffer:
  assumes inv: "binv pid H P s" and i: "i < NBUF" "i \<notin> H"
    and which: "caches s i b \<or> (\<forall>j. \<not> caches s j b) \<and> b_refcnt (bf s i) = 0"
    and r: "unat r = 1 + (if b \<in> P then 1 else 0)"
    and s': "s' = upd_buf i (\<lambda>_. held_buf pid b r (view s b)) s"
  shows "binv pid (insert i H) P s'" "caches s' i b" "view s' = view s"
proof -
  note I = binvD [OF inv]
  have bf': "bf s' j = (if j = i then held_buf pid b r (view s b) else bf s j)" for j using i I(1) by (simp add: s')
  have dk: "bc_disk s' = bc_disk s" by (simp add: s')
  have ca: "caches s' j b' \<longleftrightarrow> (if j = i then b' = b else caches s j b')" for j b' using i by (auto simp: caches_def bf')
  have uniq: "caches s j b \<Longrightarrow> j = i" for j using which I(9) by blast
  have free: "b_blockno (bf s i) \<notin> P \<or> b_dev (bf s i) \<noteq> ROOTDEV" if "\<not> caches s i b"
    using that which I(10) [OF i(1)] i(2) by (auto split: if_splits)
  show inv': "binv pid (insert i H) P s'"
  proof (rule binvI)
    show "length (bc_buf s') = NBUF" "distinct (bc_lru s')" "set (bc_lru s') = {..<NBUF}" "insert i H \<subseteq> {..<NBUF}"
      using I(1-4) i by (simp_all add: s')
    show "sl_locked (b_lock (bf s' j)) \<longleftrightarrow> j \<in> insert i H" if "j < NBUF" for j using I(5) [OF that] by (simp add: bf')
    show "sl_pid (b_lock (bf s' j)) = pid \<and> b_dev (bf s' j) = ROOTDEV \<and> b_valid (bf s' j)" if "j \<in> insert i H" for j
      using that I(6-8) by (auto simp: bf')
    show "j = j'" if "caches s' j b'" "caches s' j' b'" for j j' b'
      using that uniq I(9) by (auto simp: ca split: if_splits)
    show "unat (b_refcnt (bf s' j)) = (if j \<in> insert i H then 1 else 0) +
        (if b_dev (bf s' j) = ROOTDEV \<and> b_blockno (bf s' j) \<in> P then 1 else 0)" if "j < NBUF" for j
      using r I(10) [OF that] by (simp add: bf')
    show "b_data (bf s' j) = bc_disk s' b'" if "caches s' j b'" "b_valid (bf s' j)" "b_refcnt (bf s' j) = 0" for j b'
      using that r I(11) by (auto simp: ca bf' dk split: if_splits)
    show "\<exists>j. caches s' j b' \<and> b_valid (bf s' j)" if b': "b' \<in> P" for b'
    proof (cases "b' = b")
      case True
      then show ?thesis by (intro exI [of _ i]) (simp add: ca bf')
    next
      case False
      obtain j where j: "caches s j b'" "b_valid (bf s j)" using I(12) [OF b'] by blast
      have "j \<noteq> i" using j(1) False free b' which by (auto simp: caches_def b_is_def)
      then show ?thesis using j by (intro exI [of _ j]) (simp add: ca bf')
    qed
  qed
  show "caches s' i b" by (simp add: ca)
  show "view s' = view s"
  proof
    fix b'
    show "view s' b' = view s b'"
    proof (cases "b' = b")
      case True
      then show ?thesis using view_hit [OF inv', of i b] by (simp add: ca bf')
    next
      case False
      show ?thesis
      proof (cases "caches s i b' \<and> b_valid (bf s i)")
        case True
        then have "\<not> caches s i b" using False by (auto simp: caches_def b_is_def)
        then have "b_refcnt (bf s i) = 0" using which by blast
        then have "view s b' = bc_disk s b'" using view_hit [OF inv] True I(11) by metis
        moreover have "\<forall>j. \<not> (caches s' j b' \<and> b_valid (bf s' j))"
          using True False I(9) by (auto simp: ca)
        ultimately show ?thesis using view_miss [of s' b'] by (simp add: dk)
      next
        case F2: False
        show ?thesis
          by (rule view_cong [OF inv' inv]) (use False F2 in \<open>auto simp: ca bf' dk split: if_splits\<close>)
      qed
    qed
  qed
qed

lemma free_buffer:
  assumes inv: "binv pid H P s" and P: "finite P" "card H + card P < NBUF"
  shows "\<exists>i < NBUF. b_refcnt (bf s i) = 0"
proof (rule ccontr)
  note I = binvD [OF inv]
  assume none: "\<not> ?thesis"
  define Q where "Q = {i. i < NBUF \<and> b_dev (bf s i) = ROOTDEV \<and> b_blockno (bf s i) \<in> P}"
  have "inj_on (\<lambda>i. b_blockno (bf s i)) Q"
    by (rule inj_onI) (auto simp: Q_def intro!: I(9) simp: caches_def b_is_def)
  then have "card Q \<le> card P" by (rule card_inj_on_le) (use P in \<open>auto simp: Q_def\<close>)
  moreover have "{..<NBUF} \<subseteq> H \<union> Q"
  proof
    fix i assume "i \<in> {..<NBUF}"
    then have "i < NBUF" "unat (b_refcnt (bf s i)) \<noteq> 0" using none by (auto simp: unat_eq_zero)
    then show "i \<in> H \<union> Q" using I(10) [of i] by (auto simp: Q_def split: if_splits)
  qed
  moreover have "finite H" "finite Q" using I(4) finite_subset by (auto simp: Q_def)
  ultimately have "NBUF \<le> card H + card P"
    using card_mono [of "H \<union> Q" "{..<NBUF}"] card_Un_le [of H Q] by auto
  then show False using P by simp
qed

lemma bread_spec:
  assumes inv: "binv pid H P s" and nh: "\<forall>j \<in> H. b_blockno (bf s j) \<noteq> b" and P: "finite P" "card H + card P < NBUF"
  obtains i s' where "bread pid ROOTDEV b s = Some (i, s')" "i < NBUF" "i \<notin> H" "binv pid (insert i H) P s'" "caches s' i b"
    "b_data (bf s' i) = view s b" "view s' = view s" "bc_disk s' = bc_disk s" "bc_writes s' = bc_writes s" "\<forall>j. j \<noteq> i \<longrightarrow> bf s' j = bf s j"
proof -
  note I = binvD [OF inv]
  have "\<exists>i r. i < NBUF \<and> i \<notin> H \<and> (caches s i b \<or> (\<forall>j. \<not> caches s j b) \<and> b_refcnt (bf s i) = 0) \<and>
     unat r = 1 + (if b \<in> P then 1 else 0) \<and> bread pid ROOTDEV b s = Some (i, upd_buf i (\<lambda>_. held_buf pid b r (view s b)) s)"
  proof (cases "find (\<lambda>i. b_is ROOTDEV b (bf s i)) (bc_lru s)")
    case (Some i)
    then have i: "i < NBUF" "b_is ROOTDEV b (bf s i)" using I(3) by (auto simp: find_Some_iff)
    then have c: "caches s i b" by (simp add: caches_def)
    have nH: "i \<notin> H" using nh i(2) by (auto simp: b_is_def)
    define r where "r = b_refcnt (bf s i) + 1"
    have r: "unat r = 1 + (if b \<in> P then 1 else 0)"
      using I(10) [OF i(1)] i(2) nH by (auto simp: r_def b_is_def unat_word_ariths)
    have v: "view s b = (if b_valid (bf s i) then b_data (bf s i) else bc_disk s b)"
    proof (cases "b_valid (bf s i)")
      case False
      then have "\<forall>j. \<not> (caches s j b \<and> b_valid (bf s j))" using I(9) [OF c] by blast
      then show ?thesis using False view_miss by simp
    qed (use view_hit [OF inv c] in simp)
    have "bread pid ROOTDEV b s = Some (i, upd_buf i (\<lambda>_. held_buf pid b r (view s b)) s)"
    proof (cases "b_valid (bf s i)")
      case True
      then have "(bf s i)\<lparr>b_refcnt := b_refcnt (bf s i) + 1, b_lock := (b_lock (bf s i))\<lparr>sl_locked := True, sl_pid := pid\<rparr>\<rparr> =
          held_buf pid b r (view s b)" using i(2) by (simp add: held_buf_def v r_def b_is_def)
      then show ?thesis
        using Some i nH I(1) I(5) [OF i(1)] True by (simp add: bread_def bget_def acquiresleep_def upd_buf_def)
    next
      case False
      then have "(bf s i)\<lparr>b_refcnt := b_refcnt (bf s i) + 1, b_lock := (b_lock (bf s i))\<lparr>sl_locked := True, sl_pid := pid\<rparr>,
          b_data := bc_disk s (b_blockno (bf s i)), b_valid := True\<rparr> = held_buf pid b r (view s b)"
        using i(2) by (simp add: held_buf_def v r_def b_is_def)
      then show ?thesis
        using Some i nH I(1) I(5) [OF i(1)] False by (simp add: bread_def bget_def acquiresleep_def disk_read_def upd_buf_def)
    qed
    then show ?thesis using i nH c r by blast
  next
    case None
    then have nc: "\<forall>j. \<not> caches s j b" using I(3) by (auto simp: find_None_iff caches_def)
    obtain i where fi: "find (\<lambda>i. b_refcnt (bf s i) = 0) (rev (bc_lru s)) = Some i"
      using free_buffer [OF inv P] I(3) by (cases "find (\<lambda>i. b_refcnt (bf s i) = 0) (rev (bc_lru s))") (auto simp: find_None_iff)
    have "i \<in> set (rev (bc_lru s)) \<and> b_refcnt (bf s i) = 0"
      using fi unfolding find_Some_iff by (metis nth_mem)
    then have i: "i < NBUF" "b_refcnt (bf s i) = 0" using I(3) by auto
    have nH: "i \<notin> H" using I(10) [OF i(1)] i(2) by auto
    have nP: "b \<notin> P" using I(12) nc by blast
    have v: "view s b = bc_disk s b" using nc view_miss by blast
    have "bread pid ROOTDEV b s = Some (i, upd_buf i (\<lambda>_. held_buf pid b 1 (view s b)) s)"
    proof -
      have "(bf s i)\<lparr>b_dev := ROOTDEV, b_blockno := b, b_refcnt := 1, b_lock := (b_lock (bf s i))\<lparr>sl_locked := True, sl_pid := pid\<rparr>,
          b_data := bc_disk s b, b_valid := True\<rparr> = held_buf pid b 1 (view s b)" by (simp add: held_buf_def v)
      then show ?thesis
        using None fi nH I(1) I(5) [OF i(1)] i by (simp add: bread_def bget_def acquiresleep_def disk_read_def upd_buf_def)
    qed
    then show ?thesis using i nH nc nP by (intro exI [of _ i] exI [of _ 1]) simp
  qed
  then obtain i r where i: "i < NBUF" "i \<notin> H" "caches s i b \<or> (\<forall>j. \<not> caches s j b) \<and> b_refcnt (bf s i) = 0"
    "unat r = 1 + (if b \<in> P then 1 else 0)" and br: "bread pid ROOTDEV b s = Some (i, upd_buf i (\<lambda>_. held_buf pid b r (view s b)) s)"
    by blast
  note t = take_buffer [OF inv i(1-4) refl]
  show thesis
    by (rule that [OF br i(1,2) t(1,2) _ t(3)]) (use I(1) i(1) in simp_all)
qed

lemma held_caches: "binv pid H P s \<Longrightarrow> i \<in> H \<Longrightarrow> caches s i (b_blockno (bf s i))"
  using binvD(4,7) [of pid H P s] by (auto simp: caches_def b_is_def)

lemma set_data_spec:
  assumes inv: "binv pid H P s" and i: "i \<in> H"
  shows "binv pid H P (set_data i d s)" "view (set_data i d s) = (view s)(b_blockno (bf s i) := d)"
    "bf (set_data i d s) j = (if j = i then (bf s i)\<lparr>b_data := d\<rparr> else bf s j)" "bc_disk (set_data i d s) = bc_disk s"
    "bc_writes (set_data i d s) = bc_writes s"
proof -
  note I = binvD [OF inv]
  let ?s = "set_data i d s"
  have il: "i < NBUF" using I(4) i by auto
  show bf': "bf ?s j = (if j = i then (bf s i)\<lparr>b_data := d\<rparr> else bf s j)" for j using il I(1) by (simp add: set_data_def)
  show dk: "bc_disk ?s = bc_disk s" and "bc_writes ?s = bc_writes s" by (simp_all add: set_data_def)
  have ca: "caches ?s j b \<longleftrightarrow> caches s j b" for j b by (auto simp: caches_def b_is_def bf')
  have ll: "length (bc_buf ?s) = length (bc_buf s)" "bc_lru ?s = bc_lru s" by (simp_all add: set_data_def)
  have busy: "b_refcnt (bf s i) \<noteq> 0" using I(10) [OF il] i by auto
  show inv': "binv pid H P ?s"
  proof (rule binvI)
    show "b_data (bf ?s j) = bc_disk ?s b" if "caches ?s j b" "b_valid (bf ?s j)" "b_refcnt (bf ?s j) = 0" for j b
      using that I(11) busy by (auto simp: ca bf' dk split: if_splits)
    show "\<exists>j. caches ?s j b \<and> b_valid (bf ?s j)" if "b \<in> P" for b
      using I(12) [OF that] by (auto simp: ca bf')
    show "unat (b_refcnt (bf ?s j)) = (if j \<in> H then 1 else 0) +
        (if b_dev (bf ?s j) = ROOTDEV \<and> b_blockno (bf ?s j) \<in> P then 1 else 0)" if "j < NBUF" for j
      using I(10) [OF that] by (cases "j = i") (simp_all add: bf')
  qed (use I in \<open>auto simp: bf' ca ll\<close>)
  show "view ?s = (view s)(b_blockno (bf s i) := d)"
  proof
    fix b
    show "view ?s b = ((view s)(b_blockno (bf s i) := d)) b"
    proof (cases "b = b_blockno (bf s i)")
      case True
      then show ?thesis using view_hit [OF inv', of i b] held_caches [OF inv i] I(8) [OF i] by (simp add: ca bf')
    next
      case False
      have "view ?s b = view s b"
        by (rule view_cong [OF inv' inv]) (use False in \<open>auto simp: ca bf' dk caches_def b_is_def\<close>)
      then show ?thesis using False by simp
    qed
  qed
qed

lemma bwrite_spec:
  assumes inv: "binv pid H P s" and i: "i \<in> H"
  obtains s' where "bwrite pid i s = Some s'" "binv pid H P s'" "view s' = view s" "bc_buf s' = bc_buf s"
    "bc_disk s' = (bc_disk s)(b_blockno (bf s i) := b_data (bf s i))"
    "bc_writes s' = bc_writes s @ [(b_blockno (bf s i), b_data (bf s i))]"
proof -
  note I = binvD [OF inv]
  let ?s = "disk_write i s"
  have il: "i < NBUF" using I(4) i by auto
  have w: "bwrite pid i s = Some ?s" using I(5) [OF il] I(6) [OF i] i by (simp add: bwrite_def holdingsleep_def)
  have f: "bc_buf ?s = bc_buf s" "bc_lru ?s = bc_lru s" "bc_disk ?s = (bc_disk s)(b_blockno (bf s i) := b_data (bf s i))"
    "bc_writes ?s = bc_writes s @ [(b_blockno (bf s i), b_data (bf s i))]"
    by (simp_all add: disk_write_def Let_def)
  have ca: "caches ?s j b \<longleftrightarrow> caches s j b" for j b by (simp add: caches_def f)
  note ci = held_caches [OF inv i]
  have own: "caches s j (b_blockno (bf s i)) \<Longrightarrow> j = i" for j using I(9) [OF _ ci] .
  have inv': "binv pid H P ?s"
  proof (rule binvI)
    show "b_data (bf ?s j) = bc_disk ?s b" if "caches ?s j b" "b_valid (bf ?s j)" "b_refcnt (bf ?s j) = 0" for j b
    proof (cases "b = b_blockno (bf s i)")
      case True
      then have "j = i" using own that(1) by (simp add: ca)
      then show ?thesis using True by (simp add: f)
    qed (use that I(11) in \<open>simp add: ca f\<close>)
  qed (use I in \<open>auto simp: ca f\<close>)
  have "view ?s = view s"
  proof
    fix b
    show "view ?s b = view s b"
    proof (cases "b = b_blockno (bf s i)")
      case True
      then show ?thesis using view_hit [OF inv', of i b] view_hit [OF inv, of i b] ci I(8) [OF i] by (simp add: ca f)
    next
      case False
      show ?thesis by (rule view_cong [OF inv' inv]) (use False in \<open>auto simp: ca f\<close>)
    qed
  qed
  then show thesis using that w inv' f by blast
qed

lemma brelse_spec:
  assumes inv: "binv pid H P s" and i: "i \<in> H"
    and clean: "b_blockno (bf s i) \<in> P \<or> b_data (bf s i) = bc_disk s (b_blockno (bf s i))"
  obtains s' where "brelse pid i s = Some s'" "binv pid (H - {i}) P s'" "view s' = view s" "bc_disk s' = bc_disk s"
    "bc_writes s' = bc_writes s" "\<forall>j. j \<noteq> i \<longrightarrow> bf s' j = bf s j"
proof -
  note I = binvD [OF inv]
  have il: "i < NBUF" using I(4) i by auto
  define s1 where "s1 = upd_buf i (\<lambda>b. b\<lparr>b_lock := releasesleep (b_lock b), b_refcnt := b_refcnt b - 1\<rparr>) s"
  define s' where "s' = (if b_refcnt (bf s1 i) = 0 then s1\<lparr>bc_lru := i # remove1 i (bc_lru s1)\<rparr> else s1)"
  have r: "brelse pid i s = Some s'"
    using I(5) [OF il] I(6) [OF i] i by (simp add: brelse_def holdingsleep_def s1_def s'_def Let_def)
  have f: "bf s' j = (if j = i then (bf s i)\<lparr>b_lock := releasesleep (b_lock (bf s i)), b_refcnt := b_refcnt (bf s i) - 1\<rparr> else bf s j)" for j
    using il I(1) by (simp add: s'_def s1_def)
  have g: "bc_disk s' = bc_disk s" "bc_writes s' = bc_writes s" "length (bc_buf s') = NBUF"
    "distinct (bc_lru s')" "set (bc_lru s') = {..<NBUF}"
    using I(1-3) il by (auto simp: s'_def s1_def)
  have ca: "caches s' j b \<longleftrightarrow> caches s j b" for j b by (auto simp: caches_def b_is_def f)
  have n: "unat (b_refcnt (bf s i) - 1) = (if b_blockno (bf s i) \<in> P then 1 else 0)"
  proof -
    have u: "unat (b_refcnt (bf s i)) = 1 + (if b_blockno (bf s i) \<in> P then 1 else 0)" using I(10) [OF il] I(7) [OF i] i by simp
    then have "1 \<le> b_refcnt (bf s i)" by (simp add: word_le_nat_alt)
    from unat_sub [OF this] u show ?thesis by simp
  qed
  have inv': "binv pid (H - {i}) P s'"
  proof (rule binvI)
    show "sl_locked (b_lock (bf s' j)) \<longleftrightarrow> j \<in> H - {i}" if "j < NBUF" for j
      using I(5) [OF that] by (simp add: f releasesleep_def)
    show "b_data (bf s' j) = bc_disk s' b" if "caches s' j b" "b_valid (bf s' j)" "b_refcnt (bf s' j) = 0" for j b
    proof (cases "j = i")
      case True
      then have "b_blockno (bf s i) \<notin> P" using that(3) n by (auto simp: f)
      then show ?thesis using clean that(1) True by (simp add: ca g f caches_def b_is_def)
    qed (use that I(11) in \<open>auto simp: ca g f\<close>)
    show "unat (b_refcnt (bf s' j)) = (if j \<in> H - {i} then 1 else 0) +
        (if b_dev (bf s' j) = ROOTDEV \<and> b_blockno (bf s' j) \<in> P then 1 else 0)" if "j < NBUF" for j
      using n I(7) [OF i] I(10) [OF that] by (simp add: f)
    show "\<exists>j. caches s' j b \<and> b_valid (bf s' j)" if "b \<in> P" for b
      using I(12) [OF that] by (auto simp: ca f)
  qed (use I g in \<open>auto simp: ca f\<close>)
  have "view s' = view s"
    by (rule ext, rule view_cong [OF inv' inv]) (auto simp: ca f g)
  then show thesis using that r inv' g f by simp
qed

lemma bunpin_spec:
  assumes inv: "binv pid H P s" and i: "i \<in> H" and b: "b = b_blockno (bf s i)" "b \<in> P"
  shows "binv pid H (P - {b}) (bunpin i s)" "view (bunpin i s) = view s" "bc_disk (bunpin i s) = bc_disk s"
    "bc_writes (bunpin i s) = bc_writes s"
    "bf (bunpin i s) j = (if j = i then (bf s i)\<lparr>b_refcnt := b_refcnt (bf s i) - 1\<rparr> else bf s j)"
proof -
  note I = binvD [OF inv]
  let ?s = "bunpin i s"
  have il: "i < NBUF" using I(4) i by auto
  show f: "bf ?s j = (if j = i then (bf s i)\<lparr>b_refcnt := b_refcnt (bf s i) - 1\<rparr> else bf s j)" for j using il I(1) by (simp add: bunpin_def)
  show g: "bc_disk ?s = bc_disk s" "bc_writes ?s = bc_writes s" by (simp_all add: bunpin_def)
  have ca: "caches ?s j b \<longleftrightarrow> caches s j b" for j b by (auto simp: caches_def b_is_def f)
  have ll: "length (bc_buf ?s) = length (bc_buf s)" "bc_lru ?s = bc_lru s" by (simp_all add: bunpin_def)
  have n: "unat (b_refcnt (bf s i) - 1) = 1"
  proof -
    have u: "unat (b_refcnt (bf s i)) = 2" using I(10) [OF il] I(7) [OF i] i b by simp
    then have "1 \<le> b_refcnt (bf s i)" by (simp add: word_le_nat_alt)
    from unat_sub [OF this] u show ?thesis by simp
  qed
  have own: "j = i" if "j < NBUF" "b_dev (bf s j) = ROOTDEV" "b_blockno (bf s j) = b" for j
    using I(9) [of j b i] that held_caches [OF inv i] b by (simp add: caches_def b_is_def)
  show inv': "binv pid H (P - {b}) ?s"
  proof (rule binvI)
    show "unat (b_refcnt (bf ?s j)) = (if j \<in> H then 1 else 0) +
        (if b_dev (bf ?s j) = ROOTDEV \<and> b_blockno (bf ?s j) \<in> P - {b} then 1 else 0)" if "j < NBUF" for j
      using n I(10) [OF that] own [OF that] i b by (auto simp: f)
    show "b_data (bf ?s j) = bc_disk ?s b'" if "caches ?s j b'" "b_valid (bf ?s j)" "b_refcnt (bf ?s j) = 0" for j b'
      using that I(11) n by (auto simp: ca f g split: if_splits)
    show "\<exists>j. caches ?s j b' \<and> b_valid (bf ?s j)" if "b' \<in> P - {b}" for b'
      using I(12) [of b'] that by (auto simp: ca f)
  qed (use I in \<open>auto simp: ca f ll\<close>)
  show "view ?s = view s"
    by (rule ext, rule view_cong [OF inv' inv]) (auto simp: ca f g)
qed

lemma binv_init: "binv pid {} {} (binit disk)"
proof -
  have l: "fold (\<lambda>b l. b # l) xs ys = rev xs @ ys" for xs :: "nat list" and ys by (induction xs arbitrary: ys) auto
  have b: "bf (binit disk) i = buf_boot" if "i < NBUF" for i using that by (simp add: binit_def)
  have c: "\<not> caches (binit disk) i b" for i b by (auto simp: caches_def b b_is_def buf_boot_def ROOTDEV_def)
  show ?thesis
    by (rule binvI) (auto simp: c b buf_boot_def initsleeplock_def ROOTDEV_def, auto simp: binit_def l)
qed

lemma view_init [simp]: "view (binit disk) = disk"
proof
  fix b
  have "\<not> caches (binit disk) i b" for i by (auto simp: caches_def binit_def b_is_def buf_boot_def ROOTDEV_def)
  then show "view (binit disk) b = disk b" using view_miss [of "binit disk" b] by (simp add: binit_def)
qed

end
