(* ===== verification/Journal.thy ===== *)
theory Journal
  imports Bio Bytes
begin

text \<open>
  The write-ahead log, \<open>kernel/log.c\<close>, over the buffer cache: \<open>log_write\<close>, \<open>commit\<close> and its parts, and
  recovery.  A crash may happen between any two disk writes; the theorem at the end
  shows that recovery then finds either none or all of the writes of the transaction.

  The log belongs to the root device.  \<open>j_blocks\<close> is \<open>log.lh.block[0..n)\<close>.
\<close>

record jlog =
  j_start :: u32
  j_outstanding :: int
  j_blocks :: "u32 list"

section \<open>The header block\<close>

definition put_head :: "u32 list \<Rightarrow> string \<Rightarrow> string" where
  "put_head bs d = fold (\<lambda>(i, b) d. store32 d (4 + 4 * i) b) (enumerate 0 bs) (store32 d 0 (of_nat (length bs)))"

definition get_head :: "string \<Rightarrow> u32 list" where
  "get_head d = map (\<lambda>i. load32 d (4 + 4 * i)) [0..<nat (sint (load32 d 0))]"

text \<open>A count above \<open>LOGBLOCKS\<close> would write past the array of the header in memory; there \<open>read_head\<close> is \<open>None\<close>.\<close>

definition read_head :: "int \<Rightarrow> jlog \<Rightarrow> bcache \<Rightarrow> (jlog \<times> bcache) option" where
  "read_head pid lg s =
     do {
       (i, s) \<leftarrow> bread pid ROOTDEV (j_start lg) s;
       let bs = get_head (b_data (bf s i));
       _ \<leftarrow> (if length bs \<le> LOGBLOCKS then Some () else None);
       let lg = lg\<lparr>j_blocks := bs\<rparr>;
       s \<leftarrow> brelse pid i s;
       Some (lg, s) }"

definition write_head :: "int \<Rightarrow> jlog \<Rightarrow> bcache \<Rightarrow> bcache option" where
  "write_head pid lg s =
     do {
       (i, s) \<leftarrow> bread pid ROOTDEV (j_start lg) s;
       let s = set_data i (put_head (j_blocks lg) (b_data (bf s i))) s;
       s \<leftarrow> bwrite pid i s;
       brelse pid i s }"

section \<open>Copying between log and home\<close>

fun install_loop :: "int \<Rightarrow> bool \<Rightarrow> u32 \<Rightarrow> nat \<Rightarrow> u32 list \<Rightarrow> bcache \<Rightarrow> bcache option" where
  "install_loop pid recovering start tail [] s = Some s"
| "install_loop pid recovering start tail (b # bs) s =
     do {
       (lbuf, s) \<leftarrow> bread pid ROOTDEV (start + of_nat tail + 1) s;
       (dbuf, s) \<leftarrow> bread pid ROOTDEV b s;
       let s = set_data dbuf (b_data (bf s lbuf)) s;
       s \<leftarrow> bwrite pid dbuf s;
       let s = (if recovering then s else bunpin dbuf s);
       s \<leftarrow> brelse pid lbuf s;
       s \<leftarrow> brelse pid dbuf s;
       install_loop pid recovering start (Suc tail) bs s }"

definition install_trans :: "int \<Rightarrow> bool \<Rightarrow> jlog \<Rightarrow> bcache \<Rightarrow> bcache option" where
  "install_trans pid recovering lg s = install_loop pid recovering (j_start lg) 0 (j_blocks lg) s"

fun write_log_loop :: "int \<Rightarrow> u32 \<Rightarrow> nat \<Rightarrow> u32 list \<Rightarrow> bcache \<Rightarrow> bcache option" where
  "write_log_loop pid start tail [] s = Some s"
| "write_log_loop pid start tail (b # bs) s =
     do {
       (to, s) \<leftarrow> bread pid ROOTDEV (start + of_nat tail + 1) s;
       (from, s) \<leftarrow> bread pid ROOTDEV b s;
       let s = set_data to (b_data (bf s from)) s;
       s \<leftarrow> bwrite pid to s;
       s \<leftarrow> brelse pid from s;
       s \<leftarrow> brelse pid to s;
       write_log_loop pid start (Suc tail) bs s }"

definition write_log :: "int \<Rightarrow> jlog \<Rightarrow> bcache \<Rightarrow> bcache option" where
  "write_log pid lg s = write_log_loop pid (j_start lg) 0 (j_blocks lg) s"

section \<open>Transactions\<close>

definition recover_from_log :: "int \<Rightarrow> jlog \<Rightarrow> bcache \<Rightarrow> (jlog \<times> bcache) option" where
  "recover_from_log pid lg s =
     do {
       (lg, s) \<leftarrow> read_head pid lg s;
       s \<leftarrow> install_trans pid True lg s;
       let lg = lg\<lparr>j_blocks := []\<rparr>;
       s \<leftarrow> write_head pid lg s;
       Some (lg, s) }"

definition initlog :: "int \<Rightarrow> superblock \<Rightarrow> bcache \<Rightarrow> (jlog \<times> bcache) option" where
  "initlog pid sb s =
     recover_from_log pid \<lparr>j_start = sb_logstart sb, j_outstanding = 0, j_blocks = []\<rparr> s"

definition commit :: "int \<Rightarrow> jlog \<Rightarrow> bcache \<Rightarrow> (jlog \<times> bcache) option" where
  "commit pid lg s =
     (if j_blocks lg \<noteq> []
      then do {
        s \<leftarrow> write_log pid lg s;
        s \<leftarrow> write_head pid lg s;
        s \<leftarrow> install_trans pid False lg s;
        let lg = lg\<lparr>j_blocks := []\<rparr>;
        s \<leftarrow> write_head pid lg s;
        Some (lg, s) }
      else Some (lg, s))"

text \<open>\<open>log_write\<close> of a buffer the process holds.\<close>

definition log_write_buf :: "nat \<Rightarrow> jlog \<Rightarrow> bcache \<Rightarrow> (jlog \<times> bcache) option" where
  "log_write_buf i lg s =
     (if length (j_blocks lg) \<ge> LOGBLOCKS then panic ''too big a transaction''
      else if j_outstanding lg < 1 then panic ''log_write outside of trans''
      else if b_blockno (bf s i) \<in> set (j_blocks lg) then Some (lg, s)
      else Some (lg\<lparr>j_blocks := j_blocks lg @ [b_blockno (bf s i)]\<rparr>, bpin i s))"

section \<open>The header round trip\<close>

definition put_blocks :: "nat \<Rightarrow> u32 list \<Rightarrow> string \<Rightarrow> string" where
  "put_blocks k bs d = fold (\<lambda>(i, b) d. store32 d (4 + 4 * i) b) (enumerate k bs) d"

lemma put_blocks_simps [simp]:
  "put_blocks k [] d = d" "put_blocks k (b # bs) d = put_blocks (Suc k) bs (store32 d (4 + 4 * k) b)"
  by (simp_all add: put_blocks_def)

lemma length_store32 [simp]: "off + 4 \<le> length d \<Longrightarrow> length (store32 d off w) = length d"
  by (simp add: store32_def)

lemma length_put_blocks: "4 + 4 * (k + length bs) \<le> length d \<Longrightarrow> length (put_blocks k bs d) = length d"
  by (induction bs arbitrary: k d) auto

lemma load_put_before:
  "4 + 4 * (k + length bs) \<le> length d \<Longrightarrow> off + 4 \<le> 4 + 4 * k \<Longrightarrow> load32 (put_blocks k bs d) off = load32 d off"
  by (induction bs arbitrary: k d) (auto simp: cell32.load_other)

lemma load_put_at:
  "4 + 4 * (k + length bs) \<le> length d \<Longrightarrow> i < length bs \<Longrightarrow> load32 (put_blocks k bs d) (4 + 4 * (k + i)) = bs ! i"
proof (induction bs arbitrary: k d i)
  case (Cons b bs)
  let ?d = "store32 d (4 + 4 * k) b"
  show ?case
  proof (cases i)
    case 0
    have "load32 (put_blocks (Suc k) bs ?d) (4 + 4 * k) = load32 ?d (4 + 4 * k)"
      by (rule load_put_before) (use Cons.prems in auto)
    then show ?thesis using 0 Cons.prems by (simp add: cell32.load_store)
  next
    case (Suc j)
    then show ?thesis using Cons.IH [of "Suc k" ?d j] Cons.prems by simp
  qed
qed simp

lemma put_head_blocks: "put_head bs d = put_blocks 0 bs (store32 d 0 (of_nat (length bs)))"
  by (simp add: put_head_def put_blocks_def)

lemma length_put_head: "4 + 4 * length bs \<le> length d \<Longrightarrow> length (put_head bs d) = length d"
  by (simp add: put_head_blocks length_put_blocks)

lemma get_put_head:
  assumes "4 + 4 * length bs \<le> length d" "length bs < 2 ^ 31"
  shows "get_head (put_head bs d) = bs"
proof -
  let ?d = "store32 d 0 (of_nat (length bs))"
  have l: "length ?d = length d" using assms by simp
  have "load32 (put_head bs d) 0 = of_nat (length bs)"
    using assms l load_put_before [of 0 bs ?d 0] by (simp add: put_head_blocks cell32.load_store)
  moreover have "nat (sint (of_nat (length bs) :: u32)) = length bs"
    using assms(2) by (simp add: signed_of_nat signed_take_bit_int_eq_self)
  moreover have "load32 (put_head bs d) (4 + 4 * i) = bs ! i" if "i < length bs" for i
    using load_put_at [of 0 bs ?d i] that assms l by (simp add: put_head_blocks)
  ultimately show ?thesis by (intro nth_equalityI) (simp_all add: get_head_def)
qed

section \<open>What the copying loops write\<close>

definition apply_writes :: "(u32 \<times> string) list \<Rightarrow> (u32 \<Rightarrow> string) \<Rightarrow> u32 \<Rightarrow> string" where
  "apply_writes ws f = fold (\<lambda>(b, d) f. f(b := d)) ws f"

lemma apply_writes_simps [simp]:
  "apply_writes [] f = f" "apply_writes ((b, d) # ws) f = apply_writes ws (f(b := d))"
  "apply_writes (ws @ ws') f = apply_writes ws' (apply_writes ws f)"
  by (simp_all add: apply_writes_def)

lemma apply_writes_other: "b \<notin> fst ` set ws \<Longrightarrow> apply_writes ws f b = f b"
  by (induction ws arbitrary: f) auto

lemma view_clean:
  assumes "binv pid {} P s" "b \<notin> P"
  shows "view s b = bc_disk s b"
  using view_cases [OF assms(1), of b]
proof cases
  case (1 i)
  then have "b_refcnt (bf s i) = 0"
    using binvD(10) [OF assms(1), of i] assms(2) by (auto simp: caches_def b_is_def unat_eq_zero)
  then show ?thesis using 1 binvD(11) [OF assms(1)] by metis
qed simp

lemma capacity:
  assumes "finite P" "card P + 2 \<le> NBUF"
  shows "card {} + card P < NBUF" "card {i} + card P < NBUF" "finite P"
  using assms by auto

text \<open>
  The common middle part: with buffer \<open>l\<close> of the source and buffer \<open>d\<close> of the destination held,
  the copy is made, written, perhaps unpinned, and both are released.
\<close>

lemma copy_held:
  assumes inv: "binv pid {l, d} P s" and ld: "l \<noteq> d" and src: "b_blockno (bf s l) = src" and dst: "b_blockno (bf s d) = dst"
    and cl: "src \<in> P \<or> b_data (bf s l) = bc_disk s src" and un: "unpin \<Longrightarrow> dst \<in> P" and sd: "src \<noteq> dst"
  obtains s1 s3 s' where "bwrite pid d (set_data d (b_data (bf s l)) s) = Some s1"
    "brelse pid l (if unpin then bunpin d s1 else s1) = Some s3" "brelse pid d s3 = Some s'"
    "binv pid {} (if unpin then P - {dst} else P) s'" "view s' = (view s)(dst := b_data (bf s l))"
    "bc_disk s' = (bc_disk s)(dst := b_data (bf s l))" "bc_writes s' = bc_writes s @ [(dst, b_data (bf s l))]"
proof -
  let ?v = "b_data (bf s l)"
  let ?P = "if unpin then P - {dst} else P"
  define s0 where "s0 = set_data d ?v s"
  note sd0 = set_data_spec [OF inv, of d ?v, folded s0_def]
  have f0: "bf s0 d = (bf s d)\<lparr>b_data := ?v\<rparr>" "bf s0 l = bf s l" using sd0(3) ld by auto
  obtain s1 where w: "bwrite pid d s0 = Some s1" "binv pid {l, d} P s1" "view s1 = view s0" "bc_buf s1 = bc_buf s0"
    "bc_disk s1 = (bc_disk s0)(b_blockno (bf s0 d) := b_data (bf s0 d))" "bc_writes s1 = bc_writes s0 @ [(b_blockno (bf s0 d), b_data (bf s0 d))]"
    using bwrite_spec [of pid "{l, d}" P s0 d] sd0(1) by auto
  define s2 where "s2 = (if unpin then bunpin d s1 else s1)"
  have f2: "binv pid {l, d} ?P s2 \<and> view s2 = view s1 \<and> bc_disk s2 = bc_disk s1 \<and> bc_writes s2 = bc_writes s1 \<and>
      b_blockno (bf s2 d) = dst \<and> b_data (bf s2 d) = ?v \<and> b_blockno (bf s2 l) = src \<and> b_data (bf s2 l) = ?v"
  proof (cases unpin)
    case True
    then have "dst = b_blockno (bf s1 d)" "dst \<in> P" using un f0 w(4) dst by auto
    from bunpin_spec [OF w(2) _ this] show ?thesis using True f0 w(4) src dst ld by (simp add: s2_def)
  qed (use w f0 src dst in \<open>auto simp: s2_def\<close>)
  have disk: "bc_disk s1 = (bc_disk s)(dst := ?v)" using w(5) f0 sd0(4) dst by simp
  obtain s3 where r3: "brelse pid l s2 = Some s3" "binv pid ({l, d} - {l}) ?P s3" "view s3 = view s2" "bc_disk s3 = bc_disk s2"
    "bc_writes s3 = bc_writes s2" "\<forall>j. j \<noteq> l \<longrightarrow> bf s3 j = bf s2 j"
  proof (rule brelse_spec [of pid "{l, d}" ?P s2 l])
    show "b_blockno (bf s2 l) \<in> ?P \<or> b_data (bf s2 l) = bc_disk s2 (b_blockno (bf s2 l))"
      using f2 cl sd disk by auto
  qed (use f2 in auto)
  have f3: "b_blockno (bf s3 d) = dst" "b_data (bf s3 d) = ?v" using r3(6) f2 ld by auto
  have h3: "binv pid {d} ?P s3" using r3(2) ld by (simp add: insert_Diff_if)
  obtain s' where r4: "brelse pid d s3 = Some s'" "binv pid ({d} - {d}) ?P s'" "view s' = view s3" "bc_disk s' = bc_disk s3"
    "bc_writes s' = bc_writes s3"
    using brelse_spec [of pid "{d}" ?P s3 d] h3 f3 r3(4) f2 disk by auto
  show thesis
    using that [of s1 s3 s'] w(1) r3(1) r4 f2 disk sd0(2,5) w(3,6) r3(3-5) f0 dst by (simp add: s0_def s2_def)
qed

text \<open>The log block of the entry at index \<open>i\<close>, and the log area.\<close>

definition log_block :: "u32 \<Rightarrow> nat \<Rightarrow> u32" where
  "log_block start i = start + of_nat i + 1"

definition log_area :: "u32 \<Rightarrow> u32 set" where
  "log_area start = {b. unat start \<le> unat b \<and> unat b \<le> unat start + LOGBLOCKS}"

lemma log_block_unat: "unat start + LOGBLOCKS < 2 ^ 32 \<Longrightarrow> i < LOGBLOCKS \<Longrightarrow> unat (log_block start i) = unat start + i + 1"
proof -
  assume "unat start + LOGBLOCKS < 2 ^ 32" "i < LOGBLOCKS"
  then have "unat start + i + 1 < 2 ^ 32" by linarith
  moreover have "log_block start i = of_nat (unat start + i + 1)" by (simp add: log_block_def)
  ultimately show ?thesis by (simp only: unsigned_of_nat) (simp add: take_bit_nat_eq_self)
qed

lemma log_block_area: "unat start + LOGBLOCKS < 2 ^ 32 \<Longrightarrow> i < LOGBLOCKS \<Longrightarrow> log_block start i \<in> log_area start \<and> log_block start i \<noteq> start"
  using log_block_unat [of start i] by (auto simp: log_area_def)

lemma log_block_inj: "unat start + LOGBLOCKS < 2 ^ 32 \<Longrightarrow> i < LOGBLOCKS \<Longrightarrow> j < LOGBLOCKS \<Longrightarrow> log_block start i = log_block start j \<longleftrightarrow> i = j"
  by (metis log_block_unat add_right_cancel add_left_cancel)

definition log_writes :: "(u32 \<Rightarrow> string) \<Rightarrow> u32 \<Rightarrow> nat \<Rightarrow> u32 list \<Rightarrow> (u32 \<times> string) list" where
  "log_writes f start k bs = map (\<lambda>(i, b). (log_block start i, f b)) (enumerate k bs)"

definition home_writes :: "(u32 \<Rightarrow> string) \<Rightarrow> u32 \<Rightarrow> nat \<Rightarrow> u32 list \<Rightarrow> (u32 \<times> string) list" where
  "home_writes f start k bs = map (\<lambda>(i, b). (b, f (log_block start i))) (enumerate k bs)"

text \<open>What a transaction's blocks have to satisfy: the log fits, and no block of it lies in the log.\<close>

definition txn_ok :: "u32 \<Rightarrow> nat \<Rightarrow> u32 list \<Rightarrow> bool" where
  "txn_ok start k bs \<longleftrightarrow> unat start + LOGBLOCKS < 2 ^ 32 \<and> k + length bs \<le> LOGBLOCKS \<and> distinct bs \<and> set bs \<inter> log_area start = {}"

lemma txn_okD:
  assumes "txn_ok start k (b # bs)"
  shows "txn_ok start (Suc k) bs" "log_block start k \<noteq> b" "log_block start k \<notin> set bs" "b \<notin> set bs"
    "j < length bs \<Longrightarrow> log_block start (Suc k + j) \<noteq> b" "j < length bs \<Longrightarrow> log_block start (Suc k + j) \<noteq> log_block start k"
  using assms log_block_area [of start k] log_block_area [of start "Suc k + j"] log_block_inj [of start "Suc k + j" k]
  by (auto simp: txn_ok_def)

lemma log_writes_cong: "(\<And>b. b \<in> set bs \<Longrightarrow> f b = g b) \<Longrightarrow> log_writes f start k bs = log_writes g start k bs"
  unfolding log_writes_def by (rule map_cong) (auto simp: in_set_enumerate_eq)

lemma home_writes_cong: "(\<And>i. i < length bs \<Longrightarrow> f (log_block start (k + i)) = g (log_block start (k + i))) \<Longrightarrow>
   home_writes f start k bs = home_writes g start k bs"
  unfolding home_writes_def
proof (rule map_cong)
  fix x assume h: "\<And>i. i < length bs \<Longrightarrow> f (log_block start (k + i)) = g (log_block start (k + i))" and x: "x \<in> set (enumerate k bs)"
  then have "k \<le> fst x" "fst x < k + length bs" by (auto simp: in_set_enumerate_eq)
  then show "(\<lambda>(i, b). (b, f (log_block start i))) x = (\<lambda>(i, b). (b, g (log_block start i))) x"
    using h [of "fst x - k"] by (cases x) simp
qed simp

lemma two_breads:
  assumes inv: "binv pid {} P s" and P: "finite P" "card P + 2 \<le> NBUF" and ab: "a \<noteq> b"
  obtains i j s1 s2 where "bread pid ROOTDEV a s = Some (i, s1)" "bread pid ROOTDEV b s1 = Some (j, s2)" "i \<noteq> j"
    "binv pid {i, j} P s2" "b_blockno (bf s2 i) = a" "b_blockno (bf s2 j) = b" "b_data (bf s2 i) = view s a" "b_data (bf s2 j) = view s b"
    "view s2 = view s" "bc_disk s2 = bc_disk s" "bc_writes s2 = bc_writes s"
proof -
  note cap = capacity [OF P]
  obtain i s1 where r1: "bread pid ROOTDEV a s = Some (i, s1)" "binv pid (insert i {}) P s1" "caches s1 i a"
    "b_data (bf s1 i) = view s a" "view s1 = view s" "bc_disk s1 = bc_disk s" "bc_writes s1 = bc_writes s"
    by (rule bread_spec [OF inv, of a]) (use cap in auto)
  have b1: "b_blockno (bf s1 i) = a" using r1(3) by (simp add: caches_def b_is_def)
  obtain j s2 where r2: "bread pid ROOTDEV b s1 = Some (j, s2)" "j \<notin> insert i {}" "binv pid (insert j (insert i {})) P s2" "caches s2 j b"
    "b_data (bf s2 j) = view s1 b" "view s2 = view s1" "bc_disk s2 = bc_disk s1" "bc_writes s2 = bc_writes s1" "\<forall>k. k \<noteq> j \<longrightarrow> bf s2 k = bf s1 k"
    by (rule bread_spec [OF r1(2), of b]) (use cap b1 ab in auto)
  have ij: "i \<noteq> j" using r2(2) by auto
  show thesis
    by (rule that [OF r1(1) r2(1) ij]) (use r1 r2 b1 ij in \<open>auto simp: caches_def b_is_def insert_commute\<close>)
qed

lemma write_log_loop_spec:
  assumes "binv pid {} P s" "finite P" "card P + 2 \<le> NBUF" "txn_ok start k bs" "set bs \<subseteq> P" "P \<inter> log_area start = {}"
  obtains s' where "write_log_loop pid start k bs s = Some s'" "binv pid {} P s'"
    "view s' = apply_writes (log_writes (view s) start k bs) (view s)"
    "bc_disk s' = apply_writes (log_writes (view s) start k bs) (bc_disk s)"
    "bc_writes s' = bc_writes s @ log_writes (view s) start k bs"
  using assms
proof (induction bs arbitrary: k s thesis)
  case Nil
  then show ?case by (simp add: log_writes_def)
next
  case (Cons b bs)
  note t = txn_okD [OF Cons.prems(5)]
  obtain i j s1 s2 where r: "bread pid ROOTDEV (log_block start k) s = Some (i, s1)" "bread pid ROOTDEV b s1 = Some (j, s2)" "i \<noteq> j"
    "binv pid {i, j} P s2" "b_blockno (bf s2 i) = log_block start k" "b_blockno (bf s2 j) = b"
    "b_data (bf s2 j) = view s b" "view s2 = view s" "bc_disk s2 = bc_disk s" "bc_writes s2 = bc_writes s"
    using two_breads [OF Cons.prems(2-4) t(2)] by metis
  obtain s3 s4 s5 where c: "bwrite pid i (set_data i (b_data (bf s2 j)) s2) = Some s3"
    "brelse pid j (if False then bunpin i s3 else s3) = Some s4" "brelse pid i s4 = Some s5"
    "binv pid {} (if False then P - {log_block start k} else P) s5" "view s5 = (view s2)(log_block start k := b_data (bf s2 j))"
    "bc_disk s5 = (bc_disk s2)(log_block start k := b_data (bf s2 j))" "bc_writes s5 = bc_writes s2 @ [(log_block start k, b_data (bf s2 j))]"
  proof (rule copy_held [of pid j i P s2 b "log_block start k" False])
    show "binv pid {j, i} P s2" using r(4) by (simp add: insert_commute)
  qed (use r t Cons.prems(6) in auto)
  have same: "log_writes (view s5) start (Suc k) bs = log_writes (view s) start (Suc k) bs"
    by (rule log_writes_cong) (use c(5) r(8) t(3) in auto)
  have lw: "log_writes (view s) start k (b # bs) = (log_block start k, view s b) # log_writes (view s) start (Suc k) bs"
    by (simp add: log_writes_def)
  obtain s' where ih: "write_log_loop pid start (Suc k) bs s5 = Some s'" "binv pid {} P s'"
    "view s' = apply_writes (log_writes (view s5) start (Suc k) bs) (view s5)"
    "bc_disk s' = apply_writes (log_writes (view s5) start (Suc k) bs) (bc_disk s5)"
    "bc_writes s' = bc_writes s5 @ log_writes (view s5) start (Suc k) bs"
    by (rule Cons.IH [of "Suc k" s5]) (use c(4) Cons.prems t(1) in auto)
  have run: "write_log_loop pid start k (b # bs) s = Some s'"
    using r(1,2) c(1-3) ih(1) by (simp add: log_block_def)
  show ?case
    by (rule Cons.prems(1) [OF run ih(2)])
      (use ih(3-5) [unfolded same] c(5-7) r(7-10) in \<open>simp_all add: lw\<close>)
qed

lemma install_loop_spec:
  assumes "binv pid {} P s" "finite P" "card P + 2 \<le> NBUF" "txn_ok start k bs" "\<not> rec \<Longrightarrow> set bs \<subseteq> P" "P \<inter> log_area start = {}"
  obtains s' where "install_loop pid rec start k bs s = Some s'" "binv pid {} (if rec then P else P - set bs) s'"
    "view s' = apply_writes (home_writes (view s) start k bs) (view s)"
    "bc_disk s' = apply_writes (home_writes (view s) start k bs) (bc_disk s)"
    "bc_writes s' = bc_writes s @ home_writes (view s) start k bs"
  using assms
proof (induction bs arbitrary: k s P thesis)
  case Nil
  then show ?case by (simp add: home_writes_def)
next
  case (Cons b bs)
  note t = txn_okD [OF Cons.prems(5)]
  let ?P = "if \<not> rec then P - {b} else P"
  have lb: "log_block start k \<notin> P"
    using Cons.prems(5,7) log_block_area [of start k] by (auto simp: txn_ok_def)
  obtain i j s1 s2 where r: "bread pid ROOTDEV (log_block start k) s = Some (i, s1)" "bread pid ROOTDEV b s1 = Some (j, s2)" "i \<noteq> j"
    "binv pid {i, j} P s2" "b_blockno (bf s2 i) = log_block start k" "b_blockno (bf s2 j) = b"
    "b_data (bf s2 i) = view s (log_block start k)" "view s2 = view s" "bc_disk s2 = bc_disk s" "bc_writes s2 = bc_writes s"
    using two_breads [OF Cons.prems(2-4) t(2)] by metis
  obtain s3 s4 s5 where c: "bwrite pid j (set_data j (b_data (bf s2 i)) s2) = Some s3"
    "brelse pid i (if \<not> rec then bunpin j s3 else s3) = Some s4" "brelse pid j s4 = Some s5"
    "binv pid {} ?P s5" "view s5 = (view s2)(b := b_data (bf s2 i))"
    "bc_disk s5 = (bc_disk s2)(b := b_data (bf s2 i))" "bc_writes s5 = bc_writes s2 @ [(b, b_data (bf s2 i))]"
  proof (rule copy_held [of pid i j P s2 "log_block start k" b "\<not> rec"])
    show "log_block start k \<in> P \<or> b_data (bf s2 i) = bc_disk s2 (log_block start k)"
      using view_clean [OF Cons.prems(2) lb] r by simp
  qed (use r t Cons.prems(6) in auto)
  have same: "home_writes (view s5) start (Suc k) bs = home_writes (view s) start (Suc k) bs"
    by (rule home_writes_cong) (use c(5) r(8) t(5) in auto)
  have hw: "home_writes (view s) start k (b # bs) = (b, view s (log_block start k)) # home_writes (view s) start (Suc k) bs"
    by (simp add: home_writes_def)
  have card: "card ?P + 2 \<le> NBUF" using Cons.prems(3,4) card_mono [of P "P - {b}"] by auto
  obtain s' where ih: "install_loop pid rec start (Suc k) bs s5 = Some s'" "binv pid {} (if rec then ?P else ?P - set bs) s'"
    "view s' = apply_writes (home_writes (view s5) start (Suc k) bs) (view s5)"
    "bc_disk s' = apply_writes (home_writes (view s5) start (Suc k) bs) (bc_disk s5)"
    "bc_writes s' = bc_writes s5 @ home_writes (view s5) start (Suc k) bs"
    by (rule Cons.IH [where k = "Suc k" and s = s5 and P = ?P]) (use c(4) Cons.prems t(1,4) card in auto)
  have run: "install_loop pid rec start k (b # bs) s = Some s'"
    using r(1,2) c(1-3) ih(1) by (cases rec) (simp_all add: log_block_def)
  have inv': "binv pid {} (if rec then P else P - set (b # bs)) s'"
    using ih(2) Diff_insert [of P b "set bs"] Diff_insert2 [of P b "set bs"] by (cases rec) simp_all
  show ?case
    by (rule Cons.prems(1) [OF run inv'])
      (use ih(3-5) [unfolded same] c(5-7) r(7-10) in \<open>simp_all add: hw\<close>)
qed

lemma write_head_spec:
  assumes inv: "binv pid {} P s" and P: "finite P" "card P + 2 \<le> NBUF"
  obtains s' where "write_head pid lg s = Some s'" "binv pid {} P s'"
    "view s' = (view s)(j_start lg := put_head (j_blocks lg) (view s (j_start lg)))"
    "bc_disk s' = (bc_disk s)(j_start lg := put_head (j_blocks lg) (view s (j_start lg)))"
    "bc_writes s' = bc_writes s @ [(j_start lg, put_head (j_blocks lg) (view s (j_start lg)))]"
proof -
  let ?b = "j_start lg"
  obtain i s1 where r1: "bread pid ROOTDEV ?b s = Some (i, s1)" "binv pid (insert i {}) P s1" "caches s1 i ?b"
    "b_data (bf s1 i) = view s ?b" "view s1 = view s" "bc_disk s1 = bc_disk s" "bc_writes s1 = bc_writes s"
    by (rule bread_spec [OF inv, of ?b]) (use capacity [OF P] in auto)
  let ?d = "put_head (j_blocks lg) (view s ?b)"
  have bn: "b_blockno (bf s1 i) = ?b" using r1(3) by (simp add: caches_def b_is_def)
  define s2 where "s2 = set_data i ?d s1"
  note sd = set_data_spec [OF r1(2), of i ?d, folded s2_def]
  have f2: "b_blockno (bf s2 i) = ?b" "b_data (bf s2 i) = ?d" using sd(3) bn by auto
  obtain s3 where w: "bwrite pid i s2 = Some s3" "binv pid (insert i {}) P s3" "view s3 = view s2" "bc_buf s3 = bc_buf s2"
    "bc_disk s3 = (bc_disk s2)(b_blockno (bf s2 i) := b_data (bf s2 i))"
    "bc_writes s3 = bc_writes s2 @ [(b_blockno (bf s2 i), b_data (bf s2 i))]"
    using bwrite_spec [OF sd(1), of i] by auto
  obtain s4 where r4: "brelse pid i s3 = Some s4" "binv pid (insert i {} - {i}) P s4" "view s4 = view s3" "bc_disk s4 = bc_disk s3"
    "bc_writes s4 = bc_writes s3"
    using brelse_spec [OF w(2), of i] w f2 by auto
  have "write_head pid lg s = Some s4" using r1(1,4) w(1) r4(1) by (simp add: write_head_def s2_def)
  then show thesis
    using that [of s4] r4 w sd(2,4,5) f2 bn r1(5-7) by simp
qed

lemma read_head_spec:
  assumes inv: "binv pid {} P s" and P: "finite P" "card P + 2 \<le> NBUF" and st: "j_start lg \<notin> P"
    and n: "length (get_head (view s (j_start lg))) \<le> LOGBLOCKS"
  obtains s' where "read_head pid lg s = Some (lg\<lparr>j_blocks := get_head (view s (j_start lg))\<rparr>, s')" "binv pid {} P s'"
    "view s' = view s" "bc_disk s' = bc_disk s" "bc_writes s' = bc_writes s"
proof -
  let ?b = "j_start lg"
  obtain i s1 where r1: "bread pid ROOTDEV ?b s = Some (i, s1)" "binv pid (insert i {}) P s1" "caches s1 i ?b"
    "b_data (bf s1 i) = view s ?b" "view s1 = view s" "bc_disk s1 = bc_disk s" "bc_writes s1 = bc_writes s"
    by (rule bread_spec [OF inv, of ?b]) (use capacity [OF P] in auto)
  have bn: "b_blockno (bf s1 i) = ?b" using r1(3) by (simp add: caches_def b_is_def)
  have cl: "b_data (bf s1 i) = bc_disk s1 (b_blockno (bf s1 i))" using view_clean [OF inv st] r1 bn by simp
  obtain s2 where r2: "brelse pid i s1 = Some s2" "binv pid (insert i {} - {i}) P s2" "view s2 = view s1" "bc_disk s2 = bc_disk s1"
    "bc_writes s2 = bc_writes s1"
    using brelse_spec [OF r1(2), of i] cl by auto
  have "read_head pid lg s = Some (lg\<lparr>j_blocks := get_head (view s ?b)\<rparr>, s2)" using r1(1,4) r2(1) n by (simp add: read_head_def)
  then show thesis using that [of s2] r2 r1 by simp
qed

section \<open>Commit and recovery\<close>

lemma apply_graph: "apply_writes (map (\<lambda>b. (b, f b)) bs) g b = (if b \<in> set bs then f b else g b)"
  by (induction bs arbitrary: g) auto

lemma log_writes_fst: "fst ` set (log_writes f start k bs) = (\<lambda>i. log_block start (k + i)) ` {..<length bs}"
proof (induction bs arbitrary: k)
  case (Cons b bs)
  have "{..<length (b # bs)} = insert 0 (Suc ` {..<length bs})" by (simp add: lessThan_Suc_eq_insert_0)
  then show ?case using Cons.IH [of "Suc k"] by (simp add: log_writes_def image_image)
qed (simp add: log_writes_def)

lemma log_writes_outside:
  assumes "txn_ok start 0 bs" "b \<notin> log_area start \<or> b = start"
  shows "apply_writes (take n (log_writes f start 0 bs)) g b = g b"
proof (rule apply_writes_other)
  have "b \<notin> fst ` set (log_writes f start 0 bs)"
  proof (unfold log_writes_fst, rule notI)
    assume "b \<in> (\<lambda>i. log_block start (0 + i)) ` {..<length bs}"
    then obtain i where "b = log_block start i" "i < length bs" by auto
    then show False using assms log_block_area [of start i] by (auto simp: txn_ok_def)
  qed
  then show "b \<notin> fst ` set (take n (log_writes f start 0 bs))" using set_take_subset by fastforce
qed

lemma log_writes_logged:
  "txn_ok start k bs \<Longrightarrow> i < length bs \<Longrightarrow> apply_writes (log_writes f start k bs) g (log_block start (k + i)) = f (bs ! i)"
proof (induction bs arbitrary: k g i)
  case (Cons b bs)
  have lw: "log_writes f start k (b # bs) = (log_block start k, f b) # log_writes f start (Suc k) bs" by (simp add: log_writes_def)
  show ?case
  proof (cases i)
    case 0
    have "log_block start k \<notin> fst ` set (log_writes f start (Suc k) bs)"
      using txn_okD(6) [OF Cons.prems(1)] unfolding log_writes_fst by (metis imageE lessThan_iff)
    then show ?thesis using 0 by (simp add: lw apply_writes_other)
  next
    case (Suc j)
    then show ?thesis using Cons.IH [of "Suc k" j] txn_okD(1) [OF Cons.prems(1)] Cons.prems(2) by (simp add: lw)
  qed
qed simp

lemma home_writes_logged:
  assumes "\<And>i. i < length bs \<Longrightarrow> E (log_block start i) = f (bs ! i)"
  shows "home_writes E start 0 bs = map (\<lambda>b. (b, f b)) bs"
  by (rule nth_equalityI) (use assms in \<open>auto simp: home_writes_def nth_enumerate_eq\<close>)

lemma recover_spec:
  assumes hs: "get_head (E start) = hs" and ok: "txn_ok start 0 hs" and lg: "j_start lg = start"
  obtains lg' s' where "recover_from_log pid lg (binit E) = Some (lg', s')"
    "\<And>b. b \<noteq> start \<Longrightarrow> bc_disk s' b = apply_writes (home_writes E start 0 hs) E b" "j_blocks lg' = []"
proof -
  have n: "card {} + 2 \<le> NBUF" by (simp add: NBUF_def MAXOPBLOCKS_def)
  have disk: "bc_disk (binit E) = E" by (simp add: binit_def)
  obtain s1 where r: "read_head pid lg (binit E) = Some (lg\<lparr>j_blocks := hs\<rparr>, s1)" "binv pid {} {} s1" "view s1 = E" "bc_disk s1 = E"
    using read_head_spec [OF binv_init [of pid E] _ n, of lg] hs ok lg by (auto simp: txn_ok_def disk)
  obtain s2 where i: "install_loop pid True start 0 hs s1 = Some s2" "binv pid {} (if True then {} else {} - set hs) s2"
    "bc_disk s2 = apply_writes (home_writes (view s1) start 0 hs) (bc_disk s1)"
    using install_loop_spec [OF r(2) _ n ok, of True] by auto
  let ?lg = "lg\<lparr>j_blocks := []\<rparr>"
  have i2: "binv pid {} {} s2" using i(2) by simp
  obtain s3 where w: "write_head pid ?lg s2 = Some s3"
    "bc_disk s3 = (bc_disk s2)(start := put_head (j_blocks ?lg) (view s2 start))"
    using write_head_spec [OF i2 _ n, of ?lg] lg by auto
  show thesis
    by (rule that [of ?lg s3]) (use r i w lg in \<open>simp_all add: recover_from_log_def install_trans_def\<close>)
qed

text \<open>The writes of \<open>commit\<close>, in order: the log, the header, the home locations, the empty header.\<close>

definition commit_writes :: "(u32 \<Rightarrow> string) \<Rightarrow> u32 \<Rightarrow> u32 list \<Rightarrow> (u32 \<times> string) list" where
  "commit_writes V start bs =
     (let h = put_head bs (V start)
      in log_writes V start 0 bs @ [(start, h)] @ map (\<lambda>b. (b, V b)) bs @ [(start, put_head [] h)])"

lemma commit_spec:
  assumes inv: "binv pid {} (set bs) s" and ok: "txn_ok start 0 bs" and cap: "length bs + 2 \<le> NBUF" and ne: "bs \<noteq> []"
    and lg: "j_start lg = start" "j_blocks lg = bs"
  obtains s' where "commit pid lg s = Some (lg\<lparr>j_blocks := []\<rparr>, s')" "binv pid {} {} s'"
    "bc_writes s' = bc_writes s @ commit_writes (view s) start bs"
    "bc_disk s' = apply_writes (commit_writes (view s) start bs) (bc_disk s)"
proof -
  let ?W1 = "log_writes (view s) start 0 bs"
  let ?W3 = "map (\<lambda>b. (b, view s b)) bs"
  have P: "finite (set bs)" "card (set bs) + 2 \<le> NBUF" "set bs \<inter> log_area start = {}" and st: "start \<notin> set bs"
    using ok cap card_length [of bs] by (auto simp: txn_ok_def log_area_def)
  have n: "card {} + 2 \<le> NBUF" by (simp add: NBUF_def MAXOPBLOCKS_def)
  obtain s1 where a: "write_log_loop pid start 0 bs s = Some s1" "binv pid {} (set bs) s1" "view s1 = apply_writes ?W1 (view s)"
    "bc_disk s1 = apply_writes ?W1 (bc_disk s)" "bc_writes s1 = bc_writes s @ ?W1"
    using write_log_loop_spec [OF inv P(1,2) ok subset_refl P(3)] by metis
  define h where "h = put_head bs (view s start)"
  have vst: "view s1 start = view s start"
    using log_writes_outside [OF ok, of start "length ?W1" "view s" "view s"] a(3) by simp
  obtain s2 where b: "write_head pid lg s1 = Some s2" "binv pid {} (set bs) s2" "view s2 = (view s1)(start := h)"
    "bc_disk s2 = (bc_disk s1)(start := h)" "bc_writes s2 = bc_writes s1 @ [(start, h)]"
    using write_head_spec [OF a(2) P(1,2), of lg] lg vst unfolding h_def by metis
  have logged: "view s2 (log_block start i) = view s (bs ! i)" if "i < length bs" for i
    using log_writes_logged [OF ok that, of "view s" "view s"] log_block_area [of start i] that ok a(3) b(3) by (auto simp: txn_ok_def)
  note hw = home_writes_logged [of bs "view s2" start "view s", OF logged]
  obtain s3 where c: "install_loop pid False start 0 bs s2 = Some s3" "binv pid {} (if False then set bs else set bs - set bs) s3"
    "view s3 = apply_writes ?W3 (view s2)" "bc_disk s3 = apply_writes ?W3 (bc_disk s2)" "bc_writes s3 = bc_writes s2 @ ?W3"
    using install_loop_spec [OF b(2) P(1,2) ok _ P(3), of False] hw by auto
  have c2: "binv pid {} {} s3" and v3: "view s3 start = h" using c(2,3) b(3) st by (simp_all add: apply_graph)
  let ?lg = "lg\<lparr>j_blocks := []\<rparr>"
  obtain s4 where d: "write_head pid ?lg s3 = Some s4" "binv pid {} {} s4" "bc_disk s4 = (bc_disk s3)(start := put_head [] h)"
    "bc_writes s4 = bc_writes s3 @ [(start, put_head [] h)]"
    using write_head_spec [OF c2 _ n, of ?lg] lg v3 by auto
  show thesis
    by (rule that [of s4]) (use a b c d lg ne in \<open>simp_all add: commit_def write_log_def install_trans_def commit_writes_def h_def [symmetric] Let_def\<close>)
qed

lemma split_count: "n \<le> a \<or> (\<exists>m. n = a + Suc m \<and> m \<le> b) \<or> n > a + 1 + (b :: nat)"
  by presburger

text \<open>The disk a crash leaves after the first \<open>n\<close> writes of \<open>commit\<close>, as recovery finds it.\<close>

lemma commit_prefix:
  assumes ok: "txn_ok start 0 bs" and V: "\<And>b. b \<notin> set bs \<Longrightarrow> V b = D b"
    and sz: "length (D start) = BSIZE" and hd: "get_head (D start) = []"
    and E: "E = apply_writes (take n (commit_writes V start bs)) D"
  shows "\<exists>hs. get_head (E start) = hs \<and> txn_ok start 0 hs \<and>
    ((\<forall>b. b \<notin> log_area start \<longrightarrow> apply_writes (home_writes E start 0 hs) E b = D b) \<or>
     (\<forall>b. b \<notin> log_area start \<longrightarrow> apply_writes (home_writes E start 0 hs) E b = V b))"
proof -
  let ?W1 = "log_writes V start 0 bs"
  let ?W3 = "map (\<lambda>b. (b, V b)) bs"
  define h where "h = put_head bs (V start)"
  have st: "start \<in> log_area start" "start \<notin> set bs" using ok by (auto simp: txn_ok_def log_area_def)
  have len: "length bs \<le> 30" using ok by (simp add: txn_ok_def LOGBLOCKS_def MAXOPBLOCKS_def)
  have room: "4 + 4 * length bs \<le> length (V start)" using sz V [OF st(2)] len by (simp add: BSIZE_def)
  have gh: "get_head h = bs" unfolding h_def by (rule get_put_head) (use room len in auto)
  have gh0: "get_head (put_head [] h) = []"
    using get_put_head [of "[]" h] length_put_head [OF room] room by (simp add: h_def)
  have nil: "txn_ok start 0 []" using ok by (simp add: txn_ok_def)
  have none: "apply_writes (home_writes F start 0 []) F b = F b" for F b by (simp add: home_writes_def)
  have ws: "commit_writes V start bs = ?W1 @ (start, h) # ?W3 @ [(start, put_head [] h)]"
    by (simp add: commit_writes_def h_def Let_def)
  let ?D2 = "(apply_writes ?W1 D)(start := h)"
  have out1: "apply_writes ?W1 D b = D b" if "b \<notin> log_area start" for b
    using log_writes_outside [OF ok, of b "length ?W1" V D] that by simp
  consider "n \<le> length ?W1" | m where "n = length ?W1 + Suc m" "m \<le> length bs" | "n > length ?W1 + 1 + length bs"
    using split_count [of n "length ?W1" "length bs"] by auto
  then show ?thesis
  proof cases
    case 1
    then have e: "E = apply_writes (take n ?W1) D" by (simp add: E ws)
    have "E start = D start" using log_writes_outside [OF ok, of start] by (simp add: e)
    then have "get_head (E start) = []" using hd by simp
    moreover have "\<forall>b. b \<notin> log_area start \<longrightarrow> apply_writes (home_writes E start 0 []) E b = D b"
      unfolding none e using log_writes_outside [OF ok] by simp
    ultimately show ?thesis using nil by blast
  next
    case (2 m)
    then have e: "E = apply_writes (map (\<lambda>b. (b, V b)) (take m bs)) ?D2" by (simp add: E ws take_map)
    have inlog: "b \<notin> set (take m bs)" if "b \<in> log_area start" for b
      using that ok set_take_subset [of m bs] by (auto simp: txn_ok_def)
    have "get_head (E start) = bs" using inlog [OF st(1)] gh by (simp add: e apply_graph)
    moreover have "home_writes E start 0 bs = ?W3"
    proof (rule home_writes_logged)
      fix i assume i: "i < length bs"
      then have "log_block start i \<in> log_area start \<and> log_block start i \<noteq> start"
        using log_block_area [of start i] ok by (auto simp: txn_ok_def)
      then show "E (log_block start i) = V (bs ! i)"
        using inlog log_writes_logged [OF ok i, of V D] by (simp add: e apply_graph)
    qed
    moreover have "apply_writes ?W3 E b = V b" if "b \<notin> log_area start" for b
      using that st(1) V [of b] out1 [OF that] set_take_subset [of m bs] by (auto simp: e apply_graph)
    ultimately show ?thesis using ok by fastforce
  next
    case 3
    then have e: "E = (apply_writes ?W3 ?D2)(start := put_head [] h)" by (simp add: E ws)
    have "get_head (E start) = []" using gh0 by (simp add: e)
    moreover have "apply_writes (home_writes E start 0 []) E b = V b" if "b \<notin> log_area start" for b
      using that st(1) V [of b] out1 [OF that] unfolding none e by (auto simp: apply_graph)
    ultimately show ?thesis using nil by blast
  qed
qed

text \<open>
  C4: A transaction is atomic across crashes.  With the blocks of the transaction pinned in
  the cache, \<open>commit\<close> returns; whichever prefix of its disk writes a crash lets through, the
  \<open>initlog\<close> of the next boot returns, with an empty log, and outside the log area the disk is then either
  as it was before the transaction or holds every block as the transaction left it.  Once
  \<open>commit\<close> has returned, a crash loses nothing: the disk holds every block of the transaction.
  The log header is empty before, the blocks are outside the log, and two buffers are left for the copying loops.
\<close>

theorem commit_crash_atomic:
  assumes "binv pid {} (set bs) s" "txn_ok start 0 bs" "length bs + 2 \<le> NBUF"
    and "length (bc_disk s start) = BSIZE" "get_head (bc_disk s start) = []"
    and "j_start lg = start" "j_blocks lg = bs" "sb_logstart sb = start"
  shows "\<exists>s' ws. commit pid lg s = Some (lg\<lparr>j_blocks := []\<rparr>, s') \<and> bc_writes s' = bc_writes s @ ws \<and>
    (\<forall>b. b \<notin> log_area start \<longrightarrow> bc_disk s' b = view s b) \<and>
    (\<forall>n. \<exists>lg2 s2. initlog pid2 sb (binit (apply_writes (take n ws) (bc_disk s))) = Some (lg2, s2) \<and> j_blocks lg2 = [] \<and>
      ((\<forall>b. b \<notin> log_area start \<longrightarrow> bc_disk s2 b = bc_disk s b) \<or>
       (\<forall>b. b \<notin> log_area start \<longrightarrow> bc_disk s2 b = view s b)))"
proof -
  define ws where "ws = (if bs = [] then [] else commit_writes (view s) start bs)"
  have V: "view s b = bc_disk s b" if "b \<notin> set bs" for b using view_clean [OF assms(1) that] .
  have nil: "txn_ok start 0 []" using assms(2) by (simp add: txn_ok_def)
  obtain s' where c: "commit pid lg s = Some (lg\<lparr>j_blocks := []\<rparr>, s')" "bc_writes s' = bc_writes s @ ws"
    "bc_disk s' = apply_writes ws (bc_disk s)"
  proof (cases "bs = []")
    case True
    then show ?thesis using that [of s] assms(7) by (simp add: commit_def ws_def)
  next
    case False
    then show ?thesis using commit_spec [OF assms(1-3) False assms(6,7)] that by (auto simp: ws_def)
  qed
  have st: "start \<in> log_area start" by (simp add: log_area_def)
  have durable: "bc_disk s' b = view s b" if "b \<notin> log_area start" for b
  proof (cases "bs = []")
    case False
    have "apply_writes (log_writes (view s) start 0 bs) (bc_disk s) b = bc_disk s b"
      using log_writes_outside [OF assms(2), of b "length (log_writes (view s) start 0 bs)" "view s" "bc_disk s"] that by simp
    then show ?thesis using that st False V [of b] by (auto simp: c(3) ws_def commit_writes_def Let_def apply_graph)
  qed (use c(3) V in \<open>simp add: ws_def\<close>)
  have "\<exists>lg2 s2. initlog pid2 sb (binit (apply_writes (take n ws) (bc_disk s))) = Some (lg2, s2) \<and> j_blocks lg2 = [] \<and>
      ((\<forall>b. b \<notin> log_area start \<longrightarrow> bc_disk s2 b = bc_disk s b) \<or> (\<forall>b. b \<notin> log_area start \<longrightarrow> bc_disk s2 b = view s b))" for n
  proof -
    define E where "E = apply_writes (take n ws) (bc_disk s)"
    let ?A = "\<lambda>hs. apply_writes (home_writes E start 0 hs) E"
    obtain hs where h: "get_head (E start) = hs" "txn_ok start 0 hs"
      "(\<forall>b. b \<notin> log_area start \<longrightarrow> ?A hs b = bc_disk s b) \<or> (\<forall>b. b \<notin> log_area start \<longrightarrow> ?A hs b = view s b)"
    proof (cases "bs = []")
      case True
      then show ?thesis using that [of "[]"] nil assms(5) by (simp add: E_def ws_def home_writes_def)
    next
      case False
      then have "E = apply_writes (take n (commit_writes (view s) start bs)) (bc_disk s)" by (simp add: E_def ws_def)
      from commit_prefix [OF assms(2) V assms(4,5) this] show ?thesis using that by blast
    qed
    let ?lg = "\<lparr>j_start = sb_logstart sb, j_outstanding = 0, j_blocks = []\<rparr>"
    obtain lg2 s2 where r: "recover_from_log pid2 ?lg (binit E) = Some (lg2, s2)" "\<And>b. b \<noteq> start \<Longrightarrow> bc_disk s2 b = ?A hs b" "j_blocks lg2 = []"
      by (rule recover_spec [of E start hs ?lg pid2]) (use h assms(8) in auto)
    then show ?thesis using h(3) st unfolding initlog_def E_def [symmetric] by (metis (no_types, lifting))
  qed
  then show ?thesis using c durable by blast
qed

definition blank_disk :: "u32 \<Rightarrow> string" where
  "blank_disk b = replicate BSIZE NUL"

text \<open>After boot, one block was read, modified, logged and released.\<close>

definition txn_sample :: bcache where
  "txn_sample = upd_buf 0 (\<lambda>_. \<lparr>b_valid = True, b_dev = ROOTDEV, b_blockno = 45, b_lock = initsleeplock, b_refcnt = 1, b_data = replicate BSIZE CHR ''x''\<rparr>) (binit blank_disk)"

lemma binv_sample: "binv 1 {} {45} txn_sample" and view_sample: "view txn_sample 45 = replicate BSIZE CHR ''x''"
proof -
  note I = binvD [OF binv_init [of 1 blank_disk]]
  have n0: "0 < NBUF" by (simp add: NBUF_def MAXOPBLOCKS_def)
  have b: "bf txn_sample j = (if j = 0 then \<lparr>b_valid = True, b_dev = ROOTDEV, b_blockno = 45, b_lock = initsleeplock, b_refcnt = 1, b_data = replicate BSIZE CHR ''x''\<rparr>
      else buf_boot)" if "j < NBUF" for j using I(1) n0 that by (simp add: txn_sample_def binit_def upd_buf_def)
  have c: "caches txn_sample j k \<longleftrightarrow> j = 0 \<and> k = 45" for j k using n0 by (cases "j = 0") (auto simp: caches_def b b_is_def buf_boot_def ROOTDEV_def)
  show inv: "binv 1 {} {45} txn_sample"
  proof (rule binvI)
    show "length (bc_buf txn_sample) = NBUF" "distinct (bc_lru txn_sample)" "set (bc_lru txn_sample) = {..<NBUF}" using I(1-4) by (simp_all add: txn_sample_def)
    show "\<exists>i. caches txn_sample i k \<and> b_valid (bf txn_sample i)" if "k \<in> {45}" for k using that n0 by (auto simp: c b)
    show "b_data (bf txn_sample i) = bc_disk txn_sample k" if "caches txn_sample i k" "b_refcnt (bf txn_sample i) = 0" for i k
      using that n0 by (simp add: c b)
  qed (simp_all add: c b initsleeplock_def buf_boot_def ROOTDEV_def)
  show "view txn_sample 45 = replicate BSIZE CHR ''x''" using view_hit [OF inv, of 0 45] c n0 by (simp add: b)
qed

theorem commit_crash_atomic_witness:
  "\<exists>s' ws. commit 1 \<lparr>j_start = 2, j_outstanding = 0, j_blocks = [45]\<rparr> txn_sample = Some (\<lparr>j_start = 2, j_outstanding = 0, j_blocks = []\<rparr>, s') \<and>
    bc_disk s' 45 = replicate BSIZE CHR ''x'' \<and>
    (\<forall>n. \<exists>lg2 s2. initlog 0 \<lparr>sb_magic = 0x10203040, sb_size = 2000, sb_nblocks = 1954, sb_ninodes = 200, sb_nlog = 31, sb_logstart = 2, sb_inodestart = 33, sb_bmapstart = 46\<rparr>
        (binit (apply_writes (take n ws) blank_disk)) = Some (lg2, s2) \<and> (bc_disk s2 45 = blank_disk 45 \<or> bc_disk s2 45 = replicate BSIZE CHR ''x''))"
proof -
  let ?lg = "\<lparr>j_start = 2, j_outstanding = 0, j_blocks = [45]\<rparr>"
  let ?sb = "\<lparr>sb_magic = 0x10203040, sb_size = 2000, sb_nblocks = 1954, sb_ninodes = 200, sb_nlog = 31, sb_logstart = 2, sb_inodestart = 33, sb_bmapstart = 46\<rparr>"
  have d: "bc_disk txn_sample = blank_disk" by (simp add: txn_sample_def binit_def)
  have area: "45 \<notin> log_area 2" by (simp add: log_area_def LOGBLOCKS_def MAXOPBLOCKS_def)
  have h0: "load32 (blank_disk 2) 0 = 0" by (simp add: blank_disk_def load32_def BSIZE_def get_le_def numeral_eq_Suc)
  have "\<exists>s' ws. commit 1 ?lg txn_sample = Some (?lg\<lparr>j_blocks := []\<rparr>, s') \<and> bc_writes s' = bc_writes txn_sample @ ws \<and>
    (\<forall>b. b \<notin> log_area 2 \<longrightarrow> bc_disk s' b = view txn_sample b) \<and>
    (\<forall>n. \<exists>lg2 s2. initlog 0 ?sb (binit (apply_writes (take n ws) (bc_disk txn_sample))) = Some (lg2, s2) \<and> j_blocks lg2 = [] \<and>
      ((\<forall>b. b \<notin> log_area 2 \<longrightarrow> bc_disk s2 b = bc_disk txn_sample b) \<or>
       (\<forall>b. b \<notin> log_area 2 \<longrightarrow> bc_disk s2 b = view txn_sample b)))"
    by (rule commit_crash_atomic [of 1 "[45]" txn_sample 2 ?lg ?sb 0])
      (use binv_sample area h0 in \<open>simp_all add: txn_ok_def LOGBLOCKS_def MAXOPBLOCKS_def NBUF_def d, simp_all add: blank_disk_def get_head_def\<close>)
  then obtain s' ws where "commit 1 ?lg txn_sample = Some (?lg\<lparr>j_blocks := []\<rparr>, s')" "bc_disk s' 45 = view txn_sample 45"
    "\<And>n. \<exists>lg2 s2. initlog 0 ?sb (binit (apply_writes (take n ws) blank_disk)) = Some (lg2, s2) \<and>
       (bc_disk s2 45 = blank_disk 45 \<or> bc_disk s2 45 = view txn_sample 45)"
    using area unfolding d by metis
  then show ?thesis unfolding view_sample by (intro exI [of _ s'] exI [of _ ws] conjI allI) simp_all
qed

end
