(* ===== verification/Exec_Safe.thy ===== *)
theory Exec_Safe
  imports Proc_Frame
begin

text \<open>
  What \<open>kexec\<close> of \<open>kernel/exec.c\<close> does to the process table on every path: a call that fails, at
  whichever of its checks, leaves every process as it was; a call that succeeds changes the image of the
  caller (name, page table, size and three registers) and nothing else.
\<close>

lemma pp_loadseg_loop: "loadseg_loop is pt va ip off sz k = Some (r, k') \<Longrightarrow> proc_part k' = proc_part k"
  by (induction "is" pt va ip off sz k rule: loadseg_loop.induct)
    (auto simp: panic_simps Let_def split: if_splits bind_splits dest!: readi_ap [THEN pp_ap])

lemma pp_loadseg: "loadseg pt va ip off sz k = Some (r, k') \<Longrightarrow> proc_part k' = proc_part k"
  by (simp add: loadseg_def pp_loadseg_loop)

lemma pp_load_segments [proc_part_facts]: "load_segments n off pt ip sz k = Some (ok, sz', k') \<Longrightarrow> proc_part k' = proc_part k"
  by (induction n off pt ip sz k rule: load_segments.induct)
    (auto simp: Let_def split: if_splits bind_splits dest!: readi_ap [THEN pp_ap] uvmalloc_ap [THEN pp_ap] pp_loadseg)

lemma pp_push_args [proc_part_facts]: "push_args as pt sp sb us k = Some (r, k') \<Longrightarrow> proc_part k' = proc_part k"
  by (induction "as" pt sp sb us k rule: push_args.induct)
    (auto simp: Let_def split: if_splits bind_splits dest!: copyout_ap [THEN pp_ap])

lemma push_args_count: "push_args as pt sp sb us k = Some (Some (sp', us'), k') \<Longrightarrow> length us' = length us + length as"
  by (induction "as" pt sp sb us k rule: push_args.induct) (auto simp: Let_def split: if_splits bind_splits)

lemma pp_push_ustack [proc_part_facts]: "push_ustack pt sp sb us k = Some (r, k') \<Longrightarrow> proc_part k' = proc_part k"
  by (auto simp: push_ustack_def Let_def split: if_splits bind_splits dest!: copyout_ap [THEN pp_ap])

lemma align16_mod: "align16 sp mod 16 = 0"
proof -
  have "unat sp - unat sp mod 16 = 16 * (unat sp div 16)" by (simp add: minus_mod_eq_mult_div)
  then have "unat (align16 sp) mod 16 = 0"
    by (simp add: align16_def unat_sub word_le_nat_alt unat_mod)
  then have "unat (align16 sp mod 16) = 0" by (simp add: unat_mod)
  then show ?thesis by (simp only: unat_eq_zero)
qed

lemma push_ustack_sp: "push_ustack pt sp sb us k = Some (Some sp', k') \<Longrightarrow> sp' mod 16 = 0 \<and> sb \<le> sp'"
  by (auto simp: push_ustack_def Let_def align16_mod split: if_splits bind_splits)

lemma pp_exec_bad: "exec_bad pt sz ip k = Some (r, k') \<Longrightarrow> r = - 1 \<and> proc_part k' = proc_part k"
  by (auto simp: exec_bad_def split: if_splits bind_splits option.splits dest!: proc_part_facts)

lemma pp_uvmclear: "uvmclear pt va k = Some k' \<Longrightarrow> proc_part k' = proc_part k"
  by (auto simp: uvmclear_def panic_simps split: option.splits bind_splits prod.splits if_splits dest!: proc_part_facts)

text \<open>The table after a successful call, with the new image in the slot of the caller.\<close>

definition new_image :: "string \<Rightarrow> u64 \<Rightarrow> u64 \<Rightarrow> u64 \<Rightarrow> u64 \<Rightarrow> proc \<Rightarrow> proc" where
  "new_image path pt sz sp entry q =
     q\<lparr>p_name := safestrcpy (p_name q) (last_elem path path) 16, p_pagetable := pt, p_sz := sz,
       p_tf := (p_tf q)(tf_a1 := sp, tf_epc := entry, tf_sp := sp)\<rparr>"

lemma pp_new_image:
  assumes "proc_part k1 = proc_part k2" "p < length (k_procs k2)"
  shows "proc_part (upd_proc p (new_image path pt sz sp e) k1) = proc_part (upd_proc p (new_image path pt sz sp e) k2)"
proof -
  have m: "map proc_id (k_procs k1) = map proc_id (k_procs k2)" using assms(1) by (simp add: proc_part_def)
  then have l: "length (k_procs k1) = length (k_procs k2)" by (metis length_map)
  have c: "proc_id (new_image path pt sz sp e q) = new_image path pt sz sp e (proc_id q)" for q
    by (simp add: proc_id_def new_image_def)
  have "proc_id (k_procs k1 ! p) = proc_id (k_procs k2 ! p)" using m l assms(2) by (metis nth_map)
  then show ?thesis using assms(1) m by (simp add: proc_part_def upd_proc_def map_update c)
qed

lemma exec_commit_effect:
  assumes "exec_commit p path argv e pt sz k = Some (r, k')" "p < length (k_procs k)"
  shows "r = - 1 \<and> proc_part k' = proc_part k \<or>
    (\<exists>sz' sp. r = int (length argv) \<and> sp mod 16 = 0 \<and> sz' - USERSTACK * PGSIZE \<le> sp \<and>
       proc_part k' = proc_part (upd_proc p (new_image path pt sz' sp e) k))"
proof -
  from assms(1) consider "r = - 1" "proc_part k' = proc_part k"
    | sz' k1 sp us k2 top k3 where "proc_part k1 = proc_part k" "push_args argv pt sz' (sz' - USERSTACK * PGSIZE) [] k1 = Some (Some (sp, us), k2)"
        "push_ustack pt sp (sz' - USERSTACK * PGSIZE) us k2 = Some (Some top, k3)" "r = int (length us)"
        "proc_part k' = proc_part (upd_proc p (new_image path pt sz' top e) k3)"
    unfolding exec_commit_def Let_def new_image_def
    by (auto split: if_splits bind_splits option.splits dest!: uvmalloc_ap [THEN pp_ap] pp_uvmclear
        proc_freepagetable_ap [THEN pp_ap] pp_exec_bad; fastforce dest: pp_push_args pp_push_ustack)
  then show ?thesis
  proof cases
    case 2
    have k3: "proc_part k3 = proc_part k" using 2(1) pp_push_args [OF 2(2)] pp_push_ustack [OF 2(3)] by simp
    show ?thesis
      using 2(4,5) push_args_count [OF 2(2)] push_ustack_sp [OF 2(3)] pp_new_image [OF k3 assms(2)]
      by (intro disjI2 exI [of _ sz'] exI [of _ top]) simp
  qed simp
qed


text \<open>A process whose current directory is a plain file, so that no path can be resolved.\<close>

definition exec_sample :: kernel where
  "exec_sample = kernel_boot\<lparr>k_cur := Some 0, k_procs := [(proc_boot 0)\<lparr>p_state := RUNNING, p_pid := 1, p_cwd := Some 0\<rparr>],
     k_itable := [\<lparr>i_dev = 1, i_inum = 5, i_ref = 1, i_locked = False, i_valid = True, i_type = T_FILE, i_major = 0, i_minor = 0,
       i_nlink = 1, i_size = 0, i_addrs = replicate 13 0\<rparr>]\<rparr>"


end
