(* ===== verification/User.thy ===== *)
theory User
  imports Printf Bytes
begin

text \<open>
  User programs and their library: system calls as seen by a program, and the buffered output of
  \<open>user/printf.c\<close>.

  A process runs against a kernel \<open>K\<close>, an arbitrary function from the calls made so far and the
  next call to a reply: the return value, and the bytes the kernel stores into the caller's buffer.
  \<open>u_calls\<close> records the calls of the process with their replies.
\<close>

section \<open>System calls\<close>

datatype ucall =
    U_fork
  | U_exit int
  | U_wait
  | U_pipe
  | U_write int string
  | U_read int nat
  | U_close int
  | U_kill int
  | U_exec string "string list"
  | U_open string u32
  | U_mknod string int int
  | U_unlink string
  | U_fstat int
  | U_link string string
  | U_mkdir string
  | U_chdir string
  | U_dup int
  | U_getpid
  | U_sbrk int int
  | U_pause int
  | U_uptime
  | U_setpriority int int
  | U_getpriority int
  | U_jail string
  | U_agent_recv
  | U_set_deny int string
  | U_get_deny nat
  | U_procinfo nat
  | U_set_cache string string
  | U_get_cache string nat
  | U_dispatch string

type_synonym ureply = "int \<times> string"
type_synonym kern = "(ucall \<times> ureply) list \<Rightarrow> ucall \<Rightarrow> ureply"

text \<open>\<open>u_pbuf\<close> holds \<open>pbuf[0..pbuf_len)\<close>, \<open>u_pfd\<close> is \<open>pbuf_fd\<close>.\<close>

record user =
  u_calls :: "(ucall \<times> ureply) list"
  u_pbuf :: string
  u_pfd :: int

definition sys :: "kern \<Rightarrow> ucall \<Rightarrow> 'a user_scheme \<Rightarrow> int \<times> string \<times> 'a user_scheme" where
  "sys K c u = (let (r, bs) = K (u_calls u) c in (r, bs, u\<lparr>u_calls := u_calls u @ [(c, r, bs)]\<rparr>))"

text \<open>A call whose reply the program ignores.\<close>

definition sys_void :: "kern \<Rightarrow> ucall \<Rightarrow> 'a user_scheme \<Rightarrow> 'a user_scheme" where
  "sys_void K c u = snd (snd (sys K c u))"

section \<open>Buffered output\<close>

definition PRINTF_BUFSZ :: nat where "PRINTF_BUFSZ = 256"

definition pflush :: "kern \<Rightarrow> 'a user_scheme \<Rightarrow> 'a user_scheme" where
  "pflush K u =
     (if u_pbuf u \<noteq> [] \<and> u_pfd u \<ge> 0
      then (sys_void K (U_write (u_pfd u) (u_pbuf u)) u)\<lparr>u_pbuf := []\<rparr>
      else u)"

definition putc :: "kern \<Rightarrow> int \<Rightarrow> char \<Rightarrow> 'a user_scheme \<Rightarrow> 'a user_scheme" where
  "putc K fd c u =
     (let u = (if fd \<noteq> u_pfd u \<or> length (u_pbuf u) \<ge> PRINTF_BUFSZ then (pflush K u)\<lparr>u_pfd := fd\<rparr> else u);
          u = u\<lparr>u_pbuf := u_pbuf u @ [c]\<rparr>
      in if c = CHR 0x0A then pflush K u else u)"

section \<open>Formatting\<close>

text \<open>The conversions print a sequence of characters with \<open>putc\<close>; the functions below give that sequence.\<close>

definition udigit :: "nat \<Rightarrow> char" where
  "udigit d = ''0123456789ABCDEF'' ! d"

function udigits_rev :: "nat \<Rightarrow> nat \<Rightarrow> string" where
  "udigits_rev base x =
     udigit (x mod base) # (if x div base \<noteq> 0 \<and> 2 \<le> base then udigits_rev base (x div base) else [])"
  by pat_completeness auto
termination
  by (relation "measure snd") (auto intro!: div_less_dividend simp: div_eq_0_iff)

declare udigits_rev.simps [simp del]

definition uprintint :: "int \<Rightarrow> nat \<Rightarrow> bool \<Rightarrow> string" where
  "uprintint xx base sign =
     (let neg = (sign \<and> xx < 0);
          x = (if neg then nat (- xx) else nat (xx mod 2 ^ 64));
          buf = udigits_rev base x @ (if neg then ''-'' else [])
      in rev buf)"

fun uprintptr_loop :: "nat \<Rightarrow> u64 \<Rightarrow> string" where
  "uprintptr_loop 0 x = []"
| "uprintptr_loop (Suc n) x = udigit (unat (drop_bit 60 x)) # uprintptr_loop n (push_bit 4 x)"

definition uprintptr :: "u64 \<Rightarrow> string" where
  "uprintptr x = ''0x'' @ uprintptr_loop 16 x"

text \<open>The conversion after a \<open>%\<close>: what it prints, how many characters of the format it takes, the remaining arguments.\<close>

definition vprintf_conv :: "string \<Rightarrow> va list \<Rightarrow> string \<times> nat \<times> va list" where
  "vprintf_conv f ap =
     (let c0 = deref f;
          c1 = (if c0 \<noteq> NUL then deref (tl f) else NUL);
          c2 = (if c1 \<noteq> NUL then deref (drop 2 f) else NUL);
          i = va_int (va_hd ap); w = va_u64 (va_hd ap)
      in if c0 = CHR ''d'' then (uprintint i 10 True, 1, tl ap)
         else if c0 = CHR ''l'' \<and> c1 = CHR ''d'' then (uprintint (sint w) 10 True, 2, tl ap)
         else if c0 = CHR ''l'' \<and> c1 = CHR ''l'' \<and> c2 = CHR ''d'' then (uprintint (sint w) 10 True, 3, tl ap)
         else if c0 = CHR ''u'' then (uprintint (i mod 2 ^ 32) 10 False, 1, tl ap)
         else if c0 = CHR ''l'' \<and> c1 = CHR ''u'' then (uprintint (sint w) 10 False, 2, tl ap)
         else if c0 = CHR ''l'' \<and> c1 = CHR ''l'' \<and> c2 = CHR ''u'' then (uprintint (sint w) 10 False, 3, tl ap)
         else if c0 = CHR ''x'' then (uprintint (i mod 2 ^ 32) 16 False, 1, tl ap)
         else if c0 = CHR ''l'' \<and> c1 = CHR ''x'' then (uprintint (sint w) 16 False, 2, tl ap)
         else if c0 = CHR ''l'' \<and> c1 = CHR ''l'' \<and> c2 = CHR ''x'' then (uprintint (sint w) 16 False, 3, tl ap)
         else if c0 = CHR ''p'' then (uprintptr w, 1, tl ap)
         else if c0 = CHR ''c'' then ([char_of (unat w mod 256)], 1, tl ap)
         else if c0 = CHR ''s'' then (va_str (va_hd ap), 1, tl ap)
         else if c0 = CHR ''%'' then (''%'', 1, ap)
         else ([CHR ''%'', c0], 1, ap))"

fun vprintf_out :: "string \<Rightarrow> va list \<Rightarrow> string" where
  "vprintf_out [] ap = []"
| "vprintf_out (c # f) ap =
     (if c = NUL then []
      else if c \<noteq> CHR ''%'' then c # vprintf_out f ap
      else if deref f = NUL then []
      else case vprintf_conv f ap of (s, n, ap') \<Rightarrow> s @ vprintf_out (drop n f) ap')"

definition vprintf :: "kern \<Rightarrow> int \<Rightarrow> string \<Rightarrow> va list \<Rightarrow> 'a user_scheme \<Rightarrow> 'a user_scheme" where
  "vprintf K fd fmt ap u = pflush K (fold (putc K fd) (vprintf_out fmt ap) u)"

definition fprintf :: "kern \<Rightarrow> int \<Rightarrow> string \<Rightarrow> va list \<Rightarrow> 'a user_scheme \<Rightarrow> 'a user_scheme" where
  "fprintf K fd fmt ap u = vprintf K fd fmt ap u"

definition uprintf :: "kern \<Rightarrow> string \<Rightarrow> va list \<Rightarrow> 'a user_scheme \<Rightarrow> 'a user_scheme" where
  "uprintf K fmt ap u = vprintf K 1 fmt ap u"

section \<open>Reading a file\<close>

text \<open>
  What \<open>read\<close> promises on a file with contents \<open>F\<close>: it delivers the bytes that follow those delivered before,
  at most as many as asked for, and none only at the end of the file.
\<close>

definition bytes_read :: "int \<Rightarrow> (ucall \<times> ureply) list \<Rightarrow> nat" where
  "bytes_read fd h = sum_list (map (\<lambda>(c, r, bs). case c of U_read f n \<Rightarrow> if f = fd then length bs else 0 | _ \<Rightarrow> 0) h)"

definition delivers :: "kern \<Rightarrow> int \<Rightarrow> string \<Rightarrow> bool" where
  "delivers K fd F \<longleftrightarrow> (\<forall>h n r bs. 0 < n \<longrightarrow> K h (U_read fd n) = (r, bs) \<longrightarrow>
     r = int (length bs) \<and> length bs \<le> n \<and> bs = take (length bs) (drop (bytes_read fd h) F) \<and>
     (bs = [] \<longrightarrow> length F \<le> bytes_read fd h))"

text \<open>A kernel with one file, which reads return in full.\<close>

definition file_kern :: "string \<Rightarrow> kern" where
  "file_kern F h c =
     (case c of U_read f n \<Rightarrow> (let bs = take n (drop (bytes_read f h) F) in (int (length bs), bs)) | _ \<Rightarrow> (3, []))"

lemma file_kern_delivers: "delivers (file_kern F) fd F"
proof -
  have "take n xs = take (min (length xs) n) xs" for n and xs :: string by (simp add: min_def)
  from this [of _ "drop _ F"] show ?thesis by (auto simp: delivers_def file_kern_def Let_def)
qed

section \<open>What is written\<close>

definition calls_of :: "'a user_scheme \<Rightarrow> ucall list" where
  "calls_of u = map fst (u_calls u)"

lemma calls_sys_void [simp]: "calls_of (sys_void K c u) = calls_of u @ [c]"
  by (simp add: sys_void_def sys_def calls_of_def split: prod.splits)

lemma sys_frame [simp]:
  "u_pbuf (sys_void K c u) = u_pbuf u" "u_pfd (sys_void K c u) = u_pfd u" "user.more (sys_void K c u) = user.more u"
  by (simp_all add: sys_void_def sys_def split: prod.splits)

lemma calls_of_upd [simp]:
  "calls_of (u\<lparr>u_pbuf := b\<rparr>) = calls_of u" "calls_of (u\<lparr>u_pfd := fd\<rparr>) = calls_of u"
  by (simp_all add: calls_of_def)

lemma sys_calls: "sys K c u = (r, bs, u') \<Longrightarrow> calls_of u' = calls_of u @ [c] \<and> u_pbuf u' = u_pbuf u \<and> u_pfd u' = u_pfd u \<and>
    user.more u' = user.more u"
  by (auto simp: sys_def calls_of_def split: prod.splits)

text \<open>
  The writes of one call: \<open>ws\<close> the chunks written so far, \<open>b\<close> the buffer.  A chunk ends with the
  first newline in it, or is full.
\<close>

definition chunk_ok :: "string \<Rightarrow> bool" where
  "chunk_ok w \<longleftrightarrow> w \<noteq> [] \<and> length w \<le> PRINTF_BUFSZ \<and> CHR 0x0A \<notin> set (butlast w)"

definition out_state :: "int \<Rightarrow> 'a user_scheme \<Rightarrow> string \<Rightarrow> 'a user_scheme \<Rightarrow> bool" where
  "out_state fd u0 s u \<longleftrightarrow> u_pfd u = fd \<and> user.more u = user.more u0 \<and> length (u_pbuf u) \<le> PRINTF_BUFSZ \<and> CHR 0x0A \<notin> set (u_pbuf u) \<and>
     (\<exists>ws. calls_of u = calls_of u0 @ map (U_write fd) ws \<and> concat ws @ u_pbuf u = s \<and>
       (\<forall>w \<in> set ws. chunk_ok w \<and> (last w = CHR 0x0A \<or> length w = PRINTF_BUFSZ)))"

lemma pflush_frame: "u_pfd (pflush K u) = u_pfd u" "user.more (pflush K u) = user.more u"
  "0 \<le> u_pfd u \<Longrightarrow> u_pbuf (pflush K u) = []"
  "0 \<le> u_pfd u \<Longrightarrow> calls_of (pflush K u) = calls_of u @ (if u_pbuf u = [] then [] else [U_write (u_pfd u) (u_pbuf u)])"
  by (simp_all add: pflush_def)

text \<open>Writing the buffer out early, because it is full or a newline has been stored.\<close>

lemma out_flush:
  assumes "0 \<le> fd" "u_pfd u = fd" "user.more u = user.more u0" "length (u_pbuf u) \<le> PRINTF_BUFSZ"
    and "CHR 0x0A \<notin> set (butlast (u_pbuf u))" "u_pbuf u \<noteq> []" "last (u_pbuf u) = CHR 0x0A \<or> length (u_pbuf u) = PRINTF_BUFSZ"
    and "calls_of u = calls_of u0 @ map (U_write fd) ws" "concat ws @ u_pbuf u = s"
    and "\<forall>w \<in> set ws. chunk_ok w \<and> (last w = CHR 0x0A \<or> length w = PRINTF_BUFSZ)"
  shows "out_state fd u0 s (pflush K u)"
  unfolding out_state_def
  by (intro conjI exI [of _ "ws @ [u_pbuf u]"]) (use assms in \<open>auto simp: pflush_frame chunk_ok_def\<close>)

lemma putc_out:
  assumes "0 \<le> fd" "out_state fd u0 s u"
  shows "out_state fd u0 (s @ [c]) (putc K fd c u)"
proof -
  define u1 where "u1 = (if length (u_pbuf u) \<ge> PRINTF_BUFSZ then pflush K u else u)"
  obtain ws where w: "u_pfd u = fd" "user.more u = user.more u0" "length (u_pbuf u) \<le> PRINTF_BUFSZ" "CHR 0x0A \<notin> set (u_pbuf u)"
    "calls_of u = calls_of u0 @ map (U_write fd) ws" "concat ws @ u_pbuf u = s"
    "\<forall>w \<in> set ws. chunk_ok w \<and> (last w = CHR 0x0A \<or> length w = PRINTF_BUFSZ)"
    using assms(2) by (auto simp: out_state_def)
  have s1: "out_state fd u0 s u1"
  proof (cases "length (u_pbuf u) \<ge> PRINTF_BUFSZ")
    case True
    then have "length (u_pbuf u) = PRINTF_BUFSZ" "u_pbuf u \<noteq> []" using w(3) by (auto simp: PRINTF_BUFSZ_def)
    then have "out_state fd u0 s (pflush K u)"
      by (intro out_flush [of fd u u0 ws]) (use assms(1) w in \<open>auto dest: in_set_butlastD\<close>)
    then show ?thesis using True by (simp add: u1_def)
  qed (use assms(2) in \<open>simp add: u1_def\<close>)
  have l1: "length (u_pbuf u1) < PRINTF_BUFSZ"
    using assms(1) w(1,3) pflush_frame(3) [of u K] by (auto simp: u1_def PRINTF_BUFSZ_def)
  define u2 where "u2 = u1\<lparr>u_pbuf := u_pbuf u1 @ [c]\<rparr>"
  obtain vs where v: "u_pfd u1 = fd" "user.more u1 = user.more u0" "CHR 0x0A \<notin> set (u_pbuf u1)"
    "calls_of u1 = calls_of u0 @ map (U_write fd) vs" "concat vs @ u_pbuf u1 = s"
    "\<forall>w \<in> set vs. chunk_ok w \<and> (last w = CHR 0x0A \<or> length w = PRINTF_BUFSZ)"
    using s1 by (auto simp: out_state_def)
  have "(pflush K u)\<lparr>u_pfd := fd\<rparr> = pflush K u" using w(1) pflush_frame(1) [of K u] by simp
  then have p: "putc K fd c u = (if c = CHR 0x0A then pflush K u2 else u2)"
    using w(1) by (simp add: putc_def u2_def u1_def Let_def)
  show ?thesis
  proof (cases "c = CHR 0x0A")
    case True
    have "out_state fd u0 (s @ [c]) (pflush K u2)"
      by (rule out_flush [of fd u2 u0 vs]) (use v l1 assms(1) True in \<open>auto simp: u2_def\<close>)
    then show ?thesis using True p by simp
  next
    case False
    then show ?thesis using v l1 p by (auto simp: out_state_def u2_def)
  qed
qed

lemma putcs_out:
  assumes "0 \<le> fd" "out_state fd u0 s u"
  shows "out_state fd u0 (s @ t) (fold (putc K fd) t u)"
  using assms(2)
proof (induction t arbitrary: s u)
  case (Cons c t)
  from Cons.IH [OF putc_out [OF assms(1) Cons.prems, of c K]] show ?case by simp
qed simp

lemma vprintf_out_state:
  assumes "0 \<le> fd" "u_pbuf u = []"
  shows "\<exists>ws. calls_of (vprintf K fd fmt ap u) = calls_of u @ map (U_write fd) ws \<and> concat ws = vprintf_out fmt ap \<and>
    (\<forall>w \<in> set ws. w \<noteq> [] \<and> length w \<le> PRINTF_BUFSZ \<and> CHR 0x0A \<notin> set (butlast w)) \<and>
    (\<forall>w \<in> set (butlast ws). last w = CHR 0x0A \<or> length w = PRINTF_BUFSZ) \<and>
    u_pbuf (vprintf K fd fmt ap u) = [] \<and> user.more (vprintf K fd fmt ap u) = user.more u"
proof (cases "vprintf_out fmt ap")
  case Nil
  then have "vprintf K fd fmt ap u = u" using assms(2) by (simp add: vprintf_def pflush_def)
  then show ?thesis using Nil assms(2) by (intro exI [of _ "[]"]) simp
next
  case (Cons c t)
  let ?u = "u\<lparr>u_pfd := fd\<rparr>"
  define u1 where "u1 = fold (putc K fd) (c # t) u"
  have "putc K fd c u = putc K fd c ?u" using assms(2) by (simp add: putc_def pflush_def PRINTF_BUFSZ_def)
  then have u1: "u1 = fold (putc K fd) (c # t) ?u" by (simp add: u1_def)
  have "out_state fd ?u [] ?u" using assms(2) by (simp add: out_state_def)
  then have "out_state fd ?u (c # t) u1" using putcs_out [OF assms(1), of ?u "[]" ?u "c # t" K] u1 by simp
  then obtain ws where w: "u_pfd u1 = fd" "user.more u1 = user.more ?u" "length (u_pbuf u1) \<le> PRINTF_BUFSZ" "CHR 0x0A \<notin> set (u_pbuf u1)"
    "calls_of u1 = calls_of ?u @ map (U_write fd) ws" "concat ws @ u_pbuf u1 = c # t"
    "\<forall>w \<in> set ws. chunk_ok w \<and> (last w = CHR 0x0A \<or> length w = PRINTF_BUFSZ)"
    by (auto simp: out_state_def)
  have v: "vprintf K fd fmt ap u = pflush K u1" using Cons by (simp add: vprintf_def u1_def)
  note f = pflush_frame(1,2) [of K u1] pflush_frame(3,4) [of u1 K]
  have chunks: "\<forall>w \<in> set ws. w \<noteq> [] \<and> length w \<le> PRINTF_BUFSZ \<and> CHR 0x0A \<notin> set (butlast w)"
    "\<forall>w \<in> set ws. last w = CHR 0x0A \<or> length w = PRINTF_BUFSZ"
    using w(7) by (simp_all add: chunk_ok_def)
  show ?thesis
  proof (cases "u_pbuf u1 = []")
    case True
    have "\<forall>w \<in> set (butlast ws). last w = CHR 0x0A \<or> length w = PRINTF_BUFSZ" using chunks(2) by (meson in_set_butlastD)
    then show ?thesis unfolding v Cons using True w(1,2,5,6) f assms(1) chunks(1) by (intro exI [of _ ws]) simp
  next
    case False
    have "CHR 0x0A \<notin> set (butlast (u_pbuf u1))" using w(4) by (meson in_set_butlastD)
    then show ?thesis unfolding v Cons using False w(1-3,5,6) f assms(1) chunks by (intro exI [of _ "ws @ [u_pbuf u1]"]) simp
  qed
qed

text \<open>
  C40: user output.  With an empty buffer, \<open>vprintf\<close> to an open descriptor makes only \<open>write\<close> calls to that
  descriptor; the chunks it writes are together exactly the formatted text, none is empty or longer
  than the 256-byte buffer, a newline occurs only at the end of a chunk, and every chunk but the
  last ends with a newline or fills the buffer, so a line that fits the buffer goes out in one \<open>write\<close>.  The buffer
  is empty again afterwards.
\<close>

theorem vprintf_writes_text:
  assumes "0 \<le> fd" "u_pbuf u = []"
  shows "\<exists>ws. calls_of (vprintf K fd fmt ap u) = calls_of u @ map (U_write fd) ws \<and> concat ws = vprintf_out fmt ap \<and>
    (\<forall>w \<in> set ws. w \<noteq> [] \<and> length w \<le> PRINTF_BUFSZ \<and> CHR 0x0A \<notin> set (butlast w)) \<and>
    (\<forall>w \<in> set (butlast ws). last w = CHR 0x0A \<or> length w = PRINTF_BUFSZ) \<and>
    u_pbuf (vprintf K fd fmt ap u) = [] \<and> user.more (vprintf K fd fmt ap u) = user.more u"
  using vprintf_out_state [OF assms] .

theorem vprintf_writes_text_witness:
  "\<exists>ws. calls_of (vprintf (\<lambda>_ _. (0, [])) 1 ''pid=%d'' [VInt 42] \<lparr>u_calls = [], u_pbuf = [], u_pfd = - 1\<rparr>) = map (U_write 1) ws \<and>
     concat ws = ''pid=42''"
proof -
  have "vprintf_out ''pid=%d'' [VInt 42] = ''pid=42''"
    by (simp add: vprintf_conv_def va_hd_def uprintint_def udigits_rev.simps udigit_def)
  then show ?thesis
    using vprintf_writes_text [of 1 "\<lparr>u_calls = [], u_pbuf = [], u_pfd = - 1\<rparr>" "\<lambda>_ _. (0, [])" "''pid=%d''" "[VInt 42]"]
    by (auto simp: calls_of_def)
qed

end
