(* ===== verification/Agentd.thy ===== *)
theory Agentd
  imports User Sysfile
begin

text \<open>
  The agent runtime, \<open>user/agentd.c\<close>: the jailed process that receives the lines the kernel
  forwards and executes them.  Its state is the process with the function table; the kernel is
  the parameter \<open>K\<close> of theory \<open>User\<close>.  A function that may not come back returns an option (\<open>None\<close>: it
  never returns), and a Boolean where the process may end: \<open>False\<close> means that it has exited or its image was replaced.
\<close>

section \<open>The function table\<close>

record fn =
  fn_name :: string
  fn_allowed :: bool
  fn_priority :: int
  fn_usage :: string

record agentd = user +
  ag_table :: "fn list"

definition mk_fn :: "string \<Rightarrow> int \<Rightarrow> string \<Rightarrow> fn" where
  "mk_fn n p us = \<lparr>fn_name = n, fn_allowed = True, fn_priority = p, fn_usage = us\<rparr>"

definition table_init :: "fn list" where
  "table_init =
     [mk_fn ''PRINT'' 10 ''PRINT|<msg>'',
      mk_fn ''CHAT'' 10 ''CHAT|<msg>'',
      mk_fn ''READ'' 8 ''READ|<file>'',
      mk_fn ''WRITE'' 12 ''WRITE|<file>:<text>'',
      mk_fn ''LS'' 8 ''LS|'',
      mk_fn ''NICE'' 5 ''NICE|<pid>:<prio 0..20>'',
      mk_fn ''LIST'' 0 ''LIST|'',
      mk_fn ''SETPRIO'' 5 ''SETPRIO|<FN>:<prio 0..20>'',
      mk_fn ''PS'' 8 ''PS|'',
      mk_fn ''HELP'' 0 ''HELP|'',
      mk_fn ''SPAWN'' 10 ''SPAWN|<bin>|<argv space-separated>'']"

abbreviation NL :: string where "NL \<equiv> [CHR 0x0A]"
abbreviation QT :: string where "QT \<equiv> [CHR 0x27]"

section \<open>String helpers\<close>

fun streq :: "string \<Rightarrow> string \<Rightarrow> bool" where
  "streq [] b = (deref b = NUL)"
| "streq (x # a) b =
     (if x \<noteq> NUL \<and> deref b \<noteq> NUL then (if x \<noteq> deref b then False else streq a (tl b))
      else x = deref b)"

text \<open>The digit loop of \<open>parsei\<close>: the value, whether there was a digit, and the rest.\<close>

fun parsei_loop :: "string \<Rightarrow> int \<Rightarrow> bool \<Rightarrow> int \<times> bool \<times> string" where
  "parsei_loop [] v some = (v, some, [])"
| "parsei_loop (c # s) v some =
     (if 48 \<le> byte_of c \<and> byte_of c \<le> 57 then parsei_loop s (wrap32 (v * 10 + (byte_of c - 48))) True
      else (v, some, c # s))"

definition parsei :: "string \<Rightarrow> int option" where
  "parsei s =
     (let neg = (deref s = CHR ''-'');
          (v, some, rest) = parsei_loop (if neg then tl s else s) 0 False
      in if \<not> some \<or> deref rest \<noteq> NUL then None else Some (if neg then wrap32 (- v) else v))"

fun unescape_inplace :: "string \<Rightarrow> string" where
  "unescape_inplace [] = []"
| "unescape_inplace (c # s) =
     (if c = NUL then []
      else if c = CHR 0x5C \<and> deref s = CHR ''n'' then CHR 0x0A # unescape_inplace (tl s)
      else c # unescape_inplace s)"

text \<open>\<open>while(*c && *c != ch) c++\<close>, and the string that ends there once a NUL is stored.\<close>

fun scan_to :: "char \<Rightarrow> string \<Rightarrow> string" where
  "scan_to ch [] = []"
| "scan_to ch (c # s) = (if c = NUL \<or> c = ch then c # s else scan_to ch s)"

lemma scan_to_shorter: "deref s \<noteq> NUL \<Longrightarrow> length (if deref (scan_to ch s) = ch then tl (scan_to ch s) else scan_to ch s) < length s"
proof (cases s)
  case (Cons c t)
  have le: "length (scan_to ch r) \<le> length r" for r by (induction r) auto
  assume "deref s \<noteq> NUL"
  then show ?thesis using Cons le [of t] by (auto simp: deref_def split: list.splits)
qed (simp add: deref_def)

lemma scan_to_deref: "deref (scan_to ch s) = ch \<or> deref (scan_to ch s) = NUL"
  by (induction s) (auto simp: deref_def)

definition before :: "string \<Rightarrow> string \<Rightarrow> string" where
  "before s rest = take (length s - length rest) s"

section \<open>Command handlers\<close>

definition do_print :: "kern \<Rightarrow> string \<Rightarrow> agentd \<Rightarrow> agentd" where
  "do_print K arg u = uprintf K (''[agentd] %s'' @ NL) [VStr (Some (unescape_inplace arg))] u"

definition do_chat :: "kern \<Rightarrow> string \<Rightarrow> agentd \<Rightarrow> agentd" where
  "do_chat K arg u = uprintf K (''[chat] %s'' @ NL) [VStr (Some (unescape_inplace arg))] u"

partial_function (option) read_loop :: "kern \<Rightarrow> int \<Rightarrow> agentd \<Rightarrow> agentd option" where
  "read_loop K fd u =
     (let (n, buf, u) = sys K (U_read fd 128) u
      in if n > 0 then read_loop K fd (sys_void K (U_write 1 (take (nat n) buf)) u) else Some u)"

definition do_read :: "kern \<Rightarrow> string \<Rightarrow> agentd \<Rightarrow> agentd option" where
  "do_read K arg u =
     (let (fd, _, u) = sys K (U_open (cstr arg) O_RDONLY) u
      in if fd < 0 then Some (uprintf K (''[agentd] READ: '' @ QT @ ''%s'' @ QT @ '' not reachable inside jail'' @ NL) [VStr (Some arg)] u)
         else do {
           u \<leftarrow> read_loop K fd (uprintf K (''[agentd] READ %s:'' @ NL) [VStr (Some arg)] u);
           Some (sys_void K (U_close fd) u) })"

definition do_write :: "kern \<Rightarrow> string \<Rightarrow> agentd \<Rightarrow> agentd" where
  "do_write K arg u =
     (let c = scan_to CHR '':'' arg
      in if deref c \<noteq> CHR '':'' then uprintf K (''[agentd] WRITE: expected <file>:<data>'' @ NL) [] u
         else
           let name = before arg c;
               data = unescape_inplace (tl c);
               (fd, _, u) = sys K (U_open name (or (or O_CREATE O_TRUNC) O_RDWR)) u
           in if fd < 0 then uprintf K (''[agentd] WRITE: '' @ QT @ ''%s'' @ QT @ '' not writable inside jail'' @ NL) [VStr (Some name)] u
              else
                let len = int (strlen data);
                    (wn, _, u) = sys K (U_write fd (cstr data)) u;
                    u = sys_void K (U_close fd) u
                in if wn \<noteq> len
                   then uprintf K (''[agentd] WRITE: short/failed write to %s (%d/%d bytes)'' @ NL) [VStr (Some name), VInt wn, VInt len] u
                   else uprintf K (''[agentd] WROTE %d bytes to %s'' @ NL) [VInt wn, VStr (Some name)] u)"

text \<open>\<open>stat\<close> of \<open>user/ulib.c\<close>; the size is the last field of the 24 bytes of a \<open>struct stat\<close>.\<close>

definition ustat :: "kern \<Rightarrow> string \<Rightarrow> 'a user_scheme \<Rightarrow> int \<times> string \<times> 'a user_scheme" where
  "ustat K n u =
     (let (fd, _, u) = sys K (U_open n O_RDONLY) u
      in if fd < 0 then (- 1, [], u)
         else let (r, st, u) = sys K (U_fstat fd) u in (r, st, sys_void K (U_close fd) u))"

partial_function (option) ls_loop :: "kern \<Rightarrow> int \<Rightarrow> int \<Rightarrow> agentd \<Rightarrow> (int \<times> agentd) option" where
  "ls_loop K fd count u =
     (let (n, de, u) = sys K (U_read fd 16) u;
          name = cstr (take DIRSIZ (drop 2 de))
      in if n \<noteq> 16 then Some (count, u)
         else if get_le 2 0 de = 0 then ls_loop K fd count u
         else if streq name ''.'' \<or> streq name ''..'' then ls_loop K fd count u
         else
           let (r, st, u) = ustat K name u;
               u = (if r < 0 then uprintf K (''[agentd]   %s'' @ NL) [VStr (Some name)] u
                    else uprintf K (''[agentd]   %s (%d bytes)'' @ NL)
                           [VStr (Some name), VInt (int32 (of_nat (get_le 8 16 st)))] u)
           in ls_loop K fd (count + 1) u)"

definition do_ls :: "kern \<Rightarrow> string \<Rightarrow> agentd \<Rightarrow> agentd option" where
  "do_ls K arg u =
     (let (fd, _, u) = sys K (U_open ''.'' O_RDONLY) u
      in if fd < 0 then Some (uprintf K (''[agentd] LS: cannot open sandbox directory'' @ NL) [] u)
         else do {
           (count, u) \<leftarrow> ls_loop K fd 0 (uprintf K (''[agentd] sandbox file list:'' @ NL) [] u);
           let u = sys_void K (U_close fd) u;
           Some (if count = 0 then uprintf K (''[agentd]   (sandbox is empty)'' @ NL) [] u else u) })"

definition do_nice :: "kern \<Rightarrow> string \<Rightarrow> agentd \<Rightarrow> agentd" where
  "do_nice K arg u =
     (let c = scan_to CHR '':'' arg
      in if deref c \<noteq> CHR '':'' then uprintf K (''[agentd] NICE: expected <pid>:<prio>'' @ NL) [] u
         else case (parsei (before arg c), parsei (tl c)) of
           (Some pid, Some prio) \<Rightarrow>
             let (r, _, u) = sys K (U_setpriority pid prio) u
             in if r < 0 then uprintf K (''[agentd] NICE: denied (pid=%d prio=%d)'' @ NL) [VInt pid, VInt prio] u
                else uprintf K (''[agentd] pid=%d prio=%d'' @ NL) [VInt pid, VInt prio] u
         | _ \<Rightarrow> uprintf K (''[agentd] NICE: bad numbers'' @ NL) [] u)"

text \<open>The comparison of one line of the snapshot, and the loop over the lines.\<close>

fun line_is :: "string \<Rightarrow> string \<Rightarrow> bool" where
  "line_is [] t = (deref t = CHR 0x0A \<or> deref t = NUL)"
| "line_is (n # ns) t =
     (if n = NUL then deref t = CHR 0x0A \<or> deref t = NUL
      else if deref t \<noteq> CHR 0x0A \<and> deref t \<noteq> NUL \<and> n = deref t then line_is ns (tl t) else False)"

function in_snapshot :: "string \<Rightarrow> string \<Rightarrow> bool" where
  "in_snapshot s name =
     (if deref s = NUL then False
      else if line_is name s then True
      else let s = scan_to CHR 0x0A s in in_snapshot (if deref s = CHR 0x0A then tl s else s) name)"
  by pat_completeness auto
termination
proof (relation "measure (\<lambda>(s, name). length s)")
  fix s name x
  assume "deref s \<noteq> NUL" "x = scan_to CHR 0x0A s"
  then show "((if deref x = CHR 0x0A then tl x else x, name), s, name) \<in> measure (\<lambda>(s, name). length s)"
    using scan_to_shorter [of s "CHR 0x0A"] by (simp split: if_splits)
qed simp

declare in_snapshot.simps [simp del]

definition do_list :: "kern \<Rightarrow> string \<Rightarrow> agentd \<Rightarrow> agentd" where
  "do_list K arg u =
     (let (n, buf, u) = sys K (U_get_deny (DENY_MAX * DENY_NAMELEN)) u;
          snap = take (nat n) buf;
          u = uprintf K (''[agentd] agent functions (name | access | priority):'' @ NL) [] u
      in fold (\<lambda>f u.
           let acc = (if in_snapshot snap (fn_name f) then ''DENY(kernel)''
                      else if fn_allowed f then ''ALLOW'' else ''DENY'')
           in uprintf K (''[agentd]   %s'' @ [CHR 0x09] @ ''%s'' @ [CHR 0x09] @ ''prio=%d'' @ NL)
                [VStr (Some (fn_name f)), VStr (Some acc), VInt (fn_priority f)] u) (ag_table u) u)"

definition do_setprio :: "kern \<Rightarrow> string \<Rightarrow> agentd \<Rightarrow> agentd" where
  "do_setprio K arg u =
     (let c = scan_to CHR '':'' arg; name = before arg c
      in if deref c \<noteq> CHR '':'' then uprintf K (''[agentd] SETPRIO: expected <FN>:<prio>'' @ NL) [] u
         else case parsei (tl c) of
           None \<Rightarrow> uprintf K (''[agentd] SETPRIO: priority must be 0..20'' @ NL) [] u
         | Some prio \<Rightarrow>
             if prio < 0 \<or> prio > 20 then uprintf K (''[agentd] SETPRIO: priority must be 0..20'' @ NL) [] u
             else case find (\<lambda>i. streq (fn_name (ag_table u ! i)) name) [0..<length (ag_table u)] of
               None \<Rightarrow> uprintf K (''[agentd] SETPRIO: no such function '' @ QT @ ''%s'' @ QT @ NL) [VStr (Some name)] u
             | Some i \<Rightarrow>
                 uprintf K (''[agentd] %s priority set to %d'' @ NL) [VStr (Some name), VInt prio]
                   (u\<lparr>ag_table := (ag_table u)[i := (ag_table u ! i)\<lparr>fn_priority := prio\<rparr>]\<rparr>))"

text \<open>A \<open>struct procinfo\<close> of the reply: four integers and the name.\<close>

definition ps_line :: "kern \<Rightarrow> string \<Rightarrow> agentd \<Rightarrow> agentd" where
  "ps_line K pi u =
     (let word = (\<lambda>off. wrap32 (int (get_le 4 off pi)));
          st = [''unused'', ''used'', ''sleep'', ''runble'', ''run'', ''zombie''];
          s = (if word 4 \<ge> 0 \<and> word 4 < 6 then st ! nat (word 4) else ''?'')
      in uprintf K (''[agentd]   %d'' @ [CHR 0x09] @ ''%s'' @ [CHR 0x09] @ ''%d'' @ [CHR 0x09] @ ''%s%s%s'' @ NL)
           [VInt (word 0), VStr (Some s), VInt (word 8), VStr (Some (take 16 (drop 16 pi))),
            VStr (Some (if word 8 < 0 then '' [K]'' else [])), VStr (Some (if word 12 \<noteq> 0 then '' [A]'' else []))] u)"

definition do_ps :: "kern \<Rightarrow> string \<Rightarrow> agentd \<Rightarrow> agentd" where
  "do_ps K arg u =
     (let (n, pi, u) = sys K (U_procinfo NPROC) u
      in if n < 0 then uprintf K (''[agentd] PS: procinfo failed'' @ NL) [] u
         else fold (\<lambda>i u. ps_line K (drop (32 * i) pi) u) [0..<nat n]
                (uprintf K (''[agentd] processes (pid | state | prio | name):'' @ NL) [] u))"

definition do_help :: "kern \<Rightarrow> string \<Rightarrow> agentd \<Rightarrow> agentd" where
  "do_help K arg u =
     (let u = uprintf K (''[agentd] commands (usage | access | priority):'' @ NL) [] u
      in fold (\<lambda>f u. uprintf K (''[agentd]   %s'' @ [CHR 0x09] @ ''%s'' @ [CHR 0x09] @ ''prio=%d'' @ NL)
                [VStr (Some (fn_usage f)), VStr (Some (if fn_allowed f then ''ALLOW'' else ''DENY'')), VInt (fn_priority f)] u)
           (ag_table u) u)"

text \<open>The argument words of \<open>do_spawn\<close>; the first argument is how many more fit into \<open>argv\<close>.\<close>

fun spawn_args :: "nat \<Rightarrow> string \<Rightarrow> string list" where
  "spawn_args 0 t = []"
| "spawn_args (Suc n) t =
     (if deref t = NUL then []
      else
        let t = dropWhile (\<lambda>c. c = CHR '' '') t
        in if deref t = NUL then []
           else
             let e = scan_to CHR '' '' t
             in before t e # spawn_args n (if deref e = CHR '' '' then tl e else e))"

text \<open>The common tail of both branches of \<open>do_spawn\<close>: fork, exec in the child, wait in the parent.\<close>

definition spawn :: "kern \<Rightarrow> string \<Rightarrow> string list \<Rightarrow> agentd \<Rightarrow> bool \<times> agentd" where
  "spawn K bin argv u =
     (let (pid, _, u) = sys K U_fork u
      in if pid < 0 then (True, uprintf K (''[agentd] SPAWN: fork failed'' @ NL) [] u)
         else if pid = 0
         then
           let (r, _, u) = sys K (U_exec bin argv) u
           in if r \<ge> 0 then (False, u)
              else (False, sys_void K (U_exit 1) (uprintf K (''[agentd] SPAWN: exec %s failed'' @ NL) [VStr (Some bin)] u))
         else
           let (w, st, u) = sys K U_wait u;
               status = (if w < 0 then 0 else wrap32 (int (get_le 4 0 st)))
           in (True, uprintf K (''[agentd] SPAWN %s done (status=%d)'' @ NL) [VStr (Some bin), VInt status] u))"

definition do_spawn :: "kern \<Rightarrow> string \<Rightarrow> agentd \<Rightarrow> bool \<times> agentd" where
  "do_spawn K arg u =
     (let c = scan_to CHR ''|'' arg
      in if deref c \<noteq> CHR ''|'' then spawn K (cstr arg) [cstr arg] u
         else let bin = before arg c in spawn K bin (bin # spawn_args 7 (tl c)) u)"

section \<open>Dispatch\<close>

text \<open>The command and the argument of a line \<open>REQ|<CMD>|<arg>\<close>.\<close>

definition is_req_line :: "string \<Rightarrow> bool" where
  "is_req_line line \<longleftrightarrow>
     deref line = CHR ''R'' \<and> deref (drop 1 line) = CHR ''E'' \<and> deref (drop 2 line) = CHR ''Q'' \<and> deref (drop 3 line) = CHR ''|''"

definition req_split :: "string \<Rightarrow> (string \<times> string) option" where
  "req_split line =
     (let cmd = drop 4 line; bar = scan_to CHR ''|'' cmd
      in if deref bar \<noteq> CHR ''|'' then None else Some (before cmd bar, tl bar))"

definition run_command :: "kern \<Rightarrow> string \<Rightarrow> string \<Rightarrow> agentd \<Rightarrow> (bool \<times> agentd) option" where
  "run_command K cmd arg u =
     (if streq cmd ''PRINT'' then Some (True, do_print K arg u)
      else if streq cmd ''CHAT'' then Some (True, do_chat K arg u)
      else if streq cmd ''READ'' then map_option (Pair True) (do_read K arg u)
      else if streq cmd ''WRITE'' then Some (True, do_write K arg u)
      else if streq cmd ''LS'' then map_option (Pair True) (do_ls K arg u)
      else if streq cmd ''NICE'' then Some (True, do_nice K arg u)
      else if streq cmd ''LIST'' then Some (True, do_list K arg u)
      else if streq cmd ''SETPRIO'' then Some (True, do_setprio K arg u)
      else if streq cmd ''PS'' then Some (True, do_ps K arg u)
      else if streq cmd ''HELP'' then Some (True, do_help K arg u)
      else if streq cmd ''SPAWN'' then Some (do_spawn K arg u)
      else Some (True, u))"

definition execute :: "kern \<Rightarrow> string \<Rightarrow> agentd \<Rightarrow> (bool \<times> agentd) option" where
  "execute K line u =
     (if \<not> is_req_line line then Some (True, u)
      else case req_split line of
        None \<Rightarrow> Some (True, uprintf K (''[agentd] malformed: %s'' @ NL) [VStr (Some line)] u)
      | Some (cmd, arg) \<Rightarrow>
          (case find (\<lambda>f. streq cmd (fn_name f)) (ag_table u) of
             None \<Rightarrow> Some (True, uprintf K (''[agentd] unknown cmd '' @ QT @ ''%s'' @ QT @ NL) [VStr (Some cmd)] u)
           | Some f \<Rightarrow>
               if \<not> fn_allowed f
               then Some (True, uprintf K (''[agentd] DENY '' @ QT @ ''%s'' @ QT @ '' (not whitelisted)'' @ NL) [VStr (Some cmd)] u)
               else
                 let (pid, _, u) = sys K U_getpid u;
                     u = sys_void K (U_setpriority pid (fn_priority f)) u
                 in run_command K cmd arg u))"

definition JAIL :: string where "JAIL = ''/agentbox''"

definition jail_bins :: "string list" where
  "jail_bins = [''echo'', ''cat'', ''ls'', ''wc'', ''grep'', ''mkdir'', ''rm'', ''ln'', ''kill'', ''sh'']"

definition populate_jail :: "kern \<Rightarrow> agentd \<Rightarrow> agentd" where
  "populate_jail K u = fold (\<lambda>b u. sys_void K (U_link (''/'' @ b) (JAIL @ ''/'' @ b)) u) jail_bins u"

text \<open>The part of \<open>main\<close> before its loop: \<open>False\<close> if the jail could not be entered.\<close>

definition agentd_start :: "kern \<Rightarrow> agentd \<Rightarrow> bool \<times> agentd" where
  "agentd_start K u =
     (let u = populate_jail K (sys_void K (U_mkdir JAIL) u);
          (r, _, u) = sys K (U_jail JAIL) u
      in if r < 0 then (False, sys_void K (U_exit 1) (uprintf K (''[agentd] FATAL: jail(%s) failed'' @ NL) [VStr (Some JAIL)] u))
         else (True, uprintf K (''[agentd] jailed LLM agent runtime ready (root=%s)'' @ NL) [VStr (Some JAIL)] u))"

partial_function (option) agentd_loop :: "kern \<Rightarrow> agentd \<Rightarrow> agentd option" where
  "agentd_loop K u =
     (let (n, line, u) = sys K U_agent_recv u
      in if n < 0 then Some (sys_void K (U_exit 0) u)
         else execute K (cstr line) u \<bind> (\<lambda>(running, u). if running then agentd_loop K u else Some u))"

definition agentd_main :: "kern \<Rightarrow> agentd \<Rightarrow> agentd option" where
  "agentd_main K u = (let (ok, u) = agentd_start K u in if ok then agentd_loop K u else Some u)"

end
