(* ===== verification/Agentd_Calls.thy ===== *)
theory Agentd_Calls
  imports Agentd
begin

text \<open>
  Which system calls the agent runtime makes for a command, and that a command on the kernel's deny
  list is never run for a host command that came through the kernel's dispatcher.
\<close>

section \<open>The calls of a command\<close>

text \<open>
  \<open>permitted cmd arg c\<close>: call \<open>c\<close> is one that command \<open>cmd\<close> with argument \<open>arg\<close> may make, besides output
  to descriptor 1: \<open>READ\<close> opens the file it names, for reading; \<open>LS\<close> opens the current directory and
  entries of it, for reading, and never the parent directory; \<open>WRITE\<close> opens the file it names and writes the
  data of its argument, unescaped; \<open>NICE\<close> sets the priority its argument says; \<open>SPAWN\<close> runs the program
  and the words of its argument.  No command may link, make directories, enter a jail or change the deny list.
  \<open>own_prio K u c\<close> are the two calls the runtime makes before every command, from state \<open>u\<close>: it asks for its own pid and sets the
  priority of that pid to the command's, between 0 and 20.
\<close>

definition spawn_argv :: "string \<Rightarrow> string list" where
  "spawn_argv arg =
     (let c = scan_to CHR ''|'' arg
      in if deref c \<noteq> CHR ''|'' then [cstr arg] else before arg c # spawn_args 7 (tl c))"

fun permitted :: "string \<Rightarrow> string \<Rightarrow> ucall \<Rightarrow> bool" where
  "permitted cmd arg (U_write fd s) = (fd = 1 \<or> cmd = ''WRITE'' \<and> s = cstr (unescape_inplace (tl (scan_to CHR '':'' arg))))"
| "permitted cmd arg (U_setpriority pid p) =
     (cmd = ''NICE'' \<and> parsei (before arg (scan_to CHR '':'' arg)) = Some pid \<and> parsei (tl (scan_to CHR '':'' arg)) = Some p)"
| "permitted cmd arg (U_open f m) =
     (cmd = ''READ'' \<and> f = cstr arg \<and> m = O_RDONLY \<or>
      cmd = ''LS'' \<and> length f \<le> DIRSIZ \<and> f \<noteq> ''..'' \<and> m = O_RDONLY \<or>
      cmd = ''WRITE'' \<and> f = before arg (scan_to CHR '':'' arg) \<and> m = or (or O_CREATE O_TRUNC) O_RDWR)"
| "permitted cmd arg (U_read fd n) = (cmd = ''READ'' \<and> n = 128 \<or> cmd = ''LS'' \<and> n = 16)"
| "permitted cmd arg (U_close fd) = (cmd = ''READ'' \<or> cmd = ''LS'' \<or> cmd = ''WRITE'')"
| "permitted cmd arg (U_fstat fd) = (cmd = ''LS'')"
| "permitted cmd arg (U_get_deny n) = (cmd = ''LIST'')"
| "permitted cmd arg (U_procinfo n) = (cmd = ''PS'')"
| "permitted cmd arg U_fork = (cmd = ''SPAWN'')"
| "permitted cmd arg U_wait = (cmd = ''SPAWN'')"
| "permitted cmd arg (U_exit n) = (cmd = ''SPAWN'' \<and> n = 1)"
| "permitted cmd arg (U_exec f as) = (cmd = ''SPAWN'' \<and> as = spawn_argv arg \<and> f = hd as)"
| "permitted cmd arg _ = False"

definition own_prio :: "kern \<Rightarrow> agentd \<Rightarrow> ucall \<Rightarrow> bool" where
  "own_prio K u c \<longleftrightarrow> c = U_getpid \<or> (\<exists>p. c = U_setpriority (fst (K (u_calls u) U_getpid)) p \<and> 0 \<le> p \<and> p \<le> 20)"

definition is_output :: "ucall \<Rightarrow> bool" where
  "is_output c \<longleftrightarrow> (\<exists>s. c = U_write 1 s)"

text \<open>The calls with which a process ends or gives up its image.\<close>

fun leaves :: "ucall \<Rightarrow> bool" where
  "leaves (U_exec f as) = True"
| "leaves (U_exit n) = True"
| "leaves _ = False"

lemma permitted_leaves: "permitted cmd arg c \<Longrightarrow> leaves c \<Longrightarrow> cmd = ''SPAWN''"
  by (cases c) auto

lemma output_stays: "is_output c \<Longrightarrow> permitted cmd arg c \<and> \<not> leaves c"
  by (auto simp: is_output_def)

lemma permitted_output: "is_output c \<Longrightarrow> permitted cmd arg c"
  by (auto simp: is_output_def)

definition grows :: "agentd \<Rightarrow> agentd \<Rightarrow> bool" where
  "grows u u' \<longleftrightarrow> (\<exists>rs. u_calls u' = u_calls u @ rs)"

lemma grows_refl [simp]: "grows u u"
  by (simp add: grows_def)

lemma grows_trans: "grows u v \<Longrightarrow> grows v w \<Longrightarrow> grows u w"
  by (auto simp: grows_def)

lemma grows_sys: "sys K c u = (r, bs, u') \<Longrightarrow> grows u u'"
  by (auto simp: grows_def sys_def split: prod.splits)

lemma grows_void: "grows u (sys_void K c u)"
  by (auto simp: grows_def sys_void_def sys_def split: prod.splits)

lemma grows_printf: "grows u (uprintf K fmt ap u)"
proof -
  have f: "grows v (pflush K v)" for v using grows_void [of v] by (auto simp: pflush_def grows_def)
  have upd: "grows v (w\<lparr>u_pbuf := b\<rparr>) = grows v w" "grows v (w\<lparr>u_pfd := d\<rparr>) = grows v w" for v w b d
    by (simp_all add: grows_def)
  have "grows v (putc K 1 c v)" for c v
  proof -
    define x where "x = (if 1 \<noteq> u_pfd v \<or> length (u_pbuf v) \<ge> PRINTF_BUFSZ then (pflush K v)\<lparr>u_pfd := 1\<rparr> else v)"
    define y where "y = x\<lparr>u_pbuf := u_pbuf x @ [c]\<rparr>"
    have "grows v y" using f [of v] by (simp add: x_def y_def upd)
    moreover have "putc K 1 c v = (if c = CHR 0x0A then pflush K y else y)"
      by (simp only: putc_def Let_def x_def y_def)
    ultimately show ?thesis using grows_trans [OF _ f] by simp
  qed
  then have "grows v (fold (putc K 1) t v)" for t v
    by (induction t arbitrary: v) (auto intro: grows_trans)
  then show ?thesis unfolding uprintf_def vprintf_def using f grows_trans by blast
qed

text \<open>
  \<open>adds P u u'\<close>: the record of calls grows, the calls made from \<open>u\<close> to \<open>u'\<close> satisfy \<open>P\<close> and the table is unchanged;
  the output buffer is empty between the functions.
\<close>

definition adds :: "(ucall \<Rightarrow> bool) \<Rightarrow> agentd \<Rightarrow> agentd \<Rightarrow> bool" where
  "adds P u u' \<longleftrightarrow> ag_table u' = ag_table u \<and> grows u u' \<and>
     (u_pbuf u = [] \<longrightarrow> u_pbuf u' = [] \<and> (\<exists>cs. calls_of u' = calls_of u @ cs \<and> (\<forall>c \<in> set cs. P c)))"

lemma adds_refl [simp]: "adds P u u"
  by (simp add: adds_def)

lemma adds_trans: "adds P u u' \<Longrightarrow> adds P u' u'' \<Longrightarrow> adds P u u''"
proof -
  assume a: "adds P u u'" "adds P u' u''"
  have "u_pbuf u'' = [] \<and> (\<exists>cs. calls_of u'' = calls_of u @ cs \<and> (\<forall>c \<in> set cs. P c))" if b: "u_pbuf u = []"
  proof -
    obtain cs ds where "calls_of u' = calls_of u @ cs" "\<forall>c \<in> set cs. P c"
      "calls_of u'' = calls_of u' @ ds" "\<forall>c \<in> set ds. P c" "u_pbuf u'' = []"
      using a b by (auto simp: adds_def)
    then show ?thesis by (intro conjI exI [of _ "cs @ ds"]) auto
  qed
  then show ?thesis using a grows_trans unfolding adds_def by metis
qed

lemma adds_mono: "adds P u u' \<Longrightarrow> (\<And>c. P c \<Longrightarrow> Q c) \<Longrightarrow> adds Q u u'"
  unfolding adds_def by blast

lemma more_table: "user.more u' = user.more u \<Longrightarrow> ag_table u' = ag_table u" for u u' :: agentd
  by (cases u, cases u') simp

lemma adds_sys: "sys K c u = (r, bs, u') \<Longrightarrow> P c \<Longrightarrow> adds P u u'"
  using sys_calls [of K c u r bs u'] more_table [of u' u] grows_sys by (simp add: adds_def)

lemma adds_void: "P c \<Longrightarrow> adds P u (sys_void K c u)"
  using more_table [of "sys_void K c u" u] grows_void by (simp add: adds_def)

lemma adds_printf: "(\<And>c. is_output c \<Longrightarrow> P c) \<Longrightarrow> adds P u (uprintf K fmt ap u)"
proof -
  assume P: "\<And>c. is_output c \<Longrightarrow> P c"
  have m: "user.more (uprintf K fmt ap u) = user.more u"
  proof -
    have p: "user.more (putc K 1 c v) = user.more v" for c v by (simp add: putc_def pflush_frame Let_def)
    have "user.more (fold (putc K 1) t v) = user.more v" for t v by (induction t arbitrary: v) (simp_all add: p)
    then show ?thesis by (simp add: uprintf_def vprintf_def pflush_frame)
  qed
  have "u_pbuf u = [] \<longrightarrow> u_pbuf (uprintf K fmt ap u) = [] \<and> (\<exists>cs. calls_of (uprintf K fmt ap u) = calls_of u @ cs \<and> (\<forall>c \<in> set cs. P c))"
  proof
    assume "u_pbuf u = []"
    with vprintf_out_state [of 1 u K fmt ap] obtain ws where
      "calls_of (uprintf K fmt ap u) = calls_of u @ map (U_write 1) ws" "u_pbuf (uprintf K fmt ap u) = []"
      by (auto simp: uprintf_def)
    then show "u_pbuf (uprintf K fmt ap u) = [] \<and> (\<exists>cs. calls_of (uprintf K fmt ap u) = calls_of u @ cs \<and> (\<forall>c \<in> set cs. P c))"
      using P by (intro conjI exI [of _ "map (U_write 1) ws"]) (auto simp: is_output_def)
  qed
  then show ?thesis using more_table [OF m] grows_printf by (simp add: adds_def)
qed

lemma adds_fold: "(\<And>x v. adds P v (f x v)) \<Longrightarrow> adds P u (fold f xs u)"
  by (induction xs arbitrary: u) (auto intro: adds_trans)

lemmas adds_intros = adds_void adds_printf adds_fold adds_refl

section \<open>The handlers\<close>

lemma streq_iff: "streq a b \<longleftrightarrow> cstr a = cstr b"
proof (induction a arbitrary: b)
  case Nil
  then show ?case by (cases b) auto
next
  case (Cons x a)
  then show ?case by (cases b) auto
qed

lemma read_loop_adds:
  assumes "read_loop K fd u = Some u'" and P: "\<And>c. is_output c \<Longrightarrow> P c" "\<And>fd. P (U_read fd 128)"
  shows "adds P u u'"
  using assms(1)
proof (induction rule: read_loop.raw_induct [rotated 1, consumes 1, case_names 1])
  case (1 loop K fd u u')
  obtain n buf u1 where r: "sys K (U_read fd 128) u = (n, buf, u1)" by (metis prod_cases3)
  have a1: "adds P u u1" using adds_sys [OF r, of P] P(2) by simp
  show ?case
  proof (cases "n > 0")
    case True
    let ?u2 = "sys_void K (U_write 1 (take (nat n) buf)) u1"
    have "loop K fd ?u2 = Some u'" using 1(2) True r by simp
    then have "adds P ?u2 u'" by (rule 1(1))
    moreover have "adds P u1 ?u2" by (rule adds_void) (simp add: P(1) is_output_def)
    ultimately show ?thesis using a1 adds_trans by blast
  next
    case False
    then show ?thesis using 1(2) r a1 by simp
  qed
qed

lemma ustat_adds:
  assumes "ustat K f u = (r, st, u')" "P (U_open f O_RDONLY)" "\<And>fd. P (U_fstat fd)" "\<And>fd. P (U_close fd)"
  shows "adds P u u'"
  using assms(1) adds_void [of P _ _ K, OF assms(4)]
  by (auto simp: ustat_def Let_def assms split: prod.splits if_splits dest!: adds_sys [where P = P] intro: adds_trans)

lemma ls_loop_adds:
  assumes "ls_loop K fd n u = Some (m, u')" and P: "\<And>c. is_output c \<Longrightarrow> P c" "\<And>fd. P (U_read fd 16)"
    "\<And>f. length f \<le> DIRSIZ \<Longrightarrow> f \<noteq> ''..'' \<Longrightarrow> P (U_open f O_RDONLY)" "\<And>fd. P (U_fstat fd)" "\<And>fd. P (U_close fd)"
  shows "adds P u u'"
proof -
  have "\<forall>m u'. y = (m, u') \<longrightarrow> adds P u u'" if "ls_loop K fd n u = Some y" for y
    using that
  proof (induction rule: ls_loop.raw_induct [rotated 1, consumes 1, case_names step])
    case (step loop K fd n u y)
    obtain r de u1 where r: "sys K (U_read fd 16) u = (r, de, u1)" by (metis prod_cases3)
    have a1: "adds P u u1" using adds_sys [OF r, of P] P(2) by simp
    let ?name = "cstr (take DIRSIZ (drop 2 de))"
    obtain q st u2 where s: "ustat K ?name u1 = (q, st, u2)" by (metis prod_cases3)
    have len: "length ?name \<le> DIRSIZ"
      using length_takeWhile_le [of "\<lambda>c. c \<noteq> NUL" "take DIRSIZ (drop 2 de)"] by (simp add: cstr_def)
    have a2: "adds P u1 u2" if "\<not> streq ?name ''..''"
      by (rule ustat_adds [OF s]) (use P len that in \<open>auto simp: streq_iff cstr_id\<close>)
    have a3: "adds P u2 (uprintf K fmt ap u2)" for fmt ap using adds_printf P(1) by blast
    have ih: "loop K fd k v = Some y \<Longrightarrow> adds P u v \<Longrightarrow> \<forall>m u'. y = (m, u') \<longrightarrow> adds P u u'" for k v
      using step(1) adds_trans by blast
    let ?skip = "get_le 2 0 de = 0 \<or> streq ?name ''.'' \<or> streq ?name ''..''"
    consider "r \<noteq> 16" | "r = 16" ?skip | "r = 16" "\<not> ?skip" by blast
    then show ?case
    proof cases
      case 1
      then show ?thesis using step(2) r a1 by auto
    next
      case 2
      then have "loop K fd n u1 = Some y" using step(2) r by (auto simp: Let_def split: if_splits)
      then show ?thesis using ih a1 by blast
    next
      case 3
      define v where "v = (if q < 0 then uprintf K (''[agentd]   %s'' @ NL) [VStr (Some ?name)] u2
        else uprintf K (''[agentd]   %s (%d bytes)'' @ NL) [VStr (Some ?name), VInt (int32 (of_nat (get_le 8 16 st)))] u2)"
      have "loop K fd (n + 1) v = Some y" using step(2) r s 3 by (simp add: v_def Let_def)
      moreover have "adds P u v" unfolding v_def using adds_trans [OF a1 adds_trans [OF a2 a3]] 3 by simp
      ultimately show ?thesis using ih by blast
    qed
  qed
  then show ?thesis using assms(1) by blast
qed

lemma spawn_adds:
  assumes "spawn K bin argv u = (b, u')" and P: "\<And>c. is_output c \<Longrightarrow> P c" "P U_fork" "P U_wait" "P (U_exec bin argv)" "P (U_exit 1)"
  shows "adds P u u'"
  using assms(1) adds_printf [of P, OF P(1)] adds_trans [OF adds_printf [of P, OF P(1)] adds_void [of P _ _ K, OF P(5)]]
  by (auto simp del: append.simps simp: spawn_def Let_def P split: prod.splits if_splits dest!: adds_sys [where P = P] intro: adds_trans)

lemma spawn_parent:
  assumes "spawn K bin argv u = (True, u')" and P: "\<And>c. is_output c \<Longrightarrow> P c" "P U_fork" "P U_wait"
  shows "adds P u u'"
  using assms(1) adds_printf [of P, OF P(1)]
  by (auto simp del: append.simps simp: spawn_def Let_def P split: prod.splits if_splits dest!: adds_sys [where P = P] intro: adds_trans)

lemma do_read_adds:
  assumes "do_read K arg u = Some u'" and P: "\<And>c. is_output c \<Longrightarrow> P c" "P (U_open (cstr arg) O_RDONLY)" "\<And>fd. P (U_read fd 128)" "\<And>fd. P (U_close fd)"
  shows "adds P u u'"
proof -
  obtain fd bs u1 where r: "sys K (U_open (cstr arg) O_RDONLY) u = (fd, bs, u1)" by (metis prod_cases3)
  have a1: "adds P u u1" using adds_sys [OF r, of P] P(2) by simp
  have pr: "adds P u1 (uprintf K fmt ap u1)" for fmt ap using adds_printf P(1) by blast
  show ?thesis
  proof (cases "fd < 0")
    case True
    then show ?thesis using assms(1) r adds_trans [OF a1 pr] by (auto simp: do_read_def)
  next
    case False
    let ?v = "uprintf K (''[agentd] READ %s:'' @ NL) [VStr (Some arg)] u1"
    obtain u2 where l: "read_loop K fd ?v = Some u2" "u' = sys_void K (U_close fd) u2"
      using assms(1) r False by (auto simp: do_read_def split: bind_splits)
    have v: "adds P ?v u2" by (rule read_loop_adds [OF l(1)]) (use P in auto)
    show ?thesis unfolding l(2) by (rule adds_trans [OF a1 adds_trans [OF pr adds_trans [OF v adds_void]]]) (rule P(4))
  qed
qed

lemma do_ls_adds:
  assumes "do_ls K arg u = Some u'" and P: "\<And>c. is_output c \<Longrightarrow> P c" "\<And>f. length f \<le> DIRSIZ \<Longrightarrow> f \<noteq> ''..'' \<Longrightarrow> P (U_open f O_RDONLY)" "\<And>fd. P (U_read fd 16)" "\<And>fd. P (U_close fd)"
    "\<And>fd. P (U_fstat fd)"
  shows "adds P u u'"
proof -
  obtain fd bs u1 where r: "sys K (U_open ''.'' O_RDONLY) u = (fd, bs, u1)" by (metis prod_cases3)
  have a1: "adds P u u1" using adds_sys [OF r, of P] P(2) [of "''.''"] by (simp add: DIRSIZ_def)
  have pr: "adds P v (uprintf K fmt ap v)" for v fmt ap using adds_printf P(1) by blast
  show ?thesis
  proof (cases "fd < 0")
    case True
    then show ?thesis using assms(1) r adds_trans [OF a1 pr] by (auto simp: do_ls_def)
  next
    case False
    let ?v = "uprintf K (''[agentd] sandbox file list:'' @ NL) [] u1"
    obtain n u2 where l: "ls_loop K fd 0 ?v = Some (n, u2)"
      "u' = (if n = 0 then uprintf K (''[agentd]   (sandbox is empty)'' @ NL) [] (sys_void K (U_close fd) u2) else sys_void K (U_close fd) u2)"
      using assms(1) r False by (auto simp: do_ls_def Let_def split: bind_splits)
    have a2: "adds P ?v u2" by (rule ls_loop_adds [OF l(1)]) (use P in auto)
    have a3: "adds P u (sys_void K (U_close fd) u2)"
      by (rule adds_trans [OF a1 adds_trans [OF pr adds_trans [OF a2 adds_void]]]) (rule P(4))
    then show ?thesis using l(2) adds_trans [OF a3 pr] by simp
  qed
qed

lemma do_write_adds:
  assumes P: "\<And>c. is_output c \<Longrightarrow> P c" "P (U_open (before arg (scan_to CHR '':'' arg)) (or (or O_CREATE O_TRUNC) O_RDWR))"
    "\<And>fd. P (U_write fd (cstr (unescape_inplace (tl (scan_to CHR '':'' arg)))))" "\<And>fd. P (U_close fd)"
  shows "adds P u (do_write K arg u)"
proof -
  let ?c = "scan_to CHR '':'' arg"
  let ?d = "unescape_inplace (tl ?c)"
  have pr: "adds P v (uprintf K fmt ap v)" for v fmt ap using adds_printf P(1) by blast
  obtain fd bs u1 where r: "sys K (U_open (before arg ?c) (or (or O_CREATE O_TRUNC) O_RDWR)) u = (fd, bs, u1)" by (metis prod_cases3)
  obtain wn bs' u2 where w: "sys K (U_write fd (cstr ?d)) u1 = (wn, bs', u2)" by (metis prod_cases3)
  have a1: "adds P u u1" using adds_sys [OF r, of P] P(2) by simp
  have a2: "adds P u1 u2" using adds_sys [OF w, of P] P(3) by simp
  have a3: "adds P u (sys_void K (U_close fd) u2)" by (rule adds_trans [OF a1 adds_trans [OF a2 adds_void]]) (rule P(4))
  show ?thesis using pr [of u] adds_trans [OF a1 pr] adds_trans [OF a3 pr] by (simp add: do_write_def r w Let_def)
qed

lemma do_nice_adds:
  assumes P: "\<And>c. is_output c \<Longrightarrow> P c" "\<And>pid p. \<lbrakk>parsei (before arg (scan_to CHR '':'' arg)) = Some pid; parsei (tl (scan_to CHR '':'' arg)) = Some p\<rbrakk> \<Longrightarrow>
      P (U_setpriority pid p)"
  shows "adds P u (do_nice K arg u)"
proof -
  have pr: "adds P v (uprintf K fmt ap v)" for v fmt ap using adds_printf P(1) by blast
  have "adds P u (let (r, _, u) = sys K (U_setpriority i p) u
             in if r < 0 then uprintf K f1 a1 u else uprintf K f2 a2 u)"
    if "parsei (before arg (scan_to CHR '':'' arg)) = Some i" "parsei (tl (scan_to CHR '':'' arg)) = Some p" for i p f1 f2 a1 a2
    using adds_sys [of K "U_setpriority i p" u _ _ _ P, OF _ P(2) [OF that]] adds_trans [OF _ pr] by (auto split: prod.splits)
  then show ?thesis using pr [of u] by (simp add: do_nice_def Let_def split: option.splits)
qed

lemma do_list_adds:
  assumes P: "\<And>c. is_output c \<Longrightarrow> P c" "\<And>n. P (U_get_deny n)"
  shows "adds P u (do_list K arg u)"
proof -
  have pr: "adds P v (uprintf K fmt ap v)" for v fmt ap using adds_printf P(1) by blast
  obtain n bs u1 where r: "sys K (U_get_deny (DENY_MAX * DENY_NAMELEN)) u = (n, bs, u1)" by (metis prod_cases3)
  have a1: "adds P u u1" using adds_sys [OF r, of P] P(2) by simp
  show ?thesis unfolding do_list_def r Let_def prod.case by (rule adds_trans [OF a1 adds_trans [OF pr adds_fold]]) (rule pr)
qed

lemma do_ps_adds:
  assumes P: "\<And>c. is_output c \<Longrightarrow> P c" "\<And>n. P (U_procinfo n)"
  shows "adds P u (do_ps K arg u)"
proof -
  have pr: "adds P v (uprintf K fmt ap v)" for v fmt ap using adds_printf P(1) by blast
  obtain n bs u1 where r: "sys K (U_procinfo NPROC) u = (n, bs, u1)" by (metis prod_cases3)
  have a1: "adds P u u1" using adds_sys [OF r, of P] P(2) by simp
  have "adds P v (ps_line K d v)" for d v unfolding ps_line_def Let_def by (rule pr)
  then have "adds P u1 (fold (\<lambda>i u. ps_line K (drop (32 * i) bs) u) is (uprintf K f a u1))" for "is" f a
    by (intro adds_trans [OF pr adds_fold])
  then show ?thesis unfolding do_ps_def r Let_def prod.case using adds_trans [OF a1] pr by simp
qed

lemma do_help_adds:
  assumes P: "\<And>c. is_output c \<Longrightarrow> P c"
  shows "adds P u (do_help K arg u)"
proof -
  have pr: "adds P v (uprintf K fmt ap v)" for v fmt ap using adds_printf P by blast
  show ?thesis unfolding do_help_def Let_def by (rule adds_trans [OF pr adds_fold]) (rule pr)
qed

lemma do_spawn_adds:
  assumes "do_spawn K arg u = (b, u')" and P: "\<And>c. is_output c \<Longrightarrow> P c" "P U_fork" "P U_wait" "P (U_exec (hd (spawn_argv arg)) (spawn_argv arg))" "P (U_exit 1)"
  shows "adds P u u'"
  using assms(1) spawn_adds [of K _ _ u b u' P] P by (auto simp: do_spawn_def spawn_argv_def Let_def split: if_splits)

lemma do_spawn_parent:
  assumes "do_spawn K arg u = (True, u')"
  shows "adds (\<lambda>c. permitted ''SPAWN'' arg c \<and> \<not> leaves c) u u'"
  using assms spawn_parent [of K _ _ u u' "\<lambda>c. permitted ''SPAWN'' arg c \<and> \<not> leaves c"] output_stays
  by (auto simp: do_spawn_def Let_def split: if_splits)

section \<open>Dispatch\<close>

lemma before_scan: "before s (scan_to ch s) = takeWhile (\<lambda>c. c \<noteq> NUL \<and> c \<noteq> ch) s"
proof -
  have "length (scan_to ch r) \<le> length r" for r by (induction r) auto
  then show ?thesis unfolding before_def by (induction s) (auto simp: Suc_diff_le)
qed

lemma cstr_before [simp]: "cstr (before s (scan_to ch s)) = before s (scan_to ch s)"
  unfolding before_scan by (rule cstr_id) (auto dest: set_takeWhileD)

text \<open>Priorities stay in the range the kernel accepts; names and permissions never change.\<close>

definition tab_ok :: "fn list \<Rightarrow> bool" where
  "tab_ok t \<longleftrightarrow> map fn_name t = map fn_name table_init \<and> (\<forall>f \<in> set t. fn_allowed f \<and> 0 \<le> fn_priority f \<and> fn_priority f \<le> 20)"

lemma tab_init: "tab_ok table_init"
  by (simp add: tab_ok_def table_init_def mk_fn_def)

lemma tab_set: "tab_ok t \<Longrightarrow> 0 \<le> p \<Longrightarrow> p \<le> 20 \<Longrightarrow> tab_ok (t[i := (t ! i)\<lparr>fn_priority := p\<rparr>])"
proof (cases "i < length t")
  case True
  assume t: "tab_ok t" "0 \<le> p" "p \<le> 20"
  have "map fn_name (t[i := (t ! i)\<lparr>fn_priority := p\<rparr>]) = map fn_name t" using True by (simp add: map_update list_update_same_conv)
  then show ?thesis using t True by (auto simp: tab_ok_def dest!: subsetD [OF set_update_subset_insert])
qed (simp add: list_update_beyond)

lemma do_setprio_effect:
  assumes "u_pbuf u = []" "tab_ok (ag_table u)" and P: "\<And>c. is_output c \<Longrightarrow> P c"
  shows "grows u (do_setprio K arg u) \<and> u_pbuf (do_setprio K arg u) = [] \<and> tab_ok (ag_table (do_setprio K arg u)) \<and>
    (\<exists>cs. calls_of (do_setprio K arg u) = calls_of u @ cs \<and> (\<forall>c \<in> set cs. P c))"
proof -
  have pr: "grows u (uprintf K fmt ap v) \<and> u_pbuf (uprintf K fmt ap v) = [] \<and> tab_ok (ag_table (uprintf K fmt ap v)) \<and>
      (\<exists>cs. calls_of (uprintf K fmt ap v) = calls_of u @ cs \<and> (\<forall>c \<in> set cs. P c))"
    if "u_pbuf v = []" "tab_ok (ag_table v)" "u_calls v = u_calls u" for v :: agentd and fmt ap
    using adds_printf [of P v K fmt ap, OF P] that by (simp add: adds_def grows_def calls_of_def)
  let ?upd = "\<lambda>i p. u\<lparr>ag_table := (ag_table u)[i := (ag_table u ! i)\<lparr>fn_priority := p\<rparr>]\<rparr>"
  show ?thesis
    using pr [of u] pr [of "?upd _ _"] tab_set [OF assms(2)] assms(1,2)
    by (simp add: do_setprio_def Let_def split: option.splits)
qed

lemma run_command_effect:
  assumes "run_command K cmd arg u = Some (b, u')" "cstr cmd = cmd" "u_pbuf u = []" "tab_ok (ag_table u)"
  shows "grows u u' \<and> u_pbuf u' = [] \<and> tab_ok (ag_table u') \<and> (\<not> b \<longrightarrow> cmd = ''SPAWN'') \<and>
    (\<exists>cs. calls_of u' = calls_of u @ cs \<and> (\<forall>c \<in> set cs. permitted cmd arg c \<and> (b \<longrightarrow> \<not> leaves c)))"
proof (cases "cmd = ''SETPRIO''")
  case True
  then show ?thesis
    using assms do_setprio_effect [OF assms(3,4), of "\<lambda>c. permitted cmd arg c \<and> \<not> leaves c" K arg, OF output_stays]
    by (auto simp: run_command_def streq_iff cstr_id)
next
  case False
  note rc = assms(1) [unfolded run_command_def streq_iff assms(2)]
  let ?P = "permitted cmd arg"
  note out = permitted_output [of _ cmd arg]
  have quiet: "adds ?P u (do_print K arg u)" "adds ?P u (do_chat K arg u)" "adds ?P u (do_help K arg u)"
    unfolding do_print_def do_chat_def by (rule adds_printf do_help_adds, erule out)+
  consider "cmd = ''PRINT''" | "cmd = ''CHAT''" | "cmd = ''READ''" | "cmd = ''WRITE''" | "cmd = ''LS''" | "cmd = ''NICE''"
    | "cmd = ''LIST''" | "cmd = ''PS''" | "cmd = ''HELP''" | "cmd = ''SPAWN''"
    | "\<not> (cmd = ''PRINT'' \<or> cmd = ''CHAT'' \<or> cmd = ''READ'' \<or> cmd = ''WRITE'' \<or> cmd = ''LS'' \<or> cmd = ''NICE'' \<or> cmd = ''LIST'' \<or> cmd = ''PS'' \<or> cmd = ''HELP'' \<or> cmd = ''SPAWN'')"
    by satx
  then have main: "adds ?P u u' \<and> (\<not> b \<longrightarrow> cmd = ''SPAWN'')"
  proof cases
    case 3
    then show ?thesis using rc do_read_adds [of K arg u u' ?P] out by (auto simp: cstr_id)
  next
    case 4
    then show ?thesis using rc do_write_adds [of ?P arg u K] out by (simp add: cstr_id)
  next
    case 5
    then show ?thesis using rc do_ls_adds [of K arg u u' ?P] out by (auto simp: cstr_id)
  next
    case 6
    then show ?thesis using rc do_nice_adds [of ?P arg u K] out by (simp add: cstr_id)
  next
    case 7
    then show ?thesis using rc do_list_adds [of ?P u K arg] out by (simp add: cstr_id)
  next
    case 8
    then show ?thesis using rc do_ps_adds [of ?P u K arg] out by (simp add: cstr_id)
  next
    case 10
    then show ?thesis using rc do_spawn_adds [of K arg u b u' ?P] out by (simp add: cstr_id)
  next
    case 11
    then show ?thesis using rc False by (simp add: cstr_id)
  qed (use rc quiet in \<open>simp_all add: cstr_id\<close>)
  have "adds (\<lambda>c. ?P c \<and> (b \<longrightarrow> \<not> leaves c)) u u'"
  proof (cases "b \<and> cmd = ''SPAWN''")
    case True
    then show ?thesis using rc do_spawn_parent [of K arg u u'] by (simp add: cstr_id)
  next
    case False
    show ?thesis
    proof (rule adds_mono)
      show "adds ?P u u'" using main by simp
      show "?P c \<and> (b \<longrightarrow> \<not> leaves c)" if "?P c" for c using that False permitted_leaves [of cmd arg c] by satx
    qed
  qed
  then show ?thesis using main assms(3,4) by (simp add: adds_def)
qed

lemma execute_effect:
  assumes "execute K line u = Some (b, u')" "u_pbuf u = []" "tab_ok (ag_table u)"
  shows "grows u u' \<and> u_pbuf u' = [] \<and> tab_ok (ag_table u') \<and> (\<not> b \<longrightarrow> (\<exists>arg. req_split line = Some (''SPAWN'', arg))) \<and>
    (\<exists>cs. calls_of u' = calls_of u @ cs \<and>
      (\<forall>c \<in> set cs. is_output c \<or> own_prio K u c \<or>
        (\<exists>cmd arg. is_req_line line \<and> req_split line = Some (cmd, arg) \<and> cmd \<in> fn_name ` set table_init \<and> permitted cmd arg c \<and> (b \<longrightarrow> \<not> leaves c))))"
proof -
  let ?G = "\<lambda>u'. grows u u' \<and> u_pbuf u' = [] \<and> tab_ok (ag_table u') \<and>
    (\<exists>cs. calls_of u' = calls_of u @ cs \<and> (\<forall>c \<in> set cs. is_output c))"
  have out: "?G (uprintf K fmt ap u)" for fmt ap
    using adds_printf [of is_output u K fmt ap] assms(2,3) by (simp add: adds_def)
  consider "\<not> is_req_line line \<and> u' = u \<and> b" | fmt ap where "u' = uprintf K fmt ap u \<and> b"
    | cmd arg f pid bs u1 where "is_req_line line" "req_split line = Some (cmd, arg)" "find (\<lambda>f. streq cmd (fn_name f)) (ag_table u) = Some f"
      "sys K U_getpid u = (pid, bs, u1)" "run_command K cmd arg (sys_void K (U_setpriority pid (fn_priority f)) u1) = Some (b, u')"
    using assms(1) unfolding execute_def
    by (simp split: if_splits option.splits prod.splits) blast+
  then show ?thesis
  proof cases
    case 1
    then show ?thesis using assms(2,3) by auto
  next
    case (2 fmt ap)
    then show ?thesis using out [of fmt ap] by fastforce
  next
    case (3 cmd arg f pid bs u1)
    let ?v = "sys_void K (U_setpriority pid (fn_priority f)) u1"
    have f: "f \<in> set (ag_table u)" "cstr cmd = cstr (fn_name f)"
      using 3(3) by (auto simp: find_Some_iff streq_iff)
    have c: "cstr cmd = cmd" using 3(2) by (auto simp: req_split_def Let_def split: if_splits)
    have "fn_name f \<in> fn_name ` set table_init" "0 \<le> fn_priority f" "fn_priority f \<le> 20"
      using f(1) assms(3) unfolding tab_ok_def by (metis image_eqI image_set) (use f(1) assms(3) in \<open>auto simp: tab_ok_def\<close>)
    then have cmd: "cmd \<in> fn_name ` set table_init"
      using f(2) c by (auto simp: table_init_def mk_fn_def cstr_id)
    have "fst (K (u_calls u) U_getpid) = pid" using 3(4) by (auto simp: sys_def split: prod.splits)
    then have a: "adds (own_prio K u) u ?v"
      using \<open>0 \<le> fn_priority f\<close> \<open>fn_priority f \<le> 20\<close>
      by (intro adds_trans [OF adds_sys [OF 3(4)] adds_void]) (auto simp: own_prio_def)
    have v: "u_pbuf ?v = []" "tab_ok (ag_table ?v)" "grows u ?v" using a assms(2,3) by (auto simp: adds_def)
    note rc = run_command_effect [OF 3(5) c v(1,2)]
    have g: "grows u u'" using v(3) rc grows_trans by blast
    obtain cs where cs: "calls_of ?v = calls_of u @ cs" "\<forall>c \<in> set cs. own_prio K u c" using a assms(2) by (auto simp: adds_def)
    obtain ds where ds: "calls_of u' = calls_of ?v @ ds" "\<forall>c \<in> set ds. permitted cmd arg c \<and> (b \<longrightarrow> \<not> leaves c)" using rc by blast
    have "calls_of u' = calls_of u @ (cs @ ds)" "\<forall>c \<in> set (cs @ ds). own_prio K u c \<or> permitted cmd arg c \<and> (b \<longrightarrow> \<not> leaves c)"
      using cs ds by auto
    then show ?thesis using rc g 3(1,2) cmd by blast
  qed
qed

section \<open>The serving loop\<close>

text \<open>\<open>agentd_serves K u0 u\<close>: started in \<open>u0\<close>, the runtime is at the head of its loop in state \<open>u\<close>.\<close>

inductive agentd_serves :: "kern \<Rightarrow> agentd \<Rightarrow> agentd \<Rightarrow> bool" for K where
  a_start: "agentd_start K u0 = (True, u) \<Longrightarrow> agentd_serves K u0 u"
| a_turn: "agentd_serves K u0 u \<Longrightarrow> sys K U_agent_recv u = (n, line, u1) \<Longrightarrow> 0 \<le> n \<Longrightarrow>
     execute K (cstr line) u1 = Some (True, u2) \<Longrightarrow> agentd_serves K u0 u2"

text \<open>The calls of the server: none that links, makes directories, enters a jail, changes the deny list or leaves the program.\<close>

definition server_call :: "ucall \<Rightarrow> bool" where
  "server_call c \<longleftrightarrow> c = U_agent_recv \<or> is_output c \<or> c = U_getpid \<or> (\<exists>pid p. c = U_setpriority pid p) \<or> ((\<exists>cmd arg. permitted cmd arg c) \<and> \<not> leaves c)"

definition jail_setup :: "ucall list" where
  "jail_setup = U_mkdir JAIL # map (\<lambda>b. U_link (''/'' @ b) (JAIL @ ''/'' @ b)) jail_bins"

lemma populate_calls:
  "calls_of (populate_jail K u) = calls_of u @ map (\<lambda>b. U_link (''/'' @ b) (JAIL @ ''/'' @ b)) jail_bins"
  "u_pbuf (populate_jail K u) = u_pbuf u" "user.more (populate_jail K u) = user.more u"
proof -
  let ?f = "\<lambda>b u. sys_void K (U_link (''/'' @ b) (JAIL @ ''/'' @ b)) u"
  have "calls_of (fold ?f bs v) = calls_of v @ map (\<lambda>b. U_link (''/'' @ b) (JAIL @ ''/'' @ b)) bs \<and>
      u_pbuf (fold ?f bs v) = u_pbuf v \<and> user.more (fold ?f bs v) = user.more v" for bs and v :: agentd
    by (induction bs arbitrary: v) simp_all
  then show "calls_of (populate_jail K u) = calls_of u @ map (\<lambda>b. U_link (''/'' @ b) (JAIL @ ''/'' @ b)) jail_bins"
    "u_pbuf (populate_jail K u) = u_pbuf u" "user.more (populate_jail K u) = user.more u"
    by (simp_all add: populate_jail_def)
qed

lemma start_calls:
  assumes "agentd_start K u0 = (True, u)" "u_calls u0 = []" "u_pbuf u0 = []"
  shows "\<exists>js r bs rs. u_calls u = js @ (U_jail JAIL, r, bs) # rs \<and> map fst js = jail_setup \<and> 0 \<le> r \<and>
    (\<forall>c \<in> set rs. is_output (fst c)) \<and> u_pbuf u = [] \<and> ag_table u = ag_table u0"
proof -
  let ?v = "populate_jail K (sys_void K (U_mkdir JAIL) u0)"
  obtain r bs u1 where j: "sys K (U_jail JAIL) ?v = (r, bs, u1)" by (metis prod_cases3)
  have v: "calls_of ?v = jail_setup" "u_pbuf ?v = []" "user.more ?v = user.more u0"
    using assms(2,3) populate_calls [of K "sys_void K (U_mkdir JAIL) u0"]
    by (simp_all add: jail_setup_def calls_of_def [of u0])
  have u1: "u_calls u1 = u_calls ?v @ [(U_jail JAIL, r, bs)]" "u_pbuf u1 = []" "user.more u1 = user.more u0"
    using j sys_calls [OF j] v by (auto simp: sys_def split: prod.splits)
  obtain fmt ap where u: "u = uprintf K fmt ap u1" "0 \<le> r"
    using assms(1) j by (auto simp: agentd_start_def Let_def split: if_splits)
  obtain rs where rs: "u_calls u = u_calls u1 @ rs" using grows_printf [of u1 K fmt ap] by (auto simp: grows_def u(1))
  obtain cs where cs: "calls_of u = calls_of u1 @ cs" "\<forall>c \<in> set cs. is_output c"
    and t: "u_pbuf u = []" "ag_table u = ag_table u1"
    using adds_printf [of is_output u1 K fmt ap] u1(2) by (auto simp: adds_def u(1))
  have "cs = map fst rs" using cs(1) rs by (simp add: calls_of_def)
  then have "\<forall>c \<in> set rs. is_output (fst c)" using cs(2) by fastforce
  moreover have "u_calls u = u_calls ?v @ (U_jail JAIL, r, bs) # rs" using rs u1(1) by simp
  ultimately show ?thesis using v(1) u(2) t more_table [OF u1(3)] unfolding calls_of_def by metis
qed

text \<open>One turn of the server adds calls of the server to the record.\<close>

lemma turn_calls:
  assumes "sys K U_agent_recv u = (n, line, u1)" "execute K (cstr line) u1 = Some (True, u2)" "u_pbuf u = []" "tab_ok (ag_table u)"
  shows "\<exists>rs. u_calls u2 = u_calls u @ rs \<and> (\<forall>c \<in> set rs. server_call (fst c)) \<and> u_pbuf u2 = [] \<and> tab_ok (ag_table u2)"
proof -
  have u1: "calls_of u1 = calls_of u @ [U_agent_recv]" "u_pbuf u1 = []" "tab_ok (ag_table u1)"
    using sys_calls [OF assms(1)] assms(3,4) more_table [of u1 u] by auto
  note e = execute_effect [OF assms(2) u1(2,3)]
  obtain ds where ds: "calls_of u2 = calls_of u1 @ ds" "\<forall>c \<in> set ds. server_call c"
    using e unfolding server_call_def own_prio_def by blast
  obtain rs where rs: "u_calls u2 = u_calls u @ rs"
    using e grows_trans [OF grows_sys [OF assms(1)]] by (auto simp: grows_def)
  then have "map fst rs = U_agent_recv # ds" using ds(1) u1(1) by (simp add: calls_of_def)
  then have "\<forall>c \<in> fst ` set rs. server_call c" using ds(2) by (simp flip: set_map add: server_call_def)
  then show ?thesis using rs e by auto
qed

text \<open>
  C35: the runtime works inside its jail.  In every state in which the agent runtime waits for its next
  command, whatever the kernel answered and whatever lines it delivered, the process first made the jail directory
  and linked the fixed set of binaries into it, then called \<open>jail\<close> on that directory, and this call
  succeeded; from then on it has made no call that links, makes directories, enters another jail, changes the
  deny list, executes a program or exits, and the function table still has its
  original names, all allowed, with priorities between 0 and 20.  Programs run only in forked children.
\<close>

theorem agentd_serves_in_jail:
  assumes "agentd_serves K u0 u" "u_calls u0 = []" "u_pbuf u0 = []" "ag_table u0 = table_init"
  shows "\<exists>js r bs rs. u_calls u = js @ (U_jail JAIL, r, bs) # rs \<and> map fst js = jail_setup \<and> 0 \<le> r \<and>
    (\<forall>c \<in> set rs. server_call (fst c)) \<and> tab_ok (ag_table u) \<and> u_pbuf u = []"
  using assms
proof (induction)
  case (a_start u0 u)
  then show ?case using start_calls [OF a_start(1-3)] tab_init unfolding server_call_def by metis
next
  case (a_turn u0 u n line u1 u2)
  obtain js r bs rs where i: "u_calls u = js @ (U_jail JAIL, r, bs) # rs" "map fst js = jail_setup" "0 \<le> r"
    "\<forall>c \<in> set rs. server_call (fst c)" "tab_ok (ag_table u)" "u_pbuf u = []"
    using a_turn.IH a_turn.prems by blast
  obtain ts where t: "u_calls u2 = u_calls u @ ts" "\<forall>c \<in> set ts. server_call (fst c)" "u_pbuf u2 = []" "tab_ok (ag_table u2)"
    using turn_calls [OF a_turn.hyps(2,4) i(6,5)] by blast
  have "u_calls u2 = js @ (U_jail JAIL, r, bs) # (rs @ ts)" using i(1) t(1) by simp
  moreover have "\<forall>c \<in> set (rs @ ts). server_call (fst c)" using i(4) t(2) by auto
  ultimately show ?case using i(2,3) t(3,4) by blast
qed

definition agentd_boot :: agentd where
  "agentd_boot = \<lparr>u_calls = [], u_pbuf = [], u_pfd = - 1, ag_table = table_init\<rparr>"

theorem agentd_serves_in_jail_witness:
  "\<exists>u. agentd_serves (\<lambda>_ _. (0, [])) agentd_boot u \<and>
     (\<exists>js r bs rs. u_calls u = js @ (U_jail JAIL, r, bs) # rs \<and> map fst js = jail_setup \<and> 0 \<le> r \<and>
        list_all (\<lambda>c. server_call (fst c)) rs) \<and> tab_ok (ag_table u)"
proof -
  let ?K = "\<lambda>_ _. (0, []) :: ureply"
  have "\<exists>u. agentd_start ?K agentd_boot = (True, u)" by (simp add: agentd_start_def sys_def Let_def)
  then obtain u where u: "agentd_serves ?K agentd_boot u" using a_start by blast
  have "\<exists>js r bs rs. u_calls u = js @ (U_jail JAIL, r, bs) # rs \<and> map fst js = jail_setup \<and> 0 \<le> r \<and>
    (\<forall>c \<in> set rs. server_call (fst c)) \<and> tab_ok (ag_table u) \<and> u_pbuf u = []"
    by (rule agentd_serves_in_jail [OF u]) (simp_all add: agentd_boot_def)
  then show ?thesis using u unfolding list_all_iff by blast
qed

section \<open>From the kernel's dispatcher to the handlers\<close>

lemma takeWhile_take: "x \<in> set (take n xs) \<Longrightarrow> \<not> P x \<Longrightarrow> takeWhile P (take n xs) = takeWhile P xs"
  by (metis append_take_drop_id takeWhile_append1)

text \<open>The command agentd sees in a forwarded line is the one the kernel compared with the deny list.\<close>

lemma wire_line_cmd:
  assumes "req_split (wire_line w) = Some (cmd, arg)"
  shows "cmd = wire_cmd w"
proof -
  let ?t = "take 251 (cstr w)"
  have d: "drop 4 (wire_line w) = ?t" by (simp add: wire_line_def)
  have nn: "NUL \<notin> set ?t" using cstr_no_NUL in_set_takeD by fastforce
  have c: "cmd = takeWhile (\<lambda>c. c \<noteq> NUL \<and> c \<noteq> CHR ''|'') ?t" and b: "deref (scan_to CHR ''|'' ?t) = CHR ''|''"
    using assms by (auto simp: req_split_def Let_def d before_scan split: if_splits)
  have "CHR ''|'' \<in> set s" if "deref (scan_to CHR ''|'' s) = CHR ''|''" for s
    using that by (induction s) (auto simp: deref_def split: if_splits)
  then have bar: "CHR ''|'' \<in> set ?t" using b by blast
  have "cmd = takeWhile (\<lambda>c. c \<noteq> CHR ''|'') ?t"
    unfolding c by (rule takeWhile_cong) (use nn in auto)
  then show ?thesis unfolding wire_cmd_def using takeWhile_take [OF bar] by simp
qed

text \<open>
  C36: a denied command is not run.  Let the kernel route any line of the host, in any state and with whatever
  else waiting, except \<open>ASK\<close> and \<open>LLM_RESP\<close>, whose answers are sent on unchecked.  If its command is on the
  deny list, nothing is added to the queue of the agent runtime.  If a line is added and the runtime executes
  it, then besides output and the setting of its own priority it makes only calls that the command of the host's line, with the argument in
  the queued line, may make, and this command is in the runtime's table and not on the deny list.
\<close>

theorem denied_commands_not_run:
  assumes "aq_inv (k_agentq k)" "agent_dispatch_now line k = Some k'" "line_cmd line \<notin> {Some ''ASK'', Some ''LLM_RESP''}"
    and "u_pbuf u = []" "tab_ok (ag_table u)"
  shows "(\<forall>cmd. line_cmd line = Some cmd \<and> deny_listed (k_deny k) cmd \<longrightarrow>
      aq_lines (k_agentq k') = aq_lines (k_agentq k)) \<and>
    (\<forall>l K b u'. aq_lines (k_agentq k') = aq_lines (k_agentq k) @ [l] \<and> execute K l u = Some (b, u') \<longrightarrow>
      (\<exists>cs. calls_of u' = calls_of u @ cs \<and>
        (\<forall>c \<in> set cs. is_output c \<or> own_prio K u c \<or>
          (\<exists>cmd arg. line_cmd line = Some cmd \<and> req_split l = Some (cmd, arg) \<and> \<not> deny_listed (k_deny k) cmd \<and>
             cmd \<in> fn_name ` set table_init \<and> permitted cmd arg c))))"
proof -
  have q: "aq_lines (k_agentq k') = aq_lines (k_agentq k) @
      take (AGENTQ_N - aq_count (k_agentq k)) (opt_list (forwarded (k_deny k) line))"
    using dispatch_now_exact [OF assms(1,2)] assms(3) by (simp add: asks_llm_def)
  have f: "line_cmd line = Some cmd \<and> \<not> deny_listed (k_deny k) cmd"
    if "forwarded (k_deny k) line = Some l" "req_split l = Some (cmd, arg)" for l cmd arg
    using that assms(3) wire_line_cmd by (auto simp: forwarded_def line_cmd_def split: option.splits if_splits)
  have none: "forwarded (k_deny k) line = None" if "line_cmd line = Some cmd" "deny_listed (k_deny k) cmd" for cmd
    using that assms(3) by (auto simp: forwarded_def line_cmd_def)
  have some: "forwarded (k_deny k) line = Some l" if "aq_lines (k_agentq k') = aq_lines (k_agentq k) @ [l]" for l
    using that q by (auto simp: opt_list_def take_Cons' split: option.splits if_splits)
  have run: "\<exists>cs. calls_of u' = calls_of u @ cs \<and>
        (\<forall>c \<in> set cs. is_output c \<or> own_prio K u c \<or>
          (\<exists>cmd arg. line_cmd line = Some cmd \<and> req_split l = Some (cmd, arg) \<and> \<not> deny_listed (k_deny k) cmd \<and>
             cmd \<in> fn_name ` set table_init \<and> permitted cmd arg c))"
    if l: "aq_lines (k_agentq k') = aq_lines (k_agentq k) @ [l]" "execute K l u = Some (b, u')" for l K b u'
  proof -
    obtain cs where cs: "calls_of u' = calls_of u @ cs" "\<forall>c \<in> set cs. is_output c \<or> own_prio K u c \<or>
        (\<exists>cmd arg. is_req_line l \<and> req_split l = Some (cmd, arg) \<and> cmd \<in> fn_name ` set table_init \<and> permitted cmd arg c \<and> (b \<longrightarrow> \<not> leaves c))"
      using execute_effect [OF l(2) assms(4,5)] by blast
    note fl = f [OF some [OF l(1)]]
    have "is_output c \<or> own_prio K u c \<or> (\<exists>cmd arg. line_cmd line = Some cmd \<and> req_split l = Some (cmd, arg) \<and> \<not> deny_listed (k_deny k) cmd \<and>
        cmd \<in> fn_name ` set table_init \<and> permitted cmd arg c)" if c: "c \<in> set cs" for c
    proof (cases "is_output c \<or> own_prio K u c")
      case False
      then obtain cmd arg where "req_split l = Some (cmd, arg)" "cmd \<in> fn_name ` set table_init" "permitted cmd arg c"
        using cs(2) c by auto
      then show ?thesis using fl by blast
    qed blast
    then show ?thesis using cs(1) by blast
  qed
  show ?thesis
  proof (intro conjI allI impI)
    fix cmd
    assume "line_cmd line = Some cmd \<and> deny_listed (k_deny k) cmd"
    then show "aq_lines (k_agentq k') = aq_lines (k_agentq k)" using q none by (simp add: opt_list_def)
  qed (use run in blast)
qed

text \<open>With a kernel that answers 0 to everything, \<open>LS\<close> finds an empty directory.\<close>

lemma ls_none: "\<exists>u'. do_ls (\<lambda>_ _. (0, [])) arg u = Some u' \<and> U_open ''.'' O_RDONLY \<in> set (calls_of u')" for u :: agentd
proof -
  let ?K = "\<lambda>_ _. (0, []) :: ureply"
  let ?u1 = "sys_void ?K (U_open ''.'' O_RDONLY) u"
  let ?u2 = "uprintf ?K (''[agentd] sandbox file list:'' @ NL) [] ?u1"
  let ?u3 = "sys_void ?K (U_close 0) (sys_void ?K (U_read 0 16) ?u2)"
  have sys: "sys ?K c v = (0, [], sys_void ?K c v)" for c and v :: agentd by (simp add: sys_void_def sys_def)
  have "do_ls ?K arg u = Some (uprintf ?K (''[agentd]   (sandbox is empty)'' @ NL) [] ?u3)"
    by (simp add: do_ls_def sys ls_loop.simps)
  moreover have "grows ?u1 (uprintf ?K (''[agentd]   (sandbox is empty)'' @ NL) [] ?u3)"
    by (rule grows_trans [OF grows_printf grows_trans [OF grows_void grows_trans [OF grows_void grows_printf]]])
  moreover have "U_open ''.'' O_RDONLY \<in> set (calls_of ?u1)" by simp
  ultimately show ?thesis by (auto simp: grows_def calls_of_def)
qed

theorem denied_commands_not_run_witness:
  "\<exists>k' u'. agent_dispatch_now ''REQ|LS|.'' agent_sample = Some k' \<and> aq_lines (k_agentq k') = [''REQ|LS|.''] \<and>
     execute (\<lambda>_ _. (0, [])) ''REQ|LS|.'' agentd_boot = Some (True, u') \<and> U_open ''.'' O_RDONLY \<in> set (calls_of u') \<and>
     list_all (\<lambda>c. is_output c \<or> own_prio (\<lambda>_ _. (0, [])) agentd_boot c \<or> permitted ''LS'' ''.'' c) (calls_of u')"
proof -
  let ?K = "\<lambda>_ _. (0, []) :: ureply"
  note f = agent_sample_facts
  have n: "line_cmd ''REQ|LS|.'' = Some ''LS''" by (simp add: line_cmd_def sample_wires)
  have d: "agent_dispatch_now ''REQ|LS|.'' agent_sample = Some (forward_wire_to_agentd ''LS|.'' agent_sample)"
    by (simp add: dispatch_now_wire sample_wires f sample_denied)
  have "aq_count (k_agentq agent_sample) = 0" using f(2) by (metis aq_lines_length list.size(3))
  then have q: "aq_lines (k_agentq (forward_wire_to_agentd ''LS|.'' agent_sample)) = [''REQ|LS|.'']"
    using forward_wire_lines(2) [OF f(1)] f(2) by (simp add: sample_wires AGENTQ_N_def)
  have s: "req_split ''REQ|LS|.'' = Some (''LS'', ''.'')" by (simp add: req_split_def Let_def deref_def before_def)
  have "\<exists>f. find (\<lambda>f. streq ''LS'' (fn_name f)) (ag_table agentd_boot) = Some f \<and> fn_allowed f"
    by (simp add: agentd_boot_def table_init_def mk_fn_def)
  then obtain fn where fn: "find (\<lambda>f. streq ''LS'' (fn_name f)) (ag_table agentd_boot) = Some fn" "fn_allowed fn" by blast
  define v where "v = sys_void ?K (U_setpriority 0 (fn_priority fn)) (sys_void ?K U_getpid agentd_boot)"
  obtain u' where ls: "do_ls ?K ''.'' v = Some u'" "U_open ''.'' O_RDONLY \<in> set (calls_of u')"
    using ls_none [of _ v] by blast
  have "execute ?K ''REQ|LS|.'' agentd_boot = run_command ?K ''LS'' ''.'' v"
    unfolding execute_def s option.case prod.case fn(1) using fn(2)
    by (simp add: is_req_line_def deref_def v_def sys_void_def sys_def)
  then have u': "execute ?K ''REQ|LS|.'' agentd_boot = Some (True, u')" "U_open ''.'' O_RDONLY \<in> set (calls_of u')"
    using ls by (simp_all add: run_command_def)
  have "\<exists>cs. calls_of u' = calls_of agentd_boot @ cs \<and>
        (\<forall>c \<in> set cs. is_output c \<or> own_prio ?K agentd_boot c \<or>
          (\<exists>cmd arg. line_cmd ''REQ|LS|.'' = Some cmd \<and> req_split ''REQ|LS|.'' = Some (cmd, arg) \<and> \<not> deny_listed (k_deny agent_sample) cmd \<and>
             cmd \<in> fn_name ` set table_init \<and> permitted cmd arg c))"
  proof -
    have p: "line_cmd ''REQ|LS|.'' \<notin> {Some ''ASK'', Some ''LLM_RESP''}" "u_pbuf agentd_boot = []" "tab_ok (ag_table agentd_boot)"
      using n tab_init by (simp_all add: agentd_boot_def)
    have "aq_lines (k_agentq (forward_wire_to_agentd ''LS|.'' agent_sample)) = aq_lines (k_agentq agent_sample) @ [''REQ|LS|.'']"
      using q f(2) by simp
    then show ?thesis using denied_commands_not_run [OF f(1) d p] u'(1) by blast
  qed
  then show ?thesis using d q u' n s by (auto simp: list_all_iff agentd_boot_def calls_of_def)
qed

end
