(* ===== verification/Denyctl.thy ===== *)
theory Denyctl
  imports Agentd_Calls
begin

text \<open>
  The deny-list tool, \<open>user/denyctl.c\<close>, with \<open>strcmp\<close> of \<open>user/ulib.c\<close>.  The functions run against a
  kernel \<open>K\<close> as in theory \<open>User\<close>; a Boolean result is \<open>False\<close> when the process has exited.  The theorem
  at the end ties \<open>save\<close> and \<open>load\<close> to the kernel's deny table of theory \<open>Denylist\<close>.
\<close>

section \<open>The program\<close>

fun strcmp :: "string \<Rightarrow> string \<Rightarrow> int" where
  "strcmp [] q = - byte_of (deref q)"
| "strcmp (p # ps) q =
     (if p \<noteq> NUL \<and> p = deref q then strcmp ps (tl q) else byte_of p - byte_of (deref q))"

definition CONF :: string where "CONF = ''/denylist.conf''"
definition BUFSZ :: nat where "BUFSZ = DENY_MAX * DENY_NAMELEN"

definition usage :: "kern \<Rightarrow> user \<Rightarrow> user" where
  "usage K u = uprintf K (''usage: denyctl list | add <CMD> | rm <CMD> | reset | save | load'' @ NL) [] u"

definition die :: "kern \<Rightarrow> string \<Rightarrow> va list \<Rightarrow> user \<Rightarrow> bool \<times> user" where
  "die K fmt ap u = (False, sys_void K (U_exit 1) (uprintf K fmt ap u))"

text \<open>The lines of a buffer: each ends at a newline or at the end of the string.\<close>

function split_lines :: "string \<Rightarrow> string list" where
  "split_lines s =
     (if deref s = NUL then []
      else let e = scan_to CHR 0x0A s in before s e # split_lines (if deref e \<noteq> NUL then tl e else e))"
  by pat_completeness auto
termination
proof (relation "measure length")
  fix s e
  assume "deref s \<noteq> NUL" "e = scan_to CHR 0x0A s"
  then show "((if deref e \<noteq> NUL then tl e else e), s) \<in> measure length"
    using scan_to_shorter [of s "CHR 0x0A"] scan_to_deref [of "CHR 0x0A" s] by (simp split: if_splits)
qed simp

declare split_lines.simps [simp del]

definition deny_do_list :: "kern \<Rightarrow> user \<Rightarrow> bool \<times> user" where
  "deny_do_list K u =
     (let (n, buf, u) = sys K (U_get_deny BUFSZ) u
      in if n < 0 then die K (''denyctl: get_deny failed'' @ NL) [] u
         else
           let buf = take (nat n) buf;
               u = uprintf K (''deny list (kernel hard boundary):'' @ NL) [] u
           in if n = 0 then (True, uprintf K (''  (empty '' @ map char_of [0xE2, 0x80, 0x94 :: nat] @ '' nothing blocked)'' @ NL) [] u)
              else (True, fold (\<lambda>s u. uprintf K (''  %s'' @ NL) [VStr (Some s)] u) (split_lines buf) u))"

definition do_save :: "kern \<Rightarrow> user \<Rightarrow> bool \<times> user" where
  "do_save K u =
     (let (n, buf, u) = sys K (U_get_deny BUFSZ) u
      in if n < 0 then die K (''denyctl: get_deny failed'' @ NL) [] u
         else
           let (fd, _, u) = sys K (U_open CONF (or (or O_CREATE O_TRUNC) O_WRONLY)) u
           in if fd < 0 then die K (''denyctl: cannot open %s for writing'' @ NL) [VStr (Some CONF)] u
              else
                let (wn, _, u) = (if n > 0 then sys K (U_write fd (take (nat n) buf)) u else (n, [], u))
                in if wn \<noteq> n
                   then (False, sys_void K (U_exit 1) (sys_void K (U_close fd)
                          (uprintf K (''denyctl: write to %s failed'' @ NL) [VStr (Some CONF)] u)))
                   else (True, uprintf K (''denyctl: saved deny list to %s (survives reboot)'' @ NL) [VStr (Some CONF)]
                          (sys_void K (U_close fd) u)))"

text \<open>The reading loop: \<open>n\<close> bytes are in \<open>buf\<close>.\<close>

function load_read :: "kern \<Rightarrow> int \<Rightarrow> nat \<Rightarrow> string \<Rightarrow> user \<Rightarrow> string \<times> user" where
  "load_read K fd n buf u =
     (if n < BUFSZ - 1
      then
        let (r, bs, u) = sys K (U_read fd (BUFSZ - 1 - n)) u
        in if r > 0 then load_read K fd (n + nat r) (buf @ take (nat r) bs) u else (buf, u)
      else (buf, u))"
  by pat_completeness auto
termination
  by (relation "measure (\<lambda>(K, fd, n, buf, u). BUFSZ - n)") auto

declare load_read.simps [simp del]

text \<open>The adding loop with its counter; blank lines are skipped.\<close>

fun load_add :: "kern \<Rightarrow> string list \<Rightarrow> int \<Rightarrow> user \<Rightarrow> int \<times> user" where
  "load_add K [] count u = (count, u)"
| "load_add K (s # ss) count u =
     (if deref s \<noteq> NUL
      then let (r, _, u) = sys K (U_set_deny DENY_ADD s) u in load_add K ss (if r = 0 then count + 1 else count) u
      else load_add K ss count u)"

definition do_load :: "kern \<Rightarrow> user \<Rightarrow> user" where
  "do_load K u =
     (let (fd, _, u) = sys K (U_open CONF O_RDONLY) u
      in if fd < 0 then u
         else
           let (buf, u) = load_read K fd 0 [] u;
               u = sys_void K (U_close fd) u;
               u = sys_void K (U_set_deny DENY_CLEAR []) u;
               (count, u) = load_add K (split_lines buf) 0 u
           in uprintf K (''denyctl: loaded %d entries from %s'' @ NL) [VInt count, VStr (Some CONF)] u)"

definition do_mutate :: "kern \<Rightarrow> int \<Rightarrow> string \<Rightarrow> string \<Rightarrow> user \<Rightarrow> bool \<times> user" where
  "do_mutate K oper cmd verb u =
     (let (r, _, u) = sys K (U_set_deny oper cmd) u
      in if r < 0
         then die K (''denyctl: %s '' @ QT @ ''%s'' @ QT @ '' failed (list full, not present, or not permitted)'' @ NL)
                [VStr (Some verb), VStr (Some cmd)] u
         else (True, uprintf K (''denyctl: %s '' @ QT @ ''%s'' @ QT @ '' (one-time '' @ map char_of [0xE2, 0x80, 0x94 :: nat] @
                '' run '' @ QT @ ''denyctl save'' @ QT @ '' to persist)'' @ NL) [VStr (Some verb), VStr (Some cmd)] u))"

definition usage_exit :: "kern \<Rightarrow> user \<Rightarrow> bool \<times> user" where
  "usage_exit K u = (False, sys_void K (U_exit 1) (usage K u))"

definition denyctl_main :: "kern \<Rightarrow> string list \<Rightarrow> user \<Rightarrow> user" where
  "denyctl_main K argv u =
     (let (ok, u) =
        (if length argv < 2 then usage_exit K u
         else if strcmp (argv ! 1) ''list'' = 0 then deny_do_list K u
         else if strcmp (argv ! 1) ''reset'' = 0
         then (let (r, _, u) = sys K (U_set_deny DENY_RESET []) u
               in if r < 0 then die K (''denyctl: reset not permitted'' @ NL) [] u
                  else (True, uprintf K (''denyctl: reset to default {KILL, EXEC} (run '' @ QT @ ''denyctl save'' @ QT @ '' to persist)'' @ NL) [] u))
         else if strcmp (argv ! 1) ''save'' = 0 then do_save K u
         else if strcmp (argv ! 1) ''load'' = 0 then (True, do_load K u)
         else if strcmp (argv ! 1) ''add'' = 0
         then (if length argv < 3 then usage_exit K u else do_mutate K DENY_ADD (argv ! 2) ''denied'' u)
         else if strcmp (argv ! 1) ''rm'' = 0
         then (if length argv < 3 then usage_exit K u else do_mutate K DENY_REMOVE (argv ! 2) ''allowed'' u)
         else usage_exit K u)
      in if ok then sys_void K (U_exit 0) u else u)"

section \<open>The text of a deny list\<close>

definition deny_text :: "string list \<Rightarrow> string" where
  "deny_text ns = concat (map (\<lambda>n. n @ NL) ns)"

lemma snapshot_name_cstr: "snapshot_name out s mx = snapshot_name out (cstr s) mx"
  by (induction s arbitrary: out) (auto simp: cstr_def)

lemma snapshot_name_full: "int (length out + length (cstr s)) \<le> mx - 2 \<Longrightarrow> snapshot_name out s mx = out @ cstr s"
proof -
  have "snapshot_name out t mx = out @ t" if "NUL \<notin> set t" "int (length out + length t) \<le> mx - 2" for t
    using that by (induction t arbitrary: out) auto
  then show "int (length out + length (cstr s)) \<le> mx - 2 \<Longrightarrow> ?thesis"
    using snapshot_name_cstr [of out s mx] by simp
qed

lemma snapshot_loop_full:
  "int (length out + length (deny_text (map cstr ss))) \<le> mx - 1 \<Longrightarrow> snapshot_loop out ss mx = out @ deny_text (map cstr ss)"
proof (induction ss arbitrary: out)
  case (Cons s ss)
  have n: "snapshot_name out s mx = out @ cstr s" by (rule snapshot_name_full) (use Cons.prems in \<open>simp add: deny_text_def\<close>)
  show ?case using Cons.prems Cons.IH [of "out @ cstr s @ NL"] by (simp add: n deny_text_def)
qed (simp add: deny_text_def)

lemma snapshot_text:
  assumes "int (length (deny_text (deny_names dl))) \<le> mx - 1" "deny_snapshot buf mx dl = (n, snap)"
  shows "n = int (length (deny_text (deny_names dl)))" "take (nat n) snap = deny_text (deny_names dl)"
  using assms snapshot_loop_full [of "[]" "take (dl_count dl) (dl_names dl)" mx]
  by (auto simp: deny_snapshot_def deny_names_def Let_def)

lemma scan_line: "NUL \<notin> set n \<Longrightarrow> CHR 0x0A \<notin> set n \<Longrightarrow> scan_to CHR 0x0A (n @ CHR 0x0A # r) = CHR 0x0A # r"
  by (induction n) auto

lemma split_lines_text: "\<forall>n \<in> set ns. NUL \<notin> set n \<and> CHR 0x0A \<notin> set n \<Longrightarrow> split_lines (deny_text ns) = ns"
proof (induction ns)
  case Nil
  then show ?case by (simp add: deny_text_def split_lines.simps deref_def)
next
  case (Cons n ns)
  let ?s = "n @ CHR 0x0A # deny_text ns"
  have d: "deref ?s \<noteq> NUL" using Cons.prems by (cases n) (auto simp: deref_def)
  have sc: "scan_to CHR 0x0A ?s = CHR 0x0A # deny_text ns" using Cons.prems scan_line by simp
  have "split_lines ?s = before ?s (CHR 0x0A # deny_text ns) # split_lines (deny_text ns)"
    using d by (subst split_lines.simps) (simp add: sc Let_def deref_def)
  then show ?case using Cons by (simp add: deny_text_def before_def)
qed

section \<open>Requests to the kernel\<close>

text \<open>The request that a \<open>set_deny\<close> call makes, with the operation codes as in \<open>sys_set_deny\<close>.\<close>

fun deny_request :: "ucall \<Rightarrow> filter_op option" where
  "deny_request (U_set_deny oper s) =
     (if oper = DENY_RESET then Some Filter_Reset else if oper = DENY_CLEAR then Some Filter_Clear
      else if oper = DENY_ADD then Some (Filter_Add s) else if oper = DENY_REMOVE then Some (Filter_Remove s) else None)"
| "deny_request _ = None"

definition requests :: "'a user_scheme \<Rightarrow> filter_op list" where
  "requests u = List.map_filter deny_request (calls_of u)"

lemma requests_calls: "calls_of u' = calls_of u @ cs \<Longrightarrow> requests u' = requests u @ List.map_filter deny_request cs"
  by (simp add: requests_def List.map_filter_def)

lemma requests_sys: "sys K c u = (r, bs, u') \<Longrightarrow> requests u' = requests u @ (case deny_request c of None \<Rightarrow> [] | Some x \<Rightarrow> [x])"
  using requests_calls [of u' u "[c]"] sys_calls [of K c u r bs u'] by (simp add: map_filter_simps split: option.splits)

lemma requests_void [simp]: "requests (sys_void K c u) = requests u @ (case deny_request c of None \<Rightarrow> [] | Some x \<Rightarrow> [x])"
  using requests_sys [of K c u] by (cases "sys K c u") (auto simp: sys_void_def)

lemma printf_calls:
  assumes "u_pbuf u = []"
  obtains ws where "calls_of (uprintf K fmt ap u) = calls_of u @ map (U_write 1) ws" "u_pbuf (uprintf K fmt ap u) = []"
  using vprintf_out_state [of 1 u K fmt ap] assms by (auto simp: uprintf_def)

lemma requests_printf: "u_pbuf u = [] \<Longrightarrow> requests (uprintf K fmt ap u) = requests u"
proof (erule printf_calls [of u K fmt ap])
  fix ws
  assume "calls_of (uprintf K fmt ap u) = calls_of u @ map (U_write 1) ws"
  moreover have "List.map_filter deny_request (map (U_write 1) ws) = []" by (induction ws) (simp_all add: map_filter_simps)
  ultimately show ?thesis by (simp add: requests_calls)
qed

lemma load_add_requests:
  "\<forall>n \<in> set ns. n \<noteq> [] \<and> NUL \<notin> set n \<Longrightarrow> load_add K ns c u = (c', u') \<Longrightarrow>
     requests u' = requests u @ map Filter_Add ns \<and> u_pbuf u' = u_pbuf u"
proof (induction ns arbitrary: c u)
  case (Cons n ns)
  obtain r bs u1 where r: "sys K (U_set_deny DENY_ADD n) u = (r, bs, u1)" by (metis prod_cases3)
  have "deref n \<noteq> NUL" using Cons.prems(1) by (cases n) (auto simp: deref_def)
  then have "load_add K ns (if r = 0 then c + 1 else c) u1 = (c', u')" using Cons.prems(2) r by simp
  from Cons.IH [OF _ this] show ?case
    using Cons.prems(1) requests_sys [OF r] sys_calls [OF r] by (simp add: DENY_ADD_def DENY_RESET_def DENY_CLEAR_def)
qed simp

section \<open>Reading the file back\<close>

lemma load_read_all:
  assumes "delivers K fd F" "length F \<le> BUFSZ - 1"
  shows "bytes_read fd (u_calls u) = n \<Longrightarrow> n \<le> length F \<Longrightarrow>
    \<exists>u'. load_read K fd n (take n F) u = (F, u') \<and> requests u' = requests u \<and> u_pbuf u' = u_pbuf u"
proof (induction "BUFSZ - n" arbitrary: n u rule: less_induct)
  case less
  show ?case
  proof (cases "n < BUFSZ - 1")
    case True
    obtain r bs where K: "K (u_calls u) (U_read fd (BUFSZ - 1 - n)) = (r, bs)" by fastforce
    define u1 where "u1 = u\<lparr>u_calls := u_calls u @ [(U_read fd (BUFSZ - 1 - n), r, bs)]\<rparr>"
    have s: "sys K (U_read fd (BUFSZ - 1 - n)) u = (r, bs, u1)" unfolding sys_def K u1_def by simp
    have "0 < BUFSZ - 1 - n" using True by simp
    with assms(1) K have d: "r = int (length bs)" "bs = take (length bs) (drop n F)" "bs = [] \<longrightarrow> length F \<le> n"
      unfolding delivers_def less.prems(1) [symmetric] by blast+
    have q: "requests u1 = requests u" "u_pbuf u1 = u_pbuf u" using requests_sys [OF s] sys_calls [OF s] by simp_all
    show ?thesis
    proof (cases "bs = []")
      case True
      then show ?thesis using d less.prems(2) s \<open>n < BUFSZ - 1\<close> q by (subst load_read.simps) simp
    next
      case False
      let ?n = "n + length bs"
      have "length bs \<le> length F - n" using arg_cong [OF d(2), of length] by simp
      then have len: "n + length bs \<le> length F" using less.prems(2) by linarith
      have "take n F @ bs = take ?n F" using d(2) by (metis take_add)
      moreover have "bytes_read fd (u_calls u1) = ?n" using less.prems(1) by (simp add: u1_def bytes_read_def)
      moreover have "BUFSZ - ?n < BUFSZ - n" using True False by (cases bs) auto
      ultimately obtain u' where "load_read K fd ?n (take n F @ bs) u1 = (F, u')" "requests u' = requests u1" "u_pbuf u' = u_pbuf u1"
        using less.hyps [of ?n u1] len by auto
      then show ?thesis using True s d(1) False q by (subst load_read.simps) simp
    qed
  next
    case False
    then have "n = length F" using assms(2) less.prems(2) by simp
    then show ?thesis using False by (subst load_read.simps) simp
  qed
qed

lemma load_requests:
  assumes "delivers K fd (deny_text ns)" "length (deny_text ns) \<le> BUFSZ - 1" "\<forall>n \<in> set ns. n \<noteq> [] \<and> NUL \<notin> set n \<and> CHR 0x0A \<notin> set n"
    and "K [] (U_open CONF O_RDONLY) = (fd, bs)" "0 \<le> fd" "u_calls u = []" "u_pbuf u = []"
  shows "requests (do_load K u) = Filter_Clear # map Filter_Add ns"
proof -
  define u1 where "u1 = u\<lparr>u_calls := [(U_open CONF O_RDONLY, fd, bs)]\<rparr>"
  have s: "sys K (U_open CONF O_RDONLY) u = (fd, bs, u1)" using assms(4,6) by (simp add: sys_def u1_def)
  have "bytes_read fd (u_calls u1) = 0" by (simp add: u1_def bytes_read_def)
  from load_read_all [OF assms(1,2) this] obtain u2 where
    r: "load_read K fd 0 [] u1 = (deny_text ns, u2)" "requests u2 = requests u1" "u_pbuf u2 = u_pbuf u1" by auto
  let ?u3 = "sys_void K (U_set_deny DENY_CLEAR []) (sys_void K (U_close fd) u2)"
  obtain c u4 where l: "load_add K ns 0 ?u3 = (c, u4)" by fastforce
  have 1: "requests u1 = []" "u_pbuf u1 = []" using assms(6,7) by (simp_all add: u1_def requests_def calls_of_def map_filter_simps)
  have 3: "requests ?u3 = [Filter_Clear]" "u_pbuf ?u3 = []" using r 1 by (simp_all add: DENY_CLEAR_def DENY_RESET_def)
  have 4: "requests u4 = Filter_Clear # map Filter_Add ns" "u_pbuf u4 = []" using load_add_requests [OF _ l] assms(3) 3 by auto
  have "split_lines (deny_text ns) = ns" using split_lines_text assms(3) by blast
  then show ?thesis using assms(5) s r(1) l 4 requests_printf [of u4 K] by (simp add: do_load_def Let_def del: append.simps)
qed

text \<open>Clearing a table and adding the names of another gives the names of the other, in order.\<close>

lemma reload_names:
  assumes "deny_inv dl" "deny_inv dl'"
  shows "deny_names (fold deny_op (Filter_Clear # map Filter_Add (deny_names dl)) dl') = deny_names dl"
proof -
  let ?ops = "Filter_Clear # map Filter_Add (deny_names dl)"
  have wf: "\<forall>n \<in> set (deny_names dl). deny_wf n"
    using assms(1) by (auto simp: deny_inv_def deny_wf_def deny_names_def)
  have cap: "length (deny_names dl) \<le> DENY_MAX" using length_deny_names [OF assms(1)] assms(1) by (simp add: deny_inv_def)
  have "fold (abs_filter_op DENY_MAX deny_default) (map Filter_Add ns) ms = ms @ ns"
    if "distinct (ms @ ns)" "length (ms @ ns) \<le> DENY_MAX" for ns ms
    using that by (induction ns arbitrary: ms) auto
  then have "fold (abs_filter_op DENY_MAX deny_default) (map Filter_Add (deny_names dl)) [] = deny_names dl"
    using cap assms(1) by (simp add: deny_inv_def)
  moreover have "\<forall>x \<in> set ?ops. deny.op_wf x" using wf by auto
  ultimately show ?thesis using deny.run_refines [OF assms(2), of ?ops] by (simp add: deny_op_apply)
qed

lemma save_calls:
  assumes "K [] (U_get_deny BUFSZ) = (n, snap)" "0 \<le> n" "take (nat n) snap = F" "length F = nat n"
    and "K [(U_get_deny BUFSZ, n, snap)] (U_open CONF (or (or O_CREATE O_TRUNC) O_WRONLY)) = (fd, bs)" "0 \<le> fd"
    and "u_calls u = []" "u_pbuf u = []"
  shows "\<exists>cs. calls_of (snd (do_save K u)) =
      [U_get_deny BUFSZ, U_open CONF (or (or O_CREATE O_TRUNC) O_WRONLY)] @ (if F = [] then [] else [U_write fd F]) @ cs \<and>
    (\<forall>c \<in> set cs. is_output c \<or> c = U_close fd \<or> c = U_exit 1)"
proof -
  let ?m = "or (or O_CREATE O_TRUNC) O_WRONLY"
  define v1 where "v1 = u\<lparr>u_calls := [(U_get_deny BUFSZ, n, snap)]\<rparr>"
  define v2 where "v2 = u\<lparr>u_calls := [(U_get_deny BUFSZ, n, snap), (U_open CONF ?m, fd, bs)]\<rparr>"
  have s1: "sys K (U_get_deny BUFSZ) u = (n, snap, v1)" using assms(1,7) by (simp add: sys_def v1_def)
  have s2: "sys K (U_open CONF ?m) v1 = (fd, bs, v2)" using assms(5) by (simp add: sys_def v1_def v2_def)
  obtain wn b v where s3: "(if n > 0 then sys K (U_write fd F) v2 else (n, [], v2)) = (wn, b, v)" by (metis prod_cases3)
  have v2: "calls_of v2 = [U_get_deny BUFSZ, U_open CONF ?m]" "u_pbuf v2 = []" using assms(8) by (simp_all add: v2_def calls_of_def)
  have v: "calls_of v = calls_of v2 @ (if F = [] then [] else [U_write fd F])" "u_pbuf v = []"
    using s3 sys_calls [of K "U_write fd F" v2 wn b v] assms(2,4) v2(2) by (auto split: if_splits)
  have out: "\<exists>ws. calls_of (uprintf K fmt ap x) = calls_of x @ map (U_write 1) ws" if "u_pbuf x = []" for fmt ap and x :: user
    using printf_calls [OF that, of K fmt ap] by blast
  have main: "snd (do_save K u) =
     (if wn \<noteq> n then sys_void K (U_exit 1) (sys_void K (U_close fd) (uprintf K (''denyctl: write to %s failed'' @ NL) [VStr (Some CONF)] v))
      else uprintf K (''denyctl: saved deny list to %s (survives reboot)'' @ NL) [VStr (Some CONF)] (sys_void K (U_close fd) v))"
    unfolding do_save_def s1 prod.case Let_def s2 assms(3) s3 using assms(2,6) by simp
  have "\<exists>cs. calls_of (snd (do_save K u)) = calls_of v @ cs \<and> (\<forall>c \<in> set cs. is_output c \<or> c = U_close fd \<or> c = U_exit 1)"
  proof (cases "wn \<noteq> n")
    case True
    obtain ws where ws: "calls_of (uprintf K (''denyctl: write to %s failed'' @ NL) [VStr (Some CONF)] v) = calls_of v @ map (U_write 1) ws"
      using out [OF v(2)] by blast
    show ?thesis unfolding main using True ws
      by (intro exI [of _ "map (U_write 1) ws @ [U_close fd, U_exit 1]"]) (auto simp: is_output_def)
  next
    case False
    have "u_pbuf (sys_void K (U_close fd) v) = []" using v(2) by simp
    then obtain ws where ws: "calls_of (uprintf K (''denyctl: saved deny list to %s (survives reboot)'' @ NL) [VStr (Some CONF)] (sys_void K (U_close fd) v)) =
        calls_of (sys_void K (U_close fd) v) @ map (U_write 1) ws" using out by blast
    show ?thesis unfolding main using False ws
      by (intro exI [of _ "U_close fd # map (U_write 1) ws"]) (auto simp: is_output_def)
  qed
  then show ?thesis using v v2 by auto
qed

text \<open>
  C37: \<open>denyctl save\<close> and \<open>denyctl load\<close> carry the deny list over a reboot.  Let the names in the table be non-empty and
  free of newlines, and their text, one name per line, fit the 384-byte buffer.  Then \<open>save\<close> writes exactly this text to the truncated configuration
  file and nothing else to it; and \<open>load\<close> in a later process, on a kernel that delivers this text in
  pieces of any size, makes requests that turn any deny table into one with the same names in the same order.
\<close>

theorem denyctl_save_load:
  assumes "deny_inv dl" "deny_inv dl'" "\<forall>n \<in> set (deny_names dl). n \<noteq> [] \<and> CHR 0x0A \<notin> set n"
    and "length (deny_text (deny_names dl)) \<le> BUFSZ - 1"
    and "K1 [] (U_get_deny BUFSZ) = deny_snapshot buf (int BUFSZ) dl"
    and "K1 [(U_get_deny BUFSZ, deny_snapshot buf (int BUFSZ) dl)] (U_open CONF (or (or O_CREATE O_TRUNC) O_WRONLY)) = (fd1, bs1)" "0 \<le> fd1"
    and "K2 [] (U_open CONF O_RDONLY) = (fd2, bs2)" "0 \<le> fd2" "delivers K2 fd2 (deny_text (deny_names dl))"
    and "u_calls u1 = []" "u_pbuf u1 = []" "u_calls u2 = []" "u_pbuf u2 = []"
  shows "(\<exists>cs. calls_of (snd (do_save K1 u1)) =
        [U_get_deny BUFSZ, U_open CONF (or (or O_CREATE O_TRUNC) O_WRONLY)] @
        (if deny_names dl = [] then [] else [U_write fd1 (deny_text (deny_names dl))]) @ cs \<and>
      (\<forall>c \<in> set cs. is_output c \<or> c = U_close fd1 \<or> c = U_exit 1)) \<and>
    deny_names (fold deny_op (requests (do_load K2 u2)) dl') = deny_names dl"
proof -
  obtain n snap where sn: "deny_snapshot buf (int BUFSZ) dl = (n, snap)" by fastforce
  have fit: "int (length (deny_text (deny_names dl))) \<le> int BUFSZ - 1"
    using assms(4) by (simp add: BUFSZ_def DENY_MAX_def DENY_NAMELEN_def)
  note t = snapshot_text [OF fit sn]
  have ne: "deny_text (deny_names dl) = [] \<longleftrightarrow> deny_names dl = []" by (auto simp: deny_text_def)
  have nn: "\<forall>n \<in> set (deny_names dl). NUL \<notin> set n" by (simp add: deny_names_def)
  have "\<exists>cs. calls_of (snd (do_save K1 u1)) =
      [U_get_deny BUFSZ, U_open CONF (or (or O_CREATE O_TRUNC) O_WRONLY)] @
      (if deny_text (deny_names dl) = [] then [] else [U_write fd1 (deny_text (deny_names dl))]) @ cs \<and>
    (\<forall>c \<in> set cs. is_output c \<or> c = U_close fd1 \<or> c = U_exit 1)"
    by (rule save_calls [of K1 n snap]) (use assms(5-7,11,12) sn t in auto)
  moreover have "requests (do_load K2 u2) = Filter_Clear # map Filter_Add (deny_names dl)"
    by (rule load_requests [OF assms(10,4)]) (use assms(3,8,9,13,14) nn in auto)
  ultimately show ?thesis using reload_names [OF assms(1,2)] unfolding ne by simp
qed

text \<open>A kernel with one open file of the given contents, and one that answers \<open>get_deny\<close> from a table.\<close>

definition deny_kern :: "denylist \<Rightarrow> kern" where
  "deny_kern dl h c = (case c of U_get_deny n \<Rightarrow> deny_snapshot [] (int n) dl | _ \<Rightarrow> (3, []))"

theorem denyctl_save_load_witness:
  "(\<exists>cs. calls_of (snd (do_save (deny_kern denylist_boot) \<lparr>u_calls = [], u_pbuf = [], u_pfd = - 1\<rparr>)) =
      [U_get_deny BUFSZ, U_open CONF (or (or O_CREATE O_TRUNC) O_WRONLY), U_write 3 (deny_text [''KILL'', ''EXEC''])] @ cs) \<and>
   deny_names (fold deny_op (requests (do_load (file_kern (deny_text [''KILL'', ''EXEC''])) \<lparr>u_calls = [], u_pbuf = [], u_pfd = - 1\<rparr>))
     (deny_clear denylist_boot)) = [''KILL'', ''EXEC'']"
proof -
  let ?u = "\<lparr>u_calls = [], u_pbuf = [], u_pfd = - 1\<rparr>"
  let ?dl = denylist_boot
  have inv: "deny_inv ?dl" "deny_names ?dl = [''KILL'', ''EXEC'']" using denylist_boot_inv by (auto simp: deny_default_def)
  have "(\<exists>cs. calls_of (snd (do_save (deny_kern ?dl) ?u)) =
        [U_get_deny BUFSZ, U_open CONF (or (or O_CREATE O_TRUNC) O_WRONLY)] @
        (if deny_names ?dl = [] then [] else [U_write 3 (deny_text (deny_names ?dl))]) @ cs \<and>
      (\<forall>c \<in> set cs. is_output c \<or> c = U_close 3 \<or> c = U_exit 1)) \<and>
    deny_names (fold deny_op (requests (do_load (file_kern (deny_text (deny_names ?dl))) ?u)) (deny_clear ?dl)) = deny_names ?dl"
    by (rule denyctl_save_load [of ?dl "deny_clear ?dl" "deny_kern ?dl" "[]" 3 "[]" "file_kern (deny_text (deny_names ?dl))" 3 "[]"])
      (use inv deny_clear_inv [OF inv(1)] in \<open>auto simp: deny_kern_def file_kern_def file_kern_delivers deny_text_def BUFSZ_def DENY_MAX_def DENY_NAMELEN_def\<close>)
  then show ?thesis unfolding inv(2) by auto
qed

end
