(* ===== verification/Paths.thy ===== *)
theory Paths
  imports Refs
begin

text \<open>
  Path resolution, \<open>namex\<close> of \<open>kernel/fs.c\<close>, against an abstract directory tree.  The tree is
  read off the disk: \<open>dir_look\<close> finds a name in the entries of a directory, \<open>resolve\<close> walks a list of
  names, staying at the jail root on \<open>..\<close>.  On a consistent disk whose in-memory inodes are clean,
  \<open>namex\<close> computes exactly this walk, with one more reference on the inode it returns.
\<close>

section \<open>Path elements\<close>

fun split_slash :: "string \<Rightarrow> string list" where
  "split_slash [] = [[]]"
| "split_slash (c # cs) =
     (if c = SLASH then [] # split_slash cs
      else (c # hd (split_slash cs)) # tl (split_slash cs))"

definition path_elems :: "string \<Rightarrow> string list" where
  "path_elems path = filter (\<lambda>e. e \<noteq> []) (split_slash (cstr path))"

lemma path_elems_skip: "path_elems (dropWhile (\<lambda>c. c = SLASH) path) = path_elems path"
  by (induction path) (auto simp: path_elems_def)

lemma split_slash_run:
  assumes "SLASH \<notin> set s"
  shows "split_slash (s @ t) = (s @ hd (split_slash t)) # tl (split_slash t)"
proof (use assms in \<open>induction s\<close>)
  case Nil
  then show ?case by (cases t) auto
qed auto

lemma path_elems_run:
  assumes "SLASH \<notin> set s" "NUL \<notin> set s" "s \<noteq> []" "deref t = SLASH \<or> deref t = NUL"
  shows "path_elems (s @ t) = s # path_elems t"
proof -
  have "cstr (s @ t) = s @ cstr t" using assms(2) by (induction s) auto
  moreover have "hd (split_slash (cstr t)) = []" "filter (\<lambda>e. e \<noteq> []) (tl (split_slash (cstr t))) = path_elems t"
    using assms(4) by (cases t; auto simp: path_elems_def deref_def)+
  ultimately show ?thesis using assms(1,3) by (simp add: path_elems_def split_slash_run)
qed

lemma deref_skip: "deref (dropWhile (\<lambda>c. c = SLASH) path) \<noteq> SLASH"
  by (induction path) (auto simp: deref_def)

lemma deref_run:
  "deref (dropWhile (\<lambda>c. c \<noteq> SLASH \<and> c \<noteq> NUL) p) = SLASH \<or> deref (dropWhile (\<lambda>c. c \<noteq> SLASH \<and> c \<noteq> NUL) p) = NUL"
  by (induction p) (auto simp: deref_def)

lemma elems_empty_iff: "deref path \<noteq> SLASH \<Longrightarrow> path_elems path = [] \<longleftrightarrow> deref path = NUL"
  by (cases path) (auto simp: path_elems_def deref_def)

lemma cstr_elem_buf: "NUL \<notin> set s \<Longrightarrow>
    cstr (if length s \<ge> DIRSIZ then take DIRSIZ s else s @ [NUL] @ t) = take DIRSIZ s"
  using cstr_id [of "take DIRSIZ s"] by (auto dest: in_set_takeD)

lemma skipelem_elems:
  "case skipelem path name of
     None \<Rightarrow> path_elems path = []
   | Some (rest, name1) \<Rightarrow> \<exists>s. path_elems path = s # path_elems rest \<and> cstr name1 = take DIRSIZ s \<and>
       (deref rest = NUL \<longleftrightarrow> path_elems rest = [])"
proof -
  define p where "p = dropWhile (\<lambda>c. c = SLASH) path"
  define s where "s = takeWhile (\<lambda>c. c \<noteq> SLASH \<and> c \<noteq> NUL) p"
  define q where "q = dropWhile (\<lambda>c. c \<noteq> SLASH \<and> c \<noteq> NUL) p"
  have p: "path_elems path = path_elems p" "deref p \<noteq> SLASH"
    by (simp_all add: p_def path_elems_skip deref_skip)
  show ?thesis
  proof (cases "deref p = NUL")
    case True
    then show ?thesis using p elems_empty_iff [OF p(2)] by (simp add: skipelem_def Let_def p_def [symmetric])
  next
    case False
    have s: "SLASH \<notin> set s" "NUL \<notin> set s" by (auto simp: s_def dest: set_takeWhileD)
    have "s \<noteq> []" using False p(2) by (cases p) (auto simp: s_def deref_def)
    moreover have "deref q = SLASH \<or> deref q = NUL"
      unfolding q_def by (rule deref_run)
    ultimately have "path_elems p = s # path_elems q"
      using path_elems_run [OF s] by (metis q_def s_def takeWhile_dropWhile_id)
    then show ?thesis
      using False p(1) cstr_elem_buf [OF s(2)] elems_empty_iff [OF deref_skip, of q]
      by (simp add: skipelem_def Let_def p_def [symmetric] s_def [symmetric] q_def [symmetric] path_elems_skip)
  qed
qed

section \<open>The directory tree on disk\<close>

definition disk_inode :: "kernel \<Rightarrow> u32 \<Rightarrow> inode" where
  "disk_inode k n = dinode_read (k_blocks k (IBLOCK n (k_sb k))) (dinode_off n) inode_boot"

definition disk_bmap :: "kernel \<Rightarrow> u32 \<Rightarrow> nat \<Rightarrow> u32" where
  "disk_bmap k n bn =
     (let a = i_addrs (disk_inode k n)
      in if bn < NDIRECT then a ! bn else load32 (k_blocks k (a ! NDIRECT)) (4 * (bn - NDIRECT)))"

definition disk_slot :: "kernel \<Rightarrow> u32 \<Rightarrow> nat \<Rightarrow> dirent" where
  "disk_slot k n off =
     dirent_of (take 16 (drop (off mod 1024) (k_blocks k (disk_bmap k n (off div 1024)))))"

definition dir_entries :: "kernel \<Rightarrow> u32 \<Rightarrow> dirent list" where
  "dir_entries k n = map (disk_slot k n) (dir_offsets 0 (i_size (disk_inode k n)))"

definition names :: "string \<Rightarrow> dirent \<Rightarrow> bool" where
  "names e de \<longleftrightarrow> de_inum de \<noteq> 0 \<and> take DIRSIZ e = take DIRSIZ (cstr (de_name de))"

definition dir_look :: "kernel \<Rightarrow> u32 \<Rightarrow> string \<Rightarrow> u32 option" where
  "dir_look k n e = map_option (\<lambda>de. ucast (de_inum de)) (find (names e) (dir_entries k n))"

definition is_dir :: "kernel \<Rightarrow> u32 \<Rightarrow> bool" where
  "is_dir k n \<longleftrightarrow> i_type (disk_inode k n) = T_DIR"

text \<open>An inode that is allocated and linked.\<close>

definition live :: "kernel \<Rightarrow> u32 \<Rightarrow> bool" where
  "live k n \<longleftrightarrow> n < sb_ninodes (k_sb k) \<and> i_type (disk_inode k n) \<noteq> 0 \<and> i_nlink (disk_inode k n) \<noteq> 0"

text \<open>A directory file has whole entries and no holes, and its entries lead to live inodes.\<close>

definition dir_wf :: "kernel \<Rightarrow> u32 \<Rightarrow> bool" where
  "dir_wf k n \<longleftrightarrow>
     (let d = disk_inode k n
      in unat (i_size d) mod 16 = 0 \<and> unat (i_size d) \<le> MAXFILE * BSIZE \<and>
         (\<forall>bn < (unat (i_size d) + 1023) div 1024. disk_bmap k n bn \<noteq> 0) \<and>
         (NDIRECT * BSIZE < unat (i_size d) \<longrightarrow> i_addrs d ! NDIRECT \<noteq> 0) \<and>
         (\<forall>de \<in> set (dir_entries k n). de_inum de \<noteq> 0 \<longrightarrow> live k (ucast (de_inum de))))"

definition tree_ok :: "kernel \<Rightarrow> bool" where
  "tree_ok k \<longleftrightarrow> (\<forall>n. live k n \<longrightarrow> is_dir k n \<longrightarrow> dir_wf k n)"

text \<open>An in-memory inode whose copied fields are those on disk.\<close>

definition matches :: "kernel \<Rightarrow> inode \<Rightarrow> bool" where
  "matches k i \<longleftrightarrow> dinode_read (k_blocks k (IBLOCK (i_inum i) (k_sb k))) (dinode_off (i_inum i)) i = i"

text \<open>
  The inode table is clean: referenced inodes are live, valid copies match the disk, and only the
  inode \<open>lk\<close> is locked.
\<close>

definition slot_ok :: "nat option \<Rightarrow> kernel \<Rightarrow> nat \<Rightarrow> inode \<Rightarrow> bool" where
  "slot_ok lk k s i \<longleftrightarrow> (i_locked i \<longleftrightarrow> lk = Some s) \<and> (i_locked i \<longrightarrow> i_ref i > 0 \<and> i_valid i) \<and>
     (i_ref i > 0 \<longrightarrow> live k (i_inum i) \<and> (i_valid i \<longrightarrow> matches k i))"

definition core_ok :: "nat option \<Rightarrow> kernel \<Rightarrow> bool" where
  "core_ok lk k \<longleftrightarrow> itable_inv k \<and> (\<forall>s < length (k_itable k). slot_ok lk k s (k_itable k ! s))"

definition ident :: "kernel \<Rightarrow> nat \<Rightarrow> u32 \<times> u32" where
  "ident k i = (i_dev (k_itable k ! i), i_inum (k_itable k ! i))"

text \<open>
  A state of a walk that began in \<open>k0\<close>: only the inode table differs, the walk holds the references
  \<open>hs\<close> on top of those of \<open>k0\<close>, and inodes that were referenced in \<open>k0\<close> are still in their slots.
\<close>

definition held :: "kernel \<Rightarrow> nat list \<Rightarrow> nat option \<Rightarrow> kernel \<Rightarrow> bool" where
  "held k0 hs lk k \<longleftrightarrow> k = k0\<lparr>k_itable := k_itable k\<rparr> \<and> length (k_itable k) = length (k_itable k0) \<and>
     core_ok lk k \<and> (\<forall>i. 0 \<le> ino_refs k0 i \<and> ino_refs k i = ino_refs k0 i + int (count_list hs i)) \<and>
     (\<forall>i. ino_refs k0 i > 0 \<longrightarrow> ident k i = ident k0 i)"

lemma matches_fields:
  assumes "matches k i"
  shows "i_type i = i_type (disk_inode k (i_inum i))" "i_nlink i = i_nlink (disk_inode k (i_inum i))"
    "i_size i = i_size (disk_inode k (i_inum i))" "i_addrs i = i_addrs (disk_inode k (i_inum i))"
  using arg_cong [OF assms [unfolded matches_def], of i_type] arg_cong [OF assms [unfolded matches_def], of i_nlink]
    arg_cong [OF assms [unfolded matches_def], of i_size] arg_cong [OF assms [unfolded matches_def], of i_addrs]
  by (simp_all add: disk_inode_def dinode_read_def)

text \<open>The tree depends on the blocks and the superblock only.\<close>

lemma tree_itable [simp]:
  "disk_inode (k\<lparr>k_itable := t\<rparr>) n = disk_inode k n" "disk_bmap (k\<lparr>k_itable := t\<rparr>) n bn = disk_bmap k n bn"
  "disk_slot (k\<lparr>k_itable := t\<rparr>) n off = disk_slot k n off" "dir_entries (k\<lparr>k_itable := t\<rparr>) n = dir_entries k n"
  "dir_look (k\<lparr>k_itable := t\<rparr>) n e = dir_look k n e" "is_dir (k\<lparr>k_itable := t\<rparr>) n = is_dir k n"
  "live (k\<lparr>k_itable := t\<rparr>) n = live k n" "dir_wf (k\<lparr>k_itable := t\<rparr>) n = dir_wf k n"
  "tree_ok (k\<lparr>k_itable := t\<rparr>) = tree_ok k" "matches (k\<lparr>k_itable := t\<rparr>) i = matches k i"
proof -
  show 1: "disk_inode (k\<lparr>k_itable := t\<rparr>) n = disk_inode k n" for n by (simp add: disk_inode_def)
  show 2: "disk_bmap (k\<lparr>k_itable := t\<rparr>) n bn = disk_bmap k n bn" for n bn by (simp add: disk_bmap_def 1 Let_def)
  show 3: "disk_slot (k\<lparr>k_itable := t\<rparr>) n off = disk_slot k n off" for n off by (simp add: disk_slot_def 2)
  show 4: "dir_entries (k\<lparr>k_itable := t\<rparr>) n = dir_entries k n" for n by (simp add: dir_entries_def 1 3 cong: map_cong)
  show "dir_look (k\<lparr>k_itable := t\<rparr>) n e = dir_look k n e" by (simp add: dir_look_def 4)
  show 5: "is_dir (k\<lparr>k_itable := t\<rparr>) n = is_dir k n" for n by (simp add: is_dir_def 1)
  show 6: "live (k\<lparr>k_itable := t\<rparr>) n = live k n" for n by (simp add: live_def 1)
  show 7: "dir_wf (k\<lparr>k_itable := t\<rparr>) n = dir_wf k n" for n by (simp add: dir_wf_def 1 2 4 6)
  show "tree_ok (k\<lparr>k_itable := t\<rparr>) = tree_ok k" by (simp add: tree_ok_def 5 6 7)
  show "matches (k\<lparr>k_itable := t\<rparr>) i = matches k i" by (simp add: matches_def)
qed

lemma dir_look_live:
  assumes "dir_wf k n" "dir_look k n e = Some m"
  shows "live k m"
proof -
  obtain de where "find (names e) (dir_entries k n) = Some de" "m = ucast (de_inum de)"
    using assms(2) by (auto simp: dir_look_def)
  then show ?thesis using assms(1) by (auto simp: dir_wf_def Let_def names_def find_Some_iff)
qed

section \<open>Reading directories\<close>

lemma bmap_matches:
  assumes "matches k (k_itable k ! ip)" "n = i_inum (k_itable k ! ip)" "unat bn < MAXFILE"
    "disk_bmap k n (unat bn) \<noteq> 0" "NDIRECT \<le> unat bn \<Longrightarrow> i_addrs (disk_inode k n) ! NDIRECT \<noteq> 0"
  shows "bmap ip bn k = Some (disk_bmap k n (unat bn), k)"
  using assms(2-5) matches_fields(4) [OF assms(1)]
  by (auto simp: bmap_def disk_bmap_def Let_def MAXFILE_def)

lemma dir_offset_range:
  assumes "off \<in> set (dir_offsets 0 sz)" "unat sz mod 16 = 0"
  shows "off mod 16 = 0" "off + 16 \<le> unat sz"
  using assms by (auto simp: dir_offsets_def)

lemma readi_entry:
  assumes "matches k (k_itable k ! dp)" "n = i_inum (k_itable k ! dp)" "dir_wf k n"
    "off \<in> set (dir_offsets 0 (i_size (disk_inode k n)))"
  shows "readi dp None (of_nat off) 16 k =
    Some (16, take 16 (drop (off mod 1024) (k_blocks k (disk_bmap k n (off div 1024)))), k)"
proof -
  let ?sz = "i_size (disk_inode k n)" and ?off = "of_nat off :: u32"
  note wf = assms(3) [unfolded dir_wf_def Let_def]
  have o: "off mod 16 = 0" "off + 16 \<le> unat ?sz" using dir_offset_range [OF assms(4)] wf by auto
  have lt: "off < 274432" "unat ?sz \<le> 274432" using o(2) wf by (auto simp: MAXFILE_def NDIRECT_def NINDIRECT_def BSIZE_def)
  have u: "unat ?off = off" "unat (?off + 16) = off + 16" "unat (?off div 1024) = off div 1024" "unat (?off mod 1024) = off mod 1024"
    using lt by (simp_all add: unat_of_nat unat_word_ariths unat_div unat_mod)
  have "16 dvd off mod 1024" using o(1) by (simp add: dvd_eq_mod_eq_0 mod_mod_cancel)
  then obtain q where q: "off mod 1024 = 16 * q" by (rule dvdE)
  have "off mod 1024 < 1024" by simp
  then have "16 * q < 16 * 64" unfolding q by simp
  then have room: "off mod 1024 + 16 \<le> 1024" unfolding q by simp
  have sz: "i_size (k_itable k ! dp) = ?sz" using matches_fields(3) [OF assms(1)] assms(2) by simp
  have "bmap dp (?off div 1024) k = Some (disk_bmap k n (unat (?off div 1024)), k)"
    using wf o lt u(3) by (intro bmap_matches [OF assms(1,2)])
      (auto simp: MAXFILE_def NDIRECT_def NINDIRECT_def BSIZE_def)
  moreover have "disk_bmap k n (off div 1024) \<noteq> 0" using wf o by simp
  moreover have "block_chunk ?off 16 = 16"
    using room by (simp add: word_unat_eq_iff unat_block_chunk u(1))
  moreover have "readi_loop dp None (?off + 16) 16 16 bs k = Some (16, bs, k)" for bs
    by (subst readi_loop.simps) simp
  ultimately have "readi_loop dp None ?off 0 16 [] k =
      Some (16, take 16 (drop (off mod 1024) (k_blocks k (disk_bmap k n (off div 1024)))), k)"
    using u(3,4) by (subst readi_loop.simps) (simp add: Let_def either_copyout_def)
  moreover have "\<not> ?off > ?sz" "\<not> ?off + 16 < ?off" "\<not> ?off + 16 > ?sz"
    using o lt u by (simp_all add: word_less_nat_alt)
  ultimately show ?thesis using sz by (simp add: readi_def Let_def)
qed

lemma dirlookup_loop_find:
  assumes "matches k (k_itable k ! dp)" "n = i_inum (k_itable k ! dp)" "dir_wf k n"
    "set offs \<subseteq> set (dir_offsets 0 (i_size (disk_inode k n)))"
  shows "case find (names (cstr name)) (map (disk_slot k n) offs) of
      None \<Rightarrow> dirlookup_loop offs dp name k = Some (None, k)
    | Some de \<Rightarrow> \<exists>off. dirlookup_loop offs dp name k =
        do { (ip, k1) \<leftarrow> iget (i_dev (k_itable k ! dp)) (ucast (de_inum de)) k; Some (Some (ip, off), k1) }"
  using assms(4)
proof (induction offs)
  case (Cons off offs)
  have "readi dp None (of_nat off) 16 k =
      Some (16, take 16 (drop (off mod 1024) (k_blocks k (disk_bmap k n (off div 1024)))), k)"
    using Cons.prems by (intro readi_entry [OF assms(1-3)]) simp
  then have step: "dirlookup_loop (off # offs) dp name k =
      (let de = disk_slot k n off
       in if names (cstr name) de
          then do { (ip, k1) \<leftarrow> iget (i_dev (k_itable k ! dp)) (ucast (de_inum de)) k; Some (Some (ip, of_nat off), k1) }
          else dirlookup_loop offs dp name k)"
    by (simp add: disk_slot_def names_def namecmp_def strncmp_eq_0 Let_def)
  show ?case
  proof (cases "names (cstr name) (disk_slot k n off)")
    case True
    then show ?thesis unfolding step by auto
  next
    case False
    then have eq: "dirlookup_loop (off # offs) dp name k = dirlookup_loop offs dp name k"
      unfolding step by (simp add: Let_def)
    show ?thesis unfolding eq using Cons False by simp
  qed
qed simp

lemma dirlookup_look:
  assumes "matches k (k_itable k ! dp)" "n = i_inum (k_itable k ! dp)" "dir_wf k n" "is_dir k n"
  shows "case dir_look k n (cstr name) of
      None \<Rightarrow> dirlookup dp name k = Some (None, k)
    | Some m \<Rightarrow> \<exists>off. dirlookup dp name k =
        do { (ip, k1) \<leftarrow> iget (i_dev (k_itable k ! dp)) m k; Some (Some (ip, off), k1) }"
proof -
  have "i_type (k_itable k ! dp) = T_DIR" "i_size (k_itable k ! dp) = i_size (disk_inode k n)"
    using matches_fields [OF assms(1)] assms(2,4) by (simp_all add: is_dir_def)
  then have "dirlookup dp name k = dirlookup_loop (dir_offsets 0 (i_size (disk_inode k n))) dp name k"
    by (simp add: dirlookup_def)
  then show ?thesis
    using dirlookup_loop_find [OF assms(1-3) order_refl, of name]
    by (auto simp: dir_look_def dir_entries_def split: option.splits)
qed

section \<open>The inode table during a walk\<close>

lemma heldD:
  assumes "held k0 hs lk k"
  shows "k = k0\<lparr>k_itable := k_itable k\<rparr>" "length (k_itable k) = length (k_itable k0)" "itable_inv k"
    "s < length (k_itable k) \<Longrightarrow> slot_ok lk k s (k_itable k ! s)"
    "ino_refs k i = ino_refs k0 i + int (count_list hs i)" "ino_refs k0 i > 0 \<Longrightarrow> ident k i = ident k0 i"
    "0 \<le> ino_refs k0 i"
  using assms by (auto simp: held_def core_ok_def)

lemma tree_held:
  assumes "held k0 hs lk k"
  shows "live k n = live k0 n" "is_dir k n = is_dir k0 n" "dir_wf k n = dir_wf k0 n" "dir_look k n e = dir_look k0 n e"
    "matches k i = matches k0 i"
  by (subst heldD(1) [OF assms], simp)+

lemma slot_ok_cong:
  "k_sb k' = k_sb k \<Longrightarrow> k_blocks k' = k_blocks k \<Longrightarrow> slot_ok lk k' s i = slot_ok lk k s i"
  by (simp add: slot_ok_def live_def disk_inode_def matches_def)

lemma held_upd:
  assumes "held k0 hs lk k" "h < length (k_itable k)" "i' = f (k_itable k ! h)"
    "i_ref i' = ino_refs k0 h + int (count_list hs' h)" "0 \<le> i_ref i'" "\<And>i. i \<noteq> h \<Longrightarrow> count_list hs' i = count_list hs i"
    "ino_refs k h > 0 \<Longrightarrow> (i_dev i', i_inum i') = ident k h"
    "\<And>i. i < length (k_itable k) \<Longrightarrow> ino_refs k i > 0 \<Longrightarrow> i \<noteq> h \<Longrightarrow> ident k i \<noteq> (i_dev i', i_inum i')"
    "slot_ok lk' k h i'" "lk' = lk \<or> (lk' = Some h \<and> lk = None) \<or> (lk = Some h \<and> lk' = None)" 
  shows "held k0 hs' lk' (upd_ino h f k)" "i \<noteq> h \<Longrightarrow> ident (upd_ino h f k) i = ident k i"
    "ident (upd_ino h f k) h = (i_dev i', i_inum i')"
proof -
  note h = heldD [OF assms(1)]
  let ?k = "upd_ino h f k"
  have ids: "ino_ids ?k = (ino_ids k)[h := (i_ref i', i_dev i', i_inum i')]"
    using ino_ids_upd_at [OF assms(2), of f] assms(3) by simp
  show other: "ident ?k i = ident k i" if "i \<noteq> h" for i
    using that by (simp add: ident_def upd_ino_def)
  show self: "ident ?k h = (i_dev i', i_inum i')"
    using assms(2,3) by (simp add: ident_def upd_ino_def)
  have st: "itable_inv ?k" "ino_refs ?k = (ino_refs k)(h := i_ref i')"
    using itable_inv_step [OF h(3) ids assms(2,5)] assms(8) by (auto simp: ident_def)
  have slot: "slot_ok lk' ?k s (k_itable ?k ! s)" if "s < length (k_itable ?k)" for s
  proof -
    have "slot_ok lk' k s (k_itable ?k ! s)"
      using that h(4) [of s] assms(2,3,9,10) by (cases "s = h") (auto simp: upd_ino_def slot_ok_def)
    then show ?thesis by (simp add: upd_ino_def slot_ok_def live_def disk_inode_def matches_def)
  qed
  have "?k = k0\<lparr>k_itable := k_itable ?k\<rparr>" by (subst h(1)) (simp add: upd_ino_def)
  moreover have "ident ?k i = ident k0 i" if "ino_refs k0 i > 0" for i
    using that h(5,6) [of i] assms(7) self other [of i] by (cases "i = h") auto
  ultimately show "held k0 hs' lk' ?k"
    using st h(2,5,7) assms(4,6) slot by (simp add: held_def core_ok_def upd_ino_def)
qed

lemma held_slot:
  assumes "held k0 hs lk k" "i \<in> set hs"
  shows "i < length (k_itable k)" "ino_refs k i > 0" "i_ref (k_itable k ! i) = ino_refs k i"
    "slot_ok lk k i (k_itable k ! i)" "live k0 (snd (ident k i))"
proof -
  show pos: "ino_refs k i > 0"
    using heldD(5,7) [OF assms(1), of i] assms(2) count_list_0_iff [of hs i] by linarith
  then show len: "i < length (k_itable k)" by (rule positive_ref_in_range)
  then show ref: "i_ref (k_itable k ! i) = ino_refs k i" by (simp add: ino_refs_def)
  show ok: "slot_ok lk k i (k_itable k ! i)" by (rule heldD(4) [OF assms(1) len])
  then show "live k0 (snd (ident k i))" using pos ref tree_held(1) [OF assms(1)] by (auto simp: slot_ok_def ident_def)
qed

lemma matches_upd:
  "matches k i \<Longrightarrow> matches k (i\<lparr>i_locked := b\<rparr>)" "matches k i \<Longrightarrow> matches k (i\<lparr>i_ref := r\<rparr>)"
  "i_inum j = n \<Longrightarrow> matches k ((dinode_read (k_blocks k (IBLOCK n (k_sb k))) (dinode_off n) j)\<lparr>i_valid := b\<rparr>)"
  by (cases i; cases j; auto simp: matches_def dinode_read_def)+

text \<open>A change of a referenced slot that keeps its identity.\<close>

lemma held_upd_same:
  assumes "held k0 hs lk k" "ino_refs k h > 0" "i' = f (k_itable k ! h)"
    "i_dev i' = i_dev (k_itable k ! h)" "i_inum i' = i_inum (k_itable k ! h)"
    "i_ref i' = ino_refs k0 h + int (count_list hs' h)" "\<And>i. i \<noteq> h \<Longrightarrow> count_list hs' i = count_list hs i"
    "slot_ok lk' k h i'" "lk' = lk \<or> (lk' = Some h \<and> lk = None) \<or> (lk = Some h \<and> lk' = None)"
  shows "held k0 hs' lk' (upd_ino h f k) \<and> ident (upd_ino h f k) = ident k"
proof -
  note len = positive_ref_in_range [OF assms(2)]
  have uniq: "ident k i \<noteq> (i_dev i', i_inum i')" if "i < length (k_itable k)" "ino_refs k i > 0" "i \<noteq> h" for i
    using heldD(3) [OF assms(1)] that assms(2,4,5) len by (auto simp: itable_inv_def ident_def)
  have id: "(i_dev i', i_inum i') = ident k h" using assms(4,5) by (simp add: ident_def)
  have "0 \<le> i_ref i'" using assms(6) heldD(7) [OF assms(1), of h] by simp
  note u = held_upd [where f = f, OF assms(1) len assms(3,6) this assms(7) id uniq assms(8,9)]
  have "ident (upd_ino h f k) i = ident k i" for i using u(2,3) id by (cases "i = h") auto
  then show ?thesis using u(1) by auto
qed

text \<open>Locking, unlocking, dropping and taking references along the walk.\<close>

lemma held_ilock:
  assumes "held k0 hs None k" "ip \<in> set hs"
  shows "\<exists>k1. ilock ip k = Some k1 \<and> held k0 hs (Some ip) k1 \<and> ident k1 = ident k"
proof -
  note s = held_slot [OF assms]
  let ?i = "k_itable k ! ip"
  let ?d = "dinode_read (k_blocks k (IBLOCK (i_inum ?i) (k_sb k))) (dinode_off (i_inum ?i))"
  define f where "f = (\<lambda>i. if i_valid i then i\<lparr>i_locked := True\<rparr> else (?d (i\<lparr>i_locked := True\<rparr>))\<lparr>i_valid := True\<rparr>)"
  have m: "matches k (f ?i)"
    using s(2-4) matches_upd by (auto simp: f_def slot_ok_def)
  have k: "i_ref (f ?i) = i_ref ?i" "i_dev (f ?i) = i_dev ?i" "i_inum (f ?i) = i_inum ?i" "i_locked (f ?i)" "i_valid (f ?i)"
    by (auto simp: f_def dinode_read_def)
  have lv: "live k (i_inum ?i)" using s(2-4) by (auto simp: slot_ok_def)
  have "i_type (f ?i) \<noteq> 0" using matches_fields(1) [OF m] k(3) lv by (simp add: live_def)
  then have "ilock ip k = Some (upd_ino ip f k)"
    using s by (auto simp: ilock_def Let_def slot_ok_def f_def upd_ino_def)
  moreover have "held k0 hs (Some ip) (upd_ino ip f k) \<and> ident (upd_ino ip f k) = ident k"
    using s(2,3) k m lv heldD(5) [OF assms(1), of ip]
    by (intro held_upd_same [OF assms(1) s(2) refl]) (auto simp: slot_ok_def)
  ultimately show ?thesis by blast
qed

lemma held_iunlock:
  assumes "held k0 hs (Some ip) k" "ip \<in> set hs"
  shows "\<exists>k1. iunlock ip k = Some k1 \<and> held k0 hs None k1 \<and> ident k1 = ident k"
proof -
  note s = held_slot [OF assms]
  let ?f = "\<lambda>i. i\<lparr>i_locked := False\<rparr>"
  have "iunlock ip k = Some (upd_ino ip ?f k)"
    using s by (auto simp: iunlock_def Let_def slot_ok_def)
  moreover have "held k0 hs None (upd_ino ip ?f k) \<and> ident (upd_ino ip ?f k) = ident k"
    using s(2-4) heldD(5) [OF assms(1), of ip] matches_upd(1)
    by (intro held_upd_same [OF assms(1) s(2) refl]) (auto simp: slot_ok_def)
  ultimately show ?thesis by blast
qed

lemma held_iput:
  assumes "held k0 hs None k" "ip \<in> set hs"
  shows "\<exists>k1. iput ip k = Some k1 \<and> held k0 (remove1 ip hs) None k1 \<and> ident k1 = ident k"
proof -
  note s = held_slot [OF assms]
  let ?f = "\<lambda>i. i\<lparr>i_ref := i_ref i - 1\<rparr>"
  have "i_valid (k_itable k ! ip) \<Longrightarrow> i_nlink (k_itable k ! ip) \<noteq> 0"
    using s(2-4) matches_fields(2) [of k "k_itable k ! ip"] by (auto simp: slot_ok_def live_def)
  then have put: "iput ip k = Some (upd_ino ip ?f k)" by (auto simp: iput_def Let_def)
  have "count_list (remove1 ip hs) ip = count_list hs ip - 1" "\<And>i. i \<noteq> ip \<Longrightarrow> count_list (remove1 ip hs) i = count_list hs i"
    using assms(2) by (induction hs) auto
  moreover have "0 < count_list hs ip" using assms(2) count_list_0_iff [of hs ip] by blast
  ultimately have "held k0 (remove1 ip hs) None (upd_ino ip ?f k) \<and> ident (upd_ino ip ?f k) = ident k"
    using s(2-4) heldD(5) [OF assms(1), of ip] matches_upd(2)
    by (intro held_upd_same [OF assms(1) s(2) refl]) (auto simp: slot_ok_def)
  then show ?thesis using put by blast
qed

lemma held_take:
  assumes "held k0 hs lk k" "ino_refs k ip > 0"
  shows "held k0 (ip # hs) lk (upd_ino ip (\<lambda>i. i\<lparr>i_ref := i_ref i + 1\<rparr>) k) \<and>
    ident (upd_ino ip (\<lambda>i. i\<lparr>i_ref := i_ref i + 1\<rparr>) k) = ident k"
proof -
  note len = positive_ref_in_range [OF assms(2)]
  have ok: "slot_ok lk k ip (k_itable k ! ip)" by (rule heldD(4) [OF assms(1) len])
  have r: "i_ref (k_itable k ! ip) = ino_refs k ip" using len by (simp add: ino_refs_def)
  show ?thesis
    using assms(2) r ok heldD(5) [OF assms(1), of ip] matches_upd(2)
    by (intro held_upd_same [OF assms refl]) (auto simp: slot_ok_def)
qed

lemma iget_scan_full: "iget_scan xs n dev inum slot = Inr None \<Longrightarrow> slot = None \<and> (\<forall>i \<in> set xs. i_ref i \<noteq> 0)"
  by (induction xs arbitrary: n slot) (auto split: if_splits)

lemma held_iget:
  assumes "held k0 hs lk k" "live k0 m" "s < length (k_itable k)" "ino_refs k s = 0"
  shows "\<exists>ip k1. iget d m k = Some (ip, k1) \<and> held k0 (ip # hs) lk k1 \<and> ident k1 ip = (d, m) \<and>
    (\<forall>i \<in> set hs. ident k1 i = ident k i)"
proof -
  note sc = iget_scan_cases [where xs = "k_itable k" and n = 0 and dev = d and inum = m and slot = None]
  show ?thesis
  proof (cases "iget_scan (k_itable k) 0 d m None")
    case (Inl ip)
    have h: "ident k ip = (d, m)" "ino_refs k ip > 0"
      using sc Inl by (auto simp: ident_def ino_refs_def)
    show ?thesis using held_take [OF assms(1) h(2)] Inl h(1) by (auto simp: iget_def)
  next
    case (Inr r)
    have "k_itable k ! s \<in> set (k_itable k)" "i_ref (k_itable k ! s) = 0" using assms(3,4) by (simp_all add: ino_refs_def)
    then have "r \<noteq> None" using iget_scan_full [of "k_itable k" 0 d m None] Inr by auto
    then obtain ip where ip: "r = Some ip" by blast
    let ?f = "\<lambda>i. i\<lparr>i_dev := d, i_inum := m, i_ref := 1, i_valid := False\<rparr>"
    have h: "ip < length (k_itable k)" "i_ref (k_itable k ! ip) = 0"
      "\<forall>i \<in> set (k_itable k). \<not> (i_ref i > 0 \<and> i_dev i = d \<and> i_inum i = m)"
      using sc Inr ip by auto
    have z: "ino_refs k ip = 0" using h by (simp add: ino_refs_def)
    have rc: "ino_refs k0 ip = 0" "count_list hs ip = 0"
      using heldD(5,7) [OF assms(1), of ip] z by auto
    have "slot_ok lk k ip (k_itable k ! ip)" by (rule heldD(4) [OF assms(1) h(1)])
    then have ok: "slot_ok lk k ip (?f (k_itable k ! ip))"
      using h(2) assms(2) tree_held(1) [OF assms(1)] by (auto simp: slot_ok_def)
    have uniq: "ident k i \<noteq> (d, m)" if "i < length (k_itable k)" "ino_refs k i > 0" for i
      using h(3) that by (auto simp: ident_def ino_refs_def)
    note u = held_upd [where f = ?f and hs' = "ip # hs" and lk' = lk, OF assms(1) h(1) refl _ _ _ _ _ ok]
    have "held k0 (ip # hs) lk (upd_ino ip ?f k)" "ident (upd_ino ip ?f k) ip = (d, m)"
      using uniq rc z by (auto intro!: u(1) u(3) [THEN trans])
    moreover have "ident (upd_ino ip ?f k) i = ident k i" if "i \<in> set hs" for i
      using that rc(2) by (cases "i = ip") (auto simp: ident_def upd_ino_def count_list_0_iff)
    ultimately show ?thesis using Inr ip by (simp add: iget_def)
  qed
qed

section \<open>Resolution\<close>

text \<open>
  The walk over the tree: \<open>root\<close> is the jail root, if there is one; with \<open>want_parent\<close> it stops one
  element early.
\<close>

definition dotdot :: string where "dotdot = ''..''"

fun resolve :: "kernel \<Rightarrow> (u32 \<times> u32) option \<Rightarrow> bool \<Rightarrow> u32 \<times> u32 \<Rightarrow> string list \<Rightarrow> (u32 \<times> u32) option" where
  "resolve k root want_parent at [] = (if want_parent then None else Some at)"
| "resolve k root want_parent at (e # es) =
     (if \<not> is_dir k (snd at) then None
      else if want_parent \<and> es = [] then Some at
      else if root = Some at \<and> e = dotdot then resolve k root want_parent at es
      else case dir_look k (snd at) (take DIRSIZ e) of
             None \<Rightarrow> None
           | Some m \<Rightarrow> resolve k root want_parent (fst at, m) es)"

text \<open>
  What a walk over \<open>es\<close> returns: the inode reached, with one reference more and, for a parent, the
  last element in the buffer; or nothing, with no reference left over.
\<close>

definition walked ::
    "kernel \<Rightarrow> bool \<Rightarrow> string list \<Rightarrow> (u32 \<times> u32) option \<Rightarrow> (nat option \<times> string \<times> kernel) option \<Rightarrow> bool" where
  "walked k0 want_parent es goal res \<longleftrightarrow>
     (case goal of
        None \<Rightarrow> \<exists>nm k. res = Some (None, nm, k) \<and> held k0 [] None k
      | Some at \<Rightarrow> \<exists>ip nm k. res = Some (Some ip, nm, k) \<and> held k0 [ip] None k \<and> ident k ip = at \<and>
          (want_parent \<longrightarrow> cstr nm = take DIRSIZ (last es)))"

lemma walked_Cons:
  "walked k0 wp es goal res \<Longrightarrow> wp \<longrightarrow> es \<noteq> [] \<Longrightarrow> walked k0 wp (e # es) goal res"
  by (auto simp: walked_def split: option.splits)

lemma take_dotdot: "take DIRSIZ e = dotdot \<longleftrightarrow> e = dotdot"
proof
  assume t: "take DIRSIZ e = dotdot"
  have "length (take DIRSIZ e) = 2" unfolding t by (simp add: dotdot_def)
  then have "length e < DIRSIZ" by (simp add: DIRSIZ_def min_def split: if_splits)
  then show "e = dotdot" using t by simp
qed (simp add: dotdot_def DIRSIZ_def)

lemma held_drop:
  assumes "held k0 hs (Some ip) k" "ip \<in> set hs"
  shows "\<exists>k1. iunlockput ip k = Some k1 \<and> held k0 (remove1 ip hs) None k1 \<and> ident k1 = ident k"
  using held_iunlock [OF assms] held_iput [OF _ assms(2)] by (fastforce simp: iunlockput_def)

lemma pinned_iff:
  assumes "held k0 [ip] lk k" "ip < length (k_itable k)"
    "case root of None \<Rightarrow> \<not> jailed | Some r \<Rightarrow> jailed \<and> (\<exists>j. jail_inode k0 = Some j \<and> ino_refs k0 j > 0 \<and> ident k0 j = r)"
  shows "pinned jailed name ip k \<longleftrightarrow> root = Some (ident k ip) \<and> cstr name = dotdot"
proof -
  have j: "jail_inode k = jail_inode k0" by (subst heldD(1) [OF assms(1)]) (simp add: jail_inode_def)
  have nm: "deref name = CHR 0x2E \<and> deref (drop 1 name) = CHR 0x2E \<and> deref (drop 2 name) = NUL \<longleftrightarrow> cstr name = dotdot"
    by (cases name; cases "tl name"; cases "tl (tl name)") (auto simp: deref_def dotdot_def cstr_def)
  show ?thesis
  proof (cases root)
    case None
    then show ?thesis using assms(3) by (simp add: pinned_def)
  next
    case (Some r)
    then obtain h where h: "jailed" "jail_inode k0 = Some h" "ino_refs k0 h > 0" "ident k0 h = r" using assms(3) by auto
    have "ident k h = r" using heldD(6) [OF assms(1) h(3)] h(4) by simp
    then show ?thesis using h(1,2) Some nm j by (auto simp: pinned_def ident_def)
  qed
qed

text \<open>One element of a path, taken from a directory that the walk holds.\<close>

lemma held_step:
  assumes "held k0 [ip] (Some ip) k" "tree_ok k0" "is_dir k0 (snd (ident k ip))"
    "2 \<le> card {s. s < length (k_itable k0) \<and> ino_refs k0 s = 0}"
  shows "case dir_look k0 (snd (ident k ip)) (cstr name) of
      None \<Rightarrow> dirlookup ip name k = Some (None, k)
    | Some m \<Rightarrow> \<exists>next off k1. dirlookup ip name k = Some (Some (next, off), k1) \<and>
        held k0 [next, ip] (Some ip) k1 \<and> ident k1 next = (fst (ident k ip), m)"
proof -
  have ip: "ip \<in> set [ip]" by simp
  note s = held_slot [OF assms(1) ip] and t = tree_held [OF assms(1)]
  have m: "matches k (k_itable k ! ip)" using s(2-4) by (auto simp: slot_ok_def)
  have wf: "dir_wf k0 (snd (ident k ip))" using assms(2,3) s(5) by (simp add: tree_ok_def)
  let ?free = "{s. s < length (k_itable k0) \<and> ino_refs k0 s = 0}"
  have "\<exists>s \<in> ?free. s \<noteq> ip"
  proof (rule ccontr)
    assume "\<not> ?thesis"
    then have "card ?free \<le> card {ip}" by (intro card_mono) auto
    then show False using assms(4) by simp
  qed
  then obtain f where f: "f < length (k_itable k)" "ino_refs k f = 0"
    using heldD(2,5) [OF assms(1)] by auto
  have n: "i_inum (k_itable k ! ip) = snd (ident k ip)" "i_dev (k_itable k ! ip) = fst (ident k ip)" by (simp_all add: ident_def)
  have look: "case dir_look k0 (snd (ident k ip)) (cstr name) of
      None \<Rightarrow> dirlookup ip name k = Some (None, k)
    | Some m \<Rightarrow> \<exists>off. dirlookup ip name k =
        do { (nx, k1) \<leftarrow> iget (fst (ident k ip)) m k; Some (Some (nx, off), k1) }"
    using dirlookup_look [OF m refl, of name] wf assms(3) unfolding n t by blast
  show ?thesis
  proof (cases "dir_look k0 (snd (ident k ip)) (cstr name)")
    case None
    then show ?thesis using look by simp
  next
    case (Some m)
    then obtain off where off: "dirlookup ip name k = do { (nx, k1) \<leftarrow> iget (fst (ident k ip)) m k; Some (Some (nx, off), k1) }"
      using look by auto
    obtain nx k1 where "iget (fst (ident k ip)) m k = Some (nx, k1)" "held k0 [nx, ip] (Some ip) k1"
      "ident k1 nx = (fst (ident k ip), m)"
      using held_iget [OF assms(1) dir_look_live [OF wf Some] f] by blast
    then show ?thesis using Some off by simp
  qed
qed

lemma namex_loop_walk:
  assumes "tree_ok k0" "2 \<le> card {s. s < length (k_itable k0) \<and> ino_refs k0 s = 0}"
    "case root of None \<Rightarrow> \<not> jailed | Some r \<Rightarrow> jailed \<and> (\<exists>j. jail_inode k0 = Some j \<and> ino_refs k0 j > 0 \<and> ident k0 j = r)"
    "held k0 [ip] None k"
  shows "walked k0 wp (path_elems path) (resolve k0 root wp (ident k ip) (path_elems path))
    (namex_loop jailed path wp name ip k)"
  using assms(4)
proof (induction path arbitrary: name ip k rule: measure_induct_rule [of length])
  case (less path)
  have ip: "ip \<in> set [ip]" by simp
  note sk = skipelem_elems [of path name] and unf = namex_loop.simps [of jailed path wp name ip k]
  show ?case
  proof (cases "skipelem path name")
    case None
    then show ?thesis
      using sk held_iput [OF less.prems ip] less.prems by (auto simp: unf walked_def)
  next
    case (Some x)
    then obtain rest name1 where x: "skipelem path name = Some (rest, name1)" by (cases x) auto
    then obtain e where e: "path_elems path = e # path_elems rest" "cstr name1 = take DIRSIZ e"
      "deref rest = NUL \<longleftrightarrow> path_elems rest = []" using sk by auto
    have shorter: "length rest < length path" by (rule skipelem_shorter [OF x])
    obtain k1 where k1: "ilock ip k = Some k1" "held k0 [ip] (Some ip) k1" "ident k1 = ident k"
      using held_ilock [OF less.prems ip] by blast
    have ty: "i_type (k_itable k1 ! ip) = T_DIR \<longleftrightarrow> is_dir k0 (snd (ident k ip))"
      using held_slot(2-4) [OF k1(2) ip] matches_fields(1) [of k1 "k_itable k1 ! ip"] tree_held(2) [OF k1(2)] k1(3) [symmetric]
      by (auto simp: slot_ok_def is_dir_def ident_def)
    have pin: "pinned jailed name1 ip k1 \<longleftrightarrow> root = Some (ident k ip) \<and> e = dotdot"
      using pinned_iff [OF k1(2) held_slot(1) [OF k1(2) ip] assms(3)] e(2) k1(3) take_dotdot by simp
    obtain k2 where k2: "iunlock ip k1 = Some k2" "held k0 [ip] None k2" "ident k2 = ident k"
      using held_iunlock [OF k1(2) ip] k1(3) by auto
    obtain k3 where k3: "iunlockput ip k1 = Some k3" "held k0 [] None k3"
      using held_drop [OF k1(2) ip] by auto
    note loop = unf [unfolded x k1(1) option.case prod.case]
    consider "\<not> is_dir k0 (snd (ident k ip))" | "is_dir k0 (snd (ident k ip))" "wp \<and> path_elems rest = []"
      | "is_dir k0 (snd (ident k ip))" "\<not> (wp \<and> path_elems rest = [])" "root = Some (ident k ip) \<and> e = dotdot"
      | "is_dir k0 (snd (ident k ip))" "\<not> (wp \<and> path_elems rest = [])" "\<not> (root = Some (ident k ip) \<and> e = dotdot)"
      by blast
    then show ?thesis
    proof cases
      case 1
      then show ?thesis using loop ty k3 e(1) by (simp add: walked_def)
    next
      case 2
      then show ?thesis using loop ty k2 e by (simp add: walked_def)
    next
      case 3
      have "namex_loop jailed path wp name ip k = namex_loop jailed rest wp name1 ip k2"
        using loop 3 ty pin k2(1) e(3) by simp
      then show ?thesis using walked_Cons [OF less.IH [OF shorter k2(2), of name1]] 3 k2(3) e(1) by auto
    next
      case 4
      note st = held_step [OF k1(2) assms(1) _ assms(2), of name1] 
      show ?thesis
      proof (cases "dir_look k0 (snd (ident k ip)) (take DIRSIZ e)")
        case None
        then have "dirlookup ip name1 k1 = Some (None, k1)" using st 4(1) e(2) k1(3) by simp
        then show ?thesis using loop 4 ty pin k3 e(1,3) None by (auto simp: walked_def)
      next
        case (Some m)
        then obtain nx off k4 where k4: "dirlookup ip name1 k1 = Some (Some (nx, off), k4)"
          "held k0 [nx, ip] (Some ip) k4" "ident k4 nx = (fst (ident k ip), m)"
          using st 4(1) e(2) k1(3) by auto
        obtain k5 where k5: "iunlockput ip k4 = Some k5" "held k0 [nx] None k5" "ident k5 nx = (fst (ident k ip), m)"
          using held_drop [OF k4(2)] k4(3) by (auto split: if_splits)
        have "namex_loop jailed path wp name ip k = namex_loop jailed rest wp name1 nx k5"
          using loop 4 ty pin k4(1) k5(1) e(3) by simp
        then show ?thesis using walked_Cons [OF less.IH [OF shorter k5(2), of name1]] 4 k5(3) e(1) Some by auto
      qed
    qed
  qed
qed

definition cwd_inode :: "kernel \<Rightarrow> nat option" where
  "cwd_inode k = do { p \<leftarrow> k_cur k; p_cwd (k_procs k ! p) }"

definition walk_root :: "kernel \<Rightarrow> (u32 \<times> u32) option" where
  "walk_root k = (if is_jailed k then map_option (ident k) (jail_inode k) else None)"

definition walk_start :: "string \<Rightarrow> nat \<Rightarrow> kernel \<Rightarrow> u32 \<times> u32" where
  "walk_start path cwd k =
     (if deref path = SLASH then (case walk_root k of None \<Rightarrow> (ROOTDEV, ROOTINO) | Some r \<Rightarrow> r) else ident k cwd)"

text \<open>A process that may look up a path: consistent disk and inode table, its directories are referenced.\<close>

definition path_ready :: "nat \<Rightarrow> kernel \<Rightarrow> bool" where
  "path_ready cwd k \<longleftrightarrow> tree_ok k \<and> core_ok None k \<and> live k ROOTINO \<and>
     2 \<le> card {s. s < length (k_itable k) \<and> ino_refs k s = 0} \<and>
     cwd_inode k = Some cwd \<and> ino_refs k cwd > 0 \<and>
     (case jail_inode k of None \<Rightarrow> True | Some j \<Rightarrow> ino_refs k j > 0)"

lemma held_init: "core_ok None k \<Longrightarrow> held k [] None k"
  by (auto simp: held_def core_ok_def itable_inv_def)

lemma namex_start_held:
  assumes "path_ready cwd k"
  shows "\<exists>ip k1. namex_start path k = Some (ip, k1) \<and> held k [ip] None k1 \<and> ident k1 ip = walk_start path cwd k"
proof -
  have h: "held k [] None k" and c: "cwd_inode k = Some cwd" "ino_refs k cwd > 0"
    using assms held_init by (auto simp: path_ready_def)
  have dup: "\<exists>ip k1. idup i k = (ip, k1) \<and> held k [ip] None k1 \<and> ident k1 ip = ident k i" if "ino_refs k i > 0" for i
    using held_take [OF h that] by (simp add: idup_def)
  have "2 \<le> card {s. s < length (k_itable k) \<and> ino_refs k s = 0}" using assms by (simp only: path_ready_def)
  then have "{s. s < length (k_itable k) \<and> ino_refs k s = 0} \<noteq> {}" by (metis card.empty not_numeral_le_zero)
  then obtain s where "s < length (k_itable k)" "ino_refs k s = 0" by blast
  then have root: "\<exists>ip k1. iget ROOTDEV ROOTINO k = Some (ip, k1) \<and> held k [ip] None k1 \<and> ident k1 ip = (ROOTDEV, ROOTINO)"
    using held_iget [OF h] assms by (fastforce simp: path_ready_def)
  show ?thesis
  proof (cases "deref path = SLASH")
    case False
    then show ?thesis using c dup [OF c(2)]
      by (auto simp: namex_start_def cwd_inode_def walk_start_def split: bind_splits)
  next
    case slash: True
    show ?thesis
    proof (cases "is_jailed k")
      case True
      then obtain j where j: "jail_inode k = Some j"
        by (auto simp: is_jailed_def jail_inode_def split: option.splits)
      then have "ino_refs k j > 0" using assms by (simp add: path_ready_def)
      then show ?thesis using slash True j dup [of j]
        by (auto simp: namex_start_def walk_start_def walk_root_def)
    next
      case False
      then show ?thesis using slash root by (simp add: namex_start_def walk_start_def walk_root_def)
    qed
  qed
qed

lemma namex_walks:
  assumes "path_ready cwd k"
  shows "walked k wp (path_elems path) (resolve k (walk_root k) wp (walk_start path cwd k) (path_elems path))
    (namex path wp name k)"
proof -
  obtain ip k1 where st: "namex_start path k = Some (ip, k1)" "held k [ip] None k1" "ident k1 ip = walk_start path cwd k"
    using namex_start_held [OF assms] by blast
  have "case walk_root k of None \<Rightarrow> \<not> is_jailed k
      | Some r \<Rightarrow> is_jailed k \<and> (\<exists>j. jail_inode k = Some j \<and> ino_refs k j > 0 \<and> ident k j = r)"
    using assms by (auto simp: walk_root_def path_ready_def is_jailed_def jail_inode_def split: option.splits)
  then show ?thesis
    using namex_loop_walk [OF _ _ _ st(2), of "is_jailed k" "walk_root k" wp path name] assms st(1,3)
    by (simp add: namex_def path_ready_def)
qed

text \<open>A set of inodes that the tree leaves only through \<open>..\<close> of the root.\<close>

definition closed_below :: "kernel \<Rightarrow> u32 \<times> u32 \<Rightarrow> (u32 \<times> u32) set \<Rightarrow> bool" where
  "closed_below k root S \<longleftrightarrow>
     (\<forall>d n e m. (d, n) \<in> S \<longrightarrow> dir_look k n e = Some m \<longrightarrow> (d, n) = root \<and> e = dotdot \<or> (d, m) \<in> S)"

lemma resolve_stays:
  assumes "closed_below k root S" "at \<in> S" "resolve k (Some root) wp at es = Some x"
  shows "x \<in> S"
  using assms(2,3)
proof (induction es arbitrary: at)
  case (Cons e es)
  have "(fst at, m) \<in> S" if "dir_look k (snd at) (take DIRSIZ e) = Some m" "\<not> (root = at \<and> e = dotdot)" for m
    using assms(1) Cons.prems(1) take_dotdot [of e] that unfolding closed_below_def by (metis prod.collapse)
  then show ?case using Cons.IH Cons.prems by (auto split: if_splits option.splits)
qed (auto split: if_splits)

section \<open>Properties\<close>

text \<open>
  C12: path lookup computes the walk over the directory tree on disk.  If the disk is a consistent tree and
  the inode table is clean, \<open>namex\<close> does not panic, and its result is the one of \<open>resolve\<close>: it
  starts at the root (for an agent at its jail root) or at the working directory, follows
  each element through the entries of the directory, compares names up to 14 characters, stays in place
  on \<open>..\<close> at the jail root, stops one element early for a parent, and fails when a name is missing
  or a component is not a directory.  On success the returned inode has exactly one more reference and, for a
  parent, the buffer holds the last element; on failure no reference is left over.
\<close>

theorem namex_resolves:
  assumes "path_ready cwd k"
  shows "walked k wp (path_elems path) (resolve k (walk_root k) wp (walk_start path cwd k) (path_elems path))
    (namex path wp name k)"
  by (rule namex_walks [OF assms])

text \<open>
  C3: an agent cannot name a file outside its jail.  Let \<open>S\<close> contain the jail root and the agent's
  working directory, and let every directory entry of an inode in \<open>S\<close> lead into \<open>S\<close>, except \<open>..\<close> of the
  jail root.  Then for every path string, absolute or relative, with any number of \<open>..\<close>, the lookup returns, and an inode
  that it finds lies in \<open>S\<close>.
\<close>

theorem jail_contains_paths:
  assumes "path_ready cwd k" "is_jailed k" "jail_inode k = Some j" "ident k j \<in> S" "ident k cwd \<in> S"
    "closed_below k (ident k j) S"
  shows "\<exists>r nm k'. namex path wp name k = Some (r, nm, k') \<and> (\<forall>ip. r = Some ip \<longrightarrow> ident k' ip \<in> S)"
proof -
  have root: "walk_root k = Some (ident k j)" using assms(2,3) by (simp add: walk_root_def)
  then have "walk_start path cwd k \<in> S" using assms(4,5) by (simp add: walk_start_def)
  note stays = resolve_stays [OF assms(6) this]
  show ?thesis
    using namex_walks [OF assms(1), of wp path name] stays unfolding root
    by (fastforce simp: walked_def split: option.splits)
qed

text \<open>
  A disk for the instances below: the root directory 1 holds the directory 2 (\<open>jail\<close>) and the file 3
  (\<open>secret\<close>); an agent is jailed in 2 and works there.
\<close>

definition sample_dinode :: "nat \<Rightarrow> nat \<Rightarrow> nat \<Rightarrow> string" where
  "sample_dinode type sz addr =
     le_bytes 2 type @ le_bytes 4 0 @ le_bytes 2 1 @ le_bytes 4 sz @ le_bytes 4 addr @ replicate 48 NUL"

definition sample_dirent :: "nat \<Rightarrow> string \<Rightarrow> string" where
  "sample_dirent n nm = le_bytes 2 n @ nm @ replicate (14 - length nm) NUL"

definition sample_inodes :: string where
  "sample_inodes = replicate 64 NUL @ sample_dinode 1 64 10 @ sample_dinode 1 32 11 @ sample_dinode 2 0 0"

definition sample_root :: string where
  "sample_root = sample_dirent 1 ''.'' @ sample_dirent 1 ''..'' @ sample_dirent 2 ''jail'' @ sample_dirent 3 ''secret''"

definition sample_jail :: string where
  "sample_jail = sample_dirent 2 ''.'' @ sample_dirent 1 ''..''"

definition path_sample :: kernel where
  "path_sample = kernel_boot\<lparr>
     k_sb := (k_sb kernel_boot)\<lparr>sb_ninodes := 4, sb_inodestart := 2\<rparr>,
     k_blocks := (\<lambda>_. [])(2 := sample_inodes, 10 := sample_root, 11 := sample_jail),
     k_itable := (replicate NINODE inode_boot)[0 := inode_boot\<lparr>i_dev := 1, i_inum := 2, i_ref := 2\<rparr>],
     k_cur := Some 0,
     k_procs := [(proc_boot 0)\<lparr>p_is_agent := True, p_jail_root := Some 0, p_cwd := Some 0\<rparr>]\<rparr>"

lemma sample_fields:
  "k_blocks path_sample = (\<lambda>_. [])(2 := sample_inodes, 10 := sample_root, 11 := sample_jail)"
  "sb_ninodes (k_sb path_sample) = 4" "sb_inodestart (k_sb path_sample) = 2"
  by (simp_all add: path_sample_def)

lemma sample_dinodes:
  "n < 4 \<Longrightarrow> IBLOCK n (k_sb path_sample) = 2"
  "get_short sample_inodes 0 = 0" "get_short sample_inodes 64 = 1" "get_short sample_inodes 128 = 1" "get_short sample_inodes 192 = 2"
  "get_short sample_inodes 70 = 1" "get_short sample_inodes 134 = 1" "get_short sample_inodes 198 = 1"
  "load32 sample_inodes 72 = 64" "load32 sample_inodes 136 = 32" "load32 sample_inodes 76 = 10" "load32 sample_inodes 140 = 11"
proof -
  have "n < 4 \<Longrightarrow> n div 16 = 0" by (simp add: word_less_nat_alt word_unat_eq_iff unat_div)
  then show "n < 4 \<Longrightarrow> IBLOCK n (k_sb path_sample) = 2" by (simp add: IBLOCK_def IPB_def sample_fields)
qed (code_simp+)

lemma sample_disk_inode:
  "i_type (disk_inode path_sample 0) = 0"
  "i_type (disk_inode path_sample 1) = T_DIR" "i_nlink (disk_inode path_sample 1) = 1"
  "i_size (disk_inode path_sample 1) = 64" "i_addrs (disk_inode path_sample 1) ! 0 = 10"
  "i_type (disk_inode path_sample 2) = T_DIR" "i_nlink (disk_inode path_sample 2) = 1"
  "i_size (disk_inode path_sample 2) = 32" "i_addrs (disk_inode path_sample 2) ! 0 = 11"
  "i_type (disk_inode path_sample 3) = 2" "i_nlink (disk_inode path_sample 3) = 1"
  using sample_dinodes
  by (simp_all add: disk_inode_def dinode_read_def sample_fields dinode_off_def IPB_def get_addrs_def nth_append T_DIR_def del: upt_Suc)

lemma sample_live: "live path_sample n \<longleftrightarrow> n = 1 \<or> n = 2 \<or> n = 3"
proof -
  have "n < 4 \<longleftrightarrow> n = 0 \<or> n = 1 \<or> n = 2 \<or> n = 3"
    by (simp add: word_less_nat_alt word_unat_eq_iff) arith
  then show ?thesis using sample_disk_inode by (auto simp: live_def sample_fields T_DIR_def)
qed

lemma sample_entries:
  "dir_entries path_sample 1 = map dirent_of [sample_dirent 1 ''.'', sample_dirent 1 ''..'', sample_dirent 2 ''jail'', sample_dirent 3 ''secret'']"
  "dir_entries path_sample 2 = map dirent_of [sample_dirent 2 ''.'', sample_dirent 1 ''..'']"
  using sample_disk_inode
  by (simp_all add: dir_entries_def dir_offsets_def disk_slot_def disk_bmap_def sample_fields NDIRECT_def Let_def upt_rec
      sample_root_def sample_jail_def sample_dirent_def)

lemma sample_dirents:
  "de_inum (dirent_of (sample_dirent 1 ''.'')) = 1" "de_inum (dirent_of (sample_dirent 1 ''..'')) = 1"
  "de_inum (dirent_of (sample_dirent 2 ''.'')) = 2"
  "de_inum (dirent_of (sample_dirent 2 ''jail'')) = 2" "de_inum (dirent_of (sample_dirent 3 ''secret'')) = 3"
  "take DIRSIZ (cstr (de_name (dirent_of (sample_dirent 1 ''..'')))) = dotdot"
  by code_simp+

lemma sample_tree: "tree_ok path_sample"
proof -
  have "dir_wf path_sample n" if "n = 1 \<or> n = 2" for n
    using that sample_disk_inode sample_dirents
    by (auto simp: dir_wf_def Let_def sample_entries sample_live disk_bmap_def NDIRECT_def MAXFILE_def NINDIRECT_def BSIZE_def)
  then show ?thesis using sample_disk_inode by (auto simp: tree_ok_def sample_live is_dir_def T_DIR_def)
qed

lemma sample_ready:
  "path_ready 0 path_sample" "is_jailed path_sample" "jail_inode path_sample = Some 0" "ident path_sample 0 = (1, 2)"
proof -
  have refs: "ino_refs path_sample s = (if s = 0 then 2 else 0)" for s
    by (simp add: ino_refs_def path_sample_def inode_boot_def NINODE_def nth_list_update split: if_splits)
  have it: "k_itable path_sample = (replicate NINODE inode_boot)[0 := inode_boot\<lparr>i_dev := 1, i_inum := 2, i_ref := 2\<rparr>]"
    by (simp add: path_sample_def)
  show "is_jailed path_sample" "jail_inode path_sample = Some 0" "ident path_sample 0 = (1, 2)"
    by (simp_all add: is_jailed_def jail_inode_def ident_def path_sample_def NINODE_def)
  moreover have "core_ok None path_sample"
    unfolding core_ok_def itable_inv_def refs
    by (auto simp: it slot_ok_def sample_live inode_boot_def NINODE_def nth_list_update split: if_splits)
  moreover have "card {1, 2 :: nat} \<le> card {s. s < length (k_itable path_sample) \<and> ino_refs path_sample s = 0}"
    by (rule card_mono) (auto simp: refs it NINODE_def)
  ultimately show "path_ready 0 path_sample"
    by (simp add: path_ready_def sample_tree sample_live ROOTINO_def refs cwd_inode_def) (simp add: path_sample_def)
qed

lemma sample_closed: "closed_below path_sample (1, 2) {(1, 2)}"
proof -
  have "e = dotdot \<or> m = 2" if "dir_look path_sample 2 e = Some m" for e m
    using that sample_dirents take_dotdot [of e] by (auto simp: dir_look_def sample_entries names_def split: if_splits)
  then show ?thesis by (auto simp: closed_below_def)
qed

theorem namex_resolves_witness:
  "path_ready 0 path_sample \<and>
   walked path_sample False [''..'', ''..''] (Some (1, 2)) (namex ''/../..'' False (replicate DIRSIZ NUL) path_sample)"
proof -
  have "path_elems ''/../..'' = [''..'', ''..'']" by code_simp
  moreover have "is_dir path_sample 2" using sample_disk_inode by (simp add: is_dir_def)
  ultimately show ?thesis
    using namex_resolves [OF sample_ready(1), of False "''/../..''" "replicate DIRSIZ NUL"] sample_ready
    by (simp add: walk_root_def walk_start_def dotdot_def deref_def)
qed

theorem jail_contains_paths_witness:
  "closed_below path_sample (1, 2) {(1, 2)} \<and>
   (\<exists>r nm k'. namex ''../secret'' False (replicate DIRSIZ NUL) path_sample = Some (r, nm, k') \<and>
      (r = None \<or> (\<exists>ip. r = Some ip \<and> ident k' ip = (1, 2))))"
  using jail_contains_paths [OF sample_ready(1-3), of "{(1, 2)}" "''../secret''" False "replicate DIRSIZ NUL"] sample_closed
  by (fastforce simp: sample_ready(4))

end
