(* ===== verification/Kvm.thy ===== *)
theory Kvm
  imports Pagetable
begin

text \<open>
  The kernel's own address space: \<open>kvmmake\<close>, \<open>kvminit\<close> (vm.c) and \<open>proc_mapstacks\<close> (proc.c).  The addresses \<open>k_etext\<close> and \<open>k_trampoline\<close>
  come from the linker script.  The map that results is compared with the memory layout of memlayout.h; the pages that
  the tables need are counted, so that building the map is shown to succeed.
\<close>

unbundle bit_operations_syntax

section \<open>Operations\<close>

definition UART0 :: u64 where "UART0 = 0x10000000"
definition VIRTIO0 :: u64 where "VIRTIO0 = 0x10001000"
definition PLIC :: u64 where "PLIC = 0x0c000000"

definition map_stack :: "u64 \<Rightarrow> nat \<Rightarrow> nat \<Rightarrow> kernel \<Rightarrow> kernel option" where
  "map_stack kpgtbl i j k =
     (let va = KSTACK i; (pa, k) = kalloc k
      in if pa = 0 then panic ''kalloc''
         else kvmmap kpgtbl (va + of_nat j * PGSIZE) pa PGSIZE (PTE_R OR PTE_W) k)"

definition proc_mapstacks :: "u64 \<Rightarrow> kernel \<Rightarrow> kernel option" where
  "proc_mapstacks kpgtbl k =
     iter_option (\<lambda>i. iter_option (map_stack kpgtbl i) [0..<unat KSTACK_PAGES]) [0..<NPROC] k"

definition kvmmake :: "kernel \<Rightarrow> (u64 \<times> kernel) option" where
  "kvmmake k =
     do { let (kpgtbl, k) = kalloc k;
          let k = zero_page kpgtbl k;
          let etext = k_etext k;
          let trampoline = k_trampoline k;
          k \<leftarrow> kvmmap kpgtbl UART0 UART0 PGSIZE (PTE_R OR PTE_W) k;
          k \<leftarrow> kvmmap kpgtbl VIRTIO0 VIRTIO0 PGSIZE (PTE_R OR PTE_W) k;
          k \<leftarrow> kvmmap kpgtbl PLIC PLIC 0x4000000 (PTE_R OR PTE_W) k;
          k \<leftarrow> kvmmap kpgtbl KERNBASE KERNBASE (etext - KERNBASE) (PTE_R OR PTE_X) k;
          k \<leftarrow> kvmmap kpgtbl etext etext (PHYSTOP - etext) (PTE_R OR PTE_W) k;
          k \<leftarrow> kvmmap kpgtbl TRAMPOLINE trampoline PGSIZE (PTE_R OR PTE_X) k;
          k \<leftarrow> proc_mapstacks kpgtbl k;
          Some (kpgtbl, k) }"

definition kvminit :: "kernel \<Rightarrow> kernel option" where
  "kvminit k = do { (kpgtbl, k) \<leftarrow> kvmmake k; Some (k\<lparr>k_kpgtbl := kpgtbl\<rparr>) }"

section \<open>Counting tables\<close>

definition tables :: "kernel \<Rightarrow> u64 \<Rightarrow> u64 list set" where
  "tables k R = {xs. path xs \<and> tab (k_mem k) R xs \<noteq> None}"

text \<open>Every page taken from the free list is a new table on one of the paths \<open>P\<close>.\<close>

definition counted :: "u64 list set \<Rightarrow> kernel \<Rightarrow> u64 list \<Rightarrow> u64 \<Rightarrow> kernel \<Rightarrow> u64 list \<Rightarrow> bool" where
  "counted P k ps R k' ps' \<longleftrightarrow>
     tables k' R \<subseteq> tables k R \<union> P \<and> card (tables k' R) + length ps' = card (tables k R) + length ps"

definition prefixes_of :: "u64 \<Rightarrow> u64 list set" where
  "prefixes_of va = {[PX 2 va], [PX 2 va, PX 1 va]}"

lemma finite_tables [simp]: "finite (tables k R)"
proof (rule finite_subset)
  show "tables k R \<subseteq> {xs. set xs \<subseteq> UNIV \<and> length xs \<le> 2}" by (auto simp: tables_def path_def)
  show "finite {xs :: u64 list. set xs \<subseteq> UNIV \<and> length xs \<le> 2}" by (rule finite_lists_length_le) simp
qed

lemma counted_refl: "counted P k ps R k ps"
  by (simp add: counted_def)

lemma counted_trans: "counted P k ps R k' ps' \<Longrightarrow> counted P k' ps' R k2 ps2 \<Longrightarrow> counted P k ps R k2 ps2"
  unfolding counted_def by auto

lemma counted_mono: "counted P k ps R k' ps' \<Longrightarrow> P \<subseteq> Q \<Longrightarrow> counted Q k ps R k' ps'"
  unfolding counted_def by auto

lemma free_list_unique: "kmem_inv k ps \<Longrightarrow> kmem_inv k ps' \<Longrightarrow> ps = ps'"
proof -
  have "free_chain m h ps \<Longrightarrow> free_chain m h ps' \<Longrightarrow> 0 \<notin> set ps \<Longrightarrow> 0 \<notin> set ps' \<Longrightarrow> ps = ps'" for m h ps ps'
  proof (induction ps arbitrary: h ps')
    case Nil
    then show ?case by (cases ps') auto
  next
    case (Cons p ps)
    then show ?case by (cases ps') auto
  qed
  then show "kmem_inv k ps \<Longrightarrow> kmem_inv k ps' \<Longrightarrow> ps = ps'"
    using page_ok_nonzero [of k 0] unfolding kmem_inv_def by blast
qed

lemma counted_new:
  assumes "kmem_inv k (g # ps)" "pt_wf k (g # ps) R" "path xs" "length xs < 2" "tab (k_mem k) R xs = Some t" "i < 512"
    "child (k_mem k) t i = None"
    "k' = k\<lparr>k_freelist := load64 (k_mem k) g,
        k_mem := store64 (mem_fill (mem_fill (k_mem k) g (CHR 0x05) 4096) g NUL 4096) (pte_addr t i)
                   (PA2PTE g OR PTE_V)\<rparr>"
  shows "counted {xs @ [i]} k (g # ps) R k' ps"
proof -
  note tab = walk_new_table(6) [OF assms]
  have p: "path (xs @ [i])" by (rule path_snocI [OF assms(3,4,6)])
  have "tables k' R = insert (xs @ [i]) (tables k R)"
    using p tab by (auto simp: tables_def split: if_splits)
  moreover have "xs @ [i] \<notin> tables k R" using assms(5,7) by (simp add: tables_def tab_append)
  ultimately show ?thesis by (simp add: counted_def)
qed

lemma walk_loop_counted:
  assumes "kmem_inv k ps" "pt_wf k ps R" "xs = take (2 - l) [PX 2 va, PX 1 va]" "l \<le> 2"
    "tab (k_mem k) R xs = Some t" "walk_loop l t va True k = (a, k')"
  shows "\<exists>ps'. kmem_inv k' ps' \<and> pt_wf k' ps' R \<and> counted (prefixes_of va) k ps R k' ps'"
  using assms
proof (induction l arbitrary: k ps xs t)
  case 0
  then show ?case using counted_refl by fastforce
next
  case (Suc l)
  let ?i = "PX (Suc l) va"
  from Suc.prems(4) consider "l = 0" | "l = 1" by linarith
  then have xs: "path xs" "length xs < 2" "xs @ [?i] = take (2 - l) [PX 2 va, PX 1 va]" "xs @ [?i] \<in> prefixes_of va"
    using Suc.prems(3) by (cases; simp add: path_def numeral_2_eq_2 prefixes_of_def)+
  note t = Suc.prems(5)
  show ?case
  proof (cases "child (k_mem k) t ?i")
    case (Some p)
    then have p: "tab (k_mem k) R (xs @ [?i]) = Some p" using t by (simp add: tab_append)
    have "walk_loop l p va True k = (a, k')"
      using Suc.prems(6) Some by (simp add: child_def entry_def Let_def split: if_splits)
    then show ?thesis using Suc.IH [OF Suc.prems(1,2) xs(3) _ p] Suc.prems(4) by simp
  next
    case None
    then have inval: "load64 (k_mem k) (pte_addr t ?i) AND PTE_V = 0"
      by (simp add: child_def entry_def split: if_splits)
    show ?thesis
    proof (cases ps)
      case Nil
      then have "k' = k" using inval kalloc_empty Suc.prems(1,6) by (simp add: Let_def)
      then show ?thesis using Suc.prems(1,2) counted_refl by blast
    next
      case (Cons g ps1)
      define k1 where "k1 = k\<lparr>k_freelist := load64 (k_mem k) g,
        k_mem := store64 (mem_fill (mem_fill (k_mem k) g (CHR 0x05) 4096) g NUL 4096) (pte_addr t ?i)
                   (PA2PTE g OR PTE_V)\<rparr>"
      note hyp = Suc.prems(1,2) [unfolded Cons] xs(1,2) t PX_less None k1_def
      note new = walk_new_table [OF hyp]
      have g0: "g \<noteq> 0" using Suc.prems(1) Cons kmem.inv_pages by auto
      have "walk_loop l g va True k1 = (a, k')"
        using inval g0 kalloc_page(1) [OF Suc.prems(1) [unfolded Cons]] Suc.prems(6)
        by (simp add: Let_def k1_def)
      then obtain ps' where "kmem_inv k' ps'" "pt_wf k' ps' R" "counted (prefixes_of va) k1 ps1 R k' ps'"
        using Suc.prems(4) Suc.IH [OF new(1,2) xs(3) _ new(3)] by auto
      moreover have "counted (prefixes_of va) k ps R k1 ps1"
        using counted_mono [OF counted_new [OF hyp]] xs(4) Cons by simp
      ultimately show ?thesis using counted_trans by blast
    qed
  qed
qed

lemma store_counted:
  assumes "kmem_inv k ps" "pt_wf k ps R" "leaf (k_mem k) R va = Some a" "va < MAXVA"
  shows "tables (k\<lparr>k_mem := store64 (k_mem k) a v\<rparr>) R = tables k R"
  using store_leaf(5) [OF assms refl] by (auto simp: tables_def)

lemma mappages_turn:
  assumes run: "mappages_loop R a final pa perm k = Some (r, k')" and inv: "kmem_inv k ps" "pt_wf k ps R" and P: "prefixes_of a \<subseteq> P"
  shows "(\<exists>ps1. kmem_inv k' ps1 \<and> counted P k ps R k' ps1) \<or>
    (\<exists>k2 ps1. a < MAXVA \<and> a \<noteq> final \<and> kmem_inv k2 ps1 \<and> pt_wf k2 ps1 R \<and> counted P k ps R k2 ps1 \<and>
       mappages_loop R (a + PGSIZE) final (pa + PGSIZE) perm k2 = Some (r, k'))"
proof -
  have "\<exists>p k1. walk R a True k = Some (p, k1)"
    using run by (subst (asm) mappages_loop.simps) (auto split: option.splits)
  then obtain p k1 where w: "walk R a True k = Some (p, k1)" by blast
  then have a: "a < MAXVA" by (rule walk_range)
  have wl: "walk_loop 2 R a True k = (p, k1)" using w a by (simp add: walk_def not_le [symmetric])
  obtain ps1 where p1: "kmem_inv k1 ps1" "pt_wf k1 ps1 R" "counted (prefixes_of a) k ps R k1 ps1"
    using walk_loop_counted [OF inv, of "[]" 2 a R] wl by auto
  have c1: "counted P k ps R k1 ps1" by (rule counted_mono [OF p1(3) P])
  show ?thesis
  proof (cases "p = 0")
    case True
    then have "k' = k1" using run w by (subst (asm) mappages_loop.simps) simp
    then show ?thesis using p1 c1 by blast
  next
    case False
    then have leaf: "leaf (k_mem k1) R a = Some p" using walk_loop_alloc [OF inv, of "[]" 2 a R] wl by auto
    let ?k = "k1\<lparr>k_mem := store64 (k_mem k1) p (PA2PTE pa OR perm OR PTE_V)\<rparr>"
    have "counted P k1 ps1 R ?k ps1" by (simp add: counted_def store_counted [OF p1(1,2) leaf a])
    then have "counted P k ps R ?k ps1" using c1 counted_trans by blast
    moreover have "if a = final then k' = ?k else mappages_loop R (a + PGSIZE) final (pa + PGSIZE) perm ?k = Some (r, k')"
      using run w False by (subst (asm) mappages_loop.simps) (auto simp: panic_simps Let_def split: if_splits)
    moreover have "kmem_inv ?k ps1" "pt_wf ?k ps1 R" by (rule store_leaf [OF p1(1,2) leaf a refl])+
    ultimately show ?thesis using a by (cases "a = final") (auto intro: exI [of _ ps1] exI [of _ ?k])
  qed
qed

lemma mappages_loop_counted:
  assumes "mappages_loop R a final pa perm k = Some (r, k')" "kmem_inv k ps" "pt_wf k ps R"
    "unat final = unat a + 4096 * n" "\<And>x. unat a \<le> unat x \<Longrightarrow> unat x \<le> unat final \<Longrightarrow> prefixes_of x \<subseteq> P"
  shows "\<exists>ps'. kmem_inv k' ps' \<and> counted P k ps R k' ps'"
  using assms
proof (induction n arbitrary: a pa k ps)
  case 0
  have "a = final" using 0(4) by (simp add: word_unat_eq_iff)
  moreover have "prefixes_of a \<subseteq> P" using 0(4,5) by simp
  ultimately show ?case using mappages_turn [OF "0"(1-3)] by blast
next
  case (Suc n)
  have "prefixes_of a \<subseteq> P" using Suc.prems(4,5) by simp
  from mappages_turn [OF Suc.prems(1-3) this] show ?case
  proof (elim disjE exE conjE)
    fix k2 ps1
    assume s: "a < MAXVA" "kmem_inv k2 ps1" "pt_wf k2 ps1 R" "counted P k ps R k2 ps1"
      "mappages_loop R (a + PGSIZE) final (pa + PGSIZE) perm k2 = Some (r, k')"
    have "\<exists>ps'. kmem_inv k' ps' \<and> counted P k2 ps1 R k' ps'"
      by (rule Suc.IH [OF s(5,2,3)]) (use Suc.prems(4,5) va_step [OF s(1)] in auto)
    then show ?thesis using s(4) counted_trans by blast
  qed blast
qed

section \<open>Building the kernel's map\<close>

text \<open>
  The state while the map is built: \<open>M\<close> gives the entries so far, the tables lie on the paths \<open>P\<close>, tables and free pages are together
  \<open>n\<close> pages, and \<open>H\<close> are the stack pages, which are neither free nor tables.
\<close>

definition building :: "u64 list set \<Rightarrow> nat \<Rightarrow> u64 list \<Rightarrow> (u64 \<Rightarrow> u64) \<Rightarrow> u64 \<Rightarrow> kernel \<Rightarrow> u64 list \<Rightarrow> bool" where
  "building P n H M R k ps \<longleftrightarrow>
     kmem_inv k ps \<and> pt_wf k ps R \<and> tables k R \<subseteq> P \<and> card (tables k R) + length ps = n \<and>
     (\<forall>x < MAXVA. leaf_pte k R x = M x) \<and>
     distinct H \<and> (\<forall>q \<in> set H. page_ok k q \<and> q \<notin> set ps \<and> \<not> is_table k R q)"

definition with_range :: "u64 \<Rightarrow> u64 \<Rightarrow> u64 \<Rightarrow> u64 \<Rightarrow> (u64 \<Rightarrow> u64) \<Rightarrow> u64 \<Rightarrow> u64" where
  "with_range va sz pa perm M x = (if va \<le> x \<and> x < va + sz then PA2PTE (pa + (PGROUNDDOWN x - va)) OR perm OR PTE_V else M x)"

lemma kvmmap_builds:
  assumes b: "building P n H M R k ps" and al: "va mod PGSIZE = 0" "sz mod PGSIZE = 0" "sz \<noteq> 0" "unat va + unat sz \<le> unat MAXVA"
    and free: "\<And>x. va \<le> x \<Longrightarrow> x < va + sz \<Longrightarrow> M x = 0"
    and P: "\<And>x. va \<le> x \<Longrightarrow> x < va + sz \<Longrightarrow> prefixes_of x \<subseteq> P" "finite P" "card P < n"
  shows "\<exists>k' ps'. kvmmap R va pa sz perm k = Some k' \<and> building P n H (with_range va sz pa perm M) R k' ps'"
proof -
  have inv: "kmem_inv k ps" "pt_wf k ps R" and M: "\<And>x. x < MAXVA \<Longrightarrow> leaf_pte k R x = M x"
    and H: "distinct H" "\<And>q. q \<in> set H \<Longrightarrow> page_ok k q \<and> q \<notin> set ps \<and> \<not> is_table k R q"
    and T: "tables k R \<subseteq> P" "card (tables k R) + length ps = n" using b by (auto simp: building_def)
  have add: "unat (va + sz) = unat va + unat sz" using al(4) by (simp add: unat_word_ariths unat_MAXVA)
  have below: "x < va + sz \<Longrightarrow> x < MAXVA" for x using al(4) add by (simp add: word_less_nat_alt)
  then have unm: "va \<le> x \<Longrightarrow> x < va + sz \<Longrightarrow> leaf_pte k R x AND PTE_V = 0" for x using free M by simp
  obtain r k' ps' where m: "mappages R va sz pa perm k = Some (r, k')" "kmem_inv k' ps'" "pt_wf k' ps' R" "vm_frame k ps R k' ps'"
    "r = 0 \<and> (\<forall>x < MAXVA. leaf_pte k' R x =
        (if va \<le> x \<and> x < va + sz then PA2PTE (pa + (PGROUNDDOWN x - va)) OR perm OR PTE_V
         else leaf_pte k R x)) \<or> r = - 1 \<and> ps' = []"
    using mappages_maps [OF inv al unm, of pa perm] by blast
  have "mappages_loop R va (va + sz - PGSIZE) pa perm k = Some (r, k')" using m(1) al(1-3) by (simp add: mappages_def)
  moreover have s: "unat sz mod 4096 = 0" "unat sz \<noteq> 0" using al(2,3) by (simp_all only: aligned_unat unat_eq_0 not_False_eq_True)
  then obtain c where c: "unat sz = 4096 * Suc c" by (metis dvdE mod_0_imp_dvd mult_0_right not0_implies_Suc)
  have fin: "unat (va + sz - PGSIZE) = unat va + 4096 * c"
    using add c by (subst unat_sub) (simp_all add: word_le_nat_alt PGSIZE_def)
  moreover have "prefixes_of x \<subseteq> P" if "unat va \<le> unat x" "unat x \<le> unat (va + sz - PGSIZE)" for x
    using that fin add c by (intro P(1)) (simp_all add: word_le_nat_alt word_less_nat_alt)
  ultimately obtain ps2 where "kmem_inv k' ps2" "counted P k ps R k' ps2"
    using mappages_loop_counted [OF _ inv, of va _ pa perm r k' c P] by blast
  then have cnt: "counted P k ps R k' ps'" using free_list_unique [OF m(2)] by blast
  then have T': "tables k' R \<subseteq> P" "card (tables k' R) + length ps' = n" using T by (auto simp: counted_def)
  have "r = 0"
  proof (rule ccontr)
    assume "r \<noteq> 0"
    then have "card (tables k' R) = n" using m(5) T'(2) by auto
    moreover have "card (tables k' R) \<le> card P" by (rule card_mono [OF P(2) T'(1)])
    ultimately show False using P(3) by simp
  qed
  moreover have "page_ok k' q \<and> q \<notin> set ps' \<and> \<not> is_table k' R q" if "q \<in> set H" for q
    using H(2) [OF that] m(4) vm_frame_page_ok [OF m(4)] unfolding vm_frame_def by auto
  ultimately show ?thesis using m T' H(1) M below unfolding building_def with_range_def kvmmap_def vm_frame_def
    by (intro exI [of _ k'] exI [of _ ps']) simp
qed

lemma page_ok_upd [simp]: "page_ok (k\<lparr>k_mem := m\<rparr>) = page_ok k" "page_ok (k\<lparr>k_freelist := f\<rparr>) = page_ok k"
  by (auto simp: page_ok_def)

text \<open>Writing into a page that is neither free nor a table keeps the map.\<close>

lemma outside_page:
  assumes inv: "kmem_inv k ps" "pt_wf k ps R" and q: "page_ok k q" "q \<notin> set ps" "\<not> is_table k R q"
    and k': "k' = k\<lparr>k_mem := m\<rparr>" "\<And>x. x < unat q \<or> unat q + 4096 \<le> x \<Longrightarrow> m x = k_mem k x"
  shows "kmem_inv k' ps" "path ys \<Longrightarrow> tab m R ys = tab (k_mem k) R ys" "leaf_pte k' R x = leaf_pte k R x" "pt_wf k' ps R"
proof -
  have ok: "page_ok k' = page_ok k" by (simp add: k'(1))
  have c: "free_chain (k_mem k) (k_freelist k) ps" "\<forall>p \<in> set ps. page_ok k p" using inv(1) by (simp_all add: kmem_inv_def)
  have "free_chain m (k_freelist k) ps" by (rule free_chain_other [OF c q(1,2) k'(2)])
  then show "kmem_inv k' ps" using inv(1) unfolding kmem_inv_def ok by (simp add: k'(1))
  have ent: "entry m t j = entry (k_mem k) t j" if "is_table k R t" "j < 512" for t j
  proof -
    have t: "page_ok k t" "t \<noteq> q" using that(1) q(3) pt_wf_ok [OF inv(2)] by (auto simp: is_table_def)
    then have "unat t + 4096 \<le> unat q \<or> unat q + 4096 \<le> unat t" using page_apart [of t q] q(1) by (auto simp: page_ok_def)
    then have "m x = k_mem k x" if "unat t \<le> x" "x < unat t + 4096" for x using that by (intro k'(2)) linarith
    then show ?thesis using t(1) that(2) by (intro entry_cong_page [of k])
  qed
  have tab: "tab m R ys = tab (k_mem k) R ys" if "path ys" for ys
  proof (rule tab_cong)
    fix zs j ws t
    assume z: "ys = zs @ j # ws" "tab (k_mem k) R zs = Some t"
    then have "path zs" "j < 512" using that by (auto simp: path_def)
    moreover from this have "is_table k R t" using z(2) unfolding is_table_def by blast
    ultimately show "child m t j = child (k_mem k) t j" using ent [of t j] by (simp add: child_def)
  qed
  then show "path ys \<Longrightarrow> tab m R ys = tab (k_mem k) R ys" by blast
  show "pt_wf k' ps R" using inv(2) tab unfolding pt_wf_def ok by (simp add: k'(1))
  show "leaf_pte k' R x = leaf_pte k R x"
    using tab [OF path_leaf(1), of x] ent [OF _ PX_less] path_leaf(1) [of x]
    by (auto simp: leaf_pte_def k'(1) is_table_def simp del: tab.simps path_leaf split: option.splits)
qed

lemma kalloc_builds:
  assumes b: "building P n H M R k (p # ps)"
  shows "\<exists>k1. kalloc k = (p, k1) \<and> p \<noteq> 0 \<and> building P (n - 1) (H @ [p]) M R k1 ps"
proof -
  have inv: "kmem_inv k (p # ps)" "pt_wf k (p # ps) R" using b by (auto simp: building_def)
  let ?k0 = "k\<lparr>k_freelist := load64 (k_mem k) p\<rparr>"
  let ?m = "mem_fill (k_mem k) p (CHR 0x05) 4096"
  let ?k1 = "?k0\<lparr>k_mem := ?m\<rparr>"
  have al: "kalloc k = (p, ?k1)" using kalloc_page(1) [OF inv(1)] by simp
  have p: "page_ok k p" "p \<notin> set ps" "p \<noteq> 0" using inv(1) page_ok_nonzero [of k p] by (auto simp: kmem_inv_def)
  have nt: "\<not> is_table k R p" using pt_wf_ok [OF inv(2)] by (auto simp: is_table_def)
  have i0: "kmem_inv ?k0 ps" "pt_wf ?k0 ps R" "\<not> is_table ?k0 R p"
    using inv nt unfolding kmem_inv_def pt_wf_def is_table_def by auto
  have out: "\<And>x. x < unat p \<or> unat p + 4096 \<le> x \<Longrightarrow> ?m x = k_mem ?k0 x" by (simp add: mem_fill_out)
  note keep = outside_page [OF i0(1,2) _ p(2) i0(3) refl out, unfolded page_ok_upd, OF p(1)]
  have tb: "tables ?k1 R = tables k R" "is_table ?k1 R q = is_table k R q" for q
    using keep(2) by (auto simp: tables_def is_table_def)
  have "leaf_pte ?k0 R x = leaf_pte k R x" for x by (simp add: leaf_pte_def cong: option.case_cong)
  then have "leaf_pte ?k1 R x = leaf_pte k R x" for x using keep(3) [of x] by simp
  then show ?thesis using b al p nt keep(1,4) tb unfolding building_def by auto
qed

lemma new_root:
  assumes inv: "kmem_inv k (R # ps)" and P: "[] \<in> P"
  shows "\<exists>k1. kalloc k = (R, k1) \<and> building P (Suc (length ps)) [] (\<lambda>_. 0) R (zero_page R k1) ps \<and>
    k_etext (zero_page R k1) = k_etext k \<and> k_trampoline (zero_page R k1) = k_trampoline k"
proof -
  let ?k1 = "k\<lparr>k_freelist := load64 (k_mem k) R, k_mem := mem_fill (k_mem k) R (CHR 0x05) 4096\<rparr>"
  let ?k2 = "zero_page R ?k1"
  have al: "kalloc k = (R, ?k1)" and i1: "kmem_inv ?k1 ps" using kalloc_page [OF inv] by simp_all
  have R: "page_ok k R" "R \<notin> set ps" using inv by (auto simp: kmem_inv_def)
  have c: "free_chain (k_mem ?k1) (k_freelist ?k1) ps" "\<forall>q \<in> set ps. page_ok k q" using i1 by (simp_all add: kmem_inv_def)
  have "free_chain (k_mem ?k2) (k_freelist ?k1) ps"
    by (rule free_chain_other [OF c R]) (simp add: zero_page_def mem_fill_out)
  then have i2: "kmem_inv ?k2 ps" using i1 by (simp add: kmem_inv_def zero_page_def)
  have "entry (k_mem ?k2) R i = 0" if "i < 512" for i
    using entry_fill [OF R(1,1) that] by (simp add: zero_page_def)
  then have ch: "child (k_mem ?k2) R i = None" if "i < 512" for i using that by (simp add: child_def)
  have tab: "tab (k_mem ?k2) R xs = (if xs = [] then Some R else None)" if "path xs" for xs
    using that ch by (cases xs) (simp_all add: path_def)
  have "tables ?k2 R = {[]}" using tab by (auto simp: tables_def split: if_splits)
  moreover have "pt_wf ?k2 ps R" using tab R by (auto simp: pt_wf_def zero_page_def split: if_splits)
  moreover have "leaf_pte ?k2 R x = 0" for x using tab [OF path_leaf(1), of x] by (simp add: leaf_pte_def del: tab.simps)
  ultimately show ?thesis using al i2 P by (simp add: building_def zero_page_def)
qed

section \<open>The tables of the layout\<close>

lemma unat_PX: "unat (PX l x) = unat x div 2 ^ (12 + 9 * l) mod 512"
proof -
  have "PX l x = take_bit 9 (drop_bit (12 + 9 * l) x)" by (simp add: PX_take_bit add.commute)
  then have "unat (PX l x) = take_bit 9 (drop_bit (12 + 9 * l) (unat x))" by (simp only: unsigned_take_bit_eq unat_drop_bit_eq)
  then show ?thesis by (simp add: take_bit_eq_mod drop_bit_eq_div)
qed

text \<open>The 2 MB regions in which the kernel maps anything, and the paths to their tables.\<close>

definition regions :: "nat set" where
  "regions = {96..128} \<union> {1024..1087} \<union> {131070, 131071}"

definition region_path :: "nat \<Rightarrow> u64 list" where
  "region_path m = [of_nat (m div 512), of_nat (m mod 512)]"

definition layout_paths :: "u64 list set" where
  "layout_paths = {[]} \<union> {[0], [2], [255]} \<union> region_path ` regions"

lemma layout_small: "finite layout_paths" "card layout_paths \<le> 103"
proof -
  have f: "finite regions" by (simp add: regions_def)
  then show "finite layout_paths" by (simp add: layout_paths_def)
  have "card regions \<le> 33 + 64 + 2"
    unfolding regions_def by (intro order_trans [OF card_Un_le] add_mono) simp_all
  then have "card (region_path ` regions) \<le> 99" using card_image_le [OF f, of region_path] by simp
  then show "card layout_paths \<le> 103" unfolding layout_paths_def
    using card_Un_le [of "{[]} \<union> {[0], [2], [255]}" "region_path ` regions"] by simp
qed

lemma prefixes_region:
  assumes "unat x div 2097152 \<in> regions"
  shows "prefixes_of x \<subseteq> layout_paths"
proof -
  let ?m = "unat x div 2097152"
  have d: "unat x div 1073741824 = ?m div 512" by (simp add: div_mult2_eq)
  have m: "?m div 512 \<in> {0, 2, 255}" using assms unfolding regions_def by auto
  have "PX 2 x = of_nat (?m div 512)"
    using m d unat_PX [of 2 x] by (intro word_unat_eq_iff [THEN iffD2]) (auto simp: unat_of_nat)
  moreover have "PX 1 x = of_nat (?m mod 512)"
    using unat_PX [of 1 x] by (intro word_unat_eq_iff [THEN iffD2]) (simp add: unat_of_nat)
  ultimately show ?thesis using m assms by (auto simp: prefixes_of_def layout_paths_def region_path_def)
qed

lemma kvmmap_layout:
  assumes b: "building layout_paths n H M R k ps" and n: "103 < n"
    and al: "unat va mod 4096 = 0" "unat sz mod 4096 = 0" "0 < unat sz" "unat va + unat sz \<le> 274877906944"
    and free: "\<And>x. unat va \<le> unat x \<Longrightarrow> unat x < unat va + unat sz \<Longrightarrow> M x = 0 \<and> unat x div 2097152 \<in> regions"
  shows "\<exists>k' ps'. kvmmap R va pa sz perm k = Some k' \<and> building layout_paths n H (with_range va sz pa perm M) R k' ps'"
proof (rule kvmmap_builds [OF b])
  have add: "unat (va + sz) = unat va + unat sz" using al(4) by (simp add: unat_word_ariths)
  show "va mod PGSIZE = 0" "sz mod PGSIZE = 0" using al(1,2) by (simp_all only: aligned_unat)
  show "sz \<noteq> 0" using al(3) by auto
  show "unat va + unat sz \<le> unat MAXVA" using al(4) by (simp add: unat_MAXVA)
  show "finite layout_paths" "card layout_paths < n" using layout_small n by simp_all
  fix x
  assume x: "va \<le> x" "x < va + sz"
  show "M x = 0" "prefixes_of x \<subseteq> layout_paths"
    using free [of x] prefixes_region [of x] x add by (simp_all add: word_le_nat_alt word_less_nat_alt)
qed

section \<open>Kernel stacks\<close>

text \<open>The address of stack page \<open>m\<close>, counted over all processes.\<close>

definition stack_va :: "nat \<Rightarrow> u64" where
  "stack_va m = KSTACK (m div 8) + of_nat (m mod 8) * PGSIZE"

definition in_stack :: "u64 \<Rightarrow> nat \<Rightarrow> bool" where
  "in_stack x m \<longleftrightarrow> stack_va m \<le> x \<and> x < stack_va m + PGSIZE"

lemma unat_KSTACK:
  assumes "i < 64"
  shows "unat (KSTACK i) = 274877902848 - 36864 * (i + 1)"
proof -
  define w :: u64 where "w = (of_nat i + 1) * 36864"
  have w: "unat w = 36864 * (i + 1)" unfolding w_def using assms by (simp add: unat_word_ariths unat_of_nat)
  have "KSTACK i = 274877902848 - w"
    by (simp add: KSTACK_def TRAMPOLINE_def MAXVA_def PGSIZE_def KSTACK_PAGES_def w_def)
  moreover have "w \<le> 274877902848" using assms by (simp add: word_le_nat_alt w)
  ultimately show ?thesis by (simp add: unat_sub w)
qed

text \<open>Its page number: nine pages per process below the trampoline, of which the highest is the guard page.\<close>

definition stack_no :: "nat \<Rightarrow> nat" where
  "stack_no m = 67108854 - 9 * (m div 8) + m mod 8"

lemma stack_index:
  assumes "m < 512"
  obtains i j where "m = 8 * i + j" "i < 64" "j < 8" "stack_no m = 67108854 - 9 * i + j" "m div 8 = i" "m mod 8 = j"
  using assms by (intro that [of "m div 8" "m mod 8"]) (simp_all add: stack_no_def less_mult_imp_div_less)

lemma stack_no_range:
  assumes "m < 512"
  shows "67108287 \<le> stack_no m" "stack_no m \<le> 67108861"
  using assms by (auto elim!: stack_index)

lemma stack_no_inj:
  assumes "m < 512" "m' < 512" "stack_no m = stack_no m'"
  shows "m = m'"
proof -
  obtain i j where m: "m = 8 * i + j" "i < 64" "j < 8" "stack_no m = 67108854 - 9 * i + j" by (rule stack_index [OF assms(1)])
  obtain i' j' where m': "m' = 8 * i' + j'" "i' < 64" "j' < 8" "stack_no m' = 67108854 - 9 * i' + j'" by (rule stack_index [OF assms(2)])
  have "9 * i + j' = 9 * i' + j" using m m' assms(3) by linarith
  moreover have "(9 * i + j') div 9 = i" "(9 * i' + j) div 9 = i'" using m(3) m'(3) by simp_all
  ultimately have "i = i'" by simp
  then show ?thesis using \<open>9 * i + j' = 9 * i' + j\<close> m(1) m'(1) by simp
qed

lemma unat_stack_va:
  assumes "m < 512"
  shows "unat (stack_va m) = 4096 * stack_no m"
proof -
  obtain i j where m: "i < 64" "j < 8" "stack_no m = 67108854 - 9 * i + j" "m div 8 = i" "m mod 8 = j"
    by (rule stack_index [OF assms])
  define w :: u64 where "w = of_nat j * PGSIZE"
  have w: "unat w = 4096 * j" unfolding w_def using m by (simp add: PGSIZE_def unat_word_ariths unat_of_nat)
  have v: "stack_va m = KSTACK i + w" by (simp only: stack_va_def m w_def)
  have "unat (stack_va m) = (274877902848 - 36864 * (i + 1) + 4096 * j) mod 2 ^ 64"
    using w unat_KSTACK [OF m(1)] by (simp only: v unat_word_ariths) simp
  moreover have "274877902848 - 36864 * (i + 1) + 4096 * j < 2 ^ 64" using m(1,2) by simp
  ultimately have "unat (stack_va m) = 274877902848 - 36864 * (i + 1) + 4096 * j" by (simp only: mod_less)
  then show ?thesis using m(1-3) by simp
qed

lemma in_stack_iff:
  assumes "m < 512"
  shows "in_stack x m \<longleftrightarrow> unat x div 4096 = stack_no m"
proof -
  have "unat (stack_va m + PGSIZE) = 4096 * stack_no m + 4096"
    using stack_no_range [OF assms] unat_stack_va [OF assms] by (simp add: unat_word_ariths PGSIZE_def)
  then have "in_stack x m \<longleftrightarrow> 4096 * stack_no m \<le> unat x \<and> unat x < 4096 * stack_no m + 4096"
    unfolding in_stack_def word_le_nat_alt word_less_nat_alt unat_stack_va [OF assms] by (simp only:)
  also have "\<dots> \<longleftrightarrow> unat x div 4096 = stack_no m" by auto
  finally show ?thesis .
qed

lemma in_stack_unique: "m < 512 \<Longrightarrow> m' < 512 \<Longrightarrow> in_stack x m \<Longrightarrow> in_stack x m' \<Longrightarrow> m = m'"
  using stack_no_inj [of m m'] by (simp add: in_stack_iff)

fun with_stacks :: "u64 list \<Rightarrow> nat \<Rightarrow> (u64 \<Rightarrow> u64) \<Rightarrow> u64 \<Rightarrow> u64" where
  "with_stacks st 0 M = M"
| "with_stacks st (Suc m) M = with_range (stack_va m) PGSIZE (st ! m) (PTE_R OR PTE_W) (with_stacks st m M)"

lemma with_stacks_append: "m \<le> length st \<Longrightarrow> with_stacks (st @ ps) m M = with_stacks st m M"
  by (induction m) (simp_all add: nth_append)

lemma page_of:
  assumes "unat va mod 4096 = 0" "va < MAXVA" "va \<le> x" "x < va + PGSIZE"
  shows "PGROUNDDOWN x = va"
proof -
  obtain c where c: "unat va = 4096 * c" using assms(1) by (metis dvdE mod_0_imp_dvd)
  have "unat x < unat va + 4096" using assms(4) va_step [OF assms(2)] by (simp add: word_less_nat_alt)
  then have "unat x div 4096 = c" using assms(3) c by (simp add: word_le_nat_alt)
  then show ?thesis using c by (simp add: word_unat_eq_iff unat_PGROUNDDOWN)
qed

lemma stack_va_page: "m < 512 \<Longrightarrow> unat (stack_va m) mod 4096 = 0 \<and> stack_va m < MAXVA"
  using stack_no_range [of m] unat_stack_va [of m] by (simp add: word_less_nat_alt unat_MAXVA)

definition stack_of :: "u64 \<Rightarrow> nat option" where
  "stack_of x = find (in_stack x) [0..<512]"

lemma stack_of_iff: "stack_of x = Some m \<longleftrightarrow> m < 512 \<and> in_stack x m"
proof -
  have "stack_of x = Some m \<Longrightarrow> m < 512 \<and> in_stack x m" for m by (auto simp: stack_of_def find_Some_iff)
  moreover have "in_stack x m \<Longrightarrow> m < 512 \<Longrightarrow> stack_of x \<noteq> None" for m by (auto simp: stack_of_def find_None_iff)
  ultimately show ?thesis using in_stack_unique by fastforce
qed

lemma with_stacks_eq:
  "n \<le> 512 \<Longrightarrow> with_stacks st n M x =
     (case stack_of x of None \<Rightarrow> M x | Some m \<Rightarrow> if m < n then PA2PTE (st ! m) OR (PTE_R OR PTE_W) OR PTE_V else M x)"
proof (induction n)
  case (Suc n)
  show ?case
  proof (cases "in_stack x n")
    case True
    then have "PGROUNDDOWN x = stack_va n" using page_of [of "stack_va n" x] stack_va_page [of n] Suc.prems by (simp add: in_stack_def)
    moreover have "stack_of x = Some n" using True Suc.prems by (simp add: stack_of_iff)
    ultimately show ?thesis using True by (simp add: with_range_def in_stack_def)
  next
    case False
    then have "with_stacks st (Suc n) M x = with_stacks st n M x" by (auto simp: with_range_def in_stack_def)
    moreover have "stack_of x \<noteq> Some n" using False by (simp add: stack_of_iff)
    ultimately show ?thesis using Suc by (auto simp: less_Suc_eq split: option.splits)
  qed
qed (simp split: option.splits)

text \<open>The map below the kernel stacks.\<close>

definition fixed_map :: "u64 \<Rightarrow> u64 \<Rightarrow> u64 \<Rightarrow> u64" where
  "fixed_map etext trampoline =
     with_range TRAMPOLINE PGSIZE trampoline (PTE_R OR PTE_X)
      (with_range etext (PHYSTOP - etext) etext (PTE_R OR PTE_W)
       (with_range KERNBASE (etext - KERNBASE) KERNBASE (PTE_R OR PTE_X)
        (with_range PLIC 0x4000000 PLIC (PTE_R OR PTE_W)
         (with_range VIRTIO0 PGSIZE VIRTIO0 (PTE_R OR PTE_W)
          (with_range UART0 PGSIZE UART0 (PTE_R OR PTE_W) (\<lambda>_. 0))))))"

lemma unat_layout:
  "unat UART0 = 0x10000000" "unat VIRTIO0 = 0x10001000" "unat PLIC = 0x0c000000" "unat KERNBASE = 0x80000000"
  "unat TRAMPOLINE = 274877902848" "unat PGSIZE = 4096" "unat PHYSTOP = 0x88000000"
  by (simp_all add: UART0_def VIRTIO0_def PLIC_def KERNBASE_def PHYSTOP_def TRAMPOLINE_def MAXVA_def PGSIZE_def)

lemma unat_ends:
  "unat (UART0 + PGSIZE) = 0x10001000" "unat (VIRTIO0 + PGSIZE) = 0x10002000" "unat (PLIC + 0x4000000) = 0x10000000"
  "unat (TRAMPOLINE + PGSIZE) = 274877906944"
  by (simp_all add: UART0_def VIRTIO0_def PLIC_def TRAMPOLINE_def MAXVA_def PGSIZE_def)

lemmas layout_simps = with_range_def word_le_nat_alt word_less_nat_alt unat_layout unat_ends

lemma fixed_map_stacks:
  assumes "m < 512" "in_stack x m" "unat etext \<le> 0x88000000"
  shows "fixed_map etext trampoline x = 0" "unat x div 2097152 \<in> regions"
proof -
  have x: "67108287 \<le> unat x div 4096" "unat x div 4096 \<le> 67108861" using assms(1,2) stack_no_range [of m] by (simp_all add: in_stack_iff)
  then have "274875543552 \<le> unat x" "unat x < 274877902848" by simp_all
  then show "fixed_map etext trampoline x = 0" using assms(3) by (simp add: fixed_map_def layout_simps)
  have "unat x div 2097152 = unat x div 4096 div 512" by (simp add: div_mult2_eq)
  then show "unat x div 2097152 \<in> regions" using x unfolding regions_def by auto
qed

lemma iter_option_append: "iter_option f (xs @ ys) s = Option.bind (iter_option f xs s) (iter_option f ys)"
  by (induction xs arbitrary: s) (auto split: bind_splits)

lemma iter_option_upt:
  assumes "\<And>j s. j < n \<Longrightarrow> I j s \<Longrightarrow> \<exists>s'. f j s = Some s' \<and> I (Suc j) s'" "I 0 s"
  shows "\<exists>s'. iter_option f [0..<n] s = Some s' \<and> I n s'"
  using assms
proof (induction n)
  case (Suc n)
  then obtain s' where "iter_option f [0..<n] s = Some s'" "I n s'" by (metis less_Suc_eq)
  then show ?case using Suc.prems(1) [of n s'] by (auto simp: iter_option_append)
qed simp

text \<open>After \<open>m\<close> stack pages, \<open>N\<close> pages being free at the start.\<close>

definition stacked :: "nat \<Rightarrow> (u64 \<Rightarrow> u64) \<Rightarrow> u64 \<Rightarrow> nat \<Rightarrow> kernel \<Rightarrow> bool" where
  "stacked N M R m k \<longleftrightarrow> (\<exists>st ps. length st = m \<and> building layout_paths (N - m) st (with_stacks st m M) R k ps)"

lemma map_stack_step:
  assumes b: "stacked N (fixed_map etext tr) R (8 * i + j) k" and N: "616 \<le> N" and e: "unat etext \<le> 0x88000000" and ij: "i < 64" "j < 8"
  shows "\<exists>k'. map_stack R i j k = Some k' \<and> stacked N (fixed_map etext tr) R (8 * i + Suc j) k'"
proof -
  let ?m = "8 * i + j" let ?M = "fixed_map etext tr"
  have m: "?m < 512" "?m div 8 = i" "?m mod 8 = j" using ij by simp_all
  obtain st ps where st: "length st = ?m" "building layout_paths (N - ?m) st (with_stacks st ?m ?M) R k ps"
    using b by (auto simp: stacked_def)
  have "card (tables k R) \<le> 103" using st(2) layout_small card_mono [of layout_paths "tables k R"] by (simp add: building_def)
  then have "ps \<noteq> []" using st(2) N m(1) by (auto simp: building_def)
  then obtain p qs where ps: "ps = p # qs" by (cases ps) auto
  obtain k1 where k1: "kalloc k = (p, k1)" "p \<noteq> 0" "building layout_paths (N - ?m - 1) (st @ [p]) (with_stacks st ?m ?M) R k1 qs"
    using kalloc_builds st(2) ps by blast
  have va: "KSTACK i + of_nat j * PGSIZE = stack_va ?m" by (simp only: stack_va_def m)
  have r: "unat (stack_va ?m) + unat PGSIZE \<le> 274877906944" "unat (stack_va ?m) mod 4096 = 0" "stack_va ?m < MAXVA"
    using unat_stack_va [OF m(1)] stack_no_range [OF m(1)] stack_va_page [OF m(1)] by (simp_all add: unat_layout)
  have "\<exists>k' ps'. kvmmap R (stack_va ?m) p PGSIZE (PTE_R OR PTE_W) k1 = Some k' \<and>
      building layout_paths (N - ?m - 1) (st @ [p])
        (with_range (stack_va ?m) PGSIZE p (PTE_R OR PTE_W) (with_stacks st ?m ?M)) R k' ps'"
  proof (rule kvmmap_layout [OF k1(3)])
    fix x :: u64
    assume "unat (stack_va ?m) \<le> unat x" "unat x < unat (stack_va ?m) + unat PGSIZE"
    then have x: "in_stack x ?m" using va_step [OF r(3)] by (simp add: in_stack_def word_le_nat_alt word_less_nat_alt unat_layout)
    then have "stack_of x = Some ?m" using m(1) by (simp add: stack_of_iff)
    then show "with_stacks st ?m ?M x = 0 \<and> unat x div 2097152 \<in> regions"
      using fixed_map_stacks [OF m(1) x e] m(1) by (simp add: with_stacks_eq)
  qed (use r N m(1) in \<open>simp_all add: unat_layout\<close>)
  then obtain k' ps' where k': "kvmmap R (stack_va ?m) p PGSIZE (PTE_R OR PTE_W) k1 = Some k'"
      "building layout_paths (N - ?m - 1) (st @ [p])
        (with_range (stack_va ?m) PGSIZE p (PTE_R OR PTE_W) (with_stacks st ?m ?M)) R k' ps'" by blast
  have "with_stacks (st @ [p]) (Suc ?m) ?M = with_range (stack_va ?m) PGSIZE p (PTE_R OR PTE_W) (with_stacks st ?m ?M)"
    using st(1) by (simp add: with_stacks_append nth_append)
  then have "stacked N ?M R (8 * i + Suc j) k'"
    unfolding stacked_def using k'(2) st(1) by (intro exI [of _ "st @ [p]"] exI [of _ ps']) simp
  then show ?thesis using k1(1,2) k'(1) by (simp add: map_stack_def va Let_def)
qed

lemma proc_mapstacks_builds:
  assumes "stacked N (fixed_map etext tr) R 0 k" "616 \<le> N" "unat etext \<le> 0x88000000"
  shows "\<exists>k'. proc_mapstacks R k = Some k' \<and> stacked N (fixed_map etext tr) R 512 k'"
proof -
  let ?I = "\<lambda>i k. stacked N (fixed_map etext tr) R (8 * i) k"
  have "\<exists>k'. iter_option (\<lambda>i. iter_option (map_stack R i) [0..<8]) [0..<64] k = Some k' \<and> ?I 64 k'"
  proof (rule iter_option_upt [where I = ?I])
    fix i k
    assume i: "i < 64" "?I i k"
    have "\<exists>k'. iter_option (map_stack R i) [0..<8] k = Some k' \<and> stacked N (fixed_map etext tr) R (8 * i + 8) k'"
      by (rule iter_option_upt) (use i map_stack_step [OF _ assms(2,3) i(1)] in simp_all)
    then show "\<exists>k'. iter_option (map_stack R i) [0..<8] k = Some k' \<and> ?I (Suc i) k'" by (simp add: add.commute)
  qed (use assms in simp)
  then show ?thesis by (simp add: proc_mapstacks_def KSTACK_PAGES_def NPROC_def)
qed

section \<open>The kernel's address space\<close>

lemma regionsI:
  assumes "201326592 \<le> X \<and> X < 270532608 \<or> 2147483648 \<le> X \<and> X < 2281701376 \<or> 274875809792 \<le> X \<and> X < 274877906944"
  shows "X div 2097152 \<in> regions"
proof -
  have "96 \<le> X div 2097152 \<and> X div 2097152 \<le> 128 \<or> 1024 \<le> X div 2097152 \<and> X div 2097152 \<le> 1087 \<or> X div 2097152 = 131071"
    using assms by linarith
  then show ?thesis by (auto simp: regions_def)
qed

lemma kvmmake_builds:
  assumes inv: "kmem_inv k ps" and N: "616 \<le> length ps"
    and e: "unat (k_etext k) mod 4096 = 0" "0x80000000 < unat (k_etext k)" "unat (k_etext k) < 0x88000000"
  shows "\<exists>R k'. kvmmake k = Some (R, k') \<and> stacked (length ps) (fixed_map (k_etext k) (k_trampoline k)) R 512 k'"
proof -
  let ?E = "k_etext k" let ?T = "k_trampoline k" let ?N = "length ps" let ?rw = "PTE_R OR PTE_W" let ?rx = "PTE_R OR PTE_X"
  obtain R qs where ps: "ps = R # qs" using N by (cases ps) auto
  have len: "Suc (length qs) = ?N" using ps by simp
  obtain k0 where k0: "kalloc k = (R, k0)" "building layout_paths ?N [] (\<lambda>_. 0) R (zero_page R k0) qs"
    "k_etext (zero_page R k0) = ?E" "k_trampoline (zero_page R k0) = ?T"
    using new_root [of k R qs layout_paths] inv unfolding ps len [symmetric] by (auto simp: layout_paths_def)
  have N': "103 < ?N" using N by simp
  have s1: "unat (PHYSTOP - ?E) = 0x88000000 - unat ?E" "unat (?E - KERNBASE) = unat ?E - 0x80000000"
    using e by (simp_all add: unat_sub word_le_nat_alt unat_layout)
  obtain c where c: "unat ?E = 4096 * c" using e(1) by (metis dvdE mod_0_imp_dvd)
  have al: "(0x88000000 - unat ?E) mod 4096 = 0" "(unat ?E - 0x80000000) mod 4096 = 0"
    unfolding c mod_eq_0_iff_dvd by (rule dvd_diff_nat; simp)+
  have E: "PHYSTOP = ?E + (PHYSTOP - ?E)" "?E = KERNBASE + (?E - KERNBASE)" by simp_all
  define M1 where "M1 = with_range UART0 PGSIZE UART0 ?rw (\<lambda>_. 0)"
  define M2 where "M2 = with_range VIRTIO0 PGSIZE VIRTIO0 ?rw M1"
  define M3 where "M3 = with_range PLIC 0x4000000 PLIC ?rw M2"
  define M4 where "M4 = with_range KERNBASE (?E - KERNBASE) KERNBASE ?rx M3"
  define M5 where "M5 = with_range ?E (PHYSTOP - ?E) ?E ?rw M4"
  have fx: "fixed_map ?E ?T = with_range TRAMPOLINE PGSIZE ?T ?rx M5" by (simp only: fixed_map_def M1_def M2_def M3_def M4_def M5_def)
  note range = layout_simps M1_def M2_def M3_def M4_def M5_def
  note step = kvmmap_layout [where H = "[]" and R = R, OF _ N']
  have "\<exists>k1 p1. kvmmap R UART0 UART0 PGSIZE ?rw (zero_page R k0) = Some k1 \<and> building layout_paths ?N [] M1 R k1 p1"
    unfolding M1_def by (rule step [OF k0(2)]) (use e al s1 in \<open>auto simp: range intro!: regionsI\<close>)
  then obtain k1 p1 where k1: "kvmmap R UART0 UART0 PGSIZE ?rw (zero_page R k0) = Some k1" "building layout_paths ?N [] M1 R k1 p1" by blast
  have "\<exists>k2 p2. kvmmap R VIRTIO0 VIRTIO0 PGSIZE ?rw k1 = Some k2 \<and> building layout_paths ?N [] M2 R k2 p2"
    unfolding M2_def by (rule step [OF k1(2)]) (use e al s1 in \<open>auto simp: range intro!: regionsI\<close>)
  then obtain k2 p2 where k2: "kvmmap R VIRTIO0 VIRTIO0 PGSIZE ?rw k1 = Some k2" "building layout_paths ?N [] M2 R k2 p2" by blast
  have "\<exists>k3 p3. kvmmap R PLIC PLIC 0x4000000 ?rw k2 = Some k3 \<and> building layout_paths ?N [] M3 R k3 p3"
    unfolding M3_def by (rule step [OF k2(2)]) (use e al s1 in \<open>auto simp: range intro!: regionsI\<close>)
  then obtain k3 p3 where k3: "kvmmap R PLIC PLIC 0x4000000 ?rw k2 = Some k3" "building layout_paths ?N [] M3 R k3 p3" by blast
  have "\<exists>k4 p4. kvmmap R KERNBASE KERNBASE (?E - KERNBASE) ?rx k3 = Some k4 \<and> building layout_paths ?N [] M4 R k4 p4"
    unfolding M4_def by (rule step [OF k3(2)]) (use e al s1 in \<open>auto simp: range intro!: regionsI\<close>)
  then obtain k4 p4 where k4: "kvmmap R KERNBASE KERNBASE (?E - KERNBASE) ?rx k3 = Some k4" "building layout_paths ?N [] M4 R k4 p4" by blast
  have "\<exists>k5 p5. kvmmap R ?E ?E (PHYSTOP - ?E) ?rw k4 = Some k5 \<and> building layout_paths ?N [] M5 R k5 p5"
    unfolding M5_def by (rule step [OF k4(2)]) (use e al s1 in \<open>auto simp: range intro!: regionsI\<close>)
  then obtain k5 p5 where k5: "kvmmap R ?E ?E (PHYSTOP - ?E) ?rw k4 = Some k5" "building layout_paths ?N [] M5 R k5 p5" by blast
  have "\<exists>k6 p6. kvmmap R TRAMPOLINE ?T PGSIZE ?rx k5 = Some k6 \<and> building layout_paths ?N [] (fixed_map ?E ?T) R k6 p6"
    unfolding fx by (rule step [OF k5(2)]) (use e al s1 in \<open>auto simp: range intro!: regionsI\<close>)
  then obtain k6 p6 where k6: "kvmmap R TRAMPOLINE ?T PGSIZE ?rx k5 = Some k6" "building layout_paths ?N [] (fixed_map ?E ?T) R k6 p6" by blast
  have "stacked ?N (fixed_map ?E ?T) R 0 k6" unfolding stacked_def using k6(2) by auto
  from proc_mapstacks_builds [OF this N less_imp_le [OF e(3)]]
  obtain k7 where k7: "proc_mapstacks R k6 = Some k7" "stacked ?N (fixed_map ?E ?T) R 512 k7" by blast
  then have "kvmmake k = Some (R, k7)"
    unfolding kvmmake_def using k0(1,3,4) k1(1) k2(1) k3(1) k4(1) k5(1) k6(1) by (simp add: Let_def)
  then show ?thesis using k7(2) by blast
qed

text \<open>The layout: what the entry for the page of \<open>x\<close> should be, given the pages of the stacks.\<close>

definition kernel_pte :: "u64 \<Rightarrow> u64 \<Rightarrow> u64 list \<Rightarrow> u64 \<Rightarrow> u64" where
  "kernel_pte etext trampoline st x =
     (case stack_of x of
        Some m \<Rightarrow> PA2PTE (st ! m) OR (PTE_R OR PTE_W) OR PTE_V
      | None \<Rightarrow>
          if TRAMPOLINE \<le> x then PA2PTE trampoline OR (PTE_R OR PTE_X) OR PTE_V
          else if KERNBASE \<le> x \<and> x < etext then PA2PTE (PGROUNDDOWN x) OR (PTE_R OR PTE_X) OR PTE_V
          else if etext \<le> x \<and> x < PHYSTOP \<or> PLIC \<le> x \<and> x < PLIC + 0x4000000 \<or>
            UART0 \<le> x \<and> x < UART0 + PGSIZE \<or> VIRTIO0 \<le> x \<and> x < VIRTIO0 + PGSIZE
          then PA2PTE (PGROUNDDOWN x) OR (PTE_R OR PTE_W) OR PTE_V
          else 0)"

lemma with_direct: "with_range va sz va perm M x = (if va \<le> x \<and> x < va + sz then PA2PTE (PGROUNDDOWN x) OR perm OR PTE_V else M x)"
  by (simp add: with_range_def)

lemma fixed_map_pte:
  assumes "x < MAXVA" "0x80000000 < unat etext" "unat etext < 0x88000000" "stack_of x = None"
  shows "fixed_map etext trampoline x = kernel_pte etext trampoline st x"
proof -
  have t: "TRAMPOLINE + PGSIZE = MAXVA" by (simp add: TRAMPOLINE_def)
  have pg: "TRAMPOLINE \<le> x \<Longrightarrow> PGROUNDDOWN x = TRAMPOLINE"
    using assms(1) t by (intro page_of) (simp_all add: unat_layout word_less_nat_alt unat_MAXVA)
  have E: "etext + (PHYSTOP - etext) = PHYSTOP" "KERNBASE + (etext - KERNBASE) = etext" by simp_all
  have o: "x < etext \<Longrightarrow> \<not> etext \<le> x" by simp
  have "fixed_map etext trampoline x =
      (if TRAMPOLINE \<le> x then PA2PTE trampoline OR (PTE_R OR PTE_X) OR PTE_V
       else if etext \<le> x \<and> x < PHYSTOP then PA2PTE (PGROUNDDOWN x) OR (PTE_R OR PTE_W) OR PTE_V
       else if KERNBASE \<le> x \<and> x < etext then PA2PTE (PGROUNDDOWN x) OR (PTE_R OR PTE_X) OR PTE_V
       else if PLIC \<le> x \<and> x < PLIC + 0x4000000 then PA2PTE (PGROUNDDOWN x) OR (PTE_R OR PTE_W) OR PTE_V
       else if VIRTIO0 \<le> x \<and> x < VIRTIO0 + PGSIZE then PA2PTE (PGROUNDDOWN x) OR (PTE_R OR PTE_W) OR PTE_V
       else if UART0 \<le> x \<and> x < UART0 + PGSIZE then PA2PTE (PGROUNDDOWN x) OR (PTE_R OR PTE_W) OR PTE_V
       else 0)"
    unfolding fixed_map_def with_direct E using assms(1) t pg by (simp add: with_range_def with_direct E)
  then show ?thesis using assms(4) o unfolding kernel_pte_def by auto
qed

lemma with_stacks_pte:
  assumes "x < MAXVA" "0x80000000 < unat etext" "unat etext < 0x88000000"
  shows "with_stacks st 512 (fixed_map etext trampoline) x = kernel_pte etext trampoline st x"
proof (cases "stack_of x")
  case None
  then show ?thesis using fixed_map_pte [OF assms None] by (simp add: with_stacks_eq)
next
  case (Some m)
  then have "m < 512" by (simp add: stack_of_iff)
  then show ?thesis using Some by (simp add: with_stacks_eq kernel_pte_def)
qed

lemma flag_bits:
  "bit PTE_V n \<longleftrightarrow> n = 0" "bit PTE_R n \<longleftrightarrow> n = 1" "bit PTE_W n \<longleftrightarrow> n = 2" "bit PTE_X n \<longleftrightarrow> n = 3"
  unfolding PTE_V_def PTE_R_def PTE_W_def PTE_X_def by (auto simp only: bit_push_bit_iff bit_1_iff possible_bit_def) simp_all

lemma pte_bits:
  "(PA2PTE p OR (PTE_R OR PTE_W) OR PTE_V) AND PTE_X = 0" "(PA2PTE p OR (PTE_R OR PTE_X) OR PTE_V) AND PTE_W = 0"
  "(0 :: u64) AND PTE_W = 0"
  by (auto intro!: bit_eqI simp: bit_simps PA2PTE_def flag_bits)

lemma kernel_pte_wx: "kernel_pte etext trampoline st x AND PTE_W = 0 \<or> kernel_pte etext trampoline st x AND PTE_X = 0"
  by (simp add: kernel_pte_def pte_bits split: option.splits)

lemma kernel_pte_guard:
  assumes "i < 64" "KSTACK i - PGSIZE \<le> x" "x < KSTACK i" "unat etext < 0x88000000"
  shows "kernel_pte etext trampoline st x = 0"
proof -
  have K: "unat (KSTACK i) = 4096 * (67108854 - 9 * i)" using unat_KSTACK [OF assms(1)] assms(1) by simp
  have "PGSIZE \<le> KSTACK i" using K assms(1) by (simp add: word_le_nat_alt unat_layout)
  then have K': "unat (KSTACK i - PGSIZE) = 4096 * (67108853 - 9 * i)" using K assms(1) by (simp add: unat_sub unat_layout)
  have r: "4096 * (67108853 - 9 * i) \<le> unat x" "unat x < 4096 * (67108854 - 9 * i)"
    using assms(2,3) K K' by (simp_all only: word_le_nat_alt word_less_nat_alt)
  have "stack_of x \<noteq> Some m" for m
  proof
    assume "stack_of x = Some m"
    then have "m < 512" "in_stack x m" by (simp_all add: stack_of_iff)
    then have m: "m < 512" "unat x div 4096 = stack_no m" using in_stack_iff [of m x] by simp_all
    obtain a b where ab: "a < 64" "b < 8" "stack_no m = 67108854 - 9 * a + b" by (rule stack_index [OF m(1)])
    have "unat x div 4096 = 67108853 - 9 * i" using r assms(1) by (intro div_nat_eqI) simp_all
    then have "9 * a = 9 * i + (b + 1)" using m(2) ab assms(1) by linarith
    then have "(9 * i + (b + 1)) mod 9 = 0" by (metis mod_mult_self1_is_0)
    then show False using ab(2) by simp
  qed
  then have "stack_of x = None" by auto
  moreover have "2281701376 \<le> unat x" "unat x < 274877902848" using r assms(1) by simp_all
  ultimately show ?thesis using assms(4) by (simp add: kernel_pte_def layout_simps)
qed

lemma freerange_frame:
  "freerange_loop p e k = Some k' \<Longrightarrow>
     k_etext k' = k_etext k \<and> k_trampoline k' = k_trampoline k \<and> k_end k' = k_end k"
proof (induction p e k rule: freerange_loop.induct)
  case (1 p e k)
  show ?case
  proof (cases "p + PGSIZE \<le> e")
    case True
    then obtain k1 where k1: "kfree p k = Some k1" "freerange_loop (p + PGSIZE) e k1 = Some k'"
      using "1.prems" by (subst (asm) freerange_loop.simps) (auto split: option.splits)
    then show ?thesis using "1.IH" [OF True k1(1)] by (auto simp: kfree_def panic_simps Let_def split: if_splits)
  next
    case False
    then show ?thesis using "1.prems" by (subst (asm) freerange_loop.simps) simp
  qed
qed

lemma enough_pages:
  assumes "unat e + n * 4096 \<le> 0x88000000" "set ps = {p. p mod PGSIZE = 0 \<and> e \<le> p \<and> p < PHYSTOP}"
  shows "n \<le> length ps"
proof -
  let ?f = "\<lambda>i :: nat. of_nat (0x88000000 - 4096 * (i + 1)) :: u64"
  have u: "unat (?f i) = 0x88000000 - 4096 * (i + 1)" for i unfolding unat_of_nat by (rule mod_less) simp
  have inj: "inj_on ?f {..<n}"
  proof (rule inj_onI)
    fix i j
    assume "i \<in> {..<n}" "j \<in> {..<n}" "?f i = ?f j"
    then show "i = j" using u [of i] u [of j] assms(1) by simp
  qed
  have "?f i \<in> set ps" if "i < n" for i
  proof -
    have "unat (?f i) mod 4096 = 0" unfolding u mod_eq_0_iff_dvd by (rule dvd_diff_nat) simp_all
    moreover have "unat e \<le> unat (?f i)" "unat (?f i) < 0x88000000" using that assms(1) unfolding u by simp_all
    ultimately show ?thesis unfolding assms(2) aligned_unat word_le_nat_alt word_less_nat_alt mem_Collect_eq unat_layout by blast
  qed
  then have "?f ` {..<n} \<subseteq> set ps" by auto
  then have "card (?f ` {..<n}) \<le> card (set ps)" by (rule card_mono [rotated]) simp
  then show ?thesis using card_image [OF inj] card_length [of ps] by simp
qed

lemma kinit_pages:
  assumes "KERNBASE \<le> k_end k" "unat (k_end k) + n * 4096 \<le> 0x88000000" "k_freelist k = 0"
  obtains k1 ps where "kinit k = Some k1" "kmem_inv k1 ps" "n \<le> length ps" "k_etext k1 = k_etext k" "k_trampoline k1 = k_trampoline k"
proof -
  have le: "k_end k \<le> PHYSTOP" using assms(2) by (simp add: word_le_nat_alt unat_layout)
  obtain k1 ps where k: "kinit k = Some k1" "free_chain (k_mem k1) (k_freelist k1) ps" "distinct ps"
    "set ps = {p. p mod PGSIZE = 0 \<and> k_end k \<le> p \<and> p < PHYSTOP}"
    using kinit_free_pages [OF assms(1) le assms(3)] by blast
  have f: "k_etext k1 = k_etext k \<and> k_trampoline k1 = k_trampoline k \<and> k_end k1 = k_end k"
    using k(1) freerange_frame by (simp add: kinit_def freerange_def)
  then have "kmem_inv k1 ps" using k assms(1) by (simp add: kmem_inv_def page_ok_def)
  then show ?thesis using that k(1) f enough_pages [OF assms(2) k(4)] by blast
qed

lemma building_root [simp]: "building P n H M R (k\<lparr>k_kpgtbl := r\<rparr>) ps = building P n H M R k ps"
  by (simp add: building_def kmem_inv_def pt_wf_def tables_def leaf_pte_def is_table_def page_ok_def cong: option.case_cong)

lemma kvminit_ok:
  assumes "kmem_inv k ps" "616 \<le> length ps" "unat (k_etext k) mod 4096 = 0" "0x80000000 < unat (k_etext k)" "unat (k_etext k) < 0x88000000"
  shows "\<exists>k' qs. kvminit k = Some k' \<and> kmem_inv k' qs \<and> length ps \<le> length qs + 615"
proof -
  obtain R k' where R: "kvmmake k = Some (R, k')" "stacked (length ps) (fixed_map (k_etext k) (k_trampoline k)) R 512 k'"
    using kvmmake_builds [OF assms] by blast
  then obtain M st qs where b: "building layout_paths (length ps - 512) st M R k' qs" by (auto simp: stacked_def)
  have "card (tables k' R) \<le> 103" using b layout_small card_mono [of layout_paths "tables k' R"] by (simp add: building_def)
  moreover have "building layout_paths (length ps - 512) st M R (k'\<lparr>k_kpgtbl := R\<rparr>) qs" using b by simp
  ultimately show ?thesis using R(1) b by (auto simp: kvminit_def building_def)
qed

text \<open>
  C14: the kernel gets the address space of memlayout.h.  When the image leaves at least 616 pages of memory and \<open>etext\<close> is a page boundary
  inside it, \<open>kinit\<close> and \<open>kvminit\<close> do not panic, and in the page table that results the devices and the memory behind
  \<open>etext\<close> are mapped to themselves readable and writable, the text readable and executable, the trampoline at the top, and each
  of the eight stack pages of each process to a page of its own, which is neither free nor part of the table; no
  other address is mapped.  In particular the page below each stack is not mapped, and no page is both writable and executable.
\<close>

theorem kernel_address_space:
  assumes "KERNBASE \<le> k_end k" "unat (k_end k) + 616 * 4096 \<le> unat PHYSTOP" "k_freelist k = 0"
    "k_etext k mod PGSIZE = 0" "KERNBASE < k_etext k" "k_etext k < PHYSTOP"
  shows "\<exists>k1 k2 ps st. kinit k = Some k1 \<and> kvminit k1 = Some k2 \<and> kmem_inv k2 ps \<and> pt_wf k2 ps (k_kpgtbl k2) \<and>
    length st = NPROC * unat KSTACK_PAGES \<and> distinct st \<and>
    (\<forall>q \<in> set st. page_ok k2 q \<and> q \<notin> set ps \<and> \<not> is_table k2 (k_kpgtbl k2) q) \<and>
    (\<forall>x < MAXVA. leaf_pte k2 (k_kpgtbl k2) x = kernel_pte (k_etext k) (k_trampoline k) st x) \<and>
    (\<forall>i < NPROC. \<forall>x. KSTACK i - PGSIZE \<le> x \<and> x < KSTACK i \<longrightarrow> leaf_pte k2 (k_kpgtbl k2) x = 0) \<and>
    (\<forall>x < MAXVA. leaf_pte k2 (k_kpgtbl k2) x AND PTE_W = 0 \<or> leaf_pte k2 (k_kpgtbl k2) x AND PTE_X = 0)"
proof -
  have e: "unat (k_etext k) mod 4096 = 0" "0x80000000 < unat (k_etext k)" "unat (k_etext k) < 0x88000000"
    using assms(4-6) by (simp_all add: aligned_unat word_less_nat_alt unat_layout)
  obtain k1 ps where k1: "kinit k = Some k1" "kmem_inv k1 ps" "616 \<le> length ps" "k_etext k1 = k_etext k" "k_trampoline k1 = k_trampoline k"
    by (rule kinit_pages [OF assms(1) assms(2) [unfolded unat_layout] assms(3)])
  obtain R k' where R: "kvmmake k1 = Some (R, k')" "stacked (length ps) (fixed_map (k_etext k) (k_trampoline k)) R 512 k'"
    using kvmmake_builds [OF k1(2,3)] e k1(4,5) by auto
  obtain st qs where st: "length st = 512"
    "building layout_paths (length ps - 512) st (with_stacks st 512 (fixed_map (k_etext k) (k_trampoline k))) R (k'\<lparr>k_kpgtbl := R\<rparr>) qs"
    using R(2) by (auto simp: stacked_def)
  let ?k = "k'\<lparr>k_kpgtbl := R\<rparr>"
  have leaf: "leaf_pte ?k R x = kernel_pte (k_etext k) (k_trampoline k) st x" if "x < MAXVA" for x
    using st(2) that with_stacks_pte [OF that e(2,3)] by (simp add: building_def)
  have guard: "leaf_pte ?k R x = 0" if "i < NPROC" "KSTACK i - PGSIZE \<le> x" "x < KSTACK i" for i x
  proof -
    have "x < MAXVA" using that unat_KSTACK [of i] by (simp add: NPROC_def word_less_nat_alt unat_MAXVA)
    then show ?thesis using leaf kernel_pte_guard [of i x] that e(3) by (simp add: NPROC_def)
  qed
  have "kvminit k1 = Some ?k" by (simp add: kvminit_def R(1))
  moreover have "length st = NPROC * unat KSTACK_PAGES" using st(1) by (simp add: NPROC_def KSTACK_PAGES_def)
  moreover have "leaf_pte ?k R x AND PTE_W = 0 \<or> leaf_pte ?k R x AND PTE_X = 0" if "x < MAXVA" for x
    using kernel_pte_wx leaf [OF that] by simp
  ultimately show ?thesis using k1(1) st(2) leaf guard unfolding building_def
    by (intro exI [of _ k1] exI [of _ ?k] exI [of _ qs] exI [of _ st]) simp
qed

theorem kernel_address_space_witness:
  "\<exists>k1 k2 ps. kinit kernel_boot = Some k1 \<and> kvminit k1 = Some k2 \<and> kmem_inv k2 ps \<and>
    leaf_pte k2 (k_kpgtbl k2) UART0 = PA2PTE UART0 OR (PTE_R OR PTE_W) OR PTE_V \<and>
    leaf_pte k2 (k_kpgtbl k2) (KSTACK 0 - PGSIZE) = 0"
proof -
  obtain k1 k2 ps st where k: "kinit kernel_boot = Some k1" "kvminit k1 = Some k2" "kmem_inv k2 ps"
    "\<forall>x < MAXVA. leaf_pte k2 (k_kpgtbl k2) x = kernel_pte (k_etext kernel_boot) (k_trampoline kernel_boot) st x"
    "\<forall>i < NPROC. \<forall>x. KSTACK i - PGSIZE \<le> x \<and> x < KSTACK i \<longrightarrow> leaf_pte k2 (k_kpgtbl k2) x = 0"
    using kernel_address_space [of kernel_boot]
    by (auto simp: kernel_boot_def KERNBASE_def PHYSTOP_def PGSIZE_def NPROC_def KSTACK_PAGES_def)
  have "\<not> in_stack UART0 m" if "m < 512" for m using in_stack_iff [OF that, of UART0] stack_no_range [OF that] by (simp add: unat_layout)
  then have "stack_of UART0 = None" using stack_of_iff [of UART0] by (cases "stack_of UART0") auto
  then have "kernel_pte e t st UART0 = PA2PTE UART0 OR (PTE_R OR PTE_W) OR PTE_V" if "e = KERNBASE + 0x10000" for e t
    by (simp add: kernel_pte_def that UART0_def TRAMPOLINE_def MAXVA_def PGSIZE_def KERNBASE_def PHYSTOP_def PLIC_def VIRTIO0_def PGROUNDDOWN_def)
  moreover have "UART0 < MAXVA" by (simp add: UART0_def MAXVA_def)
  ultimately have "leaf_pte k2 (k_kpgtbl k2) UART0 = PA2PTE UART0 OR (PTE_R OR PTE_W) OR PTE_V" using k(4) by (simp add: kernel_boot_def)
  moreover have "leaf_pte k2 (k_kpgtbl k2) (KSTACK 0 - PGSIZE) = 0"
    using k(5) [rule_format, of 0 "KSTACK 0 - PGSIZE"] by (simp add: NPROC_def KSTACK_def TRAMPOLINE_def MAXVA_def PGSIZE_def KSTACK_PAGES_def)
  ultimately show ?thesis using k(1-3) by blast
qed

end
