(* ===== verification/Pipe_Copy.thy ===== *)
theory Pipe_Copy
  imports Pipe Kvm
begin

unbundle bit_operations_syntax

text \<open>
  Pipes and user memory: which bytes \<open>pipewrite\<close> takes from the buffer of the writer and where
  \<open>piperead\<close> puts the bytes it removes.  A user address is translated by the page table of the
  current process, in memory; the buffers considered here are mapped.
\<close>

section \<open>User buffers\<close>

text \<open>The physical address of a user address and the byte there.\<close>

definition user_pa :: "u64 \<Rightarrow> kernel \<Rightarrow> u64 \<Rightarrow> nat" where
  "user_pa R k va = unat (walkaddr R (PGROUNDDOWN va) k + (va - PGROUNDDOWN va))"

definition user_byte :: "u64 \<Rightarrow> kernel \<Rightarrow> u64 \<Rightarrow> char" where
  "user_byte R k va = k_mem k (user_pa R k va)"

definition buf_in :: "u64 \<Rightarrow> kernel \<Rightarrow> u64 \<Rightarrow> nat \<Rightarrow> bool" where
  "buf_in R k addr n \<longleftrightarrow> (\<forall>j < n. walkaddr R (PGROUNDDOWN (addr + of_nat j)) k \<noteq> 0)"

text \<open>
  A buffer that can be written: its pages are mapped writable, are pages of RAM that are neither free nor
  page tables of this table, and different bytes of it are different bytes of memory.
\<close>

definition data_page :: "u64 \<Rightarrow> u64 list \<Rightarrow> kernel \<Rightarrow> u64 \<Rightarrow> bool" where
  "data_page R ps k va \<longleftrightarrow> walkaddr R va k \<noteq> 0 \<and> leaf_pte k R va AND PTE_W \<noteq> 0 \<and>
     page_ok k (walkaddr R va k) \<and> walkaddr R va k \<notin> set ps \<and> \<not> is_table k R (walkaddr R va k)"

definition buf_out :: "u64 \<Rightarrow> u64 list \<Rightarrow> kernel \<Rightarrow> u64 \<Rightarrow> nat \<Rightarrow> bool" where
  "buf_out R ps k addr n \<longleftrightarrow> kmem_inv k ps \<and> pt_wf k ps R \<and>
     (\<forall>j < n. data_page R ps k (PGROUNDDOWN (addr + of_nat j))) \<and>
     inj_on (\<lambda>j. user_pa R k (addr + of_nat j)) {..<n}"

section \<open>Translation depends on memory alone\<close>

lemma walkaddr_mem: "k_mem k' = k_mem k \<Longrightarrow> walkaddr R va k' = walkaddr R va k"
  by (simp add: walkaddr_def walk_loop_find Let_def split: option.splits)

lemma upd_pipe_frame [simp]:
  "k_mem (upd_pipe pi pp k) = k_mem k" "k_cur (upd_pipe pi pp k) = k_cur k" "k_procs (upd_pipe pi pp k) = k_procs k"
  "walkaddr R va (upd_pipe pi pp k) = walkaddr R va k" "user_pa R (upd_pipe pi pp k) va = user_pa R k va"
  "killed p (upd_pipe pi pp k) = killed p k"
proof -
  show m: "k_mem (upd_pipe pi pp k) = k_mem k" "k_cur (upd_pipe pi pp k) = k_cur k" "k_procs (upd_pipe pi pp k) = k_procs k"
    by (simp_all add: upd_pipe_def)
  show w: "walkaddr R va (upd_pipe pi pp k) = walkaddr R va k" for va by (rule walkaddr_mem [OF m(1)])
  show "user_pa R (upd_pipe pi pp k) va = user_pa R k va" by (simp add: user_pa_def w)
  show "killed p (upd_pipe pi pp k) = killed p k" by (simp add: killed_def m)
qed

lemma user_byte_pipe [simp]: "user_byte R (upd_pipe pi pp k) va = user_byte R k va"
  by (simp add: user_byte_def)

lemma table_pipe [simp]:
  "page_ok (upd_pipe pi pp k) = page_ok k" "kmem_inv (upd_pipe pi pp k) ps = kmem_inv k ps"
  "pt_wf (upd_pipe pi pp k) ps R = pt_wf k ps R" "leaf_pte (upd_pipe pi pp k) R va = leaf_pte k R va"
  "is_table (upd_pipe pi pp k) R t = is_table k R t"
proof -
  show o: "page_ok (upd_pipe pi pp k) = page_ok k" by (auto simp: page_ok_def upd_pipe_def)
  show "kmem_inv (upd_pipe pi pp k) ps = kmem_inv k ps" unfolding kmem_inv_def o by (simp add: upd_pipe_def)
  show "pt_wf (upd_pipe pi pp k) ps R = pt_wf k ps R" unfolding pt_wf_def o by simp
  show "leaf_pte (upd_pipe pi pp k) R va = leaf_pte k R va" unfolding leaf_pte_def upd_pipe_frame(1) ..
  show "is_table (upd_pipe pi pp k) R t = is_table k R t" by (simp add: is_table_def)
qed

lemma buf_out_pipe [simp]: "buf_out R ps (upd_pipe pi pp k) addr n = buf_out R ps k addr n"
  by (simp add: buf_out_def data_page_def)

section \<open>One byte\<close>

lemma chunk_one [simp]: "chunk va 1 = 1"
proof -
  have "unat va mod 4096 < 4096" by simp
  then have "unat (chunk va 1) = 1" unfolding unat_chunk unat_1 by linarith
  then show ?thesis by (metis unat_1 word_unat_eq_iff)
qed

lemma copyin_one:
  assumes "walkaddr R (PGROUNDDOWN va) k \<noteq> 0"
  shows "copyin R va 1 k = Some (0, [user_byte R k va], k)"
proof -
  have "copyin R (PGROUNDDOWN va + PGSIZE) 0 k = Some (0, [], k)" by (subst copyin.simps) simp
  then show ?thesis using assms
    by (subst copyin.simps) (simp add: user_page_def Let_def user_byte_def user_pa_def read_bytes_def)
qed

lemma copyout_one:
  assumes "kmem_inv k ps" "pt_wf k ps R" "data_page R ps k (PGROUNDDOWN va)"
  shows "copyout R va [ch] 1 k = Some (0, k\<lparr>k_mem := (k_mem k)(user_pa R k va := ch)\<rparr>)"
proof -
  let ?v = "PGROUNDDOWN va" and ?k = "k\<lparr>k_mem := (k_mem k)(user_pa R k va := ch)\<rparr>"
  have w: "?v < MAXVA" "walkaddr R ?v k \<noteq> 0" "leaf_pte k R ?v AND PTE_W \<noteq> 0"
    using assms(3) walkaddr_correct [OF assms(1,2), of ?v] by (auto simp: data_page_def split: if_splits)
  then have "leaf (k_mem k) R ?v \<noteq> None" using leaf_pte_walk(2) [OF assms(2), of ?v] by fastforce
  then obtain a where a: "leaf (k_mem k) R ?v = Some a" by blast
  then have walk: "walk R ?v False k = Some (a, k)" "load64 (k_mem k) a = leaf_pte k R ?v"
    using w(1) leaf_pte_walk(1) [OF assms(2) a] by (simp_all add: walk_def walk_loop_find not_le [symmetric])
  have end_copy: "copyout R (?v + PGSIZE) bs 0 k' = Some (0, k')" for bs k' by (subst copyout.simps) simp
  have wr: "write_bytes m x [ch] = m(x := ch)" for m x by (auto simp: write_bytes_def)
  have mb: "mem_bytes [ch] 1 = [ch]" by (simp add: mem_bytes_def deref_def)
  show ?thesis
    using w walk by (subst copyout.simps) (simp add: user_page_def Let_def end_copy wr mb user_pa_def not_le [symmetric])
qed

text \<open>The byte lies in the page of its address, so writing it keeps the translation.\<close>

lemma user_pa_page:
  assumes "page_ok k (walkaddr R (PGROUNDDOWN va) k)"
  shows "unat (walkaddr R (PGROUNDDOWN va) k) \<le> user_pa R k va" "user_pa R k va < unat (walkaddr R (PGROUNDDOWN va) k) + 4096"
proof -
  let ?q = "walkaddr R (PGROUNDDOWN va) k"
  have "unat ?q < 0x88000000" using assms by (simp add: page_ok_def word_less_nat_alt PHYSTOP_def KERNBASE_def)
  moreover have "unat (va - PGROUNDDOWN va) < 4096" by (simp add: unat_page_offset)
  ultimately have "unat (?q + (va - PGROUNDDOWN va)) = unat ?q + unat (va - PGROUNDDOWN va)"
    by (intro unat_add_lem [THEN iffD1]) simp
  then show "unat ?q \<le> user_pa R k va" "user_pa R k va < unat ?q + 4096"
    using \<open>unat (va - PGROUNDDOWN va) < 4096\<close> by (simp_all add: user_pa_def)
qed

lemma buf_out_write:
  assumes "buf_out R ps k addr n" "i < n" "k' = k\<lparr>k_mem := (k_mem k)(user_pa R k (addr + of_nat i) := ch)\<rparr>"
  shows "walkaddr R va k' = walkaddr R va k" "user_pa R k' va = user_pa R k va" "buf_out R ps k' addr n"
proof -
  let ?m = "(k_mem k)(user_pa R k (addr + of_nat i) := ch)" and ?q = "walkaddr R (PGROUNDDOWN (addr + of_nat i)) k"
  have inv: "kmem_inv k ps" "pt_wf k ps R" and d: "\<And>j. j < n \<Longrightarrow> data_page R ps k (PGROUNDDOWN (addr + of_nat j))"
    and inj: "inj_on (\<lambda>j. user_pa R k (addr + of_nat j)) {..<n}"
    using assms(1) by (auto simp: buf_out_def)
  have q: "page_ok k ?q" "?q \<notin> set ps" "\<not> is_table k R ?q" using d [OF assms(2)] by (auto simp: data_page_def)
  have out: "?m x = k_mem k x" if "x < unat ?q \<or> unat ?q + 4096 \<le> x" for x
    using that user_pa_page [OF q(1)] by auto
  have o: "kmem_inv k' ps" "pt_wf k' ps R" by (rule outside_page(1,4) [OF inv q assms(3)], rule out, assumption)+
  have lf: "leaf_pte k' R va = leaf_pte k R va" for va by (rule outside_page(3) [OF inv q assms(3)]) (rule out)
  have t: "tab ?m R ys = tab (k_mem k) R ys" if "path ys" for ys
    by (rule outside_page(2) [OF inv q assms(3) _ that]) (rule out)
  show w: "walkaddr R va k' = walkaddr R va k" for va
    using walkaddr_correct [OF inv, of va] walkaddr_correct [OF o, of va] lf [of va] by simp
  show p: "user_pa R k' va = user_pa R k va" for va by (simp add: user_pa_def w)
  have "is_table k' R t = is_table k R t" for t
    unfolding is_table_def assms(3) by (simp add: t cong: conj_cong)
  moreover have "page_ok k' = page_ok k" by (simp add: assms(3))
  ultimately show "buf_out R ps k' addr n" using o d inj by (simp add: buf_out_def data_page_def w p lf)
qed

section \<open>The loops\<close>

text \<open>What a writer stores: \<open>m\<close> bytes, from the \<open>i\<close>-th byte of its buffer on.\<close>

definition buf_bytes :: "u64 \<Rightarrow> kernel \<Rightarrow> u64 \<Rightarrow> nat \<Rightarrow> nat \<Rightarrow> string" where
  "buf_bytes R k addr i m = map (\<lambda>j. user_byte R k (addr + of_nat j)) [i..<i + m]"

definition write_room :: "pipe \<Rightarrow> nat \<Rightarrow> nat" where
  "write_room pp rem = min rem (512 - length (pipe_bytes pp))"

lemma pipewrite_loop_bytes:
  assumes "k_pipes k pi = Some pp" "pipe_inv pp" "k_cur k = Some p" "p < length (k_procs k)"
    "pp_readopen pp" "\<not> killed p k" "buf_in (p_pagetable (k_procs k ! p)) k addr (i + rem)"
  shows "\<exists>k' pp'. pipewrite_loop pi addr i rem k =
      Some (if write_room pp rem = rem then Done (int (i + rem)) else Sleep (i + write_room pp rem, rem - write_room pp rem), k') \<and>
    pipe_to pi k k' pp' \<and> k_mem k' = k_mem k \<and>
    pipe_bytes pp' = pipe_bytes pp @ buf_bytes (p_pagetable (k_procs k ! p)) k addr i (write_room pp rem)"
  using assms
proof (induction rem arbitrary: i k pp)
  case 0
  then show ?case
    by (intro exI [of _ "wakeup (Ch_pipe_read pi) k"] exI [of _ pp])
      (auto simp: pipe_to_def buf_bytes_def write_room_def wakeup_def)
next
  case (Suc rem)
  let ?R = "p_pagetable (k_procs k ! p)"
  note cap = pipeq.within_cap [OF Suc.prems(2)] and full = pipe_full [OF Suc.prems(2)]
  show ?case
  proof (cases "length (pipe_bytes pp) = 512")
    case True
    let ?k = "wakeup (Ch_pipe_read pi) k"
    have "k_cur ?k = Some p" "p < length (k_procs ?k)" using Suc.prems by simp_all
    then obtain k' where k': "sleep (Ch_pipe_write pi) ?k = Some k'" by (simp add: sleep_def sched_def upd_proc_def)
    have "k_mem k' = k_mem k" using k' by (auto simp: sleep_def sched_def upd_proc_def panic_simps wakeup_def split: option.splits if_splits)
    then show ?thesis using Suc.prems True full k' sleep_pipes [OF k']
      by (intro exI [of _ k'] exI [of _ pp]) (simp add: write_room_def pipe_to_def buf_bytes_def map_upd_triv del: length_pipe_bytes)
  next
    case False
    then have lt: "length (pipe_bytes pp) < 512" using cap by simp
    let ?b = "user_byte ?R k (addr + of_nat i)"
    let ?pp = "pipe_put ?b pp" and ?k = "upd_pipe pi (pipe_put ?b pp) k"
    note put = pipe_put_room [OF Suc.prems(2) lt, of ?b]
    have "walkaddr ?R (PGROUNDDOWN (addr + of_nat i)) k \<noteq> 0" using Suc.prems(7) by (simp add: buf_in_def)
    note c = copyin_one [OF this]
    have nf: "pp_nwrite pp \<noteq> pp_nread pp + of_nat PIPESIZE" using full False by blast
    have l: "pipewrite_loop pi addr i (Suc rem) k = pipewrite_loop pi addr (Suc i) rem ?k"
      using Suc.prems nf c by (simp add: deref_def)
    have o: "pp_readopen ?pp" using Suc.prems(5) by (simp add: pipe_put_def)
    have "buf_in ?R ?k addr (Suc i + rem)" using Suc.prems(7) by (simp add: buf_in_def)
    with Suc.IH [of ?k ?pp "Suc i"] o put(2) Suc.prems obtain k' pp' where r:
      "pipewrite_loop pi addr (Suc i) rem ?k =
        Some (if write_room ?pp rem = rem then Done (int (Suc i + rem)) else Sleep (Suc i + write_room ?pp rem, rem - write_room ?pp rem), k')"
      "pipe_to pi ?k k' pp'" "k_mem k' = k_mem k"
      "pipe_bytes pp' = pipe_bytes ?pp @ buf_bytes ?R ?k addr (Suc i) (write_room ?pp rem)"
      by auto
    have w: "write_room pp (Suc rem) = Suc (write_room ?pp rem)"
    proof -
      have "length (pipe_bytes ?pp) = Suc (length (pipe_bytes pp))" using put(1) by (simp del: length_pipe_bytes)
      then show ?thesis using lt unfolding write_room_def by linarith
    qed
    have "buf_bytes ?R k addr i (Suc m) = ?b # buf_bytes ?R ?k addr (Suc i) m" for m
    proof -
      have "[i..<i + Suc m] = i # [Suc i..<Suc i + m]" by (simp add: upt_conv_Cons del: upt_Suc)
      then show ?thesis unfolding buf_bytes_def by simp
    qed
    then show ?thesis unfolding l r(1) w using r(2-4) put(1)
      by (intro exI [of _ k'] exI [of _ pp']) (auto simp: pipe_to_def)
  qed
qed

lemma piperead_loop_bytes:
  assumes "k_pipes k pi = Some pp" "pipe_inv pp" "k_cur k = Some p" "R = p_pagetable (k_procs k ! p)"
    "buf_out R ps k addr (i + rem)" "d = min rem (length (pipe_bytes pp))"
  shows "\<exists>k' pp'. piperead_loop pi addr i rem k = Some (int (i + d), k') \<and> pipe_to pi k k' pp' \<and>
    pipe_bytes pp' = drop d (pipe_bytes pp) \<and>
    (\<forall>j < d. k_mem k' (user_pa R k (addr + of_nat (i + j))) = pipe_bytes pp ! j) \<and>
    (\<forall>x. x \<notin> (\<lambda>j. user_pa R k (addr + of_nat j)) ` {i..<i + d} \<longrightarrow> k_mem k' x = k_mem k x)"
  using assms
proof (induction rem arbitrary: i k pp d)
  case 0
  then show ?case by (intro exI [of _ k] exI [of _ pp]) (auto simp: pipe_to_def)
next
  case (Suc rem)
  show ?case
  proof (cases "pipe_bytes pp")
    case Nil
    then have "d = 0" "pipe_get pp = None" using Suc.prems(6) pipeq.get_empty [OF Suc.prems(2)] by simp_all
    then show ?thesis using Suc.prems Nil by (intro exI [of _ k] exI [of _ pp]) (auto simp: pipe_to_def)
  next
    case (Cons b bs)
    obtain pp1 where g: "pipe_get pp = Some (b, pp1)" "pipe_bytes pp1 = bs" "pipe_inv pp1"
      using pipe_get_next [OF Suc.prems(2) Cons] by blast
    let ?pa = "\<lambda>j. user_pa R k (addr + of_nat j)"
    let ?k1 = "k\<lparr>k_mem := (k_mem k)(?pa i := b)\<rparr>" and ?e = "min rem (length bs)"
    let ?k2 = "upd_pipe pi pp1 ?k1"
    have i: "i < i + Suc rem" by simp
    note w = buf_out_write [OF Suc.prems(5) i refl, where ch = b]
    have dp: "kmem_inv k ps" "pt_wf k ps R" "data_page R ps k (PGROUNDDOWN (addr + of_nat i))"
      and inj: "inj_on ?pa {..<i + Suc rem}" using Suc.prems(5) by (auto simp: buf_out_def)
    have l: "piperead_loop pi addr i (Suc rem) k = piperead_loop pi addr (Suc i) rem ?k2"
      using Suc.prems(1,3,4) g(1) copyout_one [OF dp, of b] by simp
    have d: "d = Suc ?e" using Suc.prems(6) Cons by simp
    have e: "?e = min rem (length (pipe_bytes pp1))" using g(2) by simp
    have "k_pipes ?k2 pi = Some pp1" "k_cur ?k2 = Some p" "R = p_pagetable (k_procs ?k2 ! p)" "buf_out R ps ?k2 addr (Suc i + rem)"
      using Suc.prems w(3) by simp_all
    from Suc.IH [OF this(1) g(3) this(2-4) e] obtain k' pp' where r:
      "piperead_loop pi addr (Suc i) rem ?k2 = Some (int (Suc i + ?e), k')" "pipe_to pi ?k2 k' pp'"
      "pipe_bytes pp' = drop ?e bs" "\<forall>j < ?e. k_mem k' (?pa (Suc i + j)) = bs ! j"
      "\<forall>x. x \<notin> ?pa ` {Suc i..<Suc i + ?e} \<longrightarrow> k_mem k' x = ((k_mem k)(?pa i := b)) x"
      using g(2) w(2) by auto
    have "?pa i \<notin> ?pa ` {Suc i..<Suc i + ?e}"
    proof
      assume "?pa i \<in> ?pa ` {Suc i..<Suc i + ?e}"
      then obtain j where j: "Suc i \<le> j" "j < Suc i + ?e" "?pa i = ?pa j" by auto
      moreover from j(2) have "j < i + Suc rem" by linarith
      ultimately show False using inj_onD [OF inj j(3)] by simp
    qed
    then have b: "k_mem k' (?pa i) = b" using r(5) by simp
    have "k_mem k' (?pa (i + j)) = (b # bs) ! j" if "j < Suc ?e" for j
      using that b r(4) by (cases j) auto
    moreover have "k_mem k' x = k_mem k x" if "x \<notin> ?pa ` {i..<i + Suc ?e}" for x
    proof -
      have "{i..<i + Suc ?e} = insert i {Suc i..<Suc i + ?e}" by auto
      then have "x \<noteq> ?pa i" "x \<notin> ?pa ` {Suc i..<Suc i + ?e}" using that by auto
      then show ?thesis using r(5) by simp
    qed
    ultimately show ?thesis unfolding l r(1) d Cons using r(2,3)
      by (intro exI [of _ k'] exI [of _ pp']) (auto simp: pipe_to_def)
  qed
qed

lemma pipewrite_transfers:
  assumes "k_pipes k pi = Some pp" "pipe_inv pp" "k_cur k = Some p" "p < length (k_procs k)"
    "R = p_pagetable (k_procs k ! p)" and b: "buf_in R k addr (i + rem)"
  shows "\<exists>res k' pp' m. pipewrite_loop pi addr i rem k = Some (res, k') \<and> pipe_to pi k k' pp' \<and> k_mem k' = k_mem k \<and>
        pipe_bytes pp' = pipe_bytes pp @ map (\<lambda>j. user_byte R k (addr + of_nat j)) [i..<i + m] \<and>
        (if 0 < rem \<and> (\<not> pp_readopen pp \<or> killed p k) then m = 0 \<and> res = Done (- 1)
         else m = min rem (512 - length (pipe_bytes pp)) \<and>
           res = (if m = rem then Done (int (i + rem)) else Sleep (i + m, rem - m)))"
proof (cases "rem = 0 \<or> pp_readopen pp \<and> \<not> killed p k")
  case True
  have "\<exists>k' pp'. pipewrite_loop pi addr i rem k =
      Some (if write_room pp rem = rem then Done (int (i + rem)) else Sleep (i + write_room pp rem, rem - write_room pp rem), k') \<and>
    pipe_to pi k k' pp' \<and> k_mem k' = k_mem k \<and> pipe_bytes pp' = pipe_bytes pp @ buf_bytes R k addr i (write_room pp rem)"
  proof (cases "rem = 0")
    case True
    then show ?thesis using assms(1,2)
      by (intro exI [of _ "wakeup (Ch_pipe_read pi) k"] exI [of _ pp])
        (auto simp: pipe_to_def buf_bytes_def write_room_def wakeup_def)
  qed (use True pipewrite_loop_bytes [OF assms(1-4) _ _ b [unfolded assms(5)]] assms(5) in simp)
  then show ?thesis using True unfolding write_room_def buf_bytes_def
    by (intro exI [of _ "if min rem (512 - length (pipe_bytes pp)) = rem then Done (int (i + rem))
        else Sleep (i + min rem (512 - length (pipe_bytes pp)), rem - min rem (512 - length (pipe_bytes pp)))"]) auto
next
  case False
  then obtain r where r: "rem = Suc r" by (cases rem) auto
  have "pipewrite_loop pi addr i rem k = Some (Done (- 1), k)" using False assms(1,3) r by simp
  then show ?thesis using False r assms(1,2)
    by (intro exI [of _ "Done (- 1)"] exI [of _ k] exI [of _ pp] exI [of _ 0]) (auto simp: pipe_to_def)
qed

lemma piperead_transfers:
  assumes "k_pipes k pi = Some pp" "pipe_inv pp" "k_cur k = Some p" "p < length (k_procs k)"
    "R = p_pagetable (k_procs k ! p)" and b: "buf_out R ps k addr (nat n)" "pipe_bytes pp = [] \<Longrightarrow> \<not> pp_writeopen pp"
  shows "\<exists>k' pp' bs. piperead pi addr n k = Some (Done (int (length bs)), k') \<and> pipe_to pi k k' pp' \<and>
        pipe_bytes pp = bs @ pipe_bytes pp' \<and> length bs = min (nat n) (length (pipe_bytes pp)) \<and>
        map (\<lambda>j. k_mem k' (user_pa R k (addr + of_nat j))) [0..<length bs] = bs \<and>
        (\<forall>x. x \<notin> (\<lambda>j. user_pa R k (addr + of_nat j)) ` {..<length bs} \<longrightarrow> k_mem k' x = k_mem k x)"
proof -
  let ?d = "min (nat n) (length (pipe_bytes pp))" and ?pa = "\<lambda>j. user_pa R k (addr + of_nat j)"
  have b0: "buf_out R ps k addr (0 + nat n)" using b(1) by simp
  obtain k1 pp' where l: "piperead_loop pi addr 0 (nat n) k = Some (int (0 + ?d), k1)" "pipe_to pi k k1 pp'"
    "pipe_bytes pp' = drop ?d (pipe_bytes pp)" "\<forall>j < ?d. k_mem k1 (?pa (0 + j)) = pipe_bytes pp ! j"
    "\<forall>x. x \<notin> ?pa ` {0..<0 + ?d} \<longrightarrow> k_mem k1 x = k_mem k x"
    using piperead_loop_bytes [OF assms(1,2,3,5) b0 refl] by blast
  let ?bs = "take ?d (pipe_bytes pp)" and ?k = "wakeup (Ch_pipe_write pi) k1"
  have len: "length ?bs = ?d" by (simp del: length_pipe_bytes)
  have mem: "k_mem ?k = k_mem k1" by (simp add: wakeup_def)
  have "\<not> (pp_nread pp = pp_nwrite pp \<and> pp_writeopen pp)" using b(2) by (auto simp: pipe_bytes_def)
  then have "piperead pi addr n k = Some (Done (int (length ?bs)), ?k)"
    using assms(1,3) l(1) len by (auto simp: piperead_def simp del: length_pipe_bytes)
  moreover have "pipe_to pi k ?k pp'" using l(2) by (simp add: pipe_to_def)
  moreover have "pipe_bytes pp = ?bs @ pipe_bytes pp'" unfolding l(3) by (rule append_take_drop_id [symmetric])
  moreover have "map (\<lambda>j. k_mem ?k (?pa j)) [0..<length ?bs] = ?bs"
    unfolding len mem using l(4) by (intro nth_equalityI) (simp_all del: length_pipe_bytes)
  moreover have "\<forall>x. x \<notin> ?pa ` {..<length ?bs} \<longrightarrow> k_mem ?k x = k_mem k x"
    unfolding len mem using l(5) by (simp add: lessThan_atLeast0 del: length_pipe_bytes)
  ultimately show ?thesis using len by blast
qed

lemma piperead_waits:
  assumes "k_pipes k pi = Some pp" "pipe_inv pp" "k_cur k = Some p" "p < length (k_procs k)"
    "R = p_pagetable (k_procs k ! p)" and "pipe_bytes pp = []" "pp_writeopen pp"
  shows "\<exists>res k'. piperead pi addr n k = Some (res, k') \<and> res = (if killed p k then Done (- 1) else Sleep ()) \<and>
        k_pipes k' = k_pipes k \<and> k_mem k' = k_mem k"
proof -
  have e: "pp_nread pp = pp_nwrite pp" "pp_writeopen pp" using assms(6,7) by (auto simp: pipe_bytes_def unat_eq_zero)
  obtain k' where k': "sleep (Ch_pipe_read pi) k = Some k'" using assms(3,4) by (simp add: sleep_def sched_def upd_proc_def)
  have "k_mem k' = k_mem k" using k' by (auto simp: sleep_def sched_def upd_proc_def panic_simps split: option.splits if_splits)
  then show ?thesis using assms(1,3) e k' sleep_pipes [OF k'] by (simp add: piperead_def)
qed

section \<open>Properties\<close>

text \<open>
  C29: a pipe carries the bytes of user memory, in order, without loss or duplication.  A writer whose buffer is mapped
  appends to the pipe exactly the next bytes of its buffer in user memory: all that are left, and it returns their
  count, or as many as fit into the 512 bytes, and it sleeps with the position to go on from; nothing and -1 when
  the read end is closed or the writer is killed.  A reader of a pipe that is not empty, or whose write end is
  closed, whose buffer is mapped writable takes exactly the first bytes of the pipe, at most \<open>n\<close> and at most those present,
  returns their count, and afterwards the buffer in user memory holds them, in order, and
  no other byte of memory has changed.  A reader of an empty pipe that can still be written sleeps, or returns -1 if it
  is killed, and nothing is transferred.  No other pipe is touched.
\<close>

theorem pipe_transfer:
  assumes "k_pipes k pi = Some pp" "pipe_inv pp" "k_cur k = Some p" "p < length (k_procs k)"
    "R = p_pagetable (k_procs k ! p)"
  shows "pipewrite pi addr n k = pipewrite_loop pi addr 0 (nat n) k \<and>
    (buf_in R k addr (i + rem) \<longrightarrow>
     (\<exists>res k' pp' m. pipewrite_loop pi addr i rem k = Some (res, k') \<and> pipe_to pi k k' pp' \<and> k_mem k' = k_mem k \<and>
        pipe_bytes pp' = pipe_bytes pp @ map (\<lambda>j. user_byte R k (addr + of_nat j)) [i..<i + m] \<and>
        (if 0 < rem \<and> (\<not> pp_readopen pp \<or> killed p k) then m = 0 \<and> res = Done (- 1)
         else m = min rem (512 - length (pipe_bytes pp)) \<and>
           res = (if m = rem then Done (int (i + rem)) else Sleep (i + m, rem - m))))) \<and>
    (buf_out R ps k addr (nat n) \<and> (pipe_bytes pp = [] \<longrightarrow> \<not> pp_writeopen pp) \<longrightarrow>
     (\<exists>k' pp' bs. piperead pi addr n k = Some (Done (int (length bs)), k') \<and> pipe_to pi k k' pp' \<and>
        pipe_bytes pp = bs @ pipe_bytes pp' \<and> length bs = min (nat n) (length (pipe_bytes pp)) \<and>
        map (\<lambda>j. k_mem k' (user_pa R k (addr + of_nat j))) [0..<length bs] = bs \<and>
        (\<forall>x. x \<notin> (\<lambda>j. user_pa R k (addr + of_nat j)) ` {..<length bs} \<longrightarrow> k_mem k' x = k_mem k x))) \<and>
    (pipe_bytes pp = [] \<and> pp_writeopen pp \<longrightarrow>
     (\<exists>res k'. piperead pi addr n k = Some (res, k') \<and> res = (if killed p k then Done (- 1) else Sleep ()) \<and>
        k_pipes k' = k_pipes k \<and> k_mem k' = k_mem k))"
  using pipewrite_transfers [OF assms, of addr i rem] piperead_transfers [OF assms, of ps addr n]
    piperead_waits [OF assms, of addr n]
  by (intro conjI impI) (simp add: pipewrite_def, blast, blast, blast)

text \<open>
  A process whose page 1 is mapped, readable and writable, to the page of RAM at \<open>0x80053000\<close>, through tables at
  \<open>0x80050000\<close>, \<open>0x80051000\<close> and \<open>0x80052000\<close>; its buffer starts with ''ok'', and the pipe holds ''hi''.
\<close>

definition copy_tables :: memory where
  "copy_tables =
     store64 (store64 (store64 (\<lambda>_. NUL) (pte_addr 0x80050000 0) (PA2PTE 0x80051000 OR PTE_V))
       (pte_addr 0x80051000 0) (PA2PTE 0x80052000 OR PTE_V))
       (pte_addr 0x80052000 1) (PA2PTE 0x80053000 OR (PTE_R OR PTE_W OR PTE_U) OR PTE_V)"

definition copy_pipe :: pipe where
  "copy_pipe = \<lparr>pp_data = ''hi'' @ replicate 510 NUL, pp_nread = 0, pp_nwrite = 2, pp_readopen = True, pp_writeopen = True\<rparr>"

definition copy_sample :: kernel where
  "copy_sample = kernel_boot\<lparr>k_cur := Some 0, k_procs := [(proc_boot 0)\<lparr>p_state := RUNNING, p_pagetable := 0x80050000\<rparr>],
     k_mem := copy_tables(0x80053000 := CHR ''o'', 0x80053001 := CHR ''k''), k_pipes := [0x80200000 \<mapsto> copy_pipe]\<rparr>"

lemma copy_page_ok: "page_ok copy_sample p \<longleftrightarrow> p mod 4096 = 0 \<and> 0x80040000 \<le> p \<and> p < 0x88000000"
  by (simp add: page_ok_def copy_sample_def kernel_boot_def PGSIZE_def PHYSTOP_def KERNBASE_def)

lemma copy_entry:
  assumes "t \<in> {0x80050000, 0x80051000, 0x80052000}" "i < 512"
  shows "entry (k_mem copy_sample) t i =
    (if t = 0x80050000 \<and> i = 0 then PA2PTE 0x80051000 OR PTE_V
     else if t = 0x80051000 \<and> i = 0 then PA2PTE 0x80052000 OR PTE_V
     else if t = 0x80052000 \<and> i = 1 then PA2PTE 0x80053000 OR (PTE_R OR PTE_W OR PTE_U) OR PTE_V else 0)"
proof -
  have ok: "page_ok copy_sample t" "page_ok copy_sample 0x80050000" "page_ok copy_sample 0x80051000" "page_ok copy_sample 0x80052000"
    using assms(1) by (auto simp: copy_page_ok)
  have "entry (k_mem copy_sample) t i = entry copy_tables t i"
    using assms ok(1) by (intro entry_cong_page) (auto simp: copy_sample_def)
  moreover have "entry (\<lambda>_. NUL) t i = 0" by (simp add: entry_def)
  ultimately show ?thesis
    unfolding copy_tables_def
    using entry_store [OF ok(4) ok(1), of 1 i] entry_store [OF ok(3) ok(1), of 0 i] entry_store [OF ok(2) ok(1), of 0 i] assms
    by auto
qed

lemma copy_tab:
  assumes "path xs" "tab (k_mem copy_sample) 0x80050000 xs = Some p"
  shows "(xs, p) \<in> {([], 0x80050000), ([0], 0x80051000), ([0, 0], 0x80052000)}"
proof -
  have pa: "PTE2PA (PA2PTE 0x80051000 OR PTE_V) = 0x80051000" "PTE2PA (PA2PTE 0x80052000 OR PTE_V) = 0x80052000"
    by (simp_all add: PTE2PA_def PA2PTE_def PTE_V_def)
  have c: "child (k_mem copy_sample) 0x80050000 i = (if i = 0 then Some 0x80051000 else None)"
    "child (k_mem copy_sample) 0x80051000 i = (if i = 0 then Some 0x80052000 else None)" if "i < 512" for i
    using that pa by (simp_all add: child_def copy_entry)
  consider "xs = []" | i where "xs = [i]" "i < 512" | i j where "xs = [i, j]" "i < 512" "j < 512"
    using assms(1) by (cases xs; cases "tl xs") (auto simp: path_def)
  then show ?thesis using assms(2) c by cases (auto split: if_splits)
qed

lemma copy_wf: "kmem_inv copy_sample []" "pt_wf copy_sample [] 0x80050000"
proof -
  show "kmem_inv copy_sample []" by (simp add: kmem_inv_def copy_sample_def kernel_boot_def KERNBASE_def)
  show "pt_wf copy_sample [] 0x80050000" unfolding pt_wf_def
  proof (intro conjI allI impI)
    fix xs p
    assume "path xs" "tab (k_mem copy_sample) 0x80050000 xs = Some p"
    from copy_tab [OF this] show "page_ok copy_sample p" "p \<notin> set []" by (auto simp: copy_page_ok)
  next
    fix xs ys p
    assume "path xs" "path ys" "tab (k_mem copy_sample) 0x80050000 xs = Some p" "tab (k_mem copy_sample) 0x80050000 ys = Some p"
    then show "xs = ys" using copy_tab [of xs p] copy_tab [of ys p] by auto
  qed
qed

lemma copy_walkaddr: "leaf_pte copy_sample 0x80050000 0x1000 AND PTE_W \<noteq> 0" "walkaddr 0x80050000 0x1000 copy_sample = 0x80053000"
  "\<not> is_table copy_sample 0x80050000 0x80053000"
proof -
  have px: "PX 2 0x1000 = 0" "PX 1 0x1000 = 0" "PX 0 0x1000 = 1" by (simp_all add: PX_def)
  have "leaf_pte copy_sample 0x80050000 0x1000 = PA2PTE 0x80053000 OR (PTE_R OR PTE_W OR PTE_U) OR PTE_V"
    by (simp add: leaf_pte_def px [simplified] child_def copy_entry)
       (simp add: PTE2PA_def PA2PTE_def PTE_V_def copy_entry)
  moreover have "(0x1000 :: u64) < MAXVA" by (simp add: MAXVA_def)
  ultimately show "leaf_pte copy_sample 0x80050000 0x1000 AND PTE_W \<noteq> 0" "walkaddr 0x80050000 0x1000 copy_sample = 0x80053000"
    using walkaddr_correct [OF copy_wf, of "0x1000"]
    by (simp_all add: PTE2PA_def PA2PTE_def PTE_V_def PTE_R_def PTE_W_def PTE_U_def)
  show "\<not> is_table copy_sample 0x80050000 0x80053000" using copy_tab by (fastforce simp: is_table_def)
qed

lemma copy_buffer:
  assumes "j < 2"
  shows "PGROUNDDOWN (0x1000 + of_nat j) = 0x1000" "user_pa 0x80050000 copy_sample (0x1000 + of_nat j) = 0x80053000 + j"
proof -
  have j: "j = 0 \<or> j = 1" using assms by auto
  then show p: "PGROUNDDOWN (0x1000 + of_nat j) = 0x1000" by (auto simp: PGROUNDDOWN_def PGSIZE_def)
  then show "user_pa 0x80050000 copy_sample (0x1000 + of_nat j) = 0x80053000 + j"
    unfolding user_pa_def p copy_walkaddr(2) using j by auto
qed

lemma copy_buffers: "buf_in 0x80050000 copy_sample 0x1000 2" "buf_out 0x80050000 [] copy_sample 0x1000 2"
proof -
  show "buf_in 0x80050000 copy_sample 0x1000 2" by (simp add: buf_in_def copy_buffer copy_walkaddr)
  have "data_page 0x80050000 [] copy_sample 0x1000" using copy_walkaddr by (simp add: data_page_def copy_page_ok)
  moreover have "inj_on (\<lambda>j. user_pa 0x80050000 copy_sample (0x1000 + of_nat j)) {..<2}"
    by (rule inj_onI) (simp add: copy_buffer)
  ultimately show "buf_out 0x80050000 [] copy_sample 0x1000 2" using copy_wf by (simp add: buf_out_def copy_buffer)
qed

theorem pipe_transfer_witness:
  "\<exists>k1 p1 k2 p2. pipewrite 0x80200000 0x1000 2 copy_sample = Some (Done 2, k1) \<and>
     pipe_to 0x80200000 copy_sample k1 p1 \<and> pipe_bytes p1 = ''hiok'' \<and>
     piperead 0x80200000 0x1000 2 copy_sample = Some (Done 2, k2) \<and>
     pipe_to 0x80200000 copy_sample k2 p2 \<and> pipe_bytes p2 = [] \<and>
     k_mem k2 0x80053000 = CHR ''h'' \<and> k_mem k2 0x80053001 = CHR ''i''"
proof -
  have a: "k_pipes copy_sample 0x80200000 = Some copy_pipe" "pipe_inv copy_pipe" "k_cur copy_sample = Some 0"
    "0 < length (k_procs copy_sample)" "0x80050000 = p_pagetable (k_procs copy_sample ! 0)"
    by (simp_all add: copy_sample_def copy_pipe_def pipe_inv_def PIPESIZE_def)
  have p: "pipe_bytes copy_pipe = ''hi''" by (simp add: pipe_bytes_def copy_pipe_def PIPESIZE_def upt_conv_Cons)
  have o: "pp_readopen copy_pipe" "\<not> killed 0 copy_sample" by (simp_all add: copy_pipe_def killed_def copy_sample_def proc_boot_def)
  have b: "map (\<lambda>j. user_byte 0x80050000 copy_sample (0x1000 + of_nat j)) [0..<2] = ''ok''"
    using copy_buffer [of 0] copy_buffer [of 1] by (simp add: user_byte_def upt_conv_Cons) (simp add: copy_sample_def)
  note t = pipe_transfer [OF a, of "0x1000" 2 0 2 "[]"]
  obtain res k1 p1 m where w: "pipewrite 0x80200000 0x1000 2 copy_sample = Some (res, k1)" "pipe_to 0x80200000 copy_sample k1 p1"
    "pipe_bytes p1 = ''hi'' @ map (\<lambda>j. user_byte 0x80050000 copy_sample (0x1000 + of_nat j)) [0..<m]" "m = 2" "res = Done 2"
  proof -
    have "buf_in 0x80050000 copy_sample 0x1000 (0 + 2)" using copy_buffers(1) unfolding add_0 .
    note tw = t [THEN conjunct2, THEN conjunct1, THEN mp, OF this]
    then obtain res k1 p1 m where w: "pipewrite_loop 0x80200000 0x1000 0 2 copy_sample = Some (res, k1)" "pipe_to 0x80200000 copy_sample k1 p1"
      "pipe_bytes p1 = pipe_bytes copy_pipe @ map (\<lambda>j. user_byte 0x80050000 copy_sample (0x1000 + of_nat j)) [0..<0 + m]"
      "m = min 2 (512 - length (pipe_bytes copy_pipe))" "res = (if m = 2 then Done (int (0 + 2)) else Sleep (0 + m, 2 - m))"
      using o by auto
    then have "m = 2" unfolding p by simp
    then show ?thesis using that [of res k1 p1 2] w p by (simp add: pipewrite_def numeral_2_eq_2 del: upt_Suc)
  qed
  obtain k2 p2 bs where r: "piperead 0x80200000 0x1000 2 copy_sample = Some (Done (int (length bs)), k2)" "pipe_to 0x80200000 copy_sample k2 p2"
    "''hi'' = bs @ pipe_bytes p2" "length bs = 2"
    "map (\<lambda>j. k_mem k2 (user_pa 0x80050000 copy_sample (0x1000 + of_nat j))) [0..<length bs] = bs"
  proof -
    have "buf_out 0x80050000 [] copy_sample 0x1000 (nat 2) \<and> (pipe_bytes copy_pipe = [] \<longrightarrow> \<not> pp_writeopen copy_pipe)"
      using copy_buffers(2) p by simp
    note tr = t [THEN conjunct2, THEN conjunct2, THEN conjunct1, THEN mp, OF this]
    then obtain k2 p2 bs where f: "piperead 0x80200000 0x1000 2 copy_sample = Some (Done (int (length bs)), k2)" "pipe_to 0x80200000 copy_sample k2 p2"
      "pipe_bytes copy_pipe = bs @ pipe_bytes p2" "length bs = min (nat 2) (length (pipe_bytes copy_pipe))"
      "map (\<lambda>j. k_mem k2 (user_pa 0x80050000 copy_sample (0x1000 + of_nat j))) [0..<length bs] = bs"
      by (elim exE conjE) (rule that, assumption+)
    have "length bs = 2" using f(4) unfolding p by simp
    then show ?thesis using that [OF f(1,2) f(3) [unfolded p] _ f(5)] by blast
  qed
  have bs: "bs = ''hi''" "pipe_bytes p2 = []"
    using arg_cong [OF r(3), of "take 2"] arg_cong [OF r(3), of "drop 2"] r(4) by simp_all
  have "k_mem k2 0x80053000 = CHR ''h''" "k_mem k2 0x80053001 = CHR ''i''"
    using r(5) bs(1) copy_buffer [of 0] copy_buffer [of 1] by (simp_all add: upt_conv_Cons)
  then show ?thesis using w r(1,2,4) bs b by auto
qed

end
