(* ===== verification/Confirm_Wait.thy ===== *)
theory Confirm_Wait
  imports Trap
begin

text \<open>
  No confirmation waits for ever: the request of \<open>confirm.c\<close>, the clock interrupt of \<open>trap.c\<close> that wakes
  it and the scheduler of \<open>proc.c\<close> that lets it look at the clock, taken together.
\<close>

section \<open>A waiting request\<close>

text \<open>
  \<open>confirm_wait p t0 n k\<close>: process \<open>p\<close> called \<open>confirm_request\<close> at clock value \<open>t0\<close> and has not returned, and
  the clock of hart 0 has ticked \<open>n\<close> times since.  Between its start and now: clock interrupts on any
  hart; answers of the host, for any pid; \<open>p\<close> being scheduled, looking and going back to sleep; and anything
  else the kernel does, which may wake \<open>p\<close> (\<open>kkill\<close> does) but does not run it, and
  touches neither the clock nor the two variables that are static to \<open>confirm.c\<close>.
\<close>

inductive confirm_wait :: "nat \<Rightarrow> u32 \<Rightarrow> nat \<Rightarrow> kernel \<Rightarrow> bool" for p t0 where
  w_start: "\<lbrakk>k_cur k = Some p; p < length (k_procs k); p_pid (k_procs k ! p) \<noteq> 0;
     confirm_request p num summary k = Some (Sleep t0, k')\<rbrakk> \<Longrightarrow> confirm_wait p t0 0 k'"
| w_clock: "\<lbrakk>confirm_wait p t0 n k; clockintr h k = (h', k')\<rbrakk> \<Longrightarrow>
     confirm_wait p t0 (if h_tp h = 0 then Suc n else n) k'"
| w_host: "confirm_wait p t0 n k \<Longrightarrow> confirm_wait p t0 n (confirm_resolve pid allow k)"
| w_look: "\<lbrakk>confirm_wait p t0 n k; k_cur (scheduler k) = Some p;
     confirm_poll t0 (sleep_resume (scheduler k)) = Some (Sleep t1, k')\<rbrakk> \<Longrightarrow> confirm_wait p t0 n k'"
| w_other: "\<lbrakk>confirm_wait p t0 n k; length (k_procs k') = length (k_procs k); k_cur k' \<noteq> Some p;
     p_chan (k_procs k' ! p) = p_chan (k_procs k ! p);
     p_state (k_procs k' ! p) = p_state (k_procs k ! p) \<or> p_state (k_procs k' ! p) = RUNNABLE;
     k_confirm k' = k_confirm k; k_ticks k' = k_ticks k\<rbrakk> \<Longrightarrow> confirm_wait p t0 n k'"

text \<open>What holds while it waits.\<close>

definition waiting :: "nat \<Rightarrow> kernel \<Rightarrow> bool" where
  "waiting p k \<longleftrightarrow> p < length (k_procs k) \<and> k_cur k \<noteq> Some p \<and> cf_pending_pid (k_confirm k) \<noteq> 0 \<and>
     (p_state (k_procs k ! p) = RUNNABLE \<or>
      p_state (k_procs k ! p) = SLEEPING \<and> p_chan (k_procs k ! p) = Some Ch_confirm)"

lemma sleep_waiting:
  assumes "sleep Ch_confirm k = Some k'" "k_cur k = Some p" "p < length (k_procs k)" "cf_pending_pid (k_confirm k) \<noteq> 0"
  shows "waiting p k' \<and> k_ticks k' = k_ticks k"
  using assms by (auto simp: waiting_def sleep_def sched_def upd_proc_def panic_simps split: if_splits)

lemma waiting_wakeup: "waiting p k \<Longrightarrow> waiting p (wakeup c k)"
  by (auto simp: waiting_def wakeup_nth wake_proc_def)

lemma waiting_upd: "waiting p (k\<lparr>k_ticks := t\<rparr>) = waiting p k"
  by (simp add: waiting_def)

lemma waiting_tick: "waiting p k \<Longrightarrow> waiting p (confirm_tick k) \<and> p_state (k_procs (confirm_tick k) ! p) = RUNNABLE"
  using waiting_wakeup [of p k Ch_confirm] by (auto simp: confirm_tick_def waiting_def wakeup_nth wake_proc_def)

lemma waiting_resolve: "waiting p k \<Longrightarrow> waiting p (confirm_resolve pid allow k)"
proof -
  assume w: "waiting p k"
  have "waiting p (k\<lparr>k_confirm := c\<rparr>) = waiting p k" if "cf_pending_pid c = cf_pending_pid (k_confirm k)" for c
    using that by (simp add: waiting_def)
  with w show ?thesis unfolding confirm_resolve_def Let_def by (intro waiting_wakeup) simp
qed

lemma ticks_wakeup [simp]: "k_ticks (wakeup c k) = k_ticks k" "k_confirm (wakeup c k) = k_confirm k"
  by (simp_all add: wakeup_def)

lemma resume_scheduler:
  assumes "k_cur (scheduler k) = Some p"
  shows "k_ticks (sleep_resume (scheduler k)) = k_ticks k" "k_confirm (sleep_resume (scheduler k)) = k_confirm k"
    "k_cur (sleep_resume (scheduler k)) = Some p" "length (k_procs (sleep_resume (scheduler k))) = length (k_procs k)"
  using assms
  by (auto simp: sleep_resume_def scheduler_def cfs_advance_min_def upd_proc_def split: option.splits if_splits)

lemma clockintr_waiting:
  assumes "clockintr h k = (h', k')" "waiting p k"
  shows "waiting p k'" "k_ticks k' = k_ticks k + (if h_tp h = 0 then 1 else 0)"
    "cf_result (k_confirm k') = cf_result (k_confirm k)" "h_tp h = 0 \<Longrightarrow> p_state (k_procs k' ! p) = RUNNABLE"
proof -
  let ?k = "wakeup Ch_ticks (k\<lparr>k_ticks := k_ticks k + 1\<rparr>)"
  have w: "waiting p ?k" using assms(2) by (intro waiting_wakeup) (simp add: waiting_upd)
  have t: "k_ticks (confirm_tick ?k) = k_ticks k + 1" "k_confirm (confirm_tick ?k) = k_confirm k"
    by (simp_all add: confirm_tick_def)
  have k': "k' = (if h_tp h = 0 then confirm_tick ?k else k)" using assms(1) by (auto simp: clockintr_def Let_def)
  show "waiting p k'" "k_ticks k' = k_ticks k + (if h_tp h = 0 then 1 else 0)"
    "cf_result (k_confirm k') = cf_result (k_confirm k)" "h_tp h = 0 \<Longrightarrow> p_state (k_procs k' ! p) = RUNNABLE"
    using k' waiting_tick [OF w] t assms(2) by auto
qed

lemma confirm_wait_inv: "confirm_wait p t0 n k \<Longrightarrow> waiting p k \<and> k_ticks k = t0 + of_nat n"
proof (induction rule: confirm_wait.induct)
  case (w_start k num summary k')
  let ?k = "printf (''CONFIRM_REQ|%d|%d|%s'' @ [CHR 0x0A])
      [VInt (p_pid (k_procs k ! p)), VInt num, VStr (Some (case summary of None \<Rightarrow> [] | Some s \<Rightarrow> s))]
      (k\<lparr>k_confirm := \<lparr>cf_pending_pid = p_pid (k_procs k ! p), cf_result = - 1\<rparr>\<rparr>)"
  have "confirm_poll (k_ticks ?k) ?k = Some (Sleep t0, k')"
    using w_start(4) by (auto simp: confirm_request_def confirm_claim_def confirm_announce_def Let_def split: if_splits)
  then have "sleep Ch_confirm ?k = Some k'" "t0 = k_ticks ?k"
    by (auto simp: confirm_poll_def split: if_splits bind_splits)
  then show ?case using sleep_waiting [of ?k k' p] w_start(1-3) by simp
next
  case (w_clock n k h h' k')
  then show ?case using clockintr_waiting [OF w_clock(2), of p] by (auto simp: add.assoc add.commute)
next
  case (w_host n k pid allow)
  then show ?case using waiting_resolve by (simp add: confirm_resolve_def Let_def)
next
  case (w_look n k t1 k')
  note r = resume_scheduler [OF w_look(2)]
  have "sleep Ch_confirm (sleep_resume (scheduler k)) = Some k'"
    using w_look(3) by (auto simp: confirm_poll_def split: if_splits bind_splits)
  then show ?case using sleep_waiting [of _ k' p] r w_look.IH by (simp add: waiting_def)
next
  case (w_other n k k')
  then show ?case by (auto simp: waiting_def)
qed

section \<open>Rounds of the scheduler\<close>

lemma cfs_round_keeps: "cfs_round k = Some k' \<Longrightarrow> k_ticks k' = k_ticks k \<and> k_confirm k' = k_confirm k"
  by (auto simp: cfs_round_def yield_def sched_def charge_tick_def scheduler_def cfs_advance_min_def upd_proc_def panic_simps
      split: option.splits if_splits)

lemma cfs_rounds_keep: "cfs_rounds m k = Some k' \<Longrightarrow> k_ticks k' = k_ticks k \<and> k_confirm k' = k_confirm k"
  by (induction m arbitrary: k) (auto split: bind_splits dest!: cfs_round_keeps)

text \<open>The look at the clock and at the answer, \<open>n\<close> ticks after the request.\<close>

lemma confirm_poll_at:
  assumes "k_ticks k = t0 + of_nat n" "n < 2 ^ 32" "k_cur k = Some p" "p < length (k_procs k)"
  shows "150 \<le> n \<or> cf_result (k_confirm k) \<noteq> - 1 \<Longrightarrow>
      \<exists>rc k'. confirm_poll t0 k = Some (Done rc, k') \<and> cf_pending_pid (k_confirm k') = 0 \<and>
        (rc = 1 \<longleftrightarrow> cf_result (k_confirm k) = 1)"
    "n < 150 \<Longrightarrow> cf_result (k_confirm k) = - 1 \<Longrightarrow> \<exists>k'. confirm_poll t0 k = Some (Sleep t0, k')"
proof -
  have "unat (of_nat n :: u32) = n" using assms(2) by (simp add: unat_of_nat)
  then have e: "CONFIRM_TIMEOUT_TICKS \<le> k_ticks k - t0 \<longleftrightarrow> 150 \<le> n"
    using assms(1) by (simp add: CONFIRM_TIMEOUT_TICKS_def word_le_nat_alt)
  show "150 \<le> n \<or> cf_result (k_confirm k) \<noteq> - 1 \<Longrightarrow>
      \<exists>rc k'. confirm_poll t0 k = Some (Done rc, k') \<and> cf_pending_pid (k_confirm k') = 0 \<and>
        (rc = 1 \<longleftrightarrow> cf_result (k_confirm k) = 1)"
    using e by (auto simp: confirm_poll_def confirm_idle_def)
  show "n < 150 \<Longrightarrow> cf_result (k_confirm k) = - 1 \<Longrightarrow> \<exists>k'. confirm_poll t0 k = Some (Sleep t0, k')"
    using e assms(3,4) by (simp add: confirm_poll_def sleep_def sched_def upd_proc_def)
qed

section \<open>Properties\<close>

text \<open>
  C9: no request waits for ever.  Take a process that waits in \<open>confirm_request\<close>, after any interleaving of clock
  interrupts, host answers, looks at the clock and other kernel activity, and let the clock interrupt of hart 0 come once
  more.  The process is then RUNNABLE.  If this is at least the 150th tick since the request (and fewer
  than \<open>2 ^ 32\<close>, the width of the clock), or the host has answered, then within the
  bounded number of rounds in which the CFS scheduler reaches every RUNNABLE process it is run, its call returns,
  the pending slot is free again, and the result is 1 if and only if the recorded answer is an allow.  Before the
  150th tick, a process that is run without an answer goes back to sleep.
\<close>

theorem confirm_timeout_returns:
  assumes "confirm_wait p t0 n k" "h_tp h = 0" "clockintr h k = (h', k1)"
  shows "p_state (k_procs k1 ! p) = RUNNABLE \<and>
    ((149 \<le> n \<or> cf_result (k_confirm k) \<noteq> - 1) \<and> n + 1 < 2 ^ 32 \<and>
     unat (p_vruntime (k_procs k1 ! p)) + 89478485 < 2 ^ 64 \<longrightarrow>
     (\<exists>m k2 rc k3. m \<le> wait_bound k1 p \<and> cfs_rounds m k1 = Some k2 \<and> k_cur (scheduler k2) = Some p \<and>
        confirm_poll t0 (sleep_resume (scheduler k2)) = Some (Done rc, k3) \<and>
        cf_pending_pid (k_confirm k3) = 0 \<and> (rc = 1 \<longleftrightarrow> cf_result (k_confirm k) = 1))) \<and>
    (k_cur (scheduler k) = Some p \<and> n < 150 \<and> cf_result (k_confirm k) = - 1 \<longrightarrow>
     (\<exists>k2. confirm_poll t0 (sleep_resume (scheduler k)) = Some (Sleep t0, k2) \<and> confirm_wait p t0 n k2))"
proof -
  have i: "waiting p k" "k_ticks k = t0 + of_nat n" using confirm_wait_inv [OF assms(1)] by auto
  note c = clockintr_waiting [OF assms(3) i(1)]
  have run: "p_state (k_procs k1 ! p) = RUNNABLE" using c(4) assms(2) .
  have "\<exists>m k2 rc k3. m \<le> wait_bound k1 p \<and> cfs_rounds m k1 = Some k2 \<and> k_cur (scheduler k2) = Some p \<and>
        confirm_poll t0 (sleep_resume (scheduler k2)) = Some (Done rc, k3) \<and>
        cf_pending_pid (k_confirm k3) = 0 \<and> (rc = 1 \<longleftrightarrow> cf_result (k_confirm k) = 1)"
    if h: "149 \<le> n \<or> cf_result (k_confirm k) \<noteq> - 1" "n + 1 < 2 ^ 32" "unat (p_vruntime (k_procs k1 ! p)) + 89478485 < 2 ^ 64"
  proof -
    have "p < length (k_procs k1)" using c(1) by (simp add: waiting_def)
    from cfs_chosen [OF this run h(3)] obtain m k2 where m: "m \<le> wait_bound k1 p" "cfs_rounds m k1 = Some k2" "k_cur (scheduler k2) = Some p"
      by blast
    note r = resume_scheduler [OF m(3)]
    have t: "k_ticks (sleep_resume (scheduler k2)) = t0 + of_nat (Suc n)"
      "cf_result (k_confirm (sleep_resume (scheduler k2))) = cf_result (k_confirm k)"
      using r(1,2) cfs_rounds_keep [OF m(2)] c(2,3) assms(2) i(2) by simp_all
    have "150 \<le> Suc n \<or> cf_result (k_confirm (sleep_resume (scheduler k2))) \<noteq> - 1" "Suc n < 2 ^ 32"
      using h(1,2) t(2) by auto
    moreover have "p < length (k_procs (sleep_resume (scheduler k2)))"
      using scheduler_cur [OF m(3)] r(4) by simp
    ultimately show ?thesis using confirm_poll_at(1) [OF t(1) _ r(3)] m t(2) by metis
  qed
  moreover have "\<exists>k2. confirm_poll t0 (sleep_resume (scheduler k)) = Some (Sleep t0, k2) \<and> confirm_wait p t0 n k2"
    if s: "k_cur (scheduler k) = Some p" "n < 150" "cf_result (k_confirm k) = - 1"
  proof -
    note r = resume_scheduler [OF s(1)]
    have "\<exists>k2. confirm_poll t0 (sleep_resume (scheduler k)) = Some (Sleep t0, k2)"
      using confirm_poll_at(2) [of "sleep_resume (scheduler k)" t0 n p] r i s by (simp add: waiting_def)
    then show ?thesis using w_look [OF assms(1) s(1)] by blast
  qed
  ultimately show ?thesis using run by blast
qed

text \<open>A process that has asked, and \<open>n\<close> ticks of the clock of hart 0.\<close>

definition wait_hart :: hart where
  "wait_hart = \<lparr>h_sstatus = 0, h_sepc = 0, h_scause = 0, h_stval = 0, h_stvec = 0, h_satp = 0, h_tp = 0, h_time = 0,
     h_stimecmp = 0, h_plic = 0, h_plic_done = [], h_uart_rx = []\<rparr>"

definition wait_boot :: kernel where
  "wait_boot = kernel_boot\<lparr>k_cur := Some 0, k_procs := [(proc_boot 0)\<lparr>p_state := RUNNING, p_pid := 1\<rparr>]\<rparr>"

fun wait_sample :: "nat \<Rightarrow> kernel" where
  "wait_sample 0 = snd (the (confirm_request 0 7 None wait_boot))"
| "wait_sample (Suc n) = snd (clockintr wait_hart (wait_sample n))"

lemma wait_sample_start:
  "\<exists>k'. confirm_request 0 7 None wait_boot = Some (Sleep 0, k') \<and> cf_result (k_confirm k') = - 1 \<and> k_cfs_min k' = 0 \<and>
     p_vruntime (k_procs k' ! 0) = 0"
  by (simp add: wait_boot_def kernel_boot_def proc_boot_def confirm_request_def confirm_claim_def confirm_announce_def
      confirm_poll_def CONFIRM_TIMEOUT_TICKS_def sleep_def sched_def upd_proc_def)

lemma wait_sample_wait:
  "confirm_wait 0 0 n (wait_sample n) \<and> cf_result (k_confirm (wait_sample n)) = - 1 \<and> k_cfs_min (wait_sample n) = 0 \<and>
     p_vruntime (k_procs (wait_sample n) ! 0) = 0"
proof (induction n)
  case 0
  obtain k' where k': "confirm_request 0 7 None wait_boot = Some (Sleep 0, k')" "cf_result (k_confirm k') = - 1" "k_cfs_min k' = 0"
     "p_vruntime (k_procs k' ! 0) = 0" using wait_sample_start by blast
  have "confirm_wait 0 0 0 k'" by (rule w_start [OF _ _ _ k'(1)]) (simp_all add: wait_boot_def)
  then show ?case using k' by simp
next
  case (Suc n)
  let ?k = "wait_sample n"
  obtain h' k' where c: "clockintr wait_hart ?k = (h', k')" by fastforce
  have w: "waiting 0 ?k" using Suc confirm_wait_inv by blast
  have tp: "h_tp wait_hart = 0" by (simp add: wait_hart_def)
  have v: "wake_vruntime 0 0 = 0" by (simp add: wake_vruntime_def)
  have "k_cfs_min k' = 0" "p_vruntime (k_procs k' ! 0) = 0"
    using c Suc w tp v
    by (auto simp: clockintr_def Let_def confirm_tick_def waiting_def wakeup_nth wake_proc_def)
  then show ?case using w_clock [of 0 0 n ?k wait_hart h' k'] c tp clockintr_waiting(3) [OF c w] Suc by simp
qed

theorem confirm_timeout_returns_witness:
  "\<exists>k1 m k2 k3. clockintr wait_hart (wait_sample 149) = (wait_hart\<lparr>h_stimecmp := 1000000\<rparr>, k1) \<and>
     p_state (k_procs k1 ! 0) = RUNNABLE \<and> cfs_rounds m k1 = Some k2 \<and> k_cur (scheduler k2) = Some 0 \<and>
     confirm_poll 0 (sleep_resume (scheduler k2)) = Some (Done 0, k3) \<and> cf_pending_pid (k_confirm k3) = 0"
proof -
  define k where "k = wait_sample 149"
  have w: "confirm_wait 0 0 149 k" "cf_result (k_confirm k) = - 1"
    using wait_sample_wait [of 149] by (simp_all add: k_def)
  obtain h' k1 where c: "clockintr wait_hart k = (h', k1)" by fastforce
  have tp: "h_tp wait_hart = 0" by (simp add: wait_hart_def)
  have "wait_sample (Suc 149) = k1" unfolding wait_sample.simps(2) k_def [symmetric] using c by simp
  then have v: "p_vruntime (k_procs k1 ! 0) = 0" using wait_sample_wait [of "Suc 149"] by (simp del: wait_sample.simps)
  have h': "h' = wait_hart\<lparr>h_stimecmp := 1000000\<rparr>" using c by (auto simp: clockintr_def Let_def wait_hart_def)
  obtain m k2 rc k3 where r: "p_state (k_procs k1 ! 0) = RUNNABLE" "cfs_rounds m k1 = Some k2" "k_cur (scheduler k2) = Some 0"
    "confirm_poll 0 (sleep_resume (scheduler k2)) = Some (Done rc, k3)" "cf_pending_pid (k_confirm k3) = 0" "rc \<noteq> 1"
    using confirm_timeout_returns [OF w(1) tp c] w(2) v by auto
  have "rc = 0" using r(4,6) by (auto simp: confirm_poll_def split: if_splits bind_splits)
  then show ?thesis using r c h' unfolding k_def by blast
qed

end
