(* ===== verification/Virtio.thy ===== *)
theory Virtio
  imports Vm Ring
begin

text \<open>
  The disk driver, \<open>kernel/virtio_disk.c\<close> with \<open>kernel/virtio.h\<close>.  The descriptor table, the available ring
  and the used ring are shared with the device; pointers that the driver hands to the device are values of
  \<open>dma\<close>.  \<open>virtio_disk_rw\<close> is split where it sleeps: \<open>rw_enter\<close> is one attempt to get three
  descriptors and submit the request, \<open>rw_wait\<close> is one turn of the wait for its completion.  \<open>vstep\<close> interleaves any number of
  processes, the interrupt handler and the device.

  The device is not part of the sources: \<open>dev_take\<close> and \<open>dev_exec\<close> state what the virtio specification (sections 2.6 and 5.2)
  says a block device does with the queue.
\<close>

unbundle bit_operations_syntax

section \<open>Data: \<open>virtio.h\<close>, \<open>struct disk\<close>\<close>

definition NUM :: nat where "NUM = 8"
definition VRING_DESC_F_NEXT :: u16 where "VRING_DESC_F_NEXT = 1"
definition VRING_DESC_F_WRITE :: u16 where "VRING_DESC_F_WRITE = 2"
definition VIRTIO_BLK_T_IN :: u32 where "VIRTIO_BLK_T_IN = 0"
definition VIRTIO_BLK_T_OUT :: u32 where "VIRTIO_BLK_T_OUT = 1"

datatype dma =
    D_null
  | D_op nat        \<comment> \<open>\<open>&disk.ops[i]\<close>\<close>
  | D_data nat      \<comment> \<open>\<open>b->data\<close>\<close>
  | D_status nat    \<comment> \<open>\<open>&disk.info[i].status\<close>\<close>

record virtq_desc =
  vd_addr :: dma
  vd_len :: u32
  vd_flags :: u16
  vd_next :: u16

record virtio_blk_req =
  rq_type :: u32
  rq_reserved :: u32
  rq_sector :: u64

record disk_info =
  di_b :: "nat option"
  di_status :: u8

text \<open>The arrays have \<open>NUM\<close> elements; the rings are indexed modulo \<open>NUM\<close>.\<close>

record vdisk =
  vk_desc :: "nat \<Rightarrow> virtq_desc"
  vk_avail_idx :: u16
  vk_avail :: "nat \<Rightarrow> u16"        \<comment> \<open>\<open>avail->ring\<close>\<close>
  vk_used_didx :: u16             \<comment> \<open>\<open>used->idx\<close>, written by the device\<close>
  vk_used :: "nat \<Rightarrow> u32"         \<comment> \<open>\<open>used->ring[].id\<close>\<close>
  vk_free :: "nat \<Rightarrow> bool"
  vk_used_idx :: u16
  vk_info :: "nat \<Rightarrow> disk_info"
  vk_ops :: "nat \<Rightarrow> virtio_blk_req"

text \<open>The part of \<open>struct buf\<close> that the driver uses, and what processes sleep on.\<close>

record vbuf =
  vb_disk :: bool
  vb_blockno :: u32
  vb_data :: string

datatype vchan = VFree | VBuf nat

record vdrv =
  dr_disk :: vdisk
  dr_buf :: "nat \<Rightarrow> vbuf"
  dr_chan :: "nat \<Rightarrow> vchan option"

definition upd_disk :: "(vdisk \<Rightarrow> vdisk) \<Rightarrow> vdrv \<Rightarrow> vdrv" where
  "upd_disk f d = d\<lparr>dr_disk := f (dr_disk d)\<rparr>"

definition vwakeup :: "vchan \<Rightarrow> vdrv \<Rightarrow> vdrv" where
  "vwakeup c d = d\<lparr>dr_chan := (\<lambda>p. if dr_chan d p = Some c then None else dr_chan d p)\<rparr>"

section \<open>Descriptors\<close>

definition alloc_desc :: "vdrv \<Rightarrow> int \<times> vdrv" where
  "alloc_desc d =
     (case find (\<lambda>i. vk_free (dr_disk d) i) [0..<NUM] of
        None \<Rightarrow> (- 1, d)
      | Some i \<Rightarrow> (int i, upd_disk (\<lambda>k. k\<lparr>vk_free := (vk_free k)(i := False)\<rparr>) d))"

definition desc_zero :: virtq_desc where
  "desc_zero = \<lparr>vd_addr = D_null, vd_len = 0, vd_flags = 0, vd_next = 0\<rparr>"

definition free_desc :: "nat \<Rightarrow> vdrv \<Rightarrow> vdrv option" where
  "free_desc i d =
     (if i \<ge> NUM then panic ''free_desc 1''
      else if vk_free (dr_disk d) i then panic ''free_desc 2''
      else Some (vwakeup VFree
        (upd_disk (\<lambda>k. k\<lparr>vk_desc := (vk_desc k)(i := desc_zero), vk_free := (vk_free k)(i := True)\<rparr>) d)))"

definition in_use :: "vdisk \<Rightarrow> nat set" where
  "in_use k = {i. i < NUM \<and> \<not> vk_free k i}"

lemma free_desc_frees:
  assumes "free_desc i d = Some d'"
  shows "card (in_use (dr_disk d')) < card (in_use (dr_disk d))"
proof -
  have i: "i \<in> in_use (dr_disk d)" "in_use (dr_disk d') = in_use (dr_disk d) - {i}"
    using assms by (auto simp: free_desc_def panic_simps vwakeup_def upd_disk_def in_use_def split: if_splits)
  have "finite (in_use (dr_disk d))" by (simp add: in_use_def)
  then show ?thesis unfolding i(2) by (rule card_Diff1_less [OF _ i(1)])
qed

text \<open>
  The loop ends: it frees one more descriptor at each turn, and stops with a panic at one that is free.
\<close>

function free_chain :: "nat \<Rightarrow> vdrv \<Rightarrow> vdrv option" where
  "free_chain i d =
     (let flag = vd_flags (vk_desc (dr_disk d) i); nxt = vd_next (vk_desc (dr_disk d) i)
      in case free_desc i d of
           None \<Rightarrow> None
         | Some d' \<Rightarrow> if flag AND VRING_DESC_F_NEXT \<noteq> 0 then free_chain (unat nxt) d' else Some d')"
  by pat_completeness auto

termination
  by (relation "measure (\<lambda>(i, d). card (in_use (dr_disk d)))") (auto simp: free_desc_frees)

declare free_chain.simps [simp del]

fun free_all :: "nat list \<Rightarrow> vdrv \<Rightarrow> vdrv option" where
  "free_all [] d = Some d"
| "free_all (i # is) d = do { d \<leftarrow> free_desc i d; free_all is d }"

text \<open>\<open>alloc3_desc\<close>: the loop has \<open>n\<close> turns left, \<open>idx\<close> holds the descriptors allocated so far.\<close>

fun alloc3_loop :: "nat \<Rightarrow> nat list \<Rightarrow> vdrv \<Rightarrow> (int \<times> nat list \<times> vdrv) option" where
  "alloc3_loop 0 idx d = Some (0, idx, d)"
| "alloc3_loop (Suc n) idx d =
     (let (i, d) = alloc_desc d
      in if i < 0 then do { d \<leftarrow> free_all idx d; Some (- 1, idx, d) }
         else alloc3_loop n (idx @ [nat i]) d)"

definition alloc3_desc :: "vdrv \<Rightarrow> (int \<times> nat list \<times> vdrv) option" where
  "alloc3_desc d = alloc3_loop 3 [] d"

section \<open>Requests\<close>

text \<open>\<open>b->blockno * (BSIZE / 512)\<close> is computed in 32 bits and widened.\<close>

definition blk_sector :: "u32 \<Rightarrow> u64" where
  "blk_sector blockno = ucast (blockno * 2)"

definition rw_format :: "nat \<Rightarrow> bool \<Rightarrow> nat \<Rightarrow> nat \<Rightarrow> nat \<Rightarrow> vdrv \<Rightarrow> vdrv" where
  "rw_format b write h i j d =
     upd_disk (\<lambda>k. k\<lparr>
       vk_ops := (vk_ops k)(h := \<lparr>rq_type = (if write then VIRTIO_BLK_T_OUT else VIRTIO_BLK_T_IN), rq_reserved = 0,
                                  rq_sector = blk_sector (vb_blockno (dr_buf d b))\<rparr>),
       vk_desc := (vk_desc k)
         (h := \<lparr>vd_addr = D_op h, vd_len = 16, vd_flags = VRING_DESC_F_NEXT, vd_next = of_nat i\<rparr>,
          i := \<lparr>vd_addr = D_data b, vd_len = of_nat BSIZE,
                vd_flags = (if write then 0 else VRING_DESC_F_WRITE) OR VRING_DESC_F_NEXT, vd_next = of_nat j\<rparr>,
          j := \<lparr>vd_addr = D_status h, vd_len = 1, vd_flags = VRING_DESC_F_WRITE, vd_next = 0\<rparr>),
       vk_info := (vk_info k)(h := \<lparr>di_b = Some b, di_status = 0xff\<rparr>)\<rparr>)
     (d\<lparr>dr_buf := (dr_buf d)(b := (dr_buf d b)\<lparr>vb_disk := True\<rparr>)\<rparr>)"

definition rw_submit :: "nat \<Rightarrow> vdrv \<Rightarrow> vdrv" where
  "rw_submit h d =
     upd_disk (\<lambda>k. k\<lparr>vk_avail := (vk_avail k)(unat (vk_avail_idx k) mod NUM := of_nat h),
                     vk_avail_idx := vk_avail_idx k + 1\<rparr>) d"

definition vsleep :: "nat \<Rightarrow> vchan \<Rightarrow> vdrv \<Rightarrow> vdrv" where
  "vsleep p c d = d\<lparr>dr_chan := (dr_chan d)(p := Some c)\<rparr>"

text \<open>
  One attempt of process \<open>p\<close>: with three descriptors the request is submitted and \<open>p\<close> sleeps on the
  buffer (\<open>Some\<close> the local array \<open>idx\<close>), otherwise \<open>p\<close> sleeps until descriptors are freed.
\<close>

definition rw_enter :: "nat \<Rightarrow> nat \<Rightarrow> bool \<Rightarrow> vdrv \<Rightarrow> (nat list option \<times> vdrv) option" where
  "rw_enter p b write d =
     do { (r, idx, d) \<leftarrow> alloc3_desc d;
          if r = 0
          then
            let d = rw_format b write (idx ! 0) (idx ! 1) (idx ! 2) d
            in Some (Some idx, vsleep p (VBuf b) (rw_submit (idx ! 0) d))
          else Some (None, vsleep p VFree d) }"

text \<open>One turn of \<open>while(b->disk == 1)\<close>: sleep again, or free the chain and return.\<close>

definition rw_wait :: "nat \<Rightarrow> nat \<Rightarrow> nat \<Rightarrow> vdrv \<Rightarrow> (bool \<times> vdrv) option" where
  "rw_wait p b h d =
     (if vb_disk (dr_buf d b) then Some (False, vsleep p (VBuf b) d)
      else do {
        d \<leftarrow> free_chain h (upd_disk (\<lambda>k. k\<lparr>vk_info := (vk_info k)(h := (vk_info k h)\<lparr>di_b := None\<rparr>)\<rparr>) d);
        Some (True, d) })"

lemma u16_closer: "a \<noteq> b \<Longrightarrow> unat (a - (b + 1)) < unat (a - b)" for a b :: u16
proof -
  assume "a \<noteq> b"
  then have "a - b \<noteq> 0" by simp
  then have "unat (a - b - 1) < unat (a - b)" by (rule measure_unat)
  then show ?thesis by (simp add: diff_diff_eq)
qed

function intr_loop :: "vdrv \<Rightarrow> vdrv option" where
  "intr_loop d =
     (let k = dr_disk d
      in if vk_used_idx k = vk_used_didx k then Some d
         else
           let id = unat (vk_used k (unat (vk_used_idx k) mod NUM))
           in if di_status (vk_info k id) \<noteq> 0 then panic ''virtio_disk_intr status''
              else case di_b (vk_info k id) of
                None \<Rightarrow> None
              | Some b \<Rightarrow>
                  intr_loop (upd_disk (\<lambda>k. k\<lparr>vk_used_idx := vk_used_idx k + 1\<rparr>)
                    (vwakeup (VBuf b) (d\<lparr>dr_buf := (dr_buf d)(b := (dr_buf d b)\<lparr>vb_disk := False\<rparr>)\<rparr>))))"
  by pat_completeness auto

termination
  by (relation "measure (\<lambda>d. unat (vk_used_didx (dr_disk d) - vk_used_idx (dr_disk d)))")
    (auto simp: upd_disk_def vwakeup_def u16_closer)

declare intr_loop.simps [simp del]

definition virtio_disk_intr :: "vdrv \<Rightarrow> vdrv option" where
  "virtio_disk_intr d = intr_loop d"

section \<open>Initialisation\<close>

definition VIRTIO_MMIO_MAGIC_VALUE :: u32 where "VIRTIO_MMIO_MAGIC_VALUE = 0x000"
definition VIRTIO_MMIO_VERSION :: u32 where "VIRTIO_MMIO_VERSION = 0x004"
definition VIRTIO_MMIO_DEVICE_ID :: u32 where "VIRTIO_MMIO_DEVICE_ID = 0x008"
definition VIRTIO_MMIO_VENDOR_ID :: u32 where "VIRTIO_MMIO_VENDOR_ID = 0x00c"
definition VIRTIO_MMIO_DEVICE_FEATURES :: u32 where "VIRTIO_MMIO_DEVICE_FEATURES = 0x010"
definition VIRTIO_MMIO_DRIVER_FEATURES :: u32 where "VIRTIO_MMIO_DRIVER_FEATURES = 0x020"
definition VIRTIO_MMIO_QUEUE_SEL :: u32 where "VIRTIO_MMIO_QUEUE_SEL = 0x030"
definition VIRTIO_MMIO_QUEUE_NUM_MAX :: u32 where "VIRTIO_MMIO_QUEUE_NUM_MAX = 0x034"
definition VIRTIO_MMIO_QUEUE_NUM :: u32 where "VIRTIO_MMIO_QUEUE_NUM = 0x038"
definition VIRTIO_MMIO_QUEUE_READY :: u32 where "VIRTIO_MMIO_QUEUE_READY = 0x044"
definition VIRTIO_MMIO_STATUS :: u32 where "VIRTIO_MMIO_STATUS = 0x070"
definition VIRTIO_MMIO_QUEUE_DESC_LOW :: u32 where "VIRTIO_MMIO_QUEUE_DESC_LOW = 0x080"
definition VIRTIO_MMIO_QUEUE_DESC_HIGH :: u32 where "VIRTIO_MMIO_QUEUE_DESC_HIGH = 0x084"
definition VIRTIO_MMIO_DRIVER_DESC_LOW :: u32 where "VIRTIO_MMIO_DRIVER_DESC_LOW = 0x090"
definition VIRTIO_MMIO_DRIVER_DESC_HIGH :: u32 where "VIRTIO_MMIO_DRIVER_DESC_HIGH = 0x094"
definition VIRTIO_MMIO_DEVICE_DESC_LOW :: u32 where "VIRTIO_MMIO_DEVICE_DESC_LOW = 0x0a0"
definition VIRTIO_MMIO_DEVICE_DESC_HIGH :: u32 where "VIRTIO_MMIO_DEVICE_DESC_HIGH = 0x0a4"
definition VIRTIO_CONFIG_S_ACKNOWLEDGE :: u32 where "VIRTIO_CONFIG_S_ACKNOWLEDGE = 1"
definition VIRTIO_CONFIG_S_DRIVER :: u32 where "VIRTIO_CONFIG_S_DRIVER = 2"
definition VIRTIO_CONFIG_S_DRIVER_OK :: u32 where "VIRTIO_CONFIG_S_DRIVER_OK = 4"
definition VIRTIO_CONFIG_S_FEATURES_OK :: u32 where "VIRTIO_CONFIG_S_FEATURES_OK = 8"

text \<open>The feature bits that the driver turns off: RO, SCSI, CONFIG_WCE, MQ, ANY_LAYOUT, EVENT_IDX, INDIRECT_DESC.\<close>

definition features_off :: "nat list" where
  "features_off = [5, 7, 11, 12, 27, 29, 28]"

text \<open>\<open>struct disk\<close> after the queue pages are cleared and all descriptors marked free.\<close>

definition vdisk_init :: vdisk where
  "vdisk_init = \<lparr>vk_desc = (\<lambda>_. desc_zero), vk_avail_idx = 0, vk_avail = (\<lambda>_. 0), vk_used_didx = 0, vk_used = (\<lambda>_. 0),
     vk_free = (\<lambda>i. i < NUM), vk_used_idx = 0, vk_info = (\<lambda>_. \<lparr>di_b = None, di_status = 0\<rparr>),
     vk_ops = (\<lambda>_. \<lparr>rq_type = 0, rq_reserved = 0, rq_sector = 0\<rparr>)\<rparr>"

text \<open>
  \<open>R ws r\<close> is what register \<open>r\<close> reads after the writes \<open>ws\<close>.  The result has all register writes in order, the driver's
  state and the kernel after the three page allocations.
\<close>

definition virtio_disk_init ::
    "((u32 \<times> u32) list \<Rightarrow> u32 \<Rightarrow> u32) \<Rightarrow> kernel \<Rightarrow> ((u32 \<times> u32) list \<times> vdisk \<times> kernel) option" where
  "virtio_disk_init R k =
     (if R [] VIRTIO_MMIO_MAGIC_VALUE \<noteq> 0x74726976 \<or> R [] VIRTIO_MMIO_VERSION \<noteq> 2 \<or>
         R [] VIRTIO_MMIO_DEVICE_ID \<noteq> 2 \<or> R [] VIRTIO_MMIO_VENDOR_ID \<noteq> 0x554d4551
      then panic ''could not find virtio disk''
      else
        let s1 = VIRTIO_CONFIG_S_ACKNOWLEDGE;
            s2 = s1 OR VIRTIO_CONFIG_S_DRIVER;
            ws = [(VIRTIO_MMIO_STATUS, 0), (VIRTIO_MMIO_STATUS, s1), (VIRTIO_MMIO_STATUS, s2)];
            features = fold unset_bit features_off (R ws VIRTIO_MMIO_DEVICE_FEATURES);
            ws = ws @ [(VIRTIO_MMIO_DRIVER_FEATURES, features), (VIRTIO_MMIO_STATUS, s2 OR VIRTIO_CONFIG_S_FEATURES_OK)];
            status = R ws VIRTIO_MMIO_STATUS
        in if status AND VIRTIO_CONFIG_S_FEATURES_OK = 0 then panic ''virtio disk FEATURES_OK unset''
           else
             let ws = ws @ [(VIRTIO_MMIO_QUEUE_SEL, 0)]
             in if R ws VIRTIO_MMIO_QUEUE_READY \<noteq> 0 then panic ''virtio disk should not be ready''
                else if R ws VIRTIO_MMIO_QUEUE_NUM_MAX = 0 then panic ''virtio disk has no queue 0''
                else if unat (R ws VIRTIO_MMIO_QUEUE_NUM_MAX) < NUM then panic ''virtio disk max queue too short''
                else
                  let (desc, k) = kalloc k; (avail, k) = kalloc k; (used, k) = kalloc k
                  in if desc = 0 \<or> avail = 0 \<or> used = 0 then panic ''virtio disk kalloc''
                     else Some
                       (ws @ [(VIRTIO_MMIO_QUEUE_NUM, of_nat NUM),
                          (VIRTIO_MMIO_QUEUE_DESC_LOW, ucast desc), (VIRTIO_MMIO_QUEUE_DESC_HIGH, ucast (drop_bit 32 desc)),
                          (VIRTIO_MMIO_DRIVER_DESC_LOW, ucast avail), (VIRTIO_MMIO_DRIVER_DESC_HIGH, ucast (drop_bit 32 avail)),
                          (VIRTIO_MMIO_DEVICE_DESC_LOW, ucast used), (VIRTIO_MMIO_DEVICE_DESC_HIGH, ucast (drop_bit 32 used)),
                          (VIRTIO_MMIO_QUEUE_READY, 1), (VIRTIO_MMIO_STATUS, status OR VIRTIO_CONFIG_S_DRIVER_OK)],
                        vdisk_init, zero_page used (zero_page avail (zero_page desc k))))"

section \<open>Device and interleaving\<close>

text \<open>
  Where a process is: not in the driver, waiting for descriptors, or waiting for its request (with the local
  array \<open>idx\<close>).  The device has taken the available ring up to \<open>vs_last\<close>, works on \<open>vs_work\<close> in any order, and
  stores sectors of 512 bytes.
\<close>

datatype vphase = VIdle | VWant nat bool | VWait nat bool nat nat nat

record vsys =
  vs_drv :: vdrv
  vs_medium :: "u64 \<Rightarrow> string"
  vs_last :: u16
  vs_work :: "nat list"
  vs_phase :: "nat \<Rightarrow> vphase"

abbreviation dsk :: "vsys \<Rightarrow> vdisk" where
  "dsk s \<equiv> dr_disk (vs_drv s)"

definition dev_take :: "vsys \<Rightarrow> vsys" where
  "dev_take s =
     s\<lparr>vs_work := vs_work s @ [unat (vk_avail (dsk s) (unat (vs_last s) mod NUM))], vs_last := vs_last s + 1\<rparr>"

text \<open>
  The device carries out the chain at \<open>h\<close>: a header, one data buffer of \<open>BSIZE\<close> bytes that is writable exactly for reads, a status byte.
  It then reports \<open>h\<close> in the used ring.
\<close>

definition dev_report :: "nat \<Rightarrow> nat \<Rightarrow> vdisk \<Rightarrow> vdisk" where
  "dev_report h st k =
     k\<lparr>vk_info := (vk_info k)(st := (vk_info k st)\<lparr>di_status := 0\<rparr>),
       vk_used := (vk_used k)(unat (vk_used_didx k) mod NUM := of_nat h), vk_used_didx := vk_used_didx k + 1\<rparr>"

definition dev_exec :: "nat \<Rightarrow> vsys \<Rightarrow> vsys option" where
  "dev_exec h s =
     (let k = dsk s;
          d0 = vk_desc k h; d1 = vk_desc k (unat (vd_next d0)); d2 = vk_desc k (unat (vd_next d1))
      in if vd_flags d0 AND VRING_DESC_F_NEXT = 0 \<or> vd_flags d1 AND VRING_DESC_F_NEXT = 0 \<or> vd_len d1 \<noteq> of_nat BSIZE then None
         else
           (case (vd_addr d0, vd_addr d1, vd_addr d2) of
              (D_op ix, D_data b, D_status st) \<Rightarrow>
                let rq = vk_ops k ix; sec = rq_sector rq; bf = dr_buf (vs_drv s) b;
                    drv = upd_disk (dev_report h st) (vs_drv s)
                in if rq_type rq = VIRTIO_BLK_T_IN \<and> vd_flags d1 AND VRING_DESC_F_WRITE \<noteq> 0
                   then Some (s\<lparr>vs_work := remove1 h (vs_work s),
                     vs_drv := drv\<lparr>dr_buf := (dr_buf drv)(b := bf\<lparr>vb_data := vs_medium s sec @ vs_medium s (sec + 1)\<rparr>)\<rparr>\<rparr>)
                   else if rq_type rq = VIRTIO_BLK_T_OUT \<and> vd_flags d1 AND VRING_DESC_F_WRITE = 0
                   then Some (s\<lparr>vs_work := remove1 h (vs_work s), vs_drv := drv,
                     vs_medium := (vs_medium s)(sec := take 512 (vb_data bf), sec + 1 := drop 512 (vb_data bf))\<rparr>)
                   else None
            | _ \<Rightarrow> None))"

definition busy_buf :: "vsys \<Rightarrow> nat \<Rightarrow> nat option" where
  "busy_buf s p = (case vs_phase s p of VIdle \<Rightarrow> None | VWant b w \<Rightarrow> Some b | VWait b w h i j \<Rightarrow> Some b)"

text \<open>
  A buffer that no process is transferring, and whose block nobody else transfers: what the sleep lock of the
  buffer and the uniqueness of cached blocks guarantee to the caller.
\<close>

definition bufs_apart :: "vdrv \<Rightarrow> nat \<Rightarrow> nat \<Rightarrow> bool" where
  "bufs_apart d b b' \<longleftrightarrow> b \<noteq> b' \<and> vb_blockno (dr_buf d b) \<noteq> vb_blockno (dr_buf d b')"

definition buf_mine :: "vsys \<Rightarrow> nat \<Rightarrow> bool" where
  "buf_mine s b \<longleftrightarrow> (\<forall>q b'. busy_buf s q = Some b' \<longrightarrow> bufs_apart (vs_drv s) b' b)"

definition buf_ok :: "vbuf \<Rightarrow> bool" where
  "buf_ok bf \<longleftrightarrow> length (vb_data bf) = BSIZE \<and> vb_blockno bf < 2 ^ 31"

inductive vstep :: "vsys \<Rightarrow> vsys \<Rightarrow> bool" where
  v_call: "vs_phase s p = VIdle \<Longrightarrow> buf_mine s b \<Longrightarrow> buf_ok (dr_buf (vs_drv s) b) \<Longrightarrow>
    vstep s (s\<lparr>vs_phase := (vs_phase s)(p := VWant b w)\<rparr>)"
| v_enter: "vs_phase s p = VWant b w \<Longrightarrow> dr_chan (vs_drv s) p = None \<Longrightarrow> rw_enter p b w (vs_drv s) = Some (r, d) \<Longrightarrow>
    vstep s (s\<lparr>vs_drv := d, vs_phase := (vs_phase s)(p :=
      (case r of None \<Rightarrow> VWant b w | Some idx \<Rightarrow> VWait b w (idx ! 0) (idx ! 1) (idx ! 2)))\<rparr>)"
| v_wait: "vs_phase s p = VWait b w h i j \<Longrightarrow> dr_chan (vs_drv s) p = None \<Longrightarrow> rw_wait p b h (vs_drv s) = Some (fin, d) \<Longrightarrow>
    vstep s (s\<lparr>vs_drv := d, vs_phase := (vs_phase s)(p := (if fin then VIdle else VWait b w h i j))\<rparr>)"
| v_intr: "virtio_disk_intr (vs_drv s) = Some d \<Longrightarrow> vstep s (s\<lparr>vs_drv := d\<rparr>)"
| v_take: "vs_last s \<noteq> vk_avail_idx (dsk s) \<Longrightarrow> vstep s (dev_take s)"
| v_exec: "h \<in> set (vs_work s) \<Longrightarrow> dev_exec h s = Some s' \<Longrightarrow> vstep s s'"
| v_edit: "buf_mine s b \<Longrightarrow> vb_disk bf = vb_disk (dr_buf (vs_drv s) b) \<Longrightarrow>
    (\<forall>q b'. busy_buf s q = Some b' \<longrightarrow> vb_blockno (dr_buf (vs_drv s) b') \<noteq> vb_blockno bf) \<Longrightarrow>
    vstep s (s\<lparr>vs_drv := (vs_drv s)\<lparr>dr_buf := (dr_buf (vs_drv s))(b := bf)\<rparr>\<rparr>)"
| v_wake: "vstep s (s\<lparr>vs_drv := (vs_drv s)\<lparr>dr_chan := (dr_chan (vs_drv s))(p := None)\<rparr>\<rparr>)"

inductive vreach :: "vsys \<Rightarrow> vsys \<Rightarrow> bool" for s0 where
  vr_init: "vreach s0 s0"
| vr_step: "vreach s0 s \<Longrightarrow> vstep s s' \<Longrightarrow> vreach s0 s'"

section \<open>Rings\<close>

definition seg :: "(nat \<Rightarrow> 'a :: len word) \<Rightarrow> u16 \<Rightarrow> u16 \<Rightarrow> nat list" where
  "seg r a b = map (\<lambda>n. unat (r (unat (a + of_nat n) mod NUM))) [0..<unat (b - a)]"

lemma seg_empty [simp]: "seg r a a = []"
  by (simp add: seg_def)

lemma seg_pop: "a \<noteq> b \<Longrightarrow> seg r a b = unat (r (unat a mod NUM)) # seg r (a + 1) b"
proof -
  assume "a \<noteq> b"
  then have ne: "b - a \<noteq> 0" by simp
  have e: "b - (a + 1) = b - a - 1" by (simp add: diff_diff_eq)
  have n: "unat (b - a) = Suc (unat (b - (a + 1)))"
    unfolding e using unat_minus_one [OF ne] measure_unat [OF ne] by linarith
  have "[0..<unat (b - a)] = 0 # map Suc [0..<unat (b - (a + 1))]" unfolding n by (simp add: map_Suc_upt upt_conv_Cons del: upt_Suc)
  then show ?thesis by (simp add: seg_def o_def add.assoc)
qed

lemma ring_slot: "unat (a + of_nat n) mod NUM = (unat a + n) mod NUM" for a :: u16
proof -
  have "unat (a + of_nat n) = (unat a + n) mod 65536"
    by (simp add: unat_word_ariths unat_of_nat mod_simps)
  then show ?thesis by (simp add: NUM_def mod_mod_cancel)
qed

lemma ring_index:
  fixes a b :: u16
  assumes "unat (b - a) < NUM" "n < unat (b - a)"
  shows "unat (a + of_nat n) mod NUM \<noteq> unat b mod NUM"
  using ring_distinct [OF assms(2,1), of "unat a"] ring_slot [of a n] ring_slot [of a "unat (b - a)"] by simp

lemma seg_push:
  assumes "unat (b - a) < NUM" "unat x = n"
  shows "seg (r(unat b mod NUM := x)) a (b + 1) = seg r a b @ [n]"
proof -
  have e: "b + 1 - a = (b - a) + 1" by simp
  have "unat (b + 1 - a) = Suc (unat (b - a))" unfolding e using assms(1) by (simp add: unat_word_ariths NUM_def)
  moreover have "unat (a + of_nat (unat (b - a))) mod NUM = unat b mod NUM" by simp
  ultimately show ?thesis using ring_index [OF assms(1)] assms(2) by (simp add: seg_def)
qed

lemma length_seg [simp]: "length (seg r a b) = unat (b - a)"
  by (simp add: seg_def)

section \<open>Invariant\<close>

definition pending :: "vsys \<Rightarrow> nat list" where
  "pending s = seg (vk_avail (dsk s)) (vs_last s) (vk_avail_idx (dsk s))"

definition completed :: "vsys \<Rightarrow> nat list" where
  "completed s = seg (vk_used (dsk s)) (vk_used_idx (dsk s)) (vk_used_didx (dsk s))"

definition inflight :: "vsys \<Rightarrow> nat list" where
  "inflight s = pending s @ vs_work s @ completed s"

definition chain :: "vsys \<Rightarrow> nat \<Rightarrow> nat set" where
  "chain s p = (case vs_phase s p of VWait b w h i j \<Rightarrow> {h, i, j} | _ \<Rightarrow> {})"

text \<open>What the driver has set up for a request.\<close>

definition req_ok :: "vdisk \<Rightarrow> vbuf \<Rightarrow> nat \<Rightarrow> bool \<Rightarrow> nat \<Rightarrow> nat \<Rightarrow> nat \<Rightarrow> bool" where
  "req_ok k bf b w h i j \<longleftrightarrow> h < NUM \<and> i < NUM \<and> j < NUM \<and> distinct [h, i, j] \<and>
     vk_desc k h = \<lparr>vd_addr = D_op h, vd_len = 16, vd_flags = VRING_DESC_F_NEXT, vd_next = of_nat i\<rparr> \<and>
     vk_desc k i = \<lparr>vd_addr = D_data b, vd_len = of_nat BSIZE,
       vd_flags = (if w then 0 else VRING_DESC_F_WRITE) OR VRING_DESC_F_NEXT, vd_next = of_nat j\<rparr> \<and>
     vk_desc k j = \<lparr>vd_addr = D_status h, vd_len = 1, vd_flags = VRING_DESC_F_WRITE, vd_next = 0\<rparr> \<and>
     vk_ops k h = \<lparr>rq_type = (if w then VIRTIO_BLK_T_OUT else VIRTIO_BLK_T_IN), rq_reserved = 0,
       rq_sector = blk_sector (vb_blockno bf)\<rparr> \<and>
     di_b (vk_info k h) = Some b"

text \<open>The contents of a block on the medium, and that a buffer agrees with it.\<close>

definition disk_block :: "vsys \<Rightarrow> u32 \<Rightarrow> string" where
  "disk_block s blockno = vs_medium s (blk_sector blockno) @ vs_medium s (blk_sector blockno + 1)"

definition transferred :: "vsys \<Rightarrow> nat \<Rightarrow> bool" where
  "transferred s b \<longleftrightarrow> vb_data (dr_buf (vs_drv s) b) = disk_block s (vb_blockno (dr_buf (vs_drv s) b))"

definition wait_ok :: "vsys \<Rightarrow> nat \<Rightarrow> bool \<Rightarrow> nat \<Rightarrow> nat \<Rightarrow> nat \<Rightarrow> bool" where
  "wait_ok s b w h i j \<longleftrightarrow> req_ok (dsk s) (dr_buf (vs_drv s) b) b w h i j \<and>
     (vb_disk (dr_buf (vs_drv s) b) \<longleftrightarrow> h \<in> set (inflight s)) \<and>
     (h \<notin> set (pending s) \<union> set (vs_work s) \<longrightarrow> transferred s b) \<and>
     (h \<in> set (completed s) \<longrightarrow> di_status (vk_info (dsk s) h) = 0)"

definition free_descs :: "vdisk \<Rightarrow> nat set" where
  "free_descs k = {i. i < NUM \<and> vk_free k i}"

definition sleep_ok :: "vsys \<Rightarrow> nat \<Rightarrow> bool" where
  "sleep_ok s p \<longleftrightarrow>
     (dr_chan (vs_drv s) p = Some VFree \<longrightarrow> (\<exists>b w. vs_phase s p = VWant b w) \<and> card (free_descs (dsk s)) < 3) \<and>
     (\<forall>b. dr_chan (vs_drv s) p = Some (VBuf b) \<longrightarrow>
        (\<exists>w h i j. vs_phase s p = VWait b w h i j) \<and> vb_disk (dr_buf (vs_drv s) b))"

definition vinv :: "vsys \<Rightarrow> bool" where
  "vinv s \<longleftrightarrow>
     (\<forall>p b w h i j. vs_phase s p = VWait b w h i j \<longrightarrow> wait_ok s b w h i j) \<and>
     in_use (dsk s) = (\<Union>p. chain s p) \<and>
     (\<forall>p q. p \<noteq> q \<longrightarrow> chain s p \<inter> chain s q = {}) \<and>
     (\<forall>p q b b'. p \<noteq> q \<longrightarrow> busy_buf s p = Some b \<longrightarrow> busy_buf s q = Some b' \<longrightarrow>
        bufs_apart (vs_drv s) b b') \<and>
     (\<forall>p b. busy_buf s p = Some b \<longrightarrow> buf_ok (dr_buf (vs_drv s) b)) \<and>
     distinct (inflight s) \<and> (\<forall>h \<in> set (inflight s). \<exists>p b w i j. vs_phase s p = VWait b w h i j) \<and>
     (\<forall>p. sleep_ok s p) \<and> (\<forall>x. length (vs_medium s x) = 512)"

section \<open>Allocating and freeing descriptors\<close>

text \<open>\<open>d'\<close> is \<open>d\<close> with the descriptors \<open>xs\<close> cleared and freed, and the waiting processes woken.\<close>

definition freed :: "vdrv \<Rightarrow> nat list \<Rightarrow> vdrv \<Rightarrow> bool" where
  "freed d xs d' \<longleftrightarrow> dr_buf d' = dr_buf d \<and>
     dr_disk d' = (dr_disk d)\<lparr>vk_desc := (\<lambda>x. if x \<in> set xs then desc_zero else vk_desc (dr_disk d) x),
       vk_free := (\<lambda>x. x \<in> set xs \<or> vk_free (dr_disk d) x)\<rparr> \<and>
     dr_chan d' = (\<lambda>p. if xs \<noteq> [] \<and> dr_chan d p = Some VFree then None else dr_chan d p)"

lemma freed_trans: "freed d xs d1 \<Longrightarrow> freed d1 ys d2 \<Longrightarrow> freed d (xs @ ys) d2"
  unfolding freed_def by (auto simp: fun_eq_iff intro!: vdisk.equality)

lemma free_desc_freed: "i \<in> in_use (dr_disk d) \<Longrightarrow> \<exists>d'. free_desc i d = Some d' \<and> freed d [i] d'"
  by (auto simp: free_desc_def in_use_def freed_def vwakeup_def upd_disk_def fun_eq_iff intro!: vdisk.equality)

lemma freed_in_use: "freed d xs d' \<Longrightarrow> in_use (dr_disk d') = in_use (dr_disk d) - set xs"
  by (auto simp: freed_def in_use_def)

lemma free_all_freed:
  "distinct xs \<Longrightarrow> set xs \<subseteq> in_use (dr_disk d) \<Longrightarrow> \<exists>d'. free_all xs d = Some d' \<and> freed d xs d'"
proof (induction xs arbitrary: d)
  case Nil
  then show ?case by (simp add: freed_def)
next
  case (Cons x xs)
  obtain d1 where d1: "free_desc x d = Some d1" "freed d [x] d1" using free_desc_freed Cons.prems by fastforce
  then have "set xs \<subseteq> in_use (dr_disk d1)" using Cons.prems freed_in_use by fastforce
  then obtain d2 where "free_all xs d1 = Some d2" "freed d1 xs d2" using Cons.IH [of d1] Cons.prems(1) by auto
  then show ?case using d1 freed_trans [OF d1(2)] by fastforce
qed

lemma free_chain_freed:
  assumes "req_ok k bf b w h i j" "{h, i, j} \<subseteq> in_use (dr_disk d)" "vk_desc (dr_disk d) = vk_desc k"
  shows "\<exists>d'. free_chain h d = Some d' \<and> freed d [h, i, j] d'"
proof -
  note r = assms(1) [unfolded req_ok_def, folded assms(3)]
  have small: "unat (of_nat i :: u16) = i" "unat (of_nat j :: u16) = j"
    using r by (auto simp: NUM_def unat_of_nat)
  obtain d1 where d1: "free_desc h d = Some d1" "freed d [h] d1" using free_desc_freed assms(2) by blast
  then obtain d2 where d2: "free_desc i d1 = Some d2" "freed d1 [i] d2"
    using free_desc_freed [of i d1] freed_in_use [of d "[h]" d1] assms(2) r by auto
  then obtain d3 where d3: "free_desc j d2 = Some d3" "freed d2 [j] d3"
    using free_desc_freed [of j d2] freed_in_use [of d "[h]" d1] freed_in_use [of d1 "[i]" d2] d1 assms(2) r by auto
  have f: "freed d [h, i] d2" using freed_trans [OF d1(2) d2(2)] by simp
  have f3: "freed d [h, i, j] d3" using freed_trans [OF f d3(2)] by simp
  have desc: "vk_desc (dr_disk d1) i = vk_desc (dr_disk d) i" "vk_desc (dr_disk d2) j = vk_desc (dr_disk d) j"
    using d1(2) f r by (auto simp: freed_def)
  have flags: "VRING_DESC_F_NEXT AND VRING_DESC_F_NEXT \<noteq> 0" "((if w then 0 else VRING_DESC_F_WRITE) OR VRING_DESC_F_NEXT) AND VRING_DESC_F_NEXT \<noteq> 0"
    "VRING_DESC_F_WRITE AND VRING_DESC_F_NEXT = 0"
    by (simp_all add: VRING_DESC_F_NEXT_def VRING_DESC_F_WRITE_def)
  have "free_chain j d2 = Some d3" using r d3(1) desc(2) flags by (subst free_chain.simps) (simp add: Let_def)
  then have "free_chain i d1 = Some d3" using r d2(1) desc(1) flags small by (subst free_chain.simps) (simp add: Let_def)
  then have "free_chain h d = Some d3" using r d1(1) flags small by (subst free_chain.simps) (simp add: Let_def)
  then show ?thesis using f3 by blast
qed

definition taken :: "nat list \<Rightarrow> vdrv \<Rightarrow> vdrv" where
  "taken xs d = upd_disk (\<lambda>k. k\<lparr>vk_free := (\<lambda>x. x \<notin> set xs \<and> vk_free k x)\<rparr>) d"

lemma freed_taken: "freed (taken xs d) xs d' \<Longrightarrow> freed d xs d'"
  unfolding freed_def taken_def upd_disk_def by (simp cong: if_cong) (auto intro!: vdisk.equality simp: fun_eq_iff)

lemma alloc_desc_taken:
  "set xs \<inter> free_descs (dr_disk d) = set xs \<Longrightarrow>
   (if free_descs (dr_disk d) \<subseteq> set xs then alloc_desc (taken xs d) = (- 1, taken xs d)
    else \<exists>i \<in> free_descs (dr_disk d) - set xs. alloc_desc (taken xs d) = (int i, taken (xs @ [i]) d))"
proof -
  assume xs: "set xs \<inter> free_descs (dr_disk d) = set xs"
  let ?P = "\<lambda>i. i \<notin> set xs \<and> vk_free (dr_disk d) i"
  have free: "(\<lambda>i. vk_free (dr_disk (taken xs d)) i) = ?P" by (simp add: taken_def upd_disk_def)
  have a: "alloc_desc (taken xs d) = (case find ?P [0..<NUM] of
        None \<Rightarrow> (- 1, taken xs d)
      | Some i \<Rightarrow> (int i, upd_disk (\<lambda>k. k\<lparr>vk_free := (vk_free k)(i := False)\<rparr>) (taken xs d)))"
    unfolding alloc_desc_def free by (rule refl)
  show ?thesis
  proof (cases "find ?P [0..<NUM]")
    case None
    then have "free_descs (dr_disk d) \<subseteq> set xs" by (auto simp: find_None_iff free_descs_def)
    then show ?thesis using None a by simp
  next
    case (Some i)
    then have i: "i < NUM" "?P i" by (auto simp: find_Some_iff)
    have "upd_disk (\<lambda>k. k\<lparr>vk_free := (vk_free k)(i := False)\<rparr>) (taken xs d) = taken (xs @ [i]) d"
      by (auto simp: taken_def upd_disk_def fun_eq_iff intro!: vdrv.equality vdisk.equality)
    then show ?thesis using Some a i by (auto simp: free_descs_def)
  qed
qed

lemma alloc3_spec:
  "(\<exists>h i j. alloc3_desc d = Some (0, [h, i, j], taken [h, i, j] d) \<and> distinct [h, i, j] \<and> {h, i, j} \<subseteq> free_descs (dr_disk d)) \<or>
   (\<exists>idx d'. alloc3_desc d = Some (- 1, idx, d') \<and> card (free_descs (dr_disk d)) < 3 \<and> set idx \<subseteq> free_descs (dr_disk d) \<and> freed d idx d')"
proof -
  let ?F = "free_descs (dr_disk d)"
  have fail: "\<exists>d'. free_all xs (taken xs d) = Some d' \<and> freed d xs d'" if xs: "distinct xs" "set xs \<subseteq> ?F" for xs
  proof -
    have "set xs \<subseteq> in_use (dr_disk (taken xs d))" using xs by (auto simp: in_use_def free_descs_def taken_def upd_disk_def)
    then obtain d' where "free_all xs (taken xs d) = Some d'" "freed (taken xs d) xs d'" using free_all_freed [OF xs(1)] by blast
    then show ?thesis using freed_taken by blast
  qed
  have few: "card ?F < 3" if "?F \<subseteq> set xs" "length xs < 3" for xs
    using card_mono [OF _ that(1)] card_length [of xs] that(2) by simp
  have nil: "taken [] d = d" by (simp add: taken_def upd_disk_def)
  show ?thesis
  proof (cases "?F \<subseteq> {}")
    case True
    then show ?thesis using alloc_desc_taken [of "[]" d] fail [of "[]"] few [of "[]"] nil
      by (auto simp: alloc3_desc_def numeral_3_eq_3 freed_def)
  next
    case f1: False
    then obtain h where h: "h \<in> ?F" "alloc_desc d = (int h, taken [h] d)"
      using alloc_desc_taken [of "[]" d] nil by auto
    show ?thesis
    proof (cases "?F \<subseteq> {h}")
      case True
      have "distinct [h]" "set [h] \<subseteq> ?F" using h by simp_all
      from fail [OF this] obtain d' where d': "free_all [h] (taken [h] d) = Some d'" "freed d [h] d'" by blast
      have "alloc3_desc d = Some (- 1, [h], d')"
        using alloc_desc_taken [of "[h]" d] True h d'(1) by (simp add: alloc3_desc_def numeral_3_eq_3 del: free_all.simps)
      then show ?thesis using d'(2) few [of "[h]"] True h(1) by auto
    next
      case False
      then obtain i where i: "i \<in> ?F" "i \<noteq> h" "alloc_desc (taken [h] d) = (int i, taken [h, i] d)"
        using alloc_desc_taken [of "[h]" d] h(1) by auto
      show ?thesis
      proof (cases "?F \<subseteq> {h, i}")
        case True
        have "distinct [h, i]" "set [h, i] \<subseteq> ?F" using h i by simp_all
        from fail [OF this] obtain d' where d': "free_all [h, i] (taken [h, i] d) = Some d'" "freed d [h, i] d'" by blast
        have "alloc3_desc d = Some (- 1, [h, i], d')"
          using alloc_desc_taken [of "[h, i]" d] True h i d'(1) by (simp add: alloc3_desc_def numeral_3_eq_3 del: free_all.simps)
        then show ?thesis using d'(2) few [of "[h, i]"] True h(1) i(1) by auto
      next
        case False
        then obtain j where "j \<in> ?F" "j \<noteq> h" "j \<noteq> i" "alloc_desc (taken [h, i] d) = (int j, taken [h, i, j] d)"
          using alloc_desc_taken [of "[h, i]" d] h(1) i(1) by auto
        then show ?thesis using h i by (auto simp: alloc3_desc_def numeral_3_eq_3)
      qed
    qed
  qed
qed

section \<open>The invariant is kept\<close>

lemma bufs_apart_sym: "bufs_apart d b b' \<Longrightarrow> bufs_apart d b' b"
  by (auto simp: bufs_apart_def)

lemma vinvD:
  assumes "vinv s"
  shows "vs_phase s p = VWait b w h i j \<Longrightarrow> wait_ok s b w h i j" "in_use (dsk s) = (\<Union>p. chain s p)"
    "p \<noteq> q \<Longrightarrow> chain s p \<inter> chain s q = {}"
    "p \<noteq> q \<Longrightarrow> busy_buf s p = Some b \<Longrightarrow> busy_buf s q = Some b' \<Longrightarrow>
       bufs_apart (vs_drv s) b b'"
    "busy_buf s p = Some b \<Longrightarrow> buf_ok (dr_buf (vs_drv s) b)" "distinct (inflight s)"
    "h \<in> set (inflight s) \<Longrightarrow> \<exists>p b w i j. vs_phase s p = VWait b w h i j" "sleep_ok s p" "length (vs_medium s x) = 512"
proof -
  note v = assms [unfolded vinv_def]
  note v2 = v [THEN conjunct2] and v3 = v [THEN conjunct2, THEN conjunct2] and v4 = v [THEN conjunct2, THEN conjunct2, THEN conjunct2]
  note v5 = v4 [THEN conjunct2] and v6 = v4 [THEN conjunct2, THEN conjunct2] and v7 = v4 [THEN conjunct2, THEN conjunct2, THEN conjunct2]
  show "vs_phase s p = VWait b w h i j \<Longrightarrow> wait_ok s b w h i j" by (rule v [THEN conjunct1, rule_format])
  show "in_use (dsk s) = (\<Union>p. chain s p)" by (rule v2 [THEN conjunct1])
  show "p \<noteq> q \<Longrightarrow> chain s p \<inter> chain s q = {}" by (rule v3 [THEN conjunct1, rule_format])
  show "p \<noteq> q \<Longrightarrow> busy_buf s p = Some b \<Longrightarrow> busy_buf s q = Some b' \<Longrightarrow>
       bufs_apart (vs_drv s) b b'"
    by (rule v4 [THEN conjunct1, rule_format])
  show "busy_buf s p = Some b \<Longrightarrow> buf_ok (dr_buf (vs_drv s) b)" by (rule v5 [THEN conjunct1, rule_format])
  show "distinct (inflight s)" by (rule v6 [THEN conjunct1])
  show "h \<in> set (inflight s) \<Longrightarrow> \<exists>p b w i j. vs_phase s p = VWait b w h i j" by (rule v7 [THEN conjunct1, rule_format])
  show "sleep_ok s p" by (rule v7 [THEN conjunct2, THEN conjunct1, rule_format])
  show "length (vs_medium s x) = 512" by (rule v7 [THEN conjunct2, THEN conjunct2, rule_format])
qed

lemma vinvI:
  assumes "\<And>p b w h i j. vs_phase s p = VWait b w h i j \<Longrightarrow> wait_ok s b w h i j" "in_use (dsk s) = (\<Union>p. chain s p)"
    "\<And>p q. p \<noteq> q \<Longrightarrow> chain s p \<inter> chain s q = {}"
    "\<And>p q b b'. p \<noteq> q \<Longrightarrow> busy_buf s p = Some b \<Longrightarrow> busy_buf s q = Some b' \<Longrightarrow>
       bufs_apart (vs_drv s) b b'"
    "\<And>p b. busy_buf s p = Some b \<Longrightarrow> buf_ok (dr_buf (vs_drv s) b)" "distinct (inflight s)"
    "\<And>h. h \<in> set (inflight s) \<Longrightarrow> \<exists>p b w i j. vs_phase s p = VWait b w h i j" "\<And>p. sleep_ok s p"
    "\<And>x. length (vs_medium s x) = 512"
  shows "vinv s"
  unfolding vinv_def by (intro conjI allI impI ballI) (rule assms; assumption)+

text \<open>A request is not affected by a change elsewhere.\<close>

lemma wait_ok_cong:
  assumes "wait_ok s b w h i j" "\<And>x. x \<in> {h, i, j} \<Longrightarrow> vk_desc (dsk s') x = vk_desc (dsk s) x"
    "vk_ops (dsk s') h = vk_ops (dsk s) h" "di_b (vk_info (dsk s') h) = di_b (vk_info (dsk s) h)"
    "dr_buf (vs_drv s') b = dr_buf (vs_drv s) b"
    "disk_block s' (vb_blockno (dr_buf (vs_drv s) b)) = disk_block s (vb_blockno (dr_buf (vs_drv s) b))"
    "h \<in> set (inflight s') \<longleftrightarrow> h \<in> set (inflight s)"
    "h \<in> set (pending s) \<union> set (vs_work s) \<Longrightarrow> h \<in> set (pending s') \<union> set (vs_work s')"
    "h \<in> set (completed s') \<Longrightarrow> h \<in> set (completed s) \<and> di_status (vk_info (dsk s') h) = di_status (vk_info (dsk s) h)"
  shows "wait_ok s' b w h i j"
  using assms unfolding wait_ok_def req_ok_def transferred_def by auto

lemma waiting_unique:
  assumes "vinv s" "vs_phase s p = VWait b w h i j" "vs_phase s q = VWait b' w' h' i' j'" "p \<noteq> q"
  shows "{h, i, j} \<inter> {h', i', j'} = {}" "b \<noteq> b'" "vb_blockno (dr_buf (vs_drv s) b) \<noteq> vb_blockno (dr_buf (vs_drv s) b')"
proof -
  have "chain s p \<inter> chain s q = {}" "busy_buf s p = Some b" "busy_buf s q = Some b'"
    using vinvD(3) [OF assms(1,4)] assms(2,3) by (auto simp: busy_buf_def)
  then show "{h, i, j} \<inter> {h', i', j'} = {}" "b \<noteq> b'" "vb_blockno (dr_buf (vs_drv s) b) \<noteq> vb_blockno (dr_buf (vs_drv s) b')"
    using assms(2,3) vinvD(4) [OF assms(1,4)] by (auto simp: chain_def bufs_apart_def)
qed

lemma waiting_chain:
  assumes "vinv s" "vs_phase s p = VWait b w h i j"
  shows "{h, i, j} \<subseteq> in_use (dsk s)" "busy_buf s p = Some b"
proof -
  have "chain s p = {h, i, j}" "busy_buf s p = Some b" using assms(2) by (simp_all add: chain_def busy_buf_def)
  then show "{h, i, j} \<subseteq> in_use (dsk s)" "busy_buf s p = Some b" using vinvD(2) [OF assms(1)] by auto
qed

lemma phase_simps [simp]:
  "pending (s\<lparr>vs_phase := f\<rparr>) = pending s" "completed (s\<lparr>vs_phase := f\<rparr>) = completed s"
  "inflight (s\<lparr>vs_phase := f\<rparr>) = inflight s" "disk_block (s\<lparr>vs_phase := f\<rparr>) b = disk_block s b"
  "transferred (s\<lparr>vs_phase := f\<rparr>) x = transferred s x" "wait_ok (s\<lparr>vs_phase := f\<rparr>) x w h i j = wait_ok s x w h i j"
  by (simp_all add: pending_def completed_def inflight_def disk_block_def transferred_def wait_ok_def)

lemma vinv_call:
  assumes "vinv s" "vs_phase s p = VIdle" "buf_mine s b" "buf_ok (dr_buf (vs_drv s) b)"
  shows "vinv (s\<lparr>vs_phase := (vs_phase s)(p := VWant b w)\<rparr>)"
proof -
  let ?s = "s\<lparr>vs_phase := (vs_phase s)(p := VWant b w)\<rparr>"
  have ch: "chain ?s q = chain s q" for q using assms(2) by (simp add: chain_def)
  have bb: "busy_buf ?s q = (if q = p then Some b else busy_buf s q)" for q by (simp add: busy_buf_def)
  have mine: "bufs_apart (vs_drv s) b b'" "bufs_apart (vs_drv s) b' b" if "busy_buf s q = Some b'" for q b'
    using assms(3) that bufs_apart_sym unfolding buf_mine_def by blast+
  show ?thesis
  proof (rule vinvI)
    show "in_use (dsk ?s) = (\<Union>q. chain ?s q)" unfolding ch using vinvD(2) [OF assms(1)] by simp
    show "\<And>q r. q \<noteq> r \<Longrightarrow> chain ?s q \<inter> chain ?s r = {}" unfolding ch by (rule vinvD(3) [OF assms(1)])
    show "\<And>q r b1 b2. q \<noteq> r \<Longrightarrow> busy_buf ?s q = Some b1 \<Longrightarrow> busy_buf ?s r = Some b2 \<Longrightarrow>
       bufs_apart (vs_drv ?s) b1 b2"
      unfolding bb using vinvD(4) [OF assms(1)] mine by (auto split: if_splits)
    show "sleep_ok ?s q" for q
      using vinvD(8) [OF assms(1), of q] assms(2) by (auto simp: sleep_ok_def)
    show "\<exists>q b w i j. vs_phase ?s q = VWait b w h i j" if h: "h \<in> set (inflight ?s)" for h
    proof -
      obtain q b' w' i j where "vs_phase s q = VWait b' w' h i j" using vinvD(7) [OF assms(1), of h] h by auto
      then have "vs_phase ?s q = VWait b' w' h i j" using assms(2) by auto
      then show ?thesis by blast
    qed
  qed (use assms vinvD [OF assms(1)] in \<open>auto simp: bb split: if_splits\<close>)
qed

text \<open>Steps that leave every process where it is.\<close>

lemma vinv_same:
  assumes "vinv s" "vs_phase s' = vs_phase s" "in_use (dsk s') = in_use (dsk s)"
    "\<And>p b. busy_buf s p = Some b \<Longrightarrow> vb_blockno (dr_buf (vs_drv s') b) = vb_blockno (dr_buf (vs_drv s) b) \<and>
       length (vb_data (dr_buf (vs_drv s') b)) = BSIZE"
    "distinct (inflight s')" "set (inflight s') \<subseteq> set (inflight s)"
    "\<And>p b w h i j. vs_phase s p = VWait b w h i j \<Longrightarrow> wait_ok s' b w h i j" "\<And>p. sleep_ok s' p"
    "\<And>x. length (vs_medium s' x) = 512"
  shows "vinv s'"
proof (rule vinvI)
  have ch: "chain s' = chain s" and bb: "busy_buf s' = busy_buf s"
    using assms(2) by (simp_all add: chain_def busy_buf_def fun_eq_iff)
  show "in_use (dsk s') = (\<Union>p. chain s' p)" unfolding ch assms(3) by (rule vinvD(2) [OF assms(1)])
  show "chain s' p \<inter> chain s' q = {}" if "p \<noteq> q" for p q unfolding ch by (rule vinvD(3) [OF assms(1) that])
  show "bufs_apart (vs_drv s') b b'" if "p \<noteq> q" "busy_buf s' p = Some b" "busy_buf s' q = Some b'" for p q b b'
    using vinvD(4) [OF assms(1) that(1)] assms(4) that(2,3) unfolding bb by (simp add: bufs_apart_def)
  show "buf_ok (dr_buf (vs_drv s') b)" if "busy_buf s' p = Some b" for p b
    using vinvD(5) [OF assms(1)] assms(4) that unfolding bb by (simp add: buf_ok_def)
  show "\<exists>p b w i j. vs_phase s' p = VWait b w h i j" if "h \<in> set (inflight s')" for h
    unfolding assms(2) using vinvD(7) [OF assms(1)] that assms(6) by blast
qed (use assms in auto)

lemma vinv_len: "vinv s \<Longrightarrow> busy_buf s p = Some b \<Longrightarrow> length (vb_data (dr_buf (vs_drv s) b)) = BSIZE"
  using vinvD(5) by (simp add: buf_ok_def)

lemma vinv_wake:
  assumes "vinv s"
  shows "vinv (s\<lparr>vs_drv := (vs_drv s)\<lparr>dr_chan := (dr_chan (vs_drv s))(p := None)\<rparr>\<rparr>)" (is "vinv ?s")
proof (rule vinv_same [OF assms])
  have eqs: "pending ?s = pending s" "completed ?s = completed s" "inflight ?s = inflight s"
    by (simp_all add: pending_def completed_def inflight_def)
  show "distinct (inflight ?s)" "set (inflight ?s) \<subseteq> set (inflight s)" unfolding eqs by (simp_all add: vinvD(6) [OF assms])
  show "wait_ok ?s b w h i j" if "vs_phase s q = VWait b w h i j" for q b w h i j
    by (rule wait_ok_cong [OF vinvD(1) [OF assms that]]) (simp_all add: eqs disk_block_def)
  show "sleep_ok ?s q" for q
    using vinvD(8) [OF assms, of q] by (auto simp: sleep_ok_def)
qed (use vinv_len [OF assms] vinvD(9) [OF assms] in auto)

lemma vinv_edit:
  assumes "vinv s" "buf_mine s b"
  shows "vinv (s\<lparr>vs_drv := (vs_drv s)\<lparr>dr_buf := (dr_buf (vs_drv s))(b := bf)\<rparr>\<rparr>)" (is "vinv ?s")
proof (rule vinv_same [OF assms(1)])
  have eqs: "pending ?s = pending s" "completed ?s = completed s" "inflight ?s = inflight s"
    by (simp_all add: pending_def completed_def inflight_def)
  have other: "b' \<noteq> b" if "busy_buf s q = Some b'" for q b' using assms(2) that by (auto simp: buf_mine_def bufs_apart_def)
  show "distinct (inflight ?s)" "set (inflight ?s) \<subseteq> set (inflight s)" unfolding eqs by (simp_all add: vinvD(6) [OF assms(1)])
  show "wait_ok ?s b' w h i j" if "vs_phase s q = VWait b' w h i j" for q b' w h i j
    using other [OF waiting_chain(2) [OF assms(1) that]]
    by (intro wait_ok_cong [OF vinvD(1) [OF assms(1) that]]) (simp_all add: eqs disk_block_def)
  show "sleep_ok ?s q" for q
    using vinvD(8) [OF assms(1), of q] other [of q]
    by (auto simp: sleep_ok_def busy_buf_def)
  show "vb_blockno (dr_buf (vs_drv ?s) b') = vb_blockno (dr_buf (vs_drv s) b') \<and> length (vb_data (dr_buf (vs_drv ?s) b')) = BSIZE"
    if "busy_buf s q = Some b'" for q b'
    using other [OF that] vinv_len [OF assms(1) that] by simp
qed (simp_all add: vinvD(9) [OF assms(1)])

lemma vinv_take:
  assumes "vinv s" "vs_last s \<noteq> vk_avail_idx (dsk s)"
  shows "vinv (dev_take s)"
proof (rule vinv_same [OF assms(1)])
  let ?x = "unat (vk_avail (dsk s) (unat (vs_last s) mod NUM))"
  have p: "pending s = ?x # pending (dev_take s)" "vs_work (dev_take s) = vs_work s @ [?x]" "completed (dev_take s) = completed s"
    using seg_pop [OF assms(2)] by (simp_all add: pending_def completed_def dev_take_def)
  then have set: "set (inflight (dev_take s)) = set (inflight s)"
      "set (pending (dev_take s)) \<union> set (vs_work (dev_take s)) = set (pending s) \<union> set (vs_work s)"
    by (auto simp: inflight_def)
  show "distinct (inflight (dev_take s))" using vinvD(6) [OF assms(1)] p by (auto simp: inflight_def)
  show "set (inflight (dev_take s)) \<subseteq> set (inflight s)" using set by simp
  have d: "vs_drv (dev_take s) = vs_drv s" "vs_phase (dev_take s) = vs_phase s" "vs_medium (dev_take s) = vs_medium s"
    by (simp_all add: dev_take_def)
  show "wait_ok (dev_take s) b w h i j" if "vs_phase s q = VWait b w h i j" for q b w h i j
    using set by (intro wait_ok_cong [OF vinvD(1) [OF assms(1) that]]) (auto simp: d p(3) disk_block_def)
  show "sleep_ok (dev_take s) q" for q using vinvD(8) [OF assms(1), of q] by (simp only: sleep_ok_def d)
qed (use vinv_len [OF assms(1)] vinvD(9) [OF assms(1)] in \<open>auto simp: dev_take_def\<close>)

lemma unat_sector:
  "blk < 2 ^ 31 \<Longrightarrow> unat (blk_sector blk) = 2 * unat blk" "blk < 2 ^ 31 \<Longrightarrow> unat (blk_sector blk + 1) = 2 * unat blk + 1"
proof -
  assume lt: "blk < 2 ^ 31"
  then have "unat blk < 2 ^ 31" by (simp add: word_less_nat_alt)
  then have "unat (blk * 2) = 2 * unat blk" by (simp add: unat_word_ariths)
  then show 1: "unat (blk_sector blk) = 2 * unat blk"
    using \<open>unat blk < 2 ^ 31\<close> by (simp add: blk_sector_def unsigned_ucast_eq take_bit_nat_eq_self_iff)
  show "unat (blk_sector blk + 1) = 2 * unat blk + 1"
    using 1 \<open>unat blk < 2 ^ 31\<close> by (simp add: unat_word_ariths)
qed

lemma sectors_apart:
  assumes "a < 2 ^ 31" "b < 2 ^ 31" "a \<noteq> b"
  shows "blk_sector a \<noteq> blk_sector b" "blk_sector a \<noteq> blk_sector b + 1" "blk_sector a + 1 \<noteq> blk_sector b"
    "blk_sector a + 1 \<noteq> blk_sector b + 1" "blk_sector a \<noteq> blk_sector a + 1"
proof -
  have "unat a \<noteq> unat b" using assms(3) by (simp add: word_unat_eq_iff)
  moreover have "2 * unat a \<noteq> 2 * unat b + 1" "2 * unat a + 1 \<noteq> 2 * unat b" by presburger+
  ultimately show "blk_sector a \<noteq> blk_sector b" "blk_sector a \<noteq> blk_sector b + 1" "blk_sector a + 1 \<noteq> blk_sector b"
    "blk_sector a + 1 \<noteq> blk_sector b + 1" "blk_sector a \<noteq> blk_sector a + 1"
    using unat_sector [OF assms(1)] unat_sector [OF assms(2)] by (simp_all add: word_unat_eq_iff)
qed

lemma exec_effect:
  assumes "vinv s" "vs_phase s p = VWait b w h i j"
  shows "\<exists>s'. dev_exec h s = Some s' \<and> vs_phase s' = vs_phase s \<and> vs_last s' = vs_last s \<and>
    vs_work s' = remove1 h (vs_work s) \<and> dsk s' = dev_report h h (dsk s) \<and> dr_chan (vs_drv s') = dr_chan (vs_drv s) \<and>
    (\<forall>b'. b' \<noteq> b \<longrightarrow> dr_buf (vs_drv s') b' = dr_buf (vs_drv s) b') \<and>
    vb_disk (dr_buf (vs_drv s') b) = vb_disk (dr_buf (vs_drv s) b) \<and>
    vb_blockno (dr_buf (vs_drv s') b) = vb_blockno (dr_buf (vs_drv s) b) \<and>
    length (vb_data (dr_buf (vs_drv s') b)) = BSIZE \<and> transferred s' b \<and> (\<forall>x. length (vs_medium s' x) = 512) \<and>
    (w \<longrightarrow> vb_data (dr_buf (vs_drv s') b) = vb_data (dr_buf (vs_drv s) b)) \<and> (\<not> w \<longrightarrow> vs_medium s' = vs_medium s) \<and>
    (\<forall>n < 2 ^ 31. n \<noteq> vb_blockno (dr_buf (vs_drv s) b) \<longrightarrow> disk_block s' n = disk_block s n)"
proof -
  let ?bf = "dr_buf (vs_drv s) b" and ?drv = "upd_disk (dev_report h h) (vs_drv s)"
  let ?sec = "blk_sector (vb_blockno ?bf)"
  note r = vinvD(1) [OF assms, unfolded wait_ok_def, THEN conjunct1, unfolded req_ok_def]
  have ok: "buf_ok ?bf" using vinvD(5) [OF assms(1) waiting_chain(2) [OF assms]] .
  have small: "unat (of_nat i :: u16) = i" "unat (of_nat j :: u16) = j"
    using r by (auto simp: NUM_def unat_of_nat)
  have fl: "VRING_DESC_F_NEXT AND VRING_DESC_F_NEXT \<noteq> 0" "(VRING_DESC_F_WRITE OR VRING_DESC_F_NEXT) AND VRING_DESC_F_NEXT \<noteq> 0"
    "(VRING_DESC_F_WRITE OR VRING_DESC_F_NEXT) AND VRING_DESC_F_WRITE \<noteq> 0" "VRING_DESC_F_NEXT AND VRING_DESC_F_WRITE = 0"
    "VIRTIO_BLK_T_OUT \<noteq> VIRTIO_BLK_T_IN"
    by (simp_all add: VRING_DESC_F_NEXT_def VRING_DESC_F_WRITE_def VIRTIO_BLK_T_OUT_def VIRTIO_BLK_T_IN_def)
  show ?thesis
  proof (cases w)
    case False
    then have "dev_exec h s = Some (s\<lparr>vs_work := remove1 h (vs_work s),
        vs_drv := ?drv\<lparr>dr_buf := (dr_buf ?drv)(b := ?bf\<lparr>vb_data := vs_medium s ?sec @ vs_medium s (?sec + 1)\<rparr>)\<rparr>\<rparr>)"
      using r small fl by (simp add: dev_exec_def Let_def)
    then show ?thesis
      using vinvD(9) [OF assms(1)] False by (simp add: upd_disk_def transferred_def disk_block_def BSIZE_def)
  next
    case True
    then have "dev_exec h s = Some (s\<lparr>vs_work := remove1 h (vs_work s), vs_drv := ?drv,
        vs_medium := (vs_medium s)(?sec := take 512 (vb_data ?bf), ?sec + 1 := drop 512 (vb_data ?bf))\<rparr>)"
      using r small fl by (simp add: dev_exec_def Let_def)
    moreover have "disk_block (s\<lparr>vs_work := remove1 h (vs_work s), vs_drv := ?drv,
        vs_medium := (vs_medium s)(?sec := take 512 (vb_data ?bf), ?sec + 1 := drop 512 (vb_data ?bf))\<rparr>) n = disk_block s n"
      if "n < 2 ^ 31" "n \<noteq> vb_blockno ?bf" for n
      using sectors_apart [of n "vb_blockno ?bf"] that ok by (simp add: disk_block_def buf_ok_def)
    ultimately show ?thesis
      using vinvD(9) [OF assms(1)] ok True by (simp add: upd_disk_def transferred_def disk_block_def BSIZE_def buf_ok_def)
  qed
qed

lemma inflight_less: "vinv s \<Longrightarrow> h \<in> set (inflight s) \<Longrightarrow> h < NUM"
  using vinvD(1,7) by (fastforce simp: wait_ok_def req_ok_def)

lemma room_in_ring:
  assumes "vinv s" "set xs \<subseteq> set (inflight s)" "distinct xs" "h < NUM" "h \<notin> set xs"
  shows "length xs < NUM"
proof -
  have "set xs \<subseteq> {..<NUM} - {h}" using inflight_less [OF assms(1)] assms(2,5) by auto
  then have "card (set xs) \<le> card ({..<NUM} - {h})" by (intro card_mono) auto
  then show ?thesis using assms(3,4) by (simp add: distinct_card)
qed

lemma vinv_exec:
  assumes "vinv s" "h \<in> set (vs_work s)" "dev_exec h s = Some s'"
  shows "vinv s'"
proof -
  have hin: "h \<in> set (inflight s)" using assms(2) by (simp add: inflight_def)
  obtain p b w i j where p: "vs_phase s p = VWait b w h i j" using vinvD(7) [OF assms(1) hin] by blast
  note e = exec_effect [OF assms(1) p, unfolded assms(3) option.inject, simplified]
  have dist: "distinct (pending s @ vs_work s @ completed s)" using vinvD(6) [OF assms(1)] by (simp only: inflight_def)
  have "length (completed s) < NUM"
    using assms(2) dist inflight_less [OF assms(1) hin] by (intro room_in_ring [OF assms(1)]) (auto simp: inflight_def)
  then have c: "completed s' = completed s @ [h]"
    using e inflight_less [OF assms(1) hin] unfolding completed_def
    by (simp add: dev_report_def) (rule seg_push, auto simp: unat_of_nat NUM_def)
  have pe: "pending s' = pending s" using e by (simp add: pending_def dev_report_def)
  have wk: "set (vs_work s') = set (vs_work s) - {h}" "distinct (vs_work s')" using e dist by auto
  have set: "set (inflight s') = set (inflight s)" using c pe wk assms(2) by (auto simp: inflight_def)
  show ?thesis
  proof (rule vinv_same [OF assms(1)])
    show "distinct (inflight s')" unfolding inflight_def c pe using dist wk assms(2) by auto
    show "set (inflight s') \<subseteq> set (inflight s)" using set by simp
    show "in_use (dsk s') = in_use (dsk s)" using e by (simp add: in_use_def dev_report_def)
    show "vb_blockno (dr_buf (vs_drv s') b1) = vb_blockno (dr_buf (vs_drv s) b1) \<and> length (vb_data (dr_buf (vs_drv s') b1)) = BSIZE"
      if "busy_buf s q = Some b1" for q b1
      using e vinv_len [OF assms(1) that] by (cases "b1 = b") auto
    show "sleep_ok s' q" for q
    proof -
      have "vb_disk (dr_buf (vs_drv s') x) = vb_disk (dr_buf (vs_drv s) x)" for x using e by (cases "x = b") auto
      moreover have "free_descs (dsk s') = free_descs (dsk s)" using e by (simp add: free_descs_def dev_report_def)
      ultimately show ?thesis using vinvD(8) [OF assms(1), of q] e by (simp add: sleep_ok_def)
    qed
    show "wait_ok s' b1 w1 h1 i1 j1" if q: "vs_phase s q = VWait b1 w1 h1 i1 j1" for q b1 w1 h1 i1 j1
    proof (cases "q = p")
      case True
      then have eq: "b1 = b" "w1 = w" "h1 = h" "i1 = i" "j1 = j" using p q by auto
      have "h \<notin> set (pending s')" "h \<notin> set (vs_work s')" using pe wk dist assms(2) by auto
      then show ?thesis
        using vinvD(1) [OF assms(1) p] e set hin unfolding eq wait_ok_def req_ok_def by (auto simp: dev_report_def)
    next
      case False
      note un = waiting_unique [OF assms(1) q p False]
      have "vb_blockno (dr_buf (vs_drv s) b1) < 2 ^ 31"
        using vinvD(5) [OF assms(1) waiting_chain(2) [OF assms(1) q]] by (simp add: buf_ok_def)
      then show ?thesis
        using e un set pe wk c by (intro wait_ok_cong [OF vinvD(1) [OF assms(1) q]]) (auto simp: dev_report_def)
    qed
  qed (use e in auto)
qed

text \<open>One turn of the interrupt handler.\<close>

definition intr_turn :: "nat \<Rightarrow> vdrv \<Rightarrow> vdrv" where
  "intr_turn b d = upd_disk (\<lambda>k. k\<lparr>vk_used_idx := vk_used_idx k + 1\<rparr>)
     (vwakeup (VBuf b) (d\<lparr>dr_buf := (dr_buf d)(b := (dr_buf d b)\<lparr>vb_disk := False\<rparr>)\<rparr>))"

lemma intr_turn_simps:
  "dr_disk (intr_turn b d) = (dr_disk d)\<lparr>vk_used_idx := vk_used_idx (dr_disk d) + 1\<rparr>"
  "dr_buf (intr_turn b d) = (dr_buf d)(b := (dr_buf d b)\<lparr>vb_disk := False\<rparr>)"
  "dr_chan (intr_turn b d) q = (if dr_chan d q = Some (VBuf b) then None else dr_chan d q)"
  by (simp_all add: intr_turn_def upd_disk_def vwakeup_def)

lemma vinv_intr_turn:
  assumes "vinv s" "vk_used_idx (dsk s) \<noteq> vk_used_didx (dsk s)"
  shows "\<exists>b. intr_loop (vs_drv s) = intr_loop (intr_turn b (vs_drv s)) \<and> vinv (s\<lparr>vs_drv := intr_turn b (vs_drv s)\<rparr>)"
proof -
  let ?x = "unat (vk_used (dsk s) (unat (vk_used_idx (dsk s)) mod NUM))"
  have c: "completed s = ?x # seg (vk_used (dsk s)) (vk_used_idx (dsk s) + 1) (vk_used_didx (dsk s))"
    unfolding completed_def by (rule seg_pop [OF assms(2)])
  then have xin: "?x \<in> set (inflight s)" by (simp add: inflight_def)
  obtain p b w i j where p: "vs_phase s p = VWait b w ?x i j" using vinvD(7) [OF assms(1) xin] by blast
  have ok: "wait_ok s b w ?x i j" by (rule vinvD(1) [OF assms(1) p])
  have st: "di_status (vk_info (dsk s) ?x) = 0" "di_b (vk_info (dsk s) ?x) = Some b"
    using ok c by (auto simp: wait_ok_def req_ok_def)
  have loop: "intr_loop (vs_drv s) = intr_loop (intr_turn b (vs_drv s))"
    using assms(2) st by (subst intr_loop.simps) (simp add: Let_def intr_turn_def)
  let ?s = "s\<lparr>vs_drv := intr_turn b (vs_drv s)\<rparr>"
  note k = intr_turn_simps
  have q: "pending ?s = pending s" "completed s = ?x # completed ?s" "vs_work ?s = vs_work s"
    using c by (simp_all add: pending_def completed_def k(1))
  have dist: "distinct (pending s @ vs_work s @ completed s)" using vinvD(6) [OF assms(1)] by (simp only: inflight_def)
  have set: "set (inflight ?s) = set (inflight s) - {?x}" using q dist by (auto simp: inflight_def)
  have "vinv ?s"
  proof (rule vinv_same [OF assms(1)])
    show "distinct (inflight ?s)" using q dist by (simp add: inflight_def)
    show "set (inflight ?s) \<subseteq> set (inflight s)" using set by blast
    show "in_use (dsk ?s) = in_use (dsk s)" by (simp add: k(1) in_use_def)
    show "vb_blockno (dr_buf (vs_drv ?s) b1) = vb_blockno (dr_buf (vs_drv s) b1) \<and> length (vb_data (dr_buf (vs_drv ?s) b1)) = BSIZE"
      if "busy_buf s r = Some b1" for r b1
      using vinv_len [OF assms(1) that] by (auto simp: k(2))
    show "sleep_ok ?s r" for r
      using vinvD(8) [OF assms(1), of r] by (auto simp: sleep_ok_def k free_descs_def)
    show "wait_ok ?s b1 w1 h1 i1 j1" if r: "vs_phase s r = VWait b1 w1 h1 i1 j1" for r b1 w1 h1 i1 j1
    proof (cases "r = p")
      case True
      then have eq: "b1 = b" "w1 = w" "h1 = ?x" "i1 = i" "j1 = j" using p r by auto
      have "?x \<notin> set (pending s)" "?x \<notin> set (vs_work s)" using q dist by auto
      then show ?thesis
        using ok set q unfolding eq wait_ok_def req_ok_def transferred_def disk_block_def by (auto simp: k)
    next
      case False
      note un = waiting_unique [OF assms(1) r p False]
      have hx: "h1 \<noteq> ?x" using un(1) by blast
      show ?thesis
      proof (rule wait_ok_cong [OF vinvD(1) [OF assms(1) r]])
        show "h1 \<in> set (inflight ?s) \<longleftrightarrow> h1 \<in> set (inflight s)" using set hx by blast
        show "h1 \<in> set (completed ?s) \<Longrightarrow> h1 \<in> set (completed s) \<and> di_status (vk_info (dsk ?s) h1) = di_status (vk_info (dsk s) h1)"
          using q(2) by (simp add: k(1))
      qed (use un(2) q in \<open>auto simp: k disk_block_def\<close>)
    qed
  qed (simp_all add: vinvD(9) [OF assms(1)])
  then show ?thesis using loop by blast
qed

lemma vinv_intr:
  assumes "vinv s"
  shows "\<exists>d. virtio_disk_intr (vs_drv s) = Some d \<and> vinv (s\<lparr>vs_drv := d\<rparr>)"
proof -
  have "\<exists>d. intr_loop (vs_drv s) = Some d \<and> vinv (s\<lparr>vs_drv := d\<rparr>)"
    using assms
  proof (induction "unat (vk_used_didx (dsk s) - vk_used_idx (dsk s))" arbitrary: s rule: less_induct)
    case less
    show ?case
    proof (cases "vk_used_idx (dsk s) = vk_used_didx (dsk s)")
      case True
      then have "intr_loop (vs_drv s) = Some (vs_drv s)" by (subst intr_loop.simps) (simp add: Let_def)
      then show ?thesis using less.prems by simp
    next
      case False
      obtain b where b: "intr_loop (vs_drv s) = intr_loop (intr_turn b (vs_drv s))" "vinv (s\<lparr>vs_drv := intr_turn b (vs_drv s)\<rparr>)"
        using vinv_intr_turn [OF less.prems False] by blast
      have "unat (vk_used_didx (dr_disk (intr_turn b (vs_drv s))) - vk_used_idx (dr_disk (intr_turn b (vs_drv s)))) <
          unat (vk_used_didx (dsk s) - vk_used_idx (dsk s))"
        using u16_closer [of "vk_used_didx (dsk s)" "vk_used_idx (dsk s)"] False by (simp add: intr_turn_def upd_disk_def vwakeup_def)
      then show ?thesis using less.hyps [of "s\<lparr>vs_drv := intr_turn b (vs_drv s)\<rparr>"] b by simp
    qed
  qed
  then show ?thesis by (simp add: virtio_disk_intr_def)
qed

lemma free_not_in_use: "x \<in> free_descs k \<Longrightarrow> x \<notin> in_use k"
  by (simp add: free_descs_def in_use_def)

text \<open>No three descriptors: what was taken is given back, and the process sleeps.\<close>

lemma vinv_no_descs:
  assumes "vinv s" "vs_phase s p = VWant b w" "freed (vs_drv s) idx d" "set idx \<subseteq> free_descs (dsk s)"
    "card (free_descs (dsk s)) < 3"
  shows "vinv (s\<lparr>vs_drv := vsleep p VFree d\<rparr>)"
proof -
  define t where "t = s\<lparr>vs_drv := vsleep p VFree d\<rparr>"
  note f = assms(3) [unfolded freed_def]
  have t: "vs_phase t = vs_phase s" "vs_medium t = vs_medium s" "vs_work t = vs_work s" "vs_last t = vs_last s"
    "dr_buf (vs_drv t) = dr_buf (vs_drv s)" "dsk t = dr_disk d" "dr_chan (vs_drv t) = (dr_chan d)(p := Some VFree)"
    using f by (simp_all add: t_def vsleep_def)
  have free: "vk_free (dsk t) = vk_free (dsk s)" using assms(4) f t(6) by (auto simp: free_descs_def)
  have k: "vk_desc (dsk t) = (\<lambda>x. if x \<in> set idx then desc_zero else vk_desc (dsk s) x)" "vk_ops (dsk t) = vk_ops (dsk s)"
    "vk_info (dsk t) = vk_info (dsk s)" using f t(6) by simp_all
  have eqs: "pending t = pending s" "completed t = completed s" using f by (simp_all add: pending_def completed_def t)
  then have fl: "inflight t = inflight s" by (simp add: inflight_def t)
  have fd: "free_descs (dsk t) = free_descs (dsk s)" "in_use (dsk t) = in_use (dsk s)"
    using free by (simp_all add: free_descs_def in_use_def)
  have "vinv t"
  proof (rule vinv_same [OF assms(1) t(1) fd(2)])
    show "distinct (inflight t)" "set (inflight t) \<subseteq> set (inflight s)" unfolding fl by (simp_all add: vinvD(6) [OF assms(1)])
    show "sleep_ok t q" for q
      using vinvD(8) [OF assms(1), of q] assms(2,5) f unfolding sleep_ok_def fd t(1,5,7) by auto
    show "wait_ok t b1 w1 h i j" if q: "vs_phase s q = VWait b1 w1 h i j" for q b1 w1 h i j
    proof -
      have "x \<notin> set idx" if "x \<in> {h, i, j}" for x
        using waiting_chain(1) [OF assms(1) q] that free_not_in_use assms(4) by blast
      then show ?thesis
        by (intro wait_ok_cong [OF vinvD(1) [OF assms(1) q]]) (simp_all add: eqs fl k t(2,3,5) disk_block_def)
    qed
  qed (use vinv_len [OF assms(1)] vinvD(9) [OF assms(1)] in \<open>auto simp: t\<close>)
  then show ?thesis by (simp add: t_def)
qed

text \<open>Three descriptors: the request joins those in flight.\<close>

definition submitted :: "nat \<Rightarrow> nat \<Rightarrow> bool \<Rightarrow> nat \<Rightarrow> nat \<Rightarrow> nat \<Rightarrow> vdrv \<Rightarrow> vdrv" where
  "submitted p b w h i j d = vsleep p (VBuf b) (rw_submit h (rw_format b w h i j (taken [h, i, j] d)))"

lemma submitted_simps:
  "dr_buf (submitted p b w h i j d) = (dr_buf d)(b := (dr_buf d b)\<lparr>vb_disk := True\<rparr>)"
  "dr_chan (submitted p b w h i j d) = (dr_chan d)(p := Some (VBuf b))"
  "vk_free (dr_disk (submitted p b w h i j d)) = (\<lambda>x. x \<notin> {h, i, j} \<and> vk_free (dr_disk d) x)"
  "vk_avail (dr_disk (submitted p b w h i j d)) = (vk_avail (dr_disk d))(unat (vk_avail_idx (dr_disk d)) mod NUM := of_nat h)"
  "vk_avail_idx (dr_disk (submitted p b w h i j d)) = vk_avail_idx (dr_disk d) + 1"
  "vk_used (dr_disk (submitted p b w h i j d)) = vk_used (dr_disk d)"
  "vk_used_idx (dr_disk (submitted p b w h i j d)) = vk_used_idx (dr_disk d)"
  "vk_used_didx (dr_disk (submitted p b w h i j d)) = vk_used_didx (dr_disk d)"
  "x \<notin> {h, i, j} \<Longrightarrow> vk_desc (dr_disk (submitted p b w h i j d)) x = vk_desc (dr_disk d) x"
  "x \<noteq> h \<Longrightarrow> vk_ops (dr_disk (submitted p b w h i j d)) x = vk_ops (dr_disk d) x"
  "x \<noteq> h \<Longrightarrow> vk_info (dr_disk (submitted p b w h i j d)) x = vk_info (dr_disk d) x"
  by (simp_all add: submitted_def vsleep_def rw_submit_def rw_format_def taken_def upd_disk_def)

lemma submitted_req:
  assumes "distinct [h, i, j]" "h < NUM" "i < NUM" "j < NUM"
  shows "req_ok (dr_disk (submitted p b w h i j d)) (dr_buf (submitted p b w h i j d) b) b w h i j"
  using assms by (simp add: req_ok_def submitted_def vsleep_def rw_submit_def rw_format_def taken_def upd_disk_def)

lemma vinv_submit:
  assumes "vinv s" "vs_phase s p = VWant b w" "distinct [h, i, j]" "{h, i, j} \<subseteq> free_descs (dsk s)"
  shows "vinv (s\<lparr>vs_drv := submitted p b w h i j (vs_drv s), vs_phase := (vs_phase s)(p := VWait b w h i j)\<rparr>)"
proof -
  define t where "t = s\<lparr>vs_drv := submitted p b w h i j (vs_drv s), vs_phase := (vs_phase s)(p := VWait b w h i j)\<rparr>"
  have t: "vs_phase t = (vs_phase s)(p := VWait b w h i j)" "vs_medium t = vs_medium s" "vs_work t = vs_work s" "vs_last t = vs_last s"
    "vs_drv t = submitted p b w h i j (vs_drv s)"
    by (simp_all add: t_def)
  note k = submitted_simps
  have lt: "h < NUM" "i < NUM" "j < NUM" using assms(4) by (auto simp: free_descs_def)
  have nu: "x \<notin> in_use (dsk s)" if "x \<in> {h, i, j}" for x using that assms(4) free_not_in_use by blast
  have hout: "h \<notin> set (inflight s)"
    using vinvD(7) [OF assms(1), of h] waiting_chain(1) [OF assms(1)] nu [of h] by blast
  have "length (pending s) < NUM"
    using vinvD(6) [OF assms(1)] hout by (intro room_in_ring [OF assms(1) _ _ lt(1)]) (auto simp: inflight_def)
  then have pe: "pending t = pending s @ [h]" using lt(1) unfolding pending_def
    by (simp add: t k) (rule seg_push, auto simp: unat_of_nat NUM_def)
  have co: "completed t = completed s" by (simp add: completed_def t(5) k)
  have set: "set (inflight t) = insert h (set (inflight s))" by (auto simp: inflight_def pe co t(3))
  have ch: "chain t q = (if q = p then {h, i, j} else chain s q)" for q by (simp add: chain_def t(1))
  have bb: "busy_buf t q = busy_buf s q" for q using assms(2) by (simp add: busy_buf_def t(1))
  have p0: "chain s p = {}" "busy_buf s p = Some b" using assms(2) by (simp_all add: chain_def busy_buf_def)
  have blk: "vb_blockno (dr_buf (vs_drv t) x) = vb_blockno (dr_buf (vs_drv s) x)"
    "vb_data (dr_buf (vs_drv t) x) = vb_data (dr_buf (vs_drv s) x)" for x by (simp_all add: t(5) k)
  have iu: "in_use (dsk t) = in_use (dsk s) \<union> {h, i, j}" using lt by (auto simp: in_use_def t(5) k)
  have "vinv t"
  proof (rule vinvI)
    show "in_use (dsk t) = (\<Union>q. chain t q)"
      unfolding iu ch vinvD(2) [OF assms(1)] using p0(1) by (auto split: if_splits)
    have "{h, i, j} \<inter> chain s q = {}" for q using nu vinvD(2) [OF assms(1)] by blast
    then show "chain t q \<inter> chain t r = {}" if "q \<noteq> r" for q r
      unfolding ch using vinvD(3) [OF assms(1) that] that by auto
    show "bufs_apart (vs_drv t) b1 b2" if "q \<noteq> r" "busy_buf t q = Some b1" "busy_buf t r = Some b2" for q r b1 b2
      using vinvD(4) [OF assms(1) that(1)] that(2,3) unfolding bb bufs_apart_def blk by blast
    show "buf_ok (dr_buf (vs_drv t) b1)" if "busy_buf t q = Some b1" for q b1
      using vinvD(5) [OF assms(1)] that unfolding bb buf_ok_def blk by blast
    show "distinct (inflight t)" using vinvD(6) [OF assms(1)] hout by (auto simp: inflight_def pe co t(3))
    show "\<exists>q b w i j. vs_phase t q = VWait b w x i j" if x: "x \<in> set (inflight t)" for x
    proof (cases "x = h")
      case False
      then obtain q b' w' i' j' where "vs_phase s q = VWait b' w' x i' j'" using vinvD(7) [OF assms(1), of x] x set by auto
      then have "vs_phase t q = VWait b' w' x i' j'" using assms(2) by (auto simp: t(1))
      then show ?thesis by blast
    qed (auto simp: t(1))
    show "sleep_ok t q" for q
    proof -
      have "card (free_descs (dsk t)) \<le> card (free_descs (dsk s))"
        by (rule card_mono) (auto simp: free_descs_def t(5) k)
      then show ?thesis using vinvD(8) [OF assms(1), of q] by (auto simp: sleep_ok_def t(1,5) k)
    qed
    show "wait_ok t b1 w1 h1 i1 j1" if q: "vs_phase t q = VWait b1 w1 h1 i1 j1" for q b1 w1 h1 i1 j1
    proof (cases "q = p")
      case True
      then have eq: "b1 = b" "w1 = w" "h1 = h" "i1 = i" "j1 = j" using q by (auto simp: t(1))
      show ?thesis unfolding eq wait_ok_def using submitted_req [OF assms(3) lt] hout set
        by (auto simp: pe co t(3,5) k(1) inflight_def)
    next
      case False
      then have q0: "vs_phase s q = VWait b1 w1 h1 i1 j1" using q by (simp add: t(1))
      have dj: "{h, i, j} \<inter> {h1, i1, j1} = {}" using waiting_chain(1) [OF assms(1) q0] nu by blast
      have "b1 \<noteq> b" using vinvD(4) [OF assms(1) False waiting_chain(2) [OF assms(1) q0] p0(2)] by (simp add: bufs_apart_def)
      moreover have "x \<notin> {h, i, j}" if "x \<in> {h1, i1, j1}" for x using dj that by blast
      moreover have "h1 \<noteq> h" using dj by blast
      ultimately show ?thesis
        by (intro wait_ok_cong [OF vinvD(1) [OF assms(1) q0]]) (auto simp: set pe co t(2,3,5) k disk_block_def)
    qed
  qed (simp add: t(2) vinvD(9) [OF assms(1)])
  then show ?thesis by (simp add: t_def)
qed

text \<open>A turn of the wait: not yet, or the chain is freed and the call returns.\<close>

lemma vinv_wait_more:
  assumes "vinv s" "vs_phase s p = VWait b w h i j" "vb_disk (dr_buf (vs_drv s) b)"
  shows "vinv (s\<lparr>vs_drv := vsleep p (VBuf b) (vs_drv s)\<rparr>)"
proof -
  define t where "t = s\<lparr>vs_drv := vsleep p (VBuf b) (vs_drv s)\<rparr>"
  have t: "vs_phase t = vs_phase s" "vs_medium t = vs_medium s" "vs_work t = vs_work s" "vs_last t = vs_last s"
    "dr_buf (vs_drv t) = dr_buf (vs_drv s)" "dsk t = dsk s" "dr_chan (vs_drv t) = (dr_chan (vs_drv s))(p := Some (VBuf b))"
    by (simp_all add: t_def vsleep_def)
  have eqs: "pending t = pending s" "completed t = completed s" "inflight t = inflight s"
    by (simp_all add: pending_def completed_def inflight_def t)
  have "vinv t"
  proof (rule vinv_same [OF assms(1) t(1)])
    show "wait_ok t b1 w1 h1 i1 j1" if q: "vs_phase s q = VWait b1 w1 h1 i1 j1" for q b1 w1 h1 i1 j1
      by (rule wait_ok_cong [OF vinvD(1) [OF assms(1) q]]) (simp_all add: eqs t disk_block_def)
    show "sleep_ok t q" for q
      using vinvD(8) [OF assms(1), of q] assms(2,3) unfolding sleep_ok_def t by auto
  qed (use vinvD(6) [OF assms(1)] vinv_len [OF assms(1)] vinvD(9) [OF assms(1)] in \<open>auto simp: t eqs\<close>)
  then show ?thesis by (simp add: t_def)
qed

lemma vinv_finish:
  assumes "vinv s" "vs_phase s p = VWait b w h i j" "\<not> vb_disk (dr_buf (vs_drv s) b)" "dr_chan (vs_drv s) p = None"
    "freed (upd_disk (\<lambda>k. k\<lparr>vk_info := (vk_info k)(h := (vk_info k h)\<lparr>di_b := None\<rparr>)\<rparr>) (vs_drv s)) [h, i, j] d"
  shows "vinv (s\<lparr>vs_drv := d, vs_phase := (vs_phase s)(p := VIdle)\<rparr>)"
proof -
  define t where "t = s\<lparr>vs_drv := d, vs_phase := (vs_phase s)(p := VIdle)\<rparr>"
  note f = assms(5) [unfolded freed_def upd_disk_def, simplified]
  have t: "vs_phase t = (vs_phase s)(p := VIdle)" "vs_medium t = vs_medium s" "vs_work t = vs_work s" "vs_last t = vs_last s"
    "dr_buf (vs_drv t) = dr_buf (vs_drv s)" "dsk t = dr_disk d"
    "dr_chan (vs_drv t) q = (if dr_chan (vs_drv s) q = Some VFree then None else dr_chan (vs_drv s) q)" for q
    using f by (simp_all add: t_def)
  have k: "x \<notin> {h, i, j} \<Longrightarrow> vk_desc (dsk t) x = vk_desc (dsk s) x" "vk_ops (dsk t) = vk_ops (dsk s)"
    "x \<noteq> h \<Longrightarrow> vk_info (dsk t) x = vk_info (dsk s) x" "vk_free (dsk t) x \<longleftrightarrow> x \<in> {h, i, j} \<or> vk_free (dsk s) x" for x
    using f by (simp_all add: t(6))
  have eqs: "pending t = pending s" "completed t = completed s" using f by (simp_all add: pending_def completed_def t)
  then have fl: "inflight t = inflight s" by (simp add: inflight_def t)
  have hout: "h \<notin> set (inflight s)" using vinvD(1) [OF assms(1,2)] assms(3) by (simp add: wait_ok_def)
  have ch: "chain t q = (if q = p then {} else chain s q)" for q by (simp add: chain_def t(1))
  have cp: "chain s p = {h, i, j}" using assms(2) by (simp add: chain_def)
  have bb: "busy_buf t q = (if q = p then None else busy_buf s q)" for q by (simp add: busy_buf_def t(1))
  have iu: "in_use (dsk t) = in_use (dsk s) - {h, i, j}" by (auto simp: in_use_def k(4))
  have "vinv t"
  proof (rule vinvI)
    have "{h, i, j} \<inter> chain s q = {}" if "q \<noteq> p" for q using vinvD(3) [OF assms(1) that] cp by blast
    then show "in_use (dsk t) = (\<Union>q. chain t q)"
      unfolding iu ch vinvD(2) [OF assms(1)] using cp by (auto split: if_splits) (metis insertE empty_iff)
    show "chain t q \<inter> chain t r = {}" if "q \<noteq> r" for q r unfolding ch using vinvD(3) [OF assms(1) that] by auto
    show "bufs_apart (vs_drv t) b1 b2" if "q \<noteq> r" "busy_buf t q = Some b1" "busy_buf t r = Some b2" for q r b1 b2
      using vinvD(4) [OF assms(1) that(1)] that(2,3) unfolding bb bufs_apart_def t(5) by (auto split: if_splits)
    show "buf_ok (dr_buf (vs_drv t) b1)" if "busy_buf t q = Some b1" for q b1
      using vinvD(5) [OF assms(1)] that unfolding bb t(5) by (auto split: if_splits)
    show "distinct (inflight t)" unfolding fl by (rule vinvD(6) [OF assms(1)])
    show "\<exists>q b w i j. vs_phase t q = VWait b w x i j" if x: "x \<in> set (inflight t)" for x
    proof -
      obtain q b' w' i' j' where "vs_phase s q = VWait b' w' x i' j'" using vinvD(7) [OF assms(1)] x unfolding fl by blast
      moreover have "x \<noteq> h" using x hout unfolding fl by blast
      ultimately have "vs_phase t q = VWait b' w' x i' j'" using assms(2) by (auto simp: t(1))
      then show ?thesis by blast
    qed
    show "sleep_ok t q" for q
      using vinvD(8) [OF assms(1), of q] assms(4) unfolding sleep_ok_def t(1,5,7) by auto
    show "wait_ok t b1 w1 h1 i1 j1" if "vs_phase t q = VWait b1 w1 h1 i1 j1" for q b1 w1 h1 i1 j1
    proof -
      have qp: "q \<noteq> p" and q: "vs_phase s q = VWait b1 w1 h1 i1 j1" using that by (auto simp: t(1) split: if_splits)
      have dj: "x \<notin> {h, i, j}" if "x \<in> {h1, i1, j1}" for x using waiting_unique(1) [OF assms(1) q assms(2) qp] that by blast
      then have "h1 \<noteq> h" by blast
      then show ?thesis using dj
        by (intro wait_ok_cong [OF vinvD(1) [OF assms(1) q]]) (auto simp: eqs fl k t(2,3,5) disk_block_def)
    qed
  qed (simp add: t(2) vinvD(9) [OF assms(1)])
  then show ?thesis by (simp add: t_def)
qed

lemma rw_wait_returns:
  assumes "vinv s" "vs_phase s p = VWait b w h i j" "dr_chan (vs_drv s) p = None"
  shows "\<exists>fin d. rw_wait p b h (vs_drv s) = Some (fin, d) \<and> (fin \<longleftrightarrow> \<not> vb_disk (dr_buf (vs_drv s) b)) \<and>
    vinv (s\<lparr>vs_drv := d, vs_phase := (vs_phase s)(p := (if fin then VIdle else VWait b w h i j))\<rparr>)"
proof (cases "vb_disk (dr_buf (vs_drv s) b)")
  case True
  have "(vs_phase s)(p := VWait b w h i j) = vs_phase s" using assms(2) by auto
  then show ?thesis using vinv_wait_more [OF assms(1,2) True] True by (auto simp: rw_wait_def intro!: exI [of _ False])
next
  case False
  let ?d = "upd_disk (\<lambda>k. k\<lparr>vk_info := (vk_info k)(h := (vk_info k h)\<lparr>di_b := None\<rparr>)\<rparr>) (vs_drv s)"
  have "{h, i, j} \<subseteq> in_use (dr_disk ?d)" "vk_desc (dr_disk ?d) = vk_desc (dsk s)"
    using waiting_chain(1) [OF assms(1,2)] by (simp_all add: upd_disk_def in_use_def)
  then obtain d where d: "free_chain h ?d = Some d" "freed ?d [h, i, j] d"
    using free_chain_freed [OF vinvD(1) [OF assms(1,2), unfolded wait_ok_def, THEN conjunct1]] by blast
  then show ?thesis
    using vinv_finish [OF assms(1,2) False assms(3) d(2)] False by (auto simp: rw_wait_def intro!: exI [of _ True])
qed

lemma rw_enter_returns:
  assumes "vinv s" "vs_phase s p = VWant b w"
  shows "\<exists>r d. rw_enter p b w (vs_drv s) = Some (r, d) \<and> (\<forall>idx. r = Some idx \<longrightarrow> length idx = 3) \<and>
    vinv (s\<lparr>vs_drv := d, vs_phase := (vs_phase s)(p :=
      (case r of None \<Rightarrow> VWant b w | Some idx \<Rightarrow> VWait b w (idx ! 0) (idx ! 1) (idx ! 2)))\<rparr>)"
  using alloc3_spec [of "vs_drv s"]
proof (elim disjE exE conjE)
  fix h i j
  assume a: "alloc3_desc (vs_drv s) = Some (0, [h, i, j], taken [h, i, j] (vs_drv s))" "distinct [h, i, j]" "{h, i, j} \<subseteq> free_descs (dsk s)"
  then have "rw_enter p b w (vs_drv s) = Some (Some [h, i, j], submitted p b w h i j (vs_drv s))"
    by (simp add: rw_enter_def submitted_def Let_def)
  then show ?thesis using vinv_submit [OF assms a(2,3)] by auto
next
  fix idx d
  assume a: "alloc3_desc (vs_drv s) = Some (- 1, idx, d)" "card (free_descs (dsk s)) < 3" "set idx \<subseteq> free_descs (dsk s)" "freed (vs_drv s) idx d"
  then have "rw_enter p b w (vs_drv s) = Some (None, vsleep p VFree d)" by (simp add: rw_enter_def)
  moreover have "(vs_phase s)(p := VWant b w) = vs_phase s" using assms(2) by auto
  ultimately show ?thesis using vinv_no_descs [OF assms a(4,3,2)] by auto
qed

lemma vinv_step:
  assumes "vstep s s'" "vinv s"
  shows "vinv s'"
  using assms
proof cases
  case (v_enter p b w r d)
  then show ?thesis using rw_enter_returns [OF assms(2)] by fastforce
next
  case (v_wait p b w h i j fin d)
  then show ?thesis using rw_wait_returns [OF assms(2)] by fastforce
next
  case (v_intr d)
  then show ?thesis using vinv_intr [OF assms(2)] by auto
qed (auto intro: vinv_call vinv_take vinv_exec vinv_edit vinv_wake assms(2))

section \<open>Properties\<close>

definition vsys_boot :: "(u64 \<Rightarrow> string) \<Rightarrow> (nat \<Rightarrow> vbuf) \<Rightarrow> vsys" where
  "vsys_boot m bf = \<lparr>vs_drv = \<lparr>dr_disk = vdisk_init, dr_buf = bf, dr_chan = (\<lambda>_. None)\<rparr>, vs_medium = m, vs_last = 0,
     vs_work = [], vs_phase = (\<lambda>_. VIdle)\<rparr>"

lemma vinv_boot: "(\<And>x. length (m x) = 512) \<Longrightarrow> vinv (vsys_boot m bf)"
  by (rule vinvI) (auto simp: vsys_boot_def vdisk_init_def in_use_def chain_def busy_buf_def inflight_def pending_def completed_def sleep_ok_def)

lemma vreach_inv: "vreach s0 s \<Longrightarrow> vinv s0 \<Longrightarrow> vinv s"
  by (induction rule: vreach.induct) (auto intro: vinv_step)

text \<open>
  C32: the disk driver implements synchronous block transfers.  Any number of processes call \<open>virtio_disk_rw\<close>, each for a
  buffer it owns; their sections, the interrupt handler, the device and spurious wakeups interleave in any order.  In every state that is
  reached: (1) when the driver tells a process that its request is done, its buffer and the block on the medium agree;
  (2) a request that the device works on is a well-formed chain, and carrying it out leaves the buffer
  of a write and the medium of a read alone, and every other block; (3) neither a call nor the interrupt handler panics, so no descriptor is freed
  twice; (4) no wakeup is lost: who sleeps for a buffer has a request in flight, who sleeps for descriptors would find fewer than three.
\<close>

theorem disk_driver_correct:
  assumes "vreach (vsys_boot m bf) s" "\<And>x. length (m x) = 512"
  shows "(\<forall>p b w h i j. vs_phase s p = VWait b w h i j \<longrightarrow>
       (\<not> vb_disk (dr_buf (vs_drv s) b) \<longrightarrow> transferred s b) \<and>
       (h \<in> set (vs_work s) \<longrightarrow>
          (\<exists>s'. dev_exec h s = Some s' \<and> transferred s' b \<and>
             (if w then vb_data (dr_buf (vs_drv s') b) = vb_data (dr_buf (vs_drv s) b) else vs_medium s' = vs_medium s) \<and>
             (\<forall>n < 2 ^ 31. n \<noteq> vb_blockno (dr_buf (vs_drv s) b) \<longrightarrow> disk_block s' n = disk_block s n))) \<and>
       (dr_chan (vs_drv s) p = None \<longrightarrow> rw_wait p b h (vs_drv s) \<noteq> None)) \<and>
    (\<forall>p b w. vs_phase s p = VWant b w \<longrightarrow> rw_enter p b w (vs_drv s) \<noteq> None) \<and>
    virtio_disk_intr (vs_drv s) \<noteq> None \<and> (\<forall>p. sleep_ok s p)"
proof -
  have inv: "vinv s" using vreach_inv [OF assms(1) vinv_boot] assms(2) by blast
  have "transferred s b" if q: "vs_phase s p = VWait b w h i j" "\<not> vb_disk (dr_buf (vs_drv s) b)" for p b w h i j
    using vinvD(1) [OF inv q(1)] q(2) by (auto simp: wait_ok_def inflight_def)
  moreover have "\<exists>s'. dev_exec h s = Some s' \<and> transferred s' b \<and>
      (if w then vb_data (dr_buf (vs_drv s') b) = vb_data (dr_buf (vs_drv s) b) else vs_medium s' = vs_medium s) \<and>
      (\<forall>n < 2 ^ 31. n \<noteq> vb_blockno (dr_buf (vs_drv s) b) \<longrightarrow> disk_block s' n = disk_block s n)"
    if q: "vs_phase s p = VWait b w h i j" for p b w h i j
    using exec_effect [OF inv q] by auto
  moreover have "rw_wait p b h (vs_drv s) \<noteq> None" if q: "vs_phase s p = VWait b w h i j" "dr_chan (vs_drv s) p = None" for p b w h i j
    using rw_wait_returns [OF inv q] by auto
  moreover have "rw_enter p b w (vs_drv s) \<noteq> None" if q: "vs_phase s p = VWant b w" for p b w
    using rw_enter_returns [OF inv q] by auto
  moreover have "virtio_disk_intr (vs_drv s) \<noteq> None" "\<forall>p. sleep_ok s p" using vinv_intr [OF inv] vinvD(8) [OF inv] by auto
  ultimately show ?thesis by blast
qed

text \<open>A process reads block 7 of a blank disk into buffer 3; the device has taken the request.\<close>

definition sample_vbuf :: "nat \<Rightarrow> vbuf" where
  "sample_vbuf b = \<lparr>vb_disk = False, vb_blockno = of_nat b + 4, vb_data = replicate BSIZE NUL\<rparr>"

definition sample_boot :: vsys where
  "sample_boot = vsys_boot (\<lambda>_. replicate 512 NUL) sample_vbuf"

definition sample_run :: vsys where
  "sample_run = dev_take (sample_boot\<lparr>vs_drv := submitted 0 3 False 0 1 2 (vs_drv sample_boot),
     vs_phase := (\<lambda>_. VIdle)(0 := VWait 3 False 0 1 2)\<rparr>)"

lemma sample_alloc: "alloc3_desc (vs_drv sample_boot) = Some (0, [0, 1, 2], taken [0, 1, 2] (vs_drv sample_boot))"
  by (simp add: alloc3_desc_def numeral_3_eq_3 alloc_desc_def sample_boot_def vsys_boot_def vdisk_init_def NUM_def upt_rec
      upd_disk_def taken_def fun_eq_iff)

lemma sample_run_reached: "vreach sample_boot sample_run"
proof -
  let ?s1 = "sample_boot\<lparr>vs_phase := (vs_phase sample_boot)(0 := VWant 3 False)\<rparr>"
  let ?s2 = "?s1\<lparr>vs_drv := submitted 0 3 False 0 1 2 (vs_drv sample_boot), vs_phase := (vs_phase ?s1)(0 := VWait 3 False 0 1 2)\<rparr>"
  have s1: "vstep sample_boot ?s1"
    by (rule v_call) (simp_all add: sample_boot_def vsys_boot_def buf_mine_def busy_buf_def buf_ok_def sample_vbuf_def)
  have "rw_enter 0 3 False (vs_drv sample_boot) = Some (Some [0, 1, 2], submitted 0 3 False 0 1 2 (vs_drv sample_boot))"
    by (simp add: rw_enter_def sample_alloc submitted_def)
  then have s2: "vstep ?s1 ?s2"
    using v_enter [of ?s1 0 3 False "Some [0, 1, 2]" "submitted 0 3 False 0 1 2 (vs_drv sample_boot)"]
    by (simp add: sample_boot_def vsys_boot_def)
  have s3: "vstep ?s2 (dev_take ?s2)"
    by (rule v_take) (simp add: submitted_simps sample_boot_def vsys_boot_def vdisk_init_def)
  have "dev_take ?s2 = sample_run" by (simp add: sample_run_def sample_boot_def vsys_boot_def)
  moreover have "vreach sample_boot (dev_take ?s2)"
    by (rule vr_step [OF vr_step [OF vr_step [OF vr_init s1] s2] s3])
  ultimately show ?thesis by (simp only:)
qed

theorem disk_driver_correct_witness:
  "vs_phase sample_run 0 = VWait 3 False 0 1 2 \<and> 0 \<in> set (vs_work sample_run) \<and>
   (\<exists>s'. dev_exec 0 sample_run = Some s' \<and> transferred s' 3 \<and> vs_medium s' = vs_medium sample_run) \<and>
   virtio_disk_intr (vs_drv sample_run) \<noteq> None"
proof -
  have "vs_phase sample_run 0 = VWait 3 False 0 1 2" "0 \<in> set (vs_work sample_run)"
    by (simp_all add: sample_run_def dev_take_def submitted_simps sample_boot_def vsys_boot_def vdisk_init_def)
  then show ?thesis
    using disk_driver_correct [of "\<lambda>_. replicate 512 NUL" sample_vbuf sample_run] sample_run_reached
    unfolding sample_boot_def by fastforce
qed

end
