(* ===== verification/Malloc.thy ===== *)
theory Malloc
  imports User Sysproc
begin

text \<open>
  The user-level allocator, \<open>user/umalloc.c\<close>, with \<open>sbrk\<close> of \<open>user/ulib.c\<close>.

  The memory of the process is a byte map.  A \<open>Header\<close> occupies 16 bytes: the 8 bytes of \<open>s.ptr\<close>, the 4 bytes of
  \<open>s.size\<close>, and padding; storing a size truncates it to 32 bits.  Adding a number to a \<open>Header *\<close> adds 16 times the number to
  the address.  Both loops follow pointers and are option-valued: \<open>None\<close> means that the loop never ends.  The theorem at the
  end covers every history of calls by a program that writes only to the blocks it holds.
\<close>

section \<open>The code\<close>

definition header_ptr :: "memory \<Rightarrow> nat \<Rightarrow> nat" where
  "header_ptr m a = le_val (read_bytes m a 8)"

definition header_size :: "memory \<Rightarrow> nat \<Rightarrow> nat" where
  "header_size m a = le_val (read_bytes m (a + 8) 4)"

definition set_ptr :: "nat \<Rightarrow> nat \<Rightarrow> memory \<Rightarrow> memory" where
  "set_ptr a v m = write_bytes m a (le_bytes 8 v)"

definition set_size :: "nat \<Rightarrow> nat \<Rightarrow> memory \<Rightarrow> memory" where
  "set_size a v m = write_bytes m (a + 8) (le_bytes 4 v)"

definition sizeof_Header :: nat where "sizeof_Header = 16"

definition SBRK_ERROR :: int where "SBRK_ERROR = - 1"

text \<open>\<open>uh_base\<close> is the address of the static \<open>base\<close>, \<open>uh_freep\<close> the pointer \<open>freep\<close>, 0 when null.\<close>

record uheap = user +
  uh_mem :: memory
  uh_freep :: nat
  uh_base :: nat

definition sbrk :: "kern \<Rightarrow> int \<Rightarrow> 'a user_scheme \<Rightarrow> int \<times> 'a user_scheme" where
  "sbrk K n u = (let (r, _, u) = sys K (U_sbrk n SBRK_EAGER) u in (r, u))"

text \<open>The loop of \<open>free\<close>: the list element after which the block at \<open>bp\<close> belongs.\<close>

partial_function (option) free_search :: "memory \<Rightarrow> nat \<Rightarrow> nat \<Rightarrow> nat option" where
  "free_search m bp p =
     (if bp > p \<and> bp < header_ptr m p then Some p
      else if p \<ge> header_ptr m p \<and> (bp > p \<or> bp < header_ptr m p) then Some p
      else free_search m bp (header_ptr m p))"

text \<open>Linking the block in: it absorbs its upper neighbour when that is free, and is absorbed by its lower one.\<close>

definition free_next :: "nat \<Rightarrow> nat \<Rightarrow> memory \<Rightarrow> memory" where
  "free_next bp p m =
     (if bp + sizeof_Header * header_size m bp = header_ptr m p
      then let m = set_size bp (header_size m bp + header_size m (header_ptr m p)) m
           in set_ptr bp (header_ptr m (header_ptr m p)) m
      else set_ptr bp (header_ptr m p) m)"

definition free_link :: "nat \<Rightarrow> nat \<Rightarrow> memory \<Rightarrow> memory" where
  "free_link bp p m =
     (let m = free_next bp p m
      in if p + sizeof_Header * header_size m p = bp
         then let m = set_size p (header_size m p + header_size m bp) m in set_ptr p (header_ptr m bp) m
         else set_ptr p bp m)"

definition free :: "nat \<Rightarrow> uheap \<Rightarrow> uheap option" where
  "free ap u =
     do {
       let bp = ap - sizeof_Header;
       p \<leftarrow> free_search (uh_mem u) bp (uh_freep u);
       Some (u\<lparr>uh_mem := free_link bp p (uh_mem u), uh_freep := p\<rparr>)
     }"

text \<open>The size handed to \<open>sbrk\<close> is converted to \<open>int\<close>; the result 0 stands for the null pointer.\<close>

definition morecore :: "kern \<Rightarrow> nat \<Rightarrow> uheap \<Rightarrow> (nat \<times> uheap) option" where
  "morecore K nu u =
     (let nu = (if nu < 4096 then 4096 else nu);
          (p, u) = sbrk K (wrap32 (int (nu * sizeof_Header))) u
      in if p = SBRK_ERROR then Some (0, u)
         else do {
           let hp = nat p;
           let u = u\<lparr>uh_mem := set_size hp nu (uh_mem u)\<rparr>;
           u \<leftarrow> free (hp + sizeof_Header) u;
           Some (uh_freep u, u)
         })"

text \<open>A block that is large enough: it leaves the list, or its tail end is handed out.\<close>

definition malloc_take :: "nat \<Rightarrow> nat \<Rightarrow> nat \<Rightarrow> uheap \<Rightarrow> nat \<times> uheap" where
  "malloc_take nunits prevp p u =
     (let m = uh_mem u;
          (p, m) =
            (if header_size m p = nunits then (p, set_ptr prevp (header_ptr m p) m)
             else let m = set_size p (header_size m p - nunits) m;
                      p = p + sizeof_Header * header_size m p
                  in (p, set_size p nunits m))
      in (p + sizeof_Header, u\<lparr>uh_mem := m, uh_freep := prevp\<rparr>))"

partial_function (option) malloc_loop :: "kern \<Rightarrow> nat \<Rightarrow> nat \<Rightarrow> nat \<Rightarrow> uheap \<Rightarrow> (nat \<times> uheap) option" where
  "malloc_loop K nunits prevp p u =
     (if header_size (uh_mem u) p \<ge> nunits then Some (malloc_take nunits prevp p u)
      else if p = uh_freep u
      then Option.bind (morecore K nunits u) (\<lambda>(p, u).
             if p = 0 then Some (0, u) else malloc_loop K nunits p (header_ptr (uh_mem u) p) u)
      else malloc_loop K nunits p (header_ptr (uh_mem u) p) u)"

definition malloc_units :: "nat \<Rightarrow> nat" where
  "malloc_units nbytes = (nbytes + sizeof_Header - 1) div sizeof_Header + 1"

definition malloc :: "kern \<Rightarrow> nat \<Rightarrow> uheap \<Rightarrow> (nat \<times> uheap) option" where
  "malloc K nbytes u =
     (let u = (if uh_freep u = 0
               then u\<lparr>uh_freep := uh_base u, uh_mem := set_size (uh_base u) 0 (set_ptr (uh_base u) (uh_base u) (uh_mem u))\<rparr>
               else u)
      in malloc_loop K (malloc_units nbytes) (uh_freep u) (header_ptr (uh_mem u) (uh_freep u)) u)"

section \<open>Headers in memory\<close>

definition far :: "nat \<Rightarrow> nat \<Rightarrow> bool" where
  "far a b \<longleftrightarrow> a + 16 \<le> b \<or> b + 16 \<le> a"

text \<open>\<open>m'\<close> differs from \<open>m\<close> at most in the headers at the addresses \<open>A\<close>.\<close>

definition only_headers :: "nat set \<Rightarrow> memory \<Rightarrow> memory \<Rightarrow> bool" where
  "only_headers A m m' \<longleftrightarrow> (\<forall>x. (\<forall>a \<in> A. x < a \<or> a + 16 \<le> x) \<longrightarrow> m' x = m x)"

lemma far_neq: "far a b \<Longrightarrow> a \<noteq> b"
  by (auto simp: far_def)

lemma far_sym: "far a b \<longleftrightarrow> far b a"
  by (auto simp: far_def)

lemma header_read:
  "v < 2 ^ 64 \<Longrightarrow> header_ptr (set_ptr a v m) a = v" "header_ptr (set_size a v m) a = header_ptr m a"
  "v < 2 ^ 32 \<Longrightarrow> header_size (set_size a v m) a = v" "header_size (set_ptr a v m) a = header_size m a"
  by (simp_all add: header_ptr_def header_size_def set_ptr_def set_size_def le_val_bytes read_write_other)

lemma header_other:
  assumes "only_headers A m m'" "\<forall>a \<in> A. far a b"
  shows "header_ptr m' b = header_ptr m b" "header_size m' b = header_size m b"
proof -
  have "m' (b + i) = m (b + i)" if "i < 16" for i
    using assms that by (auto simp: only_headers_def far_def elim!: allE [of _ "b + i"])
  then have "read_bytes m' b 8 = read_bytes m b 8" "read_bytes m' (b + 8) 4 = read_bytes m (b + 8) 4"
    by (auto simp: read_bytes_def add.assoc)
  then show "header_ptr m' b = header_ptr m b" "header_size m' b = header_size m b"
    by (simp_all add: header_ptr_def header_size_def)
qed

lemma only_headers_set: "only_headers {a} m (set_ptr a v m)" "only_headers {a} m (set_size a v m)"
  by (auto simp: only_headers_def set_ptr_def set_size_def write_bytes_def)

lemma only_headers_trans: "only_headers A m m1 \<Longrightarrow> only_headers B m1 m2 \<Longrightarrow> only_headers (A \<union> B) m m2"
  by (auto simp: only_headers_def)

lemma only_headers_refl: "only_headers A m m"
  by (simp add: only_headers_def)

lemma only_headers_mono: "only_headers A m m' \<Longrightarrow> A \<subseteq> B \<Longrightarrow> only_headers B m m'"
  by (auto simp: only_headers_def)

section \<open>The free list\<close>

text \<open>A piece of the linked list: from \<open>p\<close> the headers \<open>as\<close> follow one another, and the last one points to \<open>q\<close>.\<close>

fun piece :: "memory \<Rightarrow> nat \<Rightarrow> nat list \<Rightarrow> nat \<Rightarrow> bool" where
  "piece m p [] q \<longleftrightarrow> p = q"
| "piece m p (a # as) q \<longleftrightarrow> p = a \<and> piece m (header_ptr m a) as q"

lemma piece_append [simp]: "piece m p (as @ bs) q \<longleftrightarrow> (\<exists>r. piece m p as r \<and> piece m r bs q)"
  by (induction as arbitrary: p) auto

lemma piece_cong: "piece m p as q \<Longrightarrow> (\<And>a. a \<in> set as \<Longrightarrow> header_ptr m' a = header_ptr m a) \<Longrightarrow> piece m' p as q"
  by (induction as arbitrary: p) auto

lemma piece_same:
  "piece m p (map fst xs) q \<Longrightarrow> only_headers A m m' \<Longrightarrow> \<forall>x \<in> set xs. \<forall>a \<in> A. far a (fst x) \<Longrightarrow>
    piece m' p (map fst xs) q"
  by (erule piece_cong) (auto intro!: header_other(1))

lemma piece_start: "piece m p as q \<Longrightarrow> p = hd (as @ [q])"
  by (cases as) auto

lemma piece_succ: "piece m p as q \<Longrightarrow> a \<in> set as \<Longrightarrow> header_ptr m a \<in> set (as @ [q])"
proof (induction as arbitrary: p)
  case (Cons b as)
  then show ?case using piece_start [of m "header_ptr m b" as q] by (cases as) auto
qed simp

text \<open>A block is its header's address with its size in units of 16 bytes; \<open>base\<close> has size 0 but its header takes 16 bytes.\<close>

type_synonym block = "nat \<times> nat"

definition span :: "block \<Rightarrow> nat set" where
  "span x = {fst x ..< fst x + 16 * snd x}"

definition before_block :: "block \<Rightarrow> block \<Rightarrow> bool" where
  "before_block x y \<longleftrightarrow> fst x + 16 * max 1 (snd x) \<le> fst y"

definition apart :: "block \<Rightarrow> block \<Rightarrow> bool" where
  "apart x y \<longleftrightarrow> before_block x y \<or> before_block y x"

definition gap_before :: "block \<Rightarrow> block \<Rightarrow> bool" where
  "gap_before x y \<longleftrightarrow> before_block x y \<and> fst x + 16 * snd x \<noteq> fst y"

text \<open>
  \<open>m\<close> represents a heap with the free blocks \<open>fl\<close>, in the order of addresses and beginning with \<open>base\<close>, and the
  blocks \<open>lv\<close> in use: the list is circular, no two free blocks are adjacent, and the blocks are a partition of the memory
  \<open>G\<close> obtained from the kernel.
\<close>

definition heap_ok :: "memory \<Rightarrow> nat \<Rightarrow> block list \<Rightarrow> block set \<Rightarrow> nat set \<Rightarrow> bool" where
  "heap_ok m b fl lv G \<longleftrightarrow>
     0 < b \<and> fl \<noteq> [] \<and> hd fl = (b, 0) \<and> sorted_wrt gap_before fl \<and> piece m b (map fst fl) b \<and>
     (\<forall>x \<in> set fl. header_size m (fst x) = snd x) \<and> (\<forall>x \<in> set (tl fl). 1 \<le> snd x) \<and>
     (\<forall>x \<in> lv. header_size m (fst x) = snd x \<and> 1 \<le> snd x) \<and>
     (\<forall>x \<in> lv. \<forall>y \<in> set fl. apart x y) \<and> (\<forall>x \<in> lv. \<forall>y \<in> lv. x \<noteq> y \<longrightarrow> apart x y) \<and>
     (\<Union>x \<in> lv \<union> set (tl fl). span x) = G \<and> G \<subseteq> {b + 16 ..< 2 ^ 36}"

text \<open>The contents of the blocks in use, beyond their headers.\<close>

definition same_contents :: "block set \<Rightarrow> memory \<Rightarrow> memory \<Rightarrow> bool" where
  "same_contents lv m m' \<longleftrightarrow> (\<forall>x \<in> lv. \<forall>i \<in> {fst x + 16 ..< fst x + 16 * snd x}. m' i = m i)"

lemmas block_defs = apart_def before_block_def gap_before_def far_def span_def

lemma heap_okD:
  assumes "heap_ok m b fl lv G"
  shows "0 < b" "fl \<noteq> []" "hd fl = (b, 0)" "sorted_wrt gap_before fl" "piece m b (map fst fl) b"
    and "x \<in> set fl \<Longrightarrow> header_size m (fst x) = snd x" "x \<in> set (tl fl) \<Longrightarrow> 1 \<le> snd x"
    and "x \<in> lv \<Longrightarrow> header_size m (fst x) = snd x" "x \<in> lv \<Longrightarrow> 1 \<le> snd x"
    and "x \<in> lv \<Longrightarrow> y \<in> set fl \<Longrightarrow> apart x y" "x \<in> lv \<Longrightarrow> y \<in> lv \<Longrightarrow> x \<noteq> y \<Longrightarrow> apart x y"
    and "(\<Union>x \<in> lv \<union> set (tl fl). span x) = G" "G \<subseteq> {b + 16 ..< 2 ^ 36}"
  using assms by (auto simp: heap_ok_def)

lemma heap_okI:
  assumes "heap_ok m b fl lv G" "fl' \<noteq> []" "hd fl' = (b, 0)" "sorted_wrt gap_before fl'" "piece m' b (map fst fl') b"
    and "\<And>x. x \<in> set fl' \<Longrightarrow> header_size m' (fst x) = snd x" "\<And>x. x \<in> set (tl fl') \<Longrightarrow> 1 \<le> snd x"
    and "\<And>x. x \<in> lv' \<Longrightarrow> header_size m' (fst x) = snd x \<and> 1 \<le> snd x"
    and "\<And>x y. x \<in> lv' \<Longrightarrow> y \<in> set fl' \<Longrightarrow> apart x y" "\<And>x y. x \<in> lv' \<Longrightarrow> y \<in> lv' \<Longrightarrow> x \<noteq> y \<Longrightarrow> apart x y"
    and "(\<Union>x \<in> lv' \<union> set (tl fl'). span x) = G"
  shows "heap_ok m' b fl' lv' G"
  using assms heap_okD(1,13) [OF assms(1)] by (auto simp: heap_ok_def)

lemma apart_sym: "apart x y \<longleftrightarrow> apart y x"
  by (auto simp: apart_def)

lemma apart_far: "apart x y \<Longrightarrow> far (fst x) (fst y)"
  by (auto simp: block_defs)

text \<open>The blocks of the list on both sides of one of them.\<close>

lemma list_split:
  assumes "heap_ok m b (xs @ x # ys) lv G"
  shows "z \<in> set xs \<Longrightarrow> gap_before z x" "z \<in> set ys \<Longrightarrow> gap_before x z" "z \<in> set xs \<Longrightarrow> w \<in> set ys \<Longrightarrow> gap_before z w"
    "header_ptr m (fst x) = hd (map fst ys @ [b])"
proof -
  show "z \<in> set xs \<Longrightarrow> gap_before z x" "z \<in> set ys \<Longrightarrow> gap_before x z" "z \<in> set xs \<Longrightarrow> w \<in> set ys \<Longrightarrow> gap_before z w"
    using heap_okD(4) [OF assms] by (auto simp: sorted_wrt_append)
  show "header_ptr m (fst x) = hd (map fst ys @ [b])"
    using heap_okD(5) [OF assms] by (auto dest: piece_start)
qed

lemma list_apart:
  assumes "heap_ok m b (xs @ x # ys) lv G"
  shows "\<forall>z \<in> set xs \<union> set ys \<union> lv. apart x z" "\<forall>z \<in> set xs \<union> set ys \<union> lv. far (fst x) (fst z)"
proof -
  have "apart x z" if "z \<in> set xs \<union> set ys" for z
    using that list_split(1,2) [OF assms, of z] by (auto simp: apart_def gap_before_def)
  moreover have "apart x z" if "z \<in> lv" for z using that heap_okD(10) [OF assms, of z x] apart_sym by auto
  ultimately show "\<forall>z \<in> set xs \<union> set ys \<union> lv. apart x z" by blast
  then show "\<forall>z \<in> set xs \<union> set ys \<union> lv. far (fst x) (fst z)" using apart_far by blast
qed

lemma in_span: "heap_ok m b fl lv G \<Longrightarrow> x \<in> set (tl fl) \<union> lv \<Longrightarrow> b + 16 \<le> fst x \<and> fst x + 16 * snd x \<le> 2 ^ 36"
proof -
  assume h: "heap_ok m b fl lv G" and x: "x \<in> set (tl fl) \<union> lv"
  have n: "1 \<le> snd x" using heap_okD(7,9) [OF h, of x] x by blast
  have "span x \<subseteq> {b + 16 ..< 2 ^ 36}" using heap_okD(12,13) [OF h] x by blast
  moreover have "fst x \<in> span x" "fst x + 16 * snd x - 1 \<in> span x" using n by (auto simp: span_def)
  ultimately have "b + 16 \<le> fst x" "fst x + 16 * snd x - 1 < 2 ^ 36" by (meson atLeastLessThan_iff subsetD)+
  then show ?thesis by simp
qed

section \<open>Taking a block\<close>

text \<open>A block of the list, other than \<open>base\<close>, that is large enough, together with its predecessor.\<close>

lemma take_split:
  assumes h: "heap_ok m b fl lv G" and p: "p \<in> fst ` set fl" "prevp \<in> fst ` set fl" "header_ptr m prevp = p"
    and n: "1 \<le> n" "n \<le> header_size m p"
  obtains xs k ys where "fl = xs @ (prevp, k) # (p, header_size m p) # ys"
proof -
  obtain k where "(prevp, k) \<in> set fl" using p(2) by force
  then obtain xs ys where fl: "fl = xs @ (prevp, k) # ys" by (metis split_list)
  have nx: "p = hd (map fst ys @ [b])" using list_split(4) [of m b xs "(prevp, k)" ys] h p(3) fl by simp
  have "header_size m b = 0" using heap_okD(2,3,6) [OF h] by (metis fst_conv hd_in_set snd_conv)
  then have "p \<noteq> b" using n by auto
  then obtain y zs where ys: "ys = y # zs" using nx by (cases ys) auto
  then have "y = (p, header_size m p)" using nx heap_okD(6) [OF h, of y] fl by (cases y) auto
  then show ?thesis using that fl ys by blast
qed

lemma contents_apart:
  assumes "only_headers (fst ` B) m m'" "\<forall>y \<in> B. \<forall>x \<in> lv. apart y x"
  shows "same_contents lv m m'"
  unfolding same_contents_def
proof (intro ballI)
  fix x i
  assume x: "x \<in> lv" "i \<in> {fst x + 16 ..< fst x + 16 * snd x}"
  have "i < fst y \<or> fst y + 16 \<le> i" if "y \<in> B" for y
  proof -
    have "apart y x" using assms(2) that x(1) by blast
    then show ?thesis using x(2) by (auto simp: apart_def before_block_def)
  qed
  then show "m' i = m i" using assms(1) by (auto simp: only_headers_def)
qed

lemma take_exact:
  assumes h: "heap_ok m b (xs @ (prevp, k) # (p, n) # ys) lv G" and m': "m' = set_ptr prevp (header_ptr m p) m"
  shows "heap_ok m' b (xs @ (prevp, k) # ys) (insert (p, n) lv) G \<and> same_contents lv m m' \<and> (\<forall>x \<in> lv. apart x (p, n))"
proof -
  let ?fl = "xs @ (prevp, k) # (p, n) # ys"
  have s: "sorted_wrt gap_before ?fl" by (rule heap_okD(4) [OF h])
  have only: "only_headers {prevp} m m'" by (simp add: m' only_headers_set)
  have far: "\<forall>x \<in> set xs \<union> set ((p, n) # ys) \<union> lv. far prevp (fst x)"
    using list_apart(2) [OF h] by auto
  then have sz: "\<forall>x \<in> set xs \<union> set ((p, n) # ys) \<union> lv. header_size m' (fst x) = header_size m (fst x)"
    using header_other(2) [OF only] by auto
  have hp: "header_ptr m p = hd (map fst ys @ [b])"
    using list_split(4) [of m b "xs @ [(prevp, k)]" "(p, n)" ys lv G] h by simp
  have "header_ptr m p < 2 ^ 36"
  proof (cases ys)
    case Nil
    have "(p, n) \<in> set (tl ?fl)" by (cases xs) auto
    then show ?thesis using in_span [OF h, of "(p, n)"] hp Nil by simp
  next
    case (Cons y zs)
    have "y \<in> set (tl ?fl)" "1 \<le> snd y" using Cons heap_okD(7) [OF h, of y] by (cases xs; simp)+
    then show ?thesis using in_span [OF h, of y] hp Cons by simp
  qed
  then have r: "header_ptr m' prevp = header_ptr m p" "header_size m' prevp = header_size m prevp"
    using header_read(1) [of "header_ptr m p"] header_read(4) by (simp_all add: m')
  have pc: "piece m' b (map fst (xs @ (prevp, k) # ys)) b"
  proof -
    have "piece m b (map fst xs) prevp" "piece m (header_ptr m p) (map fst ys) b" using heap_okD(5) [OF h] by auto
    then have "piece m' b (map fst xs) prevp" "piece m' (header_ptr m p) (map fst ys) b"
      using far by (auto intro!: piece_same [OF _ only])
    then show ?thesis using r(1) by auto
  qed
  have hd: "hd (xs @ (prevp, k) # ys) = (b, 0)" using heap_okD(3) [OF h] by (cases xs) auto
  have tls: "insert (p, n) (set (tl (xs @ (prevp, k) # ys))) = set (tl ?fl)" by (cases xs) auto
  have ap: "\<forall>y \<in> set xs \<union> {(prevp, k)} \<union> set ys. apart (p, n) y"
    using list_apart(1) [of m b "xs @ [(prevp, k)]" "(p, n)" ys] h by auto
  have lp: "\<forall>x \<in> lv. apart x (p, n)" using heap_okD(10) [OF h] by simp
  have pn: "header_size m p = n" "1 \<le> n" using heap_okD(6) [OF h, of "(p, n)"] heap_okD(7) [OF h, of "(p, n)"] tls by auto
  have "heap_ok m' b (xs @ (prevp, k) # ys) (insert (p, n) lv) G"
  proof (rule heap_okI [OF h _ hd _ pc])
    show "sorted_wrt gap_before (xs @ (prevp, k) # ys)" using s by (auto simp: sorted_wrt_append)
    show "header_size m' (fst x) = snd x" if "x \<in> set (xs @ (prevp, k) # ys)" for x
      using that r(2) sz heap_okD(6) [OF h, of x] by auto
    show "1 \<le> snd x" if "x \<in> set (tl (xs @ (prevp, k) # ys))" for x using that tls heap_okD(7) [OF h, of x] by auto
    show "header_size m' (fst x) = snd x \<and> 1 \<le> snd x" if "x \<in> insert (p, n) lv" for x
      using that sz pn heap_okD(8,9) [OF h, of x] by auto
    show "apart x y" if "x \<in> insert (p, n) lv" "y \<in> set (xs @ (prevp, k) # ys)" for x y
      using that ap heap_okD(10) [OF h, of x y] by auto
    show "apart x y" if "x \<in> insert (p, n) lv" "y \<in> insert (p, n) lv" "x \<noteq> y" for x y
      using that lp apart_sym [of x y] heap_okD(11) [OF h, of x y] by auto
    show "(\<Union>x \<in> insert (p, n) lv \<union> set (tl (xs @ (prevp, k) # ys)). span x) = G"
      unfolding heap_okD(12) [OF h, symmetric] tls [symmetric] by simp
  qed simp
  moreover have "same_contents lv m m'"
    by (rule contents_apart [of "{(prevp, k)}"]) (use only list_apart(1) [OF h] in simp_all)
  ultimately show ?thesis using lp by blast
qed

lemma take_tail:
  assumes h: "heap_ok m b (xs @ (p, k) # ys) lv G" "xs \<noteq> []" and n: "1 \<le> n" "n < k"
    and m': "m' = set_size (p + 16 * (k - n)) n (set_size p (k - n) m)"
  shows "heap_ok m' b (xs @ (p, k - n) # ys) (insert (p + 16 * (k - n), n) lv) G \<and> same_contents lv m m' \<and>
    (\<forall>x \<in> lv. apart x (p + 16 * (k - n), n))"
proof -
  let ?q = "p + 16 * (k - n)"
  have s: "sorted_wrt gap_before (xs @ (p, k) # ys)" by (rule heap_okD(4) [OF h(1)])
  have tls: "set (tl (xs @ (p, j) # ys)) = set (tl xs) \<union> {(p, j)} \<union> set ys" for j using h(2) by (cases xs) auto
  have k: "16 \<le> p" "p + 16 * k \<le> 2 ^ 36" using in_span [OF h(1), of "(p, k)"] tls [of k] by auto
  have qp: "p + 16 \<le> ?q" "?q + 16 * n = p + 16 * k" using n by auto
  have only: "only_headers {p, ?q} m m'"
    using only_headers_trans [OF only_headers_set(2) [of p] only_headers_set(2) [of ?q]] by (simp add: m' insert_commute)
  have inner: "apart (p, k - n) z \<and> apart (?q, n) z \<and> far p (fst z) \<and> far ?q (fst z)" if "apart (p, k) z" for z
    using that n qp by (auto simp: block_defs)
  have ap: "\<forall>z \<in> set xs \<union> set ys \<union> lv. apart (p, k - n) z \<and> apart (?q, n) z \<and> far p (fst z) \<and> far ?q (fst z)"
    using list_apart(1) [OF h(1)] inner by blast
  then have sz: "\<forall>x \<in> set xs \<union> set ys \<union> lv. header_size m' (fst x) = header_size m (fst x)"
    using header_other(2) [OF only] by auto
  have far: "far p ?q" using qp by (auto simp: far_def)
  have lt: "k < 2 ^ 32" using k by simp
  have sp: "header_size m' p = k - n" "header_size m' ?q = n" "header_ptr m' p = header_ptr m p"
    using header_other [OF only_headers_set(2) [of ?q "set_size p (k - n) m" n], of p] far far_sym lt n
    by (auto simp: m' header_read)
  have pc: "piece m' b (map fst (xs @ (p, k - n) # ys)) b"
  proof -
    have "piece m b (map fst xs) p" "piece m (header_ptr m p) (map fst ys) b" using heap_okD(5) [OF h(1)] by auto
    then have "piece m' b (map fst xs) p" "piece m' (header_ptr m p) (map fst ys) b"
      using ap by (auto intro!: piece_same [OF _ only])
    then show ?thesis using sp(3) by auto
  qed
  have "heap_ok m' b (xs @ (p, k - n) # ys) (insert (?q, n) lv) G"
  proof (rule heap_okI [OF h(1) _ _ _ pc])
    show "hd (xs @ (p, k - n) # ys) = (b, 0)" using heap_okD(3) [OF h(1)] h(2) by simp
    have "gap_before (p, k - n) y" if "gap_before (p, k) y" for y using that n by (auto simp: block_defs)
    moreover have "gap_before y (p, k - n)" if "gap_before y (p, k)" for y using that by (auto simp: block_defs)
    ultimately show "sorted_wrt gap_before (xs @ (p, k - n) # ys)" using s by (auto simp: sorted_wrt_append)
    show "header_size m' (fst x) = snd x" if "x \<in> set (xs @ (p, k - n) # ys)" for x
      using that sp(1) sz heap_okD(6) [OF h(1), of x] by auto
    show "1 \<le> snd x" if "x \<in> set (tl (xs @ (p, k - n) # ys))" for x
      using that tls heap_okD(7) [OF h(1), of x] n(2) by auto
    show "header_size m' (fst x) = snd x \<and> 1 \<le> snd x" if "x \<in> insert (?q, n) lv" for x
      using that sz sp(2) n heap_okD(8,9) [OF h(1), of x] by auto
    show "apart x y" if "x \<in> insert (?q, n) lv" "y \<in> set (xs @ (p, k - n) # ys)" for x y
    proof -
      have "apart (?q, n) (p, k - n)" using n by (simp add: block_defs)
      then show ?thesis using that ap apart_sym [of x y] heap_okD(10) [OF h(1), of x y] by auto
    qed
    show "apart x y" if "x \<in> insert (?q, n) lv" "y \<in> insert (?q, n) lv" "x \<noteq> y" for x y
      using that ap apart_sym [of x y] heap_okD(11) [OF h(1), of x y] by auto
    have "span (?q, n) \<union> span (p, k - n) = span (p, k)" using n by (auto simp: span_def)
    then show "(\<Union>x \<in> insert (?q, n) lv \<union> set (tl (xs @ (p, k - n) # ys)). span x) = G"
      using heap_okD(12) [OF h(1)] tls by auto
  qed simp
  moreover have "same_contents lv m m'"
    by (rule contents_apart [of "{(p, k - n), (?q, n)}"]) (use only ap in simp_all)
  ultimately show ?thesis using ap apart_sym by blast
qed

lemma malloc_take_spec:
  assumes h: "heap_ok (uh_mem u) b fl lv G" and p: "p \<in> fst ` set fl" "prevp \<in> fst ` set fl" "header_ptr (uh_mem u) prevp = p"
    and n: "1 \<le> n" "n \<le> header_size (uh_mem u) p"
  obtains q m' fl' where "malloc_take n prevp p u = (q + 16, u\<lparr>uh_mem := m', uh_freep := prevp\<rparr>)"
    "heap_ok m' b fl' (insert (q, n) lv) G" "prevp \<in> fst ` set fl'" "same_contents lv (uh_mem u) m'" "\<forall>x \<in> lv. apart x (q, n)"
proof -
  let ?m = "uh_mem u" let ?k = "header_size (uh_mem u) p"
  obtain xs k ys where fl: "fl = xs @ (prevp, k) # (p, ?k) # ys" using take_split [OF h p n] .
  show thesis
  proof (cases "?k = n")
    case True
    then show thesis using take_exact [of ?m b xs prevp k p n ys lv G] h fl
      by (intro that [of p "set_ptr prevp (header_ptr ?m p) ?m" "xs @ (prevp, k) # ys"]) (auto simp: malloc_take_def sizeof_Header_def Let_def)
  next
    case False
    let ?q = "p + 16 * (?k - n)" and ?m1 = "set_size p (?k - n) ?m"
    have "heap_ok ?m b ((xs @ [(prevp, k)]) @ (p, ?k) # ys) lv G" using h fl by simp
    note t = take_tail [OF this _ n(1) _ refl]
    have "(p, ?k) \<in> set (tl fl)" using fl by (cases xs) auto
    then have "?k < 2 ^ 32" using in_span [OF h, of "(p, ?k)"] by simp
    then have "?k - n < 2 ^ 32" by (rule less_imp_diff_less)
    then have "header_size ?m1 p = ?k - n" by (rule header_read(3))
    then show thesis using t False n(2)
      by (intro that [of ?q "set_size ?q n ?m1" "xs @ (prevp, k) # (p, ?k - n) # ys"])
        (auto simp: malloc_take_def sizeof_Header_def Let_def)
  qed
qed

section \<open>Releasing a block\<close>

text \<open>
  The piece \<open>zs\<close> replaces the list element \<open>(p, k)\<close> and takes in the block \<open>y\<close> that is released, and possibly the element that
  followed.
\<close>

lemma relink:
  assumes h: "heap_ok m b (xs @ (p, k) # ds @ ys) (insert y lv) G" "y \<notin> lv"
    and only: "only_headers {p, fst y} m m'"
    and zs: "fst (hd zs) = p" "zs \<noteq> []" "piece m' p (map fst zs) (hd (map fst ys @ [b]))"
      "\<forall>z \<in> set zs. header_size m' (fst z) = snd z" "sorted_wrt gap_before zs"
      "\<forall>z \<in> set zs. \<forall>w \<in> set xs. gap_before w z" "\<forall>z \<in> set zs. \<forall>w \<in> set ys. gap_before z w"
      "\<forall>z \<in> set zs. \<forall>x \<in> lv. apart x z" "\<forall>z \<in> set (tl zs). 1 \<le> snd z" "xs = [] \<Longrightarrow> hd zs = (p, k)"
      "xs \<noteq> [] \<Longrightarrow> 1 \<le> snd (hd zs)"
      "(\<Union>z \<in> set zs. span z) = span (p, k) \<union> span y \<union> (\<Union>z \<in> set ds. span z)"
  shows "heap_ok m' b (xs @ zs @ ys) lv G \<and> same_contents lv m m'"
proof -
  have s: "sorted_wrt gap_before (xs @ (p, k) # ds @ ys)" by (rule heap_okD(4) [OF h(1)])
  obtain z zt where z: "zs = z # zt" using zs(2) by (cases zs) auto
  have base: "xs = [] \<Longrightarrow> (p, k) = (b, 0)" using heap_okD(3) [OF h(1)] by auto
  have far: "\<forall>x \<in> set xs \<union> set ys \<union> lv. far p (fst x) \<and> far (fst y) (fst x)" (is "\<forall>x \<in> _. ?far x")
  proof
    fix x assume x: "x \<in> set xs \<union> set ys \<union> lv"
    have "far p (fst x)" using x list_apart(2) [OF h(1)] by auto
    moreover have "apart y x"
      using x h(2) heap_okD(10) [OF h(1), of y x] heap_okD(11) [OF h(1), of y x] by auto
    ultimately show "?far x" using apart_far by blast
  qed
  have sz: "\<forall>x \<in> set xs \<union> set ys \<union> lv. header_size m' (fst x) = snd x"
    using header_other(2) [OF only] far heap_okD(6,8) [OF h(1)] by auto
  have pc: "piece m' b (map fst (xs @ zs @ ys)) b"
  proof -
    obtain r where "piece m b (map fst xs) p" "piece m r (map fst ys) b" using heap_okD(5) [OF h(1)] by auto
    then have "piece m' b (map fst xs) p" "piece m' r (map fst ys) b" using far by (auto intro!: piece_same [OF _ only])
    moreover have "r = hd (map fst ys @ [b])" using calculation(2) piece_start by blast
    ultimately show ?thesis using zs(3) by auto
  qed
  have "heap_ok m' b (xs @ zs @ ys) lv G"
  proof (rule heap_okI [OF h(1) _ _ _ pc])
    show "xs @ zs @ ys \<noteq> []" using zs(2) by simp
    show "hd (xs @ zs @ ys) = (b, 0)" using heap_okD(3) [OF h(1)] zs(2,10) by (cases xs) auto
    show "sorted_wrt gap_before (xs @ zs @ ys)" using s zs(5-7) by (auto simp: sorted_wrt_append)
    show "header_size m' (fst x) = snd x" if "x \<in> set (xs @ zs @ ys)" for x using that sz zs(4) by auto
    show "1 \<le> snd x" if "x \<in> set (tl (xs @ zs @ ys))" for x
      using that heap_okD(7) [OF h(1), of x] zs(9,11) z by (cases xs) auto
    show "header_size m' (fst x) = snd x \<and> 1 \<le> snd x" if "x \<in> lv" for x
      using that sz heap_okD(9) [OF h(1), of x] by auto
    show "apart x w" if "x \<in> lv" "w \<in> set (xs @ zs @ ys)" for x w
      using that zs(8) heap_okD(10) [OF h(1), of x w] by auto
    show "apart x w" if "x \<in> lv" "w \<in> lv" "x \<noteq> w" for x w using that heap_okD(11) [OF h(1), of x w] by auto
    have e: "span (b, 0) = {}" by (simp add: span_def)
    have "(\<Union>x \<in> lv \<union> set (tl (xs @ zs @ ys)). span x) =
        (\<Union>x \<in> lv. span x) \<union> (\<Union>x \<in> set (tl xs). span x) \<union> (\<Union>x \<in> set zs. span x) \<union> (\<Union>x \<in> set ys. span x)"
      using zs(10) base e z by (cases xs) auto
    also have "\<dots> = (\<Union>x \<in> insert y lv \<union> set (tl (xs @ (p, k) # ds @ ys)). span x)"
      unfolding zs(12) using base e by (cases xs) auto
    finally show "(\<Union>x \<in> lv \<union> set (tl (xs @ zs @ ys)). span x) = G" using heap_okD(12) [OF h(1)] by simp
  qed
  moreover have "same_contents lv m m'"
    by (rule contents_apart [of "{(p, k), y}"])
      (use only h(2) list_apart(1) [OF h(1)] heap_okD(11) [OF h(1), of y] in auto)
  ultimately show ?thesis by blast
qed

text \<open>The first half of \<open>free_link\<close>: the block at \<open>bp\<close> absorbs its upper neighbour if that is free.\<close>

lemma merge_next:
  assumes h: "heap_ok m b (xs @ (p, k) # ys) (insert (bp, n) lv) G" "(bp, n) \<notin> lv" and o: "p < bp" "\<forall>y \<in> set ys. bp < fst y"
    and m1: "m1 = free_next bp p m"
  obtains ds zs n' where "ys = ds @ zs" "header_size m1 bp = n'" "header_ptr m1 bp = hd (map fst zs @ [b])"
    "only_headers {bp} m m1" "n \<le> n'" "bp + 16 * n' \<le> 2 ^ 36" "span (bp, n') = span (bp, n) \<union> (\<Union>z \<in> set ds. span z)"
    "\<forall>z \<in> set zs. gap_before (bp, n') z" "\<forall>x \<in> lv. apart x (bp, n')"
proof -
  have n: "header_size m bp = n" "1 \<le> n" "bp + 16 * n \<le> 2 ^ 36" "b + 16 \<le> bp"
    using heap_okD(8,9) [OF h(1), of "(bp, n)"] in_span [OF h(1), of "(bp, n)"] by auto
  have nx: "header_ptr m p = hd (map fst ys @ [b])" using list_split(4) [OF h(1)] by simp
  have lv: "\<forall>x \<in> lv. apart x (bp, n)" using h(2) heap_okD(11) [OF h(1), of _ "(bp, n)"] by auto
  have up: "before_block (bp, n) y" if "y \<in> set ys" for y
    using heap_okD(10) [OF h(1), of "(bp, n)" y] that o(2) by (auto simp: apart_def before_block_def)
  have tls: "ys = y # zs \<Longrightarrow> {y} \<union> set zs \<subseteq> set (tl (xs @ (p, k) # ys))" for y zs by (cases xs) auto
  show thesis
  proof (cases "bp + 16 * n = header_ptr m p")
    case True
    then obtain y zs where ys: "ys = y # zs" using nx n by (cases ys) auto
    then have y: "fst y = bp + 16 * n" using True nx by simp
    have h': "heap_ok m b ((xs @ [(p, k)]) @ y # zs) (insert (bp, n) lv) G" using h(1) ys by simp
    have k: "1 \<le> snd y" "header_size m (fst y) = snd y" "fst y + 16 * snd y \<le> 2 ^ 36"
      using heap_okD(6,7) [OF h(1), of y] in_span [OF h(1), of y] tls [OF ys] ys by auto
    have far: "far bp (fst y)" using y n(2) by (auto simp: far_def)
    let ?m = "set_size bp (n + snd y) m"
    have "header_ptr ?m p = header_ptr m p"
      using header_other(1) [OF only_headers_set(2) [of bp m "n + snd y"], of p] list_apart(2) [OF h(1)] far_sym [of p bp] by simp
    then have e: "m1 = set_ptr bp (header_ptr ?m (fst y)) ?m"
      using True n(1) nx ys k(2) by (simp add: m1 free_next_def sizeof_Header_def Let_def)
    have p2: "header_ptr ?m (fst y) = hd (map fst zs @ [b])"
      using header_other(1) [OF only_headers_set(2) [of bp m "n + snd y"], of "fst y"] far list_split(4) [OF h'] by simp
    have lt: "hd (map fst zs @ [b]) < 2 ^ 64" 
    proof (cases zs)
      case (Cons w ws)
      then show ?thesis using in_span [OF h(1), of w] tls [OF ys] by auto
    qed (use n in simp)
    have sz: "n + snd y < 2 ^ 32" using k(3) y n(4) by simp
    show thesis
    proof (rule that [of "[y]" zs "n + snd y"])
      show "header_ptr m1 bp = hd (map fst zs @ [b])" using e p2 lt header_read(1) by simp
      show "header_size m1 bp = n + snd y" using e sz by (simp add: header_read)
      show "only_headers {bp} m m1"
        using only_headers_trans [OF only_headers_set(2) [of bp m "n + snd y"] only_headers_set(1) [of bp]] e by simp
      show "span (bp, n + snd y) = span (bp, n) \<union> (\<Union>z \<in> set [y]. span z)" using y by (auto simp: span_def)
      show "\<forall>z \<in> set zs. gap_before (bp, n + snd y) z"
      proof
        fix z assume "z \<in> set zs"
        then show "gap_before (bp, n + snd y) z"
          using list_split(2) [OF h', of z] y k(1) n(2) by (auto simp: gap_before_def before_block_def)
      qed
      show "\<forall>x \<in> lv. apart x (bp, n + snd y)"
      proof
        fix x assume x: "x \<in> lv"
        have "apart x (bp, n)" "apart x y" using x lv heap_okD(10) [OF h(1), of x y] ys by auto
        moreover have "1 \<le> snd x" using heap_okD(9) [OF h(1), of x] x by simp
        ultimately show "apart x (bp, n + snd y)" using y k(1) n(2) by (auto simp: apart_def before_block_def max_def)
      qed
    qed (use ys k y in auto)
  next
    case False
    then have e: "m1 = set_ptr bp (header_ptr m p) m" using n(1) by (simp add: m1 free_next_def sizeof_Header_def)
    have lt: "hd (map fst ys @ [b]) < 2 ^ 64"
    proof (cases ys)
      case (Cons w ws)
      then show ?thesis using in_span [OF h(1), of w] tls [OF Cons] by auto
    qed (use n in simp)
    have "\<forall>z \<in> set ys. gap_before (bp, n) z"
    proof
      fix z assume z: "z \<in> set ys"
      then obtain y zs where ys: "ys = y # zs" by (cases ys) auto
      have "bp + 16 * n \<noteq> fst z"
      proof (cases "z = y")
        case True
        then show ?thesis using False nx ys by simp
      next
        case F: False
        then have "gap_before y z" using z ys heap_okD(4) [OF h(1)] by (auto simp: sorted_wrt_append)
        then show ?thesis using up [of y] ys n(2) by (auto simp: gap_before_def before_block_def)
      qed
      then show "gap_before (bp, n) z" using up [OF z] by (simp add: gap_before_def)
    qed
    then show thesis using that [of "[]" ys n] e n lt nx lv only_headers_set(1) by (simp add: header_read)
  qed
qed

lemma free_link_spec:
  assumes h: "heap_ok m b fl (insert (bp, n) lv) G" "(bp, n) \<notin> lv" and fl: "fl = xs @ (p, k) # ys"
    and o: "p < bp" "\<forall>y \<in> set ys. bp < fst y"
  obtains fl' where "heap_ok (free_link bp p m) b fl' lv G" "same_contents lv m (free_link bp p m)" "p \<in> fst ` set fl'"
    "\<exists>x \<in> set fl'. n \<le> snd x"
proof -
  define m1 where "m1 = free_next bp p m"
  have h': "heap_ok m b (xs @ (p, k) # ys) (insert (bp, n) lv) G" using h(1) fl by simp
  obtain ds zs n' where d: "ys = ds @ zs" "header_size m1 bp = n'" "header_ptr m1 bp = hd (map fst zs @ [b])"
    "only_headers {bp} m m1" "n \<le> n'" "bp + 16 * n' \<le> 2 ^ 36" "span (bp, n') = span (bp, n) \<union> (\<Union>z \<in> set ds. span z)"
    "\<forall>z \<in> set zs. gap_before (bp, n') z" "\<forall>x \<in> lv. apart x (bp, n')"
    by (rule merge_next [OF h' h(2) o m1_def])
  have n: "1 \<le> n" "b + 16 \<le> bp" using heap_okD(9) [OF h(1), of "(bp, n)"] in_span [OF h(1), of "(bp, n)"] by auto
  have pb: "before_block (p, k) (bp, n)"
    using list_apart(1) [OF h'] o(1) by (auto simp: apart_def before_block_def)
  have far: "far bp p" using pb by (auto simp: before_block_def far_def)
  have p1: "header_size m1 p = k" "header_ptr m1 p = header_ptr m p"
    using header_other [OF d(4), of p] far heap_okD(6) [OF h', of "(p, k)"] by simp_all
  have xs: "\<forall>w \<in> set xs. gap_before w (p, k)" "\<forall>w \<in> set ys. gap_before (p, k) w" "\<forall>x \<in> lv. apart x (p, k)"
    using list_split(1,2) [OF h'] list_apart(1) [OF h'] apart_sym by auto
  have k: "xs \<noteq> [] \<Longrightarrow> 1 \<le> k" using heap_okD(7) [OF h', of "(p, k)"] by (cases xs) auto
  have base: "xs = [] \<Longrightarrow> p = b \<and> k = 0" using heap_okD(3) [OF h'] by auto
  have hr: "heap_ok m b (xs @ (p, k) # ds @ zs) (insert (bp, n) lv) G" using h' d(1) by simp
  have nxt: "hd (map fst zs @ [b]) < 2 ^ 64"
  proof (cases zs)
    case (Cons w ws)
    have "w \<in> set (tl (xs @ (p, k) # ys))" using Cons d(1) by (cases xs) auto
    then show ?thesis using Cons in_span [OF h', of w] by auto
  qed (use n d(6) in simp)
  show thesis
  proof (cases "p + 16 * k = bp")
    case True
    let ?m = "set_size p (k + n') m1"
    have xn: "xs \<noteq> []" using True base o(1) by auto
    then have "(p, k) \<in> set (tl (xs @ (p, k) # ys))" by (cases xs) auto
    then have lt: "k + n' < 2 ^ 32" using in_span [OF h', of "(p, k)"] True d(6) by auto
    have b2: "header_ptr ?m bp = hd (map fst zs @ [b])"
      using header_other(1) [OF only_headers_set(2) [of p m1 "k + n'"], of bp] far far_sym [of p bp] d(3) by simp
    have e: "free_link bp p m = set_ptr p (header_ptr ?m bp) ?m"
      using True p1(1) d(2) by (simp add: free_link_def m1_def [symmetric] Let_def sizeof_Header_def)
    let ?m' = "free_link bp p m"
    have f: "header_ptr ?m' p = hd (map fst zs @ [b])" "header_size ?m' p = k + n'"
      using e b2 nxt lt by (simp_all add: header_read)
    have "only_headers {p} m1 ?m'"
      using only_headers_trans [OF only_headers_set(2) [of p m1 "k + n'"] only_headers_set(1) [of p]] e by simp
    then have only: "only_headers {p, fst (bp, n)} m ?m'" using only_headers_trans [OF d(4)] by fastforce
    have "heap_ok ?m' b (xs @ [(p, k + n')] @ zs) lv G \<and> same_contents lv m ?m'"
    proof (rule relink [OF hr h(2) only])
      show "\<forall>z \<in> set [(p, k + n')]. \<forall>w \<in> set zs. gap_before z w"
        using d(8) True n(1) d(5) by (auto simp: gap_before_def before_block_def max_def)
      show "\<forall>z \<in> set [(p, k + n')]. \<forall>w \<in> set xs. gap_before w z" using xs(1) by (simp add: gap_before_def before_block_def)
      show "\<forall>z \<in> set [(p, k + n')]. \<forall>x \<in> lv. apart x z"
      proof (clarsimp simp del: split_paired_All)
        fix a j assume x: "(a, j) \<in> lv"
        have "apart (a, j) (p, k)" "apart (a, j) (bp, n')" using x xs(3) d(9) by auto
        moreover have "1 \<le> j" using heap_okD(9) [OF h(1), of "(a, j)"] x by simp
        ultimately show "apart (a, j) (p, k + n')" using True k [OF xn] n(1) d(5) by (auto simp: apart_def before_block_def max_def)
      qed
      have "span (p, k + n') = span (p, k) \<union> span (bp, n')" using True by (auto simp: span_def)
      then show "(\<Union>z \<in> set [(p, k + n')]. span z) = span (p, k) \<union> span (bp, n) \<union> (\<Union>z \<in> set ds. span z)" using d(7) by auto
    qed (use f k xn in auto)
    then show thesis using d(5) by (intro that) auto
  next
    case False
    let ?m' = "free_link bp p m"
    have e: "?m' = set_ptr p bp m1" using False p1(1) by (simp add: free_link_def m1_def [symmetric] Let_def sizeof_Header_def)
    have "bp < 2 ^ 64" using d(6) by simp
    then have f: "header_ptr ?m' p = bp" "header_size ?m' p = k" "header_ptr ?m' bp = hd (map fst zs @ [b])" "header_size ?m' bp = n'"
      using e p1(1) d(2,3) header_other [OF only_headers_set(1) [of p m1 bp], of bp] far far_sym [of p bp] by (simp_all add: header_read)
    have only: "only_headers {p, fst (bp, n)} m ?m'"
      using only_headers_trans [OF d(4) only_headers_set(1) [of p m1 bp]] e by (simp add: insert_commute)
    have g: "gap_before (p, k) (bp, n')" using pb False by (simp add: gap_before_def before_block_def)
    have "heap_ok ?m' b (xs @ [(p, k), (bp, n')] @ zs) lv G \<and> same_contents lv m ?m'"
    proof (rule relink [OF hr h(2) only])
      show "\<forall>z \<in> set [(p, k), (bp, n')]. \<forall>w \<in> set xs. gap_before w z"
        using xs(1) g n by (auto simp: gap_before_def before_block_def)
      show "\<forall>z \<in> set [(p, k), (bp, n')]. \<forall>w \<in> set zs. gap_before z w" using xs(2) d(1,8) by auto
      show "(\<Union>z \<in> set [(p, k), (bp, n')]. span z) = span (p, k) \<union> span (bp, n) \<union> (\<Union>z \<in> set ds. span z)"
        using d(7) by auto
    qed (use f k g xs(3) d(5,9) n in auto)
    then show thesis using d(5) by (intro that) auto
  qed
qed

section \<open>The searches\<close>

definition stops :: "memory \<Rightarrow> nat \<Rightarrow> nat \<Rightarrow> bool" where
  "stops m bp a \<longleftrightarrow> bp > a \<and> bp < header_ptr m a \<or> a \<ge> header_ptr m a \<and> (bp > a \<or> bp < header_ptr m a)"

lemma free_search_finds:
  "piece m p as q \<Longrightarrow> \<exists>a \<in> set as. stops m bp a \<Longrightarrow> \<exists>a \<in> set as. stops m bp a \<and> free_search m bp p = Some a"
proof (induction as arbitrary: p)
  case (Cons a as)
  show ?case
  proof (cases "stops m bp a")
    case True
    then show ?thesis using Cons.prems(1) by (auto simp: stops_def free_search.simps [of m bp a])
  next
    case False
    then have "free_search m bp a = free_search m bp (header_ptr m a)" by (auto simp: stops_def free_search.simps [of m bp a])
    then show ?thesis using Cons False by auto
  qed
qed simp

text \<open>The circular list seen from one of its elements.\<close>

lemma rotate_ring:
  assumes "heap_ok m b (xs @ x # ys) lv G"
  shows "piece m (fst x) (fst x # map fst ys @ map fst xs) (fst x)"
proof -
  obtain r where "piece m b (map fst xs) (fst x)" "piece m r (map fst ys) b" "header_ptr m (fst x) = r"
    using heap_okD(5) [OF assms] by auto
  then show ?thesis by auto
qed

text \<open>The element below the block that is released: the search stops there, and nowhere else.\<close>

lemma stops_below:
  assumes h: "heap_ok m b (xs @ x # ys) lv G" and bp: "b < bp" "\<forall>y \<in> set (xs @ x # ys). fst y \<noteq> bp"
  shows "stops m bp (fst x) \<longleftrightarrow> fst x < bp \<and> (\<forall>y \<in> set ys. bp < fst y)"
proof (cases ys)
  case Nil
  have "b \<le> fst x" using heap_okD(3) [OF h] list_split(1) [OF h, of "hd xs"] by (cases xs) (auto simp: gap_before_def before_block_def)
  then show ?thesis using list_split(4) [OF h] Nil bp(1) by (auto simp: stops_def)
next
  case (Cons y zs)
  have "fst x < fst y" using list_split(2) [OF h, of y] Cons by (auto simp: gap_before_def before_block_def)
  moreover have "\<forall>z \<in> set zs. fst y < fst z" using heap_okD(4) [OF h] Cons
    by (auto simp: sorted_wrt_append gap_before_def before_block_def)
  ultimately show ?thesis using list_split(4) [OF h] Cons bp by (auto simp: stops_def)
qed

lemma below_exists:
  assumes "heap_ok m b fl lv G" "b < bp"
  obtains xs x ys where "fl = xs @ x # ys" "fst x < bp" "\<forall>y \<in> set ys. bp \<le> fst y"
proof -
  have "\<exists>x \<in> set fl. fst x < bp" using heap_okD(2,3) [OF assms(1)] assms(2) by (metis fst_conv hd_in_set)
  from split_list_last_prop [OF this] show thesis using that by (metis not_less)
qed

lemma free_spec:
  assumes h: "heap_ok (uh_mem u) b fl (insert (bp, n) lv) G" "(bp, n) \<notin> lv" and f: "uh_freep u \<in> fst ` set fl"
  obtains p m' fl' where "free (bp + 16) u = Some (u\<lparr>uh_mem := m', uh_freep := p\<rparr>)" "heap_ok m' b fl' lv G"
    "same_contents lv (uh_mem u) m'" "p \<in> fst ` set fl'" "\<exists>x \<in> set fl'. n \<le> snd x"
proof -
  let ?m = "uh_mem u"
  have b: "b < bp" using in_span [OF h(1), of "(bp, n)"] by simp
  have ne: "\<forall>y \<in> set fl. fst y \<noteq> bp"
  proof
    fix y assume "y \<in> set fl"
    then have "far bp (fst y)" using heap_okD(10) [OF h(1), of "(bp, n)" y] apart_far [of "(bp, n)" y] by simp
    then show "fst y \<noteq> bp" by (auto simp: far_def)
  qed
  obtain xs x ys where x: "fl = xs @ x # ys" "fst x = uh_freep u" using f by (auto dest!: split_list)
  obtain us z vs where z: "fl = us @ z # vs" "fst z < bp" "\<forall>y \<in> set vs. bp \<le> fst y" by (rule below_exists [OF h(1) b])
  have "\<forall>y \<in> set vs. bp < fst y" using z(1,3) ne by (auto simp: le_less)
  then have "stops ?m bp (fst z)" using stops_below [of ?m b us z vs] h(1) b ne z by auto
  moreover have "fst z \<in> set (fst x # map fst ys @ map fst xs)"
  proof -
    have "z \<in> set fl" by (simp add: z(1))
    then show ?thesis using x(1) by auto
  qed
  moreover have "piece ?m (uh_freep u) (fst x # map fst ys @ map fst xs) (uh_freep u)"
    using rotate_ring [of ?m b xs x ys "insert (bp, n) lv" G] h(1) x by simp
  ultimately have "\<exists>a \<in> set (fst x # map fst ys @ map fst xs). stops ?m bp a \<and> free_search ?m bp (uh_freep u) = Some a"
    by (intro free_search_finds) blast+
  moreover have "set (fst x # map fst ys @ map fst xs) = fst ` set fl" using x(1) by auto
  ultimately obtain a where a: "a \<in> fst ` set fl" "stops ?m bp a" "free_search ?m bp (uh_freep u) = Some a" by metis
  obtain k where "(a, k) \<in> set fl" using a(1) by force
  then obtain ps qs where p: "fl = ps @ (a, k) # qs" by (metis split_list)
  have o: "a < bp" "\<forall>y \<in> set qs. bp < fst y" using stops_below [of ?m b ps "(a, k)" qs] h(1) b ne a(2) p by auto
  obtain fl' where "heap_ok (free_link bp a ?m) b fl' lv G" "same_contents lv ?m (free_link bp a ?m)" "a \<in> fst ` set fl'"
    "\<exists>x \<in> set fl'. n \<le> snd x"
    by (rule free_link_spec [OF h p o])
  then show thesis using a(3) by (intro that [of a "free_link bp a ?m" fl']) (simp_all add: free_def sizeof_Header_def)
qed

section \<open>Memory from the kernel\<close>

text \<open>The memory that earlier \<open>sbrk\<close> calls have granted, and what the allocator relies on: each grant lies above all of it.\<close>

fun grant :: "ucall \<times> ureply \<Rightarrow> nat set" where
  "grant (U_sbrk n t, r, bs) = (if r = SBRK_ERROR then {} else {nat r ..< nat (r + n)})"
| "grant _ = {}"

definition granted :: "(ucall \<times> ureply) list \<Rightarrow> nat set" where
  "granted cs = (\<Union>c \<in> set cs. grant c)"

definition sbrk_fresh :: "kern \<Rightarrow> nat \<Rightarrow> bool" where
  "sbrk_fresh K b \<longleftrightarrow> (\<forall>cs n r bs. K cs (U_sbrk n SBRK_EAGER) = (r, bs) \<longrightarrow> 0 < n \<longrightarrow> r \<noteq> SBRK_ERROR \<longrightarrow>
     int b + 16 \<le> r \<and> r + n \<le> 2 ^ 36 \<and> granted cs \<subseteq> {..< nat r})"

lemma granted_snoc: "granted (cs @ [c]) = granted cs \<union> grant c"
  by (auto simp: granted_def)

lemma add_block:
  assumes h: "heap_ok m b fl lv G" and r: "b + 16 \<le> r" "G \<subseteq> {..< r}" "r + 16 * n \<le> 2 ^ 36" "1 \<le> n"
  shows "heap_ok (set_size r n m) b fl (insert (r, n) lv) (G \<union> {r ..< r + 16 * n})" "same_contents lv m (set_size r n m)"
    "(r, n) \<notin> lv"
proof -
  let ?m = "set_size r n m"
  have bb: "before_block x (r, n)" if "x \<in> set fl \<union> lv" for x
  proof (cases "x = (b, 0)")
    case True
    then show ?thesis using r(1) by (simp add: before_block_def)
  next
    case False
    have x: "x \<in> set (tl fl) \<union> lv" using that False heap_okD(2,3) [OF h] by (cases fl) auto
    then have "1 \<le> snd x" using heap_okD(7,9) [OF h, of x] by blast
    moreover have "span x \<subseteq> {..< r}" using heap_okD(12) [OF h] x r(2) by blast
    moreover have "fst x + 16 * snd x - 1 \<in> span x" using calculation(1) by (auto simp: span_def)
    ultimately have "fst x + 16 * snd x - 1 < r" "1 \<le> snd x" by blast+
    then show ?thesis by (simp add: before_block_def max_def)
  qed
  have only: "only_headers {r} m ?m" by (rule only_headers_set)
  have far: "\<forall>x \<in> set fl \<union> lv. far r (fst x)" using bb apart_far [of "(r, n)"] by (auto simp: apart_def)
  have sz: "\<forall>x \<in> set fl \<union> lv. header_size ?m (fst x) = snd x"
    using header_other(2) [OF only] far heap_okD(6,8) [OF h] by auto
  have "piece ?m b (map fst fl) b" using heap_okD(5) [OF h] far by (auto intro!: piece_same [OF _ only])
  moreover have "header_size ?m r = n" using r by (intro header_read(3)) simp
  moreover have "(\<Union>x \<in> insert (r, n) lv \<union> set (tl fl). span x) = G \<union> {r ..< r + 16 * n}"
    using heap_okD(12) [OF h] by (auto simp: span_def)
  moreover have "apart x (r, n) \<and> apart (r, n) x" if "x \<in> set fl \<union> lv" for x using bb [OF that] by (simp add: apart_def)
  ultimately show "heap_ok ?m b fl (insert (r, n) lv) (G \<union> {r ..< r + 16 * n})"
    using h sz r unfolding heap_ok_def by auto
  show "same_contents lv m ?m" by (rule contents_apart [of "{(r, n)}"]) (use only bb in \<open>simp_all add: apart_def\<close>)
  show "(r, n) \<notin> lv" using bb [of "(r, n)"] by (auto simp: before_block_def)
qed

text \<open>A process whose heap is in order: the free list starts at \<open>freep\<close> or anywhere else on the ring.\<close>

definition heap_user :: "uheap \<Rightarrow> block list \<Rightarrow> block set \<Rightarrow> bool" where
  "heap_user u fl lv \<longleftrightarrow> heap_ok (uh_mem u) (uh_base u) fl lv (granted (u_calls u)) \<and> uh_freep u \<in> fst ` set fl"

lemma freep_nonzero: "heap_user u fl lv \<Longrightarrow> uh_freep u \<noteq> 0"
proof -
  assume h: "heap_user u fl lv"
  then obtain x where x: "x \<in> set fl" "uh_freep u = fst x" by (auto simp: heap_user_def)
  have ok: "heap_ok (uh_mem u) (uh_base u) fl lv (granted (u_calls u))" using h by (simp add: heap_user_def)
  show ?thesis
  proof (cases "x = hd fl")
    case True
    then show ?thesis using x(2) heap_okD(1,3) [OF ok] by simp
  next
    case False
    then have "x \<in> set (tl fl)" using x(1) by (cases fl) auto
    then show ?thesis using in_span [OF ok, of x] x(2) by simp
  qed
qed

lemma morecore_spec:
  assumes K: "sbrk_fresh K (uh_base u)" and h: "heap_user u fl lv" and n: "16 * n < 2 ^ 31"
  shows "(\<exists>u' k bs. morecore K n u = Some (0, u') \<and> u' = u\<lparr>u_calls := u_calls u @ [(U_sbrk k SBRK_EAGER, SBRK_ERROR, bs)]\<rparr> \<and> 0 < k) \<or>
    (\<exists>u' fl'. morecore K n u = Some (uh_freep u', u') \<and> heap_user u' fl' lv \<and> uh_base u' = uh_base u \<and>
      same_contents lv (uh_mem u) (uh_mem u') \<and> (\<exists>x \<in> set fl'. n \<le> snd x))"
proof -
  let ?b = "uh_base u"
  define nu where "nu = (if n < 4096 then 4096 else n)"
  have nu: "1 \<le> nu" "n \<le> nu" "16 * nu < 2 ^ 31" using n by (simp_all add: nu_def)
  have w: "wrap32 (int (nu * sizeof_Header)) = int (16 * nu)" using nu(3) by (subst wrap32_id) (simp_all add: sizeof_Header_def)
  obtain r bs where r: "K (u_calls u) (U_sbrk (int (16 * nu)) SBRK_EAGER) = (r, bs)" by force
  define u1 where "u1 = u\<lparr>u_calls := u_calls u @ [(U_sbrk (int (16 * nu)) SBRK_EAGER, r, bs)]\<rparr>"
  have s: "sbrk K (int (16 * nu)) u = (r, u1)" using r by (simp add: sbrk_def sys_def u1_def)
  show ?thesis
  proof (cases "r = SBRK_ERROR")
    case True
    then have "morecore K n u = Some (0, u1)" using s w by (simp add: morecore_def nu_def [symmetric] Let_def del: of_nat_mult)
    then show ?thesis using True nu(1) u1_def by (intro disjI1 exI [of _ u1] exI [of _ "int (16 * nu)"] exI [of _ bs]) simp
  next
    case False
    have f: "int ?b + 16 \<le> r" "r + int (16 * nu) \<le> 2 ^ 36" "granted (u_calls u) \<subseteq> {..< nat r}"
      using K r False nu(1) unfolding sbrk_fresh_def by fastforce+
    have ok: "heap_ok (uh_mem u) ?b fl lv (granted (u_calls u))" using h by (simp add: heap_user_def)
    have g: "granted (u_calls u1) = granted (u_calls u) \<union> {nat r ..< nat r + 16 * nu}"
      using False f(1) by (auto simp: u1_def granted_snoc)
    define u2 where "u2 = u1\<lparr>uh_mem := set_size (nat r) nu (uh_mem u)\<rparr>"
    have a: "heap_ok (uh_mem u2) ?b fl (insert (nat r, nu) lv) (granted (u_calls u2))" "same_contents lv (uh_mem u) (uh_mem u2)"
      "(nat r, nu) \<notin> lv"
      using add_block [OF ok, of "nat r" nu] f nu(1) g by (simp_all add: u2_def)
    have fp: "uh_freep u2 \<in> fst ` set fl" using h by (simp add: heap_user_def u2_def u1_def)
    obtain p m' fl' where p: "free (nat r + 16) u2 = Some (u2\<lparr>uh_mem := m', uh_freep := p\<rparr>)"
      "heap_ok m' ?b fl' lv (granted (u_calls u2))" "same_contents lv (uh_mem u2) m'" "p \<in> fst ` set fl'" "\<exists>x \<in> set fl'. nu \<le> snd x"
      by (rule free_spec [OF a(1,3) fp])
    have m: "morecore K n u = Some (p, u2\<lparr>uh_mem := m', uh_freep := p\<rparr>)"
      using s w False p(1) by (simp add: morecore_def nu_def [symmetric] Let_def sizeof_Header_def u2_def u1_def del: of_nat_mult)
    moreover have "uh_base u2 = ?b" by (simp add: u2_def u1_def)
    moreover have "same_contents lv (uh_mem u) m'" using a(2) p(3) by (auto simp: same_contents_def)
    ultimately show ?thesis using p nu(2) order_trans
      by (intro disjI2 exI [of _ "u2\<lparr>uh_mem := m', uh_freep := p\<rparr>"] exI [of _ fl']) (auto simp: heap_user_def)
  qed
qed

text \<open>One round of the search in \<open>malloc\<close>.\<close>

lemma malloc_loop_walk:
  assumes "piece (uh_mem u) p (as @ [uh_freep u]) q" "uh_freep u \<notin> set as" "header_ptr (uh_mem u) prevp = p"
  shows "(\<exists>pv x. pv \<in> insert prevp (set as) \<and> x \<in> set (as @ [uh_freep u]) \<and> header_ptr (uh_mem u) pv = x \<and>
      n \<le> header_size (uh_mem u) x \<and> malloc_loop K n prevp p u = Some (malloc_take n pv x u)) \<or>
    (\<forall>x \<in> set (as @ [uh_freep u]). header_size (uh_mem u) x < n) \<and>
      malloc_loop K n prevp p u = Option.bind (morecore K n u) (\<lambda>(p, u).
             if p = 0 then Some (0, u) else malloc_loop K n p (header_ptr (uh_mem u) p) u)"
  using assms
proof (induction as arbitrary: p prevp)
  case Nil
  then show ?case by (cases "n \<le> header_size (uh_mem u) p") (auto simp: malloc_loop.simps [of K n prevp "uh_freep u"])
next
  case (Cons a as)
  have p: "p = a" "a \<noteq> uh_freep u" using Cons.prems by auto
  show ?case
  proof (cases "n \<le> header_size (uh_mem u) a")
    case True
    then show ?thesis using Cons.prems p by (intro disjI1 exI [of _ prevp] exI [of _ a]) (simp add: malloc_loop.simps [of K n prevp a])
  next
    case False
    then have "malloc_loop K n prevp p u = malloc_loop K n a (header_ptr (uh_mem u) a) u"
      using p by (simp add: malloc_loop.simps [of K n prevp a])
    then show ?thesis using Cons.IH [of "header_ptr (uh_mem u) a" a] Cons.prems False by auto
  qed
qed

lemma malloc_round:
  assumes h: "heap_user u fl lv" and n: "1 \<le> n"
  shows "(\<exists>q u' fl'. malloc_loop K n (uh_freep u) (header_ptr (uh_mem u) (uh_freep u)) u = Some (q + 16, u') \<and>
      heap_user u' fl' (insert (q, n) lv) \<and> uh_base u' = uh_base u \<and> same_contents lv (uh_mem u) (uh_mem u') \<and>
      (\<forall>x \<in> lv. apart x (q, n))) \<or>
    (\<forall>x \<in> set fl. snd x < n) \<and> malloc_loop K n (uh_freep u) (header_ptr (uh_mem u) (uh_freep u)) u =
      Option.bind (morecore K n u) (\<lambda>(p, u). if p = 0 then Some (0, u) else malloc_loop K n p (header_ptr (uh_mem u) p) u)"
proof -
  let ?m = "uh_mem u" and ?f = "uh_freep u"
  have ok: "heap_ok ?m (uh_base u) fl lv (granted (u_calls u))" and f: "?f \<in> fst ` set fl" using h by (auto simp: heap_user_def)
  obtain xs x ys where x: "fl = xs @ x # ys" "fst x = ?f" using f by (auto dest!: split_list)
  let ?as = "map fst ys @ map fst xs"
  have all: "set (?as @ [?f]) = fst ` set fl" and all2: "insert ?f (set ?as) = fst ` set fl" using x by auto
  have ring: "piece ?m (header_ptr ?m ?f) (?as @ [?f]) (header_ptr ?m ?f)"
    using rotate_ring [of ?m "uh_base u" xs x ys] ok x by auto
  have "\<forall>z \<in> set xs \<union> set ys. far ?f (fst z)" using list_apart(2) [of ?m "uh_base u" xs x ys] ok x by auto
  then have "\<forall>z \<in> set xs \<union> set ys. fst z \<noteq> ?f" using far_neq by metis
  then have nin: "?f \<notin> set ?as" by force
  from malloc_loop_walk [OF ring nin refl, of n K] show ?thesis
  proof
    assume "\<exists>pv x. pv \<in> insert ?f (set ?as) \<and> x \<in> set (?as @ [?f]) \<and> header_ptr ?m pv = x \<and>
      n \<le> header_size ?m x \<and> malloc_loop K n ?f (header_ptr ?m ?f) u = Some (malloc_take n pv x u)"
    then obtain pv y where pv: "pv \<in> fst ` set fl" "y \<in> fst ` set fl" "header_ptr ?m pv = y" "n \<le> header_size ?m y"
      "malloc_loop K n ?f (header_ptr ?m ?f) u = Some (malloc_take n pv y u)"
      unfolding all all2 by blast
    obtain q m' fl' where "malloc_take n pv y u = (q + 16, u\<lparr>uh_mem := m', uh_freep := pv\<rparr>)"
      "heap_ok m' (uh_base u) fl' (insert (q, n) lv) (granted (u_calls u))" "pv \<in> fst ` set fl'" "same_contents lv ?m m'"
      "\<forall>x \<in> lv. apart x (q, n)"
      by (rule malloc_take_spec [OF ok pv(2,1,3) n pv(4)])
    then show ?thesis using pv(5)
      by (intro disjI1 exI [of _ q] exI [of _ "u\<lparr>uh_mem := m', uh_freep := pv\<rparr>"] exI [of _ fl']) (simp add: heap_user_def)
  next
    assume no: "(\<forall>x \<in> set (?as @ [?f]). header_size ?m x < n) \<and> malloc_loop K n ?f (header_ptr ?m ?f) u =
      Option.bind (morecore K n u) (\<lambda>(p, u). if p = 0 then Some (0, u) else malloc_loop K n p (header_ptr (uh_mem u) p) u)"
    have "snd z < n" if "z \<in> set fl" for z
    proof -
      have "header_size ?m (fst z) < n" using no that unfolding all by blast
      then show ?thesis using heap_okD(6) [OF ok that] by simp
    qed
    then show ?thesis using no by blast
  qed
qed

lemma malloc_loop_spec:
  assumes K: "sbrk_fresh K (uh_base u)" and h: "heap_user u fl lv" and n: "1 \<le> n" "16 * n < 2 ^ 31"
  shows "\<exists>ap u'. malloc_loop K n (uh_freep u) (header_ptr (uh_mem u) (uh_freep u)) u = Some (ap, u') \<and> uh_base u' = uh_base u \<and>
    same_contents lv (uh_mem u) (uh_mem u') \<and>
    (ap = 0 \<and> heap_user u' fl lv \<and> (\<exists>k bs. u_calls u' = u_calls u @ [(U_sbrk k SBRK_EAGER, SBRK_ERROR, bs)]) \<or>
     (\<exists>q fl'. ap = q + 16 \<and> heap_user u' fl' (insert (q, n) lv) \<and> (\<forall>x \<in> lv. apart x (q, n))))"
    (is "\<exists>ap u'. ?loop u = Some (ap, u') \<and> ?post u ap u'")
proof -
  have found: "\<exists>ap v'. ?loop v = Some (ap, v') \<and> uh_base v' = uh_base v \<and> same_contents lv (uh_mem v) (uh_mem v') \<and>
      (\<exists>q fl'. ap = q + 16 \<and> heap_user v' fl' (insert (q, n) lv) \<and> (\<forall>x \<in> lv. apart x (q, n)))"
    if "heap_user v fv lv" "\<exists>x \<in> set fv. n \<le> snd x" for v fv
    using malloc_round [OF that(1) n(1), of K] that(2) not_less by blast
  from morecore_spec [OF K h n(2)] show ?thesis
  proof
    assume "\<exists>u' k bs. morecore K n u = Some (0, u') \<and> u' = u\<lparr>u_calls := u_calls u @ [(U_sbrk k SBRK_EAGER, SBRK_ERROR, bs)]\<rparr> \<and> 0 < k"
    then obtain u' k bs where c: "morecore K n u = Some (0, u')" "u' = u\<lparr>u_calls := u_calls u @ [(U_sbrk k SBRK_EAGER, SBRK_ERROR, bs)]\<rparr>"
      by blast
    from malloc_round [OF h n(1), of K] show ?thesis
    proof (elim disjE)
      assume "(\<forall>x \<in> set fl. snd x < n) \<and> ?loop u = Option.bind (morecore K n u) (\<lambda>(p, u).
             if p = 0 then Some (0, u) else malloc_loop K n p (header_ptr (uh_mem u) p) u)"
      then have "?loop u = Some (0, u')" using c(1) by simp
      moreover have "heap_user u' fl lv" using h c(2) by (simp add: heap_user_def granted_snoc)
      ultimately show ?thesis using c(2) by (auto simp: same_contents_def)
    qed blast
  next
    assume "\<exists>u' fl'. morecore K n u = Some (uh_freep u', u') \<and> heap_user u' fl' lv \<and> uh_base u' = uh_base u \<and>
      same_contents lv (uh_mem u) (uh_mem u') \<and> (\<exists>x \<in> set fl'. n \<le> snd x)"
    then obtain v fv where v: "morecore K n u = Some (uh_freep v, v)" "heap_user v fv lv" "uh_base v = uh_base u"
      "same_contents lv (uh_mem u) (uh_mem v)" "\<exists>x \<in> set fv. n \<le> snd x" by blast
    from malloc_round [OF h n(1), of K] show ?thesis
    proof (elim disjE)
      assume "(\<forall>x \<in> set fl. snd x < n) \<and> ?loop u = Option.bind (morecore K n u) (\<lambda>(p, u).
             if p = 0 then Some (0, u) else malloc_loop K n p (header_ptr (uh_mem u) p) u)"
      then have "?loop u = ?loop v" using v(1) freep_nonzero [OF v(2)] by simp
      moreover obtain ap v' where "?loop v = Some (ap, v')" "uh_base v' = uh_base v" "same_contents lv (uh_mem v) (uh_mem v')"
        "\<exists>q fl'. ap = q + 16 \<and> heap_user v' fl' (insert (q, n) lv) \<and> (\<forall>x \<in> lv. apart x (q, n))"
        using found [OF v(2,5)] by blast
      moreover have "same_contents lv (uh_mem u) (uh_mem v')" using v(4) calculation(4) by (auto simp: same_contents_def)
      ultimately show ?thesis using v(3) by auto
    qed blast
  qed
qed

section \<open>Histories of a program\<close>

text \<open>\<open>hs_live\<close> holds the blocks that \<open>malloc\<close> has returned and that have not been freed, each with the size asked for.\<close>

record hsys =
  hs_u :: uheap
  hs_live :: "(nat \<times> nat) set"

definition is_sbrk :: "ucall \<Rightarrow> bool" where
  "is_sbrk c = (case c of U_sbrk n t \<Rightarrow> True | _ \<Rightarrow> False)"

text \<open>The program calls \<open>malloc\<close> and \<open>free\<close>, writes to its blocks, and makes other system calls.\<close>

inductive hstep :: "kern \<Rightarrow> hsys \<Rightarrow> hsys \<Rightarrow> bool" for K where
  h_malloc: "nbytes + 32 \<le> 2 ^ 31 \<Longrightarrow> malloc K nbytes (hs_u s) = Some (ap, u) \<Longrightarrow>
    hstep K s (s\<lparr>hs_u := u, hs_live := (if ap = 0 then hs_live s else insert (ap, nbytes) (hs_live s))\<rparr>)"
| h_free: "(ap, nbytes) \<in> hs_live s \<Longrightarrow> free ap (hs_u s) = Some u \<Longrightarrow>
    hstep K s (s\<lparr>hs_u := u, hs_live := hs_live s - {(ap, nbytes)}\<rparr>)"
| h_write: "(ap, nbytes) \<in> hs_live s \<Longrightarrow> x \<in> {ap ..< ap + nbytes} \<Longrightarrow>
    hstep K s (s\<lparr>hs_u := (hs_u s)\<lparr>uh_mem := (uh_mem (hs_u s))(x := c)\<rparr>\<rparr>)"
| h_call: "\<not> is_sbrk call \<Longrightarrow> hstep K s (s\<lparr>hs_u := sys_void K call (hs_u s)\<rparr>)"

inductive hreach :: "kern \<Rightarrow> hsys \<Rightarrow> hsys \<Rightarrow> bool" for K s0 where
  h_start: "hreach K s0 s0"
| h_step: "hreach K s0 s \<Longrightarrow> hstep K s s' \<Longrightarrow> hreach K s0 s'"

definition heap_start :: "hsys \<Rightarrow> bool" where
  "heap_start s \<longleftrightarrow> uh_freep (hs_u s) = 0 \<and> 0 < uh_base (hs_u s) \<and> uh_base (hs_u s) < 2 ^ 36 \<and> hs_live s = {} \<and>
     list_all (\<lambda>c. \<not> is_sbrk (fst c)) (u_calls (hs_u s))"

fun block_of :: "nat \<times> nat \<Rightarrow> block" where
  "block_of (ap, nbytes) = (ap - 16, malloc_units nbytes)"

definition hinv :: "hsys \<Rightarrow> bool" where
  "hinv s \<longleftrightarrow>
     uh_freep (hs_u s) = 0 \<and> 0 < uh_base (hs_u s) \<and> uh_base (hs_u s) < 2 ^ 36 \<and> hs_live s = {} \<and> granted (u_calls (hs_u s)) = {} \<or>
     (\<exists>fl. heap_user (hs_u s) fl (block_of ` hs_live s)) \<and> inj_on block_of (hs_live s) \<and> (\<forall>x \<in> hs_live s. 16 \<le> fst x)"

lemma units: "nbytes + 16 \<le> 16 * malloc_units nbytes" "1 \<le> malloc_units nbytes" "16 * malloc_units nbytes \<le> nbytes + 31"
  by (simp_all add: malloc_units_def sizeof_Header_def)

lemma init_heap:
  assumes "uh_freep u = 0" "0 < uh_base u" "uh_base u < 2 ^ 36" "granted (u_calls u) = {}"
  shows "heap_user (u\<lparr>uh_freep := uh_base u, uh_mem := set_size (uh_base u) 0 (set_ptr (uh_base u) (uh_base u) (uh_mem u))\<rparr>)
    [(uh_base u, 0)] {}"
  using assms by (simp add: heap_user_def heap_ok_def header_read)

lemma malloc_spec:
  assumes K: "sbrk_fresh K (uh_base (hs_u s))" and h: "hinv s" and n: "nbytes + 32 \<le> 2 ^ 31"
  defines "lv \<equiv> block_of ` hs_live s" and "N \<equiv> malloc_units nbytes"
  shows "\<exists>ap u'. malloc K nbytes (hs_u s) = Some (ap, u') \<and> uh_base u' = uh_base (hs_u s) \<and>
    same_contents lv (uh_mem (hs_u s)) (uh_mem u') \<and>
    (ap = 0 \<and> (\<exists>fl. heap_user u' fl lv) \<and> (\<exists>k bs. u_calls u' = u_calls (hs_u s) @ [(U_sbrk k SBRK_EAGER, SBRK_ERROR, bs)]) \<or>
     (\<exists>q fl'. ap = q + 16 \<and> heap_user u' fl' (insert (q, N) lv) \<and> (\<forall>x \<in> lv. apart x (q, N))))"
proof -
  let ?u = "hs_u s"
  have N: "1 \<le> N" "16 * N < 2 ^ 31" using units [of nbytes] n by (auto simp: N_def)
  show ?thesis
  proof (cases "uh_freep ?u = 0")
    case True
    then have i: "0 < uh_base ?u" "uh_base ?u < 2 ^ 36" "hs_live s = {}" "granted (u_calls ?u) = {}"
      using h freep_nonzero [of ?u] unfolding hinv_def by blast+
    let ?v = "?u\<lparr>uh_freep := uh_base ?u, uh_mem := set_size (uh_base ?u) 0 (set_ptr (uh_base ?u) (uh_base ?u) (uh_mem ?u))\<rparr>"
    have hv: "heap_user ?v [(uh_base ?u, 0)] lv" using init_heap [OF True i(1,2,4)] i(3) by (simp add: lv_def)
    have m: "malloc K nbytes ?u = malloc_loop K N (uh_freep ?v) (header_ptr (uh_mem ?v) (uh_freep ?v)) ?v"
      using True by (simp add: malloc_def N_def)
    have sc: "same_contents lv x y" for x y using i(3) by (simp add: same_contents_def lv_def)
    from malloc_loop_spec [OF _ hv N, of K] K show ?thesis unfolding m using sc by auto
  next
    case False
    then obtain fl where hv: "heap_user ?u fl lv" using h by (auto simp: hinv_def Let_def lv_def)
    have m: "malloc K nbytes ?u = malloc_loop K N (uh_freep ?u) (header_ptr (uh_mem ?u) (uh_freep ?u)) ?u"
      using False by (simp add: malloc_def N_def Let_def)
    from malloc_loop_spec [OF K hv N] show ?thesis unfolding m by blast
  qed
qed

lemma granted_call: "\<not> is_sbrk c \<Longrightarrow> grant (c, r) = {}"
  by (cases c; cases r) (auto simp: is_sbrk_def)

text \<open>A write inside a block leaves the headers alone.\<close>

lemma heap_write:
  assumes h: "heap_ok m b fl lv G" and x: "y \<in> lv" "i \<in> {fst y + 16 ..< fst y + 16 * snd y}"
  shows "heap_ok (m(i := c)) b fl lv G"
proof -
  have out: "i \<notin> {fst z ..< fst z + 16}" if "z \<in> set fl \<union> lv" for z
  proof (cases "z = y")
    case False
    then have "apart y z" using that x(1) heap_okD(10,11) [OF h, of y z] by blast
    then show ?thesis using x(2) by (auto simp: apart_def before_block_def)
  qed (use x(2) in auto)
  have rd: "read_bytes (m(i := c)) (a + k) n = read_bytes m (a + k) n" if "i \<notin> {a ..< a + 16}" "k + n \<le> 16" for a k n
    using that by (auto simp: read_bytes_def)
  have same: "header_ptr (m(i := c)) (fst z) = header_ptr m (fst z)" "header_size (m(i := c)) (fst z) = header_size m (fst z)"
    if "z \<in> set fl \<union> lv" for z
    using rd [OF out [OF that], of 0 8] rd [OF out [OF that], of 8 4] by (simp_all add: header_ptr_def header_size_def)
  have "piece (m(i := c)) b (map fst fl) b"
    by (rule piece_cong [OF heap_okD(5) [OF h]]) (use same(1) in auto)
  moreover have "\<forall>x \<in> set fl. header_size (m(i := c)) (fst x) = snd x" "\<forall>x \<in> lv. header_size (m(i := c)) (fst x) = snd x"
    using same(2) heap_okD(6,8) [OF h] by auto
  ultimately show ?thesis using h by (simp add: heap_ok_def)
qed

lemma release_spec:
  assumes h: "hinv s" and b: "(ap, nbytes) \<in> hs_live s"
  obtains p m' fl' where "free ap (hs_u s) = Some ((hs_u s)\<lparr>uh_mem := m', uh_freep := p\<rparr>)"
    "heap_user ((hs_u s)\<lparr>uh_mem := m', uh_freep := p\<rparr>) fl' (block_of ` (hs_live s - {(ap, nbytes)}))"
    "same_contents (block_of ` (hs_live s - {(ap, nbytes)})) (uh_mem (hs_u s)) m'"
proof -
  obtain fl where f: "heap_user (hs_u s) fl (block_of ` hs_live s)" "inj_on block_of (hs_live s)" "\<forall>x \<in> hs_live s. 16 \<le> fst x"
    using h b by (auto simp: hinv_def)
  let ?lv = "block_of ` (hs_live s - {(ap, nbytes)})"
  have lv: "block_of ` hs_live s = insert (ap - 16, malloc_units nbytes) ?lv" using b by force
  have nin: "(ap - 16, malloc_units nbytes) \<notin> ?lv"
    using inj_on_image_mem_iff [OF f(2) b, of "hs_live s - {(ap, nbytes)}"] by simp
  have ap: "ap - 16 + 16 = ap" using f(3) b by fastforce
  have "heap_ok (uh_mem (hs_u s)) (uh_base (hs_u s)) fl (insert (ap - 16, malloc_units nbytes) ?lv) (granted (u_calls (hs_u s)))"
    and "uh_freep (hs_u s) \<in> fst ` set fl"
    using f(1) unfolding heap_user_def lv by blast+
  then obtain p m' fl' where "free (ap - 16 + 16) (hs_u s) = Some ((hs_u s)\<lparr>uh_mem := m', uh_freep := p\<rparr>)"
    "heap_ok m' (uh_base (hs_u s)) fl' ?lv (granted (u_calls (hs_u s)))" "same_contents ?lv (uh_mem (hs_u s)) m'" "p \<in> fst ` set fl'"
    using free_spec [OF _ nin] by metis
  then show thesis unfolding ap by (intro that [of p m' fl']) (simp_all add: heap_user_def)
qed

lemma hinv_step:
  assumes st: "hstep K s s'" and K: "sbrk_fresh K (uh_base (hs_u s))" and h: "hinv s"
  shows "hinv s' \<and> uh_base (hs_u s') = uh_base (hs_u s)"
  using st
proof cases
  case (h_malloc nbytes ap u)
  let ?lv = "block_of ` hs_live s"
  have old: "inj_on block_of (hs_live s)" "\<forall>x \<in> hs_live s. 16 \<le> fst x" using h by (auto simp: hinv_def)
  obtain ap' u' where m: "malloc K nbytes (hs_u s) = Some (ap', u')" "uh_base u' = uh_base (hs_u s)"
    "ap' = 0 \<and> (\<exists>fl. heap_user u' fl ?lv) \<or>
     (\<exists>q fl'. ap' = q + 16 \<and> heap_user u' fl' (insert (q, malloc_units nbytes) ?lv) \<and> (\<forall>x \<in> ?lv. apart x (q, malloc_units nbytes)))"
    using malloc_spec [OF K h h_malloc(2)] by blast
  have e: "ap' = ap" "u' = u" using m(1) h_malloc(3) by simp_all
  from m(3) have "hinv s'"
  proof
    assume "ap' = 0 \<and> (\<exists>fl. heap_user u' fl ?lv)"
    then show ?thesis using old e h_malloc(1) by (simp add: hinv_def)
  next
    assume "\<exists>q fl'. ap' = q + 16 \<and> heap_user u' fl' (insert (q, malloc_units nbytes) ?lv) \<and> (\<forall>x \<in> ?lv. apart x (q, malloc_units nbytes))"
    then obtain q fl' where q: "ap = q + 16" "heap_user u fl' (insert (q, malloc_units nbytes) ?lv)"
      "\<forall>x \<in> ?lv. apart x (q, malloc_units nbytes)" using e by blast
    have "(q, malloc_units nbytes) \<notin> ?lv" using q(3) by (auto simp: apart_def before_block_def)
    then have "inj_on block_of (insert (ap, nbytes) (hs_live s))" using old(1) q(1) by (auto simp: inj_on_insert)
    then show ?thesis using q old(2) h_malloc(1) by (auto simp: hinv_def)
  qed
  then show ?thesis using m(2) e h_malloc(1) by simp
next
  case (h_free ap nbytes u)
  obtain p m' fl' where "free ap (hs_u s) = Some ((hs_u s)\<lparr>uh_mem := m', uh_freep := p\<rparr>)"
    "heap_user ((hs_u s)\<lparr>uh_mem := m', uh_freep := p\<rparr>) fl' (block_of ` (hs_live s - {(ap, nbytes)}))"
    by (rule release_spec [OF h h_free(2)])
  moreover have "inj_on block_of (hs_live s)" "\<forall>x \<in> hs_live s. 16 \<le> fst x" using h by (auto simp: hinv_def)
  ultimately show ?thesis using h_free by (auto simp: hinv_def inj_on_diff)
next
  case (h_write ap nbytes x c)
  obtain fl where f: "heap_user (hs_u s) fl (block_of ` hs_live s)" "\<forall>x \<in> hs_live s. 16 \<le> fst x"
    using h h_write(2) by (auto simp: hinv_def)
  have "16 \<le> ap" using f(2) h_write(2) by fastforce
  then have "x \<in> {fst (block_of (ap, nbytes)) + 16 ..< fst (block_of (ap, nbytes)) + 16 * snd (block_of (ap, nbytes))}"
    using h_write(3) units(1) [of nbytes] by auto
  then have "heap_ok ((uh_mem (hs_u s))(x := c)) (uh_base (hs_u s)) fl (block_of ` hs_live s) (granted (u_calls (hs_u s)))"
    using f(1) h_write(2) unfolding heap_user_def by (intro heap_write) (auto intro!: imageI)
  then show ?thesis using h h_write f(1) by (auto simp: hinv_def heap_user_def)
next
  case (h_call call)
  obtain r bs where k: "sys_void K call (hs_u s) = (hs_u s)\<lparr>u_calls := u_calls (hs_u s) @ [(call, r, bs)]\<rparr>"
    by (cases "K (u_calls (hs_u s)) call") (auto simp: sys_void_def sys_def)
  have "granted (u_calls (hs_u s) @ [(call, r, bs)]) = granted (u_calls (hs_u s))" using granted_call [OF h_call(2)] by (simp add: granted_snoc)
  then show ?thesis using h k h_call by (simp add: hinv_def heap_user_def)
qed

lemma hinv_reach:
  assumes "hreach K s0 s" "sbrk_fresh K (uh_base (hs_u s0))" "heap_start s0"
  shows "hinv s \<and> uh_base (hs_u s) = uh_base (hs_u s0)"
  using assms(1)
proof induction
  case h_start
  have "granted (u_calls (hs_u s0)) = {}"
    using assms(3) granted_call by (fastforce simp: heap_start_def granted_def list_all_iff)
  then show ?case using assms(3) by (simp add: heap_start_def hinv_def)
next
  case (h_step s s')
  then show ?case using hinv_step [of K s s'] assms(2) by simp
qed

definition extent :: "nat \<times> nat \<Rightarrow> nat set" where
  "extent x = {fst x ..< fst x + snd x}"

text \<open>The bytes of a block in use lie inside the block, behind its header.\<close>

lemma extent_block: "16 \<le> fst x \<Longrightarrow> extent x \<subseteq> {fst (block_of x) + 16 ..< fst (block_of x) + 16 * snd (block_of x)}"
  using units(1) [of "snd x"] by (cases x) (auto simp: extent_def)

lemma extent_apart: "16 \<le> fst x \<Longrightarrow> 16 \<le> fst y \<Longrightarrow> apart (block_of x) (block_of y) \<Longrightarrow> extent x \<inter> extent y = {} \<and> fst x \<noteq> fst y"
  using units(1,2) [of "snd x"] units(1,2) [of "snd y"]
  by (cases x; cases y) (auto simp: extent_def apart_def before_block_def max_def)

lemma extent_kept: "same_contents (block_of ` L) m m' \<Longrightarrow> \<forall>x \<in> L. 16 \<le> fst x \<Longrightarrow> \<forall>x \<in> L. \<forall>i \<in> extent x. m' i = m i"
  using extent_block by (fastforce simp: same_contents_def)

lemma extent_granted: "heap_user u fl lv \<Longrightarrow> block_of x \<in> lv \<Longrightarrow> 16 \<le> fst x \<Longrightarrow> extent x \<subseteq> granted (u_calls u)"
  using extent_block [of x] heap_okD(12) [of "uh_mem u" "uh_base u" fl lv "granted (u_calls u)"]
  by (fastforce simp: heap_user_def span_def)

section \<open>The allocator is safe\<close>

lemma live_blocks:
  assumes h: "hinv s"
  shows "\<forall>x \<in> hs_live s. extent x \<subseteq> granted (u_calls (hs_u s))"
    and "\<forall>x \<in> hs_live s. \<forall>y \<in> hs_live s. x \<noteq> y \<longrightarrow> extent x \<inter> extent y = {} \<and> fst x \<noteq> fst y"
proof -
  have low: "\<forall>x \<in> hs_live s. 16 \<le> fst x" and inj: "inj_on block_of (hs_live s)" using h by (auto simp: hinv_def)
  have ok: "\<exists>fl. heap_user (hs_u s) fl (block_of ` hs_live s)" if "x \<in> hs_live s" for x using h that by (auto simp: hinv_def)
  show "\<forall>x \<in> hs_live s. extent x \<subseteq> granted (u_calls (hs_u s))" using ok extent_granted low by (meson imageI)
  show "\<forall>x \<in> hs_live s. \<forall>y \<in> hs_live s. x \<noteq> y \<longrightarrow> extent x \<inter> extent y = {} \<and> fst x \<noteq> fst y"
  proof (intro ballI impI)
    fix x y assume x: "x \<in> hs_live s" "y \<in> hs_live s" "x \<noteq> y"
    then have ne: "block_of x \<noteq> block_of y" using inj by (auto dest: inj_onD)
    obtain fl where "heap_user (hs_u s) fl (block_of ` hs_live s)" using ok [OF x(1)] by blast
    then have "apart (block_of x) (block_of y)" using heap_okD(11) x ne unfolding heap_user_def by blast
    then show "extent x \<inter> extent y = {} \<and> fst x \<noteq> fst y" using extent_apart low x by blast
  qed
qed

lemma malloc_returns:
  assumes K: "sbrk_fresh K (uh_base (hs_u s))" and h: "hinv s" and n: "nbytes + 32 \<le> 2 ^ 31"
  shows "\<exists>ap u. malloc K nbytes (hs_u s) = Some (ap, u) \<and>
       (\<forall>x \<in> hs_live s. \<forall>i \<in> extent x. uh_mem u i = uh_mem (hs_u s) i) \<and>
       (if ap = 0 then \<exists>k bs. u_calls u = u_calls (hs_u s) @ [(U_sbrk k SBRK_EAGER, SBRK_ERROR, bs)]
        else extent (ap, nbytes) \<subseteq> granted (u_calls u) \<and> (\<forall>x \<in> hs_live s. extent x \<inter> extent (ap, nbytes) = {}))"
proof -
  have low: "\<forall>x \<in> hs_live s. 16 \<le> fst x" using h by (auto simp: hinv_def)
  obtain ap u where m: "malloc K nbytes (hs_u s) = Some (ap, u)" "same_contents (block_of ` hs_live s) (uh_mem (hs_u s)) (uh_mem u)"
    "ap = 0 \<and> (\<exists>k bs. u_calls u = u_calls (hs_u s) @ [(U_sbrk k SBRK_EAGER, SBRK_ERROR, bs)]) \<or>
     (\<exists>q fl. ap = q + 16 \<and> heap_user u fl (insert (q, malloc_units nbytes) (block_of ` hs_live s)) \<and>
       (\<forall>x \<in> block_of ` hs_live s. apart x (q, malloc_units nbytes)))"
    using malloc_spec [OF K h n] by blast
  have "extent (ap, nbytes) \<subseteq> granted (u_calls u) \<and> (\<forall>x \<in> hs_live s. extent x \<inter> extent (ap, nbytes) = {})" if ap: "ap \<noteq> 0"
  proof -
    obtain q fl where q: "ap = q + 16" "heap_user u fl (insert (q, malloc_units nbytes) (block_of ` hs_live s))"
       "\<forall>x \<in> hs_live s. apart (block_of x) (q, malloc_units nbytes)" using m(3) ap by blast
    have b: "block_of (ap, nbytes) = (q, malloc_units nbytes)" "16 \<le> fst (ap, nbytes)" using q(1) by simp_all
    show ?thesis using extent_granted [OF q(2) _ b(2)] extent_apart [OF _ b(2)] q(3) low b(1) by (metis insertI1)
  qed
  then show ?thesis using m extent_kept [OF m(2) low] by (intro exI [of _ ap] exI [of _ u]) auto
qed

lemma free_returns:
  assumes h: "hinv s" and b: "(ap, nbytes) \<in> hs_live s"
  shows "\<exists>u. free ap (hs_u s) = Some u \<and>
    (\<forall>x \<in> hs_live s - {(ap, nbytes)}. \<forall>i \<in> extent x. uh_mem u i = uh_mem (hs_u s) i)"
proof -
  obtain p m' where r: "free ap (hs_u s) = Some ((hs_u s)\<lparr>uh_mem := m', uh_freep := p\<rparr>)"
    "same_contents (block_of ` (hs_live s - {(ap, nbytes)})) (uh_mem (hs_u s)) m'"
    by (rule release_spec [OF h b])
  have "\<forall>x \<in> hs_live s - {(ap, nbytes)}. 16 \<le> fst x" using h by (auto simp: hinv_def)
  then show ?thesis using extent_kept [OF r(2)] r(1) by simp
qed

text \<open>
  C38: the allocator.  Take any program that uses \<open>malloc\<close> and \<open>free\<close> from the first call on, writes only to the bytes it
  has asked for, and frees only blocks it holds; the kernel grants each \<open>sbrk\<close> fresh memory above all earlier grants, or refuses it.
  At every point of its history the blocks it holds lie in memory the kernel has granted, at different addresses, and no two
  overlap.  A \<open>malloc\<close> of up to \<open>2 ^ 31 - 32\<close> bytes returns: with 0 only if the kernel has just refused an \<open>sbrk\<close>, and
  otherwise with a block that overlaps none of those in use.  A \<open>free\<close> of a block returns.  Neither changes a byte of the other
  blocks in use.
\<close>

theorem malloc_free_safe:
  assumes K: "sbrk_fresh K (uh_base (hs_u s0))" and start: "heap_start s0" and reach: "hreach K s0 s"
  shows "(\<forall>x \<in> hs_live s. extent x \<subseteq> granted (u_calls (hs_u s))) \<and>
    (\<forall>x \<in> hs_live s. \<forall>y \<in> hs_live s. x \<noteq> y \<longrightarrow> extent x \<inter> extent y = {} \<and> fst x \<noteq> fst y) \<and>
    (\<forall>nbytes. nbytes + 32 \<le> 2 ^ 31 \<longrightarrow> (\<exists>ap u. malloc K nbytes (hs_u s) = Some (ap, u) \<and>
       (\<forall>x \<in> hs_live s. \<forall>i \<in> extent x. uh_mem u i = uh_mem (hs_u s) i) \<and>
       (if ap = 0 then \<exists>k bs. u_calls u = u_calls (hs_u s) @ [(U_sbrk k SBRK_EAGER, SBRK_ERROR, bs)]
        else extent (ap, nbytes) \<subseteq> granted (u_calls u) \<and> (\<forall>x \<in> hs_live s. extent x \<inter> extent (ap, nbytes) = {})))) \<and>
    (\<forall>ap nbytes. (ap, nbytes) \<in> hs_live s \<longrightarrow> (\<exists>u. free ap (hs_u s) = Some u \<and>
       (\<forall>x \<in> hs_live s - {(ap, nbytes)}. \<forall>i \<in> extent x. uh_mem u i = uh_mem (hs_u s) i)))"
proof -
  have h: "hinv s" and K': "sbrk_fresh K (uh_base (hs_u s))" using hinv_reach [OF reach K start] K by simp_all
  show ?thesis using live_blocks [OF h] malloc_returns [OF K' h] free_returns [OF h] by blast
qed

text \<open>A kernel that grants memory from address 8192 up to 1 MB.\<close>

definition sbrk_top :: "(ucall \<times> ureply) list \<Rightarrow> int" where
  "sbrk_top cs = fold (\<lambda>c t. case c of (U_sbrk n _, r, _) \<Rightarrow> (if r = SBRK_ERROR then t else max t (r + n)) | _ \<Rightarrow> t) cs 8192"

definition sbrk_kern :: kern where
  "sbrk_kern cs c = (case c of U_sbrk n _ \<Rightarrow> (if sbrk_top cs + n \<le> 2 ^ 20 then (sbrk_top cs, []) else (SBRK_ERROR, [])) | _ \<Rightarrow> (0, []))"

lemma sbrk_top_above: "8192 \<le> sbrk_top cs \<and> granted cs \<subseteq> {..< nat (sbrk_top cs)}"
proof (induction cs rule: rev_induct)
  case Nil
  then show ?case by (simp add: sbrk_top_def granted_def)
next
  case (snoc c cs)
  obtain call r bs where c: "c = (call, r, bs)" by (cases c) auto
  have "sbrk_top cs \<le> sbrk_top (cs @ [c])" by (auto simp: c sbrk_top_def split: ucall.splits)
  moreover have "grant c \<subseteq> {..< nat (sbrk_top (cs @ [c]))}" by (auto simp: c sbrk_top_def split: ucall.splits)
  ultimately show ?case using snoc by (auto simp: granted_snoc)
qed

lemma sbrk_kern_fresh: "sbrk_fresh sbrk_kern 4096"
  unfolding sbrk_fresh_def
proof (intro allI impI)
  fix cs n r bs
  assume "sbrk_kern cs (U_sbrk n SBRK_EAGER) = (r, bs)" "0 < n" "r \<noteq> SBRK_ERROR"
  then have "r = sbrk_top cs" "sbrk_top cs + n \<le> 2 ^ 20" by (auto simp: sbrk_kern_def split: if_splits)
  then show "int 4096 + 16 \<le> r \<and> r + n \<le> 2 ^ 36 \<and> granted cs \<subseteq> {..< nat r}" using sbrk_top_above [of cs] by auto
qed

definition heap_sample :: hsys where
  "heap_sample = \<lparr>hs_u = \<lparr>u_calls = [], u_pbuf = [], u_pfd = - 1, uh_mem = (\<lambda>_. CHR 0x00), uh_freep = 0, uh_base = 4096\<rparr>, hs_live = {}\<rparr>"

theorem malloc_free_safe_witness:
  "\<exists>ap u. malloc sbrk_kern 100 (hs_u heap_sample) = Some (ap, u) \<and>
     (\<exists>aq v. malloc sbrk_kern 200 u = Some (aq, v) \<and> (ap = 0 \<or> aq = 0 \<or> extent (ap, 100) \<inter> extent (aq, 200) = {}) \<and>
       (ap = 0 \<or> (\<exists>w. free ap u = Some w)))"
proof -
  let ?s = heap_sample
  have pre: "sbrk_fresh sbrk_kern (uh_base (hs_u ?s))" "heap_start ?s"
    using sbrk_kern_fresh by (simp_all add: heap_sample_def heap_start_def)
  note safe = malloc_free_safe [OF pre]
  obtain ap u where m: "malloc sbrk_kern 100 (hs_u ?s) = Some (ap, u)"
    using safe [OF h_start] by (auto elim!: allE [of _ 100])
  let ?t = "?s\<lparr>hs_u := u, hs_live := (if ap = 0 then hs_live ?s else insert (ap, 100) (hs_live ?s))\<rparr>"
  have r: "hreach sbrk_kern ?s ?t" by (rule h_step [OF h_start h_malloc [OF _ m]]) simp
  obtain aq v where v: "malloc sbrk_kern 200 u = Some (aq, v)"
    "aq \<noteq> 0 \<Longrightarrow> \<forall>x \<in> hs_live ?t. extent x \<inter> extent (aq, 200) = {}"
    using conjunct1 [OF conjunct2 [OF conjunct2 [OF safe [OF r]]], rule_format, of 200] by (auto split: if_splits)
  have "\<exists>w. free ap u = Some w" if "ap \<noteq> 0"
    using conjunct2 [OF conjunct2 [OF conjunct2 [OF safe [OF r]]], rule_format, of ap 100] that by auto
  then show ?thesis using m v by (intro exI [of _ ap] exI [of _ u] conjI exI [of _ aq] exI [of _ v]) auto
qed

end
