(* ===== verification/Ulib.thy ===== *)
theory Ulib
  imports User Sysfile
begin

text \<open>
  The user library \<open>user/ulib.c\<close>: strings, memory and line input.  \<open>stat\<close>, \<open>strcmp\<close> and \<open>sbrk\<close> are in the theories of the
  programs that use them; \<open>strlen\<close> and \<open>memset\<close> are the functions of theory \<open>Cstring\<close>.
\<close>

section \<open>Functions\<close>

definition start_main :: "kern \<Rightarrow> (string list \<Rightarrow> 'a user_scheme \<Rightarrow> int \<times> 'a user_scheme) \<Rightarrow> string list \<Rightarrow>
    'a user_scheme \<Rightarrow> 'a user_scheme" where
  "start_main K main argv u = (let (r, u) = main argv u in sys_void K (U_exit r) u)"

fun strcpy :: "string \<Rightarrow> string \<Rightarrow> string" where
  "strcpy s [] = NUL # tl s"
| "strcpy s (c # t) = (if c = NUL then NUL # tl s else c # strcpy (tl s) t)"

fun strchr :: "string \<Rightarrow> char \<Rightarrow> string option" where
  "strchr [] c = None"
| "strchr (x # s) c = (if x = NUL then None else if x = c then Some (x # s) else strchr s c)"

text \<open>\<open>gets\<close> with the characters stored so far; the buffer is terminated behind them.\<close>

function gets_loop :: "kern \<Rightarrow> int \<Rightarrow> string \<Rightarrow> 'a user_scheme \<Rightarrow> string \<times> 'a user_scheme" where
  "gets_loop K mx acc u =
     (if int (length acc) + 1 < mx
      then
        let (cc, bs, u) = sys K (U_read 0 1) u; c = deref bs
        in if cc < 1 then (acc, u)
           else if c = CHR 0x0A \<or> c = CHR 0x0D then (acc @ [c], u)
           else gets_loop K mx (acc @ [c]) u
      else (acc, u))"
  by pat_completeness auto
termination
  by (relation "measure (\<lambda>(K, mx, acc, u). nat mx - length acc)") auto

declare gets_loop.simps [simp del]

definition gets :: "kern \<Rightarrow> string \<Rightarrow> int \<Rightarrow> 'a user_scheme \<Rightarrow> string \<times> 'a user_scheme" where
  "gets K buf mx u = (let (s, u) = gets_loop K mx [] u in (s @ [NUL] @ drop (length s + 1) buf, u))"

fun atoi_loop :: "string \<Rightarrow> int \<Rightarrow> int" where
  "atoi_loop [] n = n"
| "atoi_loop (c # s) n =
     (if byte_of (CHR ''0'') \<le> byte_of c \<and> byte_of c \<le> byte_of (CHR ''9'') then atoi_loop s (wrap32 (n * 10 + byte_of c - byte_of (CHR ''0''))) else n)"

definition atoi :: "string \<Rightarrow> int" where
  "atoi s = atoi_loop s 0"

definition umemmove :: "memory \<Rightarrow> nat \<Rightarrow> nat \<Rightarrow> nat \<Rightarrow> memory" where
  "umemmove m vdst vsrc n = (if vsrc > vdst then copy_up m vdst vsrc n else copy_down m (vdst + n) (vsrc + n) n)"

definition umemcpy :: "memory \<Rightarrow> nat \<Rightarrow> nat \<Rightarrow> nat \<Rightarrow> memory" where
  "umemcpy m dst src n = umemmove m dst src n"

fun umemcmp :: "string \<Rightarrow> string \<Rightarrow> nat \<Rightarrow> int" where
  "umemcmp p1 p2 0 = 0"
| "umemcmp p1 p2 (Suc n) =
     (if deref p1 \<noteq> deref p2 then byte_of (deref p1) - byte_of (deref p2) else umemcmp (tl p1) (tl p2) n)"

definition SBRK_LAZY :: int where "SBRK_LAZY = 2"

definition sbrklazy :: "kern \<Rightarrow> int \<Rightarrow> 'a user_scheme \<Rightarrow> int \<times> 'a user_scheme" where
  "sbrklazy K n u = (let (r, _, u) = sys K (U_sbrk n SBRK_LAZY) u in (r, u))"

section \<open>Facts\<close>

lemma strchr_shorter: "strchr p c = Some q \<Longrightarrow> q \<noteq> [] \<and> length q \<le> length p"
  by (induction p) (auto split: if_splits)

lemma strchr_mem: "NUL \<notin> set s \<Longrightarrow> strchr s c \<noteq> None \<longleftrightarrow> c \<in> set s"
  by (induction s) auto

lemma strcpy_copies: "length (cstr t) < length s \<Longrightarrow> strcpy s t = cstr t @ NUL # drop (length (cstr t) + 1) s"
proof (induction t arbitrary: s)
  case Nil
  then show ?case by (simp add: drop_Suc)
next
  case (Cons c t)
  then show ?case by (cases s) (auto simp: cstr_unfold [of "c # t"] drop_Suc)
qed

text \<open>For the library's own test of overlap, moving memory has the same result as in the kernel.\<close>

lemma umemmove_memmove: "umemmove m dst src n = memmove m dst src n"
proof
  fix a
  show "umemmove m dst src n a = memmove m dst src n a"
    unfolding memmove_correct by (simp add: umemmove_def copy_up_eq copy_down_eq)
qed

lemma umemcmp_eq: "n \<le> length p \<Longrightarrow> n \<le> length q \<Longrightarrow> umemcmp p q n = 0 \<longleftrightarrow> take n p = take n q"
proof (induction p q n rule: umemcmp.induct)
  case (2 p1 p2 n)
  then show ?case using byte_of_inj by (cases p1; cases p2) (auto simp: deref_def)
qed simp

lemma gets_loop_bound:
  "int (length acc) < mx \<Longrightarrow> gets_loop K mx acc u = (s, u') \<Longrightarrow> int (length s) < mx \<and> length acc \<le> length s"
proof (induction K mx acc u rule: gets_loop.induct)
  case (1 K mx acc u)
  obtain cc bs v where k: "sys K (U_read 0 1) u = (cc, bs, v)" by (metis prod_cases3)
  show ?case using 1(2,3) 1(1) [OF _ k [symmetric] refl refl refl] unfolding gets_loop.simps [of K mx acc u] k
    by (auto simp: Let_def split: if_splits)
qed

text \<open>\<open>gets\<close> stays within the buffer and leaves a terminated string in it.\<close>

lemma gets_buffer: "0 < mx \<Longrightarrow> mx \<le> int (length buf) \<Longrightarrow> gets K buf mx u = (b, u') \<Longrightarrow> length b = length buf \<and> NUL \<in> set (take (nat mx) b)"
proof -
  assume a: "0 < mx" "mx \<le> int (length buf)" "gets K buf mx u = (b, u')"
  obtain s v where g: "gets_loop K mx [] u = (s, v)" by force
  have "int (length s) < mx" using gets_loop_bound [OF _ g] a(1) by simp
  then show ?thesis using a g by (auto simp: gets_def in_set_conv_nth nth_append intro!: exI [of _ "length s"])
qed

end
