(* ===== verification/Grep.thy ===== *)
theory Grep
  imports Ulib
begin

text \<open>
  The pattern search \<open>user/grep.c\<close>, with \<open>strchr\<close> of \<open>user/ulib.c\<close>.  The matcher is compared with the language of a pattern, and the
  program with the list of the matching lines of a file.

  \<open>buf[0..m)\<close> is a list of characters; the moves inside the buffer are changes of this list.
\<close>

section \<open>The matcher\<close>

function matchhere :: "string \<Rightarrow> string \<Rightarrow> bool" and matchstar :: "char \<Rightarrow> string \<Rightarrow> string \<Rightarrow> bool" where
  "matchhere re tx =
     (if deref re = NUL then True
      else if deref (tl re) = CHR ''*'' then matchstar (deref re) (drop 2 re) tx
      else if deref re = CHR ''$'' \<and> deref (tl re) = NUL then deref tx = NUL
      else if deref tx \<noteq> NUL \<and> (deref re = CHR ''.'' \<or> deref re = deref tx) then matchhere (tl re) (tl tx)
      else False)"
| "matchstar c re tx =
     (if matchhere re tx then True
      else if deref tx \<noteq> NUL \<and> (deref tx = c \<or> c = CHR ''.'') then matchstar c re (tl tx)
      else False)"
  by pat_completeness auto
termination
proof (relation "measures [case_sum (\<lambda>(re, tx). length re) (\<lambda>(c, re, tx). length re),
    case_sum (\<lambda>(re, tx). 2 * length tx) (\<lambda>(c, re, tx). 2 * length tx + 1)]", goal_cases)
  case (2 re tx)
  then show ?case by (cases re) (auto simp: deref_def)
next
  case (3 re tx)
  then show ?case by (cases re) (auto simp: deref_def)
next
  case (5 c re tx)
  then show ?case by (cases tx) (auto simp: deref_def)
qed auto

declare matchhere.simps [simp del] matchstar.simps [simp del]

function match_from :: "string \<Rightarrow> string \<Rightarrow> bool" where
  "match_from re tx =
     (if matchhere re tx then True
      else if deref tx \<noteq> NUL then match_from re (tl tx)
      else False)"
  by pat_completeness auto
termination
  by (relation "measure (\<lambda>(re, tx). length tx)") (auto simp: deref_def split: list.splits)

declare match_from.simps [simp del]

definition match_re :: "string \<Rightarrow> string \<Rightarrow> bool" where
  "match_re re tx = (if deref re = CHR ''^'' then matchhere (tl re) tx else match_from re tx)"

section \<open>The program\<close>

definition GREP_BUF :: nat where "GREP_BUF = 1024"

text \<open>The lines of the buffer from \<open>p\<close> on; the result is the rest behind the last newline.\<close>

function grep_lines :: "kern \<Rightarrow> string \<Rightarrow> string \<Rightarrow> user \<Rightarrow> string \<times> user" where
  "grep_lines K pattern p u =
     (case strchr p (CHR 0x0A) of
        None \<Rightarrow> (p, u)
      | Some q \<Rightarrow>
          let line = take (length p - length q) p;
              u = (if match_re pattern line then sys_void K (U_write 1 (line @ [CHR 0x0A])) u else u)
          in grep_lines K pattern (tl q) u)"
  by pat_completeness auto
termination
  by (relation "measure (\<lambda>(K, pattern, p, u). length p)") (auto dest!: strchr_shorter simp: neq_Nil_conv)

declare grep_lines.simps [simp del]

text \<open>The reading loop with \<open>m\<close> bytes \<open>b\<close> in the buffer; \<open>None\<close> when the file never ends.\<close>

partial_function (option) grep_loop :: "kern \<Rightarrow> string \<Rightarrow> int \<Rightarrow> string \<Rightarrow> user \<Rightarrow> user option" where
  "grep_loop K pattern fd b u =
     (let (n, bs, u) = sys K (U_read fd (GREP_BUF - length b - 1)) u
      in if n > 0
         then let (p, u) = grep_lines K pattern (b @ take (nat n) bs) u in grep_loop K pattern fd p u
         else Some u)"

definition grep :: "kern \<Rightarrow> string \<Rightarrow> int \<Rightarrow> user \<Rightarrow> user option" where
  "grep K pattern fd u = grep_loop K pattern fd [] u"

fun grep_files :: "kern \<Rightarrow> string \<Rightarrow> string list \<Rightarrow> user \<Rightarrow> user option" where
  "grep_files K pattern [] u = Some (sys_void K (U_exit 0) u)"
| "grep_files K pattern (f # fs) u =
     (let (fd, _, u) = sys K (U_open f O_RDONLY) u
      in if fd < 0
         then Some (sys_void K (U_exit 1) (uprintf K (''grep: cannot open %s'' @ [CHR 0x0A]) [VStr (Some f)] u))
         else do {
           u \<leftarrow> grep K pattern fd u;
           grep_files K pattern fs (sys_void K (U_close fd) u)
         })"

definition grep_main :: "kern \<Rightarrow> string list \<Rightarrow> user \<Rightarrow> user option" where
  "grep_main K argv u =
     (if length argv \<le> 1
      then Some (sys_void K (U_exit 1) (fprintf K 2 (''usage: grep pattern [file ...]'' @ [CHR 0x0A]) [] u))
      else if length argv \<le> 2
      then do { u \<leftarrow> grep K (argv ! 1) 0 u; Some (sys_void K (U_exit 0) u) }
      else grep_files K (argv ! 1) (drop 2 argv) u)"

section \<open>The language of a pattern\<close>

text \<open>A pattern is a sequence of characters and starred characters, where a dot stands for any character; a dollar at the end asks for
  the end of the text.\<close>

datatype re_item = One char | Star char

fun parse_re :: "string \<Rightarrow> re_item list \<times> bool" where
  "parse_re [] = ([], False)"
| "parse_re [c] = (if c = CHR ''$'' then ([], True) else ([One c], False))"
| "parse_re (c # d # r) = (if d = CHR ''*'' then apfst (Cons (Star c)) (parse_re r) else apfst (Cons (One c)) (parse_re (d # r)))"

definition fits :: "char \<Rightarrow> char \<Rightarrow> bool" where
  "fits c x \<longleftrightarrow> c = CHR ''.'' \<or> x = c"

primrec lang :: "re_item list \<Rightarrow> string set" where
  "lang [] = {[]}"
| "lang (e # es) = (case e of One c \<Rightarrow> {x # w | x w. fits c x \<and> w \<in> lang es}
     | Star c \<Rightarrow> {v @ w | v w. (\<forall>x \<in> set v. fits c x) \<and> w \<in> lang es})"

definition matches_at :: "re_item list \<times> bool \<Rightarrow> string \<Rightarrow> bool" where
  "matches_at p t \<longleftrightarrow> (\<exists>w r. t = w @ r \<and> w \<in> lang (fst p) \<and> (snd p \<longrightarrow> r = []))"

definition line_matches :: "string \<Rightarrow> string \<Rightarrow> bool" where
  "line_matches pattern l \<longleftrightarrow> (if pattern \<noteq> [] \<and> hd pattern = CHR ''^'' then matches_at (parse_re (tl pattern)) l
     else \<exists>a t. l = a @ t \<and> matches_at (parse_re pattern) t)"

lemma matches_at_Nil: "matches_at ([], e) t \<longleftrightarrow> e \<longrightarrow> t = []"
  by (auto simp: matches_at_def)

lemma matches_atI: "w \<in> lang (fst p) \<Longrightarrow> snd p \<longrightarrow> r = [] \<Longrightarrow> matches_at p (w @ r)"
  by (auto simp: matches_at_def)

lemma matches_at_One: "matches_at (apfst (Cons (One c)) p) t \<longleftrightarrow> t \<noteq> [] \<and> fits c (hd t) \<and> matches_at p (tl t)"
proof
  assume "matches_at (apfst (Cons (One c)) p) t"
  then obtain y r where y: "t = y @ r" "y \<in> lang (fst (apfst (Cons (One c)) p))" "snd p \<longrightarrow> r = []"
    unfolding matches_at_def by auto
  then obtain x w where "t = x # w @ r" "fits c x" "w \<in> lang (fst p)" by auto
  then show "t \<noteq> [] \<and> fits c (hd t) \<and> matches_at p (tl t)" using matches_atI y(3) by simp
next
  assume t: "t \<noteq> [] \<and> fits c (hd t) \<and> matches_at p (tl t)"
  then obtain w r where w: "tl t = w @ r" "w \<in> lang (fst p)" "snd p \<longrightarrow> r = []" by (auto simp: matches_at_def)
  have "t = (hd t # w) @ r" using t w(1) by (cases t) auto
  then show "matches_at (apfst (Cons (One c)) p) t"
    using matches_atI [of "hd t # w" "apfst (Cons (One c)) p" r] t w(2,3) by simp
qed

lemma matches_at_Star: "matches_at (apfst (Cons (Star c)) p) t \<longleftrightarrow> (\<exists>v s. t = v @ s \<and> (\<forall>x \<in> set v. fits c x) \<and> matches_at p s)"
proof
  assume "matches_at (apfst (Cons (Star c)) p) t"
  then obtain y r where y: "t = y @ r" "y \<in> lang (fst (apfst (Cons (Star c)) p))" "snd p \<longrightarrow> r = []"
    unfolding matches_at_def by auto
  then obtain v w where "t = (v @ w) @ r" "\<forall>x \<in> set v. fits c x" "w \<in> lang (fst p)" by auto
  then show "\<exists>v s. t = v @ s \<and> (\<forall>x \<in> set v. fits c x) \<and> matches_at p s"
    using matches_atI y(3) by (intro exI [of _ v] exI [of _ "w @ r"]) simp
next
  assume "\<exists>v s. t = v @ s \<and> (\<forall>x \<in> set v. fits c x) \<and> matches_at p s"
  then obtain v w r where w: "t = v @ w @ r" "\<forall>x \<in> set v. fits c x" "w \<in> lang (fst p)" "snd p \<longrightarrow> r = []"
    by (auto simp: matches_at_def)
  have "v @ w \<in> lang (fst (apfst (Cons (Star c)) p))" using w(2,3) by auto
  then show "matches_at (apfst (Cons (Star c)) p) t" using matches_atI [of "v @ w" "apfst (Cons (Star c)) p" r] w(1,4) by simp
qed

lemma deref_cons [simp]: "deref (c # s) = c"
  by (simp add: deref_def)

lemma ex_append_Cons: "(\<exists>v s. x # t = v @ s \<and> P v s) \<longleftrightarrow> P [] (x # t) \<or> (\<exists>v s. t = v @ s \<and> P (x # v) s)"
  by (metis append_Cons append_Nil append_eq_Cons_conv)

lemma matchstar_iff:
  "NUL \<notin> set tx \<Longrightarrow> matchstar c re tx \<longleftrightarrow> (\<exists>v s. tx = v @ s \<and> (\<forall>x \<in> set v. fits c x) \<and> matchhere re s)"
proof (induction tx)
  case Nil
  then show ?case by (subst matchstar.simps) simp
next
  case (Cons x tx)
  then have "matchstar c re (x # tx) \<longleftrightarrow> matchhere re (x # tx) \<or> fits c x \<and> matchstar c re tx"
    by (subst matchstar.simps) (auto simp: fits_def)
  then show ?case using Cons by (auto simp: ex_append_Cons)
qed

lemma matchhere_iff: "NUL \<notin> set re \<Longrightarrow> NUL \<notin> set tx \<Longrightarrow> matchhere re tx \<longleftrightarrow> matches_at (parse_re re) tx"
proof (induction re arbitrary: tx rule: parse_re.induct)
  case 1
  then show ?case by (subst matchhere.simps) (simp add: matches_at_Nil)
next
  case (2 c)
  have m: "matchhere [] t" for t by (subst matchhere.simps) simp
  show ?case
  proof (cases tx)
    case (Cons x t)
    then show ?thesis using 2 m matches_at_One [of c "([], False)" tx]
      by (subst matchhere.simps) (auto simp: matches_at_Nil fits_def)
  qed (use 2 m matches_at_One [of c "([], False)" tx] in \<open>subst matchhere.simps, auto simp: matches_at_Nil\<close>)
next
  case (3 c d r)
  show ?case
  proof (cases "d = CHR ''*''")
    case True
    have "matchhere r s \<longleftrightarrow> matches_at (parse_re r) s" if "tx = v @ s" for v s using that 3 True by auto
    then have "matchstar c r tx \<longleftrightarrow> matches_at (apfst (Cons (Star c)) (parse_re r)) tx"
      unfolding matchstar_iff [OF 3(4)] matches_at_Star by metis
    then show ?thesis using True 3(3) by (subst matchhere.simps) auto
  next
    case False
    have "matchhere (d # r) (tl tx) \<longleftrightarrow> matches_at (parse_re (d # r)) (tl tx)" if "tx \<noteq> []"
      using 3 False that by (cases tx) auto
    then show ?thesis using False 3 by (subst matchhere.simps) (cases tx; auto simp: matches_at_One fits_def)
  qed
qed

lemma match_from_iff: "NUL \<notin> set tx \<Longrightarrow> match_from re tx \<longleftrightarrow> (\<exists>a t. tx = a @ t \<and> matchhere re t)"
proof (induction tx)
  case Nil
  then show ?case by (subst match_from.simps) simp
next
  case (Cons x tx)
  then show ?case by (subst match_from.simps) (auto simp: ex_append_Cons)
qed

lemma match_re_iff: "NUL \<notin> set re \<Longrightarrow> NUL \<notin> set tx \<Longrightarrow> match_re re tx \<longleftrightarrow> line_matches re tx"
proof -
  assume a: "NUL \<notin> set re" "NUL \<notin> set tx"
  then have t: "NUL \<notin> set (tl re)" by (cases re) auto
  have "matchhere re s \<longleftrightarrow> matches_at (parse_re re) s" if "tx = v @ s" for v s using that a matchhere_iff by auto
  then show ?thesis using a match_from_iff [OF a(2)] matchhere_iff [OF t a(2)]
    by (cases re) (auto simp: match_re_def line_matches_def)
qed

section \<open>The lines of a file\<close>

text \<open>A file is cut at its newlines; the last piece is what follows the last newline.\<close>

fun pieces :: "string \<Rightarrow> string list" where
  "pieces [] = [[]]"
| "pieces (c # s) = (if c = CHR 0x0A then [] # pieces s else (c # hd (pieces s)) # tl (pieces s))"

lemma pieces_nonempty [simp]: "pieces s \<noteq> []"
  by (cases s) auto

lemma pieces_single: "CHR 0x0A \<notin> set l \<Longrightarrow> pieces l = [l]"
  by (induction l) auto

lemma pieces_line: "CHR 0x0A \<notin> set l \<Longrightarrow> pieces (l @ CHR 0x0A # s) = l # pieces s"
  by (induction l) auto

lemma pieces_head: "CHR 0x0A \<notin> set b \<Longrightarrow> pieces (b @ t) = (b @ hd (pieces t)) # tl (pieces t)"
  by (induction b) auto

lemma pieces_append: "pieces (x @ y) = butlast (pieces x) @ pieces (last (pieces x) @ y)"
proof (induction x)
  case (Cons c x)
  obtain p ps where ps: "pieces x = p # ps" by (cases "pieces x") auto
  show ?case using Cons ps by (cases ps) auto
qed simp

lemma last_piece: "CHR 0x0A \<notin> set (last (pieces s)) \<and> set (last (pieces s)) \<subseteq> set s"
proof (induction s)
  case (Cons c s)
  obtain p ps where "pieces s = p # ps" by (cases "pieces s") auto
  then show ?case using Cons by (cases ps) auto
qed simp

lemma strchr_newline:
  assumes "NUL \<notin> set p"
  shows "case strchr p (CHR 0x0A) of None \<Rightarrow> CHR 0x0A \<notin> set p
    | Some q \<Rightarrow> \<exists>l s. p = l @ CHR 0x0A # s \<and> q = CHR 0x0A # s \<and> CHR 0x0A \<notin> set l"
  using assms
proof (induction p)
  case (Cons c p)
  show ?case
  proof (cases "c = CHR 0x0A")
    case True
    then show ?thesis using Cons.prems by (auto intro: exI [of _ "[]"])
  next
    case False
    then show ?thesis using Cons by (auto split: option.splits intro: exI [of _ "c # _"])
  qed
qed simp

section \<open>What grep prints\<close>

definition prints :: "string \<Rightarrow> string list \<Rightarrow> ucall list" where
  "prints pattern ls = map (\<lambda>l. U_write 1 (l @ [CHR 0x0A])) (filter (line_matches pattern) ls)"

lemma prints_simps [simp]:
  "prints pattern [] = []" "prints pattern (a @ b) = prints pattern a @ prints pattern b"
  "prints pattern (l # ls) = (if line_matches pattern l then [U_write 1 (l @ [CHR 0x0A])] else []) @ prints pattern ls"
  by (simp_all add: prints_def)

lemma bytes_read_void: "\<forall>n. c \<noteq> U_read fd n \<Longrightarrow> bytes_read fd (u_calls (sys_void K c u)) = bytes_read fd (u_calls u)"
  by (auto simp: bytes_read_def sys_void_def sys_def split: prod.splits ucall.splits)

lemma grep_lines_spec:
  "NUL \<notin> set p \<Longrightarrow> NUL \<notin> set pattern \<Longrightarrow> grep_lines K pattern p u = (r, u') \<Longrightarrow>
    r = last (pieces p) \<and> calls_of u' = calls_of u @ prints pattern (butlast (pieces p)) \<and>
    bytes_read fd (u_calls u') = bytes_read fd (u_calls u)"
proof (induction p arbitrary: u rule: length_induct)
  case (1 p)
  note s = strchr_newline [OF 1(2)]
  show ?case
  proof (cases "strchr p (CHR 0x0A)")
    case None
    then have "pieces p = [p]" using s by (simp add: pieces_single)
    then show ?thesis using 1(4) None by (simp add: grep_lines.simps [of K pattern p])
  next
    case (Some q)
    then obtain l t where p: "p = l @ CHR 0x0A # t" "q = CHR 0x0A # t" "CHR 0x0A \<notin> set l" using s by auto
    let ?u = "if line_matches pattern l then sys_void K (U_write 1 (l @ [CHR 0x0A])) u else u"
    have nul: "NUL \<notin> set l" "NUL \<notin> set t" using 1(2) p(1) by auto
    then have "match_re pattern l \<longleftrightarrow> line_matches pattern l" using match_re_iff 1(3) by blast
    then have "grep_lines K pattern p u = grep_lines K pattern t ?u"
      unfolding grep_lines.simps [of K pattern p] Some by (simp add: p(1,2) Let_def)
    then have g: "grep_lines K pattern t ?u = (r, u')" using 1(4) by metis
    have "r = last (pieces t) \<and> calls_of u' = calls_of ?u @ prints pattern (butlast (pieces t)) \<and>
        bytes_read fd (u_calls u') = bytes_read fd (u_calls ?u)"
      using 1(1) p(1) nul(2) 1(3) g by (intro 1(1) [rule_format]) auto
    then show ?thesis using pieces_line [OF p(3), of t] p(1) bytes_read_void [of "U_write 1 (l @ [CHR 0x0A])" fd K u] by auto
  qed
qed

lemma grep_loop_spec:
  assumes K: "delivers K fd F" and F: "NUL \<notin> set F" "NUL \<notin> set pattern" "\<forall>l \<in> set (pieces F). length l \<le> GREP_BUF - 2"
  shows "bytes_read fd (u_calls u) = k \<Longrightarrow> k \<le> length F \<Longrightarrow> b = last (pieces (take k F)) \<Longrightarrow>
    \<exists>u'. grep_loop K pattern fd b u = Some u' \<and>
      filter (\<lambda>c. \<not> (\<exists>n. c = U_read fd n)) (calls_of u') =
      filter (\<lambda>c. \<not> (\<exists>n. c = U_read fd n)) (calls_of u) @ prints pattern (butlast (pieces (b @ drop k F)))"
proof (induction "length F - k" arbitrary: k b u rule: less_induct)
  case less
  let ?other = "filter (\<lambda>c. \<not> (\<exists>n. c = U_read fd n))"
  obtain l ls where rest: "pieces (b @ drop k F) = l # ls" by (cases "pieces (b @ drop k F)") auto
  have cut: "pieces F = butlast (pieces (take k F)) @ pieces (b @ drop k F)"
    using pieces_append [of "take k F" "drop k F"] less.prems(3) by simp
  have bl: "CHR 0x0A \<notin> set b" "set b \<subseteq> set F" using last_piece [of "take k F"] less.prems(3) set_take_subset by fastforce+
  have "length b \<le> length l" using rest pieces_head [OF bl(1), of "drop k F"] by auto
  then have room: "0 < GREP_BUF - length b - 1" using F(3) cut rest by (auto simp: GREP_BUF_def)
  obtain r bs where k: "K (u_calls u) (U_read fd (GREP_BUF - length b - 1)) = (r, bs)" by force
  define u1 where "u1 = u\<lparr>u_calls := u_calls u @ [(U_read fd (GREP_BUF - length b - 1), r, bs)]\<rparr>"
  have s: "sys K (U_read fd (GREP_BUF - length b - 1)) u = (r, bs, u1)" unfolding sys_def k u1_def by simp
  have d: "r = int (length bs)" "bs = take (length bs) (drop k F)" "bs = [] \<longrightarrow> length F \<le> k"
    using K room k less.prems(1) unfolding delivers_def by blast+
  have c1: "calls_of u1 = calls_of u @ [U_read fd (GREP_BUF - length b - 1)]" "bytes_read fd (u_calls u1) = k + length bs"
    using less.prems(1) by (simp_all add: u1_def calls_of_def bytes_read_def)
  show ?case
  proof (cases "bs = []")
    case True
    then have "k = length F" using d(3) less.prems(2) by simp
    then show ?thesis using s d(1) True c1 pieces_single [OF bl(1)] by (subst grep_loop.simps) simp
  next
    case False
    let ?k = "k + length bs"
    obtain p u2 where g: "grep_lines K pattern (b @ bs) u1 = (p, u2)" by force
    have "length bs \<le> length F - k" using arg_cong [OF d(2), of length] by simp
    then have kF: "?k \<le> length F" "length F - ?k < length F - k" using less.prems(2) False by (cases bs; simp)+
    have tk: "take ?k F = take k F @ bs" using d(2) by (metis take_add)
    have bsF: "set bs \<subseteq> set F" using d(2) by (metis set_drop_subset set_take_subset subset_trans)
    have pk: "pieces (take ?k F) = butlast (pieces (take k F)) @ pieces (b @ bs)"
      using tk less.prems(3) pieces_append [of "take k F" bs] by simp
    have g2: "p = last (pieces (b @ bs))" "calls_of u2 = calls_of u1 @ prints pattern (butlast (pieces (b @ bs)))"
      "bytes_read fd (u_calls u2) = ?k"
      using grep_lines_spec [OF _ F(2) g, of fd] bl(2) bsF F(1) c1(2) by auto
    obtain u' where u': "grep_loop K pattern fd p u2 = Some u'"
      "?other (calls_of u') = ?other (calls_of u2) @ prints pattern (butlast (pieces (p @ drop ?k F)))"
      using less.hyps [OF kF(2) g2(3) kF(1)] g2(1) pk by auto
    have "?other (prints pattern xs) = prints pattern xs" for xs by (auto simp: prints_def filter_map o_def intro!: filter_True)
    then have o2: "?other (calls_of u2) = ?other (calls_of u) @ prints pattern (butlast (pieces (b @ bs)))"
      using g2(2) c1(1) by simp
    have "drop k F = bs @ drop ?k F" using d(2) by (metis add.commute append_take_drop_id drop_drop)
    then have "butlast (pieces (b @ drop k F)) = butlast (pieces (b @ bs)) @ butlast (pieces (p @ drop ?k F))"
      using pieces_append [of "b @ bs" "drop ?k F"] g2(1) by (simp add: butlast_append)
    then show ?thesis using s d(1) False g u' o2 by (subst grep_loop.simps) simp
  qed
qed

text \<open>
  C39: \<open>grep\<close> prints the matching lines.  Let the file be free of NUL characters, its lines at most 1022 characters long, and the
  kernel deliver it in pieces of any size.  Then \<open>grep\<close> returns, and apart from reading the file it makes exactly
  these calls: one \<open>write\<close> to the standard output for each line that ends with a newline and matches, with its newline, in the
  order of the file.  A line matches if the language of the pattern holds a piece of the line, at its start for a leading \<open>^\<close>
  and at its end for a final \<open>$\<close>.
\<close>

theorem grep_prints_matches:
  assumes "delivers K fd F" "NUL \<notin> set F" "NUL \<notin> set pattern" "\<forall>l \<in> set (pieces F). length l \<le> 1022"
    and "bytes_read fd (u_calls u) = 0"
  shows "\<exists>u'. grep K pattern fd u = Some u' \<and>
    filter (\<lambda>c. \<not> (\<exists>n. c = U_read fd n)) (calls_of u') =
    filter (\<lambda>c. \<not> (\<exists>n. c = U_read fd n)) (calls_of u) @
      map (\<lambda>l. U_write 1 (l @ [CHR 0x0A])) (filter (line_matches pattern) (butlast (pieces F)))"
  using grep_loop_spec [OF assms(1-3), of u 0 "[]"] assms(4,5) by (simp add: grep_def prints_def GREP_BUF_def)

theorem grep_prints_matches_witness:
  "\<exists>u'. grep (file_kern (''ab'' @ [CHR 0x0A] @ ''cd'' @ [CHR 0x0A])) ''^a.'' 3 \<lparr>u_calls = [], u_pbuf = [], u_pfd = - 1\<rparr> = Some u' \<and>
     filter (\<lambda>c. \<not> (\<exists>n. c = U_read 3 n)) (calls_of u') = [U_write 1 (''ab'' @ [CHR 0x0A])]"
proof -
  let ?F = "''ab'' @ [CHR 0x0A] @ ''cd'' @ [CHR 0x0A]" and ?u = "\<lparr>u_calls = [], u_pbuf = [], u_pfd = - 1\<rparr>"
  have "line_matches ''^a.'' ''ab''" "\<not> line_matches ''^a.'' ''cd''"
    using match_re_iff [of "''^a.''" "''ab''"] match_re_iff [of "''^a.''" "''cd''"]
    by (simp_all add: match_re_def matchhere.simps)
  moreover have "butlast (pieces ?F) = [''ab'', ''cd'']" "\<forall>l \<in> set (pieces ?F). length l \<le> 1022" by simp_all
  ultimately show ?thesis
    using grep_prints_matches [OF file_kern_delivers, of ?F "''^a.''" 3 ?u] by (simp add: bytes_read_def calls_of_def)
qed

end
