(* ===== verification/Sh.thy ===== *)
theory Sh
  imports Ulib
begin

text \<open>
  The shell \<open>user/sh.c\<close>: the parser, the termination of the words in the buffer, the execution of a command tree and the
  command loop.

  A pointer into the command line is the suffix of the line it points to, up to the terminating NUL (\<open>es\<close>); a word is the pair of
  its start and its end (\<open>argv\<close> and \<open>eargv\<close>).  \<open>Inl\<close> is a panic with its message; memory for the tree is taken to be available.  The
  four parsing functions call one another and carry fuel, which is shown to be enough in \<open>parsecmd\<close>.
\<close>

section \<open>Command trees\<close>

datatype 'w cmd =
    EXEC "'w list"
  | REDIR "'w cmd" 'w u32 int
  | PIPE "'w cmd" "'w cmd"
  | LIST "'w cmd" "'w cmd"
  | BACK "'w cmd"

type_synonym word_ptr = "string \<times> string"

definition MAXARGS :: nat where "MAXARGS = 10"

definition whitespace :: string where "whitespace = [CHR '' '', CHR 0x09, CHR 0x0D, CHR 0x0A, CHR 0x0B]"

definition symbols :: string where "symbols = ''<|>&;()''"

section \<open>Tokens\<close>

definition is_white :: "char \<Rightarrow> bool" where
  "is_white c = (strchr whitespace c \<noteq> None)"

definition skip_white :: "string \<Rightarrow> string" where
  "skip_white s = dropWhile is_white s"

definition gettoken :: "string \<Rightarrow> char \<times> word_ptr \<times> string" where
  "gettoken ps =
     (let s = skip_white ps; q = s; c = deref s;
          (tok, s) =
            (if c = NUL then (c, s)
             else if c \<in> {CHR ''|'', CHR ''('', CHR '')'', CHR '';'', CHR ''&'', CHR ''<''} then (c, tl s)
             else if c = CHR ''>''
             then (let s = tl s in if deref s = CHR ''>'' then (CHR ''+'', tl s) else (c, s))
             else (CHR ''a'', dropWhile (\<lambda>x. strchr whitespace x = None \<and> strchr symbols x = None) s))
      in (tok, (q, s), skip_white s))"

definition peek :: "string \<Rightarrow> string \<Rightarrow> bool \<times> string" where
  "peek ps toks = (let s = skip_white ps in (deref s \<noteq> NUL \<and> strchr toks (deref s) \<noteq> None, s))"

lemma skip_white_shorter: "length (skip_white s) \<le> length s"
  by (simp add: skip_white_def length_dropWhile_le)

lemma gettoken_shorter:
  assumes "gettoken ps = (tok, w, s)"
  shows "length s \<le> length ps" "tok \<noteq> NUL \<Longrightarrow> length s < length ps"
proof -
  let ?P = "\<lambda>x. strchr whitespace x = None \<and> strchr symbols x = None"
  have sk: "length (skip_white x) \<le> length x" for x by (rule skip_white_shorter)
  have "length s \<le> length (skip_white ps) \<and> (tok \<noteq> NUL \<longrightarrow> length s < length (skip_white ps))"
  proof (cases "skip_white ps")
    case Nil
    then show ?thesis using assms sk [of "[]"] by (auto simp: gettoken_def Let_def)
  next
    case (Cons c x)
    have nw: "\<not> is_white c" using Cons hd_dropWhile [of is_white ps] unfolding skip_white_def by (metis list.distinct(1) list.sel(1))
    have word: "c \<noteq> NUL \<Longrightarrow> c \<notin> {CHR ''|'', CHR ''('', CHR '')'', CHR '';'', CHR ''&'', CHR ''<''} \<Longrightarrow> c \<noteq> CHR ''>'' \<Longrightarrow> ?P c"
      using nw by (auto simp: is_white_def symbols_def)
    show ?thesis
    proof (cases "c \<noteq> NUL \<and> c \<notin> {CHR ''|'', CHR ''('', CHR '')'', CHR '';'', CHR ''&'', CHR ''<''} \<and> c \<noteq> CHR ''>''")
      case True
      then have "s = skip_white (dropWhile ?P x)" using assms Cons word by (simp add: gettoken_def Let_def deref_def)
      then show ?thesis using sk [of "dropWhile ?P x"] length_dropWhile_le [of ?P x] Cons by simp
    next
      case False
      then show ?thesis using assms Cons sk [of "c # x"] sk [of x] sk [of "tl x"]
        by (auto simp: gettoken_def Let_def deref_def split: if_splits list.splits)
    qed
  qed
  then show "length s \<le> length ps" "tok \<noteq> NUL \<Longrightarrow> length s < length ps" using sk [of ps] by auto
qed

lemma peek_shorter: "peek ps toks = (b, s) \<Longrightarrow> length s \<le> length ps"
  using skip_white_shorter by (auto simp: peek_def Let_def)

section \<open>The parser\<close>

text \<open>The modes with which a redirection opens its file.\<close>

definition mode_in :: u32 where "mode_in = O_RDONLY"
definition mode_out :: u32 where "mode_out = or (or O_WRONLY O_CREATE) O_TRUNC"
definition mode_app :: u32 where "mode_app = or O_WRONLY O_CREATE"

definition redir_by :: "char \<Rightarrow> 'w cmd \<Rightarrow> 'w \<Rightarrow> 'w cmd" where
  "redir_by tok cmd w =
     (if tok = CHR ''<'' then REDIR cmd w mode_in 0
      else if tok = CHR ''>'' then REDIR cmd w mode_out 1
      else if tok = CHR ''+'' then REDIR cmd w mode_app 1
      else cmd)"

function parseredirs :: "word_ptr cmd \<Rightarrow> string \<Rightarrow> string + word_ptr cmd \<times> string" where
  "parseredirs cmd ps =
     (let (more, ps) = peek ps ''<>''
      in if more
         then
           let (tok, _, ps) = gettoken ps; (t, w, ps) = gettoken ps
           in if t \<noteq> CHR ''a'' then Inl ''missing file for redirection''
              else parseredirs (redir_by tok cmd w) ps
         else Inr (cmd, ps))"
  by pat_completeness auto
termination
proof (relation "measure (\<lambda>(cmd, ps). length ps)", goal_cases)
  case (2 cmd ps a more ps1 b tok c w1 ps2 d t e w ps3)
  have "length ps1 \<le> length ps" using 2 peek_shorter by metis
  moreover have "length ps2 \<le> length ps1" using 2 gettoken_shorter(1) by (metis (no_types))
  moreover have "length ps3 < length ps2" using 2 gettoken_shorter(2) [of ps2 t w ps3] by auto
  ultimately show ?case by simp
qed simp

declare parseredirs.simps [simp del]

text \<open>A new argument is stored in the \<open>execcmd\<close> at the bottom of the redirections.\<close>

fun add_arg :: "'w \<Rightarrow> 'w cmd \<Rightarrow> 'w cmd" where
  "add_arg w (EXEC ws) = EXEC (ws @ [w])"
| "add_arg w (REDIR c f mode fd) = REDIR (add_arg w c) f mode fd"
| "add_arg w c = c"

lemma parseredirs_shorter: "parseredirs cmd ps = Inr (c, s) \<Longrightarrow> length s \<le> length ps"
proof (induction cmd ps rule: parseredirs.induct)
  case (1 cmd ps)
  obtain more ps1 where p: "peek ps ''<>'' = (more, ps1)" by force
  obtain tok w1 ps2 where g: "gettoken ps1 = (tok, w1, ps2)" by (metis prod_cases3)
  obtain t w ps3 where h: "gettoken ps2 = (t, w, ps3)" by (metis prod_cases3)
  have l: "length ps1 \<le> length ps" "length ps2 \<le> length ps1" "length ps3 \<le> length ps2"
    using peek_shorter [OF p] gettoken_shorter(1) [OF g] gettoken_shorter(1) [OF h] .
  show ?case using 1(2) 1(1) [OF p [symmetric] refl _ g [symmetric] refl refl h [symmetric] refl refl] l
    by (auto simp: parseredirs.simps [of cmd ps] p g h split: if_splits)
qed

function parseexec_loop :: "word_ptr cmd \<Rightarrow> nat \<Rightarrow> string \<Rightarrow> string + word_ptr cmd \<times> string" where
  "parseexec_loop cmd argc ps =
     (let (stop, ps) = peek ps ''|)&;''
      in if stop then Inr (cmd, ps)
         else
           let (tok, w, ps) = gettoken ps
           in if tok = NUL then Inr (cmd, ps)
              else if tok \<noteq> CHR ''a'' then Inl ''syntax''
              else if argc + 1 \<ge> MAXARGS then Inl ''too many args''
              else case parseredirs (add_arg w cmd) ps of
                  Inl e \<Rightarrow> Inl e
                | Inr (cmd, ps) \<Rightarrow> parseexec_loop cmd (argc + 1) ps)"
  by pat_completeness auto
termination
proof (relation "measure (\<lambda>(cmd, argc, ps). length ps)", goal_cases)
  case (2 cmd argc ps a stop ps1 b tok c w ps2 d cmd' ps3)
  have "length ps1 \<le> length ps" using 2 peek_shorter by metis
  moreover have "length ps2 < length ps1" using 2 gettoken_shorter(2) [of ps1 tok w ps2] by auto
  moreover have "length ps3 \<le> length ps2" using 2 parseredirs_shorter by metis
  ultimately show ?case by simp
qed simp

declare parseexec_loop.simps [simp del]

function back_loop :: "word_ptr cmd \<Rightarrow> string \<Rightarrow> word_ptr cmd \<times> string" where
  "back_loop cmd ps =
     (let (more, ps) = peek ps ''&''
      in if more then let (_, _, ps) = gettoken ps in back_loop (BACK cmd) ps else (cmd, ps))"
  by pat_completeness auto
termination
proof (relation "measure (\<lambda>(cmd, ps). length ps)", goal_cases)
  case (2 cmd ps a more ps1 b tok c w ps2)
  have "length ps1 \<le> length ps" using 2 peek_shorter by metis
  moreover have "tok \<noteq> NUL"
  proof -
    have "deref (skip_white ps) = CHR ''&''" "ps1 = skip_white ps" using 2 by (auto simp: peek_def Let_def split: if_splits)
    moreover have "skip_white (skip_white ps) = skip_white ps" by (simp add: skip_white_def)
    ultimately show ?thesis using 2 by (simp add: gettoken_def Let_def)
  qed
  then have "length ps2 < length ps1" using 2 gettoken_shorter(2) [of ps1 tok w ps2] by auto
  ultimately show ?case by simp
qed simp

declare back_loop.simps [simp del]

text \<open>The next step of a parser; \<open>None\<close> stands for lack of fuel.\<close>

definition andthen :: "(string + 'w cmd \<times> string) option \<Rightarrow> ('w cmd \<Rightarrow> string \<Rightarrow> (string + 'w cmd \<times> string) option) \<Rightarrow>
    (string + 'w cmd \<times> string) option" where
  "andthen x f = (case x of None \<Rightarrow> None | Some (Inl e) \<Rightarrow> Some (Inl e) | Some (Inr (c, s)) \<Rightarrow> f c s)"

fun parseline :: "nat \<Rightarrow> string \<Rightarrow> (string + word_ptr cmd \<times> string) option"
  and parsepipe :: "nat \<Rightarrow> string \<Rightarrow> (string + word_ptr cmd \<times> string) option"
  and parseexec :: "nat \<Rightarrow> string \<Rightarrow> (string + word_ptr cmd \<times> string) option"
  and parseblock :: "nat \<Rightarrow> string \<Rightarrow> (string + word_ptr cmd \<times> string) option" where
  "parseline 0 ps = None"
| "parseline (Suc n) ps =
     andthen (parsepipe n ps) (\<lambda>cmd ps.
       let (cmd, ps) = back_loop cmd ps; (more, ps) = peek ps '';''
       in if more
          then let (_, _, ps) = gettoken ps in andthen (parseline n ps) (\<lambda>right ps. Some (Inr (LIST cmd right, ps)))
          else Some (Inr (cmd, ps)))"
| "parsepipe 0 ps = None"
| "parsepipe (Suc n) ps =
     andthen (parseexec n ps) (\<lambda>cmd ps.
       let (more, ps) = peek ps ''|''
       in if more
          then let (_, _, ps) = gettoken ps in andthen (parsepipe n ps) (\<lambda>right ps. Some (Inr (PIPE cmd right, ps)))
          else Some (Inr (cmd, ps)))"
| "parseexec 0 ps = None"
| "parseexec (Suc n) ps =
     (let (block, ps) = peek ps ''(''
      in if block then parseblock n ps
         else andthen (Some (parseredirs (EXEC []) ps)) (\<lambda>cmd ps. Some (parseexec_loop cmd 0 ps)))"
| "parseblock 0 ps = None"
| "parseblock (Suc n) ps =
     (let (paren, ps) = peek ps ''(''
      in if \<not> paren then Some (Inl ''parseblock'')
         else let (_, _, ps) = gettoken ps
           in andthen (parseline n ps) (\<lambda>cmd ps.
                let (close, ps) = peek ps '')''
                in if \<not> close then Some (Inl ''syntax - missing )'')
                   else let (_, _, ps) = gettoken ps in Some (parseredirs cmd ps)))"

section \<open>Terminating the words\<close>

text \<open>\<open>n\<close> is the length of the line, so the pointer \<open>e\<close> is at index \<open>n - length e\<close> of the buffer.\<close>

definition nul_at :: "nat \<Rightarrow> word_ptr \<Rightarrow> string \<Rightarrow> string" where
  "nul_at n w buf = buf[n - length (snd w) := NUL]"

fun nulterminate :: "nat \<Rightarrow> word_ptr cmd \<Rightarrow> string \<Rightarrow> string" where
  "nulterminate n (EXEC ws) buf = fold (nul_at n) ws buf"
| "nulterminate n (REDIR c f mode fd) buf = nul_at n f (nulterminate n c buf)"
| "nulterminate n (PIPE l r) buf = nulterminate n r (nulterminate n l buf)"
| "nulterminate n (LIST l r) buf = nulterminate n r (nulterminate n l buf)"
| "nulterminate n (BACK c) buf = nulterminate n c buf"

text \<open>The string that a word's start points to in the changed buffer.\<close>

definition word_at :: "nat \<Rightarrow> string \<Rightarrow> word_ptr \<Rightarrow> string" where
  "word_at n buf w = cstr (drop (n - length (fst w)) buf)"

section \<open>Running commands\<close>

definition shpanic :: "kern \<Rightarrow> string \<Rightarrow> user \<Rightarrow> user" where
  "shpanic K s u = sys_void K (U_exit 1) (fprintf K 2 (''%s'' @ [CHR 0x0A]) [VStr (Some s)] u)"

definition parse_fuel :: "string \<Rightarrow> nat" where
  "parse_fuel s = 4 * length s + 4"

text \<open>No tree means that the process has exited.\<close>

definition parsecmd :: "kern \<Rightarrow> string \<Rightarrow> user \<Rightarrow> (word_ptr cmd \<times> string) option \<times> user" where
  "parsecmd K buf u =
     (let s = cstr buf
      in case parseline (parse_fuel s) s of
           None \<Rightarrow> (None, u)
         | Some (Inl e) \<Rightarrow> (None, shpanic K e u)
         | Some (Inr (cmd, ps)) \<Rightarrow>
             let (_, ps) = peek ps []
             in if ps \<noteq> []
                then (None, shpanic K ''syntax'' (fprintf K 2 (''leftovers: %s'' @ [CHR 0x0A]) [VStr (Some ps)] u))
                else (Some (cmd, nulterminate (length s) cmd buf), u))"

text \<open>The pid is -1 when the shell has panicked.\<close>

definition fork1 :: "kern \<Rightarrow> user \<Rightarrow> int \<times> user" where
  "fork1 K u = (let (pid, _, u) = sys K U_fork u in (pid, if pid = - 1 then shpanic K ''fork'' u else u))"

text \<open>\<open>runcmd\<close> never returns: the result is the state at \<open>exit\<close>, or at an \<open>exec\<close> that has replaced the program.\<close>

fun runcmd :: "kern \<Rightarrow> string cmd \<Rightarrow> user \<Rightarrow> user" where
  "runcmd K (EXEC argv) u =
     (if argv = [] then sys_void K (U_exit 1) u
      else let (r, _, u) = sys K (U_exec (hd argv) argv) u
        in if r \<ge> 0 then u
           else sys_void K (U_exit 0) (fprintf K 2 (''exec %s failed'' @ [CHR 0x0A]) [VStr (Some (hd argv))] u))"
| "runcmd K (REDIR c f mode fd) u =
     (let u = sys_void K (U_close fd) u; (r, _, u) = sys K (U_open f mode) u
      in if r < 0 then sys_void K (U_exit 1) (fprintf K 2 (''open %s failed'' @ [CHR 0x0A]) [VStr (Some f)] u)
         else runcmd K c u)"
| "runcmd K (LIST l r) u =
     (let (pid, u) = fork1 K u
      in if pid = - 1 then u
         else if pid = 0 then runcmd K l u
         else runcmd K r (sys_void K U_wait u))"
| "runcmd K (PIPE l r) u =
     (let (x, bs, u) = sys K U_pipe u;
          p0 = wrap32 (int (get_le 4 0 bs)); p1 = wrap32 (int (get_le 4 4 bs))
      in if x < 0 then shpanic K ''pipe'' u
         else
           let (pid, u) = fork1 K u
           in if pid = - 1 then u
              else if pid = 0
              then runcmd K l (sys_void K (U_close p1) (sys_void K (U_close p0) (sys_void K (U_dup p1) (sys_void K (U_close 1) u))))
              else
                let (pid, u) = fork1 K u
                in if pid = - 1 then u
                   else if pid = 0
                   then runcmd K r (sys_void K (U_close p1) (sys_void K (U_close p0) (sys_void K (U_dup p0) (sys_void K (U_close 0) u))))
                   else sys_void K (U_exit 0) (sys_void K U_wait (sys_void K U_wait
                          (sys_void K (U_close p1) (sys_void K (U_close p0) u)))))"
| "runcmd K (BACK c) u =
     (let (pid, u) = fork1 K u
      in if pid = - 1 then u
         else if pid = 0 then runcmd K c u
         else sys_void K (U_exit 0) u)"

section \<open>The command loop\<close>

definition getcmd :: "kern \<Rightarrow> string \<Rightarrow> int \<Rightarrow> user \<Rightarrow> int \<times> string \<times> user" where
  "getcmd K buf nbuf u =
     (let u = sys_void K (U_write 2 ''$ '') u;
          buf = memset buf NUL (nat nbuf);
          (buf, u) = gets K buf nbuf u
      in (if deref buf = NUL then - 1 else 0, buf, u))"

partial_function (option) open_console :: "kern \<Rightarrow> user \<Rightarrow> user option" where
  "open_console K u =
     (let (fd, _, u) = sys K (U_open ''console'' O_RDWR) u
      in if fd < 0 then Some u
         else if fd \<ge> 3 then Some (sys_void K (U_close fd) u)
         else open_console K u)"

definition run_line :: "kern \<Rightarrow> string \<Rightarrow> user \<Rightarrow> user" where
  "run_line K cmd u =
     (case parsecmd K cmd u of
        (None, u) \<Rightarrow> u
      | (Some (t, buf), u) \<Rightarrow> runcmd K (map_cmd (word_at (length (cstr cmd)) buf) t) u)"

partial_function (option) sh_loop :: "kern \<Rightarrow> string \<Rightarrow> user \<Rightarrow> user option" where
  "sh_loop K buf u =
     (let (r, buf, u) = getcmd K buf 100 u
      in if r < 0 then Some (sys_void K (U_exit 0) u)
         else
           let cmd = dropWhile (\<lambda>c. c = CHR '' '' \<or> c = CHR 0x09) buf
           in if deref cmd = CHR 0x0A then sh_loop K buf u
              else if deref cmd = CHR ''c'' \<and> deref (drop 1 cmd) = CHR ''d'' \<and> deref (drop 2 cmd) = CHR '' ''
              then
                let cmd = cmd[strlen cmd - 1 := NUL];
                    (x, _, u) = sys K (U_chdir (cstr (drop 3 cmd))) u;
                    u = (if x < 0 then fprintf K 2 (''cannot cd %s'' @ [CHR 0x0A]) [VStr (Some (cstr (drop 3 cmd)))] u else u)
                in sh_loop K buf u
              else
                let (pid, u) = fork1 K u
                in if pid = - 1 then Some u
                   else if pid = 0 then Some (run_line K cmd u)
                   else sh_loop K buf (sys_void K U_wait u))"

definition sh_main :: "kern \<Rightarrow> user \<Rightarrow> user option" where
  "sh_main K u = Option.bind (open_console K u) (sh_loop K (replicate 100 NUL))"

section \<open>The fuel is enough\<close>

lemma andthen_simps [simp]:
  "andthen None f = None" "andthen (Some (Inl e)) f = Some (Inl e)" "andthen (Some (Inr (c, s))) f = f c s"
  by (simp_all add: andthen_def)

text \<open>A parser returns within its fuel, with a rest that is not longer than \<open>k\<close>.\<close>

definition done_by :: "nat \<Rightarrow> (string + 'w cmd \<times> string) option \<Rightarrow> bool" where
  "done_by k x \<longleftrightarrow> (case x of None \<Rightarrow> False | Some (Inl e) \<Rightarrow> True | Some (Inr (c, s)) \<Rightarrow> length s \<le> k)"

lemma done_by_simps [simp]: "\<not> done_by k None" "done_by k (Some (Inl e))" "done_by k (Some (Inr (c, s))) \<longleftrightarrow> length s \<le> k"
  by (simp_all add: done_by_def)

lemma done_andthen: "done_by j x \<Longrightarrow> (\<And>c s. length s \<le> j \<Longrightarrow> done_by k (f c s)) \<Longrightarrow> done_by k (andthen x f)"
  by (cases x) (auto simp: done_by_def andthen_def split: sum.splits)

lemma done_mono: "done_by j x \<Longrightarrow> j \<le> k \<Longrightarrow> done_by k x"
  by (auto simp: done_by_def split: option.splits sum.splits)

lemma parseexec_loop_shorter: "parseexec_loop cmd argc ps = Inr (c, s) \<Longrightarrow> length s \<le> length ps"
proof (induction cmd argc ps rule: parseexec_loop.induct)
  case (1 cmd argc ps)
  obtain stop ps1 where p: "peek ps ''|)&;'' = (stop, ps1)" by force
  obtain tok w ps2 where g: "gettoken ps1 = (tok, w, ps2)" by (metis prod_cases3)
  have l: "length ps1 \<le> length ps" "length ps2 \<le> length ps1" using peek_shorter [OF p] gettoken_shorter(1) [OF g] .
  show ?case
  proof (cases "parseredirs (add_arg w cmd) ps2")
    case (Inr x)
    then have "length (snd x) \<le> length ps2" using parseredirs_shorter [of "add_arg w cmd" ps2 "fst x" "snd x"] by simp
    then show ?thesis using 1(2) 1(1) [OF p [symmetric] refl _ g [symmetric] refl refl, of x "fst x" "snd x"] l Inr
      by (auto simp: parseexec_loop.simps [of cmd argc ps] p g split: if_splits prod.splits)
  qed (use 1(2) l in \<open>auto simp: parseexec_loop.simps [of cmd argc ps] p g split: if_splits\<close>)
qed

lemma back_loop_shorter: "back_loop cmd ps = (c, s) \<Longrightarrow> length s \<le> length ps"
proof (induction cmd ps rule: back_loop.induct)
  case (1 cmd ps)
  obtain more ps1 where p: "peek ps ''&'' = (more, ps1)" by force
  obtain tok w ps2 where g: "gettoken ps1 = (tok, w, ps2)" by (metis prod_cases3)
  show ?case using 1(2) 1(1) [OF p [symmetric] refl _ g [symmetric] refl refl] peek_shorter [OF p] gettoken_shorter(1) [OF g]
    by (auto simp: back_loop.simps [of cmd ps] p g split: if_splits)
qed

lemma skip_skip [simp]: "skip_white (skip_white s) = skip_white s"
  by (simp add: skip_white_def)

lemma peek_gettoken:
  assumes "peek ps toks = (True, s)" "gettoken s = (tok, w, r)"
  shows "length r < length s"
proof -
  have s: "skip_white s = s" "deref s \<noteq> NUL" using assms(1) by (auto simp: peek_def Let_def)
  then have "tok \<noteq> NUL" using assms(2) by (auto simp: gettoken_def Let_def split: if_splits)
  then show ?thesis using gettoken_shorter(2) [OF assms(2)] by simp
qed

text \<open>The bodies of the four functions, when the calls they make are done.\<close>

lemma line_done:
  assumes IH: "done_by (length s) (parsepipe n s)" "\<And>x. length x < length s \<Longrightarrow> done_by (length x) (parseline n x)"
  shows "done_by (length s) (parseline (Suc n) s)"
  unfolding parseline.simps
proof (rule done_andthen [OF IH(1)])
  fix c :: "word_ptr cmd" and x :: string
  assume x: "length x \<le> length s"
  obtain c1 x1 where b: "back_loop c x = (c1, x1)" by force
  obtain more x2 where p: "peek x1 '';'' = (more, x2)" by force
  obtain tok w x3 where g: "gettoken x2 = (tok, w, x3)" by (metis prod_cases3)
  have l: "length x2 \<le> length s" using x back_loop_shorter [OF b] peek_shorter [OF p] by simp
  have "done_by (length s) (andthen (parseline n x3) (\<lambda>right ps. Some (Inr (LIST c1 right, ps))))" if more
  proof -
    have "length x3 < length s" using peek_gettoken [of x1 "'';''" x2] p g that l by auto
    then show ?thesis by (intro done_andthen [OF IH(2)]) auto
  qed
  then show "done_by (length s) (let (cmd, ps) = back_loop c x; (more, ps) = peek ps '';''
     in if more
        then let (_, _, ps) = gettoken ps in andthen (parseline n ps) (\<lambda>right ps. Some (Inr (LIST cmd right, ps)))
        else Some (Inr (cmd, ps)))" using b p g l by simp
qed

lemma pipe_done:
  assumes IH: "done_by (length s) (parseexec n s)" "\<And>x. length x < length s \<Longrightarrow> done_by (length x) (parsepipe n x)"
  shows "done_by (length s) (parsepipe (Suc n) s)"
  unfolding parsepipe.simps
proof (rule done_andthen [OF IH(1)])
  fix c :: "word_ptr cmd" and x :: string
  assume x: "length x \<le> length s"
  obtain more x2 where p: "peek x ''|'' = (more, x2)" by force
  obtain tok w x3 where g: "gettoken x2 = (tok, w, x3)" by (metis prod_cases3)
  have l: "length x2 \<le> length s" using x peek_shorter [OF p] by simp
  have "done_by (length s) (andthen (parsepipe n x3) (\<lambda>right ps. Some (Inr (PIPE c right, ps))))" if more
  proof -
    have "length x3 < length s" using peek_gettoken [of x "''|''" x2] p g that l by auto
    then show ?thesis by (intro done_andthen [OF IH(2)]) auto
  qed
  then show "done_by (length s) (let (more, ps) = peek x ''|''
     in if more
        then let (_, _, ps) = gettoken ps in andthen (parsepipe n ps) (\<lambda>right ps. Some (Inr (PIPE c right, ps)))
        else Some (Inr (c, ps)))" using p g l by simp
qed

lemma redirs_done: "length x \<le> k \<Longrightarrow> done_by k (Some (parseredirs c x))"
  using parseredirs_shorter [of c x] by (force simp: done_by_def split: sum.splits)

lemma exec_done:
  assumes IH: "\<And>x. length x \<le> length s \<Longrightarrow> done_by (length x) (parseblock n x)"
  shows "done_by (length s) (parseexec (Suc n) s)"
proof -
  obtain block x where p: "peek s ''('' = (block, x)" by force
  have x: "length x \<le> length s" using peek_shorter [OF p] .
  have "done_by (length s) (andthen (Some (parseredirs (EXEC []) x)) (\<lambda>cmd ps. Some (parseexec_loop cmd 0 ps)))"
  proof (rule done_andthen [OF redirs_done [OF x]])
    show "done_by (length s) (Some (parseexec_loop c 0 y))" if "length y \<le> length s" for c y
      using parseexec_loop_shorter [of c 0 y] that by (force simp: done_by_def split: sum.splits)
  qed
  then show ?thesis using p done_mono [OF IH [OF x] x] by simp
qed

lemma block_done:
  assumes IH: "\<And>x. length x < length s \<Longrightarrow> done_by (length x) (parseline n x)"
  shows "done_by (length s) (parseblock (Suc n) s)"
proof -
  obtain paren x where p: "peek s ''('' = (paren, x)" by force
  obtain tok w y where g: "gettoken x = (tok, w, y)" by (metis prod_cases3)
  show ?thesis
  proof (cases paren)
    case True
    have y: "length y < length s" using peek_gettoken [of s "''(''" x] p g True peek_shorter [OF p] by auto
    have "done_by (length s) (andthen (parseline n y) (\<lambda>cmd ps.
              let (close, ps) = peek ps '')''
              in if \<not> close then Some (Inl ''syntax - missing )'')
                 else let (_, _, ps) = gettoken ps in Some (parseredirs cmd ps)))"
    proof (rule done_andthen [OF IH [OF y]])
      fix c :: "word_ptr cmd" and z :: string
      assume z: "length z \<le> length y"
      obtain close z1 where p1: "peek z '')'' = (close, z1)" by force
      obtain tok1 w1 z2 where g1: "gettoken z1 = (tok1, w1, z2)" by (metis prod_cases3)
      have "length z2 \<le> length s" using z y peek_shorter [OF p1] gettoken_shorter(1) [OF g1] by simp
      then show "done_by (length s) (let (close, ps) = peek z '')''
              in if \<not> close then Some (Inl ''syntax - missing )'')
                 else let (_, _, ps) = gettoken ps in Some (parseredirs c ps))" using p1 g1 redirs_done by simp
    qed
    then show ?thesis using p g True by simp
  qed (use p in simp)
qed

lemma parse_done:
  "4 * length s + 4 \<le> n \<Longrightarrow> done_by (length s) (parseline n s)"
  "4 * length s + 3 \<le> n \<Longrightarrow> done_by (length s) (parsepipe n s)"
  "4 * length s + 2 \<le> n \<Longrightarrow> done_by (length s) (parseexec n s)"
  "4 * length s + 1 \<le> n \<Longrightarrow> done_by (length s) (parseblock n s)"
proof (induction n arbitrary: s)
  case (Suc n)
  {
    case 1
    then show ?case using Suc.IH(1,2) by (intro line_done) auto
  next
    case 2
    then show ?case using Suc.IH(2,3) by (intro pipe_done) auto
  next
    case 3
    then show ?case using Suc.IH(4) by (intro exec_done) auto
  next
    case 4
    then show ?case using Suc.IH(1) by (intro block_done) auto
  }
qed simp_all

text \<open>More fuel does not change a result.\<close>

lemma andthen_more:
  assumes "andthen x f = Some r" "\<And>q. x = Some q \<Longrightarrow> x' = Some q" "\<And>c s q. f c s = Some q \<Longrightarrow> f' c s = Some q"
  shows "andthen x' f' = Some r"
  using assms by (cases x) (auto simp: andthen_def split: sum.splits)

lemma parse_more:
  "parseline n s = Some r \<Longrightarrow> parseline (Suc n) s = Some r"
  "parsepipe n s = Some r \<Longrightarrow> parsepipe (Suc n) s = Some r"
  "parseexec n s = Some r \<Longrightarrow> parseexec (Suc n) s = Some r"
  "parseblock n s = Some r \<Longrightarrow> parseblock (Suc n) s = Some r"
proof (induction n arbitrary: s r)
  case (Suc n)
  {
    case 1
    show ?case
      by (subst parseline.simps(2), rule andthen_more [OF 1 [unfolded parseline.simps(2) [of n]] Suc.IH(2)])
        (auto simp: Let_def simp del: parseline.simps parsepipe.simps split: prod.splits if_splits elim!: andthen_more [OF _ Suc.IH(1)])
  next
    case 2
    show ?case
      by (subst parsepipe.simps(2), rule andthen_more [OF 2 [unfolded parsepipe.simps(2) [of n]] Suc.IH(3)])
        (auto simp: Let_def simp del: parsepipe.simps parseexec.simps split: prod.splits if_splits elim!: andthen_more [OF _ Suc.IH(2)])
  next
    case 3
    then show ?case unfolding parseexec.simps(2) [of n] parseexec.simps(2) [of "Suc n"]
      using Suc.IH(4) by (auto simp: Let_def simp del: parseblock.simps split: prod.splits if_splits)
  next
    case 4
    then show ?case unfolding parseblock.simps(2) [of n] parseblock.simps(2) [of "Suc n"]
      by (auto simp: Let_def simp del: parseline.simps split: prod.splits if_splits elim!: andthen_more [OF _ Suc.IH(1)])
  }
qed simp_all

lemma parseline_enough: "parseline n s = Some r \<Longrightarrow> parseline (parse_fuel s) s = Some r"
proof -
  assume a: "parseline n s = Some r"
  have up: "parseline m s = Some q \<Longrightarrow> parseline (m + k) s = Some q" for m k q
    by (induction k) (auto dest: parse_more(1))
  have "parseline (parse_fuel s) s \<noteq> None" using parse_done(1) [of s "parse_fuel s"] unfolding parse_fuel_def by (metis done_by_simps(1) order_refl)
  then obtain q where q: "parseline (parse_fuel s) s = Some q" by blast
  have "parseline (n + parse_fuel s) s = Some r" "parseline (parse_fuel s + n) s = Some q" using up a q by blast+
  then show ?thesis using q by (simp add: add.commute)
qed

end
