(* ===== verification/Sh_Parse.thy ===== *)
theory Sh_Parse
  imports Sh
begin

text \<open>
  Correctness of the shell's parser: the words of a tree are words of the line, terminating them in the buffer
  does not damage one another, and a printed command tree is parsed back.
\<close>

section \<open>Words of the line\<close>

definition wordch :: "char \<Rightarrow> bool" where
  "wordch c \<longleftrightarrow> c \<noteq> NUL \<and> strchr whitespace c = None \<and> strchr symbols c = None"

definition is_word :: "string \<Rightarrow> bool" where
  "is_word w \<longleftrightarrow> w \<noteq> [] \<and> (\<forall>c \<in> set w. wordch c)"

definition tail_of :: "string \<Rightarrow> string \<Rightarrow> bool" where
  "tail_of line s \<longleftrightarrow> (\<exists>a. line = a @ s)"

text \<open>A pointer pair that delimits a whole word of the line.\<close>

definition word_in :: "string \<Rightarrow> word_ptr \<Rightarrow> bool" where
  "word_in line p \<longleftrightarrow> (\<exists>a w z. line = a @ w @ z \<and> p = (w @ z, z) \<and> is_word w \<and> (z = [] \<or> \<not> wordch (hd z)))"

definition words_in :: "string \<Rightarrow> word_ptr cmd \<Rightarrow> bool" where
  "words_in line c \<longleftrightarrow> (\<forall>p \<in> set_cmd c. word_in line p)"

lemma words_in_simps [simp]:
  "words_in line (EXEC ws) \<longleftrightarrow> (\<forall>w \<in> set ws. word_in line w)"
  "words_in line (REDIR c f mode fd) \<longleftrightarrow> words_in line c \<and> word_in line f"
  "words_in line (PIPE l r) \<longleftrightarrow> words_in line l \<and> words_in line r"
  "words_in line (LIST l r) \<longleftrightarrow> words_in line l \<and> words_in line r"
  "words_in line (BACK c) \<longleftrightarrow> words_in line c"
  by (auto simp: words_in_def)

lemma words_in_add [simp]: "word_in line w \<Longrightarrow> words_in line c \<Longrightarrow> words_in line (add_arg w c)"
  by (induction c) auto

lemma words_in_redir [simp]: "word_in line w \<Longrightarrow> words_in line c \<Longrightarrow> words_in line (redir_by tok c w)"
  by (simp add: redir_by_def)

lemma tail_of_drop: "tail_of line s \<Longrightarrow> tail_of line (dropWhile P s)"
  unfolding tail_of_def by (metis append_assoc takeWhile_dropWhile_id)

lemma tail_of_tl: "tail_of line s \<Longrightarrow> tail_of line (tl s)"
  unfolding tail_of_def by (cases s) auto

lemma tail_of_white: "tail_of line s \<Longrightarrow> tail_of line (skip_white s)"
  by (simp add: skip_white_def tail_of_drop)

lemma tail_of_peek: "peek s toks = (b, r) \<Longrightarrow> tail_of line s \<Longrightarrow> tail_of line r"
  by (auto simp: peek_def Let_def tail_of_white)

lemma not_white: "skip_white s = c # x \<Longrightarrow> strchr whitespace c = None"
  using hd_dropWhile [of is_white s] by (auto simp: skip_white_def is_white_def)

lemma gettoken_tail:
  assumes "gettoken s = (tok, w, r)" "tail_of line s"
  shows "tail_of line r"
  using assms tail_of_white [OF assms(2)]
  by (auto simp: gettoken_def Let_def split: if_splits intro!: tail_of_white tail_of_tl tail_of_drop)

lemma gettoken_word_in:
  assumes g: "gettoken s = (CHR ''a'', w, r)" and t: "tail_of line s" and n: "NUL \<notin> set line"
  shows "word_in line w"
proof -
  let ?P = "\<lambda>x. strchr whitespace x = None \<and> strchr symbols x = None"
  obtain c x where s: "skip_white s = c # x"
    using g by (cases "skip_white s") (auto simp: gettoken_def Let_def)
  let ?w = "takeWhile ?P (c # x)" and ?z = "dropWhile ?P (c # x)"
  obtain a where a: "line = a @ c # x" using tail_of_white [OF t] s by (auto simp: tail_of_def)
  have nul: "NUL \<notin> set (c # x)" using n a by auto
  have c: "c \<notin> {CHR ''|'', CHR ''('', CHR '')'', CHR '';'', CHR ''&'', CHR ''<'', CHR ''>''}" and w: "w = (c # x, ?z)"
    using g s nul by (auto simp: gettoken_def Let_def deref_def split: if_splits)
  have "?P c" using c not_white [OF s] by (auto simp: symbols_def)
  define W Z where wz: "W = ?w" "Z = ?z"
  have "wordch y" if "y \<in> set W" for y using set_takeWhileD [of y ?P "c # x"] that nul unfolding wordch_def wz by blast
  moreover have "W \<noteq> []" using \<open>?P c\<close> by (simp add: wz)
  ultimately have iw: "is_word W" by (simp add: is_word_def)
  have zz: "Z = [] \<or> \<not> wordch (hd Z)" using hd_dropWhile [of ?P "c # x"] unfolding wordch_def wz by blast
  have e: "c # x = W @ Z" unfolding wz by (rule takeWhile_dropWhile_id [symmetric])
  have "w = (c # x, Z)" using w unfolding wz(2) .
  then have ww: "w = (W @ Z, Z)" using e by simp
  have "line = a @ W @ Z" using a unfolding e .
  then show ?thesis unfolding word_in_def using iw zz ww by blast
qed

lemma parseredirs_words:
  "parseredirs c s = Inr (t, r) \<Longrightarrow> NUL \<notin> set line \<Longrightarrow> tail_of line s \<Longrightarrow> words_in line c \<Longrightarrow> tail_of line r \<and> words_in line t"
proof (induction c s rule: parseredirs.induct)
  case (1 cmd ps)
  obtain more ps1 where p: "peek ps ''<>'' = (more, ps1)" by force
  obtain tok w1 ps2 where g: "gettoken ps1 = (tok, w1, ps2)" by (metis prod_cases3)
  obtain t1 w ps3 where h: "gettoken ps2 = (t1, w, ps3)" by (metis prod_cases3)
  have l: "tail_of line ps1" "tail_of line ps2" "tail_of line ps3"
    using tail_of_peek [OF p 1(4)] gettoken_tail [OF g] gettoken_tail [OF h] by blast+
  show ?case
  proof (cases "more \<and> t1 = CHR ''a''")
    case True
    then have "word_in line w" using gettoken_word_in [of ps2 w ps3 line] h l(2) 1(3) by simp
    then have "words_in line (redir_by tok cmd w)" using 1(5) by simp
    then show ?thesis using True 1(2,3) l(3) 1(1) [OF p [symmetric] refl _ g [symmetric] refl refl h [symmetric] refl refl]
      by (simp add: parseredirs.simps [of cmd ps] p g h)
  qed (use 1(2,5) l(1) in \<open>auto simp: parseredirs.simps [of cmd ps] p g h split: if_splits\<close>)
qed

lemma parseexec_loop_words:
  "parseexec_loop c n s = Inr (t, r) \<Longrightarrow> NUL \<notin> set line \<Longrightarrow> tail_of line s \<Longrightarrow> words_in line c \<Longrightarrow> tail_of line r \<and> words_in line t"
proof (induction c n s rule: parseexec_loop.induct)
  case (1 cmd argc ps)
  obtain stop ps1 where p: "peek ps ''|)&;'' = (stop, ps1)" by force
  obtain tok w ps2 where g: "gettoken ps1 = (tok, w, ps2)" by (metis prod_cases3)
  have l: "tail_of line ps1" "tail_of line ps2" using tail_of_peek [OF p 1(4)] gettoken_tail [OF g] by blast+
  show ?case
  proof (cases "\<not> stop \<and> tok = CHR ''a'' \<and> argc + 1 < MAXARGS")
    case True
    then have "word_in line w" using gettoken_word_in [of ps1 w ps2 line] g l(1) 1(3) by simp
    then have ws: "words_in line (add_arg w cmd)" using 1(5) by simp
    show ?thesis
    proof (cases "parseredirs (add_arg w cmd) ps2")
      case (Inr x)
      then have "tail_of line (snd x) \<and> words_in line (fst x)"
        using parseredirs_words [of "add_arg w cmd" ps2 "fst x" "snd x" line] 1(3) l(2) ws by simp
      then show ?thesis using True 1(2,3) 1(1) [OF p [symmetric] refl _ g [symmetric] refl refl, of x "fst x" "snd x"] Inr
        by (simp add: parseexec_loop.simps [of cmd argc ps] p g split: prod.splits)
    qed (use True 1(2) in \<open>simp add: parseexec_loop.simps [of cmd argc ps] p g\<close>)
  qed (use 1(2,5) l in \<open>auto simp: parseexec_loop.simps [of cmd argc ps] p g split: if_splits\<close>)
qed

lemma back_loop_words: "back_loop c s = (t, r) \<Longrightarrow> tail_of line s \<Longrightarrow> words_in line c \<Longrightarrow> tail_of line r \<and> words_in line t"
proof (induction c s rule: back_loop.induct)
  case (1 cmd ps)
  obtain more ps1 where p: "peek ps ''&'' = (more, ps1)" by force
  obtain tok w ps2 where g: "gettoken ps1 = (tok, w, ps2)" by (metis prod_cases3)
  have l: "tail_of line ps1" "tail_of line ps2" using tail_of_peek [OF p 1(3)] gettoken_tail [OF g] by blast+
  show ?case using 1(2,4) 1(1) [OF p [symmetric] refl _ g [symmetric] refl refl] l
    by (auto simp: back_loop.simps [of cmd ps] p g split: if_splits)
qed

definition good :: "string \<Rightarrow> (string + word_ptr cmd \<times> string) option \<Rightarrow> bool" where
  "good line x \<longleftrightarrow> (\<forall>c s. x = Some (Inr (c, s)) \<longrightarrow> tail_of line s \<and> words_in line c)"

lemma good_simps [simp]: "good line None" "good line (Some (Inl e))" "good line (Some (Inr (c, s))) \<longleftrightarrow> tail_of line s \<and> words_in line c"
  by (simp_all add: good_def)

lemma good_andthen:
  assumes "good line x" "\<And>c s. tail_of line s \<Longrightarrow> words_in line c \<Longrightarrow> good line (f c s)"
  shows "good line (andthen x f)"
proof (cases "\<exists>c s. x = Some (Inr (c, s))")
  case True
  then show ?thesis using assms by auto
next
  case False
  then have "x = None \<or> (\<exists>e. x = Some (Inl e))" by (metis not_None_eq old.sum.exhaust surj_pair)
  then show ?thesis by auto
qed

lemma good_redirs: "NUL \<notin> set line \<Longrightarrow> tail_of line s \<Longrightarrow> words_in line c \<Longrightarrow> good line (Some (parseredirs c s))"
  using parseredirs_words by (auto simp: good_def)

lemma parse_words:
  assumes n: "NUL \<notin> set line"
  shows "tail_of line s \<Longrightarrow> good line (parseline k s)" "tail_of line s \<Longrightarrow> good line (parsepipe k s)"
    "tail_of line s \<Longrightarrow> good line (parseexec k s)" "tail_of line s \<Longrightarrow> good line (parseblock k s)"
proof (induction k arbitrary: s)
  case (Suc k)
  {
    case 1
    show ?case unfolding parseline.simps
    proof (rule good_andthen [OF Suc.IH(2) [OF 1]])
      fix c x assume t: "tail_of line x" "words_in line c"
      obtain c1 x1 where b: "back_loop c x = (c1, x1)" by force
      obtain more x2 where p: "peek x1 '';'' = (more, x2)" by force
      obtain tok w x3 where g: "gettoken x2 = (tok, w, x3)" by (metis prod_cases3)
      have l: "tail_of line x2" "tail_of line x3" "words_in line c1"
        using back_loop_words [OF b t] tail_of_peek [OF p] gettoken_tail [OF g] by blast+
      then show "good line (let (cmd, ps) = back_loop c x; (more, ps) = peek ps '';''
         in if more then let (_, _, ps) = gettoken ps in andthen (parseline k ps) (\<lambda>right ps. Some (Inr (LIST cmd right, ps)))
            else Some (Inr (cmd, ps)))"
        using b p g good_andthen [OF Suc.IH(1) [OF l(2)]] by simp
    qed
  next
    case 2
    show ?case unfolding parsepipe.simps
    proof (rule good_andthen [OF Suc.IH(3) [OF 2]])
      fix c x assume t: "tail_of line x" "words_in line c"
      obtain more x2 where p: "peek x ''|'' = (more, x2)" by force
      obtain tok w x3 where g: "gettoken x2 = (tok, w, x3)" by (metis prod_cases3)
      have l: "tail_of line x2" "tail_of line x3" using tail_of_peek [OF p t(1)] gettoken_tail [OF g] by blast+
      then show "good line (let (more, ps) = peek x ''|''
         in if more then let (_, _, ps) = gettoken ps in andthen (parsepipe k ps) (\<lambda>right ps. Some (Inr (PIPE c right, ps)))
            else Some (Inr (c, ps)))"
        using t(2) p g good_andthen [OF Suc.IH(2) [OF l(2)]] by simp
    qed
  next
    case 3
    obtain block x where p: "peek s ''('' = (block, x)" by force
    have t: "tail_of line x" using tail_of_peek [OF p 3] .
    have "good line (andthen (Some (parseredirs (EXEC []) x)) (\<lambda>cmd ps. Some (parseexec_loop cmd 0 ps)))"
      by (rule good_andthen [OF good_redirs [OF n t]]) (auto simp: good_def dest!: parseexec_loop_words [OF _ n])
    then show ?case using p Suc.IH(4) [OF t] by simp
  next
    case 4
    obtain paren x where p: "peek s ''('' = (paren, x)" by force
    obtain tok w y where g: "gettoken x = (tok, w, y)" by (metis prod_cases3)
    have t: "tail_of line y" using tail_of_peek [OF p 4] gettoken_tail [OF g] by blast
    have "good line (andthen (parseline k y) (\<lambda>cmd ps. let (close, ps) = peek ps '')''
       in if \<not> close then Some (Inl ''syntax - missing )'') else let (_, _, ps) = gettoken ps in Some (parseredirs cmd ps)))"
    proof (rule good_andthen [OF Suc.IH(1) [OF t]])
      fix c z assume z: "tail_of line z" "words_in line c"
      obtain close z1 where p1: "peek z '')'' = (close, z1)" by force
      obtain tok1 w1 z2 where g1: "gettoken z1 = (tok1, w1, z2)" by (metis prod_cases3)
      have "tail_of line z2" using tail_of_peek [OF p1 z(1)] gettoken_tail [OF g1] by blast
      then show "good line (let (close, ps) = peek z '')''
       in if \<not> close then Some (Inl ''syntax - missing )'') else let (_, _, ps) = gettoken ps in Some (parseredirs c ps))"
        using p1 g1 z(2) good_redirs [OF n] by simp
    qed
    then show ?case using p g by simp
  }
qed simp_all

section \<open>Terminating the words\<close>

definition ends :: "nat \<Rightarrow> word_ptr cmd \<Rightarrow> nat set" where
  "ends n t = (\<lambda>p. n - length (snd p)) ` set_cmd t"

lemma nul_at_nth: "length (nul_at n w buf) = length buf"
  "i < length buf \<Longrightarrow> nul_at n w buf ! i = (if i = n - length (snd w) then NUL else buf ! i)"
  by (auto simp: nul_at_def nth_list_update)

lemma nul_fold_nth: "length (fold (nul_at n) ws buf) = length buf \<and>
    (\<forall>i < length buf. fold (nul_at n) ws buf ! i = (if i \<in> (\<lambda>p. n - length (snd p)) ` set ws then NUL else buf ! i))"
proof (induction ws arbitrary: buf)
  case (Cons w ws)
  then show ?case using Cons [of "nul_at n w buf"] by (auto simp: nul_at_nth)
qed simp

lemma nulterminate_nth: "length (nulterminate n t buf) = length buf \<and>
    (\<forall>i < length buf. nulterminate n t buf ! i = (if i \<in> ends n t then NUL else buf ! i))"
proof (induction t arbitrary: buf)
  case (EXEC ws)
  then show ?case using nul_fold_nth [of n ws buf] by (simp add: ends_def)
next
  case (REDIR c f mode fd)
  then show ?case using REDIR [of buf] by (auto simp: nul_at_nth ends_def)
next
  case (PIPE l r)
  then show ?case using PIPE(1) [of buf] PIPE(2) [of "nulterminate n l buf"] by (auto simp: ends_def)
next
  case (LIST l r)
  then show ?case using LIST(1) [of buf] LIST(2) [of "nulterminate n l buf"] by (auto simp: ends_def)
next
  case (BACK c)
  then show ?case by (simp add: ends_def)
qed

lemma cstr_eqI:
  assumes "length w \<le> length s" "\<forall>i < length w. s ! i = w ! i" "NUL \<notin> set w" "length w = length s \<or> s ! length w = NUL"
  shows "cstr s = w"
proof -
  have "s = w @ drop (length w) s"
    using assms(1,2) by (metis append_take_drop_id nth_take_lemma order_refl take_all)
  moreover have "drop (length w) s = [] \<or> (\<exists>x. drop (length w) s = NUL # x)"
    using assms(1,4) by (metis Cons_nth_drop_Suc drop_all le_less order_refl)
  ultimately show ?thesis using assms(3) by (metis append_Nil2 cstr_append_NUL cstr_id)
qed

lemma cstr_buffer: "\<exists>r. buf = cstr buf @ r \<and> (r = [] \<or> hd r = NUL)"
  by (induction buf) auto

text \<open>Reading a word from the changed buffer gives the word of the line: no terminator falls inside a word.\<close>

lemma word_at_terminated:
  assumes t: "words_in line t" and b: "cstr buf = line" and p: "p \<in> set_cmd t"
  shows "word_at (length line) (nulterminate (length line) t buf) p = take (length (fst p) - length (snd p)) (fst p)"
proof -
  let ?n = "length line" and ?buf = "nulterminate (length line) t buf"
  obtain a w z where l: "line = a @ w @ z" "p = (w @ z, z)" "is_word w" using t p by (auto simp: words_in_def word_in_def)
  obtain r where r: "buf = line @ r" "r = [] \<or> hd r = NUL" using b cstr_buffer [of buf] by blast
  have line: "take ?n buf = line" "?n \<le> length buf" "?n = length buf \<or> buf ! ?n = NUL"
    using r by (cases r; simp)+
  have nth': "length ?buf = length buf" "i < length buf \<Longrightarrow> ?buf ! i = (if i \<in> ends ?n t then NUL else buf ! i)" for i
    using nulterminate_nth [of ?n t buf] by auto
  have inside: "length a + i \<notin> ends ?n t" if "i < length w" for i
  proof
    assume "length a + i \<in> ends ?n t"
    then obtain q where q: "q \<in> set_cmd t" "length a + i = ?n - length (snd q)" by (auto simp: ends_def)
    obtain a' w' z' where l': "line = a' @ w' @ z'" "q = (w' @ z', z')" "z' = [] \<or> \<not> wordch (hd z')"
      using t q(1) by (auto simp: words_in_def word_in_def)
    have e: "length a + i = length (a' @ w')" using q(2) l'(1,2) by simp
    have "line ! (length a + i) = w ! i" using l(1) that by (simp add: nth_append)
    moreover have "z' \<noteq> []" using e l(1) l'(1) that by (metis add_less_cancel_left append.right_neutral length_append less_add_same_cancel1 not_add_less1 trans_less_add1)
    then have "line ! (length a + i) = hd z'" unfolding e using l'(1) by (metis append_assoc hd_conv_nth nth_append_length_plus add_0_right)
    ultimately show False using l'(3) l(3) that \<open>z' \<noteq> []\<close> by (metis is_word_def nth_mem)
  qed
  have stop: "length a + length w = ?n \<or> length a + length w \<in> ends ?n t"
    using p l(1,2) by (auto simp: ends_def image_iff intro!: bexI [of _ p])
  have "cstr (drop (length a) ?buf) = w"
  proof (rule cstr_eqI)
    show "length w \<le> length (drop (length a) ?buf)" using line(2) l(1) nulterminate_nth [of ?n t buf] by simp
    show "\<forall>i < length w. drop (length a) ?buf ! i = w ! i"
    proof (intro allI impI)
      fix i assume i: "i < length w"
      have "?buf ! (length a + i) = buf ! (length a + i)" using nth'(2) [of "length a + i"] inside [OF i] i l(1) line(2) by simp
      also have "\<dots> = line ! (length a + i)" using line(1) i l(1) by (metis add_less_cancel_left length_append nth_take trans_less_add1)
      also have "\<dots> = w ! i" using l(1) i by (simp add: nth_append)
      finally show "drop (length a) ?buf ! i = w ! i" using i l(1) line(2) nth'(1) by simp
    qed
    show "NUL \<notin> set w" using l(3) by (auto simp: is_word_def wordch_def)
    show "length w = length (drop (length a) ?buf) \<or> drop (length a) ?buf ! length w = NUL"
    proof (cases "length a + length w < length buf")
      case True
      then have "?buf ! (length a + length w) = NUL" using nth'(2) [of "length a + length w"] stop line(3) by auto
      then show ?thesis using True nth'(1) by simp
    next
      case False
      have "?n = length a + length w + length z" using l(1) by simp
      then have "length w = length buf - length a" using False line(2) by linarith
      then show ?thesis using nth'(1) by simp
    qed
  qed
  then show ?thesis using l by (simp add: word_at_def)
qed

section \<open>Printing commands\<close>

text \<open>
  The text of a command.  The level says what the grammar admits at the place: 0 a line, 1 a command that \<open>&\<close> may follow, 2 a
  pipe, 3 a simple command; elsewhere there are parentheses.
\<close>

definition redir_sym :: "u32 \<Rightarrow> string" where
  "redir_sym mode = (if mode = mode_in then ''<'' else if mode = mode_out then ''>'' else ''>>'')"

definition paren :: "bool \<Rightarrow> string \<Rightarrow> string" where
  "paren b s = (if b then '' ('' @ s @ '' )'' else s)"

fun show_at :: "nat \<Rightarrow> string cmd \<Rightarrow> string" where
  "show_at lvl (EXEC ws) = concat (map (\<lambda>w. CHR '' '' # w) ws)"
| "show_at lvl (REDIR c f mode fd) = show_at 3 c @ '' '' @ redir_sym mode @ '' '' @ f"
| "show_at lvl (PIPE l r) = paren (2 < lvl) (show_at 3 l @ '' |'' @ show_at 2 r)"
| "show_at lvl (LIST l r) = paren (0 < lvl) (show_at 1 l @ '' ;'' @ show_at 0 r)"
| "show_at lvl (BACK c) = paren (1 < lvl) (show_at 1 c @ '' &'')"

text \<open>The trees that a command line can have: words of word characters, at most nine arguments, the three redirections.\<close>

fun wf_cmd :: "string cmd \<Rightarrow> bool" where
  "wf_cmd (EXEC ws) \<longleftrightarrow> length ws < MAXARGS \<and> (\<forall>w \<in> set ws. is_word w)"
| "wf_cmd (REDIR c f mode fd) \<longleftrightarrow> wf_cmd c \<and> is_word f \<and> (mode, fd) \<in> {(mode_in, 0), (mode_out, 1), (mode_app, 1)}"
| "wf_cmd (PIPE l r) \<longleftrightarrow> wf_cmd l \<and> wf_cmd r"
| "wf_cmd (LIST l r) \<longleftrightarrow> wf_cmd l \<and> wf_cmd r"
| "wf_cmd (BACK c) \<longleftrightarrow> wf_cmd c"

definition word_of :: "word_ptr \<Rightarrow> string" where
  "word_of p = take (length (fst p) - length (snd p)) (fst p)"

text \<open>The next character that is not white space.\<close>

definition nxt :: "string \<Rightarrow> char" where
  "nxt s = deref (skip_white s)"

definition bound :: "string \<Rightarrow> bool" where
  "bound s \<longleftrightarrow> s = [] \<or> is_white (hd s)"

lemma deref_first [simp]: "deref (c # s) = c"
  by (simp add: deref_def)

lemma white_space [simp]: "is_white (CHR '' '')"
  by (simp add: is_white_def whitespace_def)

lemma skip_white_sp [simp]: "skip_white (CHR '' '' # s) = skip_white s" "skip_white [] = []"
  by (simp_all add: skip_white_def)

lemma skip_white_id: "s \<noteq> [] \<Longrightarrow> \<not> is_white (hd s) \<Longrightarrow> skip_white s = s"
  by (cases s) (simp_all add: skip_white_def)

lemma sym_not_white: "c \<in> set symbols \<Longrightarrow> \<not> is_white c"
  by (auto simp: symbols_def is_white_def whitespace_def)

lemma wordchD: "wordch c \<Longrightarrow> \<not> is_white c \<and> c \<notin> set symbols \<and> c \<noteq> NUL"
  using strchr_mem [of symbols c] by (auto simp: wordch_def is_white_def symbols_def)

lemma nxt_simps [simp]: "nxt (skip_white s) = nxt s" "nxt (CHR '' '' # s) = nxt s" "nxt [] = NUL"
  by (simp_all add: nxt_def)

lemma nxt_sym: "c \<in> set symbols \<Longrightarrow> nxt (c # s) = c"
  using sym_not_white by (simp add: nxt_def skip_white_def)

lemma nxt_word: "is_word w \<Longrightarrow> nxt (w @ s) = hd w \<and> skip_white (w @ s) = w @ s"
  using wordchD by (cases w) (auto simp: is_word_def nxt_def skip_white_def)

lemma peek_eq: "NUL \<notin> set toks \<Longrightarrow> peek s toks = (nxt s \<noteq> NUL \<and> nxt s \<in> set toks, skip_white s)"
  using strchr_mem by (auto simp: peek_def nxt_def Let_def)

lemma gettoken_white [simp]: "gettoken (skip_white s) = gettoken s" "gettoken (CHR '' '' # s) = gettoken s"
  by (simp_all add: gettoken_def)

lemma gettoken_sym:
  "c \<in> {CHR ''|'', CHR ''('', CHR '')'', CHR '';'', CHR ''&'', CHR ''<''} \<Longrightarrow> gettoken (c # s) = (c, (c # s, s), skip_white s)"
proof -
  assume c: "c \<in> {CHR ''|'', CHR ''('', CHR '')'', CHR '';'', CHR ''&'', CHR ''<''}"
  then have "c \<in> set symbols" "c \<noteq> NUL" by (auto simp: symbols_def)
  then have "skip_white (c # s) = c # s" using sym_not_white by (simp add: skip_white_id)
  then show ?thesis unfolding gettoken_def Let_def using c \<open>c \<noteq> NUL\<close> by (simp only: deref_first if_True if_False split list.sel)
qed

lemma gettoken_end: "nxt s = NUL \<Longrightarrow> \<exists>w. gettoken s = (NUL, w, skip_white s)"
  by (simp add: gettoken_def nxt_def Let_def)

lemma gettoken_word:
  assumes w: "is_word w" and r: "bound r"
  shows "gettoken (w @ r) = (CHR ''a'', (w @ r, r), skip_white r)"
proof -
  let ?P = "\<lambda>x. strchr whitespace x = None \<and> strchr symbols x = None"
  obtain c x where cx: "w = c # x" using w by (cases w) (auto simp: is_word_def)
  have s: "skip_white (w @ r) = w @ r" using nxt_word [OF w] by simp
  have all: "\<forall>y \<in> set w. ?P y" using w by (auto simp: is_word_def wordch_def)
  have stop: "dropWhile ?P r = r" using r by (cases r) (auto simp: bound_def is_white_def)
  have d: "dropWhile ?P (w @ r) = r" using dropWhile_append2 [of w ?P r] all stop by metis
  have c: "c \<noteq> NUL" "c \<notin> set symbols" using w cx wordchD [of c] by (auto simp: is_word_def)
  have "deref (w @ r) = c" using cx by simp
  then show ?thesis unfolding gettoken_def Let_def s using c d by (auto simp: symbols_def)
qed

section \<open>Parsing what was printed\<close>

lemma peek_white [simp]: "peek (skip_white s) toks = peek s toks"
  by (simp add: peek_def)

lemma white_start [simp]:
  "parseredirs c (skip_white s) = parseredirs c s" "parseexec_loop c n (skip_white s) = parseexec_loop c n s"
  "back_loop c (skip_white s) = back_loop c s"
  by (simp_all add: parseredirs.simps [of c] parseexec_loop.simps [of c] back_loop.simps [of c])

lemma parseredirs_none: "nxt s \<notin> {CHR ''<'', CHR ''>''} \<Longrightarrow> parseredirs c s = Inr (c, skip_white s)"
  by (simp add: parseredirs.simps [of c s] peek_eq)

lemma gettoken_redir:
  assumes "(mode, fd) \<in> {(mode_in, 0), (mode_out, 1), (mode_app, 1 :: int)}"
  obtains tok w where "gettoken (redir_sym mode @ CHR '' '' # s) = (tok, w, skip_white s)" "redir_by tok c p = REDIR c p mode fd"
    "nxt (redir_sym mode @ CHR '' '' # s) \<in> {CHR ''<'', CHR ''>''}"
proof -
  have m: "mode_in \<noteq> mode_out" "mode_in \<noteq> mode_app" "mode_out \<noteq> mode_app"
    by (simp_all add: mode_in_def mode_out_def mode_app_def O_RDONLY_def O_WRONLY_def O_CREATE_def O_TRUNC_def)
  have w: "skip_white (CHR ''>'' # x) = CHR ''>'' # x" "skip_white (CHR ''<'' # x) = CHR ''<'' # x" for x
    using sym_not_white [of "CHR ''>''"] sym_not_white [of "CHR ''<''"] by (simp_all add: skip_white_id symbols_def)
  consider "mode = mode_in" "fd = 0" | "mode = mode_out" "fd = 1" | "mode = mode_app" "fd = 1" using assms by auto
  then show thesis
  proof cases
    case 1
    then show thesis by (intro that [of "CHR ''<''"]) (simp_all add: redir_sym_def gettoken_def Let_def w redir_by_def nxt_def)
  next
    case 2
    then show thesis using m
      by (intro that [of "CHR ''>''"]) (simp_all add: redir_sym_def gettoken_def Let_def w redir_by_def nxt_def)
  next
    case 3
    then show thesis using m
      by (intro that [of "CHR ''+''"]) (simp_all add: redir_sym_def gettoken_def Let_def w redir_by_def nxt_def)
  qed
qed

lemma parseredirs_one:
  assumes m: "(mode, fd) \<in> {(mode_in, 0), (mode_out, 1), (mode_app, 1)}" and f: "is_word f" "bound r"
  shows "parseredirs c (CHR '' '' # redir_sym mode @ CHR '' '' # f @ r) = parseredirs (REDIR c (f @ r, r) mode fd) r"
proof -
  let ?s = "redir_sym mode @ CHR '' '' # f @ r"
  obtain tok w where t: "gettoken ?s = (tok, w, skip_white (f @ r))" "redir_by tok c (f @ r, r) = REDIR c (f @ r, r) mode fd"
    "nxt ?s \<in> {CHR ''<'', CHR ''>''}"
    using gettoken_redir [OF m, of "f @ r" c "(f @ r, r)"] by metis
  then show ?thesis using gettoken_word [OF f] by (subst parseredirs.simps) (auto simp: peek_eq)
qed

text \<open>A simple command is followed by more arguments, by redirections or by its end; a command in parentheses by redirections.\<close>

fun args_of :: "'w cmd \<Rightarrow> nat option" where
  "args_of (EXEC ws) = Some (length ws)"
| "args_of (REDIR c f mode fd) = args_of c"
| "args_of c = None"

definition resume :: "nat option \<Rightarrow> (string + word_ptr cmd \<times> string) \<Rightarrow> (string + word_ptr cmd \<times> string) option" where
  "resume k x = andthen (Some x) (\<lambda>c s. Some (case k of None \<Rightarrow> Inr (c, s) | Some n \<Rightarrow> parseexec_loop c n s))"

lemma resume_end:
  assumes "nxt s \<in> {NUL, CHR ''|'', CHR '')'', CHR ''&'', CHR '';''}"
  shows "resume k (parseredirs c s) = Some (Inr (c, skip_white s))"
proof -
  have r: "parseredirs c s = Inr (c, skip_white s)" using assms by (intro parseredirs_none) auto
  show ?thesis
  proof (cases "nxt s = NUL")
    case True
    then show ?thesis using r gettoken_end [OF True]
      by (auto simp: resume_def parseexec_loop.simps [of c _ s] peek_eq split: option.splits)
  next
    case False
    then have "nxt s \<in> set ''|)&;''" using assms by auto
    then show ?thesis using r False by (simp add: resume_def parseexec_loop.simps [of c _ s] peek_eq split: option.splits)
  qed
qed

lemma word_first: "is_word w \<Longrightarrow> nxt (w @ s) \<notin> insert NUL (set symbols)"
  using nxt_word [of w s] wordchD [of "hd w"] by (cases w) (auto simp: is_word_def)

lemma parse_args:
  "bound rest \<Longrightarrow> nxt rest \<noteq> CHR ''('' \<Longrightarrow> length ws < MAXARGS \<Longrightarrow> \<forall>w \<in> set ws. is_word w \<Longrightarrow>
    \<exists>ps. map word_of ps = ws \<and>
      parseexec (Suc n) (concat (map (\<lambda>w. CHR '' '' # w) ws) @ rest) = resume (Some (length ws)) (parseredirs (EXEC ps) rest)"
proof (induction ws arbitrary: rest rule: rev_induct)
  case Nil
  then show ?case by (simp add: peek_eq resume_def)
next
  case (snoc w ws)
  let ?r = "CHR '' '' # w @ rest" and ?p = "(w @ rest, rest)"
  have w: "is_word w" using snoc.prems(4) by simp
  have nx: "nxt ?r \<notin> insert NUL (set symbols)" using word_first [OF w] by simp
  have "bound ?r" "nxt ?r \<noteq> CHR ''(''" using nx by (auto simp: bound_def symbols_def)
  then obtain ps where ps: "map word_of ps = ws"
    "parseexec (Suc n) (concat (map (\<lambda>w. CHR '' '' # w) ws) @ ?r) = resume (Some (length ws)) (parseredirs (EXEC ps) ?r)"
    using snoc.IH [of ?r] snoc.prems by auto
  have "parseredirs (EXEC ps) ?r = Inr (EXEC ps, skip_white ?r)" using nx by (intro parseredirs_none) (auto simp: symbols_def)
  moreover have "parseexec_loop (EXEC ps) (length ws) ?r =
      (case parseredirs (EXEC (ps @ [?p])) rest of Inl e \<Rightarrow> Inl e | Inr (cmd, s) \<Rightarrow> parseexec_loop cmd (length ws + 1) s)"
    using nx snoc.prems(3) gettoken_word [OF w snoc.prems(1)]
    by (subst parseexec_loop.simps) (auto simp: peek_eq symbols_def)
  ultimately have "resume (Some (length ws)) (parseredirs (EXEC ps) ?r) = resume (Some (length (ws @ [w]))) (parseredirs (EXEC (ps @ [?p])) rest)"
    by (cases "parseredirs (EXEC (ps @ [?p])) rest") (auto simp: resume_def simp del: skip_white_sp)
  moreover have "map word_of (ps @ [?p]) = ws @ [w]" using ps(1) by (simp add: word_of_def)
  ultimately show ?case using ps(2) by (intro exI [of _ "ps @ [?p]"]) simp
qed

section \<open>The four levels of the grammar\<close>

definition parses_exec :: "string cmd \<Rightarrow> bool" where
  "parses_exec c \<longleftrightarrow> (\<exists>N. \<forall>n \<ge> N. \<forall>rest. bound rest \<longrightarrow> nxt rest \<noteq> CHR ''('' \<longrightarrow>
     (\<exists>t. map_cmd word_of t = c \<and> parseexec n (show_at 3 c @ rest) = resume (args_of c) (parseredirs t rest)))"

definition parses_pipe :: "string cmd \<Rightarrow> bool" where
  "parses_pipe c \<longleftrightarrow> (\<exists>N. \<forall>n \<ge> N. \<forall>rest. bound rest \<longrightarrow> nxt rest \<in> {NUL, CHR '')'', CHR ''&'', CHR '';''} \<longrightarrow>
     (\<exists>t. map_cmd word_of t = c \<and> parsepipe n (show_at 2 c @ rest) = Some (Inr (t, skip_white rest))))"

definition parses_back :: "string cmd \<Rightarrow> bool" where
  "parses_back c \<longleftrightarrow> (\<exists>N. \<forall>n \<ge> N. \<forall>rest. bound rest \<longrightarrow> nxt rest \<in> {NUL, CHR '')'', CHR ''&'', CHR '';''} \<longrightarrow>
     (\<exists>t. map_cmd word_of t = c \<and>
       andthen (parsepipe n (show_at 1 c @ rest)) (\<lambda>c s. Some (Inr (back_loop c s))) = Some (Inr (back_loop t rest))))"

definition parses_line :: "string cmd \<Rightarrow> bool" where
  "parses_line c \<longleftrightarrow> (\<exists>N. \<forall>n \<ge> N. \<forall>rest. bound rest \<longrightarrow> nxt rest \<in> {NUL, CHR '')''} \<longrightarrow>
     (\<exists>t. map_cmd word_of t = c \<and> parseline n (show_at 0 c @ rest) = Some (Inr (t, skip_white rest))))"

lemma parse_white [simp]:
  "parseexec n (skip_white s) = parseexec n s" "parsepipe n (skip_white s) = parsepipe n s" "parseline n (skip_white s) = parseline n s"
proof -
  show e: "parseexec n (skip_white s) = parseexec n s" for n by (cases n) simp_all
  show p: "parsepipe n (skip_white s) = parsepipe n s" for n by (cases n) (simp_all add: e)
  show "parseline n (skip_white s) = parseline n s" by (cases n) (simp_all add: p)
qed

lemma bound_sp [simp]: "bound (CHR '' '' # s)" "bound []"
  by (simp_all add: bound_def)

lemma exec_words: "wf_cmd (EXEC ws) \<Longrightarrow> parses_exec (EXEC ws)"
  unfolding parses_exec_def
proof (intro exI [of _ 1] allI impI)
  fix n :: nat and rest :: string
  assume a: "wf_cmd (EXEC ws)" "1 \<le> n" "bound rest" "nxt rest \<noteq> CHR ''(''"
  obtain k where n: "n = Suc k" using a(2) by (cases n) auto
  obtain ps where "map word_of ps = ws"
    "parseexec n (concat (map (\<lambda>w. CHR '' '' # w) ws) @ rest) = resume (Some (length ws)) (parseredirs (EXEC ps) rest)"
    using parse_args [OF a(3,4), of ws k] a(1) n by auto
  then show "\<exists>t. map_cmd word_of t = EXEC ws \<and> parseexec n (show_at 3 (EXEC ws) @ rest) = resume (args_of (EXEC ws)) (parseredirs t rest)"
    by (intro exI [of _ "EXEC ps"]) simp
qed

lemma exec_redir:
  assumes "parses_exec c" "wf_cmd (REDIR c f mode fd)"
  shows "parses_exec (REDIR c f mode fd)"
proof -
  obtain N where N: "\<And>n rest. N \<le> n \<Longrightarrow> bound rest \<Longrightarrow> nxt rest \<noteq> CHR ''('' \<Longrightarrow>
      \<exists>t. map_cmd word_of t = c \<and> parseexec n (show_at 3 c @ rest) = resume (args_of c) (parseredirs t rest)"
    using assms(1) unfolding parses_exec_def by blast
  have m: "(mode, fd) \<in> {(mode_in, 0), (mode_out, 1), (mode_app, 1)}" and f: "is_word f" using assms(2) by simp_all
  show ?thesis unfolding parses_exec_def
  proof (intro exI [of _ N] allI impI)
    fix n :: nat and rest :: string
    assume a: "N \<le> n" "bound rest" "nxt rest \<noteq> CHR ''(''"
    let ?r = "CHR '' '' # redir_sym mode @ CHR '' '' # f @ rest"
    have "nxt ?r \<in> {CHR ''<'', CHR ''>''}" using gettoken_redir [OF m, of "f @ rest"] by (metis nxt_simps(2))
    then obtain t where "map_cmd word_of t = c" "parseexec n (show_at 3 c @ ?r) = resume (args_of c) (parseredirs t ?r)"
      using N [OF a(1), of ?r] by auto
    then show "\<exists>t. map_cmd word_of t = REDIR c f mode fd \<and>
        parseexec n (show_at 3 (REDIR c f mode fd) @ rest) = resume (args_of (REDIR c f mode fd)) (parseredirs t rest)"
      using parseredirs_one [OF m f a(2), of t] by (intro exI [of _ "REDIR t (f @ rest, rest) mode fd"]) (simp add: word_of_def)
  qed
qed

lemma exec_block:
  assumes "parses_line c" "args_of c = None" "show_at 3 c = '' ('' @ show_at 0 c @ '' )''"
  shows "parses_exec c"
proof -
  obtain N where N: "\<And>n rest. N \<le> n \<Longrightarrow> bound rest \<Longrightarrow> nxt rest \<in> {NUL, CHR '')''} \<Longrightarrow>
      \<exists>t. map_cmd word_of t = c \<and> parseline n (show_at 0 c @ rest) = Some (Inr (t, skip_white rest))"
    using assms(1) unfolding parses_line_def by blast
  show ?thesis unfolding parses_exec_def
  proof (intro exI [of _ "N + 2"] allI impI)
    fix n :: nat and rest :: string
    assume a: "N + 2 \<le> n" "bound rest" "nxt rest \<noteq> CHR ''(''"
    have "n = Suc (Suc (n - 2))" "N \<le> n - 2" using a(1) by simp_all
    then obtain k where n: "n = Suc (Suc k)" "N \<le> k" by blast
    let ?r = "CHR '' '' # CHR '')'' # rest"
    have nx: "nxt (CHR ''('' # x) = CHR ''(''" "nxt (CHR '')'' # x) = CHR '')''" for x by (simp_all add: nxt_sym symbols_def)
    obtain t where t: "map_cmd word_of t = c" "parseline k (show_at 0 c @ ?r) = Some (Inr (t, skip_white ?r))"
      using N [OF n(2), of ?r] nx by auto
    have "parseblock (Suc k) (CHR ''('' # show_at 0 c @ ?r) = Some (parseredirs t rest)"
      using t(2) nx by (simp add: peek_eq gettoken_sym)
    then have "parseexec n (show_at 3 c @ rest) = Some (parseredirs t rest)"
      using n(1) nx assms(3) by (simp add: peek_eq)
    moreover have "resume None x = Some x" for x by (cases x) (auto simp: resume_def)
    ultimately show "\<exists>t. map_cmd word_of t = c \<and> parseexec n (show_at 3 c @ rest) = resume (args_of c) (parseredirs t rest)"
      using t(1) assms(2) by auto
  qed
qed

lemma pipe_exec:
  assumes "parses_exec c" "show_at 2 c = show_at 3 c"
  shows "parses_pipe c"
proof -
  obtain N where N: "\<And>n rest. N \<le> n \<Longrightarrow> bound rest \<Longrightarrow> nxt rest \<noteq> CHR ''('' \<Longrightarrow>
      \<exists>t. map_cmd word_of t = c \<and> parseexec n (show_at 3 c @ rest) = resume (args_of c) (parseredirs t rest)"
    using assms(1) unfolding parses_exec_def by blast
  show ?thesis unfolding parses_pipe_def
  proof (intro exI [of _ "Suc N"] allI impI)
    fix n :: nat and rest :: string
    assume a: "Suc N \<le> n" "bound rest" "nxt rest \<in> {NUL, CHR '')'', CHR ''&'', CHR '';''}"
    obtain k where n: "n = Suc k" "N \<le> k" using a(1) by (cases n) auto
    obtain t where t: "map_cmd word_of t = c" "parseexec k (show_at 3 c @ rest) = resume (args_of c) (parseredirs t rest)"
      using N [OF n(2) a(2)] a(3) by auto
    have "resume (args_of c) (parseredirs t rest) = Some (Inr (t, skip_white rest))" using a(3) by (intro resume_end) auto
    then show "\<exists>t. map_cmd word_of t = c \<and> parsepipe n (show_at 2 c @ rest) = Some (Inr (t, skip_white rest))"
      using t a(3) n(1) assms(2) by (intro exI [of _ t]) (auto simp: peek_eq)
  qed
qed

lemma pipe_pipe:
  assumes "parses_exec l" "parses_pipe r"
  shows "parses_pipe (PIPE l r)"
proof -
  obtain N where N: "\<And>n rest. N \<le> n \<Longrightarrow> bound rest \<Longrightarrow> nxt rest \<noteq> CHR ''('' \<Longrightarrow>
      \<exists>t. map_cmd word_of t = l \<and> parseexec n (show_at 3 l @ rest) = resume (args_of l) (parseredirs t rest)"
    using assms(1) unfolding parses_exec_def by blast
  obtain M where M: "\<And>n rest. M \<le> n \<Longrightarrow> bound rest \<Longrightarrow> nxt rest \<in> {NUL, CHR '')'', CHR ''&'', CHR '';''} \<Longrightarrow>
      \<exists>t. map_cmd word_of t = r \<and> parsepipe n (show_at 2 r @ rest) = Some (Inr (t, skip_white rest))"
    using assms(2) unfolding parses_pipe_def by blast
  show ?thesis unfolding parses_pipe_def
  proof (intro exI [of _ "Suc (max N M)"] allI impI)
    fix n :: nat and rest :: string
    assume a: "Suc (max N M) \<le> n" "bound rest" "nxt rest \<in> {NUL, CHR '')'', CHR ''&'', CHR '';''}"
    obtain k where n: "n = Suc k" "N \<le> k" "M \<le> k" using a(1) by (cases n) auto
    let ?r = "CHR '' '' # CHR ''|'' # show_at 2 r @ rest"
    have nx: "nxt ?r = CHR ''|''" by (simp add: nxt_sym symbols_def)
    obtain t where t: "map_cmd word_of t = l" "parseexec k (show_at 3 l @ ?r) = resume (args_of l) (parseredirs t ?r)"
      using N [OF n(2), of ?r] nx by auto
    obtain v where v: "map_cmd word_of v = r" "parsepipe k (show_at 2 r @ rest) = Some (Inr (v, skip_white rest))"
      using M [OF n(3) a(2,3)] by blast
    have "resume (args_of l) (parseredirs t ?r) = Some (Inr (t, skip_white ?r))" using nx by (intro resume_end) simp
    then have "parsepipe n (show_at 2 (PIPE l r) @ rest) = Some (Inr (PIPE t v, skip_white rest))"
      using t(2) v(2) n(1) nx by (simp add: peek_eq gettoken_sym paren_def)
    then show "\<exists>t. map_cmd word_of t = PIPE l r \<and> parsepipe n (show_at 2 (PIPE l r) @ rest) = Some (Inr (t, skip_white rest))"
      using t(1) v(1) by (intro exI [of _ "PIPE t v"]) simp
  qed
qed

lemma back_pipe:
  assumes "parses_pipe c" "show_at 1 c = show_at 2 c"
  shows "parses_back c"
  using assms(1) unfolding parses_back_def parses_pipe_def assms(2)
  by (elim exE) (rule exI, fastforce)

lemma back_back:
  assumes "parses_back c"
  shows "parses_back (BACK c)"
proof -
  obtain N where N: "\<And>n rest. N \<le> n \<Longrightarrow> bound rest \<Longrightarrow> nxt rest \<in> {NUL, CHR '')'', CHR ''&'', CHR '';''} \<Longrightarrow>
      \<exists>t. map_cmd word_of t = c \<and>
        andthen (parsepipe n (show_at 1 c @ rest)) (\<lambda>c s. Some (Inr (back_loop c s))) = Some (Inr (back_loop t rest))"
    using assms unfolding parses_back_def by blast
  show ?thesis unfolding parses_back_def
  proof (intro exI [of _ N] allI impI)
    fix n :: nat and rest :: string
    assume a: "N \<le> n" "bound rest" "nxt rest \<in> {NUL, CHR '')'', CHR ''&'', CHR '';''}"
    let ?r = "CHR '' '' # CHR ''&'' # rest"
    have nx: "nxt ?r = CHR ''&''" by (simp add: nxt_sym symbols_def)
    obtain t where t: "map_cmd word_of t = c"
      "andthen (parsepipe n (show_at 1 c @ ?r)) (\<lambda>c s. Some (Inr (back_loop c s))) = Some (Inr (back_loop t ?r))"
      using N [OF a(1), of ?r] nx by auto
    have "back_loop t ?r = back_loop (BACK t) rest" using nx by (subst back_loop.simps) (simp add: peek_eq gettoken_sym)
    then show "\<exists>t. map_cmd word_of t = BACK c \<and>
        andthen (parsepipe n (show_at 1 (BACK c) @ rest)) (\<lambda>c s. Some (Inr (back_loop c s))) = Some (Inr (back_loop t rest))"
      using t by (intro exI [of _ "BACK t"]) (simp add: paren_def)
  qed
qed

lemma back_loop_stop: "nxt s \<noteq> CHR ''&'' \<Longrightarrow> back_loop c s = (c, skip_white s)"
  by (simp add: back_loop.simps [of c s] peek_eq)

text \<open>The part of \<open>parseline\<close> behind the loop for \<open>&\<close>.\<close>

lemma parseline_back:
  assumes "andthen (parsepipe n s) (\<lambda>c s. Some (Inr (back_loop c s))) = Some (Inr (c, x))"
  shows "parseline (Suc n) s =
    (let (more, ps) = peek x '';''
     in if more then let (_, _, ps) = gettoken ps in andthen (parseline n ps) (\<lambda>right ps. Some (Inr (LIST c right, ps)))
        else Some (Inr (c, ps)))"
proof -
  obtain d y where "parsepipe n s = Some (Inr (d, y))" "back_loop d y = (c, x)"
    using assms by (auto simp: andthen_def split: option.splits sum.splits)
  then show ?thesis by simp
qed

lemma line_back:
  assumes "parses_back c" "show_at 0 c = show_at 1 c"
  shows "parses_line c"
proof -
  obtain N where N: "\<And>n rest. N \<le> n \<Longrightarrow> bound rest \<Longrightarrow> nxt rest \<in> {NUL, CHR '')'', CHR ''&'', CHR '';''} \<Longrightarrow>
      \<exists>t. map_cmd word_of t = c \<and>
        andthen (parsepipe n (show_at 1 c @ rest)) (\<lambda>c s. Some (Inr (back_loop c s))) = Some (Inr (back_loop t rest))"
    using assms(1) unfolding parses_back_def by blast
  show ?thesis unfolding parses_line_def
  proof (intro exI [of _ "Suc N"] allI impI)
    fix n :: nat and rest :: string
    assume a: "Suc N \<le> n" "bound rest" "nxt rest \<in> {NUL, CHR '')''}"
    obtain k where n: "n = Suc k" "N \<le> k" using a(1) by (cases n) auto
    obtain t where t: "map_cmd word_of t = c"
      "andthen (parsepipe k (show_at 1 c @ rest)) (\<lambda>c s. Some (Inr (back_loop c s))) = Some (Inr (back_loop t rest))"
      using N [OF n(2) a(2)] a(3) by auto
    have "back_loop t rest = (t, skip_white rest)" using a(3) by (intro back_loop_stop) auto
    then have "parseline n (show_at 1 c @ rest) = Some (Inr (t, skip_white rest))"
      using parseline_back t(2) n(1) a(3) by (auto simp: peek_eq)
    then show "\<exists>t. map_cmd word_of t = c \<and> parseline n (show_at 0 c @ rest) = Some (Inr (t, skip_white rest))"
      using t(1) assms(2) by auto
  qed
qed

lemma line_list:
  assumes "parses_back l" "parses_line r"
  shows "parses_line (LIST l r)"
proof -
  obtain N where N: "\<And>n rest. N \<le> n \<Longrightarrow> bound rest \<Longrightarrow> nxt rest \<in> {NUL, CHR '')'', CHR ''&'', CHR '';''} \<Longrightarrow>
      \<exists>t. map_cmd word_of t = l \<and>
        andthen (parsepipe n (show_at 1 l @ rest)) (\<lambda>c s. Some (Inr (back_loop c s))) = Some (Inr (back_loop t rest))"
    using assms(1) unfolding parses_back_def by blast
  obtain M where M: "\<And>n rest. M \<le> n \<Longrightarrow> bound rest \<Longrightarrow> nxt rest \<in> {NUL, CHR '')''} \<Longrightarrow>
      \<exists>t. map_cmd word_of t = r \<and> parseline n (show_at 0 r @ rest) = Some (Inr (t, skip_white rest))"
    using assms(2) unfolding parses_line_def by blast
  show ?thesis unfolding parses_line_def
  proof (intro exI [of _ "Suc (max N M)"] allI impI)
    fix n :: nat and rest :: string
    assume a: "Suc (max N M) \<le> n" "bound rest" "nxt rest \<in> {NUL, CHR '')''}"
    obtain k where n: "n = Suc k" "N \<le> k" "M \<le> k" using a(1) by (cases n) auto
    let ?r = "CHR '' '' # CHR '';'' # show_at 0 r @ rest"
    have nx: "nxt ?r = CHR '';''" by (simp add: nxt_sym symbols_def)
    obtain t where t: "map_cmd word_of t = l"
      "andthen (parsepipe k (show_at 1 l @ ?r)) (\<lambda>c s. Some (Inr (back_loop c s))) = Some (Inr (back_loop t ?r))"
      using N [OF n(2), of ?r] nx by auto
    obtain v where v: "map_cmd word_of v = r" "parseline k (show_at 0 r @ rest) = Some (Inr (v, skip_white rest))"
      using M [OF n(3) a(2,3)] by blast
    have b: "back_loop t ?r = (t, skip_white ?r)" using nx by (intro back_loop_stop) simp
    have "parseline n (show_at 1 l @ ?r) = Some (Inr (LIST t v, skip_white rest))"
      using parseline_back [OF t(2) [unfolded b]] v(2) n(1) nx by (simp add: peek_eq gettoken_sym)
    then show "\<exists>t. map_cmd word_of t = LIST l r \<and> parseline n (show_at 0 (LIST l r) @ rest) = Some (Inr (t, skip_white rest))"
      using t(1) v(1) by (intro exI [of _ "LIST t v"]) (simp add: paren_def)
  qed
qed

lemma parses_all: "wf_cmd c \<Longrightarrow> parses_exec c \<and> parses_pipe c \<and> parses_back c \<and> parses_line c"
proof (induction c)
  case (EXEC ws)
  then show ?case using exec_words [of ws] pipe_exec [of "EXEC ws"] back_pipe [of "EXEC ws"] line_back [of "EXEC ws"] by simp
next
  case (REDIR c f mode fd)
  let ?c = "REDIR c f mode fd"
  show ?case using REDIR exec_redir [of c f mode fd] pipe_exec [of ?c] back_pipe [of ?c] line_back [of ?c] by simp
next
  case (PIPE l r)
  let ?c = "PIPE l r"
  show ?case using PIPE pipe_pipe [of l r] back_pipe [of ?c] line_back [of ?c] exec_block [of ?c] by (simp add: paren_def)
next
  case (LIST l r)
  let ?c = "LIST l r"
  show ?case using LIST line_list [of l r] exec_block [of ?c] pipe_exec [of ?c] back_pipe [of ?c] by (simp add: paren_def)
next
  case (BACK c)
  let ?c = "BACK c"
  show ?case using BACK back_back [of c] line_back [of ?c] exec_block [of ?c] pipe_exec [of ?c] by (simp add: paren_def)
qed

lemma show_no_nul: "wf_cmd c \<Longrightarrow> NUL \<notin> set (show_at lvl c)"
proof (induction c arbitrary: lvl)
  case (EXEC ws)
  then show ?case using wordchD by (auto simp: is_word_def)
next
  case (REDIR c f mode fd)
  then show ?case using wordchD by (auto simp: is_word_def redir_sym_def)
qed (auto simp: paren_def)

lemma parsecmd_printed:
  assumes "wf_cmd c"
  shows "\<exists>t. parsecmd K (show_at 0 c @ NUL # junk) u =
      (Some (t, nulterminate (length (show_at 0 c)) t (show_at 0 c @ NUL # junk)), u) \<and>
    words_in (show_at 0 c) t \<and> map_cmd word_of t = c"
proof -
  let ?s = "show_at 0 c"
  have nul: "NUL \<notin> set ?s" using show_no_nul [OF assms] .
  obtain n t where "map_cmd word_of t = c" "parseline n (?s @ []) = Some (Inr (t, skip_white []))"
    using parses_all [OF assms] unfolding parses_line_def by (metis bound_sp(2) insertI1 nxt_simps(3) order_refl)
  then have t: "map_cmd word_of t = c" "parseline (parse_fuel ?s) ?s = Some (Inr (t, []))" using parseline_enough [of n ?s] by simp_all
  have "tail_of ?s ?s" by (simp add: tail_of_def)
  then have "words_in ?s t" using parse_words(1) [OF nul, of ?s "parse_fuel ?s"] t(2) by simp
  then show ?thesis using t nul by (simp add: parsecmd_def Let_def peek_eq)
qed

text \<open>
  C21: the shell reads back what is printed.  For every command tree with words of word characters, at most nine arguments per
  command and the three kinds of redirection, \<open>parsecmd\<close> on the text of the command (with parentheses where the grammar needs
  them, and anything behind the terminator) returns without output; the words that its pointers have in
  the buffer after \<open>nulterminate\<close> are those of the tree; and the child that the shell forks for this line runs exactly this
  tree.  On any line at all the parser returns: its fuel is enough.
\<close>

theorem shell_parses_printed:
  assumes "wf_cmd c"
  shows "(\<exists>t buf. parsecmd K (show_at 0 c @ NUL # junk) u = (Some (t, buf), u) \<and>
      map_cmd (word_at (length (show_at 0 c)) buf) t = c) \<and>
    run_line K (show_at 0 c @ NUL # junk) u = runcmd K c u \<and>
    (\<forall>s. parseline (parse_fuel s) s \<noteq> None)"
proof (intro conjI)
  let ?s = "show_at 0 c" let ?buf = "show_at 0 c @ NUL # junk"
  obtain t where t: "parsecmd K ?buf u = (Some (t, nulterminate (length ?s) t ?buf), u)" "words_in ?s t" "map_cmd word_of t = c"
    using parsecmd_printed [OF assms] by blast
  have b: "cstr ?buf = ?s" using show_no_nul [OF assms] by simp
  have "map_cmd (word_at (length ?s) (nulterminate (length ?s) t ?buf)) t = map_cmd word_of t"
    by (rule cmd.map_cong0) (simp add: word_at_terminated [OF t(2) b] word_of_def)
  then have m: "map_cmd (word_at (length ?s) (nulterminate (length ?s) t ?buf)) t = c" using t(3) by simp
  show "\<exists>t buf. parsecmd K ?buf u = (Some (t, buf), u) \<and> map_cmd (word_at (length ?s) buf) t = c" using t(1) m by blast
  show "run_line K ?buf u = runcmd K c u" using t(1) m b by (simp add: run_line_def)
  show "\<forall>s. parseline (parse_fuel s) s \<noteq> None" using parse_done(1) unfolding parse_fuel_def by (metis done_by_simps(1) order_refl)
qed

theorem shell_parses_printed_witness:
  "run_line (\<lambda>_ _. (0, [])) (show_at 0 (LIST (REDIR (EXEC [''ls'', ''-l'']) ''out'' mode_out 1) (BACK (EXEC [''wc'']))) @ [NUL])
     \<lparr>u_calls = [], u_pbuf = [], u_pfd = - 1\<rparr> =
   runcmd (\<lambda>_ _. (0, [])) (LIST (REDIR (EXEC [''ls'', ''-l'']) ''out'' mode_out 1) (BACK (EXEC [''wc''])))
     \<lparr>u_calls = [], u_pbuf = [], u_pfd = - 1\<rparr> \<and>
   show_at 0 (LIST (REDIR (EXEC [''ls'', ''-l'']) ''out'' mode_out 1) (BACK (EXEC [''wc'']))) = '' ls -l > out ; wc &''"
proof -
  let ?c = "LIST (REDIR (EXEC [''ls'', ''-l'']) ''out'' mode_out 1) (BACK (EXEC [''wc'']))"
  have "wf_cmd ?c" by (simp add: is_word_def wordch_def whitespace_def symbols_def MAXARGS_def)
  moreover have "mode_out \<noteq> mode_in" by (simp add: mode_in_def mode_out_def O_RDONLY_def O_WRONLY_def O_CREATE_def O_TRUNC_def)
  ultimately show ?thesis using shell_parses_printed [of ?c "\<lambda>_ _. (0, [])" "[]"] by (simp add: paren_def redir_sym_def)
qed

end
