(* ===== verification/Boot.thy ===== *)
theory Boot
  imports Kvm Confine Virtio Bio
begin

text \<open>
  Booting: \<open>start.c\<close>, \<open>main.c\<close>, the set-up of UART (\<open>uart.c\<close>, \<open>console.c\<close>), interrupt controller (\<open>plic.c\<close>) and paging (\<open>vm.c\<close>), and
  \<open>forkret\<close> (\<open>proc.c\<close>), in which the first process mounts the file system and becomes \<open>/init\<close>.

  Spin locks are not part of the kernel's state here, so \<open>printfinit\<close>, \<open>trapinit\<close>, \<open>fileinit\<close> and \<open>cacheinit\<close>, which
  only initialise locks, do not appear.  A register that the code writes is a field or a list of writes; what the disk's registers
  read is a parameter.
\<close>

unbundle bit_operations_syntax

section \<open>Machine mode\<close>

definition MSTATUS_MPP_MASK :: u64 where "MSTATUS_MPP_MASK = push_bit 11 3"
definition MSTATUS_MPP_S :: u64 where "MSTATUS_MPP_S = push_bit 11 1"
definition SIE_SEIE :: u64 where "SIE_SEIE = push_bit 9 1"
definition SIE_STIE :: u64 where "SIE_STIE = push_bit 5 1"
definition MIE_STIE :: u64 where "MIE_STIE = push_bit 5 1"

text \<open>The registers of a hart that only \<open>start\<close> uses; \<open>m_mode\<close> is the privilege level (3 machine, 1 supervisor) and \<open>m_pc\<close> where it executes.\<close>

record mregs =
  m_hart :: hart
  m_mstatus :: u64
  m_mepc :: u64
  m_medeleg :: u64
  m_mideleg :: u64
  m_sie :: u64
  m_pmpaddr0 :: u64
  m_pmpcfg0 :: u64
  m_mie :: u64
  m_menvcfg :: u64
  m_mcounteren :: u64
  m_mhartid :: u64
  m_mode :: u64
  m_pc :: u64

definition timerinit :: "mregs \<Rightarrow> mregs" where
  "timerinit m =
     (let m = m\<lparr>m_mie := m_mie m OR MIE_STIE\<rparr>;
          m = m\<lparr>m_menvcfg := m_menvcfg m OR push_bit 63 1\<rparr>;
          m = m\<lparr>m_mcounteren := m_mcounteren m OR 2\<rparr>
      in m\<lparr>m_hart := (m_hart m)\<lparr>h_stimecmp := h_time (m_hart m) + 1000000\<rparr>\<rparr>)"

text \<open>\<open>mret\<close> enters the mode in the field MPP of \<open>mstatus\<close> and jumps to \<open>mepc\<close>.\<close>

definition mret :: "mregs \<Rightarrow> mregs" where
  "mret m = m\<lparr>m_mode := drop_bit 11 (m_mstatus m) AND 3, m_pc := m_mepc m\<rparr>"

definition start :: "u64 \<Rightarrow> mregs \<Rightarrow> mregs" where
  "start sym_main m =
     (let x = m_mstatus m;
          x = x AND NOT MSTATUS_MPP_MASK;
          x = x OR MSTATUS_MPP_S;
          m = m\<lparr>m_mstatus := x\<rparr>;
          m = m\<lparr>m_mepc := sym_main\<rparr>;
          m = m\<lparr>m_hart := (m_hart m)\<lparr>h_satp := 0\<rparr>\<rparr>;
          m = m\<lparr>m_medeleg := 0xffff\<rparr>;
          m = m\<lparr>m_mideleg := 0xffff\<rparr>;
          m = m\<lparr>m_sie := m_sie m OR SIE_SEIE OR SIE_STIE\<rparr>;
          m = m\<lparr>m_pmpaddr0 := 0x3fffffffffffff\<rparr>;
          m = m\<lparr>m_pmpcfg0 := 0xf\<rparr>;
          m = timerinit m;
          id = wrap32 (int (unat (m_mhartid m)));
          m = m\<lparr>m_hart := (m_hart m)\<lparr>h_tp := of_int id\<rparr>\<rparr>
      in mret m)"

section \<open>Devices\<close>

definition IER :: nat where "IER = 1"
definition FCR :: nat where "FCR = 2"
definition LCR :: nat where "LCR = 3"
definition IER_RX_ENABLE :: nat where "IER_RX_ENABLE = 1"
definition IER_TX_ENABLE :: nat where "IER_TX_ENABLE = 2"
definition FCR_FIFO_ENABLE :: nat where "FCR_FIFO_ENABLE = 1"
definition FCR_FIFO_CLEAR :: nat where "FCR_FIFO_CLEAR = 6"
definition LCR_EIGHT_BITS :: nat where "LCR_EIGHT_BITS = 3"
definition LCR_BAUD_LATCH :: nat where "LCR_BAUD_LATCH = 128"

text \<open>The writes to the UART's registers, in order.\<close>

definition uartinit :: "(nat \<times> nat) list" where
  "uartinit =
     [(IER, 0x00), (LCR, LCR_BAUD_LATCH), (0, 0x03), (1, 0x00), (LCR, LCR_EIGHT_BITS),
      (FCR, or FCR_FIFO_ENABLE FCR_FIFO_CLEAR), (IER, or IER_TX_ENABLE IER_RX_ENABLE)]"

definition cpuid :: "hart \<Rightarrow> int" where
  "cpuid h = wrap32 (int (unat (h_tp h)))"

definition PLIC_SENABLE :: "int \<Rightarrow> u64" where
  "PLIC_SENABLE hart = PLIC + 0x2080 + of_int hart * 0x100"

definition PLIC_SPRIORITY :: "int \<Rightarrow> u64" where
  "PLIC_SPRIORITY hart = PLIC + 0x201000 + of_int hart * 0x2000"

definition plicinit :: "(u64 \<Rightarrow> u32) \<Rightarrow> u64 \<Rightarrow> u32" where
  "plicinit r = r(PLIC + ucast UART0_IRQ * 4 := 1, PLIC + ucast VIRTIO0_IRQ * 4 := 1)"

definition plicinithart :: "hart \<Rightarrow> (u64 \<Rightarrow> u32) \<Rightarrow> u64 \<Rightarrow> u32" where
  "plicinithart h r =
     r(PLIC_SENABLE (cpuid h) := push_bit (unat UART0_IRQ) 1 OR push_bit (unat VIRTIO0_IRQ) 1,
       PLIC_SPRIORITY (cpuid h) := 0)"

definition kvminithart :: "kernel \<Rightarrow> hart \<Rightarrow> hart" where
  "kvminithart k h = h\<lparr>h_satp := MAKE_SATP (k_kpgtbl k)\<rparr>"

definition iinit :: "kernel \<Rightarrow> kernel" where
  "iinit k = k\<lparr>k_itable := map (\<lambda>ip. ip\<lparr>i_locked := False\<rparr>) (k_itable k)\<rparr>"

section \<open>\<open>main\<close>\<close>

text \<open>The machine: the kernel, this hart, and the state of the devices and drivers that are set up.\<close>

record boot =
  bt_kernel :: kernel
  bt_hart :: hart
  bt_uart :: "(nat \<times> nat) list"
  bt_plic :: "u64 \<Rightarrow> u32"
  bt_vregs :: "(u32 \<times> u32) list"
  bt_disk :: vdisk
  bt_bcache :: bcache
  bt_started :: bool

definition consoleinit :: "boot \<Rightarrow> boot" where
  "consoleinit b = b\<lparr>bt_uart := bt_uart b @ uartinit\<rparr>"

text \<open>
  The state in which the hart enters the scheduler.  \<open>V\<close> is what the disk's registers read, \<open>E\<close> the blocks on the disk.  Another
  hart than 0 waits while \<open>started\<close> is not set.
\<close>

definition main :: "hart_syms \<Rightarrow> ((u32 \<times> u32) list \<Rightarrow> u32 \<Rightarrow> u32) \<Rightarrow> (u32 \<Rightarrow> string) \<Rightarrow> boot \<Rightarrow> boot option" where
  "main S V E b =
     (if cpuid (bt_hart b) = 0
      then do {
        let b = consoleinit b;
        let k = printf [CHR 0x0A] [] (bt_kernel b);
        let k = printf (''xv6 kernel is booting'' @ [CHR 0x0A]) [] k;
        let k = printf [CHR 0x0A] [] k;
        k \<leftarrow> kinit k;
        k \<leftarrow> kvminit k;
        let h = kvminithart k (bt_hart b);
        let k = procinit k;
        let k = agentcmd_init k;
        let h = trapinithart S h;
        let plic = plicinit (bt_plic b);
        let plic = plicinithart h plic;
        let bc = binit E;
        let k = iinit k;
        (ws, d, k) \<leftarrow> virtio_disk_init V k;
        let k = confirminit k;
        k \<leftarrow> userinit k;
        Some (b\<lparr>bt_kernel := k, bt_hart := h, bt_plic := plic, bt_vregs := bt_vregs b @ ws, bt_disk := d,
                bt_bcache := bc, bt_started := True\<rparr>) }
      else if \<not> bt_started b then None
      else
        let k = printf (''hart %d starting'' @ [CHR 0x0A]) [VInt (cpuid (bt_hart b))] (bt_kernel b);
            h = kvminithart k (bt_hart b);
            h = trapinithart S h;
            plic = plicinithart h (bt_plic b)
        in Some (b\<lparr>bt_kernel := k, bt_hart := h, bt_plic := plic\<rparr>))"

section \<open>The first process\<close>

text \<open>
  \<open>first\<close> is the static variable; \<open>il\<close> is \<open>initlog\<close>, which theory \<open>Journal\<close> models over the buffer cache.  The result has the address
  in the trampoline that is called and its argument.
\<close>

definition forkret ::
    "hart_syms \<Rightarrow> u64 \<Rightarrow> (kernel \<Rightarrow> kernel option) \<Rightarrow> bool \<Rightarrow> hart \<Rightarrow> kernel \<Rightarrow> (u64 \<times> u64 \<times> bool \<times> hart \<times> kernel) option" where
  "forkret S sym_userret il first h k =
     do {
       p \<leftarrow> k_cur k;
       k \<leftarrow> (if first
             then do {
               k \<leftarrow> fsinit il ROOTDEV k;
               (r, k) \<leftarrow> kexec ''/init'' [''/init''] k;
               let k = set_tf p tf_a0 (of_int r) k;
               if p_tf (k_procs k ! p) tf_a0 = - 1 then panic ''exec'' else Some k }
             else Some k);
       (h, k) \<leftarrow> prepare_return S h k;
       let satp = MAKE_SATP (p_pagetable (k_procs k ! p));
       Some (TRAMPOLINE + (sym_userret - k_trampoline k), satp, False, h, k) }"

section \<open>What booting leaves alone\<close>

text \<open>The kernel without the memory and the free list.\<close>

definition rest_of :: "kernel \<Rightarrow> kernel" where
  "rest_of k = k\<lparr>k_mem := (\<lambda>_. NUL), k_freelist := 0\<rparr>"

lemma rest_simps [simp]:
  "rest_of (k\<lparr>k_mem := m\<rparr>) = rest_of k" "rest_of (k\<lparr>k_freelist := f\<rparr>) = rest_of k"
  by (simp_all add: rest_of_def)

lemma rest_zero [simp]: "rest_of (zero_page p k) = rest_of k"
  by (simp add: zero_page_def)

lemma restD:
  assumes "rest_of k' = rest_of k"
  shows "k_procs k' = k_procs k" "k_cur k' = k_cur k" "k_nextpid k' = k_nextpid k" "k_itable k' = k_itable k" "k_end k' = k_end k"
    "k_etext k' = k_etext k" "k_trampoline k' = k_trampoline k" "k_forkret k' = k_forkret k" "k_deny k' = k_deny k" "k_cfs_min k' = k_cfs_min k"
    "k_ticks k' = k_ticks k" "k_confirm k' = k_confirm k" "k_agentq k' = k_agentq k" "k_intake k' = k_intake k"
    "k_kpgtbl k' = k_kpgtbl k"
  using arg_cong [OF assms, of k_procs] arg_cong [OF assms, of k_cur] arg_cong [OF assms, of k_nextpid] arg_cong [OF assms, of k_itable]
    arg_cong [OF assms, of k_end] arg_cong [OF assms, of k_etext] arg_cong [OF assms, of k_trampoline] arg_cong [OF assms, of k_forkret]
    arg_cong [OF assms, of k_deny] arg_cong [OF assms, of k_cfs_min] arg_cong [OF assms, of k_ticks] arg_cong [OF assms, of k_confirm]
    arg_cong [OF assms, of k_agentq] arg_cong [OF assms, of k_intake] arg_cong [OF assms, of k_kpgtbl]
  by (simp_all add: rest_of_def)

lemma rest_kalloc: "rest_of (snd (kalloc k)) = rest_of k"
  by (simp add: kalloc_def Let_def)

lemma rest_kalloc': "kalloc k = (p, k') \<Longrightarrow> rest_of k' = rest_of k"
  using rest_kalloc [of k] by simp

lemma rest_walk_loop: "rest_of (snd (walk_loop l pt va al k)) = rest_of k"
  by (induction l arbitrary: pt k) (auto simp: Let_def split: prod.splits dest!: rest_kalloc')

lemma rest_walk: "walk pt va al k = Some (p, k') \<Longrightarrow> rest_of k' = rest_of k"
  using rest_walk_loop [of 2 pt va al k] by (auto simp: walk_def panic_simps split: if_splits)

lemma rest_mappages_loop: "mappages_loop pt a fin pa perm k = Some (r, k') \<Longrightarrow> rest_of k' = rest_of k"
proof (induction pt a fin pa perm k rule: mappages_loop.induct)
  case (1 pt a fin pa perm k)
  obtain p k1 where w: "walk pt a True k = Some (p, k1)"
    using 1(2) by (subst (asm) mappages_loop.simps) (auto split: option.splits)
  show ?case
    using 1(2) 1(1) [OF w refl] w rest_walk [OF w]
    by (subst (asm) mappages_loop.simps) (auto simp: panic_simps Let_def split: if_splits)
qed

lemma rest_mappages: "mappages pt va sz pa perm k = Some (r, k') \<Longrightarrow> rest_of k' = rest_of k"
  by (auto simp: mappages_def panic_simps rest_mappages_loop split: if_splits)

lemma rest_kvmmap: "kvmmap pt va pa sz perm k = Some k' \<Longrightarrow> rest_of k' = rest_of k"
  by (auto simp: kvmmap_def panic_simps split: if_splits bind_splits dest!: rest_mappages)

lemma rest_map_stack: "map_stack pt i j k = Some k' \<Longrightarrow> rest_of k' = rest_of k"
  by (auto simp: map_stack_def panic_simps Let_def split: if_splits prod.splits dest!: rest_kvmmap rest_kalloc')

lemma rest_proc_mapstacks: "proc_mapstacks pt k = Some k' \<Longrightarrow> rest_of k' = rest_of k"
  unfolding proc_mapstacks_def by (erule iter_option_inv, erule iter_option_inv) (rule rest_map_stack)

lemma rest_kvmmake: "kvmmake k = Some (R, k') \<Longrightarrow> rest_of k' = rest_of k"
  by (auto simp: kvmmake_def Let_def split: prod.splits bind_splits dest!: rest_kvmmap rest_proc_mapstacks rest_kalloc')

lemma rest_kpgtbl: "rest_of (k\<lparr>k_kpgtbl := r\<rparr>) = (rest_of k)\<lparr>k_kpgtbl := r\<rparr>"
  by (cases k) (simp add: rest_of_def)

lemma rest_kvminit: "kvminit k = Some k' \<Longrightarrow> rest_of k' = rest_of (k\<lparr>k_kpgtbl := k_kpgtbl k'\<rparr>)"
  by (auto simp: kvminit_def rest_kpgtbl split: bind_splits dest!: rest_kvmmake)

lemma rest_kinit: "kinit k = Some k' \<Longrightarrow> rest_of k' = rest_of k"
proof -
  have "rest_of k' = rest_of k" if "freerange_loop p e k = Some k'" for p e k k'
    using that
  proof (induction p e k rule: freerange_loop.induct)
    case (1 p e k)
    show ?case
    proof (cases "p + PGSIZE \<le> e")
      case True
      then obtain k1 where k1: "kfree p k = Some k1" "freerange_loop (p + PGSIZE) e k1 = Some k'"
        using "1.prems" by (subst (asm) freerange_loop.simps) (auto split: option.splits)
      then have "rest_of k1 = rest_of k" by (auto simp: kfree_def panic_simps Let_def split: if_splits)
      then show ?thesis using "1.IH" [OF True k1] by simp
    qed (use "1.prems" in \<open>subst (asm) freerange_loop.simps, simp\<close>)
  qed
  then show "kinit k = Some k' \<Longrightarrow> rest_of k' = rest_of k" by (simp add: kinit_def freerange_def)
qed

section \<open>Enough memory\<close>

lemma kmem_inv_cong: "k_mem k' = k_mem k \<Longrightarrow> k_freelist k' = k_freelist k \<Longrightarrow> k_end k' = k_end k \<Longrightarrow> kmem_inv k' ps = kmem_inv k ps"
  by (simp add: kmem_inv_def page_ok_def)

lemma kalloc_some:
  assumes "kmem_inv k ps" "ps \<noteq> []"
  obtains k' where "kalloc k = (hd ps, k')" "hd ps \<noteq> 0" "page_ok k (hd ps)" "hd ps \<notin> set (tl ps)" "kmem_inv k' (tl ps)" "rest_of k' = rest_of k"
proof -
  obtain p qs where ps: "ps = p # qs" using assms(2) by (cases ps) auto
  then show ?thesis using that assms(1) kalloc_page [of k p qs] rest_kalloc [of k] page_ok_nonzero [of k p]
    by (auto simp: kmem_inv_def)
qed

lemma zero_page_inv:
  assumes "kmem_inv k ps" "page_ok k q" "q \<notin> set ps"
  shows "kmem_inv (zero_page q k) ps"
proof -
  have c: "Kalloc.free_chain (k_mem k) (k_freelist k) ps" "\<forall>p \<in> set ps. page_ok k p" using assms(1) by (simp_all add: kmem_inv_def)
  have "Kalloc.free_chain (k_mem (zero_page q k)) (k_freelist k) ps"
    by (rule free_chain_other [OF c assms(2,3)]) (simp add: zero_page_def mem_fill_out)
  then show ?thesis using assms(1) by (simp add: kmem_inv_def zero_page_def)
qed

text \<open>What the virtio specification says of a disk that works: identification, a status that keeps what is written, a queue that is long enough.\<close>

definition disk_present :: "((u32 \<times> u32) list \<Rightarrow> u32 \<Rightarrow> u32) \<Rightarrow> bool" where
  "disk_present V \<longleftrightarrow>
     V [] VIRTIO_MMIO_MAGIC_VALUE = 0x74726976 \<and> V [] VIRTIO_MMIO_VERSION = 2 \<and> V [] VIRTIO_MMIO_DEVICE_ID = 2 \<and>
     V [] VIRTIO_MMIO_VENDOR_ID = 0x554d4551 \<and> (\<forall>ws s. V (ws @ [(VIRTIO_MMIO_STATUS, s)]) VIRTIO_MMIO_STATUS = s) \<and>
     (\<forall>ws. VIRTIO_MMIO_QUEUE_READY \<notin> fst ` set ws \<longrightarrow> V ws VIRTIO_MMIO_QUEUE_READY = 0) \<and>
     (\<forall>ws. NUM \<le> unat (V ws VIRTIO_MMIO_QUEUE_NUM_MAX))"

lemma page_ok_rest: "rest_of k' = rest_of k \<Longrightarrow> page_ok k' = page_ok k"
  using restD(5) [of k' k] by (simp add: page_ok_def fun_eq_iff)

lemma disk_init_ok:
  assumes V: "disk_present V" and inv: "kmem_inv k ps" "3 \<le> length ps"
  shows "\<exists>ws k'. virtio_disk_init V k = Some (ws, vdisk_init, k') \<and> kmem_inv k' (drop 3 ps) \<and> rest_of k' = rest_of k"
proof -
  obtain a b c qs where ps: "ps = a # b # c # qs" using inv(2) by (cases ps rule: list.exhaust; cases "tl ps"; cases "tl (tl ps)") auto
  have d: "page_ok k a" "page_ok k b" "page_ok k c" "a \<notin> set qs" "b \<notin> set qs" "c \<notin> set qs"
    using inv(1) by (simp_all add: ps kmem_inv_def)
  obtain k1 where k1: "kalloc k = (a, k1)" "a \<noteq> 0" "kmem_inv k1 (b # c # qs)" "rest_of k1 = rest_of k"
    using kalloc_some [OF inv(1)] by (auto simp: ps)
  obtain k2 where k2: "kalloc k1 = (b, k2)" "b \<noteq> 0" "kmem_inv k2 (c # qs)" "rest_of k2 = rest_of k1"
    using kalloc_some [OF k1(3)] by auto
  obtain k3 where k3: "kalloc k2 = (c, k3)" "c \<noteq> 0" "kmem_inv k3 qs" "rest_of k3 = rest_of k2"
    using kalloc_some [OF k2(3)] by auto
  have ok: "page_ok k3 = page_ok k" "rest_of k3 = rest_of k" using k1(4) k2(4) k3(4) page_ok_rest [of k3 k] by simp_all
  let ?k = "zero_page c (zero_page b (zero_page a k3))"
  have "page_ok (zero_page q k') = page_ok k'" for q k' by (simp add: zero_page_def)
  then have "kmem_inv ?k qs" using k3(3) d ok(1) by (intro zero_page_inv) simp_all
  moreover have "rest_of ?k = rest_of k" using ok(2) by simp
  moreover have "\<exists>ws. virtio_disk_init V k = Some (ws, vdisk_init, ?k)"
  proof -
    note [simp] = VIRTIO_MMIO_STATUS_def VIRTIO_MMIO_QUEUE_READY_def VIRTIO_MMIO_DRIVER_FEATURES_def VIRTIO_MMIO_QUEUE_SEL_def
    have st: "V (ws @ [(0x70, s)]) 0x70 = s" "V [(0x70, s)] 0x70 = s" for ws s
      using V by (auto simp: disk_present_def dest: spec [of _ "[]"])
    have rd: "V ws 0x44 = 0" if "0x44 \<notin> fst ` set ws" for ws using V that by (simp add: disk_present_def)
    have nm: "V ws VIRTIO_MMIO_QUEUE_NUM_MAX \<noteq> 0" "\<not> unat (V ws VIRTIO_MMIO_QUEUE_NUM_MAX) < NUM" for ws
      using V by (auto simp: disk_present_def NUM_def not_less dest!: spec [of _ ws])
    have s2: "VIRTIO_CONFIG_S_FEATURES_OK \<noteq> 0" by (simp add: VIRTIO_CONFIG_S_FEATURES_OK_def)
    have st': "V (w1 # w2 # w3 # w4 # [(0x70, s)]) 0x70 = s" for w1 w2 w3 w4 s using st(1) [of "[w1, w2, w3, w4]"] by simp
    show ?thesis using V k1(1,2) k2(1,2) k3(1,2) s2
      by (simp add: virtio_disk_init_def disk_present_def Let_def st' rd nm)
  qed
  ultimately show ?thesis using ps by auto
qed

lemma kvmmap_mappages: "kvmmap R va pa sz perm k = Some k' \<Longrightarrow> mappages R va sz pa perm k = Some (0, k')"
  by (auto simp: kvmmap_def panic_simps split: if_splits bind_splits)

lemma proc_pagetable_ok:
  assumes inv: "kmem_inv k ps" "104 \<le> length ps"
  shows "\<exists>pt k'. proc_pagetable p k = Some (pt, k') \<and> pt \<noteq> 0 \<and> rest_of k' = rest_of k"
proof -
  obtain R qs where ps: "ps = R # qs" using inv(2) by (cases ps) auto
  have R: "R \<noteq> 0" using inv(1) page_ok_nonzero [of k R] by (auto simp: ps kmem_inv_def)
  obtain k1 where k1: "kalloc k = (R, k1)" "building layout_paths (length ps) [] (\<lambda>_. 0) R (zero_page R k1) qs"
    using new_root [of k R qs layout_paths] inv(1) by (auto simp: ps layout_paths_def)
  have n: "103 < length ps" using inv(2) by simp
  have tf: "unat TRAPFRAME = 274877898752" "unat (TRAPFRAME + PGSIZE) = 274877902848"
    by (simp_all add: TRAPFRAME_def TRAMPOLINE_def MAXVA_def PGSIZE_def)
  let ?M = "with_range TRAMPOLINE PGSIZE (k_trampoline (zero_page R k1)) (PTE_R OR PTE_X) (\<lambda>_. 0)"
  have "\<exists>k' ps'. kvmmap R TRAMPOLINE (k_trampoline (zero_page R k1)) PGSIZE (PTE_R OR PTE_X) (zero_page R k1) = Some k' \<and>
      building layout_paths (length ps) [] ?M R k' ps'"
    by (rule kvmmap_layout [OF k1(2) n]) (auto simp: unat_layout intro!: regionsI)
  then obtain k2 ps2 where k2: "kvmmap R TRAMPOLINE (k_trampoline (zero_page R k1)) PGSIZE (PTE_R OR PTE_X) (zero_page R k1) = Some k2"
    "building layout_paths (length ps) [] ?M R k2 ps2" by blast
  have "\<exists>k' ps'. kvmmap R TRAPFRAME (p_trapframe (k_procs k2 ! p)) PGSIZE (PTE_R OR PTE_W) k2 = Some k' \<and>
      building layout_paths (length ps) [] (with_range TRAPFRAME PGSIZE (p_trapframe (k_procs k2 ! p)) (PTE_R OR PTE_W) ?M) R k' ps'"
    by (rule kvmmap_layout [OF k2(2) n]) (auto simp: layout_simps tf intro!: regionsI)
  then obtain k3 where k3: "kvmmap R TRAPFRAME (p_trapframe (k_procs k2 ! p)) PGSIZE (PTE_R OR PTE_W) k2 = Some k3" by blast
  have "proc_pagetable p k = Some (R, k3)"
    unfolding proc_pagetable_def uvmcreate_def using R k1(1) kvmmap_mappages [OF k2(1)] kvmmap_mappages [OF k3] by simp
  moreover have "rest_of k3 = rest_of k" using rest_kvmmap [OF k3] rest_kvmmap [OF k2(1)] rest_kalloc' [OF k1(1)] by simp
  ultimately show ?thesis using R by blast
qed

lemma rest_procs: "rest_of (k\<lparr>k_procs := ps\<rparr>) = (rest_of k)\<lparr>k_procs := ps\<rparr>"
  by (cases k) (simp add: rest_of_def)

lemma rest_upd_proc:
  assumes "rest_of k' = rest_of k"
  shows "rest_of (upd_proc i f k') = rest_of (upd_proc i f k)"
  unfolding upd_proc_def rest_procs restD(1) [OF assms] assms by (rule refl)

text \<open>The first process as \<open>allocproc\<close> makes it.\<close>

definition first_proc :: "kernel \<Rightarrow> u64 \<Rightarrow> u64 \<Rightarrow> proc" where
  "first_proc k tf pt = (proc_boot 0)\<lparr>p_pid := 1, p_state := USED, p_priority := 10, p_vruntime := k_cfs_min k, p_creation_tick := k_ticks k,
     p_trapframe := tf, p_pagetable := pt,
     p_context := (\<lambda>_. 0)(cx_ra := k_forkret k, cx_sp := KSTACK 0 + KSTACK_PAGES * PGSIZE)\<rparr>"

lemma allocproc_first:
  assumes b: "procs_booted k" and inv: "kmem_inv k ps" "105 \<le> length ps"
  shows "\<exists>tf pt k'. allocproc k = Some (Some 0, k') \<and> tf \<noteq> 0 \<and> pt \<noteq> 0 \<and>
    rest_of k' = rest_of (k\<lparr>k_nextpid := 2, k_procs := (k_procs k)[0 := first_proc k tf pt]\<rparr>)"
proof -
  have procs: "k_procs k = map proc_boot [0..<NPROC]" and np: "k_nextpid k = 1" using b by (simp_all add: procs_booted_def)
  have N: "[0..<NPROC] = 0 # [1..<NPROC]" by (simp add: NPROC_def upt_rec)
  have p0: "k_procs k ! 0 = proc_boot 0" "0 < length (k_procs k)" using procs N by simp_all
  have scan: "proc_scan (k_procs k) = Some 0" by (simp add: procs N proc_boot_def)
  define k1 where "k1 = upd_proc 0 (\<lambda>q. q\<lparr>p_pid := 1, p_state := USED, p_priority := 10, p_vruntime := k_cfs_min k,
      p_creation_tick := k_ticks k, p_is_agent := False, p_jail_root := None\<rparr>) (k\<lparr>k_nextpid := 2\<rparr>)"
  have i1: "kmem_inv k1 ps" using inv(1) by (subst kmem_inv_cong [of k1 k]) (simp_all add: k1_def upd_proc_def)
  have ne: "ps \<noteq> []" using inv(2) by auto
  obtain k2 where k2: "kalloc k1 = (hd ps, k2)" "hd ps \<noteq> 0" "kmem_inv k2 (tl ps)" "rest_of k2 = rest_of k1"
    by (rule kalloc_some [OF i1 ne])
  define k3 where "k3 = upd_proc 0 (\<lambda>q. q\<lparr>p_trapframe := hd ps\<rparr>) k2"
  have i3: "kmem_inv k3 (tl ps)" using k2(3) by (subst kmem_inv_cong [of k3 k2]) (simp_all add: k3_def upd_proc_def)
  have tl: "104 \<le> length (tl ps)" using inv(2) by simp
  obtain pt k4 where k4: "proc_pagetable 0 k3 = Some (pt, k4)" "pt \<noteq> 0" "rest_of k4 = rest_of k3"
    using proc_pagetable_ok [OF i3 tl, of 0] by blast
  let ?c = "\<lambda>k q. q\<lparr>p_context := (\<lambda>_. 0)(cx_ra := k_forkret k, cx_sp := p_kstack q + KSTACK_PAGES * PGSIZE)\<rparr>"
  define k5 where "k5 = upd_proc 0 (\<lambda>q. q\<lparr>p_pagetable := pt\<rparr>) k4"
  have f: "k_forkret k5 = k_forkret k" using restD(8) [OF k4(3)] restD(8) [OF k2(4)] by (simp add: k5_def k3_def k1_def upd_proc_def)
  have f5: "k_forkret k5 = k_forkret k4" by (simp add: k5_def)
  have al: "allocproc k = Some (Some 0, upd_proc 0 (?c k5) k5)"
    unfolding allocproc_def scan
    using k2(1,2) k4(1,2) np f5 by (simp add: allocpid_def cfs_min_def k1_def [symmetric] k3_def [symmetric] k5_def [symmetric] Let_def)
  have "rest_of k3 = rest_of (upd_proc 0 (\<lambda>q. q\<lparr>p_trapframe := hd ps\<rparr>) k1)" unfolding k3_def by (rule rest_upd_proc [OF k2(4)])
  then have "rest_of k4 = rest_of (upd_proc 0 (\<lambda>q. q\<lparr>p_trapframe := hd ps\<rparr>) k1)" using k4(3) by simp
  then have "rest_of k5 = rest_of (upd_proc 0 (\<lambda>q. q\<lparr>p_pagetable := pt\<rparr>) (upd_proc 0 (\<lambda>q. q\<lparr>p_trapframe := hd ps\<rparr>) k1))"
    unfolding k5_def by (rule rest_upd_proc)
  then have "rest_of (upd_proc 0 (?c k5) k5) =
      rest_of (upd_proc 0 (?c k) (upd_proc 0 (\<lambda>q. q\<lparr>p_pagetable := pt\<rparr>) (upd_proc 0 (\<lambda>q. q\<lparr>p_trapframe := hd ps\<rparr>) k1)))"
    unfolding f by (rule rest_upd_proc)
  also have "\<dots> = rest_of (k\<lparr>k_nextpid := 2, k_procs := (k_procs k)[0 := first_proc k (hd ps) pt]\<rparr>)"
    using p0 by (simp add: k1_def upd_proc_def first_proc_def proc_boot_def)
  finally show ?thesis using al k2(2) k4(2) by blast
qed

lemma iget_boot:
  assumes "k_itable k = replicate NINODE inode_boot"
  shows "iget dev inum k = Some (0, upd_ino 0 (\<lambda>i. i\<lparr>i_dev := dev, i_inum := inum, i_ref := 1, i_valid := False\<rparr>) k)"
proof -
  have "iget_scan (replicate n inode_boot) m dev inum (Some 0) = Inr (Some 0)" for n m
    by (induction n arbitrary: m) (simp_all add: inode_boot_def)
  then have "iget_scan (k_itable k) 0 dev inum None = Inr (Some 0)"
    using assms by (simp add: NINODE_def numeral_eq_Suc inode_boot_def del: replicate.simps) (simp add: inode_boot_def)
  then show ?thesis by (simp add: iget_def)
qed

lemma namei_root:
  assumes "k_itable k = replicate NINODE inode_boot" "k_cur k = None"
  shows "namei ''/'' k = Some (Some 0, upd_ino 0 (\<lambda>i. i\<lparr>i_dev := ROOTDEV, i_inum := ROOTINO, i_ref := 1, i_valid := False\<rparr>) k)"
proof -
  have sk: "skipelem ''/'' n = None" for n by (simp add: skipelem_def)
  have "namex_loop False ''/'' False n ip k' = Some (Some ip, n, k')" for n ip k'
    by (subst namex_loop.simps) (simp add: sk)
  then show ?thesis using assms(2) iget_boot [OF assms(1)]
    by (simp add: namei_def namex_def namex_start_def is_jailed_def deref_def)
qed

lemma userinit_first:
  assumes b: "procs_booted k" and inv: "kmem_inv k ps" "105 \<le> length ps" and it: "k_itable k = replicate NINODE inode_boot"
  shows "\<exists>tf pt k'. userinit k = Some k' \<and> tf \<noteq> 0 \<and> pt \<noteq> 0 \<and>
    k_procs k' = (k_procs k)[0 := (first_proc k tf pt)\<lparr>p_cwd := Some 0, p_priority := - 5, p_state := RUNNABLE\<rparr>] \<and>
    k_cur k' = None \<and> k_nextpid k' = 2 \<and> k_initproc k' = Some 0 \<and> k_deny k' = k_deny k \<and> k_cfs_min k' = k_cfs_min k \<and>
    k_itable k' ! 0 = inode_boot\<lparr>i_dev := ROOTDEV, i_inum := ROOTINO, i_ref := 1\<rparr> \<and> k_kpgtbl k' = k_kpgtbl k"
proof -
  obtain tf pt k1 where al: "allocproc k = Some (Some 0, k1)" "tf \<noteq> 0" "pt \<noteq> 0"
    "rest_of k1 = rest_of (k\<lparr>k_nextpid := 2, k_procs := (k_procs k)[0 := first_proc k tf pt]\<rparr>)"
    using allocproc_first [OF b inv] by blast
  note r = restD [OF al(4)]
  let ?k2 = "k1\<lparr>k_initproc := Some 0\<rparr>"
  have "k_itable ?k2 = replicate NINODE inode_boot" "k_cur ?k2 = None" using r it b by (simp_all add: procs_booted_def)
  note nm = namei_root [OF this]
  have N: "0 < length (k_procs k)" using b by (simp add: procs_booted_def NPROC_def)
  show ?thesis unfolding userinit_def al(1)
    using nm al(2,3) r it N b by (intro exI [of _ tf] exI [of _ pt]) (simp add: upd_proc_def upd_ino_def procs_booted_def NINODE_def inode_boot_def)
qed

section \<open>Booting reaches the scheduler\<close>

lemma procinit_boot: "k_procs k = map proc_boot [0..<NPROC] \<Longrightarrow> procinit k = k"
proof -
  assume k: "k_procs k = map proc_boot [0..<NPROC]"
  have "map (\<lambda>(i, p). p\<lparr>p_state := UNUSED, p_kstack := KSTACK i\<rparr>) (enumerate 0 (k_procs k)) = k_procs k"
    by (rule nth_equalityI) (simp_all add: k nth_enumerate_eq proc_boot_def)
  then show ?thesis by (simp add: procinit_def)
qed

text \<open>The scheduler picks the only process there is.\<close>

lemma scheduler_first:
  assumes "k_procs k = q # map proc_boot [1..<NPROC]" "p_state q = RUNNABLE"
  shows "k_cur (scheduler k) = Some 0" "p_state (k_procs (scheduler k) ! 0) = RUNNING"
proof -
  have "cfs_scan ps i best = best" if "\<forall>p \<in> set ps. p_state p \<noteq> RUNNABLE" for ps i best
    using that by (induction ps arbitrary: i) auto
  then have "cfs_scan (k_procs k) 0 None = Some (0, p_vruntime q, p_creation_tick q)"
    using assms by (simp add: cfs_better_def proc_boot_def)
  then show "k_cur (scheduler k) = Some 0" "p_state (k_procs (scheduler k) ! 0) = RUNNING"
    using assms by (simp_all add: scheduler_def upd_proc_def cfs_advance_min_def)
qed

text \<open>The machine when hart 0 enters \<open>main\<close>: zeroed static data, any memory and disk, an image that ends at \<open>e\<close>.\<close>

definition loaded :: "u64 \<Rightarrow> u64 \<Rightarrow> kernel \<Rightarrow> bool" where
  "loaded e t k \<longleftrightarrow> (\<exists>m tr f E. k = kernel_boot\<lparr>k_mem := m, k_end := e, k_etext := t, k_trampoline := tr, k_forkret := f, k_blocks := E\<rparr>)"

text \<open>The kernel just before the first process is made.\<close>

lemma boot_to_userinit:
  assumes "loaded e t k" "KERNBASE \<le> e" "unat e + 800 * 4096 \<le> 0x88000000" "unat t mod 4096 = 0" "0x80000000 < unat t" "unat t < 0x88000000"
    "disk_present V"
  shows "\<exists>k1 k2 k3 ws ps. kinit (printf f3 a3 (printf f2 a2 (printf f1 a1 k))) = Some k1 \<and> kvminit k1 = Some k2 \<and>
    virtio_disk_init V (iinit (agentcmd_init (procinit k2))) = Some (ws, vdisk_init, k3) \<and> procs_booted (confirminit k3) \<and>
    kmem_inv (confirminit k3) ps \<and> 105 \<le> length ps \<and> k_itable (confirminit k3) = replicate NINODE inode_boot \<and>
    k_deny (confirminit k3) = deny_reset (k_deny kernel_boot) \<and> k_forkret (confirminit k3) = k_forkret k \<and> k_kpgtbl k3 = k_kpgtbl k2 \<and>
    k_cfs_min (confirminit k3) = 0 \<and> k_ticks (confirminit k3) = 0"
proof -
  let ?k = "printf f3 a3 (printf f2 a2 (printf f1 a1 k))"
  have l: "k_end k = e" "k_etext k = t" "k_freelist k = 0" "k_procs k = map proc_boot [0..<NPROC]" "k_cur k = None" "k_nextpid k = 1"
    "k_itable k = replicate NINODE inode_boot" "k_deny k = k_deny kernel_boot" "k_cfs_min k = 0" "k_ticks k = 0"
    using assms(1) by (auto simp: loaded_def kernel_boot_def)
  have k0: "KERNBASE \<le> k_end ?k" "unat (k_end ?k) + 800 * 4096 \<le> 0x88000000" "k_freelist ?k = 0" using l assms(2,3) by simp_all
  obtain k1 ps where k1: "kinit ?k = Some k1" "kmem_inv k1 ps" "800 \<le> length ps" "k_etext k1 = k_etext ?k" by (rule kinit_pages [OF k0])
  note r1 = restD [OF rest_kinit [OF k1(1)]]
  obtain k2 qs where k2: "kvminit k1 = Some k2" "kmem_inv k2 qs" "length ps \<le> length qs + 615"
    using kvminit_ok [OF k1(2)] k1(3,4) l(2) assms(4-6) by auto
  note r2 = restD [OF rest_kvminit [OF k2(1)]]
  have pr: "procinit k2 = k2" using r2(1) r1(1) l(4) by (intro procinit_boot) simp
  let ?i = "iinit (agentcmd_init (procinit k2))"
  have ii: "kmem_inv ?i qs" using k2(2) by (subst kmem_inv_cong [of ?i k2]) (simp_all add: pr iinit_def agentcmd_init_def)
  obtain ws k3 where k3: "virtio_disk_init V ?i = Some (ws, vdisk_init, k3)" "kmem_inv k3 (drop 3 qs)" "rest_of k3 = rest_of ?i"
    using disk_init_ok [OF assms(7) ii] k2(3) k1(3) by auto
  note r3 = restD [OF k3(3)]
  have "kmem_inv (confirminit k3) (drop 3 qs)" using k3(2) by (subst kmem_inv_cong [of _ k3]) (simp_all add: confirminit_def)
  moreover have "procs_booted (confirminit k3)"
    using r3 r2 r1 l by (simp add: procs_booted_def confirminit_def pr iinit_def agentcmd_init_def)
  moreover have "105 \<le> length (drop 3 qs)" using k2(3) k1(3) by simp
  moreover have "k_itable (confirminit k3) = replicate NINODE inode_boot"
    using r3 r2 r1 l by (simp add: confirminit_def pr iinit_def agentcmd_init_def map_replicate inode_boot_def)
  ultimately show ?thesis using k1(1) k2(1) k3(1) r3 r2 r1 l
    by (intro exI [of _ k1] exI [of _ k2] exI [of _ k3] exI [of _ ws] exI [of _ "drop 3 qs"])
      (simp add: confirminit_def pr iinit_def agentcmd_init_def)
qed

text \<open>A sample machine: a disk that answers as the specification says, and a hart with all registers 0.\<close>

definition disk_sample :: "(u32 \<times> u32) list \<Rightarrow> u32 \<Rightarrow> u32" where
  "disk_sample ws r =
     (if r = VIRTIO_MMIO_MAGIC_VALUE then 0x74726976
      else if r = VIRTIO_MMIO_VERSION \<or> r = VIRTIO_MMIO_DEVICE_ID then 2
      else if r = VIRTIO_MMIO_VENDOR_ID then 0x554d4551
      else if r = VIRTIO_MMIO_QUEUE_NUM_MAX then 1024
      else case find (\<lambda>w. fst w = r) (rev ws) of None \<Rightarrow> 0 | Some w \<Rightarrow> snd w)"

definition boot_sample :: boot where
  "boot_sample =
     \<lparr>bt_kernel = kernel_boot,
      bt_hart = \<lparr>h_sstatus = 0, h_sepc = 0, h_scause = 0, h_stval = 0, h_stvec = 0, h_satp = 0, h_tp = 0, h_time = 0, h_stimecmp = 0,
        h_plic = 0, h_plic_done = [], h_uart_rx = []\<rparr>,
      bt_uart = [], bt_plic = (\<lambda>_. 0), bt_vregs = [], bt_disk = vdisk_init, bt_bcache = binit (\<lambda>_. []), bt_started = False\<rparr>"

lemma disk_sample_present: "disk_present disk_sample"
proof -
  have "find (\<lambda>w. fst w = r) (rev ws) = None" if "r \<notin> fst ` set ws" for ws :: "(u32 \<times> u32) list" and r
    using that by (auto simp: find_None_iff image_iff)
  then show ?thesis
    by (simp add: disk_present_def disk_sample_def VIRTIO_MMIO_MAGIC_VALUE_def VIRTIO_MMIO_VERSION_def VIRTIO_MMIO_DEVICE_ID_def
        VIRTIO_MMIO_VENDOR_ID_def VIRTIO_MMIO_QUEUE_NUM_MAX_def VIRTIO_MMIO_STATUS_def VIRTIO_MMIO_QUEUE_READY_def NUM_def)
qed

lemma boot_sample_loaded: "loaded (KERNBASE + 0x40000) (KERNBASE + 0x10000) (bt_kernel boot_sample)"
  unfolding loaded_def boot_sample_def kernel_boot_def by simp

text \<open>
  C10: the kernel boots.  On a machine with a virtio disk, with an image that leaves 800 pages of memory and whose text ends on a page
  boundary, \<open>main\<close> on hart 0 runs through without a panic, whatever memory and disk contain: paging is on with the kernel's page table,
  traps go to \<open>kernelvec\<close>, the PLIC passes the interrupts of UART and disk, the deny list holds the built-in names, and the other harts are let go.
  The process table then has one RUNNABLE process, pid 1 with the kernel priority -5, in the root directory, set to continue in
  \<open>forkret\<close> at the top of its eight stack pages; every other slot is free, and the scheduler runs that process.  The state
  continues the histories for which the process-table invariants hold.
\<close>

theorem boot_starts_init:
  assumes "loaded e t (bt_kernel b)" "KERNBASE \<le> e" "unat e + 800 * 4096 \<le> unat PHYSTOP" "t mod PGSIZE = 0" "KERNBASE < t" "t < PHYSTOP"
    "disk_present V" "cpuid (bt_hart b) = 0"
  shows "\<exists>b' k h q. main S V E b = Some b' \<and> bt_kernel b' = k \<and> bt_hart b' = h \<and> bt_started b' \<and> bt_uart b' = bt_uart b @ uartinit \<and>
    bt_disk b' = vdisk_init \<and> bt_bcache b' = binit E \<and>
    h_satp h = MAKE_SATP (k_kpgtbl k) \<and> h_stvec h = sym_kernelvec S \<and>
    bt_plic b' (PLIC + 40) = 1 \<and> bt_plic b' (PLIC + 4) = 1 \<and> bt_plic b' (PLIC_SENABLE 0) = 0x402 \<and> bt_plic b' (PLIC_SPRIORITY 0) = 0 \<and>
    k_deny k = deny_reset (k_deny kernel_boot) \<and>
    k_procs k = q # map proc_boot [1..<NPROC] \<and> k_initproc k = Some 0 \<and>
    p_state q = RUNNABLE \<and> p_pid q = 1 \<and> p_priority q = - 5 \<and> \<not> p_is_agent q \<and> p_jail_root q = None \<and> p_cwd q = Some 0 \<and>
    i_dev (k_itable k ! 0) = ROOTDEV \<and> i_inum (k_itable k ! 0) = ROOTINO \<and> i_ref (k_itable k ! 0) = 1 \<and>
    p_pagetable q \<noteq> 0 \<and> p_trapframe q \<noteq> 0 \<and>
    p_context q cx_ra = k_forkret (bt_kernel b) \<and> p_context q cx_sp = KSTACK 0 + 8 * PGSIZE \<and>
    k_cur (scheduler k) = Some 0 \<and> p_state (k_procs (scheduler k) ! 0) = RUNNING \<and>
    (\<exists>k0. procs_booted k0 \<and> history S k0 k)"
proof -
  have n: "unat e + 800 * 4096 \<le> 0x88000000" "unat t mod 4096 = 0" "0x80000000 < unat t" "unat t < 0x88000000"
    using assms(3-6) by (simp_all add: aligned_unat word_less_nat_alt unat_layout)
  let ?p = "\<lambda>k. printf [CHR 0x0A] [] (printf (''xv6 kernel is booting'' @ [CHR 0x0A]) [] (printf [CHR 0x0A] [] k))"
  obtain k1 k2 k3 ws ps where k: "kinit (?p (bt_kernel b)) = Some k1" "kvminit k1 = Some k2"
    "virtio_disk_init V (iinit (agentcmd_init (procinit k2))) = Some (ws, vdisk_init, k3)" "procs_booted (confirminit k3)"
    "kmem_inv (confirminit k3) ps" "105 \<le> length ps" "k_itable (confirminit k3) = replicate NINODE inode_boot"
    "k_deny (confirminit k3) = deny_reset (k_deny kernel_boot)" "k_forkret (confirminit k3) = k_forkret (bt_kernel b)" "k_kpgtbl k3 = k_kpgtbl k2"
    "k_cfs_min (confirminit k3) = 0" "k_ticks (confirminit k3) = 0"
    using boot_to_userinit [OF assms(1,2) n assms(7)] by blast
  obtain tf pt k4 where k4: "userinit (confirminit k3) = Some k4" "tf \<noteq> 0" "pt \<noteq> 0"
    "k_procs k4 = (k_procs (confirminit k3))[0 := (first_proc (confirminit k3) tf pt)\<lparr>p_cwd := Some 0, p_priority := - 5, p_state := RUNNABLE\<rparr>]"
    "k_nextpid k4 = 2" "k_initproc k4 = Some 0" "k_deny k4 = k_deny (confirminit k3)" "k_kpgtbl k4 = k_kpgtbl (confirminit k3)"
    "k_itable k4 ! 0 = inode_boot\<lparr>i_dev := ROOTDEV, i_inum := ROOTINO, i_ref := 1\<rparr>"
    using userinit_first [OF k(4-7)] by blast
  let ?q = "(first_proc (confirminit k3) tf pt)\<lparr>p_cwd := Some 0, p_priority := - 5, p_state := RUNNABLE\<rparr>"
  let ?h = "trapinithart S (kvminithart k2 (bt_hart b))"
  have N: "[0..<NPROC] = 0 # [1..<NPROC]" by (simp add: NPROC_def upt_rec)
  have procs: "k_procs k4 = ?q # map proc_boot [1..<NPROC]" using k4(4) k(4) by (simp add: procs_booted_def N)
  have st: "p_state ?q = RUNNABLE" by simp
  have hist: "history S (confirminit k3) k4" by (rule h_step [OF h_refl k_init [OF k4(1)]]) (simp add: k4(5))
  have id: "cpuid ?h = 0" using assms(8) by (simp add: cpuid_def trapinithart_def kvminithart_def)
  let ?b = "b\<lparr>bt_uart := bt_uart b @ uartinit, bt_kernel := k4, bt_hart := ?h, bt_plic := plicinithart ?h (plicinit (bt_plic b)), bt_vregs := bt_vregs b @ ws,
      bt_disk := vdisk_init, bt_bcache := binit E, bt_started := True\<rparr>"
  have m: "main S V E b = Some ?b"
    using assms(8) k(1-3) k4(1) by (simp add: main_def consoleinit_def Let_def)
  have plic: "bt_plic ?b (PLIC + 40) = 1" "bt_plic ?b (PLIC + 4) = 1" "bt_plic ?b (PLIC_SENABLE 0) = 0x402" "bt_plic ?b (PLIC_SPRIORITY 0) = 0"
    by (simp_all add: plicinithart_def plicinit_def id PLIC_SENABLE_def PLIC_SPRIORITY_def UART0_IRQ_def VIRTIO0_IRQ_def PLIC_def)
  have regs: "h_satp ?h = MAKE_SATP (k_kpgtbl k4)" "h_stvec ?h = sym_kernelvec S"
    using k4(8) k(10) by (simp_all add: trapinithart_def kvminithart_def confirminit_def)
  have q: "p_pid ?q = 1" "\<not> p_is_agent ?q" "p_jail_root ?q = None" "p_pagetable ?q = pt" "p_trapframe ?q = tf"
    "p_context ?q cx_ra = k_forkret (bt_kernel b)" "p_context ?q cx_sp = KSTACK 0 + 8 * PGSIZE"
    using k(9) by (simp_all add: first_proc_def proc_boot_def KSTACK_PAGES_def)
  have ex: "\<exists>k0. procs_booted k0 \<and> history S k0 k4" using hist k(4) by blast
  show ?thesis
    by (rule exI [of _ ?b], rule exI [of _ k4], rule exI [of _ ?h], rule exI [of _ ?q], intro conjI)
      (use m plic regs q k4(2,3,6,7,9) k(8) procs scheduler_first [OF procs st] ex in simp_all)
qed

theorem boot_starts_init_witness:
  "\<exists>b' q. main \<lparr>sym_kernelvec = 0, sym_uservec = 0, sym_usertrap = 0\<rparr> disk_sample (\<lambda>_. []) boot_sample = Some b' \<and>
    k_procs (bt_kernel b') = q # map proc_boot [1..<NPROC] \<and> p_state q = RUNNABLE \<and> p_pid q = 1 \<and>
    k_cur (scheduler (bt_kernel b')) = Some 0"
proof -
  have "cpuid (bt_hart boot_sample) = 0" by (simp add: cpuid_def boot_sample_def wrap32_def)
  then show ?thesis
    using boot_starts_init [OF boot_sample_loaded _ _ _ _ _ disk_sample_present, of "\<lparr>sym_kernelvec = 0, sym_uservec = 0, sym_usertrap = 0\<rparr>" "\<lambda>_. []"]
    by (auto simp: KERNBASE_def PHYSTOP_def PGSIZE_def)
qed

end
