(* ===== verification/Utils.thy ===== *)
theory Utils
  imports Ulib Agentd
begin

text \<open>
  The first user program \<open>user/init.c\<close> and the small utilities: \<open>cat\<close>, \<open>wc\<close>, \<open>echo\<close>, \<open>kill\<close>, \<open>ln\<close>, \<open>mkdir\<close>, \<open>rm\<close> and \<open>ls\<close>.

  A program is a function to the state at its \<open>exit\<close>, or at an \<open>exec\<close> that replaced it; \<open>None\<close> is a run that does not end.  \<open>argv\<close> has the
  program's name first.  A function that may exit returns whether the program goes on.
\<close>

section \<open>\<open>init\<close>\<close>

text \<open>The child of a fork: it becomes \<open>path\<close>, or reports and exits.\<close>

definition init_child :: "kern \<Rightarrow> string \<Rightarrow> string list \<Rightarrow> string \<Rightarrow> user \<Rightarrow> user" where
  "init_child K path argv msg u =
     (let (r, _, u) = sys K (U_exec path argv) u
      in if r \<ge> 0 then u else sys_void K (U_exit 1) (uprintf K (msg @ NL) [] u))"

text \<open>The inner loop: \<open>True\<close> when the shell has exited, \<open>False\<close> when \<open>init\<close> itself exits.\<close>

partial_function (option) init_wait :: "kern \<Rightarrow> int \<Rightarrow> user \<Rightarrow> (bool \<times> user) option" where
  "init_wait K pid u =
     (let (wpid, _, u) = sys K U_wait u
      in if wpid = pid then Some (True, u)
         else if wpid < 0 then Some (False, sys_void K (U_exit 1) (uprintf K (''init: wait returned an error'' @ NL) [] u))
         else init_wait K pid u)"

partial_function (option) init_loop :: "kern \<Rightarrow> user \<Rightarrow> user option" where
  "init_loop K u =
     (let u = uprintf K (''init: starting sh'' @ NL) [] u;
          (pid, _, u) = sys K U_fork u
      in if pid < 0 then Some (sys_void K (U_exit 1) (uprintf K (''init: fork failed'' @ NL) [] u))
         else if pid = 0 then Some (init_child K ''sh'' [''sh''] ''init: exec sh failed'' u)
         else Option.bind (init_wait K pid u) (\<lambda>(go, u). if go then init_loop K u else Some u))"

definition init_console :: "kern \<Rightarrow> user \<Rightarrow> user" where
  "init_console K u =
     (let (fd, _, u) = sys K (U_open ''console'' O_RDWR) u;
          u = (if fd < 0 then sys_void K (U_open ''console'' O_RDWR) (sys_void K (U_mknod ''console'' CONSOLE 0) u) else u)
      in sys_void K (U_dup 0) (sys_void K (U_dup 0) u))"

definition init_main :: "kern \<Rightarrow> user \<Rightarrow> user option" where
  "init_main K u =
     (let u = init_console K u;
          (pid, _, u) = sys K U_fork u
      in if pid = 0 then Some (init_child K ''denyctl'' [''denyctl'', ''load''] ''init: exec denyctl failed'' u)
         else
           let u = sys_void K U_wait u;
               (pid, _, u) = sys K U_fork u
           in if pid = 0 then Some (init_child K ''agentd'' [''agentd''] ''init: exec agentd failed'' u)
              else init_loop K u)"

section \<open>\<open>cat\<close>\<close>

partial_function (option) cat_loop :: "kern \<Rightarrow> int \<Rightarrow> user \<Rightarrow> (bool \<times> user) option" where
  "cat_loop K fd u =
     (let (n, bs, u) = sys K (U_read fd 512) u
      in if n > 0
         then let (w, _, u) = sys K (U_write 1 (take (nat n) bs)) u
           in if w \<noteq> n then Some (False, sys_void K (U_exit 1) (fprintf K 2 (''cat: write error'' @ NL) [] u))
              else cat_loop K fd u
         else if n < 0 then Some (False, sys_void K (U_exit 1) (fprintf K 2 (''cat: read error'' @ NL) [] u))
         else Some (True, u))"

fun cat_files :: "kern \<Rightarrow> string list \<Rightarrow> user \<Rightarrow> user option" where
  "cat_files K [] u = Some (sys_void K (U_exit 0) u)"
| "cat_files K (f # fs) u =
     (let (fd, _, u) = sys K (U_open f O_RDONLY) u
      in if fd < 0 then Some (sys_void K (U_exit 1) (fprintf K 2 (''cat: cannot open %s'' @ NL) [VStr (Some f)] u))
         else Option.bind (cat_loop K fd u) (\<lambda>(go, u). if go then cat_files K fs (sys_void K (U_close fd) u) else Some u))"

definition cat_main :: "kern \<Rightarrow> string list \<Rightarrow> user \<Rightarrow> user option" where
  "cat_main K argv u =
     (if length argv \<le> 1
      then Option.bind (cat_loop K 0 u) (\<lambda>(go, u). Some (if go then sys_void K (U_exit 0) u else u))
      else cat_files K (tl argv) u)"

section \<open>\<open>wc\<close>\<close>

definition wc_white :: string where
  "wc_white = [CHR '' '', CHR 0x0D, CHR 0x09, CHR 0x0A, CHR 0x0B]"

text \<open>One character; the state has lines, words, characters and \<open>inword\<close>.\<close>

definition wc_char :: "char \<Rightarrow> int \<times> int \<times> int \<times> bool \<Rightarrow> int \<times> int \<times> int \<times> bool" where
  "wc_char x s =
     (let (l, w, c, inword) = s;
          c = wrap32 (c + 1);
          l = (if x = CHR 0x0A then wrap32 (l + 1) else l)
      in if strchr wc_white x \<noteq> None then (l, w, c, False)
         else if \<not> inword then (l, wrap32 (w + 1), c, True)
         else (l, w, c, inword))"

partial_function (option) wc_loop :: "kern \<Rightarrow> int \<Rightarrow> int \<times> int \<times> int \<times> bool \<Rightarrow> user \<Rightarrow> (int \<times> (int \<times> int \<times> int \<times> bool) \<times> user) option" where
  "wc_loop K fd s u =
     (let (n, bs, u) = sys K (U_read fd 512) u
      in if n > 0 then wc_loop K fd (fold wc_char (take (nat n) bs) s) u else Some (n, s, u))"

definition wc :: "kern \<Rightarrow> int \<Rightarrow> string \<Rightarrow> user \<Rightarrow> (bool \<times> user) option" where
  "wc K fd name u =
     Option.bind (wc_loop K fd (0, 0, 0, False) u) (\<lambda>(n, (l, w, c, _), u).
       if n < 0 then Some (False, sys_void K (U_exit 1) (uprintf K (''wc: read error'' @ NL) [] u))
       else Some (True, uprintf K (''%d %d %d %s'' @ NL) [VInt l, VInt w, VInt c, VStr (Some name)] u))"

fun wc_files :: "kern \<Rightarrow> string list \<Rightarrow> user \<Rightarrow> user option" where
  "wc_files K [] u = Some (sys_void K (U_exit 0) u)"
| "wc_files K (f # fs) u =
     (let (fd, _, u) = sys K (U_open f O_RDONLY) u
      in if fd < 0 then Some (sys_void K (U_exit 1) (uprintf K (''wc: cannot open %s'' @ NL) [VStr (Some f)] u))
         else Option.bind (wc K fd f u) (\<lambda>(go, u). if go then wc_files K fs (sys_void K (U_close fd) u) else Some u))"

definition wc_main :: "kern \<Rightarrow> string list \<Rightarrow> user \<Rightarrow> user option" where
  "wc_main K argv u =
     (if length argv \<le> 1
      then Option.bind (wc K 0 [] u) (\<lambda>(go, u). Some (if go then sys_void K (U_exit 0) u else u))
      else wc_files K (tl argv) u)"

section \<open>One call per argument\<close>

fun echo_args :: "kern \<Rightarrow> string list \<Rightarrow> user \<Rightarrow> user" where
  "echo_args K [] u = u"
| "echo_args K (a # as) u =
     (let u = sys_void K (U_write 1 a) u
      in echo_args K as (sys_void K (U_write 1 (if as \<noteq> [] then '' '' else NL)) u))"

definition echo_main :: "kern \<Rightarrow> string list \<Rightarrow> user \<Rightarrow> user" where
  "echo_main K argv u = sys_void K (U_exit 0) (echo_args K (tl argv) u)"

definition kill_main :: "kern \<Rightarrow> string list \<Rightarrow> user \<Rightarrow> user" where
  "kill_main K argv u =
     (if length argv < 2 then sys_void K (U_exit 1) (fprintf K 2 (''usage: kill pid...'' @ NL) [] u)
      else sys_void K (U_exit 0) (fold (\<lambda>a. sys_void K (U_kill (atoi a))) (tl argv) u))"

definition ln_main :: "kern \<Rightarrow> string list \<Rightarrow> user \<Rightarrow> user" where
  "ln_main K argv u =
     (if length argv \<noteq> 3 then sys_void K (U_exit 1) (fprintf K 2 (''Usage: ln old new'' @ NL) [] u)
      else
        let (r, _, u) = sys K (U_link (argv ! 1) (argv ! 2)) u;
            u = (if r < 0 then fprintf K 2 (''link %s %s: failed'' @ NL) [VStr (Some (argv ! 1)), VStr (Some (argv ! 2))] u else u)
        in sys_void K (U_exit 0) u)"

fun mkdir_args :: "kern \<Rightarrow> string list \<Rightarrow> user \<Rightarrow> user" where
  "mkdir_args K [] u = u"
| "mkdir_args K (a # as) u =
     (let (r, _, u) = sys K (U_mkdir a) u
      in if r < 0 then fprintf K 2 (''mkdir: %s failed to create'' @ NL) [VStr (Some a)] u else mkdir_args K as u)"

definition mkdir_main :: "kern \<Rightarrow> string list \<Rightarrow> user \<Rightarrow> user" where
  "mkdir_main K argv u =
     (if length argv < 2 then sys_void K (U_exit 1) (fprintf K 2 (''Usage: mkdir files...'' @ NL) [] u)
      else sys_void K (U_exit 0) (mkdir_args K (tl argv) u))"

fun rm_args :: "kern \<Rightarrow> string list \<Rightarrow> user \<Rightarrow> user" where
  "rm_args K [] u = u"
| "rm_args K (a # as) u =
     (let (r, _, u) = sys K (U_unlink a) u
      in if r < 0 then fprintf K 2 (''rm: %s failed to delete'' @ NL) [VStr (Some a)] u else rm_args K as u)"

definition rm_main :: "kern \<Rightarrow> string list \<Rightarrow> user \<Rightarrow> user" where
  "rm_main K argv u =
     (if length argv < 2 then sys_void K (U_exit 1) (fprintf K 2 (''Usage: rm files...'' @ NL) [] u)
      else sys_void K (U_exit 0) (rm_args K (tl argv) u))"

section \<open>\<open>ls\<close>\<close>

definition fmtname :: "string \<Rightarrow> string" where
  "fmtname path =
     (let p = rev (takeWhile (\<lambda>c. c \<noteq> CHR ''/'') (rev path))
      in if length p \<ge> DIRSIZ then p else p @ replicate (DIRSIZ - length p) CHR '' '')"

text \<open>The line for a file; \<open>st\<close> is the contents of its \<open>struct stat\<close>.\<close>

definition ls_line :: "kern \<Rightarrow> string \<Rightarrow> string \<Rightarrow> user \<Rightarrow> user" where
  "ls_line K path st u =
     uprintf K (''%s %d %d %d'' @ NL)
       [VStr (Some (fmtname path)), VInt (wrap16 (int (get_le 2 8 st))), VInt (wrap32 (int (get_le 4 4 st))), VInt (wrap32 (int (get_le 8 16 st)))] u"

partial_function (option) ls_dir :: "kern \<Rightarrow> string \<Rightarrow> int \<Rightarrow> user \<Rightarrow> user option" where
  "ls_dir K path fd u =
     (let (n, de, u) = sys K (U_read fd 16) u
      in if n \<noteq> 16 then Some u
         else if get_le 2 0 de = 0 then ls_dir K path fd u
         else
           let buf = path @ ''/'' @ cstr (take DIRSIZ (drop 2 de));
               (r, st, u) = ustat K buf u
           in if r < 0 then ls_dir K path fd (uprintf K (''ls: cannot stat %s'' @ NL) [VStr (Some buf)] u)
              else ls_dir K path fd (ls_line K buf st u))"

definition ls :: "kern \<Rightarrow> string \<Rightarrow> user \<Rightarrow> user option" where
  "ls K path u =
     (let (fd, _, u) = sys K (U_open path O_RDONLY) u
      in if fd < 0 then Some (fprintf K 2 (''ls: cannot open %s'' @ NL) [VStr (Some path)] u)
         else
           let (r, st, u) = sys K (U_fstat fd) u
           in if r < 0 then Some (sys_void K (U_close fd) (fprintf K 2 (''ls: cannot stat %s'' @ NL) [VStr (Some path)] u))
              else
                let ty = wrap16 (int (get_le 2 8 st))
                in if ty = T_DEVICE \<or> ty = T_FILE then Some (sys_void K (U_close fd) (ls_line K path st u))
                   else if ty = T_DIR
                   then if length path + 1 + DIRSIZ + 1 > 512 then Some (sys_void K (U_close fd) (uprintf K (''ls: path too long'' @ NL) [] u))
                        else map_option (sys_void K (U_close fd)) (ls_dir K path fd u)
                   else Some (sys_void K (U_close fd) u))"

fun ls_args :: "kern \<Rightarrow> string list \<Rightarrow> user \<Rightarrow> user option" where
  "ls_args K [] u = Some u"
| "ls_args K (a # as) u = Option.bind (ls K a u) (ls_args K as)"

definition ls_main :: "kern \<Rightarrow> string list \<Rightarrow> user \<Rightarrow> user option" where
  "ls_main K argv u = map_option (sys_void K (U_exit 0)) (if length argv < 2 then ls K ''.'' u else ls_args K (tl argv) u)"

section \<open>Reading a file to its end\<close>

text \<open>One read of a delivering kernel: what comes is the next piece, and none only at the end.\<close>

lemma read_step:
  assumes K: "delivers K fd F" and n: "0 < n" and at: "bytes_read fd (u_calls u) = k" "k \<le> length F"
  obtains bs u' where "sys K (U_read fd n) u = (int (length bs), bs, u')" "calls_of u' = calls_of u @ [U_read fd n]"
    "bytes_read fd (u_calls u') = k + length bs" "drop k F = bs @ drop (k + length bs) F" "k + length bs \<le> length F"
    "bs = [] \<longleftrightarrow> k = length F" "u_pbuf u' = u_pbuf u" "u_pfd u' = u_pfd u"
proof -
  obtain r bs where k: "K (u_calls u) (U_read fd n) = (r, bs)" by force
  define u1 where "u1 = u\<lparr>u_calls := u_calls u @ [(U_read fd n, r, bs)]\<rparr>"
  have d: "r = int (length bs)" "bs = take (length bs) (drop k F)" "bs = [] \<longrightarrow> length F \<le> k"
    using K n k at(1) unfolding delivers_def by blast+
  have len: "length bs \<le> length F - k" using arg_cong [OF d(2), of length] by simp
  have dr: "drop k F = bs @ drop (k + length bs) F" using d(2) by (metis add.commute append_take_drop_id drop_drop)
  have "bs = [] \<longleftrightarrow> k = length F" using d(3) at(2) len by auto
  then show ?thesis
    using d(1) len at dr by (intro that [of bs u1]) (simp_all add: sys_def k u1_def calls_of_def bytes_read_def)
qed

text \<open>A kernel that writes everything it is given.\<close>

definition accepts :: "kern \<Rightarrow> int \<Rightarrow> bool" where
  "accepts K fd \<longleftrightarrow> (\<forall>h s. fst (K h (U_write fd s)) = int (length s))"

definition written :: "int \<Rightarrow> ucall list \<Rightarrow> string" where
  "written fd cs = concat (map (\<lambda>c. case c of U_write f s \<Rightarrow> if f = fd then s else [] | _ \<Rightarrow> []) cs)"

lemma written_simps [simp]: "written fd [] = []" "written fd (xs @ ys) = written fd xs @ written fd ys" "written fd (U_write fd s # cs) = s @ written fd cs"
    "written fd (U_read f n # cs) = written fd cs"
  by (simp_all add: written_def)

text \<open>\<open>cat\<close> copies: however the kernel cuts the file into pieces, the loop ends and has written exactly the rest of the file.\<close>

lemma cat_copies:
  assumes K: "delivers K fd F" "accepts K 1"
  shows "bytes_read fd (u_calls u) = k \<Longrightarrow> k \<le> length F \<Longrightarrow>
    \<exists>u'. cat_loop K fd u = Some (True, u') \<and> written 1 (calls_of u') = written 1 (calls_of u) @ drop k F"
proof (induction "length F - k" arbitrary: k u rule: less_induct)
  case less
  obtain bs u1 where r: "sys K (U_read fd 512) u = (int (length bs), bs, u1)" "calls_of u1 = calls_of u @ [U_read fd 512]"
    "bytes_read fd (u_calls u1) = k + length bs" "drop k F = bs @ drop (k + length bs) F" "k + length bs \<le> length F" "bs = [] \<longleftrightarrow> k = length F"
    by (rule read_step [OF K(1) _ less.prems, of 512]) auto
  show ?case
  proof (cases "bs = []")
    case True
    then show ?thesis using r by (subst cat_loop.simps) simp
  next
    case False
    obtain w x u2 where s: "sys K (U_write 1 bs) u1 = (w, x, u2)" by (metis prod_cases3)
    moreover have "fst (K (u_calls u1) (U_write 1 bs)) = int (length bs)" using K(2) by (simp add: accepts_def)
    ultimately have w: "w = int (length bs)" "calls_of u2 = calls_of u1 @ [U_write 1 bs]" "bytes_read fd (u_calls u2) = k + length bs"
      using r(3) by (auto simp: sys_def calls_of_def bytes_read_def split: prod.splits)
    have lt: "length F - (k + length bs) < length F - k" using False r(5) by (cases bs) auto
    obtain u' where "cat_loop K fd u2 = Some (True, u')" "written 1 (calls_of u') = written 1 (calls_of u2) @ drop (k + length bs) F"
      using less.hyps [OF lt w(3) r(5)] by blast
    then show ?thesis using r(1,2,4) s w(1,2) False by (subst cat_loop.simps) simp
  qed
qed

section \<open>\<open>wc\<close> counts\<close>

definition word_starts :: "string \<Rightarrow> nat set" where
  "word_starts s = {i. i < length s \<and> strchr wc_white (s ! i) = None \<and> (i = 0 \<or> strchr wc_white (s ! (i - 1)) \<noteq> None)}"

lemma word_starts_snoc:
  "word_starts (s @ [x]) = word_starts s \<union>
     (if strchr wc_white x = None \<and> (s = [] \<or> strchr wc_white (last s) \<noteq> None) then {length s} else {})"
proof (cases "s = []")
  case True
  then show ?thesis by (auto simp: word_starts_def)
next
  case False
  then have l: "s ! (length s - Suc 0) = last s" by (simp add: last_conv_nth)
  show ?thesis by (rule set_eqI) (use False l in \<open>auto simp: word_starts_def nth_append less_Suc_eq\<close>)
qed

lemma wc_fold:
  "length s < 2 ^ 31 \<Longrightarrow> fold wc_char s (0, 0, 0, False) =
     (int (length (filter (\<lambda>x. x = CHR 0x0A) s)), int (card (word_starts s)), int (length s), s \<noteq> [] \<and> strchr wc_white (last s) = None)"
proof (induction s rule: rev_induct)
  case Nil
  then show ?case by (simp add: word_starts_def)
next
  case (snoc x s)
  have fin: "finite (word_starts s)" "length s \<notin> word_starts s" by (simp_all add: word_starts_def)
  have "word_starts s \<subseteq> {..<length s}" by (auto simp: word_starts_def)
  then have "card (word_starts s) \<le> length s" using card_mono [of "{..<length s}" "word_starts s"] by simp
  moreover have f: "length (filter (\<lambda>x. x = CHR 0x0A) s) \<le> length s" by (rule length_filter_le)
  have "wrap32 (int (length (filter (\<lambda>x. x = CHR 0x0A) s)) + 1) = int (length (filter (\<lambda>x. x = CHR 0x0A) s)) + 1"
  proof (rule wrap32_id)
    have "length s + 1 < 2147483648" using snoc.prems by simp
    then have "int (length (filter (\<lambda>x. x = CHR 0x0A) s)) + 1 < 2147483648" using f by linarith
    then show "int (length (filter (\<lambda>x. x = CHR 0x0A) s)) + 1 < 2 ^ 31" by simp
  qed simp
  ultimately show ?case using snoc fin by (auto simp: wc_char_def word_starts_snoc Let_def)
qed

text \<open>However the file arrives, \<open>wc\<close> ends and prints its lines, words and characters.\<close>

theorem wc_counts:
  assumes K: "delivers K fd F" and u: "bytes_read fd (u_calls u) = 0" "length F < 2 ^ 31"
  shows "\<exists>u1. filter (\<lambda>c. \<not> (\<exists>n. c = U_read fd n)) (calls_of u1) = filter (\<lambda>c. \<not> (\<exists>n. c = U_read fd n)) (calls_of u) \<and>
    u_pbuf u1 = u_pbuf u \<and> u_pfd u1 = u_pfd u \<and>
    wc K fd name u = Some (True, uprintf K (''%d %d %d %s'' @ NL)
      [VInt (int (length (filter (\<lambda>x. x = CHR 0x0A) F))), VInt (int (card (word_starts F))), VInt (int (length F)), VStr (Some name)] u1)"
proof -
  let ?other = "filter (\<lambda>c. \<not> (\<exists>n. c = U_read fd n))"
  have "bytes_read fd (u_calls v) = k \<Longrightarrow> k \<le> length F \<Longrightarrow>
      \<exists>v'. wc_loop K fd s v = Some (0, fold wc_char (drop k F) s, v') \<and> ?other (calls_of v') = ?other (calls_of v) \<and>
        u_pbuf v' = u_pbuf v \<and> u_pfd v' = u_pfd v" for k s and v :: user
  proof (induction "length F - k" arbitrary: k s v rule: less_induct)
    case less
    obtain bs v1 where r: "sys K (U_read fd 512) v = (int (length bs), bs, v1)" "calls_of v1 = calls_of v @ [U_read fd 512]"
      "bytes_read fd (u_calls v1) = k + length bs" "drop k F = bs @ drop (k + length bs) F" "k + length bs \<le> length F" "bs = [] \<longleftrightarrow> k = length F"
      "u_pbuf v1 = u_pbuf v" "u_pfd v1 = u_pfd v"
      by (rule read_step [OF K _ less.prems, of 512]) auto
    show ?case
    proof (cases "bs = []")
      case True
      then show ?thesis using r by (subst wc_loop.simps) simp
    next
      case False
      then have lt: "length F - (k + length bs) < length F - k" using r(5) by (cases bs) auto
      show ?thesis using less.hyps [OF lt r(3,5), of "fold wc_char bs s"] r False by (subst wc_loop.simps) auto
    qed
  qed
  from this [of u 0 "(0, 0, 0, False)"] obtain u1 where "wc_loop K fd (0, 0, 0, False) u = Some (0, fold wc_char F (0, 0, 0, False), u1)"
    "?other (calls_of u1) = ?other (calls_of u)" "u_pbuf u1 = u_pbuf u" "u_pfd u1 = u_pfd u" using u(1) by auto
  then show ?thesis using wc_fold [OF u(2)] by (auto simp: wc_def)
qed

section \<open>\<open>init\<close> starts its programs in order\<close>

text \<open>Calls of the loop that keeps a shell running; output and \<open>exit\<close> besides.\<close>

definition shell_call :: "ucall \<Rightarrow> bool" where
  "shell_call c \<longleftrightarrow> c \<in> {U_fork, U_wait, U_exec ''sh'' [''sh'']} \<or> (\<exists>s. c = U_write 1 s) \<or> (\<exists>n. c = U_exit n)"

definition extends :: "(ucall \<Rightarrow> bool) \<Rightarrow> user \<Rightarrow> user \<Rightarrow> bool" where
  "extends P u u' \<longleftrightarrow> u_pbuf u' = [] \<and> (\<exists>cs. calls_of u' = calls_of u @ cs \<and> (\<forall>c \<in> set cs. P c))"

lemma extends_trans: "extends P u v \<Longrightarrow> extends P v w \<Longrightarrow> extends P u w"
  by (auto simp: extends_def)

lemma extends_sys: "sys K c u = (r, bs, u') \<Longrightarrow> u_pbuf u = [] \<Longrightarrow> P c \<Longrightarrow> extends P u u'"
  by (auto simp: extends_def dest: sys_calls)

lemma extends_void: "u_pbuf u = [] \<Longrightarrow> P c \<Longrightarrow> extends P u (sys_void K c u)"
  by (auto simp: extends_def)

lemma extends_print: "u_pbuf u = [] \<Longrightarrow> (\<And>s. P (U_write 1 s)) \<Longrightarrow> extends P u (uprintf K fmt ap u)"
  using vprintf_out_state [of 1 u K fmt ap] by (auto simp: extends_def uprintf_def)

lemmas extends_intros = extends_sys extends_void extends_print

lemma extends_pbuf: "extends P u u' \<Longrightarrow> u_pbuf u' = []"
  by (simp add: extends_def)

lemma init_child_extends:
  assumes "u_pbuf u = []"
  shows "extends (\<lambda>c. c = U_exec path argv \<or> (\<exists>s. c = U_write 1 s) \<or> (\<exists>n. c = U_exit n)) u (init_child K path argv msg u)"
proof -
  obtain r bs u1 where s: "sys K (U_exec path argv) u = (r, bs, u1)" by (metis prod_cases3)
  let ?P = "\<lambda>c. c = U_exec path argv \<or> (\<exists>s. c = U_write 1 s) \<or> (\<exists>n. c = U_exit n)"
  have e1: "extends ?P u u1" using extends_sys [OF s assms] by simp
  have e2: "extends ?P u1 (uprintf K (msg @ NL) [] u1)" by (rule extends_print [OF extends_pbuf [OF e1]]) simp
  have "extends ?P (uprintf K (msg @ NL) [] u1) (sys_void K (U_exit 1) (uprintf K (msg @ NL) [] u1))"
    by (rule extends_void [OF extends_pbuf [OF e2]]) simp
  then show ?thesis using s e1 extends_trans [OF extends_trans [OF e1 e2]] by (simp add: init_child_def)
qed

lemma init_wait_extends:
  assumes "init_wait K pid u = Some r"
  shows "u_pbuf u = [] \<longrightarrow> extends shell_call u (snd r)"
  using assms
proof (induction rule: init_wait.raw_induct [rotated 1, consumes 1, case_names step])
  case (step f K pid u r)
  obtain w bs u1 where s: "sys K U_wait u = (w, bs, u1)" by (metis prod_cases3)
  let ?p = "uprintf K (''init: wait returned an error'' @ NL) [] u1"
  show ?case
  proof
    assume "u_pbuf u = []"
    then have e1: "extends shell_call u u1" by (rule extends_sys [OF s]) (simp add: shell_call_def)
    have e2: "extends shell_call u1 ?p" by (rule extends_print [OF extends_pbuf [OF e1]]) (simp add: shell_call_def)
    have e3: "extends shell_call ?p (sys_void K (U_exit 1) ?p)"
      by (rule extends_void [OF extends_pbuf [OF e2]]) (simp add: shell_call_def)
    have "f K pid u1 = Some r \<longrightarrow> extends shell_call u1 (snd r)" using step(1) [of K pid u1 r] extends_pbuf [OF e1] by blast
    then show "extends shell_call u (snd r)"
      using step(2) s e1 extends_trans [OF extends_trans [OF e1 e2] e3] extends_trans [OF e1] by (auto split: if_splits)
  qed
qed

lemma init_loop_extends:
  assumes "init_loop K u = Some u'"
  shows "u_pbuf u = [] \<longrightarrow> extends shell_call u u'"
  using assms
proof (induction rule: init_loop.raw_induct [rotated 1, consumes 1, case_names step])
  case (step f K u u')
  let ?p = "uprintf K (''init: starting sh'' @ NL) [] u"
  obtain pid bs u1 where s: "sys K U_fork ?p = (pid, bs, u1)" by (metis prod_cases3)
  show ?case
  proof
    assume "u_pbuf u = []"
    then have e0: "extends shell_call u ?p" by (rule extends_print) (simp add: shell_call_def)
    have e1: "extends shell_call u u1"
      by (rule extends_trans [OF e0 extends_sys [OF s extends_pbuf [OF e0]]]) (simp add: shell_call_def)
    consider "pid < 0" | "pid = 0" | "0 < pid" by linarith
    then show "extends shell_call u u'"
    proof cases
      case 1
      let ?q = "uprintf K (''init: fork failed'' @ NL) [] u1"
      have e2: "extends shell_call u1 ?q" by (rule extends_print [OF extends_pbuf [OF e1]]) (simp add: shell_call_def)
      have "extends shell_call ?q (sys_void K (U_exit 1) ?q)"
        by (rule extends_void [OF extends_pbuf [OF e2]]) (simp add: shell_call_def)
      then show ?thesis using step(2) s 1 extends_trans [OF extends_trans [OF e1 e2]] by (simp add: Let_def)
    next
      case 2
      have "extends shell_call u1 (init_child K ''sh'' [''sh''] ''init: exec sh failed'' u1)"
        using init_child_extends [OF extends_pbuf [OF e1], of "''sh''" "[''sh'']" K "''init: exec sh failed''"]
        unfolding extends_def shell_call_def by blast
      then show ?thesis using step(2) s 2 extends_trans [OF e1] by (simp add: Let_def)
    next
      case 3
      then obtain go u2 where w: "init_wait K pid u1 = Some (go, u2)" "if go then f K u2 = Some u' else u' = u2"
        using step(2) s by (auto simp: Let_def bind_eq_Some_conv split: if_splits)
      have e2: "extends shell_call u u2" using init_wait_extends [OF w(1)] extends_pbuf [OF e1] extends_trans [OF e1] by simp
      then show ?thesis using w(2) step(1) [of K u2 u'] extends_pbuf [OF e2] extends_trans [OF e2] by (cases go) auto
    qed
  qed
qed

text \<open>
  Only a process that has waited for the child that loads the saved deny list becomes \<open>agentd\<close>: its calls are those of the
  console set-up, the fork and wait for \<open>denyctl load\<close>, a second fork and the exec.
\<close>

theorem init_loads_policy_first:
  assumes "init_main K u = Some u'" "u_pbuf u = []" "U_exec ''agentd'' av \<in> set (calls_of u')" "U_exec ''agentd'' av \<notin> set (calls_of u)"
  shows "av = [''agentd''] \<and> (\<exists>cs. calls_of u' = calls_of (init_console K u) @ [U_fork, U_wait, U_fork, U_exec ''agentd'' [''agentd'']] @ cs)"
proof -
  let ?c = "init_console K u"
  obtain fd x u0 where o: "sys K (U_open ''console'' O_RDWR) u = (fd, x, u0)" by (metis prod_cases3)
  have c: "u_pbuf ?c = []" "U_exec ''agentd'' av \<notin> set (calls_of ?c)"
    using sys_calls [OF o] assms(2,4) o by (auto simp: init_console_def Let_def)
  obtain p1 b1 u1 where s1: "sys K U_fork ?c = (p1, b1, u1)" by (metis prod_cases3)
  note f1 = sys_calls [OF s1]
  define u2 where "u2 = sys_void K U_wait u1"
  obtain p2 b2 u3 where s2: "sys K U_fork u2 = (p2, b2, u3)" by (metis prod_cases3)
  note f2 = sys_calls [OF s2]
  have u3: "u_pbuf u3 = []" "calls_of u3 = calls_of ?c @ [U_fork, U_wait, U_fork]" using f1 f2 c(1) by (simp_all add: u2_def)
  have "p1 \<noteq> 0"
  proof
    assume "p1 = 0"
    then have "u' = init_child K ''denyctl'' [''denyctl'', ''load''] ''init: exec denyctl failed'' u1"
      using assms(1) s1 by (simp add: init_main_def Let_def)
    then have "extends (\<lambda>c. c = U_exec ''denyctl'' [''denyctl'', ''load''] \<or> (\<exists>s. c = U_write 1 s) \<or> (\<exists>n. c = U_exit n)) u1 u'"
      using init_child_extends [of u1] f1 c(1) by simp
    then show False using assms(3) f1 c(2) by (auto simp: extends_def)
  qed
  moreover have "p2 = 0"
  proof (rule ccontr)
    assume "p2 \<noteq> 0"
    then have "init_loop K u3 = Some u'" using assms(1) s1 s2 \<open>p1 \<noteq> 0\<close> by (simp add: init_main_def Let_def u2_def)
    then have "extends shell_call u3 u'" using init_loop_extends u3(1) by blast
    then obtain cs where "calls_of u' = calls_of u3 @ cs" "\<forall>c \<in> set cs. shell_call c" unfolding extends_def by blast
    moreover have "\<not> shell_call (U_exec ''agentd'' av)" by (simp add: shell_call_def)
    ultimately have "U_exec ''agentd'' av \<in> set (calls_of u3)" using assms(3) by (metis Un_iff set_append)
    then show False using u3(2) c(2) by simp
  qed
  ultimately have u': "u' = init_child K ''agentd'' [''agentd''] ''init: exec agentd failed'' u3"
    using assms(1) s1 s2 by (simp add: init_main_def Let_def u2_def)
  obtain r b u4 where s3: "sys K (U_exec ''agentd'' [''agentd'']) u3 = (r, b, u4)" by (metis prod_cases3)
  note f3 = sys_calls [OF s3]
  have "u_pbuf u4 = []" using f3 u3(1) by simp
  then obtain ws where ws: "calls_of (uprintf K (''init: exec agentd failed'' @ NL) [] u4) = calls_of u4 @ map (U_write 1) ws"
    using vprintf_out_state [OF zero_le_one, of u4 K "''init: exec agentd failed'' @ NL" "[]"] unfolding uprintf_def by blast
  let ?cs = "if r \<ge> 0 then [] else map (U_write 1) ws @ [U_exit 1]"
  have "calls_of u' = calls_of u4 @ ?cs" using u' s3 ws by (simp add: init_child_def)
  then have cs: "calls_of u' = calls_of ?c @ [U_fork, U_wait, U_fork, U_exec ''agentd'' [''agentd'']] @ ?cs" using f3 u3(2) by simp
  then have "av = [''agentd'']" using assms(3) c(2) by (auto split: if_splits)
  then show ?thesis using cs by blast
qed

end
