(* ===== verification/Spec2Isabelle.thy ===== *)
theory Spec2Isabelle
  imports Pagetable Confine Journal Exec_Safe Denyctl Paths Pipe_Copy Confirm_Wait Virtio Malloc Grep Sh_Parse Boot Utils
begin

text \<open>
  A verification development for the agent-extended xv6 in \<open>src/xv6-riscv\<close>: the RISC-V teaching kernel with a
  CFS-like scheduler, a path for commands that a language model sends over the serial line (REQ lines),
  a deny list, a confirmation gate for dangerous system calls, a response cache with MinHash lookup, a
  chroot jail, and the user programs that use them, above all the jailed runtime \<open>agentd\<close>.

  \<^bold>\<open>How the parts work together.\<close>  A character from the serial line enters \<open>consoleintr\<close>; a complete REQ line
  goes to \<open>agent_dispatch\<close>, which answers a pending confirmation at once and queues every other line.  In process context
  \<open>agent_drain\<close> routes the queued lines: cache commands are handled in the kernel, answers of the model are put
  unchecked into the queue that \<open>agentd\<close> reads with \<open>agent_recv\<close>, and every other command is checked against the deny list and forwarded
  to that queue.  \<open>agentd\<close> runs inside a jail; when it or a child of it calls exec, kill or mknod, \<open>syscall\<close> asks the host
  through \<open>confirm_request\<close>.  Beneath are processes and scheduling, traps, virtual memory, the file system, its
  log and buffer cache, and locks.

  \<^bold>\<open>Modelling conventions.\<close>  A \<open>char *\<close> is the list of characters from the pointer on, whose end reads as NUL; a function
  that writes a buffer returns the new buffer.  Integers that wrap are words, an \<open>int\<close> that can overflow is wrapped
  explicitly.  \<open>None\<close> is a panic, or a wait that the execution of one process cannot leave.  A function
  that sleeps returns \<open>Sleep\<close> with what it needs to be re-entered after the wakeup.  A section under a
  lock is one atomic step; theory \<open>Locks\<close> shows that locks exclude each other.  The
  kernel's tables are fields of one record \<open>kernel\<close>, pointers into tables are indices, sleep channels are values of \<open>wchan\<close>.  File-system
  code works on \<open>k_blocks\<close>, the contents of a block as \<open>bread\<close> delivers it; theory \<open>Bio\<close> shows that the
  buffer cache provides this view.  A user program runs against an arbitrary kernel, a function from the calls so far to
  the next reply.

  \<^bold>\<open>Theories, sources and what is shown.\<close>
  \<^item> \<open>Prelude\<close>: integers, panics, list lemmas.  \<open>Cstring\<close> (string.c): memmove for every overlap, bounded copies.  \<open>Bytes\<close>: little-endian
    cells of memory and of blocks, with one locale \<open>cell_store\<close> for the three widths.
  \<^item> \<open>Denylist\<close> (agentcmd.c, deny.h): the fixed table refines a bounded ordered set; locale \<open>command_filter\<close>.
  \<^item> \<open>Ring\<close>, \<open>Agentcmd\<close> (agentcmd.c): both rings are bounded FIFO queues (locale \<open>bounded_queue\<close>, also interpreted for pipes); whatever arrives
    while it runs, draining forwards the host commands that are not denied and, unchecked, the answers of the model, and it ends.
  \<^item> \<open>Confirm\<close> (confirm.c): in every interleaving a request is granted only on the host's word for that pid.
    \<open>Confirm_Wait\<close>: with the clock interrupt and the scheduler, every pending request returns.
  \<^item> \<open>Minhash\<close>, \<open>Cache\<close> (cache.c): signatures are the MinHash of the content words; lookups return what was stored, eviction is LRU, hostile
    disk files are harmless.
  \<^item> \<open>Kernel\<close> (the headers), \<open>Printf\<close> (printf.c), \<open>Console\<close> (console.c, uart.c): the input handler refines a line editor.
  \<^item> \<open>Sched\<close> (proc.c): leftmost-first choice, no starvation, wakeups, weights.
  \<^item> \<open>Kalloc\<close>, \<open>Vm\<close>, \<open>Pagetable\<close> (kalloc.c, vm.c): pages are neither lost nor handed out twice (locale \<open>page_allocator\<close>); page-table walks and
    mappings against an abstract map.
  \<^item> \<open>Fs\<close>, \<open>Fs_Frame\<close> (fs.c, the interface of log.c), \<open>Pipe\<close>, \<open>File\<close>, \<open>Refs\<close> (pipe.c, file.c): pipes keep the order of bytes; \<open>Pipe_Copy\<close> ties them to the
    buffers in user memory; reference counts are exact (locale
    \<open>ref_table\<close>, for open files and for inodes).  \<open>Paths\<close>: path lookup refines a walk over the directory tree on disk, and a jailed
    process cannot name a file outside its jail.
  \<^item> \<open>Locks\<close> (spinlock.c, sleeplock.c): mutual exclusion and interrupt state on interleaving CPUs.
    \<open>Bio\<close> (bio.c), \<open>Journal\<close> (log.c): the buffer cache keeps one valid copy per block; a commit is atomic across crashes at every write.
    \<open>Virtio\<close> (virtio_disk.c, virtio.h): in every interleaving of requests, the device and its interrupts, descriptors are neither lost nor shared, no
    panic is reached, every transfer is the one asked for, and no waiter is left asleep on a finished request.
  \<^item> \<open>Proc\<close>, \<open>Sysproc\<close>, \<open>Sysfile\<close>, \<open>Exec\<close>, \<open>Syscall\<close>, \<open>Trap\<close> (proc.c, sysproc.c, sysfile.c, exec.c, syscall.c, trap.c, plic.c): every system
    call, the dispatcher with its gate, traps and interrupts.  \<open>Exec_Safe\<close>: exec is all or nothing.
  \<^item> \<open>Kvm\<close> (kvmmake in vm.c, proc_mapstacks in proc.c): the kernel's address space is that of memlayout.h, with guard pages below the stacks.
    \<open>Boot\<close> (main.c, start.c, the set-up of UART and PLIC, forkret): with enough memory booting reaches the scheduler with one process, in a
    state from which the histories of \<open>Confine\<close> start.
  \<^item> \<open>Proc_Frame\<close>, \<open>Confine\<close>: what each operation may do to the process table, and by rule induction over
    histories of traps, interrupts and scheduling: the table stays consistent and agents stay confined.
  \<^item> \<open>User\<close> (user/printf.c), \<open>Agentd\<close>, \<open>Agentd_Calls\<close> (user/agentd.c), \<open>Denyctl\<close> (user/denyctl.c): buffered output, which calls the
    runtime makes, that it serves only after \<open>jail\<close> succeeded, that it runs no denied command of a host line, and the round trip of the saved deny list.
  \<^item> \<open>Ulib\<close> (user/ulib.c), \<open>Malloc\<close> (user/umalloc.c): in every history of calls the blocks that programs hold are apart, and malloc and free
    return.  \<open>Grep\<close> (user/grep.c): the matcher decides the language of its pattern, and the program prints exactly the matching lines.
    \<open>Utils\<close> (init.c, cat.c, wc.c, ls.c and smaller ones): \<open>agentd\<close> starts only after the saved policy was loaded, \<open>cat\<close> copies, \<open>wc\<close> counts.
    \<open>Sh\<close>, \<open>Sh_Parse\<close> (user/sh.c): the parser reads back every printed command, and ending the words in place damages none of them.

  \<^bold>\<open>Bounds and fuel.\<close>  \<open>freewalk\<close> recurses over the three levels of a page table.  \<open>agent_drain_locked\<close> is given one turn more than lines
  wait or arrive, which is shown to be enough; \<open>agent_drain\<close> has \<open>AGENT_Q_LEN\<close> turns.  In traps and console reads the drain is the run without arrivals:
  lines that arrive meanwhile are then dispatched before or after it, and \<open>agentd\<close> taking lines from its queue on another CPU, which only frees slots, is not interleaved with one drain.  The recursive parser of the shell has fuel \<open>4 * length s + 4\<close>, shown to be enough for every line.  The
  allocator theorem holds for requests below \<open>2 ^ 31 - 31\<close> bytes on a heap below \<open>2 ^ 36\<close>.  Loops of user programs that depend on replies of the kernel are option-valued
  and \<open>None\<close> when they never end.  Pids are assumed not to wrap: the histories of \<open>Confine\<close> keep
  \<open>nextpid\<close> positive.  The crash theorem asks for two unpinned buffers.  The kernel map takes at most 103 tables and 512 stack pages, so 616 free pages
  are enough for it and 800 for the whole boot.

  \<^bold>\<open>Not modelled.\<close>  Assembly (entry, trampoline, kernelvec, swtch) is outside C, and so are the one-instruction access functions of riscv.h, which appear as
  reads and updates of fields.  The polling of the UART's status register is hardware access.  Initialisers that only set up a spin lock have no
  definition, because theory \<open>Locks\<close> treats locks apart.  \<open>mkfs\<close> runs on the host when the image is built.  The test and benchmark programs
  (usertests.c, grind.c, eval.c and others) exercise the system and hold no logic of it.  Python tools and scripts around the system are not modelled.
\<close>

end
